(* ===== verification/DTC_Prelude.thy ===== *)
theory DTC_Prelude
  imports Main "HOL-Library.Word"
begin

text \<open>
  Shared ground of the development: the C integer types as the code uses them, the
  arithmetic of the masks in \<open>cache/mallocator.h\<close>, and the list facts that the component
  theories rest on.

  Sizes (\<open>ALLOC_SIZE_T\<close>, \<open>uint32_t\<close>) and handles (\<open>ALLOC_HANDLE_T\<close>, \<open>uint64_t\<close>) are
  natural numbers with the truncation to the width of the C type written out where the code
  stores into it; words of HOL-Library.Word are used where the code works bit by bit.
\<close>

unbundle bit_operations_syntax

named_theorems heap_simps "read-over-write equations of the shared memory"

section \<open>Fixed width integers\<close>

type_synonym handle = nat

definition u8 :: "nat \<Rightarrow> nat" where
  "u8 x = x mod 2 ^ 8"

definition u16 :: "nat \<Rightarrow> nat" where
  "u16 x = x mod 2 ^ 16"

definition u32 :: "nat \<Rightarrow> nat" where
  "u32 x = x mod 2 ^ 32"

definition u64 :: "nat \<Rightarrow> nat" where
  "u64 x = x mod 2 ^ 64"

definition u32_sub :: "nat \<Rightarrow> nat \<Rightarrow> nat" where
  "u32_sub a b = (a + 2 ^ 32 - b mod 2 ^ 32) mod 2 ^ 32"

definition u64_sub :: "nat \<Rightarrow> nat \<Rightarrow> nat" where
  "u64_sub a b = (a + 2 ^ 64 - b mod 2 ^ 64) mod 2 ^ 64"

lemma u8_id [simp]: "x < 256 \<Longrightarrow> u8 x = x"
  by (simp add: u8_def)

lemma u16_id [simp]: "x < 65536 \<Longrightarrow> u16 x = x"
  by (simp add: u16_def)

lemma u32_id [simp]: "x < 4294967296 \<Longrightarrow> u32 x = x"
  by (simp add: u32_def)

lemma u32_less [simp]: "u32 x < 4294967296"
  by (simp add: u32_def)

lemma u64_id [simp]: "x < 18446744073709551616 \<Longrightarrow> u64 x = x"
  by (simp add: u64_def)

lemma u32_sub_less [simp]: "u32_sub a b < 4294967296"
  by (simp add: u32_sub_def)

lemma u32_sub_eq [simp]:
  assumes "b \<le> a" "a < 4294967296"
  shows "u32_sub a b = a - b"
proof -
  from assms have eq: "a + 2 ^ 32 - b mod 2 ^ 32 = (a - b) + 2 ^ 32" by simp
  from assms show ?thesis unfolding u32_sub_def eq mod_add_self2 by simp
qed

lemma u64_sub_eq [simp]:
  assumes "b \<le> a" "a < 18446744073709551616"
  shows "u64_sub a b = a - b"
proof -
  from assms have eq: "a + 2 ^ 64 - b mod 2 ^ 64 = (a - b) + 2 ^ 64" by simp
  from assms show ?thesis unfolding u64_sub_def eq mod_add_self2 by simp
qed

section \<open>The alignment masks\<close>

text \<open>
  \<open>x & ~7\<close> and \<open>x & 7\<close> on a natural number; the two lemmas tie the arithmetic to the
  bit operations of the source.
\<close>

definition mask8 :: "nat \<Rightarrow> nat" where
  "mask8 x = x - x mod 8"

definition or1 :: "nat \<Rightarrow> nat" where
  "or1 x = (if odd x then x else x + 1)"

definition clear1 :: "nat \<Rightarrow> nat" where
  "clear1 x = (if odd x then x - 1 else x)"

lemma mask8_le: "mask8 x \<le> x"
  by (simp add: mask8_def)

lemma mask8_dvd [simp]: "8 dvd mask8 x"
  by (simp add: mask8_def dvd_minus_mod)

lemma mask8_id [simp]: "8 dvd x \<Longrightarrow> mask8 x = x"
  by (auto simp: mask8_def)

lemma mask8_mult: "mask8 x = 8 * (x div 8)"
  by (simp add: mask8_def minus_mod_eq_mult_div)

lemma mask8_add_small:
  assumes "8 dvd x" "y < 8"
  shows "mask8 (x + y) = x"
  using assms by (auto simp: mask8_mult elim!: dvdE)

lemma mask8_Suc [simp]: "8 dvd x \<Longrightarrow> mask8 (Suc x) = x"
  using mask8_add_small [of x 1] by simp

lemma mod8_Suc: "8 dvd x \<Longrightarrow> Suc x mod 8 = 1"
  by presburger

lemma even_if_8dvd: "8 dvd (x::nat) \<Longrightarrow> even x"
  by (rule dvd_trans [of 2 8 x]) simp_all

lemma mask8_or1 [simp]: "mask8 (or1 x) = mask8 x"
proof (cases "odd x")
  case True
  then show ?thesis by (simp add: or1_def)
next
  case False
  then have "Suc x div 8 = x div 8" by presburger
  with False show ?thesis by (simp add: or1_def mask8_mult)
qed

lemma mask8_clear1 [simp]: "mask8 (clear1 x) = mask8 x"
proof (cases "odd x")
  case False
  then show ?thesis by (simp add: clear1_def)
next
  case True
  then obtain k where k: "x = 2 * k + 1" by (elim oddE)
  have "2 * k div 8 = Suc (2 * k) div 8" by presburger
  with True k show ?thesis by (simp add: clear1_def mask8_mult)
qed

lemma odd_or1 [simp]: "odd (or1 x)"
  by (simp add: or1_def)

lemma even_clear1 [simp]: "even (clear1 x)"
  by (simp add: clear1_def)

lemma mask8_bits:
  assumes "8 dvd n"
  shows "mask8 (n + x mod 8) = n" and "odd (n + x mod 8) = odd x"
proof -
  show "mask8 (n + x mod 8) = n" using assms by (simp add: mask8_add_small)
  have "even n" using assms by (rule even_if_8dvd)
  moreover have "odd (x mod 8) = odd x" by presburger
  ultimately show "odd (n + x mod 8) = odd x" by simp
qed

lemma mask8_word: "unat (w AND NOT 7 :: 32 word) = mask8 (unat w)"
proof -
  have m: "w AND 7 = take_bit 3 w" by (simp add: take_bit_eq_mask mask_eq_exp_minus_1)
  have "w - (w AND 7) = w AND NOT (w AND 7)"
    by (rule disjunctive_diff_eq_and_not) (simp add: bit_eq_iff bit_simps)
  moreover have "w AND NOT (w AND 7) = w AND NOT 7"
    by (simp add: bit_eq_iff bit_simps) blast
  ultimately have "w AND NOT 7 = w - (w AND 7)" by simp
  moreover have "unat (w AND 7) = unat w mod 8"
    by (simp add: m take_bit_eq_mod unat_mod)
  moreover have "w AND 7 \<le> w" by (simp add: word_and_le2)
  ultimately show ?thesis by (simp add: unat_sub mask8_def)
qed

lemma or1_word: "unat (w OR 1 :: 32 word) = or1 (unat w)"
proof (cases "odd w")
  case True
  then have "w OR 1 = w" by (simp add: or_one_eq)
  moreover from True have "odd (unat w)" by transfer (simp add: even_take_bit_eq even_nat_iff)
  ultimately show ?thesis by (simp add: or1_def)
next
  case False
  then have "w OR 1 = w + 1" by (simp add: or_one_eq)
  moreover from False have e: "even (unat w)"
    by transfer (simp add: even_take_bit_eq even_nat_iff)
  moreover have "unat (w + 1) = unat w + 1"
  proof -
    have "unat w < 2 ^ 32" using unsigned_less [of w] by simp
    moreover have "unat w + 1 \<noteq> 2 ^ 32" using e by (metis even_plus_one_iff even_numeral even_power zero_less_numeral)
    ultimately have "unat w + 1 < 2 ^ 32" by linarith
    then show ?thesis by (simp add: unat_word_ariths)
  qed
  ultimately show ?thesis by (simp add: or1_def)
qed

section \<open>Lists\<close>

lemma sum_list_map_append [simp]:
  "sum_list (map f (xs @ ys)) = sum_list (map f xs) + (sum_list (map f ys) :: nat)"
  by simp

end
