(* ===== verification/Bin_Malloc.thy ===== *)
theory Bin_Malloc
  imports DTC_Prelude
begin

text \<open>
  The shared memory allocator of \<open>cache/bin_malloc.cc\<close> and \<open>cache/bin_malloc.h\<close> (class
  \<open>CBinMalloc\<close>): the chunk headers, the bins, the bitmap of non-empty bins, and every
  operation on them.  The layout is that of a 64-bit build (\<open>sizeof(CMemHead) = 1024\<close>,
  \<open>MINSIZE = 24\<close>); \<open>BIN_MEM_CHECK\<close> is off.

  Memory is a typed heap: \<open>m_mem\<close> gives the \<open>CMallocChunk\<close> at every handle (an offset from
  \<open>m_pBaseAddr\<close>) and \<open>m_user\<close> the payload bytes.  A pointer into the segment is its offset,
  \<open>NULL\<close> is \<open>None\<close>.  The diagnostic buffer \<open>m_szErr\<close> is not represented.
\<close>

section \<open>Data\<close>

record CMallocChunk =
  m_tPreSize :: nat
  m_tSize :: nat
  m_hPreChunk :: handle
  m_hNextChunk :: handle

record CBin =
  bin_hPreChunk :: handle
  bin_hNextChunk :: handle

record CMemHead =
  m_auiSign :: "nat list"
  m_ushVer :: nat
  m_ushHeadSize :: nat
  hd_tSize :: nat
  m_tUserAllocSize :: nat
  m_tUserAllocChunkCnt :: nat
  m_uiFlags :: nat
  m_hBottom :: handle
  m_hReserveZone :: handle
  m_hTop :: handle
  m_tLastFreeChunkSize :: nat
  m_ushBinCnt :: nat
  m_ushFastBinCnt :: nat
  m_auiBinBitMap :: "32 word list"
  m_shmIntegrity :: nat
  m_achReserv :: "nat \<Rightarrow> 32 word"

record CBinMalloc =
  m_pstHead :: CMemHead
  m_ptBin :: "nat \<Rightarrow> CBin"
  m_ptFastBin :: "nat \<Rightarrow> CBin"
  m_ptUnsortedBin :: CBin
  m_mem :: "handle \<Rightarrow> CMallocChunk"
  m_user :: "handle \<Rightarrow> nat"
  statChunkTotal :: nat
  statDataSize :: nat
  statMemoryTop :: nat
  statTmpDataSizeRecently :: nat
  statTmpDataAllocCountRecently :: nat
  statAverageDataSizeRecently :: nat
  minChunkSize :: nat

datatype binref = SBin nat | FBin nat | UBin

section \<open>Constants and size macros\<close>

definition INVALID_HANDLE :: handle where "INVALID_HANDLE = 0"
definition MALLOC_ALIGN_MASK :: nat where "MALLOC_ALIGN_MASK = 7"
definition MAX_ALLOC_SIZE :: nat where "MAX_ALLOC_SIZE = 4294967288"
definition MINSIZE :: nat where "MINSIZE = 24"
definition NBINS :: nat where "NBINS = 128"
definition NFASTBINS :: nat where "NFASTBINS = 64"
definition MIN_LARGE_SIZE :: nat where "MIN_LARGE_SIZE = 512"
definition TTC_RESERVE_SIZE :: nat where "TTC_RESERVE_SIZE = 4096"
definition TTC_VER_MIN :: nat where "TTC_VER_MIN = 4"
definition SIZEOF_CMemHead :: nat where "SIZEOF_CMemHead = 1024"
definition SIZEOF_CBin :: nat where "SIZEOF_CBin = 16"
definition MAXSTATCOUNT :: nat where "MAXSTATCOUNT = 432000000"
definition EC_NO_MEM :: int where "EC_NO_MEM = 2041"
definition EC_KEY_EXIST :: int where "EC_KEY_EXIST = 2042"

definition V4Sign :: "nat list" where
  "V4Sign = [0, 0x4D635474, 1, 0xFFFFFFFF, 0xFFFFFFFF, 0xFFFFFFFF, 4, 0, 16,
             0xFFFFFFFF, 0, 0, 0xFFFFFFFF, 0xFFFFFFFF]"

definition chunk2mem :: "handle \<Rightarrow> handle" where
  "chunk2mem h = h + 8"

definition mem2chunk :: "handle \<Rightarrow> handle" where
  "mem2chunk h = h - 8"

text \<open>\<open>(ALLOC_SIZE_T)(size - sizeof(ALLOC_SIZE_T))\<close>, the wrap of a size below 4 included.\<close>

definition chunksize2memsize :: "nat \<Rightarrow> nat" where
  "chunksize2memsize sz = u32_sub sz 4"

definition REQUEST_OUT_OF_RANGE :: "nat \<Rightarrow> bool" where
  "REQUEST_OUT_OF_RANGE req \<longleftrightarrow> req \<ge> 4294967248"

definition request2size :: "nat \<Rightarrow> nat" where
  "request2size req =
     (if req + 8 + MALLOC_ALIGN_MASK < MINSIZE then MINSIZE
      else mask8 (req + 8 + MALLOC_ALIGN_MASK))"

definition REAL_SIZE :: "nat \<Rightarrow> nat" where
  "REAL_SIZE sz = mask8 sz"

definition in_smallbin_range :: "nat \<Rightarrow> bool" where
  "in_smallbin_range sz \<longleftrightarrow> sz < MIN_LARGE_SIZE"

definition smallbin_index :: "nat \<Rightarrow> nat" where
  "smallbin_index sz = sz div 8"

definition largebin_index :: "nat \<Rightarrow> nat" where
  "largebin_index sz =
     (if sz div 64 \<le> 32 then 56 + sz div 64
      else if sz div 512 \<le> 20 then 91 + sz div 512
      else if sz div 4096 \<le> 10 then 110 + sz div 4096
      else if sz div 32768 \<le> 4 then 119 + sz div 32768
      else if sz div 262144 \<le> 2 then 124 + sz div 262144
      else 126)"

definition bin_index :: "nat \<Rightarrow> nat" where
  "bin_index sz = (if in_smallbin_range sz then smallbin_index sz else largebin_index sz)"

definition CAN_COMBILE :: "nat \<Rightarrow> nat \<Rightarrow> bool" where
  "CAN_COMBILE sz add \<longleftrightarrow> sz + add \<le> MAX_ALLOC_SIZE"

section \<open>Memory access\<close>

abbreviation tPreSize :: "CBinMalloc \<Rightarrow> handle \<Rightarrow> nat" where
  "tPreSize st h \<equiv> m_tPreSize (m_mem st h)"

abbreviation tSize :: "CBinMalloc \<Rightarrow> handle \<Rightarrow> nat" where
  "tSize st h \<equiv> m_tSize (m_mem st h)"

abbreviation hPre :: "CBinMalloc \<Rightarrow> handle \<Rightarrow> handle" where
  "hPre st h \<equiv> m_hPreChunk (m_mem st h)"

abbreviation hNext :: "CBinMalloc \<Rightarrow> handle \<Rightarrow> handle" where
  "hNext st h \<equiv> m_hNextChunk (m_mem st h)"

abbreviation hTop :: "CBinMalloc \<Rightarrow> handle" where
  "hTop st \<equiv> m_hTop (m_pstHead st)"

abbreviation hBottom :: "CBinMalloc \<Rightarrow> handle" where
  "hBottom st \<equiv> m_hBottom (m_pstHead st)"

abbreviation memSize :: "CBinMalloc \<Rightarrow> nat" where
  "memSize st \<equiv> hd_tSize (m_pstHead st)"

definition set_tSize :: "handle \<Rightarrow> nat \<Rightarrow> CBinMalloc \<Rightarrow> CBinMalloc" where
  "set_tSize h v st = st\<lparr>m_mem := (m_mem st)(h := (m_mem st h)\<lparr>m_tSize := v\<rparr>)\<rparr>"

definition set_tPreSize :: "handle \<Rightarrow> nat \<Rightarrow> CBinMalloc \<Rightarrow> CBinMalloc" where
  "set_tPreSize h v st = st\<lparr>m_mem := (m_mem st)(h := (m_mem st h)\<lparr>m_tPreSize := v\<rparr>)\<rparr>"

definition set_hPre :: "handle \<Rightarrow> handle \<Rightarrow> CBinMalloc \<Rightarrow> CBinMalloc" where
  "set_hPre h v st = st\<lparr>m_mem := (m_mem st)(h := (m_mem st h)\<lparr>m_hPreChunk := v\<rparr>)\<rparr>"

definition set_hNext :: "handle \<Rightarrow> handle \<Rightarrow> CBinMalloc \<Rightarrow> CBinMalloc" where
  "set_hNext h v st = st\<lparr>m_mem := (m_mem st)(h := (m_mem st h)\<lparr>m_hNextChunk := v\<rparr>)\<rparr>"

definition set_head :: "(CMemHead \<Rightarrow> CMemHead) \<Rightarrow> CBinMalloc \<Rightarrow> CBinMalloc" where
  "set_head f st = st\<lparr>m_pstHead := f (m_pstHead st)\<rparr>"

fun get_bin :: "CBinMalloc \<Rightarrow> binref \<Rightarrow> CBin" where
  "get_bin st (SBin i) = m_ptBin st i"
| "get_bin st (FBin i) = m_ptFastBin st i"
| "get_bin st UBin = m_ptUnsortedBin st"

fun set_bin :: "binref \<Rightarrow> CBin \<Rightarrow> CBinMalloc \<Rightarrow> CBinMalloc" where
  "set_bin (SBin i) b st = st\<lparr>m_ptBin := (m_ptBin st)(i := b)\<rparr>"
| "set_bin (FBin i) b st = st\<lparr>m_ptFastBin := (m_ptFastBin st)(i := b)\<rparr>"
| "set_bin UBin b st = st\<lparr>m_ptUnsortedBin := b\<rparr>"

definition set_bin_next :: "binref \<Rightarrow> handle \<Rightarrow> CBinMalloc \<Rightarrow> CBinMalloc" where
  "set_bin_next r v st = set_bin r ((get_bin st r)\<lparr>bin_hNextChunk := v\<rparr>) st"

definition set_bin_pre :: "binref \<Rightarrow> handle \<Rightarrow> CBinMalloc \<Rightarrow> CBinMalloc" where
  "set_bin_pre r v st = set_bin r ((get_bin st r)\<lparr>bin_hPreChunk := v\<rparr>) st"

definition CHUNK_SIZE :: "CBinMalloc \<Rightarrow> handle \<Rightarrow> nat" where
  "CHUNK_SIZE st p = REAL_SIZE (tSize st p)"

definition prev_inuse :: "CBinMalloc \<Rightarrow> handle \<Rightarrow> bool" where
  "prev_inuse st p \<longleftrightarrow> odd (tSize st p)"

definition inuse_bit_at_offset :: "CBinMalloc \<Rightarrow> handle \<Rightarrow> nat \<Rightarrow> bool" where
  "inuse_bit_at_offset st p s \<longleftrightarrow> odd (tSize st (p + s))"

definition set_inuse_bit_at_offset :: "handle \<Rightarrow> nat \<Rightarrow> CBinMalloc \<Rightarrow> CBinMalloc" where
  "set_inuse_bit_at_offset p s st = set_tSize (p + s) (or1 (tSize st (p + s))) st"

definition clear_inuse_bit_at_offset :: "handle \<Rightarrow> nat \<Rightarrow> CBinMalloc \<Rightarrow> CBinMalloc" where
  "clear_inuse_bit_at_offset p s st = set_tSize (p + s) (clear1 (tSize st (p + s))) st"

definition set_size_at_offset :: "handle \<Rightarrow> nat \<Rightarrow> nat \<Rightarrow> CBinMalloc \<Rightarrow> CBinMalloc" where
  "set_size_at_offset p off sz st =
     set_tSize (p + off) (REAL_SIZE sz + tSize st (p + off) mod 8) st"

definition set_presize_at_offset :: "handle \<Rightarrow> nat \<Rightarrow> nat \<Rightarrow> CBinMalloc \<Rightarrow> CBinMalloc" where
  "set_presize_at_offset p off sz st = set_tPreSize (p + off) (REAL_SIZE sz) st"

definition AT_TOP :: "CBinMalloc \<Rightarrow> handle \<Rightarrow> nat \<Rightarrow> bool" where
  "AT_TOP st p sz \<longleftrightarrow> p + sz = hTop st"

definition misaligned_chunk :: "handle \<Rightarrow> bool" where
  "misaligned_chunk h \<longleftrightarrow> h mod 8 \<noteq> 0"

text \<open>\<open>Handle2Ptr\<close> and \<open>Ptr2Handle\<close>: a pointer outside the segment has the invalid handle.\<close>

definition Handle2Ptr :: "handle \<Rightarrow> handle option" where
  "Handle2Ptr h = (if h = INVALID_HANDLE then None else Some h)"

definition Ptr2Handle :: "CBinMalloc \<Rightarrow> handle option \<Rightarrow> handle" where
  "Ptr2Handle st p =
     (case p of None \<Rightarrow> INVALID_HANDLE
      | Some a \<Rightarrow> if a \<ge> memSize st then INVALID_HANDLE else a)"

definition SetBinBitMap :: "nat \<Rightarrow> CBinMalloc \<Rightarrow> CBinMalloc" where
  "SetBinBitMap i st =
     set_head (\<lambda>h. h\<lparr>m_auiBinBitMap :=
       (m_auiBinBitMap h)[i div 32 := m_auiBinBitMap h ! (i div 32) OR push_bit (i mod 32) 1]\<rparr>) st"

definition ClearBinBitMap :: "nat \<Rightarrow> CBinMalloc \<Rightarrow> CBinMalloc" where
  "ClearBinBitMap i st =
     set_head (\<lambda>h. h\<lparr>m_auiBinBitMap :=
       (m_auiBinBitMap h)[i div 32 :=
          m_auiBinBitMap h ! (i div 32) AND NOT (push_bit (i mod 32) 1)]\<rparr>) st"

definition EmptyBin :: "CBinMalloc \<Rightarrow> nat \<Rightarrow> bool" where
  "EmptyBin st i \<longleftrightarrow> bin_hNextChunk (m_ptBin st i) = INVALID_HANDLE"

definition AddAllocSizeToStat :: "nat \<Rightarrow> CBinMalloc \<Rightarrow> CBinMalloc" where
  "AddAllocSizeToStat sz st =
     (if statTmpDataAllocCountRecently st > MAXSTATCOUNT
      then st\<lparr>statTmpDataSizeRecently := 0, statTmpDataAllocCountRecently := 0,
              statAverageDataSizeRecently := MINSIZE\<rparr>
      else let s = u64 (statTmpDataSizeRecently st + sz);
               c = statTmpDataAllocCountRecently st + 1
           in st\<lparr>statTmpDataSizeRecently := s, statTmpDataAllocCountRecently := c,
                 statAverageDataSizeRecently := s div c\<rparr>)"

definition GetMinChunkSize :: "CBinMalloc \<Rightarrow> nat" where
  "GetMinChunkSize st =
     (if minChunkSize st = 1
      then (if statChunkTotal st = 0 then MINSIZE else u32 (statDataSize st div statChunkTotal st))
      else minChunkSize st)"

definition SetMinChunkSize :: "nat \<Rightarrow> CBinMalloc \<Rightarrow> CBinMalloc" where
  "SetMinChunkSize sz st =
     st\<lparr>minChunkSize := (if sz = 1 then 1 else if sz < MINSIZE then MINSIZE else sz)\<rparr>"

section \<open>Formatting and attaching\<close>

definition InitSign :: "CMemHead \<Rightarrow> CMemHead" where
  "InitSign h = h\<lparr>m_auiSign := V4Sign\<rparr>"

definition Init_reserve :: nat where
  "Init_reserve = mask8 (SIZEOF_CMemHead + SIZEOF_CBin * (NBINS + NFASTBINS + 1) + MALLOC_ALIGN_MASK)"

definition Init_bottom :: nat where
  "Init_bottom = mask8 (Init_reserve + TTC_RESERVE_SIZE + MALLOC_ALIGN_MASK)"

definition Init_head :: "nat \<Rightarrow> CMemHead" where
  "Init_head tsz =
     InitSign \<lparr>m_auiSign = [], m_ushVer = TTC_VER_MIN, m_ushHeadSize = SIZEOF_CMemHead,
       hd_tSize = tsz, m_tUserAllocSize = Init_bottom, m_tUserAllocChunkCnt = 0, m_uiFlags = 0,
       m_hBottom = Init_bottom, m_hReserveZone = Init_reserve, m_hTop = Init_bottom,
       m_tLastFreeChunkSize =
         (if tsz > Init_bottom + MINSIZE then tsz - Init_bottom - MINSIZE else 0),
       m_ushBinCnt = NBINS, m_ushFastBinCnt = NFASTBINS,
       m_auiBinBitMap = replicate 4 0, m_shmIntegrity = 0, m_achReserv = (\<lambda>_. 0)\<rparr>"

definition empty_bin :: CBin where
  "empty_bin = \<lparr>bin_hPreChunk = INVALID_HANDLE, bin_hNextChunk = INVALID_HANDLE\<rparr>"

definition Init_bins :: "nat \<Rightarrow> (nat \<Rightarrow> CBin) \<Rightarrow> nat \<Rightarrow> CBin" where
  "Init_bins n b = (\<lambda>i. if i < n then empty_bin else b i)"

definition BM_Init :: "nat \<Rightarrow> CBinMalloc \<Rightarrow> int \<times> CBinMalloc" where
  "BM_Init tsz st =
     (if tsz < SIZEOF_CMemHead + SIZEOF_CBin * (NBINS + NFASTBINS + 1) + TTC_RESERVE_SIZE + MINSIZE
      then (-1, st)
      else (0, (set_tSize Init_bottom 1 (set_tPreSize Init_bottom 0
        (st\<lparr>m_pstHead := Init_head tsz,
            m_ptBin := Init_bins NBINS (m_ptBin st),
            m_ptFastBin := Init_bins NFASTBINS (m_ptFastBin st),
            m_ptUnsortedBin := empty_bin,
            statMemoryTop := Init_bottom, statChunkTotal := 0,
            statDataSize := Init_bottom\<rparr>)))))"

definition DetectVersion :: "CMemHead \<Rightarrow> int" where
  "DetectVersion h =
     (if m_auiSign h ! 0 \<noteq> 0 \<or> m_auiSign h ! 1 \<noteq> 0x4D635474 then 1
      else if m_ushVer h = 2 then 2
      else if m_ushVer h = 3 then 3
      else if m_ushVer h = 4 then 4
      else 0)"

definition ShareMemoryIntegrity :: "CBinMalloc \<Rightarrow> nat" where
  "ShareMemoryIntegrity st = m_shmIntegrity (m_pstHead st)"

definition SetShareMemoryIntegrity :: "int \<Rightarrow> CBinMalloc \<Rightarrow> CBinMalloc" where
  "SetShareMemoryIntegrity flags st =
     set_head (\<lambda>h. h\<lparr>m_shmIntegrity := (if flags \<noteq> 0 then 1 else 0)\<rparr>) st"

text \<open>Attaching reads the header \<open>h\<close> already in the segment.\<close>

definition BM_Attach :: "CMemHead \<Rightarrow> nat \<Rightarrow> CBinMalloc \<Rightarrow> int \<times> CBinMalloc" where
  "BM_Attach h tsz st =
     (if tsz < SIZEOF_CMemHead + SIZEOF_CBin * (NBINS + NFASTBINS + 1) + MINSIZE then (-1, st)
      else let st1 = st\<lparr>m_pstHead := h\<rparr> in
        if DetectVersion h \<noteq> int TTC_VER_MIN then (-2, st1)
        else if hd_tSize h \<noteq> tsz then (-3, st1)
        else if m_hTop h \<ge> hd_tSize h then (-4, st1)
        else (0, st1\<lparr>statChunkTotal := u32 (m_tUserAllocChunkCnt h),
                      statDataSize := m_tUserAllocSize h\<rparr>))"

definition GetReserveZone :: "CBinMalloc \<Rightarrow> handle" where
  "GetReserveZone st = m_hReserveZone (m_pstHead st)"

section \<open>Linking chunks into bins\<close>

definition UnlinkBin :: "binref \<Rightarrow> handle \<Rightarrow> CBinMalloc \<Rightarrow> int \<times> CBinMalloc" where
  "UnlinkBin r h st =
     (if h = INVALID_HANDLE then (-1, st)
      else if bin_hNextChunk (get_bin st r) = INVALID_HANDLE
              \<or> bin_hPreChunk (get_bin st r) = INVALID_HANDLE then (-2, st)
      else
        let st1 = (if hPre st h = INVALID_HANDLE then set_bin_next r (hNext st h) st
                   else set_hNext (hPre st h) (hNext st h) st);
            st2 = (if hNext st1 h = INVALID_HANDLE then set_bin_pre r (hPre st1 h) st1
                   else set_hPre (hNext st1 h) (hPre st1 h) st1)
        in (0, st2))"

definition LinkBin :: "binref \<Rightarrow> handle \<Rightarrow> CBinMalloc \<Rightarrow> int \<times> CBinMalloc" where
  "LinkBin r h st =
     (if h = INVALID_HANDLE then (-1, st)
      else
        let st1 = set_hNext h (bin_hNextChunk (get_bin st r)) st;
            st2 = set_hPre h INVALID_HANDLE st1
        in if bin_hNextChunk (get_bin st2 r) \<noteq> INVALID_HANDLE
           then let st3 = set_hPre (bin_hNextChunk (get_bin st2 r)) h st2
                in if bin_hPreChunk (get_bin st3 r) = INVALID_HANDLE then (-2, st3)
                   else (0, set_bin_next r h st3)
           else if bin_hPreChunk (get_bin st2 r) \<noteq> INVALID_HANDLE then (-3, st2)
                else (0, set_bin_next r h (set_bin_pre r h st2)))"

text \<open>
  The backward search of \<open>LinkSortedBin\<close>: \<open>INVALID_HANDLE\<close> when no chunk from \<open>hp\<close> towards
  the head is large enough, \<open>None\<close> when the chain is cyclic.
\<close>

partial_function (option) sorted_pos :: "CBinMalloc \<Rightarrow> nat \<Rightarrow> handle \<Rightarrow> handle option" where
  "sorted_pos st tsz hp =
     (if hp = INVALID_HANDLE then Some INVALID_HANDLE
      else if tsz \<le> tSize st hp then Some hp
      else sorted_pos st tsz (hPre st hp))"

definition LinkSortedBin :: "binref \<Rightarrow> handle \<Rightarrow> nat \<Rightarrow> CBinMalloc \<Rightarrow> (int \<times> CBinMalloc) option" where
  "LinkSortedBin r h tsz st =
     (if h = INVALID_HANDLE then Some (-1, st)
      else
        let st1 = set_hPre h INVALID_HANDLE (set_hNext h INVALID_HANDLE st)
        in if bin_hNextChunk (get_bin st1 r) = INVALID_HANDLE
           then Some (0, set_bin_pre r h (set_bin_next r h st1))
           else (case sorted_pos st1 (or1 (REAL_SIZE tsz)) (bin_hPreChunk (get_bin st1 r)) of
              None \<Rightarrow> None
            | Some hp \<Rightarrow>
                if hp = INVALID_HANDLE
                then if bin_hPreChunk (get_bin st1 r) = INVALID_HANDLE then Some (-1, st1)
                     else Some (0, snd (LinkBin r h st1))
                else let st2 = set_hPre h hp st1;
                         st3 = set_hNext h (hNext st2 hp) st2;
                         st4 = set_hNext hp h st3
                     in if hNext st4 h \<noteq> INVALID_HANDLE
                        then Some (0, set_hPre (hNext st4 h) h st4)
                        else Some (0, set_bin_pre r h st4)))"

section \<open>Checks\<close>

definition CheckInuseChunk :: "CBinMalloc \<Rightarrow> handle \<Rightarrow> int" where
  "CheckInuseChunk st p =
     (if \<not> inuse_bit_at_offset st p (CHUNK_SIZE st p) then -1
      else if \<not> prev_inuse st p
              \<and> (Ptr2Handle st (if p < tPreSize st p then None else Some (p - tPreSize st p))
                   < hBottom st
                 \<or> CHUNK_SIZE st (p - tPreSize st p) \<noteq> tPreSize st p) then -2
      else if \<not> AT_TOP st (p + CHUNK_SIZE st p) 0 \<and> CHUNK_SIZE st (p + CHUNK_SIZE st p) < MINSIZE
           then -3
      else 0)"

definition ChunkSize :: "CBinMalloc \<Rightarrow> handle \<Rightarrow> nat" where
  "ChunkSize st h =
     (if h \<ge> hTop st \<or> h \<le> hBottom st then 0
      else if CheckInuseChunk st (mem2chunk h) \<noteq> 0 then 0
      else chunksize2memsize (CHUNK_SIZE st (mem2chunk h)))"

text \<open>
  The \<open>do ... while\<close> of \<open>CheckBin\<close>: the last chunk reached from a non-empty bin;
  \<open>None\<close> when the chain never ends.
\<close>

partial_function (option) last_chunk :: "CBinMalloc \<Rightarrow> handle \<Rightarrow> handle option" where
  "last_chunk st h =
     (if hNext st h \<noteq> INVALID_HANDLE then last_chunk st (hNext st h) else Some h)"

definition bin_tail :: "CBinMalloc \<Rightarrow> binref \<Rightarrow> handle option" where
  "bin_tail st r =
     (if bin_hNextChunk (get_bin st r) \<noteq> INVALID_HANDLE
      then last_chunk st (bin_hNextChunk (get_bin st r))
      else Some (bin_hNextChunk (get_bin st r)))"

fun check_bins :: "CBinMalloc \<Rightarrow> int \<Rightarrow> binref list \<Rightarrow> int option" where
  "check_bins st err [] = Some 0"
| "check_bins st err (r # rs) =
     (case bin_tail st r of
        None \<Rightarrow> None
      | Some h \<Rightarrow> if bin_hPreChunk (get_bin st r) \<noteq> h then Some err else check_bins st err rs)"

definition CheckBin :: "CBinMalloc \<Rightarrow> int option" where
  "CheckBin st =
     (case check_bins st (-1) (map SBin [0..<NBINS]) of
        None \<Rightarrow> None
      | Some c \<Rightarrow> if c \<noteq> 0 then Some c else
     (case check_bins st (-2) (map FBin [0..<NFASTBINS]) of
        None \<Rightarrow> None
      | Some c \<Rightarrow> if c \<noteq> 0 then Some c else check_bins st (-3) [UBin]))"

section \<open>Free\<close>

text \<open>Unlinking from a bin and keeping the bitmap: the three statements used at every merge.\<close>

definition unlink_and_mark :: "nat \<Rightarrow> handle \<Rightarrow> CBinMalloc \<Rightarrow> CBinMalloc" where
  "unlink_and_mark i p st =
     (let st1 = snd (UnlinkBin (SBin i) p st)
      in if EmptyBin st1 i then ClearBinBitMap i st1 else st1)"

definition free_combine_prev :: "handle \<Rightarrow> nat \<Rightarrow> CBinMalloc \<Rightarrow> handle \<times> nat \<times> CBinMalloc" where
  "free_combine_prev h sz st =
     (if \<not> prev_inuse st h \<and> CAN_COMBILE sz (tPreSize st h)
      then let ps = tPreSize st h;
               sz' = u32 (sz + ps);
               h' = h - ps;
               st1 = unlink_and_mark (bin_index ps) h' st;
               st2 = set_size_at_offset h' 0 sz' st1
           in (h', sz', set_presize_at_offset h' sz' sz' st2)
      else (h, sz, st))"

definition free_combine_next :: "handle \<Rightarrow> nat \<Rightarrow> CBinMalloc \<Rightarrow> (nat \<times> CBinMalloc) option" where
  "free_combine_next h sz st =
     (if h + sz \<noteq> hTop st
      then let q = h + sz in
        if CHUNK_SIZE st q < MINSIZE then None
        else if \<not> inuse_bit_at_offset st q (REAL_SIZE (tSize st q)) \<and> CAN_COMBILE sz (CHUNK_SIZE st q)
        then let sz' = u32 (sz + CHUNK_SIZE st q);
                 st1 = unlink_and_mark (bin_index (CHUNK_SIZE st q)) q st;
                 st2 = set_size_at_offset h 0 sz' st1
             in Some (sz', set_presize_at_offset h sz' sz' st2)
        else Some (sz, st)
      else Some (sz, st))"

definition note_free_size :: "nat \<Rightarrow> CBinMalloc \<Rightarrow> CBinMalloc" where
  "note_free_size sz st =
     (if m_tLastFreeChunkSize (m_pstHead st) < sz
      then set_head (\<lambda>hd. hd\<lparr>m_tLastFreeChunkSize := sz\<rparr>) st else st)"

definition free_to_top :: "handle \<Rightarrow> nat \<Rightarrow> CBinMalloc \<Rightarrow> CBinMalloc" where
  "free_to_top h sz st =
     (let st1 = set_head (\<lambda>hd. hd\<lparr>m_hTop := m_hTop hd - sz\<rparr>) st;
          st2 = st1\<lparr>statMemoryTop := hTop st1\<rparr>;
          st3 = set_tSize h 1 st2
      in if memSize st3 > hTop st3 + MINSIZE
         then note_free_size (memSize st3 - hTop st3 - MINSIZE) st3
         else st3)"

definition free_to_bin :: "handle \<Rightarrow> nat \<Rightarrow> CBinMalloc \<Rightarrow> CBinMalloc" where
  "free_to_bin h sz st =
     (let st1 = clear_inuse_bit_at_offset h sz st
      in if in_smallbin_range sz
         then SetBinBitMap (smallbin_index sz) (snd (LinkBin (SBin (smallbin_index sz)) h st1))
         else SetBinBitMap (largebin_index sz) (snd (LinkBin (SBin (largebin_index sz)) h st1)))"

text \<open>Return code, size of the chunk as \<open>tMemSize\<close> leaves it, new state.\<close>

definition InterFree :: "handle \<Rightarrow> CBinMalloc \<Rightarrow> int \<times> nat \<times> CBinMalloc" where
  "InterFree hHandle st =
     (if hHandle = INVALID_HANDLE then (0, 0, st)
      else if hHandle \<ge> memSize st then (-1, 0, st)
      else
        let p = mem2chunk hHandle; sz = CHUNK_SIZE st p;
            h = Ptr2Handle st (if hHandle < 8 then None else Some p)
        in if h + sz \<ge> memSize st then (-2, sz, st)
           else if \<not> inuse_bit_at_offset st p sz then (-3, sz, st)
           else if misaligned_chunk h then (int INVALID_HANDLE, sz, st)
           else if CheckInuseChunk st p \<noteq> 0 then (int INVALID_HANDLE, sz, st)
           else
             let (h1, sz1, st1) = free_combine_prev h sz st
             in case free_combine_next h1 sz1 st1 of
                  None \<Rightarrow> (-4, sz, st1)
                | Some (sz2, st2) \<Rightarrow>
                    let st3 = set_size_at_offset h1 0 sz2 st2;
                        st4 = set_presize_at_offset h1 sz2 sz2 st3;
                        st5 = set_inuse_bit_at_offset h1 sz2 st4;
                        st6 = note_free_size sz2 st5
                    in if h1 + sz2 = hTop st6 then (0, sz, free_to_top h1 sz2 st6)
                       else (0, sz, free_to_bin h1 sz2 st6))"

definition BM_Free :: "handle \<Rightarrow> CBinMalloc \<Rightarrow> int \<times> CBinMalloc" where
  "BM_Free hHandle st =
     (let (iRet, sz, st1) = InterFree hHandle st
      in if iRet = 0
         then let st2 = set_head (\<lambda>hd. hd\<lparr>m_tUserAllocSize := u64_sub (m_tUserAllocSize hd) sz,
                                        m_tUserAllocChunkCnt := u64_sub (m_tUserAllocChunkCnt hd) 1\<rparr>) st1
              in (0, st2\<lparr>statChunkTotal := u32_sub (statChunkTotal st2) 1,
                         statDataSize := m_tUserAllocSize (m_pstHead st2)\<rparr>)
         else (iRet, st1))"

section \<open>Allocation\<close>

text \<open>\<open>BinMalloc\<close>: take the head chunk of a bin, \<open>None\<close> for an empty bin.\<close>

definition BinMalloc :: "binref \<Rightarrow> CBinMalloc \<Rightarrow> handle option \<times> CBinMalloc" where
  "BinMalloc r st =
     (if bin_hNextChunk (get_bin st r) = INVALID_HANDLE then (None, st)
      else let p = bin_hNextChunk (get_bin st r);
               st1 = set_inuse_bit_at_offset p (REAL_SIZE (tSize st p)) st
           in (Some p, snd (UnlinkBin r (bin_hNextChunk (get_bin st1 r)) st1)))"

definition FastMalloc :: "nat \<Rightarrow> CBinMalloc \<Rightarrow> handle option \<times> CBinMalloc" where
  "FastMalloc sz st = BinMalloc (FBin (smallbin_index sz)) st"

definition SmallBinMalloc :: "nat \<Rightarrow> CBinMalloc \<Rightarrow> handle option \<times> CBinMalloc" where
  "SmallBinMalloc sz st =
     (let i = smallbin_index sz; (p, st1) = BinMalloc (SBin i) st
      in (p, if EmptyBin st1 i then ClearBinBitMap i st1 else st1))"

text \<open>Allocation at the top of the used region: \<open>None\<close> is the \<open>NULL\<close> of "out of memory".\<close>

definition TopAlloc :: "nat \<Rightarrow> CBinMalloc \<Rightarrow> handle option \<times> CBinMalloc" where
  "TopAlloc sz st =
     (if hTop st + sz + MINSIZE \<ge> memSize st then (None, st)
      else
        let p = hTop st;
            st1 = set_tSize p (tSize st p mod 8 + REAL_SIZE sz) st;
            st2 = set_tPreSize (p + sz) (REAL_SIZE sz) st1;
            st3 = set_tSize (p + sz) 1 st2;
            st4 = set_head (\<lambda>hd. hd\<lparr>m_hTop := m_hTop hd + sz\<rparr>) st3
        in (Some (chunk2mem p), st4\<lparr>statMemoryTop := hTop st4\<rparr>))"

text \<open>
  The first-fit search in the bin of the requested size: at most 99 chunks are looked at
  (\<open>++try_search_count < 100\<close>).
\<close>

fun bin_first_fit :: "CBinMalloc \<Rightarrow> nat \<Rightarrow> nat \<Rightarrow> handle \<Rightarrow> handle option" where
  "bin_first_fit st sz 0 v = None"
| "bin_first_fit st sz (Suc n) v =
     (if v = INVALID_HANDLE then None
      else if CHUNK_SIZE st v \<ge> sz then Some v
      else bin_first_fit st sz n (hNext st v))"

definition SEARCH_LIMIT :: nat where "SEARCH_LIMIT = 99"

text \<open>
  Splitting or handing out a whole chunk: the tail of both search branches.  The remainder
  of a split is made a chunk in use and given to \<open>InterFree\<close>.
\<close>

definition split_chunk :: "handle \<Rightarrow> nat \<Rightarrow> nat \<Rightarrow> CBinMalloc \<Rightarrow> CBinMalloc" where
  "split_chunk p sz rem st =
     (let st1 = set_tSize p (sz + tSize st p mod 8) st;
          q = p + sz;
          st2 = set_tSize q rem st1;
          st3 = set_tPreSize q sz st2;
          st4 = set_inuse_bit_at_offset q 0 st3;
          st5 = set_tPreSize (q + rem) rem st4;
          st6 = set_inuse_bit_at_offset q rem st5
      in snd (snd (InterFree (chunk2mem (Ptr2Handle st6 (Some q))) st6)))"

definition take_chunk :: "nat \<Rightarrow> handle \<Rightarrow> nat \<Rightarrow> CBinMalloc \<Rightarrow> handle \<times> CBinMalloc" where
  "take_chunk i p sz st =
     (let rem = u32_sub (CHUNK_SIZE st p) sz;
          st1 = unlink_and_mark i (Ptr2Handle st (Some p)) st;
          st2 = (if rem < GetMinChunkSize st1
                 then set_inuse_bit_at_offset p (CHUNK_SIZE st1 p) st1
                 else split_chunk p sz rem st1)
      in (Ptr2Handle st2 (Some (chunk2mem p)), st2))"

text \<open>
  The words the bitmap scan can read: the loop bound \<open>sizeof(m_auiBinBitMap)\<close> is 16 bytes,
  so after the four words of the map come \<open>m_shmIntegrity\<close> and eleven words of \<open>m_achReserv\<close>.
\<close>

definition bitmap_word :: "CBinMalloc \<Rightarrow> nat \<Rightarrow> 32 word" where
  "bitmap_word st k =
     (if k < 4 then m_auiBinBitMap (m_pstHead st) ! k
      else if k = 4 then of_nat (m_shmIntegrity (m_pstHead st))
      else m_achReserv (m_pstHead st) (k - 5))"

function skip_words :: "CBinMalloc \<Rightarrow> nat \<Rightarrow> nat \<Rightarrow> nat \<times> nat" where
  "skip_words st k i =
     (if k < 16 \<and> bitmap_word st k = 0 then skip_words st (k + 1) (i + 32) else (k, i))"
  by pat_completeness auto
termination
  by (relation "measure (\<lambda>(st, k, i). 16 - k)") auto

function skip_bins :: "CBinMalloc \<Rightarrow> nat \<Rightarrow> nat" where
  "skip_bins st i =
     (if i < NBINS \<and> bin_hNextChunk (m_ptBin st i) = INVALID_HANDLE then skip_bins st (i + 1) else i)"
  by pat_completeness auto
termination
  by (relation "measure (\<lambda>(st, i). NBINS - i)") auto

definition next_bin :: "CBinMalloc \<Rightarrow> nat \<Rightarrow> nat" where
  "next_bin st idx =
     (let i = idx + 1; k = i div 32
      in if bitmap_word st k = 0
         then skip_bins st (snd (skip_words st (k + 1) ((k + 1) * 32)))
         else skip_bins st i)"

text \<open>
  The backward search for a chunk that fits in a larger bin.  \<open>None\<close> is the read through
  \<open>Handle2Ptr(INVALID_HANDLE)\<close>, a null pointer, or a chain that never ends.
\<close>

partial_function (option) bin_last_fit :: "CBinMalloc \<Rightarrow> nat \<Rightarrow> handle \<Rightarrow> handle option" where
  "bin_last_fit st sz hp =
     (if hp = INVALID_HANDLE then None
      else if CHUNK_SIZE st hp < sz then bin_last_fit st sz (hPre st hp)
      else Some hp)"

definition search_next_bin :: "nat \<Rightarrow> nat \<Rightarrow> CBinMalloc \<Rightarrow> (handle \<times> CBinMalloc) option" where
  "search_next_bin idx sz st =
     (let i = next_bin st idx
      in if i \<ge> NBINS
         then let (p, st1) = TopAlloc sz st in Some (Ptr2Handle st1 p, st1)
         else (case bin_last_fit st sz (bin_hPreChunk (m_ptBin st i)) of
                 None \<Rightarrow> None
               | Some p \<Rightarrow> Some (take_chunk i p sz st)))"

definition malloc_large :: "nat \<Rightarrow> CBinMalloc \<Rightarrow> (handle \<times> CBinMalloc) option" where
  "malloc_large sz st =
     (let i = bin_index sz
      in if \<not> in_smallbin_range sz
         then (case bin_first_fit st sz SEARCH_LIMIT (bin_hNextChunk (m_ptBin st i)) of
                 Some p \<Rightarrow> Some (take_chunk i p sz st)
               | None \<Rightarrow> search_next_bin i sz st)
         else search_next_bin i sz st)"

definition InterMalloc :: "nat \<Rightarrow> CBinMalloc \<Rightarrow> (handle \<times> CBinMalloc) option" where
  "InterMalloc req st =
     (if REQUEST_OUT_OF_RANGE req then Some (INVALID_HANDLE, st)
      else
        let sz = request2size req
        in if in_smallbin_range sz
           then let (p, st1) = SmallBinMalloc sz st
                in (case p of
                      Some a \<Rightarrow> Some (Ptr2Handle st1 (Some (chunk2mem a)), st1)
                    | None \<Rightarrow> malloc_large sz st1)
           else malloc_large sz st)"

definition account_alloc :: "handle \<Rightarrow> nat \<Rightarrow> CBinMalloc \<Rightarrow> CBinMalloc" where
  "account_alloc h req st =
     (let st1 = set_head (\<lambda>hd. hd\<lparr>
            m_tUserAllocSize := u64 (m_tUserAllocSize hd + CHUNK_SIZE st (mem2chunk h)),
            m_tUserAllocChunkCnt := u64 (m_tUserAllocChunkCnt hd + 1)\<rparr>) st;
          st2 = st1\<lparr>statChunkTotal := u32 (statChunkTotal st1 + 1),
                    statDataSize := m_tUserAllocSize (m_pstHead st1)\<rparr>
      in AddAllocSizeToStat req st2)"

definition BM_Malloc :: "nat \<Rightarrow> CBinMalloc \<Rightarrow> (handle \<times> CBinMalloc) option" where
  "BM_Malloc req st =
     (case InterMalloc req (set_head (\<lambda>hd. hd\<lparr>m_tLastFreeChunkSize := 0\<rparr>) st) of
        None \<Rightarrow> None
      | Some (h, st1) \<Rightarrow>
          Some (h, if h \<noteq> INVALID_HANDLE then account_alloc h req st1 else st1))"

definition user_memset :: "handle \<Rightarrow> nat \<Rightarrow> nat \<Rightarrow> CBinMalloc \<Rightarrow> CBinMalloc" where
  "user_memset p c n st = st\<lparr>m_user := (\<lambda>a. if p \<le> a \<and> a < p + n then c else m_user st a)\<rparr>"

definition user_memmove :: "handle \<Rightarrow> handle \<Rightarrow> nat \<Rightarrow> CBinMalloc \<Rightarrow> CBinMalloc" where
  "user_memmove dst src n st =
     st\<lparr>m_user := (\<lambda>a. if dst \<le> a \<and> a < dst + n then m_user st (src + (a - dst)) else m_user st a)\<rparr>"

definition BM_Calloc :: "nat \<Rightarrow> CBinMalloc \<Rightarrow> (handle \<times> CBinMalloc) option" where
  "BM_Calloc req st =
     (case BM_Malloc req st of
        None \<Rightarrow> None
      | Some (h, st1) \<Rightarrow> Some (h, if h \<noteq> INVALID_HANDLE then user_memset h 0 req st1 else st1))"

section \<open>Reallocation\<close>

definition realloc_piece :: "nat \<Rightarrow> nat" where
  "realloc_piece rem =
     (if rem > MAX_ALLOC_SIZE
      then (if rem - MAX_ALLOC_SIZE \<ge> MINSIZE then REAL_SIZE MAX_ALLOC_SIZE
            else u32 (REAL_SIZE (rem - MINSIZE)))
      else u32 rem)"

definition realloc_free_piece :: "handle \<Rightarrow> nat \<Rightarrow> CBinMalloc \<Rightarrow> CBinMalloc" where
  "realloc_free_piece q this st =
     (let st1 = set_tSize q (or1 (REAL_SIZE this)) st;
          nx = q + REAL_SIZE this;
          st2 = set_tPreSize nx (REAL_SIZE this) st1;
          st3 = set_tSize nx (or1 (tSize st2 nx)) st2;
          st4 = set_inuse_bit_at_offset q this st3
      in snd (snd (InterFree (Ptr2Handle st4 (Some (chunk2mem q))) st4)))"

lemma realloc_piece_pos: "0 < rem \<Longrightarrow> 0 < realloc_piece rem"
  by (auto simp: realloc_piece_def MAX_ALLOC_SIZE_def MINSIZE_def REAL_SIZE_def mask8_mult u32_def
      div_greater_zero_iff)

function realloc_split :: "nat \<Rightarrow> handle \<Rightarrow> CBinMalloc \<Rightarrow> CBinMalloc" where
  "realloc_split rem q st =
     (let this = realloc_piece rem;
          st1 = realloc_free_piece q this st;
          rem' = rem - this
      in if rem' > 0 then realloc_split rem' (q + REAL_SIZE this) st1 else st1)"
  by pat_completeness auto
termination
proof (relation "measure (\<lambda>(rem, q, st). rem)", goal_cases)
  case 1
  show ?case by simp
next
  case (2 rem q st this st1 rem')
  then have "0 < rem" by simp
  from realloc_piece_pos [OF this] 2 show ?case by simp
qed

text \<open>
  The tail of \<open>InterReAlloc\<close>: the chunk \<open>nh\<close> of size \<open>nsz\<close> is cut to \<open>sz\<close> where the rest is
  worth keeping, and its header is rewritten.
\<close>

definition realloc_finish ::
  "handle \<Rightarrow> nat \<Rightarrow> nat \<Rightarrow> bool \<Rightarrow> nat \<Rightarrow> CBinMalloc \<Rightarrow> handle \<times> CBinMalloc" where
  "realloc_finish nh nsz sz preInUse preSize st =
     (let rem = nsz - sz;
          (nsz', st1) =
            (if rem \<ge> GetMinChunkSize st then (sz, realloc_split rem (nh + sz) st)
             else (nsz, set_tSize (nh + REAL_SIZE nsz) (or1 (tSize st (nh + REAL_SIZE nsz))) st));
          st2 = set_tSize nh (if preInUse then or1 (u32 (REAL_SIZE nsz')) else u32 (REAL_SIZE nsz')) st1;
          st3 = set_tPreSize nh preSize st2
      in (Ptr2Handle st3 (Some (chunk2mem nh)), st3))"

text \<open>Growing into the free space above the top chunk.\<close>

definition realloc_into_top :: "handle \<Rightarrow> nat \<Rightarrow> nat \<Rightarrow> CBinMalloc \<Rightarrow> handle \<times> CBinMalloc" where
  "realloc_into_top p osz sz st =
     (let st1 = set_tSize p (REAL_SIZE sz + tSize st p mod 8) st;
          nx = hTop st1 + (sz - osz);
          st2 = set_tPreSize nx (REAL_SIZE sz) st1;
          st3 = set_tSize nx 1 st2;
          st4 = set_head (\<lambda>hd. hd\<lparr>m_hTop := m_hTop hd + (sz - osz)\<rparr>) st3;
          st5 = st4\<lparr>statMemoryTop := hTop st4\<rparr>
      in (Ptr2Handle st5 (Some (chunk2mem p)), st5))"

definition realloc_by_copy ::
  "handle \<Rightarrow> nat \<Rightarrow> nat \<Rightarrow> CBinMalloc \<Rightarrow> (handle \<times> CBinMalloc) option" where
  "realloc_by_copy p osz req st =
     (case InterMalloc req st of
        None \<Rightarrow> None
      | Some (nh, st1) \<Rightarrow>
          if nh = INVALID_HANDLE then Some (INVALID_HANDLE, st1)
          else let q = mem2chunk nh;
                   st2 = user_memmove (chunk2mem q) (chunk2mem p) (chunksize2memsize osz) st1;
                   st3 = snd (snd (InterFree (chunk2mem p) st2))
               in Some (chunk2mem q, st3))"

text \<open>Result handle, \<open>tOldMemSize\<close>, state; \<open>None\<close> is a null read inside \<open>InterMalloc\<close>.\<close>

definition realloc_grow ::
  "handle \<Rightarrow> nat \<Rightarrow> nat \<Rightarrow> nat \<Rightarrow> CBinMalloc \<Rightarrow> (handle \<times> CBinMalloc) option" where
  "realloc_grow p osz sz req st =
     (let nx = p + CHUNK_SIZE st p in
      if AT_TOP st p osz \<and> hTop st + (sz - osz) + MINSIZE < memSize st
      then Some (realloc_into_top p osz sz st)
      else if \<not> AT_TOP st p osz \<and> \<not> inuse_bit_at_offset st nx (CHUNK_SIZE st nx)
              \<and> osz + CHUNK_SIZE st nx \<ge> sz
      then Some (realloc_finish p (osz + CHUNK_SIZE st nx) sz (prev_inuse st p) (tPreSize st p)
                   (snd (UnlinkBin (SBin (bin_index (CHUNK_SIZE st nx))) nx st)))
      else if \<not> prev_inuse st p \<and> u32 (osz + tPreSize st p) \<ge> sz
      then let nh = p - tPreSize st p
           in Some (realloc_finish nh (osz + tPreSize st p) sz (prev_inuse st nh) (tPreSize st nh)
                (user_memmove (chunk2mem nh) (chunk2mem p) (chunksize2memsize osz)
                  (snd (UnlinkBin (SBin (bin_index (tPreSize st p))) nh st))))
      else realloc_by_copy p osz req st)"

definition InterReAlloc :: "handle \<Rightarrow> nat \<Rightarrow> CBinMalloc \<Rightarrow> (handle \<times> nat \<times> CBinMalloc) option" where
  "InterReAlloc hHandle req st =
     (if hHandle = INVALID_HANDLE
      then (case InterMalloc req st of None \<Rightarrow> None | Some (h, st1) \<Rightarrow> Some (h, 0, st1))
      else if req = 0
      then let (_, old, st1) = InterFree hHandle st in Some (INVALID_HANDLE, old, st1)
      else if REQUEST_OUT_OF_RANGE req then Some (INVALID_HANDLE, 0, st)
      else if hHandle \<ge> hTop st \<or> hHandle \<le> hBottom st then Some (INVALID_HANDLE, 0, st)
      else
        let sz = request2size req; p = mem2chunk hHandle; osz = CHUNK_SIZE st p
        in if p + osz > hTop st then Some (INVALID_HANDLE, 0, st)
           else if misaligned_chunk p then Some (INVALID_HANDLE, 0, st)
           else if osz < MINSIZE then Some (INVALID_HANDLE, 0, st)
           else if CheckInuseChunk st p \<noteq> 0 then Some (INVALID_HANDLE, 0, st)
           else if osz \<ge> sz
           then (case realloc_finish p osz sz (prev_inuse st p) (tPreSize st p) st of
                   (h, st1) \<Rightarrow> Some (h, osz, st1))
           else (case realloc_grow p osz sz req st of
                   None \<Rightarrow> None | Some (h, st1) \<Rightarrow> Some (h, osz, st1)))"

definition BM_ReAlloc :: "handle \<Rightarrow> nat \<Rightarrow> CBinMalloc \<Rightarrow> (handle \<times> CBinMalloc) option" where
  "BM_ReAlloc hHandle req st =
     (case InterReAlloc hHandle req (set_head (\<lambda>hd. hd\<lparr>m_tLastFreeChunkSize := 0\<rparr>) st) of
        None \<Rightarrow> None
      | Some (nh, old, st1) \<Rightarrow>
          if nh \<noteq> INVALID_HANDLE
          then let st2 = set_head (\<lambda>hd. hd\<lparr>m_tUserAllocSize :=
                     u64_sub (u64 (m_tUserAllocSize hd + CHUNK_SIZE st1 (mem2chunk nh))) old\<rparr>) st1;
                   st3 = (if hHandle = INVALID_HANDLE
                          then (set_head (\<lambda>hd. hd\<lparr>m_tUserAllocChunkCnt := u64 (m_tUserAllocChunkCnt hd + 1)\<rparr>)
                                  st2)\<lparr>statChunkTotal := u32 (statChunkTotal st2 + 1)\<rparr>
                          else st2);
                   st4 = AddAllocSizeToStat req st3
               in Some (nh, st4\<lparr>statDataSize := m_tUserAllocSize (m_pstHead st4)\<rparr>)
          else if req = 0
          then let st2 = set_head (\<lambda>hd. hd\<lparr>m_tUserAllocSize := u64_sub (m_tUserAllocSize hd) old,
                                         m_tUserAllocChunkCnt := u64_sub (m_tUserAllocChunkCnt hd) 1\<rparr>) st1
               in Some (nh, st2\<lparr>statChunkTotal := u32_sub (statChunkTotal st2) 1,
                                statDataSize := m_tUserAllocSize (m_pstHead st2)\<rparr>)
          else Some (nh, st1))"

section \<open>Size enquiries and the disabled fast bins\<close>

definition AskForDestroySize :: "CBinMalloc \<Rightarrow> handle \<Rightarrow> nat" where
  "AskForDestroySize st hHandle =
     (if hHandle = INVALID_HANDLE \<or> hHandle \<ge> memSize st then 0
      else
        let p = mem2chunk hHandle; sz = CHUNK_SIZE st p;
            h = Ptr2Handle st (if hHandle < 8 then None else Some p)
        in if h + sz > memSize st then 0
           else if \<not> inuse_bit_at_offset st p sz then 0
           else if misaligned_chunk h then 0
           else if CheckInuseChunk st p \<noteq> 0 then 0
           else
             let (h1, sz1) = (if \<not> prev_inuse st p \<and> CAN_COMBILE sz (tPreSize st p)
                              then (h - tPreSize st p, u32 (sz + tPreSize st p)) else (h, sz));
                 q = h1 + sz1
             in if q \<noteq> hTop st \<and> CHUNK_SIZE st q < MINSIZE then 0
                else
                  let sz2 = (if q \<noteq> hTop st \<and> \<not> inuse_bit_at_offset st q (CHUNK_SIZE st q)
                                \<and> CAN_COMBILE sz1 (CHUNK_SIZE st q)
                             then u32 (sz1 + CHUNK_SIZE st q) else sz1);
                      sz3 = (if h1 + sz2 = hTop st
                             then let fr = u32 (u64_sub (u64_sub (memSize st) (hTop st)) MINSIZE + sz2)
                                  in (if sz2 < fr then fr else sz2)
                             else sz2)
                  in chunksize2memsize sz3)"

text \<open>One chunk of a fast bin moved to the unsorted bin, or into the top.\<close>

definition FreeFast_one :: "nat \<Rightarrow> CBinMalloc \<Rightarrow> CBinMalloc" where
  "FreeFast_one i st =
     (let p0 = bin_hNextChunk (m_ptFastBin st i);
          st0 = snd (UnlinkBin (FBin i) p0 st);
          sz0 = CHUNK_SIZE st0 p0;
          (p, sz1, st1) =
            (if \<not> prev_inuse st0 p0 \<and> CAN_COMBILE sz0 (tPreSize st0 p0)
             then let ps = tPreSize st0 p0; sz = u32 (sz0 + ps); p = p0 - ps
                  in (p, sz, set_inuse_bit_at_offset p sz (unlink_and_mark (bin_index ps) p st0))
             else (p0, sz0, st0));
          q = p + sz1; nsz = CHUNK_SIZE st1 q;
          (sz2, st2) =
            (if \<not> AT_TOP st1 p sz1 \<and> \<not> inuse_bit_at_offset st1 q nsz \<and> CAN_COMBILE sz1 nsz
             then let sz = u32 (sz1 + nsz)
                  in (sz, set_inuse_bit_at_offset p sz (unlink_and_mark (bin_index nsz) q st1))
             else (sz1, st1));
          st3 = note_free_size (REAL_SIZE sz2) st2;
          st4 = set_tSize p (REAL_SIZE sz2 + tSize st3 p mod 8) st3;
          st5 = (if AT_TOP st4 p sz2
                 then let s = set_head (\<lambda>hd. hd\<lparr>m_hTop := m_hTop hd - sz2\<rparr>) st4
                      in s\<lparr>statMemoryTop := hTop s\<rparr>
                 else snd (LinkBin UBin p st4))
      in set_tPreSize (p + REAL_SIZE sz2) (REAL_SIZE sz2) st5)"

partial_function (option) FreeFast_bin :: "nat \<Rightarrow> CBinMalloc \<Rightarrow> CBinMalloc option" where
  "FreeFast_bin i st =
     (if bin_hNextChunk (m_ptFastBin st i) = INVALID_HANDLE then Some st
      else FreeFast_bin i (FreeFast_one i st))"

fun FreeFast_bins :: "nat list \<Rightarrow> CBinMalloc \<Rightarrow> CBinMalloc option" where
  "FreeFast_bins [] st = Some st"
| "FreeFast_bins (i # is) st =
     (case FreeFast_bin i st of None \<Rightarrow> None | Some st1 \<Rightarrow> FreeFast_bins is st1)"

definition FreeFast :: "CBinMalloc \<Rightarrow> CBinMalloc option" where
  "FreeFast st =
     (if even (m_uiFlags (m_pstHead st)) then Some st
      else map_option (set_head (\<lambda>hd. hd\<lparr>m_uiFlags := clear1 (m_uiFlags hd)\<rparr>))
             (FreeFast_bins [0..<NFASTBINS] st))"

definition LastFreeSize :: "CBinMalloc \<Rightarrow> (nat \<times> CBinMalloc) option" where
  "LastFreeSize st =
     (case FreeFast st of
        None \<Rightarrow> None
      | Some st1 \<Rightarrow> Some (u32 (u64_sub (m_tLastFreeChunkSize (m_pstHead st1)) 4), st1))"

end
