(* ===== verification/Bin_Malloc_Heap.thy ===== *)
theory Bin_Malloc_Heap
  imports Bin_Malloc
begin

text \<open>
  Read-over-write equations for the allocator's memory, and the doubly linked chains of
  the bins: \<open>dll\<close> relates the links of a bin to the list of its chunks, and \<open>LinkBin\<close>,
  \<open>UnlinkBin\<close> are shown to be list insertion at the head and list removal.
\<close>

section \<open>Read over write\<close>

lemma mem_set_tSize [heap_simps]:
  "tSize (set_tSize h v st) a = (if a = h then v else tSize st a)"
  "tPreSize (set_tSize h v st) a = tPreSize st a"
  "hPre (set_tSize h v st) a = hPre st a"
  "hNext (set_tSize h v st) a = hNext st a"
  by (simp_all add: set_tSize_def)

lemma mem_set_tPreSize [heap_simps]:
  "tSize (set_tPreSize h v st) a = tSize st a"
  "tPreSize (set_tPreSize h v st) a = (if a = h then v else tPreSize st a)"
  "hPre (set_tPreSize h v st) a = hPre st a"
  "hNext (set_tPreSize h v st) a = hNext st a"
  by (simp_all add: set_tPreSize_def)

lemma mem_set_hPre [heap_simps]:
  "tSize (set_hPre h v st) a = tSize st a"
  "tPreSize (set_hPre h v st) a = tPreSize st a"
  "hPre (set_hPre h v st) a = (if a = h then v else hPre st a)"
  "hNext (set_hPre h v st) a = hNext st a"
  by (simp_all add: set_hPre_def)

lemma mem_set_hNext [heap_simps]:
  "tSize (set_hNext h v st) a = tSize st a"
  "tPreSize (set_hNext h v st) a = tPreSize st a"
  "hPre (set_hNext h v st) a = hPre st a"
  "hNext (set_hNext h v st) a = (if a = h then v else hNext st a)"
  by (simp_all add: set_hNext_def)

lemma mem_set_head [heap_simps]:
  "m_mem (set_head f st) = m_mem st" "m_pstHead (set_head f st) = f (m_pstHead st)"
  by (simp_all add: set_head_def)

lemma mem_set_bin [heap_simps]:
  "m_mem (set_bin r b st) = m_mem st" "m_pstHead (set_bin r b st) = m_pstHead st"
  "get_bin (set_bin r b st) r' = (if r = r' then b else get_bin st r')"
  by (cases r; cases r'; simp)+

lemma mem_set_bin_next [heap_simps]:
  "m_mem (set_bin_next r v st) = m_mem st" "m_pstHead (set_bin_next r v st) = m_pstHead st"
  "bin_hNextChunk (get_bin (set_bin_next r v st) r') =
     (if r = r' then v else bin_hNextChunk (get_bin st r'))"
  "bin_hPreChunk (get_bin (set_bin_next r v st) r') = bin_hPreChunk (get_bin st r')"
  by (simp_all add: set_bin_next_def mem_set_bin)

lemma mem_set_bin_pre [heap_simps]:
  "m_mem (set_bin_pre r v st) = m_mem st" "m_pstHead (set_bin_pre r v st) = m_pstHead st"
  "bin_hNextChunk (get_bin (set_bin_pre r v st) r') = bin_hNextChunk (get_bin st r')"
  "bin_hPreChunk (get_bin (set_bin_pre r v st) r') =
     (if r = r' then v else bin_hPreChunk (get_bin st r'))"
  by (simp_all add: set_bin_pre_def mem_set_bin)

lemma get_bin_cong:
  "m_ptBin st' = m_ptBin st \<Longrightarrow> m_ptFastBin st' = m_ptFastBin st \<Longrightarrow>
   m_ptUnsortedBin st' = m_ptUnsortedBin st \<Longrightarrow> get_bin st' r = get_bin st r"
  by (cases r) simp_all

lemma bins_set_mem [heap_simps]:
  "get_bin (set_tSize h v st) r = get_bin st r"
  "get_bin (set_tPreSize h v st) r = get_bin st r"
  "get_bin (set_hPre h v st) r = get_bin st r"
  "get_bin (set_hNext h v st) r = get_bin st r"
  "get_bin (set_head f st) r = get_bin st r"
  by (rule get_bin_cong;
      simp add: set_tSize_def set_tPreSize_def set_hPre_def set_hNext_def set_head_def)+

lemma head_set_mem [heap_simps]:
  "m_pstHead (set_tSize h v st) = m_pstHead st"
  "m_pstHead (set_tPreSize h v st) = m_pstHead st"
  "m_pstHead (set_hPre h v st) = m_pstHead st"
  "m_pstHead (set_hNext h v st) = m_pstHead st"
  by (simp_all add: set_tSize_def set_tPreSize_def set_hPre_def set_hNext_def)

lemma m_ptBin_conv: "m_ptBin st i = get_bin st (SBin i)"
  by simp

lemmas chunk_defs = CHUNK_SIZE_def prev_inuse_def inuse_bit_at_offset_def
  set_inuse_bit_at_offset_def clear_inuse_bit_at_offset_def set_size_at_offset_def
  set_presize_at_offset_def REAL_SIZE_def

section \<open>Statistics and payload, which no link or header operation touches\<close>

definition stats :: "CBinMalloc \<Rightarrow> nat \<times> nat \<times> nat \<times> (handle \<Rightarrow> nat)" where
  "stats st = (statChunkTotal st, statDataSize st, minChunkSize st, m_user st)"

lemma stats_simps [heap_simps]:
  "stats (set_tSize h v st) = stats st"
  "stats (set_tPreSize h v st) = stats st"
  "stats (set_hPre h v st) = stats st"
  "stats (set_hNext h v st) = stats st"
  "stats (set_head f st) = stats st"
  by (simp_all add: stats_def set_tSize_def set_tPreSize_def set_hPre_def set_hNext_def set_head_def)

lemma stats_set_bin [heap_simps]:
  "stats (set_bin r b st) = stats st"
  "stats (set_bin_next r v st) = stats st"
  "stats (set_bin_pre r v st) = stats st"
  by (cases r; simp add: stats_def set_bin_next_def set_bin_pre_def)+

text \<open>The fast bins and the unsorted bin, which are no longer filled.\<close>

definition old_bins :: "CBinMalloc \<Rightarrow> (nat \<Rightarrow> CBin) \<times> CBin" where
  "old_bins st = (m_ptFastBin st, m_ptUnsortedBin st)"

lemma old_bins_simps [heap_simps]:
  "old_bins (set_tSize h v st) = old_bins st"
  "old_bins (set_tPreSize h v st) = old_bins st"
  "old_bins (set_hPre h v st) = old_bins st"
  "old_bins (set_hNext h v st) = old_bins st"
  "old_bins (set_head f st) = old_bins st"
  "old_bins (set_bin_next (SBin i) v st) = old_bins st"
  "old_bins (set_bin_pre (SBin i) v st) = old_bins st"
  by (simp_all add: old_bins_def set_tSize_def set_tPreSize_def set_hPre_def set_hNext_def
      set_head_def set_bin_next_def set_bin_pre_def)

lemma GetMinChunkSize_stats: "stats st' = stats st \<Longrightarrow> GetMinChunkSize st' = GetMinChunkSize st"
  by (simp add: stats_def GetMinChunkSize_def)

section \<open>The chain of a bin\<close>

text \<open>
  \<open>chain st p h xs l t\<close>: starting at \<open>h\<close> with predecessor \<open>p\<close>, the links run through \<open>xs\<close>,
  whose last element is \<open>l\<close>, and continue at \<open>t\<close>.
\<close>

fun chain :: "CBinMalloc \<Rightarrow> handle \<Rightarrow> handle \<Rightarrow> handle list \<Rightarrow> handle \<Rightarrow> handle \<Rightarrow> bool" where
  "chain st p h [] l t \<longleftrightarrow> h = t \<and> l = p"
| "chain st p h (x # xs) l t \<longleftrightarrow>
     h = x \<and> x \<noteq> INVALID_HANDLE \<and> hPre st x = p \<and> chain st x (hNext st x) xs l t"

definition dll :: "CBinMalloc \<Rightarrow> binref \<Rightarrow> handle list \<Rightarrow> bool" where
  "dll st r xs \<longleftrightarrow>
     chain st INVALID_HANDLE (bin_hNextChunk (get_bin st r)) xs (bin_hPreChunk (get_bin st r))
       INVALID_HANDLE
     \<and> distinct xs"

lemma chain_cong:
  assumes "\<And>x. x \<in> set xs \<Longrightarrow> hPre st' x = hPre st x \<and> hNext st' x = hNext st x"
  shows "chain st' p h xs l t = chain st p h xs l t"
  using assms by (induction xs arbitrary: p h) auto

lemma chain_append:
  "chain st p h (xs @ ys) l t \<longleftrightarrow> (\<exists>m n. chain st p h xs m n \<and> chain st m n ys l t)"
  by (induction xs arbitrary: p h) auto

lemma chain_last: "chain st p h xs l t \<Longrightarrow> l = (if xs = [] then p else last xs)"
  by (induction xs arbitrary: p h) auto

lemma chain_hd: "chain st p h xs l t \<Longrightarrow> h = (if xs = [] then t else hd xs)"
  by (cases xs) auto

lemma chain_zero: "chain st p h xs l t \<Longrightarrow> INVALID_HANDLE \<notin> set xs"
  by (induction xs arbitrary: p h) auto

lemma chain_set_next:
  assumes "chain st p h xs m n" "xs \<noteq> []" "distinct xs"
  shows "chain (set_hNext m n' st) p h xs m n'"
  using assms
proof (induction xs arbitrary: p h)
  case Nil
  then show ?case by simp
next
  case (Cons x xs)
  show ?case
  proof (cases "xs = []")
    case True
    with Cons.prems show ?thesis by (auto simp: heap_simps)
  next
    case False
    with Cons.prems have "m = last xs" by (auto dest: chain_last)
    with False Cons.prems have "m \<noteq> x" by auto
    with False Cons show ?thesis by (auto simp: heap_simps)
  qed
qed

lemma chain_set_pre:
  assumes "chain st p h xs l t" "xs \<noteq> []" "distinct xs"
  shows "chain (set_hPre h p' st) p' h xs l t"
proof (cases xs)
  case Nil
  with assms show ?thesis by simp
next
  case (Cons x ys)
  with assms have "chain (set_hPre x p' st) x (hNext st x) ys l t = chain st x (hNext st x) ys l t"
    by (intro chain_cong) (auto simp: heap_simps)
  with Cons assms show ?thesis by (auto simp: heap_simps)
qed

lemma chain_unique:
  "chain st q v us l INVALID_HANDLE \<Longrightarrow> chain st q v vs l' INVALID_HANDLE \<Longrightarrow> us = vs"
proof (induction us arbitrary: q v vs)
  case Nil
  then show ?case by (cases vs) auto
next
  case (Cons u us)
  then show ?case by (cases vs) auto
qed

lemma dll_zero: "dll st r xs \<Longrightarrow> INVALID_HANDLE \<notin> set xs"
  by (auto simp: dll_def dest: chain_zero)

lemma dll_distinct: "dll st r xs \<Longrightarrow> distinct xs"
  by (simp add: dll_def)

lemma dll_Nil: "dll st r [] \<longleftrightarrow> get_bin st r = empty_bin"
  by (cases "get_bin st r") (auto simp: dll_def empty_bin_def)

lemma dll_next_eq:
  "dll st r xs \<Longrightarrow> bin_hNextChunk (get_bin st r) = (if xs = [] then INVALID_HANDLE else hd xs)"
  by (auto simp: dll_def dest: chain_hd)

lemma dll_pre_eq:
  "dll st r xs \<Longrightarrow> bin_hPreChunk (get_bin st r) = (if xs = [] then INVALID_HANDLE else last xs)"
  by (auto simp: dll_def dest: chain_last)

lemma dll_cong:
  assumes "\<And>x. x \<in> set xs \<Longrightarrow> hPre st' x = hPre st x \<and> hNext st' x = hNext st x"
    and "get_bin st' r = get_bin st r"
  shows "dll st' r xs = dll st r xs"
  unfolding dll_def assms(2) using chain_cong [of xs st' st, OF assms(1)] by simp

lemma dll_unique: "dll st r xs \<Longrightarrow> dll st r ys \<Longrightarrow> xs = ys"
  unfolding dll_def by (blast intro: chain_unique)

lemma dll_empty_iff:
  assumes "dll st r xs"
  shows "bin_hNextChunk (get_bin st r) = INVALID_HANDLE \<longleftrightarrow> xs = []"
  using dll_next_eq [OF assms] dll_zero [OF assms] by (cases xs) auto

section \<open>Linking and unlinking\<close>

lemma UnlinkBin_frame [heap_simps]:
  "tSize (snd (UnlinkBin r h st)) a = tSize st a"
  "tPreSize (snd (UnlinkBin r h st)) a = tPreSize st a"
  "m_pstHead (snd (UnlinkBin r h st)) = m_pstHead st"
  "stats (snd (UnlinkBin r h st)) = stats st"
  by (simp_all add: UnlinkBin_def Let_def heap_simps)

lemma LinkBin_frame [heap_simps]:
  "tSize (snd (LinkBin r h st)) a = tSize st a"
  "tPreSize (snd (LinkBin r h st)) a = tPreSize st a"
  "m_pstHead (snd (LinkBin r h st)) = m_pstHead st"
  "stats (snd (LinkBin r h st)) = stats st"
  by (simp_all add: LinkBin_def Let_def heap_simps)

lemma old_bins_link [heap_simps]:
  "old_bins (snd (UnlinkBin (SBin i) h st)) = old_bins st"
  "old_bins (snd (LinkBin (SBin i) h st)) = old_bins st"
  by (simp_all add: UnlinkBin_def LinkBin_def Let_def heap_simps)

lemma UnlinkBin_other:
  assumes "r' \<noteq> r"
  shows "get_bin (snd (UnlinkBin r h st)) r' = get_bin st r'"
  using assms by (simp add: UnlinkBin_def Let_def heap_simps set_bin_next_def set_bin_pre_def)

lemma LinkBin_other:
  assumes "r' \<noteq> r"
  shows "get_bin (snd (LinkBin r h st)) r' = get_bin st r'"
  using assms by (simp add: LinkBin_def Let_def heap_simps set_bin_next_def set_bin_pre_def)

text \<open>\<open>LinkBin\<close> puts a chunk at the head of the bin.\<close>

lemma LinkBin_dll:
  assumes d: "dll st r xs" and h: "h \<noteq> INVALID_HANDLE" "h \<notin> set xs"
  shows "fst (LinkBin r h st) = 0" and "dll (snd (LinkBin r h st)) r (h # xs)"
proof -
  have nx: "bin_hNextChunk (get_bin st r) = (if xs = [] then INVALID_HANDLE else hd xs)"
    and pr: "bin_hPreChunk (get_bin st r) = (if xs = [] then INVALID_HANDLE else last xs)"
    using d by (auto dest: dll_next_eq dll_pre_eq)
  have nz: "xs \<noteq> [] \<Longrightarrow> hd xs \<noteq> INVALID_HANDLE \<and> last xs \<noteq> INVALID_HANDLE"
    using dll_zero [OF d] by (metis hd_in_set last_in_set)
  show "fst (LinkBin r h st) = 0"
    using nx pr nz h by (auto simp: LinkBin_def Let_def heap_simps)
  show "dll (snd (LinkBin r h st)) r (h # xs)"
  proof (cases xs)
    case Nil
    with nx pr h show ?thesis
      by (simp add: LinkBin_def Let_def heap_simps dll_def)
  next
    case (Cons y ys)
    let ?s1 = "set_hPre h INVALID_HANDLE (set_hNext h y st)"
    let ?s2 = "set_bin_next r h (set_hPre y h ?s1)"
    from Cons nx pr nz h have eq: "LinkBin r h st = (0, ?s2)"
      by (simp add: LinkBin_def Let_def heap_simps)
    from d Cons nx pr have c: "chain st INVALID_HANDLE y xs (last xs) INVALID_HANDLE"
      by (simp add: dll_def)
    have "chain ?s1 INVALID_HANDLE y xs (last xs) INVALID_HANDLE"
      using c h(2) by (subst chain_cong [of xs _ st]) (auto simp: heap_simps)
    then have "chain (set_hPre y h ?s1) h y xs (last xs) INVALID_HANDLE"
      using Cons d by (intro chain_set_pre) (auto dest: dll_distinct)
    then have "chain ?s2 h y xs (last xs) INVALID_HANDLE"
      by (subst chain_cong [of xs _ "set_hPre y h ?s1"]) (auto simp: heap_simps)
    moreover have "h \<noteq> y" using h Cons by auto
    ultimately show ?thesis
      using eq Cons pr h d by (auto simp: dll_def heap_simps)
  qed
qed

text \<open>\<open>UnlinkBin\<close> removes exactly the given chunk.\<close>

lemma UnlinkBin_dll:
  assumes d: "dll st r (xs @ y # ys)"
  shows "fst (UnlinkBin r y st) = 0" and "dll (snd (UnlinkBin r y st)) r (xs @ ys)"
proof -
  let ?hd = "bin_hNextChunk (get_bin st r)" and ?tl = "bin_hPreChunk (get_bin st r)"
  note ds = dll_distinct [OF d] and z = dll_zero [OF d]
  from d obtain m where c1: "chain st INVALID_HANDLE ?hd xs m y" and py: "hPre st y = m"
    and c2: "chain st y (hNext st y) ys ?tl INVALID_HANDLE" and y0: "y \<noteq> INVALID_HANDLE"
    by (auto simp: dll_def chain_append)
  have hd0: "?hd \<noteq> INVALID_HANDLE" using chain_hd [OF c1] z by (cases xs) auto
  have tl0: "?tl \<noteq> INVALID_HANDLE" using chain_last [OF c2] z by (cases ys rule: rev_cases) auto
  have m0: "m = INVALID_HANDLE \<longleftrightarrow> xs = []" using chain_last [OF c1] z by (cases xs rule: rev_cases) auto
  have n0: "hNext st y = INVALID_HANDLE \<longleftrightarrow> ys = []" using chain_hd [OF c2] z by (cases ys) auto
  let ?n = "hNext st y"
  let ?s1 = "if xs = [] then set_bin_next r ?n st else set_hNext m ?n st"
  let ?s2 = "if ys = [] then set_bin_pre r m ?s1 else set_hPre ?n m ?s1"
  have my: "xs \<noteq> [] \<Longrightarrow> m \<noteq> y \<and> m \<in> set xs" using chain_last [OF c1] ds by auto
  have ny: "ys \<noteq> [] \<Longrightarrow> ?n \<in> set ys" using chain_hd [OF c2] by auto
  have eq: "UnlinkBin r y st = (0, ?s2)"
    using y0 hd0 tl0 m0 n0 py my by (auto simp: UnlinkBin_def Let_def heap_simps)
  then show "fst (UnlinkBin r y st) = 0" by simp
  have a1: "chain ?s1 INVALID_HANDLE (if xs = [] then ?n else ?hd) xs m ?n"
    using c1 ds by (auto simp: heap_simps intro: chain_set_next)
  have a2: "chain ?s1 y ?n ys ?tl INVALID_HANDLE"
    using c2 my ds by (subst chain_cong [of ys _ st]) (auto simp: heap_simps)
  have b1: "chain ?s2 INVALID_HANDLE (if xs = [] then ?n else ?hd) xs m ?n"
    using a1 ny ds by (subst chain_cong [of xs _ ?s1]) (auto simp: heap_simps)
  have b2: "chain ?s2 m ?n ys (if ys = [] then m else ?tl) INVALID_HANDLE"
    using a2 ds by (auto simp: heap_simps intro: chain_set_pre)
  have bn: "bin_hNextChunk (get_bin ?s2 r) = (if xs = [] then ?n else ?hd)"
    and bp: "bin_hPreChunk (get_bin ?s2 r) = (if ys = [] then m else ?tl)"
    by (auto simp: heap_simps)
  have "chain ?s2 INVALID_HANDLE (if xs = [] then ?n else ?hd) (xs @ ys)
          (if ys = [] then m else ?tl) INVALID_HANDLE"
    unfolding chain_append using b1 b2 by (intro exI conjI)
  moreover have "distinct (xs @ ys)" using ds by simp
  ultimately have "dll ?s2 r (xs @ ys)"
    unfolding dll_def bn bp by (rule conjI)
  with eq show "dll (snd (UnlinkBin r y st)) r (xs @ ys)" by simp
qed

text \<open>Both leave alone the links of every chunk outside the bin.\<close>

lemma UnlinkBin_links:
  assumes "dll st r (xs @ y # ys)" "a \<notin> set (xs @ y # ys)"
  shows "hPre (snd (UnlinkBin r y st)) a = hPre st a"
    and "hNext (snd (UnlinkBin r y st)) a = hNext st a"
proof -
  from assms(1) obtain m where "chain st INVALID_HANDLE (bin_hNextChunk (get_bin st r)) xs m y"
    and py: "hPre st y = m" and c2: "chain st y (hNext st y) ys (bin_hPreChunk (get_bin st r)) INVALID_HANDLE"
    by (auto simp: dll_def chain_append)
  then have "xs \<noteq> [] \<Longrightarrow> m \<in> set xs" "xs = [] \<Longrightarrow> m = INVALID_HANDLE" by (auto dest: chain_last)
  moreover from c2 have "ys \<noteq> [] \<Longrightarrow> hNext st y \<in> set ys" "ys = [] \<Longrightarrow> hNext st y = INVALID_HANDLE"
    by (auto dest: chain_hd)
  ultimately show "hPre (snd (UnlinkBin r y st)) a = hPre st a"
    and "hNext (snd (UnlinkBin r y st)) a = hNext st a"
    using assms py by (auto simp: UnlinkBin_def Let_def heap_simps)
qed

lemma LinkBin_links:
  assumes "dll st r xs" "a \<notin> set (h # xs)"
  shows "hPre (snd (LinkBin r h st)) a = hPre st a"
    and "hNext (snd (LinkBin r h st)) a = hNext st a"
proof -
  have "bin_hNextChunk (get_bin st r) = INVALID_HANDLE \<or> bin_hNextChunk (get_bin st r) \<in> set xs"
    using dll_next_eq [OF assms(1)] by auto
  then show "hPre (snd (LinkBin r h st)) a = hPre st a"
    and "hNext (snd (LinkBin r h st)) a = hNext st a"
    using assms by (auto simp: LinkBin_def Let_def heap_simps)
qed

end
