(* ===== verification/Bin_Malloc_Inv.thy ===== *)
theory Bin_Malloc_Inv
  imports Bin_Malloc_Heap
begin

text \<open>
  The invariant of the allocator.  The region between \<open>m_hBottom\<close> and \<open>m_hTop\<close> is tiled by
  blocks (address, size, in use); the headers agree with the tiling (\<open>seg\<close>), and bin \<open>i\<close>
  holds exactly the free blocks whose size has index \<open>i\<close>, with the bitmap bit of every
  non-empty bin set (\<open>bins_ok\<close>).
\<close>

type_synonym block = "handle \<times> nat \<times> bool"

section \<open>Tiling\<close>

definition size_ok :: "nat \<Rightarrow> bool" where
  "size_ok n \<longleftrightarrow> 8 dvd n \<and> MINSIZE \<le> n \<and> n \<le> MAX_ALLOC_SIZE"

fun seg :: "CBinMalloc \<Rightarrow> handle \<Rightarrow> block list \<Rightarrow> handle \<Rightarrow> bool" where
  "seg st a [] e \<longleftrightarrow> a = e"
| "seg st a ((b, n, u) # bs) e \<longleftrightarrow>
     b = a \<and> CHUNK_SIZE st a = n \<and> size_ok n
     \<and> (u \<longrightarrow> odd (tSize st (a + n)))
     \<and> (even (tSize st (a + n)) \<longrightarrow> tPreSize st (a + n) = n)
     \<and> seg st (a + n) bs e"

definition live :: "block list \<Rightarrow> block list" where
  "live bs = filter (\<lambda>(a, n, u). u) bs"

definition free_of :: "block list \<Rightarrow> (handle \<times> nat) set" where
  "free_of bs = {(a, n). (a, n, False) \<in> set bs}"

lemma live_simps [simp]:
  "live [] = []" "live ((a, n, u) # bs) = (if u then (a, n, u) # live bs else live bs)"
  "live (xs @ ys) = live xs @ live ys"
  by (simp_all add: live_def)

lemma free_of_simps [simp]:
  "free_of [] = {}"
  "free_of ((a, n, u) # bs) = (if u then free_of bs else insert (a, n) (free_of bs))"
  "free_of (xs @ ys) = free_of xs \<union> free_of ys"
  by (auto simp: free_of_def)

lemma size_ok_dvd: "size_ok n \<Longrightarrow> 8 dvd n"
  and size_ok_pos: "size_ok n \<Longrightarrow> 24 \<le> n"
  and size_ok_le: "size_ok n \<Longrightarrow> n \<le> 4294967288"
  by (simp_all add: size_ok_def MINSIZE_def MAX_ALLOC_SIZE_def)

lemma size_ok_lt32: "size_ok n \<Longrightarrow> n < 4294967296"
  by (drule size_ok_le) simp

lemma size_ok_add:
  "size_ok m \<Longrightarrow> size_ok n \<Longrightarrow> CAN_COMBILE m n \<Longrightarrow> size_ok (m + n)"
  by (simp add: size_ok_def CAN_COMBILE_def)

lemma seg_append: "seg st a (xs @ ys) e \<longleftrightarrow> (\<exists>m. seg st a xs m \<and> seg st m ys e)"
  by (induction xs arbitrary: a) auto

lemma seg_le: "seg st a bs e \<Longrightarrow> a \<le> e"
  by (induction bs arbitrary: a) fastforce+

lemma seg_block:
  "seg st a bs e \<Longrightarrow> (b, n, u) \<in> set bs \<Longrightarrow>
     a \<le> b \<and> b + n \<le> e \<and> size_ok n \<and> CHUNK_SIZE st b = n \<and> (u \<longrightarrow> odd (tSize st (b + n)))"
proof (induction bs arbitrary: a)
  case Nil
  then show ?case by simp
next
  case (Cons x bs)
  obtain b' n' u' where x: "x = (b', n', u')" by (cases x)
  from Cons.prems x have s: "seg st (a + n') bs e" by simp
  show ?case
  proof (cases "(b, n, u) = x")
    case True
    with Cons.prems x seg_le [OF s] show ?thesis by auto
  next
    case False
    with Cons.prems Cons.IH [OF s] show ?thesis by auto
  qed
qed

lemma seg_addr_inj:
  "seg st a bs e \<Longrightarrow> (b, n, u) \<in> set bs \<Longrightarrow> (b, n', u') \<in> set bs \<Longrightarrow> n = n' \<and> u = u'"
proof (induction bs arbitrary: a)
  case Nil
  then show ?case by simp
next
  case (Cons x bs)
  obtain c m v where x: "x = (c, m, v)" by (cases x)
  from Cons.prems x have s: "seg st (a + m) bs e" and c: "c = a" and m: "size_ok m" by auto
  have "\<And>k w. (c, k, w) \<notin> set bs" using seg_block [OF s] c size_ok_pos [OF m] by fastforce
  with Cons.prems Cons.IH [OF s] x show ?case by auto
qed

lemma seg_distinct: "seg st a bs e \<Longrightarrow> distinct (map fst bs)"
proof (induction bs arbitrary: a)
  case Nil
  then show ?case by simp
next
  case (Cons x bs)
  obtain c m v where x: "x = (c, m, v)" by (cases x)
  from Cons.prems x have s: "seg st (a + m) bs e" and c: "c = a" and m: "size_ok m" by auto
  then have "c \<notin> set (map fst bs)" using seg_block [OF s] size_ok_pos [OF m] by fastforce
  with Cons.IH [OF s] x show ?case by simp
qed

text \<open>Blocks do not overlap: this is what makes the typed view of the memory sound.\<close>

lemma seg_disjoint:
  "seg st a bs e \<Longrightarrow> (b, n, u) \<in> set bs \<Longrightarrow> (c, m, v) \<in> set bs \<Longrightarrow> b < c \<Longrightarrow> b + n \<le> c"
proof (induction bs arbitrary: a)
  case Nil
  then show ?case by simp
next
  case (Cons x bs)
  obtain d k w where x: "x = (d, k, w)" by (cases x)
  from Cons.prems x have s: "seg st (a + k) bs e" and d: "d = a" by auto
  from Cons.prems x d consider "(b, n, u) = x" "(c, m, v) \<in> set bs"
    | "(b, n, u) \<in> set bs" "(c, m, v) = x" | "(b, n, u) \<in> set bs" "(c, m, v) \<in> set bs"
    by auto
  then show ?case
  proof cases
    case 1
    with x d seg_block [OF s, of c m v] show ?thesis by simp
  next
    case 2
    with x d seg_block [OF s, of b n u] Cons.prems(4) show ?thesis by simp
  next
    case 3
    with Cons.IH [OF s] Cons.prems(4) show ?thesis by simp
  qed
qed

lemma seg_cong:
  assumes "seg st a bs e"
    and "\<And>x. a \<le> x \<Longrightarrow> x < e \<Longrightarrow> CHUNK_SIZE st' x = CHUNK_SIZE st x"
    and "\<And>x. a < x \<Longrightarrow> x \<le> e \<Longrightarrow> odd (tSize st' x) = odd (tSize st x) \<and> tPreSize st' x = tPreSize st x"
  shows "seg st' a bs e"
  using assms
proof (induction bs arbitrary: a)
  case Nil
  then show ?case by simp
next
  case (Cons x bs)
  obtain c m v where x: "x = (c, m, v)" by (cases x)
  from Cons.prems x have s: "seg st (a + m) bs e" and m: "size_ok m" by auto
  have le: "a + m \<le> e" using seg_le [OF s] .
  have "0 < m" using size_ok_pos [OF m] by simp
  with le have ae: "a < e" by simp
  have "seg st' (a + m) bs e"
    by (rule Cons.IH [OF s]) (use Cons.prems(2,3) \<open>0 < m\<close> in auto)
  moreover have "CHUNK_SIZE st' a = CHUNK_SIZE st a" using Cons.prems(2) ae by simp
  moreover have "odd (tSize st' (a + m)) = odd (tSize st (a + m)) \<and> tPreSize st' (a + m) = tPreSize st (a + m)"
    using Cons.prems(3) [of "a + m"] le \<open>0 < m\<close> by simp
  ultimately show ?case using Cons.prems(1) x by auto
qed

lemma CHUNK_SIZE_dvd [simp]: "8 dvd CHUNK_SIZE st a"
  by (simp add: CHUNK_SIZE_def REAL_SIZE_def)

lemma seg_dvd: "seg st a bs e \<Longrightarrow> 8 dvd a \<Longrightarrow> (b, n, u) \<in> set bs \<Longrightarrow> 8 dvd b"
proof (induction bs arbitrary: a)
  case Nil
  then show ?case by simp
next
  case (Cons x bs)
  obtain c m v where x: "x = (c, m, v)" by (cases x)
  with Cons.prems have "8 dvd a + m" by (auto dest: size_ok_dvd)
  with Cons x show ?case by auto
qed

text \<open>Replacing the middle of a tiling.\<close>

lemma seg_replace:
  assumes s: "seg st a xs p" "seg st c ys e"
    and mid: "seg st' p mid' c"
    and sz: "\<And>x. x < p \<or> c \<le> x \<Longrightarrow> CHUNK_SIZE st' x = CHUNK_SIZE st x"
    and bit: "\<And>x. x \<le> p \<or> c < x \<Longrightarrow> odd (tSize st' x) = odd (tSize st x) \<and> tPreSize st' x = tPreSize st x"
  shows "seg st' a (xs @ mid' @ ys) e"
proof -
  have "seg st' a xs p"
    by (rule seg_cong [OF s(1)]) (use sz bit in auto)
  moreover have "seg st' c ys e"
    by (rule seg_cong [OF s(2)]) (use sz bit in auto)
  ultimately show ?thesis using mid by (auto simp: seg_append)
qed

lemma seg_split:
  assumes "seg st a (xs @ mid @ ys) e"
  obtains p c where "seg st a xs p" "seg st p mid c" "seg st c ys e"
  using assms by (auto simp: seg_append)

section \<open>Bins\<close>

definition bin_bit :: "CMemHead \<Rightarrow> nat \<Rightarrow> bool" where
  "bin_bit h i = bit (m_auiBinBitMap h ! (i div 32)) (i mod 32)"

definition bin_addrs :: "(handle \<times> nat) set \<Rightarrow> nat \<Rightarrow> handle set" where
  "bin_addrs F i = {a. \<exists>n. (a, n) \<in> F \<and> bin_index n = i}"

definition bins_ok :: "CBinMalloc \<Rightarrow> (handle \<times> nat) set \<Rightarrow> bool" where
  "bins_ok st F \<longleftrightarrow>
     length (m_auiBinBitMap (m_pstHead st)) = 4
     \<and> (\<forall>i<NBINS. \<exists>xs. dll st (SBin i) xs \<and> set xs = bin_addrs F i
          \<and> (xs \<noteq> [] \<longrightarrow> bin_bit (m_pstHead st) i))"

lemma largebin_index_le: "largebin_index n \<le> 126"
  by (auto simp: largebin_index_def)

lemma bin_index_less [simp]: "bin_index n < NBINS"
proof -
  have "n < 512 \<Longrightarrow> n div 8 < 128" by auto
  with largebin_index_le [of n] show ?thesis
    by (auto simp: bin_index_def in_smallbin_range_def smallbin_index_def MIN_LARGE_SIZE_def NBINS_def)
qed

lemma bin_bit_Set:
  assumes "length (m_auiBinBitMap (m_pstHead st)) = 4" "i < NBINS" "j < NBINS"
  shows "bin_bit (m_pstHead (SetBinBitMap i st)) j \<longleftrightarrow> j = i \<or> bin_bit (m_pstHead st) j"
proof -
  have "i div 32 < 4" using assms(2) by (simp add: NBINS_def)
  moreover have "j = i \<longleftrightarrow> j div 32 = i div 32 \<and> j mod 32 = i mod 32"
    by (metis div_mult_mod_eq)
  moreover have "j mod 32 < 32" by simp
  ultimately show ?thesis using assms(1)
    by (auto simp: bin_bit_def SetBinBitMap_def set_head_def bit_simps nth_list_update)
qed

lemma bin_bit_Clear:
  assumes "length (m_auiBinBitMap (m_pstHead st)) = 4" "i < NBINS" "j < NBINS" "j \<noteq> i"
  shows "bin_bit (m_pstHead (ClearBinBitMap i st)) j \<longleftrightarrow> bin_bit (m_pstHead st) j"
proof -
  have "i div 32 < 4" using assms(2) by (simp add: NBINS_def)
  moreover have "j div 32 \<noteq> i div 32 \<or> j mod 32 \<noteq> i mod 32"
    using assms(4) by (metis div_mult_mod_eq)
  ultimately show ?thesis using assms(1)
    by (auto simp: bin_bit_def ClearBinBitMap_def set_head_def bit_simps nth_list_update)
qed

lemma BitMap_frame [heap_simps]:
  "m_mem (SetBinBitMap i st) = m_mem st" "m_mem (ClearBinBitMap i st) = m_mem st"
  "get_bin (SetBinBitMap i st) r = get_bin st r" "get_bin (ClearBinBitMap i st) r = get_bin st r"
  "stats (SetBinBitMap i st) = stats st" "stats (ClearBinBitMap i st) = stats st"
  "old_bins (SetBinBitMap i st) = old_bins st" "old_bins (ClearBinBitMap i st) = old_bins st"
  by (simp_all add: SetBinBitMap_def ClearBinBitMap_def heap_simps)

lemma BitMap_head [heap_simps]:
  "m_hTop (m_pstHead (SetBinBitMap i st)) = hTop st"
  "m_hBottom (m_pstHead (SetBinBitMap i st)) = hBottom st"
  "hd_tSize (m_pstHead (SetBinBitMap i st)) = memSize st"
  "m_tUserAllocSize (m_pstHead (SetBinBitMap i st)) = m_tUserAllocSize (m_pstHead st)"
  "m_tUserAllocChunkCnt (m_pstHead (SetBinBitMap i st)) = m_tUserAllocChunkCnt (m_pstHead st)"
  "length (m_auiBinBitMap (m_pstHead (SetBinBitMap i st))) = length (m_auiBinBitMap (m_pstHead st))"
  "m_hTop (m_pstHead (ClearBinBitMap i st)) = hTop st"
  "m_hBottom (m_pstHead (ClearBinBitMap i st)) = hBottom st"
  "hd_tSize (m_pstHead (ClearBinBitMap i st)) = memSize st"
  "m_tUserAllocSize (m_pstHead (ClearBinBitMap i st)) = m_tUserAllocSize (m_pstHead st)"
  "m_tUserAllocChunkCnt (m_pstHead (ClearBinBitMap i st)) = m_tUserAllocChunkCnt (m_pstHead st)"
  "m_uiFlags (m_pstHead (SetBinBitMap i st)) = m_uiFlags (m_pstHead st)"
  "m_uiFlags (m_pstHead (ClearBinBitMap i st)) = m_uiFlags (m_pstHead st)"
  "length (m_auiBinBitMap (m_pstHead (ClearBinBitMap i st))) = length (m_auiBinBitMap (m_pstHead st))"
  by (simp_all add: SetBinBitMap_def ClearBinBitMap_def heap_simps)

lemma bins_ok_cong:
  assumes "bins_ok st F"
    and "\<And>x. hPre st' x = hPre st x \<and> hNext st' x = hNext st x"
    and "\<And>r. get_bin st' r = get_bin st r"
    and "m_auiBinBitMap (m_pstHead st') = m_auiBinBitMap (m_pstHead st)"
  shows "bins_ok st' F"
proof -
  have "\<And>r xs. dll st' r xs = dll st r xs" using assms(2,3) by (intro dll_cong) auto
  with assms(1,4) show ?thesis by (simp add: bins_ok_def bin_bit_def)
qed

definition functional :: "(handle \<times> nat) set \<Rightarrow> bool" where
  "functional F \<longleftrightarrow> (\<forall>a n m. (a, n) \<in> F \<longrightarrow> (a, m) \<in> F \<longrightarrow> n = m)"

lemma functional_mono: "functional F \<Longrightarrow> G \<subseteq> F \<Longrightarrow> functional G"
  by (auto simp: functional_def)

lemma seg_functional: "seg st a bs e \<Longrightarrow> functional (free_of bs)"
  using seg_addr_inj by (fastforce simp: functional_def free_of_def)

lemma bin_addrs_disjoint:
  "functional F \<Longrightarrow> i \<noteq> j \<Longrightarrow> bin_addrs F i \<inter> bin_addrs F j = {}"
  by (auto simp: bin_addrs_def functional_def)

lemma unlink_frame [heap_simps]:
  "tSize (unlink_and_mark i a st) x = tSize st x"
  "tPreSize (unlink_and_mark i a st) x = tPreSize st x"
  "hTop (unlink_and_mark i a st) = hTop st"
  "hBottom (unlink_and_mark i a st) = hBottom st"
  "memSize (unlink_and_mark i a st) = memSize st"
  "m_tUserAllocSize (m_pstHead (unlink_and_mark i a st)) = m_tUserAllocSize (m_pstHead st)"
  "m_tUserAllocChunkCnt (m_pstHead (unlink_and_mark i a st)) = m_tUserAllocChunkCnt (m_pstHead st)"
  "stats (unlink_and_mark i a st) = stats st"
  "old_bins (unlink_and_mark i a st) = old_bins st"
  "m_uiFlags (m_pstHead (unlink_and_mark i a st)) = m_uiFlags (m_pstHead st)"
  by (simp_all add: unlink_and_mark_def Let_def heap_simps)

text \<open>Removing a free block from its bin.\<close>

lemma bins_unlink:
  assumes ok: "bins_ok st F" and fn: "functional F" and mem: "(a, n) \<in> F"
  shows "bins_ok (unlink_and_mark (bin_index n) a st) (F - {(a, n)})"
proof -
  let ?i = "bin_index n" and ?s1 = "snd (UnlinkBin (SBin (bin_index n)) a st)"
  let ?s2 = "unlink_and_mark (bin_index n) a st" and ?G = "F - {(a, n)}"
  have len: "length (m_auiBinBitMap (m_pstHead st)) = 4" using ok by (simp add: bins_ok_def)
  obtain xs where d: "dll st (SBin ?i) xs" and xs: "set xs = bin_addrs F ?i"
    and bt: "xs \<noteq> [] \<longrightarrow> bin_bit (m_pstHead st) ?i"
    using ok bin_index_less [of n] unfolding bins_ok_def by blast
  have "a \<in> set xs" using xs mem by (auto simp: bin_addrs_def)
  then obtain us vs where uv: "xs = us @ a # vs" by (auto simp: in_set_conv_decomp)
  note d' = d [unfolded uv]
  have G: "bin_addrs ?G ?i = bin_addrs F ?i - {a}"
    using fn mem by (auto simp: bin_addrs_def functional_def)
  have Gj: "j \<noteq> ?i \<Longrightarrow> bin_addrs ?G j = bin_addrs F j" for j
    by (auto simp: bin_addrs_def)
  have s12: "dll ?s2 r ys = dll ?s1 r ys" for r ys
    by (rule dll_cong) (simp_all add: unlink_and_mark_def Let_def heap_simps)
  have di: "dll ?s2 (SBin ?i) (us @ vs)" using UnlinkBin_dll(2) [OF d'] s12 by simp
  have e: "EmptyBin ?s1 ?i \<longleftrightarrow> us @ vs = []"
    using dll_empty_iff [OF UnlinkBin_dll(2) [OF d']] by (simp add: EmptyBin_def)
  have bit2: "bin_bit (m_pstHead st) j \<Longrightarrow> j < NBINS \<Longrightarrow> j \<noteq> ?i \<or> us @ vs \<noteq> [] \<Longrightarrow>
      bin_bit (m_pstHead ?s2) j" for j
    using e len by (auto simp: unlink_and_mark_def Let_def bin_bit_Clear heap_simps)
  have "\<exists>ys. dll ?s2 (SBin j) ys \<and> set ys = bin_addrs ?G j
          \<and> (ys \<noteq> [] \<longrightarrow> bin_bit (m_pstHead ?s2) j)" if j: "j < NBINS" for j
  proof (cases "j = ?i")
    case True
    have "set (us @ vs) = bin_addrs ?G j"
      using True G xs uv dll_distinct [OF d'] by auto
    with di bt bit2 j True uv show ?thesis by (intro exI [of _ "us @ vs"]) auto
  next
    case False
    obtain ys where dj: "dll st (SBin j) ys" and ys: "set ys = bin_addrs F j"
      and bj: "ys \<noteq> [] \<longrightarrow> bin_bit (m_pstHead st) j"
      using ok j unfolding bins_ok_def by blast
    have disj: "x \<notin> set (us @ a # vs)" if "x \<in> set ys" for x
      using that ys xs uv bin_addrs_disjoint [OF fn False] by auto
    have "dll ?s1 (SBin j) ys"
      using dj UnlinkBin_links [OF d'] disj False
      by (subst dll_cong [of ys _ st]) (auto simp: UnlinkBin_other simp del: get_bin.simps)
    with s12 bj bit2 j False ys Gj show ?thesis by (intro exI [of _ ys]) auto
  qed
  moreover have "length (m_auiBinBitMap (m_pstHead ?s2)) = 4"
    using len by (simp add: unlink_and_mark_def Let_def heap_simps)
  ultimately show ?thesis by (simp add: bins_ok_def)
qed

text \<open>Putting a free block into its bin.\<close>

lemma bins_link:
  assumes ok: "bins_ok st F" and fn: "functional F"
    and a: "a \<noteq> INVALID_HANDLE" "a \<notin> fst ` F" and i: "i = bin_index n"
  shows "bins_ok (SetBinBitMap i (snd (LinkBin (SBin i) a st))) (insert (a, n) F)"
proof -
  let ?s1 = "snd (LinkBin (SBin i) a st)" and ?G = "insert (a, n) F"
  let ?s2 = "SetBinBitMap i ?s1"
  have iN: "i < NBINS" using i by simp
  have len: "length (m_auiBinBitMap (m_pstHead st)) = 4" using ok by (simp add: bins_ok_def)
  obtain xs where d: "dll st (SBin i) xs" and xs: "set xs = bin_addrs F i"
    using ok iN unfolding bins_ok_def by blast
  have ax: "a \<notin> set xs" using xs a(2) by (force simp: bin_addrs_def)
  have s12: "dll ?s2 r ys = dll ?s1 r ys" for r ys
    by (rule dll_cong) (simp_all add: heap_simps)
  have di: "dll ?s2 (SBin i) (a # xs)" using LinkBin_dll(2) [OF d a(1) ax] s12 by simp
  have bits: "bin_bit (m_pstHead ?s2) j \<longleftrightarrow> j = i \<or> bin_bit (m_pstHead st) j" if "j < NBINS" for j
    using bin_bit_Set [of ?s1 i j] len iN that by (simp add: heap_simps)
  have "\<exists>ys. dll ?s2 (SBin j) ys \<and> set ys = bin_addrs ?G j
          \<and> (ys \<noteq> [] \<longrightarrow> bin_bit (m_pstHead ?s2) j)" if j: "j < NBINS" for j
  proof (cases "j = i")
    case True
    have "set (a # xs) = bin_addrs ?G j" using True xs i by (auto simp: bin_addrs_def)
    with di bits j True show ?thesis by (intro exI [of _ "a # xs"]) auto
  next
    case False
    obtain ys where dj: "dll st (SBin j) ys" and ys: "set ys = bin_addrs F j"
      and bj: "ys \<noteq> [] \<longrightarrow> bin_bit (m_pstHead st) j"
      using ok j unfolding bins_ok_def by blast
    have disj: "x \<notin> set (a # xs)" if "x \<in> set ys" for x
      using that ys xs a(2) bin_addrs_disjoint [OF fn False] by (force simp: bin_addrs_def)
    have "dll ?s1 (SBin j) ys"
      using dj LinkBin_links [OF d] disj False
      by (subst dll_cong [of ys _ st]) (auto simp: LinkBin_other simp del: get_bin.simps)
    moreover have "bin_addrs ?G j = bin_addrs F j" using i False by (auto simp: bin_addrs_def)
    ultimately show ?thesis using s12 bj bits j ys by (intro exI [of _ ys]) auto
  qed
  moreover have "length (m_auiBinBitMap (m_pstHead ?s2)) = 4"
    using len by (simp add: heap_simps)
  ultimately show ?thesis by (simp add: bins_ok_def)
qed

section \<open>The invariant\<close>

definition seg_inv :: "CBinMalloc \<Rightarrow> block list \<Rightarrow> bool" where
  "seg_inv st bs \<longleftrightarrow>
     8 dvd hBottom st \<and> 0 < hBottom st
     \<and> seg st (hBottom st) bs (hTop st)
     \<and> odd (tSize st (hBottom st)) \<and> tSize st (hTop st) = 1
     \<and> hTop st + MINSIZE \<le> memSize st"

definition heap_inv :: "CBinMalloc \<Rightarrow> block list \<Rightarrow> bool" where
  "heap_inv st bs \<longleftrightarrow> seg_inv st bs \<and> bins_ok st (free_of bs)"

text \<open>What freeing and allocating never change.\<close>

definition frame ::
  "CBinMalloc \<Rightarrow> (nat \<times> nat \<times> nat \<times> (handle \<Rightarrow> nat)) \<times> ((nat \<Rightarrow> CBin) \<times> CBin) \<times> nat \<times> nat \<times> nat \<times> nat \<times> nat"
  where
  "frame st = (stats st, old_bins st, hBottom st, memSize st,
     m_tUserAllocSize (m_pstHead st), m_tUserAllocChunkCnt (m_pstHead st), m_uiFlags (m_pstHead st))"

lemma frame_simps [heap_simps]:
  "frame (set_tSize h v st) = frame st"
  "frame (set_tPreSize h v st) = frame st"
  "frame (unlink_and_mark i a st) = frame st"
  "frame (SetBinBitMap i st) = frame st"
  "frame (snd (LinkBin (SBin i) h st)) = frame st"
  "frame (snd (UnlinkBin (SBin i) h st)) = frame st"
  by (simp_all add: frame_def heap_simps)

lemma frame_eqD:
  assumes "frame st' = frame st"
  shows "hBottom st' = hBottom st" "memSize st' = memSize st" "stats st' = stats st"
    "m_tUserAllocSize (m_pstHead st') = m_tUserAllocSize (m_pstHead st)"
    "m_tUserAllocChunkCnt (m_pstHead st') = m_tUserAllocChunkCnt (m_pstHead st)"
    "old_bins st' = old_bins st" "m_uiFlags (m_pstHead st') = m_uiFlags (m_pstHead st)"
  using assms by (simp_all add: frame_def)

lemma seg_inv_block:
  assumes "seg_inv st bs" "(p, n, u) \<in> set bs"
  shows "8 dvd p" "0 < p" "hBottom st \<le> p" "p + n \<le> hTop st" "p + n < memSize st" "size_ok n"
    "CHUNK_SIZE st p = n" "u \<Longrightarrow> odd (tSize st (p + n))"
proof -
  from assms(1) have s: "seg st (hBottom st) bs (hTop st)" by (simp add: seg_inv_def)
  from seg_block [OF this assms(2)] assms(1)
  show "0 < p" "hBottom st \<le> p" "p + n \<le> hTop st" "p + n < memSize st" "size_ok n"
    "CHUNK_SIZE st p = n" "u \<Longrightarrow> odd (tSize st (p + n))"
    by (auto simp: seg_inv_def MINSIZE_def)
  from seg_dvd [OF s _ assms(2)] assms(1) show "8 dvd p" by (simp add: seg_inv_def)
qed

lemma seg_inv_next:
  assumes "seg_inv st (xs @ (p, n, u) # ys)"
  shows "ys = [] \<Longrightarrow> p + n = hTop st"
    and "ys = (q, m, v) # zs \<Longrightarrow> q = p + n \<and> p + n < hTop st"
proof -
  from assms have s: "seg st (p + n) ys (hTop st)" by (auto simp: seg_inv_def seg_append)
  then show "ys = [] \<Longrightarrow> p + n = hTop st" by simp
  assume "ys = (q, m, v) # zs"
  with s have "q = p + n" "size_ok m" "seg st (p + n + m) zs (hTop st)" by auto
  with seg_le [OF this(3)] size_ok_pos [OF this(2)]
  show "q = p + n \<and> p + n < hTop st" by simp
qed

lemma seg_inv_prev:
  assumes "seg_inv st (xs @ (p, n, u) # ys)" "even (tSize st p)"
  obtains xs' q m where "xs = xs' @ [(q, m, False)]" "p = q + m" "tPreSize st p = m"
proof -
  from assms(1) have s: "seg st (hBottom st) xs p" and o: "odd (tSize st (hBottom st))"
    by (auto simp: seg_inv_def seg_append)
  have "xs \<noteq> []" using s o assms(2) by auto
  then obtain xs' x where x: "xs = xs' @ [x]" by (cases xs rule: rev_cases) auto
  obtain q m v where "x = (q, m, v)" by (cases x)
  with s x assms(2) have "p = q + m" "tPreSize st p = m" "\<not> v" by (auto simp: seg_append)
  with x \<open>x = (q, m, v)\<close> show ?thesis by (intro that [of xs' q m]) auto
qed

text \<open>The header check passes on every block in use.\<close>

lemma CheckInuseChunk_ok:
  assumes inv: "seg_inv st bs" and mem: "(p, n, True) \<in> set bs"
  shows "CheckInuseChunk st p = 0"
proof -
  obtain xs ys where bs: "bs = xs @ (p, n, True) # ys" using mem by (auto simp: in_set_conv_decomp)
  note inv' = inv [unfolded bs]
  note b = seg_inv_block [OF inv mem]
  have c1: "inuse_bit_at_offset st p (CHUNK_SIZE st p)"
    using b by (simp add: inuse_bit_at_offset_def)
  have c2: "\<not> (Ptr2Handle st (if p < tPreSize st p then None else Some (p - tPreSize st p)) < hBottom st
             \<or> CHUNK_SIZE st (p - tPreSize st p) \<noteq> tPreSize st p)" if "\<not> prev_inuse st p"
  proof -
    from that have "even (tSize st p)" by (simp add: prev_inuse_def)
    from seg_inv_prev [OF inv' this] obtain xs' q m
      where x: "xs = xs' @ [(q, m, False)]" and pq: "p = q + m" and pm: "tPreSize st p = m" .
    from x bs have "(q, m, False) \<in> set bs" by simp
    note c = seg_inv_block [OF inv this]
    from c pq pm b show ?thesis by (auto simp: Ptr2Handle_def)
  qed
  have c3: "\<not> AT_TOP st (p + CHUNK_SIZE st p) 0 \<Longrightarrow> \<not> CHUNK_SIZE st (p + CHUNK_SIZE st p) < MINSIZE"
  proof (cases ys)
    case Nil
    then show "\<not> AT_TOP st (p + CHUNK_SIZE st p) 0 \<Longrightarrow> ?thesis"
      using seg_inv_next(1) [OF inv'] b by (simp add: AT_TOP_def)
  next
    case (Cons y zs)
    obtain q m v where y: "y = (q, m, v)" by (cases y)
    have "(q, m, v) \<in> set bs" using bs Cons y by simp
    from seg_inv_block [OF inv this] seg_inv_next(2) [OF inv' Cons [unfolded y]] b
    show ?thesis by (auto simp: size_ok_def)
  qed
  from c1 c2 c3 show ?thesis by (auto simp: CheckInuseChunk_def)
qed

end
