(* ===== verification/Bin_Malloc_Free.thy ===== *)
theory Bin_Malloc_Free
  imports Bin_Malloc_Inv
begin

text \<open>
  Freeing keeps the invariant.  Each stage of \<open>InterFree\<close> (merge with the chunk before,
  merge with the chunk after, mark, put into a bin or give back to the top) is a step on the
  tiling; the stages compose to \<open>InterFree_inv\<close>, and \<open>BM_Free\<close> adds the accounting.
\<close>

section \<open>Stages\<close>

text \<open>Two adjacent blocks become one when the first header gets the sum of the sizes.\<close>

lemma seg_inv_merge:
  assumes inv: "seg_inv st (xs @ (q, m, u) # (p, n, v) # ys)"
    and can: "CAN_COMBILE m n"
    and same: "\<And>x. tSize st1 x = tSize st x" "\<And>x. tPreSize st1 x = tPreSize st x"
    and fr: "frame st1 = frame st" "hTop st1 = hTop st"
    and st': "st' = set_presize_at_offset q (m + n) (m + n) (set_size_at_offset q 0 (m + n) st1)"
  shows "seg_inv st' (xs @ (q, m + n, v) # ys)"
proof -
  have a: "seg st (hBottom st) xs q" "seg st (q + m + n) ys (hTop st)" and p: "p = q + m"
    and sz: "size_ok m" "size_ok n" and ev: "v \<longrightarrow> odd (tSize st (q + m + n))"
    using inv by (auto simp: seg_inv_def seg_append)
  have ok: "size_ok (m + n)" using sz can by (rule size_ok_add)
  note pos = size_ok_pos [OF sz(1)] size_ok_pos [OF sz(2)] and dv = size_ok_dvd [OF ok]
  have le: "q + m + n \<le> hTop st" using seg_le [OF a(2)] .
  have tS: "tSize st' x = (if x = q then m + n + tSize st q mod 8 else tSize st x)" for x
    using dv by (simp add: st' set_presize_at_offset_def set_size_at_offset_def heap_simps same REAL_SIZE_def)
  have tP: "tPreSize st' x = (if x = q + m + n then m + n else tPreSize st x)" for x
    using dv by (simp add: st' set_presize_at_offset_def set_size_at_offset_def heap_simps same REAL_SIZE_def add.assoc)
  have od: "odd (tSize st' x) = odd (tSize st x)" for x
    by (cases "x = q") (simp_all only: tS mask8_bits(2) [OF dv] if_True if_False simp_thms)
  have cs: "CHUNK_SIZE st' x = (if x = q then m + n else CHUNK_SIZE st x)" for x
    using mask8_bits(1) [OF dv] by (simp add: tS CHUNK_SIZE_def REAL_SIZE_def)
  have mid: "seg st' q [(q, m + n, v)] (q + m + n)"
    using ok ev pos by (auto simp: cs od tP add.assoc)
  have "seg st' (hBottom st) (xs @ [(q, m + n, v)] @ ys) (hTop st)"
    by (rule seg_replace [OF a mid]) (use pos in \<open>auto simp: cs od tP\<close>)
  moreover have f: "frame st' = frame st" "hTop st' = hTop st"
    using fr by (simp_all add: st' set_presize_at_offset_def set_size_at_offset_def heap_simps)
  moreover have "tSize st' (hTop st) = tSize st (hTop st)" using le pos by (simp add: tS)
  ultimately show ?thesis using inv od frame_eqD [OF f(1)]
    by (simp add: seg_inv_def)
qed

text \<open>The header of a block is written again, its end marked as in use.\<close>

lemma seg_inv_mark:
  assumes inv: "seg_inv st (xs @ (h, k, u) # ys)"
    and st': "st' = set_inuse_bit_at_offset h k (set_presize_at_offset h k k (set_size_at_offset h 0 k st))"
  shows "seg_inv st' (xs @ (h, k, True) # ys)" and "tPreSize st' (h + k) = k"
    and "frame st' = frame st" and "hTop st' = hTop st"
proof -
  have a: "seg st (hBottom st) xs h" "seg st (h + k) ys (hTop st)" and ok: "size_ok k"
    and hk: "CHUNK_SIZE st h = k" and top: "tSize st (hTop st) = 1"
    using inv by (auto simp: seg_inv_def seg_append)
  note pos = size_ok_pos [OF ok] and dv = size_ok_dvd [OF ok]
  have hh: "k + tSize st h mod 8 = tSize st h"
  proof -
    have "tSize st h - tSize st h mod 8 = k"
      using hk by (simp add: CHUNK_SIZE_def REAL_SIZE_def mask8_def)
    moreover have "tSize st h mod 8 \<le> tSize st h" by simp
    ultimately show ?thesis by linarith
  qed
  have tS: "tSize st' x = (if x = h + k then or1 (tSize st x) else tSize st x)" for x
    using dv pos hh
    by (simp add: st' set_inuse_bit_at_offset_def set_presize_at_offset_def set_size_at_offset_def
        heap_simps REAL_SIZE_def)
  have tP: "tPreSize st' x = (if x = h + k then k else tPreSize st x)" for x
    using dv
    by (simp add: st' set_inuse_bit_at_offset_def set_presize_at_offset_def set_size_at_offset_def
        heap_simps REAL_SIZE_def)
  show "tPreSize st' (h + k) = k" by (simp add: tP)
  show f: "frame st' = frame st" "hTop st' = hTop st"
    by (simp_all add: st' set_inuse_bit_at_offset_def set_presize_at_offset_def set_size_at_offset_def
        heap_simps)
  have cs: "CHUNK_SIZE st' x = CHUNK_SIZE st x" for x
    by (simp add: CHUNK_SIZE_def REAL_SIZE_def tS)
  have mid: "seg st' h [(h, k, True)] (h + k)"
    using ok hk pos by (auto simp: cs tS tP)
  have "seg st' (hBottom st) (xs @ [(h, k, True)] @ ys) (hTop st)"
    by (rule seg_replace [OF a mid]) (use pos in \<open>auto simp: cs tS tP\<close>)
  moreover have "hBottom st \<le> h" using seg_le [OF a(1)] .
  ultimately show "seg_inv st' (xs @ (h, k, True) # ys)"
    using inv f frame_eqD [OF f(1)] top pos by (auto simp: seg_inv_def tS or1_def)
qed

text \<open>Clearing the mark makes the block free.\<close>

lemma seg_inv_clear:
  assumes inv: "seg_inv st (xs @ (h, k, True) # ys)" and pre: "tPreSize st (h + k) = k"
    and nt: "h + k \<noteq> hTop st"
  shows "seg_inv (clear_inuse_bit_at_offset h k st) (xs @ (h, k, False) # ys)"
proof -
  let ?st = "clear_inuse_bit_at_offset h k st"
  have a: "seg st (hBottom st) xs h" "seg st (h + k) ys (hTop st)" and ok: "size_ok k"
    and hk: "CHUNK_SIZE st h = k"
    using inv by (auto simp: seg_inv_def seg_append)
  note pos = size_ok_pos [OF ok]
  have tS: "tSize ?st x = (if x = h + k then clear1 (tSize st x) else tSize st x)" for x
    by (simp add: clear_inuse_bit_at_offset_def heap_simps)
  have tP: "tPreSize ?st x = tPreSize st x" for x
    by (simp add: clear_inuse_bit_at_offset_def heap_simps)
  have cs: "CHUNK_SIZE ?st x = CHUNK_SIZE st x" for x
    by (simp add: CHUNK_SIZE_def REAL_SIZE_def tS)
  have mid: "seg ?st h [(h, k, False)] (h + k)" using ok hk pre by (auto simp: cs tP)
  have "seg ?st (hBottom st) (xs @ [(h, k, False)] @ ys) (hTop st)"
    by (rule seg_replace [OF a mid]) (use pos in \<open>auto simp: cs tS tP\<close>)
  moreover have "hBottom st \<le> h" using seg_le [OF a(1)] .
  ultimately show ?thesis using inv nt pos
    by (auto simp: seg_inv_def tS clear_inuse_bit_at_offset_def heap_simps)
qed

lemma seg_set_end:
  assumes "seg st a xs e" "odd v"
  shows "seg (set_tSize e v st) a xs e"
proof (cases xs rule: rev_cases)
  case Nil
  with assms show ?thesis by simp
next
  case (snoc zs z)
  obtain q m u where z: "z = (q, m, u)" by (cases z)
  with assms snoc have s: "seg st a zs q" and q: "CHUNK_SIZE st q = m" "size_ok m" "e = q + m"
    by (auto simp: seg_append)
  note pos = size_ok_pos [OF q(2)]
  have "seg (set_tSize e v st) a zs q"
    by (rule seg_cong [OF s]) (use q pos in \<open>auto simp: heap_simps CHUNK_SIZE_def\<close>)
  with snoc z q assms(2) pos show ?thesis by (auto simp: seg_append heap_simps CHUNK_SIZE_def)
qed

text \<open>The last block is given back to the top.\<close>

lemma free_to_top_inv:
  assumes inv: "seg_inv st (xs @ [(h, k, u)])" and b: "bins_ok st (free_of xs)"
  shows "seg_inv (free_to_top h k st) xs" and "bins_ok (free_to_top h k st) (free_of xs)"
    and "frame (free_to_top h k st) = frame st"
proof -
  let ?st = "free_to_top h k st"
  have a: "seg st (hBottom st) xs h" and ok: "size_ok k" and t: "hTop st = h + k"
    using inv by (auto simp: seg_inv_def seg_append)
  have tS: "tSize ?st x = tSize (set_tSize h 1 st) x" and tP: "tPreSize ?st x = tPreSize st x" for x
    by (simp_all add: free_to_top_def note_free_size_def Let_def heap_simps set_tSize_def)
  have f: "hTop ?st = h" "hBottom ?st = hBottom st" "memSize ?st = memSize st"
    using t by (simp_all add: free_to_top_def note_free_size_def Let_def heap_simps)
  show "frame ?st = frame st"
    by (simp add: frame_def stats_def old_bins_def free_to_top_def note_free_size_def Let_def set_head_def set_tSize_def)
  have "seg ?st (hBottom st) xs h"
    by (rule seg_cong [OF seg_set_end [OF a, of 1]])
       (simp_all add: CHUNK_SIZE_def tS tP heap_simps)
  moreover have "odd (tSize ?st (hBottom st))" using inv by (simp add: tS heap_simps seg_inv_def)
  ultimately show "seg_inv ?st xs"
    using inv t by (simp add: seg_inv_def f tS heap_simps)
  show "bins_ok ?st (free_of xs)"
  proof (rule bins_ok_cong [OF b])
    show "get_bin ?st r = get_bin st r" for r
      by (rule get_bin_cong)
         (simp_all add: free_to_top_def note_free_size_def Let_def set_head_def set_tSize_def)
  qed (simp_all add: free_to_top_def note_free_size_def Let_def heap_simps set_tSize_def set_head_def)
qed

section \<open>InterFree\<close>

lemma bins_ok_headers [simp]:
  "bins_ok (set_tSize h v st) F = bins_ok st F"
  "bins_ok (set_tPreSize h v st) F = bins_ok st F"
  by (auto elim!: bins_ok_cong simp: heap_simps simp del: get_bin.simps)

lemma bins_ok_marks [simp]:
  "bins_ok (set_inuse_bit_at_offset h k st) F = bins_ok st F"
  "bins_ok (clear_inuse_bit_at_offset h k st) F = bins_ok st F"
  "bins_ok (set_presize_at_offset h k n st) F = bins_ok st F"
  "bins_ok (set_size_at_offset h k n st) F = bins_ok st F"
  by (simp_all add: set_inuse_bit_at_offset_def clear_inuse_bit_at_offset_def
      set_presize_at_offset_def set_size_at_offset_def)

lemma can_combile_u32: "CAN_COMBILE m n \<Longrightarrow> u32 (m + n) = m + n"
  by (simp add: CAN_COMBILE_def MAX_ALLOC_SIZE_def)

lemma seg_inv_functional:
  assumes "seg_inv st bs" shows "functional (free_of bs)"
  using assms seg_functional by (auto simp: seg_inv_def)

lemma seg_inv_not_free:
  assumes "seg_inv st (xs @ (h, k, u) # ys)"
  shows "h \<notin> fst ` (free_of xs \<union> free_of ys)"
proof -
  from assms have "seg st (hBottom st) (xs @ (h, k, u) # ys) (hTop st)"
    by (simp add: seg_inv_def)
  then have "distinct (map fst (xs @ (h, k, u) # ys))" by (rule seg_distinct)
  then show ?thesis by (force simp: free_of_def)
qed

lemma free_combine_prev_inv:
  assumes inv: "seg_inv st (xs @ (p, n, True) # ys)"
    and b: "bins_ok st (free_of xs \<union> free_of ys)"
  obtains xs' h k st' where "free_combine_prev p n st = (h, k, st')"
    "seg_inv st' (xs' @ (h, k, True) # ys)" "bins_ok st' (free_of xs' \<union> free_of ys)"
    "live xs' = live xs" "frame st' = frame st" "hTop st' = hTop st"
proof (cases "\<not> prev_inuse st p \<and> CAN_COMBILE n (tPreSize st p)")
  case False
  then have "free_combine_prev p n st = (p, n, st)" by (simp only: free_combine_prev_def if_False)
  with assms show ?thesis by (intro that) auto
next
  case True
  then have ev: "even (tSize st p)" by (simp add: prev_inuse_def)
  from seg_inv_prev [OF inv ev] obtain zs q m
    where x: "xs = zs @ [(q, m, False)]" and pq: "p = q + m" and pm: "tPreSize st p = m" .
  let ?s1 = "unlink_and_mark (bin_index m) q st"
  let ?s3 = "set_presize_at_offset q (m + n) (m + n) (set_size_at_offset q 0 (m + n) ?s1)"
  have can: "CAN_COMBILE n m" "CAN_COMBILE m n" using True pm by (simp_all add: CAN_COMBILE_def add.commute)
  have eq: "free_combine_prev p n st = (q, m + n, ?s3)"
    using True pq pm can_combile_u32 [OF can(1)] by (simp add: free_combine_prev_def Let_def add.commute)
  have inv': "seg_inv st (zs @ (q, m, False) # (p, n, True) # ys)" using inv x by simp
  have si: "seg_inv ?s3 (zs @ (q, m + n, True) # ys)"
    by (rule seg_inv_merge [OF inv' can(2), of ?s1]) (simp_all add: heap_simps)
  have "functional (free_of xs \<union> free_of ys)" using seg_inv_functional [OF inv] by simp
  moreover have "(q, m) \<in> free_of xs \<union> free_of ys" using x by simp
  ultimately have "bins_ok ?s1 ((free_of xs \<union> free_of ys) - {(q, m)})" using b by (intro bins_unlink)
  moreover have "(free_of xs \<union> free_of ys) - {(q, m)} = free_of zs \<union> free_of ys"
    using seg_inv_not_free [OF inv'] x by (force simp: image_iff)
  ultimately have "bins_ok ?s3 (free_of zs \<union> free_of ys)" by simp
  with eq si x show ?thesis
    by (intro that [of q "m + n" ?s3 zs])
       (simp_all add: set_presize_at_offset_def set_size_at_offset_def heap_simps)
qed

lemma free_combine_next_inv:
  assumes inv: "seg_inv st (xs @ (h, k, True) # ys)"
    and b: "bins_ok st (free_of xs \<union> free_of ys)"
  obtains ys' k' u st' where "free_combine_next h k st = Some (k', st')"
    "seg_inv st' (xs @ (h, k', u) # ys')" "bins_ok st' (free_of xs \<union> free_of ys')"
    "live ys' = live ys" "frame st' = frame st" "hTop st' = hTop st"
proof (cases ys)
  case Nil
  with seg_inv_next(1) [OF inv] have "h + k = hTop st" by simp
  then have "free_combine_next h k st = Some (k, st)" by (simp add: free_combine_next_def)
  with assms show ?thesis by (intro that) auto
next
  case (Cons y zs)
  obtain q m v where y: "y = (q, m, v)" by (cases y)
  note inv1 = inv [unfolded Cons y]
  from seg_inv_next(2) [OF inv1] have q: "q = h + k" "h + k \<noteq> hTop st" by auto
  have cm: "CHUNK_SIZE st q = m" "size_ok m" "v \<Longrightarrow> odd (tSize st (q + m))"
    using seg_inv_block [OF inv1, of q m v] by auto
  have ge: "\<not> m < MINSIZE" using cm(2) by (simp add: size_ok_def)
  have rs: "REAL_SIZE (tSize st q) = m" using cm(1) by (simp add: CHUNK_SIZE_def)
  show ?thesis
  proof (cases "\<not> inuse_bit_at_offset st q m \<and> CAN_COMBILE k m")
    case False
    then have "free_combine_next h k st = Some (k, st)"
      using q cm rs ge by (auto simp: free_combine_next_def Let_def)
    with assms show ?thesis by (intro that) auto
  next
    case True
    with cm(3) have v: "\<not> v" by (auto simp: inuse_bit_at_offset_def)
    let ?s1 = "unlink_and_mark (bin_index m) q st"
    let ?s3 = "set_presize_at_offset h (k + m) (k + m) (set_size_at_offset h 0 (k + m) ?s1)"
    have eq: "free_combine_next h k st = Some (k + m, ?s3)"
      using True q cm rs ge can_combile_u32 [of k m] by (simp add: free_combine_next_def Let_def)
    have inv2: "seg_inv st (xs @ (h, k, True) # (q, m, False) # zs)" using inv1 v by simp
    have si: "seg_inv ?s3 (xs @ (h, k + m, False) # zs)"
      by (rule seg_inv_merge [OF inv2 _, of ?s1]) (use True in \<open>simp_all add: heap_simps\<close>)
    have "functional (free_of xs \<union> free_of ys)" using seg_inv_functional [OF inv] by simp
    moreover have "(q, m) \<in> free_of xs \<union> free_of ys" using Cons y v by simp
    ultimately have "bins_ok ?s1 ((free_of xs \<union> free_of ys) - {(q, m)})" using b by (intro bins_unlink)
    moreover have "(free_of xs \<union> free_of ys) - {(q, m)} = free_of xs \<union> free_of zs"
      using seg_inv_not_free [of st "xs @ [(h, k, True)]" q m False zs] inv2 Cons y v
      by (force simp: image_iff)
    ultimately have "bins_ok ?s3 (free_of xs \<union> free_of zs)" by simp
    with eq si Cons y v show ?thesis
      by (intro that [of "k + m" ?s3 False zs])
         (simp_all add: set_presize_at_offset_def set_size_at_offset_def heap_simps)
  qed
qed

lemma note_free_size_frame:
  "m_mem (note_free_size k st) = m_mem st" "frame (note_free_size k st) = frame st"
  "hTop (note_free_size k st) = hTop st" "get_bin (note_free_size k st) r = get_bin st r"
  "m_auiBinBitMap (m_pstHead (note_free_size k st)) = m_auiBinBitMap (m_pstHead st)"
  by (simp_all add: note_free_size_def frame_def heap_simps)

lemma note_free_size_inv:
  "seg_inv st bs \<Longrightarrow> seg_inv (note_free_size k st) bs"
  "bins_ok st F \<Longrightarrow> bins_ok (note_free_size k st) F"
proof -
  assume "seg_inv st bs"
  then show "seg_inv (note_free_size k st) bs"
    using frame_eqD [OF note_free_size_frame(2) [of k st]] seg_cong [of st "hBottom st" bs "hTop st" "note_free_size k st"]
    by (simp add: seg_inv_def note_free_size_frame CHUNK_SIZE_def)
next
  assume "bins_ok st F"
  then show "bins_ok (note_free_size k st) F"
    by (rule bins_ok_cong) (simp_all add: note_free_size_frame del: get_bin.simps)
qed

lemma free_to_bin_inv:
  assumes inv: "seg_inv st (xs @ (h, k, True) # ys)" and b: "bins_ok st (free_of xs \<union> free_of ys)"
    and pre: "tPreSize st (h + k) = k" and nt: "h + k \<noteq> hTop st"
  shows "heap_inv (free_to_bin h k st) (xs @ (h, k, False) # ys)"
    and "frame (free_to_bin h k st) = frame st"
proof -
  let ?c = "clear_inuse_bit_at_offset h k st" and ?i = "bin_index k"
  let ?st = "SetBinBitMap ?i (snd (LinkBin (SBin ?i) h ?c))"
  have eq: "free_to_bin h k st = ?st"
    by (simp add: free_to_bin_def Let_def bin_index_def)
  have h0: "h \<noteq> INVALID_HANDLE"
    using seg_inv_block(2) [OF inv, of h k True] by (simp add: INVALID_HANDLE_def)
  have fn: "functional (free_of xs \<union> free_of ys)" using seg_inv_functional [OF inv] by simp
  have "bins_ok ?st (insert (h, k) (free_of xs \<union> free_of ys))"
    by (rule bins_link [OF _ fn h0 seg_inv_not_free [OF inv]]) (use b in simp_all)
  moreover have "seg_inv ?st (xs @ (h, k, False) # ys)"
  proof -
    have "seg_inv ?c (xs @ (h, k, False) # ys)" by (rule seg_inv_clear [OF inv pre nt])
    then show ?thesis
      using seg_cong [of ?c "hBottom ?c" "xs @ (h, k, False) # ys" "hTop ?c" ?st]
      by (simp add: seg_inv_def heap_simps CHUNK_SIZE_def)
  qed
  ultimately show "heap_inv (free_to_bin h k st) (xs @ (h, k, False) # ys)"
    by (simp add: heap_inv_def eq)
  show "frame (free_to_bin h k st) = frame st"
    by (simp add: eq heap_simps clear_inuse_bit_at_offset_def)
qed

lemma InterFree_checks:
  assumes inv: "seg_inv st bs" and mem: "(p, n, True) \<in> set bs"
  shows "InterFree (chunk2mem p) st =
     (let (h1, sz1, st1) = free_combine_prev p n st
      in case free_combine_next h1 sz1 st1 of
           None \<Rightarrow> (-4, n, st1)
         | Some (sz2, st2) \<Rightarrow>
             let st6 = note_free_size sz2 (set_inuse_bit_at_offset h1 sz2
                   (set_presize_at_offset h1 sz2 sz2 (set_size_at_offset h1 0 sz2 st2)))
             in if h1 + sz2 = hTop st6 then (0, n, free_to_top h1 sz2 st6)
                else (0, n, free_to_bin h1 sz2 st6))"
proof -
  note b = seg_inv_block [OF inv mem]
  have "p mod 8 = 0" using b(1) by auto
  moreover have "CheckInuseChunk st p = 0" by (rule CheckInuseChunk_ok [OF inv mem])
  moreover have "hTop st + 24 \<le> memSize st" using inv by (simp add: seg_inv_def MINSIZE_def)
  moreover have "8 \<le> n" using size_ok_pos [OF b(6)] by simp
  ultimately show ?thesis using b
    by (simp add: InterFree_def chunk2mem_def mem2chunk_def INVALID_HANDLE_def Ptr2Handle_def
        inuse_bit_at_offset_def misaligned_chunk_def Let_def split: prod.split option.split)
qed

text \<open>
  Freeing a block in use returns 0, reports its size, and leaves a heap that satisfies the
  invariant, whose blocks in use are the others, unchanged.
\<close>

lemma InterFree_inv:
  assumes inv: "heap_inv st (xs @ (p, n, True) # ys)"
  obtains bs' st' where "InterFree (chunk2mem p) st = (0, n, st')" "heap_inv st' bs'"
    "live bs' = live xs @ live ys" "frame st' = frame st"
proof -
  have si: "seg_inv st (xs @ (p, n, True) # ys)" and b: "bins_ok st (free_of xs \<union> free_of ys)"
    using inv by (simp_all add: heap_inv_def)
  obtain xs1 h k st1 where e1: "free_combine_prev p n st = (h, k, st1)"
    and i1: "seg_inv st1 (xs1 @ (h, k, True) # ys)" and b1: "bins_ok st1 (free_of xs1 \<union> free_of ys)"
    and l1: "live xs1 = live xs" and f1: "frame st1 = frame st" "hTop st1 = hTop st"
    by (rule free_combine_prev_inv [OF si b])
  obtain ys2 k2 u st2 where e2: "free_combine_next h k st1 = Some (k2, st2)"
    and i2: "seg_inv st2 (xs1 @ (h, k2, u) # ys2)" and b2: "bins_ok st2 (free_of xs1 \<union> free_of ys2)"
    and l2: "live ys2 = live ys" and f2: "frame st2 = frame st1" "hTop st2 = hTop st1"
    by (rule free_combine_next_inv [OF i1 b1])
  define st5 where "st5 = set_inuse_bit_at_offset h k2
      (set_presize_at_offset h k2 k2 (set_size_at_offset h 0 k2 st2))"
  define st6 where "st6 = note_free_size k2 st5"
  have m: "seg_inv st5 (xs1 @ (h, k2, True) # ys2)" "tPreSize st5 (h + k2) = k2"
    "frame st5 = frame st2" "hTop st5 = hTop st2"
    using seg_inv_mark [OF i2 st5_def] by blast+
  have i6: "seg_inv st6 (xs1 @ (h, k2, True) # ys2)" and b6: "bins_ok st6 (free_of xs1 \<union> free_of ys2)"
    and p6: "tPreSize st6 (h + k2) = k2" and f6: "frame st6 = frame st"
    using m b2 f1 f2
    by (simp_all add: st6_def note_free_size_inv note_free_size_frame st5_def)
  have eq: "InterFree (chunk2mem p) st =
      (if h + k2 = hTop st6 then (0, n, free_to_top h k2 st6) else (0, n, free_to_bin h k2 st6))"
    using InterFree_checks [OF si, of p n] e1 e2 by (simp add: st5_def st6_def Let_def)
  show ?thesis
  proof (cases "h + k2 = hTop st6")
    case True
    have "ys2 = []"
    proof (cases ys2)
      case (Cons y zs)
      obtain q r v where "y = (q, r, v)" by (cases y)
      with seg_inv_next(2) [OF i6 Cons [unfolded this]] True show ?thesis by simp
    qed simp
    with i6 b6 have "seg_inv st6 (xs1 @ [(h, k2, True)])" "bins_ok st6 (free_of xs1)" by simp_all
    note t = free_to_top_inv [OF this]
    show ?thesis
      by (rule that [of "free_to_top h k2 st6" xs1])
         (use t eq True l1 l2 f6 \<open>ys2 = []\<close> in \<open>simp_all add: heap_inv_def\<close>)
  next
    case False
    note t = free_to_bin_inv [OF i6 b6 p6 False]
    show ?thesis
      by (rule that [of "free_to_bin h k2 st6" "xs1 @ (h, k2, False) # ys2"])
         (use t eq False l1 l2 f6 in simp_all)
  qed
qed

end
