(* ===== verification/Bin_Malloc_Alloc.thy ===== *)
theory Bin_Malloc_Alloc
  imports Bin_Malloc_Free
begin

text \<open>
  Allocation keeps the invariant and always returns: the search over the bitmap finds the
  least non-empty bin, every chunk of a larger bin fits, and the chunk handed out is a block
  in use of at least the size asked for.
\<close>

section \<open>Sizes and bin indices\<close>

lemma request2size_ok:
  assumes "\<not> REQUEST_OUT_OF_RANGE req"
  shows "size_ok (request2size req)" and "req + 8 \<le> request2size req"
proof -
  have r: "req < 4294967248" using assms by (simp add: REQUEST_OUT_OF_RANGE_def)
  have m: "mask8 (15 + req) \<le> req + 15" "req + 15 < mask8 (15 + req) + 8"
    by (simp_all add: mask8_mult)
  have "24 \<le> mask8 (15 + req)" if "24 \<le> req + 15"
    using that by (simp add: mask8_mult)
  with m r show "size_ok (request2size req)" and "req + 8 \<le> request2size req"
    by (auto simp: request2size_def size_ok_def MINSIZE_def MAX_ALLOC_SIZE_def MALLOC_ALIGN_MASK_def)
qed

lemma largebin_index_mono:
  assumes "m \<le> n" shows "largebin_index m \<le> largebin_index n"
proof -
  have "m div 64 \<le> n div 64" "m div 512 \<le> n div 512" "m div 4096 \<le> n div 4096"
    "m div 32768 \<le> n div 32768" "m div 262144 \<le> n div 262144"
    using assms by (simp_all add: div_le_mono)
  moreover have "n div 4096 = n div 512 div 8" "n div 32768 = n div 4096 div 8"
    by (simp_all add: div_mult2_eq [symmetric])
  then have "\<not> n div 512 \<le> 20 \<Longrightarrow> 2 \<le> n div 4096" "\<not> n div 4096 \<le> 10 \<Longrightarrow> 1 \<le> n div 32768"
    by linarith+
  ultimately show ?thesis by (auto simp: largebin_index_def)
qed

lemma largebin_index_ge: "512 \<le> n \<Longrightarrow> 64 \<le> largebin_index n"
proof -
  assume "512 \<le> n"
  then have "8 \<le> n div 64" by presburger
  then show ?thesis by (simp add: largebin_index_def)
qed

lemma bin_index_mono:
  assumes "m \<le> n" shows "bin_index m \<le> bin_index n"
proof -
  have "m div 8 \<le> n div 8" using assms by (rule div_le_mono)
  moreover have "m < 512 \<Longrightarrow> m div 8 \<le> 63" by presburger
  moreover note largebin_index_mono [OF assms] largebin_index_ge [of n]
  ultimately show ?thesis using assms
    by (auto simp: bin_index_def in_smallbin_range_def smallbin_index_def MIN_LARGE_SIZE_def)
qed

text \<open>A small bin holds chunks of one size only.\<close>

lemma small_bin_exact:
  assumes "size_ok n" "8 dvd sz" "in_smallbin_range sz" "bin_index n = smallbin_index sz"
  shows "n = sz"
proof -
  have sz: "sz < 512" using assms(3) by (simp add: in_smallbin_range_def MIN_LARGE_SIZE_def)
  then have "smallbin_index sz \<le> 63" by (simp add: smallbin_index_def)
  with assms(4) have "n < 512" using largebin_index_ge [of n]
    by (cases "n < 512") (auto simp: bin_index_def in_smallbin_range_def MIN_LARGE_SIZE_def)
  with assms have "n div 8 = sz div 8"
    by (simp add: bin_index_def in_smallbin_range_def MIN_LARGE_SIZE_def smallbin_index_def)
  with assms(1,2) show ?thesis by (metis dvd_mult_div_cancel size_ok_dvd)
qed

section \<open>The search over the bitmap\<close>

declare skip_bins.simps [simp del] skip_words.simps [simp del]

lemma skip_bins_spec:
  "i \<le> skip_bins st i
   \<and> (\<forall>j. i \<le> j \<and> j < skip_bins st i \<and> j < NBINS \<longrightarrow> EmptyBin st j)
   \<and> (skip_bins st i < NBINS \<longrightarrow> \<not> EmptyBin st (skip_bins st i))"
proof (induction st i rule: skip_bins.induct)
  case (1 st i)
  show ?case
  proof (cases "i < NBINS \<and> bin_hNextChunk (m_ptBin st i) = INVALID_HANDLE")
    case True
    then have eq: "skip_bins st i = skip_bins st (i + 1)" by (subst skip_bins.simps) simp
    have "EmptyBin st j" if "i \<le> j" "j < skip_bins st i" "j < NBINS" for j
      using 1 [OF True] that True eq by (cases "j = i") (auto simp: EmptyBin_def)
    with 1 [OF True] eq show ?thesis by auto
  next
    case False
    then have "skip_bins st i = i" by (subst skip_bins.simps) auto
    with False show ?thesis by (auto simp: EmptyBin_def)
  qed
qed

lemma skip_words_spec:
  "k \<le> 16 \<Longrightarrow> \<exists>k'. skip_words st k (32 * k) = (k', 32 * k') \<and> k \<le> k' \<and> (\<forall>w. k \<le> w \<and> w < k' \<longrightarrow> bitmap_word st w = 0)"
proof (induction "16 - k" arbitrary: k)
  case 0
  then show ?case by (subst skip_words.simps) auto
next
  case (Suc n)
  show ?case
  proof (cases "bitmap_word st k = 0")
    case True
    have "\<exists>k'. skip_words st (k + 1) (32 * (k + 1)) = (k', 32 * k') \<and> k + 1 \<le> k'
        \<and> (\<forall>w. k + 1 \<le> w \<and> w < k' \<longrightarrow> bitmap_word st w = 0)"
      using Suc by (intro Suc.hyps(1)) auto
    then obtain k' where k': "skip_words st (k + 1) (32 * (k + 1)) = (k', 32 * k')" "k + 1 \<le> k'"
      "\<forall>w. k + 1 \<le> w \<and> w < k' \<longrightarrow> bitmap_word st w = 0" by blast
    have "k < 16" using Suc.hyps(2) by simp
    then have "skip_words st k (32 * k) = (k', 32 * k')"
      using True k'(1) by (subst skip_words.simps) (simp add: add.commute)
    moreover have "\<forall>w. k \<le> w \<and> w < k' \<longrightarrow> bitmap_word st w = 0"
      using k'(3) True by (metis Suc_eq_plus1 le_eq_less_or_eq less_eq_Suc_le)
    ultimately show ?thesis using k'(2) by auto
  next
    case False
    then show ?thesis by (subst skip_words.simps) auto
  qed
qed

lemma zero_word_empty:
  assumes ok: "bins_ok st F" and w: "bitmap_word st (i div 32) = 0" and i: "i < NBINS"
  shows "EmptyBin st i"
proof -
  have "i div 32 < 4" using i by (simp add: NBINS_def)
  with w have "\<not> bin_bit (m_pstHead st) i" by (simp add: bitmap_word_def bin_bit_def)
  moreover obtain xs where "dll st (SBin i) xs" "xs \<noteq> [] \<longrightarrow> bin_bit (m_pstHead st) i"
    using ok i unfolding bins_ok_def by blast
  ultimately show ?thesis using dll_empty_iff [of st "SBin i" xs] by (simp add: EmptyBin_def)
qed

text \<open>\<open>next_bin\<close> is the least non-empty bin above the given index, or at least \<open>NBINS\<close>.\<close>

lemma next_bin_spec:
  assumes ok: "bins_ok st F" and idx: "idx + 1 < NBINS"
  shows "idx < next_bin st idx"
    and "\<And>j. idx < j \<Longrightarrow> j < next_bin st idx \<Longrightarrow> j < NBINS \<Longrightarrow> EmptyBin st j"
    and "next_bin st idx < NBINS \<Longrightarrow> \<not> EmptyBin st (next_bin st idx)"
proof -
  let ?k = "(idx + 1) div 32"
  have k: "?k + 1 \<le> 16" using idx by (simp add: NBINS_def)
  have "\<exists>b. next_bin st idx = skip_bins st b \<and> idx < b \<and> (\<forall>j. idx < j \<and> j < b \<and> j < NBINS \<longrightarrow> EmptyBin st j)"
  proof (cases "bitmap_word st ?k = 0")
    case True
    obtain k' where k': "skip_words st (?k + 1) (32 * (?k + 1)) = (k', 32 * k')" "?k + 1 \<le> k'"
      "\<forall>w. ?k + 1 \<le> w \<and> w < k' \<longrightarrow> bitmap_word st w = 0"
      using skip_words_spec [OF k] by blast
    have eq: "next_bin st idx = skip_bins st (32 * k')"
      using True k'(1) by (simp add: next_bin_def Let_def mult.commute)
    have lt: "idx < 32 * k'" using k'(2) by presburger
    have "EmptyBin st j" if j: "idx < j" "j < 32 * k'" "j < NBINS" for j
    proof (rule zero_word_empty [OF ok _ j(3)])
      have "j div 32 < k'" using j(2) by (simp add: less_mult_imp_div_less mult.commute)
      moreover have "?k \<le> j div 32" using j(1) by (intro div_le_mono) simp
      ultimately have "j div 32 < k'" "?k \<le> j div 32" by simp_all
      with True k'(3) show "bitmap_word st (j div 32) = 0"
        by (metis Suc_eq_plus1 le_eq_less_or_eq less_eq_Suc_le)
    qed
    with eq lt show ?thesis by blast
  next
    case False
    then have "next_bin st idx = skip_bins st (idx + 1)" by (simp add: next_bin_def Let_def)
    then show ?thesis by (intro exI [of _ "idx + 1"]) auto
  qed
  then obtain b where b: "next_bin st idx = skip_bins st b" "idx < b"
    "\<forall>j. idx < j \<and> j < b \<and> j < NBINS \<longrightarrow> EmptyBin st j" by blast
  note s = skip_bins_spec [of b st]
  show "idx < next_bin st idx" using b s by auto
  show "next_bin st idx < NBINS \<Longrightarrow> \<not> EmptyBin st (next_bin st idx)" using b s by auto
  show "EmptyBin st j" if "idx < j" "j < next_bin st idx" "j < NBINS" for j
    using b s that by (cases "j < b") auto
qed

section \<open>Handing out a chunk\<close>

lemma seg_inv_cong_mem:
  assumes "seg_inv st bs" "\<And>x. tSize st' x = tSize st x" "\<And>x. tPreSize st' x = tPreSize st x"
    "hTop st' = hTop st" "hBottom st' = hBottom st" "memSize st' = memSize st"
  shows "seg_inv st' bs"
  using assms seg_cong [of st "hBottom st" bs "hTop st" st'] by (simp add: seg_inv_def CHUNK_SIZE_def)

lemma seg_inv_inuse:
  assumes inv: "seg_inv st (xs @ (h, k, u) # ys)"
  shows "seg_inv (set_inuse_bit_at_offset h k st) (xs @ (h, k, True) # ys)"
proof -
  let ?st = "set_inuse_bit_at_offset h k st"
  have a: "seg st (hBottom st) xs h" "seg st (h + k) ys (hTop st)" and ok: "size_ok k"
    and hk: "CHUNK_SIZE st h = k" and top: "tSize st (hTop st) = 1"
    using inv by (auto simp: seg_inv_def seg_append)
  note pos = size_ok_pos [OF ok]
  have tS: "tSize ?st x = (if x = h + k then or1 (tSize st x) else tSize st x)"
    and tP: "tPreSize ?st x = tPreSize st x" for x
    by (simp_all add: set_inuse_bit_at_offset_def heap_simps)
  have cs: "CHUNK_SIZE ?st x = CHUNK_SIZE st x" for x
    by (simp add: CHUNK_SIZE_def REAL_SIZE_def tS)
  have mid: "seg ?st h [(h, k, True)] (h + k)" using ok hk by (auto simp: cs tS)
  have "seg ?st (hBottom st) (xs @ [(h, k, True)] @ ys) (hTop st)"
    by (rule seg_replace [OF a mid]) (use pos in \<open>auto simp: cs tS tP\<close>)
  then show ?thesis using inv top
    by (auto simp: seg_inv_def tS or1_def) (simp_all add: set_inuse_bit_at_offset_def heap_simps)
qed

text \<open>The state of \<open>split_chunk\<close> just before it frees the remainder.\<close>

definition cut_chunk :: "handle \<Rightarrow> nat \<Rightarrow> nat \<Rightarrow> CBinMalloc \<Rightarrow> CBinMalloc" where
  "cut_chunk p sz rem st =
     (let st1 = set_tSize p (sz + tSize st p mod 8) st;
          q = p + sz;
          st2 = set_tSize q rem st1;
          st3 = set_tPreSize q sz st2;
          st4 = set_inuse_bit_at_offset q 0 st3;
          st5 = set_tPreSize (q + rem) rem st4
      in set_inuse_bit_at_offset q rem st5)"

lemma split_chunk_cut:
  "split_chunk p sz rem st =
     snd (snd (InterFree (chunk2mem (Ptr2Handle (cut_chunk p sz rem st) (Some (p + sz))))
        (cut_chunk p sz rem st)))"
  by (simp add: split_chunk_def cut_chunk_def Let_def)

lemma cut_chunk_inv:
  assumes inv: "seg_inv st (xs @ (p, sz + rem, u) # ys)" and ok: "size_ok sz" "size_ok rem"
  shows "seg_inv (cut_chunk p sz rem st) (xs @ (p, sz, True) # (p + sz, rem, True) # ys)"
    and "frame (cut_chunk p sz rem st) = frame st" and "hTop (cut_chunk p sz rem st) = hTop st"
    and "bins_ok (cut_chunk p sz rem st) F = bins_ok st F"
proof -
  let ?st = "cut_chunk p sz rem st" and ?c = "p + sz + rem"
  have a: "seg st (hBottom st) xs p" "seg st ?c ys (hTop st)" and top: "tSize st (hTop st) = 1"
    using inv by (auto simp: seg_inv_def seg_append add.assoc)
  note pos = size_ok_pos [OF ok(1)] size_ok_pos [OF ok(2)]
    and dv = size_ok_dvd [OF ok(1)] size_ok_dvd [OF ok(2)]
  have ev: "even rem" using dv(2) by (rule even_if_8dvd)
  have tS: "tSize ?st x = (if x = p then sz + tSize st p mod 8 else if x = p + sz then Suc rem
       else if x = ?c then or1 (tSize st x) else tSize st x)" for x
    using pos ev by (simp add: cut_chunk_def Let_def set_inuse_bit_at_offset_def heap_simps or1_def)
  have tP: "tPreSize ?st x = (if x = ?c then rem else if x = p + sz then sz else tPreSize st x)" for x
    using pos by (simp add: cut_chunk_def Let_def set_inuse_bit_at_offset_def heap_simps)
  show f: "frame ?st = frame st" "hTop ?st = hTop st"
    by (simp_all add: cut_chunk_def Let_def set_inuse_bit_at_offset_def heap_simps)
  show "bins_ok ?st F = bins_ok st F"
    by (simp add: cut_chunk_def Let_def)
  have odp: "odd (tSize ?st p) = odd (tSize st p)"
    by (simp only: tS if_True mask8_bits(2) [OF dv(1)] simp_thms)
  have csp: "CHUNK_SIZE ?st p = sz" "CHUNK_SIZE ?st (p + sz) = rem"
    using mask8_bits(1) [OF dv(1)] dv pos by (simp_all add: CHUNK_SIZE_def REAL_SIZE_def tS)
  have cs: "CHUNK_SIZE ?st x = CHUNK_SIZE st x" if "x < p \<or> ?c \<le> x" for x
    using that pos by (auto simp: CHUNK_SIZE_def REAL_SIZE_def tS)
  have od: "odd (tSize ?st x) = odd (tSize st x) \<and> tPreSize ?st x = tPreSize st x" if "x \<le> p \<or> ?c < x" for x
    using that odp pos by (cases "x = p") (auto simp: tP tS)
  have mid: "seg ?st p [(p, sz, True), (p + sz, rem, True)] ?c"
    using ok ev pos by (simp add: csp tS tP)
  have "seg ?st (hBottom st) (xs @ [(p, sz, True), (p + sz, rem, True)] @ ys) (hTop st)"
    by (rule seg_replace [OF a mid]) (use cs od in auto)
  moreover have "odd (tSize ?st (hBottom st))"
    using inv od [of "hBottom st"] seg_le [OF a(1)] by (simp add: seg_inv_def)
  moreover have "tSize ?st (hTop st) = 1"
    using seg_le [OF a(2)] pos top by (auto simp: tS or1_def)
  ultimately show "seg_inv ?st (xs @ (p, sz, True) # (p + sz, rem, True) # ys)"
    using inv f frame_eqD [OF f(1)] by (simp add: seg_inv_def)
qed

lemma Ptr2Handle_block:
  assumes "seg_inv st bs" "(p, n, u) \<in> set bs"
  shows "Ptr2Handle st (Some p) = p" and "Ptr2Handle st (Some (chunk2mem p)) = chunk2mem p"
  using seg_inv_block [OF assms] size_ok_pos [of n] by (simp_all add: Ptr2Handle_def chunk2mem_def)

lemma take_chunk_inv:
  assumes inv: "heap_inv st (xs @ (p, n, False) # ys)" and ok: "size_ok sz" "sz \<le> n"
    and min: "MINSIZE \<le> GetMinChunkSize st"
  obtains bs' st' n' where "take_chunk (bin_index n) p sz st = (chunk2mem p, st')"
    "heap_inv st' bs'" "live bs' = live xs @ (p, n', True) # live ys" "sz \<le> n'"
    "frame st' = frame st"
proof -
  let ?bs = "xs @ (p, n, False) # ys" and ?s1 = "unlink_and_mark (bin_index n) p st"
  have si: "seg_inv st ?bs" and b: "bins_ok st (free_of ?bs)" using inv by (simp_all add: heap_inv_def)
  have mem: "(p, n, False) \<in> set ?bs" by simp
  note blk = seg_inv_block [OF si mem]
  have n32: "n < 4294967296" using size_ok_lt32 [OF blk(6)] .
  have s1: "seg_inv ?s1 ?bs" by (rule seg_inv_cong_mem [OF si]) (simp_all add: heap_simps)
  have "bins_ok ?s1 (free_of ?bs - {(p, n)})"
    by (rule bins_unlink [OF b seg_inv_functional [OF si]]) simp
  moreover have "free_of ?bs - {(p, n)} = free_of xs \<union> free_of ys"
    using seg_inv_not_free [OF si] by (force simp: image_iff)
  ultimately have b1: "bins_ok ?s1 (free_of xs \<union> free_of ys)" by simp
  have g1: "GetMinChunkSize ?s1 = GetMinChunkSize st"
    by (rule GetMinChunkSize_stats) (simp add: heap_simps)
  have c1: "CHUNK_SIZE ?s1 p = n" using blk(7) by (simp add: CHUNK_SIZE_def heap_simps)
  note ph = Ptr2Handle_block [OF si mem]
  show ?thesis
  proof (cases "n - sz < GetMinChunkSize st")
    case True
    let ?s2 = "set_inuse_bit_at_offset p n ?s1"
    have i2: "heap_inv ?s2 (xs @ (p, n, True) # ys)"
      using seg_inv_inuse [OF s1] b1 by (simp add: heap_inv_def)
    then have "Ptr2Handle ?s2 (Some (chunk2mem p)) = chunk2mem p"
      by (intro Ptr2Handle_block(2)) (auto simp: heap_inv_def)
    then have "take_chunk (bin_index n) p sz st = (chunk2mem p, ?s2)"
      using True ok n32 blk(7) ph c1 g1 by (simp add: take_chunk_def Let_def)
    with i2 ok show ?thesis
      by (intro that [of ?s2 "xs @ (p, n, True) # ys" n])
         (simp_all add: set_inuse_bit_at_offset_def heap_simps)
  next
    case False
    let ?rem = "n - sz"
    have rem: "size_ok ?rem" using False min blk(6) ok by (auto simp: size_ok_def)
    have s1': "seg_inv ?s1 (xs @ (p, sz + ?rem, False) # ys)" using s1 ok(2) by simp
    let ?c = "cut_chunk p sz ?rem ?s1"
    note cut = cut_chunk_inv [OF s1' ok(1) rem]
    have hc: "heap_inv ?c ((xs @ [(p, sz, True)]) @ (p + sz, ?rem, True) # ys)"
      using cut(1) cut(4) b1 by (simp add: heap_inv_def)
    obtain bs' st' where e: "InterFree (chunk2mem (p + sz)) ?c = (0, ?rem, st')"
      and h': "heap_inv st' bs'" and l': "live bs' = live (xs @ [(p, sz, True)]) @ live ys"
      and f': "frame st' = frame ?c" by (rule InterFree_inv [OF hc])
    have "Ptr2Handle ?c (Some (p + sz)) = p + sz"
      using cut(1) by (intro Ptr2Handle_block(1)) auto
    with e have sp: "split_chunk p sz ?rem ?s1 = st'" by (simp add: split_chunk_cut)
    have "(p, sz, True) \<in> set (live bs')" using l' by simp
    then have "(p, sz, True) \<in> set bs'" by (simp add: live_def)
    then have "Ptr2Handle st' (Some (chunk2mem p)) = chunk2mem p"
      using h' by (intro Ptr2Handle_block(2)) (auto simp: heap_inv_def)
    then have "take_chunk (bin_index n) p sz st = (chunk2mem p, st')"
      using False ok n32 blk(7) ph g1 sp by (simp add: take_chunk_def Let_def)
    with h' l' f' cut(2) show ?thesis
      by (intro that [of st' bs' sz]) (simp_all add: heap_simps)
  qed
qed

section \<open>InterMalloc\<close>

text \<open>
  \<open>allocated bs bs' p n\<close>: the blocks in use of \<open>bs'\<close> are those of \<open>bs\<close> and one more, of
  size \<open>n\<close> at \<open>p\<close>.
\<close>

definition allocated :: "block list \<Rightarrow> block list \<Rightarrow> handle \<Rightarrow> nat \<Rightarrow> bool" where
  "allocated bs bs' p n \<longleftrightarrow> (\<exists>xs ys. live bs = xs @ ys \<and> live bs' = xs @ (p, n, True) # ys)"

definition malloc_ok :: "CBinMalloc \<Rightarrow> block list \<Rightarrow> nat \<Rightarrow> (handle \<times> CBinMalloc) option \<Rightarrow> bool" where
  "malloc_ok st bs sz r \<longleftrightarrow>
     (\<exists>h st'. r = Some (h, st') \<and> frame st' = frame st
        \<and> (h = INVALID_HANDLE \<and> heap_inv st' bs \<and> memSize st' \<le> hTop st' + sz + MINSIZE
           \<or> (\<exists>bs' p n. h = chunk2mem p \<and> heap_inv st' bs' \<and> allocated bs bs' p n \<and> sz \<le> n)))"

lemma malloc_okI:
  "frame st' = frame st \<Longrightarrow> heap_inv st' bs' \<Longrightarrow> allocated bs bs' p n \<Longrightarrow> sz \<le> n \<Longrightarrow>
     malloc_ok st bs sz (Some (chunk2mem p, st'))"
  by (auto simp: malloc_ok_def)

lemma malloc_ok_frame: "malloc_ok st1 bs sz r \<Longrightarrow> frame st1 = frame st \<Longrightarrow> malloc_ok st bs sz r"
  by (auto simp: malloc_ok_def)

lemma ClearBinBitMap_empty_inv:
  assumes inv: "heap_inv st bs" and e: "EmptyBin st i" and i: "i < NBINS"
  shows "heap_inv (ClearBinBitMap i st) bs" and "frame (ClearBinBitMap i st) = frame st"
proof -
  let ?s = "ClearBinBitMap i st"
  have ok: "bins_ok st (free_of bs)" using inv by (simp add: heap_inv_def)
  have len: "length (m_auiBinBitMap (m_pstHead st)) = 4" using ok by (simp add: bins_ok_def)
  have d: "dll ?s r xs = dll st r xs" for r xs by (rule dll_cong) (simp_all add: heap_simps)
  have "\<exists>xs. dll ?s (SBin j) xs \<and> set xs = bin_addrs (free_of bs) j \<and> (xs \<noteq> [] \<longrightarrow> bin_bit (m_pstHead ?s) j)"
    if j: "j < NBINS" for j
  proof -
    obtain xs where xs: "dll st (SBin j) xs" "set xs = bin_addrs (free_of bs) j"
      "xs \<noteq> [] \<longrightarrow> bin_bit (m_pstHead st) j" using ok j unfolding bins_ok_def by blast
    have "j = i \<Longrightarrow> xs = []" using e dll_empty_iff [OF xs(1)] by (simp add: EmptyBin_def)
    with xs d bin_bit_Clear [OF len i j] show ?thesis by (intro exI [of _ xs]) auto
  qed
  then have "bins_ok ?s (free_of bs)" using len by (simp add: bins_ok_def heap_simps)
  moreover have "seg_inv ?s bs"
    by (rule seg_inv_cong_mem [of st]) (use inv in \<open>simp_all add: heap_inv_def heap_simps\<close>)
  ultimately show "heap_inv ?s bs" by (simp add: heap_inv_def)
  show "frame ?s = frame st" by (simp add: frame_def heap_simps)
qed

lemma free_block_of_bin:
  assumes inv: "heap_inv st bs" and i: "i < NBINS" and d: "dll st (SBin i) zs" and p: "p \<in> set zs"
  obtains xs n ys where "bs = xs @ (p, n, False) # ys" "bin_index n = i" "CHUNK_SIZE st p = n" "size_ok n"
proof -
  obtain ws where w: "dll st (SBin i) ws" "set ws = bin_addrs (free_of bs) i"
    using inv i unfolding heap_inv_def bins_ok_def by blast
  have "zs = ws" using d w(1) by (rule dll_unique)
  with w p obtain n where n: "(p, n, False) \<in> set bs" "bin_index n = i"
    by (auto simp: bin_addrs_def free_of_def)
  then obtain xs ys where "bs = xs @ (p, n, False) # ys" by (auto simp: in_set_conv_decomp)
  moreover have "CHUNK_SIZE st p = n" "size_ok n"
    using seg_inv_block [OF _ n(1)] inv by (auto simp: heap_inv_def)
  ultimately show ?thesis using n(2) that by blast
qed

lemma bin_chain:
  assumes "heap_inv st bs" "i < NBINS"
  obtains zs where "dll st (SBin i) zs" "zs = [] \<longleftrightarrow> EmptyBin st i"
  using assms dll_empty_iff unfolding heap_inv_def bins_ok_def EmptyBin_def
  by (metis get_bin.simps(1))

lemma SmallBinMalloc_inv:
  assumes inv: "heap_inv st bs" and sz: "size_ok sz" "in_smallbin_range sz"
  obtains st' where "SmallBinMalloc sz st = (None, st')" "heap_inv st' bs" "frame st' = frame st"
  | p st' bs' where "SmallBinMalloc sz st = (Some p, st')" "heap_inv st' bs'" "allocated bs bs' p sz"
      "frame st' = frame st"
proof -
  let ?i = "smallbin_index sz"
  have ib: "?i = bin_index sz" using sz by (simp add: bin_index_def)
  have i: "?i < NBINS" by (simp add: ib)
  obtain zs where d: "dll st (SBin ?i) zs" and z: "zs = [] \<longleftrightarrow> EmptyBin st ?i"
    by (rule bin_chain [OF inv i])
  show ?thesis
  proof (cases zs)
    case Nil
    then have e: "EmptyBin st ?i" using z by simp
    then have "SmallBinMalloc sz st = (None, ClearBinBitMap ?i st)"
      by (simp add: SmallBinMalloc_def BinMalloc_def EmptyBin_def Let_def)
    with ClearBinBitMap_empty_inv [OF inv e i] show ?thesis
      by (intro that(1) [of "ClearBinBitMap ?i st"]) auto
  next
    case (Cons p ws)
    then have p: "p \<in> set zs" by simp
    obtain xs n ys where bs: "bs = xs @ (p, n, False) # ys" and n: "bin_index n = ?i"
      "CHUNK_SIZE st p = n" "size_ok n" by (rule free_block_of_bin [OF inv i d p])
    have nsz: "n = sz" using small_bin_exact [OF n(3) _ sz(2) n(1)] sz(1) by (simp add: size_ok_dvd)
    let ?s1 = "set_inuse_bit_at_offset p n st"
    let ?s2 = "unlink_and_mark (bin_index n) p ?s1"
    have si: "seg_inv st bs" and b: "bins_ok st (free_of bs)" using inv by (simp_all add: heap_inv_def)
    have hd: "bin_hNextChunk (m_ptBin st ?i) = p" "p \<noteq> INVALID_HANDLE"
      using dll_next_eq [OF d] dll_zero [OF d] Cons by auto
    have hd1: "bin_hNextChunk (m_ptBin ?s1 ?i) = p"
      using hd by (simp add: set_inuse_bit_at_offset_def set_tSize_def)
    have eq: "SmallBinMalloc sz st = (Some p, ?s2)"
      using hd hd1 n ib nsz
      by (simp add: SmallBinMalloc_def BinMalloc_def unlink_and_mark_def Let_def CHUNK_SIZE_def)
    have "seg_inv ?s1 (xs @ (p, n, True) # ys)" using seg_inv_inuse si bs by blast
    then have i2: "seg_inv ?s2 (xs @ (p, n, True) # ys)"
      by (rule seg_inv_cong_mem) (simp_all add: heap_simps)
    have "bins_ok ?s2 (free_of bs - {(p, n)})"
      by (rule bins_unlink [OF _ seg_inv_functional [OF si]]) (use b bs in simp_all)
    moreover have "free_of bs - {(p, n)} = free_of (xs @ (p, n, True) # ys)"
      using seg_inv_not_free [of st xs p n False ys] si bs by (force simp: image_iff)
    ultimately have "heap_inv ?s2 (xs @ (p, n, True) # ys)" using i2 by (simp add: heap_inv_def)
    moreover have "allocated bs (xs @ (p, n, True) # ys) p sz"
      unfolding allocated_def using bs nsz by (intro exI [of _ "live xs"] exI [of _ "live ys"]) simp
    moreover have "frame ?s2 = frame st" by (simp add: heap_simps set_inuse_bit_at_offset_def)
    ultimately show ?thesis
      using eq by (intro that(2) [of p ?s2 "xs @ (p, n, True) # ys"]) auto
  qed
qed

lemma TopAlloc_heap:
  assumes inv: "heap_inv st bs" and sz: "size_ok sz" and False: "\<not> hTop st + sz + MINSIZE \<ge> memSize st"
  obtains st' where "TopAlloc sz st = (Some (chunk2mem (hTop st)), st')"
    "heap_inv st' (bs @ [(hTop st, sz, True)])" "frame st' = frame st" "hTop st' = hTop st + sz"
proof -
  define st' where "st' = snd (TopAlloc sz st)"
  let ?p = "hTop st"
  have si: "seg_inv st bs" and b: "bins_ok st (free_of bs)" using inv by (simp_all add: heap_inv_def)
  note pos = size_ok_pos [OF sz] and dv = size_ok_dvd [OF sz]
  have a: "seg st (hBottom st) bs ?p" and t1: "tSize st ?p = 1" using si by (simp_all add: seg_inv_def)
  have eq: "TopAlloc sz st = (Some (chunk2mem ?p), st')"
    using False by (simp add: st'_def TopAlloc_def Let_def)
  have tS: "tSize st' x = (if x = ?p + sz then 1 else if x = ?p then Suc sz else tSize st x)" for x
    using False t1 dv by (simp add: st'_def TopAlloc_def Let_def heap_simps REAL_SIZE_def)
  have tP: "tPreSize st' x = (if x = ?p + sz then sz else tPreSize st x)" for x
    using False dv by (simp add: st'_def TopAlloc_def Let_def heap_simps REAL_SIZE_def)
  have hd: "hTop st' = ?p + sz" "hBottom st' = hBottom st" "memSize st' = memSize st"
    using False by (simp_all add: st'_def TopAlloc_def Let_def heap_simps)
  have f: "frame st' = frame st"
    using False by (simp add: st'_def TopAlloc_def Let_def frame_def stats_def old_bins_def set_head_def set_tSize_def set_tPreSize_def)
  have "seg st' (hBottom st) bs ?p"
    by (rule seg_cong [OF a]) (use t1 pos even_if_8dvd [OF dv] in \<open>auto simp: tS tP CHUNK_SIZE_def\<close>)
  moreover have "CHUNK_SIZE st' ?p = sz" using dv pos by (simp add: CHUNK_SIZE_def REAL_SIZE_def tS)
  ultimately have "seg st' (hBottom st) (bs @ [(?p, sz, True)]) (?p + sz)"
    using sz pos by (auto simp: seg_append tS)
  moreover have "odd (tSize st' (hBottom st))"
    using si seg_le [OF a] even_if_8dvd [OF dv] pos by (auto simp: seg_inv_def tS)
  ultimately have "seg_inv st' (bs @ [(?p, sz, True)])"
    using si False by (simp add: seg_inv_def hd tS)
  moreover have "bins_ok st' (free_of bs)"
  proof (rule bins_ok_cong [OF b])
    show "get_bin st' r = get_bin st r" for r
      by (rule get_bin_cong)
         (use False in \<open>simp_all add: st'_def TopAlloc_def Let_def set_head_def set_tSize_def set_tPreSize_def\<close>)
  qed (use False in \<open>simp_all add: st'_def TopAlloc_def Let_def heap_simps\<close>)
  ultimately have h: "heap_inv st' (bs @ [(?p, sz, True)])" by (simp add: heap_inv_def)
  then show ?thesis using that eq f hd by blast
qed

lemma TopAlloc_inv:
  assumes inv: "heap_inv st bs" and sz: "size_ok sz"
  shows "malloc_ok st bs sz (let (p, st1) = TopAlloc sz st in Some (Ptr2Handle st1 p, st1))"
proof (cases "hTop st + sz + MINSIZE \<ge> memSize st")
  case True
  then show ?thesis using inv by (simp add: TopAlloc_def malloc_ok_def Ptr2Handle_def)
next
  case False
  let ?p = "hTop st"
  obtain st' where t: "TopAlloc sz st = (Some (chunk2mem ?p), st')" "heap_inv st' (bs @ [(?p, sz, True)])"
    "frame st' = frame st" by (rule TopAlloc_heap [OF inv sz False])
  then have "Ptr2Handle st' (Some (chunk2mem ?p)) = chunk2mem ?p"
    by (intro Ptr2Handle_block(2)) (auto simp: heap_inv_def)
  moreover have "allocated bs (bs @ [(?p, sz, True)]) ?p sz"
    unfolding allocated_def by (intro exI [of _ "live bs"] exI [of _ "[]"]) simp
  ultimately show ?thesis using malloc_okI [OF t(3,2)] t(1) by simp
qed

lemma bin_first_fit_in:
  "chain st q v ys l INVALID_HANDLE \<Longrightarrow> bin_first_fit st sz k v = Some p \<Longrightarrow>
     p \<in> set ys \<and> sz \<le> CHUNK_SIZE st p"
proof (induction k arbitrary: q v ys)
  case 0
  then show ?case by simp
next
  case (Suc k)
  show ?case
  proof (cases ys)
    case Nil
    with Suc.prems show ?thesis by simp
  next
    case (Cons y zs)
    with Suc.prems Suc.IH [of y "hNext st y" zs] show ?thesis by (auto split: if_splits)
  qed
qed

lemma take_from_bin:
  assumes inv: "heap_inv st bs" and i: "i < NBINS" and d: "dll st (SBin i) zs" "p \<in> set zs"
    and sz: "size_ok sz" "sz \<le> CHUNK_SIZE st p" and min: "MINSIZE \<le> GetMinChunkSize st"
  shows "malloc_ok st bs sz (Some (take_chunk i p sz st))"
proof -
  obtain xs n ys where bs: "bs = xs @ (p, n, False) # ys" and n: "bin_index n = i" "CHUNK_SIZE st p = n"
    by (rule free_block_of_bin [OF inv i d])
  have "sz \<le> n" using sz(2) n(2) by simp
  then obtain bs' st' n' where t: "take_chunk (bin_index n) p sz st = (chunk2mem p, st')"
    "heap_inv st' bs'" "live bs' = live xs @ (p, n', True) # live ys" "sz \<le> n'" "frame st' = frame st"
    using take_chunk_inv [OF inv [unfolded bs] sz(1) _ min] by blast
  from t(3) bs have "allocated bs bs' p n'"
    unfolding allocated_def by (intro exI [of _ "live xs"] exI [of _ "live ys"]) simp
  from malloc_okI [OF t(5,2) this t(4)] t(1) n(1) show ?thesis by simp
qed

lemma search_next_bin_inv:
  assumes inv: "heap_inv st bs" and sz: "size_ok sz" and min: "MINSIZE \<le> GetMinChunkSize st"
    and idx: "bin_index sz = idx" "idx + 1 < NBINS"
  shows "malloc_ok st bs sz (search_next_bin idx sz st)"
proof (cases "next_bin st idx \<ge> NBINS")
  case True
  with TopAlloc_inv [OF inv sz] show ?thesis by (simp add: search_next_bin_def Let_def)
next
  case False
  let ?j = "next_bin st idx"
  have j: "?j < NBINS" using False by simp
  have ok: "bins_ok st (free_of bs)" using inv by (simp add: heap_inv_def)
  obtain zs where d: "dll st (SBin ?j) zs" and z: "zs = [] \<longleftrightarrow> EmptyBin st ?j"
    by (rule bin_chain [OF inv j])
  have "zs \<noteq> []" using next_bin_spec(3) [OF ok idx(2) j] z by simp
  then have pr: "bin_hPreChunk (m_ptBin st ?j) = last zs" and mem: "last zs \<in> set zs"
    using dll_pre_eq [OF d] by simp_all
  obtain n where n: "bin_index n = ?j" "CHUNK_SIZE st (last zs) = n"
    by (rule free_block_of_bin [OF inv j d mem])
  have "sz \<le> n"
  proof (rule ccontr)
    assume "\<not> sz \<le> n"
    then have "bin_index n \<le> bin_index sz" by (intro bin_index_mono) simp
    with next_bin_spec(1) [OF ok idx(2)] n idx show False by simp
  qed
  moreover have "last zs \<noteq> INVALID_HANDLE" using mem dll_zero [OF d] by metis
  ultimately have "bin_last_fit st sz (bin_hPreChunk (m_ptBin st ?j)) = Some (last zs)"
    using pr n by (simp add: bin_last_fit.simps)
  moreover have "malloc_ok st bs sz (Some (take_chunk ?j (last zs) sz st))"
    using take_from_bin [OF inv j d mem sz _ min] \<open>sz \<le> n\<close> n by simp
  ultimately show ?thesis using False by (simp add: search_next_bin_def Let_def)
qed

lemma bin_index_next: "bin_index n + 1 < NBINS"
proof -
  have "n < 512 \<Longrightarrow> n div 8 < 64" by auto
  with largebin_index_le [of n] show ?thesis
    by (auto simp: bin_index_def in_smallbin_range_def smallbin_index_def MIN_LARGE_SIZE_def NBINS_def)
qed

lemma malloc_large_inv:
  assumes inv: "heap_inv st bs" and sz: "size_ok sz" and min: "MINSIZE \<le> GetMinChunkSize st"
  shows "malloc_ok st bs sz (malloc_large sz st)"
proof -
  let ?i = "bin_index sz" and ?r = "bin_first_fit st sz SEARCH_LIMIT (bin_hNextChunk (m_ptBin st (bin_index sz)))"
  note nb = search_next_bin_inv [OF inv sz min refl bin_index_next]
  obtain zs where d: "dll st (SBin ?i) zs" by (rule bin_chain [OF inv bin_index_less])
  have ff: "malloc_ok st bs sz (Some (take_chunk ?i p sz st))" if "?r = Some p" for p
  proof -
    have "p \<in> set zs \<and> sz \<le> CHUNK_SIZE st p"
      using bin_first_fit_in [OF _ that] d unfolding dll_def by auto
    then show ?thesis using take_from_bin [OF inv bin_index_less d] sz min by blast
  qed
  show ?thesis
    using nb ff by (auto simp: malloc_large_def Let_def split: option.split)
qed

text \<open>
  \<open>InterMalloc\<close> always returns.  Either there is no room above the top and the heap is as
  before, or the handle is that of a block in use of at least the padded request, all other blocks in use being
  where they were.
\<close>

lemma InterMalloc_inv:
  assumes inv: "heap_inv st bs" and min: "MINSIZE \<le> GetMinChunkSize st"
    and range: "\<not> REQUEST_OUT_OF_RANGE req"
  shows "malloc_ok st bs (request2size req) (InterMalloc req st)"
proof -
  let ?sz = "request2size req"
  note sz = request2size_ok(1) [OF range]
  show ?thesis
  proof (cases "in_smallbin_range ?sz")
    case True
    show ?thesis
    proof (cases rule: SmallBinMalloc_inv [OF inv sz True])
      case (1 st')
      have "stats st' = stats st" using frame_eqD [OF 1(3)] by simp
      from GetMinChunkSize_stats [OF this] min have "MINSIZE \<le> GetMinChunkSize st'" by simp
      from malloc_large_inv [OF 1(2) sz this] have "malloc_ok st bs ?sz (malloc_large ?sz st')"
        by (rule malloc_ok_frame) (rule 1(3))
      with 1(1) True range show ?thesis by (simp add: InterMalloc_def Let_def)
    next
      case (2 p st' bs')
      then have "(p, ?sz, True) \<in> set (live bs')" by (auto simp: allocated_def)
      then have "(p, ?sz, True) \<in> set bs'" by (simp add: live_def)
      then have "Ptr2Handle st' (Some (chunk2mem p)) = chunk2mem p"
        using 2 by (intro Ptr2Handle_block(2)) (auto simp: heap_inv_def)
      then have "InterMalloc req st = Some (chunk2mem p, st')"
        using 2(1) True range by (simp add: InterMalloc_def Let_def)
      with malloc_okI [OF 2(4,2,3) order_refl] show ?thesis by simp
    qed
  next
    case False
    with malloc_large_inv [OF inv sz min] range show ?thesis by (simp add: InterMalloc_def Let_def)
  qed
qed

end
