(* ===== verification/Mallocator.thy ===== *)
theory Mallocator
  imports DTC_Prelude
begin

text \<open>
  The allocator interface of \<open>cache/mallocator.h\<close> (class \<open>CMallocator\<close>) as its clients rely
  on it: \<open>malloc\<close> returns, gives the null handle or a fresh block of at least the size asked
  for; \<open>free\<close> of a live handle returns 0 and removes just that block; live blocks never
  overlap.  \<open>blocks s\<close> is the set of live handles with their usable sizes.
\<close>

locale mallocator =
  fixes malloc :: "nat \<Rightarrow> 's \<Rightarrow> (handle \<times> 's) option"
    and free :: "handle \<Rightarrow> 's \<Rightarrow> int \<times> 's"
    and inv :: "'s \<Rightarrow> bool"
    and blocks :: "'s \<Rightarrow> (handle \<times> nat) set"
  assumes malloc_cases: "inv s \<Longrightarrow> \<exists>h s'. malloc n s = Some (h, s') \<and> inv s'
      \<and> (h = 0 \<and> blocks s' = blocks s
         \<or> h \<noteq> 0 \<and> (\<exists>k. n \<le> k \<and> h \<notin> fst ` blocks s \<and> blocks s' = insert (h, k) (blocks s)))"
    and free_block: "inv s \<Longrightarrow> (h, k) \<in> blocks s \<Longrightarrow>
      \<exists>s'. free h s = (0, s') \<and> inv s' \<and> blocks s' = blocks s - {(h, k)}"
    and disjoint: "inv s \<Longrightarrow> (h, k) \<in> blocks s \<Longrightarrow> (h', k') \<in> blocks s \<Longrightarrow> h \<noteq> h' \<Longrightarrow>
      h + k \<le> h' \<or> h' + k' \<le> h"
begin

lemma malloc_inv: "inv s \<Longrightarrow> malloc n s = Some (h, s') \<Longrightarrow> inv s'"
  using malloc_cases [of s n] by auto

lemma malloc_block:
  assumes "inv s" "malloc n s = Some (h, s')" "h \<noteq> 0"
  obtains k where "n \<le> k" "h \<notin> fst ` blocks s" "blocks s' = insert (h, k) (blocks s)"
  using malloc_cases [OF assms(1), of n] assms(2,3) by auto

lemma malloc_fail: "inv s \<Longrightarrow> malloc n s = Some (0, s') \<Longrightarrow> blocks s' = blocks s"
  using malloc_cases [of s n] by auto

text \<open>A block that is live stays live, at its place and with its size, across an allocation.\<close>

lemma malloc_keeps: "inv s \<Longrightarrow> malloc n s = Some (h, s') \<Longrightarrow> blocks s \<subseteq> blocks s'"
  using malloc_cases [of s n] by auto

text \<open>Allocating and freeing again gives back the same live blocks.\<close>

lemma malloc_free:
  assumes i: "inv s" and m: "malloc n s = Some (h, s1)" and h: "h \<noteq> 0"
  shows "\<exists>s2. free h s1 = (0, s2) \<and> inv s2 \<and> blocks s2 = blocks s"
proof -
  obtain k where k: "h \<notin> fst ` blocks s" "blocks s1 = insert (h, k) (blocks s)"
    by (rule malloc_block [OF i m h]) blast
  have i1: "inv s1" using malloc_inv [OF i m] .
  from k(2) have "(h, k) \<in> blocks s1" by simp
  from free_block [OF i1 this] obtain s2 where "free h s1 = (0, s2)" "inv s2" "blocks s2 = blocks s1 - {(h, k)}"
    by blast
  moreover have "insert (h, k) (blocks s) - {(h, k)} = blocks s" using k(1) by force
  ultimately show ?thesis using k(2) by auto
qed

text \<open>The bytes of two allocations made one after the other are disjoint.\<close>

lemma malloc_malloc_disjoint:
  assumes i: "inv s" and m1: "malloc n s = Some (h1, s1)" "h1 \<noteq> 0"
    and m2: "malloc m s1 = Some (h2, s2)" "h2 \<noteq> 0"
  shows "h1 + n \<le> h2 \<or> h2 + m \<le> h1"
proof -
  obtain k1 where k1: "n \<le> k1" "blocks s1 = insert (h1, k1) (blocks s)"
    by (rule malloc_block [OF i m1]) blast
  have i1: "inv s1" using malloc_inv [OF i m1(1)] .
  obtain k2 where k2: "m \<le> k2" "h2 \<notin> fst ` blocks s1" "blocks s2 = insert (h2, k2) (blocks s1)"
    by (rule malloc_block [OF i1 m2]) blast
  have i2: "inv s2" using malloc_inv [OF i1 m2(1)] .
  from k1 k2 have "(h1, k1) \<in> blocks s2" "(h2, k2) \<in> blocks s2" "h1 \<noteq> h2" by auto
  from disjoint [OF i2 this] k1(1) k2(1) show ?thesis by auto
qed

end

text \<open>
  Zeroed allocation and the extent of the segment: every live block lies inside
  \<open>{1..<limit}\<close>, which no allocation changes; \<open>byte\<close> reads the payload.
\<close>

locale callocator = mallocator +
  fixes calloc :: "nat \<Rightarrow> 's \<Rightarrow> (handle \<times> 's) option"
    and limit :: "'s \<Rightarrow> nat"
    and byte :: "'s \<Rightarrow> handle \<Rightarrow> nat"
  assumes calloc_cases: "inv s \<Longrightarrow> \<exists>h s'. calloc n s = Some (h, s') \<and> inv s' \<and> limit s' = limit s
      \<and> (h = 0 \<and> blocks s' = blocks s
         \<or> h \<noteq> 0 \<and> (\<exists>k. n \<le> k \<and> h \<notin> fst ` blocks s \<and> blocks s' = insert (h, k) (blocks s)
                     \<and> (\<forall>i<n. byte s' (h + i) = 0)))"
    and in_limit: "inv s \<Longrightarrow> (h, k) \<in> blocks s \<Longrightarrow> 0 < h \<and> 0 < k \<and> h + k < limit s"
begin

lemma calloc_SomeE:
  assumes "inv s"
  obtains s' where "calloc n s = Some (0, s')" "inv s'" "limit s' = limit s" "blocks s' = blocks s"
  | h k s' where "calloc n s = Some (h, s')" "inv s'" "limit s' = limit s" "h \<noteq> 0" "n \<le> k"
      "h \<notin> fst ` blocks s" "blocks s' = insert (h, k) (blocks s)"
  using calloc_cases [OF assms, of n] by blast

text \<open>A new block is apart from every address of an older one.\<close>

lemma calloc_apart:
  assumes "inv s'" "blocks s' = insert (h, k) (blocks s)" "h \<notin> fst ` blocks s" "(a, m) \<in> blocks s" "i < m"
  shows "h \<noteq> a + i"
proof -
  have "h \<noteq> a" using assms(3,4) by force
  then have "h + k \<le> a \<or> a + m \<le> h" using disjoint [OF assms(1), of h k a m] assms(2,4) by auto
  moreover have "0 < k" using in_limit [OF assms(1), of h k] assms(2) by simp
  ultimately show ?thesis using assms(5) by auto
qed

end

end
