(* ===== verification/Bin_Malloc_Props.thy ===== *)
theory Bin_Malloc_Props
  imports Bin_Malloc_Alloc Mallocator
begin

text \<open>
  The allocator as a whole: the invariant with the accounting of \<open>m_tUserAllocSize\<close> and
  \<open>m_tUserAllocChunkCnt\<close>, its preservation by \<open>Init\<close>, \<open>Malloc\<close>, \<open>Calloc\<close>, \<open>Free\<close>, the
  interpretation of the interface \<open>mallocator\<close>, and the states reachable from a fresh segment.
\<close>

section \<open>Invariant with accounting\<close>

definition live_size :: "block list \<Rightarrow> nat" where
  "live_size bs = sum_list (map (\<lambda>(a, n, u). n) (live bs))"

definition BM_inv :: "CBinMalloc \<Rightarrow> block list \<Rightarrow> bool" where
  "BM_inv st bs \<longleftrightarrow>
     heap_inv st bs
     \<and> m_tUserAllocSize (m_pstHead st) = hBottom st + live_size bs
     \<and> m_tUserAllocChunkCnt (m_pstHead st) = length (live bs)
     \<and> memSize st < 2 ^ 63
     \<and> MINSIZE \<le> minChunkSize st
     \<and> (\<forall>i<NFASTBINS. m_ptFastBin st i = empty_bin) \<and> m_ptUnsortedBin st = empty_bin
     \<and> even (m_uiFlags (m_pstHead st))"

lemma seg_live_size: "seg st a bs e \<Longrightarrow> a + live_size bs \<le> e"
proof (induction bs arbitrary: a)
  case Nil
  then show ?case by (simp add: live_size_def)
next
  case (Cons x bs)
  obtain c m v where x: "x = (c, m, v)" by (cases x)
  with Cons show ?case by (fastforce simp: live_size_def)
qed

lemma seg_live_count: "seg st a bs e \<Longrightarrow> 24 * length (live bs) \<le> live_size bs"
proof (induction bs arbitrary: a)
  case Nil
  then show ?case by (simp add: live_size_def)
next
  case (Cons x bs)
  obtain c m v where x: "x = (c, m, v)" by (cases x)
  with Cons.prems have "24 \<le> m" "seg st (a + m) bs e" by (auto dest: size_ok_pos)
  with Cons.IH [OF this(2)] x show ?case by (simp add: live_size_def)
qed

lemma BM_inv_bounds:
  assumes "BM_inv st bs"
  shows "hBottom st + live_size bs < 2 ^ 63" and "length (live bs) < 2 ^ 63"
proof -
  from assms have s: "seg st (hBottom st) bs (hTop st)" and b: "hTop st + MINSIZE < 2 ^ 63"
    by (auto simp: BM_inv_def heap_inv_def seg_inv_def)
  from seg_live_size [OF s] b show "hBottom st + live_size bs < 2 ^ 63" by simp
  with seg_live_count [OF s] show "length (live bs) < 2 ^ 63" by simp
qed

lemma allocated_size: "allocated bs bs' p n \<Longrightarrow> live_size bs' = live_size bs + n"
  and allocated_count: "allocated bs bs' p n \<Longrightarrow> length (live bs') = length (live bs) + 1"
  by (auto simp: allocated_def live_size_def)

lemma allocated_mem: "allocated bs bs' p n \<Longrightarrow> (p, n, True) \<in> set bs'"
proof -
  assume "allocated bs bs' p n"
  then have "(p, n, True) \<in> set (live bs')" by (auto simp: allocated_def)
  then show ?thesis by (simp add: live_def)
qed

lemma heap_inv_cong:
  assumes "heap_inv st bs" "m_mem st' = m_mem st" "m_ptBin st' = m_ptBin st"
    "hTop st' = hTop st" "hBottom st' = hBottom st" "memSize st' = memSize st"
    "m_auiBinBitMap (m_pstHead st') = m_auiBinBitMap (m_pstHead st)"
  shows "heap_inv st' bs"
proof -
  from assms(1) have "seg_inv st bs" "bins_ok st (free_of bs)" by (simp_all add: heap_inv_def)
  moreover have "dll st' (SBin i) xs = dll st (SBin i) xs" for i xs
    using assms by (intro dll_cong) simp_all
  ultimately show ?thesis
    using assms seg_inv_cong_mem [of st bs st'] by (simp add: heap_inv_def bins_ok_def bin_bit_def)
qed

lemma GetMin_of_min: "MINSIZE \<le> minChunkSize st \<Longrightarrow> MINSIZE \<le> GetMinChunkSize st"
  by (simp add: GetMinChunkSize_def MINSIZE_def)

lemma BM_inv_heap: "BM_inv st bs \<Longrightarrow> heap_inv st bs"
  by (simp add: BM_inv_def)

section \<open>The tiling is determined by the memory\<close>

lemma seg_pairs_unique:
  "seg st a bs e \<Longrightarrow> seg st a bs' e \<Longrightarrow> map (\<lambda>(a, n, u). (a, n)) bs = map (\<lambda>(a, n, u). (a, n)) bs'"
proof (induction bs arbitrary: a bs')
  case Nil
  show ?case
  proof (cases bs')
    case (Cons y zs)
    obtain d k w where "y = (d, k, w)" by (cases y)
    with Nil Cons have "seg st (e + k) zs e" "size_ok k" by auto
    from seg_le [OF this(1)] size_ok_pos [OF this(2)] show ?thesis by simp
  qed simp
next
  case (Cons x bs)
  obtain c m v where x: "x = (c, m, v)" by (cases x)
  with Cons.prems have s: "seg st (a + m) bs e" "size_ok m" "c = a" "CHUNK_SIZE st a = m" by auto
  have "a < e" using seg_le [OF s(1)] size_ok_pos [OF s(2)] by simp
  with Cons.prems obtain d k w zs where b': "bs' = (d, k, w) # zs" by (cases bs') auto
  with Cons.prems s have e: "k = m" "d = a" "seg st (a + m) zs e" by auto
  show ?case unfolding b' x using Cons.IH [OF s(1) e(3)] e(1,2) s(3) by simp
qed

lemma free_of_subset:
  assumes h: "heap_inv st bs" and h': "heap_inv st bs'"
  shows "free_of bs \<subseteq> free_of bs'"
proof
  fix x assume x: "x \<in> free_of bs"
  obtain a n where an: "x = (a, n)" by (cases x)
  let ?i = "bin_index n"
  obtain us where u: "dll st (SBin ?i) us" "set us = bin_addrs (free_of bs) ?i"
    using h bin_index_less [of n] unfolding heap_inv_def bins_ok_def by blast
  obtain vs where v: "dll st (SBin ?i) vs" "set vs = bin_addrs (free_of bs') ?i"
    using h' bin_index_less [of n] unfolding heap_inv_def bins_ok_def by blast
  have "us = vs" using u(1) v(1) by (rule dll_unique)
  moreover have "a \<in> set us" using x an u(2) by (auto simp: bin_addrs_def)
  ultimately obtain n' where n': "(a, n') \<in> free_of bs'" using v(2) by (auto simp: bin_addrs_def)
  have "CHUNK_SIZE st a = n" using seg_inv_block(7) h x an by (fastforce simp: heap_inv_def free_of_def)
  moreover have "CHUNK_SIZE st a = n'" using seg_inv_block(7) h' n' by (fastforce simp: heap_inv_def free_of_def)
  ultimately show "x \<in> free_of bs'" using n' an by simp
qed

lemma seg_from_pairs:
  assumes "seg st a bs e"
  shows "bs = map (\<lambda>(a, n). (a, n, (a, n) \<notin> free_of bs)) (map (\<lambda>(a, n, u). (a, n)) bs)"
proof -
  have "(a', n, (a', n) \<notin> free_of bs) = (a', n, u)" if "(a', n, u) \<in> set bs" for a' n u
    using seg_addr_inj [OF assms that, of n False] that by (cases u) (auto simp: free_of_def)
  then show ?thesis by (auto intro!: map_idI [symmetric])
qed

lemma heap_inv_unique:
  assumes "heap_inv st bs" "heap_inv st bs'"
  shows "bs = bs'"
proof -
  have s: "seg st (hBottom st) bs (hTop st)" "seg st (hBottom st) bs' (hTop st)"
    using assms by (simp_all add: heap_inv_def seg_inv_def)
  have "free_of bs = free_of bs'" using free_of_subset assms by blast
  with seg_from_pairs [OF s(1)] seg_from_pairs [OF s(2)] seg_pairs_unique [OF s] show ?thesis by metis
qed

section \<open>Init, Malloc, Calloc, Free\<close>

text \<open>The part of the invariant that only the frame matters for.\<close>

definition BM_quiet :: "CBinMalloc \<Rightarrow> bool" where
  "BM_quiet st \<longleftrightarrow> memSize st < 2 ^ 63 \<and> MINSIZE \<le> minChunkSize st
     \<and> (\<forall>i<NFASTBINS. m_ptFastBin st i = empty_bin) \<and> m_ptUnsortedBin st = empty_bin
     \<and> even (m_uiFlags (m_pstHead st))"

lemma BM_inv_alt:
  "BM_inv st bs \<longleftrightarrow> heap_inv st bs \<and> BM_quiet st
     \<and> m_tUserAllocSize (m_pstHead st) = hBottom st + live_size bs
     \<and> m_tUserAllocChunkCnt (m_pstHead st) = length (live bs)"
  by (auto simp: BM_inv_def BM_quiet_def)

lemma BM_quiet_frame: "frame st' = frame st \<Longrightarrow> BM_quiet st' = BM_quiet st"
  by (simp add: frame_def stats_def old_bins_def BM_quiet_def)

lemma forget_free:
  assumes "heap_inv st bs"
  shows "heap_inv (set_head (\<lambda>h. h\<lparr>m_tLastFreeChunkSize := 0\<rparr>) st) bs"
    and "frame (set_head (\<lambda>h. h\<lparr>m_tLastFreeChunkSize := 0\<rparr>) st) = frame st"
proof -
  show "heap_inv (set_head (\<lambda>h. h\<lparr>m_tLastFreeChunkSize := 0\<rparr>) st) bs"
    by (rule heap_inv_cong [OF assms]) (simp_all add: set_head_def)
  show "frame (set_head (\<lambda>h. h\<lparr>m_tLastFreeChunkSize := 0\<rparr>) st) = frame st"
    by (simp add: frame_def heap_simps)
qed

lemma AddAllocSizeToStat_simps [simp]:
  "m_mem (AddAllocSizeToStat n st) = m_mem st" "m_pstHead (AddAllocSizeToStat n st) = m_pstHead st"
  "m_ptBin (AddAllocSizeToStat n st) = m_ptBin st" "m_ptFastBin (AddAllocSizeToStat n st) = m_ptFastBin st"
  "m_ptUnsortedBin (AddAllocSizeToStat n st) = m_ptUnsortedBin st" "m_user (AddAllocSizeToStat n st) = m_user st"
  "minChunkSize (AddAllocSizeToStat n st) = minChunkSize st"
  by (simp_all add: AddAllocSizeToStat_def Let_def)

lemma account_alloc_simps [simp]:
  "m_mem (account_alloc h n st) = m_mem st" "m_ptBin (account_alloc h n st) = m_ptBin st"
  "m_ptFastBin (account_alloc h n st) = m_ptFastBin st"
  "m_ptUnsortedBin (account_alloc h n st) = m_ptUnsortedBin st"
  "m_user (account_alloc h n st) = m_user st" "minChunkSize (account_alloc h n st) = minChunkSize st"
  "m_pstHead (account_alloc h n st) = (m_pstHead st)\<lparr>
      m_tUserAllocSize := u64 (m_tUserAllocSize (m_pstHead st) + CHUNK_SIZE st (mem2chunk h)),
      m_tUserAllocChunkCnt := u64 (m_tUserAllocChunkCnt (m_pstHead st) + 1)\<rparr>"
  by (simp_all add: account_alloc_def Let_def set_head_def)

lemma BM_Init_inv:
  assumes "8232 \<le> tsz" "tsz < 2 ^ 63" "MINSIZE \<le> minChunkSize st"
  shows "\<exists>st'. BM_Init tsz st = (0, st') \<and> BM_inv st' [] \<and> memSize st' = tsz"
proof -
  have bot: "Init_bottom = 8208"
    by (simp add: Init_bottom_def Init_reserve_def SIZEOF_CMemHead_def SIZEOF_CBin_def NBINS_def
        NFASTBINS_def TTC_RESERVE_SIZE_def MALLOC_ALIGN_MASK_def mask8_def)
  define st' where "st' = snd (BM_Init tsz st)"
  have eq: "BM_Init tsz st = (0, st')"
    using assms by (simp add: st'_def BM_Init_def SIZEOF_CMemHead_def SIZEOF_CBin_def NBINS_def
        NFASTBINS_def TTC_RESERVE_SIZE_def MINSIZE_def)
  then have st': "st' = set_tSize Init_bottom 1 (set_tPreSize Init_bottom 0
        (st\<lparr>m_pstHead := Init_head tsz, m_ptBin := Init_bins NBINS (m_ptBin st),
            m_ptFastBin := Init_bins NFASTBINS (m_ptFastBin st), m_ptUnsortedBin := empty_bin,
            statMemoryTop := Init_bottom, statChunkTotal := 0, statDataSize := Init_bottom\<rparr>))"
    by (simp add: BM_Init_def split: if_splits)
  have hd: "m_pstHead st' = Init_head tsz" by (simp add: st' heap_simps)
  have "get_bin st' (SBin i) = empty_bin" if "i < NBINS" for i
    using that by (simp add: st' set_tSize_def set_tPreSize_def Init_bins_def)
  then have "bins_ok st' {}"
    by (auto simp: bins_ok_def bin_addrs_def hd Init_head_def InitSign_def dll_Nil simp del: get_bin.simps
        intro!: exI [of _ "[]"])
  moreover have "seg_inv st' []"
    using assms by (simp add: seg_inv_def hd Init_head_def InitSign_def bot st' heap_simps MINSIZE_def)
  moreover have "BM_quiet st'"
    using assms by (simp add: BM_quiet_def hd Init_head_def InitSign_def)
      (simp add: st' set_tSize_def set_tPreSize_def Init_bins_def)
  ultimately have "BM_inv st' []"
    by (simp add: BM_inv_alt heap_inv_def live_size_def hd Init_head_def InitSign_def)
  then show ?thesis using eq by (simp add: hd Init_head_def InitSign_def)
qed

lemma account_alloc_inv:
  assumes inv: "BM_inv st bs" and f: "frame st1 = frame st" and hi: "heap_inv st1 bs'"
    and al: "allocated bs bs' p n"
  shows "BM_inv (account_alloc (chunk2mem p) req st1) bs'"
proof -
  note fd = frame_eqD [OF f] and q = BM_quiet_frame [OF f]
  let ?s2 = "account_alloc (chunk2mem p) req st1"
  have cs: "CHUNK_SIZE st1 p = n"
    using seg_inv_block(7) [OF _ allocated_mem [OF al]] hi by (simp add: heap_inv_def)
  have h2: "heap_inv ?s2 bs'" by (rule heap_inv_cong [OF hi]) simp_all
  have sg: "seg st1 (hBottom st1) bs' (hTop st1)" "hTop st1 + MINSIZE \<le> memSize st1"
    using hi by (simp_all add: heap_inv_def seg_inv_def)
  have ms: "memSize st1 < 2 ^ 63" using inv fd by (simp add: BM_inv_alt BM_quiet_def)
  have b: "hBottom st + live_size bs + n < 2 ^ 63"
    using seg_live_size [OF sg(1)] sg(2) ms allocated_size [OF al] fd by simp
  have b2: "length (live bs) + 1 < 2 ^ 63"
    using seg_live_count [OF sg(1)] b allocated_size [OF al] allocated_count [OF al] by simp
  have "BM_quiet ?s2" using inv q by (simp add: BM_inv_alt BM_quiet_def)
  with h2 show ?thesis
    using inv fd cs b b2 allocated_size [OF al] allocated_count [OF al]
    by (simp add: BM_inv_alt chunk2mem_def mem2chunk_def)
qed

lemma BM_Malloc_inv:
  assumes inv: "BM_inv st bs"
  obtains st' where "BM_Malloc req st = Some (INVALID_HANDLE, st')" "BM_inv st' bs"
      "REQUEST_OUT_OF_RANGE req \<or> memSize st' \<le> hTop st' + request2size req + MINSIZE"
      "memSize st' = memSize st" "hBottom st' = hBottom st"
  | p n st' bs' where "BM_Malloc req st = Some (chunk2mem p, st')" "BM_inv st' bs'"
      "allocated bs bs' p n" "req + 8 \<le> n" "memSize st' = memSize st" "hBottom st' = hBottom st"
proof -
  let ?s0 = "set_head (\<lambda>h. h\<lparr>m_tLastFreeChunkSize := 0\<rparr>) st"
  have h0: "heap_inv ?s0 bs" and f0: "frame ?s0 = frame st"
    using forget_free BM_inv_heap [OF inv] by blast+
  show ?thesis
  proof (cases "REQUEST_OUT_OF_RANGE req")
    case True
    have "BM_inv ?s0 bs" using inv h0 frame_eqD [OF f0] BM_quiet_frame [OF f0] by (simp add: BM_inv_alt)
    with True show ?thesis by (intro that(1) [of ?s0]) (simp_all add: BM_Malloc_def InterMalloc_def set_head_def)
  next
    case range: False
    have "stats ?s0 = stats st" using frame_eqD [OF f0] by simp
    then have "MINSIZE \<le> GetMinChunkSize ?s0"
      using inv GetMin_of_min [of st] GetMinChunkSize_stats [of ?s0 st] by (simp add: BM_inv_def)
    from InterMalloc_inv [OF h0 this range]
    obtain h st1 where e: "InterMalloc req ?s0 = Some (h, st1)" and f1: "frame st1 = frame ?s0"
      and c: "h = INVALID_HANDLE \<and> heap_inv st1 bs \<and> memSize st1 \<le> hTop st1 + request2size req + MINSIZE \<or>
         (\<exists>bs' p n. h = chunk2mem p \<and> heap_inv st1 bs' \<and> allocated bs bs' p n \<and> request2size req \<le> n)"
      unfolding malloc_ok_def by blast
    have f: "frame st1 = frame st" using f0 f1 by simp
    from c show ?thesis
    proof
      assume "h = INVALID_HANDLE \<and> heap_inv st1 bs \<and> memSize st1 \<le> hTop st1 + request2size req + MINSIZE"
      moreover from this have "BM_inv st1 bs"
        using inv frame_eqD [OF f] BM_quiet_frame [OF f] by (simp add: BM_inv_alt)
      ultimately show ?thesis using e frame_eqD [OF f]
        by (intro that(1) [of st1]) (simp_all add: BM_Malloc_def)
    next
      assume "\<exists>bs' p n. h = chunk2mem p \<and> heap_inv st1 bs' \<and> allocated bs bs' p n \<and> request2size req \<le> n"
      then obtain bs' p n where h: "h = chunk2mem p" and hi: "heap_inv st1 bs'"
        and al: "allocated bs bs' p n" and n: "request2size req \<le> n" by blast
      have "BM_inv (account_alloc (chunk2mem p) req st1) bs'" by (rule account_alloc_inv [OF inv f hi al])
      moreover have "h \<noteq> INVALID_HANDLE" using h by (simp add: chunk2mem_def INVALID_HANDLE_def)
      moreover have "req + 8 \<le> n" using request2size_ok(2) [OF range] n by simp
      ultimately show ?thesis using e h al frame_eqD [OF f]
        by (intro that(2) [of p "account_alloc h req st1" bs' n]) (simp_all add: BM_Malloc_def)
    qed
  qed
qed

lemma BM_Free_inv:
  assumes inv: "BM_inv st bs" and mem: "(p, n, True) \<in> set bs"
  obtains st' bs' where "BM_Free (chunk2mem p) st = (0, st')" "BM_inv st' bs'" "allocated bs' bs p n"
proof -
  obtain xs ys where bs: "bs = xs @ (p, n, True) # ys" using mem by (auto simp: in_set_conv_decomp)
  obtain bs' st1 where e: "InterFree (chunk2mem p) st = (0, n, st1)" and h1: "heap_inv st1 bs'"
    and l: "live bs' = live xs @ live ys" and f: "frame st1 = frame st"
    using InterFree_inv [of st xs p n ys] BM_inv_heap [OF inv] bs by blast
  note fd = frame_eqD [OF f] and q = BM_quiet_frame [OF f]
  have al: "allocated bs' bs p n"
    unfolding allocated_def using l bs by (intro exI [of _ "live xs"] exI [of _ "live ys"]) simp
  let ?s2 = "set_head (\<lambda>h. h\<lparr>m_tUserAllocSize := u64_sub (m_tUserAllocSize h) n,
       m_tUserAllocChunkCnt := u64_sub (m_tUserAllocChunkCnt h) 1\<rparr>) st1"
  let ?s3 = "?s2\<lparr>statChunkTotal := u32_sub (statChunkTotal ?s2) 1, statDataSize := m_tUserAllocSize (m_pstHead ?s2)\<rparr>"
  have "BM_Free (chunk2mem p) st = (0, ?s3)" using e by (simp add: BM_Free_def Let_def)
  moreover have "BM_inv ?s3 bs'"
  proof -
    have "heap_inv ?s3 bs'" by (rule heap_inv_cong [OF h1]) (simp_all add: set_head_def)
    moreover have "BM_quiet ?s3" using inv q by (simp add: BM_inv_alt BM_quiet_def set_head_def)
    ultimately show ?thesis
      using inv fd BM_inv_bounds [OF inv] allocated_size [OF al] allocated_count [OF al]
      by (simp add: BM_inv_alt set_head_def)
  qed
  ultimately show ?thesis using al by (intro that) auto
qed

section \<open>The interface\<close>

definition BM_ok :: "CBinMalloc \<Rightarrow> bool" where
  "BM_ok st \<longleftrightarrow> (\<exists>bs. BM_inv st bs)"

definition BM_blocks :: "CBinMalloc \<Rightarrow> (handle \<times> nat) set" where
  "BM_blocks st = {(h, k). \<exists>bs p n. heap_inv st bs \<and> (p, n, True) \<in> set bs \<and> h = chunk2mem p \<and> k = n - 8}"

lemma BM_blocks_eq:
  assumes "heap_inv st bs"
  shows "BM_blocks st = (\<lambda>(p, n, u). (chunk2mem p, n - 8)) ` set (live bs)"
proof -
  have u: "heap_inv st bs' \<longleftrightarrow> bs' = bs" for bs' using heap_inv_unique assms by blast
  show ?thesis unfolding BM_blocks_def u live_def by (force simp: image_iff)
qed

lemma allocated_set: "allocated bs bs' p n \<Longrightarrow> set (live bs') = insert (p, n, True) (set (live bs))"
  by (auto simp: allocated_def)

lemma BM_blocks_allocated:
  assumes "heap_inv st bs" "heap_inv st' bs'" "allocated bs bs' p n"
  shows "BM_blocks st' = insert (chunk2mem p, n - 8) (BM_blocks st)"
  by (simp add: BM_blocks_eq [OF assms(1)] BM_blocks_eq [OF assms(2)] allocated_set [OF assms(3)])

lemma live_fresh:
  assumes "heap_inv st' bs'" "allocated bs bs' p n"
  shows "(p, m, u) \<notin> set (live bs)" and "n \<ge> 24"
proof -
  have s: "seg st' (hBottom st') bs' (hTop st')" using assms(1) by (simp add: heap_inv_def seg_inv_def)
  from seg_distinct [OF s] have "distinct (map fst (live bs'))"
    unfolding live_def by (rule distinct_map_filter)
  then have "p \<notin> fst ` set (live bs)"
    using assms(2) unfolding allocated_def by (elim exE conjE) (simp add: image_Un)
  then show "(p, m, u) \<notin> set (live bs)" by (metis fst_conv image_eqI)
  show "n \<ge> 24" using seg_block [OF s allocated_mem [OF assms(2)]] by (auto dest: size_ok_pos)
qed

interpretation bm: mallocator BM_Malloc BM_Free BM_ok BM_blocks
proof unfold_locales
  fix st req
  assume "BM_ok st"
  then obtain bs where inv: "BM_inv st bs" by (auto simp: BM_ok_def)
  show "\<exists>h st'. BM_Malloc req st = Some (h, st') \<and> BM_ok st' \<and>
      (h = 0 \<and> BM_blocks st' = BM_blocks st \<or> h \<noteq> 0 \<and>
       (\<exists>k\<ge>req. h \<notin> fst ` BM_blocks st \<and> BM_blocks st' = insert (h, k) (BM_blocks st)))"
  proof (cases rule: BM_Malloc_inv [OF inv, of req])
    case (1 st')
    then have "BM_blocks st' = BM_blocks st"
      using BM_blocks_eq [OF BM_inv_heap [OF 1(2)]] BM_blocks_eq [OF BM_inv_heap [OF inv]] by simp
    with 1 show ?thesis by (auto simp: BM_ok_def INVALID_HANDLE_def)
  next
    case (2 p n st' bs')
    note hi = BM_inv_heap [OF 2(2)]
    have eq: "BM_blocks st' = insert (chunk2mem p, n - 8) (BM_blocks st)"
      by (rule BM_blocks_allocated [OF BM_inv_heap [OF inv] hi 2(3)])
    have fr: "chunk2mem p \<notin> fst ` BM_blocks st"
      using live_fresh(1) [OF hi 2(3)] BM_blocks_eq [OF BM_inv_heap [OF inv]]
      by (force simp: chunk2mem_def)
    have "req \<le> n - 8" using 2(4) by simp
    with eq fr 2 show ?thesis by (auto simp: BM_ok_def chunk2mem_def)
  qed
next
  fix st h k
  assume "BM_ok st" and hk: "(h, k) \<in> BM_blocks st"
  then obtain bs where inv: "BM_inv st bs" by (auto simp: BM_ok_def)
  note hi = BM_inv_heap [OF inv]
  from hk BM_blocks_eq [OF hi] obtain p n where p: "(p, n, True) \<in> set bs" "h = chunk2mem p" "k = n - 8"
    by (auto simp: live_def)
  obtain st' bs' where e: "BM_Free (chunk2mem p) st = (0, st')" and inv': "BM_inv st' bs'"
    and al: "allocated bs' bs p n" by (rule BM_Free_inv [OF inv p(1)])
  have "BM_blocks st = insert (h, k) (BM_blocks st')"
    using BM_blocks_allocated [OF BM_inv_heap [OF inv'] hi al] p by simp
  moreover have "(h, k) \<notin> BM_blocks st'"
    using live_fresh(1) [OF hi al] BM_blocks_eq [OF BM_inv_heap [OF inv']] p by (auto simp: chunk2mem_def)
  ultimately show "\<exists>st'. BM_Free h st = (0, st') \<and> BM_ok st' \<and> BM_blocks st' = BM_blocks st - {(h, k)}"
    using e inv' p by (auto simp: BM_ok_def)
next
  fix st h k h' k'
  assume "BM_ok st" and hk: "(h, k) \<in> BM_blocks st" "(h', k') \<in> BM_blocks st" "h \<noteq> h'"
  then obtain bs where inv: "BM_inv st bs" by (auto simp: BM_ok_def)
  note hi = BM_inv_heap [OF inv]
  have s: "seg st (hBottom st) bs (hTop st)" using hi by (simp add: heap_inv_def seg_inv_def)
  from hk BM_blocks_eq [OF hi] obtain p n q m where p: "(p, n, True) \<in> set bs" "h = chunk2mem p" "k = n - 8"
    and q: "(q, m, True) \<in> set bs" "h' = chunk2mem q" "k' = m - 8" by (auto simp: live_def)
  have "24 \<le> n" "24 \<le> m" using seg_block [OF s p(1)] seg_block [OF s q(1)] by (auto dest: size_ok_pos)
  moreover have "p + n \<le> q \<or> q + m \<le> p"
    using seg_disjoint [OF s p(1) q(1)] seg_disjoint [OF s q(1) p(1)] p q hk(3) by fastforce
  ultimately show "h + k \<le> h' \<or> h' + k' \<le> h" using p q by (auto simp: chunk2mem_def)
qed

lemma user_memset_inv: "BM_inv st bs \<Longrightarrow> BM_inv (user_memset p c n st) bs"
  using heap_inv_cong [of st bs "user_memset p c n st"]
  by (simp add: BM_inv_def user_memset_def)

lemma user_memset_blocks: "BM_ok st \<Longrightarrow> BM_blocks (user_memset p c n st) = BM_blocks st"
proof -
  assume "BM_ok st"
  then obtain bs where i: "BM_inv st bs" by (auto simp: BM_ok_def)
  from BM_blocks_eq [OF BM_inv_heap [OF i]] BM_blocks_eq [OF BM_inv_heap [OF user_memset_inv [OF i]]]
  show ?thesis by simp
qed

lemma BM_Malloc_memSize: "BM_ok st \<Longrightarrow> BM_Malloc n st = Some (h, st') \<Longrightarrow> memSize st' = memSize st"
  by (auto simp: BM_ok_def elim: BM_Malloc_inv [where req = n])

interpretation bmc: callocator BM_Malloc BM_Free BM_ok BM_blocks BM_Calloc memSize m_user
proof unfold_locales
  fix st n
  assume ok: "BM_ok st"
  obtain h st1 where m: "BM_Malloc n st = Some (h, st1)" and ok1: "BM_ok st1"
    and c: "h = 0 \<and> BM_blocks st1 = BM_blocks st \<or> h \<noteq> 0 \<and>
       (\<exists>k\<ge>n. h \<notin> fst ` BM_blocks st \<and> BM_blocks st1 = insert (h, k) (BM_blocks st))"
    using bm.malloc_cases [OF ok, of n] by blast
  have ms: "memSize st1 = memSize st" by (rule BM_Malloc_memSize [OF ok m])
  let ?s = "user_memset h 0 n st1"
  have ok2: "BM_ok ?s" using ok1 user_memset_inv by (meson BM_ok_def)
  have z: "\<forall>i<n. m_user ?s (h + i) = 0" by (simp add: user_memset_def)
  have ms2: "memSize ?s = memSize st" using ms by (simp add: user_memset_def)
  show "\<exists>h st'. BM_Calloc n st = Some (h, st') \<and> BM_ok st' \<and> memSize st' = memSize st \<and>
      (h = 0 \<and> BM_blocks st' = BM_blocks st \<or> h \<noteq> 0 \<and>
       (\<exists>k\<ge>n. h \<notin> fst ` BM_blocks st \<and> BM_blocks st' = insert (h, k) (BM_blocks st)
          \<and> (\<forall>i<n. m_user st' (h + i) = 0)))"
  proof (cases "h = 0")
    case True
    with c m ok1 ms show ?thesis by (auto simp: BM_Calloc_def INVALID_HANDLE_def)
  next
    case False
    with m have "BM_Calloc n st = Some (h, ?s)" by (simp add: BM_Calloc_def INVALID_HANDLE_def)
    with False c ok2 z ms2 user_memset_blocks [OF ok1] show ?thesis by auto
  qed
next
  fix st h k
  assume "BM_ok st" and hk: "(h, k) \<in> BM_blocks st"
  then obtain bs where inv: "BM_inv st bs" by (auto simp: BM_ok_def)
  from hk BM_blocks_eq [OF BM_inv_heap [OF inv]] obtain p n
    where p: "(p, n, True) \<in> set bs" "h = chunk2mem p" "k = n - 8" by (auto simp: live_def)
  have si: "seg_inv st bs" using BM_inv_heap [OF inv] by (simp add: heap_inv_def)
  note b = seg_inv_block [OF si p(1)]
  have "24 \<le> n" using size_ok_pos [OF b(6)] by simp
  with b p show "0 < h \<and> 0 < k \<and> h + k < memSize st" by (auto simp: chunk2mem_def)
qed

section \<open>Reachable allocators\<close>

text \<open>
  The life of a segment: formatted once, then any sequence of \<open>Malloc\<close>, \<open>Calloc\<close> and \<open>Free\<close>
  of live handles.
\<close>

inductive BM_step :: "CBinMalloc \<Rightarrow> CBinMalloc \<Rightarrow> bool" where
  step_malloc: "BM_Malloc req st = Some (h, st') \<Longrightarrow> BM_step st st'"
| step_calloc: "BM_Calloc req st = Some (h, st') \<Longrightarrow> BM_step st st'"
| step_free: "(h, k) \<in> BM_blocks st \<Longrightarrow> BM_Free h st = (r, st') \<Longrightarrow> BM_step st st'"

inductive BM_reach :: "CBinMalloc \<Rightarrow> bool" where
  reach_init: "tsz < 2 ^ 63 \<Longrightarrow> MINSIZE \<le> minChunkSize st \<Longrightarrow> BM_Init tsz st = (0, st') \<Longrightarrow> BM_reach st'"
| reach_step: "BM_reach st \<Longrightarrow> BM_step st st' \<Longrightarrow> BM_reach st'"

inductive_cases BM_stepE: "BM_step st st'"

lemma BM_step_ok: "BM_step st st' \<Longrightarrow> BM_ok st \<Longrightarrow> BM_ok st'"
proof (induction rule: BM_step.induct)
  case (step_malloc req st h st')
  then show ?case using bm.malloc_inv by blast
next
  case (step_calloc req st h st')
  then obtain st1 where "BM_Malloc req st = Some (h, st1)"
    and st': "st' = (if h \<noteq> INVALID_HANDLE then user_memset h 0 req st1 else st1)"
    by (auto simp: BM_Calloc_def split: option.splits)
  with step_calloc.prems have "BM_ok st1" using bm.malloc_inv by blast
  then obtain bs where "BM_inv st1 bs" by (auto simp: BM_ok_def)
  with user_memset_inv [OF this, of h 0 req] st' show ?case by (auto simp: BM_ok_def)
next
  case (step_free h k st r st')
  then show ?case using bm.free_block by fastforce
qed

lemma BM_Init_min: "BM_Init tsz st = (0, st') \<Longrightarrow> 8232 \<le> tsz"
  by (simp add: BM_Init_def SIZEOF_CMemHead_def SIZEOF_CBin_def NBINS_def
        NFASTBINS_def TTC_RESERVE_SIZE_def MINSIZE_def split: if_splits)

lemma BM_reach_ok: "BM_reach st \<Longrightarrow> BM_ok st"
proof (induction rule: BM_reach.induct)
  case (reach_init tsz st st')
  from BM_Init_inv [OF BM_Init_min [OF reach_init(3)] reach_init(1,2)] reach_init(3)
  show ?case by (auto simp: BM_ok_def)
next
  case (reach_step st st')
  then show ?case using BM_step_ok by blast
qed

end
