(* ===== verification/Bin_Malloc_Correct.thy ===== *)
theory Bin_Malloc_Correct
  imports Bin_Malloc_Props
begin

text \<open>
  The correctness properties of the allocator over the definitions of \<open>Bin_Malloc\<close>, each with
  a witness on the segment \<open>ex_seg\<close>: a freshly formatted segment of one million bytes.
\<close>

section \<open>Consistency of the bins\<close>

lemma last_chunk_chain:
  "chain st q h xs l INVALID_HANDLE \<Longrightarrow> h \<noteq> INVALID_HANDLE \<Longrightarrow> last_chunk st h = Some l"
proof (induction xs arbitrary: q h)
  case Nil
  then show ?case by simp
next
  case (Cons x xs)
  then have x: "x = h" and c: "chain st h (hNext st h) xs l INVALID_HANDLE" by auto
  show ?case
  proof (cases "hNext st h = INVALID_HANDLE")
    case True
    with c have "xs = []" by (cases xs) auto
    with c True show ?thesis by (subst last_chunk.simps) simp
  next
    case False
    with Cons.IH [OF c] show ?thesis by (subst last_chunk.simps) simp
  qed
qed

lemma bin_tail_dll:
  assumes "dll st r xs"
  shows "bin_tail st r = Some (bin_hPreChunk (get_bin st r))"
proof (cases xs)
  case Nil
  with assms show ?thesis by (simp add: dll_Nil bin_tail_def empty_bin_def)
next
  case (Cons y ys)
  obtain c: "chain st INVALID_HANDLE (bin_hNextChunk (get_bin st r)) xs (bin_hPreChunk (get_bin st r)) INVALID_HANDLE"
    using assms by (auto simp: dll_def)
  have "bin_hNextChunk (get_bin st r) \<noteq> INVALID_HANDLE" using dll_empty_iff [OF assms] Cons by simp
  with last_chunk_chain [OF c] show ?thesis by (simp add: bin_tail_def)
qed

lemma check_bins_ok:
  "(\<And>r. r \<in> set rs \<Longrightarrow> \<exists>xs. dll st r xs) \<Longrightarrow> check_bins st e rs = Some 0"
proof (induction rs)
  case (Cons r rs)
  then obtain xs where "dll st r xs" by auto
  from bin_tail_dll [OF this] Cons show ?case by simp
qed simp

lemma inv_dll:
  assumes "BM_inv st bs"
  shows "i < NBINS \<Longrightarrow> \<exists>xs. dll st (SBin i) xs" and "i < NFASTBINS \<Longrightarrow> dll st (FBin i) []"
    and "dll st UBin []"
  using assms by (auto simp: BM_inv_def heap_inv_def bins_ok_def dll_Nil)

section \<open>A segment to evaluate on\<close>

definition ex_raw :: CBinMalloc where
  "ex_raw = \<lparr>m_pstHead = Init_head 0, m_ptBin = (\<lambda>_. empty_bin), m_ptFastBin = (\<lambda>_. empty_bin),
     m_ptUnsortedBin = empty_bin, m_mem = (\<lambda>_. \<lparr>m_tPreSize = 0, m_tSize = 0, m_hPreChunk = 0, m_hNextChunk = 0\<rparr>),
     m_user = (\<lambda>_. 0), statChunkTotal = 0, statDataSize = 0, statMemoryTop = 0,
     statTmpDataSizeRecently = 0, statTmpDataAllocCountRecently = 0, statAverageDataSizeRecently = 0,
     minChunkSize = MINSIZE\<rparr>"

definition ex_seg :: CBinMalloc where
  "ex_seg = snd (BM_Init 1000000 ex_raw)"

lemma ex_raw_min: "MINSIZE \<le> minChunkSize ex_raw"
  by (simp add: ex_raw_def)

lemma ex_seg_init: "BM_Init 1000000 ex_raw = (0, ex_seg)"
  using BM_Init_inv [OF _ _ ex_raw_min, of 1000000] by (auto simp: ex_seg_def)

lemma ex_seg_inv: "BM_inv ex_seg []" and ex_seg_size: "memSize ex_seg = 1000000"
  using BM_Init_inv [OF _ _ ex_raw_min, of 1000000] ex_seg_init by auto

lemma ex_seg_reach: "BM_reach ex_seg"
  by (rule reach_init [OF _ ex_raw_min ex_seg_init]) simp

lemma ex_seg_top: "hTop ex_seg = 8208"
  by (simp add: ex_seg_def BM_Init_def Init_bottom_def Init_reserve_def SIZEOF_CMemHead_def
      SIZEOF_CBin_def NBINS_def NFASTBINS_def TTC_RESERVE_SIZE_def MALLOC_ALIGN_MASK_def mask8_def
      MINSIZE_def Init_head_def InitSign_def set_tSize_def set_tPreSize_def)

lemma live_nil_tiling: "live bs = [] \<Longrightarrow> (p, n, True) \<notin> set bs"
  by (auto simp: live_def filter_empty_conv)

text \<open>A state with one block in use, taken from the fresh segment.\<close>

lemma ex_one_block:
  "\<exists>st bs p n. BM_Malloc 100 ex_seg = Some (chunk2mem p, st) \<and> BM_inv st bs \<and> BM_reach st
     \<and> (p, n, True) \<in> set bs \<and> 108 \<le> n"
proof (cases rule: BM_Malloc_inv [OF ex_seg_inv, of 100])
  case (1 st')
  have "hTop st' = hBottom ex_seg" "hTop ex_seg = hBottom ex_seg"
    using 1 ex_seg_inv by (simp_all add: BM_inv_def heap_inv_def seg_inv_def)
  with 1 ex_seg_top ex_seg_size show ?thesis
    by (simp add: REQUEST_OUT_OF_RANGE_def request2size_def MINSIZE_def MALLOC_ALIGN_MASK_def mask8_def)
next
  case (2 p n st' bs')
  then have "BM_reach st'" using reach_step [OF ex_seg_reach step_malloc] by blast
  with 2 allocated_mem [OF 2(3)] show ?thesis by force
qed

section \<open>Allocation and release\<close>

text \<open>
  C1: on a well-formed segment \<open>Malloc\<close> always returns (no null read, no endless chain), and
  either the handle is \<open>INVALID_HANDLE\<close>, the blocks are as before, and the request is out of
  range or does not fit above the top; or the handle is that of one new block of at least the
  request plus its header, all other blocks in use being where they were.  The invariant,
  the accounting of \<open>m_tUserAllocSize\<close> and \<open>m_tUserAllocChunkCnt\<close> included, holds again.
\<close>

theorem Malloc_correct:
  assumes "BM_inv st bs"
  shows "\<exists>h st' bs'. BM_Malloc req st = Some (h, st') \<and> BM_inv st' bs'
     \<and> (h = INVALID_HANDLE \<and> bs' = bs
          \<and> (REQUEST_OUT_OF_RANGE req \<or> memSize st' \<le> hTop st' + request2size req + MINSIZE)
        \<or> (\<exists>p n. h = chunk2mem p \<and> allocated bs bs' p n \<and> req + 8 \<le> n))"
  by (rule BM_Malloc_inv [OF assms, of req]) blast+

theorem Malloc_correct_witness:
  "BM_inv ex_seg [] \<and> (\<exists>h st' bs'. BM_Malloc 100 ex_seg = Some (h, st') \<and> BM_inv st' bs'
     \<and> (h = INVALID_HANDLE \<and> bs' = []
          \<and> (REQUEST_OUT_OF_RANGE 100 \<or> memSize st' \<le> hTop st' + request2size 100 + MINSIZE)
        \<or> (\<exists>p n. h = chunk2mem p \<and> allocated [] bs' p n \<and> 100 + 8 \<le> n)))"
  using ex_seg_inv Malloc_correct [OF ex_seg_inv, of 100] by simp





text \<open>
  A handle from \<open>Malloc\<close> given straight back to \<open>Free\<close> is accepted, and the live blocks
  are those before the allocation.
\<close>

theorem Malloc_Free_roundtrip:
  assumes "BM_ok st" "BM_Malloc req st = Some (h, st1)" "h \<noteq> INVALID_HANDLE"
  shows "\<exists>st2. BM_Free h st1 = (0, st2) \<and> BM_ok st2 \<and> BM_blocks st2 = BM_blocks st"
  using bm.malloc_free [OF assms(1,2)] assms(3) by (simp add: INVALID_HANDLE_def)

theorem Malloc_Free_roundtrip_witness:
  "\<exists>h st1 st2. BM_ok ex_seg \<and> BM_Malloc 100 ex_seg = Some (h, st1) \<and> h \<noteq> INVALID_HANDLE
     \<and> BM_Free h st1 = (0, st2) \<and> BM_ok st2 \<and> BM_blocks st2 = BM_blocks ex_seg"
proof -
  obtain st p where s: "BM_Malloc 100 ex_seg = Some (chunk2mem p, st)" using ex_one_block by blast
  have "BM_ok ex_seg" using ex_seg_inv by (auto simp: BM_ok_def)
  moreover have "chunk2mem p \<noteq> INVALID_HANDLE" by (simp add: chunk2mem_def INVALID_HANDLE_def)
  ultimately show ?thesis using Malloc_Free_roundtrip [OF _ s] s by blast
qed

text \<open>
  C5: the bitmap search of \<open>InterMalloc\<close> finds the least non-empty bin above the bin of the
  request (or runs past the last bin), and every free chunk of that bin is large enough.
\<close>

theorem next_bin_least:
  assumes "BM_inv st bs" "i = next_bin st (bin_index sz)"
  shows "bin_index sz < i \<and> (\<forall>j<NBINS. bin_index sz < j \<and> j < i \<longrightarrow> EmptyBin st j)
     \<and> (i < NBINS \<longrightarrow> \<not> EmptyBin st i \<and> (\<forall>p n. (p, n, False) \<in> set bs \<and> bin_index n = i \<longrightarrow> sz < n))"
proof -
  have ok: "bins_ok st (free_of bs)" using assms(1) by (simp add: BM_inv_def heap_inv_def)
  note s = next_bin_spec [OF ok bin_index_next [of sz]]
  have "sz < n" if "bin_index n = i" for n
  proof (rule ccontr)
    assume "\<not> sz < n"
    then have "bin_index n \<le> bin_index sz" by (intro bin_index_mono) simp
    with s(1) that assms(2) show False by simp
  qed
  with s assms(2) show ?thesis by blast
qed

theorem next_bin_least_witness:
  "BM_inv ex_seg [] \<and> (\<exists>i. i = next_bin ex_seg (bin_index 112) \<and> bin_index 112 < i
     \<and> (\<forall>j<NBINS. bin_index 112 < j \<and> j < i \<longrightarrow> EmptyBin ex_seg j))"
  using ex_seg_inv next_bin_least [OF ex_seg_inv refl, of 112] by blast



text \<open>
  C7: a segment formatted by \<open>Init\<close> can be attached with the same size by another process and
  with no other size, and it has no block in use.
\<close>

theorem Init_Attach:
  assumes "8232 \<le> tsz" "tsz < 2 ^ 63" "MINSIZE \<le> minChunkSize st"
  shows "\<exists>st'. BM_Init tsz st = (0, st') \<and> BM_inv st' [] \<and> BM_blocks st' = {}
     \<and> (\<forall>st2 sz2. fst (BM_Attach (m_pstHead st') sz2 st2) = 0 \<longleftrightarrow> sz2 = tsz)"
proof -
  obtain st' where e: "BM_Init tsz st = (0, st')" and inv: "BM_inv st' []" and m: "memSize st' = tsz"
    using BM_Init_inv [OF assms] by blast
  have h: "m_pstHead st' = Init_head tsz"
    using e by (auto simp: BM_Init_def heap_simps split: if_splits)
  have "hTop st' < memSize st'" using inv by (simp add: BM_inv_def heap_inv_def seg_inv_def MINSIZE_def)
  moreover have "DetectVersion (m_pstHead st') = int TTC_VER_MIN"
    by (simp add: h Init_head_def InitSign_def DetectVersion_def V4Sign_def TTC_VER_MIN_def)
  ultimately have "fst (BM_Attach (m_pstHead st') sz2 st2) = 0 \<longleftrightarrow> sz2 = tsz" for st2 sz2
    using m assms(1) by (simp add: BM_Attach_def Let_def SIZEOF_CMemHead_def SIZEOF_CBin_def NBINS_def
        NFASTBINS_def MINSIZE_def)
  moreover have "BM_blocks st' = {}" using BM_blocks_eq [OF BM_inv_heap [OF inv]] by simp
  ultimately show ?thesis using e inv by blast
qed

theorem Init_Attach_witness:
  "8232 \<le> (1000000::nat) \<and> (\<exists>st'. BM_Init 1000000 ex_raw = (0, st') \<and> BM_inv st' [] \<and> BM_blocks st' = {}
     \<and> (\<forall>st2 sz2. fst (BM_Attach (m_pstHead st') sz2 st2) = 0 \<longleftrightarrow> sz2 = 1000000))"
  using Init_Attach [of 1000000 ex_raw] ex_raw_min by simp

text \<open>
  \<open>Free(INVALID_HANDLE)\<close> reports success and decrements the chunk count, which falls one
  below the number of live blocks: the accounting no longer matches the heap.
\<close>

theorem Free_invalid_counts:
  assumes "BM_inv st bs" "live bs \<noteq> []"
  shows "\<exists>st'. BM_Free INVALID_HANDLE st = (0, st')
     \<and> m_tUserAllocChunkCnt (m_pstHead st') + 1 = length (live bs) \<and> \<not> BM_inv st' bs"
proof -
  define st' where "st' = snd (BM_Free INVALID_HANDLE st)"
  have e: "BM_Free INVALID_HANDLE st = (0, st')"
    by (simp add: st'_def BM_Free_def InterFree_def INVALID_HANDLE_def Let_def)
  have c: "m_tUserAllocChunkCnt (m_pstHead st) = length (live bs)" using assms(1) by (simp add: BM_inv_def)
  have "m_tUserAllocChunkCnt (m_pstHead st') = u64_sub (length (live bs)) 1"
    using c by (simp add: st'_def BM_Free_def InterFree_def INVALID_HANDLE_def Let_def set_head_def)
  then have d: "m_tUserAllocChunkCnt (m_pstHead st') + 1 = length (live bs)"
    using BM_inv_bounds [OF assms(1)] assms(2) by (cases "live bs") simp_all
  then have "\<not> BM_inv st' bs" by (auto simp: BM_inv_def)
  with e d show ?thesis by blast
qed

theorem Free_invalid_counts_witness:
  "\<exists>st bs. BM_inv st bs \<and> live bs \<noteq> [] \<and> (\<exists>st'. BM_Free INVALID_HANDLE st = (0, st')
     \<and> m_tUserAllocChunkCnt (m_pstHead st') + 1 = length (live bs) \<and> \<not> BM_inv st' bs)"
proof -
  obtain st bs p n where s: "BM_inv st bs" "(p, n, True) \<in> set bs" using ex_one_block by blast
  then have "live bs \<noteq> []" using live_nil_tiling by blast
  with Free_invalid_counts [OF s(1)] s(1) show ?thesis by blast
qed

end
