(* ===== verification/Bin_Malloc_ReAlloc.thy ===== *)
theory Bin_Malloc_ReAlloc
  imports Bin_Malloc_Correct
begin

text \<open>
  Reallocation.  \<open>InterReAlloc\<close> grows a block in place, into the top, into the free block after
  it or into the one before it, and copies it otherwise; what is left over is cut off and
  freed.  The header of the block is written last, after the rest was freed; the lemmas on
  \<open>relabel\<close> show that it could as well be written first, where the freeing lemmas apply.
\<close>

section \<open>Writing the header of a block that freeing does not look at\<close>

definition relabel :: "handle \<Rightarrow> nat \<Rightarrow> nat \<Rightarrow> CBinMalloc \<Rightarrow> CBinMalloc" where
  "relabel h v w st = set_tPreSize h w (set_tSize h v st)"

lemma relabel_get [simp]:
  "tSize (relabel h v w st) x = (if x = h then v else tSize st x)"
  "tPreSize (relabel h v w st) x = (if x = h then w else tPreSize st x)"
  "hPre (relabel h v w st) x = hPre st x" "hNext (relabel h v w st) x = hNext st x"
  "m_pstHead (relabel h v w st) = m_pstHead st"
  "m_ptBin (relabel h v w st) = m_ptBin st" "frame (relabel h v w st) = frame st"
  by (simp_all add: relabel_def heap_simps set_tSize_def set_tPreSize_def frame_def stats_def old_bins_def)

lemma relabel_bin [simp]:
  "get_bin (relabel h v w st) r = get_bin st r" "bins_ok (relabel h v w st) F = bins_ok st F"
  by (simp_all add: relabel_def heap_simps del: get_bin.simps)

lemma relabel_set:
  "x \<noteq> h \<Longrightarrow> set_tSize x a (relabel h v w st) = relabel h v w (set_tSize x a st)"
  "x \<noteq> h \<Longrightarrow> set_tPreSize x a (relabel h v w st) = relabel h v w (set_tPreSize x a st)"
  "set_hPre x a (relabel h v w st) = relabel h v w (set_hPre x a st)"
  "set_hNext x a (relabel h v w st) = relabel h v w (set_hNext x a st)"
  "set_head f (relabel h v w st) = relabel h v w (set_head f st)"
  "set_bin_next (SBin i) a (relabel h v w st) = relabel h v w (set_bin_next (SBin i) a st)"
  "set_bin_pre (SBin i) a (relabel h v w st) = relabel h v w (set_bin_pre (SBin i) a st)"
  "(relabel h v w st)\<lparr>statMemoryTop := t\<rparr> = relabel h v w (st\<lparr>statMemoryTop := t\<rparr>)"
  by (simp_all add: relabel_def set_tSize_def set_tPreSize_def set_hPre_def set_hNext_def set_head_def
      set_bin_next_def set_bin_pre_def fun_upd_twist fun_eq_iff)

lemma relabel_bins:
  "snd (UnlinkBin (SBin i) a (relabel h v w st)) = relabel h v w (snd (UnlinkBin (SBin i) a st))"
  "snd (LinkBin (SBin i) a (relabel h v w st)) = relabel h v w (snd (LinkBin (SBin i) a st))"
  "SetBinBitMap i (relabel h v w st) = relabel h v w (SetBinBitMap i st)"
  "ClearBinBitMap i (relabel h v w st) = relabel h v w (ClearBinBitMap i st)"
  "EmptyBin (relabel h v w st) i = EmptyBin st i"
  by (simp_all add: UnlinkBin_def LinkBin_def SetBinBitMap_def ClearBinBitMap_def EmptyBin_def relabel_set Let_def
      del: get_bin.simps)

lemma relabel_unlink: "unlink_and_mark i a (relabel h v w st) = relabel h v w (unlink_and_mark i a st)"
  by (simp add: unlink_and_mark_def Let_def relabel_bins)


lemmas relabels = relabel_set relabel_bins relabel_unlink

text \<open>Freeing a block above \<open>h\<close> whose predecessor is in use.\<close>

lemma relabel_InterFree:
  assumes q: "h < q" "odd (tSize st q)" and sz: "24 \<le> CHUNK_SIZE st q"
  shows "InterFree (chunk2mem q) (relabel h v w st)
    = (case InterFree (chunk2mem q) st of (a, b, s) \<Rightarrow> (a, b, relabel h v w s))"
proof -
  let ?R = "relabel h v w"
  have cs: "CHUNK_SIZE (?R st) x = CHUNK_SIZE st x" if "x \<noteq> h" for x st using that by (simp add: CHUNK_SIZE_def)
  have iu: "inuse_bit_at_offset (?R st) x k = inuse_bit_at_offset st x k" if "h < x" for x k st
    using that by (simp add: inuse_bit_at_offset_def)
  have ci: "CheckInuseChunk (?R st) q = CheckInuseChunk st q"
    using q by (simp add: CheckInuseChunk_def cs iu prev_inuse_def AT_TOP_def)
  have prev: "free_combine_prev q k s = (q, k, s)" if "odd (tSize s q)" for s k
    using that by (simp add: free_combine_prev_def prev_inuse_def)
  have next_: "free_combine_next q k (?R s) = map_option (apsnd ?R) (free_combine_next q k s)" for s k
    using q(1) by (simp add: free_combine_next_def Let_def cs iu relabels set_size_at_offset_def set_presize_at_offset_def)
  have head: "note_free_size k (?R s) = ?R (note_free_size k s)" for k s
    by (simp add: note_free_size_def relabels)
  have top: "free_to_top q k (?R s) = ?R (free_to_top q k s)" for k s
    using q(1) by (simp add: free_to_top_def Let_def relabels head)
  have bin: "free_to_bin q k (?R s) = ?R (free_to_bin q k s)" for k s
    using q(1) by (simp add: free_to_bin_def Let_def relabels clear_inuse_bit_at_offset_def)
  have marks: "set_size_at_offset q k n (?R s) = ?R (set_size_at_offset q k n s)"
    "set_presize_at_offset q k n (?R s) = ?R (set_presize_at_offset q k n s)"
    "set_inuse_bit_at_offset q k (?R s) = ?R (set_inuse_bit_at_offset q k s)" for k n s
    using q(1) by (simp_all add: set_size_at_offset_def set_presize_at_offset_def set_inuse_bit_at_offset_def relabels)
  have "\<not> chunk2mem q < 8" "mem2chunk (chunk2mem q) = q" by (simp_all add: chunk2mem_def mem2chunk_def)
  moreover have "Ptr2Handle (?R s) x = Ptr2Handle s x" for s x by (simp add: Ptr2Handle_def split: option.split)
  moreover have "Ptr2Handle st (Some q) \<noteq> q \<Longrightarrow> Ptr2Handle st (Some q) = INVALID_HANDLE" by (simp add: Ptr2Handle_def split: if_splits)
  ultimately show ?thesis
  proof (cases "Ptr2Handle st (Some q) = q")
    case True
    show ?thesis
      using q cs iu ci prev [of st] prev [of "?R st"] next_ head top bin marks True
        \<open>\<not> chunk2mem q < 8\<close> \<open>mem2chunk (chunk2mem q) = q\<close> \<open>\<And>s x. Ptr2Handle (?R s) x = Ptr2Handle s x\<close>
      by (simp add: InterFree_def Let_def split: option.split prod.split)
  next
    case False
    then have "memSize st \<le> q" by (auto simp: Ptr2Handle_def split: if_splits)
    then show ?thesis by (simp add: InterFree_def chunk2mem_def)
  qed
qed

section \<open>The tail: cutting off the rest and writing the header\<close>

text \<open>A segment in which the block at \<open>h\<close>, \<open>n\<close> bytes long, has no valid header yet.\<close>

definition gap_inv :: "CBinMalloc \<Rightarrow> block list \<Rightarrow> handle \<Rightarrow> nat \<Rightarrow> block list \<Rightarrow> bool" where
  "gap_inv st xs h n ys \<longleftrightarrow> seg st (hBottom st) xs h \<and> seg st (h + n) ys (hTop st)
     \<and> bins_ok st (free_of xs \<union> free_of ys) \<and> 8 dvd hBottom st \<and> 0 < hBottom st \<and> odd (tSize st (hBottom st))
     \<and> tSize st (hTop st) = 1 \<and> hTop st + MINSIZE \<le> memSize st"

lemma gap_of_block:
  assumes "heap_inv st (xs @ (h, n, True) # ys)"
  shows "gap_inv st xs h n ys"
  using assms by (auto simp: gap_inv_def heap_inv_def seg_inv_def seg_append)

text \<open>Filling the gap with blocks whose headers were written.\<close>

lemma gap_fill:
  assumes g: "gap_inv st xs h n ys" and mid: "seg st' h mid (h + n)" and n: "0 < n"
    and hd: "hTop st' = hTop st" "frame st' = frame st" and b: "bins_ok st' F = bins_ok st F" "F = free_of xs \<union> free_of ys" "free_of mid = {}"
    and tS: "\<And>x. x < h \<or> h + n < x \<Longrightarrow> tSize st' x = tSize st x" "tSize st' (h + n) = or1 (tSize st (h + n))"
      "odd (tSize st' h) = odd (tSize st h)"
    and tP: "\<And>x. x \<le> h \<or> h + n < x \<Longrightarrow> tPreSize st' x = tPreSize st x"
  shows "heap_inv st' (xs @ mid @ ys)"
proof -
  have a: "seg st (hBottom st) xs h" "seg st (h + n) ys (hTop st)" and top: "tSize st (hTop st) = 1"
    using g by (auto simp: gap_inv_def)
  note le = seg_le [OF a(1)] seg_le [OF a(2)]
  have cs: "CHUNK_SIZE st' x = CHUNK_SIZE st x" if "x < h \<or> h + n \<le> x" for x
  proof (cases "x = h + n")
    case True
    then show ?thesis using tS(2) by (simp add: CHUNK_SIZE_def REAL_SIZE_def)
  qed (use that tS(1) [of x] in \<open>auto simp: CHUNK_SIZE_def\<close>)
  have od: "odd (tSize st' x) = odd (tSize st x) \<and> tPreSize st' x = tPreSize st x" if "x \<le> h \<or> h + n < x" for x
    using that tS(1) [of x] tS(3) tP [of x] by (cases "x = h") auto
  have "seg st' (hBottom st) (xs @ mid @ ys) (hTop st)"
    by (rule seg_replace [OF a mid]) (use cs od in auto)
  moreover have "odd (tSize st' (hBottom st))"
    using od [of "hBottom st"] le(1) g by (simp add: gap_inv_def)
  moreover have "tSize st' (hTop st) = 1"
    using tS(1,2) top le(2) n by (cases "hTop st = h + n") (auto simp: or1_def)
  ultimately show ?thesis
    using g hd b frame_eqD [OF hd(2)] by (simp add: heap_inv_def seg_inv_def gap_inv_def Un_assoc)
qed

lemma or1_even: "even n \<Longrightarrow> or1 n = Suc n" and odd_or1: "odd (or1 n)"
  by (simp_all add: or1_def)

lemma block_header:
  assumes "size_ok n"
  shows "odd (if b then or1 (u32 (REAL_SIZE n)) else u32 (REAL_SIZE n)) = b"
    "REAL_SIZE (if b then or1 (u32 (REAL_SIZE n)) else u32 (REAL_SIZE n)) = n"
proof -
  have e: "REAL_SIZE n = n" "u32 n = n" "even n" using size_ok_dvd [OF assms] size_ok_lt32 [OF assms] even_if_8dvd
    by (auto simp: REAL_SIZE_def)
  then show "odd (if b then or1 (u32 (REAL_SIZE n)) else u32 (REAL_SIZE n)) = b"
    "REAL_SIZE (if b then or1 (u32 (REAL_SIZE n)) else u32 (REAL_SIZE n)) = n"
    using size_ok_dvd [OF assms] by (simp_all add: REAL_SIZE_def or1_def)
qed

definition piece_header :: "handle \<Rightarrow> nat \<Rightarrow> CBinMalloc \<Rightarrow> CBinMalloc" where
  "piece_header q n st = (let st1 = set_tSize q (or1 (REAL_SIZE n)) st;
     nx = q + REAL_SIZE n; st2 = set_tPreSize nx (REAL_SIZE n) st1;
     st3 = set_tSize nx (or1 (tSize st2 nx)) st2 in set_inuse_bit_at_offset q n st3)"

lemma realloc_free_piece_header:
  "realloc_free_piece q n st = snd (snd (InterFree (Ptr2Handle (piece_header q n st) (Some (chunk2mem q))) (piece_header q n st)))"
  by (simp add: realloc_free_piece_def piece_header_def Let_def)

lemma piece_header_get:
  assumes "size_ok n"
  shows "tSize (piece_header q n st) x = (if x = q then Suc n else if x = q + n then or1 (tSize st x) else tSize st x)"
    "tPreSize (piece_header q n st) x = (if x = q + n then n else tPreSize st x)"
    "m_pstHead (piece_header q n st) = m_pstHead st" "frame (piece_header q n st) = frame st"
    "bins_ok (piece_header q n st) F = bins_ok st F"
proof -
  have n: "REAL_SIZE n = n" "even n" "0 < n" using size_ok_dvd [OF assms] even_if_8dvd size_ok_pos [OF assms] by (auto simp: REAL_SIZE_def)
  show "tSize (piece_header q n st) x = (if x = q then Suc n else if x = q + n then or1 (tSize st x) else tSize st x)"
    using n by (simp add: piece_header_def Let_def set_inuse_bit_at_offset_def heap_simps or1_def)
  show "tPreSize (piece_header q n st) x = (if x = q + n then n else tPreSize st x)"
    "m_pstHead (piece_header q n st) = m_pstHead st" "frame (piece_header q n st) = frame st"
    "bins_ok (piece_header q n st) F = bins_ok st F"
    using n by (simp_all add: piece_header_def Let_def set_inuse_bit_at_offset_def heap_simps)
qed

lemma finish_inv:
  assumes g: "gap_inv st xs h n ys"
    and sz: "size_ok sz" "sz \<le> n" "8 dvd n" "n \<le> MAX_ALLOC_SIZE" and min: "MINSIZE \<le> GetMinChunkSize st"
    and pre: "b = prev_inuse st h" "w = tPreSize st h"
  shows "\<exists>st' bs' k. realloc_finish h n sz b w st = (chunk2mem h, st') \<and> heap_inv st' bs'
     \<and> live bs' = live xs @ (h, k, True) # live ys \<and> sz \<le> k \<and> frame st' = frame st"
proof -
  have nok: "size_ok n" using sz by (simp add: size_ok_def)
  note pos = size_ok_pos [OF sz(1)] size_ok_pos [OF nok]
  have hi: "h + n \<le> hTop st" "hTop st + 24 \<le> memSize st" using g seg_le by (auto simp: gap_inv_def MINSIZE_def)
  show ?thesis
  proof (cases "GetMinChunkSize st \<le> n - sz")
    case False
    let ?v = "if b then or1 (u32 (REAL_SIZE n)) else u32 (REAL_SIZE n)"
    let ?s1 = "set_tSize (h + n) (or1 (tSize st (h + n))) st"
    let ?st = "relabel h ?v w ?s1"
    have "REAL_SIZE n = n" using sz(3) by (simp add: REAL_SIZE_def)
    then have e: "realloc_finish h n sz b w st = (chunk2mem h, ?st)"
      using False hi pos by (simp add: realloc_finish_def Let_def relabel_def Ptr2Handle_def chunk2mem_def heap_simps)
    note v = block_header [OF nok, of b]
    have "heap_inv ?st (xs @ [(h, n, True)] @ ys)"
    proof (rule gap_fill [OF g])
      show "seg ?st h [(h, n, True)] (h + n)"
        using nok pos v(2) by (simp add: CHUNK_SIZE_def heap_simps odd_or1)
      show "odd (tSize ?st h) = odd (tSize st h)" using v(1) pre by (simp add: prev_inuse_def)
    qed (use pos pre in \<open>auto simp: heap_simps\<close>)
    with e sz(2) show ?thesis by (intro exI [of _ ?st] exI [of _ "xs @ [(h, n, True)] @ ys"] exI [of _ n]) (simp add: heap_simps)
  next
    case True
    let ?rem = "n - sz" and ?q = "h + sz" and ?v = "if b then or1 (u32 (REAL_SIZE sz)) else u32 (REAL_SIZE sz)"
    have rok: "size_ok ?rem" using sz True min size_ok_dvd [OF sz(1)] by (auto simp: size_ok_def dvd_diff_nat)
    note rp = size_ok_pos [OF rok] and v = block_header [OF sz(1), of b] and ph = piece_header_get [OF rok]
    let ?s4 = "piece_header ?q ?rem st"
    let ?R = "relabel h ?v w"
    have "realloc_piece ?rem = ?rem" using rok size_ok_lt32 [OF rok] by (simp add: realloc_piece_def size_ok_def)
    moreover have "REAL_SIZE ?rem = ?rem" using size_ok_dvd [OF rok] by (simp add: REAL_SIZE_def)
    ultimately have "realloc_split ?rem ?q st = realloc_free_piece ?q ?rem st" by (subst realloc_split.simps) (simp add: Let_def)
    moreover have p: "Ptr2Handle ?s4 (Some (chunk2mem ?q)) = chunk2mem ?q"
      using hi sz(2) rp ph(3) by (simp add: Ptr2Handle_def chunk2mem_def)
    ultimately have sp: "realloc_split ?rem ?q st = snd (snd (InterFree (chunk2mem ?q) ?s4))"
      by (simp add: realloc_free_piece_header del: realloc_split.simps)
    have "InterFree (chunk2mem ?q) (?R ?s4) = (case InterFree (chunk2mem ?q) ?s4 of (a, b, s) \<Rightarrow> (a, b, ?R s))"
    proof (rule relabel_InterFree)
      have "even ?rem" using size_ok_dvd [OF rok] even_if_8dvd by blast
      then show "odd (tSize ?s4 ?q)" by (simp add: ph(1))
      show "24 \<le> CHUNK_SIZE ?s4 ?q"
        using size_ok_dvd [OF rok] rp by (simp add: CHUNK_SIZE_def ph(1) REAL_SIZE_def)
    qed (use pos in simp)
    then have c: "?R (realloc_split ?rem ?q st) = snd (snd (InterFree (chunk2mem ?q) (?R ?s4)))"
      unfolding sp by (simp add: case_prod_beta del: realloc_split.simps)
    have "heap_inv (?R ?s4) (xs @ [(h, sz, True), (?q, ?rem, True)] @ ys)"
    proof (rule gap_fill [OF g])
      have "even ?rem" using size_ok_dvd [OF rok] even_if_8dvd by blast
      moreover have "REAL_SIZE (Suc ?rem) = ?rem" using size_ok_dvd [OF rok] by (simp add: REAL_SIZE_def)
      ultimately show "seg (?R ?s4) h [(h, sz, True), (?q, ?rem, True)] (h + n)"
        using sz rok pos rp v(2) by (simp add: CHUNK_SIZE_def ph odd_or1)
      show "odd (tSize (?R ?s4) h) = odd (tSize st h)" using v(1) pre by (simp add: prev_inuse_def)
    qed (use pos rp sz(2) pre ph in auto)
    then have "heap_inv (?R ?s4) ((xs @ [(h, sz, True)]) @ (?q, ?rem, True) # ys)" by simp
    from InterFree_inv [OF this] obtain bs' st' where
      f: "InterFree (chunk2mem ?q) (?R ?s4) = (0, ?rem, st')" "heap_inv st' bs'"
        "live bs' = live (xs @ [(h, sz, True)]) @ live ys" "frame st' = frame (?R ?s4)" by blast
    have "realloc_finish h n sz b w st = (chunk2mem h, st')"
    proof -
      have "?R (realloc_split ?rem ?q st) = st'" using c f(1) by (simp del: realloc_split.simps)
      moreover have "Ptr2Handle st' (Some (chunk2mem h)) = chunk2mem h"
        using frame_eqD(2) [OF f(4)] hi pos ph(3) by (simp add: Ptr2Handle_def chunk2mem_def)
      ultimately show ?thesis using True sz(2) by (simp add: realloc_finish_def Let_def relabel_def del: realloc_split.simps)
    qed
    with f ph(4) show ?thesis by (intro exI [of _ st'] exI [of _ bs'] exI [of _ sz]) simp
  qed
qed

section \<open>Growing\<close>

text \<open>\<open>UnlinkBin\<close> alone, without the bitmap.\<close>

lemma bins_unlink_raw:
  assumes "bins_ok st F" "functional F" "(a, n) \<in> F"
  shows "bins_ok (snd (UnlinkBin (SBin (bin_index n)) a st)) (F - {(a, n)})"
proof -
  let ?i = "bin_index n" and ?s1 = "snd (UnlinkBin (SBin (bin_index n)) a st)"
  let ?s2 = "unlink_and_mark ?i a st"
  have ok: "bins_ok ?s2 (F - {(a, n)})" by (rule bins_unlink [OF assms])
  have len: "length (m_auiBinBitMap (m_pstHead ?s1)) = 4" using assms(1) by (simp add: bins_ok_def heap_simps)
  have d: "dll ?s2 r ys = dll ?s1 r ys" for r ys
    by (rule dll_cong) (simp_all add: unlink_and_mark_def Let_def heap_simps)
  have "bin_bit (m_pstHead ?s1) j" if "bin_bit (m_pstHead ?s2) j" "j < NBINS" for j
  proof (cases "EmptyBin ?s1 ?i")
    case True
    then have "?s2 = ClearBinBitMap ?i ?s1" by (simp add: unlink_and_mark_def Let_def)
    moreover have "j div 32 < 4" using that(2) by (simp add: NBINS_def)
    ultimately show ?thesis using that(1) len
      by (cases "j div 32 = ?i div 32") (auto simp: bin_bit_def ClearBinBitMap_def set_head_def bit_simps)
  qed (use that in \<open>simp add: unlink_and_mark_def Let_def\<close>)
  with ok len show ?thesis unfolding bins_ok_def d by blast
qed

lemma seg_same:
  assumes "\<And>x. tSize st' x = tSize st x" "\<And>x. tPreSize st' x = tPreSize st x"
  shows "seg st' a bs e = seg st a bs e"
  using seg_cong [of st a bs e st'] seg_cong [of st' a bs e st] assms by (auto simp: CHUNK_SIZE_def)

text \<open>The free block after the block in use, or before it, becomes part of the gap.\<close>

lemma gap_with_next:
  assumes h: "heap_inv st (xs @ (p, n, True) # (q, m, False) # ys)"
  shows "gap_inv (snd (UnlinkBin (SBin (bin_index m)) q st)) xs p (n + m) ys"
proof -
  let ?s = "snd (UnlinkBin (SBin (bin_index m)) q st)" and ?F = "free_of xs \<union> insert (q, m) (free_of ys)"
  have i: "seg_inv st (xs @ (p, n, True) # (q, m, False) # ys)" and b: "bins_ok st ?F"
    using h by (simp_all add: heap_inv_def)
  have "functional ?F" using seg_inv_functional [OF i] by simp
  then have "bins_ok ?s (?F - {(q, m)})" by (intro bins_unlink_raw b) simp_all
  moreover have "?F - {(q, m)} = free_of xs \<union> free_of ys"
    using seg_inv_not_free [of st "xs @ [(p, n, True)]" q m False ys] i by (force simp: image_iff)
  moreover have "seg ?s a bs e = seg st a bs e" for a bs e by (rule seg_same) (simp_all add: heap_simps)
  ultimately show ?thesis using i by (auto simp: gap_inv_def seg_inv_def seg_append heap_simps add.assoc)
qed

lemma gap_with_prev:
  assumes h: "heap_inv st (xs @ (q, m, False) # (p, n, True) # ys)"
  shows "gap_inv (snd (UnlinkBin (SBin (bin_index m)) q st)) xs q (m + n) ys"
proof -
  let ?s = "snd (UnlinkBin (SBin (bin_index m)) q st)" and ?F = "free_of xs \<union> insert (q, m) (free_of ys)"
  have i: "seg_inv st (xs @ (q, m, False) # (p, n, True) # ys)" and b: "bins_ok st ?F"
    using h by (simp_all add: heap_inv_def)
  have "functional ?F" using seg_inv_functional [OF i] by simp
  then have "bins_ok ?s (?F - {(q, m)})" by (intro bins_unlink_raw b) simp_all
  moreover have "?F - {(q, m)} = free_of xs \<union> free_of ys"
    using seg_inv_not_free [of st xs q m False "(p, n, True) # ys"] i by (force simp: image_iff)
  moreover have "seg ?s a bs e = seg st a bs e" for a bs e by (rule seg_same) (simp_all add: heap_simps)
  ultimately show ?thesis using i by (auto simp: gap_inv_def seg_inv_def seg_append heap_simps add.assoc)
qed

lemma gap_inv_user: "gap_inv (user_memmove d s k st) xs h n ys = gap_inv st xs h n ys"
proof -
  have "seg (user_memmove d s k st) a bs e = seg st a bs e" for a bs e by (rule seg_same) (simp_all add: user_memmove_def)
  moreover have "bins_ok (user_memmove d s k st) F = bins_ok st F" for F
    by (auto elim!: bins_ok_cong simp: user_memmove_def intro: get_bin_cong)
  ultimately show ?thesis by (simp add: gap_inv_def user_memmove_def)
qed

lemma into_top_inv:
  assumes h: "heap_inv st (xs @ [(p, n, True)])" and sz: "size_ok sz" "n < sz"
    and room: "hTop st + (sz - n) + MINSIZE < memSize st"
  shows "\<exists>st'. realloc_into_top p n sz st = (chunk2mem p, st') \<and> heap_inv st' (xs @ [(p, sz, True)]) \<and> frame st' = frame st"
proof -
  let ?st = "snd (realloc_into_top p n sz st)" and ?t = "p + sz"
  have i: "seg st (hBottom st) xs p" "hTop st = p + n" "size_ok n" and b: "bins_ok st (free_of xs)"
    using h by (auto simp: heap_inv_def seg_inv_def seg_append)
  note pos = size_ok_pos [OF i(3)] size_ok_pos [OF sz(1)] and dv = size_ok_dvd [OF sz(1)]
  have R: "REAL_SIZE sz = sz" using dv by (simp add: REAL_SIZE_def)
  have t: "hTop st + (sz - n) = ?t" using i(2) sz(2) by simp
  have tS: "tSize ?st x = (if x = ?t then 1 else if x = p then sz + tSize st p mod 8 else tSize st x)" for x
    using t pos R by (simp add: realloc_into_top_def Let_def heap_simps)
  have tP: "tPreSize ?st x = (if x = ?t then sz else tPreSize st x)" for x
    using t R by (simp add: realloc_into_top_def Let_def heap_simps)
  have hd: "hTop ?st = ?t" "hBottom ?st = hBottom st" "memSize ?st = memSize st" "frame ?st = frame st"
    using t by (simp_all add: realloc_into_top_def Let_def heap_simps frame_def stats_def old_bins_def set_head_def
        set_tSize_def set_tPreSize_def)
  have od: "odd (tSize ?st p) = odd (tSize st p)" using pos mask8_bits(2) [OF dv] by (simp only: tS) simp
  have s1: "seg ?st (hBottom st) xs p"
  proof (rule seg_cong [OF i(1)])
    fix x
    show "hBottom st \<le> x \<Longrightarrow> x < p \<Longrightarrow> CHUNK_SIZE ?st x = CHUNK_SIZE st x" using pos by (simp add: CHUNK_SIZE_def tS)
    show "hBottom st < x \<Longrightarrow> x \<le> p \<Longrightarrow> odd (tSize ?st x) = odd (tSize st x) \<and> tPreSize ?st x = tPreSize st x"
      using pos od by (cases "x = p") (simp_all add: tS tP)
  qed
  have cp: "CHUNK_SIZE ?st p = sz" using pos mask8_bits(1) [OF dv] by (simp add: CHUNK_SIZE_def REAL_SIZE_def tS)
  have "seg ?st (hBottom st) (xs @ [(p, sz, True)]) ?t" using s1 cp sz(1) by (auto simp: seg_append tS tP)
  moreover have "odd (tSize ?st (hBottom st))"
    using h od seg_le [OF i(1)] pos by (cases "hBottom st = p") (auto simp: heap_inv_def seg_inv_def tS)
  moreover have "tSize ?st ?t = 1" using tS [of ?t] by simp
  moreover have "bins_ok ?st (free_of xs)"
  proof (rule bins_ok_cong [OF b])
    show "get_bin ?st r = get_bin st r" for r
      by (rule get_bin_cong) (simp_all add: realloc_into_top_def Let_def set_head_def set_tSize_def set_tPreSize_def)
  qed (simp_all add: realloc_into_top_def Let_def heap_simps set_tSize_def set_tPreSize_def set_head_def)
  ultimately have "heap_inv ?st (xs @ [(p, sz, True)])"
    using h room t hd(1-3) by (simp add: heap_inv_def seg_inv_def)
  moreover have "fst (realloc_into_top p n sz st) = chunk2mem p"
    using room i(2) sz(2) t hd(3) pos by (simp add: realloc_into_top_def Let_def Ptr2Handle_def chunk2mem_def MINSIZE_def heap_simps)
  ultimately show ?thesis using hd(4) by (intro exI [of _ ?st]) (simp add: prod_eq_iff)
qed

section \<open>InterReAlloc\<close>

text \<open>
  The outcome: either nothing changed, or the block at \<open>p\<close> of \<open>n\<close> bytes is now one at \<open>q\<close> of at
  least \<open>sz\<close> bytes with the payload of the old one, the other blocks and their payload as before.
\<close>

definition moved :: "CBinMalloc \<Rightarrow> block list \<Rightarrow> handle \<Rightarrow> nat \<Rightarrow> nat \<Rightarrow> handle \<Rightarrow> CBinMalloc \<Rightarrow> bool" where
  "moved st bs p n sz h st' \<longleftrightarrow> frame (st'\<lparr>m_user := m_user st\<rparr>) = frame st
     \<and> (h = INVALID_HANDLE \<and> heap_inv st' bs \<and> m_user st' = m_user st
        \<or> (\<exists>bs0 bs' q k. h = chunk2mem q \<and> heap_inv st' bs' \<and> allocated bs0 bs p n \<and> allocated bs0 bs' q k \<and> sz \<le> k
             \<and> (\<forall>i<min n k - 4. m_user st' (chunk2mem q + i) = m_user st (chunk2mem p + i))
             \<and> (\<forall>a. a < chunk2mem q \<or> chunk2mem q + (k - 4) \<le> a \<longrightarrow> m_user st' a = m_user st a)))"

lemma frame_user:
  "frame st' = frame (user_memmove d s k st) \<Longrightarrow> frame (st'\<lparr>m_user := m_user st\<rparr>) = frame st \<and> m_user st' = m_user (user_memmove d s k st)"
  "frame st' = frame st \<Longrightarrow> frame (st'\<lparr>m_user := m_user st\<rparr>) = frame st \<and> m_user st' = m_user st"
  by (simp_all add: frame_def stats_def old_bins_def user_memmove_def)

lemma moved_in_place:
  assumes "frame st' = frame st" "heap_inv st' bs'" "sz \<le> k"
    and "live bs = live xs @ (p, n, True) # live ys" "live bs' = live xs @ (p, k, True) # live ys"
  shows "moved st bs p n sz (chunk2mem p) st'"
proof -
  have "allocated (xs @ ys) bs p n" "allocated (xs @ ys) bs' p k" using assms(4,5) by (auto simp: allocated_def)
  with assms frame_user(2) [OF assms(1)] show ?thesis unfolding moved_def by (metis (no_types, lifting))
qed

lemma live_remove1: "live (remove1 (p, n, True) bs) = remove1 (p, n, True) (live bs)"
  by (induction bs) (auto simp: live_def)

lemma allocated_remove:
  assumes al: "allocated bs bs1 q k" and l: "live bs2 = remove1 (p, n, True) (live bs1)" and ne: "(p, n, True) \<noteq> (q, k, True)"
    and p: "(p, n, True) \<in> set (live bs)"
  shows "allocated (remove1 (p, n, True) bs) bs p n" "allocated (remove1 (p, n, True) bs) bs2 q k"
proof -
  let ?x = "(p, n, True)"
  obtain A B where ab: "live bs = A @ B" "live bs1 = A @ (q, k, True) # B" using al by (auto simp: allocated_def)
  obtain C D where cd: "live bs = C @ ?x # D" "?x \<notin> set C" using p split_list_first by metis
  then have "remove1 ?x (live bs) = C @ D" by (simp add: remove1_append)
  then show "allocated (remove1 ?x bs) bs p n" using cd(1) by (auto simp: allocated_def live_remove1)
  have "remove1 ?x (A @ B) = (if ?x \<in> set A then remove1 ?x A else A) @ (if ?x \<in> set A then B else remove1 ?x B)"
    "remove1 ?x (A @ (q, k, True) # B) = (if ?x \<in> set A then remove1 ?x A else A) @ (q, k, True) # (if ?x \<in> set A then B else remove1 ?x B)"
    using ne by (auto simp: remove1_append)
  then show "allocated (remove1 ?x bs) bs2 q k" unfolding allocated_def live_remove1 l ab by blast
qed

lemma copy_inv:
  assumes h: "heap_inv st (xs @ (p, n, True) # ys)" and min: "MINSIZE \<le> GetMinChunkSize st"
    and rq: "\<not> REQUEST_OUT_OF_RANGE req" "n < request2size req"
  shows "\<exists>nh st'. realloc_by_copy p n req st = Some (nh, st') \<and> moved st (xs @ (p, n, True) # ys) p n (request2size req) nh st'"
proof -
  let ?bs = "xs @ (p, n, True) # ys" and ?sz = "request2size req"
  have n: "size_ok n" using h seg_inv_block(6) [of st ?bs p n True] by (simp add: heap_inv_def)
  then have n4: "chunksize2memsize n = n - 4" using size_ok_lt32 [OF n] size_ok_pos [OF n] by (simp add: chunksize2memsize_def)
  from InterMalloc_inv [OF h min rq(1)] obtain nh st1 where
    e: "InterMalloc req st = Some (nh, st1)" and f1: "frame st1 = frame st"
    and c: "nh = INVALID_HANDLE \<and> heap_inv st1 ?bs \<or>
      (\<exists>bs1 q k. nh = chunk2mem q \<and> heap_inv st1 bs1 \<and> allocated ?bs bs1 q k \<and> ?sz \<le> k)" unfolding malloc_ok_def by blast
  from c show ?thesis
  proof
    assume "nh = INVALID_HANDLE \<and> heap_inv st1 ?bs"
    then show ?thesis using e frame_user(2) [OF f1] by (auto simp: realloc_by_copy_def moved_def)
  next
    assume "\<exists>bs1 q k. nh = chunk2mem q \<and> heap_inv st1 bs1 \<and> allocated ?bs bs1 q k \<and> ?sz \<le> k"
    then obtain bs1 q k where q: "nh = chunk2mem q" "heap_inv st1 bs1" "allocated ?bs bs1 q k" "?sz \<le> k" by blast
    have pin: "(p, n, True) \<in> set (live ?bs)" by simp
    have ne: "(p, n, True) \<noteq> (q, k, True)" using q(4) rq(2) by auto
    have "set (live ?bs) \<subseteq> set (live bs1)" using q(3) unfolding allocated_def by (elim exE conjE) (simp only: set_append list.set, blast)
    then have p1: "(p, n, True) \<in> set bs1" using pin by (auto simp: live_def)
    obtain us vs where uv: "bs1 = us @ (p, n, True) # vs" using p1 by (auto simp: in_set_conv_decomp)
    let ?s2 = "user_memmove (chunk2mem q) (chunk2mem p) (chunksize2memsize n) st1"
    have "heap_inv ?s2 bs1" by (rule heap_inv_cong [OF q(2)]) (simp_all add: user_memmove_def)
    from InterFree_inv [OF this [unfolded uv]] obtain bs2 st2 where
      fr: "InterFree (chunk2mem p) ?s2 = (0, n, st2)" "heap_inv st2 bs2" "live bs2 = live us @ live vs" "frame st2 = frame ?s2" by blast
    have "distinct (map fst bs1)" using q(2) seg_distinct by (auto simp: heap_inv_def seg_inv_def)
    then have "(p, n, True) \<notin> set us" using uv by force
    then have "live bs2 = remove1 (p, n, True) (live bs1)" unfolding uv fr(3) by (simp add: remove1_append live_def)
    note al = allocated_remove [OF q(3) this ne pin]
    have "realloc_by_copy p n req st = Some (chunk2mem q, st2)"
      using e q(1) fr(1) by (simp add: realloc_by_copy_def chunk2mem_def mem2chunk_def INVALID_HANDLE_def Let_def)
    moreover have "moved st ?bs p n ?sz (chunk2mem q) st2"
    proof -
      have u: "m_user st1 = m_user st" using frame_user(2) [OF f1] by simp
      note fu = frame_user(1) [OF fr(4)]
      have "frame (st2\<lparr>m_user := m_user st\<rparr>) = frame st" using fu f1 u by simp
      moreover have "m_user st2 (chunk2mem q + i) = m_user st (chunk2mem p + i)" if "i < min n k - 4" for i
        using fu that n4 u size_ok_pos [OF n] by (auto simp: user_memmove_def)
      moreover have "m_user st2 a = m_user st a" if "a < chunk2mem q \<or> chunk2mem q + (k - 4) \<le> a" for a
        using fu that n4 u q(4) rq(2) by (auto simp: user_memmove_def)
      ultimately show ?thesis unfolding moved_def using al fr(2) q(4) by blast
    qed
    ultimately show ?thesis by blast
  qed
qed

lemma moved_frame:
  assumes "moved st1 bs p n sz h st'" "frame st1 = frame st"
  shows "moved st bs p n sz h st'"
proof -
  have u: "m_user st1 = m_user st" using frame_user(2) [OF assms(2)] by simp
  show ?thesis using assms unfolding moved_def u by simp
qed

lemma grow_inv:
  assumes h: "heap_inv st (xs @ (p, n, True) # ys)" and min: "MINSIZE \<le> GetMinChunkSize st"
    and rq: "\<not> REQUEST_OUT_OF_RANGE req" "n < request2size req" and small: "memSize st \<le> MAX_ALLOC_SIZE"
  shows "\<exists>nh st'. realloc_grow p n (request2size req) req st = Some (nh, st')
     \<and> moved st (xs @ (p, n, True) # ys) p n (request2size req) nh st'"
proof -
  let ?bs = "xs @ (p, n, True) # ys" and ?sz = "request2size req"
  have i: "seg_inv st ?bs" using h by (simp add: heap_inv_def)
  note bp = seg_inv_block [OF i, of p n True]
  have n: "size_ok n" "CHUNK_SIZE st p = n" "p + n \<le> hTop st" using bp by auto
  have sz: "size_ok ?sz" by (rule request2size_ok(1) [OF rq(1)])
  have top: "hTop st + MINSIZE \<le> memSize st" using i by (simp add: seg_inv_def)
  have fit: "k \<le> MAX_ALLOC_SIZE" if "a + k \<le> hTop st" for a k using that top small by simp
  let ?top = "AT_TOP st p n \<and> hTop st + (?sz - n) + MINSIZE < memSize st"
  let ?next = "\<not> AT_TOP st p n \<and> \<not> inuse_bit_at_offset st (p + n) (CHUNK_SIZE st (p + n)) \<and> n + CHUNK_SIZE st (p + n) \<ge> ?sz"
  let ?prev = "\<not> prev_inuse st p \<and> u32 (n + tPreSize st p) \<ge> ?sz"
  consider (top) ?top | (next_) "\<not> ?top" ?next | (prev) "\<not> ?top" "\<not> ?next" ?prev | (copy) "\<not> ?top" "\<not> ?next" "\<not> ?prev" by blast
  then show ?thesis
  proof cases
    case top
    have "ys = []"
    proof (cases ys)
      case (Cons y zs)
      obtain q m v where "y = (q, m, v)" by (cases y)
      with seg_inv_next(2) [OF i Cons [unfolded this]] top show ?thesis by (simp add: AT_TOP_def)
    qed simp
    with h have h': "heap_inv st (xs @ [(p, n, True)])" by simp
    from into_top_inv [OF h' sz rq(2)] top obtain st' where
      t: "realloc_into_top p n ?sz st = (chunk2mem p, st')" "heap_inv st' (xs @ [(p, ?sz, True)])" "frame st' = frame st" by blast
    have "moved st ?bs p n ?sz (chunk2mem p) st'"
      by (rule moved_in_place [OF t(3,2), where xs = xs and ys = ys]) (use \<open>ys = []\<close> in simp_all)
    then show ?thesis using t(1) top n(2) by (simp add: realloc_grow_def Let_def)
  next
    case next_
    have "ys \<noteq> []" using next_(2) seg_inv_next(1) [OF i] by (auto simp: AT_TOP_def)
    then obtain q m v zs where ys: "ys = (q, m, v) # zs" by (cases ys) auto
    have q: "q = p + n" using seg_inv_next(2) [OF i ys] by simp
    have m: "CHUNK_SIZE st q = m" "size_ok m" "q + m \<le> hTop st" "v \<Longrightarrow> odd (tSize st (q + m))"
      using seg_inv_block [OF i, of q m v] ys by auto
    have v: "\<not> v" using next_(2) m(1,4) q by (auto simp: inuse_bit_at_offset_def)
    let ?s = "snd (UnlinkBin (SBin (bin_index m)) q st)"
    have g: "gap_inv ?s xs p (n + m) zs" by (rule gap_with_next) (use h ys v in simp)
    have fr: "frame ?s = frame st" by (simp add: heap_simps)
    have ms: "MINSIZE \<le> GetMinChunkSize ?s" using min GetMinChunkSize_stats [of ?s st] frame_eqD(3) [OF fr] by simp
    have "8 dvd n + m" using size_ok_dvd [OF n(1)] size_ok_dvd [OF m(2)] by simp
    moreover have "n + m \<le> MAX_ALLOC_SIZE" by (rule fit [of p]) (use m(3) q in simp)
    moreover have "?sz \<le> n + m" using next_(2) m(1) q by simp
    ultimately obtain st' bs' k where
      f: "realloc_finish p (n + m) ?sz (prev_inuse st p) (tPreSize st p) ?s = (chunk2mem p, st')" "heap_inv st' bs'"
        "live bs' = live xs @ (p, k, True) # live zs" "?sz \<le> k" "frame st' = frame ?s"
      using finish_inv [OF g sz _ _ _ ms, of "prev_inuse st p" "tPreSize st p"] by (auto simp: prev_inuse_def heap_simps)
    have "moved st ?bs p n ?sz (chunk2mem p) st'"
      by (rule moved_in_place [OF _ f(2,4), where xs = xs and ys = zs]) (use f(3,5) fr ys v in simp_all)
    then show ?thesis using f(1) next_ n(2) m(1) q by (simp add: realloc_grow_def Let_def)
  next
    case prev
    then have "even (tSize st p)" by (simp add: prev_inuse_def)
    from seg_inv_prev [OF i this] obtain zs q m where x: "xs = zs @ [(q, m, False)]" and pq: "p = q + m" and pm: "tPreSize st p = m" .
    have m: "size_ok m" using seg_inv_block(6) [OF i, of q m False] x by simp
    let ?s = "snd (UnlinkBin (SBin (bin_index m)) q st)"
    let ?s1 = "user_memmove (chunk2mem q) (chunk2mem p) (chunksize2memsize n) ?s"
    have n4: "chunksize2memsize n = n - 4" using size_ok_lt32 [OF n(1)] size_ok_pos [OF n(1)] by (simp add: chunksize2memsize_def)
    have fr: "frame ?s = frame st" by (simp add: heap_simps)
    have g: "gap_inv ?s1 zs q (n + m) ys"
      unfolding gap_inv_user using gap_with_prev [of st zs q m p n ys] h x by (simp add: add.commute)
    have "GetMinChunkSize ?s1 = GetMinChunkSize ?s" by (simp add: user_memmove_def GetMinChunkSize_def)
    then have ms: "MINSIZE \<le> GetMinChunkSize ?s1"
      using min GetMinChunkSize_stats [of ?s st] frame_eqD(3) [OF fr] by simp
    have le: "n + m \<le> MAX_ALLOC_SIZE" by (rule fit [of q]) (use n(3) pq in simp)
    then have u: "u32 (n + m) = n + m" by (simp add: MAX_ALLOC_SIZE_def)
    have "8 dvd n + m" using size_ok_dvd [OF n(1)] size_ok_dvd [OF m] by simp
    moreover have "?sz \<le> n + m" using prev(3) pm u by simp
    ultimately obtain st' bs' k where
      f: "realloc_finish q (n + m) ?sz (prev_inuse st q) (tPreSize st q) ?s1 = (chunk2mem q, st')" "heap_inv st' bs'"
        "live bs' = live zs @ (q, k, True) # live ys" "?sz \<le> k" "frame st' = frame ?s1"
      using finish_inv [OF g sz _ _ le ms, of "prev_inuse st q" "tPreSize st q"] by (auto simp: prev_inuse_def heap_simps user_memmove_def)
    have "moved ?s ?bs p n ?sz (chunk2mem q) st'"
    proof -
      note fu = frame_user(1) [OF f(5)]
      have "allocated (zs @ ys) ?bs p n" "allocated (zs @ ys) bs' q k" using x f(3) by (auto simp: allocated_def)
      moreover have "m_user st' (chunk2mem q + j) = m_user ?s (chunk2mem p + j)" if "j < min n k - 4" for j
        using fu that n4 size_ok_pos [OF n(1)] by (auto simp: user_memmove_def)
      moreover have "m_user st' a = m_user ?s a" if "a < chunk2mem q \<or> chunk2mem q + (k - 4) \<le> a" for a
        using fu that n4 f(4) rq(2) by (auto simp: user_memmove_def)
      ultimately show ?thesis unfolding moved_def using fu f(2,4) by blast
    qed
    moreover have "realloc_grow p n ?sz req st = Some (chunk2mem q, st')"
    proof -
      have "p - m = q" using pq by simp
      with f(1) show ?thesis
        unfolding realloc_grow_def Let_def n(2) pm using prev pm by (simp only: if_False if_True simp_thms)
    qed
    ultimately show ?thesis using moved_frame fr by blast
  next
    case copy
    then have "realloc_grow p n ?sz req st = realloc_by_copy p n req st" using n(2) by (auto simp: realloc_grow_def Let_def)
    then show ?thesis using copy_inv [OF h min rq] by simp
  qed
qed

lemma InterReAlloc_inv:
  assumes h: "heap_inv st bs" and mem: "(p, n, True) \<in> set bs" and min: "MINSIZE \<le> GetMinChunkSize st"
    and req: "0 < req" and small: "memSize st \<le> MAX_ALLOC_SIZE"
  shows "\<exists>nh old st'. InterReAlloc (chunk2mem p) req st = Some (nh, old, st') \<and> (nh \<noteq> INVALID_HANDLE \<longrightarrow> old = n)
     \<and> moved st bs p n (if REQUEST_OUT_OF_RANGE req then 0 else request2size req) nh st'"
proof -
  have i: "seg_inv st bs" using h by (simp add: heap_inv_def)
  note b = seg_inv_block [OF i mem]
  note n = size_ok_pos [OF b(6)]
  obtain xs ys where bs: "bs = xs @ (p, n, True) # ys" using mem by (auto simp: in_set_conv_decomp)
  have ok: "chunk2mem p \<noteq> INVALID_HANDLE" "mem2chunk (chunk2mem p) = p" "\<not> (hTop st \<le> chunk2mem p \<or> chunk2mem p \<le> hBottom st)"
    "\<not> misaligned_chunk p" "\<not> n < MINSIZE" "\<not> p + n > hTop st" "CheckInuseChunk st p = 0"
    using b n CheckInuseChunk_ok [OF i mem]
    by (auto simp: chunk2mem_def mem2chunk_def INVALID_HANDLE_def misaligned_chunk_def MINSIZE_def dvd_eq_mod_eq_0)
  show ?thesis
  proof (cases "REQUEST_OUT_OF_RANGE req")
    case True
    then have "InterReAlloc (chunk2mem p) req st = Some (INVALID_HANDLE, 0, st)" using ok(1) req by (simp add: InterReAlloc_def)
    then show ?thesis using h by (simp add: moved_def)
  next
    case False
    let ?sz = "request2size req"
    have sz: "size_ok ?sz" by (rule request2size_ok(1) [OF False])
    have e: "InterReAlloc (chunk2mem p) req st =
      (if n \<ge> ?sz then (case realloc_finish p n ?sz (prev_inuse st p) (tPreSize st p) st of (h, st1) \<Rightarrow> Some (h, n, st1))
       else (case realloc_grow p n ?sz req st of None \<Rightarrow> None | Some (h, st1) \<Rightarrow> Some (h, n, st1)))"
      using ok False req b(7) by (simp add: InterReAlloc_def Let_def split: option.split)
    show ?thesis
    proof (cases "?sz \<le> n")
      case True
      have "n \<le> MAX_ALLOC_SIZE" "8 dvd n" using b(6) by (simp_all add: size_ok_def)
      with finish_inv [OF gap_of_block sz True _ _ min refl refl] h bs obtain st' bs' k where
        f: "realloc_finish p n ?sz (prev_inuse st p) (tPreSize st p) st = (chunk2mem p, st')" "heap_inv st' bs'"
          "live bs' = live xs @ (p, k, True) # live ys" "?sz \<le> k" "frame st' = frame st" by blast
      have "moved st bs p n ?sz (chunk2mem p) st'"
        by (rule moved_in_place [OF f(5,2,4), where xs = xs and ys = ys]) (use bs f(3) in simp_all)
      then show ?thesis using e f(1) True False by auto
    next
      case lt: False
      then obtain nh st' where "realloc_grow p n ?sz req st = Some (nh, st')" "moved st bs p n ?sz nh st'"
        using grow_inv [of st xs p n ys req] h bs min False small by auto
      then show ?thesis using e lt False by auto
    qed
  qed
qed

section \<open>ReAlloc\<close>

text \<open>The accounting: the size of the new block replaces that of the old one.\<close>

lemma BM_ReAlloc_inv:
  assumes inv: "BM_inv st bs" and mem: "(p, n, True) \<in> set bs" and req: "0 < req" and small: "memSize st \<le> MAX_ALLOC_SIZE"
  shows "\<exists>nh st' bs'. BM_ReAlloc (chunk2mem p) req st = Some (nh, st') \<and> BM_inv st' bs' \<and> memSize st' = memSize st
     \<and> (nh = INVALID_HANDLE \<and> bs' = bs \<and> m_user st' = m_user st
        \<or> (\<exists>bs0 q k. nh = chunk2mem q \<and> allocated bs0 bs p n \<and> allocated bs0 bs' q k \<and> req + 8 \<le> k
             \<and> (\<forall>i<min n k - 4. m_user st' (chunk2mem q + i) = m_user st (chunk2mem p + i))
             \<and> (\<forall>a. a < chunk2mem q \<or> chunk2mem q + (k - 4) \<le> a \<longrightarrow> m_user st' a = m_user st a)))"
proof -
  let ?s0 = "set_head (\<lambda>h. h\<lparr>m_tLastFreeChunkSize := 0\<rparr>) st"
  have h0: "heap_inv ?s0 bs" and f0: "frame ?s0 = frame st" using forget_free BM_inv_heap [OF inv] by blast+
  have "stats ?s0 = stats st" using frame_eqD [OF f0] by simp
  then have min: "MINSIZE \<le> GetMinChunkSize ?s0"
    using inv GetMin_of_min [of st] GetMinChunkSize_stats [of ?s0 st] by (simp add: BM_inv_def)
  have "memSize ?s0 \<le> MAX_ALLOC_SIZE" using small by (simp add: set_head_def)
  from InterReAlloc_inv [OF h0 mem min req this] obtain nh old st1 where
    e: "InterReAlloc (chunk2mem p) req ?s0 = Some (nh, old, st1)" and old: "nh \<noteq> INVALID_HANDLE \<longrightarrow> old = n"
    and m: "moved ?s0 bs p n (if REQUEST_OUT_OF_RANGE req then 0 else request2size req) nh st1" by blast
  have u0: "m_user ?s0 = m_user st" by (simp add: set_head_def)
  have f: "frame (st1\<lparr>m_user := m_user st\<rparr>) = frame st" using m f0 unfolding moved_def u0 by simp
  note fd = frame_eqD [OF f] and qf = BM_quiet_frame [OF f]
  have ms: "memSize st1 = memSize st" using fd(2) by simp
  have quiet: "BM_quiet st1 = BM_quiet st" using qf by (simp add: BM_quiet_def)
  show ?thesis
  proof (cases "nh = INVALID_HANDLE")
    case True
    then have hs: "heap_inv st1 bs" "m_user st1 = m_user st" using m unfolding moved_def u0 by (auto simp: chunk2mem_def INVALID_HANDLE_def)
    have "BM_inv st1 bs" using inv hs(1) fd quiet by (simp add: BM_inv_alt)
    moreover have "BM_ReAlloc (chunk2mem p) req st = Some (nh, st1)" using e True req by (simp add: BM_ReAlloc_def)
    ultimately show ?thesis using hs(2) True ms by blast
  next
    case False
    then obtain bs0 bs' q k where q: "nh = chunk2mem q" "heap_inv st1 bs'" "allocated bs0 bs p n" "allocated bs0 bs' q k"
      "(if REQUEST_OUT_OF_RANGE req then 0 else request2size req) \<le> k"
      "\<forall>i<min n k - 4. m_user st1 (chunk2mem q + i) = m_user st (chunk2mem p + i)"
      "\<forall>a. a < chunk2mem q \<or> chunk2mem q + (k - 4) \<le> a \<longrightarrow> m_user st1 a = m_user st a"
      using m unfolding moved_def u0 by blast
    have range: "\<not> REQUEST_OUT_OF_RANGE req"
      using e False req by (auto simp: InterReAlloc_def chunk2mem_def INVALID_HANDLE_def)
    then have k: "req + 8 \<le> k" using q(5) request2size_ok(2) [OF range] by simp
    have mq: "(q, k, True) \<in> set bs'" by (rule allocated_mem [OF q(4)])
    have cs: "CHUNK_SIZE st1 (mem2chunk nh) = k"
      using seg_inv_block(7) [of st1 bs' q k True] q(1,2) mq by (simp add: heap_inv_def chunk2mem_def mem2chunk_def)
    let ?sz = "u64_sub (u64 (m_tUserAllocSize (m_pstHead st1) + k)) n"
    let ?s2 = "set_head (\<lambda>h. h\<lparr>m_tUserAllocSize := u64_sub (u64 (m_tUserAllocSize h + k)) n\<rparr>) st1"
    let ?s4 = "AddAllocSizeToStat req ?s2"
    let ?s5 = "?s4\<lparr>statDataSize := m_tUserAllocSize (m_pstHead ?s4)\<rparr>"
    have r: "BM_ReAlloc (chunk2mem p) req st = Some (nh, ?s5)"
      using e False old cs by (simp add: BM_ReAlloc_def Let_def chunk2mem_def INVALID_HANDLE_def)
    have st: "m_mem ?s5 = m_mem st1" "m_ptBin ?s5 = m_ptBin st1" "m_user ?s5 = m_user st1" "m_pstHead ?s5 = m_pstHead ?s2"
      "m_ptFastBin ?s5 = m_ptFastBin st1" "m_ptUnsortedBin ?s5 = m_ptUnsortedBin st1" "minChunkSize ?s5 = minChunkSize st1"
      by (simp_all add: AddAllocSizeToStat_def set_head_def Let_def)
    have hi: "heap_inv ?s5 bs'" by (rule heap_inv_cong [OF q(2)]) (simp_all add: st, simp_all add: set_head_def)
    have "m_tUserAllocSize (m_pstHead st1) = hBottom st + live_size bs" using fd(4) inv by (simp add: BM_inv_def)
    moreover have ls: "live_size bs = live_size bs0 + n" "live_size bs' = live_size bs0 + k" "length (live bs') = length (live bs)"
      using allocated_size [OF q(3)] allocated_size [OF q(4)] allocated_count [OF q(3)] allocated_count [OF q(4)] by simp_all
    moreover have "k < 2 ^ 32" "hBottom st + live_size bs < 2 ^ 63" "n < 2 ^ 63"
      using seg_inv_block(6) [of st1 bs' q k True] q(2) mq BM_inv_bounds [OF inv] ls(1) size_ok_lt32 by (auto simp: heap_inv_def)
    ultimately have "?sz = hBottom st + live_size bs'" by simp
    then have "BM_inv ?s5 bs'"
      using hi inv fd quiet ls(3) st unfolding BM_inv_def BM_quiet_def by (simp add: set_head_def BM_quiet_def)
    moreover have "memSize ?s5 = memSize st" using ms st(4) by (simp add: set_head_def)
    moreover have "\<forall>i<min n k - 4. m_user ?s5 (chunk2mem q + i) = m_user st (chunk2mem p + i)"
      "\<forall>a. a < chunk2mem q \<or> chunk2mem q + (k - 4) \<le> a \<longrightarrow> m_user ?s5 a = m_user st a" unfolding st(3) by (rule q(6), rule q(7))
    ultimately show ?thesis using r q(1,3,4) k by blast
  qed
qed



end
