(* ===== verification/Chunk_Memory.thy ===== *)
theory Chunk_Memory
  imports Bin_Malloc_ReAlloc
begin

text \<open>
  The abstract class \<open>CMallocator\<close> as the packed rows use it: allocation, reallocation, release,
  the usable size of a chunk, and the bytes behind a handle.  The locale \<open>chunk_memory\<close> is the contract;
  it is interpreted on \<open>CBinMalloc\<close>.
\<close>

record 's CChunkMem =
  cm_Malloc :: "nat \<Rightarrow> 's \<Rightarrow> (handle \<times> 's) option"
  cm_ReAlloc :: "handle \<Rightarrow> nat \<Rightarrow> 's \<Rightarrow> (handle \<times> 's) option"
  cm_Free :: "handle \<Rightarrow> 's \<Rightarrow> int \<times> 's"
  cm_ChunkSize :: "handle \<Rightarrow> 's \<Rightarrow> nat"
  cm_get :: "'s \<Rightarrow> nat \<Rightarrow> nat"
  cm_put :: "nat \<Rightarrow> nat list \<Rightarrow> 's \<Rightarrow> 's"

text \<open>The \<open>n\<close> bytes from \<open>a\<close> on.\<close>

definition get_bytes :: "'s CChunkMem \<Rightarrow> nat \<Rightarrow> nat \<Rightarrow> 's \<Rightarrow> nat list" where
  "get_bytes M a n s = map (cm_get M s) [a..<a + n]"

lemma length_get_bytes [simp]: "length (get_bytes M a n s) = n"
  by (simp add: get_bytes_def)

lemma nth_get_bytes [simp]: "i < n \<Longrightarrow> get_bytes M a n s ! i = cm_get M s (a + i)"
  by (simp add: get_bytes_def)

lemma get_bytes_take: "k \<le> n \<Longrightarrow> take k (get_bytes M a n s) = get_bytes M a k s"
  by (simp add: get_bytes_def take_map)

lemma get_bytes_drop: "k \<le> n \<Longrightarrow> drop k (get_bytes M a n s) = get_bytes M (a + k) (n - k) s"
  by (simp add: get_bytes_def drop_map)

lemma get_bytes_split: "k \<le> n \<Longrightarrow> get_bytes M a n s = get_bytes M a k s @ get_bytes M (a + k) (n - k) s"
  using append_take_drop_id [of k "get_bytes M a n s"] by (simp only: get_bytes_take get_bytes_drop)

text \<open>Overwriting a part of a list.\<close>

definition overwrite :: "nat \<Rightarrow> 'a list \<Rightarrow> 'a list \<Rightarrow> 'a list" where
  "overwrite i ys xs = take i xs @ ys @ drop (i + length ys) xs"

lemma length_overwrite [simp]: "i + length ys \<le> length xs \<Longrightarrow> length (overwrite i ys xs) = length xs"
  by (simp add: overwrite_def)

locale chunk_memory =
  fixes M :: "'s CChunkMem" and ok :: "'s \<Rightarrow> bool" and chunks :: "'s \<Rightarrow> (handle \<times> nat) set"
  assumes cm_malloc: "ok s \<Longrightarrow> \<exists>h s'. cm_Malloc M n s = Some (h, s') \<and> ok s'
      \<and> (h = 0 \<and> chunks s' = chunks s
         \<or> h \<noteq> 0 \<and> (\<exists>k. n \<le> k \<and> h \<notin> fst ` chunks s \<and> chunks s' = insert (h, k) (chunks s)))
      \<and> (\<forall>g j i. (g, j) \<in> chunks s \<longrightarrow> i < j \<longrightarrow> cm_get M s' (g + i) = cm_get M s (g + i))"
    and cm_realloc: "ok s \<Longrightarrow> (h, k) \<in> chunks s \<Longrightarrow> 0 < n \<Longrightarrow> \<exists>h' s'. cm_ReAlloc M h n s = Some (h', s') \<and> ok s'
      \<and> (h' = 0 \<and> chunks s' = chunks s \<and> cm_get M s' = cm_get M s
         \<or> h' \<noteq> 0 \<and> (\<exists>k'. n \<le> k' \<and> h' \<notin> fst ` (chunks s - {(h, k)}) \<and> chunks s' = insert (h', k') (chunks s - {(h, k)})
             \<and> (\<forall>i<min k k'. cm_get M s' (h' + i) = cm_get M s (h + i))
             \<and> (\<forall>g j i. (g, j) \<in> chunks s - {(h, k)} \<longrightarrow> i < j \<longrightarrow> cm_get M s' (g + i) = cm_get M s (g + i))))"
    and cm_free: "ok s \<Longrightarrow> (h, k) \<in> chunks s \<Longrightarrow> \<exists>s'. cm_Free M h s = (0, s') \<and> ok s' \<and> chunks s' = chunks s - {(h, k)}
      \<and> (\<forall>g j i. (g, j) \<in> chunks s - {(h, k)} \<longrightarrow> i < j \<longrightarrow> cm_get M s' (g + i) = cm_get M s (g + i))"
    and cm_size: "ok s \<Longrightarrow> (h, k) \<in> chunks s \<Longrightarrow> cm_ChunkSize M h s = k"
    and cm_handle: "ok s \<Longrightarrow> (h, k) \<in> chunks s \<Longrightarrow> h \<noteq> 0 \<and> k < 2 ^ 32"
    and cm_apart: "ok s \<Longrightarrow> (h, k) \<in> chunks s \<Longrightarrow> (g, j) \<in> chunks s \<Longrightarrow> h \<noteq> g \<Longrightarrow> h + k \<le> g \<or> g + j \<le> h"
    and cm_put_ok: "ok s \<Longrightarrow> (h, k) \<in> chunks s \<Longrightarrow> i + length bs \<le> k \<Longrightarrow> ok (cm_put M (h + i) bs s)"
    and cm_put_chunks: "chunks (cm_put M a bs s) = chunks s"
    and cm_put_nil: "cm_put M a [] s = s"
    and cm_put_put: "cm_put M (a + length xs) ys (cm_put M a xs s) = cm_put M a (xs @ ys) s"
    and cm_get_put: "cm_get M (cm_put M a bs s) x = (if a \<le> x \<and> x < a + length bs then bs ! (x - a) else cm_get M s x)"
begin

lemma get_bytes_put:
  assumes "i + length bs \<le> n"
  shows "get_bytes M a n (cm_put M (a + i) bs s) = overwrite i bs (get_bytes M a n s)"
proof (rule nth_equalityI)
  fix j
  assume "j < length (get_bytes M a n (cm_put M (a + i) bs s))"
  then have j: "j < n" by simp
  show "get_bytes M a n (cm_put M (a + i) bs s) ! j = overwrite i bs (get_bytes M a n s) ! j"
    using assms j by (auto simp: overwrite_def nth_append cm_get_put min_def)
qed (use assms in simp)

text \<open>Growing a chunk keeps its bytes.\<close>

lemma realloc_chunk:
  assumes "ok s" "(h, k) \<in> chunks s" "0 < n"
  obtains s' where "cm_ReAlloc M h n s = Some (0, s')" "ok s'" "chunks s' = chunks s" "cm_get M s' = cm_get M s"
  | h' k' s' where "cm_ReAlloc M h n s = Some (h', s')" "h' \<noteq> 0" "ok s'" "(h', k') \<in> chunks s'" "n \<le> k'"
      "\<And>j. j \<le> k \<Longrightarrow> j \<le> k' \<Longrightarrow> get_bytes M h' j s' = get_bytes M h j s"
proof -
  obtain h' s' where r: "cm_ReAlloc M h n s = Some (h', s')" by (meson cm_realloc [OF assms])
  note law = cm_realloc [OF assms, unfolded r option.inject prod.inject, simplified]
  show ?thesis
  proof (cases "h' = 0")
    case True
    with r law show ?thesis by (intro that(1) [of s']) auto
  next
    case False
    with law obtain k' where k': "n \<le> k'" "chunks s' = insert (h', k') (chunks s - {(h, k)})"
      "\<forall>i. i < k \<and> i < k' \<longrightarrow> cm_get M s' (h' + i) = cm_get M s (h + i)" by auto
    have "get_bytes M h' j s' = get_bytes M h j s" if "j \<le> k" "j \<le> k'" for j
      by (rule nth_equalityI) (use that k'(3) in auto)
    then show ?thesis using r k'(1,2) False law by (intro that(2) [of h' s' k']) auto
  qed
qed

end

section \<open>The segment allocator\<close>

definition user_put :: "nat \<Rightarrow> nat list \<Rightarrow> CBinMalloc \<Rightarrow> CBinMalloc" where
  "user_put a bs st = st\<lparr>m_user := (\<lambda>x. if a \<le> x \<and> x < a + length bs then bs ! (x - a) else m_user st x)\<rparr>"

lemma user_memset_put: "user_memset p c n st = user_put p (replicate n c) st"
proof -
  have "(\<lambda>a. if p \<le> a \<and> a < p + n then c else m_user st a)
      = (\<lambda>x. if p \<le> x \<and> x < p + length (replicate n c) then replicate n c ! (x - p) else m_user st x)"
    by (auto simp: fun_eq_iff)
  then show ?thesis unfolding user_memset_def user_put_def by metis
qed

definition BM_mem :: "CBinMalloc CChunkMem" where
  "BM_mem = \<lparr>cm_Malloc = BM_Malloc, cm_ReAlloc = BM_ReAlloc, cm_Free = BM_Free, cm_ChunkSize = (\<lambda>h st. ChunkSize st h),
     cm_get = m_user, cm_put = user_put\<rparr>"

lemma BM_mem_simps [simp]:
  "cm_Malloc BM_mem = BM_Malloc" "cm_ReAlloc BM_mem = BM_ReAlloc" "cm_Free BM_mem = BM_Free"
  "cm_ChunkSize BM_mem h st = ChunkSize st h" "cm_get BM_mem = m_user" "cm_put BM_mem = user_put"
  by (simp_all add: BM_mem_def)

text \<open>
  A segment no larger than one chunk may be, and its live blocks with the size \<open>ChunkSize\<close> reports: the
  payload runs into the first word of the next chunk, which is unused while the block is allocated.
\<close>

definition BM_sound :: "CBinMalloc \<Rightarrow> bool" where
  "BM_sound st \<longleftrightarrow> BM_ok st \<and> memSize st \<le> MAX_ALLOC_SIZE"

definition BM_chunks :: "CBinMalloc \<Rightarrow> (handle \<times> nat) set" where
  "BM_chunks st = {(h, k). \<exists>bs p n. heap_inv st bs \<and> (p, n, True) \<in> set bs \<and> h = chunk2mem p \<and> k = n - 4}"

lemma BM_chunks_eq:
  assumes "heap_inv st bs"
  shows "BM_chunks st = (\<lambda>(p, n, u). (chunk2mem p, n - 4)) ` set (live bs)"
proof -
  have u: "heap_inv st bs' \<longleftrightarrow> bs' = bs" for bs' using heap_inv_unique assms by blast
  show ?thesis unfolding BM_chunks_def u live_def by (force simp: image_iff)
qed

lemma BM_chunks_allocated:
  assumes "heap_inv st bs" "heap_inv st' bs'" "allocated bs bs' p n"
  shows "BM_chunks st' = insert (chunk2mem p, n - 4) (BM_chunks st)" "chunk2mem p \<notin> fst ` BM_chunks st"
  using live_fresh(1) [OF assms(2,3)]
  by (auto simp: BM_chunks_eq [OF assms(1)] BM_chunks_eq [OF assms(2)] allocated_set [OF assms(3)] chunk2mem_def)

lemma BM_chunksE:
  assumes "BM_sound st" "(h, k) \<in> BM_chunks st"
  obtains bs p n where "BM_inv st bs" "(p, n, True) \<in> set bs" "h = chunk2mem p" "k = n - 4" "24 \<le> n"
proof -
  from assms obtain bs where i: "BM_inv st bs" by (auto simp: BM_sound_def BM_ok_def)
  then have h: "heap_inv st bs" by (rule BM_inv_heap)
  from assms(2) obtain bs' p n where b: "heap_inv st bs'" "(p, n, True) \<in> set bs'" "h = chunk2mem p" "k = n - 4"
    by (auto simp: BM_chunks_def)
  moreover have "bs' = bs" using heap_inv_unique b(1) h by blast
  moreover have "size_ok n" using b(1,2) seg_inv_block(6) by (auto simp: heap_inv_def)
  ultimately show ?thesis using i by (intro that) (auto simp: size_ok_def MINSIZE_def)
qed

lemma frame_same: "frame st' = frame st \<Longrightarrow> m_user st' = m_user st \<and> memSize st' = memSize st"
  by (simp add: frame_def stats_def)

lemma BM_Malloc_keeps:
  assumes inv: "BM_inv st bs" and r: "BM_Malloc req st = Some (h, st')"
  shows "m_user st' = m_user st"
proof -
  let ?s0 = "set_head (\<lambda>h. h\<lparr>m_tLastFreeChunkSize := 0\<rparr>) st"
  have h0: "heap_inv ?s0 bs" and f0: "frame ?s0 = frame st"
    using forget_free BM_inv_heap [OF inv] by blast+
  show ?thesis
  proof (cases "REQUEST_OUT_OF_RANGE req")
    case True
    with r show ?thesis by (auto simp: BM_Malloc_def InterMalloc_def set_head_def)
  next
    case False
    have "stats ?s0 = stats st" using frame_eqD [OF f0] by simp
    then have "MINSIZE \<le> GetMinChunkSize ?s0"
      using inv GetMin_of_min [of st] GetMinChunkSize_stats [of ?s0 st] by (simp add: BM_inv_def)
    from InterMalloc_inv [OF h0 this False] obtain g st1
      where e: "InterMalloc req ?s0 = Some (g, st1)" and f1: "frame st1 = frame ?s0"
      unfolding malloc_ok_def by blast
    have "m_user st1 = m_user st" using frame_same [of st1 st] f0 f1 by simp
    with r e show ?thesis by (auto simp: BM_Malloc_def account_alloc_simps split: if_splits)
  qed
qed

lemma BM_Free_keeps:
  assumes inv: "BM_inv st bs" and mem: "(p, n, True) \<in> set bs"
  shows "m_user (snd (BM_Free (chunk2mem p) st)) = m_user st" "memSize (snd (BM_Free (chunk2mem p) st)) = memSize st"
proof -
  obtain xs ys where bs: "bs = xs @ (p, n, True) # ys" using mem by (auto simp: in_set_conv_decomp)
  obtain bs' st1 where e: "InterFree (chunk2mem p) st = (0, n, st1)" and f: "frame st1 = frame st"
    using InterFree_inv [of st xs p n ys] BM_inv_heap [OF inv] bs by blast
  show "m_user (snd (BM_Free (chunk2mem p) st)) = m_user st" "memSize (snd (BM_Free (chunk2mem p) st)) = memSize st"
    using e frame_same [OF f] by (simp_all add: BM_Free_def Let_def set_head_def)
qed

lemma BM_sound_user: "BM_sound st \<Longrightarrow> BM_sound (user_put a bs st)"
  and BM_chunks_user: "BM_chunks (user_put a bs st) = BM_chunks st"
proof -
  have h: "heap_inv (user_put a bs st) xs \<longleftrightarrow> heap_inv st xs" for xs
    by (rule iffI; erule heap_inv_cong) (simp_all add: user_put_def)
  then show "BM_chunks (user_put a bs st) = BM_chunks st" by (simp add: BM_chunks_def)
  have "BM_inv (user_put a bs st) xs \<longleftrightarrow> BM_inv st xs" for xs
    unfolding BM_inv_def h by (simp add: user_put_def)
  moreover have "memSize (user_put a bs st) = memSize st" by (simp add: user_put_def)
  ultimately show "BM_sound st \<Longrightarrow> BM_sound (user_put a bs st)"
    by (simp add: BM_sound_def BM_ok_def)
qed

lemma user_put_laws:
  "user_put a [] st = st" "user_put (a + length xs) ys (user_put a xs st) = user_put a (xs @ ys) st"
proof -
  have "(\<lambda>x. if a \<le> x \<and> x < a + length [] then [] ! (x - a) else m_user st x) = m_user st" by auto
  then show "user_put a [] st = st" unfolding user_put_def by simp
  have "user_put (a + length xs) ys (user_put a xs st) = st\<lparr>m_user := m_user (user_put (a + length xs) ys (user_put a xs st))\<rparr>"
    "user_put a (xs @ ys) st = st\<lparr>m_user := m_user (user_put a (xs @ ys) st)\<rparr>" by (simp_all add: user_put_def)
  moreover have "m_user (user_put (a + length xs) ys (user_put a xs st)) = m_user (user_put a (xs @ ys) st)"
    by (auto simp: user_put_def nth_append fun_eq_iff)
  ultimately show "user_put (a + length xs) ys (user_put a xs st) = user_put a (xs @ ys) st" by metis
qed

lemma ChunkSize_chunk:
  assumes "BM_sound st" "(h, k) \<in> BM_chunks st"
  shows "ChunkSize st h = k" "h \<noteq> 0" "k < 2 ^ 32"
proof -
  from assms obtain bs p n where b: "BM_inv st bs" "(p, n, True) \<in> set bs" "h = chunk2mem p" "k = n - 4" "24 \<le> n"
    by (rule BM_chunksE)
  have s: "seg_inv st bs" using BM_inv_heap [OF b(1)] by (simp add: heap_inv_def)
  note sb = seg_inv_block [OF s b(2)]
  have n: "n < 2 ^ 32" using sb(5) assms(1) by (simp add: BM_sound_def MAX_ALLOC_SIZE_def)
  then show "k < 2 ^ 32" "h \<noteq> 0" using b(3,4) by (simp_all add: chunk2mem_def)
  show "ChunkSize st h = k" using CheckInuseChunk_ok [OF s b(2)] sb n b(3-5)
    by (simp add: ChunkSize_def chunk2mem_def mem2chunk_def chunksize2memsize_def)
qed

lemma BM_chunks_apart:
  assumes s: "BM_sound s" and m: "(h, k) \<in> BM_chunks s" "(g, j) \<in> BM_chunks s" and ne: "h \<noteq> g"
  shows "h + k \<le> g \<or> g + j \<le> h"
proof -
  from s m(1) obtain bs p n where p: "BM_inv s bs" "(p, n, True) \<in> set bs" "h = chunk2mem p" "k = n - 4" "24 \<le> n"
    by (rule BM_chunksE)
  from s m(2) obtain bs' q l where q: "BM_inv s bs'" "(q, l, True) \<in> set bs'" "g = chunk2mem q" "j = l - 4" "24 \<le> l"
    by (rule BM_chunksE)
  have "bs' = bs" using heap_inv_unique BM_inv_heap p(1) q(1) by blast
  moreover have "seg s (hBottom s) bs (hTop s)" using BM_inv_heap [OF p(1)] by (simp add: heap_inv_def seg_inv_def)
  ultimately have "p < q \<Longrightarrow> p + n \<le> q" "q < p \<Longrightarrow> q + l \<le> p" using seg_disjoint p(2) q(2) by blast+
  then show ?thesis using ne p(3-5) q(3-5) by (cases "p < q") (auto simp: chunk2mem_def)
qed

lemma BM_ReAlloc_chunks:
  assumes b: "BM_inv s bs" "(p, l, True) \<in> set bs" "h = chunk2mem p" "k = l - 4" "24 \<le> l"
    and n: "0 < n" and small: "memSize s \<le> MAX_ALLOC_SIZE"
  shows "\<exists>h' s'. BM_ReAlloc h n s = Some (h', s') \<and> BM_sound s'
      \<and> (h' = 0 \<and> BM_chunks s' = BM_chunks s \<and> m_user s' = m_user s
         \<or> h' \<noteq> 0 \<and> (\<exists>k'. n \<le> k' \<and> h' \<notin> fst ` (BM_chunks s - {(h, k)}) \<and> BM_chunks s' = insert (h', k') (BM_chunks s - {(h, k)})
             \<and> (\<forall>i<min k k'. m_user s' (h' + i) = m_user s (h + i))
             \<and> (\<forall>g j i. (g, j) \<in> BM_chunks s - {(h, k)} \<longrightarrow> i < j \<longrightarrow> m_user s' (g + i) = m_user s (g + i))))"
proof -
  note hs = BM_inv_heap [OF b(1)]
  from BM_ReAlloc_inv [OF b(1,2) n small] obtain nh s' bs' where
    r: "BM_ReAlloc (chunk2mem p) n s = Some (nh, s')" "BM_inv s' bs'" "memSize s' = memSize s" and
    c: "nh = INVALID_HANDLE \<and> bs' = bs \<and> m_user s' = m_user s
        \<or> (\<exists>bs0 q k. nh = chunk2mem q \<and> allocated bs0 bs p l \<and> allocated bs0 bs' q k \<and> n + 8 \<le> k
             \<and> (\<forall>i<min l k - 4. m_user s' (chunk2mem q + i) = m_user s (chunk2mem p + i))
             \<and> (\<forall>a. a < chunk2mem q \<or> chunk2mem q + (k - 4) \<le> a \<longrightarrow> m_user s' a = m_user s a))" by metis
  have ok: "BM_sound s'" using r small by (auto simp: BM_sound_def BM_ok_def)
  note hs' = BM_inv_heap [OF r(2)]
  from c show ?thesis
  proof
    assume "nh = INVALID_HANDLE \<and> bs' = bs \<and> m_user s' = m_user s"
    then show ?thesis using r(1) ok b(3) BM_chunks_eq [OF hs] BM_chunks_eq [OF hs'] by (simp add: INVALID_HANDLE_def)
  next
    assume "\<exists>bs0 q k. nh = chunk2mem q \<and> allocated bs0 bs p l \<and> allocated bs0 bs' q k \<and> n + 8 \<le> k
             \<and> (\<forall>i<min l k - 4. m_user s' (chunk2mem q + i) = m_user s (chunk2mem p + i))
             \<and> (\<forall>a. a < chunk2mem q \<or> chunk2mem q + (k - 4) \<le> a \<longrightarrow> m_user s' a = m_user s a)"
    then obtain bs0 q j where q: "nh = chunk2mem q" "allocated bs0 bs p l" "allocated bs0 bs' q j" "n + 8 \<le> j"
      and cp: "\<forall>i<min l j - 4. m_user s' (chunk2mem q + i) = m_user s (chunk2mem p + i)"
      and oth: "\<forall>a. a < chunk2mem q \<or> chunk2mem q + (j - 4) \<le> a \<longrightarrow> m_user s' a = m_user s a" by blast
    let ?c = "(\<lambda>(p, n, u). (chunk2mem p, n - 4)) ` set (live bs0)"
    have p: "chunk2mem p \<notin> fst ` ?c" using live_fresh(1) [OF hs q(2)] by (force simp: chunk2mem_def)
    have q': "chunk2mem q \<notin> fst ` ?c" using live_fresh(1) [OF hs' q(3)] by (force simp: chunk2mem_def)
    have "BM_chunks s = insert (h, k) ?c" using b(3,4) by (simp add: BM_chunks_eq [OF hs] allocated_set [OF q(2)])
    with p b(3) have c1: "BM_chunks s - {(h, k)} = ?c" by force
    have c2: "BM_chunks s' = insert (chunk2mem q, j - 4) ?c" by (simp add: BM_chunks_eq [OF hs'] allocated_set [OF q(3)])
    have "m_user s' (g + i) = m_user s (g + i)" if "(g, m) \<in> ?c" "i < m" for g m i
    proof -
      have "(g, m) \<in> BM_chunks s'" "(chunk2mem q, j - 4) \<in> BM_chunks s'" "g \<noteq> chunk2mem q" using that(1) c2 q' by force+
      from BM_chunks_apart [OF ok this] that(2) oth show ?thesis by auto
    qed
    moreover have "\<forall>i<min k (j - 4). m_user s' (chunk2mem q + i) = m_user s (h + i)" using cp b(3,4) by auto
    moreover have "n \<le> j - 4" using q(4) by simp
    moreover have "chunk2mem q \<noteq> 0" by (simp add: chunk2mem_def)
    moreover have "BM_ReAlloc h n s = Some (chunk2mem q, s')" using r(1) q(1) b(3) by simp
    ultimately show ?thesis unfolding c1 using ok q' c2 by blast
  qed
qed

interpretation bmm: chunk_memory BM_mem BM_sound BM_chunks
proof (unfold_locales, unfold BM_mem_simps)
  fix s n
  assume "BM_sound s"
  then obtain bs where inv: "BM_inv s bs" and small: "memSize s \<le> MAX_ALLOC_SIZE" by (auto simp: BM_sound_def BM_ok_def)
  note h = BM_inv_heap [OF inv]
  show "\<exists>h s'. BM_Malloc n s = Some (h, s') \<and> BM_sound s'
      \<and> (h = 0 \<and> BM_chunks s' = BM_chunks s
         \<or> h \<noteq> 0 \<and> (\<exists>k. n \<le> k \<and> h \<notin> fst ` BM_chunks s \<and> BM_chunks s' = insert (h, k) (BM_chunks s)))
      \<and> (\<forall>g j i. (g, j) \<in> BM_chunks s \<longrightarrow> i < j \<longrightarrow> m_user s' (g + i) = m_user s (g + i))"
  proof (cases rule: BM_Malloc_inv [OF inv, of n])
    case (1 s')
    have "BM_chunks s' = BM_chunks s" using BM_chunks_eq [OF h] BM_chunks_eq [OF BM_inv_heap [OF 1(2)]] by simp
    with 1 BM_Malloc_keeps [OF inv 1(1)] small show ?thesis by (auto simp: BM_sound_def BM_ok_def INVALID_HANDLE_def)
  next
    case (2 p k s' bs')
    note c = BM_chunks_allocated [OF h BM_inv_heap [OF 2(2)] 2(3)]
    have "n \<le> k - 4" using 2(4) by simp
    with c have "\<exists>k. n \<le> k \<and> chunk2mem p \<notin> fst ` BM_chunks s \<and> BM_chunks s' = insert (chunk2mem p, k) (BM_chunks s)" by blast
    moreover have "chunk2mem p \<noteq> 0" by (simp add: chunk2mem_def)
    moreover have "BM_sound s'" using 2 small by (auto simp: BM_sound_def BM_ok_def)
    ultimately show ?thesis using 2(1) BM_Malloc_keeps [OF inv 2(1)] by simp
  qed
next
  fix s h k n
  assume s: "BM_sound s" and m: "(h, k) \<in> BM_chunks s" and n: "0 < (n :: nat)"
  from s m obtain bs p l where b: "BM_inv s bs" "(p, l, True) \<in> set bs" "h = chunk2mem p" "k = l - 4" "24 \<le> l"
    by (rule BM_chunksE)
  have small: "memSize s \<le> MAX_ALLOC_SIZE" using s by (simp add: BM_sound_def)
  note hs = BM_inv_heap [OF b(1)]
  show "\<exists>h' s'. BM_ReAlloc h n s = Some (h', s') \<and> BM_sound s'
      \<and> (h' = 0 \<and> BM_chunks s' = BM_chunks s \<and> m_user s' = m_user s
         \<or> h' \<noteq> 0 \<and> (\<exists>k'. n \<le> k' \<and> h' \<notin> fst ` (BM_chunks s - {(h, k)}) \<and> BM_chunks s' = insert (h', k') (BM_chunks s - {(h, k)})
             \<and> (\<forall>i<min k k'. m_user s' (h' + i) = m_user s (h + i))
             \<and> (\<forall>g j i. (g, j) \<in> BM_chunks s - {(h, k)} \<longrightarrow> i < j \<longrightarrow> m_user s' (g + i) = m_user s (g + i))))"
    by (rule BM_ReAlloc_chunks [OF b n small])
next
  fix s h k
  assume s: "BM_sound s" and m: "(h, k) \<in> BM_chunks s"
  from s m obtain bs p l where b: "BM_inv s bs" "(p, l, True) \<in> set bs" "h = chunk2mem p" "k = l - 4" "24 \<le> l"
    by (rule BM_chunksE)
  obtain s' bs' where f: "BM_Free (chunk2mem p) s = (0, s')" "BM_inv s' bs'" "allocated bs' bs p l"
    using BM_Free_inv [OF b(1,2)] by blast
  note c = BM_chunks_allocated [OF BM_inv_heap [OF f(2)] BM_inv_heap [OF b(1)] f(3)]
  have "BM_chunks s' = BM_chunks s - {(h, k)}" using c b(3,4) by force
  moreover have "BM_sound s'" using BM_Free_keeps [OF b(1,2)] f s by (auto simp: BM_sound_def BM_ok_def)
  ultimately show "\<exists>s'. BM_Free h s = (0, s') \<and> BM_sound s' \<and> BM_chunks s' = BM_chunks s - {(h, k)}
      \<and> (\<forall>g j i. (g, j) \<in> BM_chunks s - {(h, k)} \<longrightarrow> i < j \<longrightarrow> m_user s' (g + i) = m_user s (g + i))"
    using f(1) BM_Free_keeps(1) [OF b(1,2)] b(3) by simp
next
  fix s h k g j
  assume s: "BM_sound s" and m: "(h, k) \<in> BM_chunks s" "(g, j) \<in> BM_chunks s" and ne: "h \<noteq> g"
  show "h + k \<le> g \<or> g + j \<le> h" by (rule BM_chunks_apart [OF s m ne])
next
  fix s h k i and bs :: "nat list"
  assume "BM_sound s"
  then show "BM_sound (user_put (h + i) bs s)" by (rule BM_sound_user)
qed (simp add: ChunkSize_chunk(1), use ChunkSize_chunk(2,3) in blast, rule BM_chunks_user, rule user_put_laws, rule user_put_laws,
    simp add: user_put_def)

end
