(* ===== verification/Raw_Data.thy ===== *)
theory Raw_Data
  imports Chunk_Memory
begin

text \<open>
  The packed rows of a node, \<open>cache/raw_data.h\<close> and \<open>cache/raw_data.cc\<close> (class \<open>CRawData\<close>): one
  chunk of the allocator holds a header, the key and the rows of the node one after the other.

  An operation works on the object and on the state of its allocator, the parameter \<open>M\<close>, and gives
  \<open>None\<close> where the allocator does, or where the program calls \<open>memcpy\<close> with a negative length or
  past the bytes that its source holds.  Parameters stand for what is outside the repository or the
  language: \<open>hour\<close> for the clock behind \<open>GetRelativeHour\<close>, \<open>heap\<close> for the success of the C library's
  \<open>malloc\<close>, \<open>cnv\<close> for the conversions between \<open>double\<close> and \<open>float\<close>, both as bit patterns.
  Pointers into the chunk are addresses, 0 is the null pointer.  A field value keeps the members of
  the union \<open>CValue\<close> apart, the type of the field says which one is in use, and a binary value holds
  the bytes that its pointer addresses.
\<close>

section \<open>Integers in memory\<close>

fun le :: "nat \<Rightarrow> nat \<Rightarrow> nat list" where
  "le 0 x = []"
| "le (Suc n) x = x mod 256 # le n (x div 256)"

fun un_le :: "nat list \<Rightarrow> nat" where
  "un_le [] = 0"
| "un_le (b # bs) = b + 256 * un_le bs"

lemma length_le [simp]: "length (le n x) = n"
  by (induction n arbitrary: x) auto

lemma un_le_le: "un_le (le n x) = x mod 256 ^ n"
  by (induction n arbitrary: x) (auto simp: mod_mult2_eq)

definition u32_int :: "int \<Rightarrow> nat" where
  "u32_int i = nat (i mod 2 ^ 32)"

definition s32 :: "nat \<Rightarrow> int" where
  "s32 x = (if x < 2 ^ 31 then int x else int x - 2 ^ 32)"

text \<open>The bits of an \<open>int64_t\<close> that is assigned from an \<open>int32_t\<close>.\<close>

definition sext32 :: "nat \<Rightarrow> nat" where
  "sext32 x = (if x < 2 ^ 31 then x else x + (2 ^ 64 - 2 ^ 32))"

lemma s32_u32_int: "- (2 ^ 31) \<le> i \<Longrightarrow> i < 2 ^ 31 \<Longrightarrow> s32 (u32_int i) = i"
  using mod_pos_pos_trivial [of i "2 ^ 32"] mod_pos_pos_trivial [of "i + 2 ^ 32" "2 ^ 32"]
  by (cases "0 \<le> i") (auto simp: s32_def u32_int_def)

section \<open>Rows\<close>

datatype DField = DNone | Signed | Unsigned | Float | String | Binary

record CField =
  fieldType :: DField
  fieldSize :: int
  FF_DISCARD :: bool

record CValue =
  u64v :: nat
  flt :: nat
  bin_len :: int
  bin_ptr :: "nat list"

record CRowValue =
  tableDef :: "CField list"
  field_value :: "nat \<Rightarrow> CValue"

definition NumFields :: "CRowValue \<Rightarrow> nat" where
  "NumFields r = length (tableDef r) - 1"

definition FieldType :: "CRowValue \<Rightarrow> nat \<Rightarrow> DField" where
  "FieldType r j = fieldType (tableDef r ! j)"

definition FieldSize :: "CRowValue \<Rightarrow> nat \<Rightarrow> int" where
  "FieldSize r j = fieldSize (tableDef r ! j)"

definition IsDiscard :: "CRowValue \<Rightarrow> nat \<Rightarrow> bool" where
  "IsDiscard r j = FF_DISCARD (tableDef r ! j)"

definition set_field :: "nat \<Rightarrow> (CValue \<Rightarrow> CValue) \<Rightarrow> CRowValue \<Rightarrow> CRowValue" where
  "set_field j f r = r\<lparr>field_value := (field_value r)(j := f (field_value r j))\<rparr>"

record FloatConv =
  to_float :: "nat \<Rightarrow> nat"
  to_double :: "nat \<Rightarrow> nat"

definition DATA_TYPE_RAW :: nat where "DATA_TYPE_RAW = 0"
definition OPER_SELECT :: nat where "OPER_SELECT = 0x30"
definition OPER_UPDATE :: nat where "OPER_UPDATE = 0x32"
definition OPER_INSERT :: nat where "OPER_INSERT = 0x36"
definition ENOMEM :: int where "ENOMEM = 12"
definition BTYE_MAX_VALUE :: nat where "BTYE_MAX_VALUE = 255"

record CRawData =
  m_pchContent :: nat
  m_uiDataSize :: nat
  m_uiRowCnt :: nat
  m_uchKeyIdx :: nat
  m_iKeySize :: int
  m_iLAId :: int
  m_iLCmodId :: int
  m_uiKeyStart :: nat
  m_uiDataStart :: nat
  m_uiRowOffset :: nat
  m_uiOffset :: nat
  m_uiLAOffset :: nat
  m_uiGetCountOffset :: nat
  m_uiTimeStampOffSet :: nat
  m_uchGetCount :: nat
  m_LastAccessHour :: nat
  m_LastUpdateHour :: nat
  m_CreateHour :: nat
  m_uiNeedSize :: nat
  rd_handle :: handle
  rd_size :: nat

text \<open>The constructor sets every member but \<open>m_iLCmodId\<close>, which keeps what the memory held.\<close>

definition CRawData_new :: "int \<Rightarrow> CRawData" where
  "CRawData_new lcmod = \<lparr>m_pchContent = 0, m_uiDataSize = 0, m_uiRowCnt = 0, m_uchKeyIdx = 255, m_iKeySize = 0,
     m_iLAId = -1, m_iLCmodId = lcmod, m_uiKeyStart = 0, m_uiDataStart = 0, m_uiRowOffset = 0, m_uiOffset = 0,
     m_uiLAOffset = 0, m_uiGetCountOffset = 0, m_uiTimeStampOffSet = 0, m_uchGetCount = 0,
     m_LastAccessHour = 0, m_LastUpdateHour = 0, m_CreateHour = 0, m_uiNeedSize = 0,
     rd_handle = INVALID_HANDLE, rd_size = 0\<rparr>"

section \<open>Reading and writing at the offset\<close>

text \<open>
  \<open>GET_VALUE\<close>, \<open>SET_VALUE\<close> and \<open>SKIP_SIZE\<close> jump to \<open>ERROR_RET\<close> when the chunk ends before the value
  does, \<open>None\<close> here.  The sizes of \<open>GET_VALUE\<close> and \<open>SET_VALUE\<close> are of type \<open>size_t\<close>, the argument
  of \<open>SKIP_SIZE\<close> may be an \<open>int\<close>: then the sum is an unsigned one of 32 bits.
\<close>

definition GET_VALUE :: "'s CChunkMem \<Rightarrow> nat \<Rightarrow> CRawData \<Rightarrow> 's \<Rightarrow> (nat \<times> CRawData) option" where
  "GET_VALUE M n rd s =
     (if m_uiOffset rd + n > rd_size rd then None
      else Some (un_le (get_bytes M (m_pchContent rd + m_uiOffset rd) n s), rd\<lparr>m_uiOffset := u32 (m_uiOffset rd + n)\<rparr>))"

definition GET_VALUE_AT_OFFSET :: "'s CChunkMem \<Rightarrow> nat \<Rightarrow> nat \<Rightarrow> CRawData \<Rightarrow> 's \<Rightarrow> nat option" where
  "GET_VALUE_AT_OFFSET M n offs rd s =
     (if offs + n > rd_size rd then None else Some (un_le (get_bytes M (m_pchContent rd + offs) n s)))"

definition SET_VALUE :: "'s CChunkMem \<Rightarrow> nat \<Rightarrow> nat \<Rightarrow> CRawData \<Rightarrow> 's \<Rightarrow> (CRawData \<times> 's) option" where
  "SET_VALUE M x n rd s =
     (if m_uiOffset rd + n > rd_size rd then None
      else Some (rd\<lparr>m_uiOffset := u32 (m_uiOffset rd + n)\<rparr>, cm_put M (m_pchContent rd + m_uiOffset rd) (le n x) s))"

definition SET_VALUE_AT_OFFSET :: "'s CChunkMem \<Rightarrow> nat \<Rightarrow> nat \<Rightarrow> nat \<Rightarrow> CRawData \<Rightarrow> 's \<Rightarrow> 's option" where
  "SET_VALUE_AT_OFFSET M x n offs rd s =
     (if offs + n > rd_size rd then None else Some (cm_put M (m_pchContent rd + offs) (le n x) s))"

definition SKIP_SIZE :: "nat \<Rightarrow> CRawData \<Rightarrow> CRawData option" where
  "SKIP_SIZE n rd =
     (if m_uiOffset rd + n > rd_size rd then None else Some (rd\<lparr>m_uiOffset := u32 (m_uiOffset rd + n)\<rparr>))"

definition SKIP_SIZE_int :: "int \<Rightarrow> CRawData \<Rightarrow> CRawData option" where
  "SKIP_SIZE_int n rd =
     (let e = u32_int (int (m_uiOffset rd) + n)
      in if e > rd_size rd then None else Some (rd\<lparr>m_uiOffset := e\<rparr>))"

text \<open>
  \<open>SET_BIN_VALUE\<close>: the outer \<open>None\<close> is a \<open>memcpy\<close> of a negative length or past the end of the value,
  the inner one the jump to \<open>ERROR_RET\<close>.
\<close>

definition SET_BIN_VALUE :: "'s CChunkMem \<Rightarrow> nat list \<Rightarrow> int \<Rightarrow> CRawData \<Rightarrow> 's \<Rightarrow> (CRawData \<times> 's) option option" where
  "SET_BIN_VALUE M p len rd s =
     (if nat ((int (m_uiOffset rd) + 4 + len) mod 2 ^ 64) > rd_size rd then Some None
      else let s1 = cm_put M (m_pchContent rd + m_uiOffset rd) (le 4 (u32_int len)) s;
               o1 = u32 (m_uiOffset rd + 4)
           in if len = 0 then Some (Some (rd\<lparr>m_uiOffset := o1\<rparr>, s1))
              else if len < 0 \<or> length p < nat len then None
              else Some (Some (rd\<lparr>m_uiOffset := u32_int (int o1 + len)\<rparr>,
                               cm_put M (m_pchContent rd + o1) (take (nat len) p) s1)))"

text \<open>\<open>memmove\<close> inside the memory.\<close>

definition cm_move :: "'s CChunkMem \<Rightarrow> nat \<Rightarrow> nat \<Rightarrow> nat \<Rightarrow> 's \<Rightarrow> 's" where
  "cm_move M dst src n s = cm_put M dst (get_bytes M src n s) s"

section \<open>Header\<close>

text \<open>
  \<open>SetDataSize\<close> and \<open>SetRowCount\<close> run into their \<open>ERROR_RET\<close> after the store: they report -100 always,
  and no caller looks at it.
\<close>

definition SetDataSize :: "'s CChunkMem \<Rightarrow> CRawData \<Rightarrow> 's \<Rightarrow> int \<times> 's" where
  "SetDataSize M rd s =
     (case SET_VALUE_AT_OFFSET M (m_uiDataSize rd) 4 1 rd s of None \<Rightarrow> (-100, s) | Some s1 \<Rightarrow> (-100, s1))"

definition SetRowCount :: "'s CChunkMem \<Rightarrow> CRawData \<Rightarrow> 's \<Rightarrow> int \<times> 's" where
  "SetRowCount M rd s =
     (case SET_VALUE_AT_OFFSET M (m_uiRowCnt rd) 4 5 rd s of None \<Rightarrow> (-100, s) | Some s1 \<Rightarrow> (-100, s1))"

definition set_counts :: "'s CChunkMem \<Rightarrow> CRawData \<Rightarrow> 's \<Rightarrow> 's" where
  "set_counts M rd s = snd (SetRowCount M rd (snd (SetDataSize M rd s)))"

definition InitTimpStamp :: "'s CChunkMem \<Rightarrow> nat \<Rightarrow> CRawData \<Rightarrow> 's \<Rightarrow> CRawData \<times> 's" where
  "InitTimpStamp M hour rd s =
     (if m_pchContent rd = 0 \<or> m_uiOffset rd + 3 * 2 > rd_size rd then (rd, s)
      else let h = u16 hour; a = m_pchContent rd + m_uiTimeStampOffSet rd
           in (rd\<lparr>m_LastAccessHour := h, m_LastUpdateHour := h, m_CreateHour := h\<rparr>,
               cm_put M (a + 4) (le 2 h) (cm_put M (a + 2) (le 2 h) (cm_put M a (le 2 h) s))))"

definition AttachTimeStamp :: "'s CChunkMem \<Rightarrow> CRawData \<Rightarrow> 's \<Rightarrow> CRawData" where
  "AttachTimeStamp M rd s =
     (if m_pchContent rd = 0 \<or> m_uiTimeStampOffSet rd + 3 * 2 > rd_size rd then rd
      else let a = m_pchContent rd + m_uiTimeStampOffSet rd
           in rd\<lparr>m_LastAccessHour := un_le (get_bytes M a 2 s), m_LastUpdateHour := un_le (get_bytes M (a + 2) 2 s),
                 m_CreateHour := un_le (get_bytes M (a + 4) 2 s)\<rparr>)"

definition UpdateLastAccessTimeByHour :: "'s CChunkMem \<Rightarrow> nat \<Rightarrow> CRawData \<Rightarrow> 's \<Rightarrow> CRawData \<times> 's" where
  "UpdateLastAccessTimeByHour M hour rd s =
     (if m_pchContent rd = 0 \<or> m_uiTimeStampOffSet rd + 2 > rd_size rd then (rd, s)
      else (rd\<lparr>m_LastAccessHour := u16 hour\<rparr>, cm_put M (m_pchContent rd + m_uiTimeStampOffSet rd) (le 2 (u16 hour)) s))"

definition UpdateLastUpdateTimeByHour :: "'s CChunkMem \<Rightarrow> nat \<Rightarrow> CRawData \<Rightarrow> 's \<Rightarrow> CRawData \<times> 's" where
  "UpdateLastUpdateTimeByHour M hour rd s =
     (if m_pchContent rd = 0 \<or> m_uiTimeStampOffSet rd + 2 * 2 > rd_size rd then (rd, s)
      else (rd\<lparr>m_LastUpdateHour := u16 hour\<rparr>, cm_put M (m_pchContent rd + m_uiTimeStampOffSet rd + 2) (le 2 (u16 hour)) s))"

definition IncSelectCount :: "'s CChunkMem \<Rightarrow> CRawData \<Rightarrow> 's \<Rightarrow> CRawData \<times> 's" where
  "IncSelectCount M rd s =
     (if m_uchGetCount rd \<ge> BTYE_MAX_VALUE \<or> m_uiGetCountOffset rd + 1 > rd_size rd then (rd, s)
      else let c = m_uchGetCount rd + 1
           in (rd\<lparr>m_uchGetCount := c\<rparr>, cm_put M (m_pchContent rd + m_uiGetCountOffset rd) (le 1 c) s))"

definition UpdateLastacc :: "'s CChunkMem \<Rightarrow> nat \<Rightarrow> CRawData \<Rightarrow> 's \<Rightarrow> 's" where
  "UpdateLastacc M now rd s =
     (if m_uiLAOffset rd > 0 then cm_put M (m_pchContent rd + m_uiLAOffset rd) (le 4 now) s else s)"

definition RD_KeySize :: "'s CChunkMem \<Rightarrow> CRawData \<Rightarrow> 's \<Rightarrow> int" where
  "RD_KeySize M rd s =
     (if m_iKeySize rd > 0 then m_iKeySize rd else 1 + int (cm_get M s (m_pchContent rd + m_uiKeyStart rd)))"

definition Rewind :: "CRawData \<Rightarrow> CRawData" where
  "Rewind rd = rd\<lparr>m_uiOffset := m_uiDataStart rd, m_uiRowOffset := m_uiDataStart rd\<rparr>"

section \<open>Chunks\<close>

text \<open>
  The stores of \<open>Init\<close> up to the time stamps: \<open>False\<close> after the jump to \<open>ERROR_RET\<close>.
\<close>

definition init_header :: "'s CChunkMem \<Rightarrow> nat \<Rightarrow> CRawData \<Rightarrow> 's \<Rightarrow> bool \<times> CRawData \<times> 's" where
  "init_header M hour rd s =
     (case SET_VALUE M DATA_TYPE_RAW 1 rd s of None \<Rightarrow> (False, rd, s)
      | Some (rd1, s1) \<Rightarrow>
     (case SET_VALUE M (m_uiDataSize rd1) 4 rd1 s1 of None \<Rightarrow> (False, rd1, s1)
      | Some (rd2, s2) \<Rightarrow>
     (case SET_VALUE M (m_uiRowCnt rd2) 4 rd2 s2 of None \<Rightarrow> (False, rd2, s2)
      | Some (rd3, s3) \<Rightarrow>
       let rd4 = rd3\<lparr>m_uiGetCountOffset := m_uiOffset rd3, m_uchGetCount := 1\<rparr>
       in (case SET_VALUE M 1 1 rd4 s3 of None \<Rightarrow> (False, rd4, s3)
           | Some (rd5, s4) \<Rightarrow>
             let (rd6, s5) = InitTimpStamp M hour (rd5\<lparr>m_uiTimeStampOffSet := m_uiOffset rd5\<rparr>) s4
             in (case SKIP_SIZE (3 * 2) rd6 of None \<Rightarrow> (False, rd6, s5)
                 | Some rd7 \<Rightarrow> (True, rd7\<lparr>m_uiKeyStart := m_uiOffset rd7\<rparr>, s5))))))"

definition RD_Init :: "'s CChunkMem \<Rightarrow> nat \<Rightarrow> nat \<Rightarrow> int \<Rightarrow> nat list \<Rightarrow> nat \<Rightarrow> int \<Rightarrow> CRawData \<Rightarrow> 's
    \<Rightarrow> (int \<times> CRawData \<times> 's) option" where
  "RD_Init M hour uchKeyIdx iKeySize pchKey uiDataSize laId rd s =
     (if iKeySize = 0 \<and> pchKey = [] then None
      else
      let ks = (if iKeySize \<noteq> 0 then iKeySize else 1 + int (hd pchKey));
          need = u32_int (int uiDataSize + 16 + ks)
      in (case cm_Malloc M need s of None \<Rightarrow> None
          | Some (h, s1) \<Rightarrow>
            if h = INVALID_HANDLE
            then Some (EC_NO_MEM, rd\<lparr>rd_handle := h, rd_size := 0, m_uiNeedSize := need\<rparr>, s1)
            else
            let rd1 = rd\<lparr>rd_handle := h, rd_size := cm_ChunkSize M h s1, m_uiDataSize := u32_int (16 + ks), m_uiRowCnt := 0,
                         m_uchKeyIdx := uchKeyIdx, m_iKeySize := iKeySize, m_iLAId := laId, m_pchContent := h,
                         m_uiOffset := 0, m_uiLAOffset := 0\<rparr>;
                (b, rd2, s2) = init_header M hour rd1 s1
            in if \<not> b then Some (-100, rd2, s2)
               else if ks < 0 \<or> length pchKey < nat ks then None
               else let o1 = u32_int (int (m_uiOffset rd2) + ks)
                    in Some (0, rd2\<lparr>m_uiOffset := o1, m_uiDataStart := o1, m_uiRowOffset := o1\<rparr>,
                             cm_put M (m_pchContent rd2 + m_uiOffset rd2) (take (nat ks) pchKey) s2)))"

text \<open>The part of \<open>Attach\<close> from the type byte to the first row.\<close>

definition attach_header :: "'s CChunkMem \<Rightarrow> nat \<Rightarrow> int \<Rightarrow> int \<Rightarrow> int \<Rightarrow> CRawData \<Rightarrow> 's \<Rightarrow> int \<times> CRawData" where
  "attach_header M uchKeyIdx iKeySize laid lcmodid rd s =
     (case GET_VALUE M 1 rd s of None \<Rightarrow> (-100, rd)
      | Some (uchType, rd1) \<Rightarrow>
        if uchType \<noteq> DATA_TYPE_RAW then (-2, rd1)
        else
     (case GET_VALUE M 4 rd1 s of None \<Rightarrow> (-100, rd1)
      | Some (dsz, rd2) \<Rightarrow>
     (case GET_VALUE M 4 (rd2\<lparr>m_uiDataSize := dsz\<rparr>) s of None \<Rightarrow> (-100, rd2\<lparr>m_uiDataSize := dsz\<rparr>)
      | Some (cnt, rd3) \<Rightarrow>
       let rd4 = rd3\<lparr>m_uiRowCnt := cnt, m_uiGetCountOffset := m_uiOffset rd3\<rparr>
       in (case GET_VALUE M 1 rd4 s of None \<Rightarrow> (-100, rd4)
           | Some (gc, rd5) \<Rightarrow>
             let rd6 = AttachTimeStamp M (rd5\<lparr>m_uchGetCount := gc, m_uiTimeStampOffSet := m_uiOffset rd5\<rparr>) s
             in (case SKIP_SIZE (3 * 2) rd6 of None \<Rightarrow> (-100, rd6)
                 | Some rd7 \<Rightarrow>
                   if m_uiDataSize rd7 > rd_size rd7 then (-3, rd7)
                   else
                   let rd8 = rd7\<lparr>m_uchKeyIdx := uchKeyIdx, m_uiKeyStart := m_uiOffset rd7, m_iKeySize := iKeySize,
                                 m_iLAId := laid, m_iLCmodId := lcmodid\<rparr>;
                       ks = (if iKeySize \<noteq> 0 then iKeySize
                             else 1 + int (cm_get M s (m_pchContent rd8 + m_uiKeyStart rd8)))
                   in (case SKIP_SIZE_int ks rd8 of None \<Rightarrow> (-100, rd8)
                       | Some rd9 \<Rightarrow> (0, rd9\<lparr>m_uiDataStart := m_uiOffset rd9, m_uiRowOffset := m_uiOffset rd9\<rparr>)))))))"

definition RD_Attach :: "'s CChunkMem \<Rightarrow> handle \<Rightarrow> nat \<Rightarrow> int \<Rightarrow> int \<Rightarrow> int \<Rightarrow> CRawData \<Rightarrow> 's \<Rightarrow> int \<times> CRawData" where
  "RD_Attach M hHandle uchKeyIdx iKeySize laid lcmodid rd s =
     (let rd1 = rd\<lparr>rd_size := cm_ChunkSize M hHandle s\<rparr>
      in if rd_size rd1 = 0 then (-1, rd1)
         else attach_header M uchKeyIdx iKeySize laid lcmodid
                (rd1\<lparr>rd_handle := hHandle, m_pchContent := hHandle, m_uiOffset := 0, m_uiLAOffset := 0\<rparr>) s)"

definition RD_Destroy :: "'s CChunkMem \<Rightarrow> CRawData \<Rightarrow> 's \<Rightarrow> int \<times> CRawData \<times> 's" where
  "RD_Destroy M rd s =
     (if rd_handle rd = INVALID_HANDLE then (0, rd\<lparr>rd_size := 0\<rparr>, s)
      else let (iRet, s1) = cm_Free M (rd_handle rd) s
           in (iRet, rd\<lparr>rd_handle := INVALID_HANDLE, rd_size := 0\<rparr>, s1))"

definition CheckSize :: "'s CChunkMem \<Rightarrow> handle \<Rightarrow> int \<Rightarrow> CRawData \<Rightarrow> 's \<Rightarrow> int \<times> CRawData" where
  "CheckSize M hHandle sz rd s =
     (let rd1 = rd\<lparr>rd_size := cm_ChunkSize M hHandle s\<rparr>
      in if rd_size rd1 = 0 then (-1, rd1)
         else let rd2 = rd1\<lparr>rd_handle := hHandle, m_pchContent := hHandle, m_uiOffset := 0, m_uiLAOffset := 0\<rparr>
              in (case GET_VALUE M 1 rd2 s of None \<Rightarrow> (-1, rd2)
                  | Some (uchType, rd3) \<Rightarrow>
                    if uchType \<noteq> DATA_TYPE_RAW then (-2, rd3)
                    else (case GET_VALUE M 4 rd3 s of None \<Rightarrow> (-1, rd3)
                          | Some (dsz, rd4) \<Rightarrow> (if dsz \<noteq> u32_int sz then -1 else 0, rd4\<lparr>m_uiDataSize := dsz\<rparr>))))"

text \<open>Moving the object to the chunk that \<open>ReAlloc\<close> gave.\<close>

definition rd_move_to :: "'s CChunkMem \<Rightarrow> handle \<Rightarrow> 's \<Rightarrow> CRawData \<Rightarrow> CRawData" where
  "rd_move_to M h s rd = rd\<lparr>rd_handle := h, rd_size := cm_ChunkSize M h s, m_pchContent := h\<rparr>"

definition StripMem :: "'s CChunkMem \<Rightarrow> CRawData \<Rightarrow> 's \<Rightarrow> (int \<times> CRawData \<times> 's) option" where
  "StripMem M rd s =
     (case cm_ReAlloc M (rd_handle rd) (m_uiDataSize rd) s of None \<Rightarrow> None
      | Some (h, s1) \<Rightarrow>
        if h = INVALID_HANDLE then Some (EC_NO_MEM, rd\<lparr>m_uiNeedSize := m_uiDataSize rd\<rparr>, s1)
        else Some (0, rd_move_to M h s1 rd, s1))"

definition ReAllocChunk :: "'s CChunkMem \<Rightarrow> nat \<Rightarrow> CRawData \<Rightarrow> 's \<Rightarrow> (int \<times> CRawData \<times> 's) option" where
  "ReAllocChunk M n rd s =
     (if n > rd_size rd
      then (case cm_ReAlloc M (rd_handle rd) n s of None \<Rightarrow> None
            | Some (h, s1) \<Rightarrow>
              if h = INVALID_HANDLE then Some (EC_NO_MEM, rd\<lparr>m_uiNeedSize := n\<rparr>, s1)
              else Some (0, rd_move_to M h s1 rd, s1))
      else Some (0, rd, s))"

definition ExpandChunk :: "'s CChunkMem \<Rightarrow> nat \<Rightarrow> CRawData \<Rightarrow> 's \<Rightarrow> (int \<times> CRawData \<times> 's) option" where
  "ExpandChunk M tExpSize rd s =
     (if rd_handle rd = INVALID_HANDLE then Some (-1, rd, s)
      else let need = u32 (m_uiDataSize rd + tExpSize)
           in if need > rd_size rd
              then (case cm_ReAlloc M (rd_handle rd) need s of None \<Rightarrow> None
                    | Some (h, s1) \<Rightarrow>
                      if h = INVALID_HANDLE then Some (EC_NO_MEM, rd\<lparr>m_uiNeedSize := need\<rparr>, s1)
                      else Some (0, rd_move_to M h s1 rd, s1))
              else Some (0, rd, s))"

section \<open>Decoding\<close>

definition stored_fields :: "CRawData \<Rightarrow> CRowValue \<Rightarrow> nat list" where
  "stored_fields rd r = [m_uchKeyIdx rd + 1..<NumFields r + 1]"

text \<open>The \<open>switch\<close> of \<open>DecodeRow\<close>, with \<open>False\<close> after the jump to \<open>ERROR_RET\<close>.\<close>

definition decode_num :: "'s CChunkMem \<Rightarrow> 's \<Rightarrow> nat \<Rightarrow> nat \<Rightarrow> (nat \<Rightarrow> CValue \<Rightarrow> CValue) \<Rightarrow> CRawData \<Rightarrow> CRowValue
    \<Rightarrow> bool \<times> CRawData \<times> CRowValue" where
  "decode_num M s j n f rd r =
     (case GET_VALUE M n rd s of None \<Rightarrow> (False, rd, r) | Some (x, rd1) \<Rightarrow> (True, rd1, set_field j (f x) r))"

definition decode_bin :: "'s CChunkMem \<Rightarrow> 's \<Rightarrow> nat \<Rightarrow> CRawData \<Rightarrow> CRowValue \<Rightarrow> bool \<times> CRawData \<times> CRowValue" where
  "decode_bin M s j rd r =
     (case GET_VALUE M 4 rd s of None \<Rightarrow> (False, rd, r)
      | Some (x, rd1) \<Rightarrow>
        let len = s32 x;
            r1 = set_field j (\<lambda>v. v\<lparr>bin_len := len,
                   bin_ptr := get_bytes M (m_pchContent rd1 + m_uiOffset rd1) (nat len) s\<rparr>) r
        in (case SKIP_SIZE_int len rd1 of None \<Rightarrow> (False, rd1, r1) | Some rd2 \<Rightarrow> (True, rd2, r1)))"

definition decode_field :: "'s CChunkMem \<Rightarrow> FloatConv \<Rightarrow> 's \<Rightarrow> nat \<Rightarrow> CRawData \<Rightarrow> CRowValue \<Rightarrow> bool \<times> CRawData \<times> CRowValue" where
  "decode_field M cnv s j rd r =
     (case FieldType r j of
        Signed \<Rightarrow> (if FieldSize r j > 4 then decode_num M s j 8 (\<lambda>x v. v\<lparr>u64v := x\<rparr>) rd r
                   else decode_num M s j 4 (\<lambda>x v. v\<lparr>u64v := sext32 x\<rparr>) rd r)
      | Unsigned \<Rightarrow> decode_num M s j (if FieldSize r j > 4 then 8 else 4) (\<lambda>x v. v\<lparr>u64v := x\<rparr>) rd r
      | Float \<Rightarrow> (if FieldSize r j > 4 then decode_num M s j 8 (\<lambda>x v. v\<lparr>flt := x\<rparr>) rd r
                  else decode_num M s j 4 (\<lambda>x v. v\<lparr>flt := to_double cnv x\<rparr>) rd r)
      | _ \<Rightarrow> decode_bin M s j rd r)"

fun decode_fields :: "'s CChunkMem \<Rightarrow> FloatConv \<Rightarrow> 's \<Rightarrow> nat list \<Rightarrow> CRawData \<Rightarrow> CRowValue \<Rightarrow> bool \<times> CRawData \<times> CRowValue" where
  "decode_fields M cnv s [] rd r = (True, rd, r)"
| "decode_fields M cnv s (j # js) rd r =
     (if IsDiscard r j then decode_fields M cnv s js rd r
      else let rd1 = (if int j = m_iLAId rd then rd\<lparr>m_uiLAOffset := m_uiOffset rd\<rparr> else rd);
               (b, rd2, r1) = decode_field M cnv s j rd1 r
           in if b then decode_fields M cnv s js rd2 r1 else (False, rd2, r1))"

definition PRE_DECODE_ROW :: int where "PRE_DECODE_ROW = 1"

definition DecodeRow :: "'s CChunkMem \<Rightarrow> FloatConv \<Rightarrow> int \<Rightarrow> CRowValue \<Rightarrow> nat \<Rightarrow> CRawData \<Rightarrow> 's
    \<Rightarrow> int \<times> CRowValue \<times> nat \<times> CRawData" where
  "DecodeRow M cnv iDecodeFlag r flags rd s =
     (if rd_handle rd = INVALID_HANDLE \<or> m_pchContent rd = 0 then (-1, r, flags, rd)
      else
      let back = (\<lambda>d. if odd iDecodeFlag then d\<lparr>m_uiOffset := m_uiOffset rd, m_uiRowOffset := m_uiRowOffset rd\<rparr> else d);
          rd1 = rd\<lparr>m_uiLAOffset := 0, m_uiRowOffset := m_uiOffset rd\<rparr>
      in (case GET_VALUE M 1 rd1 s of None \<Rightarrow> (-100, r, flags, back rd1)
          | Some (fl, rd2) \<Rightarrow>
            let (b, rd3, r1) = decode_fields M cnv s (stored_fields rd2 r) rd2 r
            in (if b then 0 else -100, r1, fl, back rd3)))"

text \<open>The loop that \<open>SkipRow\<close> and \<open>GetLastcmod\<close> share: pass over the fields without reading them.\<close>

definition skip_field :: "'s CChunkMem \<Rightarrow> 's \<Rightarrow> nat \<Rightarrow> CRowValue \<Rightarrow> CRawData \<Rightarrow> bool \<times> CRawData" where
  "skip_field M s j r rd =
     (case FieldType r j of
        Signed \<Rightarrow> (case SKIP_SIZE (if FieldSize r j > 4 then 8 else 4) rd of None \<Rightarrow> (False, rd) | Some rd1 \<Rightarrow> (True, rd1))
      | Unsigned \<Rightarrow> (case SKIP_SIZE (if FieldSize r j > 4 then 8 else 4) rd of None \<Rightarrow> (False, rd) | Some rd1 \<Rightarrow> (True, rd1))
      | Float \<Rightarrow> (case SKIP_SIZE (if FieldSize r j > 4 then 8 else 4) rd of None \<Rightarrow> (False, rd) | Some rd1 \<Rightarrow> (True, rd1))
      | _ \<Rightarrow> (case GET_VALUE M 4 rd s of None \<Rightarrow> (False, rd)
              | Some (x, rd1) \<Rightarrow>
                (case SKIP_SIZE_int (s32 x) rd1 of None \<Rightarrow> (False, rd1) | Some rd2 \<Rightarrow> (True, rd2))))"

fun skip_fields :: "'s CChunkMem \<Rightarrow> 's \<Rightarrow> nat list \<Rightarrow> CRowValue \<Rightarrow> CRawData \<Rightarrow> bool \<times> CRawData" where
  "skip_fields M s [] r rd = (True, rd)"
| "skip_fields M s (j # js) r rd =
     (if IsDiscard r j then skip_fields M s js r rd
      else let (b, rd1) = skip_field M s j r rd in if b then skip_fields M s js r rd1 else (False, rd1))"

fun lastcmod_fields :: "'s CChunkMem \<Rightarrow> 's \<Rightarrow> nat list \<Rightarrow> CRowValue \<Rightarrow> nat \<Rightarrow> CRawData \<Rightarrow> bool \<times> nat \<times> CRawData" where
  "lastcmod_fields M s [] r l rd = (True, l, rd)"
| "lastcmod_fields M s (j # js) r l rd =
     (if IsDiscard r j then lastcmod_fields M s js r l rd
      else let l1 = (if int j = m_iLCmodId rd then un_le (get_bytes M (m_pchContent rd + m_uiOffset rd) 4 s) else l);
               (b, rd1) = skip_field M s j r rd
           in if b then lastcmod_fields M s js r l1 rd1 else (False, l1, rd1))"

definition GetLastcmod :: "'s CChunkMem \<Rightarrow> CRowValue \<Rightarrow> CRawData \<Rightarrow> 's \<Rightarrow> int \<times> nat \<times> CRawData" where
  "GetLastcmod M r rd s =
     (if rd_handle rd = INVALID_HANDLE \<or> m_pchContent rd = 0 then (-1, 0, rd)
      else let rd1 = rd\<lparr>m_uiRowOffset := m_uiOffset rd\<rparr>
           in (case SKIP_SIZE 1 rd1 of None \<Rightarrow> (-100, 0, rd1)
               | Some rd2 \<Rightarrow>
                 let (b, l, rd3) = lastcmod_fields M s (stored_fields rd2 r) r 0 rd2
                 in (if b then 0 else -100, l, rd3)))"

definition SkipRow :: "'s CChunkMem \<Rightarrow> CRowValue \<Rightarrow> CRawData \<Rightarrow> 's \<Rightarrow> int \<times> CRawData" where
  "SkipRow M r rd s =
     (if rd_handle rd = INVALID_HANDLE \<or> m_pchContent rd = 0 then (-1, rd)
      else let rd1 = rd\<lparr>m_uiOffset := m_uiRowOffset rd\<rparr>
           in if m_uiOffset rd1 \<ge> m_uiDataSize rd1 then (-2, rd1)
              else (case SKIP_SIZE 1 rd1 of None \<Rightarrow> (-100, rd1)
                    | Some rd2 \<Rightarrow>
                      let (b, rd3) = skip_fields M s (stored_fields rd2 r) r rd2 in (if b then 0 else -100, rd3)))"

section \<open>Encoding\<close>

fun calc_fields :: "CRowValue \<Rightarrow> nat list \<Rightarrow> nat \<Rightarrow> nat" where
  "calc_fields r [] t = t"
| "calc_fields r (j # js) t =
     (if IsDiscard r j then calc_fields r js t
      else calc_fields r js
        (if FieldType r j \<in> {Signed, Unsigned, Float} then u32 (t + (if FieldSize r j > 4 then 8 else 4))
         else u32_int (int (u32 (t + 4)) + bin_len (field_value r j))))"

definition CalcRowSize :: "CRowValue \<Rightarrow> nat \<Rightarrow> nat" where
  "CalcRowSize r keyIdx = calc_fields r [keyIdx + 1..<NumFields r + 1] 1"

definition encode_num :: "'s CChunkMem \<Rightarrow> nat \<Rightarrow> nat \<Rightarrow> CRawData \<Rightarrow> 's \<Rightarrow> (bool \<times> CRawData \<times> 's) option" where
  "encode_num M x n rd s =
     (case SET_VALUE M x n rd s of None \<Rightarrow> Some (False, rd, s) | Some (rd1, s1) \<Rightarrow> Some (True, rd1, s1))"

definition encode_field :: "'s CChunkMem \<Rightarrow> FloatConv \<Rightarrow> CRowValue \<Rightarrow> nat \<Rightarrow> CRawData \<Rightarrow> 's \<Rightarrow> (bool \<times> CRawData \<times> 's) option" where
  "encode_field M cnv r j rd s =
     (let v = field_value r j
      in case FieldType r j of
           Signed \<Rightarrow> encode_num M (u64v v) (if FieldSize r j > 4 then 8 else 4) rd s
         | Unsigned \<Rightarrow> encode_num M (u64v v) (if FieldSize r j > 4 then 8 else 4) rd s
         | Float \<Rightarrow> (if FieldSize r j > 4 then encode_num M (flt v) 8 rd s else encode_num M (to_float cnv (flt v)) 4 rd s)
         | _ \<Rightarrow> (case SET_BIN_VALUE M (bin_ptr v) (bin_len v) rd s of None \<Rightarrow> None
                 | Some None \<Rightarrow> Some (False, rd, s)
                 | Some (Some (rd1, s1)) \<Rightarrow> Some (True, rd1, s1)))"

fun encode_fields :: "'s CChunkMem \<Rightarrow> FloatConv \<Rightarrow> CRowValue \<Rightarrow> nat list \<Rightarrow> CRawData \<Rightarrow> 's \<Rightarrow> (bool \<times> CRawData \<times> 's) option" where
  "encode_fields M cnv r [] rd s = Some (True, rd, s)"
| "encode_fields M cnv r (j # js) rd s =
     (if IsDiscard r j then encode_fields M cnv r js rd s
      else (case encode_field M cnv r j rd s of None \<Rightarrow> None
            | Some (b, rd1, s1) \<Rightarrow> if b then encode_fields M cnv r js rd1 s1 else Some (False, rd1, s1)))"

text \<open>\<open>EncodeRow\<close> after the call of \<open>ExpandChunk\<close>.\<close>

definition encode_row :: "'s CChunkMem \<Rightarrow> FloatConv \<Rightarrow> CRowValue \<Rightarrow> nat \<Rightarrow> CRawData \<Rightarrow> 's \<Rightarrow> (int \<times> CRawData \<times> 's) option" where
  "encode_row M cnv r uchOp rd s =
     (case SET_VALUE M uchOp 1 rd s of None \<Rightarrow> Some (-100, rd, s)
      | Some (rd1, s1) \<Rightarrow>
        (case encode_fields M cnv r (stored_fields rd1 r) rd1 s1 of None \<Rightarrow> None
         | Some (False, rd2, s2) \<Rightarrow> Some (-100, rd2, s2)
         | Some (True, rd2, s2) \<Rightarrow>
           let rd3 = rd2\<lparr>m_uiDataSize := u32 (m_uiDataSize rd2 + CalcRowSize r (m_uchKeyIdx rd2))\<rparr>;
               s3 = snd (SetDataSize M rd3 s2);
               rd4 = rd3\<lparr>m_uiRowCnt := u32 (m_uiRowCnt rd3 + 1)\<rparr>
           in Some (0, rd4, snd (SetRowCount M rd4 s3))))"

definition EncodeRow :: "'s CChunkMem \<Rightarrow> FloatConv \<Rightarrow> CRowValue \<Rightarrow> nat \<Rightarrow> bool \<Rightarrow> CRawData \<Rightarrow> 's \<Rightarrow> (int \<times> CRawData \<times> 's) option" where
  "EncodeRow M cnv r uchOp expendBuf rd s =
     (if expendBuf
      then (case ExpandChunk M (CalcRowSize r (m_uchKeyIdx rd)) rd s of None \<Rightarrow> None
            | Some (iRet, rd1, s1) \<Rightarrow> if iRet \<noteq> 0 then Some (iRet, rd1, s1) else encode_row M cnv r uchOp rd1 s1)
      else encode_row M cnv r uchOp rd s)"

section \<open>Operations on rows\<close>

text \<open>The rows from \<open>uiOldSize\<close> on move in front of the others, through a buffer of the C library.\<close>

definition rotate_rows :: "'s CChunkMem \<Rightarrow> nat \<Rightarrow> nat \<Rightarrow> CRawData \<Rightarrow> 's \<Rightarrow> 's" where
  "rotate_rows M uiOldSize uiNewRowSize rd s =
     (let pchDataStart = m_pchContent rd + m_uiDataStart rd;
          pBuf = get_bytes M (m_pchContent rd + uiOldSize) uiNewRowSize s;
          s1 = cm_move M (pchDataStart + uiNewRowSize) pchDataStart (u32_sub uiOldSize (m_uiDataStart rd)) s
      in cm_put M pchDataStart pBuf s1)"

definition InsertRowFlag :: "'s CChunkMem \<Rightarrow> FloatConv \<Rightarrow> bool \<Rightarrow> CRowValue \<Rightarrow> bool \<Rightarrow> nat \<Rightarrow> CRawData \<Rightarrow> 's
    \<Rightarrow> (int \<times> CRawData \<times> 's) option" where
  "InsertRowFlag M cnv heap r byFirst uchOp rd s =
     (let uiOldSize = m_uiDataSize rd
      in (case EncodeRow M cnv r uchOp True (rd\<lparr>m_uiOffset := m_uiDataSize rd\<rparr>) s of None \<Rightarrow> None
          | Some (iRet, rd1, s1) \<Rightarrow>
            let uiNewRowSize = u32_sub (m_uiDataSize rd1) uiOldSize
            in if iRet = 0 \<and> byFirst \<and> uiNewRowSize > 0 \<and> u32_sub uiOldSize (m_uiDataStart rd1) > 0
               then if \<not> heap then Some (- ENOMEM, rd1, s1)
                    else Some (iRet, rd1, rotate_rows M uiOldSize uiNewRowSize rd1 s1)
               else Some (iRet, rd1, s1)))"

definition InsertRow :: "'s CChunkMem \<Rightarrow> FloatConv \<Rightarrow> bool \<Rightarrow> CRowValue \<Rightarrow> bool \<Rightarrow> bool \<Rightarrow> CRawData \<Rightarrow> 's
    \<Rightarrow> (int \<times> CRawData \<times> 's) option" where
  "InsertRow M cnv heap r byFirst isDirty rd s =
     InsertRowFlag M cnv heap r byFirst (if isDirty then OPER_INSERT else OPER_SELECT) rd s"

fun encode_rows :: "'s CChunkMem \<Rightarrow> FloatConv \<Rightarrow> nat \<Rightarrow> CRowValue list \<Rightarrow> CRawData \<Rightarrow> 's \<Rightarrow> (int \<times> CRawData \<times> 's) option" where
  "encode_rows M cnv uchOp [] rd s = Some (0, rd, s)"
| "encode_rows M cnv uchOp (r # rs) rd s =
     (case EncodeRow M cnv r uchOp True rd s of None \<Rightarrow> None
      | Some (iRet, rd1, s1) \<Rightarrow> if iRet \<noteq> 0 then Some (iRet, rd1, s1) else encode_rows M cnv uchOp rs rd1 s1)"

definition InsertNRows :: "'s CChunkMem \<Rightarrow> FloatConv \<Rightarrow> bool \<Rightarrow> CRowValue list \<Rightarrow> bool \<Rightarrow> bool \<Rightarrow> CRawData \<Rightarrow> 's
    \<Rightarrow> (int \<times> CRawData \<times> 's) option" where
  "InsertNRows M cnv heap rs byFirst isDirty rd s =
     (case ExpandChunk M (fold (\<lambda>r t. u32 (t + CalcRowSize r (m_uchKeyIdx rd))) rs 0) rd s of None \<Rightarrow> None
      | Some (iRet, rd1, s1) \<Rightarrow>
        if iRet \<noteq> 0 then Some (iRet, rd1, s1)
        else
        let uiOldSize = m_uiDataSize rd1
        in (case encode_rows M cnv (if isDirty then OPER_INSERT else OPER_SELECT) rs (rd1\<lparr>m_uiOffset := m_uiDataSize rd1\<rparr>) s1 of
              None \<Rightarrow> None
            | Some (iRet, rd2, s2) \<Rightarrow>
              if iRet \<noteq> 0 then Some (iRet, rd2, s2)
              else
              let uiNewRowSize = u32_sub (m_uiDataSize rd2) uiOldSize
              in if byFirst \<and> uiNewRowSize > 0 \<and> u32_sub uiOldSize (m_uiDataStart rd2) > 0
                 then if \<not> heap then Some (- ENOMEM, rd2, s2)
                      else Some (0, rd2, rotate_rows M uiOldSize uiNewRowSize rd2 s2)
                 else Some (0, rd2, s2)))"

text \<open>The two branches of \<open>ReplaceCurRow\<close>, for a row that grows and for one that does not.\<close>

definition replace_larger :: "'s CChunkMem \<Rightarrow> FloatConv \<Rightarrow> CRowValue \<Rightarrow> nat \<Rightarrow> nat \<Rightarrow> nat \<Rightarrow> nat \<Rightarrow> CRawData \<Rightarrow> 's
    \<Rightarrow> (int \<times> CRawData \<times> 's) option" where
  "replace_larger M cnv r fl uiOldOffset uiNewRowSize uiCurRowSize rd s =
     (let uiNextRowsOffset = m_uiOffset rd;
          uiNextRowsSize = u32_sub (m_uiDataSize rd) (m_uiOffset rd);
          need = u32_sub (u32 (m_uiDataSize rd + uiNewRowSize)) uiCurRowSize;
          d = u32_sub uiNewRowSize uiCurRowSize
      in (case cm_ReAlloc M (rd_handle rd) need s of None \<Rightarrow> None
          | Some (h, s1) \<Rightarrow>
            if h = INVALID_HANDLE then Some (EC_NO_MEM, rd\<lparr>m_uiNeedSize := need, m_uiOffset := uiOldOffset\<rparr>, s1)
            else
            let rd1 = rd_move_to M h s1 rd;
                s2 = (if uiNextRowsSize > 0
                      then cm_move M (m_pchContent rd1 + uiNextRowsOffset + d) (m_pchContent rd1 + uiNextRowsOffset) uiNextRowsSize s1
                      else s1)
            in (case EncodeRow M cnv r fl False (rd1\<lparr>m_uiOffset := m_uiRowOffset rd1\<rparr>) s2 of None \<Rightarrow> None
                | Some (iRet, rd2, s3) \<Rightarrow>
                  if iRet \<noteq> 0
                  then Some (-1, rd2\<lparr>m_uiOffset := uiOldOffset\<rparr>,
                         if uiNextRowsSize > 0
                         then cm_move M (m_pchContent rd2 + uiNextRowsOffset) (m_pchContent rd2 + uiNextRowsOffset + d) uiNextRowsSize s3
                         else s3)
                  else let rd3 = rd2\<lparr>m_uiRowCnt := u32_sub (m_uiRowCnt rd2) 1,
                                     m_uiDataSize := u32_sub (m_uiDataSize rd2) uiCurRowSize\<rparr>
                       in Some (0, rd3, set_counts M rd3 s3))))"

definition replace_smaller :: "'s CChunkMem \<Rightarrow> FloatConv \<Rightarrow> bool \<Rightarrow> CRowValue \<Rightarrow> nat \<Rightarrow> nat \<Rightarrow> nat \<Rightarrow> nat \<Rightarrow> CRawData \<Rightarrow> 's
    \<Rightarrow> (int \<times> CRawData \<times> 's) option" where
  "replace_smaller M cnv heap r fl uiOldOffset uiNewRowSize uiCurRowSize rd s =
     (let uiNextRowsOffset = m_uiOffset rd;
          uiNextRowsSize = u32_sub (m_uiDataSize rd) (m_uiOffset rd)
      in if \<not> heap then Some (- ENOMEM, rd, s)
         else
         let pTmpBuf = get_bytes M (m_pchContent rd + m_uiRowOffset rd) uiCurRowSize s
         in (case EncodeRow M cnv r fl False (rd\<lparr>m_uiOffset := m_uiRowOffset rd\<rparr>) s of None \<Rightarrow> None
             | Some (iRet, rd1, s1) \<Rightarrow>
               if iRet \<noteq> 0
               then Some (-1, rd1\<lparr>m_uiOffset := uiOldOffset\<rparr>, cm_put M (m_pchContent rd1 + m_uiRowOffset rd1) pTmpBuf s1)
               else
               let s2 = (if uiNextRowsSize > 0 \<and> m_uiOffset rd1 \<noteq> uiNextRowsOffset
                         then cm_move M (m_pchContent rd1 + m_uiOffset rd1) (m_pchContent rd1 + uiNextRowsOffset) uiNextRowsSize s1
                         else s1)
               in (case cm_ReAlloc M (rd_handle rd1) (u32_sub (u32 (m_uiDataSize rd1 + uiNewRowSize)) uiCurRowSize) s2 of None \<Rightarrow> None
                   | Some (h, s3) \<Rightarrow>
                     let rd2 = (if h \<noteq> INVALID_HANDLE then rd_move_to M h s3 rd1 else rd1);
                         rd3 = rd2\<lparr>m_uiRowCnt := u32_sub (m_uiRowCnt rd2) 1,
                                   m_uiDataSize := u32_sub (m_uiDataSize rd2) uiCurRowSize\<rparr>
                     in Some (0, rd3, set_counts M rd3 s3))))"

definition ReplaceCurRow :: "'s CChunkMem \<Rightarrow> FloatConv \<Rightarrow> bool \<Rightarrow> CRowValue \<Rightarrow> bool \<Rightarrow> CRawData \<Rightarrow> 's
    \<Rightarrow> (int \<times> CRawData \<times> 's) option" where
  "ReplaceCurRow M cnv heap r isDirty rd s =
     (let uiOldOffset = m_uiOffset rd;
          (iRet, rd1) = SkipRow M r rd s
      in if iRet \<noteq> 0 then Some (iRet, rd1\<lparr>m_uiOffset := uiOldOffset\<rparr>, s)
         else (case GET_VALUE_AT_OFFSET M 1 (m_uiRowOffset rd1) rd1 s of
                 None \<Rightarrow> Some (iRet, rd1\<lparr>m_uiOffset := uiOldOffset\<rparr>, s)
               | Some fl \<Rightarrow>
                 let fl1 = (if isDirty then OPER_UPDATE else fl);
                     uiNewRowSize = CalcRowSize r (m_uchKeyIdx rd1);
                     uiCurRowSize = u32_sub (m_uiOffset rd1) (m_uiRowOffset rd1)
                 in if uiNewRowSize > uiCurRowSize
                    then replace_larger M cnv r fl1 uiOldOffset uiNewRowSize uiCurRowSize rd1 s
                    else replace_smaller M cnv heap r fl1 uiOldOffset uiNewRowSize uiCurRowSize rd1 s))"

definition DeleteCurRow :: "'s CChunkMem \<Rightarrow> CRowValue \<Rightarrow> CRawData \<Rightarrow> 's \<Rightarrow> int \<times> CRawData \<times> 's" where
  "DeleteCurRow M r rd s =
     (let (iRet, rd1) = SkipRow M r rd s
      in if iRet \<noteq> 0 then (iRet, rd1\<lparr>m_uiOffset := m_uiOffset rd\<rparr>, s)
         else let s1 = cm_move M (m_pchContent rd1 + m_uiRowOffset rd1) (m_pchContent rd1 + m_uiOffset rd1)
                         (u32_sub (m_uiDataSize rd1) (m_uiOffset rd1)) s;
                  rd2 = rd1\<lparr>m_uiDataSize := u32_sub (m_uiDataSize rd1) (u32_sub (m_uiOffset rd1) (m_uiRowOffset rd1)),
                            m_uiRowCnt := u32_sub (m_uiRowCnt rd1) 1\<rparr>
              in (iRet, rd2\<lparr>m_uiOffset := m_uiRowOffset rd2\<rparr>, set_counts M rd2 s1))"

definition DeleteAllRows :: "'s CChunkMem \<Rightarrow> CRawData \<Rightarrow> 's \<Rightarrow> int \<times> CRawData \<times> 's" where
  "DeleteAllRows M rd s =
     (let rd1 = rd\<lparr>m_uiDataSize := m_uiDataStart rd, m_uiRowOffset := m_uiDataStart rd, m_uiRowCnt := 0,
                   m_uiOffset := m_uiDataStart rd\<rparr>
      in (0, rd1\<lparr>m_uiNeedSize := 0\<rparr>, set_counts M rd1 s))"

definition SetCurRowFlag :: "'s CChunkMem \<Rightarrow> nat \<Rightarrow> CRawData \<Rightarrow> 's \<Rightarrow> int \<times> 's" where
  "SetCurRowFlag M uchFlag rd s =
     (if m_uiRowOffset rd \<ge> m_uiDataSize rd then (-1, s)
      else (0, cm_put M (m_pchContent rd + m_uiRowOffset rd) (le 1 uchFlag) s))"

text \<open>
  \<open>CopyRow\<close> and \<open>CopyAll\<close> read the reference, an object \<open>ref\<close> on an allocator \<open>RM\<close> of its own (the
  rows that a request affects are kept on the process heap and refer to rows in the cache).
\<close>

definition CopyRow :: "'s CChunkMem \<Rightarrow> 'r CChunkMem \<Rightarrow> CRawData \<Rightarrow> 'r \<Rightarrow> CRawData \<Rightarrow> 's \<Rightarrow> (int \<times> CRawData \<times> 's) option" where
  "CopyRow M RM ref t rd s =
     (let uiSize = u32_sub (m_uiOffset ref) (m_uiRowOffset ref)
      in (case ExpandChunk M uiSize rd s of None \<Rightarrow> None
          | Some (iRet, rd1, s1) \<Rightarrow>
            if iRet \<noteq> 0 then Some (iRet, rd1, s1)
            else
            let s2 = cm_put M (m_pchContent rd1 + m_uiOffset rd1)
                       (get_bytes RM (m_pchContent ref + m_uiRowOffset ref) uiSize t) s1;
                rd2 = rd1\<lparr>m_uiOffset := u32 (m_uiOffset rd1 + uiSize), m_uiDataSize := u32 (m_uiDataSize rd1 + uiSize),
                          m_uiRowCnt := u32 (m_uiRowCnt rd1 + 1)\<rparr>
            in Some (0, rd2, set_counts M rd2 s2)))"

definition CopyAll :: "'s CChunkMem \<Rightarrow> 'r CChunkMem \<Rightarrow> CRawData \<Rightarrow> 'r \<Rightarrow> CRawData \<Rightarrow> 's \<Rightarrow> (int \<times> CRawData \<times> 's) option" where
  "CopyAll M RM ref t rd s =
     (case ReAllocChunk M (m_uiDataSize ref) rd s of None \<Rightarrow> None
      | Some (iRet, rd1, s1) \<Rightarrow>
        if iRet \<noteq> 0 then Some (iRet, rd1, s1)
        else
        let s2 = cm_put M (m_pchContent rd1) (get_bytes RM (m_pchContent ref) (m_uiDataSize ref) t) s1;
            (iRet, rd2) = RD_Attach M (rd_handle rd1) (m_uchKeyIdx ref) (m_iKeySize ref) (-1) (-1) rd1 s2
        in Some (iRet, rd2, s2))"

definition AppendNRecords :: "'s CChunkMem \<Rightarrow> nat \<Rightarrow> nat list \<Rightarrow> CRawData \<Rightarrow> 's \<Rightarrow> (int \<times> CRawData \<times> 's) option" where
  "AppendNRecords M uiNRows pchData rd s =
     (case ExpandChunk M (length pchData) rd s of None \<Rightarrow> None
      | Some (iRet, rd1, s1) \<Rightarrow>
        if iRet \<noteq> 0 then Some (iRet, rd1, s1)
        else Some (0, rd1\<lparr>m_uiDataSize := u32 (m_uiDataSize rd1 + length pchData), m_uiRowCnt := u32 (m_uiRowCnt rd1 + uiNRows)\<rparr>,
                   cm_put M (m_pchContent rd1 + m_uiDataSize rd1) pchData s1))"

end
