(* ===== verification/Raw_Data_Format.thy ===== *)
theory Raw_Data_Format
  imports Raw_Data
begin

text \<open>
  The format of packed rows: the bytes of a field, of a row and of the header, and that the loops of
  \<open>CRawData\<close> that encode, size, decode and skip a row agree with them.
\<close>

section \<open>Bytes of a row\<close>

definition num_field :: "CField \<Rightarrow> bool" where
  "num_field f \<longleftrightarrow> fieldType f = Signed \<or> fieldType f = Unsigned \<or> fieldType f = Float"

definition num_width :: "CField \<Rightarrow> nat" where
  "num_width f = (if fieldSize f > 4 then 8 else 4)"

definition num_bits :: "FloatConv \<Rightarrow> CField \<Rightarrow> CValue \<Rightarrow> nat" where
  "num_bits cnv f v =
     (if fieldType f = Float then if fieldSize f > 4 then flt v else to_float cnv (flt v) else u64v v)"

definition field_bytes :: "FloatConv \<Rightarrow> CField \<Rightarrow> CValue \<Rightarrow> nat list" where
  "field_bytes cnv f v =
     (if num_field f then le (num_width f) (num_bits cnv f v) else le 4 (u32_int (bin_len v)) @ take (nat (bin_len v)) (bin_ptr v))"

definition fields_bytes :: "FloatConv \<Rightarrow> CRowValue \<Rightarrow> nat list \<Rightarrow> nat list" where
  "fields_bytes cnv r js = concat (map (\<lambda>j. if IsDiscard r j then [] else field_bytes cnv (tableDef r ! j) (field_value r j)) js)"

definition row_bytes :: "FloatConv \<Rightarrow> nat \<Rightarrow> nat \<times> CRowValue \<Rightarrow> nat list" where
  "row_bytes cnv k = (\<lambda>(fl, r). le 1 fl @ fields_bytes cnv r [k + 1..<NumFields r + 1])"

text \<open>The value fits its field; what a decoded field holds.\<close>

definition value_wf :: "CField \<Rightarrow> CValue \<Rightarrow> bool" where
  "value_wf f v \<longleftrightarrow> (if num_field f then u64v v < 2 ^ 64 \<and> flt v < 2 ^ 64
     else 0 \<le> bin_len v \<and> bin_len v < 2 ^ 31 \<and> length (bin_ptr v) = nat (bin_len v))"

definition load_value :: "FloatConv \<Rightarrow> CField \<Rightarrow> CValue \<Rightarrow> CValue \<Rightarrow> CValue" where
  "load_value cnv f v old =
     (if \<not> num_field f then old\<lparr>bin_len := bin_len v, bin_ptr := bin_ptr v\<rparr>
      else if fieldType f = Float
      then old\<lparr>flt := if fieldSize f > 4 then flt v else to_double cnv (to_float cnv (flt v) mod 2 ^ 32)\<rparr>
      else if fieldSize f > 4 then old\<lparr>u64v := u64v v\<rparr>
      else old\<lparr>u64v := if fieldType f = Signed then sext32 (u64v v mod 2 ^ 32) else u64v v mod 2 ^ 32\<rparr>)"

lemma field_bytes_length: "value_wf f v \<Longrightarrow> length (field_bytes cnv f v) = (if num_field f then num_width f else 4 + nat (bin_len v))"
  by (auto simp: field_bytes_def value_wf_def)

lemma fields_bytes_simps [simp]:
  "fields_bytes cnv r [] = []"
  "fields_bytes cnv r (j # js) = (if IsDiscard r j then [] else field_bytes cnv (tableDef r ! j) (field_value r j)) @ fields_bytes cnv r js"
  by (simp_all add: fields_bytes_def)

lemma NumField_cases: "fieldType f = Signed \<or> fieldType f = Unsigned \<or> fieldType f = Float \<or> \<not> num_field f"
  by (auto simp: num_field_def)

lemma u32_int_nat: "0 \<le> i \<Longrightarrow> i < 2 ^ 32 \<Longrightarrow> u32_int i = nat i"
  by (simp add: u32_int_def)

section \<open>Cursor steps\<close>

lemma SET_VALUE_fits:
  "m_uiOffset rd + n \<le> rd_size rd \<Longrightarrow> rd_size rd < 2 ^ 32 \<Longrightarrow>
   SET_VALUE M x n rd s = Some (rd\<lparr>m_uiOffset := m_uiOffset rd + n\<rparr>, cm_put M (m_pchContent rd + m_uiOffset rd) (le n x) s)"
  by (simp add: SET_VALUE_def)

lemma GET_VALUE_fits:
  "m_uiOffset rd + n \<le> rd_size rd \<Longrightarrow> rd_size rd < 2 ^ 32 \<Longrightarrow> get_bytes M (m_pchContent rd + m_uiOffset rd) n s = le n x \<Longrightarrow>
   GET_VALUE M n rd s = Some (x mod 256 ^ n, rd\<lparr>m_uiOffset := m_uiOffset rd + n\<rparr>)"
  by (simp add: GET_VALUE_def un_le_le)

lemma SKIP_SIZE_fits:
  "m_uiOffset rd + n \<le> rd_size rd \<Longrightarrow> rd_size rd < 2 ^ 32 \<Longrightarrow> SKIP_SIZE n rd = Some (rd\<lparr>m_uiOffset := m_uiOffset rd + n\<rparr>)"
  by (simp add: SKIP_SIZE_def)

lemma SKIP_SIZE_int_fits:
  assumes "0 \<le> i" "m_uiOffset rd + nat i \<le> rd_size rd" "rd_size rd < 2 ^ 32"
  shows "SKIP_SIZE_int i rd = Some (rd\<lparr>m_uiOffset := m_uiOffset rd + nat i\<rparr>)"
proof -
  have "u32_int (int (m_uiOffset rd) + i) = m_uiOffset rd + nat i"
    using assms u32_int_nat [of "int (m_uiOffset rd) + i"] by simp
  then show ?thesis using assms by (simp add: SKIP_SIZE_int_def)
qed

lemma get_bytes_append:
  "get_bytes M a (length xs + n) s = xs @ ys \<longleftrightarrow> get_bytes M a (length xs) s = xs \<and> get_bytes M (a + length xs) n s = ys"
  unfolding get_bytes_split [of "length xs" "length xs + n" M a s, OF le_add1] by (simp add: append_eq_append_conv)

section \<open>Size of a row\<close>

lemma calc_fields_length:
  assumes "\<forall>j\<in>set js. \<not> IsDiscard r j \<longrightarrow> value_wf (tableDef r ! j) (field_value r j)"
    and "t + length (fields_bytes cnv r js) < 2 ^ 32"
  shows "calc_fields r js t = t + length (fields_bytes cnv r js)"
  using assms
proof (induction js arbitrary: t)
  case (Cons j js)
  show ?case
  proof (cases "IsDiscard r j")
    case True
    then show ?thesis using Cons by simp
  next
    case False
    then have w: "value_wf (tableDef r ! j) (field_value r j)" using Cons.prems(1) by simp
    let ?n = "length (field_bytes cnv (tableDef r ! j) (field_value r j))"
    have t: "t + ?n < 2 ^ 32" using False Cons.prems(2) by simp
    have "(if FieldType r j \<in> {Signed, Unsigned, Float} then u32 (t + (if FieldSize r j > 4 then 8 else 4))
         else u32_int (int (u32 (t + 4)) + bin_len (field_value r j))) = t + ?n"
    proof (cases "num_field (tableDef r ! j)")
      case True
      then show ?thesis using t field_bytes_length [OF w]
        by (auto simp: num_field_def num_width_def FieldType_def FieldSize_def)
    next
      case False
      then have l: "?n = 4 + nat (bin_len (field_value r j))" "0 \<le> bin_len (field_value r j)"
        using field_bytes_length [OF w] w by (auto simp: value_wf_def)
      then have "u32_int (int (u32 (t + 4)) + bin_len (field_value r j)) = t + ?n"
        using t u32_int_nat [of "int (t + 4) + bin_len (field_value r j)"] by simp
      then show ?thesis using False by (simp add: num_field_def FieldType_def)
    qed
    then show ?thesis using False Cons.IH [of "t + ?n"] Cons.prems by simp
  qed
qed simp

definition row_wf :: "nat \<Rightarrow> CRowValue \<Rightarrow> bool" where
  "row_wf k r \<longleftrightarrow> (\<forall>j\<in>{k + 1..<NumFields r + 1}. \<not> IsDiscard r j \<longrightarrow> value_wf (tableDef r ! j) (field_value r j))"

lemma CalcRowSize_length:
  "row_wf k r \<Longrightarrow> length (row_bytes cnv k (fl, r)) < 2 ^ 32 \<Longrightarrow> CalcRowSize r k = length (row_bytes cnv k (fl, r))"
  unfolding CalcRowSize_def row_bytes_def by (subst calc_fields_length [of _ _ _ cnv]) (auto simp: row_wf_def)

section \<open>Skipping\<close>

lemma skip_field_ok:
  assumes "value_wf f v" "tableDef r ! j = f" "get_bytes M (m_pchContent rd + m_uiOffset rd) (length (field_bytes cnv f v)) s = field_bytes cnv f v"
    and "m_uiOffset rd + length (field_bytes cnv f v) \<le> rd_size rd" "rd_size rd < 2 ^ 32"
  shows "skip_field M s j r rd = (True, rd\<lparr>m_uiOffset := m_uiOffset rd + length (field_bytes cnv f v)\<rparr>)"
proof (cases "num_field f")
  case True
  then show ?thesis using assms SKIP_SIZE_fits [of rd "num_width f"] field_bytes_length [OF assms(1)]
    by (auto simp: skip_field_def FieldType_def FieldSize_def num_field_def num_width_def)
next
  case False
  let ?b = "take (nat (bin_len v)) (bin_ptr v)"
  have len: "0 \<le> bin_len v" "bin_len v < 2 ^ 31" "length (field_bytes cnv f v) = 4 + nat (bin_len v)"
    using False assms(1) field_bytes_length [OF assms(1)] by (auto simp: value_wf_def)
  have g: "get_bytes M (m_pchContent rd + m_uiOffset rd) 4 s = le 4 (u32_int (bin_len v))"
    using assms(3) get_bytes_append [of M _ "le 4 (u32_int (bin_len v))" "nat (bin_len v)" s ?b] False len(3)
    by (simp add: field_bytes_def)
  have "GET_VALUE M 4 rd s = Some (u32_int (bin_len v) mod 256 ^ 4, rd\<lparr>m_uiOffset := m_uiOffset rd + 4\<rparr>)"
    using GET_VALUE_fits [OF _ assms(5) g] assms(4) len(3) by simp
  moreover have "u32_int (bin_len v) mod 256 ^ 4 = u32_int (bin_len v)" using len(1,2) by (simp add: u32_int_nat)
  moreover have "s32 (u32_int (bin_len v)) = bin_len v" using len(1,2) by (intro s32_u32_int) auto
  moreover have "SKIP_SIZE_int (bin_len v) (rd\<lparr>m_uiOffset := m_uiOffset rd + 4\<rparr>) = Some (rd\<lparr>m_uiOffset := m_uiOffset rd + (4 + nat (bin_len v))\<rparr>)"
    using SKIP_SIZE_int_fits [OF len(1), of "rd\<lparr>m_uiOffset := m_uiOffset rd + 4\<rparr>"] assms(4,5) len(3) by (simp add: add.assoc)
  ultimately show ?thesis using False len(3) assms(2)
    by (auto simp: skip_field_def FieldType_def num_field_def split: DField.split)
qed

lemma skip_fields_ok:
  assumes "\<forall>j\<in>set js. \<not> IsDiscard q j \<longrightarrow> value_wf (tableDef q ! j) (field_value q j)" "tableDef r = tableDef q"
    and "get_bytes M (m_pchContent rd + m_uiOffset rd) (length (fields_bytes cnv q js)) s = fields_bytes cnv q js"
    and "m_uiOffset rd + length (fields_bytes cnv q js) \<le> rd_size rd" "rd_size rd < 2 ^ 32"
  shows "skip_fields M s js r rd = (True, rd\<lparr>m_uiOffset := m_uiOffset rd + length (fields_bytes cnv q js)\<rparr>)"
  using assms
proof (induction js arbitrary: rd)
  case (Cons j js)
  have d: "IsDiscard r j = IsDiscard q j" using Cons.prems(2) by (simp add: IsDiscard_def)
  show ?case
  proof (cases "IsDiscard q j")
    case True
    then show ?thesis using Cons d by simp
  next
    case False
    let ?b = "field_bytes cnv (tableDef q ! j) (field_value q j)"
    let ?rd = "rd\<lparr>m_uiOffset := m_uiOffset rd + length ?b\<rparr>"
    have g: "get_bytes M (m_pchContent rd + m_uiOffset rd) (length ?b) s = ?b"
      "get_bytes M (m_pchContent rd + (m_uiOffset rd + length ?b)) (length (fields_bytes cnv q js)) s = fields_bytes cnv q js"
      using Cons.prems(3) False by (auto simp: get_bytes_append add.assoc)
    have "skip_field M s j r rd = (True, ?rd)"
      using skip_field_ok [OF _ _ g(1)] False Cons.prems by simp
    moreover have "skip_fields M s js r ?rd = (True, ?rd\<lparr>m_uiOffset := m_uiOffset ?rd + length (fields_bytes cnv q js)\<rparr>)"
      using g(2) Cons.prems False by (intro Cons.IH) auto
    ultimately show ?thesis using False d by (simp add: add.assoc)
  qed
qed simp

section \<open>Decoding\<close>

definition load_fields :: "FloatConv \<Rightarrow> CRowValue \<Rightarrow> nat list \<Rightarrow> CRowValue \<Rightarrow> CRowValue" where
  "load_fields cnv q js = fold (\<lambda>j r. if IsDiscard q j then r else set_field j (load_value cnv (tableDef q ! j) (field_value q j)) r) js"

lemma load_fields_simps [simp]:
  "load_fields cnv q [] r = r"
  "load_fields cnv q (j # js) r =
     load_fields cnv q js (if IsDiscard q j then r else set_field j (load_value cnv (tableDef q ! j) (field_value q j)) r)"
  by (simp_all add: load_fields_def)

lemma load_fields_table [simp]: "tableDef (load_fields cnv q js r) = tableDef r"
  by (induction js arbitrary: r) (auto simp: set_field_def)

lemma load_fields_value:
  "distinct js \<Longrightarrow> field_value (load_fields cnv q js r) j =
     (if j \<in> set js \<and> \<not> IsDiscard q j then load_value cnv (tableDef q ! j) (field_value q j) (field_value r j) else field_value r j)"
  by (induction js arbitrary: r) (auto simp: set_field_def)

lemma decode_num_ok:
  assumes "get_bytes M (m_pchContent rd + m_uiOffset rd) n s = le n x" "m_uiOffset rd + n \<le> rd_size rd" "rd_size rd < 2 ^ 32"
  shows "decode_num M s j n f rd r = (True, rd\<lparr>m_uiOffset := m_uiOffset rd + n\<rparr>, set_field j (f (x mod 256 ^ n)) r)"
  using GET_VALUE_fits [OF assms(2,3,1)] by (simp add: decode_num_def)

lemma decode_field_ok:
  assumes "value_wf f v" "tableDef r ! j = f" "get_bytes M (m_pchContent rd + m_uiOffset rd) (length (field_bytes cnv f v)) s = field_bytes cnv f v"
    and "m_uiOffset rd + length (field_bytes cnv f v) \<le> rd_size rd" "rd_size rd < 2 ^ 32"
  shows "decode_field M cnv s j rd r =
     (True, rd\<lparr>m_uiOffset := m_uiOffset rd + length (field_bytes cnv f v)\<rparr>, set_field j (load_value cnv f v) r)"
proof (cases "num_field f")
  case True
  let ?x = "num_bits cnv f v"
  have l: "length (field_bytes cnv f v) = num_width f" "field_bytes cnv f v = le (num_width f) ?x"
    using True by (simp_all add: field_bytes_def)
  have g: "get_bytes M (m_pchContent rd + m_uiOffset rd) (num_width f) s = le (num_width f) ?x" using assms(3) l by simp
  note d = decode_num_ok [OF g _ assms(5), of j _ r]
  have b: "u64v v mod 256 ^ 8 = u64v v" "flt v mod 256 ^ 8 = flt v" using assms(1) True by (simp_all add: value_wf_def)
  show ?thesis using True d b assms(2,4) l
    by (auto simp: decode_field_def FieldType_def FieldSize_def num_field_def num_width_def num_bits_def load_value_def set_field_def)
next
  case False
  let ?b = "take (nat (bin_len v)) (bin_ptr v)"
  have len: "0 \<le> bin_len v" "bin_len v < 2 ^ 31" "length (field_bytes cnv f v) = 4 + nat (bin_len v)" "?b = bin_ptr v"
    using False assms(1) field_bytes_length [OF assms(1)] by (auto simp: value_wf_def)
  have g: "get_bytes M (m_pchContent rd + m_uiOffset rd) 4 s = le 4 (u32_int (bin_len v))"
    "get_bytes M (m_pchContent rd + (m_uiOffset rd + 4)) (nat (bin_len v)) s = bin_ptr v"
    using assms(3) get_bytes_append [of M _ "le 4 (u32_int (bin_len v))" "nat (bin_len v)" s ?b] False len(3,4)
    by (simp_all add: field_bytes_def add.assoc)
  have "GET_VALUE M 4 rd s = Some (u32_int (bin_len v) mod 256 ^ 4, rd\<lparr>m_uiOffset := m_uiOffset rd + 4\<rparr>)"
    using GET_VALUE_fits [OF _ assms(5) g(1)] assms(4) len(3) by simp
  moreover have "u32_int (bin_len v) mod 256 ^ 4 = u32_int (bin_len v)" using len(1,2) by (simp add: u32_int_nat)
  moreover have "s32 (u32_int (bin_len v)) = bin_len v" using len(1,2) by (intro s32_u32_int) auto
  moreover have "SKIP_SIZE_int (bin_len v) (rd\<lparr>m_uiOffset := m_uiOffset rd + 4\<rparr>) = Some (rd\<lparr>m_uiOffset := m_uiOffset rd + (4 + nat (bin_len v))\<rparr>)"
    using SKIP_SIZE_int_fits [OF len(1), of "rd\<lparr>m_uiOffset := m_uiOffset rd + 4\<rparr>"] assms(4,5) len(3) by (simp add: add.assoc)
  moreover have "load_value cnv f v = (\<lambda>old. old\<lparr>bin_len := bin_len v, bin_ptr := bin_ptr v\<rparr>)"
    using False by (simp add: load_value_def fun_eq_iff)
  ultimately have "decode_bin M s j rd r =
     (True, rd\<lparr>m_uiOffset := m_uiOffset rd + length (field_bytes cnv f v)\<rparr>, set_field j (load_value cnv f v) r)"
    using g(2) len(3) by (simp add: decode_bin_def Let_def)
  then show ?thesis using False assms(2)
    by (auto simp: decode_field_def FieldType_def num_field_def split: DField.split)
qed

lemma decode_fields_ok:
  assumes "\<forall>j\<in>set js. \<not> IsDiscard q j \<longrightarrow> value_wf (tableDef q ! j) (field_value q j)" "tableDef r = tableDef q"
    and "get_bytes M (m_pchContent rd + m_uiOffset rd) (length (fields_bytes cnv q js)) s = fields_bytes cnv q js"
    and "m_uiOffset rd + length (fields_bytes cnv q js) \<le> rd_size rd" "rd_size rd < 2 ^ 32"
  shows "\<exists>la. decode_fields M cnv s js rd r =
     (True, rd\<lparr>m_uiOffset := m_uiOffset rd + length (fields_bytes cnv q js), m_uiLAOffset := la\<rparr>, load_fields cnv q js r)"
  using assms
proof (induction js arbitrary: rd r)
  case Nil
  have "rd\<lparr>m_uiLAOffset := m_uiLAOffset rd\<rparr> = rd" by simp
  then show ?case by (auto intro: exI [of _ "m_uiLAOffset rd"])
next
  case (Cons j js)
  have d: "IsDiscard r j = IsDiscard q j" using Cons.prems(2) by (simp add: IsDiscard_def)
  show ?case
  proof (cases "IsDiscard q j")
    case True
    then show ?thesis using Cons.IH [of r rd] Cons.prems d by simp
  next
    case False
    let ?b = "field_bytes cnv (tableDef q ! j) (field_value q j)"
    let ?la = "if int j = m_iLAId rd then rd\<lparr>m_uiLAOffset := m_uiOffset rd\<rparr> else rd"
    let ?rd = "?la\<lparr>m_uiOffset := m_uiOffset ?la + length ?b\<rparr>"
    let ?r = "set_field j (load_value cnv (tableDef q ! j) (field_value q j)) r"
    have r0: "m_uiOffset ?la = m_uiOffset rd" "m_pchContent ?la = m_pchContent rd" "rd_size ?la = rd_size rd" by simp_all
    have g: "get_bytes M (m_pchContent ?la + m_uiOffset ?la) (length ?b) s = ?b"
      "get_bytes M (m_pchContent rd + (m_uiOffset rd + length ?b)) (length (fields_bytes cnv q js)) s = fields_bytes cnv q js"
      using Cons.prems(3) False unfolding r0 by (auto simp: get_bytes_append add.assoc)
    have "decode_field M cnv s j ?la r = (True, ?rd, ?r)"
      using False Cons.prems r0 by (intro decode_field_ok [OF _ _ g(1)]) auto
    moreover have "\<exists>l. decode_fields M cnv s js ?rd ?r =
        (True, ?rd\<lparr>m_uiOffset := m_uiOffset ?rd + length (fields_bytes cnv q js), m_uiLAOffset := l\<rparr>, load_fields cnv q js ?r)"
      using g(2) Cons.prems False by (intro Cons.IH) (auto simp: set_field_def)
    then obtain l where "decode_fields M cnv s js ?rd ?r =
        (True, ?rd\<lparr>m_uiOffset := m_uiOffset ?rd + length (fields_bytes cnv q js), m_uiLAOffset := l\<rparr>, load_fields cnv q js ?r)" ..
    ultimately have "decode_fields M cnv s (j # js) rd r =
        (True, ?rd\<lparr>m_uiOffset := m_uiOffset ?rd + length (fields_bytes cnv q js), m_uiLAOffset := l\<rparr>, load_fields cnv q js ?r)"
      using False d by (simp only: decode_fields.simps Let_def case_prod_conv if_True if_False)
    moreover have "?rd\<lparr>m_uiOffset := m_uiOffset ?rd + length (fields_bytes cnv q js), m_uiLAOffset := l\<rparr>
       = rd\<lparr>m_uiOffset := m_uiOffset rd + length (fields_bytes cnv q (j # js)), m_uiLAOffset := l\<rparr>"
      using False by (simp add: add.assoc)
    ultimately show ?thesis using False by (intro exI [of _ l]) simp
  qed
qed

section \<open>Encoding\<close>

context chunk_memory
begin

lemma encode_field_ok:
  assumes "value_wf (tableDef r ! j) (field_value r j)" "rd_size rd < 2 ^ 32"
    and "m_uiOffset rd + length (field_bytes cnv (tableDef r ! j) (field_value r j)) \<le> rd_size rd"
  shows "encode_field M cnv r j rd s =
     Some (True, rd\<lparr>m_uiOffset := m_uiOffset rd + length (field_bytes cnv (tableDef r ! j) (field_value r j))\<rparr>,
       cm_put M (m_pchContent rd + m_uiOffset rd) (field_bytes cnv (tableDef r ! j) (field_value r j)) s)"
proof (cases "num_field (tableDef r ! j)")
  case True
  then show ?thesis using assms SET_VALUE_fits [of rd "num_width (tableDef r ! j)" M _ s] field_bytes_length [OF assms(1), of cnv]
    by (auto simp: encode_field_def FieldType_def FieldSize_def num_field_def num_width_def num_bits_def encode_num_def field_bytes_def)
next
  case False
  let ?v = "field_value r j"
  let ?b = "le 4 (u32_int (bin_len ?v))"
  have len: "0 \<le> bin_len ?v" "length (field_bytes cnv (tableDef r ! j) ?v) = 4 + nat (bin_len ?v)" "length (bin_ptr ?v) = nat (bin_len ?v)"
    using False assms(1) field_bytes_length [OF assms(1)] by (auto simp: value_wf_def)
  have e: "int (m_uiOffset rd) + 4 + bin_len ?v = int (m_uiOffset rd + 4 + nat (bin_len ?v))" using len(1) by simp
  have "SET_BIN_VALUE M (bin_ptr ?v) (bin_len ?v) rd s =
     Some (Some (rd\<lparr>m_uiOffset := m_uiOffset rd + (4 + nat (bin_len ?v))\<rparr>,
       cm_put M (m_pchContent rd + m_uiOffset rd) (?b @ bin_ptr ?v) s))"
  proof (cases "bin_len ?v = 0")
    case True
    then show ?thesis using assms(2,3) len by (simp add: SET_BIN_VALUE_def)
  next
    case False
    have "nat ((int (m_uiOffset rd) + 4 + bin_len ?v) mod 2 ^ 64) = m_uiOffset rd + 4 + nat (bin_len ?v)"
      unfolding e using assms(2,3) len(2) by (simp del: of_nat_add)
    moreover have "u32_int (int (m_uiOffset rd + 4) + bin_len ?v) = m_uiOffset rd + (4 + nat (bin_len ?v))"
      using assms(2,3) len u32_int_nat [of "int (m_uiOffset rd + 4) + bin_len ?v"] by simp
    ultimately show ?thesis using False assms(2,3) len cm_put_put [of "m_pchContent rd + m_uiOffset rd" ?b "bin_ptr ?v" s]
      by (simp add: SET_BIN_VALUE_def Let_def add.assoc)
  qed
  moreover have "field_bytes cnv (tableDef r ! j) ?v = ?b @ bin_ptr ?v" using False len(3) by (simp add: field_bytes_def)
  ultimately show ?thesis using False len(2) by (auto simp: encode_field_def Let_def FieldType_def num_field_def split: DField.split)
qed

lemma encode_fields_ok:
  assumes "\<forall>j\<in>set js. \<not> IsDiscard r j \<longrightarrow> value_wf (tableDef r ! j) (field_value r j)" "rd_size rd < 2 ^ 32"
    and "m_uiOffset rd + length (fields_bytes cnv r js) \<le> rd_size rd"
  shows "encode_fields M cnv r js rd s =
     Some (True, rd\<lparr>m_uiOffset := m_uiOffset rd + length (fields_bytes cnv r js)\<rparr>,
       cm_put M (m_pchContent rd + m_uiOffset rd) (fields_bytes cnv r js) s)"
  using assms
proof (induction js arbitrary: rd s)
  case Nil
  then show ?case by (simp add: cm_put_nil)
next
  case (Cons j js)
  show ?case
  proof (cases "IsDiscard r j")
    case True
    then show ?thesis using Cons by simp
  next
    case False
    let ?b = "field_bytes cnv (tableDef r ! j) (field_value r j)"
    have "encode_field M cnv r j rd s = Some (True, rd\<lparr>m_uiOffset := m_uiOffset rd + length ?b\<rparr>,
       cm_put M (m_pchContent rd + m_uiOffset rd) ?b s)"
      using Cons.prems False by (intro encode_field_ok) auto
    then show ?thesis using False Cons.prems Cons.IH [of "rd\<lparr>m_uiOffset := m_uiOffset rd + length ?b\<rparr>"]
        cm_put_put [of "m_pchContent rd + m_uiOffset rd" ?b]
      by (simp add: add.assoc)
  qed
qed

end

end
