(* ===== verification/Raw_Data_Memory.thy ===== *)
theory Raw_Data_Memory
  imports Raw_Data_Format
begin

text \<open>
  What the operations of \<open>CRawData\<close> do to the chunk of the object, as rules on the bytes it holds:
  stores, moves, reallocation, the counters of the header and the encoding of a row.  Every rule also
  says that the other chunks of the allocator stay as they are.
\<close>

section \<open>The chunk of an object\<close>

definition chunk_step :: "'s CChunkMem \<Rightarrow> ('s \<Rightarrow> (handle \<times> nat) set) \<Rightarrow> handle \<Rightarrow> 's \<Rightarrow> handle \<Rightarrow> 's \<Rightarrow> bool" where
  "chunk_step M chunks h s h' s' \<longleftrightarrow>
     (\<forall>g j. (g, j) \<in> chunks s \<longrightarrow> g \<noteq> h \<longrightarrow> g \<noteq> h' \<and> (g, j) \<in> chunks s' \<and> get_bytes M g j s' = get_bytes M g j s)"

lemma chunk_step_refl [simp]: "chunk_step M chunks h s h s"
  by (simp add: chunk_step_def)

lemma chunk_step_trans:
  "chunk_step M chunks h s h' s' \<Longrightarrow> chunk_step M chunks h' s' h'' s'' \<Longrightarrow> chunk_step M chunks h s h'' s''"
  unfolding chunk_step_def by metis

text \<open>
  The chunk of the object starts with the bytes \<open>B\<close>, and the chunks other than \<open>h\<close> are as in \<open>s0\<close>.
\<close>

definition rd_has :: "'s CChunkMem \<Rightarrow> ('s \<Rightarrow> bool) \<Rightarrow> ('s \<Rightarrow> (handle \<times> nat) set) \<Rightarrow> handle \<Rightarrow> 's \<Rightarrow> CRawData \<Rightarrow> nat list \<Rightarrow> 's \<Rightarrow> bool" where
  "rd_has M ok chunks h s0 rd B s \<longleftrightarrow>
     ok s \<and> (rd_handle rd, rd_size rd) \<in> chunks s \<and> m_pchContent rd = rd_handle rd
     \<and> length B \<le> rd_size rd \<and> get_bytes M (rd_handle rd) (length B) s = B
     \<and> chunk_step M chunks h s0 (rd_handle rd) s"

lemma rd_has_cong:
  "rd_handle rd' = rd_handle rd \<Longrightarrow> rd_size rd' = rd_size rd \<Longrightarrow> m_pchContent rd' = m_pchContent rd \<Longrightarrow>
   rd_has M ok chunks h s0 rd' B s = rd_has M ok chunks h s0 rd B s"
  by (simp add: rd_has_def)

lemma rd_has_simps [simp]:
  "rd_has M ok chunks h s0 (rd\<lparr>m_uiOffset := x\<rparr>) B s = rd_has M ok chunks h s0 rd B s"
  "rd_has M ok chunks h s0 (rd\<lparr>m_uiDataSize := x\<rparr>) B s = rd_has M ok chunks h s0 rd B s"
  "rd_has M ok chunks h s0 (rd\<lparr>m_uiRowCnt := x\<rparr>) B s = rd_has M ok chunks h s0 rd B s"
  "rd_has M ok chunks h s0 (rd\<lparr>m_uiRowOffset := x\<rparr>) B s = rd_has M ok chunks h s0 rd B s"
  "rd_has M ok chunks h s0 (rd\<lparr>m_uiNeedSize := x\<rparr>) B s = rd_has M ok chunks h s0 rd B s"
  "rd_has M ok chunks h s0 (rd\<lparr>m_uiLAOffset := x\<rparr>) B s = rd_has M ok chunks h s0 rd B s"
  by (simp_all add: rd_has_def)

lemma rd_has_restart: "rd_has M ok chunks h s0 rd B s \<Longrightarrow> rd_has M ok chunks (rd_handle rd) s rd B s"
  by (simp add: rd_has_def)

lemma rd_has_take: "rd_has M ok chunks h s0 rd (B @ C) s \<Longrightarrow> rd_has M ok chunks h s0 rd B s"
  unfolding rd_has_def using get_bytes_append [of M "rd_handle rd" B "length C" s C] by auto

lemma rd_has_extend:
  assumes "rd_has M ok chunks h s0 rd B s" "length B + m \<le> rd_size rd"
  obtains C where "length C = m" "rd_has M ok chunks h s0 rd (B @ C) s"
proof
  show "length (get_bytes M (rd_handle rd + length B) m s) = m" by simp
  show "rd_has M ok chunks h s0 rd (B @ get_bytes M (rd_handle rd + length B) m s) s"
    using assms unfolding rd_has_def by (simp add: get_bytes_append)
qed

lemma rd_has_get:
  assumes "rd_has M ok chunks h s0 rd (xs @ ys @ zs) s"
  shows "get_bytes M (m_pchContent rd + length xs) (length ys) s = ys"
  using assms unfolding rd_has_def
  by (auto simp: get_bytes_append)

context chunk_memory
begin

lemma rd_has_bounds:
  assumes "rd_has M ok chunks h s0 rd B s"
  shows "rd_handle rd \<noteq> 0" "m_pchContent rd \<noteq> 0" "rd_size rd < 4294967296" "length B \<le> rd_size rd"
  using assms cm_handle unfolding rd_has_def by auto

lemma chunk_step_put:
  assumes "ok s" "(h, k) \<in> chunks s" "i + length bs \<le> k"
  shows "chunk_step M chunks h s h (cm_put M (h + i) bs s)"
  unfolding chunk_step_def
proof (intro allI impI)
  fix g j
  assume g: "(g, j) \<in> chunks s" "g \<noteq> h"
  have "h + k \<le> g \<or> g + j \<le> h" using cm_apart [OF assms(1,2) g(1)] g(2) by auto
  then have "cm_get M (cm_put M (h + i) bs s) (g + x) = cm_get M s (g + x)" if "x < j" for x
    using assms(3) that by (auto simp: cm_get_put)
  then have "get_bytes M g j (cm_put M (h + i) bs s) = get_bytes M g j s" by (intro nth_equalityI) auto
  then show "g \<noteq> h \<and> (g, j) \<in> chunks (cm_put M (h + i) bs s) \<and> get_bytes M g j (cm_put M (h + i) bs s) = get_bytes M g j s"
    using g by (simp add: cm_put_chunks)
qed

lemma rd_has_put:
  assumes "rd_has M ok chunks h s0 rd (xs @ zs @ ws) s" "length ys = length zs"
  shows "rd_has M ok chunks h s0 rd (xs @ ys @ ws) (cm_put M (m_pchContent rd + length xs) ys s)"
proof -
  let ?B = "xs @ zs @ ws"
  have a: "ok s" "(rd_handle rd, rd_size rd) \<in> chunks s" "m_pchContent rd = rd_handle rd" "length ?B \<le> rd_size rd"
    "get_bytes M (rd_handle rd) (length ?B) s = ?B" "chunk_step M chunks h s0 (rd_handle rd) s"
    using assms(1) by (auto simp: rd_has_def)
  have l: "length xs + length ys \<le> rd_size rd" "length (xs @ ys @ ws) = length ?B" using a(4) assms(2) by auto
  have "get_bytes M (rd_handle rd) (length ?B) (cm_put M (rd_handle rd + length xs) ys s) = overwrite (length xs) ys ?B"
    using get_bytes_put [of "length xs" ys "length ?B" "rd_handle rd" s] assms(2) a(5) by simp
  also have "\<dots> = xs @ ys @ ws" using assms(2) by (simp add: overwrite_def)
  finally show ?thesis unfolding rd_has_def l(2) a(3)
    using a cm_put_ok [OF a(1,2) l(1)] chunk_step_trans [OF a(6) chunk_step_put [OF a(1,2) l(1)]] by (simp add: cm_put_chunks)
qed

text \<open>\<open>memmove\<close> of the bytes \<open>ms\<close>, found at \<open>src\<close>, over the bytes \<open>zs\<close>.\<close>

lemma rd_has_move:
  assumes "rd_has M ok chunks h s0 rd (xs @ zs @ ws) s" "xs @ zs @ ws = ps @ ms @ qs" "length ms = length zs"
  shows "rd_has M ok chunks h s0 rd (xs @ ms @ ws) (cm_move M (m_pchContent rd + length xs) (m_pchContent rd + length ps) (length ms) s)"
proof -
  have "get_bytes M (m_pchContent rd + length ps) (length ms) s = ms"
    using assms(1) unfolding assms(2) by (rule rd_has_get)
  then show ?thesis unfolding cm_move_def using rd_has_put [OF assms(1,3)] by simp
qed

lemma rd_has_realloc:
  assumes "rd_has M ok chunks h s0 rd B s" "0 < n" "length B \<le> n"
  obtains s' where "cm_ReAlloc M (rd_handle rd) n s = Some (INVALID_HANDLE, s')" "rd_has M ok chunks h s0 rd B s'"
  | h' s' where "cm_ReAlloc M (rd_handle rd) n s = Some (h', s')" "h' \<noteq> INVALID_HANDLE"
      "rd_has M ok chunks h s0 (rd_move_to M h' s' rd) B s'" "n \<le> rd_size (rd_move_to M h' s' rd)"
proof -
  have a: "ok s" "(rd_handle rd, rd_size rd) \<in> chunks s" "m_pchContent rd = rd_handle rd" "length B \<le> rd_size rd"
    "get_bytes M (rd_handle rd) (length B) s = B" "chunk_step M chunks h s0 (rd_handle rd) s"
    using assms(1) by (auto simp: rd_has_def)
  obtain h' s' where r: "cm_ReAlloc M (rd_handle rd) n s = Some (h', s')" by (meson cm_realloc [OF a(1,2) assms(2)])
  note law = cm_realloc [OF a(1,2) assms(2), unfolded r option.inject prod.inject, simplified]
  show ?thesis
  proof (cases "h' = 0")
    case True
    with law have l: "ok s'" "chunks s' = chunks s" "cm_get M s' = cm_get M s" by auto
    then have "get_bytes M x k s' = get_bytes M x k s" for x k by (simp add: get_bytes_def)
    then have "rd_has M ok chunks h s0 rd B s'" using a l by (simp add: rd_has_def chunk_step_def)
    then show ?thesis using r True by (intro that(1)) (auto simp: INVALID_HANDLE_def)
  next
    case False
    let ?h = "rd_handle rd" and ?k = "rd_size rd"
    from False law obtain k' where k: "ok s'" "n \<le> k'" "h' \<notin> fst ` (chunks s - {(?h, ?k)})" "chunks s' = insert (h', k') (chunks s - {(?h, ?k)})"
      "\<forall>i. i < ?k \<and> i < k' \<longrightarrow> cm_get M s' (h' + i) = cm_get M s (?h + i)"
      "\<forall>g j. (g, j) \<in> chunks s \<and> (g = ?h \<longrightarrow> j \<noteq> ?k) \<longrightarrow> (\<forall>i<j. cm_get M s' (g + i) = cm_get M s (g + i))" by auto
    have z: "cm_ChunkSize M h' s' = k'" using cm_size [OF k(1)] k(4) by blast
    have b: "get_bytes M h' (length B) s' = get_bytes M ?h (length B) s"
      by (rule nth_equalityI) (use k(2,5) a(4) assms(3) in auto)
    have "chunk_step M chunks ?h s h' s'" unfolding chunk_step_def
    proof (intro allI impI)
      fix g j
      assume g: "(g, j) \<in> chunks s" "g \<noteq> ?h"
      then have "get_bytes M g j s' = get_bytes M g j s" using k(6) by (intro nth_equalityI) auto
      then show "g \<noteq> h' \<and> (g, j) \<in> chunks s' \<and> get_bytes M g j s' = get_bytes M g j s" using g k(3,4) by force
    qed
    then have "rd_has M ok chunks h s0 (rd_move_to M h' s' rd) B s'"
      using a k(1,2,4) z b assms(3) chunk_step_trans [OF a(6)] by (simp add: rd_has_def rd_move_to_def)
    then show ?thesis using r False k(2) z by (intro that(2)) (auto simp: INVALID_HANDLE_def rd_move_to_def)
  qed
qed

section \<open>Header and rows\<close>

lemma set_counts_has:
  assumes "rd_has M ok chunks h s0 rd (t @ a @ b @ B) s" "length t = 1" "length a = 4" "length b = 4"
  shows "rd_has M ok chunks h s0 rd (t @ le 4 (m_uiDataSize rd) @ le 4 (m_uiRowCnt rd) @ B) (set_counts M rd s)"
proof -
  have l: "9 \<le> rd_size rd" using rd_has_bounds(4) [OF assms(1)] assms(2-4) by simp
  let ?s = "cm_put M (m_pchContent rd + 1) (le 4 (m_uiDataSize rd)) s"
  have 1: "rd_has M ok chunks h s0 rd (t @ le 4 (m_uiDataSize rd) @ b @ B) ?s"
    using rd_has_put [OF assms(1), of "le 4 (m_uiDataSize rd)"] assms(2,3) by simp
  have "rd_has M ok chunks h s0 rd ((t @ le 4 (m_uiDataSize rd)) @ le 4 (m_uiRowCnt rd) @ B)
     (cm_put M (m_pchContent rd + length (t @ le 4 (m_uiDataSize rd))) (le 4 (m_uiRowCnt rd)) ?s)"
    by (rule rd_has_put [where zs = b]) (use 1 assms(4) in auto)
  then show ?thesis using l assms(2) by (simp add: set_counts_def SetDataSize_def SetRowCount_def SET_VALUE_AT_OFFSET_def)
qed

lemma encode_row_has:
  assumes has: "rd_has M ok chunks h s0 rd (t @ a @ b @ B @ Z @ C) s" "length t = 1" "length a = 4" "length b = 4"
    and off: "m_uiOffset rd = 9 + length B" and wf: "row_wf (m_uchKeyIdx rd) r"
    and Z: "length Z = length (row_bytes cnv (m_uchKeyIdx rd) (fl, r))"
    and small: "m_uiDataSize rd + length Z < 2 ^ 32" "m_uiRowCnt rd + 1 < 2 ^ 32"
  shows "\<exists>s'. encode_row M cnv r fl rd s =
      Some (0, rd\<lparr>m_uiOffset := m_uiOffset rd + length Z, m_uiDataSize := m_uiDataSize rd + length Z, m_uiRowCnt := m_uiRowCnt rd + 1\<rparr>, s')
    \<and> rd_has M ok chunks h s0 rd (t @ le 4 (m_uiDataSize rd + length Z) @ le 4 (m_uiRowCnt rd + 1) @ B @ row_bytes cnv (m_uchKeyIdx rd) (fl, r) @ C) s'"
proof -
  let ?k = "m_uchKeyIdx rd" and ?o = "m_uiOffset rd"
  define js where "js = [?k + 1..<NumFields r + 1]"
  let ?f = "fields_bytes cnv r js"
  let ?R = "row_bytes cnv ?k (fl, r)"
  let ?s1 = "cm_put M (m_pchContent rd + ?o) (le 1 fl) s" and ?s2 = "cm_put M (m_pchContent rd + ?o) ?R s"
  let ?rd2 = "rd\<lparr>m_uiOffset := ?o + length Z\<rparr>"
  let ?rd4 = "?rd2\<lparr>m_uiDataSize := m_uiDataSize rd + length Z, m_uiRowCnt := m_uiRowCnt rd + 1\<rparr>"
  note bd = rd_has_bounds [OF has(1)]
  have R: "?R = le 1 fl @ ?f" "length Z = 1 + length ?f" using Z by (simp_all add: row_bytes_def js_def del: upt_Suc)
  have fits: "?o + length Z \<le> rd_size rd" using bd(4) has(2-4) off by simp
  have e1: "SET_VALUE M fl 1 rd s = Some (rd\<lparr>m_uiOffset := ?o + 1\<rparr>, ?s1)"
    using fits bd(3) R(2) by (intro SET_VALUE_fits) auto
  have "encode_fields M cnv r js (rd\<lparr>m_uiOffset := ?o + 1\<rparr>) ?s1 =
     Some (True, rd\<lparr>m_uiOffset := ?o + 1 + length ?f\<rparr>, cm_put M (m_pchContent rd + (?o + 1)) ?f ?s1)"
    using wf fits bd(3) R(2) by (subst encode_fields_ok) (auto simp: row_wf_def js_def simp del: upt_Suc)
  moreover have "cm_put M (m_pchContent rd + (?o + 1)) ?f ?s1 = ?s2"
    unfolding R(1) using cm_put_put [of "m_pchContent rd + ?o" "le 1 fl" ?f s] by (simp add: add.assoc)
  ultimately have e2: "encode_fields M cnv r js (rd\<lparr>m_uiOffset := ?o + 1\<rparr>) ?s1 = Some (True, ?rd2, ?s2)"
    using R(2) by (simp only: add.assoc)
  have c: "CalcRowSize r ?k = length Z" using CalcRowSize_length [OF wf] Z small(1) by simp
  have st: "stored_fields (rd\<lparr>m_uiOffset := ?o + 1\<rparr>) r = js" by (simp add: stored_fields_def js_def)
  have enc: "encode_row M cnv r fl rd s = Some (0, ?rd4, set_counts M ?rd4 ?s2)"
    unfolding encode_row_def e1 option.case prod.case st e2 bool.case using c small
    by (simp add: set_counts_def SetDataSize_def SetRowCount_def SET_VALUE_AT_OFFSET_def)
  have "rd_has M ok chunks h s0 rd ((t @ a @ b @ B) @ ?R @ C) (cm_put M (m_pchContent rd + length (t @ a @ b @ B)) ?R s)"
    by (rule rd_has_put [where zs = Z]) (use has(1) Z in auto)
  then have "rd_has M ok chunks h s0 ?rd4 (t @ a @ b @ B @ ?R @ C) ?s2" using has(2-4) off by simp
  from set_counts_has [OF this has(2-4)] have "rd_has M ok chunks h s0 rd (t @ le 4 (m_uiDataSize rd + length Z) @ le 4 (m_uiRowCnt rd + 1) @ B @ ?R @ C) (set_counts M ?rd4 ?s2)"
    by simp
  with enc show ?thesis by auto
qed

end

end
