(* ===== verification/Raw_Data_Rows.thy ===== *)
theory Raw_Data_Rows
  imports Raw_Data_Memory
begin

text \<open>
  The object as a list of rows: \<open>rd_ok\<close> relates a \<open>CRawData\<close> object and the memory to the key and
  the rows that the chunk holds, and every operation of the class is shown to do to that list what it
  is meant to do.
\<close>

section \<open>Representation\<close>

type_synonym row = "nat \<times> CRowValue"

definition rows_bytes :: "FloatConv \<Rightarrow> nat \<Rightarrow> row list \<Rightarrow> nat list" where
  "rows_bytes cnv k rows = concat (map (row_bytes cnv k) rows)"

lemma rows_bytes_simps [simp]:
  "rows_bytes cnv k [] = []" "rows_bytes cnv k (x # xs) = row_bytes cnv k x @ rows_bytes cnv k xs"
  "rows_bytes cnv k (xs @ ys) = rows_bytes cnv k xs @ rows_bytes cnv k ys"
  by (simp_all add: rows_bytes_def)

definition stamps :: "CRawData \<Rightarrow> nat list" where
  "stamps rd = le 1 (m_uchGetCount rd) @ le 2 (m_LastAccessHour rd) @ le 2 (m_LastUpdateHour rd) @ le 2 (m_CreateHour rd)"

lemma length_stamps [simp]: "length (stamps rd) = 7"
  by (simp add: stamps_def)

text \<open>The length of a key: fixed, or in the first byte of the key.\<close>

definition key_length :: "int \<Rightarrow> nat list \<Rightarrow> int" where
  "key_length ks key = (if ks \<noteq> 0 then ks else 1 + int (hd key))"

definition key_wf :: "int \<Rightarrow> nat list \<Rightarrow> bool" where
  "key_wf ks key \<longleftrightarrow> int (length key) = key_length ks key \<and> (ks = 0 \<longrightarrow> key \<noteq> [])"

definition row_ok :: "nat \<Rightarrow> CField list \<Rightarrow> row \<Rightarrow> bool" where
  "row_ok k T = (\<lambda>(fl, r). fl < 256 \<and> tableDef r = T \<and> row_wf k r)"

definition rd_shape :: "FloatConv \<Rightarrow> CField list \<Rightarrow> nat list \<Rightarrow> row list \<Rightarrow> CRawData \<Rightarrow> bool" where
  "rd_shape cnv T key rows rd \<longleftrightarrow>
     m_uiDataSize rd = 16 + length key + length (rows_bytes cnv (m_uchKeyIdx rd) rows)
     \<and> m_uiRowCnt rd = length rows \<and> m_uiKeyStart rd = 16 \<and> m_uiDataStart rd = 16 + length key
     \<and> m_uiGetCountOffset rd = 9 \<and> m_uiTimeStampOffSet rd = 10
     \<and> m_uchGetCount rd < 256 \<and> m_LastAccessHour rd < 65536 \<and> m_LastUpdateHour rd < 65536 \<and> m_CreateHour rd < 65536
     \<and> key_wf (m_iKeySize rd) key \<and> list_all (row_ok (m_uchKeyIdx rd) T) rows"

definition rd_bytes :: "FloatConv \<Rightarrow> nat list \<Rightarrow> row list \<Rightarrow> CRawData \<Rightarrow> nat list" where
  "rd_bytes cnv key rows rd =
     le 1 DATA_TYPE_RAW @ le 4 (m_uiDataSize rd) @ le 4 (m_uiRowCnt rd) @ stamps rd @ key @ rows_bytes cnv (m_uchKeyIdx rd) rows"

definition rd_ok :: "'s CChunkMem \<Rightarrow> ('s \<Rightarrow> bool) \<Rightarrow> ('s \<Rightarrow> (handle \<times> nat) set) \<Rightarrow> FloatConv \<Rightarrow> CField list \<Rightarrow> nat list \<Rightarrow> row list
    \<Rightarrow> handle \<Rightarrow> 's \<Rightarrow> CRawData \<Rightarrow> 's \<Rightarrow> bool" where
  "rd_ok M ok chunks cnv T key rows h s0 rd s \<longleftrightarrow>
     rd_shape cnv T key rows rd \<and> rd_has M ok chunks h s0 rd (rd_bytes cnv key rows rd) s"

text \<open>Every row has its flag byte, so there are no more rows than bytes.\<close>

lemma row_count_bytes: "length rows \<le> length (rows_bytes cnv k rows)"
  by (induction rows) (auto simp: row_bytes_def)

lemma rd_shape_count: "rd_shape cnv T key rows rd \<Longrightarrow> m_uiRowCnt rd \<le> m_uiDataSize rd"
  using row_count_bytes [of rows cnv "m_uchKeyIdx rd"] by (auto simp: rd_shape_def)

text \<open>Where the row after the rows \<open>us\<close> begins.\<close>

definition row_pos :: "FloatConv \<Rightarrow> nat \<Rightarrow> nat list \<Rightarrow> row list \<Rightarrow> nat" where
  "row_pos cnv k key us = 16 + length key + length (rows_bytes cnv k us)"

lemma row_pos_snoc: "row_pos cnv k key (us @ [x]) = row_pos cnv k key us + length (row_bytes cnv k x)"
  by (simp add: row_pos_def)

lemma rd_ok_restart: "rd_ok M ok chunks cnv T key rows h s0 rd s \<Longrightarrow> rd_ok M ok chunks cnv T key rows (rd_handle rd) s rd s"
  by (auto simp: rd_ok_def intro: rd_has_restart)

lemma length_rd_bytes: "length (rd_bytes cnv key rows rd) = 16 + length key + length (rows_bytes cnv (m_uchKeyIdx rd) rows)"
  by (simp add: rd_bytes_def)

text \<open>The cursor and the size of the last failed request are no part of the representation.\<close>

lemma rd_ok_cursor [simp]:
  "rd_ok M ok chunks cnv T key rows h s0 (rd\<lparr>m_uiOffset := x\<rparr>) s = rd_ok M ok chunks cnv T key rows h s0 rd s"
  "rd_ok M ok chunks cnv T key rows h s0 (rd\<lparr>m_uiRowOffset := x\<rparr>) s = rd_ok M ok chunks cnv T key rows h s0 rd s"
  "rd_ok M ok chunks cnv T key rows h s0 (rd\<lparr>m_uiNeedSize := x\<rparr>) s = rd_ok M ok chunks cnv T key rows h s0 rd s"
  "rd_ok M ok chunks cnv T key rows h s0 (rd\<lparr>m_uiLAOffset := x\<rparr>) s = rd_ok M ok chunks cnv T key rows h s0 rd s"
  by (simp_all add: rd_ok_def rd_shape_def rd_bytes_def stamps_def)

definition moved_rd :: "CRawData \<Rightarrow> CRawData \<Rightarrow> bool" where
  "moved_rd rd rd' \<longleftrightarrow> (\<exists>h k. rd' = rd\<lparr>rd_handle := h, rd_size := k, m_pchContent := h\<rparr>)"

lemma moved_rd_move_to: "moved_rd rd (rd_move_to M h s rd)"
  unfolding moved_rd_def rd_move_to_def by (intro exI [of _ h] exI [of _ "cm_ChunkSize M h s"]) simp

lemma moved_rd_refl: "m_pchContent rd = rd_handle rd \<Longrightarrow> moved_rd rd rd"
  unfolding moved_rd_def by (intro exI [of _ "rd_handle rd"] exI [of _ "rd_size rd"]) simp

lemma moved_rd_keeps:
  assumes "moved_rd rd rd'"
  shows "m_uiDataSize rd' = m_uiDataSize rd" "m_uiRowCnt rd' = m_uiRowCnt rd" "m_uchKeyIdx rd' = m_uchKeyIdx rd"
    "m_uiOffset rd' = m_uiOffset rd" "m_uiRowOffset rd' = m_uiRowOffset rd" "m_uiDataStart rd' = m_uiDataStart rd"
    "rd_shape cnv T key rows rd' = rd_shape cnv T key rows rd" "rd_bytes cnv key rows rd' = rd_bytes cnv key rows rd"
    "m_uiNeedSize rd' = m_uiNeedSize rd"
  using assms by (auto simp: moved_rd_def rd_shape_def rd_bytes_def stamps_def)

section \<open>Adding rows\<close>

context chunk_memory
begin

lemma ExpandChunk_ok:
  assumes "rd_has M ok chunks h s0 rd B s" "length B = m_uiDataSize rd" "m_uiDataSize rd + n < 2 ^ 32"
  obtains s' where "ExpandChunk M n rd s = Some (EC_NO_MEM, rd\<lparr>m_uiNeedSize := m_uiDataSize rd + n\<rparr>, s')" "rd_has M ok chunks h s0 rd B s'"
  | rd' s' where "ExpandChunk M n rd s = Some (0, rd', s')" "rd_has M ok chunks h s0 rd' B s'" "moved_rd rd rd'"
      "m_uiDataSize rd + n \<le> rd_size rd'"
proof -
  note bd = rd_has_bounds [OF assms(1)]
  have h: "rd_handle rd \<noteq> INVALID_HANDLE" using bd(1) by (simp add: INVALID_HANDLE_def)
  have u: "u32 (m_uiDataSize rd + n) = m_uiDataSize rd + n" using assms(3) by simp
  show ?thesis
  proof (cases "m_uiDataSize rd + n > rd_size rd")
    case False
    have "moved_rd rd rd" using assms(1) by (intro moved_rd_refl) (simp add: rd_has_def)
    with False h show ?thesis using assms by (intro that(2) [of rd s]) (auto simp: ExpandChunk_def u Let_def)
  next
    case True
    then have n: "0 < m_uiDataSize rd + n" "length B \<le> m_uiDataSize rd + n" using bd(4) assms(2) by auto
    show ?thesis
    proof (cases rule: rd_has_realloc [OF assms(1) n])
      case (1 s')
      then show ?thesis using True h by (intro that(1) [of s']) (auto simp: ExpandChunk_def u Let_def)
    next
      case (2 h' s')
      then show ?thesis using True h moved_rd_move_to
        by (intro that(2) [of "rd_move_to M h' s' rd" s']) (auto simp: ExpandChunk_def u Let_def)
    qed
  qed
qed

lemma rd_ok_expand:
  assumes "rd_ok M ok chunks cnv T key rows h s0 rd s" "m_uiDataSize rd + n < 2 ^ 32"
  obtains s' where "ExpandChunk M n rd s = Some (EC_NO_MEM, rd\<lparr>m_uiNeedSize := m_uiDataSize rd + n\<rparr>, s')"
      "rd_ok M ok chunks cnv T key rows h s0 rd s'"
  | rd' s' where "ExpandChunk M n rd s = Some (0, rd', s')" "rd_ok M ok chunks cnv T key rows h s0 rd' s'" "moved_rd rd rd'"
      "m_uiDataSize rd + n \<le> rd_size rd'"
proof -
  have a: "rd_shape cnv T key rows rd" "rd_has M ok chunks h s0 rd (rd_bytes cnv key rows rd) s" using assms(1) by (auto simp: rd_ok_def)
  have l: "length (rd_bytes cnv key rows rd) = m_uiDataSize rd" using a(1) by (simp add: length_rd_bytes rd_shape_def)
  show ?thesis
  proof (cases rule: ExpandChunk_ok [OF a(2) l assms(2)])
    case (1 s')
    then show ?thesis using a(1) by (intro that(1)) (auto simp: rd_ok_def)
  next
    case (2 rd' s')
    then show ?thesis using a(1) moved_rd_keeps [OF 2(3)] by (intro that(2)) (auto simp: rd_ok_def)
  qed
qed

lemma encode_row_append:
  assumes ok: "rd_ok M ok chunks cnv T key rows h s0 rd s" and off: "m_uiOffset rd = m_uiDataSize rd"
    and row: "row_ok (m_uchKeyIdx rd) T (fl, r)" and fits: "m_uiDataSize rd + length (row_bytes cnv (m_uchKeyIdx rd) (fl, r)) \<le> rd_size rd"
  shows "\<exists>rd' s'. encode_row M cnv r fl rd s = Some (0, rd', s') \<and> rd_ok M ok chunks cnv T key (rows @ [(fl, r)]) h s0 rd' s'
    \<and> m_uiOffset rd' = m_uiDataSize rd' \<and> m_uiDataSize rd' = m_uiDataSize rd + length (row_bytes cnv (m_uchKeyIdx rd) (fl, r))
    \<and> m_uchKeyIdx rd' = m_uchKeyIdx rd \<and> m_uiDataStart rd' = m_uiDataStart rd \<and> rd_size rd' = rd_size rd"
proof -
  let ?k = "m_uchKeyIdx rd" and ?R = "row_bytes cnv (m_uchKeyIdx rd) (fl, r)"
  have a: "rd_shape cnv T key rows rd" "rd_has M ok chunks h s0 rd (rd_bytes cnv key rows rd) s" using ok by (auto simp: rd_ok_def)
  note sh = a(1) [unfolded rd_shape_def]
  have l: "length (rd_bytes cnv key rows rd) = m_uiDataSize rd" using sh by (simp add: length_rd_bytes)
  obtain Z where Z: "length Z = length ?R" "rd_has M ok chunks h s0 rd (rd_bytes cnv key rows rd @ Z) s"
    using rd_has_extend [OF a(2), of "length ?R"] fits l by metis
  note bd = rd_has_bounds [OF Z(2)]
  have small: "m_uiDataSize rd + length Z < 2 ^ 32" "m_uiRowCnt rd + 1 < 2 ^ 32"
    using fits Z(1) bd(3) rd_shape_count [OF a(1)] by (auto simp: row_bytes_def)
  have has: "rd_has M ok chunks h s0 rd (le 1 DATA_TYPE_RAW @ le 4 (m_uiDataSize rd) @ le 4 (m_uiRowCnt rd) @ (stamps rd @ key @ rows_bytes cnv ?k rows) @ Z @ []) s"
    using Z(2) by (simp add: rd_bytes_def)
  have o: "m_uiOffset rd = 9 + length (stamps rd @ key @ rows_bytes cnv ?k rows)" using off sh by simp
  have wf: "row_wf ?k r" using row by (simp add: row_ok_def)
  let ?rd = "rd\<lparr>m_uiOffset := m_uiOffset rd + length Z, m_uiDataSize := m_uiDataSize rd + length Z, m_uiRowCnt := m_uiRowCnt rd + 1\<rparr>"
  from encode_row_has [OF has _ _ _ o wf Z(1) small] obtain s' where e: "encode_row M cnv r fl rd s = Some (0, ?rd, s')"
    and h': "rd_has M ok chunks h s0 rd (le 1 DATA_TYPE_RAW @ le 4 (m_uiDataSize rd + length Z) @ le 4 (m_uiRowCnt rd + 1)
      @ (stamps rd @ key @ rows_bytes cnv ?k rows) @ ?R @ []) s'" by auto
  have "rd_bytes cnv key (rows @ [(fl, r)]) ?rd = le 1 DATA_TYPE_RAW @ le 4 (m_uiDataSize rd + length Z) @ le 4 (m_uiRowCnt rd + 1)
      @ (stamps rd @ key @ rows_bytes cnv ?k rows) @ ?R @ []" by (simp add: rd_bytes_def stamps_def)
  then have "rd_ok M ok chunks cnv T key (rows @ [(fl, r)]) h s0 ?rd s'" using h' sh row Z(1) by (simp add: rd_ok_def rd_shape_def)
  then show ?thesis using e off Z(1) by (intro exI [of _ ?rd] exI [of _ s']) simp
qed

lemma EncodeRow_append:
  assumes ok: "rd_ok M ok chunks cnv T key rows h s0 rd s" and off: "m_uiOffset rd = m_uiDataSize rd"
    and row: "row_ok (m_uchKeyIdx rd) T (fl, r)" and small: "m_uiDataSize rd + length (row_bytes cnv (m_uchKeyIdx rd) (fl, r)) < 2 ^ 32"
  obtains s' where "EncodeRow M cnv r fl True rd s =
      Some (EC_NO_MEM, rd\<lparr>m_uiNeedSize := m_uiDataSize rd + length (row_bytes cnv (m_uchKeyIdx rd) (fl, r))\<rparr>, s')"
      "rd_ok M ok chunks cnv T key rows h s0 rd s'"
      "rd_size rd < m_uiDataSize rd + length (row_bytes cnv (m_uchKeyIdx rd) (fl, r))"
  | rd' s' where "EncodeRow M cnv r fl True rd s = Some (0, rd', s')" "rd_ok M ok chunks cnv T key (rows @ [(fl, r)]) h s0 rd' s'"
      "m_uiOffset rd' = m_uiDataSize rd'" "m_uiDataSize rd' = m_uiDataSize rd + length (row_bytes cnv (m_uchKeyIdx rd) (fl, r))"
      "m_uchKeyIdx rd' = m_uchKeyIdx rd" "m_uiDataStart rd' = m_uiDataStart rd" "rd_size rd \<ge> m_uiDataSize rd' \<Longrightarrow> rd_size rd' = rd_size rd"
proof -
  let ?n = "length (row_bytes cnv (m_uchKeyIdx rd) (fl, r))"
  have c: "CalcRowSize r (m_uchKeyIdx rd) = ?n" using row small by (intro CalcRowSize_length) (auto simp: row_ok_def)
  have fit: "rd_size rd \<ge> m_uiDataSize rd + ?n \<Longrightarrow> ExpandChunk M ?n rd s = Some (0, rd, s)"
    using ok rd_has_bounds(1) [of _ _ rd] small by (auto simp: ExpandChunk_def rd_ok_def INVALID_HANDLE_def)
  show ?thesis
  proof (cases rule: rd_ok_expand [OF ok small])
    case (1 s')
    have "\<not> rd_size rd \<ge> m_uiDataSize rd + ?n" using fit 1(1) by (auto simp: EC_NO_MEM_def)
    then show ?thesis using 1 by (intro that(1) [of s']) (auto simp: EncodeRow_def c EC_NO_MEM_def)
  next
    case (2 rd1 s1)
    note k = moved_rd_keeps [OF 2(3)]
    have "m_uiOffset rd1 = m_uiDataSize rd1" "row_ok (m_uchKeyIdx rd1) T (fl, r)"
      "m_uiDataSize rd1 + length (row_bytes cnv (m_uchKeyIdx rd1) (fl, r)) \<le> rd_size rd1" using k off row 2(4) by simp_all
    from encode_row_append [OF 2(2) this] obtain rd' s' where e: "encode_row M cnv r fl rd1 s1 = Some (0, rd', s')"
      "rd_ok M ok chunks cnv T key (rows @ [(fl, r)]) h s0 rd' s'" "m_uiOffset rd' = m_uiDataSize rd'"
      "m_uiDataSize rd' = m_uiDataSize rd1 + length (row_bytes cnv (m_uchKeyIdx rd1) (fl, r))"
      "m_uchKeyIdx rd' = m_uchKeyIdx rd1" "m_uiDataStart rd' = m_uiDataStart rd1" "rd_size rd' = rd_size rd1" by blast
    have "rd_size rd \<ge> m_uiDataSize rd' \<Longrightarrow> rd_size rd' = rd_size rd" using fit 2(1) e(4,7) k by simp
    then show ?thesis using 2(1) e k by (intro that(2) [of rd' s']) (auto simp: EncodeRow_def c)
  qed
qed

text \<open>The rows from the old end on become the first rows.\<close>

lemma rotate_rows_ok:
  assumes ok: "rd_ok M ok chunks cnv T key (rows @ new) h s0 rd s"
    and D: "oldD = 16 + length key + length (rows_bytes cnv (m_uchKeyIdx rd) rows)" and n: "n = length (rows_bytes cnv (m_uchKeyIdx rd) new)"
  shows "rd_ok M ok chunks cnv T key (new @ rows) h s0 rd (rotate_rows M oldD n rd s)"
proof -
  let ?old = "rows_bytes cnv (m_uchKeyIdx rd) rows" and ?new = "rows_bytes cnv (m_uchKeyIdx rd) new"
  define H where "H = le 1 DATA_TYPE_RAW @ le 4 (m_uiDataSize rd) @ le 4 (m_uiRowCnt rd) @ stamps rd @ key"
  have a: "rd_shape cnv T key (rows @ new) rd" "rd_has M ok chunks h s0 rd (H @ ?old @ ?new) s"
    using ok by (auto simp: rd_ok_def rd_bytes_def H_def)
  note sh = a(1) [unfolded rd_shape_def]
  have lH: "length H = m_uiDataStart rd" using sh by (simp add: H_def)
  have b: "oldD < 4294967296" using rd_has_bounds [OF a(2)] sh lH D by simp
  have sub: "u32_sub oldD (m_uiDataStart rd) = length ?old" using b sh D by simp
  have buf: "get_bytes M (m_pchContent rd + oldD) n s = ?new"
  proof -
    have "rd_has M ok chunks h s0 rd ((H @ ?old) @ ?new @ []) s" using a(2) by simp
    from rd_has_get [OF this] show ?thesis using lH sh D n by (simp add: add.assoc)
  qed
  define X where "X = take (length ?new) (?old @ ?new)"
  define Y where "Y = drop (length ?new) (?old @ ?new)"
  have XY: "?old @ ?new = X @ Y" unfolding X_def Y_def by (rule append_take_drop_id [symmetric])
  have lXY: "length X = length ?new" "length Y = length ?old" by (simp_all add: X_def Y_def)
  have "rd_has M ok chunks h s0 rd ((H @ X) @ Y @ []) s" using a(2) XY by simp
  moreover have "(H @ X) @ Y @ [] = H @ ?old @ ?new" using XY by simp
  ultimately have "rd_has M ok chunks h s0 rd ((H @ X) @ ?old @ [])
     (cm_move M (m_pchContent rd + length (H @ X)) (m_pchContent rd + length H) (length ?old) s)"
    by (rule rd_has_move) (simp add: lXY(2))
  then have m: "rd_has M ok chunks h s0 rd (H @ X @ ?old)
     (cm_move M (m_pchContent rd + m_uiDataStart rd + n) (m_pchContent rd + m_uiDataStart rd) (length ?old) s)"
    using lXY(1) lH n by (simp add: add.assoc)
  from rd_has_put [OF this, of ?new] lXY(1) lH
  have "rd_has M ok chunks h s0 rd (H @ ?new @ ?old) (rotate_rows M oldD n rd s)"
    unfolding rotate_rows_def Let_def sub buf by simp
  moreover have "rd_bytes cnv key (new @ rows) rd = H @ ?new @ ?old" by (simp add: rd_bytes_def H_def)
  ultimately show ?thesis using sh by (simp add: rd_ok_def rd_shape_def add.commute add.left_commute)
qed

lemma InsertRowFlag_ok:
  assumes ok: "rd_ok M ok chunks cnv T key rows h s0 rd s" and row: "row_ok (m_uchKeyIdx rd) T (fl, r)"
    and small: "m_uiDataSize rd + length (row_bytes cnv (m_uchKeyIdx rd) (fl, r)) < 2 ^ 32"
  obtains rd' s' where "InsertRowFlag M cnv heap r byFirst fl rd s = Some (EC_NO_MEM, rd', s')" "rd_ok M ok chunks cnv T key rows h s0 rd' s'"
      "m_uiNeedSize rd' = m_uiDataSize rd + length (row_bytes cnv (m_uchKeyIdx rd) (fl, r))" "rd_handle rd' = rd_handle rd"
      "rd_size rd < m_uiDataSize rd + length (row_bytes cnv (m_uchKeyIdx rd) (fl, r))"
  | rd' s' where "InsertRowFlag M cnv heap r byFirst fl rd s = Some (0, rd', s')" "heap \<or> \<not> byFirst \<or> rows = []"
      "rd_ok M ok chunks cnv T key (if byFirst then (fl, r) # rows else rows @ [(fl, r)]) h s0 rd' s'" "m_uchKeyIdx rd' = m_uchKeyIdx rd"
      "m_uiDataSize rd + length (row_bytes cnv (m_uchKeyIdx rd) (fl, r)) \<le> rd_size rd \<Longrightarrow> rd_size rd' = rd_size rd"
  | rd' s' where "InsertRowFlag M cnv heap r byFirst fl rd s = Some (- ENOMEM, rd', s')" "\<not> heap" "byFirst" "rows \<noteq> []"
      "rd_ok M ok chunks cnv T key (rows @ [(fl, r)]) h s0 rd' s'"
proof -
  let ?rd = "rd\<lparr>m_uiOffset := m_uiDataSize rd\<rparr>"
  let ?R = "row_bytes cnv (m_uchKeyIdx rd) (fl, r)"
  have sh: "m_uiDataSize rd = 16 + length key + length (rows_bytes cnv (m_uchKeyIdx rd) rows)" "m_uiDataStart rd = 16 + length key"
    using ok by (auto simp: rd_ok_def rd_shape_def)
  have o: "rd_ok M ok chunks cnv T key rows h s0 ?rd s" "m_uiOffset ?rd = m_uiDataSize ?rd"
    "row_ok (m_uchKeyIdx ?rd) T (fl, r)" "m_uiDataSize ?rd + length (row_bytes cnv (m_uchKeyIdx ?rd) (fl, r)) < 2 ^ 32" using ok row small by simp_all
  show ?thesis
  proof (cases rule: EncodeRow_append [OF o])
    case (1 s')
    let ?rd' = "?rd\<lparr>m_uiNeedSize := m_uiDataSize rd + length ?R\<rparr>"
    show ?thesis
    proof (rule that(1))
      show "InsertRowFlag M cnv heap r byFirst fl rd s = Some (EC_NO_MEM, ?rd', s')" using 1(1) by (simp add: InsertRowFlag_def EC_NO_MEM_def)
      show "rd_ok M ok chunks cnv T key rows h s0 ?rd' s'" using 1(2) by simp
    qed (use 1(3) in simp_all)
  next
    case (2 rd' s')
    have n: "u32_sub (m_uiDataSize rd') (m_uiDataSize rd) = length ?R" using 2(4) small by simp
    have R: "0 < length ?R" by (simp add: row_bytes_def)
    have d: "u32_sub (m_uiDataSize rd) (m_uiDataStart rd') = length (rows_bytes cnv (m_uchKeyIdx rd) rows)" using 2(6) sh small by simp
    have e: "rows_bytes cnv (m_uchKeyIdx rd) rows = [] \<longleftrightarrow> rows = []" by (cases rows) (auto simp: row_bytes_def)
    note ins = InsertRowFlag_def [of M cnv heap r byFirst fl rd s, unfolded Let_def 2(1) option.case prod.case n d]
    consider "\<not> byFirst \<or> rows = []" | "byFirst" "rows \<noteq> []" "heap" | "byFirst" "rows \<noteq> []" "\<not> heap" by blast
    then show ?thesis
    proof cases
      case 1
      then show ?thesis using 2(2,4,5,7) ins e by (intro that(2) [of rd' s']) auto
    next
      case c: 2
      have "rd_ok M ok chunks cnv T key ([(fl, r)] @ rows) h s0 rd' (rotate_rows M (m_uiDataSize rd) (length ?R) rd' s')"
        using 2(5) sh by (intro rotate_rows_ok [OF 2(2)]) simp_all
      then show ?thesis using c ins e R 2(4,5,7) by (intro that(2) [of rd' "rotate_rows M (m_uiDataSize rd) (length ?R) rd' s'"]) auto
    next
      case 3
      then show ?thesis using 2(2) ins e R by (intro that(3) [of rd' s']) auto
    qed
  qed
qed

end

end
