(* ===== verification/Raw_Data_Ops.thy ===== *)
theory Raw_Data_Ops
  imports Raw_Data_Rows
begin

text \<open>
  Reading, deleting and replacing rows of a \<open>CRawData\<close> object, and its life cycle: \<open>Init\<close>, \<open>Attach\<close>,
  the counters and time stamps of the header.
\<close>

section \<open>Splitting the bytes at the current row\<close>

text \<open>The bytes in front of the rows \<open>us\<close> and of what follows.\<close>

definition rd_front :: "FloatConv \<Rightarrow> nat list \<Rightarrow> row list \<Rightarrow> CRawData \<Rightarrow> nat list" where
  "rd_front cnv key us rd = stamps rd @ key @ rows_bytes cnv (m_uchKeyIdx rd) us"

definition rd_head :: "CRawData \<Rightarrow> nat list" where
  "rd_head rd = le 1 DATA_TYPE_RAW @ le 4 (m_uiDataSize rd) @ le 4 (m_uiRowCnt rd)"

lemma length_rd_front [simp]: "length (rd_head rd @ rd_front cnv key us rd) = row_pos cnv (m_uchKeyIdx rd) key us"
  "length (rd_head rd) = 9" "length (rd_front cnv key us rd) + 9 = row_pos cnv (m_uchKeyIdx rd) key us"
  by (simp_all add: rd_head_def rd_front_def row_pos_def)

lemma rd_bytes_split:
  "rd_bytes cnv key (us @ x # vs) rd =
     (rd_head rd @ rd_front cnv key us rd) @ row_bytes cnv (m_uchKeyIdx rd) x @ rows_bytes cnv (m_uchKeyIdx rd) vs"
  by (simp add: rd_bytes_def rd_front_def rd_head_def)

lemma row_ok_at: "rd_shape cnv T key (us @ (fl, q) # vs) rd \<Longrightarrow> fl < 256 \<and> tableDef q = T \<and> row_wf (m_uchKeyIdx rd) q"
  by (simp add: rd_shape_def row_ok_def)

lemma rd_shape_pos:
  assumes "rd_shape cnv T key (us @ x # vs) rd"
  shows "m_uiDataSize rd = row_pos cnv (m_uchKeyIdx rd) key us + length (row_bytes cnv (m_uchKeyIdx rd) x)
     + length (rows_bytes cnv (m_uchKeyIdx rd) vs)"
  using assms by (simp add: rd_shape_def row_pos_def)

context chunk_memory
begin

text \<open>The bytes of the current row: the flag, then the fields.\<close>

lemma current_row:
  assumes ok: "rd_ok M ok chunks cnv T key (us @ (fl, q) # vs) h s0 rd s"
  defines "p \<equiv> row_pos cnv (m_uchKeyIdx rd) key us" and "F \<equiv> fields_bytes cnv q [m_uchKeyIdx rd + 1..<NumFields q + 1]"
  shows "get_bytes M (m_pchContent rd + p) 1 s = le 1 fl" "get_bytes M (m_pchContent rd + (p + 1)) (length F) s = F"
    "p + 1 + length F \<le> m_uiDataSize rd" "m_uiDataSize rd \<le> rd_size rd" "rd_size rd < 4294967296"
    "length (row_bytes cnv (m_uchKeyIdx rd) (fl, q)) = 1 + length F"
proof -
  have a: "rd_shape cnv T key (us @ (fl, q) # vs) rd" "rd_has M ok chunks h s0 rd (rd_bytes cnv key (us @ (fl, q) # vs) rd) s"
    using ok by (auto simp: rd_ok_def)
  have R: "row_bytes cnv (m_uchKeyIdx rd) (fl, q) = le 1 fl @ F" by (simp add: row_bytes_def F_def del: upt_Suc)
  note b = a(2) [unfolded rd_bytes_split R]
  let ?A = "rd_head rd @ rd_front cnv key us rd"
  have "rd_has M ok chunks h s0 rd (?A @ le 1 fl @ (F @ rows_bytes cnv (m_uchKeyIdx rd) vs)) s"
    "rd_has M ok chunks h s0 rd ((?A @ le 1 fl) @ F @ rows_bytes cnv (m_uchKeyIdx rd) vs) s" using b by simp_all
  from this [THEN rd_has_get] show "get_bytes M (m_pchContent rd + p) 1 s = le 1 fl"
    "get_bytes M (m_pchContent rd + (p + 1)) (length F) s = F" unfolding length_append [of ?A] length_rd_front(1) by (simp_all add: p_def)
  show "length (row_bytes cnv (m_uchKeyIdx rd) (fl, q)) = 1 + length F" using R by simp
  then show "p + 1 + length F \<le> m_uiDataSize rd" using rd_shape_pos [OF a(1)] by (simp add: p_def)
  show "m_uiDataSize rd \<le> rd_size rd" "rd_size rd < 4294967296"
    using rd_has_bounds(3,4) [OF a(2)] rd_shape_pos [OF a(1)] by (simp_all add: length_rd_bytes row_pos_def)
qed

lemma SkipRow_ok:
  assumes ok: "rd_ok M ok chunks cnv T key (us @ (fl, q) # vs) h s0 rd s" and r: "tableDef r = T"
    and pos: "m_uiRowOffset rd = row_pos cnv (m_uchKeyIdx rd) key us"
  shows "SkipRow M r rd s = (0, rd\<lparr>m_uiOffset := row_pos cnv (m_uchKeyIdx rd) key (us @ [(fl, q)])\<rparr>)"
proof -
  let ?k = "m_uchKeyIdx rd" and ?p = "row_pos cnv (m_uchKeyIdx rd) key us"
  define js where "js = [?k + 1..<NumFields q + 1]"
  let ?F = "fields_bytes cnv q js"
  note c = current_row [OF ok, folded js_def]
  have sh: "rd_shape cnv T key (us @ (fl, q) # vs) rd" and nz: "rd_handle rd \<noteq> INVALID_HANDLE" "m_pchContent rd \<noteq> 0"
    using ok rd_has_bounds(1,2) by (auto simp: rd_ok_def INVALID_HANDLE_def)
  have q: "tableDef q = T" "row_wf ?k q" using row_ok_at [OF sh] by auto
  let ?rd = "rd\<lparr>m_uiOffset := ?p + 1\<rparr>"
  have s1: "SKIP_SIZE 1 (rd\<lparr>m_uiOffset := ?p\<rparr>) = Some ?rd"
    using SKIP_SIZE_fits [of "rd\<lparr>m_uiOffset := ?p\<rparr>" 1] c(3-5) by simp
  have "skip_fields M s js r ?rd = (True, ?rd\<lparr>m_uiOffset := m_uiOffset ?rd + length ?F\<rparr>)"
    using q r c by (intro skip_fields_ok) (auto simp: row_wf_def js_def simp del: upt_Suc)
  moreover have "stored_fields ?rd r = js" using r q(1) by (simp add: stored_fields_def js_def NumFields_def del: upt_Suc)
  ultimately show ?thesis using nz pos s1 c(3,6)
    by (simp add: SkipRow_def Let_def row_pos_snoc add.assoc)
qed

lemma DecodeRow_ok:
  assumes ok: "rd_ok M ok chunks cnv T key (us @ (fl, q) # vs) h s0 rd s" and r: "tableDef r = T"
    and pos: "m_uiOffset rd = row_pos cnv (m_uchKeyIdx rd) key us"
  shows "\<exists>la. DecodeRow M cnv iFlag r flags rd s =
     (0, load_fields cnv q [m_uchKeyIdx rd + 1..<NumFields q + 1] r, fl,
      if odd iFlag then rd\<lparr>m_uiLAOffset := la\<rparr>
      else rd\<lparr>m_uiRowOffset := m_uiOffset rd, m_uiOffset := row_pos cnv (m_uchKeyIdx rd) key (us @ [(fl, q)]), m_uiLAOffset := la\<rparr>)"
proof -
  let ?k = "m_uchKeyIdx rd" and ?p = "row_pos cnv (m_uchKeyIdx rd) key us"
  define js where "js = [?k + 1..<NumFields q + 1]"
  let ?F = "fields_bytes cnv q js"
  note c = current_row [OF ok, folded js_def]
  have sh: "rd_shape cnv T key (us @ (fl, q) # vs) rd" and nz: "rd_handle rd \<noteq> INVALID_HANDLE" "m_pchContent rd \<noteq> 0"
    using ok rd_has_bounds(1,2) by (auto simp: rd_ok_def INVALID_HANDLE_def)
  have q: "fl < 256" "tableDef q = T" "row_wf ?k q" using row_ok_at [OF sh] by auto
  let ?rd1 = "rd\<lparr>m_uiLAOffset := 0, m_uiRowOffset := m_uiOffset rd\<rparr>"
  let ?rd = "?rd1\<lparr>m_uiOffset := ?p + 1\<rparr>"
  have g: "GET_VALUE M 1 ?rd1 s = Some (fl, ?rd)"
    using GET_VALUE_fits [of ?rd1 1 M s fl] c(1,3-5) q(1) pos by simp
  have "\<exists>la. decode_fields M cnv s js ?rd r = (True, ?rd\<lparr>m_uiOffset := m_uiOffset ?rd + length ?F, m_uiLAOffset := la\<rparr>, load_fields cnv q js r)"
    using q r c by (intro decode_fields_ok) (auto simp: row_wf_def js_def simp del: upt_Suc)
  then obtain la where d: "decode_fields M cnv s js ?rd r = (True, ?rd\<lparr>m_uiOffset := m_uiOffset ?rd + length ?F, m_uiLAOffset := la\<rparr>, load_fields cnv q js r)" ..
  have st: "stored_fields ?rd r = js" using r q(2) by (simp add: stored_fields_def js_def NumFields_def del: upt_Suc)
  have "DecodeRow M cnv iFlag r flags rd s = (0, load_fields cnv q js r, fl,
      if odd iFlag then rd\<lparr>m_uiLAOffset := la\<rparr>
      else rd\<lparr>m_uiRowOffset := m_uiOffset rd, m_uiOffset := ?p + (1 + length ?F), m_uiLAOffset := la\<rparr>)"
    using nz g d st by (simp add: DecodeRow_def Let_def add.assoc)
  then show ?thesis unfolding row_pos_snoc c(6) js_def by blast
qed

section \<open>Deleting\<close>

lemma set_counts_rd_ok:
  assumes "rd_has M ok chunks h s0 rd (le 1 DATA_TYPE_RAW @ a @ b @ stamps rd @ key @ rows_bytes cnv (m_uchKeyIdx rd) rows) s"
    and "length a = 4" "length b = 4" "rd_shape cnv T key rows rd"
  shows "rd_ok M ok chunks cnv T key rows h s0 rd (set_counts M rd s)"
  using set_counts_has [OF assms(1) _ assms(2,3)] assms(4) by (simp add: rd_ok_def rd_bytes_def)

lemma DeleteCurRow_ok:
  assumes ok: "rd_ok M ok chunks cnv T key (us @ (fl, q) # vs) h s0 rd s" and r: "tableDef r = T"
    and pos: "m_uiRowOffset rd = row_pos cnv (m_uchKeyIdx rd) key us"
  obtains rd' s' where "DeleteCurRow M r rd s = (0, rd', s')" "rd_ok M ok chunks cnv T key (us @ vs) h s0 rd' s'"
    "m_uiOffset rd' = row_pos cnv (m_uchKeyIdx rd') key us" "m_uiRowOffset rd' = m_uiOffset rd'" "m_uchKeyIdx rd' = m_uchKeyIdx rd"
proof -
  let ?k = "m_uchKeyIdx rd" and ?p = "row_pos cnv (m_uchKeyIdx rd) key us" and ?R = "row_bytes cnv (m_uchKeyIdx rd) (fl, q)"
  let ?V = "rows_bytes cnv ?k vs" and ?F = "rd_front cnv key us rd"
  have a: "rd_shape cnv T key (us @ (fl, q) # vs) rd" "rd_has M ok chunks h s0 rd (rd_bytes cnv key (us @ (fl, q) # vs) rd) s"
    using ok by (auto simp: rd_ok_def)
  note c = current_row [OF ok] and sh = a(1) [unfolded rd_shape_def] and D = rd_shape_pos [OF a(1)]
  let ?rd1 = "rd\<lparr>m_uiOffset := ?p + length ?R\<rparr>"
  have skip: "SkipRow M r rd s = (0, ?rd1)" using SkipRow_ok [OF ok r pos] by (simp add: row_pos_snoc)
  define X where "X = take (length ?V) (?R @ ?V)"
  define Y where "Y = drop (length ?V) (?R @ ?V)"
  have XY: "?R @ ?V = X @ Y" unfolding X_def Y_def by (rule append_take_drop_id [symmetric])
  have lX: "length ?V = length X" by (simp add: X_def)
  have e: "(rd_head rd @ ?F) @ X @ Y = ((rd_head rd @ ?F) @ ?R) @ ?V @ []" using XY by simp
  have "rd_has M ok chunks h s0 rd ((rd_head rd @ ?F) @ X @ Y) s" using a(2) unfolding rd_bytes_split XY .
  from rd_has_move [OF this e lX] have "rd_has M ok chunks h s0 rd ((rd_head rd @ ?F) @ ?V @ Y)
     (cm_move M (m_pchContent rd + ?p) (m_pchContent rd + (?p + length ?R)) (length ?V) s)"
    unfolding length_append [of "rd_head rd @ ?F" ?R] length_rd_front(1) .
  then have m: "rd_has M ok chunks h s0 rd (rd_head rd @ ?F @ ?V) (cm_move M (m_pchContent rd + ?p) (m_pchContent rd + (?p + length ?R)) (length ?V) s)"
    using rd_has_take [of M ok chunks h s0 rd "rd_head rd @ ?F @ ?V" Y] by simp
  let ?rd2 = "?rd1\<lparr>m_uiDataSize := m_uiDataSize rd - length ?R, m_uiRowCnt := m_uiRowCnt rd - 1\<rparr>"
  let ?s1 = "cm_move M (m_pchContent rd + ?p) (m_pchContent rd + (?p + length ?R)) (length ?V) s"
  have u: "u32_sub (m_uiDataSize rd) (?p + length ?R) = length ?V" "u32_sub (?p + length ?R) ?p = length ?R"
    "u32_sub (m_uiDataSize rd) (length ?R) = m_uiDataSize rd - length ?R" using D c(4,5) by simp_all
  have "m_uiRowCnt rd < 4294967296" "1 \<le> m_uiRowCnt rd"
    using sh c(4,5) rd_shape_count [OF a(1)] by auto
  then have u4: "u32_sub (m_uiRowCnt rd) 1 = m_uiRowCnt rd - 1" by simp
  have del: "DeleteCurRow M r rd s = (0, ?rd2\<lparr>m_uiOffset := ?p\<rparr>, set_counts M ?rd2 ?s1)"
    using pos by (simp add: DeleteCurRow_def skip Let_def u u4 del: One_nat_def)
  have "rd_has M ok chunks h s0 ?rd2 (le 1 DATA_TYPE_RAW @ le 4 (m_uiDataSize rd) @ le 4 (m_uiRowCnt rd)
      @ stamps ?rd2 @ key @ rows_bytes cnv (m_uchKeyIdx ?rd2) (us @ vs)) ?s1"
    using m by (simp add: rd_head_def rd_front_def stamps_def)
  moreover have "rd_shape cnv T key (us @ vs) ?rd2" using sh D by (auto simp: rd_shape_def row_pos_def)
  ultimately have ok2: "rd_ok M ok chunks cnv T key (us @ vs) h s0 ?rd2 (set_counts M ?rd2 ?s1)" by (intro set_counts_rd_ok) auto
  show ?thesis
  proof (rule that [OF del])
    show "rd_ok M ok chunks cnv T key (us @ vs) h s0 (?rd2\<lparr>m_uiOffset := ?p\<rparr>) (set_counts M ?rd2 ?s1)" unfolding rd_ok_cursor by (rule ok2)
  qed (use pos in simp_all)
qed

section \<open>Replacing\<close>

text \<open>The object after the row was encoded in place and the counters are corrected.\<close>

lemma replaced_rd_ok:
  assumes rd3: "rd3 = rd2\<lparr>m_uiRowCnt := u32_sub (m_uiRowCnt rd2) 1, m_uiDataSize := u32_sub (m_uiDataSize rd2) (length (row_bytes cnv (m_uchKeyIdx rd) x))\<rparr>"
    and sh: "rd_shape cnv T key (us @ x # vs) rd" and y: "row_ok (m_uchKeyIdx rd) T y"
    and D: "m_uiDataSize rd + length (row_bytes cnv (m_uchKeyIdx rd) y) < 4294967296"
    and mv: "moved_rd (rd\<lparr>m_uiOffset := p, m_uiDataSize := m_uiDataSize rd + length (row_bytes cnv (m_uchKeyIdx rd) y), m_uiRowCnt := m_uiRowCnt rd + 1\<rparr>) rd2"
    and has: "rd_has M ok chunks h s0 rd2 (le 1 DATA_TYPE_RAW @ a @ b @ rd_front cnv key us rd @ row_bytes cnv (m_uchKeyIdx rd) y
      @ rows_bytes cnv (m_uchKeyIdx rd) vs) s" and ab: "length a = 4" "length b = 4"
  shows "rd_ok M ok chunks cnv T key (us @ y # vs) h s0 rd3 (set_counts M rd3 s)" "m_uiOffset rd3 = p" "m_uiRowOffset rd3 = m_uiRowOffset rd"
    "m_uchKeyIdx rd3 = m_uchKeyIdx rd"
proof -
  have rc: "m_uiRowCnt rd \<le> m_uiDataSize rd" by (rule rd_shape_count [OF sh])
  have k: "m_uchKeyIdx rd2 = m_uchKeyIdx rd" "m_uiDataSize rd2 = m_uiDataSize rd + length (row_bytes cnv (m_uchKeyIdx rd) y)"
    "m_uiRowCnt rd2 = m_uiRowCnt rd + 1" "stamps rd2 = stamps rd" using mv by (auto simp: moved_rd_def stamps_def)
  have u: "u32_sub (m_uiRowCnt rd2) 1 = m_uiRowCnt rd" using k(3) rc D row_bytes_def [of cnv] by (cases y) auto
  have v: "u32_sub (m_uiDataSize rd2) (length (row_bytes cnv (m_uchKeyIdx rd) x))
      = m_uiDataSize rd + length (row_bytes cnv (m_uchKeyIdx rd) y) - length (row_bytes cnv (m_uchKeyIdx rd) x)"
    using k(2) D rd_shape_pos [OF sh] by simp
  have "rd_shape cnv T key (us @ y # vs) rd3" unfolding rd3 u v
    using sh y mv rd_shape_pos [OF sh] by (auto simp: rd_shape_def moved_rd_def row_pos_def)
  moreover have "rd_has M ok chunks h s0 rd3 (le 1 DATA_TYPE_RAW @ a @ b @ stamps rd3 @ key @ rows_bytes cnv (m_uchKeyIdx rd3) (us @ y # vs)) s"
    using has k(1,4) by (simp add: rd3 rd_front_def stamps_def)
  ultimately show "rd_ok M ok chunks cnv T key (us @ y # vs) h s0 rd3 (set_counts M rd3 s)" using ab by (intro set_counts_rd_ok)
  show "m_uiOffset rd3 = p" "m_uiRowOffset rd3 = m_uiRowOffset rd" "m_uchKeyIdx rd3 = m_uchKeyIdx rd" using mv by (auto simp: rd3 moved_rd_def)
qed

text \<open>Opening the gap for a larger row.\<close>

lemma open_gap:
  assumes has: "rd_has M ok chunks h s0 rd (A @ R @ V) s" and d: "length (A @ R @ V) + d \<le> rd_size rd"
  obtains X where "length X = length R + d"
    "rd_has M ok chunks h s0 rd (A @ X @ V)
      (if 0 < length V then cm_move M (m_pchContent rd + (length A + length R) + d) (m_pchContent rd + (length A + length R)) (length V) s else s)"
proof -
  obtain C where C: "length C = d" "rd_has M ok chunks h s0 rd ((A @ R @ V) @ C) s" using rd_has_extend [OF has d] .
  define X where "X = take (length R + d) (R @ V @ C)"
  define Y where "Y = drop (length R + d) (R @ V @ C)"
  have XY: "R @ V @ C = X @ Y" unfolding X_def Y_def by (rule append_take_drop_id [symmetric])
  have l: "length X = length R + d" "length Y = length V" using C(1) by (simp_all add: X_def Y_def)
  have e: "(A @ X) @ Y @ [] = (A @ R) @ V @ C" using XY by simp
  have xy: "rd_has M ok chunks h s0 rd ((A @ X) @ Y @ []) s" using C(2) e by simp
  show ?thesis
  proof (cases "V = []")
    case True
    then show ?thesis using xy l by (intro that [of X]) auto
  next
    case False
    from rd_has_move [OF xy e] l False show ?thesis by (intro that [of X]) (auto simp: add.assoc)
  qed
qed

lemma u32_sub_wrapped:
  assumes "n \<le> x" "x - n < 4294967296" "n < 4294967296"
  shows "u32_sub (u32 x) n = x - n"
proof -
  have "u32_sub (u32 x) n = (x mod 4294967296 + (4294967296 - n)) mod 4294967296" using assms by (simp add: u32_sub_def u32_def)
  also have "\<dots> = (x + (4294967296 - n)) mod 4294967296" by (rule mod_add_left_eq)
  also have "x + (4294967296 - n) = (x - n) + 4294967296" using assms by simp
  also have "\<dots> mod 4294967296 = x - n" using assms(2) unfolding mod_add_self2 by simp
  finally show ?thesis .
qed

lemma replace_larger_ok:
  assumes ok: "rd_ok M ok chunks cnv T key (us @ x # vs) h s0 rd s" and row: "row_ok (m_uchKeyIdx rd) T (fl, r)"
    and pos: "m_uiRowOffset rd = row_pos cnv (m_uchKeyIdx rd) key us" "m_uiOffset rd = m_uiRowOffset rd + n"
    and n: "n = length (row_bytes cnv (m_uchKeyIdx rd) x)" and n': "n' = length (row_bytes cnv (m_uchKeyIdx rd) (fl, r))" "n < n'"
    and small: "m_uiDataSize rd + n' < 4294967296"
  obtains rd' s' where "replace_larger M cnv r fl o0 n' n rd s = Some (EC_NO_MEM, rd', s')" "rd_ok M ok chunks cnv T key (us @ x # vs) h s0 rd' s'"
      "m_uiOffset rd' = o0" "m_uiNeedSize rd' = m_uiDataSize rd + n' - n"
  | rd' s' where "replace_larger M cnv r fl o0 n' n rd s = Some (0, rd', s')" "rd_ok M ok chunks cnv T key (us @ (fl, r) # vs) h s0 rd' s'"
      "m_uiOffset rd' = row_pos cnv (m_uchKeyIdx rd') key (us @ [(fl, r)])" "m_uiRowOffset rd' = m_uiRowOffset rd" "m_uchKeyIdx rd' = m_uchKeyIdx rd"
proof -
  let ?k = "m_uchKeyIdx rd" and ?V = "rows_bytes cnv (m_uchKeyIdx rd) vs" and ?A = "rd_head rd @ rd_front cnv key us rd"
  let ?R = "row_bytes cnv ?k x" and ?R' = "row_bytes cnv ?k (fl, r)"
  have a: "rd_shape cnv T key (us @ x # vs) rd" "rd_has M ok chunks h s0 rd (rd_bytes cnv key (us @ x # vs) rd) s" using ok by (auto simp: rd_ok_def)
  note D = rd_shape_pos [OF a(1), folded n]
  have lA: "length ?A = m_uiRowOffset rd" using pos length_rd_front(1) by metis
  have lB: "length (rd_bytes cnv key (us @ x # vs) rd) = m_uiDataSize rd" using D n by (simp add: length_rd_bytes row_pos_def)
  have u: "u32_sub (m_uiDataSize rd) (m_uiOffset rd) = length ?V" "u32_sub (u32 (m_uiDataSize rd + n')) n = m_uiDataSize rd + n' - n" "u32_sub n' n = n' - n"
    using small D pos n' by simp_all
  have need: "0 < m_uiDataSize rd + n' - n" "length (rd_bytes cnv key (us @ x # vs) rd) \<le> m_uiDataSize rd + n' - n"
    using n'(2) lB D by auto
  show ?thesis
  proof (cases rule: rd_has_realloc [OF a(2) need])
    case (1 s')
    show ?thesis
    proof (rule that(1))
      show "replace_larger M cnv r fl o0 n' n rd s = Some (EC_NO_MEM, rd\<lparr>m_uiNeedSize := m_uiDataSize rd + n' - n, m_uiOffset := o0\<rparr>, s')"
        using 1(1) u by (simp add: replace_larger_def Let_def)
      show "rd_ok M ok chunks cnv T key (us @ x # vs) h s0 (rd\<lparr>m_uiNeedSize := m_uiDataSize rd + n' - n, m_uiOffset := o0\<rparr>) s'"
        unfolding rd_ok_cursor using 1(2) a(1) by (simp add: rd_ok_def)
    qed simp_all
  next
    case (2 h' s1)
    let ?rm = "rd_move_to M h' s1 rd"
    note k = moved_rd_keeps [OF moved_rd_move_to [of rd M h' s1]]
    have "rd_has M ok chunks h s0 ?rm (?A @ ?R @ ?V) s1" "length (?A @ ?R @ ?V) + (n' - n) \<le> rd_size ?rm"
      using 2(3,4) lB n'(2) D n unfolding rd_bytes_split by simp_all
    from open_gap [OF this] obtain X where X: "length X = n'" "rd_has M ok chunks h s0 ?rm (?A @ X @ ?V)
      (if 0 < length ?V then cm_move M (m_pchContent ?rm + (length ?A + length ?R) + (n' - n)) (m_pchContent ?rm + (length ?A + length ?R)) (length ?V) s1 else s1)"
      using n n'(2) by auto
    define s2 where "s2 = (if 0 < length ?V then cm_move M (m_pchContent ?rm + m_uiOffset rd + (n' - n)) (m_pchContent ?rm + m_uiOffset rd) (length ?V) s1 else s1)"
    have s2: "rd_has M ok chunks h s0 (?rm\<lparr>m_uiOffset := m_uiRowOffset ?rm\<rparr>)
       (le 1 DATA_TYPE_RAW @ le 4 (m_uiDataSize rd) @ le 4 (m_uiRowCnt rd) @ rd_front cnv key us rd @ X @ ?V) s2"
      using X(2) unfolding lA n [symmetric] pos(2) [symmetric] s2_def [symmetric] by (simp add: rd_head_def)
    have off: "m_uiOffset (?rm\<lparr>m_uiOffset := m_uiRowOffset ?rm\<rparr>) = 9 + length (rd_front cnv key us rd)"
      using k(5) lA by (simp add: rd_head_def)
    have w: "row_wf (m_uchKeyIdx (?rm\<lparr>m_uiOffset := m_uiRowOffset ?rm\<rparr>)) r" "length X = length (row_bytes cnv (m_uchKeyIdx (?rm\<lparr>m_uiOffset := m_uiRowOffset ?rm\<rparr>)) (fl, r))"
      "m_uiDataSize (?rm\<lparr>m_uiOffset := m_uiRowOffset ?rm\<rparr>) + length X < 2 ^ 32" "m_uiRowCnt (?rm\<lparr>m_uiOffset := m_uiRowOffset ?rm\<rparr>) + 1 < 2 ^ 32"
      using row X(1) n' small k rd_shape_count [OF a(1)] by (simp_all add: row_ok_def)
    let ?rd2 = "?rm\<lparr>m_uiOffset := m_uiRowOffset rd + n', m_uiDataSize := m_uiDataSize rd + n', m_uiRowCnt := m_uiRowCnt rd + 1\<rparr>"
    from encode_row_has [OF s2 _ _ _ off w] obtain s3 where e: "encode_row M cnv r fl (?rm\<lparr>m_uiOffset := m_uiRowOffset ?rm\<rparr>) s2 = Some (0, ?rd2, s3)"
      and h3: "rd_has M ok chunks h s0 ?rd2 (le 1 DATA_TYPE_RAW @ le 4 (m_uiDataSize rd + n') @ le 4 (m_uiRowCnt rd + 1) @ rd_front cnv key us rd @ ?R' @ ?V) s3"
      using k X(1) by auto
    have mv: "moved_rd (rd\<lparr>m_uiOffset := m_uiRowOffset rd + n', m_uiDataSize := m_uiDataSize rd + length ?R', m_uiRowCnt := m_uiRowCnt rd + 1\<rparr>) ?rd2"
      unfolding moved_rd_def n'(1) rd_move_to_def by (intro exI [of _ h'] exI [of _ "cm_ChunkSize M h' s1"]) simp
    note fin = replaced_rd_ok [OF refl a(1) row _ mv h3, folded n]
    let ?rd3 = "?rd2\<lparr>m_uiRowCnt := u32_sub (m_uiRowCnt ?rd2) 1, m_uiDataSize := u32_sub (m_uiDataSize ?rd2) n\<rparr>"
    show ?thesis
    proof (rule that(2) [of ?rd3 "set_counts M ?rd3 s3"])
      show "replace_larger M cnv r fl o0 n' n rd s = Some (0, ?rd3, set_counts M ?rd3 s3)"
        unfolding replace_larger_def Let_def u 2(1) option.case prod.case s2_def [symmetric] EncodeRow_def if_False e using 2(2) by simp
    qed (use fin small n' pos in \<open>simp_all add: row_pos_snoc\<close>)
  qed
qed

text \<open>Closing the gap behind a row that is no larger.\<close>

lemma close_gap:
  assumes has: "rd_has M ok chunks h s0 rd (A @ W @ V) s"
  shows "rd_has M ok chunks h s0 rd (A @ V)
     (if 0 < length V \<and> W \<noteq> [] then cm_move M (m_pchContent rd + length A) (m_pchContent rd + (length A + length W)) (length V) s else s)"
proof (cases "0 < length V \<and> W \<noteq> []")
  case False
  have "rd_has M ok chunks h s0 rd ((A @ V) @ (if V = [] then W else [])) s" using False has by auto
  from rd_has_take [OF this] False show ?thesis by auto
next
  case True
  define X where "X = take (length V) (W @ V)"
  define Y where "Y = drop (length V) (W @ V)"
  have XY: "W @ V = X @ Y" unfolding X_def Y_def by (rule append_take_drop_id [symmetric])
  have "length V = length X" by (simp add: X_def)
  moreover have "A @ X @ Y = (A @ W) @ V @ []" using XY by simp
  moreover have "rd_has M ok chunks h s0 rd (A @ X @ Y) s" using has XY by simp
  ultimately have "rd_has M ok chunks h s0 rd (A @ V @ Y) (cm_move M (m_pchContent rd + length A) (m_pchContent rd + length (A @ W)) (length V) s)"
    by (intro rd_has_move)
  then have "rd_has M ok chunks h s0 rd ((A @ V) @ Y) (cm_move M (m_pchContent rd + length A) (m_pchContent rd + (length A + length W)) (length V) s)"
    by simp
  from rd_has_take [OF this] True show ?thesis by simp
qed

lemma replace_smaller_ok:
  assumes ok: "rd_ok M ok chunks cnv T key (us @ x # vs) h s0 rd s" and row: "row_ok (m_uchKeyIdx rd) T (fl, r)"
    and pos: "m_uiRowOffset rd = row_pos cnv (m_uchKeyIdx rd) key us" "m_uiOffset rd = m_uiRowOffset rd + n"
    and n: "n = length (row_bytes cnv (m_uchKeyIdx rd) x)" and n': "n' = length (row_bytes cnv (m_uchKeyIdx rd) (fl, r))" "n' \<le> n"
    and small: "m_uiDataSize rd + n' < 4294967296"
  shows "\<exists>rd' s'. replace_smaller M cnv True r fl o0 n' n rd s = Some (0, rd', s') \<and> rd_ok M ok chunks cnv T key (us @ (fl, r) # vs) h s0 rd' s'
      \<and> m_uiOffset rd' = row_pos cnv (m_uchKeyIdx rd') key (us @ [(fl, r)]) \<and> m_uiRowOffset rd' = m_uiRowOffset rd \<and> m_uchKeyIdx rd' = m_uchKeyIdx rd"
proof -
  let ?k = "m_uchKeyIdx rd" and ?V = "rows_bytes cnv (m_uchKeyIdx rd) vs" and ?F = "rd_front cnv key us rd"
  let ?R = "row_bytes cnv ?k x" and ?R' = "row_bytes cnv ?k (fl, r)"
  let ?H = "le 1 DATA_TYPE_RAW @ le 4 (m_uiDataSize rd + n') @ le 4 (m_uiRowCnt rd + 1)"
  have a: "rd_shape cnv T key (us @ x # vs) rd" "rd_has M ok chunks h s0 rd (rd_bytes cnv key (us @ x # vs) rd) s" using ok by (auto simp: rd_ok_def)
  note D = rd_shape_pos [OF a(1), folded n]
  have lF: "m_uiRowOffset rd = 9 + length ?F" using pos(1) by (simp add: rd_front_def row_pos_def)
  have u: "u32_sub (m_uiDataSize rd) (m_uiOffset rd) = length ?V" using small D pos by simp
  have nD: "n \<le> m_uiDataSize rd" using D by simp
  define X where "X = take n' ?R"
  define W where "W = drop n' ?R"
  have XW: "?R = X @ W" "length X = n'" "length W = n - n'" using n'(2) n by (simp_all add: X_def W_def)
  let ?rd0 = "rd\<lparr>m_uiOffset := m_uiRowOffset rd\<rparr>"
  have has0: "rd_has M ok chunks h s0 ?rd0 (le 1 DATA_TYPE_RAW @ le 4 (m_uiDataSize rd) @ le 4 (m_uiRowCnt rd) @ ?F @ X @ (W @ ?V)) s"
    using a(2) by (simp add: rd_bytes_split rd_head_def XW(1))
  have off: "m_uiOffset ?rd0 = 9 + length ?F" using lF by simp
  have w: "row_wf (m_uchKeyIdx ?rd0) r" "length X = length (row_bytes cnv (m_uchKeyIdx ?rd0) (fl, r))"
    "m_uiDataSize ?rd0 + length X < 2 ^ 32" "m_uiRowCnt ?rd0 + 1 < 2 ^ 32"
    using row XW(2) n' small rd_shape_count [OF a(1)] by (auto simp: row_ok_def row_bytes_def)
  let ?rd1 = "rd\<lparr>m_uiOffset := m_uiRowOffset rd + n', m_uiDataSize := m_uiDataSize rd + n', m_uiRowCnt := m_uiRowCnt rd + 1\<rparr>"
  from encode_row_has [OF has0 _ _ _ off w] obtain s1 where e: "encode_row M cnv r fl ?rd0 s = Some (0, ?rd1, s1)"
    and h1: "rd_has M ok chunks h s0 ?rd1 ((?H @ ?F @ ?R') @ W @ ?V) s1" using XW(2) by auto
  define s2 where "s2 = (if 0 < length ?V \<and> m_uiOffset ?rd1 \<noteq> m_uiOffset rd
     then cm_move M (m_pchContent ?rd1 + m_uiOffset ?rd1) (m_pchContent ?rd1 + m_uiOffset rd) (length ?V) s1 else s1)"
  have l3: "length (?H @ ?F @ ?R') = m_uiRowOffset rd + n'" "W \<noteq> [] \<longleftrightarrow> n' \<noteq> n" using lF n' XW(3) by auto
  have s2: "(if 0 < length ?V \<and> W \<noteq> [] then cm_move M (m_pchContent ?rd1 + length (?H @ ?F @ ?R'))
      (m_pchContent ?rd1 + (length (?H @ ?F @ ?R') + length W)) (length ?V) s1 else s1) = s2"
    unfolding s2_def l3 using pos(2) XW(3) n'(2) by auto
  have "rd_has M ok chunks h s0 ?rd1 ((?H @ ?F @ ?R') @ ?V) s2" using close_gap [OF h1] unfolding s2 .
  then have h2: "rd_has M ok chunks h s0 ?rd1 (?H @ ?F @ ?R' @ ?V) s2" by simp
  have need: "0 < m_uiDataSize rd + n' + n' - n" "length (?H @ ?F @ ?R' @ ?V) \<le> m_uiDataSize rd + n' + n' - n"
    using D lF pos(1) n'(1) by (auto simp: row_bytes_def)
  have req: "u32_sub (u32 (m_uiDataSize ?rd1 + n')) n = m_uiDataSize rd + n' + n' - n"
    using small nD n'(2) u32_sub_wrapped [of n "m_uiDataSize rd + n' + n'"] by simp
  have sm: "replace_smaller M cnv True r fl o0 n' n rd s =
      (case cm_ReAlloc M (rd_handle ?rd1) (m_uiDataSize rd + n' + n' - n) s2 of None \<Rightarrow> None
       | Some (h, s3) \<Rightarrow>
         let rd2 = (if h \<noteq> INVALID_HANDLE then rd_move_to M h s3 ?rd1 else ?rd1);
             rd3 = rd2\<lparr>m_uiRowCnt := u32_sub (m_uiRowCnt rd2) 1, m_uiDataSize := u32_sub (m_uiDataSize rd2) n\<rparr>
         in Some (0, rd3, set_counts M rd3 s3))"
    unfolding replace_smaller_def Let_def u EncodeRow_def if_False e option.case prod.case s2_def [symmetric] req not_True_eq_False
    by simp
  have fin: "\<exists>rd' s'. (0::int, rd3, set_counts M rd3 s3) = (0, rd', s') \<and> rd_ok M ok chunks cnv T key (us @ (fl, r) # vs) h s0 rd' s'
      \<and> m_uiOffset rd' = row_pos cnv (m_uchKeyIdx rd') key (us @ [(fl, r)]) \<and> m_uiRowOffset rd' = m_uiRowOffset rd \<and> m_uchKeyIdx rd' = m_uchKeyIdx rd"
    if "moved_rd ?rd1 rd2" "rd_has M ok chunks h s0 rd2 (?H @ ?F @ ?R' @ ?V) s3"
      "rd3 = rd2\<lparr>m_uiRowCnt := u32_sub (m_uiRowCnt rd2) 1, m_uiDataSize := u32_sub (m_uiDataSize rd2) n\<rparr>" for rd2 rd3 s3
  proof -
    have mv: "moved_rd (rd\<lparr>m_uiOffset := m_uiRowOffset rd + n', m_uiDataSize := m_uiDataSize rd + length ?R', m_uiRowCnt := m_uiRowCnt rd + 1\<rparr>) rd2"
      using that(1) n'(1) by simp
    have h3: "rd_has M ok chunks h s0 rd2 (le 1 DATA_TYPE_RAW @ le 4 (m_uiDataSize rd + n') @ le 4 (m_uiRowCnt rd + 1) @ ?F @ ?R' @ ?V) s3"
      using that(2) by simp
    from replaced_rd_ok [OF that(3) [unfolded n] a(1) row _ mv h3] small n' pos show ?thesis by (simp add: row_pos_snoc)
  qed
  show ?thesis
  proof (cases rule: rd_has_realloc [OF h2 need])
    case (1 s3)
    have mv: "moved_rd ?rd1 ?rd1" using h2 by (intro moved_rd_refl) (simp add: rd_has_def)
    show ?thesis unfolding sm 1(1) option.case prod.case Let_def using fin [OF mv 1(2) refl] by (simp only: simp_thms if_False option.inject)
  next
    case (2 h' s3)
    show ?thesis unfolding sm 2(1) option.case prod.case Let_def using fin [OF moved_rd_move_to 2(3) refl] 2(2)
      by (simp only: simp_thms if_True option.inject)
  qed
qed

lemma ReplaceCurRow_ok:
  assumes ok: "rd_ok M ok chunks cnv T key (us @ (fl, q) # vs) h s0 rd s"
    and row: "row_ok (m_uchKeyIdx rd) T (if isDirty then OPER_UPDATE else fl, r)"
    and pos: "m_uiRowOffset rd = row_pos cnv (m_uchKeyIdx rd) key us"
    and small: "m_uiDataSize rd + CalcRowSize r (m_uchKeyIdx rd) < 4294967296"
      "length (row_bytes cnv (m_uchKeyIdx rd) (fl, r)) < 4294967296"
  obtains rd' s' where "ReplaceCurRow M cnv heap r isDirty rd s = Some (EC_NO_MEM, rd', s')"
      "rd_ok M ok chunks cnv T key (us @ (fl, q) # vs) h s0 rd' s'" "m_uiOffset rd' = m_uiOffset rd"
      "m_uiNeedSize rd' = m_uiDataSize rd + length (row_bytes cnv (m_uchKeyIdx rd) (fl, r)) - length (row_bytes cnv (m_uchKeyIdx rd) (fl, q))"
  | rd' s' where "ReplaceCurRow M cnv heap r isDirty rd s = Some (0, rd', s')"
      "rd_ok M ok chunks cnv T key (us @ (if isDirty then OPER_UPDATE else fl, r) # vs) h s0 rd' s'"
      "m_uiOffset rd' = row_pos cnv (m_uchKeyIdx rd') key (us @ [(if isDirty then OPER_UPDATE else fl, r)])"
      "m_uiRowOffset rd' = m_uiRowOffset rd" "m_uchKeyIdx rd' = m_uchKeyIdx rd"
  | "\<not> heap" "ReplaceCurRow M cnv heap r isDirty rd s =
      Some (- ENOMEM, rd\<lparr>m_uiOffset := row_pos cnv (m_uchKeyIdx rd) key (us @ [(fl, q)])\<rparr>, s)"
proof -
  let ?k = "m_uchKeyIdx rd" and ?fl = "if isDirty then OPER_UPDATE else fl"
  let ?n = "length (row_bytes cnv ?k (fl, q))" and ?n' = "length (row_bytes cnv ?k (?fl, r))"
  have a: "rd_shape cnv T key (us @ (fl, q) # vs) rd" using ok by (simp add: rd_ok_def)
  have rT: "tableDef r = T" "row_wf ?k r" "fl < 256" using row row_ok_at [OF a] by (auto simp: row_ok_def)
  let ?rd = "rd\<lparr>m_uiOffset := row_pos cnv ?k key us + ?n\<rparr>"
  have skip: "SkipRow M r rd s = (0, ?rd)" using SkipRow_ok [OF ok rT(1) pos] by (simp add: row_pos_snoc)
  have len: "length (row_bytes cnv ?k (fl, r)) = ?n'" by (simp add: row_bytes_def)
  have calc: "CalcRowSize r ?k = ?n'" using CalcRowSize_length [OF rT(2), of cnv ?fl] small(2) len by simp
  note c = current_row [OF ok]
  have flag: "GET_VALUE_AT_OFFSET M 1 (m_uiRowOffset ?rd) ?rd s = Some fl"
    using c(1,3-5) pos rT(3) by (simp add: GET_VALUE_AT_OFFSET_def un_le_le)
  have cur: "u32_sub (m_uiOffset ?rd) (m_uiRowOffset ?rd) = ?n" using pos c(3-6) by simp
  note rep = ReplaceCurRow_def [of M cnv heap r isDirty rd s, unfolded skip Let_def prod.case flag option.case cur]
  have ok': "rd_ok M ok chunks cnv T key (us @ (fl, q) # vs) h s0 ?rd s" using ok by simp
  have pre: "row_ok (m_uchKeyIdx ?rd) T (?fl, r)" "m_uiRowOffset ?rd = row_pos cnv (m_uchKeyIdx ?rd) key us" "m_uiOffset ?rd = m_uiRowOffset ?rd + ?n"
    "?n = length (row_bytes cnv (m_uchKeyIdx ?rd) (fl, q))" "?n' = length (row_bytes cnv (m_uchKeyIdx ?rd) (?fl, r))"
    "m_uiDataSize ?rd + ?n' < 4294967296" using row pos small(1) calc by simp_all
  show ?thesis
  proof (cases "?n < ?n'")
    case True
    then have r: "ReplaceCurRow M cnv heap r isDirty rd s = replace_larger M cnv r ?fl (m_uiOffset rd) ?n' ?n ?rd s" using rep calc by simp
    show ?thesis
    proof (cases rule: replace_larger_ok [OF ok' pre(1-5) True pre(6), of "m_uiOffset rd"])
      case (1 rd' s')
      have "m_uiNeedSize rd' = m_uiDataSize rd + length (row_bytes cnv ?k (fl, r)) - ?n" unfolding len using 1(4) by simp
      then show ?thesis using r 1(1-3) by (intro that(1) [of rd' s']) simp_all
    next
      case (2 rd' s')
      then show ?thesis using r by (intro that(2) [of rd' s']) simp_all
    qed
  next
    case False
    then have le: "?n' \<le> ?n" by simp
    have r: "ReplaceCurRow M cnv heap r isDirty rd s = replace_smaller M cnv heap r ?fl (m_uiOffset rd) ?n' ?n ?rd s" using rep calc False by simp
    show ?thesis
    proof (cases heap)
      case True
      obtain rd' s' where e: "replace_smaller M cnv True r ?fl (m_uiOffset rd) ?n' ?n ?rd s = Some (0, rd', s')"
        "rd_ok M ok chunks cnv T key (us @ (?fl, r) # vs) h s0 rd' s'" "m_uiOffset rd' = row_pos cnv (m_uchKeyIdx rd') key (us @ [(?fl, r)])"
        "m_uiRowOffset rd' = m_uiRowOffset ?rd" "m_uchKeyIdx rd' = m_uchKeyIdx ?rd"
        using replace_smaller_ok [OF ok' pre(1-5) le pre(6), of "m_uiOffset rd"] by blast
      show ?thesis by (rule that(2) [of rd' s']) (use r True e in simp_all)
    next
      case False
      then show ?thesis using r by (intro that(3)) (simp_all add: replace_smaller_def Let_def row_pos_snoc)
    qed
  qed
qed

end

end
