(* ===== verification/Raw_Data_Life.thy ===== *)
theory Raw_Data_Life
  imports Raw_Data_Ops
begin

text \<open>
  The life cycle of a \<open>CRawData\<close> object: \<open>Init\<close> on a fresh chunk, \<open>Attach\<close> to a chunk that another
  object wrote, insertion of several rows at once, and the operations that only touch the header or
  the flag of a row.
\<close>

lemma rd_has_stamps [simp]:
  "rd_has M ok chunks h s0 (rd\<lparr>m_uchGetCount := x\<rparr>) B s = rd_has M ok chunks h s0 rd B s"
  "rd_has M ok chunks h s0 (rd\<lparr>m_LastAccessHour := x\<rparr>) B s = rd_has M ok chunks h s0 rd B s"
  "rd_has M ok chunks h s0 (rd\<lparr>m_LastUpdateHour := x\<rparr>) B s = rd_has M ok chunks h s0 rd B s"
  by (simp_all add: rd_has_def)

context chunk_memory
begin

section \<open>Init\<close>

lemma cm_put_merge: "n = a + length xs \<Longrightarrow> cm_put M n ys (cm_put M a xs s) = cm_put M a (xs @ ys) s"
  by (simp add: cm_put_put)

lemma init_header_eq:
  fixes hour
  defines "H \<equiv> u16 hour"
  assumes "m_uiOffset rd = 0" "16 \<le> rd_size rd" "rd_size rd < 4294967296" "m_pchContent rd \<noteq> 0"
  shows "init_header M hour rd s =
     (True, rd\<lparr>m_uiOffset := 16, m_uiGetCountOffset := 9, m_uchGetCount := 1, m_uiTimeStampOffSet := 10,
               m_LastAccessHour := H, m_LastUpdateHour := H, m_CreateHour := H, m_uiKeyStart := 16\<rparr>,
      cm_put M (m_pchContent rd) (le 1 DATA_TYPE_RAW @ le 4 (m_uiDataSize rd) @ le 4 (m_uiRowCnt rd)
        @ le 1 1 @ le 2 H @ le 2 H @ le 2 H) s)"
  using assms(2-) unfolding init_header_def H_def
  by (simp add: SET_VALUE_def InitTimpStamp_def SKIP_SIZE_def Let_def cm_put_merge del: le.simps One_nat_def)

lemma rd_has_fresh:
  assumes "ok s'" "(h, k) \<in> chunks s'" "\<And>g j. (g, j) \<in> chunks s \<Longrightarrow> g \<noteq> h \<and> (g, j) \<in> chunks s' \<and> get_bytes M g j s' = get_bytes M g j s"
    and "rd_handle rd = h" "m_pchContent rd = h" "rd_size rd = k" "length B \<le> k"
  shows "rd_has M ok chunks h s rd B (cm_put M h B s')"
proof -
  have "rd_has M ok chunks h s rd [] s'" using assms by (simp add: rd_has_def chunk_step_def get_bytes_def)
  from rd_has_extend [OF this, of "length B"] assms(6,7) obtain Z where Z: "length Z = length B" "rd_has M ok chunks h s rd ([] @ Z @ []) s'"
    by auto
  from rd_has_put [OF Z(2), of B] Z(1) assms(5) show ?thesis by simp
qed

lemma RD_Init_ok:
  assumes s: "ok s" and key: "key_wf iKeySize key" and small: "16 + length key + uiDataSize < 4294967296"
  obtains s' where "RD_Init M hour k iKeySize key uiDataSize la rd s =
        Some (EC_NO_MEM, rd\<lparr>rd_handle := INVALID_HANDLE, rd_size := 0, m_uiNeedSize := 16 + length key + uiDataSize\<rparr>, s')"
      "ok s'" "chunks s' = chunks s"
  | h rd' s' where "RD_Init M hour k iKeySize key uiDataSize la rd s = Some (0, rd', s')" "h \<notin> fst ` chunks s"
      "rd_ok M ok chunks cnv T key [] h s rd' s'" "rd_handle rd' = h" "m_uchKeyIdx rd' = k" "m_iKeySize rd' = iKeySize"
      "m_uiDataSize rd' + uiDataSize \<le> rd_size rd'" "m_uiOffset rd' = m_uiDataSize rd'" "m_uiRowOffset rd' = m_uiDataSize rd'"
proof -
  let ?ks = "if iKeySize \<noteq> 0 then iKeySize else 1 + int (hd key)"
  have ks: "?ks = int (length key)" "\<not> (iKeySize = 0 \<and> key = [])" using key by (auto simp: key_wf_def key_length_def)
  have need: "u32_int (int uiDataSize + 16 + ?ks) = 16 + length key + uiDataSize" "u32_int (16 + ?ks) = 16 + length key"
    unfolding ks(1) using small by (auto simp: u32_int_def nat_add_distrib)
  note ini = RD_Init_def [of M hour k iKeySize key uiDataSize la rd s, unfolded Let_def need]
  obtain h s1 where m: "cm_Malloc M (16 + length key + uiDataSize) s = Some (h, s1)" by (meson cm_malloc [OF s])
  note law = cm_malloc [OF s, of "16 + length key + uiDataSize", unfolded m option.inject prod.inject, simplified]
  show ?thesis
  proof (cases "h = 0")
    case True
    show ?thesis
    proof (rule that(1) [of s1])
      show "RD_Init M hour k iKeySize key uiDataSize la rd s =
        Some (EC_NO_MEM, rd\<lparr>rd_handle := INVALID_HANDLE, rd_size := 0, m_uiNeedSize := 16 + length key + uiDataSize\<rparr>, s1)"
        unfolding ini using m True ks(2) by (simp add: INVALID_HANDLE_def)
    qed (use law True in auto)
  next
    case False
    with law obtain n where n: "ok s1" "16 + length key + uiDataSize \<le> n" "h \<notin> fst ` chunks s" "chunks s1 = insert (h, n) (chunks s)"
      "\<forall>g j. (g, j) \<in> chunks s \<longrightarrow> (\<forall>i<j. cm_get M s1 (g + i) = cm_get M s (g + i))" by auto
    have nm: "(h, n) \<in> chunks s1" using n(4) by simp
    have sz: "cm_ChunkSize M h s1 = n" "n < 4294967296" using cm_size [OF n(1) nm] cm_handle [OF n(1) nm] by auto
    define rd1 where "rd1 = rd\<lparr>rd_handle := h, rd_size := n, m_uiDataSize := 16 + length key, m_uiRowCnt := 0,
                         m_uchKeyIdx := k, m_iKeySize := iKeySize, m_iLAId := la, m_pchContent := h, m_uiOffset := 0, m_uiLAOffset := 0\<rparr>"
    let ?H = "u16 hour"
    let ?B = "le 1 DATA_TYPE_RAW @ le 4 (m_uiDataSize rd1) @ le 4 (m_uiRowCnt rd1) @ le 1 1 @ le 2 ?H @ le 2 ?H @ le 2 ?H"
    let ?rd2 = "rd1\<lparr>m_uiOffset := 16, m_uiGetCountOffset := 9, m_uchGetCount := 1, m_uiTimeStampOffSet := 10,
               m_LastAccessHour := ?H, m_LastUpdateHour := ?H, m_CreateHour := ?H, m_uiKeyStart := 16\<rparr>"
    have "init_header M hour rd1 s1 = (True, ?rd2, cm_put M (m_pchContent rd1) ?B s1)"
      using n(2) sz(2) False by (intro init_header_eq) (auto simp: rd1_def)
    then have hd: "init_header M hour rd1 s1 = (True, ?rd2, cm_put M h ?B s1)" by (simp add: rd1_def)
    let ?rd3 = "?rd2\<lparr>m_uiOffset := 16 + length key, m_uiDataStart := 16 + length key, m_uiRowOffset := 16 + length key\<rparr>"
    have p: "u32_int (int (m_uiOffset ?rd2) + ?ks) = 16 + length key" unfolding ks(1) using small by (auto simp: u32_int_def nat_add_distrib)
    have put: "cm_put M (m_pchContent ?rd2 + m_uiOffset ?rd2) (take (nat ?ks) key) (cm_put M h ?B s1) = cm_put M h (?B @ key) s1"
      unfolding ks(1) by (simp add: rd1_def cm_put_merge del: le.simps)
    have init: "RD_Init M hour k iKeySize key uiDataSize la rd s = Some (0, ?rd3, cm_put M h (?B @ key) s1)"
      unfolding ini m option.case prod.case sz(1) rd1_def [symmetric] hd p put using ks False by (simp add: INVALID_HANDLE_def)
    have "get_bytes M g j s1 = get_bytes M g j s" if "(g, j) \<in> chunks s" for g j
      by (rule nth_equalityI) (use n(5) that in auto)
    then have "rd_has M ok chunks h s ?rd3 (?B @ key) (cm_put M h (?B @ key) s1)"
      using n nm by (intro rd_has_fresh [where k = n]) (force simp: rd1_def)+
    moreover have "rd_bytes cnv key [] ?rd3 = ?B @ key" by (simp add: rd_bytes_def stamps_def del: le.simps)
    moreover have "?H < 65536" by (simp add: u16_def)
    then have "rd_shape cnv T key [] ?rd3" using key by (simp add: rd_shape_def rd1_def)
    ultimately have "rd_ok M ok chunks cnv T key [] h s ?rd3 (cm_put M h (?B @ key) s1)" by (simp add: rd_ok_def)
    then show ?thesis using init n(2,3) by (intro that(2) [of ?rd3 "cm_put M h (?B @ key) s1" h]) (auto simp: rd1_def)
  qed
qed

section \<open>Attach\<close>

lemma rd_header_reads:
  assumes ok: "rd_ok M ok chunks cnv T key rows h s0 rd s"
  shows "get_bytes M (rd_handle rd) 1 s = le 1 DATA_TYPE_RAW" "get_bytes M (rd_handle rd + 1) 4 s = le 4 (m_uiDataSize rd)"
    "get_bytes M (rd_handle rd + 5) 4 s = le 4 (m_uiRowCnt rd)" "get_bytes M (rd_handle rd + 9) 1 s = le 1 (m_uchGetCount rd)"
    "get_bytes M (rd_handle rd + 10) 2 s = le 2 (m_LastAccessHour rd)" "get_bytes M (rd_handle rd + 12) 2 s = le 2 (m_LastUpdateHour rd)"
    "get_bytes M (rd_handle rd + 14) 2 s = le 2 (m_CreateHour rd)" "get_bytes M (rd_handle rd + 16) (length key) s = key"
proof -
  let ?l = "[le 1 DATA_TYPE_RAW, le 4 (m_uiDataSize rd), le 4 (m_uiRowCnt rd), le 1 (m_uchGetCount rd), le 2 (m_LastAccessHour rd),
     le 2 (m_LastUpdateHour rd), le 2 (m_CreateHour rd), key, rows_bytes cnv (m_uchKeyIdx rd) rows]"
  have "rd_has M ok chunks h s0 rd (concat ?l) s" using ok by (simp add: rd_ok_def rd_bytes_def stamps_def)
  then have "get_bytes M (m_pchContent rd + length (concat (take i ?l))) (length (?l ! i)) s = ?l ! i" if "i < length ?l" for i
    using that rd_has_get [of M ok chunks h s0 rd "concat (take i ?l)" "?l ! i" "concat (drop (Suc i) ?l)" s]
      id_take_nth_drop [OF that] concat_append [of "take i ?l" "?l ! i # drop (Suc i) ?l"] by (metis concat.simps(2))
  note g = this
  have p: "m_pchContent rd = rd_handle rd" using ok by (simp add: rd_ok_def rd_has_def)
  show "get_bytes M (rd_handle rd) 1 s = le 1 DATA_TYPE_RAW" using g [of 0] p by (simp del: le.simps)
  show "get_bytes M (rd_handle rd + 1) 4 s = le 4 (m_uiDataSize rd)" using g [of 1] p by (simp del: le.simps)
  show "get_bytes M (rd_handle rd + 5) 4 s = le 4 (m_uiRowCnt rd)" using g [of 2] p by (simp add: numeral_eq_Suc del: le.simps)
  show "get_bytes M (rd_handle rd + 9) 1 s = le 1 (m_uchGetCount rd)" using g [of 3] p by (simp add: numeral_eq_Suc del: le.simps)
  show "get_bytes M (rd_handle rd + 10) 2 s = le 2 (m_LastAccessHour rd)" using g [of 4] p by (simp add: numeral_eq_Suc del: le.simps)
  show "get_bytes M (rd_handle rd + 12) 2 s = le 2 (m_LastUpdateHour rd)" using g [of 5] p by (simp add: numeral_eq_Suc del: le.simps)
  show "get_bytes M (rd_handle rd + 14) 2 s = le 2 (m_CreateHour rd)" using g [of 6] p by (simp add: numeral_eq_Suc del: le.simps)
  show "get_bytes M (rd_handle rd + 16) (length key) s = key" using g [of 7] p by (simp add: numeral_eq_Suc del: le.simps)
qed

lemma RD_Attach_ok:
  assumes ok: "rd_ok M ok chunks cnv T key rows h s0 rd s"
  obtains rd' where "RD_Attach M (rd_handle rd) (m_uchKeyIdx rd) (m_iKeySize rd) la lc rd0 s = (0, rd')"
    "rd_ok M ok chunks cnv T key rows (rd_handle rd) s rd' s" "rd_handle rd' = rd_handle rd" "rd_size rd' = rd_size rd"
    "m_uchKeyIdx rd' = m_uchKeyIdx rd" "m_uiOffset rd' = row_pos cnv (m_uchKeyIdx rd) key []" "m_uiRowOffset rd' = m_uiOffset rd'"
    "m_uiRowCnt rd' = m_uiRowCnt rd" "m_iLAId rd' = la" "m_iLCmodId rd' = lc"
proof -
  have a: "rd_shape cnv T key rows rd" "rd_has M ok chunks h s0 rd (rd_bytes cnv key rows rd) s" using ok by (auto simp: rd_ok_def)
  note sh = a(1) [unfolded rd_shape_def] and bd = rd_has_bounds [OF a(2), unfolded length_rd_bytes] and g = rd_header_reads [OF ok]
  let ?h = "rd_handle rd" and ?n = "rd_size rd"
  have c: "(?h, ?n) \<in> chunks s" "ok s" "m_pchContent rd = ?h" using a(2) by (auto simp: rd_has_def)
  have sz: "cm_ChunkSize M ?h s = ?n" using cm_size [OF c(2,1)] .
  have n16: "16 + length key \<le> ?n" using bd(4) by simp
  define ra where "ra = rd0\<lparr>rd_size := ?n, rd_handle := ?h, m_pchContent := ?h, m_uiOffset := 0, m_uiLAOffset := 0\<rparr>"
  have rd1: "RD_Attach M ?h (m_uchKeyIdx rd) (m_iKeySize rd) la lc rd0 s = attach_header M (m_uchKeyIdx rd) (m_iKeySize rd) la lc ra s"
    using n16 by (simp add: RD_Attach_def sz ra_def)
  have ks: "(if m_iKeySize rd = 0 then 1 + int (cm_get M s (?h + 16)) else m_iKeySize rd) = int (length key)"
  proof -
    have "cm_get M s (?h + 16) = hd key" if "key \<noteq> []"
      using g(8) that nth_get_bytes [of 0 "length key" M "?h + 16" s] by (simp add: hd_conv_nth)
    then show ?thesis using sh by (auto simp: key_wf_def key_length_def)
  qed
  have v: "m_uiDataSize rd < 4294967296" "m_uiRowCnt rd < 4294967296" "m_uchGetCount rd < 256"
    "m_LastAccessHour rd < 65536" "m_LastUpdateHour rd < 65536" "m_CreateHour rd < 65536" "m_uiDataSize rd \<le> ?n"
    using sh bd rd_shape_count [OF a(1)] by auto
  let ?rd' = "ra\<lparr>m_uiDataSize := m_uiDataSize rd, m_uiRowCnt := m_uiRowCnt rd, m_uiGetCountOffset := 9, m_uchGetCount := m_uchGetCount rd,
     m_uiTimeStampOffSet := 10, m_LastAccessHour := m_LastAccessHour rd, m_LastUpdateHour := m_LastUpdateHour rd, m_CreateHour := m_CreateHour rd,
     m_uchKeyIdx := m_uchKeyIdx rd, m_uiKeyStart := 16, m_iKeySize := m_iKeySize rd, m_iLAId := la, m_iLCmodId := lc,
     m_uiOffset := 16 + length key, m_uiDataStart := 16 + length key, m_uiRowOffset := 16 + length key\<rparr>"
  have "u32_int (16 + int (length key)) = 16 + length key" using n16 bd(3) by (auto simp: u32_int_def nat_add_distrib)
  then have skip: "SKIP_SIZE_int (int (length key)) d = Some (d\<lparr>m_uiOffset := 16 + length key\<rparr>)" if "m_uiOffset d = 16" "rd_size d = ?n" for d :: CRawData
    using that n16 by (simp add: SKIP_SIZE_int_def)
  have "attach_header M (m_uchKeyIdx rd) (m_iKeySize rd) la lc ra s = (0, ?rd')"
    using n16 bd(1,3) v ks
    by (cases "m_iKeySize rd = 0") (simp_all add: attach_header_def GET_VALUE_def SKIP_SIZE_def AttachTimeStamp_def Let_def ra_def un_le_le
        DATA_TYPE_RAW_def g g [unfolded add.commute [of "rd_handle rd"]] skip del: le.simps One_nat_def)
  moreover have "rd_ok M ok chunks cnv T key rows ?h s ?rd' s"
    using rd_has_restart [OF a(2)] sh by (simp add: rd_ok_def rd_shape_def rd_bytes_def stamps_def rd_has_def ra_def c del: le.simps)
  ultimately show ?thesis using rd1 by (intro that [of ?rd']) (simp_all add: ra_def row_pos_def)
qed

section \<open>Several rows\<close>

lemma CalcRowSize_sum:
  assumes "list_all (row_ok k T) (map (Pair fl) rs)" "t + length (rows_bytes cnv k (map (Pair fl) rs)) < 4294967296"
  shows "fold (\<lambda>r t. u32 (t + CalcRowSize r k)) rs t = t + length (rows_bytes cnv k (map (Pair fl) rs))"
  using assms
proof (induction rs arbitrary: t)
  case (Cons r rs)
  have "CalcRowSize r k = length (row_bytes cnv k (fl, r))" using Cons.prems by (intro CalcRowSize_length) (auto simp: row_ok_def)
  then show ?case using Cons.IH [of "t + length (row_bytes cnv k (fl, r))"] Cons.prems by simp
qed simp

lemma encode_rows_ok:
  assumes "rd_ok M ok chunks cnv T key rows h s0 rd s" "m_uiOffset rd = m_uiDataSize rd" "list_all (row_ok (m_uchKeyIdx rd) T) (map (Pair fl) rs)"
    and "m_uiDataSize rd + length (rows_bytes cnv (m_uchKeyIdx rd) (map (Pair fl) rs)) \<le> rd_size rd"
  shows "\<exists>rd' s'. encode_rows M cnv fl rs rd s = Some (0, rd', s') \<and> rd_ok M ok chunks cnv T key (rows @ map (Pair fl) rs) h s0 rd' s'
     \<and> m_uiDataSize rd' = m_uiDataSize rd + length (rows_bytes cnv (m_uchKeyIdx rd) (map (Pair fl) rs))
     \<and> m_uchKeyIdx rd' = m_uchKeyIdx rd \<and> m_uiDataStart rd' = m_uiDataStart rd"
  using assms
proof (induction rs arbitrary: rows rd s)
  case (Cons r rs)
  let ?n = "length (row_bytes cnv (m_uchKeyIdx rd) (fl, r))"
  have sz: "rd_size rd < 4294967296" using Cons.prems(1) rd_has_bounds(3) by (auto simp: rd_ok_def)
  then have small: "row_ok (m_uchKeyIdx rd) T (fl, r)" "m_uiDataSize rd + ?n < 2 ^ 32" "m_uiDataSize rd + ?n \<le> rd_size rd"
    using Cons.prems(3,4) by auto
  show ?case
  proof (cases rule: EncodeRow_append [OF Cons.prems(1,2) small(1,2)])
    case (1 s')
    then show ?thesis using small(3) by simp
  next
    case (2 rd1 s1)
    then have "rd_size rd1 = rd_size rd" using small(3) by simp
    with 2 Cons.prems(3,4) have "\<exists>rd' s'. encode_rows M cnv fl rs rd1 s1 = Some (0, rd', s')
       \<and> rd_ok M ok chunks cnv T key ((rows @ [(fl, r)]) @ map (Pair fl) rs) h s0 rd' s'
       \<and> m_uiDataSize rd' = m_uiDataSize rd1 + length (rows_bytes cnv (m_uchKeyIdx rd1) (map (Pair fl) rs))
       \<and> m_uchKeyIdx rd' = m_uchKeyIdx rd1 \<and> m_uiDataStart rd' = m_uiDataStart rd1"
      by (intro Cons.IH) auto
    then show ?thesis using 2 by (auto simp: add.assoc)
  qed
qed simp

lemma InsertNRows_ok:
  fixes rs isDirty
  defines "new \<equiv> map (Pair (if isDirty then OPER_INSERT else OPER_SELECT)) rs"
  assumes ok: "rd_ok M ok chunks cnv T key rows h s0 rd s" and rs: "list_all (row_ok (m_uchKeyIdx rd) T) new"
    and small: "m_uiDataSize rd + length (rows_bytes cnv (m_uchKeyIdx rd) new) < 4294967296"
  obtains rd' s' where "InsertNRows M cnv True rs byFirst isDirty rd s = Some (EC_NO_MEM, rd', s')" "rd_ok M ok chunks cnv T key rows h s0 rd' s'"
  | rd' s' where "InsertNRows M cnv True rs byFirst isDirty rd s = Some (0, rd', s')"
      "rd_ok M ok chunks cnv T key (if byFirst then new @ rows else rows @ new) h s0 rd' s'"
proof -
  let ?fl = "if isDirty then OPER_INSERT else OPER_SELECT" and ?n = "length (rows_bytes cnv (m_uchKeyIdx rd) new)"
  have sum: "fold (\<lambda>r t. u32 (t + CalcRowSize r (m_uchKeyIdx rd))) rs 0 = ?n"
    using CalcRowSize_sum [of "m_uchKeyIdx rd" T ?fl rs 0 cnv] rs small by (simp add: new_def)
  have sm: "m_uiDataSize rd + ?n < 2 ^ 32" using small by simp
  show ?thesis
  proof (cases rule: rd_ok_expand [OF ok sm])
    case (1 s')
    show ?thesis by (rule that(1) [of "rd\<lparr>m_uiNeedSize := m_uiDataSize rd + ?n\<rparr>" s'])
        (use 1 in \<open>simp_all add: InsertNRows_def sum EC_NO_MEM_def\<close>)
  next
    case (2 rd1 s1)
    note k = moved_rd_keeps [OF 2(3)]
    let ?rd = "rd1\<lparr>m_uiOffset := m_uiDataSize rd1\<rparr>"
    have "\<exists>rd' s'. encode_rows M cnv ?fl rs ?rd s1 = Some (0, rd', s') \<and> rd_ok M ok chunks cnv T key (rows @ map (Pair ?fl) rs) h s0 rd' s'
       \<and> m_uiDataSize rd' = m_uiDataSize ?rd + length (rows_bytes cnv (m_uchKeyIdx ?rd) (map (Pair ?fl) rs))
       \<and> m_uchKeyIdx rd' = m_uchKeyIdx ?rd \<and> m_uiDataStart rd' = m_uiDataStart ?rd"
      using 2 rs k by (intro encode_rows_ok) (simp_all add: new_def)
    then obtain rd' s' where e: "encode_rows M cnv ?fl rs ?rd s1 = Some (0, rd', s')" "rd_ok M ok chunks cnv T key (rows @ new) h s0 rd' s'"
      "m_uiDataSize rd' = m_uiDataSize rd + ?n" "m_uchKeyIdx rd' = m_uchKeyIdx rd" "m_uiDataStart rd' = m_uiDataStart rd"
      using k by (auto simp: new_def)
    have sh: "m_uiDataSize rd = 16 + length key + length (rows_bytes cnv (m_uchKeyIdx rd) rows)" "m_uiDataStart rd = 16 + length key"
      using ok by (auto simp: rd_ok_def rd_shape_def)
    have u: "u32_sub (m_uiDataSize rd') (m_uiDataSize rd1) = ?n" "u32_sub (m_uiDataSize rd1) (m_uiDataStart rd') = length (rows_bytes cnv (m_uchKeyIdx rd) rows)"
      using e(3,5) sh small k by simp_all
    have ne: "rows_bytes cnv (m_uchKeyIdx rd) xs = [] \<longleftrightarrow> xs = []" for xs by (cases xs) (auto simp: row_bytes_def)
    note ins = InsertNRows_def [of M cnv True rs byFirst isDirty rd s, unfolded sum 2(1) option.case prod.case Let_def e(1) u]
    have rot: "rd_ok M ok chunks cnv T key (new @ rows) h s0 rd' (rotate_rows M (m_uiDataSize rd) ?n rd' s')"
      using e sh by (intro rotate_rows_ok [OF e(2)]) simp_all
    consider "\<not> byFirst \<or> new = [] \<or> rows = []" | "byFirst" "new \<noteq> []" "rows \<noteq> []" by blast
    then show ?thesis
    proof cases
      case 1
      then have "InsertNRows M cnv True rs byFirst isDirty rd s = Some (0, rd', s')" using ins ne by (elim disjE) simp_all
      moreover have "(if byFirst then new @ rows else rows @ new) = rows @ new" using 1 by auto
      ultimately show ?thesis using e(2) by (intro that(2)) simp_all
    next
      case c: 2
      then have "InsertNRows M cnv True rs byFirst isDirty rd s = Some (0, rd', rotate_rows M (m_uiDataSize rd) ?n rd' s')"
        using ins ne k(1) by simp
      then show ?thesis using rot c(1) by (intro that(2)) simp_all
    qed
  qed
qed

section \<open>Header and flags\<close>

lemma IncSelectCount_ok:
  assumes ok: "rd_ok M ok chunks cnv T key rows h s0 rd s"
  shows "\<exists>rd' s'. IncSelectCount M rd s = (rd', s') \<and> rd_ok M ok chunks cnv T key rows h s0 rd' s'
     \<and> m_uchGetCount rd' = min 255 (m_uchGetCount rd + 1)"
proof -
  have a: "rd_shape cnv T key rows rd" "rd_has M ok chunks h s0 rd (rd_bytes cnv key rows rd) s" using ok by (auto simp: rd_ok_def)
  note sh = a(1) [unfolded rd_shape_def] and bd = rd_has_bounds [OF a(2), unfolded length_rd_bytes]
  show ?thesis
  proof (cases "m_uchGetCount rd \<ge> 255")
    case True
    then show ?thesis using ok sh by (auto simp: IncSelectCount_def BTYE_MAX_VALUE_def min_def)
  next
    case False
    let ?c = "m_uchGetCount rd + 1" and ?B = "le 2 (m_LastAccessHour rd) @ le 2 (m_LastUpdateHour rd) @ le 2 (m_CreateHour rd) @ key @ rows_bytes cnv (m_uchKeyIdx rd) rows"
    have "rd_has M ok chunks h s0 rd (rd_head rd @ le 1 (m_uchGetCount rd) @ ?B) s"
      using a(2) by (simp add: rd_bytes_def rd_head_def stamps_def del: le.simps)
    from rd_has_put [OF this, of "le 1 ?c"] have "rd_has M ok chunks h s0 rd (rd_head rd @ le 1 ?c @ ?B) (cm_put M (m_pchContent rd + 9) (le 1 ?c) s)"
      by (simp del: le.simps)
    then have "rd_ok M ok chunks cnv T key rows h s0 (rd\<lparr>m_uchGetCount := ?c\<rparr>) (cm_put M (m_pchContent rd + 9) (le 1 ?c) s)"
      using sh False by (simp add: rd_ok_def rd_shape_def rd_bytes_def rd_head_def stamps_def del: le.simps)
    then show ?thesis using False sh bd(4) by (simp add: IncSelectCount_def BTYE_MAX_VALUE_def Let_def)
  qed
qed

lemma UpdateLastAccess_ok:
  assumes ok: "rd_ok M ok chunks cnv T key rows h s0 rd s"
  shows "\<exists>s'. UpdateLastAccessTimeByHour M hour rd s = (rd\<lparr>m_LastAccessHour := u16 hour\<rparr>, s')
     \<and> rd_ok M ok chunks cnv T key rows h s0 (rd\<lparr>m_LastAccessHour := u16 hour\<rparr>) s'"
proof -
  have a: "rd_shape cnv T key rows rd" "rd_has M ok chunks h s0 rd (rd_bytes cnv key rows rd) s" using ok by (auto simp: rd_ok_def)
  note sh = a(1) [unfolded rd_shape_def] and bd = rd_has_bounds [OF a(2), unfolded length_rd_bytes]
  let ?A = "rd_head rd @ le 1 (m_uchGetCount rd)" and ?B = "le 2 (m_LastUpdateHour rd) @ le 2 (m_CreateHour rd) @ key @ rows_bytes cnv (m_uchKeyIdx rd) rows"
  have "rd_has M ok chunks h s0 rd (?A @ le 2 (m_LastAccessHour rd) @ ?B) s"
    using a(2) by (simp add: rd_bytes_def rd_head_def stamps_def del: le.simps)
  from rd_has_put [OF this, of "le 2 (u16 hour)"] have "rd_has M ok chunks h s0 rd (?A @ le 2 (u16 hour) @ ?B) (cm_put M (m_pchContent rd + 10) (le 2 (u16 hour)) s)"
    by (simp del: le.simps)
  moreover have "u16 hour < 65536" by (simp add: u16_def)
  ultimately have "rd_ok M ok chunks cnv T key rows h s0 (rd\<lparr>m_LastAccessHour := u16 hour\<rparr>) (cm_put M (m_pchContent rd + 10) (le 2 (u16 hour)) s)"
    using sh by (simp add: rd_ok_def rd_shape_def rd_bytes_def rd_head_def stamps_def del: le.simps)
  then show ?thesis using sh bd by (simp add: UpdateLastAccessTimeByHour_def)
qed

lemma UpdateLastUpdate_ok:
  assumes ok: "rd_ok M ok chunks cnv T key rows h s0 rd s"
  shows "\<exists>s'. UpdateLastUpdateTimeByHour M hour rd s = (rd\<lparr>m_LastUpdateHour := u16 hour\<rparr>, s')
     \<and> rd_ok M ok chunks cnv T key rows h s0 (rd\<lparr>m_LastUpdateHour := u16 hour\<rparr>) s'"
proof -
  have a: "rd_shape cnv T key rows rd" "rd_has M ok chunks h s0 rd (rd_bytes cnv key rows rd) s" using ok by (auto simp: rd_ok_def)
  note sh = a(1) [unfolded rd_shape_def] and bd = rd_has_bounds [OF a(2), unfolded length_rd_bytes]
  let ?A = "rd_head rd @ le 1 (m_uchGetCount rd) @ le 2 (m_LastAccessHour rd)" and ?B = "le 2 (m_CreateHour rd) @ key @ rows_bytes cnv (m_uchKeyIdx rd) rows"
  have "rd_has M ok chunks h s0 rd (?A @ le 2 (m_LastUpdateHour rd) @ ?B) s"
    using a(2) by (simp add: rd_bytes_def rd_head_def stamps_def del: le.simps)
  from rd_has_put [OF this, of "le 2 (u16 hour)"] have "rd_has M ok chunks h s0 rd (?A @ le 2 (u16 hour) @ ?B) (cm_put M (m_pchContent rd + 10 + 2) (le 2 (u16 hour)) s)"
    by (simp add: ac_simps del: le.simps)
  moreover have "u16 hour < 65536" by (simp add: u16_def)
  ultimately have "rd_ok M ok chunks cnv T key rows h s0 (rd\<lparr>m_LastUpdateHour := u16 hour\<rparr>) (cm_put M (m_pchContent rd + 10 + 2) (le 2 (u16 hour)) s)"
    using sh by (simp add: rd_ok_def rd_shape_def rd_bytes_def rd_head_def stamps_def del: le.simps)
  then show ?thesis using sh bd by (simp add: UpdateLastUpdateTimeByHour_def)
qed

lemma SetCurRowFlag_ok:
  assumes ok: "rd_ok M ok chunks cnv T key (us @ (fl, q) # vs) h s0 rd s" and pos: "m_uiRowOffset rd = row_pos cnv (m_uchKeyIdx rd) key us"
    and fl: "fl' < 256"
  shows "\<exists>s'. SetCurRowFlag M fl' rd s = (0, s') \<and> rd_ok M ok chunks cnv T key (us @ (fl', q) # vs) h s0 rd s'"
proof -
  have a: "rd_shape cnv T key (us @ (fl, q) # vs) rd" "rd_has M ok chunks h s0 rd (rd_bytes cnv key (us @ (fl, q) # vs) rd) s"
    using ok by (auto simp: rd_ok_def)
  define F where "F = fields_bytes cnv q [m_uchKeyIdx rd + 1..<NumFields q + 1]"
  have R: "row_bytes cnv (m_uchKeyIdx rd) (f, q) = le 1 f @ F" for f by (simp add: row_bytes_def F_def del: upt_Suc)
  let ?A = "rd_head rd @ rd_front cnv key us rd" and ?V = "rows_bytes cnv (m_uchKeyIdx rd) vs"
  have "rd_has M ok chunks h s0 rd (?A @ le 1 fl @ (F @ ?V)) s" using a(2) by (simp add: rd_bytes_split R del: le.simps)
  from rd_has_put [OF this, of "le 1 fl'"] have "rd_has M ok chunks h s0 rd (?A @ le 1 fl' @ (F @ ?V)) (cm_put M (m_pchContent rd + m_uiRowOffset rd) (le 1 fl') s)"
    unfolding length_rd_front(1) pos by simp
  then have "rd_ok M ok chunks cnv T key (us @ (fl', q) # vs) h s0 rd (cm_put M (m_pchContent rd + m_uiRowOffset rd) (le 1 fl') s)"
    using a(1) fl by (simp add: rd_ok_def rd_shape_def rd_bytes_split R row_ok_def del: le.simps)
  moreover have "\<not> m_uiRowOffset rd \<ge> m_uiDataSize rd" using current_row(3) [OF ok] pos by simp
  ultimately show ?thesis by (simp add: SetCurRowFlag_def)
qed

lemma DeleteAllRows_ok:
  assumes ok: "rd_ok M ok chunks cnv T key rows h s0 rd s"
  obtains rd' s' where "DeleteAllRows M rd s = (0, rd', s')" "rd_ok M ok chunks cnv T key [] h s0 rd' s'" "m_uiOffset rd' = m_uiDataSize rd'"
proof -
  have a: "rd_shape cnv T key rows rd" "rd_has M ok chunks h s0 rd (rd_bytes cnv key rows rd) s" using ok by (auto simp: rd_ok_def)
  let ?rd = "rd\<lparr>m_uiDataSize := m_uiDataStart rd, m_uiRowOffset := m_uiDataStart rd, m_uiRowCnt := 0, m_uiOffset := m_uiDataStart rd\<rparr>"
  have "rd_has M ok chunks h s0 ?rd ((le 1 DATA_TYPE_RAW @ le 4 (m_uiDataSize rd) @ le 4 (m_uiRowCnt rd) @ stamps ?rd @ key
      @ rows_bytes cnv (m_uchKeyIdx ?rd) []) @ rows_bytes cnv (m_uchKeyIdx rd) rows) s"
    using a(2) by (simp add: rd_bytes_def stamps_def del: le.simps)
  from rd_has_take [OF this] have "rd_ok M ok chunks cnv T key [] h s0 ?rd (set_counts M ?rd s)"
    using a(1) by (intro set_counts_rd_ok) (auto simp: rd_shape_def)
  then have ok': "rd_ok M ok chunks cnv T key [] h s0 (?rd\<lparr>m_uiNeedSize := 0\<rparr>) (set_counts M ?rd s)" unfolding rd_ok_cursor .
  have "DeleteAllRows M rd s = (0, ?rd\<lparr>m_uiNeedSize := 0\<rparr>, set_counts M ?rd s)" unfolding DeleteAllRows_def Let_def by simp
  then show ?thesis using ok' by (rule that) simp
qed

lemma StripMem_ok:
  assumes ok: "rd_ok M ok chunks cnv T key rows h s0 rd s"
  obtains s' where "StripMem M rd s = Some (EC_NO_MEM, rd\<lparr>m_uiNeedSize := m_uiDataSize rd\<rparr>, s')"
      "rd_ok M ok chunks cnv T key rows h s0 (rd\<lparr>m_uiNeedSize := m_uiDataSize rd\<rparr>) s'"
  | rd' s' where "StripMem M rd s = Some (0, rd', s')" "rd_ok M ok chunks cnv T key rows h s0 rd' s'" "moved_rd rd rd'"
proof -
  have a: "rd_shape cnv T key rows rd" "rd_has M ok chunks h s0 rd (rd_bytes cnv key rows rd) s" using ok by (auto simp: rd_ok_def)
  have n: "0 < m_uiDataSize rd" "length (rd_bytes cnv key rows rd) \<le> m_uiDataSize rd" using a(1) by (auto simp: rd_shape_def length_rd_bytes)
  show ?thesis
  proof (cases rule: rd_has_realloc [OF a(2) n])
    case (1 s')
    then show ?thesis using a(1) by (intro that(1) [of s']) (simp_all add: StripMem_def rd_ok_cursor, simp add: rd_ok_def)
  next
    case (2 h' s')
    then show ?thesis using a(1) moved_rd_keeps [OF moved_rd_move_to [of rd M h' s']] moved_rd_move_to
      by (intro that(2) [of "rd_move_to M h' s' rd" s']) (simp_all add: StripMem_def rd_ok_def)
  qed
qed

lemma RD_Destroy_ok:
  assumes ok: "rd_ok M ok chunks cnv T key rows h s0 rd s"
  shows "\<exists>s'. RD_Destroy M rd s = (0, rd\<lparr>rd_handle := INVALID_HANDLE, rd_size := 0\<rparr>, s') \<and> ok s'
     \<and> chunks s' = chunks s - {(rd_handle rd, rd_size rd)} \<and> (\<forall>g j. (g, j) \<in> chunks s' \<longrightarrow> get_bytes M g j s' = get_bytes M g j s)"
proof -
  have c: "ok s" "(rd_handle rd, rd_size rd) \<in> chunks s" using ok by (auto simp: rd_ok_def rd_has_def)
  have nz: "rd_handle rd \<noteq> INVALID_HANDLE" using cm_handle [OF c] by (simp add: INVALID_HANDLE_def)
  from cm_free [OF c] obtain s' where f: "cm_Free M (rd_handle rd) s = (0, s')" "ok s'" "chunks s' = chunks s - {(rd_handle rd, rd_size rd)}"
    "\<forall>g j i. (g, j) \<in> chunks s - {(rd_handle rd, rd_size rd)} \<longrightarrow> i < j \<longrightarrow> cm_get M s' (g + i) = cm_get M s (g + i)" by blast
  have "get_bytes M g j s' = get_bytes M g j s" if "(g, j) \<in> chunks s'" for g j
    by (rule nth_equalityI) (use f(3,4) that in auto)
  then show ?thesis using f nz by (auto simp: RD_Destroy_def)
qed

end

end
