(* ===== verification/Raw_Data_Correct.thy ===== *)
theory Raw_Data_Correct
  imports Raw_Data_Life Bin_Malloc_Correct
begin

text \<open>
  The packed rows on the segment allocator: the operations of \<open>CRawData\<close> with \<open>CBinMalloc\<close> behind
  them act on a list of rows, and leave every other chunk of the segment alone.
\<close>

text \<open>
  The object holds the key \<open>key\<close> and the rows \<open>rows\<close> of the table \<open>T\<close> in a live chunk of a sound segment.
\<close>

definition rd_valid :: "FloatConv \<Rightarrow> CField list \<Rightarrow> nat list \<Rightarrow> row list \<Rightarrow> CRawData \<Rightarrow> CBinMalloc \<Rightarrow> bool" where
  "rd_valid cnv T key rows rd s \<longleftrightarrow> rd_ok BM_mem BM_sound BM_chunks cnv T key rows (rd_handle rd) s rd s"

text \<open>Every chunk of \<open>s\<close> but the one of the object is in \<open>s'\<close> with the bytes it had.\<close>

definition others_kept :: "CRawData \<Rightarrow> CBinMalloc \<Rightarrow> CRawData \<Rightarrow> CBinMalloc \<Rightarrow> bool" where
  "others_kept rd s rd' s' \<longleftrightarrow> chunk_step BM_mem BM_chunks (rd_handle rd) s (rd_handle rd') s'"

lemma rd_validD: "rd_valid cnv T key rows rd s \<Longrightarrow> rd_ok BM_mem BM_sound BM_chunks cnv T key rows (rd_handle rd) s rd s"
  by (simp add: rd_valid_def)

lemma rd_okD:
  assumes "rd_ok BM_mem BM_sound BM_chunks cnv T key rows (rd_handle rd) s rd' s'"
  shows "rd_valid cnv T key rows rd' s' \<and> others_kept rd s rd' s'"
  using assms rd_ok_restart [OF assms] by (simp add: rd_valid_def others_kept_def rd_ok_def rd_has_def)

section \<open>Example\<close>

definition ex_table :: "CField list" where
  "ex_table = [\<lparr>fieldType = Unsigned, fieldSize = 4, FF_DISCARD = False\<rparr>, \<lparr>fieldType = Signed, fieldSize = 4, FF_DISCARD = False\<rparr>,
     \<lparr>fieldType = String, fieldSize = 100, FF_DISCARD = False\<rparr>, \<lparr>fieldType = Unsigned, fieldSize = 8, FF_DISCARD = True\<rparr>]"

definition ex_row :: CRowValue where
  "ex_row = \<lparr>tableDef = ex_table, field_value = (\<lambda>_. \<lparr>u64v = 7, flt = 0, bin_len = 2, bin_ptr = [65, 66]\<rparr>)\<rparr>"

definition ex_cnv :: FloatConv where
  "ex_cnv = \<lparr>to_float = (\<lambda>x. x mod 2 ^ 32), to_double = (\<lambda>x. x)\<rparr>"

lemma ex_row_ok: "fl < 256 \<Longrightarrow> row_ok 0 ex_table (fl, ex_row)"
proof -
  have "{0 + 1..<NumFields ex_row + 1} = {1, 2, 3}" by (auto simp: NumFields_def ex_row_def ex_table_def)
  then show "fl < 256 \<Longrightarrow> row_ok 0 ex_table (fl, ex_row)"
    unfolding row_ok_def row_wf_def by (simp add: ex_row_def ex_table_def IsDiscard_def value_wf_def num_field_def)
qed

lemma le_numeral: "le (numeral n) x = x mod 256 # le (pred_numeral n) (x div 256)"
  unfolding numeral_eq_Suc [of n] by (rule le.simps(2))

lemma ex_row_bytes: "row_bytes cnv 0 (fl, ex_row) = [fl mod 256, 7, 0, 0, 0, 2, 0, 0, 0, 65, 66]"
proof -
  have "NumFields ex_row = 3" by (simp add: NumFields_def ex_row_def ex_table_def)
  then have "[0 + 1..<NumFields ex_row + 1] = [1, 2, 3]" by (simp add: upt_conv_Cons)
  then show ?thesis unfolding row_bytes_def prod.case
    by (simp add: ex_row_def ex_table_def IsDiscard_def field_bytes_def num_field_def num_width_def num_bits_def u32_int_def le_numeral)
qed

lemma ex_rd:
  "\<exists>rd s. rd_valid cnv T [1, 2, 3, 4] [] rd s \<and> m_uchKeyIdx rd = 0 \<and> m_uiDataSize rd = 20 \<and> m_iKeySize rd = 4 \<and> 100 \<le> rd_size rd
     \<and> m_uiRowOffset rd = 20"
proof -
  obtain st bs p n where s: "BM_Malloc 100 ex_seg = Some (chunk2mem p, st)" "BM_inv st bs" "(p, n, True) \<in> set bs"
    using ex_one_block by blast
  have ok: "BM_sound ex_seg" using ex_seg_inv ex_seg_size by (auto simp: BM_sound_def BM_ok_def MAX_ALLOC_SIZE_def)
  have k: "key_wf 4 [1, 2, 3, 4]" "16 + length [1, 2, 3, 4 :: nat] + 80 < 4294967296" by (simp_all add: key_wf_def key_length_def)
  show ?thesis
  proof (cases rule: bmm.RD_Init_ok [OF ok k, where hour = 0 and k = 0 and la = "-1" and rd = "CRawData_new 0" and cnv = cnv and T = T])
    case (1 s')
    have "chunk2mem p \<noteq> INVALID_HANDLE" by (simp add: chunk2mem_def INVALID_HANDLE_def)
    with 1(1) s(1) show ?thesis
      by (auto simp: RD_Init_def u32_int_def Let_def EC_NO_MEM_def split: prod.splits if_splits)
  next
    case (2 h rd s')
    have "m_uiDataSize rd = 20" using 2(3) by (simp add: rd_ok_def rd_shape_def)
    then show ?thesis using 2 rd_ok_restart [OF 2(3)] by (intro exI [of _ rd] exI [of _ s']) (simp add: rd_valid_def)
  qed
qed

lemma ex_rd_row:
  assumes "fl < 256"
  shows "\<exists>rd s. rd_valid cnv ex_table [1, 2, 3, 4] [(fl, ex_row)] rd s \<and> m_uchKeyIdx rd = 0 \<and> m_uiDataSize rd = 31 \<and> 100 \<le> rd_size rd"
proof -
  obtain rd s where e: "rd_valid cnv ex_table [1, 2, 3, 4] [] rd s" "m_uchKeyIdx rd = 0" "m_uiDataSize rd = 20" "100 \<le> rd_size rd"
    using ex_rd by blast
  have row: "row_ok (m_uchKeyIdx rd) ex_table (fl, ex_row)" using e(2) ex_row_ok [OF assms] by simp
  have n: "length (row_bytes cnv (m_uchKeyIdx rd) (fl, ex_row)) = 11" using e(2) by (simp add: ex_row_bytes)
  then have small: "m_uiDataSize rd + length (row_bytes cnv (m_uchKeyIdx rd) (fl, ex_row)) < 2 ^ 32" using e(3) by simp
  show ?thesis
  proof (cases rule: bmm.InsertRowFlag_ok [OF rd_validD [OF e(1)] row small, of True False])
    case (1 rd' s')
    then show ?thesis using n e(3,4) by simp
  next
    case (2 rd' s')
    then have v: "rd_valid cnv ex_table [1, 2, 3, 4] [(fl, ex_row)] rd' s'" using rd_okD by simp
    moreover have "m_uchKeyIdx rd' = 0" using 2(4) e(2) by simp
    moreover have "m_uiDataSize rd' = 31" using v n e(2) calculation(2) by (simp add: rd_valid_def rd_ok_def rd_shape_def)
    moreover have "100 \<le> rd_size rd'" using 2(5) n e(3,4) by simp
    ultimately show ?thesis by blast
  qed simp
qed

lemma row_bytes_flag: "length (row_bytes cnv k (fl, r)) = length (row_bytes cnv k (0, r))"
  by (simp add: row_bytes_def)

lemma oper_flags: "(if isDirty then OPER_INSERT else OPER_SELECT) < 256" "(if isDirty then OPER_UPDATE else fl) < 256 \<longleftrightarrow> isDirty \<or> fl < 256"
  by (simp_all add: OPER_INSERT_def OPER_SELECT_def OPER_UPDATE_def)

section \<open>Life cycle\<close>

text \<open>
  C29: \<open>Init\<close> on a sound segment either fails with \<open>EC_NO_MEM\<close>, reporting the size it needed and
  leaving the chunks as they were, or gives an object without rows that holds the key in a chunk that
  was not in use, with room for the data size asked for; no other chunk changes.
\<close>

theorem RawInit_correct:
  assumes "BM_sound s" "key_wf iKeySize key" "16 + length key + uiDataSize < 4294967296"
  shows "\<exists>rc rd' s'. RD_Init BM_mem hour k iKeySize key uiDataSize la rd s = Some (rc, rd', s')
     \<and> (rc = EC_NO_MEM \<and> BM_sound s' \<and> BM_chunks s' = BM_chunks s \<and> m_uiNeedSize rd' = 16 + length key + uiDataSize
        \<or> rc = 0 \<and> rd_valid cnv T key [] rd' s' \<and> rd_handle rd' \<notin> fst ` BM_chunks s \<and> others_kept rd' s rd' s'
          \<and> m_uchKeyIdx rd' = k \<and> m_iKeySize rd' = iKeySize \<and> m_uiDataSize rd' + uiDataSize \<le> rd_size rd')"
proof (cases rule: bmm.RD_Init_ok [OF assms, where hour = hour and k = k and la = la and rd = rd and cnv = cnv and T = T])
  case (1 s')
  then show ?thesis by simp
next
  case (2 h rd' s')
  then have "rd_ok BM_mem BM_sound BM_chunks cnv T key [] (rd_handle rd') s rd' s'" by simp
  from rd_okD [OF this] 2 show ?thesis by simp
qed

theorem RawInit_correct_witness:
  "\<exists>s. BM_sound s \<and> (\<exists>rc rd' s'. RD_Init BM_mem 5 0 0 [2, 65, 66] 10 (-1) (CRawData_new 0) s = Some (rc, rd', s')
     \<and> (rc = EC_NO_MEM \<and> m_uiNeedSize rd' = 29 \<or> rc = 0 \<and> rd_valid ex_cnv ex_table [2, 65, 66] [] rd' s'))"
proof -
  have ok: "BM_sound ex_seg" using ex_seg_inv ex_seg_size by (auto simp: BM_sound_def BM_ok_def MAX_ALLOC_SIZE_def)
  have k: "key_wf 0 [2, 65, 66]" "16 + length [2, 65, 66 :: nat] + 10 < 4294967296" by (simp_all add: key_wf_def key_length_def)
  have e: "16 + length [2, 65, 66 :: nat] + 10 = 29" by simp
  from RawInit_correct [OF ok k, of 5 0 "-1" "CRawData_new 0" ex_cnv ex_table] ok show ?thesis unfolding e by blast
qed

text \<open>
  C30: an object that attaches to the chunk of another one, with the same key format, sees the same key
  and the same rows, the same counters, and stands in front of the first row.
\<close>

theorem RawAttach_roundtrip:
  assumes "rd_valid cnv T key rows rd s"
  shows "\<exists>rd'. RD_Attach BM_mem (rd_handle rd) (m_uchKeyIdx rd) (m_iKeySize rd) la lc rd0 s = (0, rd')
     \<and> rd_valid cnv T key rows rd' s \<and> rd_handle rd' = rd_handle rd \<and> m_uiRowCnt rd' = length rows
     \<and> m_uiOffset rd' = row_pos cnv (m_uchKeyIdx rd') key [] \<and> m_iLAId rd' = la \<and> m_iLCmodId rd' = lc"
proof -
  obtain rd' where r: "RD_Attach BM_mem (rd_handle rd) (m_uchKeyIdx rd) (m_iKeySize rd) la lc rd0 s = (0, rd')"
    "rd_ok BM_mem BM_sound BM_chunks cnv T key rows (rd_handle rd) s rd' s" "rd_handle rd' = rd_handle rd"
    "m_uchKeyIdx rd' = m_uchKeyIdx rd" "m_uiOffset rd' = row_pos cnv (m_uchKeyIdx rd) key []" "m_iLAId rd' = la" "m_iLCmodId rd' = lc"
    using bmm.RD_Attach_ok [OF rd_validD [OF assms]] by metis
  moreover have "m_uiRowCnt rd' = length rows" using r(2) by (simp add: rd_ok_def rd_shape_def)
  ultimately show ?thesis using rd_okD [OF r(2)] by simp
qed

theorem RawAttach_roundtrip_witness:
  "\<exists>rd s. rd_valid ex_cnv ex_table [1, 2, 3, 4] [(0x36, ex_row)] rd s
     \<and> (\<exists>rd'. RD_Attach BM_mem (rd_handle rd) (m_uchKeyIdx rd) (m_iKeySize rd) 1 2 (CRawData_new 0) s = (0, rd')
        \<and> rd_valid ex_cnv ex_table [1, 2, 3, 4] [(0x36, ex_row)] rd' s \<and> m_uiRowCnt rd' = 1)"
proof -
  have "(0x36 :: nat) < 256" by simp
  then obtain rd s where e: "rd_valid ex_cnv ex_table [1, 2, 3, 4] [(0x36, ex_row)] rd s" using ex_rd_row by blast
  have l: "length [(0x36 :: nat, ex_row)] = 1" by simp
  from RawAttach_roundtrip [OF e, of 1 2 "CRawData_new 0"] e show ?thesis unfolding l by blast
qed

section \<open>Rows\<close>

text \<open>
  C24: \<open>InsertRow\<close> puts the row behind the last one, or in front of the first one, with the flag of an
  inserted or of a selected row, or fails with \<open>EC_NO_MEM\<close> and the size it needs, the rows being as
  before; either way no other chunk of the segment changes.
\<close>

theorem RawInsert_correct:
  assumes "rd_valid cnv T key rows rd s" "tableDef r = T" "row_wf (m_uchKeyIdx rd) r"
    and "m_uiDataSize rd + length (row_bytes cnv (m_uchKeyIdx rd) (0, r)) < 4294967296"
  shows "\<exists>rc rd' s'. InsertRow BM_mem cnv True r byFirst isDirty rd s = Some (rc, rd', s') \<and> others_kept rd s rd' s'
     \<and> (rc = EC_NO_MEM \<and> rd_valid cnv T key rows rd' s'
          \<and> m_uiNeedSize rd' = m_uiDataSize rd + length (row_bytes cnv (m_uchKeyIdx rd) (0, r))
        \<or> rc = 0 \<and> rd_valid cnv T key
            (if byFirst then (if isDirty then OPER_INSERT else OPER_SELECT, r) # rows
             else rows @ [(if isDirty then OPER_INSERT else OPER_SELECT, r)]) rd' s')"
proof -
  let ?fl = "if isDirty then OPER_INSERT else OPER_SELECT"
  have row: "row_ok (m_uchKeyIdx rd) T (?fl, r)" using assms(2,3) oper_flags(1) by (simp add: row_ok_def)
  have sm: "m_uiDataSize rd + length (row_bytes cnv (m_uchKeyIdx rd) (?fl, r)) < 2 ^ 32" using assms(4) row_bytes_flag [of cnv _ ?fl] by simp
  show ?thesis
  proof (cases rule: bmm.InsertRowFlag_ok [OF rd_validD [OF assms(1)] row sm, of True byFirst])
    case (1 rd' s')
    then show ?thesis using rd_okD [OF 1(2)] row_bytes_flag [of cnv _ ?fl] by (simp add: InsertRow_def)
  next
    case (2 rd' s')
    then show ?thesis using rd_okD [OF 2(3)] by (simp add: InsertRow_def)
  next
    case (3 rd' s')
    then show ?thesis by simp
  qed
qed

lemma ex_row_wf: "tableDef ex_row = ex_table" "row_wf 0 ex_row"
  using ex_row_ok [of 0] by (simp_all add: row_ok_def)

theorem RawInsert_correct_witness:
  "\<exists>rd s. rd_valid ex_cnv ex_table [1, 2, 3, 4] [(0x30, ex_row)] rd s
     \<and> (\<exists>rc rd' s'. InsertRow BM_mem ex_cnv True ex_row True True rd s = Some (rc, rd', s')
        \<and> (rc = EC_NO_MEM \<and> m_uiNeedSize rd' = 42
           \<or> rc = 0 \<and> rd_valid ex_cnv ex_table [1, 2, 3, 4] [(OPER_INSERT, ex_row), (0x30, ex_row)] rd' s'))"
proof -
  have "(0x30 :: nat) < 256" by simp
  then obtain rd s where e: "rd_valid ex_cnv ex_table [1, 2, 3, 4] [(0x30, ex_row)] rd s" "m_uchKeyIdx rd = 0" "m_uiDataSize rd = 31"
    using ex_rd_row by blast
  have w: "row_wf (m_uchKeyIdx rd) ex_row" "m_uiDataSize rd + length (row_bytes ex_cnv (m_uchKeyIdx rd) (0, ex_row)) < 4294967296"
    "m_uiDataSize rd + length (row_bytes ex_cnv (m_uchKeyIdx rd) (0, ex_row)) = 42" using ex_row_wf(2) e(2,3) by (simp_all add: ex_row_bytes)
  from RawInsert_correct [OF e(1) ex_row_wf(1) w(1,2), of True True, unfolded w(3) if_True] e(1) show ?thesis by blast
qed

text \<open>
  C31: when the C library has no memory for the buffer that moves the new row to the front,
  \<open>InsertRow\<close> reports \<open>-ENOMEM\<close> although the row is in the object: it stays behind the last row.
\<close>

theorem RawInsert_ENOMEM:
  assumes "rd_valid cnv T key rows rd s" "tableDef r = T" "row_wf (m_uchKeyIdx rd) r" "rows \<noteq> []"
    and "m_uiDataSize rd + length (row_bytes cnv (m_uchKeyIdx rd) (0, r)) \<le> rd_size rd"
  shows "\<exists>rd' s'. InsertRow BM_mem cnv False r True isDirty rd s = Some (- ENOMEM, rd', s')
     \<and> rd_valid cnv T key (rows @ [(if isDirty then OPER_INSERT else OPER_SELECT, r)]) rd' s'"
proof -
  let ?fl = "if isDirty then OPER_INSERT else OPER_SELECT"
  have row: "row_ok (m_uchKeyIdx rd) T (?fl, r)" using assms(2,3) oper_flags(1) by (simp add: row_ok_def)
  have "rd_size rd < 4294967296" using assms(1) bmm.rd_has_bounds(3) by (auto simp: rd_valid_def rd_ok_def)
  then have sm: "m_uiDataSize rd + length (row_bytes cnv (m_uchKeyIdx rd) (?fl, r)) < 2 ^ 32" using assms(5) row_bytes_flag [of cnv _ ?fl] by simp
  show ?thesis
  proof (cases rule: bmm.InsertRowFlag_ok [OF rd_validD [OF assms(1)] row sm, of False True])
    case (1 rd' s')
    then show ?thesis using assms(5) row_bytes_flag [of cnv _ ?fl] by simp
  next
    case (2 rd' s')
    then show ?thesis using assms(4) by simp
  next
    case (3 rd' s')
    then show ?thesis using rd_okD [OF 3(5)] by (simp add: InsertRow_def)
  qed
qed

theorem RawInsert_ENOMEM_witness:
  "\<exists>rd s. rd_valid ex_cnv ex_table [1, 2, 3, 4] [(0x30, ex_row)] rd s
     \<and> (\<exists>rd' s'. InsertRow BM_mem ex_cnv False ex_row True False rd s = Some (- ENOMEM, rd', s')
        \<and> rd_valid ex_cnv ex_table [1, 2, 3, 4] [(0x30, ex_row), (OPER_SELECT, ex_row)] rd' s')"
proof -
  have "(0x30 :: nat) < 256" by simp
  then obtain rd s where e: "rd_valid ex_cnv ex_table [1, 2, 3, 4] [(0x30, ex_row)] rd s" "m_uchKeyIdx rd = 0" "m_uiDataSize rd = 31" "100 \<le> rd_size rd"
    using ex_rd_row by blast
  have w: "row_wf (m_uchKeyIdx rd) ex_row" "[(0x30 :: nat, ex_row)] \<noteq> []"
    "m_uiDataSize rd + length (row_bytes ex_cnv (m_uchKeyIdx rd) (0, ex_row)) \<le> rd_size rd" using ex_row_wf(2) e(2-4) by (simp_all add: ex_row_bytes)
  from RawInsert_ENOMEM [OF e(1) ex_row_wf(1) w, of False, unfolded if_False append.simps] e(1) show ?thesis by blast
qed

text \<open>
  C26: \<open>DecodeRow\<close> in front of a row gives its flag and stores into the row object, for every field
  that is stored, the value that was encoded (a 4 byte integer truncated and sign extended, a 4 byte
  float through \<open>float\<close>, every other value as it was), leaves the other fields alone, and stands
  behind the row; the object and its rows stay as they are.
\<close>

theorem RawDecode_correct:
  assumes "rd_valid cnv T key (us @ (fl, q) # vs) rd s" "m_uiOffset rd = row_pos cnv (m_uchKeyIdx rd) key us" "tableDef r = T"
  shows "\<exists>r' rd'. DecodeRow BM_mem cnv 0 r flags rd s = (0, r', fl, rd')
     \<and> rd_valid cnv T key (us @ (fl, q) # vs) rd' s \<and> m_uiRowOffset rd' = row_pos cnv (m_uchKeyIdx rd') key us
     \<and> m_uiOffset rd' = row_pos cnv (m_uchKeyIdx rd') key (us @ [(fl, q)])
     \<and> m_uchKeyIdx rd' = m_uchKeyIdx rd \<and> tableDef r' = T
     \<and> (\<forall>j. field_value r' j =
           (if m_uchKeyIdx rd < j \<and> j \<le> NumFields q \<and> \<not> IsDiscard q j
            then load_value cnv (T ! j) (field_value q j) (field_value r j) else field_value r j))"
proof -
  have q: "tableDef q = T" using assms(1) row_ok_at [of cnv T key us fl q vs rd] by (simp add: rd_valid_def rd_ok_def)
  obtain la where d: "DecodeRow BM_mem cnv 0 r flags rd s = (0, load_fields cnv q [m_uchKeyIdx rd + 1..<NumFields q + 1] r, fl,
      rd\<lparr>m_uiRowOffset := m_uiOffset rd, m_uiOffset := row_pos cnv (m_uchKeyIdx rd) key (us @ [(fl, q)]), m_uiLAOffset := la\<rparr>)"
    using bmm.DecodeRow_ok [OF rd_validD [OF assms(1)] assms(3,2), of 0 flags] by auto
  have "field_value (load_fields cnv q [m_uchKeyIdx rd + 1..<NumFields q + 1] r) j =
     (if m_uchKeyIdx rd < j \<and> j \<le> NumFields q \<and> \<not> IsDiscard q j
      then load_value cnv (T ! j) (field_value q j) (field_value r j) else field_value r j)" for j
    using q by (simp add: load_fields_value Suc_le_eq less_Suc_eq_le del: upt_Suc)
  moreover have "rd_valid cnv T key (us @ (fl, q) # vs)
      (rd\<lparr>m_uiRowOffset := m_uiOffset rd, m_uiOffset := row_pos cnv (m_uchKeyIdx rd) key (us @ [(fl, q)]), m_uiLAOffset := la\<rparr>) s"
    using assms(1) unfolding rd_valid_def rd_ok_cursor by simp
  ultimately show ?thesis using d assms(2,3) by (simp del: upt_Suc)
qed

theorem RawDecode_correct_witness:
  "\<exists>rd s. rd_valid ex_cnv ex_table [1, 2, 3, 4] [(0x36, ex_row)] rd s \<and> m_uiOffset rd = 20
     \<and> (\<exists>r' rd'. DecodeRow BM_mem ex_cnv 0 (ex_row\<lparr>field_value := \<lambda>_. \<lparr>u64v = 0, flt = 0, bin_len = 0, bin_ptr = []\<rparr>\<rparr>) 0 rd s = (0, r', 0x36, rd')
        \<and> m_uiOffset rd' = 31 \<and> u64v (field_value r' 1) = 7 \<and> bin_ptr (field_value r' 2) = [65, 66])"
proof -
  let ?r = "ex_row\<lparr>field_value := \<lambda>_. \<lparr>u64v = 0, flt = 0, bin_len = 0, bin_ptr = []\<rparr>\<rparr>"
  have "(0x36 :: nat) < 256" by simp
  then obtain rd0 s where e: "rd_valid ex_cnv ex_table [1, 2, 3, 4] [(0x36, ex_row)] rd0 s" "m_uchKeyIdx rd0 = 0" using ex_rd_row by blast
  define rd where "rd = rd0\<lparr>m_uiOffset := 20\<rparr>"
  have v: "rd_valid ex_cnv ex_table [1, 2, 3, 4] ([] @ (0x36, ex_row) # []) rd s" "m_uchKeyIdx rd = 0"
    using e by (simp_all add: rd_def rd_valid_def)
  have p: "m_uiOffset rd = row_pos ex_cnv (m_uchKeyIdx rd) [1, 2, 3, 4] []" by (simp add: rd_def row_pos_def)
  have t: "tableDef ?r = ex_table" by (simp add: ex_row_def)
  from RawDecode_correct [OF v(1) p t, of 0] obtain r' rd' where d: "DecodeRow BM_mem ex_cnv 0 ?r 0 rd s = (0, r', 0x36, rd')"
    "rd_valid ex_cnv ex_table [1, 2, 3, 4] ([] @ (0x36, ex_row) # []) rd' s"
    "m_uiOffset rd' = row_pos ex_cnv (m_uchKeyIdx rd') [1, 2, 3, 4] ([] @ [(0x36, ex_row)])"
    "m_uiRowOffset rd' = row_pos ex_cnv (m_uchKeyIdx rd') [1, 2, 3, 4] []" "m_uchKeyIdx rd' = m_uchKeyIdx rd" and
    f: "\<And>j. field_value r' j = (if m_uchKeyIdx rd < j \<and> j \<le> NumFields ex_row \<and> \<not> IsDiscard ex_row j
            then load_value ex_cnv (ex_table ! j) (field_value ex_row j) (field_value ?r j) else field_value ?r j)" by blast
  have "NumFields ex_row = 3" by (simp add: NumFields_def ex_row_def ex_table_def)
  then have "u64v (field_value r' 1) = 7" "bin_ptr (field_value r' 2) = [65, 66]"
    unfolding f v(2) by (simp_all add: ex_row_def ex_table_def IsDiscard_def load_value_def num_field_def sext32_def)
  moreover have "m_uiOffset rd' = 31"
  proof -
    have "m_uiDataSize rd' = m_uiOffset rd'" using d(2,3) by (simp add: rd_valid_def rd_ok_def rd_shape_def row_pos_def)
    moreover have "m_uchKeyIdx rd' = 0" using d(5) v(2) by simp
    ultimately show ?thesis using d(3) by (simp add: row_pos_def ex_row_bytes)
  qed
  moreover have "m_uiOffset rd = 20" by (simp add: rd_def)
  ultimately show ?thesis using d(1) v(1) by auto
qed

text \<open>
  C27: \<open>DeleteCurRow\<close> removes the current row and nothing else, and stands in front of the row that
  followed it.
\<close>

theorem RawDelete_correct:
  assumes "rd_valid cnv T key (us @ x # vs) rd s" "m_uiRowOffset rd = row_pos cnv (m_uchKeyIdx rd) key us" "tableDef r = T"
  shows "\<exists>rd' s'. DeleteCurRow BM_mem r rd s = (0, rd', s') \<and> rd_valid cnv T key (us @ vs) rd' s' \<and> others_kept rd s rd' s'
     \<and> m_uiOffset rd' = row_pos cnv (m_uchKeyIdx rd') key us \<and> m_uiRowOffset rd' = m_uiOffset rd' \<and> m_uchKeyIdx rd' = m_uchKeyIdx rd"
proof -
  obtain fl q where x: "x = (fl, q)" by (cases x)
  obtain rd' s' where d: "DeleteCurRow BM_mem r rd s = (0, rd', s')"
    "rd_ok BM_mem BM_sound BM_chunks cnv T key (us @ vs) (rd_handle rd) s rd' s'"
    "m_uiOffset rd' = row_pos cnv (m_uchKeyIdx rd') key us" "m_uiRowOffset rd' = m_uiOffset rd'" "m_uchKeyIdx rd' = m_uchKeyIdx rd"
    using bmm.DeleteCurRow_ok [OF rd_validD [OF assms(1) [unfolded x]] assms(3,2)] by metis
  then show ?thesis using rd_okD [OF d(2)] by simp
qed

theorem RawDelete_correct_witness:
  "\<exists>rd s. rd_valid ex_cnv ex_table [1, 2, 3, 4] [(0x36, ex_row)] rd s
     \<and> (\<exists>rd' s'. DeleteCurRow BM_mem ex_row rd s = (0, rd', s') \<and> rd_valid ex_cnv ex_table [1, 2, 3, 4] [] rd' s')"
proof -
  have "(0x36 :: nat) < 256" by simp
  then obtain rd0 s where e: "rd_valid ex_cnv ex_table [1, 2, 3, 4] [(0x36, ex_row)] rd0 s" using ex_rd_row by blast
  define rd where "rd = rd0\<lparr>m_uiRowOffset := 20\<rparr>"
  have v: "rd_valid ex_cnv ex_table [1, 2, 3, 4] ([] @ (0x36, ex_row) # []) rd s" using e by (simp add: rd_def rd_valid_def)
  have p: "m_uiRowOffset rd = row_pos ex_cnv (m_uchKeyIdx rd) [1, 2, 3, 4] []" by (simp add: rd_def row_pos_def)
  from RawDelete_correct [OF v p ex_row_wf(1)] v show ?thesis unfolding append.simps by blast
qed


definition ex_row2 :: CRowValue where
  "ex_row2 = ex_row\<lparr>field_value := \<lambda>_. \<lparr>u64v = 9, flt = 0, bin_len = 1, bin_ptr = [67]\<rparr>\<rparr>"

lemma ex_row2_wf: "tableDef ex_row2 = ex_table" "row_wf 0 ex_row2" "length (row_bytes cnv 0 (fl, ex_row2)) = 10"
proof -
  have t: "tableDef ex_row2 = ex_table" by (simp add: ex_row2_def ex_row_def)
  have n: "NumFields ex_row2 = 3" by (simp add: NumFields_def t ex_table_def)
  have "{0 + 1..<NumFields ex_row2 + 1} = {1, 2, 3}" unfolding n by auto
  then show "row_wf 0 ex_row2" unfolding row_wf_def
    by (simp add: t IsDiscard_def) (simp add: ex_table_def ex_row2_def value_wf_def num_field_def)
  have "[0 + 1..<NumFields ex_row2 + 1] = [1, 2, 3]" unfolding n by (simp add: upt_conv_Cons)
  then show "length (row_bytes cnv 0 (fl, ex_row2)) = 10" unfolding row_bytes_def prod.case
    by (simp add: t IsDiscard_def) (simp add: ex_table_def ex_row2_def field_bytes_def num_field_def num_width_def)
  show "tableDef ex_row2 = ex_table" by (rule t)
qed




text \<open>
  The count of \<open>select\<close> requests in the header goes up by one and stops at 255, and neither it nor
  the hours of the last access and of the last update touch the key or the rows.
\<close>

theorem RawHeader_correct:
  assumes "rd_valid cnv T key rows rd s"
  shows "(\<exists>rd' s'. IncSelectCount BM_mem rd s = (rd', s') \<and> rd_valid cnv T key rows rd' s' \<and> others_kept rd s rd' s'
        \<and> m_uchGetCount rd' = min 255 (m_uchGetCount rd + 1))
     \<and> (\<exists>rd' s'. UpdateLastAccessTimeByHour BM_mem hour rd s = (rd', s') \<and> rd_valid cnv T key rows rd' s' \<and> others_kept rd s rd' s'
        \<and> m_LastAccessHour rd' = u16 hour)
     \<and> (\<exists>rd' s'. UpdateLastUpdateTimeByHour BM_mem hour rd s = (rd', s') \<and> rd_valid cnv T key rows rd' s' \<and> others_kept rd s rd' s'
        \<and> m_LastUpdateHour rd' = u16 hour)"
proof -
  note ok = rd_validD [OF assms]
  from bmm.IncSelectCount_ok [OF ok] bmm.UpdateLastAccess_ok [OF ok, of hour] bmm.UpdateLastUpdate_ok [OF ok, of hour]
  show ?thesis by (auto dest: rd_okD)
qed

theorem RawHeader_correct_witness:
  "\<exists>rd s. rd_valid ex_cnv ex_table [1, 2, 3, 4] [(0x36, ex_row)] rd s
     \<and> (\<exists>rd' s'. IncSelectCount BM_mem rd s = (rd', s') \<and> rd_valid ex_cnv ex_table [1, 2, 3, 4] [(0x36, ex_row)] rd' s'
        \<and> m_uchGetCount rd' = min 255 (m_uchGetCount rd + 1))"
proof -
  have "(0x36 :: nat) < 256" by simp
  then obtain rd s where e: "rd_valid ex_cnv ex_table [1, 2, 3, 4] [(0x36, ex_row)] rd s" using ex_rd_row by blast
  from RawHeader_correct [OF e, of 0] e show ?thesis by blast
qed

end
