(* ===== verification/Cache_Hash.thy ===== *)
theory Cache_Hash
  imports Raw_Data
begin

text \<open>
  The hash of the cache, \<open>cache/hash.h\<close>, \<open>cache/hash.cc\<close> and \<open>common/new_hash.cc\<close>: the header with
  its array of buckets and the two functions from packed keys to buckets.  A packed key is the list of the bytes behind
  the pointer; \<open>None\<close> stands for a read past them and for a division by zero.  The type \<open>char\<close> is
  signed.
\<close>

unbundle bit_operations_syntax

section \<open>The table\<close>

record HASH_T =
  hh_size :: nat
  hh_free :: nat
  hh_node :: nat
  hh_fixedsize :: nat
  hh_buckets :: "nat \<Rightarrow> nat"

definition SIZEOF_HASH_T :: nat where "SIZEOF_HASH_T = 16"

text \<open>A \<open>char\<close> in an expression of type \<open>unsigned int\<close>.\<close>

definition sx :: "nat \<Rightarrow> 32 word" where
  "sx b = (if b < 128 then of_nat b else of_nat b - 256)"

section \<open>The hash of \<open>HashSlot\<close>\<close>

definition elf_step :: "32 word \<Rightarrow> nat \<Rightarrow> 32 word" where
  "elf_step h c =
     (let h1 = push_bit 4 h + sx c; g = h1 AND 0xF0000000
      in if g \<noteq> 0 then (h1 XOR drop_bit 24 g) XOR g else h1)"

fun elf_hash :: "32 word \<Rightarrow> nat list \<Rightarrow> 32 word" where
  "elf_hash h [] = h"
| "elf_hash h (c # cs) = elf_hash (elf_step h c) cs"

section \<open>The hash of \<open>new_hash\<close>\<close>

type_synonym hash_state = "32 word \<times> 32 word \<times> 32 word"

definition mix :: "hash_state \<Rightarrow> hash_state" where
  "mix s = (case s of (a, b, c) \<Rightarrow>
     let a = a - b; a = a - c; a = a XOR drop_bit 13 c;
         b = b - c; b = b - a; b = b XOR push_bit 8 a;
         c = c - a; c = c - b; c = c XOR drop_bit 13 b;
         a = a - b; a = a - c; a = a XOR drop_bit 12 c;
         b = b - c; b = b - a; b = b XOR push_bit 16 a;
         c = c - a; c = c - b; c = c XOR drop_bit 5 b;
         a = a - b; a = a - c; a = a XOR drop_bit 3 c;
         b = b - c; b = b - a; b = b XOR push_bit 10 a;
         c = c - a; c = c - b; c = c XOR drop_bit 15 b
     in (a, b, c))"

text \<open>Four bytes from the position \<open>i\<close> on.\<close>

definition word_at :: "nat list \<Rightarrow> nat \<Rightarrow> 32 word" where
  "word_at k i = sx (k ! i) + push_bit 8 (sx (k ! (i + 1))) + push_bit 16 (sx (k ! (i + 2))) + push_bit 24 (sx (k ! (i + 3)))"

function new_hash_loop :: "nat list \<Rightarrow> hash_state \<Rightarrow> nat list \<times> hash_state" where
  "new_hash_loop k s =
     (if length k \<ge> 12
      then (case s of (a, b, c) \<Rightarrow>
              new_hash_loop (drop 12 k) (mix (a + word_at k 0, b + word_at k 4, c + word_at k 8)))
      else (k, s))"
  by auto
termination by (relation "measure (\<lambda>(k, s). length k)") auto

declare new_hash_loop.simps [simp del]

text \<open>A case of the final \<open>switch\<close>: the byte at \<open>i\<close>, when it is there, shifted by \<open>n\<close>.\<close>

definition last_byte :: "nat list \<Rightarrow> nat \<Rightarrow> nat \<Rightarrow> 32 word" where
  "last_byte k i n = (if i < length k then push_bit n (sx (k ! i)) else 0)"

definition new_hash :: "nat list \<Rightarrow> 32 word" where
  "new_hash key =
     (case new_hash_loop key (0x9e3779b9, 0x9e3779b9, 0x48545443) of (k, a, b, c) \<Rightarrow>
        let c = c + of_nat (length key);
            c = c + last_byte k 10 24 + last_byte k 9 16 + last_byte k 8 8;
            b = b + last_byte k 7 24 + last_byte k 6 16 + last_byte k 5 8 + last_byte k 4 0;
            a = a + last_byte k 3 24 + last_byte k 2 16 + last_byte k 1 8 + last_byte k 0 0
        in snd (snd (mix (a, b, c))))"

section \<open>Slots\<close>

text \<open>The bytes that are hashed: a key of variable length has its length in front.\<close>

definition hashed_bytes :: "HASH_T \<Rightarrow> nat list \<Rightarrow> nat list option" where
  "hashed_bytes t key =
     (if hh_fixedsize t \<noteq> 0
      then (if length key < hh_fixedsize t then None else Some (take (hh_fixedsize t) key))
      else (case key of [] \<Rightarrow> None | n # ks \<Rightarrow> if length ks < n then None else Some (take n ks)))"

definition slot_mod :: "HASH_T \<Rightarrow> nat \<Rightarrow> nat option" where
  "slot_mod t v = (if hh_size t = 0 then None else Some (v mod hh_size t))"

definition NewHashSlot :: "HASH_T \<Rightarrow> nat list \<Rightarrow> nat option" where
  "NewHashSlot t key =
     (case hashed_bytes t key of
        None \<Rightarrow> None
      | Some ks \<Rightarrow> if length ks = 1 \<or> length ks = 2 \<or> length ks = 4 then slot_mod t (un_le ks)
                  else slot_mod t (unat (new_hash ks)))"

definition HashSlot :: "HASH_T \<Rightarrow> nat list \<Rightarrow> nat option" where
  "HashSlot t key =
     (case hashed_bytes t key of
        None \<Rightarrow> None
      | Some ks \<Rightarrow> if length ks = 1 \<or> length ks = 2 \<or> length ks = 4 then slot_mod t (un_le ks)
                  else slot_mod t (unat (elf_hash 0 ks)))"

text \<open>\<open>newhash\<close> selects the function.\<close>

definition key_slot :: "HASH_T \<Rightarrow> bool \<Rightarrow> nat list \<Rightarrow> nat option" where
  "key_slot t newhash key = (if newhash then NewHashSlot t key else HashSlot t key)"

definition IncFreeBucket_t :: "int \<Rightarrow> HASH_T \<Rightarrow> HASH_T" where
  "IncFreeBucket_t v t = t\<lparr>hh_free := nat ((int (hh_free t) + v) mod 2 ^ 32)\<rparr>"

definition IncNodeCnt_t :: "int \<Rightarrow> HASH_T \<Rightarrow> HASH_T" where
  "IncNodeCnt_t v t = t\<lparr>hh_node := nat ((int (hh_node t) + v) mod 2 ^ 32)\<rparr>"

section \<open>Facts\<close>

lemma key_slot_less: "key_slot t nh key = Some b \<Longrightarrow> b < hh_size t"
  by (auto simp: key_slot_def NewHashSlot_def HashSlot_def slot_mod_def split: option.splits if_splits)

lemma key_slot_Some:
  "hashed_bytes t key = Some ks \<Longrightarrow> 0 < hh_size t \<Longrightarrow> \<exists>b. key_slot t nh key = Some b"
  by (auto simp: key_slot_def NewHashSlot_def HashSlot_def slot_mod_def)

text \<open>The slot depends on the hashed bytes only.\<close>

lemma key_slot_cong:
  "hashed_bytes t key = hashed_bytes t' key' \<Longrightarrow> hh_size t = hh_size t' \<Longrightarrow> key_slot t nh key = key_slot t' nh key'"
  by (auto simp: key_slot_def NewHashSlot_def HashSlot_def slot_mod_def split: option.splits)

text \<open>On keys of one, two and four bytes both functions agree, so such a table never has to change its hash.\<close>

lemma key_slot_small:
  "hashed_bytes t key = Some ks \<Longrightarrow> length ks \<in> {1, 2, 4} \<Longrightarrow> key_slot t nh key = key_slot t nh' key"
  by (auto simp: key_slot_def NewHashSlot_def HashSlot_def)

lemma elf_step_high:
  assumes "28 \<le> n"
  shows "\<not> bit (elf_step h c) n"
proof -
  define m where "m = (0xF0000000 :: 32 word)"
  have "m = push_bit 28 (mask 4)" by (simp add: m_def mask_eq_exp_minus_1 push_bit_eq_mult)
  then have b: "bit m i \<longleftrightarrow> 28 \<le> i \<and> i < 32" for i by (auto simp: bit_simps)
  define h1 where "h1 = push_bit 4 h + sx c"
  have len: "bit h1 i \<Longrightarrow> i < 32" for i using bit_imp_le_length [of h1 i] by simp
  have e: "elf_step h c = (if h1 AND m = 0 then h1 else (h1 XOR drop_bit 24 (h1 AND m)) XOR (h1 AND m))"
    by (simp add: elf_step_def h1_def m_def Let_def)
  show ?thesis
  proof (cases "h1 AND m = 0")
    case True
    then have "\<not> bit (h1 AND m) n" by simp
    then show ?thesis using True e b [of n] len [of n] assms unfolding bit_and_iff by auto
  next
    case False
    have "bit ((h1 XOR drop_bit 24 (h1 AND m)) XOR (h1 AND m)) n \<longleftrightarrow> False"
      using b [of n] b [of "24 + n"] len [of n] assms by (auto simp only: bit_xor_iff bit_drop_bit_eq bit_and_iff o_def)
    with False e show ?thesis by simp
  qed
qed

lemma elf_step_less: "unat (elf_step h c) < 2 ^ 28"
proof -
  have "take_bit 28 (elf_step h c) = elf_step h c"
    by (rule bit_eqI) (use elf_step_high in \<open>metis bit_take_bit_iff not_less\<close>)
  then have "unat (elf_step h c) = take_bit 28 (unat (elf_step h c))" by (metis unsigned_take_bit_eq)
  then show ?thesis by (metis take_bit_nat_less_exp)
qed

lemma elf_hash_less: "unat h < 2 ^ 28 \<Longrightarrow> unat (elf_hash h ks) < 2 ^ 28"
proof (induction ks arbitrary: h)
  case (Cons c ks)
  from Cons.IH [OF elf_step_less] show ?case by simp
qed simp

end
