(* ===== verification/Node_Group.thy ===== *)
theory Node_Group
  imports Bin_Malloc
begin

text \<open>
  Node groups, \<open>cache/node_group.h\<close> and \<open>cache/node_group.cc\<close>, with the per-node operations of
  \<open>cache/node.h\<close> that act inside one group: 256 nodes, their attribute arrays, and the list of
  released nodes that is threaded through the data handles.  The interface \<open>slot_alloc\<close> says
  what the owner of the groups relies on.
\<close>

section \<open>Data\<close>

definition INVALID_NODE_ID :: nat where "INVALID_NODE_ID = 4294967295"
definition NODE_GROUP_INCLUDE_NODES :: nat where "NODE_GROUP_INCLUDE_NODES = 256"

text \<open>The arrays behind \<open>ng_attr.offset\<close> are functions of the node index.\<close>

record node_group =
  dele_top :: nat
  dele_count :: nat
  ng_free :: nat
  ng_nid :: nat
  ng_attr_offset :: "nat list"
  at_next :: "nat \<Rightarrow> nat"
  at_lru_prev :: "nat \<Rightarrow> nat"
  at_lru_next :: "nat \<Rightarrow> nat"
  at_vd :: "nat \<Rightarrow> handle"
  at_dirty :: "nat \<Rightarrow> bool"

section \<open>Layout\<close>

text \<open>Bytes per attribute: next node, LRU pair, data handle, dirty bitmap.\<close>

definition NG_ATTR_SIZE :: "nat list" where
  "NG_ATTR_SIZE = [NODE_GROUP_INCLUDE_NODES * 4, NODE_GROUP_INCLUDE_NODES * 4 * 2,
                   NODE_GROUP_INCLUDE_NODES * 8, NODE_GROUP_INCLUDE_NODES div 8]"

definition AttrCount :: nat where
  "AttrCount = length NG_ATTR_SIZE"

text \<open>\<open>ng_list\<close> 16 bytes, \<open>ng_dele\<close> 4, \<open>ng_free\<close> and \<open>ng_rsv\<close> 4, \<open>ng_nid\<close> 4, then \<open>ng_attr\<close>.\<close>

definition BaseHeaderSize :: nat where
  "BaseHeaderSize = 28 + 4 + 4 * AttrCount"

definition AttrSize :: nat where
  "AttrSize = u32 (sum_list NG_ATTR_SIZE)"

definition NG_Size :: nat where
  "NG_Size = u32 (BaseHeaderSize + AttrSize)"

fun attr_offsets :: "nat \<Rightarrow> nat list \<Rightarrow> nat list" where
  "attr_offsets off [] = []"
| "attr_offsets off (s # ss) = off # attr_offsets (u32 (off + s)) ss"

section \<open>Operations\<close>

definition ng_NodeID :: "node_group \<Rightarrow> nat \<Rightarrow> nat" where
  "ng_NodeID g idx = u32 (ng_nid g + idx)"

definition SetDirty :: "nat \<Rightarrow> node_group \<Rightarrow> node_group" where
  "SetDirty idx g = g\<lparr>at_dirty := (at_dirty g)(idx := True)\<rparr>"

definition ClrDirty :: "nat \<Rightarrow> node_group \<Rightarrow> node_group" where
  "ClrDirty idx g = g\<lparr>at_dirty := (at_dirty g)(idx := False)\<rparr>"

definition IsDirty :: "node_group \<Rightarrow> nat \<Rightarrow> bool" where
  "IsDirty g idx = at_dirty g idx"

definition set_VDHandle :: "nat \<Rightarrow> handle \<Rightarrow> node_group \<Rightarrow> node_group" where
  "set_VDHandle idx v g = g\<lparr>at_vd := (at_vd g)(idx := v)\<rparr>"

definition node_Reset :: "nat \<Rightarrow> node_group \<Rightarrow> node_group" where
  "node_Reset idx g = ClrDirty idx
     (g\<lparr>at_next := (at_next g)(idx := INVALID_NODE_ID),
        at_lru_prev := (at_lru_prev g)(idx := ng_NodeID g idx),
        at_lru_next := (at_lru_next g)(idx := ng_NodeID g idx)\<rparr>)"

text \<open>One turn of the loop of \<open>Init\<close> over the nodes.\<close>

definition Init_node :: "nat \<Rightarrow> node_group \<Rightarrow> node_group" where
  "Init_node i g = set_VDHandle i INVALID_HANDLE (node_Reset i g)"

definition NG_Init :: "nat \<Rightarrow> node_group \<Rightarrow> node_group" where
  "NG_Init nid g = fold Init_node [0..<NODE_GROUP_INCLUDE_NODES]
     (g\<lparr>dele_top := 0, dele_count := 0, ng_free := 0, ng_nid := nid,
        ng_attr_offset := attr_offsets BaseHeaderSize NG_ATTR_SIZE\<rparr>)"

definition NG_IsFull :: "node_group \<Rightarrow> bool" where
  "NG_IsFull g \<longleftrightarrow> dele_count g = 0 \<and> ng_free g \<ge> NODE_GROUP_INCLUDE_NODES"

text \<open>\<open>None\<close> is \<open>CNode(NULL, 0)\<close>.\<close>

definition NG_AllocateNode :: "node_group \<Rightarrow> nat option \<times> node_group" where
  "NG_AllocateNode g =
     (if NG_IsFull g then (None, g)
      else if dele_count g > 0
      then let i = dele_top g; g1 = node_Reset i g
           in (Some i, g1\<lparr>dele_count := dele_count g1 - 1, dele_top := u8 (at_vd g1 i)\<rparr>)
      else let i = ng_free g; g1 = node_Reset i g
           in (Some i, g1\<lparr>ng_free := u16 (ng_free g1 + 1)\<rparr>))"

definition NG_ReleaseNode :: "nat \<Rightarrow> node_group \<Rightarrow> node_group" where
  "NG_ReleaseNode i g =
     (let g1 = set_VDHandle i (dele_top g) g
      in g1\<lparr>dele_top := u16 i, dele_count := u16 (dele_count g1 + 1)\<rparr>)"

text \<open>\<open>CNode::Release\<close>: give the slot back, then reset the attributes.\<close>

definition node_Release :: "nat \<Rightarrow> node_group \<Rightarrow> node_group" where
  "node_Release i g = node_Reset i (NG_ReleaseNode i g)"

section \<open>Invariant\<close>

fun free_chain :: "(nat \<Rightarrow> handle) \<Rightarrow> nat \<Rightarrow> nat \<Rightarrow> nat list" where
  "free_chain vd t 0 = []"
| "free_chain vd t (Suc n) = t # free_chain vd (u8 (vd t)) n"

definition released :: "node_group \<Rightarrow> nat list" where
  "released g = free_chain (at_vd g) (dele_top g) (dele_count g)"

definition ng_used :: "node_group \<Rightarrow> nat set" where
  "ng_used g = {..<ng_free g} - set (released g)"

definition ng_inv :: "node_group \<Rightarrow> bool" where
  "ng_inv g \<longleftrightarrow> distinct (released g) \<and> set (released g) \<subseteq> {..<ng_free g}
     \<and> ng_free g \<le> NODE_GROUP_INCLUDE_NODES"

lemma length_free_chain [simp]: "length (free_chain vd t n) = n"
  by (induction n arbitrary: t) auto

lemma free_chain_upd:
  "i \<notin> set (free_chain vd t n) \<Longrightarrow> free_chain (vd(i := v)) t n = free_chain vd t n"
  by (induction n arbitrary: t) auto

lemma node_Reset_simps [simp]:
  "dele_top (node_Reset i g) = dele_top g" "dele_count (node_Reset i g) = dele_count g"
  "ng_free (node_Reset i g) = ng_free g" "ng_nid (node_Reset i g) = ng_nid g"
  "at_vd (node_Reset i g) = at_vd g" "released (node_Reset i g) = released g"
  "ng_attr_offset (node_Reset i g) = ng_attr_offset g"
  by (simp_all add: node_Reset_def ClrDirty_def released_def)

lemma released_bound:
  assumes "ng_inv g"
  shows "dele_count g \<le> 256"
proof -
  have "dele_count g = card (set (released g))"
    using assms by (simp add: ng_inv_def released_def distinct_card)
  also have "\<dots> \<le> card {..<ng_free g}" using assms by (intro card_mono) (auto simp: ng_inv_def)
  finally show ?thesis using assms by (simp add: ng_inv_def NODE_GROUP_INCLUDE_NODES_def)
qed

text \<open>Freshly initialised groups.\<close>

lemma fold_Init_node:
  "dele_top (fold Init_node is g) = dele_top g" "dele_count (fold Init_node is g) = dele_count g"
  "ng_free (fold Init_node is g) = ng_free g" "ng_nid (fold Init_node is g) = ng_nid g"
  "ng_attr_offset (fold Init_node is g) = ng_attr_offset g"
  by (induction "is" arbitrary: g) (simp_all add: Init_node_def set_VDHandle_def)

lemma NG_Init_simps [simp]:
  "ng_nid (NG_Init nid g) = nid" "ng_free (NG_Init nid g) = 0" "dele_count (NG_Init nid g) = 0"
  by (simp_all add: NG_Init_def fold_Init_node)

lemma Init_node_fields:
  "at_next (Init_node j g) = (at_next g)(j := INVALID_NODE_ID)"
  "at_lru_prev (Init_node j g) = (at_lru_prev g)(j := ng_NodeID g j)"
  "at_lru_next (Init_node j g) = (at_lru_next g)(j := ng_NodeID g j)"
  "at_vd (Init_node j g) = (at_vd g)(j := INVALID_HANDLE)"
  "at_dirty (Init_node j g) = (at_dirty g)(j := False)"
  by (simp_all add: Init_node_def node_Reset_def ClrDirty_def set_VDHandle_def)

lemma Init_node_attrs:
  "i \<in> set is \<Longrightarrow> at_next (fold Init_node is g) i = INVALID_NODE_ID
     \<and> at_lru_prev (fold Init_node is g) i = ng_NodeID g i \<and> at_lru_next (fold Init_node is g) i = ng_NodeID g i
     \<and> at_vd (fold Init_node is g) i = INVALID_HANDLE \<and> \<not> at_dirty (fold Init_node is g) i"
  by (induction "is" rule: rev_induct) (auto simp: Init_node_fields ng_NodeID_def fold_Init_node)

lemma NG_Init_inv: "ng_inv (NG_Init nid g)" "ng_used (NG_Init nid g) = {}"
  by (simp_all add: ng_inv_def ng_used_def released_def NODE_GROUP_INCLUDE_NODES_def)

section \<open>The interface\<close>

text \<open>
  An allocator of numbered slots below a capacity: it hands out an unused slot until all are
  used, takes used slots back, and prefers the slot released last.
\<close>

locale slot_alloc =
  fixes alloc :: "'g \<Rightarrow> nat option \<times> 'g" and release :: "nat \<Rightarrow> 'g \<Rightarrow> 'g"
    and full :: "'g \<Rightarrow> bool" and used :: "'g \<Rightarrow> nat set" and inv :: "'g \<Rightarrow> bool" and cap :: nat
  assumes used_cap: "inv g \<Longrightarrow> used g \<subseteq> {..<cap}"
    and full_used: "inv g \<Longrightarrow> full g \<longleftrightarrow> used g = {..<cap}"
    and alloc_full: "inv g \<Longrightarrow> full g \<Longrightarrow> alloc g = (None, g)"
    and alloc_slot: "inv g \<Longrightarrow> \<not> full g \<Longrightarrow>
      \<exists>i g'. alloc g = (Some i, g') \<and> inv g' \<and> i \<notin> used g \<and> used g' = insert i (used g)"
    and release_slot: "inv g \<Longrightarrow> i \<in> used g \<Longrightarrow> inv (release i g) \<and> used (release i g) = used g - {i}"
    and reuse: "inv g \<Longrightarrow> i \<in> used g \<Longrightarrow> fst (alloc (release i g)) = Some i"
begin

lemma alloc_inv: "inv g \<Longrightarrow> alloc g = (r, g') \<Longrightarrow> inv g'"
  using alloc_full [of g] alloc_slot [of g] by (cases "full g") auto

lemma alloc_SomeD:
  assumes "inv g" "alloc g = (Some i, g')"
  shows "i \<notin> used g" "i < cap" "used g' = insert i (used g)"
proof -
  have "\<not> full g" using alloc_full [of g] assms by auto
  with alloc_slot [OF assms(1)] assms(2) have *: "i \<notin> used g" "inv g'" "used g' = insert i (used g)" by auto
  then show "i \<notin> used g" "used g' = insert i (used g)" by simp_all
  show "i < cap" using used_cap [OF *(2)] * by auto
qed

lemma alloc_release:
  assumes "inv g" "alloc g = (Some i, g')"
  shows "inv (release i g') \<and> used (release i g') = used g"
proof -
  have "inv g'" by (rule alloc_inv [OF assms])
  then have "inv (release i g') \<and> used (release i g') = used g' - {i}"
    using release_slot alloc_SomeD [OF assms] by simp
  then show ?thesis using alloc_SomeD [OF assms] by auto
qed

lemma release_not_full:
  assumes "inv g" "i \<in> used g"
  shows "\<not> full (release i g)"
proof -
  have "i < cap" using used_cap [OF assms(1)] assms(2) by auto
  then show ?thesis using release_slot [OF assms] full_used by auto
qed

text \<open>Repeated allocation from an empty allocator uses each slot exactly once.\<close>

fun allocs :: "nat \<Rightarrow> 'g \<Rightarrow> nat list \<times> 'g" where
  "allocs 0 g = ([], g)"
| "allocs (Suc n) g =
     (case alloc g of (None, g') \<Rightarrow> ([], g')
      | (Some i, g') \<Rightarrow> (case allocs n g' of (is, g2) \<Rightarrow> (i # is, g2)))"

lemma allocs_spec:
  "inv g \<Longrightarrow> allocs n g = (is, g') \<Longrightarrow>
     inv g' \<and> distinct is \<and> set is \<inter> used g = {} \<and> used g' = used g \<union> set is
     \<and> length is = min n (cap - card (used g))"
proof (induction n arbitrary: g "is" g')
  case 0
  then show ?case by simp
next
  case (Suc n)
  have fin: "finite (used g)" using used_cap [OF Suc.prems(1)] finite_subset by blast
  show ?case
  proof (cases "full g")
    case True
    then have "is = []" "g' = g" using Suc.prems alloc_full [of g] by auto
    moreover have "card (used g) = cap" using True full_used [OF Suc.prems(1)] by simp
    ultimately show ?thesis using Suc.prems by simp
  next
    case False
    then obtain i g1 where a: "alloc g = (Some i, g1)" "inv g1" "i \<notin> used g" "used g1 = insert i (used g)"
      using alloc_slot [OF Suc.prems(1)] by blast
    obtain js where j: "allocs n g1 = (js, g')" "is = i # js"
      using Suc.prems(2) a(1) by (auto split: prod.splits)
    have "card (used g) < cap"
      using psubset_card_mono [of "{..<cap}" "used g"] used_cap [OF Suc.prems(1)]
        full_used [OF Suc.prems(1)] False by auto
    with Suc.IH [OF a(2) j(1)] a j(2) fin show ?thesis by auto
  qed
qed

end

lemma NG_Release_fields [simp]:
  "ng_free (node_Release i g) = ng_free g" "ng_nid (node_Release i g) = ng_nid g"
  by (simp_all add: node_Release_def NG_ReleaseNode_def set_VDHandle_def Let_def)

lemma released_Release:
  assumes "ng_inv g" "i \<in> ng_used g"
  shows "released (node_Release i g) = i # released g"
proof -
  have i: "i < 256" "i \<notin> set (released g)"
    using assms by (auto simp: ng_inv_def ng_used_def NODE_GROUP_INCLUDE_NODES_def)
  have c: "u16 (Suc (dele_count g)) = Suc (dele_count g)"
    using released_bound [OF assms(1)] by (simp add: u16_def)
  have "free_chain ((at_vd g)(i := dele_top g)) (u8 (dele_top g)) (dele_count g) = released g"
  proof (cases "dele_count g")
    case (Suc n)
    then have "dele_top g \<in> set (released g)" by (simp add: released_def)
    then have "u8 (dele_top g) = dele_top g"
      using assms(1) by (auto simp: ng_inv_def NODE_GROUP_INCLUDE_NODES_def u8_def)
    with i(2) show ?thesis using free_chain_upd by (simp add: released_def)
  qed (simp add: released_def)
  with i(1) c show ?thesis
    by (simp add: node_Release_def NG_ReleaseNode_def set_VDHandle_def Let_def)
       (simp add: released_def u16_def)
qed

lemma released_Alloc:
  "0 < dele_count g \<Longrightarrow> NG_AllocateNode g = (r, g') \<Longrightarrow>
     r = Some (dele_top g) \<and> released g = dele_top g # released g' \<and> ng_free g' = ng_free g \<and> ng_nid g' = ng_nid g"
  by (cases "dele_count g") (auto simp: NG_AllocateNode_def NG_IsFull_def Let_def released_def)

lemma fresh_Alloc:
  assumes "dele_count g = 0" "ng_free g < NODE_GROUP_INCLUDE_NODES" "NG_AllocateNode g = (r, g')"
  shows "r = Some (ng_free g) \<and> released g' = [] \<and> ng_free g' = Suc (ng_free g) \<and> ng_nid g' = ng_nid g"
  using assms by (auto simp: NG_AllocateNode_def NG_IsFull_def Let_def released_def u16_def NODE_GROUP_INCLUDE_NODES_def)

interpretation ng: slot_alloc NG_AllocateNode node_Release NG_IsFull ng_used ng_inv NODE_GROUP_INCLUDE_NODES
proof unfold_locales
  fix g :: node_group
  assume inv: "ng_inv g"
  then show "ng_used g \<subseteq> {..<NODE_GROUP_INCLUDE_NODES}" by (auto simp: ng_inv_def ng_used_def)
  show "NG_AllocateNode g = (None, g)" if "NG_IsFull g" using that by (simp add: NG_AllocateNode_def)
  have r: "dele_count g = 0 \<longleftrightarrow> released g = []" by (cases "dele_count g") (auto simp: released_def)
  show "NG_IsFull g \<longleftrightarrow> ng_used g = {..<NODE_GROUP_INCLUDE_NODES}"
  proof
    assume "NG_IsFull g"
    then show "ng_used g = {..<NODE_GROUP_INCLUDE_NODES}"
      using inv r by (auto simp: NG_IsFull_def ng_inv_def ng_used_def)
  next
    assume u: "ng_used g = {..<NODE_GROUP_INCLUDE_NODES}"
    then have "set (released g) \<inter> {..<NODE_GROUP_INCLUDE_NODES} = {}" by (auto simp: ng_used_def)
    moreover have "set (released g) \<subseteq> {..<NODE_GROUP_INCLUDE_NODES}"
      using inv by (force simp: ng_inv_def)
    ultimately have "released g = []" by (metis inf.absorb1 set_empty)
    moreover have "NODE_GROUP_INCLUDE_NODES \<le> ng_free g"
    proof (rule ccontr)
      assume "\<not> ?thesis"
      then have "ng_free g \<in> ng_used g" using u by simp
      then show False by (simp add: ng_used_def)
    qed
    ultimately show "NG_IsFull g" using r by (simp add: NG_IsFull_def)
  qed
  show "\<exists>i g'. NG_AllocateNode g = (Some i, g') \<and> ng_inv g' \<and> i \<notin> ng_used g \<and> ng_used g' = insert i (ng_used g)"
    if nf: "\<not> NG_IsFull g"
  proof (cases "dele_count g = 0")
    case True
    obtain x g' where e: "NG_AllocateNode g = (x, g')" by (cases "NG_AllocateNode g")
    have lt: "ng_free g < NODE_GROUP_INCLUDE_NODES" using nf True by (simp add: NG_IsFull_def)
    from fresh_Alloc [OF True this e] e r True lt show ?thesis
      by (auto simp: ng_inv_def ng_used_def)
  next
    case False
    obtain x g' where e: "NG_AllocateNode g = (x, g')" by (cases "NG_AllocateNode g")
    from released_Alloc [OF _ e] False e inv show ?thesis
      by (auto simp: ng_inv_def ng_used_def)
  qed
  fix i
  assume i: "i \<in> ng_used g"
  note rel = released_Release [OF inv i]
  then show "ng_inv (node_Release i g) \<and> ng_used (node_Release i g) = ng_used g - {i}"
    using inv i by (auto simp: ng_inv_def ng_used_def)
  have "0 < dele_count (node_Release i g)"
    using rel by (metis length_greater_0_conv length_free_chain list.distinct(1) released_def)
  moreover have "dele_top (node_Release i g) = i"
    using inv i by (simp add: node_Release_def NG_ReleaseNode_def Let_def u16_def ng_used_def ng_inv_def NODE_GROUP_INCLUDE_NODES_def)
  ultimately show "fst (NG_AllocateNode (node_Release i g)) = Some i"
    using released_Alloc [of "node_Release i g"] by (metis prod.collapse)
qed

text \<open>Writing the data handle of a node in use leaves the chain of released nodes alone.\<close>

lemma set_VDHandle_inv:
  assumes "ng_inv g" "i \<in> ng_used g"
  shows "ng_inv (set_VDHandle i v g) \<and> ng_used (set_VDHandle i v g) = ng_used g"
proof -
  have "released (set_VDHandle i v g) = released g"
    using assms(2) free_chain_upd by (simp add: released_def set_VDHandle_def ng_used_def)
  then show ?thesis using assms by (simp add: ng_inv_def ng_used_def set_VDHandle_def)
qed

end
