(* ===== verification/Node_Store.thy ===== *)
theory Node_Store
  imports Node_Group "HOL-Library.Monad_Syntax"
begin

text \<open>
  The node index (\<open>cache/node_index.h\<close>, \<open>cache/node_index.cc\<close>), the lists of node groups
  (\<open>cache/ng_list.h\<close>), the LRU lists of nodes (\<open>cache/node_list.h\<close>, \<open>cache/node.h\<close>) and their
  manager \<open>CNGInfo\<close> (\<open>cache/ng_info.h\<close>, \<open>cache/ng_info.cc\<close>).

  All of them live in the shared segment of the allocator, which is the field \<open>bm\<close> of the
  state.  Each kind of object has a heap of its own, indexed by the handle of the object; a
  pointer into the segment is its handle and \<open>NULL\<close> is 0.  An operation returns \<open>None\<close> where
  the program would read or write through a null pointer.
\<close>

section \<open>Data\<close>

record NG_LIST_T =
  nl_prev :: handle
  nl_next :: handle

record FIRST_INDEX_T =
  fi_used :: nat
  fi_h :: "nat \<Rightarrow> handle"

record SECOND_INDEX_T =
  si_used :: nat
  si_h :: "nat \<Rightarrow> handle"

text \<open>The two list heads of \<open>NG_INFO_T\<close> are the links at offsets 0 and 16 of the object.\<close>

record NG_INFO_T =
  ni_min_id :: nat
  ni_sys_zone :: handle
  ni_used_ng :: nat
  ni_used_node :: nat
  ni_dirty_node :: nat
  ni_used_row :: nat
  ni_dirty_row :: nat

datatype startup_mode = CREATED | ATTACHED | UPGRADED

record node_store =
  bm :: CBinMalloc
  m_links :: "handle \<Rightarrow> NG_LIST_T"
  m_ng :: "handle \<Rightarrow> node_group"
  m_fi :: "handle \<Rightarrow> FIRST_INDEX_T"
  m_si :: "handle \<Rightarrow> SECOND_INDEX_T"
  m_ni :: "handle \<Rightarrow> NG_INFO_T"
  firstIndex :: handle
  ngInfo :: handle
  emptyCnt :: int
  emptyStartupMode :: startup_mode
  ng_step :: nat
  ng_fail :: bool
  statUsedNG :: nat
  statUsedNode :: nat
  statDirtyNode :: nat
  statEmptyNode :: nat
  statUsedRow :: nat
  statDirtyRow :: nat

record CNode =
  c_owner :: handle
  c_index :: nat

definition null_node :: CNode where
  "null_node = \<lparr>c_owner = INVALID_HANDLE, c_index = 0\<rparr>"

definition is_null_node :: "CNode \<Rightarrow> bool" where
  "is_null_node n \<longleftrightarrow> c_owner n = INVALID_HANDLE \<or> c_index n \<ge> NODE_GROUP_INCLUDE_NODES"

section \<open>The shared segment\<close>

definition M_HANDLE :: "node_store \<Rightarrow> handle \<Rightarrow> handle" where
  "M_HANDLE st p = Ptr2Handle (bm st) (if p = INVALID_HANDLE then None else Some p)"

definition M_CALLOC :: "nat \<Rightarrow> node_store \<Rightarrow> (handle \<times> node_store) option" where
  "M_CALLOC n st = map_option (\<lambda>(h, b). (h, st\<lparr>bm := b\<rparr>)) (BM_Calloc n (bm st))"

text \<open>Dereferencing: the null pointer is an error.\<close>

definition non_null :: "handle \<Rightarrow> unit option" where
  "non_null p = (if p = INVALID_HANDLE then None else Some ())"

section \<open>The node index\<close>

definition INDEX_1_SIZE :: nat where "INDEX_1_SIZE = 2 ^ 8 * 8 + 8"
definition INDEX_2_SIZE :: nat where "INDEX_2_SIZE = 2 ^ 16 * 8 + 8"

definition OFFSET1 :: "nat \<Rightarrow> nat" where "OFFSET1 i = drop_bit 24 i"
definition OFFSET2 :: "nat \<Rightarrow> nat" where "OFFSET2 i = drop_bit 8 (and i 0xFFFF00)"
definition OFFSET3 :: "nat \<Rightarrow> nat" where "OFFSET3 i = and i 0xFF"

definition NodeID :: "node_store \<Rightarrow> CNode \<Rightarrow> nat" where
  "NodeID st n = ng_NodeID (m_ng st (c_owner n)) (c_index n)"

definition zero_second_index :: SECOND_INDEX_T where
  "zero_second_index = \<lparr>si_used = 0, si_h = (\<lambda>_. INVALID_HANDLE)\<rparr>"

definition set_fi_h :: "nat \<Rightarrow> handle \<Rightarrow> node_store \<Rightarrow> node_store" where
  "set_fi_h i v st =
     (let f = m_fi st (firstIndex st)
      in st\<lparr>m_fi := (m_fi st)(firstIndex st := f\<lparr>fi_h := (fi_h f)(i := v)\<rparr>)\<rparr>)"

text \<open>\<open>fi_h[i] = M_CALLOC(INDEX_2_SIZE)\<close>.\<close>

definition new_second_index :: "nat \<Rightarrow> node_store \<Rightarrow> (handle \<times> node_store) option" where
  "new_second_index i st = do {
     (v, st1) \<leftarrow> M_CALLOC INDEX_2_SIZE st;
     let st2 = (if v = INVALID_HANDLE then st1 else st1\<lparr>m_si := (m_si st1)(v := zero_second_index)\<rparr>);
     Some (v, set_fi_h i v st2)
   }"

fun prealloc_index2 :: "nat \<Rightarrow> nat \<Rightarrow> node_store \<Rightarrow> (int \<times> node_store) option" where
  "prealloc_index2 i 0 st = Some (0, st)"
| "prealloc_index2 i (Suc k) st = do {
     (v, st1) \<leftarrow> new_second_index i st;
     if v = INVALID_HANDLE then Some (-1, st1) else prealloc_index2 (i + 1) k st1
   }"

definition PreAllocateIndex2 :: "nat \<Rightarrow> node_store \<Rightarrow> (int \<times> node_store) option" where
  "PreAllocateIndex2 mem_size st =
     (let n = u32 (mem_size div (65536 * 256 * 44) + 1)
      in prealloc_index2 0 (if n > 256 then 256 else n) st)"

definition I_INSERT :: "CNode \<Rightarrow> node_store \<Rightarrow> (int \<times> node_store) option" where
  "I_INSERT n st = do {
     non_null (c_owner n);
     let nid = NodeID st n;
     non_null (firstIndex st);
     (v, st1) \<leftarrow> (let v = fi_h (m_fi st (firstIndex st)) (OFFSET1 nid)
                   in if v = INVALID_HANDLE then new_second_index (OFFSET1 nid) st else Some (v, st));
     if v = INVALID_HANDLE then Some (-1, st1)
     else let p = m_si st1 v;
              p' = p\<lparr>si_used := u32 (si_used p + 1), si_h := (si_h p)(OFFSET2 nid := M_HANDLE st1 (c_owner n))\<rparr>
          in Some (0, st1\<lparr>m_si := (m_si st1)(v := p')\<rparr>)
   }"

definition I_SEARCH :: "node_store \<Rightarrow> nat \<Rightarrow> CNode" where
  "I_SEARCH st nid =
     (if nid = INVALID_NODE_ID then null_node
      else let v = fi_h (m_fi st (firstIndex st)) (OFFSET1 nid)
      in if v = INVALID_HANDLE then null_node
      else let h = si_h (m_si st v) (OFFSET2 nid)
      in if h = INVALID_HANDLE then null_node
      else let idx = u32_sub nid (ng_nid (m_ng st h))
      in if idx > 255 then null_node else \<lparr>c_owner = h, c_index = idx\<rparr>)"

definition NI_Init :: "nat \<Rightarrow> node_store \<Rightarrow> (int \<times> node_store) option" where
  "NI_Init mem_size st = do {
     (v, st1) \<leftarrow> M_CALLOC INDEX_1_SIZE st;
     if v = INVALID_HANDLE then Some (-1, st1)
     else PreAllocateIndex2 mem_size
            (st1\<lparr>m_fi := (m_fi st1)(v := \<lparr>fi_used = 0, fi_h = (\<lambda>_. INVALID_HANDLE)\<rparr>), firstIndex := v\<rparr>)
   }"

definition NI_Attach :: "handle \<Rightarrow> node_store \<Rightarrow> int \<times> node_store" where
  "NI_Attach h st = (if h = INVALID_HANDLE then (-1, st) else (0, st\<lparr>firstIndex := h\<rparr>))"

definition NI_Detach :: "node_store \<Rightarrow> int \<times> node_store" where
  "NI_Detach st = (0, st\<lparr>firstIndex := INVALID_HANDLE\<rparr>)"

section \<open>Lists of node groups\<close>

definition set_nl_prev :: "handle \<Rightarrow> handle \<Rightarrow> node_store \<Rightarrow> node_store option" where
  "set_nl_prev p v st = (if p = INVALID_HANDLE then None
     else Some (st\<lparr>m_links := (m_links st)(p := (m_links st p)\<lparr>nl_prev := v\<rparr>)\<rparr>))"

definition set_nl_next :: "handle \<Rightarrow> handle \<Rightarrow> node_store \<Rightarrow> node_store option" where
  "set_nl_next p v st = (if p = INVALID_HANDLE then None
     else Some (st\<lparr>m_links := (m_links st)(p := (m_links st p)\<lparr>nl_next := v\<rparr>)\<rparr>))"

definition INIT_NG_LIST_HEAD :: "handle \<Rightarrow> node_store \<Rightarrow> node_store option" where
  "INIT_NG_LIST_HEAD p st = do {
     let v = M_HANDLE st p;
     st1 \<leftarrow> set_nl_prev p v st;
     set_nl_next p v st1
   }"

definition NG_LIST_ADD_between :: "handle \<Rightarrow> handle \<Rightarrow> handle \<Rightarrow> node_store \<Rightarrow> node_store option" where
  "NG_LIST_ADD_between p prev nx st = do {
     st1 \<leftarrow> set_nl_prev nx (M_HANDLE st p) st;
     st2 \<leftarrow> set_nl_next p (M_HANDLE st1 nx) st1;
     st3 \<leftarrow> set_nl_prev p (M_HANDLE st2 prev) st2;
     set_nl_next prev (M_HANDLE st3 p) st3
   }"

definition NG_LIST_ADD :: "handle \<Rightarrow> handle \<Rightarrow> node_store \<Rightarrow> node_store option" where
  "NG_LIST_ADD p head st = do {
     non_null head;
     NG_LIST_ADD_between p head (nl_next (m_links st head)) st
   }"

definition NG_LIST_ADD_TAIL :: "handle \<Rightarrow> handle \<Rightarrow> node_store \<Rightarrow> node_store option" where
  "NG_LIST_ADD_TAIL p head st = do {
     non_null head;
     NG_LIST_ADD_between p (nl_prev (m_links st head)) head st
   }"

definition NG_LIST_DEL_between :: "handle \<Rightarrow> handle \<Rightarrow> node_store \<Rightarrow> node_store option" where
  "NG_LIST_DEL_between prev nx st = do {
     st1 \<leftarrow> set_nl_prev nx (M_HANDLE st prev) st;
     set_nl_next prev (M_HANDLE st1 nx) st1
   }"

definition NG_LIST_DEL :: "handle \<Rightarrow> node_store \<Rightarrow> node_store option" where
  "NG_LIST_DEL p st = do {
     non_null p;
     st1 \<leftarrow> NG_LIST_DEL_between (nl_prev (m_links st p)) (nl_next (m_links st p)) st;
     st2 \<leftarrow> set_nl_next p INVALID_HANDLE st1;
     set_nl_prev p INVALID_HANDLE st2
   }"

definition NG_LIST_DEL_INIT :: "handle \<Rightarrow> node_store \<Rightarrow> node_store option" where
  "NG_LIST_DEL_INIT p st = do {
     non_null p;
     st1 \<leftarrow> NG_LIST_DEL_between (nl_prev (m_links st p)) (nl_next (m_links st p)) st;
     INIT_NG_LIST_HEAD p st1
   }"

definition NG_LIST_MOVE :: "handle \<Rightarrow> handle \<Rightarrow> node_store \<Rightarrow> node_store option" where
  "NG_LIST_MOVE p head st = do {
     non_null p;
     st1 \<leftarrow> NG_LIST_DEL_between (nl_prev (m_links st p)) (nl_next (m_links st p)) st;
     NG_LIST_ADD p head st1
   }"

definition NG_LIST_MOVE_TAIL :: "handle \<Rightarrow> handle \<Rightarrow> node_store \<Rightarrow> node_store option" where
  "NG_LIST_MOVE_TAIL p head st = do {
     non_null p;
     st1 \<leftarrow> NG_LIST_DEL_between (nl_prev (m_links st p)) (nl_next (m_links st p)) st;
     NG_LIST_ADD_TAIL p head st1
   }"

definition NG_LIST_EMPTY :: "node_store \<Rightarrow> handle \<Rightarrow> bool" where
  "NG_LIST_EMPTY st head \<longleftrightarrow> nl_next (m_links st head) = M_HANDLE st head"

section \<open>LRU lists of nodes\<close>

definition upd_ng :: "handle \<Rightarrow> (node_group \<Rightarrow> node_group) \<Rightarrow> node_store \<Rightarrow> node_store" where
  "upd_ng h f st = st\<lparr>m_ng := (m_ng st)(h := f (m_ng st h))\<rparr>"

definition LruPrev :: "node_store \<Rightarrow> CNode \<Rightarrow> nat option" where
  "LruPrev st n = (if c_owner n = INVALID_HANDLE then None
     else Some (at_lru_prev (m_ng st (c_owner n)) (c_index n)))"

definition LruNext :: "node_store \<Rightarrow> CNode \<Rightarrow> nat option" where
  "LruNext st n = (if c_owner n = INVALID_HANDLE then None
     else Some (at_lru_next (m_ng st (c_owner n)) (c_index n)))"

definition set_LruPrev :: "CNode \<Rightarrow> nat \<Rightarrow> node_store \<Rightarrow> node_store option" where
  "set_LruPrev n v st = (if c_owner n = INVALID_HANDLE then None
     else Some (upd_ng (c_owner n) (\<lambda>g. g\<lparr>at_lru_prev := (at_lru_prev g)(c_index n := v)\<rparr>) st))"

definition set_LruNext :: "CNode \<Rightarrow> nat \<Rightarrow> node_store \<Rightarrow> node_store option" where
  "set_LruNext n v st = (if c_owner n = INVALID_HANDLE then None
     else Some (upd_ng (c_owner n) (\<lambda>g. g\<lparr>at_lru_next := (at_lru_next g)(c_index n := v)\<rparr>) st))"

definition node_Next :: "node_store \<Rightarrow> CNode \<Rightarrow> CNode option" where
  "node_Next st n = map_option (I_SEARCH st) (LruNext st n)"

definition node_Prev :: "node_store \<Rightarrow> CNode \<Rightarrow> CNode option" where
  "node_Prev st n = map_option (I_SEARCH st) (LruPrev st n)"

definition NotInLruList :: "node_store \<Rightarrow> CNode \<Rightarrow> bool option" where
  "NotInLruList st n = do {
     p \<leftarrow> LruPrev st n;
     q \<leftarrow> LruNext st n;
     Some (p = NodeID st n \<or> q = NodeID st n)
   }"

definition INIT_NODE_LIST_HEAD :: "CNode \<Rightarrow> nat \<Rightarrow> node_store \<Rightarrow> node_store option" where
  "INIT_NODE_LIST_HEAD n nid st = do { st1 \<leftarrow> set_LruPrev n nid st; set_LruNext n nid st1 }"

definition NODE_LIST_ADD_between :: "CNode \<Rightarrow> CNode \<Rightarrow> CNode \<Rightarrow> node_store \<Rightarrow> node_store option" where
  "NODE_LIST_ADD_between p prev nx st = do {
     st1 \<leftarrow> set_LruPrev nx (NodeID st p) st;
     st2 \<leftarrow> set_LruNext p (NodeID st1 nx) st1;
     st3 \<leftarrow> set_LruPrev p (NodeID st2 prev) st2;
     set_LruNext prev (NodeID st3 p) st3
   }"

definition NODE_LIST_ADD :: "CNode \<Rightarrow> CNode \<Rightarrow> node_store \<Rightarrow> node_store option" where
  "NODE_LIST_ADD p head st = do {
     nx \<leftarrow> node_Next st head;
     NODE_LIST_ADD_between p head nx st
   }"

definition NODE_LIST_ADD_TAIL :: "CNode \<Rightarrow> CNode \<Rightarrow> node_store \<Rightarrow> node_store option" where
  "NODE_LIST_ADD_TAIL p head st = do {
     pr \<leftarrow> node_Prev st head;
     NODE_LIST_ADD_between p pr head st
   }"

definition NODE_LIST_DEL_between :: "CNode \<Rightarrow> CNode \<Rightarrow> node_store \<Rightarrow> node_store option" where
  "NODE_LIST_DEL_between prev nx st = do {
     st1 \<leftarrow> set_LruPrev nx (NodeID st prev) st;
     set_LruNext prev (NodeID st1 nx) st1
   }"

definition NODE_LIST_DEL :: "CNode \<Rightarrow> node_store \<Rightarrow> node_store option" where
  "NODE_LIST_DEL p st = do {
     pr \<leftarrow> node_Prev st p;
     nx \<leftarrow> node_Next st p;
     st1 \<leftarrow> NODE_LIST_DEL_between pr nx st;
     st2 \<leftarrow> set_LruPrev p (NodeID st1 p) st1;
     set_LruNext p (NodeID st2 p) st2
   }"

definition NODE_LIST_MOVE :: "CNode \<Rightarrow> CNode \<Rightarrow> node_store \<Rightarrow> node_store option" where
  "NODE_LIST_MOVE p head st = do {
     pr \<leftarrow> node_Prev st p;
     nx \<leftarrow> node_Next st p;
     st1 \<leftarrow> NODE_LIST_DEL_between pr nx st;
     NODE_LIST_ADD p head st1
   }"

definition NODE_LIST_MOVE_TAIL :: "CNode \<Rightarrow> CNode \<Rightarrow> node_store \<Rightarrow> node_store option" where
  "NODE_LIST_MOVE_TAIL p head st = do {
     pr \<leftarrow> node_Prev st p;
     nx \<leftarrow> node_Next st p;
     st1 \<leftarrow> NODE_LIST_DEL_between pr nx st;
     NODE_LIST_ADD_TAIL p head st1
   }"

definition NODE_LIST_EMPTY :: "node_store \<Rightarrow> CNode \<Rightarrow> bool option" where
  "NODE_LIST_EMPTY st head = map_option (\<lambda>v. v = NodeID st head) (LruNext st head)"

section \<open>The manager of node groups\<close>

definition SYS_DIRTY_NODE_INDEX :: nat where "SYS_DIRTY_NODE_INDEX = 0"
definition SYS_CLEAN_NODE_INDEX :: nat where "SYS_CLEAN_NODE_INDEX = 1"
definition SYS_EMPTY_NODE_INDEX :: nat where "SYS_EMPTY_NODE_INDEX = 2"
definition SYS_MIN_NODE_ID :: nat where "SYS_MIN_NODE_ID = 0"
definition SIZEOF_NG_INFO_T :: nat where "SIZEOF_NG_INFO_T = 80"

abbreviation ni :: "node_store \<Rightarrow> NG_INFO_T" where
  "ni st \<equiv> m_ni st (ngInfo st)"

definition upd_ni :: "(NG_INFO_T \<Rightarrow> NG_INFO_T) \<Rightarrow> node_store \<Rightarrow> node_store" where
  "upd_ni f st = st\<lparr>m_ni := (m_ni st)(ngInfo st := f (ni st))\<rparr>"

definition ni_free_head :: "node_store \<Rightarrow> handle" where "ni_free_head st = ngInfo st"
definition ni_full_head :: "node_store \<Rightarrow> handle" where "ni_full_head st = ngInfo st + 16"

text \<open>\<open>NG->AllocateNode()\<close> on the group at \<open>h\<close>.\<close>

definition group_AllocateNode :: "handle \<Rightarrow> node_store \<Rightarrow> CNode \<times> node_store" where
  "group_AllocateNode h st =
     (case NG_AllocateNode (m_ng st h) of
        (None, g) \<Rightarrow> (null_node, upd_ng h (\<lambda>_. g) st)
      | (Some i, g) \<Rightarrow> (\<lparr>c_owner = h, c_index = i\<rparr>, upd_ng h (\<lambda>_. g) st))"

definition SystemReservedInit :: "handle \<Rightarrow> node_store \<Rightarrow> (int \<times> node_store) option" where
  "SystemReservedInit h st =
     (let (dirtyNode, st1) = group_AllocateNode h st
      in if is_null_node dirtyNode then Some (-2, st1) else
      let (cleanNode, st2) = group_AllocateNode h st1
      in if is_null_node cleanNode then Some (-3, st2) else
      let (emptyNode, st3) = group_AllocateNode h st2
      in if is_null_node emptyNode then Some (-3, st3) else do {
        st4 \<leftarrow> INIT_NODE_LIST_HEAD dirtyNode (NodeID st3 dirtyNode) st3;
        st5 \<leftarrow> INIT_NODE_LIST_HEAD cleanNode (NodeID st4 cleanNode) st4;
        st6 \<leftarrow> INIT_NODE_LIST_HEAD emptyNode (NodeID st5 emptyNode) st5;
        (_, st7) \<leftarrow> I_INSERT dirtyNode st6;
        (_, st8) \<leftarrow> I_INSERT cleanNode st7;
        (_, st9) \<leftarrow> I_INSERT emptyNode st8;
        Some (0, st9)
      })"

definition SystemReservedCheck :: "handle \<Rightarrow> node_store \<Rightarrow> (int \<times> node_store) option" where
  "SystemReservedCheck h st =
     (if ng_free (m_ng st h) < 2 then Some (-10, st)
      else if ng_free (m_ng st h) \<ge> 3 then Some (0, st)
      else let (emptyNode, st1) = group_AllocateNode h st
      in if is_null_node emptyNode then Some (-3, st1) else do {
        st2 \<leftarrow> INIT_NODE_LIST_HEAD emptyNode (NodeID st1 emptyNode) st1;
        (_, st3) \<leftarrow> I_INSERT emptyNode st2;
        Some (1, st3)
      })"

text \<open>A new group; 0 when the segment is full.\<close>

definition AllocateNG :: "node_store \<Rightarrow> (handle \<times> node_store) option" where
  "AllocateNG st = do {
     (v, st1) \<leftarrow> M_CALLOC NG_Size st;
     if v = INVALID_HANDLE then Some (INVALID_HANDLE, st1)
     else do {
       let st2 = st1\<lparr>m_ng := (m_ng st1)(v := NG_Init (ni_min_id (ni st1)) (m_ng st1 v)),
                    m_links := (m_links st1)(v := \<lparr>nl_prev = INVALID_HANDLE, nl_next = INVALID_HANDLE\<rparr>)\<rparr>;
       let st3 = upd_ni (\<lambda>n. n\<lparr>ni_min_id := u32 (ni_min_id n + NODE_GROUP_INCLUDE_NODES),
                             ni_used_ng := u32 (ni_used_ng n + 1)\<rparr>) st2;
       Some (v, st3\<lparr>statUsedNG := ni_used_ng (ni st3)\<rparr>)
     }
   }"

definition FindFreeNG :: "node_store \<Rightarrow> handle" where
  "FindFreeNG st =
     (if NG_LIST_EMPTY st (ni_free_head st) then INVALID_HANDLE
      else nl_next (m_links st (ni_free_head st)))"

definition ListDel :: "handle \<Rightarrow> node_store \<Rightarrow> node_store option" where
  "ListDel h st = NG_LIST_DEL h st"

definition FreeListAdd :: "handle \<Rightarrow> node_store \<Rightarrow> node_store option" where
  "FreeListAdd h st = NG_LIST_ADD h (ni_free_head st) st"

definition FullListAdd :: "handle \<Rightarrow> node_store \<Rightarrow> node_store option" where
  "FullListAdd h st = NG_LIST_ADD h (ni_full_head st) st"

definition FreeListAddTail :: "handle \<Rightarrow> node_store \<Rightarrow> node_store option" where
  "FreeListAddTail h st = NG_LIST_ADD_TAIL h (ni_free_head st) st"

definition FullListAddTail :: "handle \<Rightarrow> node_store \<Rightarrow> node_store option" where
  "FullListAddTail h st = NG_LIST_ADD_TAIL h (ni_full_head st) st"

text \<open>
  The loop that allocates groups ahead: \<open>i\<close> groups are there, \<open>k\<close> turns remain.  The flag is
  false when not even one group could be had.
\<close>

fun prealloc_groups :: "nat \<Rightarrow> nat \<Rightarrow> node_store \<Rightarrow> (bool \<times> node_store) option" where
  "prealloc_groups i 0 st = Some (True, st)"
| "prealloc_groups i (Suc k) st = do {
     (v, st1) \<leftarrow> AllocateNG st;
     if v = INVALID_HANDLE
     then (if i = 0 then Some (False, st1) else Some (True, st1\<lparr>ng_fail := True, ng_step := 1\<rparr>))
     else do {
       st2 \<leftarrow> FreeListAdd v st1;
       prealloc_groups (i + 1) k st2
     }
   }"

definition take_node :: "handle \<Rightarrow> node_store \<Rightarrow> (CNode \<times> node_store) option" where
  "take_node h st = do {
     non_null h;
     let (n, st1) = group_AllocateNode h st;
     st2 \<leftarrow> (if NG_IsFull (m_ng st1 h) then do { s \<leftarrow> ListDel h st1; FullListAdd h s } else Some st1);
     if is_null_node n then Some (null_node, st2)
     else do {
       let st3 = upd_ni (\<lambda>x. x\<lparr>ni_used_node := u32 (ni_used_node x + 1)\<rparr>) st2;
       let st4 = st3\<lparr>statUsedNode := ni_used_node (ni st3)\<rparr>;
       (_, st5) \<leftarrow> I_INSERT n st4;
       Some (n, st5)
     }
   }"

definition NI_AllocateNode :: "node_store \<Rightarrow> (CNode \<times> node_store) option" where
  "NI_AllocateNode st =
     (let h = FindFreeNG st
      in if h \<noteq> INVALID_HANDLE then take_node h st
      else do {
        (ok, st1) \<leftarrow> prealloc_groups 0 (ng_step st) st;
        if \<not> ok then Some (null_node, st1)
        else do {
          let h = FindFreeNG st1;
          let st2 = (if ng_step st1 < 256 \<and> \<not> ng_fail st1 then st1\<lparr>ng_step := ng_step st1 * 2\<rparr> else st1);
          take_node h st2
        }
      })"

definition NI_ReleaseNode :: "CNode \<Rightarrow> node_store \<Rightarrow> node_store option" where
  "NI_ReleaseNode n st = do {
     non_null (c_owner n);
     st1 \<leftarrow> (if NG_IsFull (m_ng st (c_owner n))
             then do { s \<leftarrow> ListDel (c_owner n) st; FreeListAdd (c_owner n) s } else Some st);
     let st2 = upd_ni (\<lambda>x. x\<lparr>ni_used_node := u32_sub (ni_used_node x) 1\<rparr>) st1;
     let st3 = st2\<lparr>statUsedNode := ni_used_node (ni st2)\<rparr>;
     Some (upd_ng (c_owner n) (node_Release (c_index n)) st3)
   }"

definition sys_node :: "node_store \<Rightarrow> nat \<Rightarrow> CNode" where
  "sys_node st i = (if ni_sys_zone (ni st) = INVALID_HANDLE then null_node
     else \<lparr>c_owner = ni_sys_zone (ni st), c_index = i\<rparr>)"

definition DirtyNodeHead :: "node_store \<Rightarrow> CNode" where
  "DirtyNodeHead st = sys_node st SYS_DIRTY_NODE_INDEX"

definition CleanNodeHead :: "node_store \<Rightarrow> CNode" where
  "CleanNodeHead st = sys_node st SYS_CLEAN_NODE_INDEX"

definition EmptyNodeHead :: "node_store \<Rightarrow> CNode" where
  "EmptyNodeHead st = sys_node st SYS_EMPTY_NODE_INDEX"

definition Insert2DirtyLru :: "CNode \<Rightarrow> node_store \<Rightarrow> node_store option" where
  "Insert2DirtyLru n st =
     NODE_LIST_ADD n \<lparr>c_owner = ni_sys_zone (ni st), c_index = SYS_DIRTY_NODE_INDEX\<rparr> st"

definition Insert2CleanLru :: "CNode \<Rightarrow> node_store \<Rightarrow> node_store option" where
  "Insert2CleanLru n st =
     NODE_LIST_ADD n \<lparr>c_owner = ni_sys_zone (ni st), c_index = SYS_CLEAN_NODE_INDEX\<rparr> st"

definition Insert2EmptyLru :: "CNode \<Rightarrow> node_store \<Rightarrow> node_store option" where
  "Insert2EmptyLru n st =
     NODE_LIST_ADD n \<lparr>c_owner = ni_sys_zone (ni st), c_index = SYS_EMPTY_NODE_INDEX\<rparr> st"

definition RemoveFromLru :: "CNode \<Rightarrow> node_store \<Rightarrow> node_store option" where
  "RemoveFromLru n st = NODE_LIST_DEL n st"

definition i32_add :: "nat \<Rightarrow> int \<Rightarrow> nat" where
  "i32_add x v = nat ((int x + v) mod 2 ^ 32)"

definition i64_add :: "nat \<Rightarrow> int \<Rightarrow> nat" where
  "i64_add x v = nat ((int x + v) mod 2 ^ 64)"

definition IncDirtyNode :: "int \<Rightarrow> node_store \<Rightarrow> node_store" where
  "IncDirtyNode v st = (let st1 = upd_ni (\<lambda>x. x\<lparr>ni_dirty_node := i32_add (ni_dirty_node x) v\<rparr>) st
     in st1\<lparr>statDirtyNode := ni_dirty_node (ni st1)\<rparr>)"

definition IncDirtyRow :: "int \<Rightarrow> node_store \<Rightarrow> node_store" where
  "IncDirtyRow v st = (let st1 = upd_ni (\<lambda>x. x\<lparr>ni_dirty_row := i64_add (ni_dirty_row x) v\<rparr>) st
     in st1\<lparr>statDirtyRow := u32 (ni_dirty_row (ni st1))\<rparr>)"

definition IncTotalRow :: "int \<Rightarrow> node_store \<Rightarrow> node_store" where
  "IncTotalRow v st = (let st1 = upd_ni (\<lambda>x. x\<lparr>ni_used_row := i64_add (ni_used_row x) v\<rparr>) st
     in st1\<lparr>statUsedRow := u32 (ni_used_row (ni st1))\<rparr>)"

definition IncEmptyNode :: "int \<Rightarrow> node_store \<Rightarrow> node_store" where
  "IncEmptyNode v st = (let st1 = st\<lparr>emptyCnt := emptyCnt st + v\<rparr>
     in st1\<lparr>statEmptyNode := nat (emptyCnt st1 mod 2 ^ 32)\<rparr>)"

definition MaxNodeID :: "node_store \<Rightarrow> nat" where
  "MaxNodeID st = u32_sub (u32 (ni_used_ng (ni st) * 256)) 1"

definition InitHeader :: "node_store \<Rightarrow> (int \<times> node_store) option" where
  "InitHeader st = do {
     st1 \<leftarrow> INIT_NG_LIST_HEAD (ni_free_head st) st;
     st2 \<leftarrow> INIT_NG_LIST_HEAD (ni_full_head st1) st1;
     let st3 = upd_ni (\<lambda>x. x\<lparr>ni_min_id := SYS_MIN_NODE_ID\<rparr>) st2;
     (h, st4) \<leftarrow> AllocateNG st3;
     if h = INVALID_HANDLE then Some (-1, st4)
     else do {
       (_, st5) \<leftarrow> SystemReservedInit h st4;
       let st6 = upd_ni (\<lambda>x. x\<lparr>ni_sys_zone := M_HANDLE st5 h, ni_used_ng := 1, ni_used_node := 0,
                              ni_dirty_node := 0, ni_used_row := 0, ni_dirty_row := 0\<rparr>) st5;
       Some (0, st6\<lparr>statUsedNG := 1, statUsedNode := 0, statDirtyNode := 0, statDirtyRow := 0,
                    statUsedRow := 0, statEmptyNode := 0\<rparr>)
     }
   }"

definition NGI_Init :: "node_store \<Rightarrow> (int \<times> node_store) option" where
  "NGI_Init st = do {
     (v, st1) \<leftarrow> M_CALLOC SIZEOF_NG_INFO_T st;
     if v = INVALID_HANDLE then Some (-1, st1)
     else InitHeader (st1\<lparr>ngInfo := v, m_ni := (m_ni st1)(v :=
            \<lparr>ni_min_id = 0, ni_sys_zone = INVALID_HANDLE, ni_used_ng = 0, ni_used_node = 0,
             ni_dirty_node = 0, ni_used_row = 0, ni_dirty_row = 0\<rparr>)\<rparr>)
   }"

definition NGI_Attach :: "handle \<Rightarrow> node_store \<Rightarrow> (int \<times> node_store) option" where
  "NGI_Attach v st =
     (if v = INVALID_HANDLE then Some (-1, st)
      else let st1 = st\<lparr>ngInfo := v\<rparr> in
        if ni_sys_zone (ni st1) = INVALID_HANDLE then Some (-1, st1)
        else do {
          (ret, st2) \<leftarrow> SystemReservedCheck (ni_sys_zone (ni st1)) st1;
          if ret < 0 then Some (ret, st2)
          else if ret > 0 then Some (0, st2\<lparr>emptyStartupMode := UPGRADED\<rparr>)
          else Some (0, st2\<lparr>emptyStartupMode := ATTACHED\<rparr>)
        })"

definition NGI_Detach :: "node_store \<Rightarrow> int \<times> node_store" where
  "NGI_Detach st = (0, st\<lparr>ngInfo := INVALID_HANDLE\<rparr>)"

end
