(* ===== verification/Cache_Pool.thy ===== *)
theory Cache_Pool
  imports Cache_Hash Node_Store
begin

text \<open>
  The pool of cached nodes, \<open>cache/cache_pool.h\<close> and \<open>cache/cache_pool.cc\<close> (class \<open>CCachePool\<close>),
  with the view of a data chunk that it works with, \<open>cache/data_chunk.h\<close>: nodes hang in the buckets of the
  hash by their next-node attribute, in one LRU list each, and own a chunk of the segment that
  begins with the key.

  The node store \<open>ns\<close> holds the allocator; the bytes of the data chunks are its payload bytes.  As
  there, an operation gives \<open>None\<close> where the program reads through a null pointer, past the bytes of
  a key, or never returns.  The object behind \<open>_purge_notifier\<close> is not part of the pool: the calls
  it gets are recorded in \<open>purge_notified\<close>.  The flag \<open>HAS_TREE_DATA\<close> is never set, so a chunk
  that is the root of a tree has a key and a number of rows and cannot be destroyed.
  \<open>pool_env\<close> holds what the pool reads of the clock, the configuration and the table definition.
\<close>

section \<open>State\<close>

record pool_env =
  env_hour :: nat
  env_now :: nat
  env_key_fields :: nat
  env_key_format :: int
  env_lastcmod :: int
  env_row :: CRowValue
  env_pre_purge_nodes :: int

record cache_pool =
  ns :: node_store
  m_hash :: "handle \<Rightarrow> HASH_T"
  p_hash :: handle
  keySize :: nat
  hashChanging :: bool
  targetNewHash :: bool
  purge_notifier :: bool
  purge_notified :: "(nat list \<times> CNode) list"
  need_purge_node_count :: nat
  delay_timer :: bool
  firstMarkerTime :: nat
  lastMarkerTime :: nat
  emptyLimit :: int
  disableTryPurge :: bool
  dateExpireAlertTime :: int
  raw_data :: CRawData
  statFreeBucket :: nat
  statDirtyEldest :: nat
  statDirtyAge :: nat
  statTryPurgeCount :: "int list"
  statTryPurgeNodes :: nat
  statLastPurgeNodeModTime :: nat
  statDataExistTime :: nat
  survival_hour :: "nat list"

definition TIME_MARKER_NEXT_NODE_ID :: nat where
  "TIME_MARKER_NEXT_NODE_ID = INVALID_NODE_ID - 1"

section \<open>Data chunks\<close>

definition DATA_TYPE_TREE_ROOT :: nat where "DATA_TYPE_TREE_ROOT = 1"
definition SIZEOF_CRawFormat :: nat where "SIZEOF_CRawFormat = 16"
definition SIZEOF_CRootData :: nat where "SIZEOF_CRootData = 13"

abbreviation chunk_bytes :: "CBinMalloc \<Rightarrow> handle \<Rightarrow> nat \<Rightarrow> nat list" where
  "chunk_bytes b p n \<equiv> get_bytes BM_mem p n b"

definition DC_type :: "CBinMalloc \<Rightarrow> handle \<Rightarrow> nat" where
  "DC_type b p = m_user b p"

definition DC_HeadSize :: "CBinMalloc \<Rightarrow> handle \<Rightarrow> nat" where
  "DC_HeadSize b p = (if DC_type b p = DATA_TYPE_RAW then SIZEOF_CRawFormat else SIZEOF_CRootData)"

text \<open>The address of the key, \<open>None\<close> for \<open>NULL\<close>.\<close>

definition DC_Key :: "CBinMalloc \<Rightarrow> handle \<Rightarrow> handle option" where
  "DC_Key b p = (if DC_type b p = DATA_TYPE_RAW then Some (p + SIZEOF_CRawFormat)
     else if DC_type b p = DATA_TYPE_TREE_ROOT then Some (p + SIZEOF_CRootData) else None)"

text \<open>\<open>SetKey\<close> for a key with its length in front, and for one without.\<close>

definition DC_SetKey :: "nat list \<Rightarrow> handle \<Rightarrow> CBinMalloc \<Rightarrow> CBinMalloc option" where
  "DC_SetKey key p b = (case key of [] \<Rightarrow> None
     | n # _ \<Rightarrow> if length key < n then None else Some (user_put (p + DC_HeadSize b p) (take n key) b))"

definition DC_SetKey_len :: "nat list \<Rightarrow> nat \<Rightarrow> handle \<Rightarrow> CBinMalloc \<Rightarrow> CBinMalloc option" where
  "DC_SetKey_len key n p b = (if length key < n then None
     else Some (user_put (p + DC_HeadSize b p) (u8 n # take n key) b))"

definition DC_StrKeySize :: "CBinMalloc \<Rightarrow> handle \<Rightarrow> nat" where
  "DC_StrKeySize b p = m_user b (p + DC_HeadSize b p)"

definition DC_DataSize :: "CBinMalloc \<Rightarrow> handle \<Rightarrow> nat \<Rightarrow> nat" where
  "DC_DataSize b p iKeySize = DC_HeadSize b p + (if iKeySize \<noteq> 0 then iKeySize else 1 + DC_StrKeySize b p)"

definition DC_NodeSize :: "CBinMalloc \<Rightarrow> handle \<Rightarrow> nat" where
  "DC_NodeSize b p = (if DC_type b p = DATA_TYPE_RAW then un_le (chunk_bytes b (p + 1) 4) else 0)"

definition DC_CreateTime :: "CBinMalloc \<Rightarrow> handle \<Rightarrow> nat" where
  "DC_CreateTime b p = (if DC_type b p = DATA_TYPE_RAW then un_le (chunk_bytes b (p + 14) 2) else 0)"

definition DC_LastAccessTime :: "CBinMalloc \<Rightarrow> handle \<Rightarrow> nat" where
  "DC_LastAccessTime b p = (if DC_type b p = DATA_TYPE_RAW then un_le (chunk_bytes b (p + 10) 2) else 0)"

definition DC_LastUpdateTime :: "CBinMalloc \<Rightarrow> handle \<Rightarrow> nat" where
  "DC_LastUpdateTime b p = (if DC_type b p = DATA_TYPE_RAW then un_le (chunk_bytes b (p + 12) 2) else 0)"

definition DC_TotalRows :: "CBinMalloc \<Rightarrow> handle \<Rightarrow> nat" where
  "DC_TotalRows b p = (if DC_type b p = DATA_TYPE_RAW then un_le (chunk_bytes b (p + 5) 4) else un_le (chunk_bytes b (p + 1) 4))"

definition DC_Destroy :: "handle \<Rightarrow> CBinMalloc \<Rightarrow> int \<times> CBinMalloc" where
  "DC_Destroy p b = (if DC_type b p = DATA_TYPE_RAW then BM_Free (Ptr2Handle b (Some p)) b else (-1, b))"

definition DC_AskForDestroySize :: "CBinMalloc \<Rightarrow> handle \<Rightarrow> nat" where
  "DC_AskForDestroySize b p = (if DC_type b p = DATA_TYPE_RAW then AskForDestroySize b (Ptr2Handle b (Some p)) else 0)"

section \<open>Attributes of a node\<close>

definition NextNodeID :: "node_store \<Rightarrow> CNode \<Rightarrow> nat option" where
  "NextNodeID st n = (if c_owner n = INVALID_HANDLE then None else Some (at_next (m_ng st (c_owner n)) (c_index n)))"

definition VDHandle :: "node_store \<Rightarrow> CNode \<Rightarrow> handle option" where
  "VDHandle st n = (if c_owner n = INVALID_HANDLE then None else Some (at_vd (m_ng st (c_owner n)) (c_index n)))"

definition set_NextNodeID :: "CNode \<Rightarrow> nat \<Rightarrow> node_store \<Rightarrow> node_store option" where
  "set_NextNodeID n v st = (if c_owner n = INVALID_HANDLE then None
     else Some (upd_ng (c_owner n) (\<lambda>g. g\<lparr>at_next := (at_next g)(c_index n := v)\<rparr>) st))"

definition store_VDHandle :: "CNode \<Rightarrow> handle \<Rightarrow> node_store \<Rightarrow> node_store option" where
  "store_VDHandle n v st = (if c_owner n = INVALID_HANDLE then None
     else Some (upd_ng (c_owner n) (set_VDHandle (c_index n) v) st))"

text \<open>\<open>CNode::Time\<close>.\<close>

definition node_Time :: "node_store \<Rightarrow> CNode \<Rightarrow> nat option" where
  "node_Time st n = map_option u32 (VDHandle st n)"

section \<open>The hash object\<close>

abbreviation hh :: "cache_pool \<Rightarrow> HASH_T" where
  "hh P \<equiv> m_hash P (p_hash P)"

definition upd_hh :: "(HASH_T \<Rightarrow> HASH_T) \<Rightarrow> cache_pool \<Rightarrow> cache_pool" where
  "upd_hh f P = P\<lparr>m_hash := (m_hash P)(p_hash P := f (hh P))\<rparr>"

definition Hash2Node :: "cache_pool \<Rightarrow> nat \<Rightarrow> nat" where
  "Hash2Node P v = hh_buckets (hh P) v"

definition set_Hash2Node :: "nat \<Rightarrow> nat \<Rightarrow> cache_pool \<Rightarrow> cache_pool" where
  "set_Hash2Node v i P = upd_hh (\<lambda>t. t\<lparr>hh_buckets := (hh_buckets t)(v := i)\<rparr>) P"

definition IncFreeBucket :: "int \<Rightarrow> cache_pool \<Rightarrow> cache_pool" where
  "IncFreeBucket v P = upd_hh (IncFreeBucket_t v) P"

definition IncNodeCnt :: "int \<Rightarrow> cache_pool \<Rightarrow> cache_pool" where
  "IncNodeCnt v P = upd_hh (IncNodeCnt_t v) P"

text \<open>The loop that empties the buckets from \<open>i\<close> on.\<close>

fun init_buckets :: "nat \<Rightarrow> nat \<Rightarrow> HASH_T \<Rightarrow> HASH_T" where
  "init_buckets i 0 t = t"
| "init_buckets i (Suc k) t = init_buckets (i + 1) k (t\<lparr>hh_buckets := (hh_buckets t)(i := INVALID_NODE_ID)\<rparr>)"

definition Hash_Init :: "nat \<Rightarrow> nat \<Rightarrow> cache_pool \<Rightarrow> (int \<times> cache_pool) option" where
  "Hash_Init hsize fixedsize P = do {
     (v, st) \<leftarrow> M_CALLOC (u32 (4 * hsize + SIZEOF_HASH_T)) (ns P);
     let P1 = P\<lparr>ns := st\<rparr>;
     if v = INVALID_HANDLE then Some (-1, P1)
     else let P2 = P1\<lparr>p_hash := v\<rparr>;
              P3 = upd_hh (\<lambda>t. t\<lparr>hh_size := hsize, hh_free := hsize, hh_node := 0, hh_fixedsize := fixedsize\<rparr>) P2
          in Some (0, upd_hh (init_buckets 0 hsize) P3)
   }"

definition Hash_Attach :: "handle \<Rightarrow> cache_pool \<Rightarrow> int \<times> cache_pool" where
  "Hash_Attach h P = (if h = INVALID_HANDLE then (-1, P) else (0, P\<lparr>p_hash := h\<rparr>))"

definition Hash_Detach :: "cache_pool \<Rightarrow> int \<times> cache_pool" where
  "Hash_Detach P = (0, P\<lparr>p_hash := INVALID_HANDLE\<rparr>)"

definition pool_slot :: "cache_pool \<Rightarrow> bool \<Rightarrow> nat list \<Rightarrow> nat option" where
  "pool_slot P newhash key = do { non_null (p_hash P); key_slot (hh P) newhash key }"

section \<open>Chains of the hash\<close>

text \<open>Returns 0.\<close>

definition Insert2Hash :: "nat list \<Rightarrow> CNode \<Rightarrow> cache_pool \<Rightarrow> cache_pool option" where
  "Insert2Hash key n P = do {
     hashslot \<leftarrow> pool_slot P (targetNewHash P) key;
     let P1 = (if Hash2Node P hashslot = INVALID_NODE_ID
               then (IncFreeBucket (-1) P)\<lparr>statFreeBucket := u32_sub (statFreeBucket P) 1\<rparr> else P);
     let P2 = IncNodeCnt 1 P1;
     st \<leftarrow> set_NextNodeID n (Hash2Node P2 hashslot) (ns P2);
     Some (set_Hash2Node hashslot (NodeID st n) (P2\<lparr>ns := st\<rparr>))
   }"

text \<open>The loop that looks for the node with the id \<open>i\<close>, one step behind it.\<close>

partial_function (option) chain_walk :: "node_store \<Rightarrow> nat \<Rightarrow> CNode \<Rightarrow> CNode \<Rightarrow> (CNode \<times> CNode) option" where
  "chain_walk st i prev nx =
     (if is_null_node nx \<or> NodeID st nx = i then Some (prev, nx)
      else do { j \<leftarrow> NextNodeID st nx; chain_walk st i nx (I_SEARCH st j) })"

definition RemoveFromHashBase :: "nat list \<Rightarrow> CNode \<Rightarrow> bool \<Rightarrow> cache_pool \<Rightarrow> (int \<times> cache_pool) option" where
  "RemoveFromHashBase key remove_node newhash P = do {
     hash_slot \<leftarrow> pool_slot P newhash key;
     let node_id = Hash2Node P hash_slot;
     if node_id = INVALID_NODE_ID then Some (0, P)
     else do {
       nextid \<leftarrow> NextNodeID (ns P) remove_node;
       let removeid = NodeID (ns P) remove_node;
       if node_id = removeid
       then let P1 = set_Hash2Node hash_slot nextid P;
                P2 = (if Hash2Node P1 hash_slot = INVALID_NODE_ID
                      then (IncFreeBucket 1 P1)\<lparr>statFreeBucket := u32 (statFreeBucket P1 + 1)\<rparr> else P1)
            in Some (0, IncNodeCnt (-1) P2)
       else do {
         let prev = I_SEARCH (ns P) node_id;
         j \<leftarrow> NextNodeID (ns P) prev;
         (prev, nx) \<leftarrow> chain_walk (ns P) removeid prev (I_SEARCH (ns P) j);
         if \<not> is_null_node nx
         then do {
           k \<leftarrow> NextNodeID (ns P) nx;
           st \<leftarrow> set_NextNodeID prev k (ns P);
           Some (0, IncNodeCnt (-1) (P\<lparr>ns := st\<rparr>))
         }
         else Some (-1, P)
       }
     }
   }"

text \<open>Returns 0, whatever \<open>RemoveFromHashBase\<close> does.\<close>

definition RemoveFromHash :: "nat list \<Rightarrow> CNode \<Rightarrow> cache_pool \<Rightarrow> cache_pool option" where
  "RemoveFromHash key n P =
     (if hashChanging P
      then do { (_, P1) \<leftarrow> RemoveFromHashBase key n True P; map_option snd (RemoveFromHashBase key n False P1) }
      else map_option snd (RemoveFromHashBase key n (targetNewHash P) P))"

definition MoveToNewHash :: "nat list \<Rightarrow> CNode \<Rightarrow> cache_pool \<Rightarrow> cache_pool option" where
  "MoveToNewHash key n P = do { P1 \<leftarrow> RemoveFromHash key n P; Insert2Hash key n P1 }"

fun memcmp :: "nat list \<Rightarrow> nat list \<Rightarrow> int" where
  "memcmp (x # xs) (y # ys) = (if x = y then memcmp xs ys else int x - int y)"
| "memcmp _ _ = 0"

text \<open>The length of a packed key, its length byte included.\<close>

definition key_len :: "nat \<Rightarrow> nat list \<Rightarrow> nat option" where
  "key_len ksz key = (if ksz = 0 then (case key of [] \<Rightarrow> None | n # _ \<Rightarrow> Some (n + 1)) else Some ksz)"

definition KeyCmp :: "cache_pool \<Rightarrow> nat list \<Rightarrow> handle \<Rightarrow> int option" where
  "KeyCmp P key other = do {
     len \<leftarrow> key_len (keySize P) key;
     if length key < len then None else Some (memcmp (take len key) (chunk_bytes (bm (ns P)) other len))
   }"

section \<open>Purging and finding\<close>

definition PurgeNode :: "nat list \<Rightarrow> CNode \<Rightarrow> cache_pool \<Rightarrow> cache_pool option" where
  "PurgeNode key n P = do {
     let P1 = (if purge_notifier P then P\<lparr>purge_notified := purge_notified P @ [(key, n)]\<rparr> else P);
     P2 \<leftarrow> RemoveFromHash key n P1;
     st1 \<leftarrow> RemoveFromLru n (ns P2);
     st2 \<leftarrow> NI_ReleaseNode n st1;
     Some (P2\<lparr>ns := st2\<rparr>)
   }"

text \<open>The three tests that make \<open>CacheFind\<close> drop a node.\<close>

definition bad_handle :: "cache_pool \<Rightarrow> handle \<Rightarrow> bool" where
  "bad_handle P vd \<longleftrightarrow> vd = INVALID_HANDLE \<or> Handle2Ptr vd = None \<or> DC_Key (bm (ns P)) vd = None"

partial_function (option) find_loop :: "nat list \<Rightarrow> CNode \<Rightarrow> cache_pool \<Rightarrow> (CNode \<times> cache_pool) option" where
  "find_loop key iter P =
     (if is_null_node iter then Some (null_node, P)
      else do {
        vd \<leftarrow> VDHandle (ns P) iter;
        if bad_handle P vd
        then do {
          j \<leftarrow> NextNodeID (ns P) iter;
          let nx = I_SEARCH (ns P) j;
          P1 \<leftarrow> PurgeNode key iter P;
          find_loop key nx P1
        }
        else do {
          other \<leftarrow> DC_Key (bm (ns P)) vd;
          c \<leftarrow> KeyCmp P key other;
          if c = 0 then Some (iter, P)
          else do { j \<leftarrow> NextNodeID (ns P) iter; find_loop key (I_SEARCH (ns P) j) P }
        }
      })"

definition CacheFind :: "nat list \<Rightarrow> bool \<Rightarrow> cache_pool \<Rightarrow> (CNode \<times> cache_pool) option" where
  "CacheFind key newhash P = do {
     hash_slot \<leftarrow> pool_slot P newhash key;
     let node_id = Hash2Node P hash_slot;
     if node_id = INVALID_NODE_ID then Some (null_node, P)
     else find_loop key (I_SEARCH (ns P) node_id) P
   }"

definition CacheFindAutoChoseHash :: "nat list \<Rightarrow> cache_pool \<Rightarrow> (CNode \<times> cache_pool) option" where
  "CacheFindAutoChoseHash key P =
     (if hashChanging P
      then let oldhash = \<not> targetNewHash P; newhash = targetNewHash P
           in do {
             (n, P1) \<leftarrow> CacheFind key oldhash P;
             if is_null_node n then CacheFind key newhash P1
             else do { P2 \<leftarrow> MoveToNewHash key n P1; Some (n, P2) }
           }
      else CacheFind key (targetNewHash P) P)"

text \<open>
  \<open>PurgeNodeEverything\<close> without a key: the key is copied from the chunk into a buffer of 256 zero
  bytes.  A longer key would overrun it.
\<close>

definition PurgeNodeEverything :: "pool_env \<Rightarrow> CNode \<Rightarrow> cache_pool \<Rightarrow> (int \<times> cache_pool) option" where
  "PurgeNodeEverything E n P =
     (if is_null_node n then Some (0, P)
      else do {
        vd \<leftarrow> VDHandle (ns P) n;
        if vd = INVALID_HANDLE then Some (0, P)
        else let b = bm (ns P) in
        (case DC_Key b vd of
           None \<Rightarrow> Some (-1, P)
         | Some a \<Rightarrow>
             let len = (if keySize P > 0 then keySize P else m_user b a + 1);
                 key = chunk_bytes b a len @ replicate (256 - len) 0;
                 P1 = P\<lparr>survival_hour := survival_hour P @ [u32_sub (env_hour E) (DC_CreateTime b vd)],
                        ns := (ns P)\<lparr>bm := snd (DC_Destroy vd b)\<rparr>\<rparr>
             in if len > 256 then None else map_option (Pair 0) (PurgeNode key n P1))
      })"

text \<open>\<open>PurgeNodeEverything\<close> with the key.\<close>

definition PurgeNodeEverything_key :: "pool_env \<Rightarrow> nat list \<Rightarrow> CNode \<Rightarrow> cache_pool \<Rightarrow> (int \<times> cache_pool) option" where
  "PurgeNodeEverything_key E key n P =
     (if is_null_node n then Some (0, P)
      else do {
        vd \<leftarrow> VDHandle (ns P) n;
        let b = bm (ns P);
        let P1 = (if vd \<noteq> INVALID_HANDLE
                  then P\<lparr>survival_hour := survival_hour P @ [u32_sub (env_hour E) (DC_CreateTime b vd)],
                         ns := (ns P)\<lparr>bm := snd (DC_Destroy vd b)\<rparr>\<rparr>
                  else P);
        map_option (Pair 0) (PurgeNode key n P1)
      })"

definition CacheAllocate :: "nat list \<Rightarrow> cache_pool \<Rightarrow> (CNode \<times> cache_pool) option" where
  "CacheAllocate key P = do {
     (n, st) \<leftarrow> NI_AllocateNode (ns P);
     if is_null_node n then Some (n, P\<lparr>ns := st\<rparr>)
     else do {
       P1 \<leftarrow> Insert2Hash key n (P\<lparr>ns := st\<rparr>);
       st1 \<leftarrow> Insert2CleanLru n (ns P1);
       Some (n, P1\<lparr>ns := st1\<rparr>)
     }
   }"

definition CachePurge :: "pool_env \<Rightarrow> nat list \<Rightarrow> cache_pool \<Rightarrow> (int \<times> cache_pool) option" where
  "CachePurge E key P =
     (let purge = (\<lambda>n P. do { (r, P1) \<leftarrow> PurgeNodeEverything_key E key n P; Some (if r < 0 then -1 else 0, P1) })
      in if hashChanging P
      then do {
        (n, P1) \<leftarrow> CacheFind key False P;
        if is_null_node n
        then do {
          (n, P2) \<leftarrow> CacheFind key True P1;
          if is_null_node n then Some (0, P2) else purge n P2
        }
        else purge n P1
      }
      else do {
        (n, P1) \<leftarrow> CacheFind key (targetNewHash P) P;
        if is_null_node n then Some (0, P1) else purge n P1
      })"

end
