(* ===== verification/Cdll.thy ===== *)
theory Cdll
  imports DTC_Prelude
begin

text \<open>
  Circular doubly linked lists with a head element, the shape that \<open>cache/ng_list.h\<close>,
  \<open>cache/node_list.h\<close> and \<open>common/list.h\<close> share.  The locale \<open>cdll\<close> is their interface: how one
  insertion between two neighbours and one bypass change the two link fields.  What the list
  operations do to the sequence of elements is proved once, inside it.
\<close>

section \<open>Rings\<close>

fun linked :: "('k \<Rightarrow> 'k) \<Rightarrow> ('k \<Rightarrow> 'k) \<Rightarrow> 'k list \<Rightarrow> bool" where
  "linked n p [] = True"
| "linked n p [a] = True"
| "linked n p (a # b # r) \<longleftrightarrow> n a = b \<and> p b = a \<and> linked n p (b # r)"

text \<open>\<open>ring n p h xs\<close>: from the head \<open>h\<close> the next links run through \<open>xs\<close> and back to \<open>h\<close>.\<close>

definition ring :: "('k \<Rightarrow> 'k) \<Rightarrow> ('k \<Rightarrow> 'k) \<Rightarrow> 'k \<Rightarrow> 'k list \<Rightarrow> bool" where
  "ring n p h xs \<longleftrightarrow> distinct (h # xs) \<and> linked n p (h # xs @ [h])"

lemma linked_append:
  "linked n p (xs @ a # ys) \<longleftrightarrow> linked n p (xs @ [a]) \<and> linked n p (a # ys)"
proof (induction xs)
  case Nil
  then show ?case by simp
next
  case (Cons x xs)
  then show ?case by (cases xs) auto
qed

lemma linked_join:
  "linked n p (xs @ [a]) \<Longrightarrow> linked n p (b # ys) \<Longrightarrow> n a = b \<Longrightarrow> p b = a \<Longrightarrow> linked n p (xs @ a # b # ys)"
  by (subst linked_append) simp

lemma linked_cong:
  assumes "linked n p xs" "\<And>a. a \<in> set (butlast xs) \<Longrightarrow> n' a = n a" "\<And>a. a \<in> set (tl xs) \<Longrightarrow> p' a = p a"
  shows "linked n' p' xs"
  using assms
proof (induction n p xs rule: linked.induct)
  case (3 n p a b r)
  have "linked n' p' (b # r)" by (rule 3(1)) (use 3(2-4) in \<open>auto dest: list.set_sel(2) split: if_splits\<close>)
  moreover have "n' a = n a" "p' b = p b" using 3(3,4) by auto
  ultimately show ?case using 3(2) by simp
qed simp_all

lemma ring_cong:
  assumes "ring n p h xs" "\<And>a. a \<in> insert h (set xs) \<Longrightarrow> n' a = n a \<and> p' a = p a"
  shows "ring n' p' h xs"
proof -
  have "linked n' p' (h # xs @ [h])"
    by (rule linked_cong [of n p]) (use assms in \<open>auto simp: ring_def butlast_append\<close>)
  then show ?thesis using assms by (simp add: ring_def)
qed

lemma ring_Nil: "ring n p h [] \<longleftrightarrow> n h = h \<and> p h = h"
  by (auto simp: ring_def)

lemma ring_next: "ring n p h xs \<Longrightarrow> n h = hd (xs @ [h])"
  by (cases xs) (auto simp: ring_def)

lemma linked_snoc_prev: "linked n p (h # xs @ [b]) \<Longrightarrow> p b = last (h # xs)"
proof (induction xs arbitrary: h)
  case (Cons x xs)
  then have "linked n p (x # xs @ [b])" by simp
  from Cons.IH [OF this] show ?case by simp
qed simp

lemma ring_prev: "ring n p h xs \<Longrightarrow> p h = last (h # xs)"
  unfolding ring_def by (blast dest: linked_snoc_prev)

text \<open>Rings are determined by the next links.\<close>

lemma linked_unique:
  "linked n p (a # xs @ [h]) \<Longrightarrow> linked n p' (a # ys @ [h]) \<Longrightarrow> h \<notin> set xs \<Longrightarrow> h \<notin> set ys \<Longrightarrow> xs = ys"
proof (induction xs arbitrary: a ys)
  case Nil
  then show ?case by (cases ys) auto
next
  case (Cons x xs)
  then obtain y zs where ys: "ys = y # zs" by (cases ys) auto
  with Cons.prems have "x = y" "linked n p (x # xs @ [h])" "linked n p' (x # zs @ [h])" by auto
  with Cons ys show ?case by auto
qed

lemma ring_unique: "ring n p h xs \<Longrightarrow> ring n p h ys \<Longrightarrow> xs = ys"
  by (auto simp: ring_def dest: linked_unique)

text \<open>One insertion: between the neighbours \<open>a\<close> and \<open>n a\<close>.\<close>

lemma ring_insert:
  assumes r: "ring n p h xs" and hx: "h # xs = us @ a # vs" and x: "x \<notin> insert h (set xs)"
    and n': "n' = n(x := hd (vs @ [h]), a := x)" and p': "p' = p(hd (vs @ [h]) := x, x := a)"
  shows "ring n' p' h (tl (us @ a # x # vs))"
proof -
  let ?b = "hd (vs @ [h])"
  have d: "distinct (us @ a # vs)" and l: "linked n p (us @ a # vs @ [h])"
    using r hx unfolding ring_def by (metis append.assoc append_Cons)+
  have xn: "x \<notin> set (us @ a # vs)" using x hx by (metis list.simps(15))
  have h: "h = hd (us @ [a])" using hx by (cases us) auto
  have l1: "linked n p (us @ [a])" and l2: "linked n p (a # vs @ [h])"
    using l linked_append by metis+
  have bl: "set (butlast (us @ [a])) = set us" by simp
  have "linked n' p' (us @ [a])"
  proof (rule linked_cong [OF l1])
    show "n' c = n c" if "c \<in> set (butlast (us @ [a]))" for c using that d xn by (auto simp: n')
    show "p' c = p c" if c: "c \<in> set (tl (us @ [a]))" for c
    proof -
      have "c \<in> set (us @ [a])" using c by (cases us) auto
      moreover have "c \<noteq> h"
      proof
        assume "c = h"
        with c h have "\<not> distinct (us @ [a])" by (cases us) auto
        with d show False by auto
      qed
      ultimately show ?thesis using d xn by (cases vs) (auto simp: p')
    qed
  qed
  moreover have "linked n' p' (a # x # vs @ [h])"
  proof (cases vs)
    case Nil
    have "h \<noteq> x" using x by auto
    then show ?thesis using Nil xn by (auto simp: n' p')
  next
    case (Cons b ws)
    have hn: "h \<notin> set vs" using h d by (cases us) auto
    from l2 Cons have l3: "linked n p (b # ws @ [h])" by simp
    have "linked n' p' (b # ws @ [h])"
    proof (rule linked_cong [OF l3])
      show "n' c = n c" if "c \<in> set (butlast (b # ws @ [h]))" for c
        using that d xn Cons by (auto simp: n' butlast_append split: if_splits)
      show "p' c = p c" if "c \<in> set (tl (b # ws @ [h]))" for c
        using that d xn Cons hn x by (auto simp: p')
    qed
    moreover have "a \<noteq> x" "b \<noteq> x" "a \<noteq> b" using xn d Cons by auto
    ultimately show ?thesis using Cons by (simp add: n' p')
  qed
  ultimately have "linked n' p' ((us @ a # x # vs) @ [h])"
    using linked_append [of n' p' us a "x # vs @ [h]"] by simp
  moreover have "us @ a # x # vs = h # tl (us @ a # x # vs)" using h by (cases us) auto
  moreover have "distinct (us @ a # x # vs)" using d xn by auto
  ultimately show ?thesis unfolding ring_def by (metis append_Cons)
qed

text \<open>One bypass: the element \<open>x\<close> is skipped in both directions.\<close>

lemma ring_bypass:
  assumes r: "ring n p h (us @ x # vs)"
    and n': "n' = n(last (h # us) := hd (vs @ [h]))" and p': "p' = p(hd (vs @ [h]) := last (h # us))"
  shows "ring n' p' h (us @ vs)"
proof -
  let ?a = "last (h # us)" and ?b = "hd (vs @ [h])"
  have d: "distinct (h # us @ x # vs)" and l: "linked n p ((h # us) @ x # vs @ [h])"
    using r by (simp_all add: ring_def)
  have l1: "linked n p ((h # us) @ [x])" and l2: "linked n p (x # vs @ [h])"
    using l linked_append by metis+
  have spl: "h # us = butlast (h # us) @ [?a]" by simp
  have l1': "linked n p (h # us)"
    using l1 linked_append [of n p "butlast (h # us)" ?a "[x]"] spl by (metis append.assoc append_Cons append_Nil)
  have l2': "linked n p (vs @ [h])" using l2 by (cases vs) auto
  have "linked n' p' (h # us)"
  proof (rule linked_cong [OF l1'])
    show "n' c = n c" if c: "c \<in> set (butlast (h # us))" for c
    proof -
      have "distinct (butlast (h # us) @ [?a])" using d by (metis distinct_append append_Cons spl)
      then have "c \<noteq> ?a" using c by auto
      then show ?thesis by (simp add: n')
    qed
    show "p' c = p c" if "c \<in> set (tl (h # us))" for c using that d by (cases vs) (auto simp: p')
  qed
  moreover have "linked n' p' (vs @ [h])"
  proof (rule linked_cong [OF l2'])
    show "n' c = n c" if "c \<in> set (butlast (vs @ [h]))" for c
    proof -
      have c: "c \<in> set vs" using that by simp
      have a: "?a \<in> set (h # us)" by (rule last_in_set) simp
      have "set (h # us) \<inter> set vs = {}" using d by auto
      then have "c \<noteq> ?a" using a c by blast
      then show ?thesis by (simp add: n')
    qed
    show "p' c = p c" if "c \<in> set (tl (vs @ [h]))" for c using that d by (cases vs) (auto simp: p')
  qed
  moreover have "n' ?a = ?b" "p' ?b = ?a" by (simp_all add: n' p')
  ultimately have "linked n' p' (h # us @ vs @ [h])"
    using linked_join [of n' p' "butlast (h # us)" ?a ?b "tl (vs @ [h])"] spl
    by (metis append_Cons append.assoc append_Nil hd_Cons_tl snoc_eq_iff_butlast)
  then show ?thesis using d by (simp add: ring_def)
qed

section \<open>The interface\<close>

text \<open>
  \<open>insert_between x a b s\<close> is the \<open>__LIST_ADD\<close> of the three headers and \<open>bypass a b s\<close> their
  \<open>__LIST_DEL\<close>; \<open>valid s x\<close> says that \<open>x\<close> is an element whose link fields can be written.
\<close>

locale cdll =
  fixes nxt :: "'s \<Rightarrow> 'k \<Rightarrow> 'k" and prv :: "'s \<Rightarrow> 'k \<Rightarrow> 'k" and valid :: "'s \<Rightarrow> 'k \<Rightarrow> bool"
    and insert_between :: "'k \<Rightarrow> 'k \<Rightarrow> 'k \<Rightarrow> 's \<Rightarrow> 's" and bypass :: "'k \<Rightarrow> 'k \<Rightarrow> 's \<Rightarrow> 's"
  assumes nxt_insert: "valid s x \<Longrightarrow> valid s a \<Longrightarrow> valid s b \<Longrightarrow> x \<noteq> a \<Longrightarrow>
      nxt (insert_between x a b s) = (nxt s)(x := b, a := x)"
    and prv_insert: "valid s x \<Longrightarrow> valid s a \<Longrightarrow> valid s b \<Longrightarrow> x \<noteq> b \<Longrightarrow>
      prv (insert_between x a b s) = (prv s)(b := x, x := a)"
    and nxt_bypass: "valid s a \<Longrightarrow> valid s b \<Longrightarrow> nxt (bypass a b s) = (nxt s)(a := b)"
    and prv_bypass: "valid s a \<Longrightarrow> valid s b \<Longrightarrow> prv (bypass a b s) = (prv s)(b := a)"
    and valid_insert: "valid s x \<Longrightarrow> valid s a \<Longrightarrow> valid s b \<Longrightarrow> valid (insert_between x a b s) y = valid s y"
    and valid_bypass: "valid s a \<Longrightarrow> valid s b \<Longrightarrow> valid (bypass a b s) y = valid s y"
begin

abbreviation lst :: "'s \<Rightarrow> 'k \<Rightarrow> 'k list \<Rightarrow> bool" where
  "lst s h xs \<equiv> ring (nxt s) (prv s) h xs"

abbreviation all_valid :: "'s \<Rightarrow> 'k \<Rightarrow> 'k list \<Rightarrow> bool" where
  "all_valid s h xs \<equiv> (\<forall>a\<in>insert h (set xs). valid s a)"

lemma add_front:
  assumes r: "lst s h xs" and v: "all_valid s h xs" "valid s x" and x: "x \<notin> insert h (set xs)"
  shows "lst (insert_between x h (nxt s h) s) h (x # xs)"
proof -
  have b: "nxt s h = hd (xs @ [h])" by (rule ring_next [OF r])
  then have vb: "valid s (nxt s h)" "x \<noteq> nxt s h" using v x by (cases xs; auto)+
  have "nxt (insert_between x h (nxt s h) s) = (nxt s)(x := hd (xs @ [h]), h := x)"
    using nxt_insert [of s x h "nxt s h"] v vb x b by auto
  moreover have "prv (insert_between x h (nxt s h) s) = (prv s)(hd (xs @ [h]) := x, x := h)"
    using prv_insert [of s x h "nxt s h"] v vb x b by auto
  ultimately show ?thesis using ring_insert [OF r, of "[]" h xs x] x by simp
qed

lemma add_back:
  assumes r: "lst s h xs" and v: "all_valid s h xs" "valid s x" and x: "x \<notin> insert h (set xs)"
  shows "lst (insert_between x (prv s h) h s) h (xs @ [x])"
proof -
  have a: "prv s h = last (h # xs)" by (rule ring_prev [OF r])
  then have va: "prv s h \<in> insert h (set xs)" by (cases xs rule: rev_cases) auto
  have spl: "h # xs = butlast (h # xs) @ prv s h # []" using a by simp
  have t: "tl (butlast (h # xs) @ prv s h # x # []) = xs @ [x]"
    using spl by (metis append.assoc append_Cons append_Nil list.sel(3))
  have "nxt (insert_between x (prv s h) h s) = (nxt s)(x := hd ([] @ [h]), prv s h := x)"
    using nxt_insert [of s x "prv s h" h] v va x by auto
  moreover have "prv (insert_between x (prv s h) h s) = (prv s)(hd ([] @ [h]) := x, x := prv s h)"
    using prv_insert [of s x "prv s h" h] v va x by auto
  ultimately show ?thesis using ring_insert [OF r spl x] t by simp
qed

lemma remove:
  assumes r: "lst s h (us @ x # vs)" and v: "all_valid s h (us @ x # vs)"
  shows "lst (bypass (prv s x) (nxt s x) s) h (us @ vs)"
proof -
  have l: "linked (nxt s) (prv s) ((h # us) @ x # vs @ [h])" using r by (simp add: ring_def)
  then have "linked (nxt s) (prv s) ((h # us) @ [x])" "linked (nxt s) (prv s) (x # vs @ [h])"
    using linked_append by metis+
  then have p: "prv s x = last (h # us)" and n: "nxt s x = hd (vs @ [h])"
    using linked_snoc_prev [of "nxt s" "prv s" h us x] by (cases vs; auto)+
  have "last (h # us) \<in> set (h # us)" by (rule last_in_set) simp
  then have vp: "valid s (prv s x)" using v p by auto
  have vn: "valid s (nxt s x)" using v n by (cases vs) auto
  show ?thesis
    by (rule ring_bypass [OF r]) (use nxt_bypass [OF vp vn] prv_bypass [OF vp vn] p n in simp_all)
qed

text \<open>A ring that shares no element with the neighbours touched is left as it is.\<close>

lemma insert_frame:
  assumes "lst s h' ys" "valid s x" "valid s a" "valid s b" "x \<noteq> a" "x \<noteq> b"
    "{x, a, b} \<inter> insert h' (set ys) = {}"
  shows "lst (insert_between x a b s) h' ys"
  by (rule ring_cong [OF assms(1)]) (use assms nxt_insert prv_insert in auto)

lemma bypass_frame:
  assumes "lst s h' ys" "valid s a" "valid s b" "{a, b} \<inter> insert h' (set ys) = {}"
  shows "lst (bypass a b s) h' ys"
  by (rule ring_cong [OF assms(1)]) (use assms nxt_bypass prv_bypass in auto)

text \<open>The neighbours of an element of a ring belong to the ring.\<close>

lemma neighbours:
  assumes "lst s h xs" "x \<in> insert h (set xs)"
  shows "nxt s x \<in> insert h (set xs)" and "prv s x \<in> insert h (set xs)"
proof -
  show "nxt s x \<in> insert h (set xs)"
  proof (cases "x = h")
    case True
    with ring_next [OF assms(1)] show ?thesis by (cases xs) auto
  next
    case False
    with assms(2) obtain us vs where xs: "xs = us @ x # vs" by (auto simp: in_set_conv_decomp)
    have "linked (nxt s) (prv s) ((h # us) @ x # vs @ [h])" using assms(1) xs by (simp add: ring_def)
    then have "linked (nxt s) (prv s) (x # vs @ [h])" using linked_append by metis
    then show ?thesis using xs by (cases vs) auto
  qed
  show "prv s x \<in> insert h (set xs)"
  proof (cases "x = h")
    case True
    with ring_prev [OF assms(1)] show ?thesis by (cases xs rule: rev_cases) auto
  next
    case False
    with assms(2) obtain us vs where xs: "xs = us @ x # vs" by (auto simp: in_set_conv_decomp)
    have "linked (nxt s) (prv s) ((h # us) @ x # vs @ [h])" using assms(1) xs by (simp add: ring_def)
    then have "linked (nxt s) (prv s) ((h # us) @ [x])" using linked_append by metis
    then have "linked (nxt s) (prv s) (h # us @ [x])" by simp
    from linked_snoc_prev [OF this] have "prv s x = last (h # us)" .
    moreover have "last (h # us) \<in> set (h # us)" by (rule last_in_set) simp
    ultimately show ?thesis using xs by auto
  qed
qed

end

end
