(* ===== verification/Node_Lists.thy ===== *)
theory Node_Lists
  imports Node_Store Cdll
begin

text \<open>
  The two kinds of lists of the node store as instances of the interface \<open>cdll\<close>: the lists of
  node groups, whose elements are handles, and the LRU lists, whose elements are node ids that
  are resolved through the node index.
\<close>

section \<open>Lists of node groups\<close>

definition ng_valid :: "node_store \<Rightarrow> handle \<Rightarrow> bool" where
  "ng_valid st h \<longleftrightarrow> h \<noteq> INVALID_HANDLE \<and> h < memSize (bm st)"

abbreviation ng_next :: "node_store \<Rightarrow> handle \<Rightarrow> handle" where
  "ng_next st h \<equiv> nl_next (m_links st h)"

abbreviation ng_prev :: "node_store \<Rightarrow> handle \<Rightarrow> handle" where
  "ng_prev st h \<equiv> nl_prev (m_links st h)"

lemma M_HANDLE_valid: "ng_valid st h \<Longrightarrow> M_HANDLE st h = h"
  by (simp add: M_HANDLE_def ng_valid_def Ptr2Handle_def)

lemma set_nl_simps:
  "ng_valid st h \<Longrightarrow> set_nl_prev h v st = Some (st\<lparr>m_links := (m_links st)(h := (m_links st h)\<lparr>nl_prev := v\<rparr>)\<rparr>)"
  "ng_valid st h \<Longrightarrow> set_nl_next h v st = Some (st\<lparr>m_links := (m_links st)(h := (m_links st h)\<lparr>nl_next := v\<rparr>)\<rparr>)"
  by (simp_all add: set_nl_prev_def set_nl_next_def ng_valid_def)

lemma ng_valid_links [simp]: "ng_valid (st\<lparr>m_links := l\<rparr>) h = ng_valid st h"
  by (simp add: ng_valid_def)

definition link_add :: "handle \<Rightarrow> handle \<Rightarrow> handle \<Rightarrow> node_store \<Rightarrow> node_store" where
  "link_add x a b st = the (NG_LIST_ADD_between x a b st)"

definition link_del :: "handle \<Rightarrow> handle \<Rightarrow> node_store \<Rightarrow> node_store" where
  "link_del a b st = the (NG_LIST_DEL_between a b st)"

lemma NG_LIST_ADD_between_Some:
  assumes "ng_valid st x" "ng_valid st a" "ng_valid st b"
  shows "NG_LIST_ADD_between x a b st = Some (link_add x a b st)"
    and "\<exists>l. link_add x a b st = st\<lparr>m_links := l\<rparr>"
  using assms by (auto simp: link_add_def NG_LIST_ADD_between_def M_HANDLE_valid set_nl_simps)

lemma NG_LIST_DEL_between_Some:
  assumes "ng_valid st a" "ng_valid st b"
  shows "NG_LIST_DEL_between a b st = Some (link_del a b st)" and "\<exists>l. link_del a b st = st\<lparr>m_links := l\<rparr>"
  using assms by (auto simp: link_del_def NG_LIST_DEL_between_def M_HANDLE_valid set_nl_simps)

interpretation nl: cdll ng_next ng_prev ng_valid link_add link_del
proof unfold_locales
  fix st x a b y
  assume v: "ng_valid st a" "ng_valid st b"
  show "ng_next (link_del a b st) = (ng_next st)(a := b)" "ng_prev (link_del a b st) = (ng_prev st)(b := a)"
    "ng_valid (link_del a b st) y = ng_valid st y"
    using v by (auto simp: link_del_def NG_LIST_DEL_between_def M_HANDLE_valid set_nl_simps)
  assume "ng_valid st x"
  note v = v this
  show "ng_next (link_add x a b st) = (ng_next st)(x := b, a := x)" if "x \<noteq> a"
    using v that by (auto simp: link_add_def NG_LIST_ADD_between_def M_HANDLE_valid set_nl_simps)
  show "ng_prev (link_add x a b st) = (ng_prev st)(b := x, x := a)" if "x \<noteq> b"
    using v that by (auto simp: link_add_def NG_LIST_ADD_between_def M_HANDLE_valid set_nl_simps)
  show "ng_valid (link_add x a b st) y = ng_valid st y"
    using v by (auto simp: link_add_def NG_LIST_ADD_between_def M_HANDLE_valid set_nl_simps)
qed

section \<open>LRU lists\<close>

definition lru_valid :: "node_store \<Rightarrow> nat \<Rightarrow> bool" where
  "lru_valid st i \<longleftrightarrow> c_owner (I_SEARCH st i) \<noteq> INVALID_HANDLE \<and> NodeID st (I_SEARCH st i) = i"

definition lru_next :: "node_store \<Rightarrow> nat \<Rightarrow> nat" where
  "lru_next st i = (if lru_valid st i
     then at_lru_next (m_ng st (c_owner (I_SEARCH st i))) (c_index (I_SEARCH st i)) else INVALID_NODE_ID)"

definition lru_prev :: "node_store \<Rightarrow> nat \<Rightarrow> nat" where
  "lru_prev st i = (if lru_valid st i
     then at_lru_prev (m_ng st (c_owner (I_SEARCH st i))) (c_index (I_SEARCH st i)) else INVALID_NODE_ID)"

text \<open>A node that the index finds under its own id.\<close>

definition indexed :: "node_store \<Rightarrow> CNode \<Rightarrow> bool" where
  "indexed st n \<longleftrightarrow> c_owner n \<noteq> INVALID_HANDLE \<and> I_SEARCH st (NodeID st n) = n"

lemma indexed_valid: "indexed st n \<Longrightarrow> lru_valid st (NodeID st n)"
  by (simp add: indexed_def lru_valid_def)

lemma valid_indexed: "lru_valid st i \<Longrightarrow> indexed st (I_SEARCH st i)"
  by (simp add: indexed_def lru_valid_def)

text \<open>Updates of a group that keep its first id do not change what the index finds.\<close>

lemma upd_ng_search:
  assumes "\<And>g. ng_nid (f g) = ng_nid g"
  shows "I_SEARCH (upd_ng h f st) i = I_SEARCH st i" and "NodeID (upd_ng h f st) n = NodeID st n"
    and "lru_valid (upd_ng h f st) i = lru_valid st i" and "indexed (upd_ng h f st) n = indexed st n"
proof -
  show s: "I_SEARCH (upd_ng h f st) i = I_SEARCH st i" for i
    using assms by (simp add: I_SEARCH_def upd_ng_def Let_def)
  show "NodeID (upd_ng h f st) n = NodeID st n" for n
    using assms by (simp add: NodeID_def ng_NodeID_def upd_ng_def)
  with s show "lru_valid (upd_ng h f st) i = lru_valid st i" and "indexed (upd_ng h f st) n = indexed st n"
    by (simp_all add: lru_valid_def indexed_def)
qed

abbreviation upd_lnext :: "nat \<Rightarrow> nat \<Rightarrow> node_group \<Rightarrow> node_group" where
  "upd_lnext i v \<equiv> (\<lambda>g. g\<lparr>at_lru_next := (at_lru_next g)(i := v)\<rparr>)"

abbreviation upd_lprev :: "nat \<Rightarrow> nat \<Rightarrow> node_group \<Rightarrow> node_group" where
  "upd_lprev i v \<equiv> (\<lambda>g. g\<lparr>at_lru_prev := (at_lru_prev g)(i := v)\<rparr>)"

lemma lru_upd:
  assumes "indexed st n"
  shows "lru_next (upd_ng (c_owner n) (upd_lnext (c_index n) v) st) = (lru_next st)(NodeID st n := v)"
    and "lru_prev (upd_ng (c_owner n) (upd_lnext (c_index n) v) st) = lru_prev st"
    and "lru_prev (upd_ng (c_owner n) (upd_lprev (c_index n) v) st) = (lru_prev st)(NodeID st n := v)"
    and "lru_next (upd_ng (c_owner n) (upd_lprev (c_index n) v) st) = lru_next st"
proof -
  have key: "c_owner (I_SEARCH st i) = c_owner n \<and> c_index (I_SEARCH st i) = c_index n \<longleftrightarrow> i = NodeID st n"
    if "lru_valid st i" for i
  proof
    assume "c_owner (I_SEARCH st i) = c_owner n \<and> c_index (I_SEARCH st i) = c_index n"
    then have "I_SEARCH st i = n" by (cases "I_SEARCH st i"; cases n) simp
    then show "i = NodeID st n" using that by (auto simp: lru_valid_def)
  next
    assume "i = NodeID st n"
    then show "c_owner (I_SEARCH st i) = c_owner n \<and> c_index (I_SEARCH st i) = c_index n"
      using assms by (simp add: indexed_def)
  qed
  have u: "I_SEARCH (upd_ng h (upd_lnext i v) st) = I_SEARCH st" "lru_valid (upd_ng h (upd_lnext i v) st) = lru_valid st"
    "I_SEARCH (upd_ng h (upd_lprev i v) st) = I_SEARCH st" "lru_valid (upd_ng h (upd_lprev i v) st) = lru_valid st" for h i
    by (simp_all add: fun_eq_iff upd_ng_search)
  note val = indexed_valid [OF assms]
  show "lru_next (upd_ng (c_owner n) (upd_lnext (c_index n) v) st) = (lru_next st)(NodeID st n := v)"
  proof
    fix i
    show "lru_next (upd_ng (c_owner n) (upd_lnext (c_index n) v) st) i = ((lru_next st)(NodeID st n := v)) i"
    proof (cases "i = NodeID st n")
      case True
      then show ?thesis using val assms by (simp add: lru_next_def u indexed_def) (simp add: upd_ng_def)
    next
      case False
      then show ?thesis using key by (auto simp: lru_next_def u) (auto simp: upd_ng_def)
    qed
  qed
  show "lru_prev (upd_ng (c_owner n) (upd_lprev (c_index n) v) st) = (lru_prev st)(NodeID st n := v)"
  proof
    fix i
    show "lru_prev (upd_ng (c_owner n) (upd_lprev (c_index n) v) st) i = ((lru_prev st)(NodeID st n := v)) i"
    proof (cases "i = NodeID st n")
      case True
      then show ?thesis using val assms by (simp add: lru_prev_def u indexed_def) (simp add: upd_ng_def)
    next
      case False
      then show ?thesis using key by (auto simp: lru_prev_def u) (auto simp: upd_ng_def)
    qed
  qed
  show "lru_prev (upd_ng (c_owner n) (upd_lnext (c_index n) v) st) = lru_prev st"
    "lru_next (upd_ng (c_owner n) (upd_lprev (c_index n) v) st) = lru_next st"
    by (auto simp: fun_eq_iff lru_prev_def lru_next_def u) (auto simp: upd_ng_def)
qed

lemma set_Lru_simps:
  "indexed st n \<Longrightarrow> set_LruNext n v st = Some (upd_ng (c_owner n) (upd_lnext (c_index n) v) st)"
  "indexed st n \<Longrightarrow> set_LruPrev n v st = Some (upd_ng (c_owner n) (upd_lprev (c_index n) v) st)"
  by (simp_all add: set_LruNext_def set_LruPrev_def indexed_def)

definition lru_add :: "nat \<Rightarrow> nat \<Rightarrow> nat \<Rightarrow> node_store \<Rightarrow> node_store" where
  "lru_add x a b st = the (NODE_LIST_ADD_between (I_SEARCH st x) (I_SEARCH st a) (I_SEARCH st b) st)"

definition lru_del :: "nat \<Rightarrow> nat \<Rightarrow> node_store \<Rightarrow> node_store" where
  "lru_del a b st = the (NODE_LIST_DEL_between (I_SEARCH st a) (I_SEARCH st b) st)"

text \<open>
  What an operation on the LRU links may touch: the links of the groups, and neither the
  index, the allocator nor the manager.
\<close>

definition lru_frame :: "node_store \<Rightarrow> node_store \<Rightarrow> bool" where
  "lru_frame st st' \<longleftrightarrow> I_SEARCH st' = I_SEARCH st \<and> NodeID st' = NodeID st \<and> bm st' = bm st
     \<and> m_ni st' = m_ni st \<and> ngInfo st' = ngInfo st \<and> m_links st' = m_links st
     \<and> m_fi st' = m_fi st \<and> m_si st' = m_si st
     \<and> (\<forall>h. at_vd (m_ng st' h) = at_vd (m_ng st h) \<and> at_next (m_ng st' h) = at_next (m_ng st h)
            \<and> at_dirty (m_ng st' h) = at_dirty (m_ng st h))"

lemma lru_frame_refl [simp]: "lru_frame st st"
  by (simp add: lru_frame_def)

lemma lru_frame_trans: "lru_frame st st1 \<Longrightarrow> lru_frame st1 st2 \<Longrightarrow> lru_frame st st2"
  by (simp add: lru_frame_def)

lemma lru_frame_upd:
  "lru_frame st (upd_ng h (upd_lnext i v) st)" "lru_frame st (upd_ng h (upd_lprev i v) st)"
  by (simp_all add: lru_frame_def fun_eq_iff upd_ng_search) (auto simp: upd_ng_def)

lemma lru_frame_indexed: "lru_frame st st' \<Longrightarrow> indexed st' n = indexed st n"
  by (simp add: lru_frame_def indexed_def)

lemma lru_frame_valid: "lru_frame st st' \<Longrightarrow> lru_valid st' i = lru_valid st i"
  by (simp add: lru_frame_def lru_valid_def)

lemma NODE_LIST_ADD_between_spec:
  assumes i: "indexed st x" "indexed st a" "indexed st b"
  obtains st' where "NODE_LIST_ADD_between x a b st = Some st'" "lru_frame st st'"
    "NodeID st x \<noteq> NodeID st a \<longrightarrow> lru_next st' = (lru_next st)(NodeID st x := NodeID st b, NodeID st a := NodeID st x)"
    "NodeID st x \<noteq> NodeID st b \<longrightarrow> lru_prev st' = (lru_prev st)(NodeID st b := NodeID st x, NodeID st x := NodeID st a)"
proof -
  let ?s1 = "upd_ng (c_owner b) (upd_lprev (c_index b) (NodeID st x)) st"
  let ?s2 = "upd_ng (c_owner x) (upd_lnext (c_index x) (NodeID st b)) ?s1"
  let ?s3 = "upd_ng (c_owner x) (upd_lprev (c_index x) (NodeID st a)) ?s2"
  let ?s4 = "upd_ng (c_owner a) (upd_lnext (c_index a) (NodeID st x)) ?s3"
  have ix: "indexed ?s1 n = indexed st n" "indexed ?s2 n = indexed st n" "indexed ?s3 n = indexed st n" for n
    by (simp_all add: upd_ng_search)
  have id: "NodeID ?s1 n = NodeID st n" "NodeID ?s2 n = NodeID st n" "NodeID ?s3 n = NodeID st n" for n
    by (simp_all add: upd_ng_search)
  have "NODE_LIST_ADD_between x a b st = Some ?s4"
    using i ix id by (simp add: NODE_LIST_ADD_between_def set_Lru_simps)
  moreover have "lru_frame st ?s4"
    by (rule lru_frame_trans [OF _ lru_frame_upd(1)], rule lru_frame_trans [OF _ lru_frame_upd(2)],
        rule lru_frame_trans [OF lru_frame_upd(2) lru_frame_upd(1)])
  moreover have "lru_next ?s4 = (lru_next st)(NodeID st x := NodeID st b, NodeID st a := NodeID st x)"
    using i ix id by (simp add: lru_upd)
  moreover have "lru_prev ?s4 = (lru_prev st)(NodeID st b := NodeID st x, NodeID st x := NodeID st a)"
    using i ix id by (simp add: lru_upd)
  ultimately show ?thesis using that by blast
qed

lemma NODE_LIST_DEL_between_spec:
  assumes i: "indexed st a" "indexed st b"
  obtains st' where "NODE_LIST_DEL_between a b st = Some st'" "lru_frame st st'"
    "lru_next st' = (lru_next st)(NodeID st a := NodeID st b)"
    "lru_prev st' = (lru_prev st)(NodeID st b := NodeID st a)"
proof -
  let ?s1 = "upd_ng (c_owner b) (upd_lprev (c_index b) (NodeID st a)) st"
  let ?s2 = "upd_ng (c_owner a) (upd_lnext (c_index a) (NodeID st b)) ?s1"
  have ix: "indexed ?s1 n = indexed st n" and id: "NodeID ?s1 n = NodeID st n" for n
    by (simp_all add: upd_ng_search)
  have "NODE_LIST_DEL_between a b st = Some ?s2"
    using i ix id by (simp add: NODE_LIST_DEL_between_def set_Lru_simps)
  moreover have "lru_frame st ?s2" by (rule lru_frame_trans [OF lru_frame_upd(2) lru_frame_upd(1)])
  moreover have "lru_next ?s2 = (lru_next st)(NodeID st a := NodeID st b)"
    "lru_prev ?s2 = (lru_prev st)(NodeID st b := NodeID st a)"
    using i ix id by (simp_all add: lru_upd)
  ultimately show ?thesis using that by blast
qed

lemma lru_add_spec:
  assumes "lru_valid st x" "lru_valid st a" "lru_valid st b"
  shows "lru_frame st (lru_add x a b st)"
    "x \<noteq> a \<Longrightarrow> lru_next (lru_add x a b st) = (lru_next st)(x := b, a := x)"
    "x \<noteq> b \<Longrightarrow> lru_prev (lru_add x a b st) = (lru_prev st)(b := x, x := a)"
    "NODE_LIST_ADD_between (I_SEARCH st x) (I_SEARCH st a) (I_SEARCH st b) st = Some (lru_add x a b st)"
  by (rule NODE_LIST_ADD_between_spec [OF assms [THEN valid_indexed]];
      use assms in \<open>simp add: lru_add_def lru_valid_def\<close>)+

lemma lru_del_spec:
  assumes "lru_valid st a" "lru_valid st b"
  shows "lru_frame st (lru_del a b st)"
    "lru_next (lru_del a b st) = (lru_next st)(a := b)" "lru_prev (lru_del a b st) = (lru_prev st)(b := a)"
    "NODE_LIST_DEL_between (I_SEARCH st a) (I_SEARCH st b) st = Some (lru_del a b st)"
  by (rule NODE_LIST_DEL_between_spec [OF assms [THEN valid_indexed]];
      use assms in \<open>simp add: lru_del_def lru_valid_def\<close>)+

interpretation lru: cdll lru_next lru_prev lru_valid lru_add lru_del
  by unfold_locales (simp_all add: lru_add_spec lru_del_spec lru_frame_valid [OF lru_add_spec(1)]
      lru_frame_valid [OF lru_del_spec(1)])

text \<open>\<open>lru_list st n xs\<close>: the LRU list with head node \<open>n\<close> holds the ids \<open>xs\<close>, all of them indexed.\<close>

definition lru_list :: "node_store \<Rightarrow> CNode \<Rightarrow> nat list \<Rightarrow> bool" where
  "lru_list st n xs \<longleftrightarrow> indexed st n \<and> (\<forall>i\<in>set xs. lru_valid st i)
     \<and> ring (lru_next st) (lru_prev st) (NodeID st n) xs"

lemma lru_list_valid: "lru_list st n xs \<Longrightarrow> i \<in> insert (NodeID st n) (set xs) \<Longrightarrow> lru_valid st i"
  using indexed_valid by (auto simp: lru_list_def)

lemma indexed_Next:
  assumes "indexed st n"
  shows "LruNext st n = Some (lru_next st (NodeID st n))" "LruPrev st n = Some (lru_prev st (NodeID st n))"
  using assms indexed_valid [OF assms] by (simp_all add: LruNext_def LruPrev_def lru_next_def lru_prev_def indexed_def)

lemma lru_list_add:
  assumes l: "lru_list st h xs" and n: "indexed st n" "NodeID st n \<notin> insert (NodeID st h) (set xs)"
  obtains st' where "NODE_LIST_ADD n h st = Some st'" "lru_list st' h (NodeID st n # xs)" "lru_frame st st'"
    "\<And>h' ys. lru_list st h' ys \<Longrightarrow> insert (NodeID st h') (set ys) \<inter> insert (NodeID st n) (insert (NodeID st h) (set xs)) = {}
       \<Longrightarrow> lru_list st' h' ys"
proof -
  let ?x = "NodeID st n" and ?a = "NodeID st h"
  let ?b = "lru_next st ?a"
  have r: "ring (lru_next st) (lru_prev st) ?a xs" and ih: "indexed st h" using l by (simp_all add: lru_list_def)
  have b: "?b \<in> insert ?a (set xs)" using lru.neighbours(1) [OF r] by blast
  have v: "lru_valid st ?x" "lru_valid st ?a" "lru_valid st ?b"
    using lru_list_valid [OF l] b indexed_valid [OF n(1)] by auto
  have s: "I_SEARCH st ?x = n" "I_SEARCH st ?a = h" using n(1) ih by (auto simp: indexed_def)
  let ?s = "lru_add ?x ?a ?b st"
  have "NODE_LIST_ADD n h st = Some ?s"
    using lru_add_spec(4) [OF v] s indexed_Next(1) [OF ih] by (simp add: NODE_LIST_ADD_def node_Next_def)
  moreover note f = lru_add_spec(1) [OF v]
  moreover have nid: "NodeID ?s = NodeID st" using f by (simp add: lru_frame_def)
  moreover have "ring (lru_next ?s) (lru_prev ?s) ?a (?x # xs)"
    by (rule lru.add_front [OF r]) (use lru_list_valid [OF l] v n(2) in auto)
  then have "lru_list ?s h (?x # xs)"
    using l v ih lru_frame_indexed [OF f] lru_frame_valid [OF f] nid by (simp add: lru_list_def)
  moreover have "lru_list ?s h' ys"
    if l': "lru_list st h' ys" and d: "insert (NodeID st h') (set ys) \<inter> insert ?x (insert ?a (set xs)) = {}" for h' ys
  proof -
    have "ring (lru_next ?s) (lru_prev ?s) (NodeID st h') ys"
      by (rule lru.insert_frame) (use l' d v b n(2) in \<open>auto simp: lru_list_def\<close>)
    then show ?thesis
      using l' lru_frame_indexed [OF f] lru_frame_valid [OF f] nid by (simp add: lru_list_def)
  qed
  ultimately show ?thesis using that by blast
qed

lemma lru_list_del:
  assumes l: "lru_list st h (us @ NodeID st n # vs)" and n: "indexed st n"
  obtains st' where "NODE_LIST_DEL n st = Some st'" "lru_list st' h (us @ vs)" "lru_frame st st'"
    "lru_next st' (NodeID st n) = NodeID st n" "lru_prev st' (NodeID st n) = NodeID st n"
    "\<And>h' ys. lru_list st h' ys \<Longrightarrow> insert (NodeID st h') (set ys) \<inter> insert (NodeID st h) (set (us @ NodeID st n # vs)) = {}
       \<Longrightarrow> lru_list st' h' ys"
proof -
  let ?x = "NodeID st n" and ?h = "NodeID st h" and ?L = "us @ NodeID st n # vs"
  let ?a = "lru_prev st ?x" and ?b = "lru_next st ?x"
  have r: "ring (lru_next st) (lru_prev st) ?h ?L" and ih: "indexed st h" using l by (simp_all add: lru_list_def)
  have ab: "?a \<in> insert ?h (set ?L)" "?b \<in> insert ?h (set ?L)" using lru.neighbours [OF r] by auto
  have v: "lru_valid st ?a" "lru_valid st ?b" using lru_list_valid [OF l] ab by blast+
  have xd: "?x \<notin> insert ?h (set (us @ vs))" using r by (auto simp: ring_def)
  let ?s = "lru_del ?a ?b st"
  let ?t = "upd_ng (c_owner n) (upd_lprev (c_index n) ?x) ?s"
  let ?u = "upd_ng (c_owner n) (upd_lnext (c_index n) ?x) ?t"
  note f = lru_del_spec(1) [OF v]
  have ns: "indexed ?s n" "NodeID ?s n = ?x" using lru_frame_indexed [OF f] n f by (simp_all add: lru_frame_def)
  have nt: "indexed ?t n" "NodeID ?t n = ?x" using ns by (simp_all add: upd_ng_search)
  have e: "NODE_LIST_DEL n st = Some ?u"
    using lru_del_spec(4) [OF v] indexed_Next [OF n] ns nt
    by (simp add: NODE_LIST_DEL_def node_Next_def node_Prev_def set_Lru_simps)
  have fu: "lru_frame st ?u" by (rule lru_frame_trans [OF _ lru_frame_upd(1)], rule lru_frame_trans [OF f lru_frame_upd(2)])
  have nu: "lru_next ?u = (lru_next ?s)(?x := ?x)" and pu: "lru_prev ?u = (lru_prev ?s)(?x := ?x)"
    using lru_upd [OF nt(1)] lru_upd [OF ns(1)] nt ns by simp_all
  have "ring (lru_next ?s) (lru_prev ?s) ?h (us @ vs)"
    by (rule lru.remove [OF r]) (use lru_list_valid [OF l] in blast)
  then have "ring (lru_next ?u) (lru_prev ?u) ?h (us @ vs)"
    by (rule ring_cong) (use xd nu pu in auto)
  moreover have nid: "NodeID ?u = NodeID st" using fu by (simp add: lru_frame_def)
  ultimately have "lru_list ?u h (us @ vs)"
    using l ih lru_frame_indexed [OF fu] lru_frame_valid [OF fu] by (simp add: lru_list_def)
  moreover have "lru_list ?u h' ys"
    if l': "lru_list st h' ys" and d: "insert (NodeID st h') (set ys) \<inter> insert ?h (set ?L) = {}" for h' ys
  proof -
    have "ring (lru_next ?s) (lru_prev ?s) (NodeID st h') ys"
      by (rule lru.bypass_frame) (use l' d v ab in \<open>auto simp: lru_list_def\<close>)
    then have "ring (lru_next ?u) (lru_prev ?u) (NodeID st h') ys"
      by (rule ring_cong) (use d nu pu in auto)
    then show ?thesis
      using l' lru_frame_indexed [OF fu] lru_frame_valid [OF fu] nid by (simp add: lru_list_def)
  qed
  ultimately show ?thesis using that e fu nu pu by simp
qed

end
