(* ===== verification/Node_Store_Inv.thy ===== *)
theory Node_Store_Inv
  imports Node_Lists Bin_Malloc_Props
begin

text \<open>
  The invariant of the node store and its preservation by \<open>CNGInfo::AllocateNode\<close> and
  \<open>CNGInfo::ReleaseNode\<close>: the free and the full list partition the groups by whether they have
  a node left, ids of groups are distinct multiples of 256, and the index finds every group
  that has a node in use.
\<close>

section \<open>List operations on the groups\<close>

lemma NG_LIST_ADD_spec:
  assumes r: "ring (ng_next st) (ng_prev st) head xs" and v: "\<forall>a\<in>insert head (set xs). ng_valid st a"
    and h: "ng_valid st h" "h \<notin> insert head (set xs)"
  obtains l where "NG_LIST_ADD h head st = Some (st\<lparr>m_links := l\<rparr>)"
    "ring (\<lambda>a. nl_next (l a)) (\<lambda>a. nl_prev (l a)) head (h # xs)"
    "\<And>a. a \<notin> insert h (insert head (set xs)) \<Longrightarrow> l a = m_links st a"
proof -
  let ?b = "ng_next st head"
  have b: "?b \<in> insert head (set xs)" using nl.neighbours(1) [OF r] by blast
  have vb: "ng_valid st head" "ng_valid st ?b" using v b by blast+
  obtain l where l: "link_add h head ?b st = st\<lparr>m_links := l\<rparr>"
    using NG_LIST_ADD_between_Some(2) [OF h(1) vb] by blast
  have "NG_LIST_ADD h head st = Some (st\<lparr>m_links := l\<rparr>)"
    using NG_LIST_ADD_between_Some(1) [OF h(1) vb] vb l by (simp add: NG_LIST_ADD_def non_null_def ng_valid_def)
  moreover have "ring (\<lambda>a. nl_next (l a)) (\<lambda>a. nl_prev (l a)) head (h # xs)"
    using nl.add_front [OF r v h] l by simp
  moreover have "l a = m_links st a" if "a \<notin> insert h (insert head (set xs))" for a
  proof -
    have ab: "a \<noteq> h" "a \<noteq> head" "a \<noteq> ?b" using that b by auto
    have "(\<lambda>a. nl_next (l a)) = (ng_next st)(h := ?b, head := h)" "(\<lambda>a. nl_prev (l a)) = (ng_prev st)(?b := h, h := head)"
      using nl.nxt_insert [OF h(1) vb] nl.prv_insert [OF h(1) vb] l h(2) b by auto
    then have "nl_next (l a) = ng_next st a" "nl_prev (l a) = ng_prev st a" using ab by (metis fun_upd_apply)+
    then show ?thesis by (cases "l a"; cases "m_links st a") simp
  qed
  ultimately show ?thesis using that by blast
qed

lemma NG_LIST_DEL_spec:
  assumes r: "ring (ng_next st) (ng_prev st) head (us @ h # vs)"
    and v: "\<forall>a\<in>insert head (set (us @ h # vs)). ng_valid st a"
  obtains l where "NG_LIST_DEL h st = Some (st\<lparr>m_links := l\<rparr>)"
    "ring (\<lambda>a. nl_next (l a)) (\<lambda>a. nl_prev (l a)) head (us @ vs)"
    "\<And>a. a \<notin> insert head (set (us @ h # vs)) \<Longrightarrow> l a = m_links st a"
proof -
  let ?a = "ng_prev st h" and ?b = "ng_next st h"
  have ab: "?a \<in> insert head (set (us @ h # vs))" "?b \<in> insert head (set (us @ h # vs))"
    using nl.neighbours [OF r, of h] by auto
  have va: "ng_valid st ?a" "ng_valid st ?b" "ng_valid st h" using v ab by (blast, blast, simp)
  obtain l where l: "link_del ?a ?b st = st\<lparr>m_links := l\<rparr>"
    using NG_LIST_DEL_between_Some(2) [OF va(1,2)] by blast
  let ?l = "l(h := \<lparr>nl_prev = INVALID_HANDLE, nl_next = INVALID_HANDLE\<rparr>)"
  have "NG_LIST_DEL h st = Some (st\<lparr>m_links := ?l\<rparr>)"
    using NG_LIST_DEL_between_Some(1) [OF va(1,2)] va(3) l
    by (cases "l h") (simp add: NG_LIST_DEL_def non_null_def set_nl_simps, simp add: ng_valid_def)
  moreover have "ring (\<lambda>a. nl_next (?l a)) (\<lambda>a. nl_prev (?l a)) head (us @ vs)"
  proof (rule ring_cong)
    show "ring (\<lambda>a. nl_next (l a)) (\<lambda>a. nl_prev (l a)) head (us @ vs)"
      using nl.remove [OF r v] l by simp
    show "nl_next (?l a) = nl_next (l a) \<and> nl_prev (?l a) = nl_prev (l a)" if "a \<in> insert head (set (us @ vs))" for a
      using that r by (auto simp: ring_def)
  qed
  moreover have "?l a = m_links st a" if "a \<notin> insert head (set (us @ h # vs))" for a
  proof -
    have n: "a \<noteq> ?a" "a \<noteq> ?b" "a \<noteq> h" using that ab by auto
    have "(\<lambda>h. nl_next (l h)) = (ng_next st)(?a := ?b)" "(\<lambda>h. nl_prev (l h)) = (ng_prev st)(?b := ?a)"
      using nl.nxt_bypass [OF va(1,2)] nl.prv_bypass [OF va(1,2)] l by simp_all
    then have "nl_next (l a) = ng_next st a" "nl_prev (l a) = ng_prev st a"
      using n by (metis fun_upd_apply)+
    then show ?thesis using n by (cases "l a"; cases "m_links st a") simp
  qed
  ultimately show ?thesis using that by blast
qed

section \<open>Ids and the index\<close>

lemma OFFSET1_div: "OFFSET1 i = i div 2 ^ 24"
  by (simp add: OFFSET1_def drop_bit_eq_div)

lemma OFFSET2_div: "OFFSET2 i = (i div 256) mod 65536"
proof -
  have "OFFSET2 i = and (drop_bit 8 i) (drop_bit 8 0xFFFF00)" by (simp add: OFFSET2_def)
  also have "drop_bit 8 0xFFFF00 = (mask 16 :: nat)" by (simp add: mask_eq_exp_minus_1 drop_bit_eq_div)
  also have "and (drop_bit 8 i) (mask 16) = take_bit 16 (drop_bit 8 i)" by (simp add: take_bit_eq_mask)
  finally show ?thesis by (simp add: take_bit_eq_mod drop_bit_eq_div)
qed

lemma OFFSET_group:
  assumes "256 dvd b" "i < 256"
  shows "OFFSET1 (b + i) = OFFSET1 b" "OFFSET2 (b + i) = OFFSET2 b"
proof -
  have d: "(b + i) div 256 = b div 256" using assms by (auto elim!: dvdE)
  then show "OFFSET2 (b + i) = OFFSET2 b" by (simp add: OFFSET2_div)
  have "x div 2 ^ 24 = x div 256 div 65536" for x :: nat by (simp flip: div_mult2_eq)
  with d show "OFFSET1 (b + i) = OFFSET1 b" by (simp only: OFFSET1_div)
qed

lemma OFFSET_inj:
  assumes "256 dvd b" "256 dvd c" "OFFSET1 b = OFFSET1 c" "OFFSET2 b = OFFSET2 c"
  shows "b = c"
proof -
  have "x div 2 ^ 24 = x div 256 div 65536" for x :: nat by (simp flip: div_mult2_eq)
  with assms(3,4) have "b div 256 div 65536 = c div 256 div 65536" "b div 256 mod 65536 = c div 256 mod 65536"
    by (simp_all only: OFFSET1_div OFFSET2_div)
  then have "b div 256 = c div 256" by (metis div_mult_mod_eq)
  with assms(1,2) show ?thesis by (metis dvd_mult_div_cancel)
qed

section \<open>The invariant\<close>

definition groups :: "node_store \<Rightarrow> handle list \<Rightarrow> handle list \<Rightarrow> handle set" where
  "groups st fs us = insert (ni_sys_zone (ni st)) (set fs \<union> set us)"

definition second_of :: "node_store \<Rightarrow> nat \<Rightarrow> handle" where
  "second_of st b = fi_h (m_fi st (firstIndex st)) (OFFSET1 b)"

definition group_indexed :: "node_store \<Rightarrow> handle \<Rightarrow> bool" where
  "group_indexed st h \<longleftrightarrow> second_of st (ng_nid (m_ng st h)) \<noteq> INVALID_HANDLE
     \<and> si_h (m_si st (second_of st (ng_nid (m_ng st h)))) (OFFSET2 (ng_nid (m_ng st h))) = h"

definition group_ok :: "node_store \<Rightarrow> handle \<Rightarrow> bool" where
  "group_ok st h \<longleftrightarrow> h \<in> fst ` BM_blocks (bm st) \<and> ng_inv (m_ng st h) \<and> 256 dvd ng_nid (m_ng st h)
     \<and> ng_nid (m_ng st h) + 256 \<le> ni_min_id (ni st)
     \<and> (ng_used (m_ng st h) \<noteq> {} \<longrightarrow> group_indexed st h)"

definition links_ok :: "node_store \<Rightarrow> handle list \<Rightarrow> handle list \<Rightarrow> bool" where
  "links_ok st fs us \<longleftrightarrow> ring (ng_next st) (ng_prev st) (ni_free_head st) fs
     \<and> ring (ng_next st) (ng_prev st) (ni_full_head st) us
     \<and> distinct (ni_free_head st # ni_full_head st # fs @ us)
     \<and> (\<forall>a\<in>set (ni_free_head st # ni_full_head st # fs @ us). ng_valid st a)"

definition MAX_NODE_IDS :: nat where "MAX_NODE_IDS = 2 ^ 32 - 256"

definition ns_inv :: "node_store \<Rightarrow> handle list \<Rightarrow> handle list \<Rightarrow> bool" where
  "ns_inv st fs us \<longleftrightarrow>
     BM_ok (bm st) \<and> (\<exists>k\<ge>SIZEOF_NG_INFO_T. (ngInfo st, k) \<in> BM_blocks (bm st))
     \<and> links_ok st fs us
     \<and> (\<forall>h\<in>groups st fs us. group_ok st h)
     \<and> inj_on (\<lambda>h. ng_nid (m_ng st h)) (groups st fs us) \<and> ni_sys_zone (ni st) \<notin> set fs \<union> set us
     \<and> (\<forall>h\<in>set fs. \<not> NG_IsFull (m_ng st h)) \<and> (\<forall>h\<in>set us. NG_IsFull (m_ng st h))
     \<and> firstIndex st \<noteq> INVALID_HANDLE
     \<and> inj_on (fi_h (m_fi st (firstIndex st))) {i. fi_h (m_fi st (firstIndex st)) i \<noteq> INVALID_HANDLE}
     \<and> 256 dvd ni_min_id (ni st) \<and> ni_min_id (ni st) \<le> MAX_NODE_IDS"

text \<open>The nodes that are in use, those of the reserved group apart.\<close>

definition ns_used :: "node_store \<Rightarrow> handle list \<Rightarrow> handle list \<Rightarrow> CNode set" where
  "ns_used st fs us = {n. c_owner n \<in> set fs \<union> set us \<and> c_index n \<in> ng_used (m_ng st (c_owner n))}"

lemma ns_invD:
  assumes "ns_inv st fs us"
  shows "BM_ok (bm st)" "links_ok st fs us" "firstIndex st \<noteq> INVALID_HANDLE"
    "\<And>h. h \<in> groups st fs us \<Longrightarrow> group_ok st h"
    "inj_on (\<lambda>h. ng_nid (m_ng st h)) (groups st fs us)" "ni_sys_zone (ni st) \<notin> set fs \<union> set us"
    "\<And>h. h \<in> set fs \<Longrightarrow> \<not> NG_IsFull (m_ng st h)" "\<And>h. h \<in> set us \<Longrightarrow> NG_IsFull (m_ng st h)"
    "inj_on (fi_h (m_fi st (firstIndex st))) {i. fi_h (m_fi st (firstIndex st)) i \<noteq> INVALID_HANDLE}"
    "256 dvd ni_min_id (ni st)" "ni_min_id (ni st) \<le> MAX_NODE_IDS"
  using assms by (auto simp: ns_inv_def)

lemma group_okD:
  assumes "group_ok st h"
  shows "ng_inv (m_ng st h)" "256 dvd ng_nid (m_ng st h)" "ng_nid (m_ng st h) + 256 \<le> ni_min_id (ni st)"
    "ng_used (m_ng st h) \<noteq> {} \<Longrightarrow> group_indexed st h" "h \<in> fst ` BM_blocks (bm st)"
  using assms by (auto simp: group_ok_def)

lemma block_valid:
  assumes "BM_ok (bm st)" "h \<in> fst ` BM_blocks (bm st)"
  shows "ng_valid st h" "M_HANDLE st h = h" "h \<noteq> INVALID_HANDLE"
proof -
  obtain k where "(h, k) \<in> BM_blocks (bm st)" using assms(2) by force
  from bmc.in_limit [OF assms(1) this] show "ng_valid st h" by (simp add: ng_valid_def INVALID_HANDLE_def)
  then show "M_HANDLE st h = h" "h \<noteq> INVALID_HANDLE" by (simp_all add: M_HANDLE_valid ng_valid_def)
qed

text \<open>The index finds every node in use, under its id.\<close>

lemma ns_indexed:
  assumes inv: "ns_inv st fs us" and h: "h \<in> groups st fs us" and i: "i \<in> ng_used (m_ng st h)"
  shows "indexed st \<lparr>c_owner = h, c_index = i\<rparr>" and "NodeID st \<lparr>c_owner = h, c_index = i\<rparr> = ng_nid (m_ng st h) + i"
proof -
  note g = group_okD [OF ns_invD(4) [OF inv h]] and nd = ns_invD(10,11) [OF inv]
  let ?b = "ng_nid (m_ng st h)"
  have i256: "i < 256" using ng.used_cap [OF g(1)] i by (auto simp: NODE_GROUP_INCLUDE_NODES_def)
  have gi: "group_indexed st h" using g(4) i by blast
  have hv: "h \<noteq> INVALID_HANDLE" using block_valid(3) ns_invD(1) [OF inv] g(5) by blast
  have lt: "?b + i < 2 ^ 32 - 256" using g(3) nd(2) i256 by (simp add: MAX_NODE_IDS_def)
  show n: "NodeID st \<lparr>c_owner = h, c_index = i\<rparr> = ?b + i" using lt by (simp add: NodeID_def ng_NodeID_def)
  have "?b + i \<noteq> INVALID_NODE_ID" using lt by (simp add: INVALID_NODE_ID_def)
  moreover have "u32_sub (?b + i) ?b = i" using lt i256 by simp
  moreover note OFFSET_group [OF g(2) i256]
  ultimately have "I_SEARCH st (?b + i) = \<lparr>c_owner = h, c_index = i\<rparr>"
    using gi hv i256 by (simp add: I_SEARCH_def group_indexed_def second_of_def Let_def)
  with n hv show "indexed st \<lparr>c_owner = h, c_index = i\<rparr>" by (simp add: indexed_def)
qed

section \<open>Taking a node from a group\<close>

lemma NG_AllocateNode_nid: "NG_AllocateNode g = (r, g') \<Longrightarrow> ng_nid g' = ng_nid g"
  by (auto simp: NG_AllocateNode_def Let_def split: if_splits)

text \<open>A change confined to the group \<open>h\<close>, the links and the second-level index.\<close>

lemma ns_inv_change:
  assumes inv: "ns_inv st fs us" and h: "h \<in> set fs \<union> set us"
    and same: "bm st' = bm st" "ngInfo st' = ngInfo st" "m_fi st' = m_fi st" "firstIndex st' = firstIndex st"
      "ni_sys_zone (ni st') = ni_sys_zone (ni st)" "ni_min_id (ni st') = ni_min_id (ni st)"
    and ng: "\<And>x. x \<noteq> h \<Longrightarrow> m_ng st' x = m_ng st x" "ng_nid (m_ng st' h) = ng_nid (m_ng st h)" "ng_inv (m_ng st' h)"
    and part: "set fs' \<union> set us' = set fs \<union> set us" "links_ok st' fs' us'"
    and full: "\<And>x. x \<in> set fs' \<Longrightarrow> \<not> NG_IsFull (m_ng st' x)" "\<And>x. x \<in> set us' \<Longrightarrow> NG_IsFull (m_ng st' x)"
    and idx: "\<And>x. x \<in> groups st fs us \<Longrightarrow> x \<noteq> h \<Longrightarrow> group_indexed st x \<Longrightarrow> group_indexed st' x"
      "ng_used (m_ng st' h) \<noteq> {} \<Longrightarrow> group_indexed st' h"
  shows "ns_inv st' fs' us'"
proof -
  note d = ns_invD [OF inv]
  have gr: "groups st' fs' us' = groups st fs us" using part(1) same by (simp add: groups_def)
  have nid: "ng_nid (m_ng st' x) = ng_nid (m_ng st x)" for x using ng by (cases "x = h") auto
  have "group_ok st' x" if "x \<in> groups st fs us" for x
    using group_okD [OF d(4) [OF that]] same ng nid idx that by (cases "x = h") (auto simp: group_ok_def)
  moreover have "\<exists>k\<ge>SIZEOF_NG_INFO_T. (ngInfo st', k) \<in> BM_blocks (bm st')" using inv same by (simp add: ns_inv_def)
  ultimately show ?thesis using d part(2) full gr same nid part(1) by (simp add: ns_inv_def)
qed

lemma links_ok_cong:
  "links_ok st fs us \<Longrightarrow> m_links st' = m_links st \<Longrightarrow> ngInfo st' = ngInfo st \<Longrightarrow> memSize (bm st') = memSize (bm st) \<Longrightarrow>
     links_ok st' fs us"
  by (simp add: links_ok_def ni_free_head_def ni_full_head_def ng_valid_def)

lemma ring_links_cong:
  "ring (\<lambda>a. nl_next (l a)) (\<lambda>a. nl_prev (l a)) h xs \<Longrightarrow> (\<And>a. a \<in> insert h (set xs) \<Longrightarrow> l' a = l a) \<Longrightarrow>
     ring (\<lambda>a. nl_next (l' a)) (\<lambda>a. nl_prev (l' a)) h xs"
  by (rule ring_cong) auto

lemma free_to_full:
  assumes l: "links_ok st (h # fs) us"
  obtains l' where "do { s \<leftarrow> ListDel h st; FullListAdd h s } = Some (st\<lparr>m_links := l'\<rparr>)"
    "links_ok (st\<lparr>m_links := l'\<rparr>) fs (h # us)"
proof -
  let ?A = "ni_free_head st" and ?B = "ni_full_head st"
  have r: "ring (ng_next st) (ng_prev st) ?A ([] @ h # fs)" "ring (ng_next st) (ng_prev st) ?B us"
    and dis: "distinct (?A # ?B # h # fs @ us)" and v: "\<forall>a\<in>set (?A # ?B # h # fs @ us). ng_valid st a"
    using l by (auto simp: links_ok_def)
  obtain l1 where l1: "NG_LIST_DEL h st = Some (st\<lparr>m_links := l1\<rparr>)"
    "ring (\<lambda>a. nl_next (l1 a)) (\<lambda>a. nl_prev (l1 a)) ?A ([] @ fs)"
    "\<And>a. a \<notin> insert ?A (set ([] @ h # fs)) \<Longrightarrow> l1 a = m_links st a"
    by (rule NG_LIST_DEL_spec [OF r(1)]) (use v in auto)
  let ?s = "st\<lparr>m_links := l1\<rparr>"
  have "ring (\<lambda>a. nl_next (l1 a)) (\<lambda>a. nl_prev (l1 a)) ?B us"
    by (rule ring_links_cong [OF r(2)], rule l1(3)) (use dis in auto)
  then have r2: "ring (ng_next ?s) (ng_prev ?s) ?B us" by simp
  obtain l2 where l2: "NG_LIST_ADD h ?B ?s = Some (?s\<lparr>m_links := l2\<rparr>)"
    "ring (\<lambda>a. nl_next (l2 a)) (\<lambda>a. nl_prev (l2 a)) ?B (h # us)"
    "\<And>a. a \<notin> insert h (insert ?B (set us)) \<Longrightarrow> l2 a = m_links ?s a"
    by (rule NG_LIST_ADD_spec [OF r2, of h]) (use v dis in auto)
  have "ring (\<lambda>a. nl_next (l2 a)) (\<lambda>a. nl_prev (l2 a)) ?A fs"
    by (rule ring_links_cong [of l1], use l1(2) in simp, subst l2(3)) (use dis in auto)
  with l2(2) dis v have "links_ok (st\<lparr>m_links := l2\<rparr>) fs (h # us)"
    by (auto simp: links_ok_def ni_free_head_def ni_full_head_def)
  moreover have "do { s \<leftarrow> ListDel h st; FullListAdd h s } = Some (st\<lparr>m_links := l2\<rparr>)"
    using l1(1) l2(1) by (simp add: ListDel_def FullListAdd_def ni_full_head_def)
  ultimately show ?thesis using that by blast
qed

lemma full_to_free:
  assumes l: "links_ok st fs (us @ h # vs)"
  obtains l' where "do { s \<leftarrow> ListDel h st; FreeListAdd h s } = Some (st\<lparr>m_links := l'\<rparr>)"
    "links_ok (st\<lparr>m_links := l'\<rparr>) (h # fs) (us @ vs)"
proof -
  let ?A = "ni_free_head st" and ?B = "ni_full_head st"
  have r: "ring (ng_next st) (ng_prev st) ?A fs" "ring (ng_next st) (ng_prev st) ?B (us @ h # vs)"
    and dis: "distinct (?A # ?B # fs @ us @ h # vs)" and v: "\<forall>a\<in>set (?A # ?B # fs @ us @ h # vs). ng_valid st a"
    using l by (auto simp: links_ok_def)
  obtain l1 where l1: "NG_LIST_DEL h st = Some (st\<lparr>m_links := l1\<rparr>)"
    "ring (\<lambda>a. nl_next (l1 a)) (\<lambda>a. nl_prev (l1 a)) ?B (us @ vs)"
    "\<And>a. a \<notin> insert ?B (set (us @ h # vs)) \<Longrightarrow> l1 a = m_links st a"
    by (rule NG_LIST_DEL_spec [OF r(2)]) (use v in auto)
  let ?s = "st\<lparr>m_links := l1\<rparr>"
  have "ring (\<lambda>a. nl_next (l1 a)) (\<lambda>a. nl_prev (l1 a)) ?A fs"
    by (rule ring_links_cong [OF r(1)], rule l1(3)) (use dis in auto)
  then have r2: "ring (ng_next ?s) (ng_prev ?s) ?A fs" by simp
  obtain l2 where l2: "NG_LIST_ADD h ?A ?s = Some (?s\<lparr>m_links := l2\<rparr>)"
    "ring (\<lambda>a. nl_next (l2 a)) (\<lambda>a. nl_prev (l2 a)) ?A (h # fs)"
    "\<And>a. a \<notin> insert h (insert ?A (set fs)) \<Longrightarrow> l2 a = m_links ?s a"
    by (rule NG_LIST_ADD_spec [OF r2, of h]) (use v dis in auto)
  have "ring (\<lambda>a. nl_next (l2 a)) (\<lambda>a. nl_prev (l2 a)) ?B (us @ vs)"
    by (rule ring_links_cong [of l1], use l1(2) in simp, subst l2(3)) (use dis in auto)
  with l2(2) dis v have "links_ok (st\<lparr>m_links := l2\<rparr>) (h # fs) (us @ vs)"
    by (auto simp: links_ok_def ni_free_head_def ni_full_head_def)
  moreover have "do { s \<leftarrow> ListDel h st; FreeListAdd h s } = Some (st\<lparr>m_links := l2\<rparr>)"
    using l1(1) l2(1) by (simp add: ListDel_def FreeListAdd_def ni_free_head_def)
  ultimately show ?thesis using that by blast
qed

lemma I_INSERT_present:
  assumes "c_owner n \<noteq> INVALID_HANDLE" "firstIndex st \<noteq> INVALID_HANDLE" "second_of st (NodeID st n) \<noteq> INVALID_HANDLE"
  shows "I_INSERT n st = Some (0, st\<lparr>m_si := (m_si st)(second_of st (NodeID st n) :=
     (m_si st (second_of st (NodeID st n)))\<lparr>si_used := u32 (si_used (m_si st (second_of st (NodeID st n))) + 1),
       si_h := (si_h (m_si st (second_of st (NodeID st n))))(OFFSET2 (NodeID st n) := M_HANDLE st (c_owner n))\<rparr>)\<rparr>)"
  using assms by (simp add: I_INSERT_def non_null_def second_of_def Let_def)

lemma take_node_spec:
  assumes inv: "ns_inv st (h # fs) us" and cov: "second_of st (ng_nid (m_ng st h)) \<noteq> INVALID_HANDLE"
  obtains n st' fs' us' where "take_node h st = Some (n, st')" "ns_inv st' fs' us'" "\<not> is_null_node n"
    "n \<notin> ns_used st (h # fs) us" "ns_used st' fs' us' = insert n (ns_used st (h # fs) us)"
    "ni_used_node (ni st') = u32 (ni_used_node (ni st) + 1)" "set fs' \<union> set us' = set (h # fs) \<union> set us"
proof -
  note d = ns_invD [OF inv]
  have hg: "h \<in> groups st (h # fs) us" by (simp add: groups_def)
  note g = group_okD [OF d(4) [OF hg]]
  let ?b = "ng_nid (m_ng st h)"
  obtain i g' where a: "NG_AllocateNode (m_ng st h) = (Some i, g')" "ng_inv g'" "i \<notin> ng_used (m_ng st h)"
    "ng_used g' = insert i (ng_used (m_ng st h))"
    using ng.alloc_slot [OF g(1)] d(7) [of h] by auto
  have i: "i < 256" using ng.alloc_SomeD(2) [OF g(1) a(1)] by (simp add: NODE_GROUP_INCLUDE_NODES_def)
  note nid = NG_AllocateNode_nid [OF a(1)] and hv = block_valid [OF d(1) g(5)]
  let ?n = "\<lparr>c_owner = h, c_index = i\<rparr>"
  let ?s1 = "upd_ng h (\<lambda>_. g') st"
  have lk1: "links_ok ?s1 (h # fs) us" by (rule links_ok_cong [OF d(2)]) (simp_all add: upd_ng_def)
  obtain l fs' us' where s2: "(if NG_IsFull (m_ng ?s1 h) then do { s \<leftarrow> ListDel h ?s1; FullListAdd h s } else Some ?s1)
       = Some (?s1\<lparr>m_links := l\<rparr>)" and lk2: "links_ok (?s1\<lparr>m_links := l\<rparr>) fs' us'"
    and fu: "NG_IsFull g' \<and> fs' = fs \<and> us' = h # us \<or> \<not> NG_IsFull g' \<and> fs' = h # fs \<and> us' = us"
  proof (cases "NG_IsFull g'")
    case True
    obtain l where "do { s \<leftarrow> ListDel h ?s1; FullListAdd h s } = Some (?s1\<lparr>m_links := l\<rparr>)"
      "links_ok (?s1\<lparr>m_links := l\<rparr>) fs (h # us)" by (rule free_to_full [OF lk1])
    with True show ?thesis by (intro that [of l fs "h # us"]) (simp_all add: upd_ng_def)
  next
    case False
    with lk1 show ?thesis by (intro that [of "m_links ?s1" "h # fs" us]) (simp_all add: upd_ng_def)
  qed
  let ?s2 = "?s1\<lparr>m_links := l\<rparr>"
  let ?s3 = "upd_ni (\<lambda>x. x\<lparr>ni_used_node := u32 (ni_used_node x + 1)\<rparr>) ?s2"
  define s4 where "s4 = ?s3\<lparr>statUsedNode := ni_used_node (ni ?s3)\<rparr>"
  have f4: "second_of s4 = second_of st" "firstIndex s4 = firstIndex st" "m_si s4 = m_si st" "bm s4 = bm st"
    "m_fi s4 = m_fi st" "ngInfo s4 = ngInfo st" "m_ng s4 = (m_ng st)(h := g')"
    "m_links s4 = l" "ni_sys_zone (m_ni s4 (ngInfo st)) = ni_sys_zone (ni st)" "ni_min_id (m_ni s4 (ngInfo st)) = ni_min_id (ni st)"
    "ni_used_node (m_ni s4 (ngInfo st)) = u32 (ni_used_node (ni st) + 1)"
    by (simp_all add: s4_def second_of_def upd_ni_def upd_ng_def fun_eq_iff)
  have lt: "?b + i < 2 ^ 32" using g(3) d(11) i by (simp add: MAX_NODE_IDS_def)
  have n4: "NodeID s4 ?n = ?b + i" using lt nid unfolding NodeID_def ng_NodeID_def f4 by simp
  note off = OFFSET_group [OF g(2) i]
  have sec: "second_of st (?b + i) = second_of st ?b" by (simp add: second_of_def off)
  let ?v = "second_of st ?b"
  let ?p = "(m_si st ?v)\<lparr>si_used := u32 (si_used (m_si st ?v) + 1), si_h := (si_h (m_si st ?v))(OFFSET2 ?b := h)\<rparr>"
  let ?s5 = "s4\<lparr>m_si := (m_si st)(?v := ?p)\<rparr>"
  have mh: "M_HANDLE s4 h = h" using hv(2) by (simp add: M_HANDLE_def f4)
  have ins: "I_INSERT ?n s4 = Some (0, ?s5)"
    using I_INSERT_present [of ?n s4] hv(3) d(3) cov by (simp add: f4 n4 sec off mh)
  have e: "take_node h st = Some (?n, ?s5)"
    using a(1) s2 ins [unfolded s4_def] hv(3) i
    by (simp add: s4_def Let_def take_node_def group_AllocateNode_def non_null_def is_null_node_def NODE_GROUP_INCLUDE_NODES_def)
  have ng5: "m_ng ?s5 = (m_ng st)(h := g')" by (simp add: f4)
  have "ns_inv ?s5 fs' us'"
  proof (rule ns_inv_change [OF inv, of h])
    show "links_ok ?s5 fs' us'" by (rule links_ok_cong [OF lk2]) (simp_all add: f4 upd_ng_def)
    show "\<not> NG_IsFull (m_ng ?s5 x)" if "x \<in> set fs'" for x
      using that fu d(2) d(7) [of x] unfolding ng5 by (auto simp: links_ok_def)
    show "NG_IsFull (m_ng ?s5 x)" if "x \<in> set us'" for x
      using that fu d(2) d(8) [of x] unfolding ng5 by (auto simp: links_ok_def)
    show "group_indexed ?s5 h" using cov nid by (simp add: group_indexed_def second_of_def f4)
    show "group_indexed ?s5 x" if x: "x \<in> groups st (h # fs) us" "x \<noteq> h" "group_indexed st x" for x
    proof -
      let ?c = "ng_nid (m_ng st x)"
      have "?c \<noteq> ?b" using inj_onD [OF d(5)] x hg by blast
      moreover have "256 dvd ?c" using group_okD(2) [OF d(4) [OF x(1)]] .
      ultimately have "OFFSET1 ?c \<noteq> OFFSET1 ?b \<or> OFFSET2 ?c \<noteq> OFFSET2 ?b" using OFFSET_inj g(2) by blast
      moreover have "second_of st ?c = ?v \<Longrightarrow> OFFSET1 ?c = OFFSET1 ?b"
        using inj_onD [OF d(9), of "OFFSET1 ?c" "OFFSET1 ?b"] cov by (simp add: second_of_def)
      ultimately have "second_of st ?c = ?v \<Longrightarrow> OFFSET2 ?c \<noteq> OFFSET2 ?b" by blast
      with x show ?thesis by (auto simp: group_indexed_def second_of_def f4)
    qed
  qed (use fu a(2) nid in \<open>auto simp: f4\<close>)
  moreover have "ns_used ?s5 fs' us' = insert ?n (ns_used st (h # fs) us)"
  proof -
    have "set fs' \<union> set us' = set (h # fs) \<union> set us" using fu by auto
    then show ?thesis using a(4) by (auto simp: ns_used_def f4)
  qed
  moreover have "\<not> is_null_node ?n" "?n \<notin> ns_used st (h # fs) us"
    using hv(3) i a(3) by (simp_all add: is_null_node_def NODE_GROUP_INCLUDE_NODES_def ns_used_def)
  moreover have "ni_used_node (ni ?s5) = u32 (ni_used_node (ni st) + 1)" by (simp add: f4)
  moreover have "set fs' \<union> set us' = set (h # fs) \<union> set us" using fu by auto
  ultimately show ?thesis using e that by blast
qed

section \<open>New groups\<close>

lemma heads_in_info:
  assumes "ns_inv st fs us"
  obtains k where "(ngInfo st, k) \<in> BM_blocks (bm st)" "16 < k"
  using assms unfolding ns_inv_def SIZEOF_NG_INFO_T_def by force

text \<open>What the allocation of groups leaves alone.\<close>

definition index_same :: "node_store \<Rightarrow> node_store \<Rightarrow> bool" where
  "index_same st st' \<longleftrightarrow> firstIndex st' = firstIndex st \<and> m_fi st' = m_fi st \<and> m_si st' = m_si st
     \<and> ni_used_node (ni st') = ni_used_node (ni st)"

lemma ns_inv_bm:
  assumes inv: "ns_inv st fs us" and b: "BM_ok b" "BM_blocks (bm st) \<subseteq> BM_blocks b" "memSize b = memSize (bm st)"
  shows "ns_inv (st\<lparr>bm := b\<rparr>) fs us"
proof -
  have "links_ok (st\<lparr>bm := b\<rparr>) fs us" by (rule links_ok_cong [OF ns_invD(2) [OF inv]]) (use b in simp_all)
  moreover have "group_ok (st\<lparr>bm := b\<rparr>) h = group_ok st h" if "group_ok st h" for h
    using that b(2) by (auto simp: group_ok_def group_indexed_def second_of_def)
  ultimately show ?thesis using inv b by (auto simp: ns_inv_def groups_def)
qed

lemma AllocateNG_spec:
  assumes inv: "ns_inv st fs us" and room: "ni_min_id (ni st) + 256 \<le> MAX_NODE_IDS"
  obtains st' where "AllocateNG st = Some (INVALID_HANDLE, st')" "ns_inv st' fs us"
      "ns_used st' fs us = ns_used st fs us" "index_same st st'" "ni_min_id (ni st') = ni_min_id (ni st)"
  | v st1 st' where "AllocateNG st = Some (v, st1)" "v \<noteq> INVALID_HANDLE" "FreeListAdd v st1 = Some st'"
      "ns_inv st' (v # fs) us" "ns_used st' (v # fs) us = ns_used st fs us" "index_same st st'"
      "ni_min_id (ni st') = ni_min_id (ni st) + 256" "ng_nid (m_ng st' v) = ni_min_id (ni st)"
      "v \<notin> fst ` BM_blocks (bm st)" "BM_blocks (bm st) \<subseteq> BM_blocks (bm st')"
proof -
  note d = ns_invD [OF inv]
  show ?thesis
  proof (cases rule: bmc.calloc_SomeE [OF d(1), of NG_Size])
    case (1 b)
    have "ns_inv (st\<lparr>bm := b\<rparr>) fs us" by (rule ns_inv_bm [OF inv 1(2)]) (use 1 in simp_all)
    with 1 show ?thesis
      by (intro that(1) [of "st\<lparr>bm := b\<rparr>"])
         (simp_all add: AllocateNG_def M_CALLOC_def INVALID_HANDLE_def ns_used_def index_same_def)
  next
    case (2 v k b)
    let ?m = "ni_min_id (ni st)" and ?s0 = "st\<lparr>bm := b\<rparr>"
    have i0: "ns_inv ?s0 fs us" by (rule ns_inv_bm [OF inv 2(2)]) (use 2 in auto)
    note d0 = ns_invD [OF i0]
    have vg: "v \<notin> groups st fs us" using 2(6) group_okD(5) [OF d(4)] by blast
    obtain k0 where k0: "(ngInfo st, k0) \<in> BM_blocks (bm st)" "16 < k0" by (rule heads_in_info [OF inv])
    have vh: "v \<noteq> ngInfo st + i" if "i < k0" for i
      by (rule bmc.calloc_apart [OF 2(2,7,6) k0(1) that])
    have vheads: "v \<noteq> ni_free_head st" "v \<noteq> ni_full_head st"
      using vh [of 0] vh [of 16] k0(2) by (simp_all add: ni_free_head_def ni_full_head_def)
    define s3 where "s3 = (upd_ni (\<lambda>n. n\<lparr>ni_min_id := u32 (ni_min_id n + NODE_GROUP_INCLUDE_NODES),
         ni_used_ng := u32 (ni_used_ng n + 1)\<rparr>)
       (?s0\<lparr>m_ng := (m_ng st)(v := NG_Init ?m (m_ng st v)),
            m_links := (m_links st)(v := \<lparr>nl_prev = INVALID_HANDLE, nl_next = INVALID_HANDLE\<rparr>)\<rparr>))"
    define s4 where "s4 = s3\<lparr>statUsedNG := ni_used_ng (ni s3)\<rparr>"
    have f4: "bm s4 = b" "ngInfo s4 = ngInfo st" "m_fi s4 = m_fi st" "m_si s4 = m_si st" "firstIndex s4 = firstIndex st"
      "m_ng s4 = (m_ng st)(v := NG_Init ?m (m_ng st v))"
      "m_links s4 = (m_links st)(v := \<lparr>nl_prev = INVALID_HANDLE, nl_next = INVALID_HANDLE\<rparr>)"
      "ni_min_id (m_ni s4 (ngInfo st)) = ?m + 256" "ni_sys_zone (m_ni s4 (ngInfo st)) = ni_sys_zone (ni st)"
      "ni_used_node (m_ni s4 (ngInfo st)) = ni_used_node (ni st)"
      using room by (simp_all add: s4_def s3_def upd_ni_def NODE_GROUP_INCLUDE_NODES_def MAX_NODE_IDS_def)
    have e: "AllocateNG st = Some (v, s4)"
      using 2(1,4) by (simp add: AllocateNG_def M_CALLOC_def INVALID_HANDLE_def s4_def s3_def Let_def)
    have heads: "ni_free_head s4 = ni_free_head st" "ni_full_head s4 = ni_full_head st"
      by (simp_all add: ni_free_head_def ni_full_head_def f4)
    have vv: "ng_valid s4 v" by (rule block_valid) (use 2 f4 in auto)
    have val: "ng_valid s4 a = ng_valid st a" for a using 2(3) by (simp add: ng_valid_def f4)
    have vfs: "v \<notin> set fs \<union> set us" using vg by (simp add: groups_def)
    have lk: "links_ok s4 fs us"
    proof -
      have "ring (ng_next s4) (ng_prev s4) (ni_free_head st) fs" "ring (ng_next s4) (ng_prev s4) (ni_full_head st) us"
        by (rule ring_links_cong [of "m_links st"]; use d(2) vheads vfs in \<open>auto simp: links_ok_def f4\<close>)+
      then show ?thesis using d(2) by (simp add: links_ok_def heads val)
    qed
    then have r: "ring (ng_next s4) (ng_prev s4) (ni_free_head s4) fs"
      and all: "\<forall>a\<in>insert (ni_free_head s4) (set fs). ng_valid s4 a" by (auto simp: links_ok_def)
    obtain l where l: "NG_LIST_ADD v (ni_free_head s4) s4 = Some (s4\<lparr>m_links := l\<rparr>)"
      "ring (\<lambda>a. nl_next (l a)) (\<lambda>a. nl_prev (l a)) (ni_free_head s4) (v # fs)"
      "\<And>a. a \<notin> insert v (insert (ni_free_head s4) (set fs)) \<Longrightarrow> l a = m_links s4 a"
      by (rule NG_LIST_ADD_spec [OF r all vv]) (use vheads vfs heads in auto)
    let ?s5 = "s4\<lparr>m_links := l\<rparr>"
    have "ring (\<lambda>a. nl_next (l a)) (\<lambda>a. nl_prev (l a)) (ni_full_head s4) us"
      by (rule ring_links_cong [of "m_links s4"], use lk in \<open>simp add: links_ok_def\<close>, rule l(3))
         (use lk vfs vheads heads in \<open>auto simp: links_ok_def\<close>)
    then have lk5: "links_ok ?s5 (v # fs) us"
      using l(2) lk vfs vheads heads vv by (auto simp: links_ok_def ni_free_head_def ni_full_head_def)
    have gr: "groups ?s5 (v # fs) us = insert v (groups st fs us)" by (auto simp: groups_def f4)
    have old: "m_ng ?s5 h = m_ng st h" if "h \<in> groups st fs us" for h using that vg by (auto simp: f4)
    have "group_ok ?s5 h" if "h \<in> groups st fs us" for h
      using group_okD [OF d(4) [OF that]] old [OF that] 2(7)
      by (auto simp: group_ok_def group_indexed_def second_of_def f4)
    moreover have "group_ok ?s5 v"
      using 2(7) d(10) NG_Init_inv by (simp add: group_ok_def f4)
    moreover have "inj_on (\<lambda>h. ng_nid (m_ng ?s5 h)) (insert v (groups st fs us))"
    proof -
      have "inj_on (\<lambda>h. ng_nid (m_ng ?s5 h)) (groups st fs us)"
        using d(5) old by (simp add: inj_on_def)
      moreover have "ng_nid (m_ng ?s5 h) \<noteq> ng_nid (m_ng ?s5 v)" if "h \<in> groups st fs us" for h
        using group_okD(3) [OF d(4) [OF that]] old [OF that] by (simp add: f4)
      ultimately show ?thesis using vg by force
    qed
    moreover have "\<not> NG_IsFull (m_ng ?s5 v)" by (simp add: f4 NG_IsFull_def NODE_GROUP_INCLUDE_NODES_def)
    moreover have "\<not> NG_IsFull (m_ng ?s5 h)" if "h \<in> set fs" for h
      using d(7) [OF that] old that by (simp add: groups_def)
    moreover have "NG_IsFull (m_ng ?s5 h)" if "h \<in> set us" for h
      using d(8) [OF that] old that by (simp add: groups_def)
    moreover have "\<exists>k\<ge>SIZEOF_NG_INFO_T. (ngInfo st, k) \<in> BM_blocks b" using inv 2(7) by (auto simp: ns_inv_def)
    moreover have "v \<noteq> ni_sys_zone (ni st)" using vg by (auto simp: groups_def)
    ultimately have "ns_inv ?s5 (v # fs) us"
      using lk5 d room 2(2) gr unfolding ns_inv_def by (auto simp: f4)
    moreover have "ns_used ?s5 (v # fs) us = ns_used st fs us"
      using NG_Init_inv(2) [of ?m "m_ng st v"] vfs by (auto simp: ns_used_def f4)
    moreover have "FreeListAdd v s4 = Some ?s5" using l(1) by (simp add: FreeListAdd_def)
    moreover have "BM_blocks (bm st) \<subseteq> BM_blocks b" using 2(7) by blast
    ultimately show ?thesis using e 2(4,6)
      by (intro that(2) [of v s4 ?s5]) (simp_all add: INVALID_HANDLE_def index_same_def f4)
  qed
qed

lemma index_same_trans: "index_same st st1 \<Longrightarrow> index_same st1 st2 \<Longrightarrow> index_same st st2"
  by (simp add: index_same_def)

lemma index_same_second: "index_same st st' \<Longrightarrow> second_of st' = second_of st"
  by (simp add: index_same_def second_of_def fun_eq_iff)

lemma ns_inv_step:
  "ns_inv (st\<lparr>ng_step := k\<rparr>) fs us = ns_inv st fs us" "ns_used (st\<lparr>ng_step := k\<rparr>) fs us = ns_used st fs us"
  "ns_inv (st\<lparr>ng_fail := f\<rparr>) fs us = ns_inv st fs us" "ns_used (st\<lparr>ng_fail := f\<rparr>) fs us = ns_used st fs us"
  by (simp_all add: ns_inv_def links_ok_def groups_def group_ok_def group_indexed_def second_of_def
      ni_free_head_def ni_full_head_def ng_valid_def ns_used_def)

lemma prealloc_groups_spec:
  "ns_inv st fs us \<Longrightarrow> ni_min_id (ni st) + 256 * k \<le> MAX_NODE_IDS \<Longrightarrow>
     \<exists>ok st' gs. prealloc_groups i k st = Some (ok, st') \<and> ns_inv st' (gs @ fs) us
       \<and> ns_used st' (gs @ fs) us = ns_used st fs us \<and> index_same st st'
       \<and> ni_min_id (ni st') \<le> ni_min_id (ni st) + 256 * k
       \<and> (ok \<longrightarrow> i = 0 \<longrightarrow> 0 < k \<longrightarrow> gs \<noteq> []) \<and> (\<not> ok \<longrightarrow> gs = [] \<and> i = 0 \<and> (\<exists>b. BM_Calloc NG_Size (bm st) = Some (INVALID_HANDLE, b) \<and> st' = st\<lparr>bm := b\<rparr>)) \<and> set gs \<inter> fst ` BM_blocks (bm st) = {}"
proof (induction k arbitrary: i st fs)
  case 0
  then show ?case by (intro exI [of _ True] exI [of _ st] exI [of _ "[]"]) (simp add: index_same_def)
next
  case (Suc k)
  from Suc.prems(2) have room: "ni_min_id (ni st) + 256 \<le> MAX_NODE_IDS" by simp
  show ?case
  proof (cases rule: AllocateNG_spec [OF Suc.prems(1) room])
    case (1 st1)
    let ?s = "if i = 0 then st1 else st1\<lparr>ng_fail := True, ng_step := 1\<rparr>"
    have s: "?s = st1 \<or> ?s = st1\<lparr>ng_fail := True, ng_step := 1\<rparr>" by simp
    have "ns_inv ?s fs us" using 1(2) s ns_inv_step by metis
    moreover have "ns_used ?s fs us = ns_used st fs us" using 1(3) s ns_inv_step by metis
    moreover have "index_same st ?s" "ni_min_id (ni ?s) = ni_min_id (ni st)"
      using 1 by (simp_all add: index_same_def)
    moreover have "\<exists>b. BM_Calloc NG_Size (bm st) = Some (INVALID_HANDLE, b) \<and> st1 = st\<lparr>bm := b\<rparr>"
      using 1(1) by (auto simp: AllocateNG_def M_CALLOC_def Let_def split: bind_splits if_splits)
    ultimately show ?thesis using 1(1)
      by (intro exI [of _ "i \<noteq> 0"] exI [of _ ?s] exI [of _ "[]"]) auto
  next
    case (2 v st1 st2)
    have "ni_min_id (ni st2) + 256 * k \<le> MAX_NODE_IDS" using 2(7) Suc.prems(2) by simp
    from Suc.IH [OF 2(4) this, of "i + 1"] obtain ok st' gs where
      r: "prealloc_groups (i + 1) k st2 = Some (ok, st')" "ns_inv st' (gs @ v # fs) us"
      "ns_used st' (gs @ v # fs) us = ns_used st2 (v # fs) us" "index_same st2 st'"
      "ni_min_id (ni st') \<le> ni_min_id (ni st2) + 256 * k" "\<not> ok \<longrightarrow> i + 1 = 0"
      "set gs \<inter> fst ` BM_blocks (bm st2) = {}" by blast
    have "set (gs @ [v]) \<inter> fst ` BM_blocks (bm st) = {}" using r(7) 2(9,10) by auto
    moreover
    have "prealloc_groups i (Suc k) st = Some (ok, st')" using 2(1,2,3) r(1) by simp
    ultimately show ?thesis using r(2-6) 2(5,6,7) index_same_trans
      by (intro exI [of _ ok] exI [of _ st'] exI [of _ "gs @ [v]"]) auto
  qed
qed

section \<open>AllocateNode and ReleaseNode\<close>

text \<open>The second-level index covers all ids below \<open>lim\<close>.\<close>

definition index_covers :: "node_store \<Rightarrow> nat \<Rightarrow> bool" where
  "index_covers st lim \<longleftrightarrow> (\<forall>b<lim. second_of st b \<noteq> INVALID_HANDLE)"

lemma FindFreeNG_spec:
  assumes "ns_inv st fs us"
  shows "FindFreeNG st = (case fs of [] \<Rightarrow> INVALID_HANDLE | h # _ \<Rightarrow> h)"
proof -
  let ?A = "ni_free_head st"
  have lk: "links_ok st fs us" using ns_invD(2) [OF assms] .
  then have r: "ring (ng_next st) (ng_prev st) ?A fs" and v: "ng_valid st ?A" by (simp_all add: links_ok_def)
  show ?thesis
  proof (cases fs)
    case Nil
    with ring_next [OF r] M_HANDLE_valid [OF v] show ?thesis by (simp add: FindFreeNG_def NG_LIST_EMPTY_def)
  next
    case (Cons h hs)
    then have "?A \<noteq> h" using lk by (auto simp: links_ok_def)
    with Cons ring_next [OF r] M_HANDLE_valid [OF v] show ?thesis by (simp add: FindFreeNG_def NG_LIST_EMPTY_def)
  qed
qed

lemma ns_inv_nonnull: "ns_inv st (h # fs) us \<Longrightarrow> h \<noteq> INVALID_HANDLE"
  using ns_invD(4) [of st "h # fs" us h] ns_invD(1) group_okD(5) block_valid(3) by (fastforce simp: groups_def)

lemma NI_AllocateNode_spec:
  assumes inv: "ns_inv st fs us" and step: "0 < ng_step st"
    and room: "ni_min_id (ni st) + 256 * ng_step st \<le> MAX_NODE_IDS"
    and cov: "index_covers st (ni_min_id (ni st) + 256 * ng_step st)"
  obtains st' where "NI_AllocateNode st = Some (null_node, st')" "fs = []" "ns_inv st' fs us"
      "ns_used st' fs us = ns_used st fs us" "ni_used_node (ni st') = ni_used_node (ni st)"
      "\<exists>b. BM_Calloc NG_Size (bm st) = Some (INVALID_HANDLE, b) \<and> st' = st\<lparr>bm := b\<rparr>"
  | n st' fs' us' where "NI_AllocateNode st = Some (n, st')" "ns_inv st' fs' us'" "\<not> is_null_node n"
      "n \<notin> ns_used st fs us" "ns_used st' fs' us' = insert n (ns_used st fs us)"
      "ni_used_node (ni st') = u32 (ni_used_node (ni st) + 1)"
      "set fs' \<union> set us' \<subseteq> set fs \<union> set us \<union> - (fst ` BM_blocks (bm st))"
proof -
  have cov_group: "second_of s (ng_nid (m_ng s h)) \<noteq> INVALID_HANDLE"
    if "ns_inv s (h # hs) us" "index_same st s" "ni_min_id (ni s) \<le> ni_min_id (ni st) + 256 * ng_step st" for s h hs
  proof -
    have "ng_nid (m_ng s h) + 256 \<le> ni_min_id (ni s)"
      using group_okD(3) [OF ns_invD(4) [OF that(1)]] by (simp add: groups_def)
    then show ?thesis using cov that(3) index_same_second [OF that(2)] by (simp add: index_covers_def)
  qed
  show ?thesis
  proof (cases fs)
    case (Cons h hs)
    have e: "NI_AllocateNode st = take_node h st"
      using FindFreeNG_spec [OF inv] Cons ns_inv_nonnull inv by (simp add: NI_AllocateNode_def)
    have "second_of st (ng_nid (m_ng st h)) \<noteq> INVALID_HANDLE"
      by (rule cov_group) (use inv Cons in \<open>auto simp: index_same_def\<close>)
    then obtain n st' fs' us' where t: "take_node h st = Some (n, st')" "ns_inv st' fs' us'" "\<not> is_null_node n"
      "n \<notin> ns_used st (h # hs) us" "ns_used st' fs' us' = insert n (ns_used st (h # hs) us)"
      "ni_used_node (ni st') = u32 (ni_used_node (ni st) + 1)" "set fs' \<union> set us' = set (h # hs) \<union> set us"
      by (rule take_node_spec [OF inv [unfolded Cons]])
    then show ?thesis using e Cons by (intro that(2) [of n st' fs' us']) auto
  next
    case Nil
    obtain ok st1 gs where p: "prealloc_groups 0 (ng_step st) st = Some (ok, st1)" "ns_inv st1 (gs @ fs) us"
      "ns_used st1 (gs @ fs) us = ns_used st fs us" "index_same st st1"
      "ni_min_id (ni st1) \<le> ni_min_id (ni st) + 256 * ng_step st"
      "ok \<longrightarrow> gs \<noteq> []" "\<not> ok \<longrightarrow> gs = [] \<and> (\<exists>b. BM_Calloc NG_Size (bm st) = Some (INVALID_HANDLE, b) \<and> st1 = st\<lparr>bm := b\<rparr>)" "set gs \<inter> fst ` BM_blocks (bm st) = {}"
      using prealloc_groups_spec [OF inv room, of 0] step by blast
    have f: "FindFreeNG st = INVALID_HANDLE" using FindFreeNG_spec [OF inv] Nil by simp
    show ?thesis
    proof (cases ok)
      case False
      with p f have "NI_AllocateNode st = Some (null_node, st1)" by (simp add: NI_AllocateNode_def)
      with False p Nil show ?thesis by (intro that(1) [of st1]) (simp_all add: index_same_def)
    next
      case True
      with p obtain h hs where gs: "gs = h # hs" by (cases gs) auto
      let ?s2 = "if ng_step st1 < 256 \<and> \<not> ng_fail st1 then st1\<lparr>ng_step := ng_step st1 * 2\<rparr> else st1"
      have i2: "ns_inv ?s2 (h # hs) us" "ns_used ?s2 (h # hs) us = ns_used st fs us" "index_same st ?s2"
        "ni_min_id (ni ?s2) = ni_min_id (ni st1)"
        using p gs Nil by (simp_all add: ns_inv_step index_same_def)
      have e: "NI_AllocateNode st = take_node h ?s2"
        using f p(1) True FindFreeNG_spec [OF p(2)] gs by (simp add: NI_AllocateNode_def Let_def)
      have "second_of ?s2 (ng_nid (m_ng ?s2 h)) \<noteq> INVALID_HANDLE"
        by (rule cov_group [OF i2(1,3)]) (use i2(4) p(5) in simp)
      then obtain n st' fs' us' where t: "take_node h ?s2 = Some (n, st')" "ns_inv st' fs' us'" "\<not> is_null_node n"
        "n \<notin> ns_used ?s2 (h # hs) us" "ns_used st' fs' us' = insert n (ns_used ?s2 (h # hs) us)"
        "ni_used_node (ni st') = u32 (ni_used_node (ni ?s2) + 1)" "set fs' \<union> set us' = set (h # hs) \<union> set us"
        by (rule take_node_spec [OF i2(1)])
      have "ni_used_node (ni ?s2) = ni_used_node (ni st)" using i2(3) by (simp add: index_same_def)
      moreover have "set fs' \<union> set us' \<subseteq> set fs \<union> set us \<union> - (fst ` BM_blocks (bm st))" using t(7) p(8) gs by auto
      ultimately show ?thesis using t e i2(2) by (intro that(2) [of n st' fs' us']) simp_all
    qed
  qed
qed

lemma NI_ReleaseNode_spec:
  assumes inv: "ns_inv st fs us" and n: "n \<in> ns_used st fs us"
  obtains st' fs' us' where "NI_ReleaseNode n st = Some st'" "ns_inv st' fs' us'"
    "ns_used st' fs' us' = ns_used st fs us - {n}"
    "c_owner n \<in> set fs'" "ni_used_node (ni st') = u32_sub (ni_used_node (ni st)) 1"
    "set fs' \<union> set us' = set fs \<union> set us"
proof -
  note d = ns_invD [OF inv]
  let ?h = "c_owner n" and ?i = "c_index n"
  have hm: "?h \<in> set fs \<union> set us" and iu: "?i \<in> ng_used (m_ng st ?h)" using n by (auto simp: ns_used_def)
  have hg: "?h \<in> groups st fs us" using hm by (auto simp: groups_def)
  note g = group_okD [OF d(4) [OF hg]] and hv = block_valid [OF d(1) group_okD(5) [OF d(4) [OF hg]]]
  let ?g = "node_Release ?i (m_ng st ?h)"
  have rel: "ng_inv ?g" "ng_used ?g = ng_used (m_ng st ?h) - {?i}" using ng.release_slot [OF g(1) iu] by simp_all
  have nf: "\<not> NG_IsFull ?g" by (rule ng.release_not_full [OF g(1) iu])
  obtain l fs' us' where s1: "(if NG_IsFull (m_ng st ?h) then do { s \<leftarrow> ListDel ?h st; FreeListAdd ?h s } else Some st)
       = Some (st\<lparr>m_links := l\<rparr>)" and lk1: "links_ok (st\<lparr>m_links := l\<rparr>) fs' us'"
    and part: "set fs' \<union> set us' = set fs \<union> set us" "?h \<in> set fs'" "?h \<notin> set us'" "set us' \<subseteq> set us"
      "set fs' \<subseteq> insert ?h (set fs)"
  proof (cases "NG_IsFull (m_ng st ?h)")
    case True
    then have "?h \<in> set us" using hm d(7) by blast
    then obtain as bs where us: "us = as @ ?h # bs" by (auto simp: in_set_conv_decomp)
    obtain l where "do { s \<leftarrow> ListDel ?h st; FreeListAdd ?h s } = Some (st\<lparr>m_links := l\<rparr>)"
      "links_ok (st\<lparr>m_links := l\<rparr>) (?h # fs) (as @ bs)" using full_to_free d(2) us by metis
    with True us d(2) show ?thesis
      by (intro that [of l "?h # fs" "as @ bs"]) (auto simp: links_ok_def)
  next
    case False
    then have "?h \<in> set fs" "?h \<notin> set us" using hm d(8) by blast+
    with False d(2) show ?thesis by (intro that [of "m_links st" fs us]) auto
  qed
  define s3 where "s3 = (let st2 = upd_ni (\<lambda>x. x\<lparr>ni_used_node := u32_sub (ni_used_node x) 1\<rparr>) (st\<lparr>m_links := l\<rparr>)
     in st2\<lparr>statUsedNode := ni_used_node (ni st2)\<rparr>)"
  define s4 where "s4 = upd_ng ?h (node_Release ?i) s3"
  have f4: "bm s4 = bm st" "ngInfo s4 = ngInfo st" "m_fi s4 = m_fi st" "m_si s4 = m_si st" "firstIndex s4 = firstIndex st"
    "m_ng s4 = (m_ng st)(?h := ?g)" "m_links s4 = l" "ni_sys_zone (m_ni s4 (ngInfo st)) = ni_sys_zone (ni st)"
    "ni_min_id (m_ni s4 (ngInfo st)) = ni_min_id (ni st)"
    "ni_used_node (m_ni s4 (ngInfo st)) = u32_sub (ni_used_node (ni st)) 1"
    by (simp_all add: s4_def s3_def upd_ni_def upd_ng_def Let_def)
  have e: "NI_ReleaseNode n st = Some s4"
    using s1 hv(3) by (simp add: NI_ReleaseNode_def non_null_def s4_def s3_def Let_def)
  have "ns_inv s4 fs' us'"
  proof (rule ns_inv_change [OF inv hm])
    show "links_ok s4 fs' us'" by (rule links_ok_cong [OF lk1]) (simp_all add: f4)
    show "\<not> NG_IsFull (m_ng s4 x)" if "x \<in> set fs'" for x
      using that nf d(7) [of x] part(5) by (cases "x = ?h") (auto simp: f4)
    show "NG_IsFull (m_ng s4 x)" if "x \<in> set us'" for x
      using that part(3,4) d(8) [of x] by (cases "x = ?h") (auto simp: f4)
    show "group_indexed s4 ?h" using g(4) iu by (auto simp: group_indexed_def second_of_def f4)
    show "group_indexed s4 x" if "x \<noteq> ?h" "group_indexed st x" for x
      using that by (simp add: group_indexed_def second_of_def f4)
  qed (use part rel in \<open>auto simp: f4\<close>)
  moreover have "ns_used s4 fs' us' = ns_used st fs us - {n}"
  proof -
    have "x \<in> ns_used s4 fs' us' \<longleftrightarrow> x \<in> ns_used st fs us - {n}" for x
    proof (cases "c_owner x = ?h")
      case True
      then have "x = n \<longleftrightarrow> c_index x = ?i" by (metis CNode.equality old.unit.exhaust)
      with True rel(2) show ?thesis by (auto simp: ns_used_def f4 part(1))
    next
      case False
      then show ?thesis by (auto simp: ns_used_def f4 part(1))
    qed
    then show ?thesis by blast
  qed
  moreover have "ni_used_node (ni s4) = u32_sub (ni_used_node (ni st)) 1" by (simp add: f4)
  ultimately show ?thesis using e that part(1,2) by blast
qed

end
