(* ===== verification/Node_Store_Init.thy ===== *)
theory Node_Store_Init
  imports Node_Store_Inv
begin

text \<open>
  Formatting of the node store: \<open>CNodeIndex::Init\<close> followed by \<open>CNGInfo::Init\<close> establishes the
  invariant, with the three reserved nodes of group 0 as empty LRU lists.
\<close>

section \<open>The index\<close>

abbreviation fih :: "node_store \<Rightarrow> nat \<Rightarrow> handle" where
  "fih st \<equiv> fi_h (m_fi st (firstIndex st))"

definition index_ok :: "node_store \<Rightarrow> nat \<Rightarrow> bool" where
  "index_ok st n \<longleftrightarrow> BM_ok (bm st) \<and> firstIndex st \<noteq> INVALID_HANDLE
     \<and> (\<forall>j<n. fih st j \<noteq> INVALID_HANDLE)
     \<and> (\<forall>j. fih st j \<noteq> INVALID_HANDLE \<longrightarrow> j < n \<and> fih st j \<in> fst ` BM_blocks (bm st))
     \<and> inj_on (fih st) {j. fih st j \<noteq> INVALID_HANDLE}"

lemma prealloc_index2_ok:
  "index_ok st i \<Longrightarrow> prealloc_index2 i k st = Some (0, st') \<Longrightarrow> index_ok st' (i + k)"
proof (induction k arbitrary: i st)
  case 0
  then show ?case by simp
next
  case (Suc k)
  have ok: "BM_ok (bm st)" using Suc.prems(1) by (simp add: index_ok_def)
  show ?case
  proof (cases rule: bmc.calloc_SomeE [OF ok, of INDEX_2_SIZE])
    case (1 b)
    then show ?thesis using Suc.prems(2)
      by (simp add: new_second_index_def M_CALLOC_def INVALID_HANDLE_def Let_def)
  next
    case (2 v m b)
    define s1 where "s1 = set_fi_h i v (st\<lparr>bm := b, m_si := (m_si st)(v := zero_second_index)\<rparr>)"
    have n: "new_second_index i st = Some (v, s1)"
      using 2(1,4) by (simp add: s1_def new_second_index_def M_CALLOC_def INVALID_HANDLE_def Let_def)
    have f1: "fi_h (m_fi s1 (firstIndex st)) = (fih st)(i := v)" "bm s1 = b" "firstIndex s1 = firstIndex st"
      by (auto simp: s1_def set_fi_h_def Let_def)
    have "fih st i = INVALID_HANDLE" "\<forall>j. fih st j \<noteq> v"
      using Suc.prems(1) 2(4,6) by (auto simp: index_ok_def INVALID_HANDLE_def)
    then have "index_ok s1 (i + 1)"
      using Suc.prems(1) 2 unfolding index_ok_def f1 inj_on_def
      by (auto simp: less_Suc_eq INVALID_HANDLE_def)
    moreover have "prealloc_index2 (i + 1) k s1 = Some (0, st')"
      using Suc.prems(2) n 2(4) by (simp add: INVALID_HANDLE_def)
    ultimately show ?thesis using Suc.IH [of s1 "i + 1"] by simp
  qed
qed

lemma NI_Init_ok:
  assumes ok: "BM_ok (bm st)" and e: "NI_Init msz st = Some (0, st')" and msz: "msz < 2 ^ 61"
  obtains n where "index_ok st' n" "0 < n"
proof (cases rule: bmc.calloc_SomeE [OF ok, of INDEX_1_SIZE])
  case (1 b)
  with e show ?thesis by (simp add: NI_Init_def M_CALLOC_def INVALID_HANDLE_def)
next
  case (2 v m b)
  let ?s = "st\<lparr>bm := b, m_fi := (m_fi st)(v := \<lparr>fi_used = 0, fi_h = (\<lambda>_. INVALID_HANDLE)\<rparr>), firstIndex := v\<rparr>"
  have "PreAllocateIndex2 msz ?s = Some (0, st')"
    using e 2(1,4) by (simp add: NI_Init_def M_CALLOC_def INVALID_HANDLE_def)
  moreover define n where "n = (if u32 (msz div 738197504 + 1) > 256 then 256 else u32 (msz div 738197504 + 1))"
  ultimately have n: "prealloc_index2 0 n ?s = Some (0, st')" by (simp add: PreAllocateIndex2_def Let_def split: if_splits)
  have "index_ok ?s 0" using 2 by (simp add: index_ok_def INVALID_HANDLE_def)
  from prealloc_index2_ok [OF this n] have "index_ok st' n" by simp
  moreover have "0 < n"
  proof -
    have "msz div 738197504 + 1 < 2 ^ 32" using msz by (simp add: div_less_iff_less_mult)
    then show ?thesis by (simp add: n_def)
  qed
  ultimately show ?thesis using that by blast
qed

section \<open>The reserved group\<close>

lemma group_alloc_fresh:
  assumes "dele_count (m_ng st h) = 0" "ng_free (m_ng st h) = i" "i < 255"
  obtains g where "group_AllocateNode h st = (\<lparr>c_owner = h, c_index = i\<rparr>, upd_ng h (\<lambda>_. g) st)"
    "dele_count g = 0" "ng_free g = Suc i" "ng_nid g = ng_nid (m_ng st h)" "released g = []"
proof -
  obtain r g where e: "NG_AllocateNode (m_ng st h) = (r, g)" by fastforce
  from fresh_Alloc [OF assms(1) _ e] assms have f: "r = Some i" "released g = []" "ng_free g = Suc i"
    "ng_nid g = ng_nid (m_ng st h)" by (auto simp: NODE_GROUP_INCLUDE_NODES_def)
  moreover have "dele_count g = 0" using f(2) by (metis length_0_conv length_free_chain released_def)
  ultimately show ?thesis using e by (intro that [of g]) (simp_all add: group_AllocateNode_def)
qed

text \<open>The reserved nodes: ids 0, 1 and 2, each a ring of its own.\<close>

lemma INIT_NODE_LIST_HEAD_ng:
  "c_owner n \<noteq> INVALID_HANDLE \<Longrightarrow> INIT_NODE_LIST_HEAD n v st =
     Some (upd_ng (c_owner n) (\<lambda>g. g\<lparr>at_lru_prev := (at_lru_prev g)(c_index n := v),
        at_lru_next := (at_lru_next g)(c_index n := v)\<rparr>) st)"
  by (simp add: INIT_NODE_LIST_HEAD_def set_LruPrev_def set_LruNext_def upd_ng_def)

lemma SystemReservedInit_spec:
  assumes g: "m_ng st h = NG_Init 0 g0" and h: "ng_valid st h" and fi: "firstIndex st \<noteq> INVALID_HANDLE"
    and v: "fih st 0 = v" "v \<noteq> INVALID_HANDLE"
  obtains g si where "SystemReservedInit h st = Some (0, st\<lparr>m_ng := (m_ng st)(h := g), m_si := (m_si st)(v := si)\<rparr>)"
    "ng_nid g = 0" "ng_inv g" "ng_used g = {0, 1, 2}" "si_h si 0 = h"
    "\<forall>i\<in>{0, 1, 2}. at_lru_prev g i = i \<and> at_lru_next g i = i"
proof -
  have hn: "h \<noteq> INVALID_HANDLE" using h by (simp add: ng_valid_def)
  obtain g1 where a1: "group_AllocateNode h st = (\<lparr>c_owner = h, c_index = 0\<rparr>, upd_ng h (\<lambda>_. g1) st)"
    "dele_count g1 = 0" "ng_free g1 = Suc 0" "ng_nid g1 = 0"
    by (rule group_alloc_fresh [of st h 0]) (use g in simp_all)
  let ?s1 = "upd_ng h (\<lambda>_. g1) st"
  have m1: "m_ng ?s1 h = g1" by (simp add: upd_ng_def)
  obtain g2 where a2: "group_AllocateNode h ?s1 = (\<lparr>c_owner = h, c_index = 1\<rparr>, upd_ng h (\<lambda>_. g2) ?s1)"
    "dele_count g2 = 0" "ng_free g2 = Suc 1" "ng_nid g2 = 0"
    by (rule group_alloc_fresh [of ?s1 h 1]) (use m1 a1 in simp_all)
  let ?s2 = "upd_ng h (\<lambda>_. g2) ?s1"
  have m2: "m_ng ?s2 h = g2" by (simp add: upd_ng_def)
  obtain g3 where a3: "group_AllocateNode h ?s2 = (\<lparr>c_owner = h, c_index = 2\<rparr>, upd_ng h (\<lambda>_. g3) ?s2)"
    "dele_count g3 = 0" "ng_free g3 = Suc 2" "ng_nid g3 = 0" "released g3 = []"
    by (rule group_alloc_fresh [of ?s2 h 2]) (use m2 a2 in simp_all)
  let ?s3 = "upd_ng h (\<lambda>_. g3) ?s2"
  define g where "g = g3\<lparr>at_lru_prev := (at_lru_prev g3)(0 := 0, 1 := 1, 2 := 2),
                         at_lru_next := (at_lru_next g3)(0 := 0, 1 := 1, 2 := 2)\<rparr>"
  have mh: "M_HANDLE s h = h" if "bm s = bm st" for s
    using M_HANDLE_valid [OF h] that by (simp add: M_HANDLE_def)
  have off: "OFFSET1 0 = 0" "OFFSET1 1 = 0" "OFFSET1 2 = 0" "OFFSET2 0 = 0" "OFFSET2 1 = 0" "OFFSET2 2 = 0"
    by (simp_all add: OFFSET1_div OFFSET2_div)
  let ?n = "\<lambda>i. \<lparr>c_owner = h, c_index = i\<rparr>"
  have ids: "NodeID s (?n i) = i" if "ng_nid (m_ng s h) = 0" "i < 3" for s i
    using that by (simp add: NodeID_def ng_NodeID_def)
  let ?s6 = "st\<lparr>m_ng := (m_ng st)(h := g)\<rparr>"
  have init: "do { st4 \<leftarrow> INIT_NODE_LIST_HEAD (?n 0) (NodeID ?s3 (?n 0)) ?s3;
        st5 \<leftarrow> INIT_NODE_LIST_HEAD (?n 1) (NodeID st4 (?n 1)) st4;
        INIT_NODE_LIST_HEAD (?n 2) (NodeID st5 (?n 2)) st5 } = Some ?s6"
    using hn a3(4) by (simp add: INIT_NODE_LIST_HEAD_ng upd_ng_def NodeID_def ng_NodeID_def g_def numeral_2_eq_2)
  have ins: "\<exists>si'. I_INSERT (?n i) (?s6\<lparr>m_si := (m_si st)(v := si)\<rparr>) = Some (0, ?s6\<lparr>m_si := (m_si st)(v := si')\<rparr>)
      \<and> si_h si' 0 = h" if i: "i < 3" for i si
  proof -
    let ?t = "?s6\<lparr>m_si := (m_si st)(v := si)\<rparr>"
    have id: "NodeID ?t (?n i) = i" by (rule ids) (use i a3(4) in \<open>simp_all add: g_def\<close>)
    have "OFFSET1 i = 0" "OFFSET2 i = 0" using i by (simp_all add: OFFSET1_div OFFSET2_div)
    then show ?thesis using I_INSERT_present [of "?n i" ?t] hn fi v id mh [of ?t]
      by (intro exI [of _ "si\<lparr>si_used := u32 (Suc (si_used si)), si_h := (si_h si)(0 := h)\<rparr>"]) (simp add: second_of_def)
  qed
  obtain si1 where i1: "I_INSERT (?n 0) ?s6 = Some (0, ?s6\<lparr>m_si := (m_si st)(v := si1)\<rparr>)"
    using ins [of 0 "m_si st v"] by auto
  obtain si2 where i2: "I_INSERT (?n 1) (?s6\<lparr>m_si := (m_si st)(v := si1)\<rparr>) = Some (0, ?s6\<lparr>m_si := (m_si st)(v := si2)\<rparr>)"
    using ins [of 1 si1] by auto
  obtain si3 where i3: "I_INSERT (?n 2) (?s6\<lparr>m_si := (m_si st)(v := si2)\<rparr>) = Some (0, ?s6\<lparr>m_si := (m_si st)(v := si3)\<rparr>)"
    "si_h si3 0 = h" using ins [of 2 si2] by auto
  have nn: "\<not> is_null_node (?n i)" if "i < 3" for i
    using that hn by (simp add: is_null_node_def NODE_GROUP_INCLUDE_NODES_def)
  obtain st4 st5 where st45: "INIT_NODE_LIST_HEAD (?n 0) (NodeID ?s3 (?n 0)) ?s3 = Some st4"
    "INIT_NODE_LIST_HEAD (?n 1) (NodeID st4 (?n 1)) st4 = Some st5"
    "INIT_NODE_LIST_HEAD (?n 2) (NodeID st5 (?n 2)) st5 = Some ?s6"
    using init by (auto split: bind_splits)
  have "SystemReservedInit h st = Some (0, ?s6\<lparr>m_si := (m_si st)(v := si3)\<rparr>)"
    using a1(1) a2(1) a3(1) nn [of 0] nn [of 1] nn [of 2] st45 i1 i2 i3(1)
    by (simp add: SystemReservedInit_def Let_def)
  moreover have "released g = []" using a3(5) by (simp add: g_def released_def)
  then have "ng_inv g" "ng_used g = {0, 1, 2}"
    using a3 by (auto simp: ng_inv_def ng_used_def g_def NODE_GROUP_INCLUDE_NODES_def)
  ultimately show ?thesis using i3(2) a3(4) by (intro that [of si3 g]) (simp_all add: g_def)
qed

section \<open>CNGInfo::Init\<close>

lemma INIT_NG_LIST_HEAD_spec:
  "ng_valid st p \<Longrightarrow> INIT_NG_LIST_HEAD p st =
     Some (st\<lparr>m_links := (m_links st)(p := \<lparr>nl_prev = p, nl_next = p\<rparr>)\<rparr>)"
  by (cases "m_links st p") (simp add: INIT_NG_LIST_HEAD_def M_HANDLE_valid set_nl_simps)

lemma ring_self: "n h = h \<Longrightarrow> p h = h \<Longrightarrow> ring n p h []"
  by (simp add: ring_Nil)

text \<open>The store right after formatting.\<close>

definition fresh_store :: "node_store \<Rightarrow> node_store \<Rightarrow> bool" where
  "fresh_store st st' \<longleftrightarrow> ns_inv st' [] [] \<and> second_of st' = second_of st
    \<and> ni_min_id (ni st') = 256 \<and> ng_step st' = ng_step st \<and> ni_used_node (ni st') = 0
    \<and> ng_used (m_ng st' (ni_sys_zone (ni st'))) = {0, 1, 2} \<and> ng_nid (m_ng st' (ni_sys_zone (ni st'))) = 0
    \<and> (\<forall>i\<in>{0, 1, 2}. at_lru_prev (m_ng st' (ni_sys_zone (ni st'))) i = i
           \<and> at_lru_next (m_ng st' (ni_sys_zone (ni st'))) i = i)"

lemma NGI_Init_run:
  assumes ix: "index_ok st m" "0 < m"
    and a1: "BM_Calloc SIZEOF_NG_INFO_T (bm st) = Some (v, b)" "v \<noteq> 0"
    and c1: "BM_Calloc NG_Size b = Some (h, b2)" "h \<noteq> 0"
  obtains st' where "NGI_Init st = Some (0, st')" "fresh_store st st'" "bm st' = b2"
proof -
  have ok: "BM_ok (bm st)" and fi: "firstIndex st \<noteq> INVALID_HANDLE" "fih st 0 \<noteq> INVALID_HANDLE"
    and inj: "inj_on (fih st) {j. fih st j \<noteq> INVALID_HANDLE}" using ix by (auto simp: index_ok_def)
  obtain k where a: "BM_Calloc SIZEOF_NG_INFO_T (bm st) = Some (v, b)" "BM_ok b" "memSize b = memSize (bm st)"
    "v \<noteq> 0" "SIZEOF_NG_INFO_T \<le> k" "BM_blocks b = insert (v, k) (BM_blocks (bm st))"
    using a1 by (cases rule: bmc.calloc_SomeE [OF ok, of SIZEOF_NG_INFO_T]) auto
  define s0 where "s0 = st\<lparr>bm := b, ngInfo := v, m_ni := (m_ni st)(v :=
      \<lparr>ni_min_id = 0, ni_sys_zone = INVALID_HANDLE, ni_used_ng = 0, ni_used_node = 0,
       ni_dirty_node = 0, ni_used_row = 0, ni_dirty_row = 0\<rparr>)\<rparr>"
  have ih: "NGI_Init st = InitHeader s0"
    using a(1,4) by (simp add: NGI_Init_def M_CALLOC_def INVALID_HANDLE_def s0_def)
  have lim: "v + k < memSize b" using bmc.in_limit [OF a(2), of v k] a(6) by simp
  have vA: "ng_valid s0 v" "ng_valid s0 (v + 16)"
    using lim a(4,5) by (simp_all add: ng_valid_def INVALID_HANDLE_def s0_def SIZEOF_NG_INFO_T_def)
  let ?l = "(m_links st)(v := \<lparr>nl_prev = v, nl_next = v\<rparr>, v + 16 := \<lparr>nl_prev = v + 16, nl_next = v + 16\<rparr>)"
  define s3 where "s3 = s0\<lparr>m_links := ?l\<rparr>"
  have init: "do { st1 \<leftarrow> INIT_NG_LIST_HEAD (ni_free_head s0) s0;
       st2 \<leftarrow> INIT_NG_LIST_HEAD (ni_full_head st1) st1;
       Some (upd_ni (\<lambda>x. x\<lparr>ni_min_id := SYS_MIN_NODE_ID\<rparr>) st2) } = Some s3"
    using vA by (simp add: INIT_NG_LIST_HEAD_spec ni_free_head_def ni_full_head_def s0_def)
      (simp add: s3_def s0_def upd_ni_def SYS_MIN_NODE_ID_def)
  obtain k2 where c: "BM_Calloc NG_Size b = Some (h, b2)" "BM_ok b2" "memSize b2 = memSize b" "h \<noteq> 0" "NG_Size \<le> k2"
    "h \<notin> fst ` BM_blocks b" "BM_blocks b2 = insert (h, k2) (BM_blocks b)"
    using c1 by (cases rule: bmc.calloc_SomeE [OF a(2), of NG_Size]) auto
  have hv: "h \<noteq> v" "h \<noteq> v + 16"
    using bmc.calloc_apart [OF c(2,7,6), of v k 0] bmc.calloc_apart [OF c(2,7,6), of v k 16] a(5,6)
    by (simp_all add: SIZEOF_NG_INFO_T_def)
  define s4 where "s4 = s3\<lparr>bm := b2, m_ng := (m_ng st)(h := NG_Init 0 (m_ng st h)),
     m_links := ?l(h := \<lparr>nl_prev = INVALID_HANDLE, nl_next = INVALID_HANDLE\<rparr>),
     m_ni := (m_ni s3)(v := (m_ni s3 v)\<lparr>ni_min_id := 256, ni_used_ng := 1\<rparr>), statUsedNG := 1\<rparr>"
  have al: "AllocateNG s3 = Some (h, s4)"
    using c(1,4) by (simp add: AllocateNG_def M_CALLOC_def INVALID_HANDLE_def s4_def s3_def s0_def Let_def upd_ni_def
        NODE_GROUP_INCLUDE_NODES_def)
  have h4: "ng_valid s4 h" by (rule block_valid) (use c in \<open>auto simp: s4_def\<close>)
  obtain g si where sr: "SystemReservedInit h s4 = Some (0, s4\<lparr>m_ng := (m_ng s4)(h := g), m_si := (m_si s4)(fih st 0 := si)\<rparr>)"
    "ng_nid g = 0" "ng_inv g" "ng_used g = {0, 1, 2}" "si_h si 0 = h" "\<forall>i\<in>{0, 1, 2}. at_lru_prev g i = i \<and> at_lru_next g i = i"
    by (rule SystemReservedInit_spec [of s4 h "m_ng st h" "fih st 0"])
      (use h4 fi in \<open>simp_all add: s4_def s3_def s0_def\<close>)
  define s5 where "s5 = s4\<lparr>m_ng := (m_ng s4)(h := g), m_si := (m_si s4)(fih st 0 := si)\<rparr>"
  have mh: "M_HANDLE s5 h = h" using M_HANDLE_valid [OF h4] by (simp add: M_HANDLE_def s5_def)
  define st' where e': "st' = (upd_ni (\<lambda>x. x\<lparr>ni_sys_zone := h, ni_used_ng := 1, ni_used_node := 0,
       ni_dirty_node := 0, ni_used_row := 0, ni_dirty_row := 0\<rparr>) s5)\<lparr>statUsedNG := 1, statUsedNode := 0,
       statDirtyNode := 0, statDirtyRow := 0, statUsedRow := 0, statEmptyNode := 0\<rparr>"
  have run: "NGI_Init st = Some (0, st')"
    using ih init al sr(1) c(4) mh unfolding s5_def [symmetric] e'
    by (auto simp: InitHeader_def INVALID_HANDLE_def Let_def split: bind_splits)
  have f: "bm st' = b2" "ngInfo st' = v" "m_fi st' = m_fi st" "firstIndex st' = firstIndex st"
    "m_si st' = (m_si st)(fih st 0 := si)" "m_ng st' = (m_ng st)(h := g)"
    "m_links st' = ?l(h := \<lparr>nl_prev = INVALID_HANDLE, nl_next = INVALID_HANDLE\<rparr>)"
    "ni_min_id (m_ni st' v) = 256" "ni_sys_zone (m_ni st' v) = h" "ni_used_node (m_ni st' v) = 0" "ng_step st' = ng_step st"
    by (simp_all add: e' upd_ni_def s5_def s4_def s3_def s0_def)
  have "second_of st' = second_of st" by (simp add: second_of_def fun_eq_iff f)
  moreover have "ni_min_id (ni st') = 256" "ng_step st' = ng_step st" "ni_used_node (ni st') = 0"
    "ng_used (m_ng st' (ni_sys_zone (ni st'))) = {0, 1, 2}" "ng_nid (m_ng st' (ni_sys_zone (ni st'))) = 0"
    "\<forall>i\<in>{0, 1, 2}. at_lru_prev (m_ng st' (ni_sys_zone (ni st'))) i = i
           \<and> at_lru_next (m_ng st' (ni_sys_zone (ni st'))) i = i"
    using sr by (simp_all add: f)
  moreover have val: "ng_valid st' v" "ng_valid st' (v + 16)"
    using vA a(3) c(3) by (simp_all add: ng_valid_def f s0_def)
  have lk: "links_ok st' [] []" unfolding links_ok_def
    using hv val by (auto simp: ni_free_head_def ni_full_head_def f intro!: ring_self)
  have "group_ok st' h"
  proof -
    have "OFFSET1 0 = 0" "OFFSET2 0 = 0" by (simp_all add: OFFSET1_div OFFSET2_div)
    then have "group_indexed st' h" using sr fi by (simp add: group_indexed_def second_of_def f)
    then show ?thesis using sr c(7) by (simp add: group_ok_def f)
  qed
  with lk have "ns_inv st' [] []"
    using a c fi inj by (auto simp: ns_inv_def groups_def f MAX_NODE_IDS_def)
  ultimately show ?thesis using run that f(1) unfolding fresh_store_def by blast
qed

lemma NGI_Init_ok:
  assumes ix: "index_ok st m" "0 < m" and e: "NGI_Init st = Some (0, st')"
  shows "fresh_store st st'"
proof -
  have ok: "BM_ok (bm st)" using ix by (simp add: index_ok_def)
  obtain v b where a: "BM_Calloc SIZEOF_NG_INFO_T (bm st) = Some (v, b)" "v \<noteq> 0" "BM_ok b" "ng_valid (st\<lparr>bm := b\<rparr>) v"
    "ng_valid (st\<lparr>bm := b\<rparr>) (v + 16)"
  proof (cases rule: bmc.calloc_SomeE [OF ok, of SIZEOF_NG_INFO_T])
    case (1 b)
    with e show ?thesis by (simp add: NGI_Init_def M_CALLOC_def INVALID_HANDLE_def)
  next
    case (2 v k b)
    with bmc.in_limit [of b v k] show ?thesis
      by (intro that [of v b]) (auto simp: ng_valid_def INVALID_HANDLE_def SIZEOF_NG_INFO_T_def)
  qed
  show ?thesis
  proof (cases rule: bmc.calloc_SomeE [OF a(3), of NG_Size])
    case (1 b2)
    with e a(1,2,4,5) show ?thesis
      by (auto simp: NGI_Init_def M_CALLOC_def INVALID_HANDLE_def InitHeader_def AllocateNG_def ni_free_head_def
          ni_full_head_def INIT_NG_LIST_HEAD_def set_nl_prev_def set_nl_next_def ng_valid_def upd_ni_def Let_def)
  next
    case (2 h k b2)
    with NGI_Init_run [OF ix a(1,2) 2(1)] e show ?thesis by force
  qed
qed

end
