(* ===== verification/Bin_Malloc_Fresh.thy ===== *)
theory Bin_Malloc_Fresh
  imports Bin_Malloc_Props
begin

text \<open>
  Allocation on a segment without free chunks: every bin is empty, so the request is served at
  the top.  This fixes the result of the first allocations after formatting.
\<close>

lemma packed_empty:
  assumes "heap_inv st bs" "free_of bs = {}" "i < NBINS"
  shows "EmptyBin st i"
proof -
  obtain xs where "dll st (SBin i) xs" "set xs = bin_addrs {} i"
    using assms unfolding heap_inv_def bins_ok_def by metis
  then have "dll st (SBin i) []" by (simp add: bin_addrs_def)
  then show ?thesis by (simp add: dll_Nil EmptyBin_def empty_bin_def)
qed

lemma packed_large:
  assumes inv: "heap_inv st bs" and p: "free_of bs = {}"
  shows "malloc_large sz st = (let (q, st1) = TopAlloc sz st in Some (Ptr2Handle st1 q, st1))"
proof -
  note e = packed_empty [OF inv p]
  have ok: "bins_ok st (free_of bs)" using inv by (simp add: heap_inv_def)
  have "\<not> next_bin st (bin_index sz) < NBINS"
    using next_bin_spec(3) [OF ok bin_index_next] e by blast
  moreover have "bin_first_fit st sz SEARCH_LIMIT (bin_hNextChunk (m_ptBin st (bin_index sz))) = None"
    using e [OF bin_index_less] by (simp add: EmptyBin_def SEARCH_LIMIT_def eval_nat_numeral)
  ultimately show ?thesis by (simp add: malloc_large_def search_next_bin_def Let_def)
qed

lemma packed_InterMalloc:
  assumes inv: "heap_inv st bs" and p: "free_of bs = {}" and r: "\<not> REQUEST_OUT_OF_RANGE req"
    and room: "hTop st + request2size req + MINSIZE < memSize st"
  obtains st' where "InterMalloc req st = Some (chunk2mem (hTop st), st')"
    "heap_inv st' (bs @ [(hTop st, request2size req, True)])" "frame st' = frame st"
    "hTop st' = hTop st + request2size req"
proof -
  let ?sz = "request2size req"
  note sz = request2size_ok(1) [OF r]
  have small: "SmallBinMalloc ?sz st = (None, ClearBinBitMap (smallbin_index ?sz) st)"
    and ei: "EmptyBin st (smallbin_index ?sz)" and si: "smallbin_index ?sz < NBINS" if "in_smallbin_range ?sz"
  proof -
    have "smallbin_index ?sz = bin_index ?sz" using that by (simp add: bin_index_def)
    then show i: "smallbin_index ?sz < NBINS" by simp
    show e: "EmptyBin st (smallbin_index ?sz)" by (rule packed_empty [OF inv p i])
    show "SmallBinMalloc ?sz st = (None, ClearBinBitMap (smallbin_index ?sz) st)"
      using e by (simp add: SmallBinMalloc_def BinMalloc_def EmptyBin_def Let_def)
  qed
  define s1 where "s1 = (if in_smallbin_range ?sz then ClearBinBitMap (smallbin_index ?sz) st else st)"
  have h1: "heap_inv s1 bs" "frame s1 = frame st" "hTop s1 = hTop st" "memSize s1 = memSize st"
    using inv ClearBinBitMap_empty_inv [OF inv ei si] by (auto simp: s1_def heap_simps)
  have e1: "InterMalloc req st = malloc_large ?sz s1"
    using r small by (simp add: InterMalloc_def s1_def Let_def)
  have nr: "\<not> hTop s1 + ?sz + MINSIZE \<ge> memSize s1" using room h1 by simp
  obtain st' where t: "TopAlloc ?sz s1 = (Some (chunk2mem (hTop s1)), st')"
    "heap_inv st' (bs @ [(hTop s1, ?sz, True)])" "frame st' = frame s1" "hTop st' = hTop s1 + ?sz"
    by (rule TopAlloc_heap [OF h1(1) sz nr])
  then have "Ptr2Handle st' (Some (chunk2mem (hTop s1))) = chunk2mem (hTop s1)"
    by (intro Ptr2Handle_block(2)) (auto simp: heap_inv_def)
  with t e1 h1 packed_large [OF h1(1) p, of ?sz] show ?thesis by (intro that [of st']) simp_all
qed

lemma packed_Calloc:
  assumes inv: "BM_inv st bs" and p: "free_of bs = {}" and r: "\<not> REQUEST_OUT_OF_RANGE req"
    and room: "hTop st + request2size req + MINSIZE < memSize st"
  obtains st' bs' where "BM_Calloc req st = Some (chunk2mem (hTop st), st')" "BM_inv st' bs'" "free_of bs' = {}"
    "hTop st' = hTop st + request2size req" "memSize st' = memSize st"
proof -
  let ?s0 = "set_head (\<lambda>h. h\<lparr>m_tLastFreeChunkSize := 0\<rparr>) st" and ?sz = "request2size req"
  let ?bs = "bs @ [(hTop st, ?sz, True)]"
  have h0: "heap_inv ?s0 bs" and f0: "frame ?s0 = frame st"
    using forget_free BM_inv_heap [OF inv] by blast+
  have t0: "hTop ?s0 = hTop st" "memSize ?s0 = memSize st" by (simp_all add: set_head_def)
  obtain st1 where i: "InterMalloc req ?s0 = Some (chunk2mem (hTop st), st1)" "heap_inv st1 ?bs" "frame st1 = frame ?s0"
    "hTop st1 = hTop st + ?sz"
    by (rule packed_InterMalloc [OF h0 p r]) (use room t0 in \<open>auto\<close>)
  have al: "allocated bs ?bs (hTop st) ?sz"
    unfolding allocated_def by (intro exI [of _ "live bs"] exI [of _ "[]"]) simp
  have f1: "frame st1 = frame st" using i(3) f0 by simp
  let ?s2 = "account_alloc (chunk2mem (hTop st)) req st1"
  let ?s3 = "user_memset (chunk2mem (hTop st)) 0 req ?s2"
  have "BM_inv ?s2 ?bs" by (rule account_alloc_inv [OF inv f1 i(2) al])
  then have "BM_inv ?s3 ?bs" by (rule user_memset_inv)
  moreover have "BM_Calloc req st = Some (chunk2mem (hTop st), ?s3)"
    using i(1) by (simp add: BM_Calloc_def BM_Malloc_def chunk2mem_def INVALID_HANDLE_def)
  moreover have "free_of ?bs = {}" using p by simp
  moreover have "hTop ?s3 = hTop st + ?sz" "memSize ?s3 = memSize st"
    using i(4) frame_eqD(2) [OF f1] by (simp_all add: user_memset_def)
  ultimately show ?thesis using that by blast
qed

end
