(* ===== verification/Node_Store_Correct.thy ===== *)
theory Node_Store_Correct
  imports Node_Store_Init Bin_Malloc_Fresh Bin_Malloc_Correct
begin

text \<open>
  The correctness properties of the node groups, the node index, the LRU lists and their
  manager, with witnesses on \<open>ex_store\<close>, a store formatted in a segment of ten million bytes.
\<close>

section \<open>A store to evaluate on\<close>

definition ex_ng :: node_group where
  "ex_ng = \<lparr>dele_top = 0, dele_count = 0, ng_free = 0, ng_nid = 0, ng_attr_offset = [], at_next = (\<lambda>_. 0),
     at_lru_prev = (\<lambda>_. 0), at_lru_next = (\<lambda>_. 0), at_vd = (\<lambda>_. 0), at_dirty = (\<lambda>_. False)\<rparr>"

definition ex_store :: node_store where
  "ex_store = \<lparr>bm = snd (BM_Init 10000000 ex_raw), m_links = (\<lambda>_. \<lparr>nl_prev = 0, nl_next = 0\<rparr>), m_ng = (\<lambda>_. ex_ng),
     m_fi = (\<lambda>_. \<lparr>fi_used = 0, fi_h = (\<lambda>_. 0)\<rparr>), m_si = (\<lambda>_. zero_second_index),
     m_ni = (\<lambda>_. \<lparr>ni_min_id = 0, ni_sys_zone = 0, ni_used_ng = 0, ni_used_node = 0, ni_dirty_node = 0,
                  ni_used_row = 0, ni_dirty_row = 0\<rparr>),
     firstIndex = 0, ngInfo = 0, emptyCnt = 0, emptyStartupMode = CREATED, ng_step = 1, ng_fail = False,
     statUsedNG = 0, statUsedNode = 0, statDirtyNode = 0, statEmptyNode = 0, statUsedRow = 0, statDirtyRow = 0\<rparr>"

lemma request_sizes:
  "request2size INDEX_1_SIZE = 2064" "request2size INDEX_2_SIZE = 524304" "request2size SIZEOF_NG_INFO_T = 88"
  "request2size NG_Size = 5208" "\<not> REQUEST_OUT_OF_RANGE INDEX_1_SIZE" "\<not> REQUEST_OUT_OF_RANGE INDEX_2_SIZE"
  "\<not> REQUEST_OUT_OF_RANGE SIZEOF_NG_INFO_T" "\<not> REQUEST_OUT_OF_RANGE NG_Size"
  by (simp_all add: request2size_def REQUEST_OUT_OF_RANGE_def INDEX_1_SIZE_def INDEX_2_SIZE_def SIZEOF_NG_INFO_T_def
      NG_Size_def BaseHeaderSize_def AttrSize_def AttrCount_def NG_ATTR_SIZE_def NODE_GROUP_INCLUDE_NODES_def
      MALLOC_ALIGN_MASK_def MINSIZE_def mask8_def)

lemma ex_store_formats:
  obtains st1 st2 where "NI_Init 10000000 ex_store = Some (0, st1)" "NGI_Init st1 = Some (0, st2)"
    "index_ok st1 1" "fresh_store st1 st2" "ng_step st2 = 1"
    "\<exists>bs. BM_inv (bm st2) bs \<and> free_of bs = {} \<and> hTop (bm st2) = 539872 \<and> memSize (bm st2) = 10000000"
proof -
  define b0 where "b0 = bm ex_store"
  obtain st' where i: "BM_Init 10000000 ex_raw = (0, st')" "BM_inv st' []" "memSize st' = 10000000"
    using BM_Init_inv [OF _ _ ex_raw_min, of 10000000] by auto
  then have b0: "BM_inv b0 []" "memSize b0 = 10000000" by (simp_all add: b0_def ex_store_def)
  have "m_pstHead b0 = Init_head 10000000"
    using i(1) by (simp add: b0_def ex_store_def) (auto simp: BM_Init_def heap_simps split: if_splits)
  then have t0: "hTop b0 = 8208"
    by (simp add: Init_head_def InitSign_def Init_bottom_def Init_reserve_def SIZEOF_CMemHead_def SIZEOF_CBin_def
        NBINS_def NFASTBINS_def TTC_RESERVE_SIZE_def MALLOC_ALIGN_MASK_def mask8_def)
  obtain b1 bs1 where c1: "BM_Calloc INDEX_1_SIZE b0 = Some (chunk2mem 8208, b1)" "BM_inv b1 bs1" "free_of bs1 = {}"
    "hTop b1 = 10272" "memSize b1 = 10000000"
    using packed_Calloc [OF b0(1), of INDEX_1_SIZE] t0 b0(2) by (auto simp: request_sizes MINSIZE_def)
  obtain b2 bs2 where c2: "BM_Calloc INDEX_2_SIZE b1 = Some (chunk2mem 10272, b2)" "BM_inv b2 bs2" "free_of bs2 = {}"
    "hTop b2 = 534576" "memSize b2 = 10000000"
    using packed_Calloc [OF c1(2,3), of INDEX_2_SIZE] c1(4,5) by (auto simp: request_sizes MINSIZE_def)
  obtain b3 bs3 where c3: "BM_Calloc SIZEOF_NG_INFO_T b2 = Some (chunk2mem 534576, b3)" "BM_inv b3 bs3" "free_of bs3 = {}"
    "hTop b3 = 534664" "memSize b3 = 10000000"
    using packed_Calloc [OF c2(2,3), of SIZEOF_NG_INFO_T] c2(4,5) by (auto simp: request_sizes MINSIZE_def)
  obtain b4 bs4 where c4: "BM_Calloc NG_Size b3 = Some (chunk2mem 534664, b4)" "BM_inv b4 bs4" "free_of bs4 = {}"
    "hTop b4 = 539872" "memSize b4 = 10000000"
    using packed_Calloc [OF c3(2,3), of NG_Size] c3(4,5) by (auto simp: request_sizes MINSIZE_def)
  have "ng_step ex_store = 1" by (simp add: ex_store_def)
  then obtain st1 where s1: "NI_Init 10000000 ex_store = Some (0, st1)" "bm st1 = b2" "ng_step st1 = 1"
    using c1(1) c2(1) unfolding b0_def
    by (auto simp: NI_Init_def M_CALLOC_def PreAllocateIndex2_def new_second_index_def chunk2mem_def INVALID_HANDLE_def
        Let_def set_fi_h_def)
  have ok: "BM_ok (bm ex_store)" using b0(1) by (auto simp: BM_ok_def b0_def)
  obtain n where n: "index_ok st1 n" "0 < n" by (rule NI_Init_ok [OF ok s1(1)]) simp
  have "n \<le> 1"
  proof -
    have "fih st1 j = INVALID_HANDLE" if "0 < j" for j
      using s1(1) c1(1) c2(1) that unfolding b0_def
      by (auto simp: NI_Init_def M_CALLOC_def PreAllocateIndex2_def new_second_index_def chunk2mem_def INVALID_HANDLE_def
          Let_def set_fi_h_def)
    then show ?thesis using n(1) unfolding index_ok_def by (metis One_nat_def leI less_one)
  qed
  with n have ix: "index_ok st1 1" by (simp add: le_Suc_eq)
  obtain st2 where "NGI_Init st1 = Some (0, st2)" "fresh_store st1 st2" "bm st2 = b4"
    using NGI_Init_run [OF ix, of "chunk2mem 534576" b3 "chunk2mem 534664" b4] c3(1) c4(1) s1(2)
    by (auto simp: chunk2mem_def)
  with s1(1,3) ix c4 show ?thesis by (intro that [of st1 st2]) (auto simp: fresh_store_def)
qed

lemma ex_ready:
  obtains st where "ns_inv st [] []" "ng_step st = 1" "ni_min_id (ni st) = 256" "index_covers st (2 ^ 24)"
    "\<exists>bs. BM_inv (bm st) bs \<and> free_of bs = {} \<and> hTop (bm st) = 539872 \<and> memSize (bm st) = 10000000"
proof -
  obtain st1 st2 where s: "index_ok st1 1" "fresh_store st1 st2" "ng_step st2 = 1"
    "\<exists>bs. BM_inv (bm st2) bs \<and> free_of bs = {} \<and> hTop (bm st2) = 539872 \<and> memSize (bm st2) = 10000000"
    by (rule ex_store_formats)
  then have f: "ns_inv st2 [] []" "ni_min_id (ni st2) = 256" "second_of st2 = second_of st1"
    by (simp_all add: fresh_store_def)
  moreover have "index_covers st2 (2 ^ 24)"
    using s(1) f(3) by (auto simp: index_covers_def second_of_def OFFSET1_div index_ok_def)
  ultimately show ?thesis using that s by blast
qed

text \<open>A store with one group, which has all its nodes left.\<close>

lemma ex_group:
  obtains st v where "ns_inv st [v] []" "ng_step st = 1" "ni_min_id (ni st) = 512" "index_covers st (2 ^ 24)"
proof -
  obtain st bs where s: "ns_inv st [] []" "ng_step st = 1" "ni_min_id (ni st) = 256" "index_covers st (2 ^ 24)"
    "BM_inv (bm st) bs" "free_of bs = {}" "hTop (bm st) = 539872" "memSize (bm st) = 10000000"
    using ex_ready by metis
  obtain b where b: "BM_Calloc NG_Size (bm st) = Some (chunk2mem 539872, b)"
    using packed_Calloc [OF s(5,6), of NG_Size] s(7,8) by (auto simp: request_sizes MINSIZE_def)
  have room: "ni_min_id (ni st) + 256 \<le> MAX_NODE_IDS" using s(3) by (simp add: MAX_NODE_IDS_def)
  show ?thesis
  proof (cases rule: AllocateNG_spec [OF s(1) room])
    case (1 st')
    with b show ?thesis by (simp add: AllocateNG_def M_CALLOC_def chunk2mem_def INVALID_HANDLE_def Let_def)
  next
    case (2 v st1 st')
    have "ng_step st1 = 1" using 2(1,2) b s(2)
      by (simp add: AllocateNG_def M_CALLOC_def chunk2mem_def INVALID_HANDLE_def Let_def upd_ni_def) auto
    then have "ng_step st' = 1" using 2(3)
      by (auto simp: FreeListAdd_def NG_LIST_ADD_def NG_LIST_ADD_between_def set_nl_prev_def set_nl_next_def
          split: bind_splits if_splits)
    moreover have "index_covers st' (2 ^ 24)"
      using s(4) index_same_second [OF 2(6)] by (simp add: index_covers_def)
    ultimately show ?thesis using 2 s(3) by (intro that [of st' v]) simp_all
  qed
qed

section \<open>Formatting\<close>

lemma fresh_lru:
  assumes f: "fresh_store st st'" and i: "i \<in> {0, 1, 2}"
  shows "lru_list st' \<lparr>c_owner = ni_sys_zone (ni st'), c_index = i\<rparr> []"
proof -
  let ?h = "ni_sys_zone (ni st')"
  let ?n = "\<lparr>c_owner = ?h, c_index = i\<rparr>"
  have inv: "ns_inv st' [] []" and u: "ng_used (m_ng st' ?h) = {0, 1, 2}" "ng_nid (m_ng st' ?h) = 0"
    and l3: "\<forall>j\<in>{0, 1, 2}. at_lru_prev (m_ng st' ?h) j = j \<and> at_lru_next (m_ng st' ?h) j = j"
    using f by (simp_all add: fresh_store_def)
  from bspec [OF l3 i] have l: "at_lru_prev (m_ng st' ?h) i = i" "at_lru_next (m_ng st' ?h) i = i" by simp_all
  have ix: "indexed st' ?n" and nid: "NodeID st' ?n = i"
    using ns_indexed [OF inv, of ?h i] u i by (auto simp: groups_def)
  have "lru_next st' i = i" "lru_prev st' i = i"
    using indexed_Next [OF ix] l nid ix by (simp_all add: LruNext_def LruPrev_def indexed_def)
  then show ?thesis using ix nid by (simp add: lru_list_def ring_Nil)
qed

text \<open>
  C8: formatting the index and then the manager of node groups, when both report success,
  establishes the invariant of the store: no group, no node in use, and the dirty, clean and
  empty LRU lists empty.
\<close>

theorem Store_Init_correct:
  assumes "BM_ok (bm st)" "msz < 2 ^ 61" "NI_Init msz st = Some (0, st1)" "NGI_Init st1 = Some (0, st2)"
  shows "ns_inv st2 [] [] \<and> ns_used st2 [] [] = {} \<and> ni_used_node (ni st2) = 0
     \<and> lru_list st2 (DirtyNodeHead st2) [] \<and> lru_list st2 (CleanNodeHead st2) [] \<and> lru_list st2 (EmptyNodeHead st2) []"
proof -
  obtain n where n: "index_ok st1 n" "0 < n" by (rule NI_Init_ok [OF assms(1,3,2)])
  have f: "fresh_store st1 st2" by (rule NGI_Init_ok [OF n assms(4)])
  then have inv: "ns_inv st2 [] []" and u: "ni_used_node (ni st2) = 0" unfolding fresh_store_def by blast+
  have "ni_sys_zone (ni st2) \<noteq> INVALID_HANDLE"
    using block_valid(3) [OF ns_invD(1) [OF inv]] group_okD(5) [OF ns_invD(4) [OF inv]] by (simp add: groups_def)
  then show ?thesis
    using inv u fresh_lru [OF f] by (simp add: ns_used_def DirtyNodeHead_def CleanNodeHead_def EmptyNodeHead_def
        sys_node_def SYS_DIRTY_NODE_INDEX_def SYS_CLEAN_NODE_INDEX_def SYS_EMPTY_NODE_INDEX_def)
qed

theorem Store_Init_correct_witness:
  "\<exists>st1 st2. BM_ok (bm ex_store) \<and> NI_Init 10000000 ex_store = Some (0, st1) \<and> NGI_Init st1 = Some (0, st2)
     \<and> ns_inv st2 [] [] \<and> ns_used st2 [] [] = {} \<and> ni_used_node (ni st2) = 0
     \<and> lru_list st2 (DirtyNodeHead st2) [] \<and> lru_list st2 (CleanNodeHead st2) [] \<and> lru_list st2 (EmptyNodeHead st2) []"
proof -
  obtain st1 st2 where s: "NI_Init 10000000 ex_store = Some (0, st1)" "NGI_Init st1 = Some (0, st2)"
    by (rule ex_store_formats)
  have "BM_ok (bm ex_store)"
    using BM_Init_inv [OF _ _ ex_raw_min, of 10000000] by (auto simp: BM_ok_def ex_store_def)
  with Store_Init_correct [OF this _ s] s show ?thesis by auto
qed

section \<open>Allocation of nodes\<close>

lemma CNode_eta: "\<lparr>c_owner = c_owner n, c_index = c_index n\<rparr> = n"
  by (cases n) simp

lemma used_indexed:
  assumes "ns_inv st fs us" "n \<in> ns_used st fs us"
  shows "indexed st n" and "NodeID st n = ng_nid (m_ng st (c_owner n)) + c_index n"
  using ns_indexed [OF assms(1), of "c_owner n" "c_index n"] assms(2)
  by (auto simp: ns_used_def groups_def CNode_eta)



text \<open>
  C10: releasing a node in use returns, takes it out of the nodes in use and no other, and
  keeps the invariant; a full group goes back to the free list.
\<close>

theorem ReleaseNode_correct:
  assumes "ns_inv st fs us" "n \<in> ns_used st fs us"
  shows "\<exists>st' fs' us'. NI_ReleaseNode n st = Some st' \<and> ns_inv st' fs' us'
     \<and> ns_used st' fs' us' = ns_used st fs us - {n} \<and> c_owner n \<in> set fs'"
proof -
  obtain st' fs' us' where r: "NI_ReleaseNode n st = Some st'" "ns_inv st' fs' us'"
    "ns_used st' fs' us' = ns_used st fs us - {n}" "c_owner n \<in> set fs'"
    by (rule NI_ReleaseNode_spec [OF assms])
  then show ?thesis by blast
qed

lemma ex_one_node:
  obtains st fs us n where "ns_inv st fs us" "n \<in> ns_used st fs us"
proof -
  obtain st v where s: "ns_inv st [v] []" "ng_step st = 1" "ni_min_id (ni st) = 512" "index_covers st (2 ^ 24)"
    by (rule ex_group)
  have "0 < ng_step st" "ni_min_id (ni st) + 256 * ng_step st \<le> MAX_NODE_IDS"
    "index_covers st (ni_min_id (ni st) + 256 * ng_step st)"
    using s by (simp_all add: MAX_NODE_IDS_def index_covers_def)
  from s(1) this show ?thesis
  proof (cases rule: NI_AllocateNode_spec)
    case (2 n st' fs' us')
    then show ?thesis by (intro that [of st' fs' us' n]) simp_all
  qed simp
qed

theorem ReleaseNode_correct_witness:
  "\<exists>st fs us n. ns_inv st fs us \<and> n \<in> ns_used st fs us \<and> (\<exists>st' fs' us'. NI_ReleaseNode n st = Some st'
     \<and> ns_inv st' fs' us' \<and> ns_used st' fs' us' = ns_used st fs us - {n} \<and> c_owner n \<in> set fs')"
proof -
  obtain st fs us n where s: "ns_inv st fs us" "n \<in> ns_used st fs us" by (rule ex_one_node)
  from ReleaseNode_correct [OF s] s show ?thesis
    by (intro exI [of _ st] exI [of _ fs] exI [of _ us] exI [of _ n]) simp
qed

text \<open>
  C11: two different nodes in use have different ids, and the index maps each id back.
\<close>

theorem NodeID_Search_roundtrip:
  assumes "ns_inv st fs us" "n \<in> ns_used st fs us"
  shows "I_SEARCH st (NodeID st n) = n \<and> NodeID st n \<noteq> INVALID_NODE_ID
     \<and> (\<forall>m\<in>ns_used st fs us. NodeID st m = NodeID st n \<longrightarrow> m = n)"
proof -
  have s: "I_SEARCH st (NodeID st m) = m" if "m \<in> ns_used st fs us" for m
    using used_indexed(1) [OF assms(1) that] by (simp add: indexed_def)
  have "NodeID st n \<noteq> INVALID_NODE_ID"
  proof
    assume "NodeID st n = INVALID_NODE_ID"
    then have "I_SEARCH st (NodeID st n) = null_node" by (simp add: I_SEARCH_def)
    moreover have "c_owner n \<noteq> INVALID_HANDLE" using used_indexed(1) [OF assms] by (simp add: indexed_def)
    ultimately show False using s [OF assms(2)] by (simp add: null_node_def)
  qed
  moreover have "m = n" if "m \<in> ns_used st fs us" "NodeID st m = NodeID st n" for m
    using s [OF that(1)] s [OF assms(2)] that(2) by metis
  ultimately show ?thesis using s [OF assms(2)] by blast
qed

theorem NodeID_Search_roundtrip_witness:
  "\<exists>st fs us n. ns_inv st fs us \<and> n \<in> ns_used st fs us \<and> I_SEARCH st (NodeID st n) = n
     \<and> NodeID st n \<noteq> INVALID_NODE_ID \<and> (\<forall>m\<in>ns_used st fs us. NodeID st m = NodeID st n \<longrightarrow> m = n)"
proof -
  obtain st fs us n where s: "ns_inv st fs us" "n \<in> ns_used st fs us" by (rule ex_one_node)
  from NodeID_Search_roundtrip [OF s] s show ?thesis
    by (intro exI [of _ st] exI [of _ fs] exI [of _ us] exI [of _ n]) simp
qed

section \<open>LRU lists\<close>

lemma lru_frame_head: "lru_frame st st' \<Longrightarrow> DirtyNodeHead st' = DirtyNodeHead st"
  by (simp add: DirtyNodeHead_def sys_node_def lru_frame_def)

text \<open>
  Inserting a node into the dirty LRU list puts it at the front and leaves every LRU
  list that shares no node with it as it is; removing it again gives back the list, the node
  linked to itself.
\<close>

theorem DirtyLru_insert_remove:
  assumes "lru_list st (DirtyNodeHead st) xs" "indexed st n" "NodeID st n \<notin> insert (NodeID st (DirtyNodeHead st)) (set xs)"
    "lru_list st h ys" "insert (NodeID st h) (set ys) \<inter> insert (NodeID st n) (insert (NodeID st (DirtyNodeHead st)) (set xs)) = {}"
  shows "\<exists>st1 st2. Insert2DirtyLru n st = Some st1 \<and> lru_list st1 (DirtyNodeHead st1) (NodeID st1 n # xs)
     \<and> lru_list st1 h ys
     \<and> RemoveFromLru n st1 = Some st2 \<and> lru_list st2 (DirtyNodeHead st2) xs \<and> lru_list st2 h ys
     \<and> NotInLruList st2 n = Some True"
proof -
  let ?d = "DirtyNodeHead st"
  have "indexed st ?d" using assms(1) by (simp add: lru_list_def)
  then have d: "?d = \<lparr>c_owner = ni_sys_zone (ni st), c_index = SYS_DIRTY_NODE_INDEX\<rparr>"
    by (auto simp: DirtyNodeHead_def sys_node_def indexed_def null_node_def split: if_splits)
  obtain st1 where s1: "NODE_LIST_ADD n ?d st = Some st1" "lru_list st1 ?d (NodeID st n # xs)" "lru_frame st st1"
    "lru_list st1 h ys"
    using lru_list_add [OF assms(1-3)] assms(4,5) by metis
  have eq: "DirtyNodeHead st1 = ?d" "NodeID st1 = NodeID st"
    using lru_frame_head [OF s1(3)] s1(3) by (simp_all add: lru_frame_def)
  have n1: "indexed st1 n" using lru_frame_indexed [OF s1(3)] assms(2) by simp
  have l1: "lru_list st1 ?d ([] @ NodeID st1 n # xs)" using s1(2) eq by simp
  obtain st2 where s2: "NODE_LIST_DEL n st1 = Some st2" "lru_list st2 ?d ([] @ xs)" "lru_frame st1 st2"
    "lru_next st2 (NodeID st1 n) = NodeID st1 n"
    and fr: "\<And>h' ys. lru_list st1 h' ys \<Longrightarrow>
      insert (NodeID st1 h') (set ys) \<inter> insert (NodeID st1 ?d) (set ([] @ NodeID st1 n # xs)) = {} \<Longrightarrow> lru_list st2 h' ys"
    using lru_list_del [OF l1 n1] by metis
  have "lru_list st2 h ys" using fr [OF s1(4)] assms(5) eq by auto
  moreover have eq2: "DirtyNodeHead st2 = ?d" "NodeID st2 = NodeID st"
    using lru_frame_head [OF s2(3)] s2(3) eq by (simp_all add: lru_frame_def)
  moreover have "indexed st2 n" using lru_frame_indexed [OF s2(3)] n1 by simp
  then have "NotInLruList st2 n = Some True"
    using indexed_Next s2(4) eq eq2 by (simp add: NotInLruList_def)
  ultimately show ?thesis using s1 s2 d eq
    by (intro exI [of _ st1] exI [of _ st2]) (simp add: Insert2DirtyLru_def RemoveFromLru_def)
qed

theorem DirtyLru_insert_remove_witness:
  "\<exists>st n h. lru_list st (DirtyNodeHead st) [] \<and> indexed st n \<and> lru_list st h []
     \<and> (\<exists>st1 st2. Insert2DirtyLru n st = Some st1 \<and> lru_list st1 (DirtyNodeHead st1) [NodeID st1 n] \<and> lru_list st1 h []
     \<and> RemoveFromLru n st1 = Some st2 \<and> lru_list st2 (DirtyNodeHead st2) [] \<and> lru_list st2 h []
     \<and> NotInLruList st2 n = Some True)"
proof -
  obtain st1 st where f: "fresh_store st1 st" using ex_store_formats by metis
  let ?n = "\<lambda>i. \<lparr>c_owner = ni_sys_zone (ni st), c_index = i\<rparr>"
  have inv: "ns_inv st [] []" and u: "ng_used (m_ng st (ni_sys_zone (ni st))) = {0, 1, 2}"
    "ng_nid (m_ng st (ni_sys_zone (ni st))) = 0" using f by (simp_all add: fresh_store_def)
  have ids: "NodeID st (?n i) = i" "indexed st (?n i)" if "i \<in> {0, 1, 2}" for i
    using ns_indexed [OF inv, of "ni_sys_zone (ni st)" i] u that by (auto simp: groups_def)
  have l: "lru_list st (?n i) []" if "i \<in> {0, 1, 2}" for i using fresh_lru [OF f that] .
  have "ni_sys_zone (ni st) \<noteq> INVALID_HANDLE" using ids(2) [of 0] by (simp add: indexed_def)
  then have d: "DirtyNodeHead st = ?n 0" by (simp add: DirtyNodeHead_def sys_node_def SYS_DIRTY_NODE_INDEX_def)
  have "\<exists>st1 st2. Insert2DirtyLru (?n 2) st = Some st1 \<and> lru_list st1 (DirtyNodeHead st1) [NodeID st1 (?n 2)]
     \<and> lru_list st1 (?n 1) [] \<and> RemoveFromLru (?n 2) st1 = Some st2 \<and> lru_list st2 (DirtyNodeHead st2) []
     \<and> lru_list st2 (?n 1) [] \<and> NotInLruList st2 (?n 2) = Some True"
    by (rule DirtyLru_insert_remove) (use d l [of 0] l [of 1] ids [of 0] ids [of 1] ids [of 2] in simp_all)
  with d l [of 0] l [of 1] ids(2) [of 2] show ?thesis
    by (intro exI [of _ st] exI [of _ "?n 2"] exI [of _ "?n 1"]) simp
qed

section \<open>Node groups\<close>

text \<open>
  The attribute arrays of a group lie behind the header, one after the other, and end
  where the memory of the group ends.
\<close>

theorem group_layout:
  "ng_attr_offset (NG_Init nid g) = [48, 1072, 3120, 5168]
   \<and> map2 (+) (ng_attr_offset (NG_Init nid g)) NG_ATTR_SIZE = tl (ng_attr_offset (NG_Init nid g)) @ [NG_Size]"
proof -
  have o: "ng_attr_offset (NG_Init nid g) = [48, 1072, 3120, 5168]"
    by (simp add: NG_Init_def fold_Init_node NG_ATTR_SIZE_def BaseHeaderSize_def AttrCount_def NODE_GROUP_INCLUDE_NODES_def)
  show ?thesis unfolding o
    by (simp add: NG_ATTR_SIZE_def NG_Size_def BaseHeaderSize_def AttrCount_def AttrSize_def
        NODE_GROUP_INCLUDE_NODES_def)
qed

text \<open>
  C12: inside a group, allocation gives an index that was not in use, until all 256 are; the
  index released last is handed out first.
\<close>

theorem group_alloc_release:
  assumes "ng_inv g"
  shows "(NG_IsFull g \<longleftrightarrow> ng_used g = {..<256})
     \<and> (\<not> NG_IsFull g \<longrightarrow> (\<exists>i g'. NG_AllocateNode g = (Some i, g') \<and> ng_inv g' \<and> i \<notin> ng_used g
          \<and> ng_used g' = insert i (ng_used g)))
     \<and> (\<forall>i\<in>ng_used g. ng_inv (node_Release i g) \<and> ng_used (node_Release i g) = ng_used g - {i}
          \<and> fst (NG_AllocateNode (node_Release i g)) = Some i)"
  using ng.full_used [OF assms] ng.alloc_slot [OF assms] ng.release_slot [OF assms] ng.reuse [OF assms]
  by (simp add: NODE_GROUP_INCLUDE_NODES_def)

theorem group_alloc_release_witness:
  "ng_inv (NG_Init 256 ex_ng) \<and> \<not> NG_IsFull (NG_Init 256 ex_ng)
     \<and> (\<exists>i g'. NG_AllocateNode (NG_Init 256 ex_ng) = (Some i, g') \<and> ng_inv g' \<and> i \<notin> ng_used (NG_Init 256 ex_ng)
          \<and> ng_used g' = insert i (ng_used (NG_Init 256 ex_ng)))"
  using group_alloc_release [OF NG_Init_inv(1), of 256 ex_ng] NG_Init_inv [of 256 ex_ng]
  by (simp add: NG_IsFull_def NODE_GROUP_INCLUDE_NODES_def)

end
