(* ===== verification/Cache_Chain.thy ===== *)
theory Cache_Chain
  imports Cache_Pool Node_Store_Correct
begin

text \<open>
  The chains of the hash as lists of node ids.  The locale \<open>next_links\<close> is the interface of one link field;
  it is interpreted on the next-node attribute of the node store.  The rest of the theory says what
  the operations of the node store leave alone of the attributes of the other nodes.
\<close>

section \<open>Chains\<close>

fun nchain :: "(nat \<Rightarrow> nat) \<Rightarrow> nat \<Rightarrow> nat list \<Rightarrow> bool" where
  "nchain f i [] \<longleftrightarrow> i = INVALID_NODE_ID"
| "nchain f i (x # xs) \<longleftrightarrow> i = x \<and> i \<noteq> INVALID_NODE_ID \<and> nchain f (f x) xs"

lemma nchain_cong: "nchain f i xs \<Longrightarrow> (\<And>x. x \<in> set xs \<Longrightarrow> g x = f x) \<Longrightarrow> nchain g i xs"
  by (induction xs arbitrary: i) auto

lemma chain_head: "nchain f i xs \<Longrightarrow> i = (case xs of [] \<Rightarrow> INVALID_NODE_ID | x # _ \<Rightarrow> x)"
  by (cases xs) auto

lemma chain_INVALID: "nchain f i xs \<Longrightarrow> INVALID_NODE_ID \<notin> set xs"
  by (induction xs arbitrary: i) auto

lemma nchain_append: "nchain f i (us @ x # vs) \<Longrightarrow> nchain f x (x # vs)"
  by (induction us arbitrary: i) auto

lemma chain_unlink:
  "nchain f i (us @ y # x # vs) \<Longrightarrow> distinct (us @ y # x # vs) \<Longrightarrow> nchain (f(y := f x)) i (us @ y # vs)"
proof (induction us arbitrary: i)
  case Nil
  then have c: "nchain f (f x) vs" and y: "y \<notin> set vs" by simp_all
  have "nchain (f(y := f x)) (f x) vs" by (rule nchain_cong [OF c]) (use y in auto)
  with Nil.prems(1) show ?case by (simp add: fun_upd_def)
qed auto

locale next_links =
  fixes nxt :: "'s \<Rightarrow> nat \<Rightarrow> nat" and valid :: "'s \<Rightarrow> nat \<Rightarrow> bool" and set_nxt :: "nat \<Rightarrow> nat \<Rightarrow> 's \<Rightarrow> 's"
  assumes nxt_set: "valid s x \<Longrightarrow> nxt (set_nxt x v s) = (nxt s)(x := v)"
    and valid_set: "valid s x \<Longrightarrow> valid (set_nxt x v s) y = valid s y"
    and valid_id: "valid s x \<Longrightarrow> x \<noteq> INVALID_NODE_ID"
begin

lemma push:
  assumes "nchain (nxt s) i xs" "valid s x" "x \<notin> set xs"
  shows "nchain (nxt (set_nxt x i s)) x (x # xs)"
proof -
  have "nchain (nxt (set_nxt x i s)) i xs"
    by (rule nchain_cong [OF assms(1)]) (use assms(2,3) nxt_set in auto)
  then show ?thesis using assms(2) nxt_set valid_id by simp
qed

lemma unlink:
  assumes "nchain (nxt s) i (us @ y # x # vs)" "distinct (us @ y # x # vs)" "valid s y"
  shows "nchain (nxt (set_nxt y (nxt s x) s)) i (us @ y # vs)"
  unfolding nxt_set [OF assms(3)] by (rule chain_unlink [OF assms(1,2)])

lemma other_chain:
  assumes "nchain (nxt s) i xs" "valid s x" "x \<notin> set xs"
  shows "nchain (nxt (set_nxt x v s)) i xs"
  by (rule nchain_cong [OF assms(1)]) (use assms(2,3) nxt_set in auto)

end

section \<open>The attributes of a node by its id\<close>

definition nx :: "node_store \<Rightarrow> nat \<Rightarrow> nat" where
  "nx st i = (if lru_valid st i then at_next (m_ng st (c_owner (I_SEARCH st i))) (c_index (I_SEARCH st i)) else INVALID_NODE_ID)"

definition vd :: "node_store \<Rightarrow> nat \<Rightarrow> handle" where
  "vd st i = at_vd (m_ng st (c_owner (I_SEARCH st i))) (c_index (I_SEARCH st i))"

definition put_next :: "nat \<Rightarrow> nat \<Rightarrow> node_store \<Rightarrow> node_store" where
  "put_next i v st = the (set_NextNodeID (I_SEARCH st i) v st)"

lemma valid_not_null: "lru_valid st i \<Longrightarrow> \<not> is_null_node (I_SEARCH st i)"
  by (auto simp: lru_valid_def is_null_node_def I_SEARCH_def null_node_def NODE_GROUP_INCLUDE_NODES_def Let_def)

lemma valid_INVALID: "lru_valid st i \<Longrightarrow> i \<noteq> INVALID_NODE_ID"
  by (auto simp: lru_valid_def I_SEARCH_def null_node_def)

lemma I_SEARCH_INVALID [simp]: "I_SEARCH st INVALID_NODE_ID = null_node" "is_null_node null_node"
  by (simp_all add: I_SEARCH_def is_null_node_def null_node_def)

lemma valid_attrs:
  assumes "lru_valid st i"
  shows "NextNodeID st (I_SEARCH st i) = Some (nx st i)" "VDHandle st (I_SEARCH st i) = Some (vd st i)"
    "NodeID st (I_SEARCH st i) = i"
  using assms by (simp_all add: NextNodeID_def VDHandle_def nx_def vd_def lru_valid_def)

lemma valid_node_eq:
  assumes "lru_valid st i" "lru_valid st j"
  shows "I_SEARCH st i = I_SEARCH st j \<longleftrightarrow> i = j"
  using assms by (metis lru_valid_def)

section \<open>Changes that keep the ids\<close>

text \<open>A store with other groups, which have the same first ids.\<close>

lemma same_ids:
  assumes "\<And>h. ng_nid (g h) = ng_nid (m_ng st h)"
  shows "I_SEARCH (st\<lparr>m_ng := g\<rparr>) i = I_SEARCH st i" "NodeID (st\<lparr>m_ng := g\<rparr>) n = NodeID st n"
    "lru_valid (st\<lparr>m_ng := g\<rparr>) i = lru_valid st i"
proof -
  show s: "I_SEARCH (st\<lparr>m_ng := g\<rparr>) i = I_SEARCH st i" for i using assms by (simp add: I_SEARCH_def Let_def)
  show n: "NodeID (st\<lparr>m_ng := g\<rparr>) n = NodeID st n" for n using assms by (simp add: NodeID_def ng_NodeID_def)
  show "lru_valid (st\<lparr>m_ng := g\<rparr>) i = lru_valid st i" using s n by (simp add: lru_valid_def)
qed

lemma upd_ng_same: "upd_ng h f st = st\<lparr>m_ng := (m_ng st)(h := f (m_ng st h))\<rparr>"
  by (simp add: upd_ng_def)

text \<open>The attributes of every node but \<open>n\<close> are the same.\<close>

lemma upd_ng_attrs:
  fixes f :: "node_group \<Rightarrow> node_group"
  assumes n: "indexed st n" and id: "\<And>g. ng_nid (f g) = ng_nid g"
    and oth: "\<And>g j. j \<noteq> c_index n \<Longrightarrow> at_next (f g) j = at_next g j \<and> at_vd (f g) j = at_vd g j
      \<and> at_lru_next (f g) j = at_lru_next g j \<and> at_lru_prev (f g) j = at_lru_prev g j"
    and i: "lru_valid st i" "i \<noteq> NodeID st n"
  shows "nx (upd_ng (c_owner n) f st) i = nx st i" "vd (upd_ng (c_owner n) f st) i = vd st i"
    "lru_next (upd_ng (c_owner n) f st) i = lru_next st i" "lru_prev (upd_ng (c_owner n) f st) i = lru_prev st i"
proof -
  let ?st = "upd_ng (c_owner n) f st" and ?m = "I_SEARCH st i"
  note s = upd_ng_search [of f "c_owner n" st, OF id]
  have "?m \<noteq> n" using i n by (auto simp: lru_valid_def indexed_def)
  then have d: "c_owner ?m = c_owner n \<Longrightarrow> c_index ?m \<noteq> c_index n" by (metis CNode.equality old.unit.exhaust)
  show "nx ?st i = nx st i" "vd ?st i = vd st i" "lru_next ?st i = lru_next st i" "lru_prev ?st i = lru_prev st i"
    using d oth i(1) by (cases "c_owner ?m = c_owner n";
        simp add: nx_def vd_def lru_next_def lru_prev_def s; simp add: upd_ng_def)+
qed

text \<open>Writing the next-node attribute.\<close>

lemma put_next_spec:
  assumes "lru_valid st i"
  shows "set_NextNodeID (I_SEARCH st i) v st = Some (put_next i v st)"
    "nx (put_next i v st) = (nx st)(i := v)" "vd (put_next i v st) = vd st"
    "lru_next (put_next i v st) = lru_next st" "lru_prev (put_next i v st) = lru_prev st"
    "I_SEARCH (put_next i v st) = I_SEARCH st" "NodeID (put_next i v st) = NodeID st"
    "lru_valid (put_next i v st) = lru_valid st"
proof -
  let ?n = "I_SEARCH st i"
  let ?f = "\<lambda>g :: node_group. g\<lparr>at_next := (at_next g)(c_index ?n := v)\<rparr>"
  let ?st = "upd_ng (c_owner ?n) ?f st"
  have o: "c_owner ?n \<noteq> INVALID_HANDLE" using assms by (simp add: lru_valid_def)
  then have e: "set_NextNodeID ?n v st = Some ?st" by (simp add: set_NextNodeID_def)
  then have p: "put_next i v st = ?st" by (simp add: put_next_def)
  with e show "set_NextNodeID ?n v st = Some (put_next i v st)" by simp
  have s: "I_SEARCH ?st = I_SEARCH st" "NodeID ?st = NodeID st" "lru_valid ?st = lru_valid st"
    by (simp_all add: fun_eq_iff upd_ng_search)
  then show "I_SEARCH (put_next i v st) = I_SEARCH st" "NodeID (put_next i v st) = NodeID st"
    "lru_valid (put_next i v st) = lru_valid st" by (simp_all add: p)
  show "vd (put_next i v st) = vd st" "lru_next (put_next i v st) = lru_next st" "lru_prev (put_next i v st) = lru_prev st"
    by (simp_all add: p fun_eq_iff vd_def lru_next_def lru_prev_def s) (simp_all add: upd_ng_def)
  have n: "indexed st ?n" "NodeID st ?n = i" using valid_indexed [OF assms] assms by (simp_all add: lru_valid_def)
  show "nx (put_next i v st) = (nx st)(i := v)"
  proof
    fix j
    show "nx (put_next i v st) j = ((nx st)(i := v)) j"
    proof (cases "j = i")
      case True
      then show ?thesis using assms by (simp add: p nx_def s) (simp add: upd_ng_def)
    next
      case False
      then show ?thesis
        using upd_ng_attrs(1) [OF n(1), of ?f j] n(2) by (cases "lru_valid st j") (simp_all add: p, simp add: nx_def s)
    qed
  qed
qed

interpretation hl: next_links nx lru_valid put_next
  by unfold_locales (simp_all add: put_next_spec valid_INVALID)

end
