(* ===== verification/Cache_Frame.thy ===== *)
theory Cache_Frame
  imports Cache_Chain
begin

text \<open>
  What the operations of the node store leave alone: the invariant of the store under changes of
  links, the attributes of the other nodes under allocation and release of a node, and the bytes of the
  data chunks under the allocation of groups.
\<close>

section \<open>The part of a group that its invariant reads\<close>

definition ng_core :: "node_group \<Rightarrow> nat \<times> nat \<times> nat \<times> nat \<times> (nat \<Rightarrow> handle)" where
  "ng_core g = (dele_top g, dele_count g, ng_free g, ng_nid g, at_vd g)"

lemma core_inv:
  assumes "ng_core g = ng_core g'"
  shows "ng_inv g = ng_inv g'" "ng_used g = ng_used g'" "NG_IsFull g = NG_IsFull g'" "ng_nid g = ng_nid g'" "at_vd g = at_vd g'"
proof -
  have r: "released g = released g'" using assms by (simp add: ng_core_def released_def)
  with assms show "ng_inv g = ng_inv g'" "ng_used g = ng_used g'" "NG_IsFull g = NG_IsFull g'" "ng_nid g = ng_nid g'" "at_vd g = at_vd g'"
    by (simp_all add: ng_core_def ng_inv_def ng_used_def NG_IsFull_def)
qed

lemma ns_inv_groups:
  assumes inv: "ns_inv st fs us"
    and g: "\<And>h. ng_inv (m_ng st h) \<Longrightarrow> ng_inv (g h)" "\<And>h. ng_inv (m_ng st h) \<Longrightarrow> ng_used (g h) = ng_used (m_ng st h)"
      "\<And>h. NG_IsFull (g h) = NG_IsFull (m_ng st h)" "\<And>h. ng_nid (g h) = ng_nid (m_ng st h)"
  shows "ns_inv (st\<lparr>m_ng := g\<rparr>) fs us" "ns_used (st\<lparr>m_ng := g\<rparr>) fs us = ns_used st fs us"
proof -
  let ?s = "st\<lparr>m_ng := g\<rparr>"
  note d = ns_invD [OF inv]
  have gr: "groups ?s fs us = groups st fs us" by (simp add: groups_def)
  have "group_ok ?s h" if "h \<in> groups st fs us" for h
    using group_okD [OF d(4) [OF that]] g by (simp add: group_ok_def group_indexed_def second_of_def)
  moreover have "links_ok ?s fs us" by (rule links_ok_cong [OF d(2)]) simp_all
  ultimately show "ns_inv ?s fs us" using inv unfolding ns_inv_def gr by (simp add: g)
  have "ng_used (g h) = ng_used (m_ng st h)" if "h \<in> set fs \<union> set us" for h
    using g(2) group_okD(1) [OF d(4)] that by (simp add: groups_def)
  then show "ns_used ?s fs us = ns_used st fs us" by (auto simp: ns_used_def)
qed

section \<open>Changes of links\<close>

text \<open>Only the next-node and LRU attributes of nodes differ.\<close>

definition links_only :: "node_store \<Rightarrow> node_store \<Rightarrow> bool" where
  "links_only st st' \<longleftrightarrow> (\<exists>g. st' = st\<lparr>m_ng := g\<rparr> \<and> (\<forall>h. ng_core (g h) = ng_core (m_ng st h)))"

lemma links_only_refl: "links_only st st"
  unfolding links_only_def by (rule exI [of _ "m_ng st"]) simp

lemma links_only_trans: "links_only st st1 \<Longrightarrow> links_only st1 st2 \<Longrightarrow> links_only st st2"
  by (auto simp: links_only_def)

lemma links_only_upd:
  assumes "\<And>g. ng_core (f g) = ng_core g"
  shows "links_only st (upd_ng h f st)"
  unfolding links_only_def upd_ng_def by (rule exI [of _ "(m_ng st)(h := f (m_ng st h))"]) (use assms in simp)

lemma links_only_set:
  "set_LruPrev n v st = Some st' \<Longrightarrow> links_only st st'" "set_LruNext n v st = Some st' \<Longrightarrow> links_only st st'"
  "set_NextNodeID n v st = Some st' \<Longrightarrow> links_only st st'"
  by (auto simp: set_LruPrev_def set_LruNext_def set_NextNodeID_def ng_core_def split: if_splits intro!: links_only_upd)

lemma links_only_put: "lru_valid st i \<Longrightarrow> links_only st (put_next i v st)"
  using links_only_set(3) put_next_spec(1) by blast

lemma links_only_lru:
  "NODE_LIST_DEL n st = Some st' \<Longrightarrow> links_only st st'" "NODE_LIST_ADD n h st = Some st' \<Longrightarrow> links_only st st'"
  by (auto simp: NODE_LIST_DEL_def NODE_LIST_DEL_between_def NODE_LIST_ADD_def NODE_LIST_ADD_between_def
      split: bind_splits dest!: links_only_set intro: links_only_trans)

lemma links_only_same:
  assumes "links_only st st'"
  shows "I_SEARCH st' = I_SEARCH st" "NodeID st' = NodeID st" "lru_valid st' = lru_valid st" "vd st' = vd st"
    "bm st' = bm st" "ngInfo st' = ngInfo st" "m_ni st' = m_ni st" "indexed st' = indexed st"
    "ng_used (m_ng st' h) = ng_used (m_ng st h)" "ng_step st' = ng_step st" "second_of st' = second_of st"
proof -
  obtain g where e: "st' = st\<lparr>m_ng := g\<rparr>" and c: "\<And>h. ng_core (g h) = ng_core (m_ng st h)"
    using assms unfolding links_only_def by blast
  note i = same_ids [of g st, OF core_inv(4) [OF c]]
  show s: "I_SEARCH st' = I_SEARCH st" "NodeID st' = NodeID st" "lru_valid st' = lru_valid st" by (auto simp: fun_eq_iff e i)
  show "vd st' = vd st" "indexed st' = indexed st"
    unfolding vd_def indexed_def fun_eq_iff s by (simp_all add: e core_inv(5) [OF c])
  show "bm st' = bm st" "ngInfo st' = ngInfo st" "m_ni st' = m_ni st" "ng_step st' = ng_step st" "second_of st' = second_of st"
    "ng_used (m_ng st' h) = ng_used (m_ng st h)"
    by (simp_all add: e second_of_def fun_eq_iff core_inv(2) [OF c])
qed

lemma links_only_inv:
  assumes "links_only st st'" "ns_inv st fs us"
  shows "ns_inv st' fs us" "ns_used st' fs us = ns_used st fs us"
proof -
  obtain g where e: "st' = st\<lparr>m_ng := g\<rparr>" and c: "\<And>h. ng_core (g h) = ng_core (m_ng st h)"
    using assms(1) unfolding links_only_def by blast
  note i = core_inv [OF c]
  show "ns_inv st' fs us" "ns_used st' fs us = ns_used st fs us"
    unfolding e by (rule ns_inv_groups [OF assms(2)]; simp add: i)+
qed

lemma lru_frame_attrs:
  assumes "lru_frame st st'"
  shows "nx st' = nx st" "vd st' = vd st"
proof -
  have a: "at_vd (m_ng st' h) = at_vd (m_ng st h)" "at_next (m_ng st' h) = at_next (m_ng st h)" "I_SEARCH st' = I_SEARCH st"
    "lru_valid st' i = lru_valid st i" for h i using assms lru_frame_valid [OF assms] by (simp_all add: lru_frame_def)
  show "nx st' = nx st" "vd st' = vd st" by (simp_all add: fun_eq_iff nx_def vd_def a)
qed

section \<open>Writing a data handle\<close>

lemma store_VDHandle_spec:
  assumes inv: "ns_inv st fs us" and n: "n \<in> ns_used st fs us"
  obtains st' where "store_VDHandle n v st = Some st'" "ns_inv st' fs us" "ns_used st' fs us = ns_used st fs us"
    "I_SEARCH st' = I_SEARCH st" "NodeID st' = NodeID st" "lru_valid st' = lru_valid st"
    "nx st' = nx st" "lru_next st' = lru_next st" "lru_prev st' = lru_prev st"
    "vd st' (NodeID st n) = v" "\<And>i. lru_valid st i \<Longrightarrow> i \<noteq> NodeID st n \<Longrightarrow> vd st' i = vd st i"
    "bm st' = bm st" "ngInfo st' = ngInfo st" "m_ni st' = m_ni st" "\<And>h. ng_used (m_ng st' h) = ng_used (m_ng st h)"
proof -
  let ?f = "set_VDHandle (c_index n) v"
  let ?st = "upd_ng (c_owner n) ?f st"
  note ix = used_indexed [OF inv n]
  have u: "c_index n \<in> ng_used (m_ng st (c_owner n))" "ng_inv (m_ng st (c_owner n))"
    using n group_okD(1) [OF ns_invD(4) [OF inv]] by (auto simp: ns_used_def groups_def)
  have g: "ng_inv (?f (m_ng st (c_owner n)))" "ng_used (?f (m_ng st (c_owner n))) = ng_used (m_ng st (c_owner n))"
    using set_VDHandle_inv [OF u(2,1)] by simp_all
  have id: "ng_nid (?f x) = ng_nid x" for x by (simp add: set_VDHandle_def)
  have s: "I_SEARCH ?st = I_SEARCH st" "NodeID ?st = NodeID st" "lru_valid ?st = lru_valid st"
    by (simp_all add: fun_eq_iff upd_ng_search id)
  have "ns_inv ?st fs us" "ns_used ?st fs us = ns_used st fs us"
    unfolding upd_ng_same by (rule ns_inv_groups [OF inv]; use g in \<open>simp add: NG_IsFull_def set_VDHandle_def\<close>)+
  moreover have "store_VDHandle n v st = Some ?st" using ix by (simp add: store_VDHandle_def indexed_def)
  moreover have "nx ?st = nx st" "lru_next ?st = lru_next st" "lru_prev ?st = lru_prev st"
    by (simp_all add: fun_eq_iff nx_def lru_next_def lru_prev_def s) (simp_all add: upd_ng_def set_VDHandle_def)
  moreover have "vd ?st (NodeID st n) = v"
    using ix by (simp add: vd_def s indexed_def) (simp add: upd_ng_def set_VDHandle_def)
  moreover have "vd ?st i = vd st i" if "lru_valid st i" "i \<noteq> NodeID st n" for i
    by (rule upd_ng_attrs(2) [OF ix(1)]) (use that in \<open>simp_all add: set_VDHandle_def\<close>)
  moreover have "ng_used (m_ng ?st h) = ng_used (m_ng st h)" for h using g by (simp add: upd_ng_def)
  ultimately show ?thesis using s by (intro that [of ?st]) (simp_all add: upd_ng_def)
qed

section \<open>Releasing a node\<close>

lemma NG_LIST_links:
  "NG_LIST_DEL h st = Some st' \<Longrightarrow> \<exists>l. st' = st\<lparr>m_links := l\<rparr>" "NG_LIST_ADD h a st = Some st' \<Longrightarrow> \<exists>l. st' = st\<lparr>m_links := l\<rparr>"
  by (auto simp: NG_LIST_DEL_def NG_LIST_DEL_between_def NG_LIST_ADD_def NG_LIST_ADD_between_def set_nl_prev_def set_nl_next_def
      split: bind_splits if_splits)

text \<open>What the next allocation of a group depends on, and the group with the heads of the lists.\<close>

definition alloc_conf :: "node_store \<Rightarrow> nat \<times> nat \<times> handle \<times> (nat \<Rightarrow> handle)" where
  "alloc_conf st = (ng_step st, ni_min_id (ni st), ni_sys_zone (ni st), second_of st)"

lemma alloc_conf_links: "links_only st st' \<Longrightarrow> alloc_conf st' = alloc_conf st"
  by (auto simp: links_only_def alloc_conf_def second_of_def)

lemma alloc_conf_bm [simp]: "alloc_conf (st\<lparr>bm := b\<rparr>) = alloc_conf st"
  by (simp add: alloc_conf_def second_of_def fun_eq_iff)

lemma ReleaseNode_shape:
  assumes "NI_ReleaseNode n st = Some st'"
  obtains l i s where "st' = upd_ng (c_owner n) (node_Release (c_index n)) (st\<lparr>m_links := l, m_ni := i, statUsedNode := s\<rparr>)"
    "ni_sys_zone (i (ngInfo st)) = ni_sys_zone (ni st)" "ni_min_id (i (ngInfo st)) = ni_min_id (ni st)"
proof -
  from assms obtain st1 where s1: "(if NG_IsFull (m_ng st (c_owner n)) then do { s \<leftarrow> ListDel (c_owner n) st; FreeListAdd (c_owner n) s } else Some st) = Some st1"
    and e: "st' = upd_ng (c_owner n) (node_Release (c_index n))
      (let st2 = upd_ni (\<lambda>x. x\<lparr>ni_used_node := u32_sub (ni_used_node x) 1\<rparr>) st1 in st2\<lparr>statUsedNode := ni_used_node (ni st2)\<rparr>)"
    by (auto simp: NI_ReleaseNode_def Let_def split: bind_splits)
  obtain l where l: "st1 = st\<lparr>m_links := l\<rparr>"
  proof (cases "NG_IsFull (m_ng st (c_owner n))")
    case True
    with s1 show ?thesis using that
      by (auto simp: ListDel_def FreeListAdd_def split: bind_splits dest!: NG_LIST_links)
  next
    case False
    with s1 show ?thesis by (intro that [of "m_links st"]) simp
  qed
  let ?m = "upd_ni (\<lambda>x. x\<lparr>ni_used_node := u32_sub (ni_used_node x) 1\<rparr>) st1"
  have "st' = upd_ng (c_owner n) (node_Release (c_index n)) (st\<lparr>m_links := l, m_ni := m_ni ?m, statUsedNode := ni_used_node (ni ?m)\<rparr>)"
    by (simp add: e l upd_ni_def Let_def)
  moreover have "ni_sys_zone (m_ni ?m (ngInfo st)) = ni_sys_zone (ni st)" "ni_min_id (m_ni ?m (ngInfo st)) = ni_min_id (ni st)"
    by (simp_all add: l upd_ni_def)
  ultimately show ?thesis by (rule that)
qed

lemma ReleaseNode_frame:
  assumes r: "NI_ReleaseNode n st = Some st'" and n: "indexed st n"
  shows "I_SEARCH st' = I_SEARCH st" "NodeID st' = NodeID st" "lru_valid st' = lru_valid st"
    "\<And>i. lru_valid st i \<Longrightarrow> i \<noteq> NodeID st n \<Longrightarrow> nx st' i = nx st i \<and> vd st' i = vd st i
       \<and> lru_next st' i = lru_next st i \<and> lru_prev st' i = lru_prev st i"
    "bm st' = bm st" "ngInfo st' = ngInfo st" "ni_sys_zone (ni st') = ni_sys_zone (ni st)"
    "\<And>h. h \<noteq> c_owner n \<Longrightarrow> m_ng st' h = m_ng st h" "alloc_conf st' = alloc_conf st"
proof -
  obtain l j s where e: "st' = upd_ng (c_owner n) (node_Release (c_index n)) (st\<lparr>m_links := l, m_ni := j, statUsedNode := s\<rparr>)"
    and z: "ni_sys_zone (j (ngInfo st)) = ni_sys_zone (ni st)" "ni_min_id (j (ngInfo st)) = ni_min_id (ni st)" by (rule ReleaseNode_shape [OF r])
  let ?s = "st\<lparr>m_links := l, m_ni := j, statUsedNode := s\<rparr>"
  have a: "I_SEARCH ?s = I_SEARCH st" "NodeID ?s = NodeID st" by (simp_all add: fun_eq_iff I_SEARCH_def NodeID_def Let_def)
  then have b: "lru_valid ?s = lru_valid st" by (simp add: fun_eq_iff lru_valid_def)
  have c: "nx ?s = nx st" "vd ?s = vd st" "lru_next ?s = lru_next st" "lru_prev ?s = lru_prev st"
    by (simp_all only: nx_def vd_def lru_next_def lru_prev_def fun_eq_iff a b) simp_all
  show t: "I_SEARCH st' = I_SEARCH st" "NodeID st' = NodeID st" "lru_valid st' = lru_valid st"
    by (simp_all add: fun_eq_iff e upd_ng_search a b)
  show "bm st' = bm st" "ngInfo st' = ngInfo st" "ni_sys_zone (ni st') = ni_sys_zone (ni st)"
    "\<And>h. h \<noteq> c_owner n \<Longrightarrow> m_ng st' h = m_ng st h" "alloc_conf st' = alloc_conf st"
    by (simp_all add: e z upd_ng_def alloc_conf_def second_of_def fun_eq_iff)
  have n': "indexed ?s n" using n a by (simp add: indexed_def)
  fix i
  assume i: "lru_valid st i" "i \<noteq> NodeID st n"
  have f: "at_next (node_Release (c_index n) g) k = at_next g k \<and> at_vd (node_Release (c_index n) g) k = at_vd g k
      \<and> at_lru_next (node_Release (c_index n) g) k = at_lru_next g k \<and> at_lru_prev (node_Release (c_index n) g) k = at_lru_prev g k"
    if "k \<noteq> c_index n" for g k
    using that by (simp add: node_Release_def node_Reset_def ClrDirty_def NG_ReleaseNode_def set_VDHandle_def Let_def)
  note u = upd_ng_attrs [OF n', of "node_Release (c_index n)" i, OF NG_Release_fields(2) f]
  show "nx st' i = nx st i \<and> vd st' i = vd st i \<and> lru_next st' i = lru_next st i \<and> lru_prev st' i = lru_prev st i"
    using u i unfolding a b c e by simp
qed

end
