(* ===== verification/Cache_Alloc.thy ===== *)
theory Cache_Alloc
  imports Cache_Frame
begin

text \<open>
  What \<open>CNGInfo::AllocateNode\<close> leaves alone: the attributes of all nodes but the new one, the live
  blocks of the segment and the bytes of its chunks.
\<close>

section \<open>The segment\<close>

definition bm_grows :: "CBinMalloc \<Rightarrow> CBinMalloc \<Rightarrow> bool" where
  "bm_grows b b' \<longleftrightarrow> (BM_ok b \<longrightarrow> BM_ok b' \<and> BM_blocks b \<subseteq> BM_blocks b' \<and> memSize b' = memSize b)
     \<and> (BM_sound b \<longrightarrow> BM_sound b' \<and> BM_chunks b \<subseteq> BM_chunks b'
          \<and> (\<forall>g j i. (g, j) \<in> BM_chunks b \<longrightarrow> i < j \<longrightarrow> m_user b' (g + i) = m_user b (g + i)))"

lemma bm_grows_refl [simp]: "bm_grows b b"
  by (simp add: bm_grows_def)

lemma bm_grows_trans: "bm_grows b b1 \<Longrightarrow> bm_grows b1 b2 \<Longrightarrow> bm_grows b b2"
  unfolding bm_grows_def by (auto dest: subsetD)

lemma BM_Calloc_grows:
  assumes "BM_Calloc n b = Some (h, b')"
  shows "bm_grows b b'"
proof -
  obtain b1 where m: "BM_Malloc n b = Some (h, b1)"
    and b': "b' = (if h \<noteq> INVALID_HANDLE then user_put h (replicate n 0) b1 else b1)"
    using assms by (auto simp: BM_Calloc_def user_memset_put split: option.splits)
  have "BM_ok b' \<and> BM_blocks b \<subseteq> BM_blocks b' \<and> memSize b' = memSize b" if ok: "BM_ok b"
    by (rule bmc.calloc_SomeE [OF ok, of n]) (use assms in auto)
  moreover have "BM_sound b' \<and> BM_chunks b \<subseteq> BM_chunks b'
      \<and> (\<forall>g j i. (g, j) \<in> BM_chunks b \<longrightarrow> i < j \<longrightarrow> m_user b' (g + i) = m_user b (g + i))" if s: "BM_sound b"
  proof -
    have m': "cm_Malloc BM_mem n b = Some (h, b1)" using m by simp
    have c: "BM_sound b1" "h = 0 \<and> BM_chunks b1 = BM_chunks b
         \<or> h \<noteq> 0 \<and> (\<exists>k. n \<le> k \<and> h \<notin> fst ` BM_chunks b \<and> BM_chunks b1 = insert (h, k) (BM_chunks b))"
      and u: "\<And>g j i. (g, j) \<in> BM_chunks b \<Longrightarrow> i < j \<Longrightarrow> m_user b1 (g + i) = m_user b (g + i)"
      using bmm.cm_malloc [OF s, of n, unfolded m'] by auto
    have "m_user b' (g + i) = m_user b (g + i)" if g: "(g, j) \<in> BM_chunks b" "i < j" for g j i
    proof (cases "h = INVALID_HANDLE")
      case False
      then obtain k where k: "n \<le> k" "h \<notin> fst ` BM_chunks b" "BM_chunks b1 = insert (h, k) (BM_chunks b)"
        using c(2) by (auto simp: INVALID_HANDLE_def)
      have "h \<noteq> g" using k(2) g(1) by force
      then have "h + k \<le> g \<or> g + j \<le> h" using BM_chunks_apart [OF c(1), of h k g j] k(3) g(1) by simp
      with k(1) g(2) have "\<not> (h \<le> g + i \<and> g + i < h + n)" by auto
      with False u [OF g] show ?thesis unfolding b' by (auto simp: user_put_def)
    qed (use b' u [OF g] in simp)
    then show ?thesis using c BM_sound_user BM_chunks_user unfolding b' by auto
  qed
  ultimately show ?thesis by (simp add: bm_grows_def)
qed

lemma chunk_block:
  assumes "BM_sound b" "(h, k) \<in> BM_chunks b"
  shows "\<exists>k'. (h, k') \<in> BM_blocks b"
proof -
  from assms obtain bs p n where b: "BM_inv b bs" "(p, n, True) \<in> set bs" "h = chunk2mem p" "k = n - 4" "24 \<le> n"
    by (rule BM_chunksE)
  then show ?thesis using BM_inv_heap [OF b(1)] unfolding BM_blocks_def by blast
qed

section \<open>New groups\<close>

definition alloc_frame :: "handle set \<Rightarrow> node_store \<Rightarrow> node_store \<Rightarrow> bool" where
  "alloc_frame G st st' \<longleftrightarrow> (\<forall>h\<in>G. m_ng st' h = m_ng st h) \<and> ngInfo st' = ngInfo st
     \<and> ni_sys_zone (ni st') = ni_sys_zone (ni st) \<and> bm_grows (bm st) (bm st')"

lemma alloc_frame_trans: "alloc_frame G st st1 \<Longrightarrow> alloc_frame G' st1 st2 \<Longrightarrow> G \<subseteq> G' \<Longrightarrow> alloc_frame G st st2"
  unfolding alloc_frame_def using bm_grows_trans by (metis subsetD)

lemma alloc_frame_mono: "alloc_frame G st st' \<Longrightarrow> G' \<subseteq> G \<Longrightarrow> alloc_frame G' st st'"
  by (auto simp: alloc_frame_def)

lemma NG_LIST_ADD_frame: "NG_LIST_ADD h a st = Some st' \<Longrightarrow> alloc_frame G st st'"
  by (auto simp: alloc_frame_def dest!: NG_LIST_links(2))

lemma NG_LIST_DEL_frame: "NG_LIST_DEL h st = Some st' \<Longrightarrow> alloc_frame G st st'"
  by (auto simp: alloc_frame_def dest!: NG_LIST_links(1))

lemma AllocateNG_frame:
  assumes inv: "ns_inv st fs us" and a: "AllocateNG st = Some (v, st')"
  shows "alloc_frame (groups st fs us) st st'"
proof -
  obtain b where c: "BM_Calloc NG_Size (bm st) = Some (v, b)" using a
    by (auto simp: AllocateNG_def M_CALLOC_def Let_def split: bind_splits if_splits)
  note gr = BM_Calloc_grows [OF c]
  show ?thesis
  proof (cases "v = INVALID_HANDLE")
    case True
    with a c gr show ?thesis by (auto simp: AllocateNG_def M_CALLOC_def alloc_frame_def)
  next
    case False
    have "v \<notin> fst ` BM_blocks (bm st)"
      by (rule bmc.calloc_SomeE [OF ns_invD(1) [OF inv], of NG_Size]) (use c False in \<open>auto simp: INVALID_HANDLE_def\<close>)
    then have "v \<notin> groups st fs us" using group_okD(5) [OF ns_invD(4) [OF inv]] by blast
    with a c gr False show ?thesis by (auto simp: AllocateNG_def M_CALLOC_def Let_def alloc_frame_def upd_ni_def)
  qed
qed

lemma alloc_frame_fields: "alloc_frame G st (st'\<lparr>ng_fail := f\<rparr>) = alloc_frame G st st'"
  "alloc_frame G st (st'\<lparr>ng_step := k\<rparr>) = alloc_frame G st st'"
  by (simp_all add: alloc_frame_def)

lemma prealloc_groups_frame:
  "ns_inv st fs us \<Longrightarrow> ni_min_id (ni st) + 256 * k \<le> MAX_NODE_IDS \<Longrightarrow> prealloc_groups i k st = Some (ok, st') \<Longrightarrow>
     alloc_frame (groups st fs us) st st'"
proof (induction k arbitrary: i st fs)
  case 0
  then show ?case by (simp add: alloc_frame_def)
next
  case (Suc k)
  have room: "ni_min_id (ni st) + 256 \<le> MAX_NODE_IDS" using Suc.prems(2) by simp
  obtain v st1 where a: "AllocateNG st = Some (v, st1)" using Suc.prems(3) by (auto split: bind_splits)
  note f1 = AllocateNG_frame [OF Suc.prems(1) a]
  show ?case
  proof (cases "v = INVALID_HANDLE")
    case True
    with Suc.prems(3) a f1 show ?thesis by (auto simp: alloc_frame_fields split: if_splits)
  next
    case False
    obtain st2 where s2: "FreeListAdd v st1 = Some st2" "ns_inv st2 (v # fs) us" "ni_min_id (ni st2) = ni_min_id (ni st) + 256"
      by (rule AllocateNG_spec [OF Suc.prems(1) room]) (use a False in auto)
    have f2: "alloc_frame (groups st fs us) st st2"
      by (rule alloc_frame_trans [OF f1 NG_LIST_ADD_frame]) (use s2(1) in \<open>auto simp: FreeListAdd_def\<close>)
    then have g: "groups st fs us \<subseteq> groups st2 (v # fs) us" by (auto simp: alloc_frame_def groups_def)
    have "prealloc_groups (i + 1) k st2 = Some (ok, st')" using Suc.prems(3) a False s2(1) by simp
    from Suc.IH [OF s2(2) _ this] s2(3) Suc.prems(2) have "alloc_frame (groups st2 (v # fs) us) st2 st'" by simp
    from alloc_frame_trans [OF f2 this g] show ?thesis .
  qed
qed

section \<open>A new node\<close>

lemma I_INSERT_frame:
  assumes "I_INSERT n st = Some (r, st')"
  shows "alloc_frame UNIV st st'"
proof -
  have "bm_grows (bm st) (bm s)" if "new_second_index i st = Some (v, s)" for i v s
    using that BM_Calloc_grows by (auto simp: new_second_index_def M_CALLOC_def Let_def set_fi_h_def split: bind_splits if_splits)
  moreover have "m_ng s = m_ng st \<and> ngInfo s = ngInfo st \<and> m_ni s = m_ni st" if "new_second_index i st = Some (v, s)" for i v s
    using that by (auto simp: new_second_index_def M_CALLOC_def Let_def set_fi_h_def split: bind_splits if_splits)
  ultimately show ?thesis using assms
    by (auto simp: I_INSERT_def alloc_frame_def Let_def split: bind_splits if_splits)
qed

lemma take_node_frame:
  assumes t: "take_node h st = Some (n, st')" and a: "NG_AllocateNode (m_ng st h) = (Some i, g)" and i: "i < 256"
  shows "n = \<lparr>c_owner = h, c_index = i\<rparr>" "alloc_frame (- {h}) st st'" "m_ng st' h = g"
proof -
  let ?n = "\<lparr>c_owner = h, c_index = i\<rparr>" and ?s1 = "upd_ng h (\<lambda>_. g) st"
  have h: "h \<noteq> INVALID_HANDLE" using t by (auto simp: take_node_def non_null_def split: if_splits)
  then have nn: "\<not> is_null_node ?n" using i by (simp add: is_null_node_def NODE_GROUP_INCLUDE_NODES_def)
  obtain st2 st5 r where s2: "(if NG_IsFull (m_ng ?s1 h) then do { s \<leftarrow> ListDel h ?s1; FullListAdd h s } else Some ?s1) = Some st2"
    and s5: "I_INSERT ?n (let st3 = upd_ni (\<lambda>x. x\<lparr>ni_used_node := u32 (ni_used_node x + 1)\<rparr>) st2
        in st3\<lparr>statUsedNode := ni_used_node (ni st3)\<rparr>) = Some (r, st5)" and e: "n = ?n" "st' = st5"
    using t a nn h by (auto simp: take_node_def group_AllocateNode_def Let_def non_null_def split: bind_splits)
  have f2: "alloc_frame UNIV ?s1 st2"
  proof (cases "NG_IsFull (m_ng ?s1 h)")
    case True
    with s2 obtain s where "NG_LIST_DEL h ?s1 = Some s" "NG_LIST_ADD h (ni_full_head s) s = Some st2"
      by (auto simp: ListDel_def FullListAdd_def split: bind_splits)
    then show ?thesis using alloc_frame_trans NG_LIST_DEL_frame NG_LIST_ADD_frame by blast
  next
    case False
    with s2 show ?thesis by (simp add: alloc_frame_def)
  qed
  have "alloc_frame UNIV st2 (let st3 = upd_ni (\<lambda>x. x\<lparr>ni_used_node := u32 (ni_used_node x + 1)\<rparr>) st2
        in st3\<lparr>statUsedNode := ni_used_node (ni st3)\<rparr>)" by (simp add: alloc_frame_def upd_ni_def Let_def)
  from alloc_frame_trans [OF f2 this] have f: "alloc_frame UNIV ?s1 st'"
    using alloc_frame_trans I_INSERT_frame [OF s5] e(2) by blast
  show "n = ?n" by (rule e(1))
  show "m_ng st' h = g" using f by (simp add: alloc_frame_def upd_ng_def)
  have "alloc_frame (- {h}) st ?s1" by (simp add: alloc_frame_def upd_ng_def)
  from alloc_frame_trans [OF this f] show "alloc_frame (- {h}) st st'" by simp
qed

lemma NG_AllocateNode_attrs:
  assumes "NG_AllocateNode g = (Some i, g')"
  shows "at_next g' = (at_next g)(i := INVALID_NODE_ID)" "at_vd g' = at_vd g"
    "at_lru_next g' = (at_lru_next g)(i := ng_NodeID g i)" "at_lru_prev g' = (at_lru_prev g)(i := ng_NodeID g i)"
  using assms by (auto simp: NG_AllocateNode_def Let_def node_Reset_def ClrDirty_def split: if_splits)

definition group_taken :: "node_group \<Rightarrow> node_group \<Rightarrow> nat \<Rightarrow> bool" where
  "group_taken g g' i \<longleftrightarrow> at_vd g' = at_vd g \<and> ng_nid g' = ng_nid g \<and> at_next g' = (at_next g)(i := INVALID_NODE_ID)
     \<and> (\<forall>j. j \<noteq> i \<longrightarrow> at_lru_next g' j = at_lru_next g j \<and> at_lru_prev g' j = at_lru_prev g j)"

definition node_taken :: "handle set \<Rightarrow> CNode \<Rightarrow> node_store \<Rightarrow> node_store \<Rightarrow> bool" where
  "node_taken G n st st' \<longleftrightarrow> alloc_frame (G - {c_owner n}) st st'
     \<and> at_next (m_ng st' (c_owner n)) (c_index n) = INVALID_NODE_ID
     \<and> (c_owner n \<in> G \<longrightarrow> group_taken (m_ng st (c_owner n)) (m_ng st' (c_owner n)) (c_index n))"

lemma take_node_taken:
  assumes s: "ns_inv s (h # hs) us" "alloc_frame G st s" "take_node h s = Some (n, st')"
  shows "node_taken G n st st'"
proof -
  have "ng_inv (m_ng s h)" "\<not> NG_IsFull (m_ng s h)"
    using group_okD(1) [OF ns_invD(4) [OF s(1)]] ns_invD(7) [OF s(1)] by (simp_all add: groups_def)
  then obtain i g where g: "NG_AllocateNode (m_ng s h) = (Some i, g)" "i < 256"
    using ng.alloc_slot ng.alloc_SomeD(2) by (metis NODE_GROUP_INCLUDE_NODES_def)
  note t = take_node_frame [OF s(3) g] and at = NG_AllocateNode_attrs [OF g(1)] and nid = NG_AllocateNode_nid [OF g(1)]
  have "alloc_frame (G - {h}) st st'"
    by (rule alloc_frame_trans [OF alloc_frame_mono [OF s(2)] t(2)]) auto
  moreover have "h \<in> G \<Longrightarrow> m_ng s h = m_ng st h" using s(2) by (simp add: alloc_frame_def)
  ultimately show ?thesis using t(1,3) at nid by (simp add: node_taken_def group_taken_def)
qed

lemma AllocateNode_frame:
  assumes inv: "ns_inv st fs us" and step: "0 < ng_step st"
    and room: "ni_min_id (ni st) + 256 * ng_step st \<le> MAX_NODE_IDS"
    and a: "NI_AllocateNode st = Some (n, st')"
  shows "is_null_node n \<and> alloc_frame (groups st fs us) st st' \<or> node_taken (groups st fs us) n st st'"
proof (cases fs)
  case (Cons h hs)
  then have "h \<noteq> INVALID_HANDLE" "FindFreeNG st = h" using ns_inv_nonnull inv FindFreeNG_spec [OF inv] by auto
  with a have "take_node h st = Some (n, st')" by (simp add: NI_AllocateNode_def)
  from take_node_taken [OF inv [unfolded Cons] _ this, of "groups st fs us" st] show ?thesis by (simp add: alloc_frame_def)
next
  case Nil
  obtain ok st1 gs where p: "prealloc_groups 0 (ng_step st) st = Some (ok, st1)" "ns_inv st1 gs us"
    "ok \<longrightarrow> gs \<noteq> []" using prealloc_groups_spec [OF inv room, of 0] step Nil by auto
  have f: "FindFreeNG st = INVALID_HANDLE" using FindFreeNG_spec [OF inv] Nil by simp
  note fr = prealloc_groups_frame [OF inv room p(1)]
  show ?thesis
  proof (cases ok)
    case False
    with p f a fr show ?thesis by (simp add: NI_AllocateNode_def)
  next
    case True
    let ?s = "if ng_step st1 < 256 \<and> \<not> ng_fail st1 then st1\<lparr>ng_step := ng_step st1 * 2\<rparr> else st1"
    have h: "FindFreeNG st1 = hd gs" "gs = hd gs # tl gs" using FindFreeNG_spec [OF p(2)] True p(3) by (cases gs; simp)+
    with True p f a have t: "take_node (hd gs) ?s = Some (n, st')" by (simp add: NI_AllocateNode_def Let_def)
    have i: "ns_inv ?s (hd gs # tl gs) us" using p(2) h(2) by (simp add: ns_inv_step)
    have "alloc_frame (groups st fs us) st ?s" using fr by (simp add: alloc_frame_fields)
    from take_node_taken [OF i this t] show ?thesis ..
  qed
qed

section \<open>The other nodes\<close>

text \<open>The nodes in use, those of the reserved group included.\<close>

definition live_nodes :: "node_store \<Rightarrow> handle list \<Rightarrow> handle list \<Rightarrow> CNode set" where
  "live_nodes st fs us = {n. c_owner n \<in> groups st fs us \<and> c_index n \<in> ng_used (m_ng st (c_owner n))}"

lemma used_live: "n \<in> ns_used st fs us \<Longrightarrow> n \<in> live_nodes st fs us"
  by (auto simp: ns_used_def live_nodes_def groups_def)

lemma live_indexed:
  assumes "ns_inv st fs us" "n \<in> live_nodes st fs us"
  shows "indexed st n" "NodeID st n = ng_nid (m_ng st (c_owner n)) + c_index n" "lru_valid st (NodeID st n)"
proof -
  show i: "indexed st n" and "NodeID st n = ng_nid (m_ng st (c_owner n)) + c_index n"
    using ns_indexed [OF assms(1), of "c_owner n" "c_index n"] assms(2) by (auto simp: live_nodes_def CNode_eta)
  show "lru_valid st (NodeID st n)" by (rule indexed_valid [OF i])
qed

text \<open>The attributes of the node with the id \<open>x\<close>.\<close>

definition same_node :: "node_store \<Rightarrow> node_store \<Rightarrow> nat \<Rightarrow> bool" where
  "same_node st st' x \<longleftrightarrow> lru_valid st' x \<and> I_SEARCH st' x = I_SEARCH st x \<and> nx st' x = nx st x \<and> vd st' x = vd st x
     \<and> lru_next st' x = lru_next st x \<and> lru_prev st' x = lru_prev st x"

lemma same_live:
  assumes inv: "ns_inv st fs us" and inv': "ns_inv st' fs' us'" and x: "lru_valid st x" "I_SEARCH st x \<in> live_nodes st fs us"
    and live: "I_SEARCH st x \<in> live_nodes st' fs' us'"
    and g: "g = m_ng st (c_owner (I_SEARCH st x))" "g' = m_ng st' (c_owner (I_SEARCH st x))" "i = c_index (I_SEARCH st x)"
    and at: "ng_nid g' = ng_nid g" "at_next g' i = at_next g i" "at_vd g' i = at_vd g i" "at_lru_next g' i = at_lru_next g i"
      "at_lru_prev g' i = at_lru_prev g i"
  shows "same_node st st' x"
proof -
  let ?m = "I_SEARCH st x"
  have id: "NodeID st' ?m = x"
    using live_indexed(2) [OF inv x(2)] live_indexed(2) [OF inv' live] at(1) g valid_attrs(3) [OF x(1)] by simp
  have s: "I_SEARCH st' x = ?m" using live_indexed(1) [OF inv' live] id by (simp add: indexed_def)
  have v: "lru_valid st' x" using live_indexed(3) [OF inv' live] id by simp
  show ?thesis using at g x(1) v s by (simp add: same_node_def nx_def vd_def lru_next_def lru_prev_def)
qed

lemma alloc_frame_same:
  assumes inv: "ns_inv st fs us" and inv': "ns_inv st' fs us" and f: "alloc_frame (groups st fs us) st st'"
    and x: "lru_valid st x" "I_SEARCH st x \<in> live_nodes st fs us"
  shows "same_node st st' x"
proof -
  have g: "m_ng st' (c_owner (I_SEARCH st x)) = m_ng st (c_owner (I_SEARCH st x))" "ni_sys_zone (ni st') = ni_sys_zone (ni st)"
    using f x(2) unfolding alloc_frame_def live_nodes_def by blast+
  then have "I_SEARCH st x \<in> live_nodes st' fs us" using x(2) by (simp add: live_nodes_def groups_def)
  from same_live [OF inv inv' x this refl refl refl] g(1) show ?thesis by simp
qed

lemma AllocateNode_same:
  assumes inv: "ns_inv st fs us" and inv': "ns_inv st' fs' us'"
    and t: "node_taken (groups st fs us) n st st'" and n: "n \<in> ns_used st' fs' us'" "n \<notin> ns_used st fs us"
    and u: "ns_used st fs us \<subseteq> ns_used st' fs' us'" and x: "lru_valid st x" "I_SEARCH st x \<in> live_nodes st fs us"
  shows "same_node st st' x" "I_SEARCH st x \<in> live_nodes st' fs' us'"
proof -
  let ?m = "I_SEARCH st x"
  have f: "alloc_frame (groups st fs us - {c_owner n}) st st'"
    and tk: "c_owner n \<in> groups st fs us \<Longrightarrow> group_taken (m_ng st (c_owner n)) (m_ng st' (c_owner n)) (c_index n)"
    using t by (simp_all add: node_taken_def)
  have z: "ni_sys_zone (ni st') = ni_sys_zone (ni st)" using f unfolding alloc_frame_def by blast
  have ns: "c_owner n \<noteq> ni_sys_zone (ni st)" using n(1) ns_invD(6) [OF inv'] z by (auto simp: ns_used_def)
  have g: "c_owner ?m \<in> groups st fs us" using x(2) by (simp add: live_nodes_def)
  show live: "?m \<in> live_nodes st' fs' us'"
  proof (cases "?m \<in> ns_used st fs us")
    case True
    then show ?thesis using u used_live by blast
  next
    case False
    then have "c_owner ?m = ni_sys_zone (ni st)" using x(2) by (auto simp: live_nodes_def ns_used_def groups_def)
    moreover from this have "m_ng st' (c_owner ?m) = m_ng st (c_owner ?m)" using f g ns by (simp add: alloc_frame_def)
    ultimately show ?thesis using x(2) z by (simp add: live_nodes_def groups_def)
  qed
  have "?m \<noteq> n"
  proof
    assume "?m = n"
    with x(2) n(2) ns show False by (auto simp: live_nodes_def ns_used_def groups_def)
  qed
  then have d: "c_owner ?m = c_owner n \<Longrightarrow> c_index ?m \<noteq> c_index n" by (metis CNode.equality old.unit.exhaust)
  have at: "ng_nid (m_ng st' (c_owner ?m)) = ng_nid (m_ng st (c_owner ?m))
      \<and> at_next (m_ng st' (c_owner ?m)) (c_index ?m) = at_next (m_ng st (c_owner ?m)) (c_index ?m)
      \<and> at_vd (m_ng st' (c_owner ?m)) (c_index ?m) = at_vd (m_ng st (c_owner ?m)) (c_index ?m)
      \<and> at_lru_next (m_ng st' (c_owner ?m)) (c_index ?m) = at_lru_next (m_ng st (c_owner ?m)) (c_index ?m)
      \<and> at_lru_prev (m_ng st' (c_owner ?m)) (c_index ?m) = at_lru_prev (m_ng st (c_owner ?m)) (c_index ?m)"
  proof (cases "c_owner ?m = c_owner n")
    case True
    with tk g have "group_taken (m_ng st (c_owner ?m)) (m_ng st' (c_owner ?m)) (c_index n)" by simp
    with d [OF True] show ?thesis by (simp add: group_taken_def)
  next
    case False
    then show ?thesis using f g by (simp add: alloc_frame_def)
  qed
  show "same_node st st' x" by (rule same_live [OF inv inv' x live refl refl refl]) (use at in simp_all)
qed

end
