(* ===== verification/Cache_Pool_Inv.thy ===== *)
theory Cache_Pool_Inv
  imports Cache_Alloc
begin

text \<open>
  The invariant of the hash: every bucket heads a chain of valid node ids, chains share no node, and the
  counters of free buckets and of chained nodes are right.  Insertion and removal change one chain by one node.
\<close>

section \<open>The hash\<close>

definition chained :: "(nat \<Rightarrow> nat list) \<Rightarrow> nat set" where
  "chained ch = (\<Union>b. set (ch b))"

definition counts_ok :: "HASH_T \<Rightarrow> (nat \<Rightarrow> nat list) \<Rightarrow> bool" where
  "counts_ok t ch \<longleftrightarrow> hh_node t = u32 (\<Sum>b<hh_size t. length (ch b)) \<and> hh_free t = card {b. b < hh_size t \<and> ch b = []}"

definition chains_ok :: "cache_pool \<Rightarrow> (nat \<Rightarrow> nat list) \<Rightarrow> bool" where
  "chains_ok P ch \<longleftrightarrow> p_hash P \<noteq> INVALID_HANDLE \<and> hh_size (hh P) < 2 ^ 32
     \<and> (\<forall>b<hh_size (hh P). nchain (nx (ns P)) (Hash2Node P b) (ch b)) \<and> (\<forall>b\<ge>hh_size (hh P). ch b = [])
     \<and> (\<forall>b. distinct (ch b)) \<and> (\<forall>b c. b \<noteq> c \<longrightarrow> set (ch b) \<inter> set (ch c) = {})
     \<and> (\<forall>x\<in>chained ch. lru_valid (ns P) x) \<and> counts_ok (hh P) ch"

lemma chains_okD:
  assumes "chains_ok P ch"
  shows "p_hash P \<noteq> INVALID_HANDLE" "hh_size (hh P) < 2 ^ 32" "\<And>b. b < hh_size (hh P) \<Longrightarrow> nchain (nx (ns P)) (Hash2Node P b) (ch b)"
    "\<And>b. hh_size (hh P) \<le> b \<Longrightarrow> ch b = []" "\<And>b. distinct (ch b)" "\<And>b c x. x \<in> set (ch b) \<Longrightarrow> x \<in> set (ch c) \<Longrightarrow> b = c"
    "\<And>b x. x \<in> set (ch b) \<Longrightarrow> lru_valid (ns P) x" "counts_ok (hh P) ch"
proof -
  show "p_hash P \<noteq> INVALID_HANDLE" "hh_size (hh P) < 2 ^ 32" "\<And>b. b < hh_size (hh P) \<Longrightarrow> nchain (nx (ns P)) (Hash2Node P b) (ch b)"
    "\<And>b. hh_size (hh P) \<le> b \<Longrightarrow> ch b = []" "\<And>b. distinct (ch b)" "counts_ok (hh P) ch"
    using assms by (simp_all add: chains_ok_def)
  show "lru_valid (ns P) x" if "x \<in> set (ch b)" for x b using assms that by (auto simp: chains_ok_def chained_def)
  have "\<forall>b c. b \<noteq> c \<longrightarrow> set (ch b) \<inter> set (ch c) = {}" using assms by (simp add: chains_ok_def)
  then show "b = c" if "x \<in> set (ch b)" "x \<in> set (ch c)" for x b c using that by blast
qed

text \<open>What the operations on chains do not touch.\<close>

definition pool_conf :: "cache_pool \<Rightarrow> handle \<times> nat \<times> bool \<times> bool \<times> nat \<times> nat \<times> bool" where
  "pool_conf P = (p_hash P, keySize P, hashChanging P, targetNewHash P, hh_size (hh P), hh_fixedsize (hh P), purge_notifier P)"

definition pool_same :: "cache_pool \<Rightarrow> cache_pool \<Rightarrow> bool" where
  "pool_same P P' \<longleftrightarrow> pool_conf P' = pool_conf P"

lemma pool_sameD:
  assumes "pool_same P P'"
  shows "p_hash P' = p_hash P" "keySize P' = keySize P" "hashChanging P' = hashChanging P" "targetNewHash P' = targetNewHash P"
    "hh_size (hh P') = hh_size (hh P)" "hh_fixedsize (hh P') = hh_fixedsize (hh P)" "purge_notifier P' = purge_notifier P"
  using assms unfolding pool_same_def pool_conf_def by blast+

definition hash_frame :: "cache_pool \<Rightarrow> cache_pool \<Rightarrow> bool" where
  "hash_frame P P' \<longleftrightarrow> pool_same P P' \<and> links_only (ns P) (ns P') \<and> lru_next (ns P') = lru_next (ns P) \<and> lru_prev (ns P') = lru_prev (ns P)
     \<and> purge_notified P' = purge_notified P"

lemma pool_same_refl [simp]: "pool_same P P"
  by (simp add: pool_same_def)

lemma pool_same_trans: "pool_same P P1 \<Longrightarrow> pool_same P1 P2 \<Longrightarrow> pool_same P P2"
  by (simp add: pool_same_def)

lemma hash_frame_refl [simp]: "hash_frame P P"
  by (simp add: hash_frame_def links_only_refl)

lemma hash_frame_trans: "hash_frame P P1 \<Longrightarrow> hash_frame P1 P2 \<Longrightarrow> hash_frame P P2"
  unfolding hash_frame_def using pool_same_trans links_only_trans by metis

lemma pool_same_slot: "pool_same P P' \<Longrightarrow> pool_slot P' nh key = pool_slot P nh key"
  using pool_sameD [of P P'] key_slot_cong [of "hh P'" key "hh P" key] by (simp add: pool_slot_def hashed_bytes_def)

lemma hash_ops [simp]:
  "ns (set_Hash2Node b i P) = ns P" "ns (IncFreeBucket v P) = ns P" "ns (IncNodeCnt v P) = ns P"
  "p_hash (set_Hash2Node b i P) = p_hash P" "p_hash (IncFreeBucket v P) = p_hash P" "p_hash (IncNodeCnt v P) = p_hash P"
  "Hash2Node (set_Hash2Node b i P) = (Hash2Node P)(b := i)" "Hash2Node (IncFreeBucket v P) = Hash2Node P"
  "Hash2Node (IncNodeCnt v P) = Hash2Node P" "Hash2Node (P\<lparr>ns := st\<rparr>) = Hash2Node P" "Hash2Node (P\<lparr>statFreeBucket := s\<rparr>) = Hash2Node P"
  by (simp_all add: set_Hash2Node_def IncFreeBucket_def IncNodeCnt_def upd_hh_def Hash2Node_def fun_eq_iff
      IncFreeBucket_t_def IncNodeCnt_t_def)

lemma hash_ops_same [simp]:
  "pool_same P (set_Hash2Node b i P') = pool_same P P'" "pool_same P (IncFreeBucket v P') = pool_same P P'"
  "pool_same P (IncNodeCnt v P') = pool_same P P'" "pool_same P (P'\<lparr>ns := st\<rparr>) = pool_same P P'"
  "pool_same P (P'\<lparr>statFreeBucket := s\<rparr>) = pool_same P P'"
  by (simp_all add: pool_same_def pool_conf_def set_Hash2Node_def IncFreeBucket_def IncNodeCnt_def upd_hh_def IncFreeBucket_t_def IncNodeCnt_t_def)

lemma hash_ops_notified [simp]:
  "purge_notified (set_Hash2Node b i P) = purge_notified P" "purge_notified (IncFreeBucket v P) = purge_notified P"
  "purge_notified (IncNodeCnt v P) = purge_notified P"
  by (simp_all add: set_Hash2Node_def IncFreeBucket_def IncNodeCnt_def upd_hh_def)

lemma hash_counters [simp]:
  "q = p_hash P \<Longrightarrow> hh_node (m_hash (set_Hash2Node b i P) q) = hh_node (m_hash P q)"
  "q = p_hash P \<Longrightarrow> hh_free (m_hash (set_Hash2Node b i P) q) = hh_free (m_hash P q)"
  "q = p_hash P \<Longrightarrow> hh_size (m_hash (set_Hash2Node b i P) q) = hh_size (m_hash P q)"
  "q = p_hash P \<Longrightarrow> hh_node (m_hash (IncFreeBucket v P) q) = hh_node (m_hash P q)"
  "q = p_hash P \<Longrightarrow> hh_free (m_hash (IncFreeBucket v P) q) = nat ((int (hh_free (m_hash P q)) + v) mod 2 ^ 32)"
  "q = p_hash P \<Longrightarrow> hh_size (m_hash (IncFreeBucket v P) q) = hh_size (m_hash P q)"
  "q = p_hash P \<Longrightarrow> hh_node (m_hash (IncNodeCnt v P) q) = nat ((int (hh_node (m_hash P q)) + v) mod 2 ^ 32)"
  "q = p_hash P \<Longrightarrow> hh_free (m_hash (IncNodeCnt v P) q) = hh_free (m_hash P q)"
  "q = p_hash P \<Longrightarrow> hh_size (m_hash (IncNodeCnt v P) q) = hh_size (m_hash P q)"
  by (simp_all add: set_Hash2Node_def IncFreeBucket_def IncNodeCnt_def upd_hh_def IncFreeBucket_t_def IncNodeCnt_t_def)

section \<open>Counters\<close>

lemma sum_upd:
  fixes f :: "nat \<Rightarrow> nat"
  assumes "b < n"
  shows "(\<Sum>i<n. (f(b := v)) i) + f b = (\<Sum>i<n. f i) + v"
proof -
  have "(\<Sum>i<n. (f(b := v)) i) = v + (\<Sum>i\<in>{..<n} - {b}. f i)"
    using assms by (simp add: sum.remove [of "{..<n}" b])
  moreover have "(\<Sum>i<n. f i) = f b + (\<Sum>i\<in>{..<n} - {b}. f i)" using assms by (simp add: sum.remove [of "{..<n}" b])
  ultimately show ?thesis by simp
qed

lemma len_upd: "(\<lambda>i. length ((ch(b := ys)) i)) = (\<lambda>i. length (ch i))(b := length ys)"
  by auto

lemma u32_inc: "nat ((int (u32 x) + 1) mod 2 ^ 32) = u32 (x + 1)"
  unfolding u32_def by (metis (no_types, opaque_lifting) mod_add_left_eq nat_int of_nat_1 of_nat_add of_nat_mod of_nat_numeral of_nat_power)

lemma u32_dec:
  assumes "0 < x"
  shows "nat ((int (u32 x) + (-1)) mod 2 ^ 32) = u32 (x - 1)"
proof -
  have "(int (u32 x) + (-1)) mod 2 ^ 32 = (int x - 1) mod 2 ^ 32" by (simp add: u32_def zmod_int mod_diff_left_eq)
  also have "\<dots> = int ((x - 1) mod 2 ^ 32)" using assms by (simp add: zmod_int of_nat_diff)
  finally show ?thesis by (simp add: u32_def)
qed

lemma counts_push:
  assumes c: "counts_ok t ch" and b: "b < hh_size t" "hh_size t < 2 ^ 32"
    and t': "hh_size t' = hh_size t" "hh_node t' = nat ((int (hh_node t) + 1) mod 2 ^ 32)"
      "hh_free t' = (if ch b = [] then nat ((int (hh_free t) + (-1)) mod 2 ^ 32) else hh_free t)"
  shows "counts_ok t' (ch(b := x # ch b))"
proof -
  let ?n = "hh_size t" and ?ch = "ch(b := x # ch b)"
  have "(\<Sum>i<?n. length (?ch i)) = (\<Sum>i<?n. length (ch i)) + 1"
    using sum_upd [OF b(1), of "\<lambda>i. length (ch i)" "length (x # ch b)"] unfolding len_upd by simp
  then have "hh_node t' = u32 (\<Sum>i<?n. length (?ch i))" using c t'(2) u32_inc by (simp add: counts_ok_def)
  moreover have "hh_free t' = card {i. i < ?n \<and> ?ch i = []}"
  proof (cases "ch b = []")
    case True
    have e: "{i. i < ?n \<and> ?ch i = []} = {i. i < ?n \<and> ch i = []} - {b}" by auto
    have m: "b \<in> {i. i < ?n \<and> ch i = []}" using True b by simp
    have k: "card {i. i < ?n \<and> ch i = []} \<le> ?n" using card_mono [of "{..<?n}" "{i. i < ?n \<and> ch i = []}"] by auto
    have p: "0 < card {i. i < ?n \<and> ch i = []}" using m by (auto simp: card_gt_0_iff)
    have "nat ((int (hh_free t) + (-1)) mod 2 ^ 32) = hh_free t - 1"
      using c k p b(2) by (simp add: counts_ok_def nat_diff_distrib)
    then show ?thesis using True t'(3) c m unfolding e by (simp add: counts_ok_def card_Diff_singleton)
  next
    case False
    then have "{i. i < ?n \<and> ?ch i = []} = {i. i < ?n \<and> ch i = []}" by auto
    with False t'(3) c show ?thesis by (simp add: counts_ok_def)
  qed
  ultimately show ?thesis using t'(1) by (simp add: counts_ok_def)
qed

lemma counts_remove:
  assumes c: "counts_ok t ch" and b: "b < hh_size t" "hh_size t < 2 ^ 32" and x: "x \<in> set (ch b)"
    and t': "hh_size t' = hh_size t" "hh_node t' = nat ((int (hh_node t) + (-1)) mod 2 ^ 32)"
      "hh_free t' = (if remove1 x (ch b) = [] then nat ((int (hh_free t) + 1) mod 2 ^ 32) else hh_free t)"
  shows "counts_ok t' (ch(b := remove1 x (ch b)))"
proof -
  let ?n = "hh_size t" and ?ch = "ch(b := remove1 x (ch b))"
  have l: "length (remove1 x (ch b)) = length (ch b) - 1" "0 < length (ch b)" using x by (auto simp: length_remove1)
  have "(\<Sum>i<?n. length (?ch i)) + length (ch b) = (\<Sum>i<?n. length (ch i)) + length (remove1 x (ch b))"
    unfolding len_upd by (rule sum_upd [OF b(1)])
  with l have "(\<Sum>i<?n. length (ch i)) - 1 = (\<Sum>i<?n. length (?ch i))" "0 < (\<Sum>i<?n. length (ch i))" by linarith+
  then have "hh_node t' = u32 (\<Sum>i<?n. length (?ch i))"
    using c t'(2) u32_dec [of "\<Sum>i<?n. length (ch i)"] unfolding counts_ok_def by metis
  moreover have "hh_free t' = card {i. i < ?n \<and> ?ch i = []}"
  proof (cases "remove1 x (ch b) = []")
    case True
    have e: "{i. i < ?n \<and> ?ch i = []} = insert b {i. i < ?n \<and> ch i = []}" using True b by auto
    have m: "b \<notin> {i. i < ?n \<and> ch i = []}" using x by auto
    have "{i. i < ?n \<and> ch i = []} \<subseteq> {..<?n} - {b}" using m by auto
    from card_mono [OF _ this] have k: "card {i. i < ?n \<and> ch i = []} < ?n" using b(1) by auto
    then have "nat ((int (hh_free t) + 1) mod 2 ^ 32) = hh_free t + 1"
      using c b(2) by (simp add: counts_ok_def nat_add_distrib)
    then show ?thesis using True t'(3) c m unfolding e by (simp add: counts_ok_def)
  next
    case False
    then have "{i. i < ?n \<and> ?ch i = []} = {i. i < ?n \<and> ch i = []}" using x by auto
    with False t'(3) c show ?thesis by (simp add: counts_ok_def)
  qed
  ultimately show ?thesis using t'(1) by (simp add: counts_ok_def)
qed

end
