(* ===== verification/Cache_Hash_Ops.thy ===== *)
theory Cache_Hash_Ops
  imports Cache_Pool_Inv
begin

text \<open>
  \<open>Insert2Hash\<close>, \<open>RemoveFromHashBase\<close>, \<open>RemoveFromHash\<close> and \<open>MoveToNewHash\<close> on the chains.
\<close>

lemma chains_ok_change:
  assumes ok: "chains_ok P ch" and same: "pool_same P P'" and b: "b < hh_size (hh P)"
    and val: "lru_valid (ns P') = lru_valid (ns P)"
    and oth: "\<And>c. c \<noteq> b \<Longrightarrow> Hash2Node P' c = Hash2Node P c"
      "\<And>c x. c \<noteq> b \<Longrightarrow> x \<in> set (ch c) \<Longrightarrow> nx (ns P') x = nx (ns P) x"
    and new: "nchain (nx (ns P')) (Hash2Node P' b) ys" "distinct ys" "\<And>x. x \<in> set ys \<Longrightarrow> lru_valid (ns P) x"
      "\<And>c x. c \<noteq> b \<Longrightarrow> x \<in> set ys \<Longrightarrow> x \<notin> set (ch c)"
    and cnt: "counts_ok (hh P') (ch(b := ys))"
  shows "chains_ok P' (ch(b := ys))"
proof -
  note d = chains_okD [OF ok] and s = pool_sameD [OF same]
  have "nchain (nx (ns P')) (Hash2Node P' c) ((ch(b := ys)) c)" if "c < hh_size (hh P)" for c
    using nchain_cong [OF d(3) [OF that], of "nx (ns P')"] oth new(1) by (cases "c = b") auto
  moreover have "set ((ch(b := ys)) c) \<inter> set ((ch(b := ys)) e) = {}" if "c \<noteq> e" for c e
    using that d(6) new(4) by (auto simp: disjoint_iff)
  moreover have "lru_valid (ns P') x" if "x \<in> chained (ch(b := ys))" for x
    using that d(7) new(3) by (auto simp: chained_def val split: if_splits)
  moreover have "(ch(b := ys)) c = []" if "hh_size (hh P) \<le> c" for c using that b d(4) by simp
  moreover have "distinct ((ch(b := ys)) c)" for c using d(5) new(2) by simp
  moreover have "p_hash P' \<noteq> INVALID_HANDLE" using d(1) s(1) by simp
  ultimately show ?thesis unfolding chains_ok_def s(5) using d(2) cnt by simp
qed

section \<open>Insertion\<close>

lemma Insert2Hash_spec:
  assumes ok: "chains_ok P ch" and slot: "pool_slot P (targetNewHash P) key = Some b"
    and x: "lru_valid (ns P) x" "x \<notin> chained ch"
  obtains P' where "Insert2Hash key (I_SEARCH (ns P) x) P = Some P'" "chains_ok P' (ch(b := x # ch b))" "hash_frame P P'"
    "\<And>y. y \<noteq> x \<Longrightarrow> nx (ns P') y = nx (ns P) y"
proof -
  note d = chains_okD [OF ok]
  have b: "b < hh_size (hh P)" using slot key_slot_less by (auto simp: pool_slot_def split: bind_splits)
  note chb = d(3) [OF b]
  let ?P1 = "if Hash2Node P b = INVALID_NODE_ID then (IncFreeBucket (-1) P)\<lparr>statFreeBucket := u32_sub (statFreeBucket P) 1\<rparr> else P"
  let ?P2 = "IncNodeCnt 1 ?P1" and ?st = "put_next x (Hash2Node P b) (ns P)"
  let ?P' = "set_Hash2Node b x (?P2\<lparr>ns := ?st\<rparr>)"
  note p = put_next_spec [OF x(1), of "Hash2Node P b"]
  have nid: "NodeID ?st (I_SEARCH (ns P) x) = x" using p(7) valid_attrs(3) [OF x(1)] by simp
  have e: "Insert2Hash key (I_SEARCH (ns P) x) P = Some ?P'"
    using slot p(1) nid by (cases "Hash2Node P b = INVALID_NODE_ID") (simp_all add: Insert2Hash_def Let_def)
  have same: "pool_same P ?P'" by simp
  have xb: "x \<notin> set (ch c)" for c using x(2) by (auto simp: chained_def)
  have cnt: "counts_ok (hh ?P') (ch(b := x # ch b))"
  proof (rule counts_push [OF d(8) b d(2)])
    have "Hash2Node P b = INVALID_NODE_ID \<longleftrightarrow> ch b = []" using chain_head [OF chb] chain_INVALID [OF chb] by (cases "ch b") auto
    then show "hh_free (hh ?P') = (if ch b = [] then nat ((int (hh_free (hh P)) + -1) mod 2 ^ 32) else hh_free (hh P))" by simp
  qed simp_all
  have "chains_ok ?P' (ch(b := x # ch b))"
  proof (rule chains_ok_change [OF ok same b _ _ _ _ _ _ _ cnt])
    show "nchain (nx (ns ?P')) (Hash2Node ?P' b) (x # ch b)" using hl.push [OF chb x(1) xb] by simp
    show "x' \<notin> set (ch c)" if "c \<noteq> b" "x' \<in> set (x # ch b)" for c x' using that xb d(6) by auto
  qed (use p xb d(5) d(7) x(1) in auto)
  moreover have "hash_frame P ?P'" using same p(4,5) links_only_put [OF x(1)] by (simp add: hash_frame_def)
  ultimately show ?thesis using that e p(2) by simp
qed

section \<open>Removal\<close>

lemma chain_walk_found:
  assumes "nchain (nx st) (nx st p) (us @ x # vs)" "x \<notin> set us" "\<And>y. y \<in> set (us @ x # vs) \<Longrightarrow> lru_valid st y"
  shows "chain_walk st x (I_SEARCH st p) (I_SEARCH st (nx st p)) = Some (I_SEARCH st (last (p # us)), I_SEARCH st x)"
  using assms
proof (induction us arbitrary: p)
  case Nil
  then have "nx st p = x" "NodeID st (I_SEARCH st x) = x" by (simp_all add: valid_attrs)
  then show ?case by (subst chain_walk.simps) simp
next
  case (Cons y us)
  then have y: "nx st p = y" "lru_valid st y" "y \<noteq> x" by auto
  have "chain_walk st x (I_SEARCH st y) (I_SEARCH st (nx st y)) = Some (I_SEARCH st (last (y # us)), I_SEARCH st x)"
    by (rule Cons.IH) (use Cons.prems y in auto)
  then show ?case using y valid_attrs [OF y(2)] valid_not_null [OF y(2)] by (subst chain_walk.simps) simp
qed

lemma chain_walk_missing:
  assumes "nchain (nx st) (nx st p) ys" "x \<notin> set ys" "\<And>y. y \<in> set ys \<Longrightarrow> lru_valid st y"
  shows "\<exists>m. chain_walk st x (I_SEARCH st p) (I_SEARCH st (nx st p)) = Some (m, null_node)"
  using assms
proof (induction ys arbitrary: p)
  case Nil
  then show ?case by (subst chain_walk.simps) simp
next
  case (Cons y ys)
  then have y: "nx st p = y" "lru_valid st y" "y \<noteq> x" by auto
  have "\<exists>m. chain_walk st x (I_SEARCH st y) (I_SEARCH st (nx st y)) = Some (m, null_node)"
    by (rule Cons.IH) (use Cons.prems y in auto)
  then show ?case using y valid_attrs [OF y(2)] valid_not_null [OF y(2)] by (subst chain_walk.simps) simp
qed

lemma RemoveFromHashBase_spec:
  assumes ok: "chains_ok P ch" and slot: "pool_slot P nh key = Some b" and x: "lru_valid (ns P) x"
  obtains r P' where "RemoveFromHashBase key (I_SEARCH (ns P) x) nh P = Some (r, P')"
    "chains_ok P' (ch(b := remove1 x (ch b)))" "hash_frame P P'"
proof -
  note d = chains_okD [OF ok] and xa = valid_attrs [OF x]
  have b: "b < hh_size (hh P)" using slot key_slot_less by (auto simp: pool_slot_def split: bind_splits)
  note chb = d(3) [OF b]
  have sub: "x' \<notin> set (ch c)" if "c \<noteq> b" "x' \<in> set (remove1 x (ch b))" for c x' using that d(6) notin_set_remove1 by metis
  have val: "lru_valid (ns P) x'" if "x' \<in> set (remove1 x (ch b))" for x' using that d(7) notin_set_remove1 by metis
  show ?thesis
  proof (cases "ch b")
    case Nil
    then have "Hash2Node P b = INVALID_NODE_ID" using chain_head [OF chb] by simp
    with slot have "RemoveFromHashBase key (I_SEARCH (ns P) x) nh P = Some (0, P)" by (simp add: RemoveFromHashBase_def Let_def)
    then show ?thesis using ok Nil by (intro that [of 0 P]) (auto simp: fun_upd_idem)
  next
    case (Cons y ys)
    have y: "Hash2Node P b = y" "lru_valid (ns P) y" "y \<noteq> INVALID_NODE_ID" "nchain (nx (ns P)) (nx (ns P) y) ys"
      using chain_head [OF chb] d(7) [of y b] chain_INVALID [OF chb] chb Cons by auto
    show ?thesis
    proof (cases "y = x")
      case True
      let ?P1 = "set_Hash2Node b (nx (ns P) x) P"
      let ?P2 = "if Hash2Node ?P1 b = INVALID_NODE_ID then (IncFreeBucket 1 ?P1)\<lparr>statFreeBucket := u32 (statFreeBucket ?P1 + 1)\<rparr> else ?P1"
      let ?P' = "IncNodeCnt (-1) ?P2"
      have e: "RemoveFromHashBase key (I_SEARCH (ns P) x) nh P = Some (0, ?P')"
        using slot y True xa by (simp add: RemoveFromHashBase_def Let_def)
      have r: "remove1 x (ch b) = ys" "distinct ys" using Cons True d(5) [of b] by simp_all
      have fr: "hash_frame P ?P'" by (simp add: hash_frame_def links_only_refl)
      then have same: "pool_same P ?P'" by (simp add: hash_frame_def)
      have em: "nx (ns P) x = INVALID_NODE_ID \<longleftrightarrow> ys = []"
        using chain_head [OF y(4)] chain_INVALID [OF y(4)] True by (cases ys) auto
      have cnt: "counts_ok (hh ?P') (ch(b := ys))"
        unfolding r(1) [symmetric] by (rule counts_remove [OF d(8) b d(2)]) (use Cons True r em in auto)
      have "chains_ok ?P' (ch(b := ys))"
        by (rule chains_ok_change [OF ok same b _ _ _ _ _ _ _ cnt]) (use y True r sub val in auto)
      then show ?thesis using that e fr r(1) by simp
    next
      case False
      show ?thesis
      proof (cases "x \<in> set ys")
        case True
        then obtain us vs where s: "ys = us @ x # vs" "x \<notin> set us" using split_list_first by metis
        let ?p = "last (y # us)"
        have "?p \<in> set (y # us)" by (rule last_in_set) simp
        then have pb: "?p \<in> set (ch b)" using Cons s(1) by auto
        note pm = pb d(7) [OF pb]
        let ?P' = "IncNodeCnt (-1) (P\<lparr>ns := put_next ?p (nx (ns P) x) (ns P)\<rparr>)"
        note p = put_next_spec [OF pm(2), of "nx (ns P) x"]
        have w: "chain_walk (ns P) x (I_SEARCH (ns P) y) (I_SEARCH (ns P) (nx (ns P) y))
            = Some (I_SEARCH (ns P) ?p, I_SEARCH (ns P) x)"
          by (rule chain_walk_found [of _ _ us x vs]) (use y(4) s d(7) [of _ b] Cons in simp_all)
        have e: "RemoveFromHashBase key (I_SEARCH (ns P) x) nh P = Some (0, ?P')"
          using slot y False xa w p(1) valid_attrs [OF y(2)] valid_not_null [OF x]
          by (simp add: RemoveFromHashBase_def Let_def)
        have split: "ch b = butlast (y # us) @ ?p # x # vs" using Cons s by (simp add: append_butlast_last_id)
        have r: "remove1 x (ch b) = butlast (y # us) @ ?p # vs"
          using False s Cons by (simp add: remove1_append append_butlast_last_id)
        have fr: "hash_frame P ?P'" using p links_only_put [OF pm(2)] by (simp add: hash_frame_def)
        then have same: "pool_same P ?P'" by (simp add: hash_frame_def)
        have ne: "remove1 x (ch b) \<noteq> []" using r by simp
        have cnt: "counts_ok (hh ?P') (ch(b := remove1 x (ch b)))"
          by (rule counts_remove [OF d(8) b d(2)]) (use Cons True ne in auto)
        have "chains_ok ?P' (ch(b := remove1 x (ch b)))"
        proof (rule chains_ok_change [OF ok same b _ _ _ _ _ _ _ cnt])
          show "nchain (nx (ns ?P')) (Hash2Node ?P' b) (remove1 x (ch b))"
            using hl.unlink [OF chb [unfolded split] d(5) [of b, unfolded split] pm(2)] r by simp
          show "nx (ns ?P') x' = nx (ns P) x'" if "c \<noteq> b" "x' \<in> set (ch c)" for c x'
            using that d(6) [OF pm(1), of c] p(2) by auto
        qed (use p sub val d(5) in auto)
        then show ?thesis using that e fr by blast
      next
        case no: False
        have "\<exists>m. chain_walk (ns P) x (I_SEARCH (ns P) y) (I_SEARCH (ns P) (nx (ns P) y)) = Some (m, null_node)"
          by (rule chain_walk_missing [OF y(4) no]) (use d(7) [of _ b] Cons in simp)
        then have "RemoveFromHashBase key (I_SEARCH (ns P) x) nh P = Some (-1, P)"
          using slot y False xa valid_attrs [OF y(2)] by (auto simp: RemoveFromHashBase_def Let_def)
        moreover have "remove1 x (ch b) = ch b" using no False Cons by (simp add: remove1_idem)
        ultimately show ?thesis using ok by (intro that [of "-1" P]) (simp_all add: fun_upd_idem)
      qed
    qed
  qed
qed

text \<open>The buckets in which the node with that key may hang.\<close>

definition home :: "cache_pool \<Rightarrow> nat \<Rightarrow> nat list \<Rightarrow> bool" where
  "home P b key \<longleftrightarrow> (if hashChanging P then pool_slot P True key = Some b \<or> pool_slot P False key = Some b
     else pool_slot P (targetNewHash P) key = Some b)"

lemma home_same: "pool_same P P' \<Longrightarrow> home P' b key = home P b key"
  using pool_sameD [of P P'] by (simp add: home_def pool_same_slot)

lemma RemoveFromHash_spec:
  assumes ok: "chains_ok P ch" and key: "\<And>nh. \<exists>b. pool_slot P nh key = Some b" and x: "lru_valid (ns P) x"
    and h: "\<And>b. x \<in> set (ch b) \<Longrightarrow> home P b key"
  obtains P' where "RemoveFromHash key (I_SEARCH (ns P) x) P = Some P'" "chains_ok P' (\<lambda>b. remove1 x (ch b))" "hash_frame P P'"
proof -
  have only: "ch' = (\<lambda>b. remove1 x (ch b))" if "\<And>b. x \<in> set (ch b) \<Longrightarrow> ch' b = remove1 x (ch b)" "\<And>b. x \<notin> set (ch b) \<Longrightarrow> ch' b = ch b" for ch'
    using that by (metis ext remove1_idem)
  show ?thesis
  proof (cases "hashChanging P")
    case True
    obtain b1 b0 where b: "pool_slot P True key = Some b1" "pool_slot P False key = Some b0" using key by metis
    obtain r1 P1 where r1: "RemoveFromHashBase key (I_SEARCH (ns P) x) True P = Some (r1, P1)"
      "chains_ok P1 (ch(b1 := remove1 x (ch b1)))" "hash_frame P P1" by (rule RemoveFromHashBase_spec [OF ok b(1) x])
    have s: "pool_same P P1" "I_SEARCH (ns P1) = I_SEARCH (ns P)" "lru_valid (ns P1) x"
      using r1(3) x links_only_same by (auto simp: hash_frame_def)
    have b0: "pool_slot P1 False key = Some b0" using b(2) pool_same_slot [OF s(1)] by simp
    let ?c1 = "ch(b1 := remove1 x (ch b1))"
    obtain r0 P0 where r0: "RemoveFromHashBase key (I_SEARCH (ns P) x) False P1 = Some (r0, P0)"
      "chains_ok P0 (?c1(b0 := remove1 x (?c1 b0)))" "hash_frame P1 P0"
      using RemoveFromHashBase_spec [OF r1(2) b0 s(3)] s(2) by metis
    have "?c1(b0 := remove1 x (?c1 b0)) = (\<lambda>b. remove1 x (ch b))"
    proof (rule only)
      fix c
      assume c: "x \<in> set (ch c)"
      then have "c = b1 \<or> c = b0" using h [OF c] b True by (auto simp: home_def)
      moreover have "x \<notin> set (remove1 x (ch c))" using chains_okD(5) [OF ok] by (simp add: set_remove1_eq)
      ultimately show "(?c1(b0 := remove1 x (?c1 b0))) c = remove1 x (ch c)" by (auto simp: remove1_idem)
    next
      fix c
      assume "x \<notin> set (ch c)"
      then show "(?c1(b0 := remove1 x (?c1 b0))) c = ch c" by (auto simp: remove1_idem)
    qed
    then show ?thesis using True r1 r0 hash_frame_trans by (intro that [of P0]) (auto simp: RemoveFromHash_def)
  next
    case False
    obtain b where b: "pool_slot P (targetNewHash P) key = Some b" using key by metis
    obtain r P' where r: "RemoveFromHashBase key (I_SEARCH (ns P) x) (targetNewHash P) P = Some (r, P')"
      "chains_ok P' (ch(b := remove1 x (ch b)))" "hash_frame P P'" by (rule RemoveFromHashBase_spec [OF ok b x])
    have "ch(b := remove1 x (ch b)) = (\<lambda>b. remove1 x (ch b))"
      by (rule only) (use h b False in \<open>auto simp: home_def remove1_idem\<close>)
    then show ?thesis using False r by (intro that [of P']) (auto simp: RemoveFromHash_def)
  qed
qed

end
