(* ===== verification/Cache_Pool_Ops.thy ===== *)
theory Cache_Pool_Ops
  imports Cache_Hash_Ops
begin

text \<open>
  The invariant of the pool, which joins the node store, the hash, the LRU lists and the data chunks, and the
  entries of the pool: the pairs of a stored key and the node that holds it.
\<close>

section \<open>LRU lists\<close>

definition listed :: "(nat \<Rightarrow> nat list) \<Rightarrow> nat set" where
  "listed ls = (\<Union>k<3. set (ls k))"

definition lists_ok :: "node_store \<Rightarrow> handle list \<Rightarrow> handle list \<Rightarrow> (nat \<Rightarrow> nat list) \<Rightarrow> bool" where
  "lists_ok st fs us ls \<longleftrightarrow> (\<forall>k<3. lru_list st (sys_node st k) (ls k)) \<and> (\<forall>k<3. \<forall>l<3. k \<noteq> l \<longrightarrow> set (ls k) \<inter> set (ls l) = {})
     \<and> (\<forall>x\<in>listed ls. I_SEARCH st x \<in> ns_used st fs us) \<and> (\<forall>k<3. k \<in> ng_used (m_ng st (ni_sys_zone (ni st))))"

lemma lists_okD:
  assumes "lists_ok st fs us ls"
  shows "\<And>k. k < 3 \<Longrightarrow> lru_list st (sys_node st k) (ls k)" "\<And>k l x. k < 3 \<Longrightarrow> l < 3 \<Longrightarrow> x \<in> set (ls k) \<Longrightarrow> x \<in> set (ls l) \<Longrightarrow> k = l"
    "\<And>x. x \<in> listed ls \<Longrightarrow> I_SEARCH st x \<in> ns_used st fs us" "\<And>k. k < 3 \<Longrightarrow> k \<in> ng_used (m_ng st (ni_sys_zone (ni st)))"
    "\<And>x. x \<in> listed ls \<Longrightarrow> lru_valid st x"
proof -
  show "lru_list st (sys_node st k) (ls k)" if "k < 3" for k using assms that by (simp add: lists_ok_def)
  show "I_SEARCH st x \<in> ns_used st fs us" if "x \<in> listed ls" for x using assms that by (simp add: lists_ok_def)
  show "k \<in> ng_used (m_ng st (ni_sys_zone (ni st)))" if "k < 3" for k using assms that by (simp add: lists_ok_def)
  have "\<forall>k<3. \<forall>l<3. k \<noteq> l \<longrightarrow> set (ls k) \<inter> set (ls l) = {}" using assms by (simp add: lists_ok_def)
  then show "k = l" if "k < 3" "l < 3" "x \<in> set (ls k)" "x \<in> set (ls l)" for k l x using that by blast
  show "lru_valid st x" if "x \<in> listed ls" for x using assms that by (auto simp: lists_ok_def listed_def lru_list_def)
qed

lemma lru_list_cong:
  assumes "lru_list st n xs" "\<And>i. i \<in> insert (NodeID st n) (set xs) \<Longrightarrow> lru_valid st' i \<and> lru_next st' i = lru_next st i \<and> lru_prev st' i = lru_prev st i"
    "NodeID st' n = NodeID st n" "indexed st' n"
  shows "lru_list st' n xs"
proof -
  have "ring (lru_next st') (lru_prev st') (NodeID st n) xs"
    by (rule ring_cong [of "lru_next st" "lru_prev st"]) (use assms(1,2) in \<open>auto simp: lru_list_def\<close>)
  then show ?thesis using assms by (simp add: lru_list_def)
qed

text \<open>The heads of the lists are nodes of the reserved group and in no list.\<close>

lemma sys_live:
  assumes "ns_inv st fs us" "lists_ok st fs us ls" "k < 3"
  shows "sys_node st k \<in> live_nodes st fs us" "NodeID st (sys_node st k) \<notin> listed ls"
    "\<And>l. l < 3 \<Longrightarrow> NodeID st (sys_node st l) = NodeID st (sys_node st k) \<Longrightarrow> l = k"
proof -
  have nz: "ni_sys_zone (ni st) \<noteq> INVALID_HANDLE"
    using block_valid(3) [OF ns_invD(1) [OF assms(1)]] group_okD(5) [OF ns_invD(4) [OF assms(1)]] by (simp add: groups_def)
  have l: "sys_node st j \<in> live_nodes st fs us" if "j < 3" for j
    using nz lists_okD(4) [OF assms(2) that] by (simp add: live_nodes_def sys_node_def groups_def)
  then show "sys_node st k \<in> live_nodes st fs us" using assms(3) .
  note ix = live_indexed [OF assms(1) l]
  show "NodeID st (sys_node st k) \<notin> listed ls"
  proof
    assume "NodeID st (sys_node st k) \<in> listed ls"
    from lists_okD(3) [OF assms(2) this] have "sys_node st k \<in> ns_used st fs us" using ix(1) [OF assms(3)] by (simp add: indexed_def)
    then show False using ns_invD(6) [OF assms(1)] nz by (simp add: ns_used_def sys_node_def)
  qed
  show "j = k" if "j < 3" "NodeID st (sys_node st j) = NodeID st (sys_node st k)" for j
    using ix(2) [OF that(1)] ix(2) [OF assms(3)] that(2) nz by (simp add: sys_node_def)
qed

lemma lists_ok_hash:
  assumes "hash_frame P P'" "ns_inv (ns P) fs us" "lists_ok (ns P) fs us ls"
  shows "lists_ok (ns P') fs us ls"
proof -
  have f: "links_only (ns P) (ns P')" "lru_next (ns P') = lru_next (ns P)" "lru_prev (ns P') = lru_prev (ns P)"
    using assms(1) by (simp_all add: hash_frame_def)
  note s = links_only_same [OF f(1)] and i = links_only_inv [OF f(1) assms(2)]
  have sy: "sys_node (ns P') = sys_node (ns P)" by (simp add: fun_eq_iff sys_node_def s)
  have "lru_list (ns P') n xs = lru_list (ns P) n xs" for n xs by (simp add: lru_list_def s f)
  then show ?thesis using assms(3) by (simp add: lists_ok_def sy i s)
qed

text \<open>Taking one node out of its list.\<close>

lemma RemoveFromLru_spec:
  assumes inv: "ns_inv st fs us" and ok: "lists_ok st fs us ls" and x: "x \<in> listed ls"
  obtains st' where "RemoveFromLru (I_SEARCH st x) st = Some st'" "links_only st st'" "lru_frame st st'"
    "\<And>k. k < 3 \<Longrightarrow> lru_list st' (sys_node st' k) (remove1 x (ls k))"
proof -
  note d = lists_okD [OF ok]
  let ?n = "I_SEARCH st x"
  obtain k where k: "k < 3" "x \<in> set (ls k)" using x by (auto simp: listed_def)
  then obtain as bs where s: "ls k = as @ x # bs" "x \<notin> set as" using split_list_first by metis
  have xv: "lru_valid st x" "NodeID st ?n = x" "indexed st ?n" using d(5) [OF x] valid_attrs(3) valid_indexed by auto
  obtain st' where r: "NODE_LIST_DEL ?n st = Some st'" "lru_list st' (sys_node st k) (as @ bs)" "lru_frame st st'"
    "\<And>h' ys. lru_list st h' ys \<Longrightarrow> insert (NodeID st h') (set ys) \<inter> insert (NodeID st (sys_node st k)) (set (as @ NodeID st ?n # bs)) = {}
       \<Longrightarrow> lru_list st' h' ys"
    using lru_list_del [of st "sys_node st k" as ?n bs] d(1) [OF k(1)] s(1) xv by metis
  have lo: "links_only st st'" by (rule links_only_lru(1) [OF r(1)])
  have sy: "sys_node st' = sys_node st" by (simp add: fun_eq_iff sys_node_def links_only_same [OF lo])
  have "lru_list st' (sys_node st' l) (remove1 x (ls l))" if l: "l < 3" for l
  proof (cases "l = k")
    case True
    then show ?thesis using r(2) s by (simp add: sy remove1_append)
  next
    case False
    have dis: "set (ls l) \<inter> set (ls k) = {}" using d(2) [OF l k(1)] False by blast
    then have "remove1 x (ls l) = ls l" using k(2) by (intro remove1_idem) auto
    moreover have "NodeID st (sys_node st l) \<noteq> NodeID st (sys_node st k)" using sys_live(3) [OF inv ok k(1) l] False by blast
    moreover have "NodeID st (sys_node st l) \<notin> set (ls k)" "NodeID st (sys_node st k) \<notin> set (ls l)"
      using sys_live(2) [OF inv ok l] sys_live(2) [OF inv ok k(1)] l k(1) by (auto simp: listed_def)
    ultimately show ?thesis using r(4) [OF d(1) [OF l]] dis s(1) xv(2) by (simp add: sy)
  qed
  then show ?thesis using that r lo by (simp add: RemoveFromLru_def)
qed

section \<open>Keys\<close>

definition stored_key :: "nat \<Rightarrow> CBinMalloc \<Rightarrow> handle \<Rightarrow> nat list" where
  "stored_key ksz b h = chunk_bytes b (h + SIZEOF_CRawFormat) (if ksz > 0 then ksz else m_user b (h + SIZEOF_CRawFormat) + 1)"

definition key_ok :: "nat \<Rightarrow> nat list \<Rightarrow> bool" where
  "key_ok ksz key \<longleftrightarrow> (case key_len ksz key of None \<Rightarrow> False | Some n \<Rightarrow> n \<le> length key)"

definition packed :: "nat \<Rightarrow> nat list \<Rightarrow> nat list" where
  "packed ksz key = take (the (key_len ksz key)) key"

lemma chunk_bytes_Suc: "chunk_bytes b a (Suc n) = m_user b a # chunk_bytes b (a + 1) n"
  by (simp add: get_bytes_def upt_conv_Cons del: upt_Suc)

lemma stored_key_len: "key_len ksz (stored_key ksz b h) = Some (length (stored_key ksz b h))"
  by (simp add: key_len_def stored_key_def chunk_bytes_Suc)

lemma stored_key_ok: "key_ok ksz (stored_key ksz b h)" "packed ksz (stored_key ksz b h) = stored_key ksz b h"
  by (simp_all add: key_ok_def packed_def stored_key_len)

lemma packed_hashed: "hh_fixedsize t = ksz \<Longrightarrow> key_ok ksz key \<Longrightarrow> hashed_bytes t (packed ksz key) = hashed_bytes t key"
  by (cases key) (auto simp: hashed_bytes_def packed_def key_ok_def key_len_def split: if_splits)

lemma hashed_Some: "hh_fixedsize t = ksz \<Longrightarrow> key_ok ksz key \<Longrightarrow> \<exists>ks. hashed_bytes t key = Some ks"
  by (cases key) (auto simp: hashed_bytes_def key_ok_def key_len_def split: if_splits)

lemma memcmp_eq: "length xs = length ys \<Longrightarrow> memcmp xs ys = 0 \<longleftrightarrow> xs = ys"
  by (induction xs ys rule: memcmp.induct) auto

text \<open>\<open>KeyCmp\<close> compares the whole keys.\<close>

lemma KeyCmp_eq:
  assumes "key_ok (keySize P) key"
  obtains c where "KeyCmp P key (h + SIZEOF_CRawFormat) = Some c"
    "c = 0 \<longleftrightarrow> stored_key (keySize P) (bm (ns P)) h = packed (keySize P) key"
proof -
  let ?b = "bm (ns P)" and ?a = "h + SIZEOF_CRawFormat"
  obtain n where n: "key_len (keySize P) key = Some n" "n \<le> length key" using assms by (auto simp: key_ok_def split: option.splits)
  let ?c = "memcmp (take n key) (chunk_bytes ?b ?a n)"
  have c: "?c = 0 \<longleftrightarrow> take n key = chunk_bytes ?b ?a n" using n(2) by (intro memcmp_eq) simp
  have "?c = 0 \<longleftrightarrow> stored_key (keySize P) ?b h = packed (keySize P) key"
  proof (cases "keySize P > 0")
    case True
    then show ?thesis using c n(1) by (auto simp: stored_key_def packed_def key_len_def)
  next
    case False
    then obtain m ks where k: "key = m # ks" "n = Suc m" using n(1) by (auto simp: key_len_def split: list.splits)
    show ?thesis
    proof (cases "m_user ?b ?a = m")
      case True
      then show ?thesis using c False k n(1) by (auto simp: stored_key_def packed_def)
    next
      case ne: False
      then have "take n key \<noteq> chunk_bytes ?b ?a n" "stored_key (keySize P) ?b h \<noteq> packed (keySize P) key"
        using False k n(1) by (auto simp: stored_key_def packed_def chunk_bytes_Suc)
      then show ?thesis using c by simp
    qed
  qed
  moreover have "KeyCmp P key ?a = Some ?c" using n by (simp add: KeyCmp_def)
  ultimately show ?thesis using that by blast
qed

section \<open>The invariant\<close>

record pool_view =
  v_fs :: "handle list"
  v_us :: "handle list"
  v_ch :: "nat \<Rightarrow> nat list"
  v_ls :: "nat \<Rightarrow> nat list"

text \<open>A chunk with a key, which is none of the objects of the node store.\<close>

definition chunk_ok :: "cache_pool \<Rightarrow> handle set \<Rightarrow> handle \<Rightarrow> bool" where
  "chunk_ok P G h \<longleftrightarrow> (\<exists>k. (h, k) \<in> BM_chunks (bm (ns P)) \<and> SIZEOF_CRawFormat + length (stored_key (keySize P) (bm (ns P)) h) \<le> k)
     \<and> DC_type (bm (ns P)) h = DATA_TYPE_RAW \<and> h \<notin> G \<and> h \<noteq> ngInfo (ns P)"

abbreviation node_key :: "cache_pool \<Rightarrow> nat \<Rightarrow> nat list" where
  "node_key P x \<equiv> stored_key (keySize P) (bm (ns P)) (vd (ns P) x)"

text \<open>The chained nodes that have data.\<close>

definition filled :: "cache_pool \<Rightarrow> (nat \<Rightarrow> nat list) \<Rightarrow> nat set" where
  "filled P ch = {x \<in> chained ch. vd (ns P) x \<noteq> INVALID_HANDLE}"

definition data_ok :: "cache_pool \<Rightarrow> handle set \<Rightarrow> (nat \<Rightarrow> nat list) \<Rightarrow> bool" where
  "data_ok P G ch \<longleftrightarrow> (\<forall>x\<in>filled P ch. chunk_ok P G (vd (ns P) x)) \<and> inj_on (vd (ns P)) (filled P ch)
     \<and> inj_on (node_key P) (filled P ch) \<and> (\<forall>b. \<forall>x\<in>set (ch b). vd (ns P) x \<noteq> INVALID_HANDLE \<longrightarrow> home P b (node_key P x))"

definition pool_core :: "cache_pool \<Rightarrow> pool_view \<Rightarrow> bool" where
  "pool_core P v \<longleftrightarrow> ns_inv (ns P) (v_fs v) (v_us v) \<and> BM_sound (bm (ns P)) \<and> chains_ok P (v_ch v)
     \<and> 0 < hh_size (hh P) \<and> hh_fixedsize (hh P) = keySize P \<and> lists_ok (ns P) (v_fs v) (v_us v) (v_ls v)
     \<and> chained (v_ch v) \<subseteq> listed (v_ls v)"

abbreviation pool_groups :: "cache_pool \<Rightarrow> pool_view \<Rightarrow> handle set" where
  "pool_groups P v \<equiv> groups (ns P) (v_fs v) (v_us v)"

definition pool_inv :: "cache_pool \<Rightarrow> pool_view \<Rightarrow> bool" where
  "pool_inv P v \<longleftrightarrow> pool_core P v \<and> data_ok P (pool_groups P v) (v_ch v)"

definition entries :: "cache_pool \<Rightarrow> pool_view \<Rightarrow> (nat list \<times> CNode) set" where
  "entries P v = (\<lambda>x. (node_key P x, I_SEARCH (ns P) x)) ` filled P (v_ch v)"

lemma pool_coreD:
  assumes "pool_core P v"
  shows "ns_inv (ns P) (v_fs v) (v_us v)" "BM_sound (bm (ns P))" "chains_ok P (v_ch v)" "0 < hh_size (hh P)"
    "hh_fixedsize (hh P) = keySize P" "lists_ok (ns P) (v_fs v) (v_us v) (v_ls v)" "chained (v_ch v) \<subseteq> listed (v_ls v)"
  using assms by (simp_all add: pool_core_def)

lemma pool_invD:
  assumes "pool_inv P v"
  shows "pool_core P v" "data_ok P (pool_groups P v) (v_ch v)"
  using assms by (simp_all add: pool_inv_def)

lemma data_okD:
  assumes "data_ok P G ch"
  shows "\<And>x. x \<in> filled P ch \<Longrightarrow> chunk_ok P G (vd (ns P) x)" "inj_on (vd (ns P)) (filled P ch)" "inj_on (node_key P) (filled P ch)"
    "\<And>b x. x \<in> set (ch b) \<Longrightarrow> vd (ns P) x \<noteq> INVALID_HANDLE \<Longrightarrow> home P b (node_key P x)"
  using assms by (simp_all add: data_ok_def)

lemma pool_slot_packed:
  assumes "pool_core P v" "key_ok (keySize P) key"
  shows "pool_slot P nh (packed (keySize P) key) = pool_slot P nh key"
  using key_slot_cong [OF packed_hashed [OF pool_coreD(5) [OF assms(1)] assms(2)] refl] by (simp add: pool_slot_def)

lemma pool_slot_Some:
  assumes "pool_core P v" "key_ok (keySize P) key"
  shows "\<exists>b. pool_slot P nh key = Some b"
  using hashed_Some [OF pool_coreD(5) [OF assms(1)] assms(2)] key_slot_Some pool_coreD(4) [OF assms(1)]
    chains_okD(1) [OF pool_coreD(3) [OF assms(1)]] by (auto simp: pool_slot_def non_null_def)

lemma home_packed:
  assumes "pool_core P v" "key_ok (keySize P) key"
  shows "home P b (packed (keySize P) key) = home P b key"
  by (simp add: home_def pool_slot_packed [OF assms])

end
