(* ===== verification/Cache_Pool_Find.thy ===== *)
theory Cache_Pool_Find
  imports Cache_Pool_Ops
begin

text \<open>
  Purging one node, and the search of a chain, which purges the nodes without data that it meets.
\<close>

section \<open>Invariants under changes of the store\<close>

lemma chains_ok_store:
  assumes "chains_ok P ch" "\<And>y. y \<in> chained ch \<Longrightarrow> lru_valid st y \<and> nx st y = nx (ns P) y"
  shows "chains_ok (P\<lparr>ns := st\<rparr>) ch"
proof -
  note d = chains_okD [OF assms(1)]
  have "nchain (nx st) (Hash2Node P b) (ch b)" if "b < hh_size (hh P)" for b
    by (rule nchain_cong [OF d(3) [OF that]]) (use assms(2) in \<open>auto simp: chained_def\<close>)
  then show ?thesis using assms by (simp add: chains_ok_def)
qed

lemma chains_ok_notified: "chains_ok (P\<lparr>purge_notified := l\<rparr>) ch = chains_ok P ch"
  by (simp add: chains_ok_def Hash2Node_def)

lemma pool_same_notified [simp]: "pool_same P (P'\<lparr>purge_notified := l\<rparr>) = pool_same P P'"
  by (simp add: pool_same_def pool_conf_def)

text \<open>The data of the chained nodes depends on their handles and on the bytes of their chunks.\<close>

lemma data_ok_cong:
  assumes d: "data_ok P G ch" and same: "pool_same P P'" and sub: "\<And>b. set (ch' b) \<subseteq> set (ch b)"
    and vd: "\<And>x. x \<in> chained ch' \<Longrightarrow> vd (ns P') x = vd (ns P) x"
    and ck: "\<And>x. x \<in> filled P ch \<Longrightarrow> x \<in> chained ch' \<Longrightarrow> chunk_ok P' G' (vd (ns P) x) \<and> node_key P' x = node_key P x"
  shows "data_ok P' G' ch'" "filled P' ch' = filled P ch \<inter> chained ch'"
proof -
  note dd = data_okD [OF d]
  have c: "chained ch' \<subseteq> chained ch" using sub by (auto simp: chained_def)
  show f: "filled P' ch' = filled P ch \<inter> chained ch'" using vd c by (auto simp: filled_def)
  have "inj_on (vd (ns P')) (filled P' ch')"
    using inj_on_subset [OF dd(2), of "filled P ch \<inter> chained ch'"] vd unfolding f by (simp add: inj_on_def)
  moreover have "inj_on (node_key P') (filled P' ch')"
    using inj_on_subset [OF dd(3), of "filled P ch \<inter> chained ch'"] ck unfolding f by (simp add: inj_on_def)
  moreover have "chunk_ok P' G' (vd (ns P') x)" if "x \<in> filled P' ch'" for x
    using that ck [of x] vd [of x] unfolding f by simp
  moreover have "home P' b (node_key P' x)" if x: "x \<in> set (ch' b)" "vd (ns P') x \<noteq> INVALID_HANDLE" for b x
  proof -
    have xc: "x \<in> chained ch'" "x \<in> set (ch b)" using x(1) sub by (auto simp: chained_def)
    then have "x \<in> filled P ch" using x(2) vd by (auto simp: filled_def chained_def)
    with ck [OF this xc(1)] dd(4) [OF xc(2)] x(2) vd [OF xc(1)] home_same [OF same] show ?thesis by simp
  qed
  ultimately show "data_ok P' G' ch'" by (simp add: data_ok_def)
qed

section \<open>Purging a node\<close>

definition drop_node :: "nat \<Rightarrow> handle list \<Rightarrow> handle list \<Rightarrow> pool_view \<Rightarrow> pool_view" where
  "drop_node x fs us v = \<lparr>v_fs = fs, v_us = us, v_ch = (\<lambda>b. remove1 x (v_ch v b)), v_ls = (\<lambda>k. remove1 x (v_ls v k))\<rparr>"

lemma chained_remove: "chains_ok P ch \<Longrightarrow> chained (\<lambda>b. remove1 x (ch b)) = chained ch - {x}"
  using chains_okD(5) by (auto simp: chained_def set_remove1_eq)

lemma listed_remove:
  assumes "lists_ok st fs us ls"
  shows "listed (\<lambda>k. remove1 x (ls k)) = listed ls - {x}"
proof -
  have "distinct (ls k)" if "k < 3" for k using lists_okD(1) [OF assms that] by (simp add: lru_list_def ring_def)
  then show ?thesis by (auto simp: listed_def set_remove1_eq)
qed

lemma lists_ok_release:
  assumes inv: "ns_inv st fs us" and ok: "lists_ok st fs us ls" and x: "x \<in> listed ls"
    and l1: "\<And>k. k < 3 \<Longrightarrow> lru_list st1 (sys_node st1 k) (remove1 x (ls k))" and lo: "links_only st st1"
    and r: "NI_ReleaseNode (I_SEARCH st x) st1 = Some st2" "ns_used st2 fs' us' = ns_used st fs us - {I_SEARCH st x}"
  shows "lists_ok st2 fs' us' (\<lambda>k. remove1 x (ls k))"
proof -
  note d = lists_okD [OF ok] and s = links_only_same [OF lo] and i1 = links_only_inv [OF lo inv]
  let ?n = "I_SEARCH st x"
  have xv: "lru_valid st x" "NodeID st ?n = x" "indexed st1 ?n" using d(5) [OF x] valid_attrs(3) valid_indexed s by auto
  note f = ReleaseNode_frame [OF r(1) xv(3)]
  have nz: "c_owner ?n \<noteq> ni_sys_zone (ni st)" using d(3) [OF x] ns_invD(6) [OF inv] by (auto simp: ns_used_def)
  have ni: "ni_sys_zone (ni st2) = ni_sys_zone (ni st)" using f(7) s(6,7) by simp
  have "ni_sys_zone (ni st1) = ni_sys_zone (ni st)" by (simp add: s(6,7))
  with ni have sy: "sys_node st2 = sys_node st" "sys_node st1 = sys_node st" unfolding sys_node_def fun_eq_iff by metis+
  have dis: "distinct (ls k)" if "k < 3" for k using d(1) [OF that] by (simp add: lru_list_def ring_def)
  have "lru_list st2 (sys_node st2 k) (remove1 x (ls k))" if k: "k < 3" for k
  proof (rule lru_list_cong)
    show "lru_list st1 (sys_node st2 k) (remove1 x (ls k))" using l1 [OF k] sy by simp
    show "NodeID st2 (sys_node st2 k) = NodeID st1 (sys_node st2 k)" using f(2) by simp
    show "indexed st2 (sys_node st2 k)" using live_indexed(1) [OF inv sys_live(1) [OF inv ok k]] f(1,2) s(1,2) sy by (simp add: indexed_def)
    fix i
    assume "i \<in> insert (NodeID st1 (sys_node st2 k)) (set (remove1 x (ls k)))"
    then have i: "i = NodeID st (sys_node st k) \<or> i \<in> set (ls k) - {x}" using dis [OF k] s(2) sy by (auto simp: set_remove1_eq)
    have "i \<noteq> x" using i x sys_live(2) [OF inv ok k] by auto
    moreover have "lru_valid st i" using i lru_list_valid [OF d(1) [OF k]] by auto
    ultimately show "lru_valid st2 i \<and> lru_next st2 i = lru_next st1 i \<and> lru_prev st2 i = lru_prev st1 i"
      using f(3) f(4) [of i] s(2,3) xv(2) by simp
  qed
  moreover have "I_SEARCH st2 y \<in> ns_used st2 fs' us'" if "y \<in> listed ls" "y \<noteq> x" for y
    using d(3) [OF that(1)] valid_node_eq [OF d(5) [OF that(1)] xv(1)] that(2) r(2) f(1) s(1) by simp
  moreover have "k \<in> ng_used (m_ng st2 (ni_sys_zone (ni st2)))" if "k < 3" for k
    using d(4) [OF that] f(8) [of "ni_sys_zone (ni st)"] nz s(9) ni by simp
  moreover have "set (remove1 x (ls k)) \<inter> set (remove1 x (ls l)) = {}" if "k < 3" "l < 3" "k \<noteq> l" for k l
    using d(2) [OF that(1,2)] that(3) notin_set_remove1 by (metis disjoint_iff)
  ultimately show ?thesis unfolding lists_ok_def listed_remove [OF ok] by blast
qed

lemma PurgeNode_spec:
  assumes inv: "pool_core P v" and dt: "data_ok P (pool_groups P v) (\<lambda>b. remove1 x (v_ch v b))"
    and key: "key_ok (keySize P) key" and x: "x \<in> listed (v_ls v)"
    and h: "\<And>b. x \<in> set (v_ch v b) \<Longrightarrow> home P b key"
  obtains P' fs us where "PurgeNode key (I_SEARCH (ns P) x) P = Some P'" "pool_inv P' (drop_node x fs us v)" "pool_same P P'"
    "bm (ns P') = bm (ns P)" "I_SEARCH (ns P') = I_SEARCH (ns P)" "\<And>y. y \<in> listed (v_ls v) \<Longrightarrow> y \<noteq> x \<Longrightarrow> vd (ns P') y = vd (ns P) y"
    "lru_valid (ns P') = lru_valid (ns P)" "NodeID (ns P') = NodeID (ns P)"
    "ns_used (ns P') fs us = ns_used (ns P) (v_fs v) (v_us v) - {I_SEARCH (ns P) x}"
    "fs \<noteq> []" "alloc_conf (ns P') = alloc_conf (ns P)"
proof -
  note d = pool_coreD [OF inv]
  let ?n = "I_SEARCH (ns P) x" and ?ch = "\<lambda>b. remove1 x (v_ch v b)"
  define P1 where "P1 = (if purge_notifier P then P\<lparr>purge_notified := purge_notified P @ [(key, ?n)]\<rparr> else P)"
  have p1: "ns P1 = ns P" "pool_same P P1" "chains_ok P1 (v_ch v)" using d(3) by (simp_all add: P1_def chains_ok_notified)
  have xv: "lru_valid (ns P) x" "?n \<in> ns_used (ns P) (v_fs v) (v_us v)" using lists_okD(3,5) [OF d(6)] x by auto
  obtain P2 where r: "RemoveFromHash key ?n P1 = Some P2" "chains_ok P2 ?ch" "hash_frame P1 P2"
  proof (rule RemoveFromHash_spec [OF p1(3), of key x])
    show "\<exists>b. pool_slot P1 nh key = Some b" for nh using pool_slot_Some [OF inv key] pool_same_slot [OF p1(2)] by simp
    show "home P1 b key" if "x \<in> set (v_ch v b)" for b using h [OF that] home_same [OF p1(2)] by simp
  qed (use p1 xv in auto)
  have f2: "links_only (ns P) (ns P2)" "pool_same P P2" using r(3) p1 pool_same_trans by (auto simp: hash_frame_def)
  note s2 = links_only_same [OF f2(1)] and i2 = links_only_inv [OF f2(1) d(1)]
  have lk2: "lists_ok (ns P2) (v_fs v) (v_us v) (v_ls v)" using lists_ok_hash [OF r(3)] d(1,6) p1(1) by simp
  obtain st1 where st1: "RemoveFromLru ?n (ns P2) = Some st1" "links_only (ns P2) st1" "lru_frame (ns P2) st1"
    "\<And>k. k < 3 \<Longrightarrow> lru_list st1 (sys_node st1 k) (remove1 x (v_ls v k))"
    using RemoveFromLru_spec [OF i2(1) lk2 x] s2(1) by metis
  note s1 = links_only_same [OF st1(2)] and i1 = links_only_inv [OF st1(2) i2(1)]
  obtain st2 fs us where st2: "NI_ReleaseNode ?n st1 = Some st2" "ns_inv st2 fs us" "ns_used st2 fs us = ns_used st1 (v_fs v) (v_us v) - {?n}"
    "set fs \<union> set us = set (v_fs v) \<union> set (v_us v)" "c_owner ?n \<in> set fs"
    using NI_ReleaseNode_spec [OF i1(1), of ?n] xv(2) i1(2) i2(2) by metis
  have ix: "indexed st1 ?n" "NodeID st1 ?n = x" using valid_indexed [OF xv(1)] valid_attrs(3) [OF xv(1)] s1(2,8) s2(2,8) by simp_all
  note f = ReleaseNode_frame [OF st2(1) ix(1)]
  let ?P' = "P2\<lparr>ns := st2\<rparr>"
  have e: "PurgeNode key ?n P = Some ?P'" using r(1) st1(1) st2(1) by (simp add: PurgeNode_def flip: P1_def)
  have same: "pool_same P ?P'" using f2(2) by simp
  have eq: "bm st2 = bm (ns P)" "I_SEARCH st2 = I_SEARCH (ns P)" "lru_valid st2 = lru_valid (ns P)" "NodeID st2 = NodeID (ns P)"
    "ngInfo st2 = ngInfo (ns P)" using f s1 s2 by simp_all
  have ni: "ni_sys_zone (ni st2) = ni_sys_zone (ni (ns P))" using f(7) s1(6,7) s2(6,7) by simp
  have gr: "groups st2 fs us = groups (ns P) (v_fs v) (v_us v)" using st2(4) ni by (simp add: groups_def)
  have vd: "vd st2 y = vd (ns P) y" if "lru_valid (ns P) y" "y \<noteq> x" for y
    using f(4) [of y] that ix(2) s1(3,4) s2(3,4) by simp
  have val: "lru_valid (ns P) y" if "y \<in> chained (v_ch v)" for y using that d(7) lists_okD(5) [OF d(6)] by blast
  note cr = chained_remove [OF d(3), of x]
  have "chains_ok ?P' ?ch"
  proof (rule chains_ok_store [OF r(2)])
    fix y
    assume "y \<in> chained ?ch"
    then have "y \<in> chained (v_ch v)" "y \<noteq> x" using cr by auto
    then show "lru_valid st2 y \<and> nx st2 y = nx (ns P2) y"
      using val f(4) [of y] eq(3) ix(2) s1(3) s2(3) lru_frame_attrs(1) [OF st1(3)] by simp
  qed
  moreover have "lists_ok st2 fs us (\<lambda>k. remove1 x (v_ls v k))"
    by (rule lists_ok_release [OF i2(1) lk2 x st1(4) st1(2)]) (use st2 s2(1) i1(2) in simp_all)
  moreover have "data_ok ?P' (groups st2 fs us) ?ch"
  proof (rule data_ok_cong(1) [OF dt same subset_refl])
    show "vd (ns ?P') y = vd (ns P) y" if "y \<in> chained ?ch" for y using that cr vd val by simp
    show "chunk_ok ?P' (groups st2 fs us) (vd (ns P) y) \<and> node_key ?P' y = node_key P y" if "y \<in> filled P ?ch" "y \<in> chained ?ch" for y
      using data_okD(1) [OF dt that(1)] that(2) cr vd val pool_sameD(2) [OF f2(2)] eq unfolding gr by (simp add: chunk_ok_def)
  qed
  moreover have "chained ?ch \<subseteq> listed (\<lambda>k. remove1 x (v_ls v k))" using cr listed_remove [OF d(6)] d(7) by auto
  ultimately have "pool_inv ?P' (drop_node x fs us v)"
    using st2(2) d(2,4,5) eq(1) pool_sameD [OF f2(2)] unfolding pool_inv_def pool_core_def drop_node_def by simp
  moreover have "fs \<noteq> []" "alloc_conf st2 = alloc_conf (ns P)"
    using st2(5) f(9) alloc_conf_links [OF st1(2)] alloc_conf_links [OF f2(1)] by auto
  ultimately show ?thesis using that e same eq vd lists_okD(5) [OF d(6)] st2(3) i1(2) i2(2) by simp
qed

lemma data_ok_remove:
  assumes "pool_inv P v"
  shows "data_ok P (pool_groups P v) (\<lambda>b. remove1 x (v_ch v b))" "filled P (\<lambda>b. remove1 x (v_ch v b)) = filled P (v_ch v) - {x}"
proof -
  note d = pool_invD [OF assms]
  have r: "set (remove1 x (v_ch v b)) \<subseteq> set (v_ch v b)" for b by (rule set_remove1_subset)
  show "data_ok P (pool_groups P v) (\<lambda>b. remove1 x (v_ch v b))"
    by (rule data_ok_cong(1) [OF d(2) pool_same_refl r]) (simp_all add: data_okD(1) [OF d(2)])
  have "filled P (\<lambda>b. remove1 x (v_ch v b)) = filled P (v_ch v) \<inter> chained (\<lambda>b. remove1 x (v_ch v b))"
    by (rule data_ok_cong(2) [OF d(2) pool_same_refl r, where G' = "pool_groups P v"]) (simp_all add: data_okD(1) [OF d(2)])
  then show "filled P (\<lambda>b. remove1 x (v_ch v b)) = filled P (v_ch v) - {x}"
    unfolding chained_remove [OF pool_coreD(3) [OF d(1)]] by (auto simp: filled_def)
qed

section \<open>Searching a chain\<close>

text \<open>What a search leaves alone.\<close>

definition find_frame :: "cache_pool \<Rightarrow> pool_view \<Rightarrow> cache_pool \<Rightarrow> pool_view \<Rightarrow> bool" where
  "find_frame P v P' v' \<longleftrightarrow> pool_inv P' v' \<and> pool_same P P' \<and> bm (ns P') = bm (ns P) \<and> I_SEARCH (ns P') = I_SEARCH (ns P)
     \<and> filled P' (v_ch v') = filled P (v_ch v) \<and> (\<forall>x\<in>filled P (v_ch v). vd (ns P') x = vd (ns P) x)
     \<and> (\<forall>b. \<forall>x\<in>set (v_ch v b). vd (ns P) x \<noteq> INVALID_HANDLE \<longrightarrow> x \<in> set (v_ch v' b))"

lemma find_frame_refl: "pool_inv P v \<Longrightarrow> find_frame P v P v"
  by (simp add: find_frame_def)

lemma find_frame_trans: "find_frame P v P1 v1 \<Longrightarrow> find_frame P1 v1 P2 v2 \<Longrightarrow> find_frame P v P2 v2"
proof -
  assume f: "find_frame P v P1 v1" "find_frame P1 v1 P2 v2"
  have v: "vd (ns P2) x = vd (ns P) x" if "x \<in> filled P (v_ch v)" for x using f that by (simp add: find_frame_def)
  have "x \<in> set (v_ch v2 b)" if x: "x \<in> set (v_ch v b)" "vd (ns P) x \<noteq> INVALID_HANDLE" for x b
  proof -
    have "x \<in> filled P (v_ch v)" using x by (auto simp: filled_def chained_def)
    then have "vd (ns P1) x \<noteq> INVALID_HANDLE" "x \<in> set (v_ch v1 b)" using f(1) x by (simp_all add: find_frame_def)
    then show ?thesis using f(2) by (simp add: find_frame_def)
  qed
  with v show ?thesis using f pool_same_trans [of P P1 P2] unfolding find_frame_def by simp
qed

lemma find_frame_key: "find_frame P v P' v' \<Longrightarrow> x \<in> filled P (v_ch v) \<Longrightarrow> node_key P' x = node_key P x"
  using pool_sameD(2) [of P P'] by (simp add: find_frame_def)

lemma find_frame_entries: "find_frame P v P' v' \<Longrightarrow> entries P' v' = entries P v"
  unfolding entries_def using find_frame_key [of P v P' v'] by (simp add: find_frame_def cong: image_cong)

text \<open>Dropping a node without data.\<close>

lemma PurgeNode_empty:
  assumes inv: "pool_inv P v" and key: "key_ok (keySize P) key" and x: "x \<in> set (v_ch v b)" "vd (ns P) x = INVALID_HANDLE"
    and h: "home P b key"
  obtains P' v' where "PurgeNode key (I_SEARCH (ns P) x) P = Some P'" "find_frame P v P' v'" "v_ch v' = (\<lambda>c. remove1 x (v_ch v c))"
proof -
  note d = pool_invD [OF inv] and c = pool_coreD [OF pool_invD(1) [OF inv]] and r = data_ok_remove [OF inv, of x]
  have xc: "x \<in> chained (v_ch v)" using x(1) by (auto simp: chained_def)
  have xl: "x \<in> listed (v_ls v)" using xc c(7) by blast
  have hx: "home P b' key" if "x \<in> set (v_ch v b')" for b' using chains_okD(6) [OF c(3) x(1) that] h by simp
  obtain P' fs us where p: "PurgeNode key (I_SEARCH (ns P) x) P = Some P'" "pool_inv P' (drop_node x fs us v)" "pool_same P P'"
    "bm (ns P') = bm (ns P)" "I_SEARCH (ns P') = I_SEARCH (ns P)" "\<And>y. y \<in> listed (v_ls v) \<Longrightarrow> y \<noteq> x \<Longrightarrow> vd (ns P') y = vd (ns P) y"
    using PurgeNode_spec [OF d(1) r(1) key xl hx] by metis
  have nf: "x \<notin> filled P (v_ch v)" using x(2) by (simp add: filled_def)
  have v: "vd (ns P') y = vd (ns P) y" if "y \<in> chained (v_ch v)" "y \<noteq> x" for y using p(6) that c(7) by blast
  have "filled P' (\<lambda>b. remove1 x (v_ch v b)) = filled P (\<lambda>b. remove1 x (v_ch v b))"
    unfolding filled_def chained_remove [OF c(3)] using v by auto
  then have "filled P' (\<lambda>b. remove1 x (v_ch v b)) = filled P (v_ch v)" using r(2) nf by simp
  moreover have "vd (ns P') y = vd (ns P) y" if "y \<in> filled P (v_ch v)" for y using v that nf by (metis (no_types, lifting) filled_def mem_Collect_eq)
  moreover have "y \<in> set (remove1 x (v_ch v c))" if "y \<in> set (v_ch v c)" "vd (ns P) y \<noteq> INVALID_HANDLE" for y c
    using that x(2) by (metis in_set_remove1)
  ultimately have "find_frame P v P' (drop_node x fs us v)"
    using p(2-5) unfolding find_frame_def by (simp add: drop_node_def)
  then show ?thesis using that p(1) by (simp add: drop_node_def)
qed

text \<open>The result of a search of the nodes \<open>ys\<close> for the stored key \<open>k\<close>.\<close>

definition found :: "cache_pool \<Rightarrow> nat list \<Rightarrow> nat list \<Rightarrow> CNode \<Rightarrow> bool" where
  "found P ys k n \<longleftrightarrow> (if \<exists>y\<in>set ys. vd (ns P) y \<noteq> INVALID_HANDLE \<and> node_key P y = k
     then \<exists>y\<in>set ys. vd (ns P) y \<noteq> INVALID_HANDLE \<and> node_key P y = k \<and> n = I_SEARCH (ns P) y else n = null_node)"

lemma found_cong:
  assumes "\<And>z. z \<in> set ys \<Longrightarrow> vd (ns P') z = vd (ns P) z" "bm (ns P') = bm (ns P)" "I_SEARCH (ns P') = I_SEARCH (ns P)"
    "keySize P' = keySize P"
  shows "found P' ys k n = found P ys k n"
proof -
  have e: "(\<exists>z\<in>set ys. Q (vd (ns P') z) z) = (\<exists>z\<in>set ys. Q (vd (ns P) z) z)" for Q using assms(1) by auto
  show ?thesis unfolding found_def assms(2-4)
    e [of "\<lambda>h z. h \<noteq> INVALID_HANDLE \<and> stored_key (keySize P) (bm (ns P)) h = k"]
    e [of "\<lambda>h z. h \<noteq> INVALID_HANDLE \<and> stored_key (keySize P) (bm (ns P)) h = k \<and> n = I_SEARCH (ns P) z"] by (rule refl)
qed

text \<open>The chain from the current node on is \<open>ys\<close>.\<close>

lemma find_loop_spec:
  "pool_inv P v \<Longrightarrow> key_ok (keySize P) key \<Longrightarrow> home P b key \<Longrightarrow> v_ch v b = us @ ys \<Longrightarrow> b < hh_size (hh P) \<Longrightarrow>
     \<exists>n P' v'. find_loop key (I_SEARCH (ns P) (case ys of [] \<Rightarrow> INVALID_NODE_ID | y # _ \<Rightarrow> y)) P = Some (n, P') \<and> find_frame P v P' v'
       \<and> found P ys (packed (keySize P) key) n"
proof (induction ys arbitrary: P v us)
  case Nil
  then show ?case by (intro exI [of _ null_node] exI [of _ P] exI [of _ v]) (simp add: find_loop.simps find_frame_refl found_def)
next
  case (Cons y ys)
  note inv = Cons.prems(1) and d = pool_invD [OF Cons.prems(1)] and c = pool_coreD [OF pool_invD(1) [OF Cons.prems(1)]]
  let ?k = "packed (keySize P) key" and ?hd = "\<lambda>zs. case zs of [] \<Rightarrow> INVALID_NODE_ID | z # _ \<Rightarrow> z"
  have yb: "y \<in> set (v_ch v b)" using Cons.prems(4) by simp
  have yv: "lru_valid (ns P) y" by (rule chains_okD(7) [OF c(3) yb])
  note ya = valid_attrs [OF yv] and yn = valid_not_null [OF yv]
  have "nchain (nx (ns P)) y (y # ys)"
    using nchain_append chains_okD(3) [OF c(3) Cons.prems(5)] Cons.prems(4) by metis
  then have nx: "nx (ns P) y = ?hd ys" using chain_head [of "nx (ns P)" "nx (ns P) y" ys] by simp
  show ?case
  proof (cases "vd (ns P) y = INVALID_HANDLE")
    case True
    obtain P1 v1 where p: "PurgeNode key (I_SEARCH (ns P) y) P = Some P1" "find_frame P v P1 v1" "v_ch v1 = (\<lambda>c. remove1 y (v_ch v c))"
      by (rule PurgeNode_empty [OF inv Cons.prems(2) yb True Cons.prems(3)])
    have f: "pool_inv P1 v1" "pool_same P P1" "bm (ns P1) = bm (ns P)" "I_SEARCH (ns P1) = I_SEARCH (ns P)"
      using p(2) by (simp_all add: find_frame_def)
    note s = pool_sameD [OF f(2)]
    have "y \<notin> set us" using chains_okD(5) [OF c(3), of b] Cons.prems(4) by simp
    then have ch1: "v_ch v1 b = us @ ys" using p(3) Cons.prems(4) by (simp add: remove1_append)
    have bh: "b < hh_size (hh P1)" using Cons.prems(5) s(5) by simp
    have hm: "home P1 b key" using Cons.prems(3) home_same [OF f(2)] by simp
    from Cons.IH [OF f(1) _ hm ch1 bh] Cons.prems(2) s(2) obtain n P' v' where
      r: "find_loop key (I_SEARCH (ns P1) (?hd ys)) P1 = Some (n, P')" "find_frame P1 v1 P' v'"
        "found P1 ys ?k n" by auto
    have v1: "vd (ns P1) z = vd (ns P) z" if "z \<in> set ys" for z
    proof (cases "z \<in> filled P (v_ch v)")
      case True
      then show ?thesis using p(2) by (simp add: find_frame_def)
    next
      case False
      have "z \<in> chained (v_ch v)" "z \<in> chained (v_ch v1)" using that Cons.prems(4) ch1 by (auto simp: chained_def intro: exI [of _ b])
      moreover have "z \<notin> filled P1 (v_ch v1)" using False p(2) by (simp add: find_frame_def)
      ultimately show ?thesis using False by (simp add: filled_def)
    qed
    have "found P ys ?k n" using r(3) found_cong [of ys P1 P] v1 f(3,4) s(2) by simp
    then have "found P (y # ys) ?k n" using True by (simp add: found_def)
    moreover
    have "find_loop key (I_SEARCH (ns P) y) P = Some (n, P')"
      using r(1) p(1) True yn ya nx f(4) by (subst find_loop.simps) (simp add: bad_handle_def Let_def)
    moreover have "find_frame P v P' v'" by (rule find_frame_trans [OF p(2) r(2)])
    ultimately show ?thesis by (intro exI [of _ n] exI [of _ P'] exI [of _ v']) simp
  next
    case False
    have fy: "y \<in> filled P (v_ch v)" using False yb by (auto simp: filled_def chained_def)
    have "DC_type (bm (ns P)) (vd (ns P) y) = DATA_TYPE_RAW" using data_okD(1) [OF d(2) fy] by (simp add: chunk_ok_def)
    then have dk: "DC_Key (bm (ns P)) (vd (ns P) y) = Some (vd (ns P) y + SIZEOF_CRawFormat)" by (simp add: DC_Key_def)
    then have nb: "\<not> bad_handle P (vd (ns P) y)" using False by (simp add: bad_handle_def Handle2Ptr_def)
    obtain e where e: "KeyCmp P key (vd (ns P) y + SIZEOF_CRawFormat) = Some e" "e = 0 \<longleftrightarrow> node_key P y = ?k"
      by (rule KeyCmp_eq [OF Cons.prems(2)])
    show ?thesis
    proof (cases "e = 0")
      case True
      then have "find_loop key (I_SEARCH (ns P) y) P = Some (I_SEARCH (ns P) y, P)"
        using yn ya nb dk e(1) by (subst find_loop.simps) simp
      then show ?thesis using True e(2) False find_frame_refl [OF inv]
        by (intro exI [of _ "I_SEARCH (ns P) y"] exI [of _ P] exI [of _ v]) (auto simp: found_def)
    next
      case ne: False
      have ch: "v_ch v b = (us @ [y]) @ ys" using Cons.prems(4) by simp
      obtain n P' v' where r: "find_loop key (I_SEARCH (ns P) (?hd ys)) P = Some (n, P')" "find_frame P v P' v'"
        "found P ys ?k n" using Cons.IH [OF inv Cons.prems(2,3) ch Cons.prems(5)] by blast
      have "find_loop key (I_SEARCH (ns P) y) P = Some (n, P')"
        using r(1) yn ya nb dk e(1) ne nx by (subst find_loop.simps) simp
      then show ?thesis using r(2,3) ne e(2) by (intro exI [of _ n] exI [of _ P'] exI [of _ v']) (simp add: found_def)
    qed
  qed
qed

lemma CacheFind_spec:
  assumes inv: "pool_inv P v" and key: "key_ok (keySize P) key" and slot: "pool_slot P nh key = Some b"
    and nh: "hashChanging P \<or> nh = targetNewHash P"
  obtains n P' v' where "CacheFind key nh P = Some (n, P')" "find_frame P v P' v'"
    "found P (v_ch v b) (packed (keySize P) key) n"
proof -
  note c = pool_coreD [OF pool_invD(1) [OF inv]]
  have b: "b < hh_size (hh P)" using slot key_slot_less by (auto simp: pool_slot_def split: bind_splits)
  have h: "home P b key" using slot nh by (cases nh) (auto simp: home_def)
  note chb = chains_okD(3) [OF c(3) b]
  have hd: "Hash2Node P b = (case v_ch v b of [] \<Rightarrow> INVALID_NODE_ID | y # _ \<Rightarrow> y)" by (rule chain_head [OF chb])
  have "CacheFind key nh P = find_loop key (I_SEARCH (ns P) (Hash2Node P b)) P"
    using slot by (simp add: CacheFind_def Let_def find_loop.simps)
  with find_loop_spec [OF inv key h, of "[]" "v_ch v b"] b hd show ?thesis using that by auto
qed

end
