(* ===== verification/Cache_Pool_Life.thy ===== *)
theory Cache_Pool_Life
  imports Cache_Pool_Find
begin

text \<open>
  Moving a node between the two hash functions, looking a key up while the hash changes, purging a key with its
  data, and allocating a node for a key.
\<close>

section \<open>Entries\<close>

lemma entries_node:
  assumes "pool_inv P v"
  shows "(k, n) \<in> entries P v \<longleftrightarrow> (\<exists>b. \<exists>y\<in>set (v_ch v b). vd (ns P) y \<noteq> INVALID_HANDLE \<and> node_key P y = k \<and> n = I_SEARCH (ns P) y \<and> home P b k)"
proof
  assume "(k, n) \<in> entries P v"
  then obtain y where y: "y \<in> filled P (v_ch v)" "k = node_key P y" "n = I_SEARCH (ns P) y" by (auto simp: entries_def)
  then obtain b where b: "y \<in> set (v_ch v b)" "vd (ns P) y \<noteq> INVALID_HANDLE" by (auto simp: filled_def chained_def)
  from data_okD(4) [OF pool_invD(2) [OF assms] this] y b
  show "\<exists>b. \<exists>y\<in>set (v_ch v b). vd (ns P) y \<noteq> INVALID_HANDLE \<and> node_key P y = k \<and> n = I_SEARCH (ns P) y \<and> home P b k" by blast
next
  assume "\<exists>b. \<exists>y\<in>set (v_ch v b). vd (ns P) y \<noteq> INVALID_HANDLE \<and> node_key P y = k \<and> n = I_SEARCH (ns P) y \<and> home P b k"
  then show "(k, n) \<in> entries P v" by (auto simp: entries_def filled_def chained_def)
qed

lemma entries_fun:
  assumes "pool_inv P v" "(k, n) \<in> entries P v" "(k, m) \<in> entries P v"
  shows "n = m"
  using assms(2,3) inj_onD [OF data_okD(3) [OF pool_invD(2) [OF assms(1)]]] by (auto simp: entries_def)

lemma filled_same:
  assumes "pool_same P P'" "\<And>x. x \<in> chained ch \<Longrightarrow> vd (ns P') x = vd (ns P) x"
  shows "filled P' ch = filled P ch"
  using assms(2) by (auto simp: filled_def)

lemma chained_push: "chained (ch(b := x # ch b)) = insert x (chained ch)"
proof -
  have "y \<in> chained (ch(b := x # ch b)) \<longleftrightarrow> y = x \<or> y \<in> chained ch" for y
    unfolding chained_def UN_iff by (metis UNIV_I fun_upd_apply list.set_intros(1) set_ConsD list.set_intros(2))
  then show ?thesis by blast
qed

section \<open>Moving a node\<close>

lemma hash_frame_data:
  assumes "hash_frame P P'"
  shows "vd (ns P') = vd (ns P)" "bm (ns P') = bm (ns P)" "I_SEARCH (ns P') = I_SEARCH (ns P)" "ngInfo (ns P') = ngInfo (ns P)"
    "keySize P' = keySize P" "groups (ns P') fs us = groups (ns P) fs us" "chunk_ok P' G h = chunk_ok P G h" "filled P' ch = filled P ch"
proof -
  have f: "links_only (ns P) (ns P')" "pool_same P P'" using assms by (simp_all add: hash_frame_def)
  note s = links_only_same [OF f(1)] and k = pool_sameD(2) [OF f(2)]
  show "vd (ns P') = vd (ns P)" "bm (ns P') = bm (ns P)" "I_SEARCH (ns P') = I_SEARCH (ns P)" "ngInfo (ns P') = ngInfo (ns P)"
    "keySize P' = keySize P" "groups (ns P') fs us = groups (ns P) fs us" "chunk_ok P' G h = chunk_ok P G h" "filled P' ch = filled P ch"
    by (simp_all add: s k groups_def chunk_ok_def filled_def)
qed

lemma MoveToNewHash_spec:
  assumes inv: "pool_inv P v" and key: "key_ok (keySize P) key" and x: "x \<in> filled P (v_ch v)" "node_key P x = packed (keySize P) key"
    and t: "pool_slot P (targetNewHash P) key = Some t"
  obtains P' v' where "MoveToNewHash key (I_SEARCH (ns P) x) P = Some P'" "pool_inv P' v'" "pool_same P P'" "entries P' v' = entries P v"
    "x \<in> set (v_ch v' t)" "I_SEARCH (ns P') = I_SEARCH (ns P)" "lru_valid (ns P') x"
proof -
  note d = pool_invD [OF inv] and c = pool_coreD [OF pool_invD(1) [OF inv]] and dd = data_okD [OF pool_invD(2) [OF inv]]
  have xc: "x \<in> chained (v_ch v)" "vd (ns P) x \<noteq> INVALID_HANDLE" using x(1) by (simp_all add: filled_def)
  have xv: "lru_valid (ns P) x" using xc(1) chains_okD(7) [OF c(3)] by (auto simp: chained_def)
  have hx: "home P b key" if "x \<in> set (v_ch v b)" for b
    using dd(4) [OF that xc(2)] home_packed [OF d(1) key] x(2) by simp
  let ?c1 = "\<lambda>b. remove1 x (v_ch v b)"
  obtain P1 where r: "RemoveFromHash key (I_SEARCH (ns P) x) P = Some P1" "chains_ok P1 ?c1" "hash_frame P P1"
    using RemoveFromHash_spec [OF c(3) pool_slot_Some [OF d(1) key] xv hx] by metis
  note h1 = hash_frame_data [OF r(3)]
  have s1: "pool_same P P1" "lru_valid (ns P1) x" using r(3) xv links_only_same(3) by (auto simp: hash_frame_def)
  have t1: "pool_slot P1 (targetNewHash P1) key = Some t" using t pool_same_slot [OF s1(1)] pool_sameD(4) [OF s1(1)] by simp
  have nc: "x \<notin> chained ?c1" using chained_remove [OF c(3)] by simp
  let ?ch = "?c1(t := x # ?c1 t)"
  obtain P' where i: "Insert2Hash key (I_SEARCH (ns P1) x) P1 = Some P'" "chains_ok P' ?ch" "hash_frame P1 P'"
    using Insert2Hash_spec [OF r(2) t1 s1(2) nc] by metis
  have fr: "hash_frame P P'" by (rule hash_frame_trans [OF r(3) i(3)])
  note h = hash_frame_data [OF fr]
  have s: "pool_same P P'" "links_only (ns P) (ns P')" using fr by (simp_all add: hash_frame_def)
  have ch: "chained ?ch = chained (v_ch v)"
    using chained_push [of ?c1 t x] chained_remove [OF c(3), of x] xc(1) by auto
  let ?v = "v\<lparr>v_ch := ?ch\<rparr>"
  have "home P' b (node_key P' y)" if y: "y \<in> set (?ch b)" "vd (ns P') y \<noteq> INVALID_HANDLE" for b y
  proof (cases "y = x")
    case True
    have "b = t" using y(1) True nc by (auto simp: chained_def split: if_splits)
    moreover have "home P t key" using t by (cases "targetNewHash P") (auto simp: home_def)
    ultimately show ?thesis using True x(2) h home_same [OF s(1)] home_packed [OF d(1) key] by simp
  next
    case False
    then have "y \<in> set (v_ch v b)" using y(1) by (auto split: if_splits dest: in_set_remove1 [THEN iffD1])
    with dd(4) y(2) h home_same [OF s(1)] show ?thesis by simp
  qed
  then have "data_ok P' (pool_groups P' ?v) ?ch"
    using dd unfolding data_ok_def h by (simp add: filled_def ch)
  moreover have "pool_core P' ?v"
    using c i(2) links_only_inv [OF s(2) c(1)] lists_ok_hash [OF fr c(1,6)] ch pool_sameD [OF s(1)] h(2)
    unfolding pool_core_def by simp
  ultimately have "pool_inv P' ?v" by (simp add: pool_inv_def)
  moreover have "entries P' ?v = entries P v" by (simp add: entries_def filled_def h ch)
  moreover have "MoveToNewHash key (I_SEARCH (ns P) x) P = Some P'" using r(1) i(1) h1(3) by (simp add: MoveToNewHash_def)
  moreover have "lru_valid (ns P') x" using links_only_same(3) [OF s(2)] xv by simp
  ultimately show ?thesis using s(1) h(3) by (intro that [of P' ?v]) simp_all
qed

section \<open>Looking a key up\<close>

lemma found_null:
  assumes inv: "pool_inv P v" and y: "y \<in> set (v_ch v b)"
  shows "\<not> is_null_node (I_SEARCH (ns P) y)"
  by (rule valid_not_null [OF chains_okD(7) [OF pool_coreD(3) [OF pool_invD(1) [OF inv]] y]])

text \<open>The result of a lookup in the entries.\<close>

definition lookup :: "(nat list \<times> CNode) set \<Rightarrow> nat list \<Rightarrow> CNode \<Rightarrow> bool" where
  "lookup E k n \<longleftrightarrow> (if k \<in> fst ` E then (k, n) \<in> E \<and> \<not> is_null_node n else n = null_node)"

lemma lookup_some:
  assumes "pool_inv P v" "y \<in> set (v_ch v b)" "vd (ns P) y \<noteq> INVALID_HANDLE" "node_key P y = k"
  shows "lookup (entries P v) k (I_SEARCH (ns P) y)" "(k, I_SEARCH (ns P) y) \<in> entries P v"
proof -
  show e: "(k, I_SEARCH (ns P) y) \<in> entries P v" using assms(2-4) by (auto simp: entries_def filled_def chained_def)
  then show "lookup (entries P v) k (I_SEARCH (ns P) y)" using found_null [OF assms(1,2)] by (force simp: lookup_def)
qed

text \<open>A search that finds the key: the node \<open>n\<close> hangs in the bucket \<open>b\<close>.\<close>

definition hit :: "cache_pool \<Rightarrow> pool_view \<Rightarrow> nat \<Rightarrow> nat list \<Rightarrow> CNode \<Rightarrow> bool" where
  "hit P v b k n \<longleftrightarrow> (\<exists>y\<in>set (v_ch v b). vd (ns P) y \<noteq> INVALID_HANDLE \<and> node_key P y = k \<and> n = I_SEARCH (ns P) y)"

lemma hitD:
  assumes "pool_inv P v" "hit P v b k n"
  shows "lookup (entries P v) k n" "\<not> is_null_node n" "(k, n) \<in> entries P v"
  using assms lookup_some found_null by (auto simp: hit_def)

lemma found_iff_hit: "found P (v_ch v b) k n \<longleftrightarrow> hit P v b k n \<or> (\<nexists>m. hit P v b k m) \<and> n = null_node"
  by (auto simp: found_def hit_def)

text \<open>A node that was found is still in its bucket after the search.\<close>

lemma hit_frame:
  assumes "find_frame P v P' v'" "hit P v b k n"
  shows "hit P' v' b k n" "NodeID (ns P') n \<in> set (v_ch v' b)"
proof -
  obtain y where y: "y \<in> set (v_ch v b)" "vd (ns P) y \<noteq> INVALID_HANDLE" "node_key P y = k" "n = I_SEARCH (ns P) y"
    using assms(2) by (auto simp: hit_def)
  have fy: "y \<in> filled P (v_ch v)" using y(1,2) by (auto simp: filled_def chained_def)
  have f: "pool_inv P' v'" "y \<in> set (v_ch v' b)" "I_SEARCH (ns P') = I_SEARCH (ns P)" "vd (ns P') y = vd (ns P) y"
    using assms(1) y fy by (simp_all add: find_frame_def)
  show "hit P' v' b k n" unfolding hit_def
    by (rule bexI [OF _ f(2)]) (use f(3,4) y find_frame_key [OF assms(1) fy] in simp)
  show "NodeID (ns P') n \<in> set (v_ch v' b)"
    using valid_attrs(3) [OF chains_okD(7) [OF pool_coreD(3) [OF pool_invD(1) [OF f(1)]] f(2)]] f(2,3) y(4) by simp
qed

lemma hit_back:
  assumes "find_frame P v P' v'" "hit P' v' b k n"
  shows "hit P v b k n"
proof -
  obtain y where y: "y \<in> set (v_ch v' b)" "vd (ns P') y \<noteq> INVALID_HANDLE" "node_key P' y = k" "n = I_SEARCH (ns P') y"
    using assms(2) by (auto simp: hit_def)
  then have fy: "y \<in> filled P (v_ch v)" using assms(1) by (auto simp: find_frame_def filled_def chained_def)
  then obtain b' where b': "y \<in> set (v_ch v b')" "vd (ns P) y \<noteq> INVALID_HANDLE" by (auto simp: filled_def chained_def)
  have f: "pool_inv P' v'" "y \<in> set (v_ch v' b')" "I_SEARCH (ns P') = I_SEARCH (ns P)" using assms(1) b' by (simp_all add: find_frame_def)
  have "b' = b" by (rule chains_okD(6) [OF pool_coreD(3) [OF pool_invD(1) [OF f(1)]] f(2) y(1)])
  then show ?thesis using b' f(3) y find_frame_key [OF assms(1) fy] by (auto simp: hit_def)
qed

lemma entries_hit:
  assumes inv: "pool_inv P v" and key: "key_ok (keySize P) key" and e: "(packed (keySize P) key, n) \<in> entries P v"
  obtains b where "hit P v b (packed (keySize P) key) n" "home P b key"
  using e entries_node [OF inv] home_packed [OF pool_invD(1) [OF inv] key] unfolding hit_def by metis

text \<open>The search in the only bucket, and the searches in both buckets while the hash changes.\<close>

lemma find_one:
  assumes inv: "pool_inv P v" and key: "key_ok (keySize P) key" and t: "pool_slot P (targetNewHash P) key = Some t"
    and nc: "\<not> hashChanging P"
  obtains n P' v' where "CacheFind key (targetNewHash P) P = Some (n, P')" "find_frame P v P' v'" "hit P v t (packed (keySize P) key) n"
  | P' v' where "CacheFind key (targetNewHash P) P = Some (null_node, P')" "find_frame P v P' v'" "packed (keySize P) key \<notin> fst ` entries P v"
proof -
  let ?k = "packed (keySize P) key"
  obtain n P' v' where r: "CacheFind key (targetNewHash P) P = Some (n, P')" "find_frame P v P' v'" "found P (v_ch v t) ?k n"
    by (rule CacheFind_spec [OF inv key t]) auto
  show ?thesis
  proof (cases "hit P v t ?k n")
    case True
    then show ?thesis using that(1) r by blast
  next
    case False
    have "?k \<notin> fst ` entries P v"
    proof
      assume "?k \<in> fst ` entries P v"
      then obtain m where "(?k, m) \<in> entries P v" by force
      from entries_hit [OF inv key this] obtain b where b: "hit P v b ?k m" "home P b key" .
      then have "b = t" using t nc by (simp add: home_def)
      with b(1) r(3) False show False by (auto simp: found_iff_hit)
    qed
    then show ?thesis using that(2) r False by (auto simp: found_iff_hit)
  qed
qed

lemma find_two:
  assumes inv: "pool_inv P v" and key: "key_ok (keySize P) key" and s: "pool_slot P a key = Some s" and t: "pool_slot P (\<not> a) key = Some t"
    and hc: "hashChanging P"
  obtains n P1 v1 where "CacheFind key a P = Some (n, P1)" "find_frame P v P1 v1" "hit P v s (packed (keySize P) key) n"
  | n P1 v1 P2 v2 where "CacheFind key a P = Some (null_node, P1)" "CacheFind key (\<not> a) P1 = Some (n, P2)" "find_frame P v P2 v2"
      "hit P v t (packed (keySize P) key) n" "find_frame P v P1 v1"
  | P1 v1 P2 v2 where "CacheFind key a P = Some (null_node, P1)" "CacheFind key (\<not> a) P1 = Some (null_node, P2)" "find_frame P v P2 v2"
      "packed (keySize P) key \<notin> fst ` entries P v" "find_frame P v P1 v1"
proof -
  let ?k = "packed (keySize P) key"
  obtain n P1 v1 where r: "CacheFind key a P = Some (n, P1)" "find_frame P v P1 v1" "found P (v_ch v s) ?k n"
    by (rule CacheFind_spec [OF inv key s]) (use hc in auto)
  show ?thesis
  proof (cases "hit P v s ?k n")
    case True
    then show ?thesis using that(1) r by blast
  next
    case no: False
    then have n: "n = null_node" "\<nexists>m. hit P v s ?k m" using r(3) by (auto simp: found_iff_hit)
    have f: "pool_inv P1 v1" "pool_same P P1" using r(2) by (simp_all add: find_frame_def)
    note p = pool_sameD [OF f(2)]
    have k1: "key_ok (keySize P1) key" "pool_slot P1 (\<not> a) key = Some t" "hashChanging P1"
      using key t hc p pool_same_slot [OF f(2)] by simp_all
    obtain m P2 v2 where q: "CacheFind key (\<not> a) P1 = Some (m, P2)" "find_frame P1 v1 P2 v2" "found P1 (v_ch v1 t) ?k m"
      by (rule CacheFind_spec [OF f(1) k1(1,2)]) (use k1(3) p(2) in auto)
    note fr = find_frame_trans [OF r(2) q(2)]
    show ?thesis
    proof (cases "hit P1 v1 t ?k m")
      case True
      then show ?thesis using that(2) r n q fr hit_back [OF r(2)] by blast
    next
      case False
      then have m: "m = null_node" "\<nexists>l. hit P1 v1 t ?k l" using q(3) by (auto simp: found_iff_hit)
      have "?k \<notin> fst ` entries P v"
      proof
        assume "?k \<in> fst ` entries P v"
        then obtain l where "(?k, l) \<in> entries P v" by force
        from entries_hit [OF inv key this] obtain b where b: "hit P v b ?k l" "home P b key" .
        have "b = s \<or> b = t" using b(2) s t hc by (cases a) (auto simp: home_def)
        then show False using b(1) n(2) m(2) hit_frame(1) [OF r(2)] by blast
      qed
      then show ?thesis using that(3) r n(1) q m(1) fr by blast
    qed
  qed
qed

lemma AutoChose_spec:
  assumes inv: "pool_inv P v" and key: "key_ok (keySize P) key" and t: "pool_slot P (targetNewHash P) key = Some t"
  obtains n P' v' where "CacheFindAutoChoseHash key P = Some (n, P')" "pool_inv P' v'" "pool_same P P'" "entries P' v' = entries P v"
    "lookup (entries P v) (packed (keySize P) key) n" "n \<noteq> null_node \<Longrightarrow> NodeID (ns P') n \<in> set (v_ch v' t)"
proof -
  let ?k = "packed (keySize P) key" and ?o = "\<not> targetNewHash P"
  have ff: "pool_inv P' v'" "pool_same P P'" "entries P' v' = entries P v" if "find_frame P v P' v'" for P' v'
    using that find_frame_entries [OF that] by (simp_all add: find_frame_def)
  have none: "lookup (entries P v) ?k null_node" if "?k \<notin> fst ` entries P v" using that by (simp add: lookup_def)
  show ?thesis
  proof (cases "hashChanging P")
    case False
    then have e: "CacheFindAutoChoseHash key P = CacheFind key (targetNewHash P) P" by (simp add: CacheFindAutoChoseHash_def)
    show ?thesis
    proof (cases rule: find_one [OF inv key t False])
      case (1 n P' v')
      then show ?thesis using that e ff [OF 1(2)] hitD [OF inv 1(3)] hit_frame(2) [OF 1(2,3)] by metis
    next
      case (2 P' v')
      then show ?thesis using that e ff [OF 2(2)] none by metis
    qed
  next
    case True
    obtain s where s: "pool_slot P ?o key = Some s" using pool_slot_Some [OF pool_invD(1) [OF inv] key] by metis
    have t': "pool_slot P (\<not> ?o) key = Some t" using t by simp
    show ?thesis
    proof (cases rule: find_two [OF inv key s t' True])
      case (1 n P1 v1)
      note h = hitD [OF inv 1(3)] and p = pool_sameD [OF ff(2) [OF 1(2)]]
      have key1: "key_ok (keySize P1) key" "pool_slot P1 (targetNewHash P1) key = Some t"
        using key t p(2,4) pool_same_slot [OF ff(2) [OF 1(2)]] by simp_all
      obtain y where y: "y \<in> filled P1 (v_ch v1)" "node_key P1 y = packed (keySize P1) key" "n = I_SEARCH (ns P1) y"
        using hit_frame(1) [OF 1(2,3)] p(2) unfolding hit_def by (auto simp: filled_def chained_def)
      obtain P' v' where m: "MoveToNewHash key (I_SEARCH (ns P1) y) P1 = Some P'" "pool_inv P' v'" "pool_same P1 P'"
        "entries P' v' = entries P1 v1" "y \<in> set (v_ch v' t)" "I_SEARCH (ns P') = I_SEARCH (ns P1)" "lru_valid (ns P') y"
        by (rule MoveToNewHash_spec [OF ff(1) [OF 1(2)] key1(1) y(1,2) key1(2)])
      have "CacheFindAutoChoseHash key P = Some (n, P')"
        using True 1(1) h(2) m(1) y(3) by (simp add: CacheFindAutoChoseHash_def Let_def)
      moreover have "NodeID (ns P') n = y" using valid_attrs(3) [OF m(7)] m(6) y(3) by simp
      ultimately show ?thesis using that m(2,4,5) ff [OF 1(2)] pool_same_trans [OF ff(2) [OF 1(2)] m(3)] h(1) by simp
    next
      case (2 n P1 v1 P2 v2)
      have "CacheFindAutoChoseHash key P = Some (n, P2)" using True 2(1,2) by (simp add: CacheFindAutoChoseHash_def Let_def)
      then show ?thesis using that ff [OF 2(3)] hitD [OF inv 2(4)] hit_frame(2) [OF 2(3,4)] by metis
    next
      case (3 P1 v1 P2 v2)
      have "CacheFindAutoChoseHash key P = Some (null_node, P2)" using True 3(1,2) by (simp add: CacheFindAutoChoseHash_def Let_def)
      then show ?thesis using that ff [OF 3(3)] none [OF 3(4)] by metis
    qed
  qed
qed

end
