(* ===== verification/Cache_Pool_Store.thy ===== *)
theory Cache_Pool_Store
  imports Cache_Pool_Life
begin

text \<open>
  Purging a key together with its data, allocating a node for a key, and formatting the hash.
\<close>

section \<open>The segment changes, the nodes do not\<close>

lemma bm_upd [simp]:
  "I_SEARCH (st\<lparr>bm := b\<rparr>) = I_SEARCH st" "NodeID (st\<lparr>bm := b\<rparr>) = NodeID st" "lru_valid (st\<lparr>bm := b\<rparr>) = lru_valid st"
  "nx (st\<lparr>bm := b\<rparr>) = nx st" "vd (st\<lparr>bm := b\<rparr>) = vd st" "lru_next (st\<lparr>bm := b\<rparr>) = lru_next st"
  "lru_prev (st\<lparr>bm := b\<rparr>) = lru_prev st" "indexed (st\<lparr>bm := b\<rparr>) = indexed st" "lru_list (st\<lparr>bm := b\<rparr>) = lru_list st"
  "sys_node (st\<lparr>bm := b\<rparr>) = sys_node st" "ns_used (st\<lparr>bm := b\<rparr>) = ns_used st" "groups (st\<lparr>bm := b\<rparr>) = groups st"
proof -
  show s: "I_SEARCH (st\<lparr>bm := b\<rparr>) = I_SEARCH st" "NodeID (st\<lparr>bm := b\<rparr>) = NodeID st"
    by (simp_all add: fun_eq_iff I_SEARCH_def NodeID_def Let_def)
  show v: "lru_valid (st\<lparr>bm := b\<rparr>) = lru_valid st" "indexed (st\<lparr>bm := b\<rparr>) = indexed st"
    by (simp_all add: fun_eq_iff lru_valid_def indexed_def s)
  show n: "nx (st\<lparr>bm := b\<rparr>) = nx st" "vd (st\<lparr>bm := b\<rparr>) = vd st" "lru_next (st\<lparr>bm := b\<rparr>) = lru_next st"
    "lru_prev (st\<lparr>bm := b\<rparr>) = lru_prev st"
    by (simp_all add: fun_eq_iff nx_def vd_def lru_next_def lru_prev_def s v)
  show "lru_list (st\<lparr>bm := b\<rparr>) = lru_list st" by (simp add: fun_eq_iff lru_list_def s v n)
  show "sys_node (st\<lparr>bm := b\<rparr>) = sys_node st" "ns_used (st\<lparr>bm := b\<rparr>) = ns_used st" "groups (st\<lparr>bm := b\<rparr>) = groups st"
    by (simp_all add: fun_eq_iff sys_node_def ns_used_def groups_def)
qed

lemma lists_ok_bm: "lists_ok (st\<lparr>bm := b\<rparr>) fs us ls = lists_ok st fs us ls"
  by (simp add: lists_ok_def)

lemma free_chunk:
  assumes inv: "ns_inv st fs us" and s: "BM_sound (bm st)" and h: "(h, k) \<in> BM_chunks (bm st)" "h \<notin> groups st fs us" "h \<noteq> ngInfo st"
  obtains b where "BM_Free h (bm st) = (0, b)" "ns_inv (st\<lparr>bm := b\<rparr>) fs us" "BM_sound b" "BM_chunks b = BM_chunks (bm st) - {(h, k)}"
    "m_user b = m_user (bm st)" "Ptr2Handle (bm st) (Some h) = h"
proof -
  note d = ns_invD [OF inv]
  from s h(1) obtain bs p n where c: "BM_inv (bm st) bs" "(p, n, True) \<in> set bs" "h = chunk2mem p" "k = n - 4" "24 \<le> n"
    by (rule BM_chunksE)
  obtain k' where k': "(h, k') \<in> BM_blocks (bm st)" using chunk_block [OF s h(1)] by blast
  from bm.free_block [OF d(1) k'] obtain b where b: "BM_Free h (bm st) = (0, b)" "BM_ok b" "BM_blocks b = BM_blocks (bm st) - {(h, k')}"
    by blast
  have kp: "m_user b = m_user (bm st)" "memSize b = memSize (bm st)" using BM_Free_keeps [OF c(1,2)] b(1) c(3) by simp_all
  have cf: "BM_sound b \<and> BM_chunks b = BM_chunks (bm st) - {(h, k)}" using bmm.cm_free [OF s h(1)] b(1) by auto
  have "links_ok (st\<lparr>bm := b\<rparr>) fs us" by (rule links_ok_cong [OF d(2)]) (use kp in simp_all)
  moreover have "group_ok (st\<lparr>bm := b\<rparr>) g" if "g \<in> groups st fs us" for g
  proof -
    have "g \<noteq> h" using that h(2) by blast
    then have "g \<in> fst ` BM_blocks b" using group_okD(5) [OF d(4) [OF that]] b(3) by force
    then show ?thesis using d(4) [OF that] by (simp add: group_ok_def group_indexed_def second_of_def)
  qed
  moreover have "\<exists>k\<ge>SIZEOF_NG_INFO_T. (ngInfo st, k) \<in> BM_blocks b" using inv h(3) b(3) by (auto simp: ns_inv_def)
  ultimately have "ns_inv (st\<lparr>bm := b\<rparr>) fs us" using inv b(2) by (simp add: ns_inv_def)
  moreover have "Ptr2Handle (bm st) (Some h) = h" using bmc.in_limit [OF d(1) k'] by (simp add: Ptr2Handle_def)
  ultimately show ?thesis using that b(1) cf kp(1) by blast
qed

section \<open>Purging a key\<close>

lemma PurgeNodeEverything_key_spec:
  assumes inv: "pool_inv P v" and key: "key_ok (keySize P) key" and x: "x \<in> filled P (v_ch v)" "node_key P x = packed (keySize P) key"
  obtains P' v' fs us where "PurgeNodeEverything_key E key (I_SEARCH (ns P) x) P = Some (0, P')" "pool_inv P' v'"
    "entries P' v' = entries P v - {(packed (keySize P) key, I_SEARCH (ns P) x)}" "pool_same P P'"
    "fst ` BM_chunks (bm (ns P')) = fst ` BM_chunks (bm (ns P)) - {vd (ns P) x}"
    "v' = drop_node x fs us v" "fs \<noteq> []" "alloc_conf (ns P') = alloc_conf (ns P)" "I_SEARCH (ns P') = I_SEARCH (ns P)"
    "\<And>y. y \<in> filled P (v_ch v) \<Longrightarrow> y \<noteq> x \<Longrightarrow> node_key P' y = node_key P y" "filled P' (v_ch v') = filled P (v_ch v) - {x}"
proof -
  note d = pool_invD [OF inv] and c = pool_coreD [OF pool_invD(1) [OF inv]] and dd = data_okD [OF pool_invD(2) [OF inv]]
  let ?h = "vd (ns P) x" and ?n = "I_SEARCH (ns P) x" and ?G = "pool_groups P v" and ?c = "\<lambda>b. remove1 x (v_ch v b)"
  have xc: "x \<in> chained (v_ch v)" "?h \<noteq> INVALID_HANDLE" using x(1) by (simp_all add: filled_def)
  have xl: "x \<in> listed (v_ls v)" using xc(1) c(7) by blast
  have xv: "lru_valid (ns P) x" using lists_okD(5) [OF c(6) xl] .
  obtain k where k: "(?h, k) \<in> BM_chunks (bm (ns P))" and ty: "DC_type (bm (ns P)) ?h = DATA_TYPE_RAW" "?h \<notin> ?G" "?h \<noteq> ngInfo (ns P)"
    using dd(1) [OF x(1)] by (auto simp: chunk_ok_def)
  obtain b where b: "BM_Free ?h (bm (ns P)) = (0, b)" "ns_inv ((ns P)\<lparr>bm := b\<rparr>) (v_fs v) (v_us v)" "BM_sound b"
    "BM_chunks b = BM_chunks (bm (ns P)) - {(?h, k)}" "m_user b = m_user (bm (ns P))" "Ptr2Handle (bm (ns P)) (Some ?h) = ?h"
    by (rule free_chunk [OF c(1,2) k ty(2,3)])
  let ?P1 = "P\<lparr>survival_hour := survival_hour P @ [u32_sub (env_hour E) (DC_CreateTime (bm (ns P)) ?h)], ns := (ns P)\<lparr>bm := b\<rparr>\<rparr>"
  have s1: "pool_same P ?P1" by (simp add: pool_same_def pool_conf_def)
  have "chains_ok (P\<lparr>ns := (ns P)\<lparr>bm := b\<rparr>\<rparr>) (v_ch v)" by (rule chains_ok_store [OF c(3)]) (use chains_okD(7) [OF c(3)] in \<open>auto simp: chained_def\<close>)
  then have "chains_ok ?P1 (v_ch v)" by (simp add: chains_ok_def Hash2Node_def)
  then have core: "pool_core ?P1 v" using b(2,3) c by (simp add: pool_core_def lists_ok_bm)
  have sk: "stored_key ksz b h = stored_key ksz (bm (ns P)) h" for ksz h by (simp add: stored_key_def get_bytes_def b(5))
  note r = data_ok_remove [OF inv, of x]
  have ck: "chunk_ok ?P1 ?G (vd (ns P) y)" if y: "y \<in> filled P ?c" for y
  proof -
    have yf: "y \<in> filled P (v_ch v)" "y \<noteq> x" using y r(2) by auto
    then have "vd (ns P) y \<noteq> ?h" using inj_onD [OF dd(2) _ yf(1) x(1)] by blast
    with dd(1) [OF yf(1)] show ?thesis by (auto simp: chunk_ok_def b(4) sk DC_type_def b(5))
  qed
  have dt: "data_ok ?P1 (pool_groups ?P1 v) ?c"
    by (rule data_ok_cong(1) [OF r(1) s1 subset_refl]) (use ck sk in simp_all)
  have hx: "home ?P1 b' key" if "x \<in> set (v_ch v b')" for b'
    using dd(4) [OF that xc(2)] home_packed [OF d(1) key] x(2) home_same [OF s1] by simp
  have key1: "key_ok (keySize ?P1) key" using key by simp
  obtain P' fs us where p: "PurgeNode key (I_SEARCH (ns ?P1) x) ?P1 = Some P'" "pool_inv P' (drop_node x fs us v)" "pool_same ?P1 P'"
    "bm (ns P') = bm (ns ?P1)" "I_SEARCH (ns P') = I_SEARCH (ns ?P1)" "\<And>y. y \<in> listed (v_ls v) \<Longrightarrow> y \<noteq> x \<Longrightarrow> vd (ns P') y = vd (ns ?P1) y"
    "fs \<noteq> []" "alloc_conf (ns P') = alloc_conf (ns ?P1)"
    using PurgeNode_spec [OF core dt key1 xl hx] by metis
  have e: "PurgeNodeEverything_key E key ?n P = Some (0, P')"
    using valid_attrs(2) [OF xv] valid_not_null [OF xv] xc(2) p(1) b(1,6) ty(1)
    by (simp add: PurgeNodeEverything_key_def Let_def DC_Destroy_def)
  have same: "pool_same P P'" by (rule pool_same_trans [OF s1 p(3)])
  have v: "vd (ns P') y = vd (ns P) y" if "y \<in> chained ?c" for y
    using that chained_remove [OF c(3), of x] c(7) p(6) [of y] by auto
  have fl: "filled P' ?c = filled P (v_ch v) - {x}" using filled_same [OF same v] r(2) by simp
  have kv: "node_key P' y = node_key P y" if "y \<in> filled P (v_ch v) - {x}" for y
    using v [of y] that chained_remove [OF c(3), of x] p(4) sk pool_sameD(2) [OF same] by (simp add: filled_def)
  have "entries P' (drop_node x fs us v) = (\<lambda>y. (node_key P y, I_SEARCH (ns P) y)) ` (filled P (v_ch v) - {x})"
    unfolding entries_def drop_node_def pool_view.simps fl p(5) by (rule image_cong [OF refl]) (simp add: kv)
  also have "\<dots> = entries P v - {(packed (keySize P) key, ?n)}"
  proof -
    have "inj_on (\<lambda>y. (node_key P y, I_SEARCH (ns P) y)) (filled P (v_ch v))" using dd(3) by (auto simp: inj_on_def)
    from inj_on_image_set_diff [OF this, of "filled P (v_ch v)" "{x}"] x show ?thesis by (simp add: entries_def)
  qed
  finally have en: "entries P' (drop_node x fs us v) = entries P v - {(packed (keySize P) key, ?n)}" .
  have "fst ` BM_chunks b = fst ` BM_chunks (bm (ns P)) - {?h}"
  proof -
    have "k' = k" if "(?h, k') \<in> BM_chunks (bm (ns P))" for k'
      using ChunkSize_chunk(1) [OF c(2) that] ChunkSize_chunk(1) [OF c(2) k] by simp
    then show ?thesis unfolding b(4) by force
  qed
  then have "fst ` BM_chunks (bm (ns P')) = fst ` BM_chunks (bm (ns P)) - {?h}" using p(4) by simp
  moreover have "I_SEARCH (ns P') = I_SEARCH (ns P)" "alloc_conf (ns P') = alloc_conf (ns P)" using p(5,8) by simp_all
  moreover have "filled P' (v_ch (drop_node x fs us v)) = filled P (v_ch v) - {x}" using fl by (simp add: drop_node_def)
  moreover have "node_key P' y = node_key P y" if "y \<in> filled P (v_ch v)" "y \<noteq> x" for y using kv that by blast
  ultimately show ?thesis using that [OF e p(2) en same _ refl p(7)] by blast
qed

lemma CachePurge_spec:
  assumes inv: "pool_inv P v" and key: "key_ok (keySize P) key"
  obtains P' v' where "CachePurge E key P = Some (0, P')" "pool_inv P' v'" "pool_same P P'"
    "entries P' v' = {e \<in> entries P v. fst e \<noteq> packed (keySize P) key}"
proof -
  let ?k = "packed (keySize P) key"
  have ff: "pool_inv P' v'" "pool_same P P'" "entries P' v' = entries P v" if "find_frame P v P' v'" for P' v'
    using that find_frame_entries [OF that] by (simp_all add: find_frame_def)
  have none: "entries P v = {e \<in> entries P v. fst e \<noteq> ?k}" if "?k \<notin> fst ` entries P v" using that by force
  have purge: "\<exists>P2 v2. PurgeNodeEverything_key E key n P' = Some (0, P2) \<and> pool_inv P2 v2 \<and> pool_same P P2
      \<and> entries P2 v2 = {e \<in> entries P v. fst e \<noteq> ?k}"
    if f: "find_frame P v P' v'" and h: "hit P v b ?k n" for P' v' n b
  proof -
    note p = pool_sameD [OF ff(2) [OF f]]
    obtain y where y: "y \<in> filled P' (v_ch v')" "node_key P' y = packed (keySize P') key" "n = I_SEARCH (ns P') y"
      using hit_frame(1) [OF f h] p(2) unfolding hit_def by (auto simp: filled_def chained_def)
    have key': "key_ok (keySize P') key" using key p(2) by simp
    obtain P2 v2 where q: "PurgeNodeEverything_key E key (I_SEARCH (ns P') y) P' = Some (0, P2)" "pool_inv P2 v2"
      "entries P2 v2 = entries P' v' - {(packed (keySize P') key, I_SEARCH (ns P') y)}" "pool_same P' P2"
      by (rule PurgeNodeEverything_key_spec [OF ff(1) [OF f] key' y(1,2)])
    have "entries P v - {(?k, n)} = {e \<in> entries P v. fst e \<noteq> ?k}"
    proof (intro set_eqI iffI)
      fix e
      assume e: "e \<in> entries P v - {(?k, n)}"
      then show "e \<in> {e \<in> entries P v. fst e \<noteq> ?k}" using entries_fun [OF inv _ hitD(3) [OF inv h], of "snd e"] by (cases e) auto
    qed auto
    then have "entries P2 v2 = {e \<in> entries P v. fst e \<noteq> ?k}" using q(3) y(3) p(2) ff(3) [OF f] by simp
    moreover have "pool_same P P2" by (rule pool_same_trans [OF ff(2) [OF f] q(4)])
    ultimately show ?thesis using q(1,2) y(3) by blast
  qed
  have null: "is_null_node null_node" by simp
  show ?thesis
  proof (cases "hashChanging P")
    case True
    obtain s t where s: "pool_slot P False key = Some s" "pool_slot P (\<not> False) key = Some t"
      using pool_slot_Some [OF pool_invD(1) [OF inv] key] by metis
    show ?thesis
    proof (cases rule: find_two [OF inv key s True])
      case (1 n P1 v1)
      from purge [OF 1(2,3)] obtain P2 v2 where q: "PurgeNodeEverything_key E key n P1 = Some (0, P2)" "pool_inv P2 v2" "pool_same P P2"
        "entries P2 v2 = {e \<in> entries P v. fst e \<noteq> ?k}" by blast
      have "CachePurge E key P = Some (0, P2)" using True 1(1) hitD(2) [OF inv 1(3)] q(1) by (simp add: CachePurge_def)
      then show ?thesis using that q by blast
    next
      case (2 n P1 v1 P2 v2)
      from purge [OF 2(3,4)] obtain P3 v3 where q: "PurgeNodeEverything_key E key n P2 = Some (0, P3)" "pool_inv P3 v3" "pool_same P P3"
        "entries P3 v3 = {e \<in> entries P v. fst e \<noteq> ?k}" by blast
      have "CachePurge E key P = Some (0, P3)" using True 2(1,2) hitD(2) [OF inv 2(4)] q(1) by (simp add: CachePurge_def)
      then show ?thesis using that q by blast
    next
      case (3 P1 v1 P2 v2)
      have "CachePurge E key P = Some (0, P2)" using True 3(1,2) by (simp add: CachePurge_def)
      then show ?thesis using that ff [OF 3(3)] none [OF 3(4)] by metis
    qed
  next
    case False
    obtain t where t: "pool_slot P (targetNewHash P) key = Some t" using pool_slot_Some [OF pool_invD(1) [OF inv] key] by metis
    show ?thesis
    proof (cases rule: find_one [OF inv key t False])
      case (1 n P1 v1)
      from purge [OF 1(2,3)] obtain P2 v2 where q: "PurgeNodeEverything_key E key n P1 = Some (0, P2)" "pool_inv P2 v2" "pool_same P P2"
        "entries P2 v2 = {e \<in> entries P v. fst e \<noteq> ?k}" by blast
      have "CachePurge E key P = Some (0, P2)" using False 1(1) hitD(2) [OF inv 1(3)] q(1) by (simp add: CachePurge_def)
      then show ?thesis using that q by blast
    next
      case (2 P1 v1)
      have "CachePurge E key P = Some (0, P1)" using False 2(1) by (simp add: CachePurge_def)
      then show ?thesis using that ff [OF 2(2)] none [OF 2(3)] by metis
    qed
  qed
qed

section \<open>A node for a key\<close>

lemma lists_ok_keep:
  assumes inv: "ns_inv st fs us" and ok: "lists_ok st fs us ls" and u: "ns_used st fs us \<subseteq> ns_used st' fs' us'"
    and keep: "\<And>x. lru_valid st x \<Longrightarrow> I_SEARCH st x \<in> live_nodes st fs us \<Longrightarrow> same_node st st' x"
    and z: "ni_sys_zone (ni st') = ni_sys_zone (ni st)" "m_ng st' (ni_sys_zone (ni st)) = m_ng st (ni_sys_zone (ni st))"
  shows "lists_ok st' fs' us' ls"
proof -
  note d = lists_okD [OF ok]
  have sl: "same_node st st' x" if "x \<in> listed ls" for x using that keep d(3,5) used_live by blast
  have ss: "same_node st st' (NodeID st (sys_node st k))" if "k < 3" for k
    by (rule keep) (use live_indexed [OF inv sys_live(1) [OF inv ok that]] sys_live(1) [OF inv ok that] in \<open>auto simp: indexed_def\<close>)
  have sy: "sys_node st' = sys_node st" unfolding sys_node_def z(1) by (rule refl)
  have "lru_list st' (sys_node st' k) (ls k)" if k: "k < 3" for k
  proof (rule lru_list_cong)
    show "lru_list st (sys_node st' k) (ls k)" using d(1) [OF k] sy by simp
    have ix: "indexed st (sys_node st k)" by (rule live_indexed(1) [OF inv sys_live(1) [OF inv ok k]])
    then have "I_SEARCH st' (NodeID st (sys_node st k)) = sys_node st k" "lru_valid st' (NodeID st (sys_node st k))"
      using ss [OF k] by (simp_all add: same_node_def indexed_def)
    then show "NodeID st' (sys_node st' k) = NodeID st (sys_node st' k)" "indexed st' (sys_node st' k)"
      using valid_attrs(3) valid_indexed sy by metis+
    show "lru_valid st' i \<and> lru_next st' i = lru_next st i \<and> lru_prev st' i = lru_prev st i"
      if "i \<in> insert (NodeID st (sys_node st' k)) (set (ls k))" for i
    proof -
      have "same_node st st' i" using sl ss [OF k] that k sy by (auto simp: listed_def)
      then show ?thesis by (simp add: same_node_def)
    qed
  qed
  moreover have "I_SEARCH st' x \<in> ns_used st' fs' us'" if "x \<in> listed ls" for x
    using sl [OF that] d(3) [OF that] u by (auto simp: same_node_def)
  moreover have "k \<in> ng_used (m_ng st' (ni_sys_zone (ni st')))" if "k < 3" for k using d(4) [OF that] z by simp
  ultimately show ?thesis using d(2) unfolding lists_ok_def by blast
qed

lemma listed_push: "k < 3 \<Longrightarrow> listed (ls(k := x # ls k)) = insert x (listed ls)"
  by (auto simp: listed_def split: if_splits)

text \<open>The heads of the lists as the operations on lists name them.\<close>

lemma Insert2Lru_head:
  assumes "ns_inv st fs us" "lists_ok st fs us ls"
  shows "Insert2DirtyLru n st = NODE_LIST_ADD n (sys_node st 0) st" "Insert2CleanLru n st = NODE_LIST_ADD n (sys_node st 1) st"
    "Insert2EmptyLru n st = NODE_LIST_ADD n (sys_node st 2) st"
proof -
  have "indexed st (sys_node st 1)" by (rule live_indexed(1) [OF assms(1) sys_live(1) [OF assms]]) simp
  then have "ni_sys_zone (ni st) \<noteq> INVALID_HANDLE" by (auto simp: sys_node_def indexed_def null_node_def split: if_splits)
  then show "Insert2DirtyLru n st = NODE_LIST_ADD n (sys_node st 0) st" "Insert2CleanLru n st = NODE_LIST_ADD n (sys_node st 1) st"
    "Insert2EmptyLru n st = NODE_LIST_ADD n (sys_node st 2) st"
    by (simp_all add: Insert2DirtyLru_def Insert2CleanLru_def Insert2EmptyLru_def sys_node_def SYS_DIRTY_NODE_INDEX_def
        SYS_CLEAN_NODE_INDEX_def SYS_EMPTY_NODE_INDEX_def)
qed

lemma Insert2Lru_spec:
  assumes inv: "ns_inv st fs us" and ok: "lists_ok st fs us ls" and n: "n \<in> ns_used st fs us" "NodeID st n \<notin> listed ls" and k: "k < 3"
  obtains st' where "NODE_LIST_ADD n (sys_node st k) st = Some st'" "links_only st st'" "lru_frame st st'"
    "lists_ok st' fs us (ls(k := NodeID st n # ls k))"
proof -
  note d = lists_okD [OF ok]
  let ?x = "NodeID st n"
  note ix = used_indexed [OF inv n(1)]
  have sx: "?x \<noteq> NodeID st (sys_node st j)" if "j < 3" for j
  proof
    assume "?x = NodeID st (sys_node st j)"
    then have "n = sys_node st j" using ix(1) live_indexed(1) [OF inv sys_live(1) [OF inv ok that]] by (metis indexed_def)
    moreover have "ni_sys_zone (ni st) \<noteq> INVALID_HANDLE" using block_valid(3) [OF ns_invD(1) [OF inv]] group_okD(5) [OF ns_invD(4) [OF inv]] by (simp add: groups_def)
    ultimately show False using n(1) ns_invD(6) [OF inv] by (simp add: ns_used_def sys_node_def)
  qed
  have x1: "?x \<notin> insert (NodeID st (sys_node st k)) (set (ls k))" using sx [OF k] n(2) k by (auto simp: listed_def)
  obtain st' where r: "NODE_LIST_ADD n (sys_node st k) st = Some st'" "lru_list st' (sys_node st k) (?x # ls k)" "lru_frame st st'"
    "\<And>h' ys. lru_list st h' ys \<Longrightarrow> insert (NodeID st h') (set ys) \<inter> insert ?x (insert (NodeID st (sys_node st k)) (set (ls k))) = {}
       \<Longrightarrow> lru_list st' h' ys"
    using lru_list_add [OF d(1) [OF k] ix(1) x1] by metis
  have lo: "links_only st st'" by (rule links_only_lru(2) [OF r(1)])
  note s = links_only_same [OF lo] and i = links_only_inv [OF lo inv]
  have sy: "sys_node st' = sys_node st" by (simp add: fun_eq_iff sys_node_def s)
  let ?l = "ls(k := ?x # ls k)"
  have "lru_list st' (sys_node st' j) (?l j)" if j: "j < 3" for j
  proof (cases "j = k")
    case True
    then show ?thesis using r(2) sy by simp
  next
    case False
    have "set (ls j) \<inter> set (ls k) = {}" using d(2) [OF j k] False by auto
    moreover have "NodeID st (sys_node st j) \<noteq> NodeID st (sys_node st k)" using sys_live(3) [OF inv ok k j] False by auto
    moreover have "NodeID st (sys_node st j) \<notin> set (ls k)" "NodeID st (sys_node st k) \<notin> set (ls j)" "?x \<notin> set (ls j)"
      using sys_live(2) [OF inv ok j] sys_live(2) [OF inv ok k] n(2) j k by (auto simp: listed_def)
    ultimately show ?thesis using r(4) [OF d(1) [OF j]] False sx [OF j] sy by simp
  qed
  moreover have "set (?l i) \<inter> set (?l j) = {}" if "i < 3" "j < 3" "i \<noteq> j" for i j
    using d(2) [OF that(1,2)] that n(2) by (auto simp: listed_def disjoint_iff)
  moreover have "I_SEARCH st' y \<in> ns_used st' fs us" if "y \<in> listed ?l" for y
  proof -
    have "y = ?x \<or> y \<in> listed ls" using that listed_push [OF k] by auto
    then show ?thesis using d(3) n(1) ix(1) s(1) i(2) by (auto simp: indexed_def)
  qed
  ultimately have "lists_ok st' fs us ?l" using d(4) s(6,7,9) unfolding lists_ok_def by simp
  then show ?thesis using that r(1,3) lo by blast
qed

text \<open>The segment grows: a chunk keeps the bytes in it, and the chained nodes their keys.\<close>

lemma chunk_grows:
  assumes c: "chunk_ok P G h" and bs: "BM_sound (bm (ns P))" and g: "bm_grows (bm (ns P)) (bm (ns P'))" and s: "keySize P' = keySize P"
    and ni: "ngInfo (ns P') = ngInfo (ns P)" and G: "G' \<inter> fst ` BM_blocks (bm (ns P)) \<subseteq> G"
  shows "chunk_ok P' G' h" "stored_key (keySize P) (bm (ns P')) h = stored_key (keySize P) (bm (ns P)) h"
proof -
  let ?key = "stored_key (keySize P) (bm (ns P)) h"
  obtain k where k: "(h, k) \<in> BM_chunks (bm (ns P))" "SIZEOF_CRawFormat + length ?key \<le> k"
    and ty: "DC_type (bm (ns P)) h = DATA_TYPE_RAW" "h \<notin> G" "h \<noteq> ngInfo (ns P)"
    using c by (auto simp: chunk_ok_def)
  have b: "(h, k) \<in> BM_chunks (bm (ns P'))" "\<And>i. i < k \<Longrightarrow> m_user (bm (ns P')) (h + i) = m_user (bm (ns P)) (h + i)"
    using g k(1) bs unfolding bm_grows_def by blast+
  have l: "0 < length ?key" by (simp add: stored_key_def)
  have "m_user (bm (ns P')) (h + SIZEOF_CRawFormat) = m_user (bm (ns P)) (h + SIZEOF_CRawFormat)" using b(2) [of SIZEOF_CRawFormat] k(2) l by linarith
  moreover have "chunk_bytes (bm (ns P')) (h + SIZEOF_CRawFormat) (length ?key) = chunk_bytes (bm (ns P)) (h + SIZEOF_CRawFormat) (length ?key)"
    by (rule nth_equalityI) (use b(2) k(2) in \<open>auto simp: add.assoc\<close>)
  ultimately show sk: "stored_key (keySize P) (bm (ns P')) h = ?key" by (simp add: stored_key_def split: if_splits)
  have "DC_type (bm (ns P')) h = DATA_TYPE_RAW" using b(2) [of 0] k(2) ty(1) by (simp add: DC_type_def SIZEOF_CRawFormat_def)
  moreover have "h \<in> fst ` BM_blocks (bm (ns P))" using chunk_block [OF bs k(1)] by force
  then have "h \<notin> G'" using G ty(2) by blast
  ultimately show "chunk_ok P' G' h" using b(1) k(2) ty(3) ni s sk unfolding chunk_ok_def by auto
qed

lemma data_grows:
  assumes d: "data_ok P G ch" and bs: "BM_sound (bm (ns P))" and g: "bm_grows (bm (ns P)) (bm (ns P'))" and s: "pool_same P P'"
    and vd: "\<And>x. x \<in> chained ch \<Longrightarrow> vd (ns P') x = vd (ns P) x"
    and ni: "ngInfo (ns P') = ngInfo (ns P)" and G: "G' \<inter> fst ` BM_blocks (bm (ns P)) \<subseteq> G"
  shows "data_ok P' G' ch" "filled P' ch = filled P ch" "\<And>x. x \<in> filled P ch \<Longrightarrow> node_key P' x = node_key P x"
proof -
  have ck: "chunk_ok P' G' (vd (ns P) x) \<and> node_key P' x = node_key P x" if x: "x \<in> filled P ch" for x
    using chunk_grows [OF data_okD(1) [OF d x] bs g pool_sameD(2) [OF s] ni G] vd [of x] x pool_sameD(2) [OF s] by (simp add: filled_def)
  show "data_ok P' G' ch" by (rule data_ok_cong(1) [OF d s subset_refl vd ck])
  show "filled P' ch = filled P ch" by (rule filled_same [OF s vd])
  show "node_key P' x = node_key P x" if "x \<in> filled P ch" for x using ck [OF that] by blast
qed

lemma core_grows:
  assumes c: "pool_core P v" and g: "bm_grows (bm (ns P)) b"
  shows "pool_core (P\<lparr>ns := (ns P)\<lparr>bm := b\<rparr>\<rparr>) v"
proof -
  note c = pool_coreD [OF c]
  have "ns_inv ((ns P)\<lparr>bm := b\<rparr>) (v_fs v) (v_us v)"
    by (rule ns_inv_bm [OF c(1)]) (use g ns_invD(1) [OF c(1)] in \<open>auto simp: bm_grows_def\<close>)
  moreover have "chains_ok (P\<lparr>ns := (ns P)\<lparr>bm := b\<rparr>\<rparr>) (v_ch v)"
    by (rule chains_ok_store [OF c(3)]) (use chains_okD(7) [OF c(3)] in \<open>auto simp: chained_def\<close>)
  moreover have "BM_sound b" using g c(2) by (simp add: bm_grows_def)
  ultimately show ?thesis using c by (simp add: pool_core_def lists_ok_bm)
qed

text \<open>
  The node is in its chain and in the clean list; its data handle is still what the group left in
  it.  The other nodes keep their data.
\<close>

lemma CacheAllocate_spec:
  assumes inv: "pool_inv P v" and key: "key_ok (keySize P) key" and t: "pool_slot P (targetNewHash P) key = Some t"
    and step: "0 < ng_step (ns P)" and room: "ni_min_id (ni (ns P)) + 256 * ng_step (ns P) \<le> MAX_NODE_IDS"
    and cov: "index_covers (ns P) (ni_min_id (ni (ns P)) + 256 * ng_step (ns P))"
  obtains n P' where "CacheAllocate key P = Some (n, P')" "is_null_node n" "pool_inv P' v" "entries P' v = entries P v" "pool_same P P'" "v_fs v = []"
      "\<exists>b. BM_Calloc NG_Size (bm (ns P)) = Some (INVALID_HANDLE, b)" "alloc_conf (ns P') = alloc_conf (ns P)"
      "I_SEARCH (ns P') = I_SEARCH (ns P)"
  | n P' v' where "CacheAllocate key P = Some (n, P')" "\<not> is_null_node n" "n \<notin> ns_used (ns P) (v_fs v) (v_us v)"
      "pool_core P' v'" "pool_same P P'" "v_ch v' = (v_ch v)(t := NodeID (ns P') n # v_ch v t)"
      "v_ls v' = (v_ls v)(1 := NodeID (ns P') n # v_ls v 1)" "data_ok P' (pool_groups P' v') (v_ch v)"
      "filled P' (v_ch v) = filled P (v_ch v)" "\<And>x. x \<in> filled P (v_ch v) \<Longrightarrow> node_key P' x = node_key P x \<and> I_SEARCH (ns P') x = I_SEARCH (ns P) x \<and> vd (ns P') x = vd (ns P) x"
      "I_SEARCH (ns P') (NodeID (ns P') n) = n" "n \<in> ns_used (ns P') (v_fs v') (v_us v')" "NodeID (ns P') n \<notin> chained (v_ch v)"
      "bm_grows (bm (ns P)) (bm (ns P'))" "ngInfo (ns P') = ngInfo (ns P)"
      "pool_groups P' v' \<inter> fst ` BM_blocks (bm (ns P)) \<subseteq> pool_groups P v"
proof -
  note d = pool_invD [OF inv] and c = pool_coreD [OF pool_invD(1) [OF inv]] and dd = data_okD [OF pool_invD(2) [OF inv]]
  have val: "lru_valid (ns P) y" "I_SEARCH (ns P) y \<in> ns_used (ns P) (v_fs v) (v_us v)" if "y \<in> chained (v_ch v)" for y
    using that c(7) lists_okD(3,5) [OF c(6)] by blast+
  have nog: "INVALID_HANDLE \<notin> pool_groups P v" using block_valid(3) [OF ns_invD(1) [OF c(1)]] group_okD(5) [OF ns_invD(4) [OF c(1)]] by blast
  show ?thesis
  proof (cases rule: NI_AllocateNode_spec [OF c(1) step room cov])
    case (1 st)
    have fr: "alloc_frame (pool_groups P v) (ns P) st"
      using AllocateNode_frame [OF c(1) step room 1(1)] nog by (auto simp: node_taken_def null_node_def)
    then have z: "ni_sys_zone (ni st) = ni_sys_zone (ni (ns P))" "ngInfo st = ngInfo (ns P)" and g: "bm_grows (bm (ns P)) (bm st)"
      and sysm: "m_ng st (ni_sys_zone (ni (ns P))) = m_ng (ns P) (ni_sys_zone (ni (ns P)))"
      unfolding alloc_frame_def groups_def by blast+
    note keep = alloc_frame_same [OF c(1) 1(3) fr]
    have same: "same_node (ns P) st y" if "y \<in> chained (v_ch v)" for y using val [OF that] keep used_live by blast
    let ?P = "P\<lparr>ns := st\<rparr>"
    have s: "pool_same P ?P" by simp
    have gr: "pool_groups ?P v = pool_groups P v" using z(1) by (simp add: groups_def)
    have r: "data_ok ?P (pool_groups P v) (v_ch v)" "filled ?P (v_ch v) = filled P (v_ch v)" "\<And>x. x \<in> filled P (v_ch v) \<Longrightarrow> node_key ?P x = node_key P x"
      by (rule data_grows [OF d(2) c(2) _ s]; use g z(2) same in \<open>auto simp: same_node_def\<close>)+
    have "chains_ok ?P (v_ch v)" by (rule chains_ok_store [OF c(3)]) (use same in \<open>simp add: same_node_def\<close>)
    moreover have "lists_ok st (v_fs v) (v_us v) (v_ls v)"
      by (rule lists_ok_keep [OF c(1,6) _ keep z(1) sysm]) (use 1(4) in simp_all)
    moreover have "BM_sound (bm st)" using g c(2) by (simp add: bm_grows_def)
    ultimately have "pool_inv ?P v" using 1(3) c(4,5,7) r(1) unfolding pool_inv_def pool_core_def gr by simp
    moreover have "entries ?P v = entries P v"
    proof -
      have "I_SEARCH st x = I_SEARCH (ns P) x" if "x \<in> filled P (v_ch v)" for x using same that by (simp add: same_node_def filled_def)
      then show ?thesis unfolding entries_def r(2) by (intro image_cong) (use r(3) in simp_all)
    qed
    moreover have "CacheAllocate key P = Some (null_node, ?P)" using 1(1) by (simp add: CacheAllocate_def)
    moreover have "alloc_conf st = alloc_conf (ns P)" "I_SEARCH st = I_SEARCH (ns P)" "\<exists>b. BM_Calloc NG_Size (bm (ns P)) = Some (INVALID_HANDLE, b)" using 1(6) by auto
    ultimately show ?thesis using that(1) s 1(2) by simp
  next
    case (2 n st fs us)
    have tk: "node_taken (pool_groups P v) n (ns P) st" using AllocateNode_frame [OF c(1) step room 2(1)] 2(3) by blast
    have nu: "n \<in> ns_used st fs us" "ns_used (ns P) (v_fs v) (v_us v) \<subseteq> ns_used st fs us" using 2(5) by auto
    have z: "ni_sys_zone (ni st) = ni_sys_zone (ni (ns P))" "ngInfo st = ngInfo (ns P)" and g: "bm_grows (bm (ns P)) (bm st)"
      using tk unfolding node_taken_def alloc_frame_def by blast+
    have "c_owner n \<noteq> ni_sys_zone (ni (ns P))" using nu(1) ns_invD(6) [OF 2(2)] z by (auto simp: ns_used_def)
    then have sysm: "m_ng st (ni_sys_zone (ni (ns P))) = m_ng (ns P) (ni_sys_zone (ni (ns P)))"
      using tk by (simp add: node_taken_def alloc_frame_def groups_def)
    note keep = AllocateNode_same(1) [OF c(1) 2(2) tk nu(1) 2(4) nu(2)]
    have same: "same_node (ns P) st y" if "y \<in> listed (v_ls v)" for y using lists_okD(3,5) [OF c(6) that] keep used_live by blast
    let ?x = "NodeID st n" and ?P = "P\<lparr>ns := st\<rparr>"
    note ix = used_indexed [OF 2(2) nu(1)]
    have nx: "I_SEARCH st ?x = n" "lru_valid st ?x" using ix(1) indexed_valid by (auto simp: indexed_def)
    have xl: "?x \<notin> listed (v_ls v)"
    proof
      assume x: "?x \<in> listed (v_ls v)"
      from lists_okD(3) [OF c(6) x] same [OF x] nx(1) 2(4) show False by (simp add: same_node_def)
    qed
    then have xc: "?x \<notin> chained (v_ch v)" using c(7) by blast
    have ch: "chains_ok ?P (v_ch v)"
      by (rule chains_ok_store [OF c(3)]) (use same c(7) in \<open>auto simp: same_node_def\<close>)
    have li: "lists_ok st fs us (v_ls v)" by (rule lists_ok_keep [OF c(1,6) nu(2) keep z(1) sysm])
    have t': "pool_slot ?P (targetNewHash ?P) key = Some t" using t pool_same_slot [of P ?P] by simp
    obtain P1 where i1: "Insert2Hash key n ?P = Some P1" "chains_ok P1 ((v_ch v)(t := ?x # v_ch v t))" "hash_frame ?P P1"
      using Insert2Hash_spec [OF ch t', of ?x] nx xc by auto
    have f1: "links_only st (ns P1)" "pool_same P P1" using i1(3) pool_same_trans [of P ?P P1] by (simp_all add: hash_frame_def)
    note s1 = links_only_same [OF f1(1)] and v1 = links_only_inv [OF f1(1) 2(2)]
    have li1: "lists_ok (ns P1) fs us (v_ls v)" using lists_ok_hash [OF i1(3)] 2(2) li by simp
    obtain st1 where i2: "Insert2CleanLru n (ns P1) = Some st1" "links_only (ns P1) st1" "lru_frame (ns P1) st1"
      "lists_ok st1 fs us ((v_ls v)(1 := NodeID (ns P1) n # v_ls v 1))"
      using Insert2Lru_spec [OF v1(1) li1, of n 1] Insert2Lru_head(2) [OF v1(1) li1] nu(1) v1(2) s1(2) xl
      by (metis one_less_numeral_iff semiring_norm(77))
    note s2 = links_only_same [OF i2(2)] and v2 = links_only_inv [OF i2(2) v1(1)]
    let ?P' = "P1\<lparr>ns := st1\<rparr>"
    let ?v = "\<lparr>v_fs = fs, v_us = us, v_ch = (v_ch v)(t := ?x # v_ch v t), v_ls = (v_ls v)(1 := ?x # v_ls v 1)\<rparr>"
    have eq: "I_SEARCH st1 = I_SEARCH st" "NodeID st1 = NodeID st" "vd st1 = vd st" "bm st1 = bm st" "ngInfo st1 = ngInfo st"
      "lru_valid st1 = lru_valid st" "m_ni st1 = m_ni st" using s1 s2 by simp_all
    have s: "pool_same P ?P'" using f1(2) by simp
    note p = pool_sameD [OF s]
    have e: "CacheAllocate key P = Some (n, ?P')" using 2(1,3) i1(1) i2(1) by (simp add: CacheAllocate_def)
    have "chains_ok ?P' (v_ch ?v)"
      using chains_ok_store [OF i1(2), of st1] chains_okD(7) [OF i1(2)] s2(3) lru_frame_attrs(1) [OF i2(3)] by (auto simp: chained_def)
    moreover have "lists_ok st1 fs us (v_ls ?v)" using i2(4) s1(2) by simp
    moreover have "chained (v_ch ?v) \<subseteq> listed (v_ls ?v)"
    proof -
      have "listed (v_ls ?v) = insert ?x (listed (v_ls v))" using listed_push by simp
      then show ?thesis using chained_push [of "v_ch v" t ?x] c(7) by auto
    qed
    moreover have "BM_sound (bm st1)" using g c(2) eq(4) by (simp add: bm_grows_def)
    ultimately have core: "pool_core ?P' ?v" using v2(1) c(4,5) p(2,5,6) unfolding pool_core_def by simp
    have vv: "vd (ns ?P') y = vd (ns P) y" "I_SEARCH (ns ?P') y = I_SEARCH (ns P) y" if "y \<in> chained (v_ch v)" for y
      using same [of y] that c(7) eq by (auto simp: same_node_def)
    have gr: "pool_groups ?P' ?v \<inter> fst ` BM_blocks (bm (ns P)) \<subseteq> pool_groups P v"
      using 2(7) z eq(5,7) by (auto simp: groups_def)
    have r: "data_ok ?P' (pool_groups ?P' ?v) (v_ch v)" "filled ?P' (v_ch v) = filled P (v_ch v)" "\<And>x. x \<in> filled P (v_ch v) \<Longrightarrow> node_key ?P' x = node_key P x"
      by (rule data_grows [OF d(2) c(2) _ s vv(1) _ gr]; use g z(2) eq(4,5) in simp)+
    show ?thesis
      by (rule that(2) [OF e 2(3,4) core s])
        (use r vv nx(1) eq nu(1) v1(2) v2(2) xc g z(2) gr in \<open>simp_all add: filled_def\<close>)
  qed
qed

end
