(* ===== verification/Cache_Pool_Correct.thy ===== *)
theory Cache_Pool_Correct
  imports Cache_Pool_Store
begin

text \<open>
  The correctness properties of the pool, with witnesses on a pool of eight buckets in a segment of ten million bytes.
\<close>

section \<open>Giving a node its data\<close>

lemma fill_node:
  assumes core: "pool_core P v" and ch: "v_ch v = ch(t := x # ch t)" and xc: "x \<notin> chained ch"
    and n: "I_SEARCH (ns P) x = n" "NodeID (ns P) n = x" "n \<in> ns_used (ns P) (v_fs v) (v_us v)"
    and dt: "data_ok P (pool_groups P v) ch"
    and h: "h \<noteq> INVALID_HANDLE \<Longrightarrow> chunk_ok P (pool_groups P v) h \<and> h \<notin> vd (ns P) ` filled P ch
      \<and> stored_key (keySize P) (bm (ns P)) h \<notin> node_key P ` filled P ch \<and> home P t (stored_key (keySize P) (bm (ns P)) h)"
  obtains st where "store_VDHandle n h (ns P) = Some st" "pool_inv (P\<lparr>ns := st\<rparr>) v"
    "entries (P\<lparr>ns := st\<rparr>) v = (\<lambda>y. (node_key P y, I_SEARCH (ns P) y)) ` filled P ch
       \<union> (if h = INVALID_HANDLE then {} else {(stored_key (keySize P) (bm (ns P)) h, n)})"
proof -
  note c = pool_coreD [OF core] and dd = data_okD [OF dt]
  obtain st where s: "store_VDHandle n h (ns P) = Some st" "ns_inv st (v_fs v) (v_us v)" "ns_used st (v_fs v) (v_us v) = ns_used (ns P) (v_fs v) (v_us v)"
    "I_SEARCH st = I_SEARCH (ns P)" "NodeID st = NodeID (ns P)" "lru_valid st = lru_valid (ns P)"
    "nx st = nx (ns P)" "lru_next st = lru_next (ns P)" "lru_prev st = lru_prev (ns P)"
    "vd st x = h" "\<And>i. lru_valid (ns P) i \<Longrightarrow> i \<noteq> x \<Longrightarrow> vd st i = vd (ns P) i"
    "bm st = bm (ns P)" "ngInfo st = ngInfo (ns P)" "m_ni st = m_ni (ns P)" "\<And>h. ng_used (m_ng st h) = ng_used (m_ng (ns P) h)"
    by (rule store_VDHandle_spec [OF c(1) n(3), of h, unfolded n(2)]) blast
  let ?P = "P\<lparr>ns := st\<rparr>"
  have val: "lru_valid (ns P) y" if "y \<in> chained (v_ch v)" for y using that chains_okD(7) [OF c(3)] by (auto simp: chained_def)
  have cv: "chained (v_ch v) = insert x (chained ch)" unfolding ch by (rule chained_push)
  have vd: "vd st y = vd (ns P) y" if "y \<in> chained ch" for y using s(11) [of y] val [of y] that cv xc by auto
  have "chains_ok ?P (v_ch v)" by (rule chains_ok_store [OF c(3)]) (use s val in auto)
  moreover have "sys_node st = sys_node (ns P)" by (simp add: fun_eq_iff sys_node_def s)
  moreover have "lru_list st = lru_list (ns P)" by (simp add: fun_eq_iff lru_list_def indexed_def s)
  ultimately have core': "pool_core ?P v" using c s by (simp add: pool_core_def lists_ok_def)
  have gr: "pool_groups ?P v = pool_groups P v" by (simp add: groups_def s)
  have fl: "filled ?P (v_ch v) = (if h = INVALID_HANDLE then filled P ch else insert x (filled P ch))"
    using vd s(10) xc unfolding filled_def cv by auto
  have nk: "node_key ?P y = node_key P y" if "y \<in> chained ch" for y using vd [OF that] s(12) by simp
  have ck: "chunk_ok ?P G g = chunk_ok P G g" for G g by (simp add: chunk_ok_def s)
  have sub: "filled P ch \<subseteq> chained ch" by (auto simp: filled_def)
  have hm: "home ?P b k = home P b k" for b k by (rule home_same) simp
  have "data_ok ?P (pool_groups P v) (v_ch v)" unfolding data_ok_def
  proof (intro conjI ballI allI impI)
    show "chunk_ok ?P (pool_groups P v) (vd (ns ?P) y)" if "y \<in> filled ?P (v_ch v)" for y
      using that h dd(1) [of y] vd [of y] sub s(10) unfolding fl ck by (auto split: if_splits)
    have "inj_on (vd st) (filled P ch)" using dd(2) vd sub by (simp add: inj_on_def subset_iff)
    moreover have "vd st ` filled P ch = vd (ns P) ` filled P ch" using vd sub by (auto simp: image_iff subset_iff)
    ultimately show "inj_on (vd (ns ?P)) (filled ?P (v_ch v))" using h s(10) xc sub unfolding fl by auto
    have "inj_on (node_key ?P) (filled P ch)" using dd(3) nk sub by (simp add: inj_on_def subset_iff)
    moreover have "node_key ?P ` filled P ch = node_key P ` filled P ch" by (rule image_cong [OF refl]) (use nk sub in blast)
    ultimately show "inj_on (node_key ?P) (filled ?P (v_ch v))" using h s(10,12) xc sub unfolding fl by auto
    fix b y
    assume y: "y \<in> set (v_ch v b)" "vd (ns ?P) y \<noteq> INVALID_HANDLE"
    show "home ?P b (node_key ?P y)"
    proof (cases "y = x")
      case True
      have "b = t" using y(1) True xc ch by (auto simp: chained_def split: if_splits)
      then show ?thesis using True h y(2) s(10,12) hm by simp
    next
      case False
      then have yb: "y \<in> set (ch b)" using y(1) ch by (auto split: if_splits)
      then have "y \<in> chained ch" by (auto simp: chained_def)
      then show ?thesis using dd(4) [OF yb] y(2) vd nk hm by simp
    qed
  qed
  then have "pool_inv ?P v" using core' unfolding pool_inv_def gr by simp
  moreover have "entries ?P v = (\<lambda>y. (node_key P y, I_SEARCH (ns P) y)) ` filled P ch
       \<union> (if h = INVALID_HANDLE then {} else {(stored_key (keySize P) (bm (ns P)) h, n)})"
  proof -
    have "(\<lambda>y. (node_key ?P y, I_SEARCH (ns ?P) y)) ` filled P ch = (\<lambda>y. (node_key P y, I_SEARCH (ns P) y)) ` filled P ch"
      by (rule image_cong [OF refl]) (use nk sub s(4) in auto)
    then show ?thesis unfolding entries_def fl using s(4,10,12) n(1) by simp
  qed
  ultimately show ?thesis using that s(1) by blast
qed

section \<open>Formatting the hash\<close>

lemma BM_Calloc_chunk:
  assumes s: "BM_sound b" and a: "BM_Calloc n b = Some (h, b')" "h \<noteq> 0"
  obtains k where "(h, k) \<in> BM_chunks b'" "n \<le> k" "\<And>i. i < n \<Longrightarrow> m_user b' (h + i) = 0" "h \<notin> fst ` BM_blocks b"
proof -
  have ok: "BM_ok b" using s by (simp add: BM_sound_def)
  obtain b1 where m: "BM_Malloc n b = Some (h, b1)" "b' = user_put h (replicate n 0) b1"
    using a by (auto simp: BM_Calloc_def user_memset_put INVALID_HANDLE_def split: option.splits)
  have "cm_Malloc BM_mem n b = Some (h, b1)" using m(1) by simp
  from bmm.cm_malloc [OF s, of n, unfolded this] a(2) obtain k where k: "n \<le> k" "(h, k) \<in> BM_chunks b1" by auto
  have "h \<notin> fst ` BM_blocks b" by (rule bmc.calloc_SomeE [OF ok, of n]) (use a in auto)
  moreover have "(h, k) \<in> BM_chunks b'" using k(2) m(2) BM_chunks_user by simp
  moreover have "m_user b' (h + i) = 0" if "i < n" for i using that m(2) by (simp add: user_put_def)
  ultimately show ?thesis using that k(1) by blast
qed

lemma init_buckets_spec:
  "hh_buckets (init_buckets i k t) b = (if i \<le> b \<and> b < i + k then INVALID_NODE_ID else hh_buckets t b)"
  "hh_size (init_buckets i k t) = hh_size t" "hh_free (init_buckets i k t) = hh_free t" "hh_node (init_buckets i k t) = hh_node t"
  "hh_fixedsize (init_buckets i k t) = hh_fixedsize t"
  by (induction i k t rule: init_buckets.induct) auto

lemma Hash_Init_spec:
  assumes inv: "ns_inv (ns P) fs us" and s: "BM_sound (bm (ns P))" and li: "lists_ok (ns P) fs us ls"
    and hs: "0 < hsize" "4 * hsize + SIZEOF_HASH_T < 2 ^ 32" and a: "Hash_Init hsize (keySize P) P = Some (r, P')"
  shows "r = -1 \<or> r = 0 \<and> pool_inv P' \<lparr>v_fs = fs, v_us = us, v_ch = (\<lambda>_. []), v_ls = ls\<rparr> \<and> hh_size (hh P') = hsize
     \<and> (\<exists>k. (p_hash P', k) \<in> BM_chunks (bm (ns P')) \<and> SIZEOF_HASH_T + 4 * hsize \<le> k)"
proof -
  have u: "u32 (4 * hsize + SIZEOF_HASH_T) = 4 * hsize + SIZEOF_HASH_T" using hs(2) by (simp add: u32_def)
  obtain h b where c: "BM_Calloc (4 * hsize + SIZEOF_HASH_T) (bm (ns P)) = Some (h, b)"
    using a by (auto simp: Hash_Init_def M_CALLOC_def u split: bind_splits)
  show ?thesis
  proof (cases "h = INVALID_HANDLE")
    case True
    then show ?thesis using a c by (simp add: Hash_Init_def M_CALLOC_def u)
  next
    case False
    define t where "t = m_hash P h"
    have P': "r = 0" "P' = P\<lparr>ns := (ns P)\<lparr>bm := b\<rparr>, p_hash := h, m_hash := (m_hash P)(h := init_buckets 0 hsize
        (t\<lparr>hh_size := hsize, hh_free := hsize, hh_node := 0, hh_fixedsize := keySize P\<rparr>))\<rparr>"
      using a c False by (auto simp: Hash_Init_def M_CALLOC_def u upd_hh_def Let_def t_def)
    obtain k where k: "(h, k) \<in> BM_chunks b" "4 * hsize + SIZEOF_HASH_T \<le> k"
      by (rule BM_Calloc_chunk [OF s c]) (use False in \<open>auto simp: INVALID_HANDLE_def\<close>)
    note g = BM_Calloc_grows [OF c]
    have "ns_inv ((ns P)\<lparr>bm := b\<rparr>) fs us"
      by (rule ns_inv_bm [OF inv]) (use g ns_invD(1) [OF inv] in \<open>auto simp: bm_grows_def\<close>)
    moreover have "chains_ok P' (\<lambda>_. [])"
      using False hs by (simp add: chains_ok_def P' init_buckets_spec Hash2Node_def chained_def counts_ok_def u32_def)
    moreover have "BM_sound b" using g s by (simp add: bm_grows_def)
    ultimately have "pool_inv P' \<lparr>v_fs = fs, v_us = us, v_ch = (\<lambda>_. []), v_ls = ls\<rparr>"
      using hs(1) li by (simp add: pool_inv_def pool_core_def P' init_buckets_spec lists_ok_bm chained_def data_ok_def filled_def)
    then show ?thesis using k P' by (auto simp: init_buckets_spec intro!: exI [of _ k])
  qed
qed

section \<open>A pool to evaluate on\<close>

definition ex_hash_T :: HASH_T where
  "ex_hash_T = \<lparr>hh_size = 0, hh_free = 0, hh_node = 0, hh_fixedsize = 0, hh_buckets = (\<lambda>_. 0)\<rparr>"

definition ex_pool :: "node_store \<Rightarrow> cache_pool" where
  "ex_pool st = \<lparr>ns = st, m_hash = (\<lambda>_. ex_hash_T), p_hash = 0, keySize = 4, hashChanging = False, targetNewHash = False,
     purge_notifier = False, purge_notified = [], need_purge_node_count = 0, delay_timer = False, firstMarkerTime = 0,
     lastMarkerTime = 0, emptyLimit = 0, disableTryPurge = False, dateExpireAlertTime = 0, raw_data = CRawData_new 0,
     statFreeBucket = 0, statDirtyEldest = 0, statDirtyAge = 0, statTryPurgeCount = [], statTryPurgeNodes = 0,
     statLastPurgeNodeModTime = 0, statDataExistTime = 0, survival_hour = []\<rparr>"

abbreviation no_nodes :: "pool_view" where
  "no_nodes \<equiv> \<lparr>v_fs = [], v_us = [], v_ch = (\<lambda>_. []), v_ls = (\<lambda>_. [])\<rparr>"

lemma fresh_lists:
  assumes "fresh_store st st'"
  shows "lists_ok st' [] [] (\<lambda>_. [])"
proof -
  have f: "ns_inv st' [] []" "ng_used (m_ng st' (ni_sys_zone (ni st'))) = {0, 1, 2}" using assms by (simp_all add: fresh_store_def)
  have z: "ni_sys_zone (ni st') \<noteq> INVALID_HANDLE"
    using block_valid(3) [OF ns_invD(1) [OF f(1)]] group_okD(5) [OF ns_invD(4) [OF f(1)]] by (simp add: groups_def)
  have "lru_list st' (sys_node st' k) []" "k \<in> ng_used (m_ng st' (ni_sys_zone (ni st')))" if "k < 3" for k
  proof -
    have k: "k \<in> {0, 1, 2}" using that by auto
    show "lru_list st' (sys_node st' k) []" using fresh_lru [OF assms k] z by (simp add: sys_node_def)
    show "k \<in> ng_used (m_ng st' (ni_sys_zone (ni st')))" using k f(2) by simp
  qed
  then show ?thesis by (simp add: lists_ok_def listed_def)
qed

text \<open>A store with a chunk of 64 zero bytes, the data of a row whose key is four zero bytes.\<close>

lemma ex_chunk:
  obtains st h bs where "ns_inv st [] []" "lists_ok st [] [] (\<lambda>_. [])" "BM_sound (bm st)" "ng_step st = 1" "ni_min_id (ni st) = 256"
    "index_covers st (2 ^ 24)" "BM_inv (bm st) bs" "free_of bs = {}" "hTop (bm st) = 539944" "memSize (bm st) = 10000000"
    "chunk_ok (ex_pool st) (groups st [] []) h" "stored_key 4 (bm st) h = [0, 0, 0, 0]" "h \<noteq> INVALID_HANDLE"
proof -
  obtain st1 st2 bs where s: "index_ok st1 1" "fresh_store st1 st2" "ng_step st2 = 1"
    "BM_inv (bm st2) bs" "free_of bs = {}" "hTop (bm st2) = 539872" "memSize (bm st2) = 10000000"
    using ex_store_formats by metis
  have f: "ns_inv st2 [] []" "ni_min_id (ni st2) = 256" "second_of st2 = second_of st1" using s(2) by (simp_all add: fresh_store_def)
  have sz: "request2size 64 = 72" "\<not> REQUEST_OUT_OF_RANGE 64"
    by (simp_all add: request2size_def REQUEST_OUT_OF_RANGE_def MALLOC_ALIGN_MASK_def MINSIZE_def mask8_def)
  obtain b bs' where b: "BM_Calloc 64 (bm st2) = Some (chunk2mem 539872, b)" "BM_inv b bs'" "free_of bs' = {}" "hTop b = 539944" "memSize b = 10000000"
    using packed_Calloc [OF s(4,5) sz(2)] s(6,7) sz(1) by (auto simp: MINSIZE_def)
  let ?h = "chunk2mem 539872" and ?st = "st2\<lparr>bm := b\<rparr>"
  have so: "BM_sound (bm st2)" "BM_sound b" using s(4,7) b(2,5) by (auto simp: BM_sound_def BM_ok_def MAX_ALLOC_SIZE_def)
  have h0: "?h \<noteq> 0" by (simp add: chunk2mem_def)
  obtain k where k: "(?h, k) \<in> BM_chunks b" "64 \<le> k" "\<And>i. i < 64 \<Longrightarrow> m_user b (?h + i) = 0" "?h \<notin> fst ` BM_blocks (bm st2)"
    by (rule BM_Calloc_chunk [OF so(1) b(1) h0]) blast
  note g = BM_Calloc_grows [OF b(1)]
  have inv: "ns_inv ?st [] []" by (rule ns_inv_bm [OF f(1)]) (use g ns_invD(1) [OF f(1)] in \<open>auto simp: bm_grows_def\<close>)
  have "chunk_bytes b (?h + 16) 4 = replicate 4 0"
    by (rule nth_equalityI) (use k(3) in \<open>auto simp: add.assoc\<close>)
  also have "replicate 4 0 = [0, 0, 0, 0 :: nat]" by (simp add: numeral_eq_Suc)
  finally have key: "stored_key 4 b ?h = [0, 0, 0, 0]" by (simp add: stored_key_def SIZEOF_CRawFormat_def)
  have "?h \<notin> groups ?st [] []" using k(4) group_okD(5) [OF ns_invD(4) [OF f(1)]] by auto
  moreover have "?h \<noteq> ngInfo ?st" using f(1) k(4) by (auto simp: ns_inv_def image_iff)
  moreover have "DC_type b ?h = DATA_TYPE_RAW" using k(3) [of 0] by (simp add: DC_type_def DATA_TYPE_RAW_def)
  ultimately have ck: "chunk_ok (ex_pool ?st) (groups ?st [] []) ?h"
    using k(1,2) key by (auto simp: chunk_ok_def ex_pool_def SIZEOF_CRawFormat_def)
  have "index_covers st2 (2 ^ 24)" using s(1) f(3) by (auto simp: index_covers_def second_of_def OFFSET1_div index_ok_def)
  then have "index_covers ?st (2 ^ 24)" by (simp add: index_covers_def second_of_def)
  moreover have "lists_ok ?st [] [] (\<lambda>_. [])" using fresh_lists [OF s(2)] by (simp add: lists_ok_bm)
  ultimately show ?thesis using inv so(2) s(3) f(2) b(2-5) ck key h0 by (intro that [of ?st bs' ?h]) (simp_all add: INVALID_HANDLE_def)
qed

lemma ex_empty:
  obtains P h where "pool_inv P no_nodes" "keySize P = 4" "chunk_ok P (pool_groups P no_nodes) h" "stored_key 4 (bm (ns P)) h = [0, 0, 0, 0]"
    "h \<noteq> INVALID_HANDLE" "0 < ng_step (ns P)" "ni_min_id (ni (ns P)) + 256 * ng_step (ns P) \<le> MAX_NODE_IDS"
    "index_covers (ns P) (ni_min_id (ni (ns P)) + 256 * ng_step (ns P))" "\<nexists>b. BM_Calloc NG_Size (bm (ns P)) = Some (INVALID_HANDLE, b)"
proof -
  obtain st h bs where s: "ns_inv st [] []" "lists_ok st [] [] (\<lambda>_. [])" "BM_sound (bm st)" "ng_step st = 1" "ni_min_id (ni st) = 256"
    "index_covers st (2 ^ 24)" "BM_inv (bm st) bs" "free_of bs = {}" "hTop (bm st) = 539944" "memSize (bm st) = 10000000"
    "chunk_ok (ex_pool st) (groups st [] []) h" "stored_key 4 (bm st) h = [0, 0, 0, 0]" "h \<noteq> INVALID_HANDLE"
    by (rule ex_chunk)
  have sz: "request2size 48 = 56" "\<not> REQUEST_OUT_OF_RANGE 48"
    by (simp_all add: request2size_def REQUEST_OUT_OF_RANGE_def MALLOC_ALIGN_MASK_def MINSIZE_def mask8_def)
  obtain b bs' where b: "BM_Calloc 48 (bm st) = Some (chunk2mem 539944, b)" "BM_inv b bs'" "free_of bs' = {}" "hTop b = 540000" "memSize b = 10000000"
    using packed_Calloc [OF s(7,8) sz(2)] s(9,10) sz(1) by (auto simp: MINSIZE_def)
  obtain b2 where b2: "BM_Calloc NG_Size b = Some (chunk2mem 540000, b2)"
    using packed_Calloc [OF b(2,3), of NG_Size] b(4,5) by (auto simp: request_sizes MINSIZE_def)
  let ?P = "ex_pool st"
  have e: "ns ?P = st" "keySize ?P = 4" by (simp_all add: ex_pool_def)
  have "u32 (4 * 8 + SIZEOF_HASH_T) = 48" by (simp add: u32_def SIZEOF_HASH_T_def)
  then obtain P where r: "Hash_Init 8 (keySize ?P) ?P = Some (0, P)" and P: "ns P = st\<lparr>bm := b\<rparr>" "keySize P = 4"
    using b(1) e by (auto simp: Hash_Init_def M_CALLOC_def chunk2mem_def INVALID_HANDLE_def Let_def upd_hh_def)
  have inv: "pool_inv P no_nodes"
    using Hash_Init_spec [OF _ _ _ _ _ r, of "[]" "[]" "\<lambda>_. []"] s(1-3) e by (simp add: SIZEOF_HASH_T_def)
  have g: "bm_grows (bm (ns ?P)) (bm (ns P))" using BM_Calloc_grows [OF b(1)] e P by simp
  have gr: "groups (ns P) [] [] \<inter> fst ` BM_blocks (bm (ns ?P)) \<subseteq> groups st [] []" using P by simp
  note ck = chunk_grows [OF s(11) _ g _ _ gr]
  have "chunk_ok P (groups (ns P) [] []) h" "stored_key 4 (bm (ns P)) h = [0, 0, 0, 0]"
    using ck(1) ck(2) s(3,12) e P by simp_all
  moreover have "\<nexists>b'. BM_Calloc NG_Size (bm (ns P)) = Some (INVALID_HANDLE, b')" using b2 P by (simp add: chunk2mem_def INVALID_HANDLE_def)
  moreover have "index_covers (ns P) (2 ^ 24)" using s(6) P by (simp add: index_covers_def second_of_def)
  ultimately show ?thesis using inv P s(4,5,13) by (intro that [of P h]) (simp_all add: MAX_NODE_IDS_def index_covers_def)
qed

lemma ex_one:
  obtains P v n where "pool_inv P v" "keySize P = 4" "entries P v = {([0, 0, 0, 0], n)}" "listed (v_ls v) \<subseteq> chained (v_ch v)"
proof -
  let ?k = "[0, 0, 0, 0] :: nat list"
  obtain P h where s: "pool_inv P no_nodes" "keySize P = 4" "chunk_ok P (pool_groups P no_nodes) h" "stored_key 4 (bm (ns P)) h = ?k"
    "h \<noteq> INVALID_HANDLE" "0 < ng_step (ns P)" "ni_min_id (ni (ns P)) + 256 * ng_step (ns P) \<le> MAX_NODE_IDS"
    "index_covers (ns P) (ni_min_id (ni (ns P)) + 256 * ng_step (ns P))" "\<nexists>b. BM_Calloc NG_Size (bm (ns P)) = Some (INVALID_HANDLE, b)"
    by (rule ex_empty)
  note core = pool_invD(1) [OF s(1)]
  have key: "key_ok (keySize P) ?k" "packed (keySize P) ?k = ?k" using s(2) by (simp_all add: key_ok_def packed_def key_len_def)
  obtain t where t: "pool_slot P (targetNewHash P) ?k = Some t" using pool_slot_Some [OF core key(1)] by metis
  have fl: "filled Q (\<lambda>_. []) = {}" for Q by (simp add: filled_def chained_def)
  show ?thesis
  proof (cases rule: CacheAllocate_spec [OF s(1) key(1) t s(6-8)])
    case 1
    then show ?thesis using s(9) by blast
  next
    case (2 n P' v')
    note p = pool_sameD [OF 2(5)]
    have ck: "chunk_ok P' (pool_groups P' v') h" "stored_key (keySize P') (bm (ns P')) h = ?k"
      using chunk_grows [OF s(3) pool_coreD(2) [OF core] 2(14) p(2) 2(15,16)] s(2,4) p(2) by simp_all
    have hm: "home P' t ?k" using t home_same [OF 2(5)] by (cases "targetNewHash P") (auto simp: home_def)
    obtain st where "pool_inv (P'\<lparr>ns := st\<rparr>) v'" "entries (P'\<lparr>ns := st\<rparr>) v' = {(?k, n)}"
      by (rule fill_node [OF 2(4,6,13,11) refl 2(12,8), of h]) (use ck hm s(5) fl in simp_all)
    moreover have "listed (v_ls v') \<subseteq> chained (v_ch v')"
      using 2(6,7) listed_push [of 1 "\<lambda>_. []"] chained_push [of "\<lambda>_. []" t] by (auto simp: listed_def)
    ultimately show ?thesis using that s(2) p(2) by simp
  qed
qed

section \<open>Looking a key up\<close>

text \<open>
  C32: \<open>CCachePool::CacheFindAutoChoseHash\<close> always returns.  It gives the node that holds the key, or
  the null node when no node does, whether the hash is changing or not, and it keeps the invariant
  of the pool and the entries.  A node that is found hangs afterwards in the bucket of the target hash
  function: while the hash changes, looking a key up moves it.
\<close>

theorem CacheFindAutoChoseHash_correct:
  assumes "pool_inv P v" "key_ok (keySize P) key"
  shows "\<exists>n P' v' t. CacheFindAutoChoseHash key P = Some (n, P') \<and> pool_inv P' v' \<and> entries P' v' = entries P v
     \<and> lookup (entries P v) (packed (keySize P) key) n \<and> pool_slot P (targetNewHash P) key = Some t
     \<and> (n \<noteq> null_node \<longrightarrow> NodeID (ns P') n \<in> set (v_ch v' t))"
proof -
  obtain t where t: "pool_slot P (targetNewHash P) key = Some t" using pool_slot_Some [OF pool_invD(1) [OF assms(1)] assms(2)] by metis
  obtain n P' v' where "CacheFindAutoChoseHash key P = Some (n, P')" "pool_inv P' v'" "entries P' v' = entries P v"
    "lookup (entries P v) (packed (keySize P) key) n" "n \<noteq> null_node \<Longrightarrow> NodeID (ns P') n \<in> set (v_ch v' t)"
    by (rule AutoChose_spec [OF assms t]) blast
  with t show ?thesis by blast
qed

theorem CacheFindAutoChoseHash_correct_witness:
  "\<exists>P v m. pool_inv P v \<and> key_ok (keySize P) [0, 0, 0, 0] \<and> entries P v = {([0, 0, 0, 0], m)}
     \<and> (\<exists>n P' v' t. CacheFindAutoChoseHash [0, 0, 0, 0] P = Some (n, P') \<and> pool_inv P' v' \<and> entries P' v' = {([0, 0, 0, 0], m)}
     \<and> n = m \<and> pool_slot P (targetNewHash P) [0, 0, 0, 0] = Some t \<and> NodeID (ns P') n \<in> set (v_ch v' t))"
proof -
  obtain P v m where s: "pool_inv P v" "keySize P = 4" "entries P v = {([0, 0, 0, 0], m)}" by (rule ex_one) blast
  have k: "key_ok (keySize P) [0, 0, 0, 0]" "packed (keySize P) [0, 0, 0, 0] = [0, 0, 0, 0]"
    using s(2) by (simp_all add: key_ok_def packed_def key_len_def)
  have l: "n = m \<and> n \<noteq> null_node" if "lookup (entries P v) [0, 0, 0, 0] n" for n using that s(3) by (auto simp: lookup_def)
  obtain n P' v' t where r: "CacheFindAutoChoseHash [0, 0, 0, 0] P = Some (n, P')" "pool_inv P' v'" "entries P' v' = entries P v"
    "lookup (entries P v) (packed (keySize P) [0, 0, 0, 0]) n" "pool_slot P (targetNewHash P) [0, 0, 0, 0] = Some t"
    "n \<noteq> null_node \<longrightarrow> NodeID (ns P') n \<in> set (v_ch v' t)"
    using CacheFindAutoChoseHash_correct [OF s(1) k(1)] by blast
  have n: "n = m" "n \<noteq> null_node" using l r(4) k(2) by simp_all
  show ?thesis
    by (intro exI [of _ P] exI [of _ v] exI [of _ m] exI [of _ n] exI [of _ P'] exI [of _ v'] exI [of _ t] conjI)
      (use s r k(1) n in simp_all)
qed

section \<open>A node for a key\<close>

text \<open>Storing a handle in the new node, after the segment may have grown to \<open>b\<close>.\<close>

lemma fill_allocated:
  assumes inv: "pool_inv P v" and key: "key_ok (keySize P) key" and t: "pool_slot P (targetNewHash P) key = Some t"
    and core: "pool_core P' v'" and same: "pool_same P P'" and ch: "v_ch v' = (v_ch v)(t := NodeID (ns P') n # v_ch v t)"
    and dt: "data_ok P' (pool_groups P' v') (v_ch v)" and fl: "filled P' (v_ch v) = filled P (v_ch v)"
    and keep: "\<And>x. x \<in> filled P (v_ch v) \<Longrightarrow> node_key P' x = node_key P x \<and> I_SEARCH (ns P') x = I_SEARCH (ns P) x \<and> vd (ns P') x = vd (ns P) x"
    and n: "I_SEARCH (ns P') (NodeID (ns P') n) = n" "n \<in> ns_used (ns P') (v_fs v') (v_us v')" "NodeID (ns P') n \<notin> chained (v_ch v)"
    and g: "bm_grows (bm (ns P')) b" and Q: "Q = P'\<lparr>ns := (ns P')\<lparr>bm := b\<rparr>\<rparr>"
    and h: "h \<noteq> INVALID_HANDLE \<longrightarrow> chunk_ok Q (pool_groups Q v') h \<and> h \<notin> vd (ns P) ` filled P (v_ch v)
          \<and> stored_key (keySize P) b h = packed (keySize P) key \<and> packed (keySize P) key \<notin> fst ` entries P v"
  shows "\<exists>st. store_VDHandle n h (ns Q) = Some st \<and> pool_inv (Q\<lparr>ns := st\<rparr>) v'
        \<and> entries (Q\<lparr>ns := st\<rparr>) v' = entries P v \<union> (if h = INVALID_HANDLE then {} else {(packed (keySize P) key, n)})"
proof -
  let ?x = "NodeID (ns P') n"
  note d = pool_invD(1) [OF inv] and p = pool_sameD [OF same]
  have nk: "fst ` entries P v = node_key P ` filled P (v_ch v)" by (simp add: entries_def image_image)
  have coreQ: "pool_core Q v'" unfolding Q by (rule core_grows [OF core g])
  have s: "pool_same P Q" using same Q by simp
  have r: "data_ok Q (pool_groups Q v') (v_ch v)" "filled Q (v_ch v) = filled P' (v_ch v)"
    "\<And>x. x \<in> filled P' (v_ch v) \<Longrightarrow> node_key Q x = node_key P' x"
    by (rule data_grows [where G' = "pool_groups Q v'", OF dt pool_coreD(2) [OF core]]; use g Q in simp)+
  have fq: "filled Q (v_ch v) = filled P (v_ch v)" using r(2) fl by simp
  have ke: "node_key Q x = node_key P x" if "x \<in> filled P (v_ch v)" for x
    using r(3) [of x] fl conjunct1 [OF keep [OF that]] that by metis
  have kv: "vd (ns Q) x = vd (ns P) x" "I_SEARCH (ns Q) x = I_SEARCH (ns P) x" if "x \<in> filled P (v_ch v)" for x
    using keep [OF that] Q by simp_all
  have hm: "home Q t (packed (keySize P) key)"
    using home_packed [OF d key] home_same [OF s] t by (cases "targetNewHash P") (auto simp: home_def)
  have im: "vd (ns Q) ` filled Q (v_ch v) = vd (ns P) ` filled P (v_ch v)" "node_key Q ` filled Q (v_ch v) = node_key P ` filled P (v_ch v)"
    unfolding fq by (rule image_cong [OF refl], erule kv ke)+
  have hp: "chunk_ok Q (pool_groups Q v') h \<and> h \<notin> vd (ns Q) ` filled Q (v_ch v)
      \<and> stored_key (keySize Q) (bm (ns Q)) h \<notin> node_key Q ` filled Q (v_ch v) \<and> home Q t (stored_key (keySize Q) (bm (ns Q)) h)"
    if "h \<noteq> INVALID_HANDLE"
    using h that hm p(2) Q unfolding im nk by simp
  have nq: "I_SEARCH (ns Q) ?x = n" "NodeID (ns Q) n = ?x" "n \<in> ns_used (ns Q) (v_fs v') (v_us v')" using n(1,2) Q by simp_all
  obtain st where st: "store_VDHandle n h (ns Q) = Some st" "pool_inv (Q\<lparr>ns := st\<rparr>) v'"
    "entries (Q\<lparr>ns := st\<rparr>) v' = (\<lambda>y. (node_key Q y, I_SEARCH (ns Q) y)) ` filled Q (v_ch v)
       \<union> (if h = INVALID_HANDLE then {} else {(stored_key (keySize Q) (bm (ns Q)) h, n)})"
    by (rule fill_node [OF coreQ ch n(3) nq r(1) hp])
  have "(\<lambda>y. (node_key Q y, I_SEARCH (ns Q) y)) ` filled Q (v_ch v) = entries P v"
    unfolding fq entries_def by (rule image_cong [OF refl]) (metis ke kv(2))
  moreover have "stored_key (keySize Q) (bm (ns Q)) h = packed (keySize P) key" if "h \<noteq> INVALID_HANDLE" using h that p(2) Q by simp
  ultimately show ?thesis using st by auto
qed



section \<open>Purging a key\<close>



section \<open>A new hash\<close>

text \<open>
  C35: \<open>CHash::Init\<close>, on a node store with its LRU lists in place, either reports that there is no
  memory, or leaves a pool whose buckets are all empty and which has no entry, in a chunk that
  holds the header and every bucket.
\<close>

theorem Hash_Init_correct:
  assumes "ns_inv (ns P) fs us" "BM_sound (bm (ns P))" "lists_ok (ns P) fs us ls" "0 < hsize" "4 * hsize + SIZEOF_HASH_T < 2 ^ 32"
    "v = \<lparr>v_fs = fs, v_us = us, v_ch = (\<lambda>_. []), v_ls = ls\<rparr>"
  shows "\<exists>r P'. Hash_Init hsize (keySize P) P = Some (r, P') \<and> (r = -1 \<or> r = 0 \<and> pool_inv P' v \<and> entries P' v = {}
     \<and> hh_size (hh P') = hsize \<and> (\<exists>k. (p_hash P', k) \<in> BM_chunks (bm (ns P')) \<and> SIZEOF_HASH_T + 4 * hsize \<le> k))"
proof -
  obtain h b where c: "BM_Calloc (u32 (4 * hsize + SIZEOF_HASH_T)) (bm (ns P)) = Some (h, b)"
    by (rule bmc.calloc_SomeE [OF ns_invD(1) [OF assms(1)], of "u32 (4 * hsize + SIZEOF_HASH_T)"]) auto
  then have "Hash_Init hsize (keySize P) P \<noteq> None" by (auto simp: Hash_Init_def M_CALLOC_def Let_def split: if_splits)
  then obtain r P' where r: "Hash_Init hsize (keySize P) P = Some (r, P')" by auto
  have "entries P' v = {}" by (simp add: entries_def filled_def chained_def assms(6))
  with Hash_Init_spec [OF assms(1-5) r] r assms(6) show ?thesis by blast
qed

theorem Hash_Init_correct_witness:
  "\<exists>st. ns_inv (ns (ex_pool st)) [] [] \<and> BM_sound (bm (ns (ex_pool st))) \<and> lists_ok (ns (ex_pool st)) [] [] (\<lambda>_. [])
     \<and> (0 :: nat) < 8 \<and> 4 * 8 + SIZEOF_HASH_T < 2 ^ 32
     \<and> (\<exists>r P'. Hash_Init 8 (keySize (ex_pool st)) (ex_pool st) = Some (r, P') \<and> (r = -1 \<or> r = 0 \<and> pool_inv P' no_nodes
       \<and> entries P' no_nodes = {} \<and> hh_size (hh P') = 8 \<and> (\<exists>k. (p_hash P', k) \<in> BM_chunks (bm (ns P')) \<and> SIZEOF_HASH_T + 4 * 8 \<le> k)))"
proof -
  obtain st h bs where s: "ns_inv st [] []" "lists_ok st [] [] (\<lambda>_. [])" "BM_sound (bm st)" by (rule ex_chunk) blast
  then have i: "ns_inv (ns (ex_pool st)) [] []" "BM_sound (bm (ns (ex_pool st)))" "lists_ok (ns (ex_pool st)) [] [] (\<lambda>_. [])"
    by (simp_all add: ex_pool_def)
  have n: "(0 :: nat) < 8" "4 * 8 + SIZEOF_HASH_T < 2 ^ 32" by (simp_all add: SIZEOF_HASH_T_def)
  from Hash_Init_correct [OF i n refl] i n show ?thesis by blast
qed

end
