(* ===== verification/Cache_Purge.thy ===== *)
theory Cache_Purge
  imports Cache_Pool
begin

text \<open>
  The rest of \<open>CCachePool\<close>, in the order of \<open>cache/cache_pool.cc\<close>: the list of empty nodes, the time
  markers in the dirty list, and purging from the end of the clean list.  The clock, the table
  definition and the configuration are in \<open>pool_env\<close>; the row \<open>_stRow\<close> is only read for its
  table.  The samples that the statistics get are recorded in the order they are pushed.
\<close>

section \<open>Nodes\<close>

definition check_cross_linked_lru :: "node_store \<Rightarrow> CNode \<Rightarrow> int option" where
  "check_cross_linked_lru st n = do { v \<leftarrow> node_Prev st n; Some (if v = n then -1 else 0) }"

definition NodeRowsCount :: "cache_pool \<Rightarrow> CNode \<Rightarrow> int option" where
  "NodeRowsCount P n =
     (if is_null_node n then Some 0
      else do {
        vd \<leftarrow> VDHandle (ns P) n;
        Some (if vd = INVALID_HANDLE then 0 else s32 (DC_TotalRows (bm (ns P)) vd))
      })"

definition DirtyLruHead :: "cache_pool \<Rightarrow> CNode" where
  "DirtyLruHead P = DirtyNodeHead (ns P)"

definition CleanLruHead :: "cache_pool \<Rightarrow> CNode" where
  "CleanLruHead P = CleanNodeHead (ns P)"

definition EmptyLruHead :: "cache_pool \<Rightarrow> CNode" where
  "EmptyLruHead P = EmptyNodeHead (ns P)"

definition DirtyLruEmpty :: "cache_pool \<Rightarrow> bool option" where
  "DirtyLruEmpty P = NODE_LIST_EMPTY (ns P) (DirtyLruHead P)"

definition pool_Insert2EmptyLru :: "CNode \<Rightarrow> cache_pool \<Rightarrow> cache_pool option" where
  "pool_Insert2EmptyLru n P =
     map_option (\<lambda>st. P\<lparr>ns := st\<rparr>) (if emptyLimit P \<noteq> 0 then Insert2EmptyLru n (ns P) else Insert2CleanLru n (ns P))"

definition SetEmptyNodeLimit :: "int \<Rightarrow> cache_pool \<Rightarrow> cache_pool" where
  "SetEmptyNodeLimit v P = P\<lparr>emptyLimit := (if v < 0 then 0 else v)\<rparr>"

definition DisableTryPurge :: "cache_pool \<Rightarrow> cache_pool" where
  "DisableTryPurge P = P\<lparr>disableTryPurge := True\<rparr>"

definition SetDateExpireAlertTime :: "int \<Rightarrow> cache_pool \<Rightarrow> cache_pool" where
  "SetDateExpireAlertTime t P = P\<lparr>dateExpireAlertTime := (if t < 0 then 0 else t)\<rparr>"

section \<open>Empty nodes\<close>

text \<open>The loop of \<open>InitEmptyNodeList\<close> from the end of a list to its head.\<close>

partial_function (option) count_empty :: "node_store \<Rightarrow> CNode \<Rightarrow> CNode \<Rightarrow> int \<Rightarrow> int option" where
  "count_empty st header pos count =
     (if pos = header then Some count
      else do {
        c \<leftarrow> check_cross_linked_lru st pos;
        if c < 0 then Some count
        else do { q \<leftarrow> node_Prev st pos; count_empty st header q (count + 1) }
      })"

definition InitEmptyNodeList :: "cache_pool \<Rightarrow> (int \<times> cache_pool) option" where
  "InitEmptyNodeList P =
     (if emptyStartupMode (ns P) = ATTACHED
      then do {
        let header = EmptyNodeHead (ns P);
        pos \<leftarrow> node_Prev (ns P) header;
        count \<leftarrow> count_empty (ns P) header pos 0;
        Some (0, P\<lparr>ns := IncEmptyNode count (ns P)\<rparr>)
      }
      else Some (0, P))"

partial_function (option) upgrade_loop :: "CNode \<Rightarrow> CNode \<Rightarrow> int \<Rightarrow> cache_pool \<Rightarrow> (int \<times> cache_pool) option" where
  "upgrade_loop header pos count P =
     (if pos = header then Some (count, P)
      else do {
        c \<leftarrow> check_cross_linked_lru (ns P) pos;
        if c < 0 then Some (count, P)
        else do {
          nxt \<leftarrow> node_Prev (ns P) pos;
          rows \<leftarrow> NodeRowsCount P pos;
          if rows = 0
          then do {
            st1 \<leftarrow> RemoveFromLru pos (ns P);
            st2 \<leftarrow> Insert2EmptyLru pos st1;
            upgrade_loop header nxt (count + 1) (P\<lparr>ns := st2\<rparr>)
          }
          else upgrade_loop header nxt count P
        }
      })"

definition UpgradeEmptyNodeList :: "cache_pool \<Rightarrow> (int \<times> cache_pool) option" where
  "UpgradeEmptyNodeList P =
     (if emptyStartupMode (ns P) \<noteq> CREATED
      then do {
        let header = CleanNodeHead (ns P);
        pos \<leftarrow> node_Prev (ns P) header;
        (count, P1) \<leftarrow> upgrade_loop header pos 0 P;
        Some (0, P1\<lparr>ns := IncEmptyNode count (ns P1)\<rparr>)
      }
      else Some (0, P))"

partial_function (option) merge_loop :: "CNode \<Rightarrow> CNode \<Rightarrow> cache_pool \<Rightarrow> cache_pool option" where
  "merge_loop header pos P =
     (if pos = header then Some P
      else do {
        c \<leftarrow> check_cross_linked_lru (ns P) pos;
        if c < 0 then Some P
        else do {
          nxt \<leftarrow> node_Prev (ns P) pos;
          st1 \<leftarrow> RemoveFromLru pos (ns P);
          st2 \<leftarrow> Insert2CleanLru pos st1;
          merge_loop header nxt (P\<lparr>ns := st2\<rparr>)
        }
      })"

definition MergeEmptyNodeList :: "cache_pool \<Rightarrow> (int \<times> cache_pool) option" where
  "MergeEmptyNodeList P =
     (if emptyStartupMode (ns P) \<noteq> CREATED
      then do {
        let header = EmptyNodeHead (ns P);
        pos \<leftarrow> node_Prev (ns P) header;
        map_option (Pair 0) (merge_loop header pos P)
      }
      else Some (0, P))"

partial_function (option) prune_loop :: "pool_env \<Rightarrow> CNode \<Rightarrow> CNode \<Rightarrow> cache_pool \<Rightarrow> cache_pool option" where
  "prune_loop E header pos P =
     (if pos = header then Some P
      else do {
        c \<leftarrow> check_cross_linked_lru (ns P) pos;
        if c < 0 then Some P
        else do {
          nxt \<leftarrow> node_Prev (ns P) pos;
          (_, P1) \<leftarrow> PurgeNodeEverything E pos P;
          prune_loop E header nxt P1
        }
      })"

definition PruneEmptyNodeList :: "pool_env \<Rightarrow> cache_pool \<Rightarrow> (int \<times> cache_pool) option" where
  "PruneEmptyNodeList E P =
     (if emptyStartupMode (ns P) = ATTACHED
      then do {
        let header = EmptyNodeHead (ns P);
        pos \<leftarrow> node_Prev (ns P) header;
        map_option (Pair 0) (prune_loop E header pos P)
      }
      else Some (0, P))"

text \<open>Purges at most \<open>togo\<close> nodes.\<close>

fun shrink_loop :: "pool_env \<Rightarrow> CNode \<Rightarrow> nat \<Rightarrow> CNode \<Rightarrow> cache_pool \<Rightarrow> cache_pool option" where
  "shrink_loop E header 0 pos P = Some P"
| "shrink_loop E header (Suc togo) pos P =
     (if pos = header then Some P
      else do {
        c \<leftarrow> check_cross_linked_lru (ns P) pos;
        if c < 0 then Some P
        else do {
          nxt \<leftarrow> node_Prev (ns P) pos;
          (_, P1) \<leftarrow> PurgeNodeEverything E pos P;
          shrink_loop E header togo nxt (P1\<lparr>ns := IncEmptyNode (-1) (ns P1)\<rparr>)
        }
      })"

definition ShrinkEmptyNodeList :: "pool_env \<Rightarrow> cache_pool \<Rightarrow> (int \<times> cache_pool) option" where
  "ShrinkEmptyNodeList E P =
     (if emptyLimit P \<noteq> 0 \<and> emptyCnt (ns P) > emptyLimit P
      then do {
        let header = EmptyNodeHead (ns P);
        pos \<leftarrow> node_Prev (ns P) header;
        map_option (Pair 0) (shrink_loop E header (nat (emptyCnt (ns P) - emptyLimit P)) pos P)
      }
      else Some (0, P))"

definition PurgeSingleEmptyNode :: "pool_env \<Rightarrow> cache_pool \<Rightarrow> (int \<times> cache_pool) option" where
  "PurgeSingleEmptyNode E P = do {
     let header = EmptyNodeHead (ns P);
     pos \<leftarrow> node_Prev (ns P) header;
     if pos \<noteq> header
     then do {
       c \<leftarrow> check_cross_linked_lru (ns P) pos;
       if c < 0 then Some (-1, P)
       else do {
         (_, P1) \<leftarrow> PurgeNodeEverything E pos P;
         Some (0, P1\<lparr>ns := IncEmptyNode (-1) (ns P1)\<rparr>)
       }
     }
     else Some (0, P)
   }"

definition pool_DecEmptyNode :: "cache_pool \<Rightarrow> cache_pool" where
  "pool_DecEmptyNode P = (if emptyLimit P \<noteq> 0 then P\<lparr>ns := IncEmptyNode (-1) (ns P)\<rparr> else P)"

definition pool_IncEmptyNode :: "pool_env \<Rightarrow> cache_pool \<Rightarrow> cache_pool option" where
  "pool_IncEmptyNode E P =
     (if emptyLimit P \<noteq> 0
      then let P1 = P\<lparr>ns := IncEmptyNode 1 (ns P)\<rparr>
           in if emptyCnt (ns P1) > emptyLimit P1 then map_option snd (PurgeSingleEmptyNode E P1) else Some P1
      else Some P)"

section \<open>Purging\<close>

text \<open>The loop over the rows of a node, for its latest modification.\<close>

fun cmod_loop :: "CBinMalloc \<Rightarrow> CRowValue \<Rightarrow> nat \<Rightarrow> nat \<Rightarrow> CRawData \<Rightarrow> nat \<times> CRawData" where
  "cmod_loop b r 0 l rd = (l, rd)"
| "cmod_loop b r (Suc k) l rd =
     (let (iRet, l1, rd1) = GetLastcmod BM_mem r rd b
      in if iRet \<noteq> 0 then (0, rd1) else cmod_loop b r k (if l1 > l then l1 else l) rd1)"

definition GetCmodtime :: "pool_env \<Rightarrow> CNode \<Rightarrow> cache_pool \<Rightarrow> (nat \<times> cache_pool) option" where
  "GetCmodtime E n P = do {
     vd \<leftarrow> VDHandle (ns P) n;
     let b = bm (ns P);
     let (iRet, rd) = RD_Attach BM_mem vd (u8 (env_key_fields E + 255)) (env_key_format E) (-1) (env_lastcmod E) (raw_data P) b;
     if iRet \<noteq> 0 then Some (0, P\<lparr>raw_data := rd\<rparr>)
     else let (l, rd1) = cmod_loop b (env_row E) (m_uiRowCnt rd) 0 rd in Some (l, P\<lparr>raw_data := rd1\<rparr>)
   }"

definition CheckAndPurgeNodeEverything :: "pool_env \<Rightarrow> CNode \<Rightarrow> cache_pool \<Rightarrow> (int \<times> cache_pool) option" where
  "CheckAndPurgeNodeEverything E n P = do {
     P1 \<leftarrow> (if dateExpireAlertTime P \<noteq> 0
            then do {
              (l, P1) \<leftarrow> GetCmodtime E n P;
              Some (if l > statLastPurgeNodeModTime P1
                    then P1\<lparr>statLastPurgeNodeModTime := l, statDataExistTime := u32_sub (env_now E) l\<rparr> else P1)
            }
            else Some P);
     PurgeNodeEverything E n P1
   }"

text \<open>One node with its rows out of the total; the argument of \<open>IncTotalRow\<close> is an \<open>int\<close>.\<close>

definition purge_counted :: "pool_env \<Rightarrow> CNode \<Rightarrow> cache_pool \<Rightarrow> cache_pool option" where
  "purge_counted E n P = do {
     rows \<leftarrow> NodeRowsCount P n;
     let P1 = P\<lparr>ns := IncTotalRow (signed_take_bit 31 (- rows)) (ns P)\<rparr>;
     map_option snd (CheckAndPurgeNodeEverything E n P1)
   }"

definition count_purge :: "cache_pool \<Rightarrow> cache_pool" where
  "count_purge P = P\<lparr>statTryPurgeNodes := u32 (statTryPurgeNodes P + 1)\<rparr>"

fun pre_purge_loop :: "pool_env \<Rightarrow> CNode \<Rightarrow> CNode \<Rightarrow> nat \<Rightarrow> CNode \<Rightarrow> int \<Rightarrow> cache_pool \<Rightarrow> (int \<times> cache_pool) option" where
  "pre_purge_loop E header reserve 0 pos realpurged P = Some (realpurged, P)"
| "pre_purge_loop E header reserve (Suc k) pos realpurged P =
     (if is_null_node pos \<or> pos = header then Some (realpurged, P)
      else do {
        _ \<leftarrow> check_cross_linked_lru (ns P) pos;
        nxt \<leftarrow> node_Prev (ns P) pos;
        if reserve = pos then pre_purge_loop E header reserve k nxt realpurged P
        else do {
          P1 \<leftarrow> purge_counted E pos P;
          pre_purge_loop E header reserve k nxt (realpurged + 1) (count_purge P1)
        }
      })"

definition PrePurgeNodes :: "pool_env \<Rightarrow> int \<Rightarrow> CNode \<Rightarrow> cache_pool \<Rightarrow> (int \<times> cache_pool) option" where
  "PrePurgeNodes E purge_count reserve P =
     (if purge_count \<le> 0 then Some (0, P)
      else do {
        let P1 = P\<lparr>statTryPurgeCount := statTryPurgeCount P @ [purge_count]\<rparr>;
        let header = CleanLruHead P1;
        pos \<leftarrow> node_Prev (ns P1) header;
        pre_purge_loop E header reserve (nat purge_count) pos 0 P1
      })"

text \<open>
  The loop of \<open>TryPurgeSize\<close>: \<open>k\<close> iterations are left, \<open>i\<close> is the counter of the loop, \<open>tried\<close> that of the chunks
  that were too small.
\<close>

fun try_purge_loop :: "pool_env \<Rightarrow> nat \<Rightarrow> CNode \<Rightarrow> CNode \<Rightarrow> nat \<Rightarrow> nat \<Rightarrow> CNode \<Rightarrow> nat \<Rightarrow> cache_pool \<Rightarrow> (int \<times> cache_pool) option" where
  "try_purge_loop E sz header reserve 0 i pos tried P = Some (-1, P\<lparr>need_purge_node_count := tried\<rparr>)"
| "try_purge_loop E sz header reserve (Suc k) i pos tried P =
     (if is_null_node pos \<or> pos = header \<or> ni_used_node (ni (ns P)) < 10 then Some (-1, P\<lparr>need_purge_node_count := tried\<rparr>)
      else do {
        c \<leftarrow> check_cross_linked_lru (ns P) pos;
        if c < 0 then Some (-1, P\<lparr>need_purge_node_count := tried\<rparr>)
        else do {
          nxt \<leftarrow> node_Prev (ns P) pos;
          vd \<leftarrow> VDHandle (ns P) pos;
          if pos = reserve \<or> vd = INVALID_HANDLE then try_purge_loop E sz header reserve k (i + 1) nxt tried P
          else if DC_AskForDestroySize (bm (ns P)) vd \<ge> sz
          then do {
            P1 \<leftarrow> purge_counted E pos P;
            Some (0, count_purge (P1\<lparr>need_purge_node_count := i\<rparr>))
          }
          else try_purge_loop E sz header reserve k (i + 1) nxt (tried + 1) P
        }
      })"

definition TryPurgeSize :: "pool_env \<Rightarrow> nat \<Rightarrow> CNode \<Rightarrow> nat \<Rightarrow> cache_pool \<Rightarrow> (int \<times> cache_pool) option" where
  "TryPurgeSize E sz reserve max_purge_count P =
     (if disableTryPurge P then Some (-1, P)
      else do {
        (_, P1) \<leftarrow> PrePurgeNodes E (env_pre_purge_nodes E) reserve P;
        let header = CleanLruHead P1;
        pos \<leftarrow> node_Prev (ns P1) header;
        try_purge_loop E sz header reserve max_purge_count 0 pos 0 P1
      })"

fun delay_purge_loop :: "pool_env \<Rightarrow> CNode \<Rightarrow> nat \<Rightarrow> CNode \<Rightarrow> nat \<Rightarrow> cache_pool \<Rightarrow> (nat \<times> cache_pool) option" where
  "delay_purge_loop E header 0 pos purged P = Some (purged, P)"
| "delay_purge_loop E header (Suc k) pos purged P =
     (if is_null_node pos \<or> pos = header then Some (purged, P)
      else do {
        _ \<leftarrow> check_cross_linked_lru (ns P) pos;
        nxt \<leftarrow> node_Prev (ns P) pos;
        P1 \<leftarrow> purge_counted E pos P;
        delay_purge_loop E header k nxt (purged + 1) (count_purge P1)
      })"

definition DelayPurgeNotify :: "pool_env \<Rightarrow> nat \<Rightarrow> cache_pool \<Rightarrow> cache_pool option" where
  "DelayPurgeNotify E count P =
     (if need_purge_node_count P = 0 then Some P
      else do {
        let P1 = P\<lparr>statTryPurgeCount := statTryPurgeCount P @ [int (need_purge_node_count P)]\<rparr>;
        let header = CleanLruHead P1;
        pos \<leftarrow> node_Prev (ns P1) header;
        (purged, P2) \<leftarrow> delay_purge_loop E header (min count (need_purge_node_count P1)) pos 0 P1;
        let P3 = P2\<lparr>need_purge_node_count := u32_sub (need_purge_node_count P2) purged\<rparr>;
        Some (if need_purge_node_count P3 > 0 then P3\<lparr>delay_timer := True\<rparr> else P3)
      })"

definition StartDelayPurgeTask :: "cache_pool \<Rightarrow> cache_pool" where
  "StartDelayPurgeTask P = P\<lparr>delay_timer := True\<rparr>"

definition TimerNotify :: "pool_env \<Rightarrow> cache_pool \<Rightarrow> cache_pool option" where
  "TimerNotify E P = DelayPurgeNotify E 50 P"

section \<open>Time markers\<close>

definition IsTimeMarker :: "node_store \<Rightarrow> CNode \<Rightarrow> bool option" where
  "IsTimeMarker st n = map_option (\<lambda>j. j = TIME_MARKER_NEXT_NODE_ID) (NextNodeID st n)"

partial_function (option) find_marker :: "(CNode \<Rightarrow> CNode option) \<Rightarrow> node_store \<Rightarrow> CNode \<Rightarrow> CNode \<Rightarrow> CNode option" where
  "find_marker f st header pos =
     (if pos = header then Some null_node
      else do {
        m \<leftarrow> IsTimeMarker st pos;
        if m then Some pos else do { q \<leftarrow> f pos; find_marker f st header q }
      })"

definition LastTimeMarker :: "cache_pool \<Rightarrow> CNode option" where
  "LastTimeMarker P = do {
     let header = DirtyNodeHead (ns P);
     pos \<leftarrow> node_Prev (ns P) header;
     find_marker (node_Prev (ns P)) (ns P) header pos
   }"

definition FirstTimeMarker :: "cache_pool \<Rightarrow> CNode option" where
  "FirstTimeMarker P = do {
     let header = DirtyNodeHead (ns P);
     pos \<leftarrow> node_Next (ns P) header;
     find_marker (node_Next (ns P)) (ns P) header pos
   }"

definition marker_time :: "node_store \<Rightarrow> CNode \<Rightarrow> nat option" where
  "marker_time st n = (if is_null_node n then Some 0 else node_Time st n)"

definition FirstTimeMarkerTime :: "cache_pool \<Rightarrow> (nat \<times> cache_pool) option" where
  "FirstTimeMarkerTime P =
     (if firstMarkerTime P = 0
      then do { n \<leftarrow> FirstTimeMarker P; t \<leftarrow> marker_time (ns P) n; Some (t, P\<lparr>firstMarkerTime := t\<rparr>) }
      else Some (firstMarkerTime P, P))"

definition LastTimeMarkerTime :: "cache_pool \<Rightarrow> (nat \<times> cache_pool) option" where
  "LastTimeMarkerTime P =
     (if lastMarkerTime P = 0
      then do { n \<leftarrow> LastTimeMarker P; t \<leftarrow> marker_time (ns P) n; Some (t, P\<lparr>lastMarkerTime := t\<rparr>) }
      else Some (lastMarkerTime P, P))"

definition dirty_stats :: "cache_pool \<Rightarrow> cache_pool" where
  "dirty_stats P = P\<lparr>statDirtyAge := u32_sub (firstMarkerTime P) (lastMarkerTime P), statDirtyEldest := lastMarkerTime P\<rparr>"

text \<open>The node becomes a marker for the time \<open>t\<close> at the head of the dirty list.\<close>

definition put_marker :: "CNode \<Rightarrow> nat \<Rightarrow> cache_pool \<Rightarrow> cache_pool option" where
  "put_marker n t P = do {
     st1 \<leftarrow> set_NextNodeID n TIME_MARKER_NEXT_NODE_ID (ns P);
     st2 \<leftarrow> store_VDHandle n t st1;
     st3 \<leftarrow> Insert2DirtyLru n st2;
     let P1 = P\<lparr>ns := st3, firstMarkerTime := t\<rparr>;
     P2 \<leftarrow> (if lastMarkerTime P1 = 0 then map_option snd (LastTimeMarkerTime P1) else Some P1);
     Some (dirty_stats P2)
   }"

definition InsertTimeMarker :: "pool_env \<Rightarrow> nat \<Rightarrow> cache_pool \<Rightarrow> (int \<times> cache_pool) option" where
  "InsertTimeMarker E t P = do {
     (n, st) \<leftarrow> NI_AllocateNode (ns P);
     let P1 = P\<lparr>ns := st\<rparr>;
     if is_null_node n
     then do {
       (_, P2) \<leftarrow> PrePurgeNodes E 10 null_node P1;
       (n, st) \<leftarrow> NI_AllocateNode (ns P2);
       let P3 = P2\<lparr>ns := st\<rparr>;
       if is_null_node n then Some (-1, P3) else map_option (Pair 0) (put_marker n t P3)
     }
     else map_option (Pair 0) (put_marker n t P1)
   }"

definition RemoveTimeMarker :: "CNode \<Rightarrow> cache_pool \<Rightarrow> (int \<times> cache_pool) option" where
  "RemoveTimeMarker n P = do {
     m \<leftarrow> IsTimeMarker (ns P) n;
     if \<not> m then Some (-1, P)
     else do {
       st1 \<leftarrow> RemoveFromLru n (ns P);
       st2 \<leftarrow> NI_ReleaseNode n st1;
       let P1 = P\<lparr>ns := st2\<rparr>;
       l \<leftarrow> LastTimeMarker P1;
       t \<leftarrow> (if is_null_node l then Some (firstMarkerTime P1) else node_Time (ns P1) l);
       Some (0, dirty_stats (P1\<lparr>lastMarkerTime := t\<rparr>))
     }
   }"

end
