(* ===== verification/Cache_Purge_Ops.thy ===== *)
theory Cache_Purge_Ops
  imports Cache_Pool_Store Cache_Purge
begin

text \<open>
  What purging does to the pool: the walk along an LRU list from its end, the removal of one node with its data,
  and the loops over the clean list.
\<close>

section \<open>Counters\<close>

lemma alloc_confD:
  assumes "alloc_conf st' = alloc_conf st"
  shows "ng_step st' = ng_step st" "ni_min_id (ni st') = ni_min_id (ni st)" "sys_node st' = sys_node st" "second_of st' = second_of st"
    "index_covers st' = index_covers st"
  using assms by (simp_all add: alloc_conf_def sys_node_def index_covers_def fun_eq_iff)

text \<open>A pool with the same store and the same hash.\<close>

lemma pool_inv_ext:
  assumes "ns P' = ns P" "m_hash P' = m_hash P" "pool_same P P'"
  shows "pool_inv P' v = pool_inv P v" "entries P' v = entries P v"
proof -
  note p = pool_sameD [OF assms(3)] and h = home_same [OF assms(3)]
  have fl: "filled P' ch = filled P ch" for ch by (simp add: filled_def assms)
  have "chains_ok P' ch = chains_ok P ch" for ch using p(1) assms by (simp add: chains_ok_def Hash2Node_def)
  moreover have "data_ok P' G ch = data_ok P G ch" for G ch using p(2) by (simp add: data_ok_def fl chunk_ok_def assms h)
  ultimately show "pool_inv P' v = pool_inv P v" using p by (simp add: pool_inv_def pool_core_def assms)
  show "entries P' v = entries P v" using p(2) by (simp add: entries_def fl assms)
qed

text \<open>The counters of rows and of empty nodes, and how the store was opened.\<close>

definition counters_only :: "node_store \<Rightarrow> node_store \<Rightarrow> bool" where
  "counters_only st st' \<longleftrightarrow> (\<exists>j s e t m. st' = st\<lparr>m_ni := j, statUsedRow := s, emptyCnt := e, statEmptyNode := t, emptyStartupMode := m\<rparr>
     \<and> ni_min_id (j (ngInfo st)) = ni_min_id (ni st) \<and> ni_sys_zone (j (ngInfo st)) = ni_sys_zone (ni st)
     \<and> ni_used_node (j (ngInfo st)) = ni_used_node (ni st))"

lemma counters_IncTotalRow: "counters_only st (IncTotalRow r st)"
  unfolding counters_only_def IncTotalRow_def Let_def upd_ni_def
  by (rule exI [of _ "(m_ni st)(ngInfo st := (ni st)\<lparr>ni_used_row := i64_add (ni_used_row (ni st)) r\<rparr>)"],
      rule exI, rule exI [of _ "emptyCnt st"], rule exI [of _ "statEmptyNode st"], rule exI [of _ "emptyStartupMode st"]) simp

lemma counters_IncEmptyNode: "counters_only st (IncEmptyNode r st)"
  unfolding counters_only_def IncEmptyNode_def Let_def
  by (rule exI [of _ "m_ni st"], rule exI [of _ "statUsedRow st"], rule exI, rule exI, rule exI [of _ "emptyStartupMode st"]) simp

lemma counters_startup: "counters_only st (st\<lparr>emptyStartupMode := m\<rparr>)"
  unfolding counters_only_def
  by (rule exI [of _ "m_ni st"], rule exI [of _ "statUsedRow st"], rule exI [of _ "emptyCnt st"], rule exI [of _ "statEmptyNode st"],
      rule exI [of _ m]) simp

lemma counters_same:
  assumes "counters_only st st'"
  shows "I_SEARCH st' = I_SEARCH st" "NodeID st' = NodeID st" "lru_valid st' = lru_valid st" "nx st' = nx st" "vd st' = vd st"
    "lru_next st' = lru_next st" "lru_prev st' = lru_prev st" "lru_list st' = lru_list st" "bm st' = bm st" "ngInfo st' = ngInfo st"
    "alloc_conf st' = alloc_conf st" "ns_inv st' fs us = ns_inv st fs us" "ns_used st' fs us = ns_used st fs us"
    "groups st' fs us = groups st fs us" "m_ng st' = m_ng st" "ni_used_node (ni st') = ni_used_node (ni st)"
proof -
  obtain j s e t m where e: "st' = st\<lparr>m_ni := j, statUsedRow := s, emptyCnt := e, statEmptyNode := t, emptyStartupMode := m\<rparr>"
    and z: "ni_min_id (j (ngInfo st)) = ni_min_id (ni st)" "ni_sys_zone (j (ngInfo st)) = ni_sys_zone (ni st)"
      "ni_used_node (j (ngInfo st)) = ni_used_node (ni st)"
    using assms by (auto simp: counters_only_def)
  show s: "I_SEARCH st' = I_SEARCH st" "NodeID st' = NodeID st"
    by (simp_all add: e fun_eq_iff I_SEARCH_def NodeID_def Let_def)
  show v: "lru_valid st' = lru_valid st" by (simp add: fun_eq_iff lru_valid_def s)
  show m: "m_ng st' = m_ng st" by (simp add: e)
  show n: "nx st' = nx st" "vd st' = vd st" "lru_next st' = lru_next st" "lru_prev st' = lru_prev st"
    by (simp_all add: fun_eq_iff nx_def vd_def lru_next_def lru_prev_def s v m)
  show "lru_list st' = lru_list st" by (simp add: fun_eq_iff lru_list_def indexed_def s v n)
  show "bm st' = bm st" "ngInfo st' = ngInfo st" "ns_used st' fs us = ns_used st fs us" "groups st' fs us = groups st fs us"
    "alloc_conf st' = alloc_conf st" "ni_used_node (ni st') = ni_used_node (ni st)"
    by (simp_all add: e ns_used_def groups_def alloc_conf_def second_of_def z fun_eq_iff)
  show "ns_inv st' fs us = ns_inv st fs us"
    by (simp add: e ns_inv_def links_ok_def groups_def group_ok_def group_indexed_def second_of_def
        ni_free_head_def ni_full_head_def ng_valid_def z)
qed

lemma counters_inv:
  assumes "counters_only (ns P) st"
  shows "pool_inv (P\<lparr>ns := st\<rparr>) v = pool_inv P v" "entries (P\<lparr>ns := st\<rparr>) v = entries P v"
proof -
  note s = counters_same [OF assms]
  let ?P = "P\<lparr>ns := st\<rparr>"
  have h: "home ?P b k = home P b k" for b k by (rule home_same) simp
  have fl: "filled ?P ch = filled P ch" for ch by (simp add: filled_def s)
  have "chains_ok ?P ch = chains_ok P ch" for ch by (simp add: chains_ok_def Hash2Node_def s)
  moreover have "lists_ok st fs us ls = lists_ok (ns P) fs us ls" for fs us ls
    using alloc_confD(3) [OF s(11)] s(11) by (simp add: lists_ok_def s alloc_conf_def)
  moreover have "data_ok ?P G ch = data_ok P G ch" for G ch by (simp add: data_ok_def fl chunk_ok_def s h)
  ultimately show "pool_inv ?P v = pool_inv P v" by (simp add: pool_inv_def pool_core_def s)
  show "entries ?P v = entries P v" by (simp add: entries_def fl s)
qed

section \<open>Walking a list from its end\<close>

text \<open>The node the walk stands on when the nodes \<open>us\<close> are left.\<close>

definition walk_pos :: "node_store \<Rightarrow> CNode \<Rightarrow> nat list \<Rightarrow> CNode" where
  "walk_pos st n us = (if us = [] then n else I_SEARCH st (last us))"

lemma walk_start:
  assumes "lru_list st n xs"
  shows "node_Prev st n = Some (walk_pos st n xs)"
proof -
  have "indexed st n" and r: "ring (lru_next st) (lru_prev st) (NodeID st n) xs" using assms by (simp_all add: lru_list_def)
  moreover have "I_SEARCH st (last (NodeID st n # xs)) = walk_pos st n xs"
    using \<open>indexed st n\<close> by (simp add: walk_pos_def indexed_def)
  ultimately show ?thesis using indexed_Next(2) ring_prev [OF r] by (simp add: node_Prev_def)
qed

lemma walk_step:
  assumes l: "lru_list st n (us @ x # ws)"
  shows "node_Prev st (I_SEARCH st x) = Some (walk_pos st n us)" "check_cross_linked_lru st (I_SEARCH st x) = Some 0"
    "I_SEARCH st x \<noteq> n" "\<not> is_null_node (I_SEARCH st x)"
proof -
  have x: "lru_valid st x" "indexed st n" and r: "ring (lru_next st) (lru_prev st) (NodeID st n) (us @ x # ws)"
    and us: "\<forall>i\<in>set us. lru_valid st i" using l by (auto simp: lru_list_def)
  have d: "distinct (NodeID st n # us @ x # ws)" using r by (simp add: ring_def)
  have "linked (lru_next st) (lru_prev st) ((NodeID st n # us) @ x # ws @ [NodeID st n])" using r by (simp add: ring_def)
  then have "linked (lru_next st) (lru_prev st) ((NodeID st n # us) @ [x])" using linked_append by metis
  then have "linked (lru_next st) (lru_prev st) (NodeID st n # us @ [x])" by simp
  then have p: "lru_prev st x = last (NodeID st n # us)" by (rule linked_snoc_prev)
  have pv: "node_Prev st (I_SEARCH st x) = Some (I_SEARCH st (lru_prev st x))"
    using indexed_Next(2) [OF valid_indexed [OF x(1)]] valid_attrs(3) [OF x(1)] by (simp add: node_Prev_def)
  then show w: "node_Prev st (I_SEARCH st x) = Some (walk_pos st n us)" using p x(2) by (auto simp: walk_pos_def indexed_def)
  have nn: "I_SEARCH st (NodeID st n) = n" "lru_valid st (NodeID st n)" using x(2) indexed_valid by (auto simp: indexed_def)
  then show nh: "I_SEARCH st x \<noteq> n" using valid_node_eq [OF x(1) nn(2)] d by auto
  have "walk_pos st n us \<noteq> I_SEARCH st x"
  proof (cases "us = []")
    case False
    then have "last us \<in> set us" by simp
    then show ?thesis using valid_node_eq [OF x(1), of "last us"] us d False by (auto simp: walk_pos_def)
  qed (use nh in \<open>simp add: walk_pos_def\<close>)
  then show "check_cross_linked_lru st (I_SEARCH st x) = Some 0" using w by (auto simp: check_cross_linked_lru_def)
  show "\<not> is_null_node (I_SEARCH st x)" by (rule valid_not_null [OF x(1)])
qed

section \<open>One node\<close>

text \<open>
  A pool in which every node of the clean and of the empty list hangs in a bucket, and every key fits into
  the buffer of \<open>PurgeNodeEverything\<close>.
\<close>

definition purgeable :: "cache_pool \<Rightarrow> pool_view \<Rightarrow> bool" where
  "purgeable P v \<longleftrightarrow> pool_inv P v \<and> set (v_ls v 1) \<union> set (v_ls v 2) \<subseteq> chained (v_ch v) \<and> (\<forall>e\<in>entries P v. length (fst e) \<le> 256)"

definition purge_frame :: "CNode set \<Rightarrow> cache_pool \<Rightarrow> pool_view \<Rightarrow> cache_pool \<Rightarrow> pool_view \<Rightarrow> bool" where
  "purge_frame R P v P' v' \<longleftrightarrow> purgeable P' v' \<and> pool_same P P' \<and> alloc_conf (ns P') = alloc_conf (ns P)
     \<and> I_SEARCH (ns P') = I_SEARCH (ns P) \<and> entries P' v' \<subseteq> entries P v \<and> {e \<in> entries P v. snd e \<in> R} \<subseteq> entries P' v'
     \<and> (v_fs v \<noteq> [] \<longrightarrow> v_fs v' \<noteq> [])"

lemma purge_frame_refl: "purgeable P v \<Longrightarrow> purge_frame R P v P v"
  by (auto simp: purge_frame_def)

lemma purge_frame_trans: "purge_frame R P v P1 v1 \<Longrightarrow> purge_frame R P1 v1 P2 v2 \<Longrightarrow> purge_frame R P v P2 v2"
  unfolding purge_frame_def using pool_same_trans by (auto dest: subsetD)

lemma purgeable_ext:
  assumes "pool_inv P' v = pool_inv P v" "entries P' v = entries P v"
  shows "purgeable P' v = purgeable P v"
  using assms by (simp add: purgeable_def)

lemma padded_key:
  assumes "key = stored_key ksz b h @ zs"
  shows "key_ok ksz key" "packed ksz key = stored_key ksz b h"
proof -
  have "stored_key ksz b h \<noteq> []" using stored_key_len by (auto simp: stored_key_def get_bytes_def)
  then have "key_len ksz key = key_len ksz (stored_key ksz b h)" unfolding assms by (cases "stored_key ksz b h") (auto simp: key_len_def)
  then show "key_ok ksz key" "packed ksz key = stored_key ksz b h" by (simp_all add: key_ok_def packed_def stored_key_len assms)
qed

lemma PurgeNodeEverything_filled:
  assumes x: "lru_valid (ns P) x" "vd (ns P) x \<noteq> INVALID_HANDLE" "DC_type (bm (ns P)) (vd (ns P) x) = DATA_TYPE_RAW"
    and k: "length (node_key P x) \<le> 256"
  obtains key where "PurgeNodeEverything E (I_SEARCH (ns P) x) P = PurgeNodeEverything_key E key (I_SEARCH (ns P) x) P"
    "key_ok (keySize P) key" "packed (keySize P) key = node_key P x"
proof -
  let ?h = "vd (ns P) x" and ?b = "bm (ns P)"
  let ?len = "if keySize P > 0 then keySize P else m_user ?b (?h + SIZEOF_CRawFormat) + 1"
  let ?key = "chunk_bytes ?b (?h + SIZEOF_CRawFormat) ?len @ replicate (256 - ?len) 0"
  have e: "?key = node_key P x @ replicate (256 - ?len) 0" by (simp add: stored_key_def)
  have "?len \<le> 256" using k by (simp add: stored_key_def split: if_splits)
  then have "PurgeNodeEverything E (I_SEARCH (ns P) x) P = PurgeNodeEverything_key E ?key (I_SEARCH (ns P) x) P"
    using valid_not_null [OF x(1)] valid_attrs(2) [OF x(1)] x(2,3)
    by (simp add: PurgeNodeEverything_def PurgeNodeEverything_key_def DC_Key_def Let_def)
  then show ?thesis using that padded_key [OF e] by blast
qed

lemma PurgeNodeEverything_spec:
  assumes p: "purgeable P v" and x: "x \<in> chained (v_ch v)"
  obtains "PurgeNodeEverything E (I_SEARCH (ns P) x) P = Some (0, P)" "vd (ns P) x = INVALID_HANDLE"
  | P' fs us where "PurgeNodeEverything E (I_SEARCH (ns P) x) P = Some (0, P')" "vd (ns P) x \<noteq> INVALID_HANDLE"
      "purge_frame (- {I_SEARCH (ns P) x}) P v P' (drop_node x fs us v)" "fs \<noteq> []"
      "entries P' (drop_node x fs us v) = entries P v - {(node_key P x, I_SEARCH (ns P) x)}" "x \<in> filled P (v_ch v)"
proof -
  have inv: "pool_inv P v" and cl: "set (v_ls v 1) \<union> set (v_ls v 2) \<subseteq> chained (v_ch v)" and kl: "\<forall>e\<in>entries P v. length (fst e) \<le> 256"
    using p by (simp_all add: purgeable_def)
  note c = pool_coreD [OF pool_invD(1) [OF inv]]
  have xv: "lru_valid (ns P) x" using x c(7) lists_okD(5) [OF c(6)] by blast
  show ?thesis
  proof (cases "vd (ns P) x = INVALID_HANDLE")
    case True
    then have "PurgeNodeEverything E (I_SEARCH (ns P) x) P = Some (0, P)"
      using valid_not_null [OF xv] valid_attrs(2) [OF xv] by (simp add: PurgeNodeEverything_def)
    with True show ?thesis using that(1) by blast
  next
    case False
    then have xf: "x \<in> filled P (v_ch v)" using x by (simp add: filled_def)
    have ty: "DC_type (bm (ns P)) (vd (ns P) x) = DATA_TYPE_RAW"
      using data_okD(1) [OF pool_invD(2) [OF inv] xf] by (simp add: chunk_ok_def)
    have "(node_key P x, I_SEARCH (ns P) x) \<in> entries P v" using xf by (auto simp: entries_def)
    then have "length (node_key P x) \<le> 256" using kl by force
    from PurgeNodeEverything_filled [OF xv False ty this, of E] obtain key where
      e: "PurgeNodeEverything E (I_SEARCH (ns P) x) P = PurgeNodeEverything_key E key (I_SEARCH (ns P) x) P"
      and key: "key_ok (keySize P) key" "packed (keySize P) key = node_key P x" .
    obtain P' v' fs us where r: "PurgeNodeEverything_key E key (I_SEARCH (ns P) x) P = Some (0, P')" "pool_inv P' v'"
      "entries P' v' = entries P v - {(packed (keySize P) key, I_SEARCH (ns P) x)}" "pool_same P P'"
      "v' = drop_node x fs us v" "fs \<noteq> []" "alloc_conf (ns P') = alloc_conf (ns P)" "I_SEARCH (ns P') = I_SEARCH (ns P)"
      by (rule PurgeNodeEverything_key_spec [OF inv key(1) xf key(2) [symmetric], of E]) blast
    have "set (v_ls v' 1) \<union> set (v_ls v' 2) \<subseteq> chained (v_ch v')"
    proof -
      have "distinct (v_ls v k)" if "k < 3" for k using lists_okD(1) [OF c(6) that] by (simp add: lru_list_def ring_def)
      then have "set (v_ls v' 1) = set (v_ls v 1) - {x}" "set (v_ls v' 2) = set (v_ls v 2) - {x}"
        by (simp_all add: r(5) drop_node_def set_remove1_eq)
      moreover have "chained (v_ch v') = chained (v_ch v) - {x}" using chained_remove [OF c(3), of x] by (simp add: r(5) drop_node_def)
      ultimately show ?thesis using cl by blast
    qed
    then have "purgeable P' v'" using r(2,3) kl by (simp add: purgeable_def)
    moreover have "{e \<in> entries P v. snd e \<in> - {I_SEARCH (ns P) x}} \<subseteq> entries P' v'" unfolding r(3) by auto
    moreover have "v_fs v' \<noteq> []" using r(5,6) by (simp add: drop_node_def)
    ultimately have "purge_frame (- {I_SEARCH (ns P) x}) P v P' v'" using r(3,4,7,8) unfolding purge_frame_def by blast
    then show ?thesis using that(2) [of P' fs us] e r(1,3,5,6) key(2) False xf by simp
  qed
qed

lemma purge_frame_mono: "purge_frame R P v P' v' \<Longrightarrow> S \<subseteq> R \<Longrightarrow> purge_frame S P v P' v'"
  unfolding purge_frame_def by blast

lemma CheckAndPurge_pool:
  assumes "lru_valid (ns P) x"
  obtains P' where "CheckAndPurgeNodeEverything E (I_SEARCH (ns P) x) P = PurgeNodeEverything E (I_SEARCH (ns P) x) P'"
    "ns P' = ns P" "m_hash P' = m_hash P" "pool_same P P'"
proof (cases "dateExpireAlertTime P = 0")
  case True
  then show ?thesis using that [of P] by (simp add: CheckAndPurgeNodeEverything_def)
next
  case False
  have "\<exists>l rd. GetCmodtime E (I_SEARCH (ns P) x) P = Some (l, P\<lparr>raw_data := rd\<rparr>)"
    using valid_attrs(2) [OF assms] by (auto simp: GetCmodtime_def Let_def split: prod.split)
  then obtain l rd where g: "GetCmodtime E (I_SEARCH (ns P) x) P = Some (l, P\<lparr>raw_data := rd\<rparr>)" by blast
  let ?P = "P\<lparr>raw_data := rd\<rparr>"
  let ?P' = "if l > statLastPurgeNodeModTime ?P then ?P\<lparr>statLastPurgeNodeModTime := l, statDataExistTime := u32_sub (env_now E) l\<rparr> else ?P"
  have "CheckAndPurgeNodeEverything E (I_SEARCH (ns P) x) P = PurgeNodeEverything E (I_SEARCH (ns P) x) ?P'"
    using False g by (simp add: CheckAndPurgeNodeEverything_def)
  then show ?thesis by (rule that) (simp_all add: pool_same_def pool_conf_def)
qed

lemma purge_counted_spec:
  assumes p: "purgeable P v" and x: "x \<in> chained (v_ch v)"
  obtains P' where "purge_counted E (I_SEARCH (ns P) x) P = Some P'" "purge_frame UNIV P v P' v" "vd (ns P) x = INVALID_HANDLE"
  | P' fs us where "purge_counted E (I_SEARCH (ns P) x) P = Some P'" "purge_frame (- {I_SEARCH (ns P) x}) P v P' (drop_node x fs us v)" "fs \<noteq> []"
      "entries P' (drop_node x fs us v) = entries P v - {(node_key P x, I_SEARCH (ns P) x)}" "vd (ns P) x \<noteq> INVALID_HANDLE" "x \<in> filled P (v_ch v)"
proof -
  let ?n = "I_SEARCH (ns P) x"
  have inv: "pool_inv P v" using p by (simp add: purgeable_def)
  note c = pool_coreD [OF pool_invD(1) [OF inv]]
  have xv: "lru_valid (ns P) x" using x c(7) lists_okD(5) [OF c(6)] by blast
  obtain rows where rows: "NodeRowsCount P ?n = Some rows"
    using valid_not_null [OF xv] valid_attrs(2) [OF xv] by (simp add: NodeRowsCount_def)
  let ?r = "signed_take_bit 31 (- rows)"
  let ?P1 = "P\<lparr>ns := IncTotalRow ?r (ns P)\<rparr>"
  note co = counters_IncTotalRow [of "ns P" ?r]
  note s = counters_same [OF co] and i = counters_inv [OF co]
  have xv1: "lru_valid (ns ?P1) x" using xv s(3) by simp
  obtain P2 where c2: "CheckAndPurgeNodeEverything E (I_SEARCH (ns ?P1) x) ?P1 = PurgeNodeEverything E (I_SEARCH (ns ?P1) x) P2"
    "ns P2 = ns ?P1" "m_hash P2 = m_hash ?P1" "pool_same ?P1 P2" by (rule CheckAndPurge_pool [OF xv1, of E])
  note x2 = pool_inv_ext [OF c2(2-4)]
  have p2: "purgeable P2 v" using p i x2 by (simp add: purgeable_def)
  have same: "pool_same P P2" using c2(4) pool_same_trans [of P ?P1 P2] by simp
  have f2: "purge_frame UNIV P v P2 v" using p2 same i x2 s c2(2) by (simp add: purge_frame_def)
  have e: "purge_counted E ?n P = map_option snd (PurgeNodeEverything E (I_SEARCH (ns P2) x) P2)"
    using rows c2(1,2) s(1) by (simp add: purge_counted_def)
  have k2: "node_key P2 x = node_key P x" "I_SEARCH (ns P2) = I_SEARCH (ns P)" "vd (ns P2) = vd (ns P)" "filled P2 (v_ch v) = filled P (v_ch v)"
    using c2(2) s pool_sameD(2) [OF same] by (simp_all add: filled_def)
  show ?thesis
  proof (cases rule: PurgeNodeEverything_spec [OF p2 x, of E])
    case 1
    then show ?thesis using that(1) e f2 k2 by simp
  next
    case (2 P' fs us)
    have "purge_frame (- {?n}) P v P' (drop_node x fs us v)"
      by (rule purge_frame_trans [OF purge_frame_mono [OF f2]]) (use 2(3) k2 in simp_all)
    moreover have "entries P' (drop_node x fs us v) = entries P v - {(node_key P x, ?n)}"
      using 2(5) f2 i x2 k2 by simp
    ultimately show ?thesis using that(2) [of P' fs us] 2(1,2,4,6) e k2 by simp
  qed
qed

section \<open>Loops over the clean list\<close>

lemma clean_list:
  assumes "purgeable P v"
  shows "lru_list (ns P) (CleanLruHead P) (v_ls v 1)" "set (v_ls v 1) \<subseteq> chained (v_ch v)"
  using assms lists_okD(1) [OF pool_coreD(6) [OF pool_invD(1)], of P v 1]
  by (simp_all add: purgeable_def CleanLruHead_def CleanNodeHead_def SYS_CLEAN_NODE_INDEX_def)

lemma purge_frameD:
  assumes "purge_frame R P v P' v'"
  shows "purgeable P' v'" "CleanLruHead P' = CleanLruHead P" "walk_pos (ns P') n us = walk_pos (ns P) n us" "I_SEARCH (ns P') = I_SEARCH (ns P)"
  using assms alloc_confD(3) [of "ns P'" "ns P"]
  by (simp_all add: purge_frame_def CleanLruHead_def CleanNodeHead_def walk_pos_def)

lemma count_purge_frame [simp]: "purge_frame R P v (count_purge P') v' = purge_frame R P v P' v'"
proof -
  have s: "pool_same P' (count_purge P')" "ns (count_purge P') = ns P'" "m_hash (count_purge P') = m_hash P'"
    by (simp_all add: count_purge_def pool_same_def pool_conf_def)
  have "pool_same P (count_purge P') = pool_same P P'" by (simp add: count_purge_def pool_same_def pool_conf_def)
  then show ?thesis using pool_inv_ext [OF s(2,3,1)] by (simp add: purge_frame_def purgeable_def s)
qed

text \<open>Taking out the node the walk stands on leaves the walk in front of it.\<close>

lemma walk_drop:
  assumes "lru_list st n (us @ x # ws)" "v_ls v 1 = us @ x # ws"
  shows "v_ls (drop_node x fs us' v) 1 = us @ ws"
  using assms by (auto simp: drop_node_def lru_list_def ring_def remove1_append)

lemma pre_purge_loop_spec:
  "purgeable P v \<Longrightarrow> v_ls v 1 = us @ ws \<Longrightarrow> header = CleanLruHead P \<Longrightarrow> pos = walk_pos (ns P) header us \<Longrightarrow>
     \<exists>r' P' v'. pre_purge_loop E header reserve k pos r P = Some (r', P') \<and> purge_frame {reserve} P v P' v'"
proof (induction k arbitrary: P v us ws pos r)
  case 0
  then show ?case using purge_frame_refl by auto
next
  case (Suc k)
  note l = clean_list [OF Suc.prems(1)]
  show ?case
  proof (cases us rule: rev_cases)
    case Nil
    then show ?thesis using Suc.prems purge_frame_refl [OF Suc.prems(1)] by (auto simp: walk_pos_def)
  next
    case (snoc as x)
    have ll: "lru_list (ns P) header (as @ x # ws)" using l(1) Suc.prems(2,3) snoc by simp
    note w = walk_step [OF ll]
    have pos: "pos = I_SEARCH (ns P) x" using Suc.prems(4) snoc by (simp add: walk_pos_def)
    have xc: "x \<in> chained (v_ch v)" using l(2) Suc.prems(2) snoc by auto
    have vl: "v_ls v 1 = as @ x # ws" using Suc.prems(2) snoc by simp
    have go: "\<exists>r' P' v'. pre_purge_loop E header reserve k (walk_pos (ns P) header as) r2 P2 = Some (r', P') \<and> purge_frame {reserve} P v P' v'"
      if f: "purge_frame {reserve} P v P2 v2" and vl2: "\<exists>ws2. v_ls v2 1 = as @ ws2" for P2 v2 r2
    proof -
      note d = purge_frameD [OF f]
      obtain ws2 where ws2: "v_ls v2 1 = as @ ws2" using vl2 by blast
      have "header = CleanLruHead P2" "walk_pos (ns P) header as = walk_pos (ns P2) header as" using d Suc.prems(3) by simp_all
      from Suc.IH [OF d(1) ws2 this, of r2] show ?thesis using purge_frame_trans [OF f] by blast
    qed
    show ?thesis
    proof (cases "reserve = pos")
      case True
      then show ?thesis using go [OF purge_frame_refl [OF Suc.prems(1)], of r] vl w pos by auto
    next
      case False
      show ?thesis
      proof (cases rule: purge_counted_spec [OF Suc.prems(1) xc, of E])
        case (1 P')
        have "purge_frame {reserve} P v (count_purge P') v" using purge_frame_mono [OF 1(2)] by simp
        from go [OF this, of "r + 1"] show ?thesis using vl w pos False 1(1) by auto
      next
        case (2 P' fs us')
        have "purge_frame {reserve} P v (count_purge P') (drop_node x fs us' v)" using purge_frame_mono [OF 2(2)] pos False by simp
        from go [OF this, of "r + 1"] show ?thesis using walk_drop [OF ll vl] w pos False 2(1) by auto
      qed
    qed
  qed
qed

lemma PrePurgeNodes_spec:
  assumes "purgeable P v"
  shows "\<exists>r P' v'. PrePurgeNodes E c reserve P = Some (r, P') \<and> purge_frame {reserve} P v P' v' \<and> (c \<le> 0 \<longrightarrow> P' = P \<and> v' = v)"
proof (cases "c \<le> 0")
  case True
  then show ?thesis using purge_frame_refl [OF assms] by (simp add: PrePurgeNodes_def)
next
  case False
  let ?P = "P\<lparr>statTryPurgeCount := statTryPurgeCount P @ [c]\<rparr>"
  have s: "ns ?P = ns P" "m_hash ?P = m_hash P" "pool_same P ?P" by (simp_all add: pool_same_def pool_conf_def)
  note e = pool_inv_ext [OF s]
  have p: "purgeable ?P v" using assms e by (simp add: purgeable_def)
  then have f: "purge_frame {reserve} P v ?P v" using s e by (simp add: purge_frame_def)
  let ?pos = "walk_pos (ns ?P) (CleanLruHead ?P) (v_ls v 1)"
  obtain r P' v' where "pre_purge_loop E (CleanLruHead ?P) reserve (nat c) ?pos 0 ?P = Some (r, P')" "purge_frame {reserve} ?P v P' v'"
    using pre_purge_loop_spec [OF p append_Nil2 [symmetric] refl refl, of E reserve "nat c" 0] by blast
  then show ?thesis
    using False walk_start [OF clean_list(1) [OF p]] purge_frame_trans [OF f] by (auto simp: PrePurgeNodes_def Let_def)
qed

text \<open>\<open>DelayPurgeNotify\<close> runs the same loop, without a node that is spared.\<close>

lemma delay_purge_loop_eq:
  "delay_purge_loop E header k pos n P = map_option (\<lambda>(r, P'). (nat r, P')) (pre_purge_loop E header null_node k pos (int n) P)"
proof (induction k arbitrary: pos n P)
  case (Suc k)
  have "null_node \<noteq> pos" if "\<not> is_null_node pos" using that by auto
  then show ?case using Suc.IH [of _ "n + 1"] by (auto simp: bind_eq_Some_conv add.commute split: Option.bind_split)
qed simp

lemma try_purge_loop_spec:
  "purgeable P v \<Longrightarrow> v_ls v 1 = us @ ws \<Longrightarrow> header = CleanLruHead P \<Longrightarrow> pos = walk_pos (ns P) header us \<Longrightarrow>
     \<exists>r P' v'. try_purge_loop E sz header reserve k i pos tried P = Some (r, P') \<and> purge_frame {reserve} P v P' v'
       \<and> (r = -1 \<and> entries P' v' = entries P v \<and> v' = v
          \<or> r = 0 \<and> v_fs v' \<noteq> [] \<and> (\<exists>e\<in>entries P v. entries P' v' = entries P v - {e}))"
proof (induction k arbitrary: us ws pos i tried)
  have stop: "purge_frame {reserve} P v (P\<lparr>need_purge_node_count := j\<rparr>) v \<and> entries (P\<lparr>need_purge_node_count := j\<rparr>) v = entries P v"
    if "purgeable P v" for j
  proof -
    let ?P = "P\<lparr>need_purge_node_count := j\<rparr>"
    have s: "ns ?P = ns P" "m_hash ?P = m_hash P" "pool_same P ?P" by (simp_all add: pool_same_def pool_conf_def)
    show ?thesis using that pool_inv_ext [OF s] s by (simp add: purge_frame_def purgeable_def)
  qed
  {
    case 0
    then show ?case using stop by auto
  next
    case (Suc k)
    note l = clean_list [OF Suc.prems(1)]
    show ?case
    proof (cases us rule: rev_cases)
      case Nil
      then show ?thesis using Suc.prems stop [OF Suc.prems(1)] by (auto simp: walk_pos_def)
    next
      case (snoc as x)
      have ll: "lru_list (ns P) header (as @ x # ws)" using l(1) Suc.prems(2,3) snoc by simp
      note w = walk_step [OF ll]
      have pos: "pos = I_SEARCH (ns P) x" using Suc.prems(4) snoc by (simp add: walk_pos_def)
      have xc: "x \<in> chained (v_ch v)" using l(2) Suc.prems(2) snoc by auto
      have vl: "v_ls v 1 = as @ x # ws" using Suc.prems(2) snoc by simp
      have xv: "lru_valid (ns P) x" using ll by (auto simp: lru_list_def)
      note go = Suc.IH [OF Suc.prems(1) vl Suc.prems(3) refl]
      show ?thesis
      proof (cases "ni_used_node (ni (ns P)) < 10")
        case True
        then show ?thesis using stop [OF Suc.prems(1)] by auto
      next
        case used: False
        show ?thesis
        proof (cases "pos = reserve \<or> vd (ns P) x = INVALID_HANDLE \<or> DC_AskForDestroySize (bm (ns P)) (vd (ns P) x) < sz")
          case True
          then show ?thesis using go w pos used valid_attrs(2) [OF xv] by auto
        next
          case False
          show ?thesis
          proof (cases rule: purge_counted_spec [OF Suc.prems(1) xc, of E])
            case 1
            then show ?thesis using False by simp
          next
            case (2 P' fs us')
            let ?P = "P'\<lparr>need_purge_node_count := i\<rparr>"
            have s: "ns ?P = ns P'" "m_hash ?P = m_hash P'" "pool_same P' ?P" "pool_same P ?P = pool_same P P'" by (simp_all add: pool_same_def pool_conf_def)
            note e = pool_inv_ext [OF s(1-3)]
            have "purge_frame {reserve} P v ?P (drop_node x fs us' v)"
              using purge_frame_mono [OF 2(2), of "{reserve}"] pos False s e by (simp add: purge_frame_def purgeable_def)
            then have f: "purge_frame {reserve} P v (count_purge ?P) (drop_node x fs us' v)" by simp
            have "entries (count_purge ?P) w = entries P' w" for w
              using pool_inv_ext(2) [of "count_purge ?P" P' w] by (simp add: count_purge_def pool_same_def pool_conf_def)
            moreover have "(node_key P x, I_SEARCH (ns P) x) \<in> entries P v" using 2(6) by (auto simp: entries_def)
            ultimately have "\<exists>e\<in>entries P v. entries (count_purge ?P) (drop_node x fs us' v) = entries P v - {e}" using 2(4) by auto
            moreover have "v_fs (drop_node x fs us' v) \<noteq> []" using 2(3) by (simp add: drop_node_def)
            ultimately show ?thesis using f 2(1) w pos used False valid_attrs(2) [OF xv] by auto
          qed
        qed
      qed
    qed
  }
qed

lemma TryPurgeSize_spec:
  assumes "purgeable P v"
  shows "\<exists>r P' v'. TryPurgeSize E sz reserve c P = Some (r, P') \<and> purge_frame {reserve} P v P' v' \<and> (r = -1 \<or> r = 0 \<and> v_fs v' \<noteq> [])
     \<and> (env_pre_purge_nodes E \<le> 0 \<longrightarrow> r = -1 \<and> entries P' v' = entries P v \<or> r = 0 \<and> (\<exists>e\<in>entries P v. entries P' v' = entries P v - {e}))"
proof (cases "disableTryPurge P")
  case True
  then show ?thesis using purge_frame_refl [OF assms] by (auto simp: TryPurgeSize_def)
next
  case False
  obtain r1 P1 v1 where p: "PrePurgeNodes E (env_pre_purge_nodes E) reserve P = Some (r1, P1)" "purge_frame {reserve} P v P1 v1"
    "env_pre_purge_nodes E \<le> 0 \<longrightarrow> P1 = P \<and> v1 = v"
    using PrePurgeNodes_spec [OF assms] by metis
  note d = purge_frameD [OF p(2)]
  let ?pos = "walk_pos (ns P1) (CleanLruHead P1) (v_ls v1 1)"
  obtain r P' v' where t: "try_purge_loop E sz (CleanLruHead P1) reserve c 0 ?pos 0 P1 = Some (r, P')" "purge_frame {reserve} P1 v1 P' v'"
    "r = -1 \<and> entries P' v' = entries P1 v1 \<or> r = 0 \<and> v_fs v' \<noteq> [] \<and> (\<exists>e\<in>entries P1 v1. entries P' v' = entries P1 v1 - {e})"
    using try_purge_loop_spec [OF d(1) append_Nil2 [symmetric] refl refl, of E sz reserve c 0 0] by blast
  have "TryPurgeSize E sz reserve c P = Some (r, P')"
    using False p(1) t(1) walk_start [OF clean_list(1) [OF d(1)]] by (simp add: TryPurgeSize_def)
  then show ?thesis using purge_frame_trans [OF p(2) t(2)] t(3) p(3) by auto
qed

section \<open>Time markers\<close>

text \<open>The walk back through the dirty list ends at its last marker.\<close>

definition marker :: "node_store \<Rightarrow> nat \<Rightarrow> bool" where
  "marker st x \<longleftrightarrow> nx st x = TIME_MARKER_NEXT_NODE_ID"

lemma find_marker_back:
  "lru_list st header (us @ ws) \<Longrightarrow> find_marker (node_Prev st) st header (walk_pos st header us)
     = Some (if \<exists>x\<in>set us. marker st x then I_SEARCH st (last (filter (marker st) us)) else null_node)"
proof (induction us arbitrary: ws rule: rev_induct)
  case Nil
  then show ?case by (subst find_marker.simps) (simp add: walk_pos_def)
next
  case (snoc x us)
  have l: "lru_list st header (us @ x # ws)" using snoc.prems by simp
  note w = walk_step [OF l]
  have "lru_valid st x" using l by (simp add: lru_list_def)
  then have "IsTimeMarker st (I_SEARCH st x) = Some (marker st x)" using valid_attrs(1) by (simp add: IsTimeMarker_def marker_def)
  then show ?case using w snoc.IH [OF l] by (subst find_marker.simps) (simp add: walk_pos_def)
qed

lemma LastTimeMarker_spec:
  assumes "pool_inv P v"
  shows "LastTimeMarker P = Some (if \<exists>x\<in>set (v_ls v 0). marker (ns P) x
    then I_SEARCH (ns P) (last (filter (marker (ns P)) (v_ls v 0))) else null_node)"
proof -
  have l: "lru_list (ns P) (DirtyNodeHead (ns P)) (v_ls v 0)"
    using lists_okD(1) [OF pool_coreD(6) [OF pool_invD(1) [OF assms]], of 0] by (simp add: DirtyNodeHead_def SYS_DIRTY_NODE_INDEX_def)
  then show ?thesis using walk_start [OF l] find_marker_back [of "ns P" _ "v_ls v 0" "[]"] by (simp add: LastTimeMarker_def)
qed

end
