(* ===== verification/Cache_Process.thy ===== *)
theory Cache_Process
  imports Cache_Purge
begin

text \<open>
  The transaction on a node of the pool, \<open>cache/cache_process.h\<close> (struct \<open>CCacheTransation\<close>) and the head of
  \<open>cache/cache_process.cc\<close>: finding the node of a request, moving it between the LRU lists, and
  making room for a new node.  The key and the answer of the filter of empty keys come with the request.

  While \<open>InsertEmptyNode\<close> purges nodes there is no current node, and while \<open>TransationEnd\<close> does,
  \<open>nodeEmpty\<close> is not set: there \<open>PurgeNodeNotify\<close>, which the pool calls back, changes nothing of
  the pool.  The two logs it writes are not modelled.
\<close>

datatype node_stat = NODESTAT_MISSING | NODESTAT_EMPTY | NODESTAT_PRESENT

definition LRU_NONE :: nat where "LRU_NONE = 0"
definition LRU_BATCH :: nat where "LRU_BATCH = 1"
definition LRU_READ :: nat where "LRU_READ = 2"
definition LRU_WRITE :: nat where "LRU_WRITE = 3"
definition LRU_ALWAYS :: nat where "LRU_ALWAYS = 999"

record cache_process =
  Cache :: cache_pool
  ptrKey :: "nat list"
  m_stNode :: CNode
  oldRows :: int
  nodeStat :: node_stat
  keyDirty :: bool
  nodeEmpty :: bool
  lruUpdate :: nat
  noLRU :: int

definition node_IsDirty :: "node_store \<Rightarrow> CNode \<Rightarrow> bool option" where
  "node_IsDirty st n = (if c_owner n = INVALID_HANDLE then None else Some (IsDirty (m_ng st (c_owner n)) (c_index n)))"

definition node_SetDirty :: "CNode \<Rightarrow> node_store \<Rightarrow> node_store option" where
  "node_SetDirty n st = (if c_owner n = INVALID_HANDLE then None else Some (upd_ng (c_owner n) (SetDirty (c_index n)) st))"

definition Transation_Free :: "cache_process \<Rightarrow> cache_process" where
  "Transation_Free T = T\<lparr>ptrKey := [], m_stNode := null_node, nodeStat := NODESTAT_MISSING, keyDirty := False,
     oldRows := 0, nodeEmpty := False, lruUpdate := 0\<rparr>"

definition DisableLRUUpdate :: "int \<Rightarrow> cache_process \<Rightarrow> cache_process" where
  "DisableLRUUpdate level T =
     (let l1 = (if level > int LRU_WRITE then int LRU_WRITE else level); l2 = (if l1 < 0 then 0 else l1) in T\<lparr>noLRU := l2\<rparr>)"

definition TransationFindNode :: "nat list \<Rightarrow> bool \<Rightarrow> cache_process \<Rightarrow> (node_stat \<times> cache_process) option" where
  "TransationFindNode key filtered T =
     (let T0 = T\<lparr>ptrKey := key\<rparr>; P = Cache T0 in
      if filtered then Some (NODESTAT_EMPTY, T0\<lparr>m_stNode := null_node, nodeStat := NODESTAT_EMPTY\<rparr>)
      else do {
        (n, P1) \<leftarrow>
          (if hashChanging P
           then let oldhash = \<not> targetNewHash P; newhash = targetNewHash P
                in do {
                  (n, P1) \<leftarrow> CacheFind key oldhash P;
                  if is_null_node n then CacheFind key newhash P1
                  else do { P2 \<leftarrow> MoveToNewHash key n P1; Some (n, P2) }
                }
           else CacheFind key (targetNewHash P) P);
        let T1 = T0\<lparr>m_stNode := n, Cache := P1\<rparr>;
        if is_null_node n then Some (NODESTAT_MISSING, T1\<lparr>nodeStat := NODESTAT_MISSING\<rparr>)
        else do {
          d \<leftarrow> node_IsDirty (ns P1) n;
          rows \<leftarrow> NodeRowsCount P1 n;
          Some (NODESTAT_PRESENT, T1\<lparr>keyDirty := d, oldRows := rows, nodeEmpty := (\<not> d \<and> rows = 0), nodeStat := NODESTAT_PRESENT\<rparr>)
        }
      })"

definition TransationUpdateLRU :: "bool \<Rightarrow> nat \<Rightarrow> cache_process \<Rightarrow> cache_process option" where
  "TransationUpdateLRU async level T =
     (if keyDirty T then Some T
      else if async
      then do {
        st1 \<leftarrow> node_SetDirty (m_stNode T) (ns (Cache T));
        let st2 = IncDirtyNode 1 st1;
        st3 \<leftarrow> RemoveFromLru (m_stNode T) st2;
        st4 \<leftarrow> Insert2DirtyLru (m_stNode T) st3;
        let T1 = T\<lparr>Cache := (Cache T)\<lparr>ns := st4\<rparr>\<rparr>;
        let T2 = (if nodeEmpty T1 then T1\<lparr>Cache := pool_DecEmptyNode (Cache T1), nodeEmpty := False\<rparr> else T1);
        Some (T2\<lparr>lruUpdate := LRU_NONE\<rparr>)
      }
      else Some (T\<lparr>lruUpdate := u8 level\<rparr>))"

definition TransationEnd :: "pool_env \<Rightarrow> cache_process \<Rightarrow> cache_process option" where
  "TransationEnd E T = do {
     T1 \<leftarrow> (if is_null_node (m_stNode T) \<or> keyDirty T then Some T
       else do {
         d \<leftarrow> node_IsDirty (ns (Cache T)) (m_stNode T);
         if d then Some T
         else do {
           newRows \<leftarrow> NodeRowsCount (Cache T) (m_stNode T);
           if int (lruUpdate T) > noLRU T \<or> (newRows = 0) \<noteq> nodeEmpty T
           then do {
             st1 \<leftarrow> RemoveFromLru (m_stNode T) (ns (Cache T));
             if newRows = 0
             then do {
               P1 \<leftarrow> pool_Insert2EmptyLru (m_stNode T) ((Cache T)\<lparr>ns := st1\<rparr>);
               if \<not> nodeEmpty T
               then do { P2 \<leftarrow> pool_IncEmptyNode E P1; Some (T\<lparr>Cache := P2, nodeEmpty := True\<rparr>) }
               else Some (T\<lparr>Cache := P1\<rparr>)
             }
             else do {
               st2 \<leftarrow> Insert2CleanLru (m_stNode T) st1;
               let P1 = (Cache T)\<lparr>ns := st2\<rparr>;
               Some (if nodeEmpty T then T\<lparr>Cache := pool_DecEmptyNode P1, nodeEmpty := False\<rparr> else T\<lparr>Cache := P1\<rparr>)
             }
           }
           else Some T
         }
       });
     Some (Transation_Free T1)
   }"

definition PurgeNodeNotify :: "CNode \<Rightarrow> cache_process \<Rightarrow> cache_process" where
  "PurgeNodeNotify n T =
     (if is_null_node n then T
      else if n = m_stNode T
      then (if nodeEmpty T then T\<lparr>Cache := pool_DecEmptyNode (Cache T), nodeEmpty := False\<rparr> else T)\<lparr>m_stNode := null_node\<rparr>
      else T)"

text \<open>The loop tries twice; between the tries it asks the pool for room.\<close>

fun insert_empty_loop :: "pool_env \<Rightarrow> nat \<Rightarrow> cache_process \<Rightarrow> cache_process option" where
  "insert_empty_loop E 0 T = Some T"
| "insert_empty_loop E (Suc k) T = do {
     (n, P) \<leftarrow> CacheAllocate (ptrKey T) (Cache T);
     let T1 = T\<lparr>m_stNode := n, Cache := P\<rparr>;
     if \<not> is_null_node n then Some T1
     else do {
       (r, P1) \<leftarrow> TryPurgeSize E 1 n 2500 P;
       let T2 = T1\<lparr>Cache := P1\<rparr>;
       if r \<noteq> 0 then Some T2 else insert_empty_loop E k T2
     }
   }"

definition InsertEmptyNode :: "pool_env \<Rightarrow> cache_process \<Rightarrow> (bool \<times> cache_process) option" where
  "InsertEmptyNode E T = do {
     T1 \<leftarrow> insert_empty_loop E 2 T;
     if is_null_node (m_stNode T1) then Some (False, T1)
     else do {
       st \<leftarrow> store_VDHandle (m_stNode T1) INVALID_HANDLE (ns (Cache T1));
       Some (True, T1\<lparr>Cache := (Cache T1)\<lparr>ns := st\<rparr>, nodeEmpty := False\<rparr>)
     }
   }"

text \<open>The last block of \<open>cache_open\<close>, which brings the list of empty nodes into line with the configuration.\<close>

definition open_empty_lists :: "pool_env \<Rightarrow> bool \<Rightarrow> int \<Rightarrow> cache_process \<Rightarrow> cache_process option" where
  "open_empty_lists E fullMode nodeEmptyLimit T =
     (if fullMode
      then do { (_, P1) \<leftarrow> PruneEmptyNodeList E (Cache T); Some (T\<lparr>Cache := P1\<rparr>) }
      else if nodeEmptyLimit \<noteq> 0
      then do {
        let P0 = SetEmptyNodeLimit nodeEmptyLimit (Cache T);
        (_, P1) \<leftarrow> InitEmptyNodeList P0;
        (_, P2) \<leftarrow> UpgradeEmptyNodeList P1;
        (_, P3) \<leftarrow> ShrinkEmptyNodeList E P2;
        Some (T\<lparr>Cache := P3\<rparr>)
      }
      else do { (_, P1) \<leftarrow> MergeEmptyNodeList (Cache T); Some (T\<lparr>Cache := P1\<rparr>) })"

end
