(* ===== verification/Cache_Process_Ops.thy ===== *)
theory Cache_Process_Ops
  imports Cache_Purge_Ops Cache_Process
begin

text \<open>
  Moving a node between the LRU lists, and the end of a transaction, which does so.
\<close>

section \<open>Moving a node\<close>

text \<open>A store in which the nodes have the data they had.\<close>

lemma store_same_data:
  assumes "I_SEARCH st = I_SEARCH (ns P)" "vd st = vd (ns P)" "bm st = bm (ns P)" "ngInfo st = ngInfo (ns P)"
  shows "data_ok (P\<lparr>ns := st\<rparr>) G ch = data_ok P G ch" "entries (P\<lparr>ns := st\<rparr>) v = entries P v"
proof -
  let ?P = "P\<lparr>ns := st\<rparr>"
  have h: "home ?P b k = home P b k" for b k by (rule home_same) simp
  have fl: "filled ?P ch = filled P ch" for ch by (simp add: filled_def assms)
  show "data_ok ?P G ch = data_ok P G ch" by (simp add: data_ok_def fl chunk_ok_def assms h)
  show "entries ?P v = entries P v" by (simp add: entries_def fl assms)
qed

definition relisted :: "nat \<Rightarrow> nat \<Rightarrow> (nat \<Rightarrow> nat list) \<Rightarrow> nat \<Rightarrow> nat list" where
  "relisted k x ls = (\<lambda>j. remove1 x (ls j))(k := x # remove1 x (ls k))"

lemma relisted_listed:
  assumes "lists_ok st fs us ls" "x \<in> listed ls" "k < 3"
  shows "listed (relisted k x ls) = listed ls"
  using listed_remove [OF assms(1), of x] listed_push [OF assms(3), of "\<lambda>j. remove1 x (ls j)" x] assms(2) by (auto simp: relisted_def)

lemma relisted_set: "set (relisted k x ls j) \<subseteq> insert x (set (ls j))"
  using set_remove1_subset [of x "ls j"] by (auto simp: relisted_def)

lemma lists_ok_removed:
  assumes inv: "ns_inv st fs us" and ok: "lists_ok st fs us ls" and lo: "links_only st st1"
    and l1: "\<And>k. k < 3 \<Longrightarrow> lru_list st1 (sys_node st1 k) (remove1 x (ls k))"
  shows "lists_ok st1 fs us (\<lambda>k. remove1 x (ls k))"
proof -
  note d = lists_okD [OF ok] and s = links_only_same [OF lo]
  have "set (remove1 x (ls k)) \<inter> set (remove1 x (ls l)) = {}" if "k < 3" "l < 3" "k \<noteq> l" for k l
    using d(2) [OF that(1,2)] that(3) set_remove1_subset [of x] by blast
  moreover have "I_SEARCH st1 y \<in> ns_used st1 fs us" if "y \<in> listed (\<lambda>k. remove1 x (ls k))" for y
    using that d(3) [of y] listed_remove [OF ok, of x] links_only_inv(2) [OF lo inv] s(1) by auto
  ultimately show ?thesis using l1 d(4) by (simp add: lists_ok_def s)
qed

lemma relist_spec:
  assumes inv: "pool_inv P v" and x: "x \<in> listed (v_ls v)" and k: "k < 3"
  obtains st1 st2 where "RemoveFromLru (I_SEARCH (ns P) x) (ns P) = Some st1" "lists_ok st1 (v_fs v) (v_us v) (\<lambda>j. remove1 x (v_ls v j))"
    "ns_inv st1 (v_fs v) (v_us v)" "NODE_LIST_ADD (I_SEARCH (ns P) x) (sys_node st1 k) st1 = Some st2" "links_only (ns P) st2"
    "pool_inv (P\<lparr>ns := st2\<rparr>) (v\<lparr>v_ls := relisted k x (v_ls v)\<rparr>)" "entries (P\<lparr>ns := st2\<rparr>) (v\<lparr>v_ls := relisted k x (v_ls v)\<rparr>) = entries P v"
proof -
  note c = pool_coreD [OF pool_invD(1) [OF inv]] and d = lists_okD [OF pool_coreD(6) [OF pool_invD(1) [OF inv]]]
  let ?n = "I_SEARCH (ns P) x"
  obtain st1 where r: "RemoveFromLru ?n (ns P) = Some st1" "links_only (ns P) st1" "lru_frame (ns P) st1"
    "\<And>k. k < 3 \<Longrightarrow> lru_list st1 (sys_node st1 k) (remove1 x (v_ls v k))" by (rule RemoveFromLru_spec [OF c(1,6) x]) blast
  note ok1 = lists_ok_removed [OF c(1,6) r(2,4)] and i1 = links_only_inv [OF r(2) c(1)] and s1 = links_only_same [OF r(2)]
  have id: "NodeID st1 ?n = x" using valid_attrs(3) [OF d(5) [OF x]] s1(2) by simp
  have n: "?n \<in> ns_used st1 (v_fs v) (v_us v)" "NodeID st1 ?n \<notin> listed (\<lambda>j. remove1 x (v_ls v j))"
    using i1(2) d(3) [OF x] listed_remove [OF c(6)] id by auto
  obtain st2 where a: "NODE_LIST_ADD ?n (sys_node st1 k) st1 = Some st2" "links_only st1 st2" "lru_frame st1 st2"
    "lists_ok st2 (v_fs v) (v_us v) (relisted k x (v_ls v))"
    using Insert2Lru_spec [OF i1(1) ok1 n k] unfolding id relisted_def by metis
  have lo: "links_only (ns P) st2" by (rule links_only_trans [OF r(2) a(2)])
  note s = links_only_same [OF lo] and i = links_only_inv [OF lo c(1)] and f = lru_frame_attrs [OF lru_frame_trans [OF r(3) a(3)]]
  let ?P = "P\<lparr>ns := st2\<rparr>" and ?v = "v\<lparr>v_ls := relisted k x (v_ls v)\<rparr>"
  have "chains_ok ?P (v_ch v)" by (rule chains_ok_store [OF c(3)]) (use c(7) d(5) s(3) f in auto)
  then have "pool_core ?P ?v" using c i a(4) s(5) relisted_listed [OF c(6) x k] by (simp add: pool_core_def)
  moreover have "groups st2 fs us = groups (ns P) fs us" for fs us using s(6,7) by (simp add: groups_def)
  ultimately have "pool_inv ?P ?v" using pool_invD(2) [OF inv] store_same_data(1) [OF s(1) f(2) s(5,6)] by (simp add: pool_inv_def)
  moreover have "entries ?P ?v = entries P v" using store_same_data(2) [OF s(1) f(2) s(5,6)] by (simp add: entries_def)
  ultimately show ?thesis using that r(1) ok1 i1(1) a(1) lo by blast
qed

lemma relist_frame:
  assumes p: "purgeable P v" and x: "x \<in> chained (v_ch v)" and k: "k < 3"
  obtains st1 st2 where "RemoveFromLru (I_SEARCH (ns P) x) (ns P) = Some st1"
    "k = 1 \<Longrightarrow> Insert2CleanLru (I_SEARCH (ns P) x) st1 = Some st2" "k = 2 \<Longrightarrow> Insert2EmptyLru (I_SEARCH (ns P) x) st1 = Some st2"
    "k = 0 \<Longrightarrow> Insert2DirtyLru (I_SEARCH (ns P) x) st1 = Some st2"
    "purge_frame UNIV P v (P\<lparr>ns := st2\<rparr>) (v\<lparr>v_ls := relisted k x (v_ls v)\<rparr>)"
    "entries (P\<lparr>ns := st2\<rparr>) (v\<lparr>v_ls := relisted k x (v_ls v)\<rparr>) = entries P v" "links_only (ns P) st2"
proof -
  have inv: "pool_inv P v" and cl: "set (v_ls v 1) \<union> set (v_ls v 2) \<subseteq> chained (v_ch v)" and kl: "\<forall>e\<in>entries P v. length (fst e) \<le> 256"
    using p by (simp_all add: purgeable_def)
  have xl: "x \<in> listed (v_ls v)" using x pool_coreD(7) [OF pool_invD(1) [OF inv]] by blast
  obtain st1 st2 where r: "RemoveFromLru (I_SEARCH (ns P) x) (ns P) = Some st1" "lists_ok st1 (v_fs v) (v_us v) (\<lambda>j. remove1 x (v_ls v j))"
    "ns_inv st1 (v_fs v) (v_us v)" "NODE_LIST_ADD (I_SEARCH (ns P) x) (sys_node st1 k) st1 = Some st2" "links_only (ns P) st2"
    "pool_inv (P\<lparr>ns := st2\<rparr>) (v\<lparr>v_ls := relisted k x (v_ls v)\<rparr>)" "entries (P\<lparr>ns := st2\<rparr>) (v\<lparr>v_ls := relisted k x (v_ls v)\<rparr>) = entries P v"
    by (rule relist_spec [OF inv xl k])
  note s = links_only_same [OF r(5)]
  have "set (relisted k x (v_ls v) 1) \<union> set (relisted k x (v_ls v) 2) \<subseteq> chained (v_ch v)"
    using cl x relisted_set [of k x "v_ls v" 1] relisted_set [of k x "v_ls v" 2] by blast
  then have "purgeable (P\<lparr>ns := st2\<rparr>) (v\<lparr>v_ls := relisted k x (v_ls v)\<rparr>)" using r(6,7) kl by (simp add: purgeable_def)
  moreover have "alloc_conf st2 = alloc_conf (ns P)" using s by (simp add: alloc_conf_def)
  ultimately have "purge_frame UNIV P v (P\<lparr>ns := st2\<rparr>) (v\<lparr>v_ls := relisted k x (v_ls v)\<rparr>)" using r(7) s(1) by (simp add: purge_frame_def)
  then show ?thesis by (intro that [OF r(1) _ _ _ _ r(7,5)]) (use r(4) Insert2Lru_head [OF r(3,2)] in simp_all)
qed

section \<open>The end of the empty list\<close>

lemma purge_frame_counters:
  assumes "counters_only (ns P') st"
  shows "purge_frame R P v (P'\<lparr>ns := st\<rparr>) v' = purge_frame R P v P' v'"
proof -
  note s = counters_same [OF assms] and i = counters_inv [OF assms]
  have "pool_same P (P'\<lparr>ns := st\<rparr>) = pool_same P P'" by (simp add: pool_same_def pool_conf_def)
  then show ?thesis using s(1,11) by (simp add: purge_frame_def purgeable_def i)
qed

lemma entries_of_node:
  assumes "pool_inv P v" "x \<in> chained (v_ch v)"
  shows "{e \<in> entries P v. snd e = I_SEARCH (ns P) x} = (if vd (ns P) x = INVALID_HANDLE then {} else {(node_key P x, I_SEARCH (ns P) x)})"
proof -
  note c = pool_coreD [OF pool_invD(1) [OF assms(1)]]
  have "lru_valid (ns P) y" if "y \<in> chained (v_ch v)" for y using that c(7) lists_okD(5) [OF c(6)] by blast
  then have "I_SEARCH (ns P) y = I_SEARCH (ns P) x \<longleftrightarrow> y = x" if "y \<in> chained (v_ch v)" for y
    using that assms(2) valid_node_eq [of "ns P" y x] by simp
  then show ?thesis using assms(2) by (auto simp: entries_def filled_def)
qed

lemma empty_list:
  assumes "purgeable P v"
  shows "lru_list (ns P) (EmptyNodeHead (ns P)) (v_ls v 2)" "set (v_ls v 2) \<subseteq> chained (v_ch v)"
  using assms lists_okD(1) [OF pool_coreD(6) [OF pool_invD(1)], of P v 2]
  by (simp_all add: purgeable_def EmptyNodeHead_def SYS_EMPTY_NODE_INDEX_def)

lemma empty_purge:
  assumes p: "purgeable P v" and l: "v_ls v 2 = us @ x # ws"
  obtains P1 v1 ws1 where "PurgeNodeEverything E (I_SEARCH (ns P) x) P = Some (0, P1)" "purge_frame {} P v P1 v1"
    "v_ls v1 2 = us @ ws1" "entries P1 v1 = {e \<in> entries P v. snd e \<noteq> I_SEARCH (ns P) x}"
proof -
  have inv: "pool_inv P v" using p by (simp add: purgeable_def)
  have xc: "x \<in> chained (v_ch v)" using empty_list(2) [OF p] l by auto
  have en: "{e \<in> entries P v. snd e \<noteq> I_SEARCH (ns P) x} = entries P v - {e \<in> entries P v. snd e = I_SEARCH (ns P) x}" by blast
  show ?thesis
  proof (cases rule: PurgeNodeEverything_spec [OF p xc, of E])
    case 1
    then show ?thesis using that [OF 1(1) purge_frame_refl [OF p] l] en entries_of_node [OF inv xc] by simp
  next
    case (2 P' fs us')
    have "v_ls (drop_node x fs us' v) 2 = us @ ws" using empty_list(1) [OF p] l by (auto simp: drop_node_def lru_list_def ring_def remove1_append)
    then show ?thesis using that [OF 2(1) purge_frame_mono [OF 2(3)]] 2(2,5) en entries_of_node [OF inv xc] by simp
  qed
qed

lemma frame_IncEmptyNode:
  assumes "purge_frame R P v P' v'"
  shows "purge_frame R P v (P'\<lparr>ns := IncEmptyNode i (ns P')\<rparr>) v'" "entries (P'\<lparr>ns := IncEmptyNode i (ns P')\<rparr>) v' = entries P' v'"
  using assms purge_frame_counters [OF counters_IncEmptyNode] counters_inv(2) [OF counters_IncEmptyNode] by simp_all

lemma PurgeSingleEmptyNode_spec:
  assumes p: "purgeable P v"
  shows "\<exists>P' v'. PurgeSingleEmptyNode E P = Some (0, P') \<and> purge_frame {} P v P' v'
    \<and> entries P' v' = (if v_ls v 2 = [] then entries P v else {e \<in> entries P v. snd e \<noteq> I_SEARCH (ns P) (last (v_ls v 2))})"
proof -
  let ?h = "EmptyNodeHead (ns P)"
  note l = empty_list(1) [OF p]
  note w = walk_start [OF l]
  show ?thesis
  proof (cases "v_ls v 2" rule: rev_cases)
    case Nil
    then show ?thesis using w purge_frame_refl [OF p] by (auto simp: PurgeSingleEmptyNode_def walk_pos_def)
  next
    case (snoc us x)
    note st = walk_step [of "ns P" ?h us x "[]", OF l [unfolded snoc]]
    obtain P1 v1 where e: "PurgeNodeEverything E (I_SEARCH (ns P) x) P = Some (0, P1)" "purge_frame {} P v P1 v1"
      "entries P1 v1 = {e \<in> entries P v. snd e \<noteq> I_SEARCH (ns P) x}" by (rule empty_purge [OF p snoc])
    have "PurgeSingleEmptyNode E P = Some (0, P1\<lparr>ns := IncEmptyNode (-1) (ns P1)\<rparr>)"
      using w st snoc e(1) by (auto simp: PurgeSingleEmptyNode_def walk_pos_def)
    then show ?thesis using frame_IncEmptyNode [OF e(2)] e(3) snoc by (intro exI [of _ "P1\<lparr>ns := IncEmptyNode (-1) (ns P1)\<rparr>"] exI [of _ v1]) simp
  qed
qed

section \<open>Startup\<close>

text \<open>The walks over the list of empty nodes when the pool starts.\<close>

lemma count_empty_spec:
  "lru_list st header (us @ ws) \<Longrightarrow> count_empty st header (walk_pos st header us) c = Some (c + int (length us))"
proof (induction us arbitrary: ws c rule: rev_induct)
  case Nil
  then show ?case by (subst count_empty.simps) (simp add: walk_pos_def)
next
  case (snoc x us)
  have l: "lru_list st header (us @ x # ws)" using snoc.prems by simp
  note w = walk_step [OF l]
  show ?case using w snoc.IH [OF l, of "c + 1"] by (subst count_empty.simps) (simp add: walk_pos_def)
qed

lemma InitEmptyNodeList_spec:
  assumes "purgeable P v"
  shows "InitEmptyNodeList P
    = Some (0, if emptyStartupMode (ns P) = ATTACHED then P\<lparr>ns := IncEmptyNode (int (length (v_ls v 2))) (ns P)\<rparr> else P)"
  using walk_start [OF empty_list(1) [OF assms]] count_empty_spec [of "ns P" _ "v_ls v 2" "[]" 0] empty_list(1) [OF assms]
  by (simp add: InitEmptyNodeList_def)

lemma relisted_move:
  assumes ok: "lists_ok st fs us ls" and e: "ls j = as @ x # ws" "j < 3" "k < 3" "k \<noteq> j"
  shows "relisted k x ls j = as @ ws" "relisted k x ls k = x # ls k" "\<And>i. i < 3 \<Longrightarrow> i \<noteq> j \<Longrightarrow> i \<noteq> k \<Longrightarrow> relisted k x ls i = ls i"
proof -
  note d = lists_okD [OF ok]
  have "distinct (ls j)" using d(1) [OF e(2)] by (simp add: lru_list_def ring_def)
  then show "relisted k x ls j = as @ ws" using e by (auto simp: relisted_def remove1_append)
  have x: "x \<notin> set (ls i)" if "i < 3" "i \<noteq> j" for i using d(2) [OF that(1) e(2), of x] that e(1) by auto
  then show "relisted k x ls k = x # ls k" using e(3,4) by (simp add: relisted_def remove1_idem)
  show "relisted k x ls i = ls i" if "i < 3" "i \<noteq> j" "i \<noteq> k" for i using x that by (simp add: relisted_def remove1_idem)
qed

lemma purge_frame_empty_head: "purge_frame R P v P' v' \<Longrightarrow> EmptyNodeHead (ns P') = EmptyNodeHead (ns P)"
  using alloc_confD(3) [of "ns P'" "ns P"] by (simp add: purge_frame_def EmptyNodeHead_def)

lemma merge_loop_spec:
  "purgeable P v \<Longrightarrow> v_ls v 2 = us \<Longrightarrow> header = EmptyNodeHead (ns P) \<Longrightarrow>
     \<exists>P' v'. merge_loop header (walk_pos (ns P) header us) P = Some P' \<and> purge_frame UNIV P v P' v'
       \<and> v_ls v' 0 = v_ls v 0 \<and> v_ls v' 1 = us @ v_ls v 1 \<and> v_ls v' 2 = [] \<and> v_ch v' = v_ch v"
proof (induction us arbitrary: P v rule: rev_induct)
  case Nil
  then show ?case using purge_frame_refl [OF Nil(1)] by (subst merge_loop.simps) (auto simp: walk_pos_def)
next
  case (snoc x us)
  have l: "lru_list (ns P) header (us @ x # [])" and xc: "x \<in> chained (v_ch v)"
    using empty_list [OF snoc.prems(1)] snoc.prems(2,3) by auto
  have ok: "lists_ok (ns P) (v_fs v) (v_us v) (v_ls v)" using snoc.prems(1) pool_coreD(6) [OF pool_invD(1)] by (simp add: purgeable_def)
  note w = walk_step [OF l] and rl = relisted_move [OF ok, of 2 us x "[]" 1] snoc.prems(2)
  let ?v = "v\<lparr>v_ls := relisted 1 x (v_ls v)\<rparr>"
  obtain st1 st2 where r: "RemoveFromLru (I_SEARCH (ns P) x) (ns P) = Some st1" "Insert2CleanLru (I_SEARCH (ns P) x) st1 = Some st2"
    "purge_frame UNIV P v (P\<lparr>ns := st2\<rparr>) ?v" by (rule relist_frame [OF snoc.prems(1) xc, of 1]) auto
  note d = purge_frameD [OF r(3)]
  have "header = EmptyNodeHead (ns (P\<lparr>ns := st2\<rparr>))" using purge_frame_empty_head [OF r(3)] snoc.prems(3) by simp
  from snoc.IH [OF d(1) _ this] rl obtain P' v' where i: "merge_loop header (walk_pos (ns P) header us) (P\<lparr>ns := st2\<rparr>) = Some P'"
    "purge_frame UNIV (P\<lparr>ns := st2\<rparr>) ?v P' v'" "v_ls v' 0 = v_ls v 0" "v_ls v' 1 = us @ x # v_ls v 1" "v_ls v' 2 = []" "v_ch v' = v_ch v"
    using d(3) by auto
  have "merge_loop header (walk_pos (ns P) header (us @ [x])) P = Some P'"
    using w r(1,2) i(1) by (subst merge_loop.simps) (simp add: walk_pos_def)
  then show ?case using purge_frame_trans [OF r(3) i(2)] i(3-6) by auto
qed

lemma MergeEmptyNodeList_spec:
  assumes "purgeable P v" "emptyStartupMode (ns P) \<noteq> CREATED"
  shows "\<exists>P' v'. MergeEmptyNodeList P = Some (0, P') \<and> purge_frame UNIV P v P' v'
     \<and> v_ls v' 0 = v_ls v 0 \<and> v_ls v' 1 = v_ls v 2 @ v_ls v 1 \<and> v_ls v' 2 = [] \<and> v_ch v' = v_ch v"
  using merge_loop_spec [OF assms(1) refl refl] walk_start [OF empty_list(1) [OF assms(1)]] assms(2)
  by (auto simp: MergeEmptyNodeList_def)

lemma prune_loop_spec:
  "purgeable P v \<Longrightarrow> v_ls v 2 = us @ ws \<Longrightarrow> header = EmptyNodeHead (ns P) \<Longrightarrow>
     \<exists>P' v'. prune_loop E header (walk_pos (ns P) header us) P = Some P' \<and> purge_frame {} P v P' v'
       \<and> entries P' v' = {e \<in> entries P v. snd e \<notin> I_SEARCH (ns P) ` set us}"
proof (induction us arbitrary: P v ws rule: rev_induct)
  case Nil
  then show ?case using purge_frame_refl [OF Nil(1)] by (subst prune_loop.simps) (auto simp: walk_pos_def)
next
  case (snoc x us)
  have vl: "v_ls v 2 = us @ x # ws" using snoc.prems(2) by simp
  note w = walk_step [OF empty_list(1) [OF snoc.prems(1), unfolded vl]]
  obtain P1 v1 ws1 where e: "PurgeNodeEverything E (I_SEARCH (ns P) x) P = Some (0, P1)" "purge_frame {} P v P1 v1" "v_ls v1 2 = us @ ws1"
    "entries P1 v1 = {e \<in> entries P v. snd e \<noteq> I_SEARCH (ns P) x}" by (rule empty_purge [OF snoc.prems(1) vl])
  note d = purge_frameD [OF e(2)]
  have "header = EmptyNodeHead (ns P1)" using purge_frame_empty_head [OF e(2)] snoc.prems(3) by simp
  from snoc.IH [OF d(1) e(3) this] obtain P' v' where i: "prune_loop E header (walk_pos (ns P) header us) P1 = Some P'" "purge_frame {} P1 v1 P' v'"
    "entries P' v' = {e \<in> entries P1 v1. snd e \<notin> I_SEARCH (ns P) ` set us}" unfolding d(3,4) by blast
  have "prune_loop E header (walk_pos (ns P) header (us @ [x])) P = Some P'"
    using w e(1) i(1) snoc.prems(3) by (subst prune_loop.simps) (simp add: walk_pos_def)
  then show ?case using purge_frame_trans [OF e(2) i(2)] i(3) e(4) by auto
qed

lemma shrink_loop_spec:
  "purgeable P v \<Longrightarrow> v_ls v 2 = us @ ws \<Longrightarrow> header = EmptyNodeHead (ns P) \<Longrightarrow>
     \<exists>P' v'. shrink_loop E header togo (walk_pos (ns P) header us) P = Some P' \<and> purge_frame {} P v P' v'
       \<and> entries P' v' = {e \<in> entries P v. snd e \<notin> I_SEARCH (ns P) ` set (take togo (rev us))}"
proof (induction togo arbitrary: P v us ws)
  case 0
  then show ?case using purge_frame_refl [OF 0(1)] by auto
next
  case (Suc togo)
  show ?case
  proof (cases us rule: rev_cases)
    case Nil
    then show ?thesis using purge_frame_refl [OF Suc.prems(1)] by (auto simp: walk_pos_def)
  next
    case (snoc as x)
    have vl: "v_ls v 2 = as @ x # ws" using Suc.prems(2) snoc by simp
    note w = walk_step [OF empty_list(1) [OF Suc.prems(1), unfolded vl]]
    obtain P0 v1 ws1 where e: "PurgeNodeEverything E (I_SEARCH (ns P) x) P = Some (0, P0)" "purge_frame {} P v P0 v1" "v_ls v1 2 = as @ ws1"
      "entries P0 v1 = {e \<in> entries P v. snd e \<noteq> I_SEARCH (ns P) x}" by (rule empty_purge [OF Suc.prems(1) vl])
    define P1 where "P1 = P0\<lparr>ns := IncEmptyNode (-1) (ns P0)\<rparr>"
    have f: "purge_frame {} P v P1 v1" "entries P1 v1 = entries P0 v1" using frame_IncEmptyNode [OF e(2)] by (simp_all add: P1_def)
    note d = purge_frameD [OF f(1)]
    have "header = EmptyNodeHead (ns P1)" using purge_frame_empty_head [OF f(1)] Suc.prems(3) by simp
    from Suc.IH [OF d(1) e(3) this] obtain P' v' where i: "shrink_loop E header togo (walk_pos (ns P) header as) P1 = Some P'"
      "purge_frame {} P1 v1 P' v'" "entries P' v' = {e \<in> entries P1 v1. snd e \<notin> I_SEARCH (ns P) ` set (take togo (rev as))}" unfolding d(3,4) by blast
    have "shrink_loop E header (Suc togo) (walk_pos (ns P) header us) P = Some P'"
      using w e(1) i(1) Suc.prems(3) snoc by (simp add: walk_pos_def P1_def)
    then show ?thesis using purge_frame_trans [OF f(1) i(2)] i(3) e(4) f(2) snoc by auto
  qed
qed

text \<open>The nodes of the clean list without rows move to the list of empty nodes; both lists keep their order.\<close>

definition no_rows :: "cache_pool \<Rightarrow> nat \<Rightarrow> bool" where
  "no_rows P x \<longleftrightarrow> NodeRowsCount P (I_SEARCH (ns P) x) = Some 0"

lemma no_rows_store:
  assumes "lru_valid (ns P) x" "I_SEARCH (ns Q) = I_SEARCH (ns P)" "lru_valid (ns Q) = lru_valid (ns P)" "vd (ns Q) = vd (ns P)" "bm (ns Q) = bm (ns P)"
  shows "no_rows Q x = no_rows P x"
proof -
  have "VDHandle (ns Q) (I_SEARCH (ns Q) x) = VDHandle (ns P) (I_SEARCH (ns P) x)"
    using valid_attrs(2) [of "ns P" x] valid_attrs(2) [of "ns Q" x] assms by simp
  then show ?thesis using assms(2) unfolding no_rows_def NodeRowsCount_def assms(5) by simp
qed

lemma upgrade_loop_spec:
  "purgeable P v \<Longrightarrow> v_ls v 1 = us @ ws \<Longrightarrow> header = CleanLruHead P \<Longrightarrow>
     \<exists>st v'. upgrade_loop header (walk_pos (ns P) header us) c P = Some (c + int (length (filter (no_rows P) us)), P\<lparr>ns := st\<rparr>)
       \<and> links_only (ns P) st \<and> purge_frame UNIV P v (P\<lparr>ns := st\<rparr>) v' \<and> v_ls v' 0 = v_ls v 0
       \<and> v_ls v' 1 = filter (\<lambda>x. \<not> no_rows P x) us @ ws \<and> v_ls v' 2 = filter (no_rows P) us @ v_ls v 2"
proof (induction us arbitrary: P v ws c rule: rev_induct)
  case Nil
  then show ?case using purge_frame_refl [OF Nil(1)] links_only_refl [of "ns P"]
    by (subst upgrade_loop.simps) (auto simp: walk_pos_def intro!: exI [of _ "ns P"] exI [of _ v])
next
  case (snoc x us)
  have vl: "v_ls v 1 = us @ x # ws" using snoc.prems(2) by simp
  have ll: "lru_list (ns P) header (us @ x # ws)" and xc: "x \<in> chained (v_ch v)" using clean_list [OF snoc.prems(1)] vl snoc.prems(3) by auto
  note w = walk_step [OF ll]
  have val: "lru_valid (ns P) y" if "y \<in> insert x (set us)" for y using ll that by (auto simp: lru_list_def)
  have "\<exists>rows. NodeRowsCount P (I_SEARCH (ns P) x) = Some rows" using w(4) valid_attrs(2) [OF val, of x] by (simp add: NodeRowsCount_def)
  then obtain rows where rows: "NodeRowsCount P (I_SEARCH (ns P) x) = Some rows" by blast
  have nr: "no_rows P x \<longleftrightarrow> rows = 0" using rows by (simp add: no_rows_def)
  show ?case
  proof (cases "rows = 0")
    case False
    from snoc.IH [OF snoc.prems(1) vl snoc.prems(3), of c] obtain st v' where
      "upgrade_loop header (walk_pos (ns P) header us) c P = Some (c + int (length (filter (no_rows P) us)), P\<lparr>ns := st\<rparr>)"
      and r: "links_only (ns P) st" "purge_frame UNIV P v (P\<lparr>ns := st\<rparr>) v'" "v_ls v' 0 = v_ls v 0"
        "v_ls v' 1 = filter (\<lambda>x. \<not> no_rows P x) us @ x # ws" "v_ls v' 2 = filter (no_rows P) us @ v_ls v 2" by blast
    then have "upgrade_loop header (walk_pos (ns P) header (us @ [x])) c P = Some (c + int (length (filter (no_rows P) (us @ [x]))), P\<lparr>ns := st\<rparr>)"
      using w rows nr False by (subst upgrade_loop.simps) (simp add: walk_pos_def)
    then show ?thesis using r nr False by (intro exI [of _ st] exI [of _ v']) simp
  next
    case True
    have ok: "lists_ok (ns P) (v_fs v) (v_us v) (v_ls v)" using snoc.prems(1) pool_coreD(6) [OF pool_invD(1)] by (simp add: purgeable_def)
    note rl = relisted_move [OF ok, of 1 us x ws 2]
    let ?v = "v\<lparr>v_ls := relisted 2 x (v_ls v)\<rparr>"
    obtain st1 st2 where r: "RemoveFromLru (I_SEARCH (ns P) x) (ns P) = Some st1" "Insert2EmptyLru (I_SEARCH (ns P) x) st1 = Some st2"
      "purge_frame UNIV P v (P\<lparr>ns := st2\<rparr>) ?v" "links_only (ns P) st2" by (rule relist_frame [OF snoc.prems(1) xc, of 2]) auto
    let ?P = "P\<lparr>ns := st2\<rparr>"
    note d = purge_frameD [OF r(3)] and s = links_only_same [OF r(4)]
    have nrs: "no_rows ?P y = no_rows P y" if "y \<in> set us" for y by (rule no_rows_store) (use val that s in auto)
    then have fl: "filter (no_rows ?P) us = filter (no_rows P) us" "filter (\<lambda>x. \<not> no_rows ?P x) us = filter (\<lambda>x. \<not> no_rows P x) us"
      by (auto intro: filter_cong)
    have "v_ls ?v 1 = us @ ws" "header = CleanLruHead ?P" using rl vl d(2) snoc.prems(3) by simp_all
    from snoc.IH [OF d(1) this, of "c + 1"] rl vl obtain st v' where
      i: "upgrade_loop header (walk_pos (ns P) header us) (c + 1) ?P = Some (c + 1 + int (length (filter (no_rows P) us)), P\<lparr>ns := st\<rparr>)"
      and q: "links_only st2 st" "purge_frame UNIV ?P ?v (P\<lparr>ns := st\<rparr>) v'" "v_ls v' 0 = v_ls v 0"
        "v_ls v' 1 = filter (\<lambda>x. \<not> no_rows P x) us @ ws" "v_ls v' 2 = filter (no_rows P) us @ x # v_ls v 2"
      unfolding fl d(3) by auto
    have "upgrade_loop header (walk_pos (ns P) header (us @ [x])) c P = Some (c + int (length (filter (no_rows P) (us @ [x]))), P\<lparr>ns := st\<rparr>)"
      using w rows nr True r(1,2) i by (subst upgrade_loop.simps) (simp add: walk_pos_def)
    then show ?thesis using q nr True links_only_trans [OF r(4) q(1)] purge_frame_trans [OF r(3) q(2)]
      by (intro exI [of _ st] exI [of _ v']) simp
  qed
qed

lemma emptyCnt_links: "links_only st st' \<Longrightarrow> emptyCnt st' = emptyCnt st"
  by (auto simp: links_only_def)

lemma UpgradeEmptyNodeList_spec:
  assumes p: "purgeable P v" and m: "emptyStartupMode (ns P) \<noteq> CREATED"
  shows "\<exists>st v'. UpgradeEmptyNodeList P = Some (0, P\<lparr>ns := st\<rparr>) \<and> emptyCnt st = emptyCnt (ns P) + int (length (filter (no_rows P) (v_ls v 1)))
     \<and> purge_frame UNIV P v (P\<lparr>ns := st\<rparr>) v' \<and> v_ls v' 1 = filter (\<lambda>x. \<not> no_rows P x) (v_ls v 1)
     \<and> v_ls v' 2 = filter (no_rows P) (v_ls v 1) @ v_ls v 2"
proof -
  let ?c = "int (length (filter (no_rows P) (v_ls v 1)))"
  obtain st v' where u: "upgrade_loop (CleanLruHead P) (walk_pos (ns P) (CleanLruHead P) (v_ls v 1)) 0 P = Some (?c, P\<lparr>ns := st\<rparr>)"
    "links_only (ns P) st" "purge_frame UNIV P v (P\<lparr>ns := st\<rparr>) v'" "v_ls v' 1 = filter (\<lambda>x. \<not> no_rows P x) (v_ls v 1)"
    "v_ls v' 2 = filter (no_rows P) (v_ls v 1) @ v_ls v 2"
    using upgrade_loop_spec [OF p append_Nil2 [symmetric] refl, of 0] by auto
  have "UpgradeEmptyNodeList P = Some (0, P\<lparr>ns := IncEmptyNode ?c st\<rparr>)"
    using u(1) walk_start [OF clean_list(1) [OF p]] m by (simp add: UpgradeEmptyNodeList_def CleanLruHead_def)
  moreover have "emptyCnt (IncEmptyNode ?c st) = emptyCnt (ns P) + ?c" using emptyCnt_links [OF u(2)] by (simp add: IncEmptyNode_def Let_def)
  moreover have "purge_frame UNIV P v (P\<lparr>ns := IncEmptyNode ?c st\<rparr>) v'" using frame_IncEmptyNode(1) [OF u(3), of ?c] by simp
  ultimately show ?thesis using u(4,5) by blast
qed

lemma ShrinkEmptyNodeList_spec:
  assumes p: "purgeable P v"
  shows "\<exists>P' v'. ShrinkEmptyNodeList E P = Some (0, P') \<and> purge_frame {} P v P' v' \<and> entries P' v' = {e \<in> entries P v.
      snd e \<notin> I_SEARCH (ns P) ` set (take (if emptyLimit P = 0 then 0 else nat (emptyCnt (ns P) - emptyLimit P)) (rev (v_ls v 2)))}"
proof (cases "emptyLimit P \<noteq> 0 \<and> emptyCnt (ns P) > emptyLimit P")
  case True
  then show ?thesis
    using shrink_loop_spec [OF p append_Nil2 [symmetric] refl, of E "nat (emptyCnt (ns P) - emptyLimit P)"] walk_start [OF empty_list(1) [OF p]]
    by (auto simp: ShrinkEmptyNodeList_def)
next
  case False
  then show ?thesis using purge_frame_refl [OF p] by (intro exI [of _ P] exI [of _ v]) (auto simp: ShrinkEmptyNodeList_def)
qed

lemma PruneEmptyNodeList_spec:
  assumes p: "purgeable P v" and m: "emptyStartupMode (ns P) = ATTACHED"
  shows "\<exists>P' v'. PruneEmptyNodeList E P = Some (0, P') \<and> purge_frame {} P v P' v'
     \<and> entries P' v' = {e \<in> entries P v. snd e \<notin> I_SEARCH (ns P) ` set (v_ls v 2)}"
  using prune_loop_spec [OF p append_Nil2 [symmetric] refl, of E] walk_start [OF empty_list(1) [OF p]] m
  by (auto simp: PruneEmptyNodeList_def)

text \<open>The branch with a limit: counting, moving and shrinking.\<close>

definition start_count :: "cache_pool \<Rightarrow> pool_view \<Rightarrow> int" where
  "start_count P v = emptyCnt (ns P) + (if emptyStartupMode (ns P) = ATTACHED then int (length (v_ls v 2)) else 0)
     + int (length (filter (no_rows P) (v_ls v 1)))"

lemma limited_start:
  assumes p: "purgeable P v" and m: "emptyStartupMode (ns P) \<noteq> CREATED"
  obtains P1 P2 P3 v' where "InitEmptyNodeList (SetEmptyNodeLimit lim P) = Some (0, P1)" "UpgradeEmptyNodeList P1 = Some (0, P2)"
    "ShrinkEmptyNodeList E P2 = Some (0, P3)" "purgeable P3 v'"
    "entries P3 v' = {e \<in> entries P v. snd e \<notin> I_SEARCH (ns P) `
        set (take (if lim \<le> 0 then 0 else nat (start_count P v - lim)) (rev (filter (no_rows P) (v_ls v 1) @ v_ls v 2)))}"
proof -
  define P0 where "P0 = SetEmptyNodeLimit lim P"
  have e0: "ns P0 = ns P" "m_hash P0 = m_hash P" "pool_same P P0" "emptyLimit P0 = max 0 lim"
    by (simp_all add: P0_def SetEmptyNodeLimit_def pool_same_def pool_conf_def)
  have p0: "purge_frame UNIV P v P0 v" using p pool_inv_ext [OF e0(1-3)] e0(1,3) by (simp add: purge_frame_def purgeable_def)
  define P1 where "P1 = (if emptyStartupMode (ns P) = ATTACHED then P0\<lparr>ns := IncEmptyNode (int (length (v_ls v 2))) (ns P0)\<rparr> else P0)"
  have i: "InitEmptyNodeList P0 = Some (0, P1)" using InitEmptyNodeList_spec [OF purge_frameD(1) [OF p0]] e0(1) by (simp add: P1_def)
  have p1: "purge_frame UNIV P v P1 v" "entries P1 v = entries P v" "emptyLimit P1 = max 0 lim" "emptyStartupMode (ns P1) \<noteq> CREATED"
    "emptyCnt (ns P1) = emptyCnt (ns P) + (if emptyStartupMode (ns P) = ATTACHED then int (length (v_ls v 2)) else 0)"
    using p0 frame_IncEmptyNode [OF p0, of "int (length (v_ls v 2))"] pool_inv_ext [OF e0(1-3)] e0(1,4) m
    by (auto simp: P1_def IncEmptyNode_def Let_def)
  have "no_rows P1 x = no_rows P x" if "x \<in> set (v_ls v 1)" for x
  proof (rule no_rows_store)
    show "lru_valid (ns P) x" using clean_list(1) [OF p] that by (simp add: lru_list_def)
  qed (use counters_same [OF counters_IncEmptyNode [of "ns P" "int (length (v_ls v 2))"]] e0(1) in \<open>auto simp: P1_def\<close>)
  then have fl: "filter (no_rows P1) (v_ls v 1) = filter (no_rows P) (v_ls v 1)" by (auto intro: filter_cong)
  obtain st v1 where u: "UpgradeEmptyNodeList P1 = Some (0, P1\<lparr>ns := st\<rparr>)" "emptyCnt st = start_count P v"
    "purge_frame UNIV P1 v (P1\<lparr>ns := st\<rparr>) v1" "v_ls v1 2 = filter (no_rows P) (v_ls v 1) @ v_ls v 2"
    using UpgradeEmptyNodeList_spec [OF purge_frameD(1) [OF p1(1)] p1(4)] unfolding fl p1(5) start_count_def by blast
  let ?P = "P1\<lparr>ns := st\<rparr>"
  have t: "purge_frame UNIV P v ?P v1" by (rule purge_frame_trans [OF p1(1) u(3)])
  note d = purge_frameD [OF t]
  have en: "entries ?P v1 = entries P v" using t by (auto simp: purge_frame_def)
  obtain P3 v' where s: "ShrinkEmptyNodeList E ?P = Some (0, P3)" "purge_frame {} ?P v1 P3 v'" "entries P3 v' = {e \<in> entries ?P v1.
      snd e \<notin> I_SEARCH (ns ?P) ` set (take (if emptyLimit ?P = 0 then 0 else nat (emptyCnt (ns ?P) - emptyLimit ?P)) (rev (v_ls v1 2)))}"
    using ShrinkEmptyNodeList_spec [OF d(1), of E] by blast
  have l: "(if emptyLimit ?P = 0 then 0 else nat (emptyCnt (ns ?P) - emptyLimit ?P)) = (if lim \<le> 0 then 0 else nat (start_count P v - lim))"
    using u(2) p1(3) by auto
  show ?thesis by (rule that [OF i [unfolded P0_def] u(1) s(1) purge_frameD(1) [OF s(2)] s(3) [unfolded l en d(4) u(4)]])
qed

section \<open>Finding the node of a transaction\<close>

lemma TransationFindNode_eq:
  "TransationFindNode key False T = do {
     (n, P) \<leftarrow> CacheFindAutoChoseHash key (Cache T);
     let T1 = T\<lparr>ptrKey := key, m_stNode := n, Cache := P\<rparr>;
     if is_null_node n then Some (NODESTAT_MISSING, T1\<lparr>nodeStat := NODESTAT_MISSING\<rparr>)
     else do {
       d \<leftarrow> node_IsDirty (ns P) n;
       rows \<leftarrow> NodeRowsCount P n;
       Some (NODESTAT_PRESENT, T1\<lparr>keyDirty := d, oldRows := rows, nodeEmpty := (\<not> d \<and> rows = 0), nodeStat := NODESTAT_PRESENT\<rparr>)
     }
   }"
proof -
  have c: "Cache (T\<lparr>ptrKey := key\<rparr>) = Cache T" by simp
  show ?thesis unfolding TransationFindNode_def CacheFindAutoChoseHash_def Let_def if_False c by (rule refl)
qed

lemma TransationFindNode_spec:
  assumes inv: "pool_inv (Cache T) v" and key: "key_ok (keySize (Cache T)) key"
  shows "\<exists>s T' v'. TransationFindNode key False T = Some (s, T') \<and> pool_inv (Cache T') v' \<and> entries (Cache T') v' = entries (Cache T) v
     \<and> lookup (entries (Cache T) v) (packed (keySize (Cache T)) key) (m_stNode T') \<and> nodeStat T' = s
     \<and> s = (if m_stNode T' = null_node then NODESTAT_MISSING else NODESTAT_PRESENT)
     \<and> (m_stNode T' \<noteq> null_node \<longrightarrow> (\<exists>x\<in>chained (v_ch v'). m_stNode T' = I_SEARCH (ns (Cache T')) x))"
proof -
  obtain t where t: "pool_slot (Cache T) (targetNewHash (Cache T)) key = Some t" using pool_slot_Some [OF pool_invD(1) [OF inv] key] by metis
  obtain n P' v' where r: "CacheFindAutoChoseHash key (Cache T) = Some (n, P')" "pool_inv P' v'" "entries P' v' = entries (Cache T) v"
    "lookup (entries (Cache T) v) (packed (keySize (Cache T)) key) n" by (rule AutoChose_spec [OF inv key t]) blast
  show ?thesis
  proof (cases "n = null_node")
    case True
    then have "TransationFindNode key False T = Some (NODESTAT_MISSING, T\<lparr>ptrKey := key, m_stNode := n, Cache := P', nodeStat := NODESTAT_MISSING\<rparr>)"
      using r(1) by (simp add: TransationFindNode_eq)
    then show ?thesis using r(2-4) True
      by (intro exI [of _ NODESTAT_MISSING] exI [of _ "T\<lparr>ptrKey := key, m_stNode := n, Cache := P', nodeStat := NODESTAT_MISSING\<rparr>"] exI [of _ v']) simp
  next
    case False
    then have "(packed (keySize (Cache T)) key, n) \<in> entries P' v'" using r(4) unfolding r(3) lookup_def by (metis (full_types))
    then obtain x where x: "x \<in> chained (v_ch v')" "n = I_SEARCH (ns P') x" by (auto simp: entries_def filled_def)
    note c = pool_coreD [OF pool_invD(1) [OF r(2)]]
    have xv: "lru_valid (ns P') x" using x(1) c(7) lists_okD(5) [OF c(6)] by blast
    have nn: "\<not> is_null_node n" using valid_not_null [OF xv] x(2) by simp
    then obtain d where d: "node_IsDirty (ns P') n = Some d" by (auto simp: node_IsDirty_def is_null_node_def)
    obtain rows where rows: "NodeRowsCount P' n = Some rows" using nn valid_attrs(2) [OF xv] x(2) by (simp add: NodeRowsCount_def)
    define T' where "T' = T\<lparr>ptrKey := key, m_stNode := n, Cache := P', keyDirty := d, oldRows := rows, nodeEmpty := (\<not> d \<and> rows = 0),
      nodeStat := NODESTAT_PRESENT\<rparr>"
    have T': "Cache T' = P'" "m_stNode T' = n" "nodeStat T' = NODESTAT_PRESENT" by (simp_all add: T'_def)
    have "TransationFindNode key False T = Some (NODESTAT_PRESENT, T')" using r(1) nn d rows by (simp add: TransationFindNode_eq T'_def)
    then show ?thesis using r(2-4) False T' x by (intro exI [of _ NODESTAT_PRESENT] exI [of _ T'] exI [of _ v'] conjI) auto
  qed
qed

section \<open>The end of a transaction\<close>

text \<open>The node moves to the head of the list its rows call for; a list of empty nodes that is too long loses its last node.\<close>

definition end_list :: "cache_pool \<Rightarrow> int \<Rightarrow> nat" where
  "end_list P rows = (if rows = 0 \<and> emptyLimit P \<noteq> 0 then 2 else 1)"

definition end_moves :: "cache_process \<Rightarrow> bool \<Rightarrow> int \<Rightarrow> bool" where
  "end_moves T d rows \<longleftrightarrow> \<not> keyDirty T \<and> \<not> d \<and> (int (lruUpdate T) > noLRU T \<or> (rows = 0) \<noteq> nodeEmpty T)"

definition end_purges :: "cache_process \<Rightarrow> int \<Rightarrow> bool" where
  "end_purges T rows \<longleftrightarrow> rows = 0 \<and> \<not> nodeEmpty T \<and> emptyLimit (Cache T) \<noteq> 0
     \<and> emptyCnt (IncEmptyNode 1 (ns (Cache T))) > emptyLimit (Cache T)"

lemma TransationEnd_moved:
  assumes p: "purgeable (Cache T) v" and x: "x \<in> chained (v_ch v)" and n: "m_stNode T = I_SEARCH (ns (Cache T)) x"
    and d: "node_IsDirty (ns (Cache T)) (m_stNode T) = Some d" and rows: "NodeRowsCount (Cache T) (m_stNode T) = Some rows"
    and m: "end_moves T d rows"
  shows "\<exists>P' v'. TransationEnd E T = Some (Transation_Free (T\<lparr>Cache := P'\<rparr>)) \<and> purge_frame {} (Cache T) v P' v'
     \<and> (if end_purges T rows
        then entries P' v' = {e \<in> entries (Cache T) v. snd e \<noteq> I_SEARCH (ns (Cache T)) (last (x # remove1 x (v_ls v 2)))}
        else entries P' v' = entries (Cache T) v \<and> v' = v\<lparr>v_ls := relisted (end_list (Cache T) rows) x (v_ls v)\<rparr>)"
proof -
  let ?P = "Cache T" and ?k = "end_list (Cache T) rows"
  let ?v = "v\<lparr>v_ls := relisted ?k x (v_ls v)\<rparr>"
  have k: "?k < 3" by (simp add: end_list_def)
  obtain st1 st2 where r: "RemoveFromLru (m_stNode T) (ns ?P) = Some st1"
    "?k = 1 \<Longrightarrow> Insert2CleanLru (m_stNode T) st1 = Some st2" "?k = 2 \<Longrightarrow> Insert2EmptyLru (m_stNode T) st1 = Some st2"
    "purge_frame UNIV ?P v (?P\<lparr>ns := st2\<rparr>) ?v" "entries (?P\<lparr>ns := st2\<rparr>) ?v = entries ?P v" "links_only (ns ?P) st2"
    using relist_frame [OF p x k] n by metis
  let ?Q = "?P\<lparr>ns := st2\<rparr>"
  have f: "purge_frame {} ?P v ?Q ?v" by (rule purge_frame_mono [OF r(4)]) simp
  have nn: "\<not> is_null_node (m_stNode T)" using n x p pool_coreD(7) [OF pool_invD(1)] lists_okD(5) [OF pool_coreD(6) [OF pool_invD(1)]] valid_not_null
    by (metis purgeable_def subsetD)
  note cnt = emptyCnt_links [OF r(6)]
  have go: "TransationEnd E T = map_option (\<lambda>P. Transation_Free (T\<lparr>Cache := P\<rparr>))
      (if rows = 0 then if nodeEmpty T then Some ?Q else pool_IncEmptyNode E ?Q
       else Some (if nodeEmpty T then pool_DecEmptyNode ?Q else ?Q))"
    using nn d rows m r(1-3)
    by (cases "pool_IncEmptyNode E ?Q") (auto simp: TransationEnd_def end_moves_def end_list_def pool_Insert2EmptyLru_def Transation_Free_def)
  have inc: "purge_frame {} ?P v (?P\<lparr>ns := IncEmptyNode i st2\<rparr>) ?v" "entries (?P\<lparr>ns := IncEmptyNode i st2\<rparr>) ?v = entries ?P v" for i
    using purge_frame_counters [of ?Q "IncEmptyNode i st2"] counters_inv(2) [of ?Q "IncEmptyNode i st2"] counters_IncEmptyNode [of st2 i] f r(5)
    by simp_all
  show ?thesis
  proof (cases "end_purges T rows")
    case True
    let ?R = "?P\<lparr>ns := IncEmptyNode 1 st2\<rparr>"
    have k2: "?k = 2" "emptyCnt (ns ?R) > emptyLimit ?R" using True cnt by (auto simp: end_purges_def end_list_def IncEmptyNode_def Let_def)
    note fr = inc(1) [of 1]
    have pr: "purgeable ?R ?v" using fr by (simp add: purge_frame_def)
    have ids: "I_SEARCH (ns ?R) = I_SEARCH (ns ?P)" using fr by (simp add: purge_frame_def)
    have ls: "v_ls ?v 2 = x # remove1 x (v_ls v 2)" using k2(1) by (simp add: relisted_def)
    obtain P' v' where q: "PurgeSingleEmptyNode E ?R = Some (0, P')" "purge_frame {} ?R ?v P' v'"
      "entries P' v' = {e \<in> entries ?R ?v. snd e \<noteq> I_SEARCH (ns ?R) (last (v_ls ?v 2))}"
      using PurgeSingleEmptyNode_spec [OF pr, of E] ls by (metis list.distinct(1))
    have "pool_IncEmptyNode E ?Q = Some P'" using True k2 q(1) by (simp add: pool_IncEmptyNode_def end_purges_def)
    then have "TransationEnd E T = Some (Transation_Free (T\<lparr>Cache := P'\<rparr>))" using go True by (simp add: end_purges_def)
    then show ?thesis using True q(3) inc(2) purge_frame_trans [OF fr q(2)] ids ls by (intro exI [of _ P'] exI [of _ v']) simp
  next
    case False
    have "pool_IncEmptyNode E ?Q = Some (if emptyLimit ?P \<noteq> 0 then ?P\<lparr>ns := IncEmptyNode 1 st2\<rparr> else ?Q)" if "rows = 0" "\<not> nodeEmpty T"
      using False that cnt by (auto simp: end_purges_def pool_IncEmptyNode_def IncEmptyNode_def Let_def)
    moreover have "pool_DecEmptyNode ?Q = (if emptyLimit ?P \<noteq> 0 then ?P\<lparr>ns := IncEmptyNode (-1) st2\<rparr> else ?Q)" by (simp add: pool_DecEmptyNode_def)
    ultimately have "\<exists>P'. TransationEnd E T = Some (Transation_Free (T\<lparr>Cache := P'\<rparr>)) \<and> (P' = ?Q \<or> (\<exists>i. P' = ?P\<lparr>ns := IncEmptyNode i st2\<rparr>))"
      unfolding go by (cases "rows = 0"; cases "nodeEmpty T"; cases "emptyLimit ?P = 0"; simp only: if_True if_False simp_thms option.map; blast)
    then obtain P' where "TransationEnd E T = Some (Transation_Free (T\<lparr>Cache := P'\<rparr>))" "P' = ?Q \<or> (\<exists>i. P' = ?P\<lparr>ns := IncEmptyNode i st2\<rparr>)"
      by blast
    then show ?thesis using False f r(5) inc by (intro exI [of _ P'] exI [of _ ?v]) auto
  qed
qed

end
