(* ===== verification/Cache_Process_Correct.thy ===== *)
theory Cache_Process_Correct
  imports Cache_Pool_Correct Cache_Process_Ops
begin

text \<open>
  The correctness properties of purging and of the transaction on a node.
\<close>

section \<open>Room for a node\<close>

definition can_alloc :: "node_store \<Rightarrow> bool" where
  "can_alloc st \<longleftrightarrow> 0 < ng_step st \<and> ni_min_id (ni st) + 256 * ng_step st \<le> MAX_NODE_IDS
     \<and> index_covers st (ni_min_id (ni st) + 256 * ng_step st)"

lemma can_alloc_conf: "alloc_conf st' = alloc_conf st \<Longrightarrow> can_alloc st' = can_alloc st"
  using alloc_confD [of st' st] by (simp add: can_alloc_def)

text \<open>The node that \<open>CacheAllocate\<close> gives, once its handle is cleared.\<close>

lemma allocate_empty:
  assumes p: "purgeable P v" and key: "key_ok (keySize P) key" and ca: "can_alloc (ns P)"
  obtains n P' where "CacheAllocate key P = Some (n, P')" "is_null_node n" "purge_frame UNIV P v P' v" "v_fs v = []"
      "\<exists>b. BM_Calloc NG_Size (bm (ns P)) = Some (INVALID_HANDLE, b)"
  | n P' st v' t where "CacheAllocate key P = Some (n, P')" "\<not> is_null_node n" "n \<notin> ns_used (ns P) (v_fs v) (v_us v)"
      "store_VDHandle n INVALID_HANDLE (ns P') = Some st" "purgeable (P'\<lparr>ns := st\<rparr>) v'" "entries (P'\<lparr>ns := st\<rparr>) v' = entries P v"
      "pool_slot P (targetNewHash P) key = Some t" "v_ch v' = (v_ch v)(t := NodeID (ns P') n # v_ch v t)"
      "v_ls v' = (v_ls v)(1 := NodeID (ns P') n # v_ls v 1)" "NodeID st n = NodeID (ns P') n"
      "vd st (NodeID st n) = INVALID_HANDLE" "pool_same P P'"
proof -
  have inv: "pool_inv P v" and cl: "set (v_ls v 1) \<union> set (v_ls v 2) \<subseteq> chained (v_ch v)" and kl: "\<forall>e\<in>entries P v. length (fst e) \<le> 256"
    using p by (simp_all add: purgeable_def)
  obtain t where t: "pool_slot P (targetNewHash P) key = Some t" using pool_slot_Some [OF pool_invD(1) [OF inv] key] by metis
  have h: "0 < ng_step (ns P)" "ni_min_id (ni (ns P)) + 256 * ng_step (ns P) \<le> MAX_NODE_IDS"
    "index_covers (ns P) (ni_min_id (ni (ns P)) + 256 * ng_step (ns P))" using ca by (simp_all add: can_alloc_def)
  show ?thesis
  proof (cases rule: CacheAllocate_spec [OF inv key t h])
    case (1 n P')
    have "purgeable P' v" using 1(3,4) cl kl by (simp add: purgeable_def)
    then have "purge_frame UNIV P v P' v" using 1(4,5,8,9) by (simp add: purge_frame_def)
    then show ?thesis using that(1) 1 by blast
  next
    case (2 n P' v')
    have Q: "P' = P'\<lparr>ns := (ns P')\<lparr>bm := bm (ns P')\<rparr>\<rparr>" by simp
    have "\<exists>st. store_VDHandle n INVALID_HANDLE (ns P') = Some st \<and> pool_inv (P'\<lparr>ns := st\<rparr>) v' \<and> entries (P'\<lparr>ns := st\<rparr>) v' = entries P v"
      using fill_allocated [OF inv key t 2(4-6) 2(8-13) bm_grows_refl Q, of INVALID_HANDLE] by simp
    then obtain st where st: "store_VDHandle n INVALID_HANDLE (ns P') = Some st" "pool_inv (P'\<lparr>ns := st\<rparr>) v'" "entries (P'\<lparr>ns := st\<rparr>) v' = entries P v"
      by blast
    have "set (v_ls v' 1) \<union> set (v_ls v' 2) \<subseteq> chained (v_ch v')"
      using cl chained_push [of "v_ch v" t "NodeID (ns P') n"] unfolding 2(6,7) by auto
    then have "purgeable (P'\<lparr>ns := st\<rparr>) v'" using st(2,3) kl by (simp add: purgeable_def)
    moreover have "NodeID st n = NodeID (ns P') n" "vd st (NodeID (ns P') n) = INVALID_HANDLE"
      by (rule store_VDHandle_spec [OF pool_coreD(1) [OF 2(4)] 2(12), of INVALID_HANDLE]; use st(1) in simp)+
    ultimately show ?thesis using that(2) 2(1-3,5-7) st t by simp
  qed
qed

section \<open>Making room\<close>

lemma all_chained:
  assumes "pool_inv P v" "listed (v_ls v) \<subseteq> chained (v_ch v)" "\<forall>e\<in>entries P v. length (fst e) \<le> 256"
  shows "purgeable P v"
proof -
  have "set (v_ls v k) \<subseteq> listed (v_ls v)" if "k < 3" for k using that by (auto simp: listed_def)
  from this [of 1] this [of 2] assms show ?thesis by (auto simp: purgeable_def)
qed

text \<open>
  C36: \<open>CCachePool::TryPurgeSize\<close> always returns, 0 or -1.  It keeps the invariant of the pool, gives no
  entry that was not there, and never takes the entry of the node it is told to spare.  When it returns 0 a
  group has a free node.  Without the purging of nodes in advance, 0 means that exactly one entry
  is gone, and -1 that none is.
\<close>

theorem TryPurgeSize_correct:
  assumes "purgeable P v"
  shows "\<exists>r P' v'. TryPurgeSize E sz reserve c P = Some (r, P') \<and> purgeable P' v' \<and> entries P' v' \<subseteq> entries P v
     \<and> {e \<in> entries P v. snd e = reserve} \<subseteq> entries P' v' \<and> (r = -1 \<or> r = 0 \<and> v_fs v' \<noteq> [])
     \<and> (env_pre_purge_nodes E \<le> 0 \<longrightarrow> r = -1 \<and> entries P' v' = entries P v \<or> r = 0 \<and> (\<exists>e\<in>entries P v. entries P' v' = entries P v - {e}))"
proof -
  obtain r P' v' where t: "TryPurgeSize E sz reserve c P = Some (r, P')" "purge_frame {reserve} P v P' v'" "r = -1 \<or> r = 0 \<and> v_fs v' \<noteq> []"
    "env_pre_purge_nodes E \<le> 0 \<longrightarrow> r = -1 \<and> entries P' v' = entries P v \<or> r = 0 \<and> (\<exists>e\<in>entries P v. entries P' v' = entries P v - {e})"
    using TryPurgeSize_spec [OF assms, of E sz reserve c] by blast
  have f: "purgeable P' v'" "entries P' v' \<subseteq> entries P v" "{e \<in> entries P v. snd e = reserve} \<subseteq> entries P' v'"
    using t(2) by (simp_all add: purge_frame_def)
  show ?thesis by (rule exI [of _ r], rule exI [of _ P'], rule exI [of _ v']) (use t(1,3,4) f in blast)
qed

theorem TryPurgeSize_correct_witness:
  "\<exists>P v n. purgeable P v \<and> entries P v = {([0, 0, 0, 0], n)}
     \<and> (\<forall>E. \<exists>r P' v'. TryPurgeSize E 64 n 2500 P = Some (r, P') \<and> purgeable P' v' \<and> entries P' v' = {([0, 0, 0, 0], n)})"
proof -
  obtain P v n where s: "pool_inv P v" "entries P v = {([0, 0, 0, 0], n)}" "listed (v_ls v) \<subseteq> chained (v_ch v)" by (rule ex_one)
  have p: "purgeable P v" by (rule all_chained [OF s(1,3)]) (use s(2) in simp)
  have "\<exists>r P' v'. TryPurgeSize E 64 n 2500 P = Some (r, P') \<and> purgeable P' v' \<and> entries P' v' = {([0, 0, 0, 0], n)}" for E
    using TryPurgeSize_correct [OF p, of E 64 n 2500] s(2) by fastforce
  with p s(2) show ?thesis by blast
qed

section \<open>An empty node for a key\<close>

lemma insert_empty_node:
  assumes "insert_empty_loop E 2 T = Some (T\<lparr>m_stNode := n, Cache := P\<rparr>)" "\<not> is_null_node n" "store_VDHandle n INVALID_HANDLE (ns P) = Some st"
  shows "InsertEmptyNode E T = Some (True, T\<lparr>m_stNode := n, Cache := P\<lparr>ns := st\<rparr>, nodeEmpty := False\<rparr>)"
  using assms by (simp add: InsertEmptyNode_def)


definition ex_process :: "cache_pool \<Rightarrow> nat list \<Rightarrow> CNode \<Rightarrow> cache_process" where
  "ex_process P key n = \<lparr>Cache = P, ptrKey = key, m_stNode = n, oldRows = 0, nodeStat = NODESTAT_MISSING, keyDirty = False,
     nodeEmpty = False, lruUpdate = LRU_READ, noLRU = 0\<rparr>"


section \<open>The end of a transaction\<close>

text \<open>
  C38: \<open>CCacheProcess::TransationEnd\<close> on a node of the pool always returns, forgets the node and keeps the invariant of the pool.
  A dirty node stays where it is, and so does a clean one whose use does not count and that is as empty
  or not as it was.  Otherwise the node is at the head of the list of empty nodes afterwards, when it has no rows
  and there is a limit for them, or at the head of the clean list, and no entry changes; but a node
  that has become empty and makes the list longer than the limit costs the last node of the list its entry.
\<close>

theorem TransationEnd_correct:
  assumes "purgeable (Cache T) v" "x \<in> chained (v_ch v)" "m_stNode T = I_SEARCH (ns (Cache T)) x"
  shows "\<exists>d rows P' v'. node_IsDirty (ns (Cache T)) (m_stNode T) = Some d \<and> NodeRowsCount (Cache T) (m_stNode T) = Some rows
     \<and> TransationEnd E T = Some (Transation_Free (T\<lparr>Cache := P'\<rparr>)) \<and> purgeable P' v'
     \<and> (if \<not> end_moves T d rows then P' = Cache T \<and> v' = v
        else if end_purges T rows
        then entries P' v' = {e \<in> entries (Cache T) v. snd e \<noteq> I_SEARCH (ns (Cache T)) (last (x # remove1 x (v_ls v 2)))}
        else entries P' v' = entries (Cache T) v \<and> v' = v\<lparr>v_ls := relisted (end_list (Cache T) rows) x (v_ls v)\<rparr>)"
proof -
  note c = pool_coreD [OF pool_invD(1)]
  have "pool_inv (Cache T) v" using assms(1) by (simp add: purgeable_def)
  then have xv: "lru_valid (ns (Cache T)) x" using assms(2) c(7) lists_okD(5) [OF c(6)] by blast
  note nn = valid_not_null [OF xv]
  then have "c_owner (m_stNode T) \<noteq> INVALID_HANDLE" by (simp add: assms(3) is_null_node_def)
  then obtain d where d: "node_IsDirty (ns (Cache T)) (m_stNode T) = Some d" by (simp add: node_IsDirty_def)
  obtain rows where r: "NodeRowsCount (Cache T) (m_stNode T) = Some rows"
    using nn valid_attrs(2) [OF xv] by (simp add: NodeRowsCount_def assms(3))
  show ?thesis
  proof (cases "end_moves T d rows")
    case True
    from TransationEnd_moved [OF assms d r True, of E] obtain P' v' where
      "TransationEnd E T = Some (Transation_Free (T\<lparr>Cache := P'\<rparr>))" "purge_frame {} (Cache T) v P' v'"
      "if end_purges T rows then entries P' v' = {e \<in> entries (Cache T) v. snd e \<noteq> I_SEARCH (ns (Cache T)) (last (x # remove1 x (v_ls v 2)))}
        else entries P' v' = entries (Cache T) v \<and> v' = v\<lparr>v_ls := relisted (end_list (Cache T) rows) x (v_ls v)\<rparr>" by blast
    then show ?thesis using d r True by (intro exI [of _ d] exI [of _ rows] exI [of _ P'] exI [of _ v']) (simp add: purge_frame_def)
  next
    case False
    then have "TransationEnd E T = Some (Transation_Free (T\<lparr>Cache := Cache T\<rparr>))"
      using d r nn assms(3) by (auto simp: TransationEnd_def end_moves_def)
    then show ?thesis using d r False assms(1) by (intro exI [of _ d] exI [of _ rows] exI [of _ "Cache T"] exI [of _ v]) simp
  qed
qed

theorem TransationEnd_correct_witness:
  "\<exists>T v x. purgeable (Cache T) v \<and> x \<in> chained (v_ch v) \<and> m_stNode T = I_SEARCH (ns (Cache T)) x \<and> entries (Cache T) v \<noteq> {}
     \<and> (\<forall>E. \<exists>P' v'. TransationEnd E T = Some (Transation_Free (T\<lparr>Cache := P'\<rparr>)) \<and> purgeable P' v')"
proof -
  obtain P v n where s: "pool_inv P v" "entries P v = {([0, 0, 0, 0], n)}" "listed (v_ls v) \<subseteq> chained (v_ch v)" by (rule ex_one)
  have p: "purgeable P v" by (rule all_chained [OF s(1,3)]) (use s(2) in simp)
  have "([0, 0, 0, 0], n) \<in> entries P v" by (simp add: s(2))
  then obtain x where x: "x \<in> chained (v_ch v)" "n = I_SEARCH (ns P) x" by (auto simp: entries_def filled_def)
  let ?T = "ex_process P [0, 0, 0, 0] n"
  have c: "Cache ?T = P" "m_stNode ?T = n" by (simp_all add: ex_process_def)
  have h: "purgeable (Cache ?T) v" "x \<in> chained (v_ch v)" "m_stNode ?T = I_SEARCH (ns (Cache ?T)) x" using p x unfolding c by simp_all
  have "\<exists>P' v'. TransationEnd E ?T = Some (Transation_Free (?T\<lparr>Cache := P'\<rparr>)) \<and> purgeable P' v'" for E
    using TransationEnd_correct [OF h, of E] by blast
  moreover have "entries (Cache ?T) v \<noteq> {}" unfolding c by (simp add: s(2))
  ultimately show ?thesis using h by blast
qed

section \<open>Starting with empty nodes\<close>

text \<open>
  C39: The last block of \<open>CCacheProcess::cache_open\<close>, on a pool that existed before, always returns and keeps the invariant.
  Without a database the nodes of the list of empty nodes lose their entries.  With a limit the nodes of the
  clean list without rows come in front of the list of empty nodes, and as many nodes at its end as exceed the
  limit lose their entries, no others.  Otherwise the list of empty nodes is put in front of the clean list,
  in its order, and no entry changes.
\<close>

theorem open_empty_lists_correct:
  assumes "purgeable (Cache T) v" "emptyStartupMode (ns (Cache T)) \<noteq> CREATED"
  shows "\<exists>P' v'. open_empty_lists E fullMode nodeEmptyLimit T = Some (T\<lparr>Cache := P'\<rparr>) \<and> purgeable P' v'
     \<and> (if fullMode
        then entries P' v' = (if emptyStartupMode (ns (Cache T)) = ATTACHED
          then {e \<in> entries (Cache T) v. snd e \<notin> I_SEARCH (ns (Cache T)) ` set (v_ls v 2)} else entries (Cache T) v)
        else if nodeEmptyLimit \<noteq> 0
        then entries P' v' = {e \<in> entries (Cache T) v. snd e \<notin> I_SEARCH (ns (Cache T)) `
          set (take (if nodeEmptyLimit \<le> 0 then 0 else nat (start_count (Cache T) v - nodeEmptyLimit))
            (rev (filter (no_rows (Cache T)) (v_ls v 1) @ v_ls v 2)))}
        else entries P' v' = entries (Cache T) v \<and> v_ch v' = v_ch v
          \<and> v_ls v' 0 = v_ls v 0 \<and> v_ls v' 1 = v_ls v 2 @ v_ls v 1 \<and> v_ls v' 2 = [])"
proof (cases fullMode)
  case True
  show ?thesis
  proof (cases "emptyStartupMode (ns (Cache T)) = ATTACHED")
    case a: True
    from PruneEmptyNodeList_spec [OF assms(1) a, of E] True a show ?thesis by (auto simp: open_empty_lists_def purge_frame_def)
  next
    case False
    then have "open_empty_lists E fullMode nodeEmptyLimit T = Some (T\<lparr>Cache := Cache T\<rparr>)"
      using True by (simp add: open_empty_lists_def PruneEmptyNodeList_def)
    then show ?thesis using assms(1) False True by (intro exI [of _ "Cache T"] exI [of _ v]) simp
  qed
next
  case nf: False
  show ?thesis
  proof (cases "nodeEmptyLimit = 0")
    case True
    obtain P' v' where m: "MergeEmptyNodeList (Cache T) = Some (0, P')" "purge_frame UNIV (Cache T) v P' v'"
      "v_ls v' 0 = v_ls v 0" "v_ls v' 1 = v_ls v 2 @ v_ls v 1" "v_ls v' 2 = []" "v_ch v' = v_ch v"
      using MergeEmptyNodeList_spec [OF assms] by blast
    have "purgeable P' v'" "entries P' v' = entries (Cache T) v" using m(2) by (auto simp: purge_frame_def)
    then show ?thesis using m nf True by (intro exI [of _ P'] exI [of _ v']) (simp add: open_empty_lists_def)
  next
    case False
    obtain P1 P2 P3 v' where l: "InitEmptyNodeList (SetEmptyNodeLimit nodeEmptyLimit (Cache T)) = Some (0, P1)" "UpgradeEmptyNodeList P1 = Some (0, P2)"
      "ShrinkEmptyNodeList E P2 = Some (0, P3)" "purgeable P3 v'"
      "entries P3 v' = {e \<in> entries (Cache T) v. snd e \<notin> I_SEARCH (ns (Cache T)) `
        set (take (if nodeEmptyLimit \<le> 0 then 0 else nat (start_count (Cache T) v - nodeEmptyLimit)) (rev (filter (no_rows (Cache T)) (v_ls v 1) @ v_ls v 2)))}"
      by (rule limited_start [OF assms, of nodeEmptyLimit E])
    have "open_empty_lists E fullMode nodeEmptyLimit T = Some (T\<lparr>Cache := P3\<rparr>)" using l(1-3) nf False by (simp add: open_empty_lists_def)
    then show ?thesis using l(4,5) nf False by (intro exI [of _ P3] exI [of _ v']) simp
  qed
qed

theorem open_empty_lists_correct_witness:
  "\<exists>T v n. purgeable (Cache T) v \<and> emptyStartupMode (ns (Cache T)) \<noteq> CREATED \<and> entries (Cache T) v = {([0, 0, 0, 0], n)}
     \<and> (\<forall>E. \<exists>P' v'. open_empty_lists E False 0 T = Some (T\<lparr>Cache := P'\<rparr>) \<and> purgeable P' v'
         \<and> entries P' v' = {([0, 0, 0, 0], n)} \<and> v_ls v' 1 = v_ls v 2 @ v_ls v 1)"
proof -
  obtain P v n where s: "pool_inv P v" "entries P v = {([0, 0, 0, 0], n)}" "listed (v_ls v) \<subseteq> chained (v_ch v)" by (rule ex_one)
  have p: "purgeable P v" by (rule all_chained [OF s(1,3)]) (use s(2) in simp)
  let ?P = "P\<lparr>ns := (ns P)\<lparr>emptyStartupMode := ATTACHED\<rparr>\<rparr>"
  note c = counters_inv [OF counters_startup [of "ns P" ATTACHED]]
  let ?T = "ex_process ?P [0, 0, 0, 0] n"
  have e: "Cache ?T = ?P" by (simp add: ex_process_def)
  have h: "purgeable (Cache ?T) v" "emptyStartupMode (ns (Cache ?T)) \<noteq> CREATED" unfolding e using p c by (simp_all add: purgeable_def)
  have en: "entries (Cache ?T) v = {([0, 0, 0, 0], n)}" unfolding e using c(2) s(2) by simp
  have "\<exists>P' v'. open_empty_lists E False 0 ?T = Some (?T\<lparr>Cache := P'\<rparr>) \<and> purgeable P' v'
         \<and> entries P' v' = {([0, 0, 0, 0], n)} \<and> v_ls v' 1 = v_ls v 2 @ v_ls v 1" for E
    using open_empty_lists_correct [OF h, of E False 0] unfolding en by (simp only: if_False simp_thms) blast
  then show ?thesis using h en by blast
qed

end
