(* ===== verification/Empty_Filter.thy ===== *)
theory Empty_Filter
  imports Node_Store Chunk_Memory Bin_Malloc_Fresh
begin

text \<open>
  The filter of keys without rows, \<open>cache/empty_filter.{h,cc}\<close>, on the bit operations of
  \<open>common/bitsop.h\<close>.  The keys are spread over \<open>enf_mod\<close> tables; a table is a bitmap in a chunk of
  the segment that grows when a key beyond its end is set.  The header of the filter lives in the
  segment as well; it is kept by its handle in \<open>m_enf\<close>, the bits are bytes of the segment.
  A null pointer that is followed is \<open>None\<close>, and so is a division by zero.
\<close>

section \<open>Bits of bytes in memory\<close>

definition CHAR_BITS :: nat where "CHAR_BITS = 8"

definition set_b :: "nat \<Rightarrow> nat \<Rightarrow> CBinMalloc \<Rightarrow> CBinMalloc" where
  "set_b bt addr b =
     (let begin' = addr + bt div CHAR_BITS; shift = bt mod CHAR_BITS
      in user_put begin' [u8 (m_user b begin' OR push_bit shift 1)] b)"

definition isset_b :: "nat \<Rightarrow> nat \<Rightarrow> CBinMalloc \<Rightarrow> nat" where
  "isset_b bt addr b =
     (let begin' = addr + bt div CHAR_BITS; shift = bt mod CHAR_BITS
      in if m_user b begin' AND push_bit shift 1 > 0 then 1 else 0)"

definition clr_b :: "nat \<Rightarrow> nat \<Rightarrow> CBinMalloc \<Rightarrow> CBinMalloc" where
  "clr_b bt addr b =
     (let begin' = addr + bt div CHAR_BITS; shift = bt mod CHAR_BITS
      in user_put begin' [u8 (m_user b begin' AND (255 XOR push_bit shift 1))] b)"

section \<open>The filter\<close>

definition DF_ENF_TOTAL :: nat where "DF_ENF_TOTAL = 0"
definition DF_ENF_STEP :: nat where "DF_ENF_STEP = 512"
definition DF_ENF_MOD :: nat where "DF_ENF_MOD = 30000"

record ENF_TABLE_T =
  t_handle :: handle
  t_size :: nat

record ENF_T =
  enf_total :: nat
  enf_step :: nat
  enf_mod :: nat
  enf_tables :: "nat \<Rightarrow> ENF_TABLE_T"

definition SIZEOF_ENF_TABLE_T :: nat where "SIZEOF_ENF_TABLE_T = 16"
definition SIZEOF_ENF_T :: nat where "SIZEOF_ENF_T = 16"

record CEmptyNodeFilter =
  ef_bm :: CBinMalloc
  m_enf :: "handle \<Rightarrow> ENF_T"
  p_enf :: handle

abbreviation enf :: "CEmptyNodeFilter \<Rightarrow> ENF_T" where
  "enf F \<equiv> m_enf F (p_enf F)"

definition upd_enf :: "(ENF_T \<Rightarrow> ENF_T) \<Rightarrow> CEmptyNodeFilter \<Rightarrow> CEmptyNodeFilter" where
  "upd_enf f F = F\<lparr>m_enf := (m_enf F)(p_enf F := f (enf F))\<rparr>"

definition upd_table :: "nat \<Rightarrow> (ENF_TABLE_T \<Rightarrow> ENF_TABLE_T) \<Rightarrow> CEmptyNodeFilter \<Rightarrow> CEmptyNodeFilter" where
  "upd_table i f = upd_enf (\<lambda>e. e\<lparr>enf_tables := (enf_tables e)(i := f (enf_tables e i))\<rparr>)"

definition EF_Index :: "CEmptyNodeFilter \<Rightarrow> nat \<Rightarrow> nat option" where
  "EF_Index F key = do { non_null (p_enf F); if enf_mod (enf F) = 0 then None else Some (key mod enf_mod (enf F)) }"

definition EF_Offset :: "CEmptyNodeFilter \<Rightarrow> nat \<Rightarrow> nat option" where
  "EF_Offset F key = do { non_null (p_enf F); if enf_mod (enf F) = 0 then None else Some (key div enf_mod (enf F)) }"

definition EF_ISSET :: "nat \<Rightarrow> CEmptyNodeFilter \<Rightarrow> nat option" where
  "EF_ISSET key F = do {
     bitoff \<leftarrow> EF_Offset F key;
     tableid \<leftarrow> EF_Index F key;
     let t = enf_tables (enf F) tableid;
     if t_size t < bitoff div 8 + 1 then Some 0
     else do { p \<leftarrow> Handle2Ptr (t_handle t); Some (isset_b bitoff p (ef_bm F)) }
   }"

text \<open>The new size of a table; \<open>incbyte\<close> and \<open>how\<close> are \<open>int\<close>, the products and sums are \<open>uint32_t\<close>.\<close>

definition enf_new_size :: "nat \<Rightarrow> nat \<Rightarrow> nat \<Rightarrow> nat option" where
  "enf_new_size bitoff tsz step =
     (let incbyte = u32_sub (bitoff div 8 + 1) tsz
      in if step = 0 then None
         else let how = u32_sub (u32 (incbyte + step)) 1 div step in Some (u32 (tsz + u32 (how * step))))"

definition EF_SET :: "nat \<Rightarrow> CEmptyNodeFilter \<Rightarrow> CEmptyNodeFilter option" where
  "EF_SET key F = do {
     bitoff \<leftarrow> EF_Offset F key;
     tableid \<leftarrow> EF_Index F key;
     let t = enf_tables (enf F) tableid;
     if t_size t < bitoff div 8 + 1
     then do {
       size \<leftarrow> enf_new_size bitoff (t_size t) (enf_step (enf F));
       (h, b) \<leftarrow> BM_ReAlloc (t_handle t) size (ef_bm F);
       let F1 = upd_table tableid (\<lambda>t. t\<lparr>t_handle := h\<rparr>) (F\<lparr>ef_bm := b\<rparr>);
       if h = INVALID_HANDLE then Some F1
       else do {
         let F2 = upd_table tableid (\<lambda>t. t\<lparr>t_size := size\<rparr>) F1;
         p \<leftarrow> Handle2Ptr h;
         Some (F2\<lparr>ef_bm := set_b bitoff p (ef_bm F2)\<rparr>)
       }
     }
     else do { p \<leftarrow> Handle2Ptr (t_handle t); Some (F\<lparr>ef_bm := set_b bitoff p (ef_bm F)\<rparr>) }
   }"

definition EF_CLR :: "nat \<Rightarrow> CEmptyNodeFilter \<Rightarrow> CEmptyNodeFilter option" where
  "EF_CLR key F = do {
     bitoff \<leftarrow> EF_Offset F key;
     tableid \<leftarrow> EF_Index F key;
     let t = enf_tables (enf F) tableid;
     if t_size t < bitoff div 8 + 1 then Some F
     else do { p \<leftarrow> Handle2Ptr (t_handle t); Some (F\<lparr>ef_bm := clr_b bitoff p (ef_bm F)\<rparr>) }
   }"

text \<open>\<open>Calloc\<close> clears the tables that lie inside the size it is asked for.\<close>

definition EF_Init :: "nat \<Rightarrow> nat \<Rightarrow> nat \<Rightarrow> CEmptyNodeFilter \<Rightarrow> (int \<times> CEmptyNodeFilter) option" where
  "EF_Init tot step md F =
     (let md' = (if md \<noteq> 0 then md else DF_ENF_MOD); step' = (if step \<noteq> 0 then step else DF_ENF_STEP);
          total' = (if tot \<noteq> 0 then tot else DF_ENF_TOTAL); size = u32 (SIZEOF_ENF_T + SIZEOF_ENF_TABLE_T * md')
      in do {
        (v, b) \<leftarrow> BM_Calloc size (ef_bm F);
        if v = INVALID_HANDLE then Some (-1, F\<lparr>ef_bm := b\<rparr>)
        else let F1 = F\<lparr>ef_bm := b, p_enf := v\<rparr>
             in Some (0, upd_enf (\<lambda>e. \<lparr>enf_total = total', enf_step = step', enf_mod = md',
                  enf_tables = (\<lambda>i. if SIZEOF_ENF_T + SIZEOF_ENF_TABLE_T * (i + 1) \<le> size then \<lparr>t_handle = 0, t_size = 0\<rparr>
                    else enf_tables e i)\<rparr>) F1)
      })"

definition EF_Attach :: "handle \<Rightarrow> CEmptyNodeFilter \<Rightarrow> int \<times> CEmptyNodeFilter" where
  "EF_Attach v F = (if v = INVALID_HANDLE then (-1, F) else (0, F\<lparr>p_enf := v\<rparr>))"

definition EF_Detach :: "CEmptyNodeFilter \<Rightarrow> int \<times> CEmptyNodeFilter" where
  "EF_Detach F = (0, F\<lparr>p_enf := INVALID_HANDLE\<rparr>)"

section \<open>Bit operations\<close>

lemma isset_b_bit: "isset_b bt a b = (if bit (m_user b (a + bt div 8)) (bt mod 8) then 1 else 0)"
  using and_exp_eq_0_iff_not_bit [of "m_user b (a + bt div 8)" "bt mod 8"] by (auto simp: isset_b_def CHAR_BITS_def Let_def push_bit_of_1)

lemma bit_u8: "bit (u8 x) j \<longleftrightarrow> j < 8 \<and> bit x j"
proof -
  have "u8 x = take_bit 8 x" by (simp add: u8_def take_bit_eq_mod)
  then show ?thesis by (simp add: bit_take_bit_iff)
qed

lemma bit_written:
  assumes "j < 8" "s < 8"
  shows "bit (u8 (x OR push_bit s 1)) j \<longleftrightarrow> j = s \<or> bit x j" "bit (u8 (x AND (255 XOR push_bit s 1))) j \<longleftrightarrow> j \<noteq> s \<and> bit x j"
proof -
  have m: "(255 :: nat) = mask 8" by (simp add: mask_eq_exp_minus_1)
  show "bit (u8 (x OR push_bit s 1)) j \<longleftrightarrow> j = s \<or> bit x j"
    using assms by (auto simp: bit_u8 bit_or_iff push_bit_of_1 bit_exp_iff)
  show "bit (u8 (x AND (255 XOR push_bit s 1))) j \<longleftrightarrow> j \<noteq> s \<and> bit x j"
    using assms unfolding m by (auto simp: bit_u8 bit_and_iff bit_xor_iff push_bit_of_1 bit_exp_iff bit_mask_iff)
qed

text \<open>Writing one bit of one byte.\<close>

definition bit_written_to :: "bool \<Rightarrow> nat \<Rightarrow> nat \<Rightarrow> CBinMalloc \<Rightarrow> CBinMalloc \<Rightarrow> bool" where
  "bit_written_to c bt a b b' \<longleftrightarrow> (\<exists>v. b' = user_put (a + bt div 8) [v] b
     \<and> (\<forall>j<8. bit v j \<longleftrightarrow> (if j = bt mod 8 then c else bit (m_user b (a + bt div 8)) j)))"

lemma set_clr_b: "bit_written_to True bt a b (set_b bt a b)" "bit_written_to False bt a b (clr_b bt a b)"
proof -
  let ?x = "m_user b (a + bt div 8)" and ?s = "bt mod 8"
  show "bit_written_to True bt a b (set_b bt a b)"
    unfolding bit_written_to_def set_b_def CHAR_BITS_def Let_def
    by (rule exI [of _ "u8 (?x OR push_bit ?s 1)"]) (use bit_written(1) [of _ ?s ?x] in auto)
  show "bit_written_to False bt a b (clr_b bt a b)"
    unfolding bit_written_to_def clr_b_def CHAR_BITS_def Let_def
    by (rule exI [of _ "u8 (?x AND (255 XOR push_bit ?s 1))"]) (use bit_written(2) [of _ ?s ?x] in auto)
qed

lemma isset_written:
  assumes "bit_written_to c bt a b b'"
  shows "isset_b q a b' = (if q = bt then (if c then 1 else 0) else isset_b q a b)"
    "a' + q div 8 \<noteq> a + bt div 8 \<Longrightarrow> isset_b q a' b' = isset_b q a' b" "BM_chunks b' = BM_chunks b" "BM_sound b \<Longrightarrow> BM_sound b'"
proof -
  obtain v where b': "b' = user_put (a + bt div 8) [v] b" and v: "\<And>j. j < 8 \<Longrightarrow> bit v j \<longleftrightarrow> (if j = bt mod 8 then c else bit (m_user b (a + bt div 8)) j)"
    using assms by (auto simp: bit_written_to_def)
  have m: "m_user b' x = (if x = a + bt div 8 then v else m_user b x)" for x by (auto simp: b' user_put_def)
  have "q = bt \<longleftrightarrow> q div 8 = bt div 8 \<and> q mod 8 = bt mod 8" by (metis div_mult_mod_eq)
  then show "isset_b q a b' = (if q = bt then (if c then 1 else 0) else isset_b q a b)"
    using v [of "q mod 8"] by (auto simp: isset_b_bit m)
  show "a' + q div 8 \<noteq> a + bt div 8 \<Longrightarrow> isset_b q a' b' = isset_b q a' b" by (simp add: isset_b_bit m)
  show "BM_chunks b' = BM_chunks b" "BM_sound b \<Longrightarrow> BM_sound b'" unfolding b' by (simp_all add: BM_chunks_user BM_sound_user)
qed

section \<open>The invariant of the filter\<close>

definition table_ok :: "CBinMalloc \<Rightarrow> ENF_TABLE_T \<Rightarrow> bool" where
  "table_ok b t \<longleftrightarrow> t_handle t = INVALID_HANDLE \<and> t_size t = 0 \<or> (\<exists>k. (t_handle t, k) \<in> BM_chunks b \<and> t_size t \<le> k)"

definition filter_inv :: "CEmptyNodeFilter \<Rightarrow> bool" where
  "filter_inv F \<longleftrightarrow> BM_sound (ef_bm F) \<and> p_enf F \<in> fst ` BM_chunks (ef_bm F) \<and> 0 < enf_mod (enf F)
     \<and> 0 < enf_step (enf F) \<and> enf_step (enf F) \<le> 2 ^ 31
     \<and> (\<forall>i<enf_mod (enf F). table_ok (ef_bm F) (enf_tables (enf F) i) \<and> t_handle (enf_tables (enf F) i) \<noteq> p_enf F)
     \<and> (\<forall>i<enf_mod (enf F). \<forall>j<enf_mod (enf F). i \<noteq> j \<longrightarrow> t_handle (enf_tables (enf F) i) = t_handle (enf_tables (enf F) j)
          \<longrightarrow> t_handle (enf_tables (enf F) i) = INVALID_HANDLE)"

lemma filter_invD:
  assumes "filter_inv F"
  shows "BM_sound (ef_bm F)" "p_enf F \<in> fst ` BM_chunks (ef_bm F)" "0 < enf_mod (enf F)" "0 < enf_step (enf F)" "enf_step (enf F) \<le> 2 ^ 31"
    "\<And>i. i < enf_mod (enf F) \<Longrightarrow> table_ok (ef_bm F) (enf_tables (enf F) i)" "\<And>i. i < enf_mod (enf F) \<Longrightarrow> t_handle (enf_tables (enf F) i) \<noteq> p_enf F"
    "\<And>i j. i < enf_mod (enf F) \<Longrightarrow> j < enf_mod (enf F) \<Longrightarrow> i \<noteq> j \<Longrightarrow> t_handle (enf_tables (enf F) i) = t_handle (enf_tables (enf F) j)
       \<Longrightarrow> t_handle (enf_tables (enf F) i) = INVALID_HANDLE"
  using assms unfolding filter_inv_def by blast+

abbreviation table_of :: "CEmptyNodeFilter \<Rightarrow> nat \<Rightarrow> ENF_TABLE_T" where
  "table_of F key \<equiv> enf_tables (enf F) (key mod enf_mod (enf F))"

abbreviation off_of :: "CEmptyNodeFilter \<Rightarrow> nat \<Rightarrow> nat" where
  "off_of F key \<equiv> key div enf_mod (enf F)"

definition covered :: "CEmptyNodeFilter \<Rightarrow> nat \<Rightarrow> bool" where
  "covered F key \<longleftrightarrow> off_of F key div 8 < t_size (table_of F key)"

lemma places:
  assumes "filter_inv F"
  shows "EF_Index F key = Some (key mod enf_mod (enf F))" "EF_Offset F key = Some (off_of F key)" "key mod enf_mod (enf F) < enf_mod (enf F)"
proof -
  note d = filter_invD [OF assms]
  have "p_enf F \<noteq> INVALID_HANDLE" using d(1,2) bmm.cm_handle by (auto simp: INVALID_HANDLE_def)
  then show "EF_Index F key = Some (key mod enf_mod (enf F))" "EF_Offset F key = Some (off_of F key)" "key mod enf_mod (enf F) < enf_mod (enf F)"
    using d(3) by (simp_all add: EF_Index_def EF_Offset_def non_null_def)
qed

lemma covered_chunk:
  assumes inv: "filter_inv F" and c: "covered F key"
  obtains k where "(t_handle (table_of F key), k) \<in> BM_chunks (ef_bm F)" "off_of F key div 8 < k" "t_handle (table_of F key) \<noteq> INVALID_HANDLE"
proof -
  note d = filter_invD [OF inv]
  from d(6) [OF places(3) [OF inv], of key] c obtain k where "(t_handle (table_of F key), k) \<in> BM_chunks (ef_bm F)" "t_size (table_of F key) \<le> k"
    by (auto simp: table_ok_def covered_def)
  with bmm.cm_handle [OF d(1) this(1)] c show ?thesis by (intro that [of k]) (auto simp: covered_def INVALID_HANDLE_def)
qed

lemma EF_ISSET_eq:
  assumes "filter_inv F"
  shows "EF_ISSET key F = Some (if covered F key then isset_b (off_of F key) (t_handle (table_of F key)) (ef_bm F) else 0)"
proof (cases "covered F key")
  case True
  from covered_chunk [OF assms True] have "t_handle (table_of F key) \<noteq> INVALID_HANDLE" by blast
  then show ?thesis using True places [OF assms] by (simp add: EF_ISSET_def covered_def Handle2Ptr_def)
qed (use places [OF assms] in \<open>simp add: EF_ISSET_def covered_def\<close>)

lemma write_bit:
  assumes inv: "filter_inv F" and c: "covered F key" and w: "bit_written_to v (off_of F key) (t_handle (table_of F key)) (ef_bm F) b"
  shows "filter_inv (F\<lparr>ef_bm := b\<rparr>)" "EF_ISSET k (F\<lparr>ef_bm := b\<rparr>) = (if k = key then Some (if v then 1 else 0) else EF_ISSET k F)"
proof -
  note d = filter_invD [OF inv] and i = isset_written [OF w]
  show inv': "filter_inv (F\<lparr>ef_bm := b\<rparr>)" using inv i(3,4) by (simp add: filter_inv_def table_ok_def)
  have cov: "covered (F\<lparr>ef_bm := b\<rparr>) k = covered F k" for k by (simp add: covered_def)
  show "EF_ISSET k (F\<lparr>ef_bm := b\<rparr>) = (if k = key then Some (if v then 1 else 0) else EF_ISSET k F)"
  proof (cases "covered F k")
    case False
    then show ?thesis using c by (auto simp: EF_ISSET_eq [OF inv'] EF_ISSET_eq [OF inv] cov)
  next
    case True
    show ?thesis
    proof (cases "k mod enf_mod (enf F) = key mod enf_mod (enf F)")
      case m: True
      have "k = key \<longleftrightarrow> off_of F k = off_of F key" using m by (metis div_mult_mod_eq)
      then show ?thesis using True m i(1) by (auto simp: EF_ISSET_eq [OF inv'] EF_ISSET_eq [OF inv] cov)
    next
      case m: False
      obtain j where j: "(t_handle (table_of F key), j) \<in> BM_chunks (ef_bm F)" "off_of F key div 8 < j" by (rule covered_chunk [OF inv c])
      obtain l where l: "(t_handle (table_of F k), l) \<in> BM_chunks (ef_bm F)" "off_of F k div 8 < l" "t_handle (table_of F k) \<noteq> INVALID_HANDLE"
        by (rule covered_chunk [OF inv True])
      have "t_handle (table_of F k) \<noteq> t_handle (table_of F key)" using d(8) [OF places(3) [OF inv] places(3) [OF inv] m] l(3) by blast
      then have "t_handle (table_of F k) + off_of F k div 8 \<noteq> t_handle (table_of F key) + off_of F key div 8"
        using bmm.cm_apart [OF d(1) l(1) j(1)] l(2) j(2) by linarith
      then show ?thesis using True m i(2) by (auto simp: EF_ISSET_eq [OF inv'] EF_ISSET_eq [OF inv] cov)
    qed
  qed
qed

section \<open>Growing a table\<close>

lemma ReAlloc_null: "n \<noteq> 0 \<Longrightarrow> BM_ReAlloc INVALID_HANDLE n st = BM_Malloc n st"
  by (auto simp: BM_ReAlloc_def BM_Malloc_def InterReAlloc_def account_alloc_def AddAllocSizeToStat_def set_head_def Let_def u64_sub_def u64_def
      split: option.splits)

lemma enf_new_size_ok:
  assumes "bitoff < 2 ^ 32" "tsz \<le> bitoff div 8" "0 < step" "step \<le> 2 ^ 31"
  obtains sz where "enf_new_size bitoff tsz step = Some sz" "bitoff div 8 < sz" "sz < 2 ^ 32"
proof -
  define c where "c = bitoff div 8 + 1 - tsz"
  have b: "bitoff div 8 + 1 \<le> 2 ^ 29" using assms(1) by (simp add: less_mult_imp_div_less Suc_leI)
  have c: "0 < c" "c \<le> 2 ^ 29" "tsz + c = bitoff div 8 + 1" using assms(2) b by (auto simp: c_def)
  define how where "how = (c + step - 1) div step"
  have l: "how * step \<le> c + step - 1" by (simp add: how_def)
  have "c + step - 1 < how * step + step" using assms(3) dividend_less_div_times [of step "c + step - 1"] by (simp add: how_def add.commute)
  then have h: "c \<le> how * step" by simp
  have "u32_sub (bitoff div 8 + 1) tsz = c" using u32_sub_eq [of tsz "bitoff div 8 + 1"] assms(2) b by (simp add: c_def)
  moreover have "u32 (c + step) = c + step" using c(2) assms(4) by (simp add: u32_def)
  moreover have "u32_sub (c + step) 1 = c + step - 1" using u32_sub_eq [of 1 "c + step"] c assms(3,4) by simp
  moreover have "u32 (how * step) = how * step" using l c(2) assms(4) by (simp add: u32_def)
  moreover have "u32 (tsz + how * step) = tsz + how * step" using l c b assms(4) by (simp add: u32_def)
  ultimately have "enf_new_size bitoff tsz step = Some (tsz + how * step)" using assms(3) by (simp add: enf_new_size_def how_def)
  then show ?thesis by (rule that) (use h l c b assms(4) in auto)
qed

lemma realloc_table:
  assumes inv: "filter_inv F" and i: "i < enf_mod (enf F)" and n: "0 < n"
  defines "t \<equiv> enf_tables (enf F) i"
  obtains b where "BM_ReAlloc (t_handle t) n (ef_bm F) = Some (INVALID_HANDLE, b)"
      "\<And>g j x. (g, j) \<in> BM_chunks (ef_bm F) \<Longrightarrow> x < j \<Longrightarrow> m_user b (g + x) = m_user (ef_bm F) (g + x)"
  | h b k C where "BM_ReAlloc (t_handle t) n (ef_bm F) = Some (h, b)" "h \<noteq> INVALID_HANDLE" "BM_sound b" "n \<le> k" "BM_chunks b = insert (h, k) C"
      "\<And>g j. (g, j) \<in> BM_chunks (ef_bm F) \<Longrightarrow> g \<noteq> t_handle t \<Longrightarrow> (g, j) \<in> C" "h \<notin> fst ` C"
      "\<And>g j x. (g, j) \<in> C \<Longrightarrow> x < j \<Longrightarrow> m_user b (g + x) = m_user (ef_bm F) (g + x)"
      "\<And>x. x < t_size t \<Longrightarrow> x < n \<Longrightarrow> m_user b (h + x) = m_user (ef_bm F) (t_handle t + x)"
proof -
  note d = filter_invD [OF inv]
  let ?b = "ef_bm F"
  show ?thesis
  proof (cases "t_handle t = INVALID_HANDLE")
    case True
    have z: "t_size t = 0" using d(6) [OF i] True bmm.cm_handle [OF d(1)] by (auto simp: table_ok_def t_def INVALID_HANDLE_def)
    have e: "BM_ReAlloc (t_handle t) n ?b = BM_Malloc n ?b" using True n ReAlloc_null by simp
    obtain h b where m: "BM_Malloc n ?b = Some (h, b)" "BM_sound b"
      "h = 0 \<and> BM_chunks b = BM_chunks ?b \<or> h \<noteq> 0 \<and> (\<exists>k. n \<le> k \<and> h \<notin> fst ` BM_chunks ?b \<and> BM_chunks b = insert (h, k) (BM_chunks ?b))"
      "\<And>g j x. (g, j) \<in> BM_chunks ?b \<Longrightarrow> x < j \<Longrightarrow> m_user b (g + x) = m_user ?b (g + x)"
      using bmm.cm_malloc [OF d(1), of n, unfolded BM_mem_simps] by blast
    from m(3) show ?thesis
    proof
      assume "h = 0 \<and> BM_chunks b = BM_chunks ?b"
      then show ?thesis using that(1) [of b] e m(1,4) by (simp add: INVALID_HANDLE_def)
    next
      assume "h \<noteq> 0 \<and> (\<exists>k. n \<le> k \<and> h \<notin> fst ` BM_chunks ?b \<and> BM_chunks b = insert (h, k) (BM_chunks ?b))"
      then obtain k where k: "h \<noteq> 0" "n \<le> k" "h \<notin> fst ` BM_chunks ?b" "BM_chunks b = insert (h, k) (BM_chunks ?b)" by blast
      show ?thesis by (rule that(2) [of h b k "BM_chunks ?b"]) (use e m(1,2,4) k z in \<open>auto simp: INVALID_HANDLE_def\<close>)
    qed
  next
    case False
    then obtain k where k: "(t_handle t, k) \<in> BM_chunks ?b" "t_size t \<le> k" using d(6) [OF i] by (auto simp: table_ok_def t_def)
    let ?C = "BM_chunks ?b - {(t_handle t, k)}"
    obtain h b where m: "BM_ReAlloc (t_handle t) n ?b = Some (h, b)" by (meson bmm.cm_realloc [OF d(1) k(1) n, unfolded BM_mem_simps])
    note law = bmm.cm_realloc [OF d(1) k(1) n, unfolded BM_mem_simps m option.inject prod.inject, simplified]
    show ?thesis
    proof (cases "h = 0")
      case True
      then show ?thesis using that(1) [of b] m law by (simp add: INVALID_HANDLE_def)
    next
      case False
      with law obtain k' where q: "BM_sound b" "n \<le> k'" "h \<notin> fst ` ?C" "BM_chunks b = insert (h, k') ?C"
        "\<forall>i. i < k \<and> i < k' \<longrightarrow> m_user b (h + i) = m_user ?b (t_handle t + i)"
        "\<forall>g j. (g, j) \<in> BM_chunks ?b \<and> (g = t_handle t \<longrightarrow> j \<noteq> k) \<longrightarrow> (\<forall>i<j. m_user b (g + i) = m_user ?b (g + i))" by auto
      show ?thesis
      proof (rule that(2) [OF m _ q(1,2,4)])
        show "m_user b (h + x) = m_user ?b (t_handle t + x)" if "x < t_size t" "x < n" for x
          using q(5) that k(2) q(2) by simp
      qed (use False q(3,6) in \<open>auto simp: INVALID_HANDLE_def\<close>)
    qed
  qed
qed

lemma EF_ISSET_gen:
  assumes "p_enf F \<noteq> INVALID_HANDLE" "0 < enf_mod (enf F)"
  shows "EF_ISSET key F = (if covered F key then if t_handle (table_of F key) = INVALID_HANDLE then None
      else Some (isset_b (off_of F key) (t_handle (table_of F key)) (ef_bm F)) else Some 0)"
  using assms by (simp add: EF_ISSET_def EF_Offset_def EF_Index_def non_null_def covered_def Handle2Ptr_def)

lemma isset_cong: "m_user b' (a' + q div 8) = m_user b (a + q div 8) \<Longrightarrow> isset_b q a' b' = isset_b q a b"
  by (simp add: isset_b_bit)

definition grown :: "nat \<Rightarrow> handle \<Rightarrow> nat \<Rightarrow> CBinMalloc \<Rightarrow> CEmptyNodeFilter \<Rightarrow> CEmptyNodeFilter" where
  "grown i h sz b F = upd_table i (\<lambda>t. t\<lparr>t_size := sz\<rparr>) (upd_table i (\<lambda>t. t\<lparr>t_handle := h\<rparr>) (F\<lparr>ef_bm := b\<rparr>))"

lemma grown_simps:
  "p_enf (grown i h sz b F) = p_enf F" "ef_bm (grown i h sz b F) = b" "enf_mod (m_enf (grown i h sz b F) (p_enf F)) = enf_mod (enf F)"
  "enf_step (m_enf (grown i h sz b F) (p_enf F)) = enf_step (enf F)"
  "enf_tables (m_enf (grown i h sz b F) (p_enf F)) j = (if j = i then (enf_tables (enf F) i)\<lparr>t_handle := h, t_size := sz\<rparr> else enf_tables (enf F) j)"
  by (simp_all add: grown_def upd_table_def upd_enf_def)

lemma grow_table:
  assumes inv: "filter_inv F" and i: "i < enf_mod (enf F)" and sz: "t_size (enf_tables (enf F) i) < sz"
    and r: "h \<noteq> INVALID_HANDLE" "BM_sound b" "sz \<le> k" "BM_chunks b = insert (h, k) C"
      "\<And>g j. (g, j) \<in> BM_chunks (ef_bm F) \<Longrightarrow> g \<noteq> t_handle (enf_tables (enf F) i) \<Longrightarrow> (g, j) \<in> C" "h \<notin> fst ` C"
      "\<And>g j x. (g, j) \<in> C \<Longrightarrow> x < j \<Longrightarrow> m_user b (g + x) = m_user (ef_bm F) (g + x)"
      "\<And>x. x < t_size (enf_tables (enf F) i) \<Longrightarrow> x < sz \<Longrightarrow> m_user b (h + x) = m_user (ef_bm F) (t_handle (enf_tables (enf F) i) + x)"
  shows "filter_inv (grown i h sz b F)"
    "covered F q \<or> q mod enf_mod (enf F) \<noteq> i \<or> \<not> covered (grown i h sz b F) q \<Longrightarrow> EF_ISSET q (grown i h sz b F) = EF_ISSET q F"
proof -
  note d = filter_invD [OF inv]
  let ?F = "grown i h sz b F" and ?t = "\<lambda>j. enf_tables (enf F) j" and ?m = "enf_mod (enf F)"
  have oth: "t_handle (?t j) = INVALID_HANDLE \<and> t_size (?t j) = 0 \<or> (\<exists>l. (t_handle (?t j), l) \<in> C \<and> t_size (?t j) \<le> l)"
    if "j < ?m" "j \<noteq> i" for j
  proof -
    from d(6) [OF that(1)] consider "t_handle (?t j) = INVALID_HANDLE" "t_size (?t j) = 0"
      | l where "(t_handle (?t j), l) \<in> BM_chunks (ef_bm F)" "t_size (?t j) \<le> l" by (auto simp: table_ok_def)
    then show ?thesis
    proof cases
      case 2
      then have "t_handle (?t j) \<noteq> INVALID_HANDLE" using bmm.cm_handle [OF d(1)] by (auto simp: INVALID_HANDLE_def)
      then have "t_handle (?t j) \<noteq> t_handle (?t i)" using d(8) [OF that(1) i that(2)] by blast
      then show ?thesis using r(5) [OF 2(1)] 2(2) by blast
    qed simp
  qed
  have p: "p_enf F \<in> fst ` C" using d(2) d(7) [OF i] r(5) by (force simp: image_iff)
  have ne: "h \<noteq> t_handle (?t j)" if "j < ?m" "j \<noteq> i" for j using oth [OF that] r(1,6) by (force simp: image_iff)
  show inv': "filter_inv ?F" unfolding filter_inv_def grown_simps
  proof (intro conjI allI impI)
    show "p_enf F \<in> fst ` BM_chunks b" using p r(4) by simp
    fix j
    assume j: "j < ?m"
    show "table_ok b (if j = i then (?t i)\<lparr>t_handle := h, t_size := sz\<rparr> else ?t j)" using oth [OF j] r(3,4) by (auto simp: table_ok_def)
    show "t_handle (if j = i then (?t i)\<lparr>t_handle := h, t_size := sz\<rparr> else ?t j) \<noteq> p_enf F" using d(7) [OF j] p r(6) by auto
    fix l
    assume l: "l < ?m" "j \<noteq> l" "t_handle (if j = i then (?t i)\<lparr>t_handle := h, t_size := sz\<rparr> else ?t j)
      = t_handle (if l = i then (?t i)\<lparr>t_handle := h, t_size := sz\<rparr> else ?t l)"
    then show "t_handle (if j = i then (?t i)\<lparr>t_handle := h, t_size := sz\<rparr> else ?t j) = INVALID_HANDLE"
      using d(8) [OF j l(1,2)] ne [OF j] ne [OF l(1)] by (auto split: if_splits)
  qed (use r(2) d in simp_all)
  assume q: "covered F q \<or> q mod ?m \<noteq> i \<or> \<not> covered ?F q"
  let ?o = "q div ?m"
  show "EF_ISSET q ?F = EF_ISSET q F"
  proof (cases "q mod ?m = i")
    case True
    have "covered F q \<Longrightarrow> covered ?F q" using True sz by (simp add: covered_def grown_simps)
    moreover have "isset_b ?o h b = isset_b ?o (t_handle (?t i)) (ef_bm F)" if "covered F q"
      by (rule isset_cong [OF r(8)]) (use that True sz in \<open>simp_all add: covered_def\<close>)
    ultimately show ?thesis using q True by (auto simp: EF_ISSET_eq [OF inv'] EF_ISSET_eq [OF inv] grown_simps)
  next
    case False
    have c: "covered ?F q = covered F q" using False by (simp add: covered_def grown_simps)
    have "isset_b ?o (t_handle (?t (q mod ?m))) b = isset_b ?o (t_handle (?t (q mod ?m))) (ef_bm F)" if cq: "covered F q"
    proof (rule isset_cong)
      obtain l where "(t_handle (?t (q mod ?m)), l) \<in> C" "?o div 8 < l"
        using oth [OF places(3) [OF inv] False] cq unfolding covered_def by (metis less_le_trans not_less_zero)
      then show "m_user b (t_handle (?t (q mod ?m)) + ?o div 8) = m_user (ef_bm F) (t_handle (?t (q mod ?m)) + ?o div 8)" by (rule r(7))
    qed
    then show ?thesis using False c by (simp add: EF_ISSET_eq [OF inv'] EF_ISSET_eq [OF inv] grown_simps)
  qed
qed

section \<open>Setting and clearing keys\<close>

lemma filter_handle: "filter_inv F \<Longrightarrow> p_enf F \<noteq> INVALID_HANDLE"
  using filter_invD(1,2) bmm.cm_handle by (fastforce simp: INVALID_HANDLE_def)

lemma EF_CLR_spec:
  assumes inv: "filter_inv F"
  shows "\<exists>F'. EF_CLR key F = Some F' \<and> filter_inv F' \<and> (\<forall>k. EF_ISSET k F' = (if k = key then Some 0 else EF_ISSET k F))"
proof (cases "covered F key")
  case True
  from covered_chunk [OF inv True] have h: "t_handle (table_of F key) \<noteq> INVALID_HANDLE" by blast
  let ?F = "F\<lparr>ef_bm := clr_b (off_of F key) (t_handle (table_of F key)) (ef_bm F)\<rparr>"
  have "EF_CLR key F = Some ?F" using True h places [OF inv] by (simp add: EF_CLR_def covered_def Handle2Ptr_def)
  then show ?thesis using write_bit [OF inv True set_clr_b(2)] by (intro exI [of _ ?F]) simp
next
  case False
  then have "EF_CLR key F = Some F" using places [OF inv] by (simp add: EF_CLR_def covered_def)
  then show ?thesis using inv False by (auto simp: EF_ISSET_eq [OF inv])
qed

definition lost :: "nat \<Rightarrow> CBinMalloc \<Rightarrow> CEmptyNodeFilter \<Rightarrow> CEmptyNodeFilter" where
  "lost i b F = upd_table i (\<lambda>t. t\<lparr>t_handle := INVALID_HANDLE\<rparr>) (F\<lparr>ef_bm := b\<rparr>)"

lemma lost_spec:
  assumes inv: "filter_inv F" and b: "\<And>g j x. (g, j) \<in> BM_chunks (ef_bm F) \<Longrightarrow> x < j \<Longrightarrow> m_user b (g + x) = m_user (ef_bm F) (g + x)"
  shows "EF_ISSET k (lost i b F) = (if k mod enf_mod (enf F) = i \<and> covered F k then None else EF_ISSET k F)"
proof -
  let ?F = "lost i b F"
  have s: "p_enf ?F = p_enf F" "ef_bm ?F = b" "enf_mod (m_enf ?F (p_enf F)) = enf_mod (enf F)"
    "enf_tables (m_enf ?F (p_enf F)) j = (if j = i then (enf_tables (enf F) i)\<lparr>t_handle := INVALID_HANDLE\<rparr> else enf_tables (enf F) j)" for j
    by (simp_all add: lost_def upd_table_def upd_enf_def)
  have c: "covered ?F k = covered F k" by (simp add: covered_def s)
  have "isset_b (off_of F k) (t_handle (table_of F k)) b = isset_b (off_of F k) (t_handle (table_of F k)) (ef_bm F)" if cov: "covered F k"
    by (rule covered_chunk [OF inv cov], rule isset_cong, rule b)
  moreover have "t_handle (table_of F k) \<noteq> INVALID_HANDLE" if cov: "covered F k" by (rule covered_chunk [OF inv cov])
  ultimately show ?thesis
    using EF_ISSET_gen [of ?F k] filter_handle [OF inv] filter_invD(3) [OF inv] by (auto simp: s c EF_ISSET_eq [OF inv])
qed

lemma EF_SET_spec:
  assumes inv: "filter_inv F" and key: "key < 2 ^ 32"
  defines "m \<equiv> enf_mod (enf F)"
  obtains F' where "EF_SET key F = Some F'" "filter_inv F'" "EF_ISSET key F' = Some 1"
      "\<And>k. k \<noteq> key \<Longrightarrow> covered F k \<or> k mod m \<noteq> key mod m \<or> \<not> covered F' k \<Longrightarrow> EF_ISSET k F' = EF_ISSET k F"
  | F' where "EF_SET key F = Some F'" "\<not> covered F key" "\<And>k. EF_ISSET k F' = (if k mod m = key mod m \<and> covered F k then None else EF_ISSET k F)"
proof (cases "covered F key")
  case True
  from covered_chunk [OF inv True] have h: "t_handle (table_of F key) \<noteq> INVALID_HANDLE" by blast
  let ?F = "F\<lparr>ef_bm := set_b (off_of F key) (t_handle (table_of F key)) (ef_bm F)\<rparr>"
  have "EF_SET key F = Some ?F" using True h places [OF inv] by (simp add: EF_SET_def covered_def Handle2Ptr_def)
  then show ?thesis by (rule that(1)) (use write_bit [OF inv True set_clr_b(1)] in simp_all)
next
  case False
  note d = filter_invD [OF inv]
  let ?i = "key mod enf_mod (enf F)" and ?o = "off_of F key"
  have "?o \<le> key" by simp
  then have o: "?o < 2 ^ 32" using key by linarith
  have z: "t_size (table_of F key) \<le> ?o div 8" using False by (simp add: covered_def)
  obtain sz where sz: "enf_new_size ?o (t_size (table_of F key)) (enf_step (enf F)) = Some sz" "?o div 8 < sz"
    by (rule enf_new_size_ok [OF o z d(4,5)])
  have n: "0 < sz" "t_size (table_of F key) < sz" using sz(2) z by simp_all
  have lt: "t_size (table_of F key) < ?o div 8 + 1" using z by simp
  show ?thesis
  proof (cases rule: realloc_table [OF inv places(3) [OF inv, of key] n(1)])
    case (1 b)
    have "EF_SET key F = Some (lost ?i b F)" using places [OF inv] sz(1) 1(1) lt by (simp add: EF_SET_def lost_def)
    then show ?thesis by (rule that(2)) (use False lost_spec [OF inv 1(2)] m_def in simp_all)
  next
    case (2 h b k C)
    let ?F = "grown ?i h sz b F"
    note g = grow_table [OF inv places(3) [OF inv] n(2) 2(2-9)]
    have pl: "off_of ?F key = ?o" "t_handle (table_of ?F key) = h" by (simp_all add: grown_simps)
    have c: "covered ?F key" using sz(2) by (simp add: covered_def grown_simps)
    let ?G = "?F\<lparr>ef_bm := set_b ?o h b\<rparr>"
    have e: "EF_SET key F = Some ?G"
      using places [OF inv] sz(1) 2(1,2) lt by (simp add: EF_SET_def grown_def Handle2Ptr_def upd_table_def upd_enf_def)
    have w: "bit_written_to True (off_of ?F key) (t_handle (table_of ?F key)) (ef_bm ?F) (set_b ?o h b)"
      using set_clr_b(1) by (simp add: grown_simps)
    note wb = write_bit [OF g(1) c w]
    have cv: "covered ?G q = covered ?F q" for q by (simp add: covered_def)
    show ?thesis by (rule that(1) [OF e wb(1)]) (use wb(2) g(2) cv m_def in simp_all)
  qed
qed

text \<open>The first key of a table: the other keys it covers then have the bits that lay in the segment before.\<close>

lemma EF_SET_stale:
  assumes inv: "filter_inv F" and key: "key < 2 ^ 32" and t: "t_handle (table_of F key) = INVALID_HANDLE"
    and s: "EF_SET key F = Some F'" "filter_inv F'" and k: "k \<noteq> key" "k mod enf_mod (enf F) = key mod enf_mod (enf F)" "covered F' k"
  shows "EF_ISSET k F' = Some (isset_b (off_of F k) (t_handle (table_of F' k)) (ef_bm F))"
proof -
  note d = filter_invD [OF inv]
  let ?i = "key mod enf_mod (enf F)" and ?o = "off_of F key"
  have z: "t_size (table_of F key) = 0"
    using d(6) [OF places(3) [OF inv], of key] t bmm.cm_handle [OF d(1)] by (auto simp: table_ok_def INVALID_HANDLE_def)
  have "?o \<le> key" by simp
  then have "?o < 2 ^ 32" using key by linarith
  then obtain sz where sz: "enf_new_size ?o 0 (enf_step (enf F)) = Some sz" "0 < sz" using enf_new_size_ok [OF _ _ d(4,5), of ?o 0] by auto
  obtain h b where r: "BM_Malloc sz (ef_bm F) = Some (h, b)" using bmm.cm_malloc [OF d(1), of sz] by auto
  have u: "m_user b = m_user (ef_bm F)" using BM_Malloc_keeps [OF _ r] d(1) by (auto simp: BM_sound_def BM_ok_def)
  have re: "BM_ReAlloc (t_handle (table_of F key)) sz (ef_bm F) = Some (h, b)" using r t sz(2) ReAlloc_null [of sz] by simp
  have e: "EF_SET key F = Some (if h = INVALID_HANDLE then lost ?i b F else (grown ?i h sz b F)\<lparr>ef_bm := set_b ?o h b\<rparr>)"
    using places [OF inv] sz(1) z re by (simp add: EF_SET_def lost_def grown_def Handle2Ptr_def upd_table_def upd_enf_def)
  have "h \<noteq> INVALID_HANDLE"
  proof
    assume "h = INVALID_HANDLE"
    then have "F' = lost ?i b F" using e s(1) by simp
    then show False using k z by (simp add: covered_def lost_def upd_table_def upd_enf_def)
  qed
  then have F': "F' = (grown ?i h sz b F)\<lparr>ef_bm := set_b ?o h b\<rparr>" using e s(1) by simp
  have "off_of F k \<noteq> ?o" using k(1,2) by (metis div_mult_mod_eq)
  then have "isset_b (off_of F k) h (set_b ?o h b) = isset_b (off_of F k) h b" using isset_written(1) [OF set_clr_b(1)] by simp
  also have "\<dots> = isset_b (off_of F k) h (ef_bm F)" by (rule isset_cong) (simp add: u)
  finally show ?thesis using k(2,3) by (simp add: EF_ISSET_eq [OF s(2)]) (simp add: F' grown_simps)
qed

section \<open>Formatting\<close>

lemma Calloc_live:
  assumes "BM_sound b" "BM_Calloc n b = Some (h, b')" "h \<noteq> INVALID_HANDLE"
  shows "BM_sound b'" "h \<in> fst ` BM_chunks b'"
proof -
  obtain b1 where m: "BM_Malloc n b = Some (h, b1)" "b' = user_memset h 0 n b1"
    using assms(2,3) by (auto simp: BM_Calloc_def split: option.splits if_splits)
  have e: "user_memset h 0 n b1 = user_put h (replicate n 0) b1" by (rule user_memset_put)
  from bmm.cm_malloc [OF assms(1), of n, unfolded BM_mem_simps m(1) option.inject prod.inject, simplified] assms(3)
  have "BM_sound b1" "h \<in> fst ` BM_chunks b1" by (auto simp: INVALID_HANDLE_def)
  then show "BM_sound b'" "h \<in> fst ` BM_chunks b'" unfolding m(2) e by (simp_all add: BM_sound_user BM_chunks_user)
qed

lemma EF_Init_spec:
  assumes s: "BM_sound (ef_bm F)" and a: "step \<le> 2 ^ 31" "md < 2 ^ 27" and r: "EF_Init tot step md F = Some (r, F')"
  shows "r = -1 \<or> r = 0 \<and> filter_inv F' \<and> (\<forall>k. EF_ISSET k F' = Some 0)"
proof -
  define md' where "md' = (if md \<noteq> 0 then md else DF_ENF_MOD)"
  define st' where "st' = (if step \<noteq> 0 then step else DF_ENF_STEP)"
  have m: "0 < md'" "md' < 2 ^ 27" "0 < st'" "st' \<le> 2 ^ 31" using a by (auto simp: md'_def st'_def DF_ENF_MOD_def DF_ENF_STEP_def)
  define sz where "sz = SIZEOF_ENF_T + SIZEOF_ENF_TABLE_T * md'"
  have u: "u32 sz = sz" using m(2) by (simp add: sz_def u32_def SIZEOF_ENF_T_def SIZEOF_ENF_TABLE_T_def)
  obtain v b where c: "BM_Calloc sz (ef_bm F) = Some (v, b)"
    using r u by (auto simp: EF_Init_def Let_def sz_def md'_def split: bind_splits)
  show ?thesis
  proof (cases "v = INVALID_HANDLE")
    case True
    then show ?thesis using r c u by (auto simp: EF_Init_def Let_def sz_def md'_def)
  next
    case False
    note l = Calloc_live [OF s c False]
    have f: "r = 0" "p_enf F' = v" "ef_bm F' = b" "enf_mod (m_enf F' v) = md'" "enf_step (m_enf F' v) = st'"
      "i < md' \<Longrightarrow> enf_tables (m_enf F' v) i = \<lparr>t_handle = 0, t_size = 0\<rparr>" for i
      using r c u False by (auto simp: EF_Init_def Let_def sz_def md'_def st'_def upd_enf_def SIZEOF_ENF_T_def SIZEOF_ENF_TABLE_T_def)
    have "filter_inv F'" using l m False by (auto simp: filter_inv_def f table_ok_def INVALID_HANDLE_def)
    moreover have "EF_ISSET k F' = Some 0" for k
      using m(1) by (simp add: EF_ISSET_eq [OF calculation] covered_def f)
    ultimately show ?thesis using f(1) by blast
  qed
qed


definition ex_filter :: CEmptyNodeFilter where
  "ex_filter = \<lparr>ef_bm = ex_seg, m_enf = (\<lambda>_. \<lparr>enf_total = 0, enf_step = 0, enf_mod = 0, enf_tables = (\<lambda>_. \<lparr>t_handle = 0, t_size = 0\<rparr>)\<rparr>),
     p_enf = INVALID_HANDLE\<rparr>"

lemma ex_filter_init:
  obtains F where "EF_Init 0 512 3 ex_filter = Some (0, F)" "filter_inv F" "\<And>k. EF_ISSET k F = Some 0"
proof -
  have sz: "request2size 64 = 72" "\<not> REQUEST_OUT_OF_RANGE 64"
    by (simp_all add: request2size_def REQUEST_OUT_OF_RANGE_def MALLOC_ALIGN_MASK_def MINSIZE_def mask8_def)
  obtain b where b: "BM_Calloc 64 ex_seg = Some (chunk2mem 8208, b)"
  proof (rule packed_Calloc [OF ex_seg_inv _ sz(2)])
    show "free_of [] = {}" by (simp add: free_of_def)
  qed (use sz(1) ex_seg_top ex_seg_size in \<open>auto simp: MINSIZE_def\<close>)
  then obtain F where F: "EF_Init 0 512 3 ex_filter = Some (0, F)"
    by (auto simp: EF_Init_def ex_filter_def Let_def u32_def SIZEOF_ENF_T_def SIZEOF_ENF_TABLE_T_def chunk2mem_def INVALID_HANDLE_def)
  have "BM_sound (ef_bm ex_filter)" using ex_seg_inv ex_seg_size by (auto simp: ex_filter_def BM_sound_def BM_ok_def MAX_ALLOC_SIZE_def)
  then have "filter_inv F \<and> (\<forall>k. EF_ISSET k F = Some 0)" using EF_Init_spec [OF _ _ _ F] by simp
  with F show ?thesis using that by blast
qed


end
