(* ===== verification/Cache_Feature.thy ===== *)
theory Cache_Feature
  imports Node_Store
begin

text \<open>
  The table of features of the segment, \<open>cache/feature.{h,cc}\<close>: it says under which handle the node groups, the
  index, the hash, the filter of empty keys and the hot backup are found when the segment is attached.  A slot
  with the id 0 is free.  The table lives in the segment and is kept by its handle in \<open>m_base\<close>.
\<close>

record FEATURE_INFO_T =
  fi_id :: nat
  fi_attr :: nat
  fi_handle :: handle

record BASE_INFO_T =
  bi_total :: nat
  bi_features :: "nat \<Rightarrow> FEATURE_INFO_T"

definition MIN_FEATURES :: nat where "MIN_FEATURES = 32"
definition SIZEOF_FEATURE_INFO_T :: nat where "SIZEOF_FEATURE_INFO_T = 16"
definition SIZEOF_BASE_INFO_T :: nat where "SIZEOF_BASE_INFO_T = 8"

record CFeature =
  cf_bm :: CBinMalloc
  m_base :: "handle \<Rightarrow> BASE_INFO_T"
  p_base :: handle

abbreviation base :: "CFeature \<Rightarrow> BASE_INFO_T" where
  "base C \<equiv> m_base C (p_base C)"

definition upd_base :: "(BASE_INFO_T \<Rightarrow> BASE_INFO_T) \<Rightarrow> CFeature \<Rightarrow> CFeature" where
  "upd_base f C = C\<lparr>m_base := (m_base C)(p_base C := f (base C))\<rparr>"

definition put_feature :: "nat \<Rightarrow> FEATURE_INFO_T \<Rightarrow> CFeature \<Rightarrow> CFeature" where
  "put_feature i fi = upd_base (\<lambda>b. b\<lparr>bi_features := (bi_features b)(i := fi)\<rparr>)"

section \<open>Operations\<close>

text \<open>The loop from slot \<open>i\<close> on, \<open>k\<close> slots being left; the result is the slot, or \<open>None\<close> for the null pointer.\<close>

fun find_feature :: "(nat \<Rightarrow> FEATURE_INFO_T) \<Rightarrow> nat \<Rightarrow> nat \<Rightarrow> nat \<Rightarrow> nat option" where
  "find_feature fs fd i 0 = None"
| "find_feature fs fd i (Suc k) = (if fi_id (fs i) = fd then Some i else find_feature fs fd (i + 1) k)"

definition GetFeatureById :: "nat \<Rightarrow> CFeature \<Rightarrow> nat option" where
  "GetFeatureById fd C =
     (if p_base C = INVALID_HANDLE \<or> bi_total (base C) = 0 then None
      else find_feature (bi_features (base C)) fd 0 (bi_total (base C)))"

definition ModifyFeature :: "FEATURE_INFO_T option \<Rightarrow> CFeature \<Rightarrow> int \<times> CFeature" where
  "ModifyFeature fi C =
     (case fi of None \<Rightarrow> (-1, C)
      | Some f \<Rightarrow> (case GetFeatureById (fi_id f) C of None \<Rightarrow> (-2, C) | Some p \<Rightarrow> (0, put_feature p f C)))"

definition DeleteFeature :: "FEATURE_INFO_T option \<Rightarrow> CFeature \<Rightarrow> int \<times> CFeature" where
  "DeleteFeature fi C =
     (case fi of None \<Rightarrow> (-1, C)
      | Some f \<Rightarrow> (case GetFeatureById (fi_id f) C of None \<Rightarrow> (-2, C)
          | Some p \<Rightarrow> (0, put_feature p \<lparr>fi_id = 0, fi_attr = 0, fi_handle = INVALID_HANDLE\<rparr> C)))"

definition AddFeature :: "nat \<Rightarrow> handle \<Rightarrow> nat \<Rightarrow> CFeature \<Rightarrow> int \<times> CFeature" where
  "AddFeature id' v attr C =
     (if v = INVALID_HANDLE then (-1, C)
      else (case GetFeatureById 0 C of None \<Rightarrow> (-2, C)
        | Some p \<Rightarrow> (0, put_feature p \<lparr>fi_id = id', fi_attr = attr, fi_handle = v\<rparr> C)))"

text \<open>The size is cut to 32 bits by the parameter of \<open>Calloc\<close>, which clears the slots inside it.\<close>

definition Feature_Init :: "nat \<Rightarrow> CFeature \<Rightarrow> (int \<times> CFeature) option" where
  "Feature_Init num C =
     (let sz = u32 (SIZEOF_FEATURE_INFO_T * num + SIZEOF_BASE_INFO_T)
      in do {
        (v, b) \<leftarrow> BM_Calloc sz (cf_bm C);
        if v = INVALID_HANDLE then Some (-1, C\<lparr>cf_bm := b\<rparr>)
        else Some (0, upd_base (\<lambda>t. \<lparr>bi_total = num, bi_features = (\<lambda>i. if SIZEOF_BASE_INFO_T + SIZEOF_FEATURE_INFO_T * (i + 1) \<le> sz
               then \<lparr>fi_id = 0, fi_attr = 0, fi_handle = 0\<rparr> else bi_features t i)\<rparr>) (C\<lparr>cf_bm := b, p_base := v\<rparr>))
      })"

definition Feature_Attach :: "handle \<Rightarrow> CFeature \<Rightarrow> int \<times> CFeature" where
  "Feature_Attach h C = (if h = INVALID_HANDLE then (-1, C) else (0, C\<lparr>p_base := h\<rparr>))"

definition Feature_Detach :: "CFeature \<Rightarrow> int \<times> CFeature" where
  "Feature_Detach C = (0, C\<lparr>p_base := INVALID_HANDLE\<rparr>)"

section \<open>Lookup after a change\<close>

lemma find_feature_Some:
  "find_feature fs fd i k = Some p \<longleftrightarrow> i \<le> p \<and> p < i + k \<and> fi_id (fs p) = fd \<and> (\<forall>j. i \<le> j \<and> j < p \<longrightarrow> fi_id (fs j) \<noteq> fd)"
proof (induction k arbitrary: i)
  case (Suc k)
  show ?case
  proof (cases "fi_id (fs i) = fd")
    case True
    then show ?thesis by (auto simp: le_less)
  next
    case False
    have "(\<forall>j. i \<le> j \<and> j < p \<longrightarrow> fi_id (fs j) \<noteq> fd) \<longleftrightarrow> (\<forall>j. i + 1 \<le> j \<and> j < p \<longrightarrow> fi_id (fs j) \<noteq> fd)"
      using False by (metis Suc_eq_plus1 Suc_leI le_eq_less_or_eq le_trans lessI)
    moreover have "i \<le> p \<and> fi_id (fs p) = fd \<longleftrightarrow> i + 1 \<le> p \<and> fi_id (fs p) = fd" using False by (metis Suc_eq_plus1 Suc_leI le_eq_less_or_eq le_trans lessI)
    ultimately show ?thesis using Suc.IH [of "i + 1"] False by auto
  qed
qed simp

lemma find_feature_None: "find_feature fs fd i k = None \<longleftrightarrow> (\<forall>j. i \<le> j \<and> j < i + k \<longrightarrow> fi_id (fs j) \<noteq> fd)"
proof (induction k arbitrary: i)
  case (Suc k)
  have "i \<le> j \<and> j < i + Suc k \<longleftrightarrow> j = i \<or> i + 1 \<le> j \<and> j < i + 1 + k" for j by auto
  then show ?case using Suc.IH [of "i + 1"] by auto
qed simp

definition feature_ids :: "CFeature \<Rightarrow> nat set" where
  "feature_ids C = {fi_id (bi_features (base C) i) |i. i < bi_total (base C)}"

lemma GetFeatureById_Some:
  assumes "p_base C \<noteq> INVALID_HANDLE"
  shows "GetFeatureById fd C = Some p \<longleftrightarrow> p < bi_total (base C) \<and> fi_id (bi_features (base C) p) = fd
      \<and> (\<forall>j<p. fi_id (bi_features (base C) j) \<noteq> fd)" "GetFeatureById fd C = None \<longleftrightarrow> fd \<notin> feature_ids C"
  using assms find_feature_Some [of "bi_features (base C)" fd 0 "bi_total (base C)" p] find_feature_None [of "bi_features (base C)" fd 0 "bi_total (base C)"]
  by (auto simp: GetFeatureById_def feature_ids_def)

text \<open>
  A feature under a new id is found with its handle once it is added, which only fails when the handle is invalid
  or no slot is free; the other features keep their slots.
\<close>

lemma AddFeature_found:
  assumes p: "p_base C \<noteq> INVALID_HANDLE" and v: "v \<noteq> INVALID_HANDLE" and i: "i \<noteq> 0" "i \<notin> feature_ids C" "0 \<in> feature_ids C"
  obtains q C' where "AddFeature i v attr C = (0, C')" "GetFeatureById i C' = Some q"
    "bi_features (base C') q = \<lparr>fi_id = i, fi_attr = attr, fi_handle = v\<rparr>" "\<And>fd. fd \<noteq> 0 \<Longrightarrow> fd \<noteq> i \<Longrightarrow> GetFeatureById fd C' = GetFeatureById fd C"
proof -
  obtain q where q: "GetFeatureById 0 C = Some q" using GetFeatureById_Some(2) [OF p, of 0] i(3) by (cases "GetFeatureById 0 C") auto
  note g = GetFeatureById_Some(1) [OF p, of 0 q, THEN iffD1, OF q]
  let ?C = "put_feature q \<lparr>fi_id = i, fi_attr = attr, fi_handle = v\<rparr> C"
  have s: "p_base ?C = p_base C" "bi_total (m_base ?C (p_base C)) = bi_total (base C)"
    "bi_features (m_base ?C (p_base C)) = (bi_features (base C))(q := \<lparr>fi_id = i, fi_attr = attr, fi_handle = v\<rparr>)"
    by (simp_all add: put_feature_def upd_base_def)
  have p': "p_base ?C \<noteq> INVALID_HANDLE" using p s by simp
  have ni: "fi_id (bi_features (base C) j) \<noteq> i" if "j < bi_total (base C)" for j using i(2) that by (auto simp: feature_ids_def)
  have a: "AddFeature i v attr C = (0, ?C)" using v q by (simp add: AddFeature_def)
  have f: "GetFeatureById i ?C = Some q" unfolding GetFeatureById_Some(1) [OF p'] using g ni by (auto simp: s)
  have o: "GetFeatureById fd ?C = GetFeatureById fd C" if "fd \<noteq> 0" "fd \<noteq> i" for fd
  proof (rule option.expand)
    have m: "fd \<in> feature_ids D \<longleftrightarrow> (\<exists>j<bi_total (base D). fi_id (bi_features (base D) j) = fd)" for D by (auto simp: feature_ids_def)
    have "fi_id (bi_features (base ?C) j) = fd \<longleftrightarrow> fi_id (bi_features (base C) j) = fd" for j using g that by (auto simp: s)
    then have "fd \<in> feature_ids ?C \<longleftrightarrow> fd \<in> feature_ids C" unfolding m s by simp
    then show "(GetFeatureById fd ?C = None) = (GetFeatureById fd C = None)" unfolding GetFeatureById_Some(2) [OF p'] GetFeatureById_Some(2) [OF p] by blast
    show "the (GetFeatureById fd ?C) = the (GetFeatureById fd C)" if n: "GetFeatureById fd ?C \<noteq> None" "GetFeatureById fd C \<noteq> None"
    proof -
      obtain r where r: "GetFeatureById fd ?C = Some r" using n by blast
      then have "GetFeatureById fd C = Some r" unfolding GetFeatureById_Some(1) [OF p'] GetFeatureById_Some(1) [OF p] s
        using g \<open>fd \<noteq> 0\<close> \<open>fd \<noteq> i\<close> by (auto simp: fun_upd_def split: if_splits)
      with r show ?thesis by simp
    qed
  qed
  show ?thesis by (rule that [OF a f _ o]) (simp_all add: s)
qed

end
