(* ===== verification/T_Tree.thy ===== *)
theory T_Tree
  imports Bin_Malloc "HOL-Library.Monad_Syntax"
begin

text \<open>
  The T-tree of \<open>cache/t_tree.h\<close> and \<open>cache/t_tree.cc\<close> (classes \<open>CTtree\<close>, \<open>CTtreeNode\<close>): a
  height balanced search tree whose nodes hold up to 20 record handles in key order.

  Nodes live in blocks of an allocator, the parameter \<open>M\<close>, which stands for the abstract class
  \<open>CMallocator\<close>; the memory maps the handle of a block to the node in it.  The comparison
  function \<open>pfComp\<close> and the access to the key of a record (\<open>CDataChunk::Key\<close>) are parameters
  too, as in the code; \<open>pfComp\<close> gives an \<open>int64_t\<close>, which every caller stores into an \<open>int\<close>,
  except for the loop in \<open>Delete\<close> that looks for the item, which compares the result with 0.
  An operation gives \<open>None\<close> where the program would follow a null handle, leave the array of
  items, or not return.
\<close>

section \<open>Data\<close>

definition PAGE_SIZE :: nat where "PAGE_SIZE = 20"
definition MIN_ITEMS :: nat where "MIN_ITEMS = PAGE_SIZE - 2"

record CTtreeNode =
  m_hLeft :: handle
  m_hRight :: handle
  m_chBalance :: int
  m_ushNItems :: nat
  m_ahItems :: "handle list"

text \<open>\<open>sizeof(CTtreeNode)\<close>, a packed structure.\<close>

definition sizeof_CTtreeNode :: nat where "sizeof_CTtreeNode = 8 + 8 + 1 + 2 + 8 * PAGE_SIZE"

record 's CMallocator =
  op_Malloc :: "nat \<Rightarrow> 's \<Rightarrow> (handle \<times> 's) option"
  op_Free :: "handle \<Rightarrow> 's \<Rightarrow> int \<times> 's"
  op_AskForDestroySize :: "handle \<Rightarrow> 's \<Rightarrow> nat"

record 's tree_mem =
  tm_alloc :: 's
  tm_node :: "handle \<Rightarrow> CTtreeNode"

text \<open>\<open>GET_OBJ\<close>, writes through a node pointer, and the items of a node.\<close>

definition node_at :: "handle \<Rightarrow> 's tree_mem \<Rightarrow> CTtreeNode option" where
  "node_at h m = (if h = INVALID_HANDLE then None else Some (tm_node m h))"

definition upd_node :: "handle \<Rightarrow> (CTtreeNode \<Rightarrow> CTtreeNode) \<Rightarrow> 's tree_mem \<Rightarrow> 's tree_mem" where
  "upd_node h f m = m\<lparr>tm_node := (tm_node m)(h := f (tm_node m h))\<rparr>"

definition item :: "CTtreeNode \<Rightarrow> nat \<Rightarrow> handle option" where
  "item n i = (if i < length (m_ahItems n) then Some (m_ahItems n ! i) else None)"

definition last_item :: "CTtreeNode \<Rightarrow> handle option" where
  "last_item n = (if m_ushNItems n = 0 then None else item n (m_ushNItems n - 1))"

definition items :: "CTtreeNode \<Rightarrow> handle list" where
  "items n = take (m_ushNItems n) (m_ahItems n)"

abbreviation set_left :: "handle \<Rightarrow> handle \<Rightarrow> 's tree_mem \<Rightarrow> 's tree_mem" where
  "set_left h v \<equiv> upd_node h (\<lambda>n. n\<lparr>m_hLeft := v\<rparr>)"

abbreviation set_right :: "handle \<Rightarrow> handle \<Rightarrow> 's tree_mem \<Rightarrow> 's tree_mem" where
  "set_right h v \<equiv> upd_node h (\<lambda>n. n\<lparr>m_hRight := v\<rparr>)"

abbreviation set_balance :: "handle \<Rightarrow> int \<Rightarrow> 's tree_mem \<Rightarrow> 's tree_mem" where
  "set_balance h v \<equiv> upd_node h (\<lambda>n. n\<lparr>m_chBalance := v\<rparr>)"

abbreviation set_items :: "handle \<Rightarrow> handle list \<Rightarrow> 's tree_mem \<Rightarrow> 's tree_mem" where
  "set_items h v \<equiv> upd_node h (\<lambda>n. n\<lparr>m_ahItems := v\<rparr>)"

abbreviation set_count :: "handle \<Rightarrow> nat \<Rightarrow> 's tree_mem \<Rightarrow> 's tree_mem" where
  "set_count h v \<equiv> upd_node h (\<lambda>n. n\<lparr>m_ushNItems := v\<rparr>)"

text \<open>\<open>int iDiff = pfComp(...)\<close>: the 64 bit result is cut to 32 bits.\<close>

definition iDiff :: "('k \<Rightarrow> handle \<Rightarrow> int) \<Rightarrow> 'k \<Rightarrow> handle \<Rightarrow> int" where
  "iDiff pfComp k h = signed_take_bit 31 (pfComp k h)"

section \<open>Nodes\<close>

definition Node_Init :: "CTtreeNode" where
  "Node_Init = \<lparr>m_hLeft = INVALID_HANDLE, m_hRight = INVALID_HANDLE, m_chBalance = 0, m_ushNItems = 0,
     m_ahItems = replicate PAGE_SIZE INVALID_HANDLE\<rparr>"

definition Node_Alloc :: "'s CMallocator \<Rightarrow> handle \<Rightarrow> 's tree_mem \<Rightarrow> (handle \<times> 's tree_mem) option" where
  "Node_Alloc M hRecord m =
     do { (h, s) \<leftarrow> op_Malloc M sizeof_CTtreeNode (tm_alloc m);
          if h = INVALID_HANDLE then Some (INVALID_HANDLE, m\<lparr>tm_alloc := s\<rparr>)
          else Some (h, upd_node h (\<lambda>_. Node_Init\<lparr>m_ahItems := (m_ahItems Node_Init)[0 := hRecord], m_ushNItems := 1\<rparr>)
                          (m\<lparr>tm_alloc := s\<rparr>)) }"

text \<open>
  \<open>for(i = hi; i > lo; i--) items[i] = items[i-1]\<close> and
  \<open>for(i = lo; i < hi; i++) items[i-1] = items[i]\<close>.
\<close>

fun shift_up :: "handle list \<Rightarrow> nat \<Rightarrow> nat \<Rightarrow> handle list" where
  "shift_up xs 0 lo = xs"
| "shift_up xs (Suc i) lo = (if lo < Suc i then shift_up (xs[Suc i := xs ! i]) i lo else xs)"

function shift_down :: "handle list \<Rightarrow> nat \<Rightarrow> nat \<Rightarrow> handle list" where
  "shift_down xs i hi = (if i < hi then shift_down (xs[i - 1 := xs ! i]) (i + 1) hi else xs)"
  by pat_completeness auto
termination by (relation "measure (\<lambda>(xs, i, hi). hi - i)") auto

text \<open>The binary search for the place of a key inside a node; \<open>None\<close> when the key is met.\<close>

function place :: "(handle \<Rightarrow> int) \<Rightarrow> handle list \<Rightarrow> nat \<Rightarrow> nat \<Rightarrow> nat option" where
  "place df xs iLeft iRight =
     (if iLeft < iRight
      then let i = (iLeft + iRight) div 2; d = df (xs ! i) in
           if d = 0 then None
           else if d > 0 then place df xs (i + 1) iRight
           else place df xs iLeft i
      else Some iRight)"
  by pat_completeness auto
termination by (relation "measure (\<lambda>(df, xs, l, r). r - l)") auto

section \<open>Insertion\<close>

text \<open>The left branch of \<open>hNode\<close> has grown by one level.\<close>

definition left_grown :: "handle \<Rightarrow> handle \<Rightarrow> 's tree_mem \<Rightarrow> (int \<times> handle \<times> 's tree_mem) option" where
  "left_grown hNode hLeft m =
     do { n \<leftarrow> node_at hNode m;
          if m_chBalance n > 0 then Some (0, hNode, set_balance hNode 0 m)
          else if m_chBalance n = 0 then Some (1, hNode, set_balance hNode (-1) m)
          else do {
            l \<leftarrow> node_at hLeft m;
            if m_chBalance l < 0 then
              Some (0, hLeft, set_balance hLeft 0 (set_balance hNode 0
                     (set_right hLeft hNode (set_left hNode (m_hRight l) m))))
            else do {
              let hRight = m_hRight l;
              r \<leftarrow> node_at hRight m;
              let m1 = set_right hRight hNode (set_left hNode (m_hRight r)
                         (set_left hRight hLeft (set_right hLeft (m_hLeft r) m)));
              Some (0, hRight, set_balance hRight 0
                     (set_balance hLeft (if m_chBalance r > 0 then -1 else 0)
                     (set_balance hNode (if m_chBalance r < 0 then 1 else 0) m1))) } } }"

definition right_grown :: "handle \<Rightarrow> handle \<Rightarrow> 's tree_mem \<Rightarrow> (int \<times> handle \<times> 's tree_mem) option" where
  "right_grown hNode hRight m =
     do { n \<leftarrow> node_at hNode m;
          if m_chBalance n < 0 then Some (0, hNode, set_balance hNode 0 m)
          else if m_chBalance n = 0 then Some (1, hNode, set_balance hNode 1 m)
          else do {
            r \<leftarrow> node_at hRight m;
            if m_chBalance r > 0 then
              Some (0, hRight, set_balance hRight 0 (set_balance hNode 0
                     (set_left hRight hNode (set_right hNode (m_hLeft r) m))))
            else do {
              let hLeft = m_hLeft r;
              l \<leftarrow> node_at hLeft m;
              let m1 = set_left hLeft hNode (set_right hNode (m_hLeft l)
                         (set_right hLeft hRight (set_left hRight (m_hRight l) m)));
              Some (0, hLeft, set_balance hLeft 0
                     (set_balance hRight (if m_chBalance l < 0 then 1 else 0)
                     (set_balance hNode (if m_chBalance l > 0 then -1 else 0) m1))) } } }"

text \<open>
  The items of a full node with \<open>hRecord\<close> put at \<open>iRight\<close>, and the item that has to leave: the
  first one unless the left branch is the higher one, then the last.
\<close>

definition displace :: "CTtreeNode \<Rightarrow> nat \<Rightarrow> handle \<Rightarrow> handle \<times> handle list" where
  "displace n iRight hRecord =
     (let xs = m_ahItems n; cnt = m_ushNItems n in
      if m_chBalance n \<ge> 0 then (xs ! 0, (shift_down xs 1 iRight)[iRight - 1 := hRecord])
      else (xs ! (cnt - 1), (shift_up xs (cnt - 1) iRight)[iRight := hRecord]))"

partial_function (option) Node_Insert ::
  "'s CMallocator \<Rightarrow> ('k \<Rightarrow> handle \<Rightarrow> int) \<Rightarrow> (handle \<Rightarrow> 'k) \<Rightarrow> handle \<Rightarrow> 'k \<Rightarrow> handle \<Rightarrow> 's tree_mem
     \<Rightarrow> (int \<times> handle \<times> 's tree_mem) option" where
  "Node_Insert M pfComp Key hNode pchKey hRecord m =
     do { n \<leftarrow> node_at hNode m;
          let cnt = m_ushNItems n;
          x0 \<leftarrow> item n 0;
          if iDiff pfComp pchKey x0 = 0 then Some (-2, hNode, m)
          else if iDiff pfComp pchKey x0 \<le> 0 then
            (if m_hLeft n = INVALID_HANDLE \<and> cnt < PAGE_SIZE
             then Some (0, hNode, set_count hNode (cnt + 1) (set_items hNode ((shift_up (m_ahItems n) cnt 0)[0 := hRecord]) m))
             else if m_hLeft n = INVALID_HANDLE then
               do { (hLeft, m1) \<leftarrow> Node_Alloc M hRecord m;
                    if hLeft = INVALID_HANDLE then Some (-1, hNode, m1)
                    else left_grown hNode hLeft (set_left hNode hLeft m1) }
             else
               do { (iGrow, hChild, m1) \<leftarrow> Node_Insert M pfComp Key (m_hLeft n) pchKey hRecord m;
                    if iGrow < 0 then Some (iGrow, hNode, m1)
                    else let m2 = (if hChild \<noteq> m_hLeft n then set_left hNode hChild m1 else m1) in
                         if iGrow = 0 then Some (0, hNode, m2) else left_grown hNode hChild m2 })
          else do {
            xn \<leftarrow> last_item n;
            if iDiff pfComp pchKey xn = 0 then Some (-2, hNode, m)
            else if iDiff pfComp pchKey xn \<ge> 0 then
              (if m_hRight n = INVALID_HANDLE \<and> cnt < PAGE_SIZE
               then Some (0, hNode, set_count hNode (cnt + 1) (set_items hNode ((m_ahItems n)[cnt := hRecord]) m))
               else if m_hRight n = INVALID_HANDLE then
                 do { (hRight, m1) \<leftarrow> Node_Alloc M hRecord m;
                      if hRight = INVALID_HANDLE then Some (-1, hNode, m1)
                      else right_grown hNode hRight (set_right hNode hRight m1) }
               else
                 do { (iGrow, hChild, m1) \<leftarrow> Node_Insert M pfComp Key (m_hRight n) pchKey hRecord m;
                      if iGrow < 0 then Some (iGrow, hNode, m1)
                      else let m2 = (if hChild \<noteq> m_hRight n then set_right hNode hChild m1 else m1) in
                           if iGrow = 0 then Some (0, hNode, m2) else right_grown hNode hChild m2 })
            else (case place (iDiff pfComp pchKey) (m_ahItems n) 1 (cnt - 1) of
                None \<Rightarrow> Some (-2, hNode, m)
              | Some iRight \<Rightarrow>
                  if cnt < PAGE_SIZE
                  then Some (0, hNode, set_count hNode (cnt + 1)
                         (set_items hNode ((shift_up (m_ahItems n) cnt iRight)[iRight := hRecord]) m))
                  else do {
                    let (hReInsert, xs) = displace n iRight hRecord;
                    (iRet, h1, m1) \<leftarrow> Node_Insert M pfComp Key hNode (Key hReInsert) hReInsert (set_items hNode xs m);
                    Some (iRet, h1, if iRet < 0 then set_items hNode (m_ahItems n) m1 else m1) }) } }"

section \<open>Deletion\<close>

definition BalanceLeftBranch :: "handle \<Rightarrow> 's tree_mem \<Rightarrow> (int \<times> handle \<times> 's tree_mem) option" where
  "BalanceLeftBranch hNode m =
     do { n \<leftarrow> node_at hNode m;
          if m_chBalance n < 0 then Some (1, hNode, set_balance hNode 0 m)
          else if m_chBalance n = 0 then Some (0, hNode, set_balance hNode 1 m)
          else do {
            let hRight = m_hRight n;
            r \<leftarrow> node_at hRight m;
            if m_chBalance r \<ge> 0 then do {
              let m1 = set_left hRight hNode (set_right hNode (m_hLeft r) m);
              if m_chBalance r = 0 then Some (0, hRight, set_balance hRight (-1) (set_balance hNode 1 m1))
              else Some (1, hRight, set_balance hRight 0 (set_balance hNode 0 m1)) }
            else do {
              let hLeft = m_hLeft r;
              l \<leftarrow> node_at hLeft m;
              let m1 = set_left hLeft hNode (set_right hNode (m_hLeft l)
                         (set_right hLeft hRight (set_left hRight (m_hRight l) m)));
              Some (1, hLeft, set_balance hLeft 0
                     (set_balance hRight (if m_chBalance l < 0 then 1 else 0)
                     (set_balance hNode (if m_chBalance l > 0 then -1 else 0) m1))) } } }"

definition BalanceRightBranch :: "handle \<Rightarrow> 's tree_mem \<Rightarrow> (int \<times> handle \<times> 's tree_mem) option" where
  "BalanceRightBranch hNode m =
     do { n \<leftarrow> node_at hNode m;
          if m_chBalance n > 0 then Some (1, hNode, set_balance hNode 0 m)
          else if m_chBalance n = 0 then Some (0, hNode, set_balance hNode (-1) m)
          else do {
            let hLeft = m_hLeft n;
            l \<leftarrow> node_at hLeft m;
            if m_chBalance l \<le> 0 then do {
              let m1 = set_right hLeft hNode (set_left hNode (m_hRight l) m);
              if m_chBalance l = 0 then Some (0, hLeft, set_balance hLeft 1 (set_balance hNode (-1) m1))
              else Some (1, hLeft, set_balance hLeft 0 (set_balance hNode 0 m1)) }
            else do {
              let hRight = m_hRight l;
              r \<leftarrow> node_at hRight m;
              let m1 = set_right hRight hNode (set_left hNode (m_hRight r)
                         (set_left hRight hLeft (set_right hLeft (m_hLeft r) m)));
              Some (1, hRight, set_balance hRight 0
                     (set_balance hLeft (if m_chBalance r > 0 then -1 else 0)
                     (set_balance hNode (if m_chBalance r < 0 then 1 else 0) m1))) } } }"

text \<open>The walks to the largest node of the left branch and the smallest of the right one.\<close>

partial_function (option) rightmost :: "handle \<Rightarrow> 's tree_mem \<Rightarrow> CTtreeNode option" where
  "rightmost h m = do { n \<leftarrow> node_at h m; if m_hRight n \<noteq> INVALID_HANDLE then rightmost (m_hRight n) m else Some n }"

partial_function (option) leftmost :: "handle \<Rightarrow> 's tree_mem \<Rightarrow> CTtreeNode option" where
  "leftmost h m = do { n \<leftarrow> node_at h m; if m_hLeft n \<noteq> INVALID_HANDLE then leftmost (m_hLeft n) m else Some n }"

text \<open>The first item equal to the key, \<open>cnt\<close> items of which are looked at from \<open>i\<close> on.\<close>

fun find_equal :: "(handle \<Rightarrow> int) \<Rightarrow> handle list \<Rightarrow> nat \<Rightarrow> nat option" where
  "find_equal df [] i = None"
| "find_equal df (x # xs) i = (if df x = 0 then Some i else find_equal df xs (i + 1))"

definition Free_node :: "'s CMallocator \<Rightarrow> handle \<Rightarrow> 's tree_mem \<Rightarrow> 's tree_mem" where
  "Free_node M h m = m\<lparr>tm_alloc := snd (op_Free M h (tm_alloc m))\<rparr>"

text \<open>
  The part of \<open>Delete\<close> behind the search in the left branch: the key is looked for in the node
  and then in the right branch.  The recursive calls are the parameter \<open>del\<close>.
\<close>

definition delete_here ::
  "(handle \<Rightarrow> 'k \<Rightarrow> 's tree_mem \<Rightarrow> (int \<times> handle \<times> 's tree_mem) option) \<Rightarrow> 's CMallocator \<Rightarrow> ('k \<Rightarrow> handle \<Rightarrow> int)
     \<Rightarrow> (handle \<Rightarrow> 'k) \<Rightarrow> handle \<Rightarrow> 'k \<Rightarrow> 's tree_mem \<Rightarrow> (int \<times> handle \<times> 's tree_mem) option" where
  "delete_here del M pfComp Key hNode pchKey m =
     do { n \<leftarrow> node_at hNode m;
          let cnt = m_ushNItems n;
          xn \<leftarrow> last_item n;
          (case (if iDiff pfComp pchKey xn \<le> 0 then find_equal (pfComp pchKey) (items n) 0 else None) of
             Some i \<Rightarrow>
               if cnt = 1 \<and> m_hRight n = INVALID_HANDLE then Some (1, m_hLeft n, Free_node M hNode m)
               else if cnt = 1 \<and> m_hLeft n = INVALID_HANDLE then Some (1, m_hRight n, Free_node M hNode m)
               else if cnt \<le> MIN_ITEMS \<and> m_hLeft n \<noteq> INVALID_HANDLE \<and> m_chBalance n \<le> 0 then
                 do { p \<leftarrow> rightmost (m_hLeft n) m;
                      y \<leftarrow> last_item p;
                      (iRet, hChild, m1) \<leftarrow> del (m_hLeft n) (Key y)
                         (set_items hNode ((shift_up (m_ahItems n) i 0)[0 := y]) m);
                      if iRet < -1 then Some (iRet, hNode, m1)
                      else do {
                        let m2 = (if hChild \<noteq> m_hLeft n then set_left hNode hChild m1 else m1);
                        if iRet > 0 then BalanceLeftBranch hNode m2 else Some (iRet, hNode, m2) } }
               else if cnt \<le> MIN_ITEMS \<and> m_hRight n \<noteq> INVALID_HANDLE then
                 do { p \<leftarrow> leftmost (m_hRight n) m;
                      y \<leftarrow> item p 0;
                      (iRet, hChild, m1) \<leftarrow> del (m_hRight n) (Key y)
                         (set_items hNode ((shift_down (m_ahItems n) (i + 1) cnt)[cnt - 1 := y]) m);
                      if iRet < -1 then Some (iRet, hNode, m1)
                      else do {
                        let m2 = (if hChild \<noteq> m_hRight n then set_right hNode hChild m1 else m1);
                        if iRet > 0 then BalanceRightBranch hNode m2 else Some (iRet, hNode, m2) } }
               else Some (0, hNode, set_count hNode (cnt - 1) (set_items hNode (shift_down (m_ahItems n) (i + 1) cnt) m))
           | None \<Rightarrow>
               if m_hRight n \<noteq> INVALID_HANDLE then
                 do { (iRet, hChild, m1) \<leftarrow> del (m_hRight n) pchKey m;
                      if iRet < -1 then Some (iRet, hNode, m1)
                      else do {
                        let m2 = (if hChild \<noteq> m_hRight n then set_right hNode hChild m1 else m1);
                        if iRet > 0 then BalanceRightBranch hNode m2 else Some (iRet, hNode, m2) } }
               else Some (-1, hNode, m)) }"

lemma case_option_mono:
  "mono_option f \<Longrightarrow> (\<And>y. mono_option (\<lambda>g. h g y)) \<Longrightarrow> mono_option (\<lambda>g. case x of None \<Rightarrow> f g | Some y \<Rightarrow> h g y)"
  by (cases x) auto

lemma delete_here_mono [partial_function_mono]:
  assumes "\<And>h k m. mono_option (\<lambda>g. d g h k m)"
  shows "mono_option (\<lambda>g. delete_here (d g) M pfComp Key hNode pchKey m)"
  unfolding delete_here_def Let_def
  by (intro bind_mono option.const_mono case_option_mono if_mono assms)

partial_function (option) Node_Delete ::
  "'s CMallocator \<Rightarrow> ('k \<Rightarrow> handle \<Rightarrow> int) \<Rightarrow> (handle \<Rightarrow> 'k) \<Rightarrow> handle \<Rightarrow> 'k \<Rightarrow> 's tree_mem
     \<Rightarrow> (int \<times> handle \<times> 's tree_mem) option" where
  "Node_Delete M pfComp Key hNode pchKey m =
     do { n \<leftarrow> node_at hNode m;
          x0 \<leftarrow> item n 0;
          if iDiff pfComp pchKey x0 < 0 \<and> m_hLeft n \<noteq> INVALID_HANDLE then
            do { (iRet, hChild, m1) \<leftarrow> Node_Delete M pfComp Key (m_hLeft n) pchKey m;
                 if iRet < -1 then Some (iRet, hNode, m1)
                 else do {
                   let m2 = (if hChild \<noteq> m_hLeft n then set_left hNode hChild m1 else m1);
                   if iRet > 0 then BalanceLeftBranch hNode m2
                   else if iRet = 0 then Some (0, hNode, m2)
                   else delete_here (Node_Delete M pfComp Key) M pfComp Key hNode pchKey m2 } }
          else delete_here (Node_Delete M pfComp Key) M pfComp Key hNode pchKey m }"

section \<open>Search\<close>

text \<open>The binary search of \<open>Find\<close> between the first and the last item.\<close>

function search_items :: "(handle \<Rightarrow> int) \<Rightarrow> handle list \<Rightarrow> nat \<Rightarrow> nat \<Rightarrow> nat option" where
  "search_items df xs iLeft iRight =
     (if iLeft < iRight
      then let i = (iLeft + iRight) div 2; d = df (xs ! i) in
           if d = 0 then Some i
           else if d > 0 then search_items df xs (i + 1) iRight
           else search_items df xs iLeft i
      else None)"
  by pat_completeness auto
termination by (relation "measure (\<lambda>(df, xs, l, r). r - l)") auto

text \<open>\<open>Find\<close> with a pointer to the item: the node and the index, \<open>None\<close> for \<open>NULL\<close>.\<close>

partial_function (option) Node_FindItem ::
  "('k \<Rightarrow> handle \<Rightarrow> int) \<Rightarrow> handle \<Rightarrow> 'k \<Rightarrow> 's tree_mem \<Rightarrow> (int \<times> (handle \<times> nat) option) option" where
  "Node_FindItem pfComp this pchKey m =
     do { n \<leftarrow> node_at this m;
          if m_ushNItems n = 0 then Some (0, None)
          else do {
            x0 \<leftarrow> item n 0;
            if iDiff pfComp pchKey x0 = 0 then Some (1, Some (this, 0))
            else if iDiff pfComp pchKey x0 > 0 then do {
              xn \<leftarrow> last_item n;
              if iDiff pfComp pchKey xn = 0 then Some (1, Some (this, m_ushNItems n - 1))
              else if iDiff pfComp pchKey xn > 0 then
                (if m_hRight n = INVALID_HANDLE then Some (0, None)
                 else Node_FindItem pfComp (m_hRight n) pchKey m)
              else (case search_items (iDiff pfComp pchKey) (m_ahItems n) 1 (m_ushNItems n - 1) of
                  Some i \<Rightarrow> Some (1, Some (this, i))
                | None \<Rightarrow> Some (0, None)) }
            else if m_hLeft n = INVALID_HANDLE then Some (0, None)
            else Node_FindItem pfComp (m_hLeft n) pchKey m } }"

definition Node_Find ::
  "('k \<Rightarrow> handle \<Rightarrow> int) \<Rightarrow> handle \<Rightarrow> 'k \<Rightarrow> 's tree_mem \<Rightarrow> (int \<times> handle) option" where
  "Node_Find pfComp this pchKey m =
     do { (iRet, ph) \<leftarrow> Node_FindItem pfComp this pchKey m;
          (case ph of
             Some (h, i) \<Rightarrow> if iRet = 1 then do { x \<leftarrow> item (tm_node m h) i; Some (iRet, x) } else Some (iRet, INVALID_HANDLE)
           | None \<Rightarrow> Some (iRet, INVALID_HANDLE)) }"

partial_function (option) Node_FindHandle :: "handle \<Rightarrow> handle \<Rightarrow> 's tree_mem \<Rightarrow> int option" where
  "Node_FindHandle this hRecord m =
     do { n \<leftarrow> node_at this m;
          if m_ushNItems n = 0 then Some 0
          else if hRecord \<in> set (items n) then Some 1
          else do {
            r \<leftarrow> (if m_hRight n \<noteq> INVALID_HANDLE then Node_FindHandle (m_hRight n) hRecord m else Some 0);
            if r = 1 then Some 1
            else do {
              l \<leftarrow> (if m_hLeft n \<noteq> INVALID_HANDLE then Node_FindHandle (m_hLeft n) hRecord m else Some 0);
              if l = 1 then Some 1 else Some 0 } } }"

partial_function (option) Node_FindNode ::
  "('k \<Rightarrow> handle \<Rightarrow> int) \<Rightarrow> handle \<Rightarrow> 'k \<Rightarrow> 's tree_mem \<Rightarrow> (int \<times> handle) option" where
  "Node_FindNode pfComp this pchKey m =
     do { n \<leftarrow> node_at this m;
          if m_ushNItems n = 0 then Some (0, INVALID_HANDLE)
          else do {
            x0 \<leftarrow> item n 0;
            if iDiff pfComp pchKey x0 = 0 then Some (1, this)
            else if iDiff pfComp pchKey x0 > 0 then do {
              xn \<leftarrow> last_item n;
              if iDiff pfComp pchKey xn \<le> 0 then Some (1, this)
              else if m_hRight n = INVALID_HANDLE then Some (0, INVALID_HANDLE)
              else Node_FindNode pfComp (m_hRight n) pchKey m }
            else if m_hLeft n = INVALID_HANDLE then Some (1, this)
            else Node_FindNode pfComp (m_hLeft n) pchKey m } }"

section \<open>Destruction\<close>

text \<open>
  \<open>CDataChunk::Destroy\<close> and \<open>CDataChunk::AskForDestroySize\<close> of the records are parameters; they
  act on the allocator.
\<close>

partial_function (option) Node_AskForDestroySize ::
  "'s CMallocator \<Rightarrow> (handle \<Rightarrow> 's \<Rightarrow> nat) \<Rightarrow> handle \<Rightarrow> 's tree_mem \<Rightarrow> nat option" where
  "Node_AskForDestroySize M recSize hNode m =
     (if hNode = INVALID_HANDLE then Some 0
      else do { n \<leftarrow> node_at hNode m;
                let sz = u32 (fold (\<lambda>x a. u32 (a + recSize x (tm_alloc m))) (items n) 0
                              + op_AskForDestroySize M hNode (tm_alloc m));
                l \<leftarrow> Node_AskForDestroySize M recSize (m_hLeft n) m;
                r \<leftarrow> Node_AskForDestroySize M recSize (m_hRight n) m;
                Some (u32 (u32 (sz + l) + r)) })"

partial_function (option) Node_Destroy ::
  "'s CMallocator \<Rightarrow> (handle \<Rightarrow> 's \<Rightarrow> 's) \<Rightarrow> handle \<Rightarrow> 's tree_mem \<Rightarrow> 's tree_mem option" where
  "Node_Destroy M recDestroy hNode m =
     (if hNode \<noteq> INVALID_HANDLE
      then do { n \<leftarrow> node_at hNode m;
                let m1 = m\<lparr>tm_alloc := fold recDestroy (items n) (tm_alloc m)\<rparr>;
                m2 \<leftarrow> Node_Destroy M recDestroy (m_hLeft n) (Free_node M hNode m1);
                Node_Destroy M recDestroy (m_hRight n) m2 }
      else Some m)"

section \<open>Traversal\<close>

text \<open>
  A visitor is called with an item and a cookie; it gives its return code, the item, which is
  passed by reference, and the cookie.  A code other than 0 ends the traversal.
\<close>

type_synonym 'c ItemVisit = "handle \<Rightarrow> 'c \<Rightarrow> int \<times> handle \<times> 'c"
type_synonym ('c, 's) visited = "(int \<times> 'c \<times> 's tree_mem) option"

definition visit_then :: "('c, 's) visited \<Rightarrow> ('c \<Rightarrow> 's tree_mem \<Rightarrow> ('c, 's) visited) \<Rightarrow> ('c, 's) visited" where
  "visit_then a f = do { (iRet, c, m) \<leftarrow> a; if iRet \<noteq> 0 then Some (iRet, c, m) else f c m }"

lemma visit_then_mono [partial_function_mono]:
  assumes "mono_option a" "\<And>c m. mono_option (\<lambda>g. f g c m)"
  shows "mono_option (\<lambda>g. visit_then (a g) (f g))"
  unfolding visit_then_def using assms
  by (intro bind_mono) (auto intro!: option.const_mono simp: monotone_def flat_ord_def split: prod.splits)

fun visit_slots :: "'c ItemVisit \<Rightarrow> (handle \<Rightarrow> bool) \<Rightarrow> nat list \<Rightarrow> handle \<Rightarrow> 'c \<Rightarrow> 's tree_mem \<Rightarrow> ('c, 's) visited" where
  "visit_slots pfVisit inRange [] this c m = Some (0, c, m)"
| "visit_slots pfVisit inRange (i # is) this c m =
     do { x \<leftarrow> item (tm_node m this) i;
          if inRange x then
            (case pfVisit x c of (iRet, x', c') \<Rightarrow>
               visit_then (Some (iRet, c', upd_node this (\<lambda>n. n\<lparr>m_ahItems := (m_ahItems n)[i := x']\<rparr>) m))
                 (visit_slots pfVisit inRange is this))
          else visit_slots pfVisit inRange is this c m }"

text \<open>
  All traversals but one go through the left branch, the items and the right branch in some
  order; each part is entered under a condition on the first and the last item, and each item
  is visited under a condition of its own.
\<close>

datatype part = PLeft | PItems | PRight

record traversal =
  tv_parts :: "part list"
  tv_left :: "CTtreeNode \<Rightarrow> bool"
  tv_items :: "CTtreeNode \<Rightarrow> bool"
  tv_right :: "CTtreeNode \<Rightarrow> bool"
  tv_item :: "handle \<Rightarrow> bool"
  tv_up :: bool

partial_function (option) traverse ::
  "traversal \<Rightarrow> 'c ItemVisit \<Rightarrow> part list \<Rightarrow> handle \<Rightarrow> 'c \<Rightarrow> 's tree_mem \<Rightarrow> ('c, 's) visited" where
  "traverse tv pfVisit parts this c m =
     (case parts of [] \<Rightarrow> Some (0, c, m)
      | p # ps \<Rightarrow>
        do { n \<leftarrow> node_at this m;
             visit_then
               (case p of
                  PLeft \<Rightarrow> if m_hLeft n \<noteq> INVALID_HANDLE \<and> tv_left tv n
                           then traverse tv pfVisit (tv_parts tv) (m_hLeft n) c m else Some (0, c, m)
                | PRight \<Rightarrow> if m_hRight n \<noteq> INVALID_HANDLE \<and> tv_right tv n
                           then traverse tv pfVisit (tv_parts tv) (m_hRight n) c m else Some (0, c, m)
                | PItems \<Rightarrow> if tv_items tv n
                           then visit_slots pfVisit (tv_item tv)
                                  ((if tv_up tv then id else rev) [0..<m_ushNItems n]) this c m
                           else Some (0, c, m))
               (traverse tv pfVisit ps this) })"

text \<open>The first and the last item of a node, as the conditions read them.\<close>

abbreviation first_of :: "CTtreeNode \<Rightarrow> handle" where
  "first_of n \<equiv> m_ahItems n ! 0"

abbreviation last_of :: "CTtreeNode \<Rightarrow> handle" where
  "last_of n \<equiv> m_ahItems n ! (m_ushNItems n - 1)"

definition tv_all :: "part list \<Rightarrow> bool \<Rightarrow> traversal" where
  "tv_all parts up = \<lparr>tv_parts = parts, tv_left = (\<lambda>_. True), tv_items = (\<lambda>_. True), tv_right = (\<lambda>_. True),
     tv_item = (\<lambda>_. True), tv_up = up\<rparr>"

definition Node_TraverseForward :: "'c ItemVisit \<Rightarrow> handle \<Rightarrow> 'c \<Rightarrow> 's tree_mem \<Rightarrow> ('c, 's) visited" where
  "Node_TraverseForward pfVisit = traverse (tv_all [PLeft, PItems, PRight] True) pfVisit [PLeft, PItems, PRight]"

definition Node_TraverseBackward :: "'c ItemVisit \<Rightarrow> handle \<Rightarrow> 'c \<Rightarrow> 's tree_mem \<Rightarrow> ('c, 's) visited" where
  "Node_TraverseBackward pfVisit = traverse (tv_all [PRight, PItems, PLeft] False) pfVisit [PRight, PItems, PLeft]"

definition Node_PostOrderTraverse :: "'c ItemVisit \<Rightarrow> handle \<Rightarrow> 'c \<Rightarrow> 's tree_mem \<Rightarrow> ('c, 's) visited" where
  "Node_PostOrderTraverse pfVisit = traverse (tv_all [PRight, PLeft, PItems] False) pfVisit [PRight, PLeft, PItems]"

text \<open>The items from \<open>pchKey\<close> to \<open>pchKey1\<close>.\<close>

definition tv_between :: "('k \<Rightarrow> handle \<Rightarrow> int) \<Rightarrow> 'k \<Rightarrow> 'k \<Rightarrow> part list \<Rightarrow> (CTtreeNode \<Rightarrow> bool) \<Rightarrow> (CTtreeNode \<Rightarrow> bool)
    \<Rightarrow> bool \<Rightarrow> traversal" where
  "tv_between pfComp k k1 parts gl gr up = \<lparr>tv_parts = parts, tv_left = gl,
     tv_items = (\<lambda>n. \<not> (iDiff pfComp k1 (first_of n) < 0 \<or> iDiff pfComp k (last_of n) > 0)), tv_right = gr,
     tv_item = (\<lambda>x. iDiff pfComp k x \<le> 0 \<and> iDiff pfComp k1 x \<ge> 0), tv_up = up\<rparr>"

definition Node_TraverseForwardRange ::
  "('k \<Rightarrow> handle \<Rightarrow> int) \<Rightarrow> 'k \<Rightarrow> 'k \<Rightarrow> 'c ItemVisit \<Rightarrow> handle \<Rightarrow> 'c \<Rightarrow> 's tree_mem \<Rightarrow> ('c, 's) visited" where
  "Node_TraverseForwardRange pfComp k k1 pfVisit =
     traverse (tv_between pfComp k k1 [PLeft, PItems, PRight]
       (\<lambda>n. iDiff pfComp k (first_of n) < 0) (\<lambda>n. iDiff pfComp k1 (last_of n) \<ge> 0) True) pfVisit [PLeft, PItems, PRight]"

definition Node_TraverseBackwardRange ::
  "('k \<Rightarrow> handle \<Rightarrow> int) \<Rightarrow> 'k \<Rightarrow> 'k \<Rightarrow> 'c ItemVisit \<Rightarrow> handle \<Rightarrow> 'c \<Rightarrow> 's tree_mem \<Rightarrow> ('c, 's) visited" where
  "Node_TraverseBackwardRange pfComp k k1 pfVisit =
     traverse (tv_between pfComp k k1 [PRight, PItems, PLeft]
       (\<lambda>n. iDiff pfComp k (first_of n) \<le> 0) (\<lambda>n. iDiff pfComp k1 (last_of n) > 0) False) pfVisit [PRight, PItems, PLeft]"

definition Node_PostOrderTraverseRange ::
  "('k \<Rightarrow> handle \<Rightarrow> int) \<Rightarrow> 'k \<Rightarrow> 'k \<Rightarrow> 'c ItemVisit \<Rightarrow> handle \<Rightarrow> 'c \<Rightarrow> 's tree_mem \<Rightarrow> ('c, 's) visited" where
  "Node_PostOrderTraverseRange pfComp k k1 pfVisit =
     traverse (tv_between pfComp k k1 [PLeft, PRight, PItems]
       (\<lambda>n. iDiff pfComp k (first_of n) < 0) (\<lambda>n. iDiff pfComp k1 (last_of n) \<ge> 0) True) pfVisit [PLeft, PRight, PItems]"

text \<open>The items not below, and not above, \<open>pchKey\<close>.\<close>

definition tv_from :: "('k \<Rightarrow> handle \<Rightarrow> int) \<Rightarrow> 'k \<Rightarrow> part list \<Rightarrow> traversal" where
  "tv_from pfComp k parts = \<lparr>tv_parts = parts, tv_left = (\<lambda>n. iDiff pfComp k (first_of n) < 0),
     tv_items = (\<lambda>n. iDiff pfComp k (last_of n) \<le> 0), tv_right = (\<lambda>_. True),
     tv_item = (\<lambda>x. iDiff pfComp k x \<le> 0), tv_up = True\<rparr>"

definition tv_upto :: "('k \<Rightarrow> handle \<Rightarrow> int) \<Rightarrow> 'k \<Rightarrow> part list \<Rightarrow> traversal" where
  "tv_upto pfComp k parts = \<lparr>tv_parts = parts, tv_left = (\<lambda>_. True),
     tv_items = (\<lambda>n. iDiff pfComp k (first_of n) \<ge> 0), tv_right = (\<lambda>n. iDiff pfComp k (last_of n) > 0),
     tv_item = (\<lambda>x. iDiff pfComp k x \<ge> 0), tv_up = False\<rparr>"

definition Node_TraverseForwardGE ::
  "('k \<Rightarrow> handle \<Rightarrow> int) \<Rightarrow> 'k \<Rightarrow> 'c ItemVisit \<Rightarrow> handle \<Rightarrow> 'c \<Rightarrow> 's tree_mem \<Rightarrow> ('c, 's) visited" where
  "Node_TraverseForwardGE pfComp k pfVisit = traverse (tv_from pfComp k [PLeft, PItems, PRight]) pfVisit [PLeft, PItems, PRight]"

definition Node_TraverseBackwardLE ::
  "('k \<Rightarrow> handle \<Rightarrow> int) \<Rightarrow> 'k \<Rightarrow> 'c ItemVisit \<Rightarrow> handle \<Rightarrow> 'c \<Rightarrow> 's tree_mem \<Rightarrow> ('c, 's) visited" where
  "Node_TraverseBackwardLE pfComp k pfVisit = traverse (tv_upto pfComp k [PRight, PItems, PLeft]) pfVisit [PRight, PItems, PLeft]"

definition Node_PostOrderTraverseGE ::
  "('k \<Rightarrow> handle \<Rightarrow> int) \<Rightarrow> 'k \<Rightarrow> 'c ItemVisit \<Rightarrow> handle \<Rightarrow> 'c \<Rightarrow> 's tree_mem \<Rightarrow> ('c, 's) visited" where
  "Node_PostOrderTraverseGE pfComp k pfVisit = traverse (tv_from pfComp k [PLeft, PRight, PItems]) pfVisit [PLeft, PRight, PItems]"

definition Node_PostOrderTraverseLE ::
  "('k \<Rightarrow> handle \<Rightarrow> int) \<Rightarrow> 'k \<Rightarrow> 'c ItemVisit \<Rightarrow> handle \<Rightarrow> 'c \<Rightarrow> 's tree_mem \<Rightarrow> ('c, 's) visited" where
  "Node_PostOrderTraverseLE pfComp k pfVisit = traverse (tv_upto pfComp k [PRight, PLeft, PItems]) pfVisit [PRight, PLeft, PItems]"

text \<open>
  The items from \<open>pchKey\<close> on whose distance to it is at most \<open>iInclusion\<close>.  The loop over the
  items stops at the first one that is too far; the second component of the result says whether
  it ran to the end, which is the condition for the right branch.
\<close>

fun visit_near :: "'c ItemVisit \<Rightarrow> (handle \<Rightarrow> int) \<Rightarrow> int \<Rightarrow> nat list \<Rightarrow> handle \<Rightarrow> 'c \<Rightarrow> 's tree_mem
    \<Rightarrow> ((int \<times> 'c \<times> 's tree_mem) \<times> bool) option" where
  "visit_near pfVisit df inc [] this c m = Some ((0, c, m), True)"
| "visit_near pfVisit df inc (i # is) this c m =
     do { x \<leftarrow> item (tm_node m this) i;
          if df x \<le> 0 \<and> df x \<ge> 0 - inc then
            (case pfVisit x c of (iRet, x', c') \<Rightarrow>
               let m' = upd_node this (\<lambda>n. n\<lparr>m_ahItems := (m_ahItems n)[i := x']\<rparr>) m in
               if iRet \<noteq> 0 then Some ((iRet, c', m'), False)
               else visit_near pfVisit df inc is this c' m')
          else if df x < 0 - inc then Some ((0, c, m), False)
          else visit_near pfVisit df inc is this c m }"

partial_function (option) Node_TraverseForwardNear ::
  "('k \<Rightarrow> handle \<Rightarrow> int) \<Rightarrow> 'k \<Rightarrow> int \<Rightarrow> 'c ItemVisit \<Rightarrow> handle \<Rightarrow> 'c \<Rightarrow> 's tree_mem \<Rightarrow> ('c, 's) visited" where
  "Node_TraverseForwardNear pfComp k inc pfVisit this c m =
     do { n \<leftarrow> node_at this m;
          visit_then
            (if m_hLeft n \<noteq> INVALID_HANDLE \<and> iDiff pfComp k (first_of n) < 0
             then Node_TraverseForwardNear pfComp k inc pfVisit (m_hLeft n) c m else Some (0, c, m))
            (\<lambda>c m. do {
               n \<leftarrow> node_at this m;
               ((iRet, c, m), all_seen) \<leftarrow>
                 (if iDiff pfComp k (last_of n) \<le> 0
                  then visit_near pfVisit (iDiff pfComp k) inc [0..<m_ushNItems n] this c m
                  else Some ((0, c, m), True));
               if iRet \<noteq> 0 then Some (iRet, c, m)
               else do {
                 n \<leftarrow> node_at this m;
                 if all_seen \<and> m_hRight n \<noteq> INVALID_HANDLE
                 then Node_TraverseForwardNear pfComp k inc pfVisit (m_hRight n) c m else Some (0, c, m) } }) }"

section \<open>The tree object\<close>

record 's CTtree =
  m_hRoot :: handle
  m_stMalloc :: "'s tree_mem"

definition CTtree_new :: "'s tree_mem \<Rightarrow> 's CTtree" where
  "CTtree_new m = \<lparr>m_hRoot = INVALID_HANDLE, m_stMalloc = m\<rparr>"

definition Tree_Attach :: "handle \<Rightarrow> 's CTtree \<Rightarrow> 's CTtree" where
  "Tree_Attach hRoot t = t\<lparr>m_hRoot := hRoot\<rparr>"

definition Tree_Insert :: "'s CMallocator \<Rightarrow> ('k \<Rightarrow> handle \<Rightarrow> int) \<Rightarrow> (handle \<Rightarrow> 'k) \<Rightarrow> 'k \<Rightarrow> handle \<Rightarrow> 's CTtree
    \<Rightarrow> (int \<times> 's CTtree) option" where
  "Tree_Insert M pfComp Key pchKey hRecord t =
     (if m_hRoot t = INVALID_HANDLE
      then do { (hNode, m) \<leftarrow> Node_Alloc M hRecord (m_stMalloc t);
                if hNode = INVALID_HANDLE then Some (EC_NO_MEM, t\<lparr>m_stMalloc := m\<rparr>)
                else Some (0, t\<lparr>m_hRoot := hNode, m_stMalloc := m\<rparr>) }
      else do { (iRet, hNode, m) \<leftarrow> Node_Insert M pfComp Key (m_hRoot t) pchKey hRecord (m_stMalloc t);
                let t1 = t\<lparr>m_stMalloc := m\<rparr>;
                if iRet = -2 then Some (EC_KEY_EXIST, t1)
                else if iRet = -1 then Some (EC_NO_MEM, t1)
                else if iRet < 0 then Some (-1, t1)
                else Some (0, t1\<lparr>m_hRoot := hNode\<rparr>) })"

definition Tree_Delete :: "'s CMallocator \<Rightarrow> ('k \<Rightarrow> handle \<Rightarrow> int) \<Rightarrow> (handle \<Rightarrow> 'k) \<Rightarrow> 'k \<Rightarrow> 's CTtree
    \<Rightarrow> (int \<times> 's CTtree) option" where
  "Tree_Delete M pfComp Key pchKey t =
     (if m_hRoot t = INVALID_HANDLE then Some (0, t)
      else do { (iRet, hNode, m) \<leftarrow> Node_Delete M pfComp Key (m_hRoot t) pchKey (m_stMalloc t);
                let t1 = t\<lparr>m_stMalloc := m\<rparr>;
                if iRet < -1 then Some (-1, t1)
                else if iRet = -1 then Some (-1, t1)
                else Some (0, t1\<lparr>m_hRoot := hNode\<rparr>) })"

definition Tree_FindHandle :: "handle \<Rightarrow> 's CTtree \<Rightarrow> int option" where
  "Tree_FindHandle hRecord t =
     (if m_hRoot t = INVALID_HANDLE then Some 0 else Node_FindHandle (m_hRoot t) hRecord (m_stMalloc t))"

definition Tree_Find :: "('k \<Rightarrow> handle \<Rightarrow> int) \<Rightarrow> 'k \<Rightarrow> 's CTtree \<Rightarrow> (int \<times> handle) option" where
  "Tree_Find pfComp pchKey t =
     (if m_hRoot t = INVALID_HANDLE then Some (0, INVALID_HANDLE) else Node_Find pfComp (m_hRoot t) pchKey (m_stMalloc t))"

definition Tree_FindItem :: "('k \<Rightarrow> handle \<Rightarrow> int) \<Rightarrow> 'k \<Rightarrow> 's CTtree \<Rightarrow> (int \<times> (handle \<times> nat) option) option" where
  "Tree_FindItem pfComp pchKey t =
     (if m_hRoot t = INVALID_HANDLE then Some (0, None) else Node_FindItem pfComp (m_hRoot t) pchKey (m_stMalloc t))"

definition Tree_Destroy :: "'s CMallocator \<Rightarrow> (handle \<Rightarrow> 's \<Rightarrow> 's) \<Rightarrow> 's CTtree \<Rightarrow> (int \<times> 's CTtree) option" where
  "Tree_Destroy M recDestroy t =
     do { m \<leftarrow> Node_Destroy M recDestroy (m_hRoot t) (m_stMalloc t);
          Some (0, t\<lparr>m_hRoot := INVALID_HANDLE, m_stMalloc := m\<rparr>) }"

definition Tree_AskForDestroySize :: "'s CMallocator \<Rightarrow> (handle \<Rightarrow> 's \<Rightarrow> nat) \<Rightarrow> 's CTtree \<Rightarrow> nat option" where
  "Tree_AskForDestroySize M recSize t = Node_AskForDestroySize M recSize (m_hRoot t) (m_stMalloc t)"

text \<open>The traversals of the tree are those of the root node, and nothing on an empty tree.\<close>

definition from_root :: "(handle \<Rightarrow> 'c \<Rightarrow> 's tree_mem \<Rightarrow> ('c, 's) visited) \<Rightarrow> 'c \<Rightarrow> 's CTtree \<Rightarrow> ('c, 's) visited" where
  "from_root f c t = (if m_hRoot t \<noteq> INVALID_HANDLE then f (m_hRoot t) c (m_stMalloc t) else Some (0, c, m_stMalloc t))"

definition Tree_TraverseForward :: "'c ItemVisit \<Rightarrow> 'c \<Rightarrow> 's CTtree \<Rightarrow> ('c, 's) visited" where
  "Tree_TraverseForward pfVisit = from_root (Node_TraverseForward pfVisit)"

definition Tree_TraverseBackward :: "'c ItemVisit \<Rightarrow> 'c \<Rightarrow> 's CTtree \<Rightarrow> ('c, 's) visited" where
  "Tree_TraverseBackward pfVisit = from_root (Node_TraverseBackward pfVisit)"

definition Tree_PostOrderTraverse :: "'c ItemVisit \<Rightarrow> 'c \<Rightarrow> 's CTtree \<Rightarrow> ('c, 's) visited" where
  "Tree_PostOrderTraverse pfVisit = from_root (Node_PostOrderTraverse pfVisit)"

text \<open>The \<open>int64_t iInclusion\<close> is handed to a parameter of type \<open>int\<close>.\<close>

definition Tree_TraverseForwardNear ::
  "('k \<Rightarrow> handle \<Rightarrow> int) \<Rightarrow> 'k \<Rightarrow> int \<Rightarrow> 'c ItemVisit \<Rightarrow> 'c \<Rightarrow> 's CTtree \<Rightarrow> ('c, 's) visited" where
  "Tree_TraverseForwardNear pfComp k inc pfVisit = from_root (Node_TraverseForwardNear pfComp k (signed_take_bit 31 inc) pfVisit)"

definition Tree_TraverseForwardGE ::
  "('k \<Rightarrow> handle \<Rightarrow> int) \<Rightarrow> 'k \<Rightarrow> 'c ItemVisit \<Rightarrow> 'c \<Rightarrow> 's CTtree \<Rightarrow> ('c, 's) visited" where
  "Tree_TraverseForwardGE pfComp k pfVisit = from_root (Node_TraverseForwardGE pfComp k pfVisit)"

definition Tree_TraverseForwardRange ::
  "('k \<Rightarrow> handle \<Rightarrow> int) \<Rightarrow> 'k \<Rightarrow> 'k \<Rightarrow> 'c ItemVisit \<Rightarrow> 'c \<Rightarrow> 's CTtree \<Rightarrow> ('c, 's) visited" where
  "Tree_TraverseForwardRange pfComp k k1 pfVisit = from_root (Node_TraverseForwardRange pfComp k k1 pfVisit)"

definition Tree_TraverseBackwardLE ::
  "('k \<Rightarrow> handle \<Rightarrow> int) \<Rightarrow> 'k \<Rightarrow> 'c ItemVisit \<Rightarrow> 'c \<Rightarrow> 's CTtree \<Rightarrow> ('c, 's) visited" where
  "Tree_TraverseBackwardLE pfComp k pfVisit = from_root (Node_TraverseBackwardLE pfComp k pfVisit)"

definition Tree_TraverseBackwardRange ::
  "('k \<Rightarrow> handle \<Rightarrow> int) \<Rightarrow> 'k \<Rightarrow> 'k \<Rightarrow> 'c ItemVisit \<Rightarrow> 'c \<Rightarrow> 's CTtree \<Rightarrow> ('c, 's) visited" where
  "Tree_TraverseBackwardRange pfComp k k1 pfVisit = from_root (Node_TraverseBackwardRange pfComp k k1 pfVisit)"

definition Tree_PostOrderTraverseRange ::
  "('k \<Rightarrow> handle \<Rightarrow> int) \<Rightarrow> 'k \<Rightarrow> 'k \<Rightarrow> 'c ItemVisit \<Rightarrow> 'c \<Rightarrow> 's CTtree \<Rightarrow> ('c, 's) visited" where
  "Tree_PostOrderTraverseRange pfComp k k1 pfVisit = from_root (Node_PostOrderTraverseRange pfComp k k1 pfVisit)"

definition Tree_PostOrderTraverseGE ::
  "('k \<Rightarrow> handle \<Rightarrow> int) \<Rightarrow> 'k \<Rightarrow> 'c ItemVisit \<Rightarrow> 'c \<Rightarrow> 's CTtree \<Rightarrow> ('c, 's) visited" where
  "Tree_PostOrderTraverseGE pfComp k pfVisit = from_root (Node_PostOrderTraverseGE pfComp k pfVisit)"

definition Tree_PostOrderTraverseLE ::
  "('k \<Rightarrow> handle \<Rightarrow> int) \<Rightarrow> 'k \<Rightarrow> 'c ItemVisit \<Rightarrow> 'c \<Rightarrow> 's CTtree \<Rightarrow> ('c, 's) visited" where
  "Tree_PostOrderTraverseLE pfComp k pfVisit = from_root (Node_PostOrderTraverseLE pfComp k pfVisit)"

end
