(* ===== verification/T_Tree_Heap.thy ===== *)
theory T_Tree_Heap
  imports T_Tree
begin

text \<open>
  Trees in memory.  A value of type \<open>ttree\<close> is the shape of a T-tree with the handles of its
  nodes; \<open>tt f t\<close> says that the nodes in the memory \<open>f\<close> have that shape.  The rotations of the
  program are shown to be functions on shapes, which keep the sequence of items and restore the
  balance.
\<close>

section \<open>Shapes\<close>

datatype ttree = TLeaf | TNode handle ttree int "handle list" ttree

fun root :: "ttree \<Rightarrow> handle" where
  "root TLeaf = INVALID_HANDLE"
| "root (TNode a l b xs r) = a"

fun nodes :: "ttree \<Rightarrow> handle list" where
  "nodes TLeaf = []"
| "nodes (TNode a l b xs r) = nodes l @ a # nodes r"

fun inorder :: "ttree \<Rightarrow> handle list" where
  "inorder TLeaf = []"
| "inorder (TNode a l b xs r) = inorder l @ xs @ inorder r"

fun height :: "ttree \<Rightarrow> nat" where
  "height TLeaf = 0"
| "height (TNode a l b xs r) = max (height l) (height r) + 1"

fun tbal :: "ttree \<Rightarrow> int" where
  "tbal TLeaf = 0"
| "tbal (TNode a l b xs r) = b"

fun avl :: "ttree \<Rightarrow> bool" where
  "avl TLeaf = True"
| "avl (TNode a l b xs r) \<longleftrightarrow> avl l \<and> avl r \<and> b = int (height r) - int (height l) \<and> b \<in> {-1, 0, 1}"

definition node_items :: "CTtreeNode \<Rightarrow> handle list \<Rightarrow> bool" where
  "node_items n xs \<longleftrightarrow> m_ushNItems n = length xs \<and> take (length xs) (m_ahItems n) = xs
     \<and> length (m_ahItems n) = PAGE_SIZE \<and> xs \<noteq> []"

fun tt :: "(handle \<Rightarrow> CTtreeNode) \<Rightarrow> ttree \<Rightarrow> bool" where
  "tt f TLeaf = True"
| "tt f (TNode a l b xs r) \<longleftrightarrow> a \<noteq> INVALID_HANDLE \<and> m_hLeft (f a) = root l \<and> m_hRight (f a) = root r
     \<and> m_chBalance (f a) = b \<and> node_items (f a) xs \<and> tt f l \<and> tt f r"

lemma tt_cong: "(\<And>h. h \<in> set (nodes t) \<Longrightarrow> g h = f h) \<Longrightarrow> tt g t = tt f t"
  by (induction t) auto

lemma tt_upd [simp]: "h \<notin> set (nodes t) \<Longrightarrow> tt (f(h := v)) t = tt f t"
  by (rule tt_cong) auto

lemma tt_root: "tt f t \<Longrightarrow> root t = INVALID_HANDLE \<longleftrightarrow> t = TLeaf"
  by (cases t) auto

lemma tt_nonnull: "tt f t \<Longrightarrow> h \<in> set (nodes t) \<Longrightarrow> h \<noteq> INVALID_HANDLE"
  by (induction t) auto

lemma root_nodes [simp]: "t \<noteq> TLeaf \<Longrightarrow> root t \<in> set (nodes t)"
  by (cases t) auto

lemma node_items_simps [simp]:
  "node_items (n\<lparr>m_hLeft := v\<rparr>) xs = node_items n xs" "node_items (n\<lparr>m_hRight := v\<rparr>) xs = node_items n xs"
  "node_items (n\<lparr>m_chBalance := b\<rparr>) xs = node_items n xs"
  by (simp_all add: node_items_def)

lemma node_items_nth: "node_items n xs \<Longrightarrow> i < length xs \<Longrightarrow> m_ahItems n ! i = xs ! i"
  unfolding node_items_def by (metis nth_take)

lemma node_items_len: "node_items n xs \<Longrightarrow> 0 < length xs \<and> length xs \<le> PAGE_SIZE"
  unfolding node_items_def by (metis length_greater_0_conv length_take min.cobounded1)

lemma node_items_items: "node_items n xs \<Longrightarrow> items n = xs"
  by (simp add: node_items_def items_def)

lemma node_items_item: "node_items n xs \<Longrightarrow> i < length xs \<Longrightarrow> item n i = Some (xs ! i)"
  using node_items_len [of n xs] by (simp add: item_def node_items_nth) (simp add: node_items_def)

lemma node_items_ends:
  assumes "node_items n xs"
  shows "item n 0 = Some (hd xs)" and "last_item n = Some (last xs)" and "m_ushNItems n = length xs"
proof -
  have l: "0 < length xs" using node_items_len [OF assms] by simp
  then show "item n 0 = Some (hd xs)" using node_items_item [OF assms, of 0] by (simp add: hd_conv_nth)
  show "m_ushNItems n = length xs" using assms by (simp add: node_items_def)
  with l show "last_item n = Some (last xs)"
    using node_items_item [OF assms, of "length xs - 1"] by (simp add: last_item_def last_conv_nth)
qed

lemma tm_upd_node [simp]:
  "tm_node (upd_node h f m) = (tm_node m)(h := f (tm_node m h))" "tm_alloc (upd_node h f m) = tm_alloc m"
  by (simp_all add: upd_node_def)

lemma node_at_Some [simp]: "h \<noteq> INVALID_HANDLE \<Longrightarrow> node_at h m = Some (tm_node m h)"
  by (simp add: node_at_def)

section \<open>Rotations on shapes\<close>

definition t_left_grown :: "handle \<Rightarrow> ttree \<Rightarrow> int \<Rightarrow> handle list \<Rightarrow> ttree \<Rightarrow> int \<times> ttree" where
  "t_left_grown a l b xs r =
     (if b > 0 then (0, TNode a l 0 xs r) else if b = 0 then (1, TNode a l (-1) xs r)
      else case l of TNode c ll bl ys lr \<Rightarrow>
          if bl < 0 then (0, TNode c ll 0 ys (TNode a lr 0 xs r))
          else (case lr of TNode e el be zs er \<Rightarrow>
                 (0, TNode e (TNode c ll (if be > 0 then -1 else 0) ys el) 0 zs
                       (TNode a er (if be < 0 then 1 else 0) xs r))
               | TLeaf \<Rightarrow> (0, TLeaf))
        | TLeaf \<Rightarrow> (0, TLeaf))"

definition t_right_grown :: "handle \<Rightarrow> ttree \<Rightarrow> int \<Rightarrow> handle list \<Rightarrow> ttree \<Rightarrow> int \<times> ttree" where
  "t_right_grown a l b xs r =
     (if b < 0 then (0, TNode a l 0 xs r) else if b = 0 then (1, TNode a l 1 xs r)
      else case r of TNode c rl br ys rr \<Rightarrow>
          if br > 0 then (0, TNode c (TNode a l 0 xs rl) 0 ys rr)
          else (case rl of TNode e el be zs er \<Rightarrow>
                 (0, TNode e (TNode a l (if be > 0 then -1 else 0) xs el) 0 zs
                       (TNode c er (if be < 0 then 1 else 0) ys rr))
               | TLeaf \<Rightarrow> (0, TLeaf))
        | TLeaf \<Rightarrow> (0, TLeaf))"

definition t_left_shrunk :: "handle \<Rightarrow> ttree \<Rightarrow> int \<Rightarrow> handle list \<Rightarrow> ttree \<Rightarrow> int \<times> ttree" where
  "t_left_shrunk a l b xs r =
     (if b < 0 then (1, TNode a l 0 xs r) else if b = 0 then (0, TNode a l 1 xs r)
      else case r of TNode c rl br ys rr \<Rightarrow>
          if br = 0 then (0, TNode c (TNode a l 1 xs rl) (-1) ys rr)
          else if br > 0 then (1, TNode c (TNode a l 0 xs rl) 0 ys rr)
          else (case rl of TNode e el be zs er \<Rightarrow>
                 (1, TNode e (TNode a l (if be > 0 then -1 else 0) xs el) 0 zs
                       (TNode c er (if be < 0 then 1 else 0) ys rr))
               | TLeaf \<Rightarrow> (0, TLeaf))
        | TLeaf \<Rightarrow> (0, TLeaf))"

definition t_right_shrunk :: "handle \<Rightarrow> ttree \<Rightarrow> int \<Rightarrow> handle list \<Rightarrow> ttree \<Rightarrow> int \<times> ttree" where
  "t_right_shrunk a l b xs r =
     (if b > 0 then (1, TNode a l 0 xs r) else if b = 0 then (0, TNode a l (-1) xs r)
      else case l of TNode c ll bl ys lr \<Rightarrow>
          if bl = 0 then (0, TNode c ll 1 ys (TNode a lr (-1) xs r))
          else if bl < 0 then (1, TNode c ll 0 ys (TNode a lr 0 xs r))
          else (case lr of TNode e el be zs er \<Rightarrow>
                 (1, TNode e (TNode c ll (if be > 0 then -1 else 0) ys el) 0 zs
                       (TNode a er (if be < 0 then 1 else 0) xs r))
               | TLeaf \<Rightarrow> (0, TLeaf))
        | TLeaf \<Rightarrow> (0, TLeaf))"

lemmas t_rotate_defs = t_left_grown_def t_right_grown_def t_left_shrunk_def t_right_shrunk_def

text \<open>What a rotation keeps, and what it restores.\<close>

definition same_items :: "ttree \<Rightarrow> ttree \<Rightarrow> bool" where
  "same_items t t' \<longleftrightarrow> nodes t' = nodes t \<and> inorder t' = inorder t"

lemma height_0 [simp]: "height t = 0 \<longleftrightarrow> t = TLeaf"
  by (cases t) auto

lemma height_pos [simp]: "0 < height t \<longleftrightarrow> t \<noteq> TLeaf"
  by (cases t) auto

lemma t_left_grown_avl:
  assumes "avl l" "avl r" "l \<noteq> TLeaf" "b = int (height r) - (int (height l) - 1)" "b \<in> {-1, 0, 1}"
    "b = -1 \<Longrightarrow> tbal l \<noteq> 0"
  shows "case t_left_grown a l b xs r of (g, t') \<Rightarrow> same_items (TNode a l b xs r) t' \<and> avl t' \<and> g \<in> {0, 1}
    \<and> int (height t') = max (int (height l) - 1) (int (height r)) + 1 + g \<and> (g = 1 \<longrightarrow> tbal t' \<noteq> 0)"
proof -
  consider "b = 1" | "b = 0" | "b = -1" using assms by auto
  then show ?thesis
  proof cases
    case 3
    then obtain c ll bl ys lr where l: "l = TNode c ll bl ys lr" using assms by (cases l) auto
    show ?thesis
    proof (cases "bl < 0")
      case True
      with 3 l assms show ?thesis by (auto simp: t_left_grown_def same_items_def)
    next
      case False
      with 3 l assms obtain e el be zs er where lr: "lr = TNode e el be zs er" by (cases lr) auto
      have b: "bl = 1" using False assms l 3 by auto
      have o: "height ll = height r" and m: "max (height el) (height er) = height ll"
        using b 3 assms l lr by (auto simp: max_def split: if_splits)
      have "avl el" "avl er" "avl ll" and be: "be = int (height er) - int (height el)" "be \<in> {-1, 0, 1}"
        using assms l lr by auto
      then consider "be = 1" "height er = height ll" "height el + 1 = height ll"
        | "be = 0" "height er = height ll" "height el = height ll"
        | "be = -1" "height er + 1 = height ll" "height el = height ll"
        using m by (auto simp: max_def split: if_splits)
      then show ?thesis using \<open>avl el\<close> \<open>avl er\<close> \<open>avl ll\<close> 3 l lr b o assms(1,2)
        by cases (simp_all add: t_left_grown_def same_items_def)
    qed
  qed (use assms in \<open>auto simp: t_left_grown_def same_items_def\<close>)
qed

lemma t_right_grown_avl:
  assumes "avl l" "avl r" "r \<noteq> TLeaf" "b = (int (height r) - 1) - int (height l)" "b \<in> {-1, 0, 1}"
    "b = 1 \<Longrightarrow> tbal r \<noteq> 0"
  shows "case t_right_grown a l b xs r of (g, t') \<Rightarrow> same_items (TNode a l b xs r) t' \<and> avl t' \<and> g \<in> {0, 1}
    \<and> int (height t') = max (int (height l)) (int (height r) - 1) + 1 + g \<and> (g = 1 \<longrightarrow> tbal t' \<noteq> 0)"
proof -
  consider "b = 1" | "b = 0" | "b = -1" using assms by auto
  then show ?thesis
  proof cases
    case 1
    then obtain c rl br ys rr where l: "r = TNode c rl br ys rr" using assms by (cases r) auto
    show ?thesis
    proof (cases "br > 0")
      case True
      with 1 l assms show ?thesis by (auto simp: t_right_grown_def same_items_def)
    next
      case False
      with 1 l assms obtain e el be zs er where lr: "rl = TNode e el be zs er" by (cases rl) auto
      have b: "br = -1" using False assms l 1 by auto
      have o: "height rr = height l" and m: "max (height el) (height er) = height rr"
        using b 1 assms l lr by (auto simp: max_def split: if_splits)
      have "avl el" "avl er" "avl rr" and be: "be = int (height er) - int (height el)" "be \<in> {-1, 0, 1}"
        using assms l lr by auto
      then consider "be = 1" "height er = height rr" "height el + 1 = height rr"
        | "be = 0" "height er = height rr" "height el = height rr"
        | "be = -1" "height er + 1 = height rr" "height el = height rr"
        using m by (auto simp: max_def split: if_splits)
      then show ?thesis using \<open>avl el\<close> \<open>avl er\<close> \<open>avl rr\<close> 1 l lr b o assms(1,2)
        by cases (simp_all add: t_right_grown_def same_items_def)
    qed
  qed (use assms in \<open>auto simp: t_right_grown_def same_items_def\<close>)
qed

lemma t_left_shrunk_avl:
  assumes "avl l" "avl r" "b = int (height r) - (int (height l) + 1)" "b \<in> {-1, 0, 1}"
  shows "case t_left_shrunk a l b xs r of (g, t') \<Rightarrow> same_items (TNode a l b xs r) t' \<and> avl t' \<and> g \<in> {0, 1}
    \<and> int (height t') = max (int (height l) + 1) (int (height r)) + 1 - g"
proof -
  consider "b = 1" | "b = 0" | "b = -1" using assms by auto
  then show ?thesis
  proof cases
    case 1
    then obtain c rl br ys rr where l: "r = TNode c rl br ys rr" using assms by (cases r) auto
    show ?thesis
    proof (cases "br \<ge> 0")
      case True
      with 1 l assms show ?thesis by (auto simp: t_left_shrunk_def same_items_def)
    next
      case False
      with 1 l assms obtain e el be zs er where lr: "rl = TNode e el be zs er" by (cases rl) auto
      have b: "br = -1" using False assms l 1 by auto
      have o: "height rr = height l" and m: "max (height el) (height er) = height rr"
        using b 1 assms l lr by (auto simp: max_def split: if_splits)
      have "avl el" "avl er" "avl rr" and be: "be = int (height er) - int (height el)" "be \<in> {-1, 0, 1}"
        using assms l lr by auto
      then consider "be = 1" "height er = height rr" "height el + 1 = height rr"
        | "be = 0" "height er = height rr" "height el = height rr"
        | "be = -1" "height er + 1 = height rr" "height el = height rr"
        using m by (auto simp: max_def split: if_splits)
      then show ?thesis using \<open>avl el\<close> \<open>avl er\<close> \<open>avl rr\<close> 1 l lr b o assms(1,2)
        by cases (simp_all add: t_left_shrunk_def same_items_def)
    qed
  qed (use assms in \<open>auto simp: t_left_shrunk_def same_items_def\<close>)
qed

lemma t_right_shrunk_avl:
  assumes "avl l" "avl r" "b = (int (height r) + 1) - int (height l)" "b \<in> {-1, 0, 1}"
  shows "case t_right_shrunk a l b xs r of (g, t') \<Rightarrow> same_items (TNode a l b xs r) t' \<and> avl t' \<and> g \<in> {0, 1}
    \<and> int (height t') = max (int (height l)) (int (height r) + 1) + 1 - g"
proof -
  consider "b = 1" | "b = 0" | "b = -1" using assms by auto
  then show ?thesis
  proof cases
    case 3
    then obtain c ll bl ys lr where l: "l = TNode c ll bl ys lr" using assms by (cases l) auto
    show ?thesis
    proof (cases "bl \<le> 0")
      case True
      with 3 l assms show ?thesis by (auto simp: t_right_shrunk_def same_items_def)
    next
      case False
      with 3 l assms obtain e el be zs er where lr: "lr = TNode e el be zs er" by (cases lr) auto
      have b: "bl = 1" using False assms l 3 by auto
      have o: "height ll = height r" and m: "max (height el) (height er) = height ll"
        using b 3 assms l lr by (auto simp: max_def split: if_splits)
      have "avl el" "avl er" "avl ll" and be: "be = int (height er) - int (height el)" "be \<in> {-1, 0, 1}"
        using assms l lr by auto
      then consider "be = 1" "height er = height ll" "height el + 1 = height ll"
        | "be = 0" "height er = height ll" "height el = height ll"
        | "be = -1" "height er + 1 = height ll" "height el = height ll"
        using m by (auto simp: max_def split: if_splits)
      then show ?thesis using \<open>avl el\<close> \<open>avl er\<close> \<open>avl ll\<close> 3 l lr b o assms(1,2)
        by cases (simp_all add: t_right_shrunk_def same_items_def)
    qed
  qed (use assms in \<open>auto simp: t_right_shrunk_def same_items_def\<close>)
qed

section \<open>Rotations in memory\<close>

text \<open>The memory changed on the nodes of \<open>t\<close> only, and now holds \<open>t'\<close>.\<close>

definition rotated :: "'s tree_mem \<Rightarrow> ttree \<Rightarrow> 's tree_mem \<Rightarrow> ttree \<Rightarrow> bool" where
  "rotated m t m' t' \<longleftrightarrow> tt (tm_node m') t' \<and> tm_alloc m' = tm_alloc m
     \<and> (\<forall>h. h \<notin> set (nodes t) \<longrightarrow> tm_node m' h = tm_node m h)"

lemma double_LR:
  assumes t: "tt (tm_node m) (TNode a (TNode c ll bl ys (TNode e el be zs er)) b xs r)"
    and d: "distinct (nodes (TNode a (TNode c ll bl ys (TNode e el be zs er)) b xs r))"
  shows "rotated m (TNode a (TNode c ll bl ys (TNode e el be zs er)) b xs r)
    (set_balance e 0 (set_balance c bc (set_balance a ba (set_right e a (set_left a (root er)
       (set_left e c (set_right c (root el) m)))))))
    (TNode e (TNode c ll bc ys el) 0 zs (TNode a er ba xs r))" (is "rotated m ?t ?m ?t'")
proof -
  have ne: "a \<noteq> c" "a \<noteq> e" "c \<noteq> e" "c \<noteq> a" "e \<noteq> a" "e \<noteq> c" using d by auto
  have v: "tm_node ?m a = (tm_node m a)\<lparr>m_hLeft := root er, m_chBalance := ba\<rparr>"
    "tm_node ?m c = (tm_node m c)\<lparr>m_hRight := root el, m_chBalance := bc\<rparr>"
    "tm_node ?m e = (tm_node m e)\<lparr>m_hLeft := c, m_hRight := a, m_chBalance := 0\<rparr>"
    using ne by simp_all
  have o: "tm_node ?m h = tm_node m h" if "h \<notin> {a, c, e}" for h using that by simp
  have sub: "tt (tm_node ?m) x = tt (tm_node m) x" if "x \<in> {ll, el, er, r}" for x
    by (rule tt_cong) (use that d o in auto)
  show ?thesis unfolding rotated_def
    using t sub v o by (simp del: tm_upd_node(1))
qed

lemma double_RL:
  assumes t: "tt (tm_node m) (TNode a l b xs (TNode c (TNode e el be zs er) br ys rr))"
    and d: "distinct (nodes (TNode a l b xs (TNode c (TNode e el be zs er) br ys rr)))"
  shows "rotated m (TNode a l b xs (TNode c (TNode e el be zs er) br ys rr))
    (set_balance e 0 (set_balance c bc (set_balance a ba (set_left e a (set_right a (root el)
       (set_right e c (set_left c (root er) m)))))))
    (TNode e (TNode a l ba xs el) 0 zs (TNode c er bc ys rr))" (is "rotated m ?t ?m ?t'")
proof -
  have ne: "a \<noteq> c" "a \<noteq> e" "c \<noteq> e" "c \<noteq> a" "e \<noteq> a" "e \<noteq> c" using d by auto
  have v: "tm_node ?m a = (tm_node m a)\<lparr>m_hRight := root el, m_chBalance := ba\<rparr>"
    "tm_node ?m c = (tm_node m c)\<lparr>m_hLeft := root er, m_chBalance := bc\<rparr>"
    "tm_node ?m e = (tm_node m e)\<lparr>m_hRight := c, m_hLeft := a, m_chBalance := 0\<rparr>"
    using ne by simp_all
  have o: "tm_node ?m h = tm_node m h" if "h \<notin> {a, c, e}" for h using that by simp
  have sub: "tt (tm_node ?m) x = tt (tm_node m) x" if "x \<in> {l, el, er, rr}" for x
    by (rule tt_cong) (use that d o in auto)
  show ?thesis unfolding rotated_def
    using t sub v o by (simp del: tm_upd_node(1))
qed

lemma left_grown_heap:
  assumes "tt (tm_node m) (TNode a l b xs r)" "distinct (nodes (TNode a l b xs r))"
    "t_left_grown a l b xs r = (g, t')" "t' \<noteq> TLeaf"
  shows "\<exists>m'. left_grown a (root l) m = Some (g, root t', m') \<and> rotated m (TNode a l b xs r) m' t'"
proof (cases "b < 0")
  case False
  with assms show ?thesis by (auto simp: left_grown_def t_left_grown_def rotated_def split: if_splits)
next
  case True
  with assms obtain c ll bl ys lr where s: "l = TNode c ll bl ys lr" by (cases l) (auto simp: t_left_grown_def)
  consider "bl < 0" | "\<not> bl < 0" by linarith
  then show ?thesis
  proof cases
    case 1
    then have t': "t' = TNode c ll 0 ys (TNode a lr 0 xs r)" using assms(3) True s by (auto simp: t_left_grown_def)
    show ?thesis using assms(1-3) True s 1 unfolding t' by (auto simp: left_grown_def t_left_grown_def rotated_def Let_def)
  next
    case 2
    with assms(3,4) True s obtain e el be zs er where e: "lr = TNode e el be zs er" by (cases lr) (auto simp: t_left_grown_def)
    with 2 have t': "t' = TNode e (TNode c ll (if be > 0 then -1 else 0) ys el) 0 zs (TNode a er (if be < 0 then 1 else 0) xs r)" using assms(3) True s by (auto simp: t_left_grown_def)
    show ?thesis using double_LR [OF assms(1,2) [unfolded s e]] assms(1,3) True s e 2 unfolding t'
      by (simp add: left_grown_def t_left_grown_def Let_def)
  qed
qed

lemma right_grown_heap:
  assumes "tt (tm_node m) (TNode a l b xs r)" "distinct (nodes (TNode a l b xs r))"
    "t_right_grown a l b xs r = (g, t')" "t' \<noteq> TLeaf"
  shows "\<exists>m'. right_grown a (root r) m = Some (g, root t', m') \<and> rotated m (TNode a l b xs r) m' t'"
proof (cases "b > 0")
  case False
  with assms show ?thesis by (auto simp: right_grown_def t_right_grown_def rotated_def split: if_splits)
next
  case True
  with assms obtain c rl br ys rr where s: "r = TNode c rl br ys rr" by (cases r) (auto simp: t_right_grown_def)
  consider "br > 0" | "\<not> br > 0" by linarith
  then show ?thesis
  proof cases
    case 1
    then have t': "t' = TNode c (TNode a l 0 xs rl) 0 ys rr" using assms(3) True s by (auto simp: t_right_grown_def)
    show ?thesis using assms(1-3) True s 1 unfolding t' by (auto simp: right_grown_def t_right_grown_def rotated_def Let_def)
  next
    case 2
    with assms(3,4) True s obtain e el be zs er where e: "rl = TNode e el be zs er" by (cases rl) (auto simp: t_right_grown_def)
    with 2 have t': "t' = TNode e (TNode a l (if be > 0 then -1 else 0) xs el) 0 zs (TNode c er (if be < 0 then 1 else 0) ys rr)" using assms(3) True s by (auto simp: t_right_grown_def)
    show ?thesis using double_RL [OF assms(1,2) [unfolded s e]] assms(1,3) True s e 2 unfolding t'
      by (simp add: right_grown_def t_right_grown_def Let_def)
  qed
qed

lemma BalanceLeftBranch_heap:
  assumes "tt (tm_node m) (TNode a l b xs r)" "distinct (nodes (TNode a l b xs r))"
    "t_left_shrunk a l b xs r = (g, t')" "t' \<noteq> TLeaf"
  shows "\<exists>m'. BalanceLeftBranch a m = Some (g, root t', m') \<and> rotated m (TNode a l b xs r) m' t'"
proof (cases "b > 0")
  case False
  with assms show ?thesis by (auto simp: BalanceLeftBranch_def t_left_shrunk_def rotated_def split: if_splits)
next
  case True
  with assms obtain c rl br ys rr where s: "r = TNode c rl br ys rr" by (cases r) (auto simp: t_left_shrunk_def)
  consider "br = 0" | "br > 0" | "br < 0" by linarith
  then show ?thesis
  proof cases
    case 1
    then have t': "t' = TNode c (TNode a l 1 xs rl) (-1) ys rr" using assms(3) True s by (auto simp: t_left_shrunk_def)
    show ?thesis using assms(1-3) True s 1 unfolding t' by (auto simp: BalanceLeftBranch_def t_left_shrunk_def rotated_def Let_def)
  next
    case 2
    then have t': "t' = TNode c (TNode a l 0 xs rl) 0 ys rr" using assms(3) True s by (auto simp: t_left_shrunk_def)
    show ?thesis using assms(1-3) True s 2 unfolding t' by (auto simp: BalanceLeftBranch_def t_left_shrunk_def rotated_def Let_def)
  next
    case 3
    with assms(3,4) True s obtain e el be zs er where e: "rl = TNode e el be zs er" by (cases rl) (auto simp: t_left_shrunk_def)
    with 3 have t': "t' = TNode e (TNode a l (if be > 0 then -1 else 0) xs el) 0 zs (TNode c er (if be < 0 then 1 else 0) ys rr)" using assms(3) True s by (auto simp: t_left_shrunk_def)
    show ?thesis using double_RL [OF assms(1,2) [unfolded s e]] assms(1,3) True s e 3 unfolding t'
      by (simp add: BalanceLeftBranch_def t_left_shrunk_def Let_def)
  qed
qed

lemma BalanceRightBranch_heap:
  assumes "tt (tm_node m) (TNode a l b xs r)" "distinct (nodes (TNode a l b xs r))"
    "t_right_shrunk a l b xs r = (g, t')" "t' \<noteq> TLeaf"
  shows "\<exists>m'. BalanceRightBranch a m = Some (g, root t', m') \<and> rotated m (TNode a l b xs r) m' t'"
proof (cases "b < 0")
  case False
  with assms show ?thesis by (auto simp: BalanceRightBranch_def t_right_shrunk_def rotated_def split: if_splits)
next
  case True
  with assms obtain c ll bl ys lr where s: "l = TNode c ll bl ys lr" by (cases l) (auto simp: t_right_shrunk_def)
  consider "bl = 0" | "bl < 0" | "bl > 0" by linarith
  then show ?thesis
  proof cases
    case 1
    then have t': "t' = TNode c ll 1 ys (TNode a lr (-1) xs r)" using assms(3) True s by (auto simp: t_right_shrunk_def)
    show ?thesis using assms(1-3) True s 1 unfolding t' by (auto simp: BalanceRightBranch_def t_right_shrunk_def rotated_def Let_def)
  next
    case 2
    then have t': "t' = TNode c ll 0 ys (TNode a lr 0 xs r)" using assms(3) True s by (auto simp: t_right_shrunk_def)
    show ?thesis using assms(1-3) True s 2 unfolding t' by (auto simp: BalanceRightBranch_def t_right_shrunk_def rotated_def Let_def)
  next
    case 3
    with assms(3,4) True s obtain e el be zs er where e: "lr = TNode e el be zs er" by (cases lr) (auto simp: t_right_shrunk_def)
    with 3 have t': "t' = TNode e (TNode c ll (if be > 0 then -1 else 0) ys el) 0 zs (TNode a er (if be < 0 then 1 else 0) xs r)" using assms(3) True s by (auto simp: t_right_shrunk_def)
    show ?thesis using double_LR [OF assms(1,2) [unfolded s e]] assms(1,3) True s e 3 unfolding t'
      by (simp add: BalanceRightBranch_def t_right_shrunk_def Let_def)
  qed
qed

end
