(* ===== verification/T_Tree_Items.thy ===== *)
theory T_Tree_Items
  imports T_Tree_Heap
begin

text \<open>
  The items inside one node: the shifting loops as list operations, and the two binary searches
  on items in key order.
\<close>

section \<open>Shifting\<close>

declare shift_down.simps [simp del] place.simps [simp del] search_items.simps [simp del]

lemma shift_up_length [simp]: "length (shift_up xs n lo) = length xs"
  by (induction xs n lo rule: shift_up.induct) auto

lemma shift_down_length [simp]: "length (shift_down xs i hi) = length xs"
proof (induction xs i hi rule: shift_down.induct)
  case (1 xs i hi)
  then show ?case by (subst shift_down.simps) simp
qed

lemma shift_up_nth:
  "n < length xs \<Longrightarrow> j < length xs \<Longrightarrow>
     shift_up xs n lo ! j = (if lo < j \<and> j \<le> n then xs ! (j - 1) else xs ! j)"
proof (induction xs n lo rule: shift_up.induct)
  case (2 xs i lo)
  show ?case
  proof (cases "lo < Suc i")
    case True
    then have "shift_up xs (Suc i) lo ! j = shift_up (xs[Suc i := xs ! i]) i lo ! j" by simp
    also have "\<dots> = (if lo < j \<and> j \<le> i then xs[Suc i := xs ! i] ! (j - 1) else xs[Suc i := xs ! i] ! j)"
      using 2 True by simp
    also have "\<dots> = (if lo < j \<and> j \<le> Suc i then xs ! (j - 1) else xs ! j)"
      using 2(2,3) True by (auto simp: nth_list_update le_Suc_eq)
    finally show ?thesis .
  qed auto
qed simp

lemma shift_down_nth:
  "0 < i \<Longrightarrow> hi \<le> length xs \<Longrightarrow> j < length xs \<Longrightarrow>
     shift_down xs i hi ! j = (if i \<le> j + 1 \<and> j + 1 < hi then xs ! (j + 1) else xs ! j)"
proof (induction xs i hi rule: shift_down.induct)
  case (1 xs i hi)
  show ?case
  proof (cases "i < hi")
    case True
    then have "shift_down xs i hi ! j = shift_down (xs[i - 1 := xs ! i]) (i + 1) hi ! j"
      by (subst shift_down.simps) simp
    also have "\<dots> = (if i + 1 \<le> j + 1 \<and> j + 1 < hi then xs[i - 1 := xs ! i] ! (j + 1) else xs[i - 1 := xs ! i] ! j)"
      using 1 True by simp
    also have "\<dots> = (if i \<le> j + 1 \<and> j + 1 < hi then xs ! (j + 1) else xs ! j)"
      using 1(2-4) True by (auto simp: nth_list_update)
    finally show ?thesis .
  next
    case False
    then show ?thesis by (subst shift_down.simps) auto
  qed
qed

text \<open>\<open>items_are ys xs\<close>: the array \<open>ys\<close> of a node starts with the items \<open>xs\<close>.\<close>

definition items_are :: "handle list \<Rightarrow> handle list \<Rightarrow> bool" where
  "items_are ys xs \<longleftrightarrow> length ys = PAGE_SIZE \<and> length xs \<le> PAGE_SIZE \<and> (\<forall>j<length xs. ys ! j = xs ! j)"

lemma node_items_are: "node_items n xs \<longleftrightarrow> m_ushNItems n = length xs \<and> items_are (m_ahItems n) xs \<and> xs \<noteq> []"
proof
  assume n: "node_items n xs"
  show "m_ushNItems n = length xs \<and> items_are (m_ahItems n) xs \<and> xs \<noteq> []"
    using n node_items_nth [OF n] node_items_len [OF n] by (auto simp: items_are_def node_items_def)
next
  assume a: "m_ushNItems n = length xs \<and> items_are (m_ahItems n) xs \<and> xs \<noteq> []"
  then have "take (length xs) (m_ahItems n) = xs" by (intro nth_equalityI) (auto simp: items_are_def)
  with a show "node_items n xs" by (simp add: node_items_def items_are_def)
qed

lemma nth_insert_at: "i \<le> length xs \<Longrightarrow> j < length xs + 1 \<Longrightarrow>
    (take i xs @ x # drop i xs) ! j = (if j < i then xs ! j else if j = i then x else xs ! (j - 1))"
  by (auto simp: nth_append nth_Cons' intro!: arg_cong [where f = "nth xs"])

lemma items_insert_at:
  assumes "items_are ys xs" "length xs < PAGE_SIZE" "i \<le> length xs"
  shows "items_are ((shift_up ys (length xs) i)[i := x]) (take i xs @ x # drop i xs)"
proof -
  have "(shift_up ys (length xs) i)[i := x] ! j = (take i xs @ x # drop i xs) ! j" if "j < length xs + 1" for j
    using assms that unfolding nth_insert_at [OF assms(3) that]
    by (auto simp: items_are_def nth_list_update shift_up_nth)
  with assms show ?thesis by (auto simp: items_are_def)
qed

lemma items_append:
  "items_are ys xs \<Longrightarrow> length xs < PAGE_SIZE \<Longrightarrow> items_are (ys[length xs := x]) (xs @ [x])"
  by (auto simp: items_are_def nth_list_update nth_append)

lemma items_delete_at:
  assumes "items_are ys xs" "i < length xs"
  shows "items_are (shift_down ys (i + 1) (length xs)) (take i xs @ drop (i + 1) xs)"
proof -
  have "shift_down ys (i + 1) (length xs) ! j = (take i xs @ drop (i + 1) xs) ! j" if "j < length xs - 1" for j
    using assms that by (auto simp: items_are_def shift_down_nth nth_append)
  with assms show ?thesis by (auto simp: items_are_def)
qed

text \<open>The items of a full node after one went in and the first or the last went out.\<close>

lemma items_push_left:
  assumes "items_are ys xs" "0 < i" "i \<le> length xs"
  shows "items_are ((shift_down ys 1 i)[i - 1 := x]) (take (i - 1) (tl xs) @ x # drop i xs)"
proof -
  have "(shift_down ys 1 i)[i - 1 := x] ! j = (take (i - 1) (tl xs) @ x # drop i xs) ! j" if "j < length xs" for j
    using assms that
    by (auto simp: items_are_def nth_list_update shift_down_nth nth_append nth_tl nth_Cons' min_def
        intro!: arg_cong [where f = "nth xs"])
  with assms show ?thesis by (auto simp: items_are_def min_def)
qed

lemma items_push_right:
  assumes "items_are ys xs" "i < length xs"
  shows "items_are ((shift_up ys (length xs - 1) i)[i := x]) (take i xs @ x # drop i (butlast xs))"
proof -
  have "(shift_up ys (length xs - 1) i)[i := x] ! j = (take i xs @ x # drop i (butlast xs)) ! j" if "j < length xs" for j
    using assms that
    by (auto simp: items_are_def nth_list_update shift_up_nth nth_append nth_butlast nth_Cons' min_def
        intro!: arg_cong [where f = "nth xs"])
  with assms show ?thesis by (auto simp: items_are_def min_def)
qed

text \<open>The item \<open>i\<close> replaced by one put in front, and by one put behind.\<close>

lemma items_replace_front:
  assumes "items_are ys xs" "i < length xs"
  shows "items_are ((shift_up ys i 0)[0 := y]) (y # take i xs @ drop (i + 1) xs)"
proof -
  have "(shift_up ys i 0)[0 := y] ! j = (y # take i xs @ drop (i + 1) xs) ! j" if "j < length xs" for j
    using assms that
    by (auto simp: items_are_def nth_list_update shift_up_nth nth_append nth_Cons split: nat.splits)
  with assms show ?thesis by (auto simp: items_are_def)
qed

lemma items_replace_back:
  assumes "items_are ys xs" "i < length xs"
  shows "items_are ((shift_down ys (i + 1) (length xs))[length xs - 1 := y]) ((take i xs @ drop (i + 1) xs) @ [y])"
proof -
  have "(shift_down ys (i + 1) (length xs))[length xs - 1 := y] ! j = ((take i xs @ drop (i + 1) xs) @ [y]) ! j"
    if "j < length xs" for j
    using assms that by (auto simp: items_are_def nth_list_update shift_down_nth nth_append)
  with assms show ?thesis by (auto simp: items_are_def)
qed

section \<open>Searching inside a node\<close>

text \<open>
  \<open>df\<close> is the sign of the distance of the key from an item; on items in key order it falls from
  positive to negative, and is 0 at one item at most.
\<close>

definition falling :: "(handle \<Rightarrow> int) \<Rightarrow> handle list \<Rightarrow> bool" where
  "falling df xs \<longleftrightarrow> (\<forall>i j. i < j \<longrightarrow> j < length xs \<longrightarrow> (df (xs ! j) \<ge> 0 \<longrightarrow> df (xs ! i) > 0))"

lemma falling_pos: "falling df xs \<Longrightarrow> i < length xs \<Longrightarrow> df (xs ! i) > 0 \<Longrightarrow> j \<le> i \<Longrightarrow> df (xs ! j) > 0"
  unfolding falling_def by (metis le_neq_implies_less less_imp_le)

lemma falling_neg: "falling df xs \<Longrightarrow> i \<le> j \<Longrightarrow> j < length xs \<Longrightarrow> df (xs ! i) < 0 \<Longrightarrow> df (xs ! j) < 0"
  unfolding falling_def by (metis le_neq_implies_less not_le order_less_asym)

lemma place_falling:
  assumes "falling df xs" "l \<le> r" "r < length xs" "\<forall>j<l. df (xs ! j) > 0" "\<forall>j<length xs. r \<le> j \<longrightarrow> df (xs ! j) < 0"
  shows "(case place df xs l r of
      None \<Rightarrow> \<exists>j<length xs. df (xs ! j) = 0
    | Some i \<Rightarrow> l \<le> i \<and> i \<le> r \<and> (\<forall>j<i. df (xs ! j) > 0) \<and> (\<forall>j<length xs. i \<le> j \<longrightarrow> df (xs ! j) < 0))"
  using assms
proof (induction df xs l r rule: place.induct)
  case (1 df xs l r)
  show ?case
  proof (cases "l < r")
    case False
    with 1(3-) show ?thesis by (subst place.simps) simp
  next
    case True
    let ?i = "(l + r) div 2"
    have i: "l \<le> ?i" "?i < r" "?i < length xs" using True 1(5) by auto
    consider "df (xs ! ?i) = 0" | "df (xs ! ?i) > 0" | "df (xs ! ?i) < 0" by linarith
    then show ?thesis
    proof cases
      case 1
      then show ?thesis using True i by (subst place.simps) (auto simp: Let_def)
    next
      case 2
      have "\<forall>j<?i + 1. df (xs ! j) > 0"
        using falling_pos [OF \<open>falling df xs\<close> i(3) 2] by auto
      moreover have "place df xs l r = place df xs (?i + 1) r" using True 2 by (subst place.simps) (simp add: Let_def)
      ultimately show ?thesis using 1(1) [OF True refl refl] 1(3-) 2 i by (auto split: option.splits)
    next
      case 3
      have "df (xs ! j) < 0" if "?i \<le> j" "j < length xs" for j
        using falling_neg [OF \<open>falling df xs\<close> that 3] .
      moreover have "place df xs l r = place df xs l ?i" using True 3 by (subst place.simps) (simp add: Let_def)
      ultimately show ?thesis using 1(2) [OF True refl refl] 1(3-) 3 i by (auto split: option.splits)
    qed
  qed
qed

lemma search_falling:
  assumes "falling df xs" "l \<le> r" "r < length xs" "\<forall>j<l. df (xs ! j) > 0" "\<forall>j<length xs. r \<le> j \<longrightarrow> df (xs ! j) < 0"
  shows "(case search_items df xs l r of
      Some i \<Rightarrow> i < length xs \<and> df (xs ! i) = 0
    | None \<Rightarrow> \<forall>j<length xs. df (xs ! j) \<noteq> 0)"
  using assms
proof (induction df xs l r rule: search_items.induct)
  case (1 df xs l r)
  show ?case
  proof (cases "l < r")
    case False
    then have "l = r" using 1(4) by simp
    have "df (xs ! j) \<noteq> 0" if "j < length xs" for j
      using 1(6,7) that \<open>l = r\<close> by (cases "j < l") force+
    with False show ?thesis by (subst search_items.simps) simp
  next
    case True
    let ?i = "(l + r) div 2"
    have i: "l \<le> ?i" "?i < r" "?i < length xs" using True 1(5) by auto
    consider "df (xs ! ?i) = 0" | "df (xs ! ?i) > 0" | "df (xs ! ?i) < 0" by linarith
    then show ?thesis
    proof cases
      case 1
      then show ?thesis using True i by (subst search_items.simps) (auto simp: Let_def)
    next
      case 2
      have "\<forall>j<?i + 1. df (xs ! j) > 0"
        using falling_pos [OF \<open>falling df xs\<close> i(3) 2] by auto
      moreover have "search_items df xs l r = search_items df xs (?i + 1) r" using True 2 by (subst search_items.simps) (simp add: Let_def)
      ultimately show ?thesis using 1(1) [OF True refl refl] 1(3-) 2 i by (auto split: option.splits)
    next
      case 3
      have "df (xs ! j) < 0" if "?i \<le> j" "j < length xs" for j
        using falling_neg [OF \<open>falling df xs\<close> that 3] .
      moreover have "search_items df xs l r = search_items df xs l ?i" using True 3 by (subst search_items.simps) (simp add: Let_def)
      ultimately show ?thesis using 1(2) [OF True refl refl] 1(3-) 3 i by (auto split: option.splits)
    qed
  qed
qed

text \<open>The searches read the array of the node, of which the items are a prefix.\<close>

lemma place_prefix:
  "(\<And>j. j < r \<Longrightarrow> ys ! j = xs ! j) \<Longrightarrow> place df ys l r = place df xs l r"
proof (induction df ys l r rule: place.induct)
  case (1 df ys l r)
  show ?case
  proof (cases "l < r")
    case True
    then show ?thesis using 1 by (subst (1 2) place.simps) (simp add: Let_def)
  qed (subst (1 2) place.simps, simp)
qed

lemma search_prefix:
  "(\<And>j. j < r \<Longrightarrow> ys ! j = xs ! j) \<Longrightarrow> search_items df ys l r = search_items df xs l r"
proof (induction df ys l r rule: search_items.induct)
  case (1 df ys l r)
  show ?case
  proof (cases "l < r")
    case True
    then show ?thesis using 1 by (subst (1 2) search_items.simps) (simp add: Let_def)
  qed (subst (1 2) search_items.simps, simp)
qed

lemma find_equal_cases:
  "(case find_equal df xs k of
      None \<Rightarrow> \<forall>x\<in>set xs. df x \<noteq> 0
    | Some i \<Rightarrow> k \<le> i \<and> i < k + length xs \<and> df (xs ! (i - k)) = 0)"
proof (induction xs arbitrary: k)
  case (Cons x xs)
  from Cons [of "k + 1"] show ?case by (auto split: option.splits simp: nth_Cons')
qed simp

end
