(* ===== verification/T_Tree_Insert.thy ===== *)
theory T_Tree_Insert
  imports T_Tree_Items Mallocator
begin

text \<open>
  Insertion into the T-tree.  The invariant \<open>tree_in\<close>: the memory holds a tree whose nodes are
  live blocks, each node used once, which is balanced and whose items are in strictly increasing
  key order.  The lemmas are proved for every allocator that keeps the contract \<open>mallocator\<close>.
\<close>

section \<open>Invariant\<close>

text \<open>
  What the tree relies on: the comparison, cut to an \<open>int\<close>, has the sign of the order of the
  keys, and the full result is 0 just for equal keys.
\<close>

definition key_order :: "('k::linorder \<Rightarrow> handle \<Rightarrow> int) \<Rightarrow> (handle \<Rightarrow> 'k) \<Rightarrow> bool" where
  "key_order pfComp Key \<longleftrightarrow>
     (\<forall>k h. (iDiff pfComp k h < 0 \<longleftrightarrow> k < Key h) \<and> (iDiff pfComp k h = 0 \<longleftrightarrow> k = Key h)
        \<and> (pfComp k h = 0 \<longleftrightarrow> k = Key h))"

definition strict :: "(handle \<Rightarrow> 'k::linorder) \<Rightarrow> handle list \<Rightarrow> bool" where
  "strict Key xs \<longleftrightarrow> sorted_wrt (\<lambda>x y. Key x < Key y) xs"

definition tree_in :: "('s \<Rightarrow> bool) \<Rightarrow> ('s \<Rightarrow> (handle \<times> nat) set) \<Rightarrow> (handle \<Rightarrow> 'k::linorder) \<Rightarrow> 's tree_mem \<Rightarrow> ttree \<Rightarrow> bool" where
  "tree_in ok blocks Key m t \<longleftrightarrow> ok (tm_alloc m) \<and> tt (tm_node m) t \<and> distinct (nodes t)
     \<and> set (nodes t) \<subseteq> fst ` blocks (tm_alloc m) \<and> avl t \<and> strict Key (inorder t)"

text \<open>
  The tree \<open>t\<close> has become \<open>t'\<close> by taking in \<open>x\<close>: it is higher by \<open>g\<close>, its new nodes are new
  blocks, and no other block was touched.
\<close>

definition grown :: "('s \<Rightarrow> bool) \<Rightarrow> ('s \<Rightarrow> (handle \<times> nat) set) \<Rightarrow> (handle \<Rightarrow> 'k::linorder) \<Rightarrow> 's tree_mem \<Rightarrow> ttree
    \<Rightarrow> handle \<Rightarrow> int \<Rightarrow> 's tree_mem \<Rightarrow> ttree \<Rightarrow> bool" where
  "grown ok blocks Key m t x g m' t' \<longleftrightarrow> tree_in ok blocks Key m' t'
     \<and> g \<in> {0, 1} \<and> int (height t') = int (height t) + g \<and> (g = 1 \<and> t \<noteq> TLeaf \<longrightarrow> tbal t' \<noteq> 0)
     \<and> set (inorder t') = insert x (set (inorder t))
     \<and> set (nodes t) \<subseteq> set (nodes t') \<and> blocks (tm_alloc m) \<subseteq> blocks (tm_alloc m')
     \<and> fst ` blocks (tm_alloc m') = fst ` blocks (tm_alloc m) \<union> set (nodes t')
     \<and> set (nodes t') \<inter> fst ` blocks (tm_alloc m) \<subseteq> set (nodes t)
     \<and> (\<forall>h. h \<in> fst ` blocks (tm_alloc m) \<longrightarrow> h \<notin> set (nodes t) \<longrightarrow> tm_node m' h = tm_node m h)"

definition insert_result :: "('s \<Rightarrow> bool) \<Rightarrow> ('s \<Rightarrow> (handle \<times> nat) set) \<Rightarrow> (handle \<Rightarrow> 'k::linorder) \<Rightarrow> 's tree_mem \<Rightarrow> ttree
    \<Rightarrow> handle \<Rightarrow> (int \<times> handle \<times> 's tree_mem) option \<Rightarrow> bool" where
  "insert_result ok blocks Key m t x res \<longleftrightarrow>
     (\<exists>iRet h m'. res = Some (iRet, h, m')
        \<and> (iRet = -2 \<and> h = root t \<and> m' = m \<and> Key x \<in> Key ` set (inorder t)
           \<or> iRet = -1 \<and> h = root t \<and> tm_node m' = tm_node m \<and> ok (tm_alloc m')
               \<and> blocks (tm_alloc m') = blocks (tm_alloc m) \<and> Key x \<notin> Key ` set (inorder t)
           \<or> (\<exists>t'. h = root t' \<and> grown ok blocks Key m t x iRet m' t' \<and> Key x \<notin> Key ` set (inorder t))))"

lemma strict_append: "strict Key (xs @ ys) \<longleftrightarrow> strict Key xs \<and> strict Key ys \<and> (\<forall>x\<in>set xs. \<forall>y\<in>set ys. Key x < Key y)"
  by (auto simp: strict_def sorted_wrt_append)

lemma strict_Nil [simp]: "strict Key []"
  by (simp add: strict_def)

lemma strict_Cons: "strict Key (x # xs) \<longleftrightarrow> (\<forall>y\<in>set xs. Key x < Key y) \<and> strict Key xs"
  by (simp add: strict_def)

lemma strict_hd: "strict Key xs \<Longrightarrow> xs \<noteq> [] \<Longrightarrow> y \<in> set xs \<Longrightarrow> Key (hd xs) \<le> Key y"
  by (cases xs) (auto simp: strict_Cons)

lemma strict_last: "strict Key xs \<Longrightarrow> xs \<noteq> [] \<Longrightarrow> y \<in> set xs \<Longrightarrow> Key y \<le> Key (last xs)"
  by (cases xs rule: rev_cases) (auto simp: strict_append)

lemma strict_inj: "strict Key xs \<Longrightarrow> inj_on Key (set xs)"
proof (induction xs)
  case (Cons x xs)
  then have "Key x \<notin> Key ` set xs" by (auto simp: strict_Cons)
  with Cons show ?case by (auto simp: strict_Cons inj_on_insert)
qed simp

text \<open>A strictly sorted list is determined by its elements.\<close>

lemma strict_unique: "strict Key xs \<Longrightarrow> strict Key ys \<Longrightarrow> set xs = set ys \<Longrightarrow> xs = ys"
proof (induction xs arbitrary: ys)
  case (Cons x xs)
  then obtain y zs where ys: "ys = y # zs" by (cases ys) auto
  have "x = y" using Cons.prems unfolding ys strict_Cons by (metis insert_iff list.simps(15) not_less_iff_gr_or_eq)
  moreover have "x \<notin> set xs" "y \<notin> set zs" using Cons.prems unfolding ys strict_Cons by auto
  ultimately have "set xs = set zs" using Cons.prems(3) ys by (metis Diff_insert_absorb list.simps(15))
  then show ?case using Cons ys \<open>x = y\<close> by (auto simp: strict_Cons)
qed simp

lemma strict_insort:
  assumes "strict Key xs" "strict Key ys" "set ys = insert x (set xs)" "Key x \<notin> Key ` set xs"
  shows "ys = insort_key Key x xs"
proof -
  have "strict Key (insort_key Key x xs)" using assms(1,4)
    by (induction xs) (auto simp: strict_Cons set_insort_key)
  with assms(2,3) show ?thesis by (intro strict_unique) (auto simp: set_insort_key)
qed

lemma strict_between:
  assumes "strict Key (ls @ xs @ rs)" "i < length xs"
    and "\<And>y. y \<in> set (ls @ take i xs) \<Longrightarrow> Key y < Key x" "\<And>y. y \<in> set (drop i xs @ rs) \<Longrightarrow> Key x < Key y"
  shows "strict Key (ls @ (take i xs @ x # drop i xs) @ rs)"
proof -
  have "strict Key ((ls @ take i xs) @ (drop i xs @ rs))" using assms(1) by (metis append_take_drop_id append.assoc)
  then have "strict Key ((ls @ take i xs) @ x # (drop i xs @ rs))"
    unfolding strict_append strict_Cons using assms(3,4) by auto
  then show ?thesis by simp
qed

lemma strict_drop: "strict Key (as @ z # bs) \<Longrightarrow> strict Key (as @ bs)"
  by (auto simp: strict_append strict_Cons)

lemma strict_fresh: "strict Key (as @ z # bs) \<Longrightarrow> Key z \<notin> Key ` set (as @ bs)"
  by (auto simp: strict_append strict_Cons)

lemma key_orderD:
  assumes "key_order pfComp Key"
  shows "iDiff pfComp k h < 0 \<longleftrightarrow> k < Key h" "iDiff pfComp k h = 0 \<longleftrightarrow> k = Key h"
    "iDiff pfComp k h > 0 \<longleftrightarrow> Key h < k" "iDiff pfComp k h \<le> 0 \<longleftrightarrow> k \<le> Key h" "iDiff pfComp k h \<ge> 0 \<longleftrightarrow> Key h \<le> k"
    "pfComp k h = 0 \<longleftrightarrow> k = Key h"
proof -
  show "pfComp k h = 0 \<longleftrightarrow> k = Key h" using assms by (simp add: key_order_def)
  show 1: "iDiff pfComp k h < 0 \<longleftrightarrow> k < Key h" and 2: "iDiff pfComp k h = 0 \<longleftrightarrow> k = Key h"
    using assms by (auto simp: key_order_def)
  show "iDiff pfComp k h > 0 \<longleftrightarrow> Key h < k" "iDiff pfComp k h \<le> 0 \<longleftrightarrow> k \<le> Key h" "iDiff pfComp k h \<ge> 0 \<longleftrightarrow> Key h \<le> k"
    using 1 2 by (metis linorder_less_linear less_irrefl order_less_asym, metis order_le_less, metis linorder_not_less)
qed

lemma strict_falling:
  assumes "key_order pfComp Key" "strict Key xs"
  shows "falling (iDiff pfComp k) xs"
  unfolding falling_def key_orderD [OF assms(1)]
  using assms(2) unfolding strict_def sorted_wrt_iff_nth_less by (metis order_less_le_trans)

section \<open>Steps\<close>

locale tree_alloc = mallocator malloc free inv blocks
  for malloc :: "nat \<Rightarrow> 's \<Rightarrow> (handle \<times> 's) option" and free :: "handle \<Rightarrow> 's \<Rightarrow> int \<times> 's"
    and inv :: "'s \<Rightarrow> bool" and blocks :: "'s \<Rightarrow> (handle \<times> nat) set" +
  fixes M :: "'s CMallocator"
  assumes ops: "op_Malloc M = malloc" "op_Free M = free"
    and unique: "inv s \<Longrightarrow> (h, k) \<in> blocks s \<Longrightarrow> (h, k') \<in> blocks s \<Longrightarrow> k = k'"
begin

lemma Node_Alloc_cases:
  assumes "inv (tm_alloc m)"
  obtains m' where "Node_Alloc M x m = Some (INVALID_HANDLE, m')" "tm_node m' = tm_node m" "inv (tm_alloc m')"
      "blocks (tm_alloc m') = blocks (tm_alloc m)"
  | h m' where "Node_Alloc M x m = Some (h, m')" "h \<noteq> INVALID_HANDLE"
      "grown inv blocks Key m TLeaf x 1 m' (TNode h TLeaf 0 [x] TLeaf)"
proof -
  obtain h s' where h: "malloc sizeof_CTtreeNode (tm_alloc m) = Some (h, s')" "inv s'"
      "h = 0 \<and> blocks s' = blocks (tm_alloc m) \<or> h \<noteq> 0 \<and> (\<exists>k. sizeof_CTtreeNode \<le> k \<and> h \<notin> fst ` blocks (tm_alloc m)
         \<and> blocks s' = insert (h, k) (blocks (tm_alloc m)))"
    using malloc_cases [OF assms, of sizeof_CTtreeNode] by blast
  show ?thesis
  proof (cases "h = 0")
    case True
    with h that(1) [of "m\<lparr>tm_alloc := s'\<rparr>"] show ?thesis by (simp add: Node_Alloc_def ops INVALID_HANDLE_def)
  next
    case False
    define n where "n = Node_Init\<lparr>m_ahItems := (m_ahItems Node_Init)[0 := x], m_ushNItems := 1\<rparr>"
    let ?m = "upd_node h (\<lambda>_. n) (m\<lparr>tm_alloc := s'\<rparr>)"
    have e: "Node_Alloc M x m = Some (h, ?m)" using False h by (simp add: Node_Alloc_def ops INVALID_HANDLE_def n_def)
    have n: "node_items n [x]" by (simp add: n_def node_items_are items_are_def Node_Init_def PAGE_SIZE_def)
    from False h obtain k where k: "h \<notin> fst ` blocks (tm_alloc m)" "blocks s' = insert (h, k) (blocks (tm_alloc m))" by auto
    have "grown inv blocks Key m TLeaf x 1 ?m (TNode h TLeaf 0 [x] TLeaf)"
      using False h(2) k n by (auto simp: grown_def tree_in_def strict_def n_def Node_Init_def INVALID_HANDLE_def)
    with that(2) [OF e] False show ?thesis by (simp add: INVALID_HANDLE_def)
  qed
qed

text \<open>A node whose left branch took in \<open>x\<close>: with the new branch attached, and rebalanced.\<close>

lemma attach_left:
  assumes T: "tree_in inv blocks Key m (TNode a l b xs r)" and G: "grown inv blocks Key m l x g m1 l'"
    and lt: "Key x < Key (hd xs)"
  defines "m2 \<equiv> (if root l' \<noteq> root l then set_left a (root l') m1 else m1)"
  shows "tt (tm_node m2) (TNode a l' b xs r)" and "distinct (nodes (TNode a l' b xs r))"
    and "strict Key (inorder (TNode a l' b xs r))" and "tm_alloc m2 = tm_alloc m1"
    and "\<And>h. h \<in> fst ` blocks (tm_alloc m) \<Longrightarrow> h \<notin> set (nodes (TNode a l b xs r)) \<Longrightarrow> tm_node m2 h = tm_node m h"
proof -
  have t: "tt (tm_node m) (TNode a l b xs r)" "distinct (nodes (TNode a l b xs r))"
    "set (nodes (TNode a l b xs r)) \<subseteq> fst ` blocks (tm_alloc m)" "strict Key (inorder (TNode a l b xs r))"
    using T by (auto simp: tree_in_def)
  have g: "tt (tm_node m1) l'" "distinct (nodes l')" "strict Key (inorder l')"
    "set (inorder l') = insert x (set (inorder l))" "set (nodes l') \<inter> fst ` blocks (tm_alloc m) \<subseteq> set (nodes l)"
    and fr: "\<And>h. h \<in> fst ` blocks (tm_alloc m) \<Longrightarrow> h \<notin> set (nodes l) \<Longrightarrow> tm_node m1 h = tm_node m h"
    using G by (auto simp: grown_def tree_in_def)
  have al: "a \<notin> set (nodes l')" "set (nodes l') \<inter> set (nodes r) = {}" using g(5) t(2,3) by auto
  have a1: "tm_node m1 a = tm_node m a" by (rule fr) (use t in auto)
  have r1: "tt (tm_node m1) r = tt (tm_node m) r" by (rule tt_cong, rule fr) (use t in auto)
  have m2: "tm_node m2 = (tm_node m1)(a := (tm_node m a)\<lparr>m_hLeft := root l'\<rparr>)"
    using a1 t(1) by (auto simp: m2_def fun_eq_iff)
  show "tt (tm_node m2) (TNode a l' b xs r)" using t(1,2) g(1) r1 al by (simp add: m2)
  show "distinct (nodes (TNode a l' b xs r))" using t(2) g(2) al by auto
  show "tm_alloc m2 = tm_alloc m1" by (simp add: m2_def)
  have ne: "xs \<noteq> []" using t(1) by (auto simp: node_items_def)
  have "Key x < Key y" if "y \<in> set (xs @ inorder r)" for y
    using t(4) ne that lt strict_hd [of Key "xs @ inorder r" y] by (auto simp: strict_append)
  then show "strict Key (inorder (TNode a l' b xs r))" using t(4) g(3,4) by (auto simp: strict_append)
  show "tm_node m2 h = tm_node m h" if "h \<in> fst ` blocks (tm_alloc m)" "h \<notin> set (nodes (TNode a l b xs r))" for h
    using that fr by (simp add: m2)
qed

lemma left_lift:
  assumes T: "tree_in inv blocks Key m (TNode a l b xs r)" and G: "grown inv blocks Key m l x g m1 l'"
    and lt: "Key x < Key (hd xs)"
  defines "m2 \<equiv> (if root l' \<noteq> root l then set_left a (root l') m1 else m1)"
  shows "\<exists>g' m' t'. (if g = 0 then Some (0, a, m2) else left_grown a (root l') m2) = Some (g', root t', m')
     \<and> grown inv blocks Key m (TNode a l b xs r) x g' m' t'"
proof -
  note A = attach_left [OF T G lt, folded m2_def]
  have t: "set (nodes (TNode a l b xs r)) \<subseteq> fst ` blocks (tm_alloc m)" "avl (TNode a l b xs r)"
    "distinct (nodes (TNode a l b xs r))" using T by (auto simp: tree_in_def)
  have g: "inv (tm_alloc m1)" "avl l'" "g \<in> {0, 1}" "int (height l') = int (height l) + g"
    "g = 1 \<and> l \<noteq> TLeaf \<Longrightarrow> tbal l' \<noteq> 0" "set (inorder l') = insert x (set (inorder l))"
    "set (nodes l) \<subseteq> set (nodes l')" "blocks (tm_alloc m) \<subseteq> blocks (tm_alloc m1)"
    "fst ` blocks (tm_alloc m1) = fst ` blocks (tm_alloc m) \<union> set (nodes l')"
    "set (nodes l') \<inter> fst ` blocks (tm_alloc m) \<subseteq> set (nodes l)"
    using G by (auto simp: grown_def tree_in_def)
  have fin: "grown inv blocks Key m (TNode a l b xs r) x g' m' t'"
    if "same_items (TNode a l' b xs r) t'" "avl t'" "g' \<in> {0, 1}" "int (height t') = int (height (TNode a l b xs r)) + g'"
      "g' = 1 \<longrightarrow> tbal t' \<noteq> 0" "tt (tm_node m') t'" "tm_alloc m' = tm_alloc m1"
      "\<And>h. h \<notin> set (nodes (TNode a l' b xs r)) \<Longrightarrow> tm_node m' h = tm_node m2 h" for g' m' t'
  proof -
    have n: "nodes t' = nodes (TNode a l' b xs r)" "inorder t' = inorder (TNode a l' b xs r)"
      using that(1) by (simp_all add: same_items_def)
    have "h \<notin> set (nodes (TNode a l' b xs r))"
      if "h \<in> fst ` blocks (tm_alloc m)" "h \<notin> set (nodes (TNode a l b xs r))" for h
      using that g(10) by auto
    then have f: "tm_node m' h = tm_node m h"
      if "h \<in> fst ` blocks (tm_alloc m)" "h \<notin> set (nodes (TNode a l b xs r))" for h
      using that A(5) [OF that] \<open>\<And>h. h \<notin> set (nodes (TNode a l' b xs r)) \<Longrightarrow> tm_node m' h = tm_node m2 h\<close> by simp
    have ti: "tree_in inv blocks Key m' t'" unfolding tree_in_def n
      using that A(2,3) g(1,9) t(1) by auto
    have "set (inorder (TNode a l' b xs r)) = insert x (set (inorder (TNode a l b xs r)))" using g(6) by auto
    moreover have "set (nodes (TNode a l b xs r)) \<subseteq> set (nodes (TNode a l' b xs r))" using g(7) by auto
    moreover have "fst ` blocks (tm_alloc m1) = fst ` blocks (tm_alloc m) \<union> set (nodes (TNode a l' b xs r))"
      using g(9) t(1) by auto
    moreover have "set (nodes (TNode a l' b xs r)) \<inter> fst ` blocks (tm_alloc m) \<subseteq> set (nodes (TNode a l b xs r))"
      using g(10) by auto
    ultimately show ?thesis unfolding grown_def n that(7) using ti that(3-5) f g(8) by (intro conjI) blast+
  qed
  show ?thesis
  proof (cases "g = 0")
    case True
    have "grown inv blocks Key m (TNode a l b xs r) x 0 m2 (TNode a l' b xs r)"
      by (rule fin) (use True g t A in \<open>auto simp: same_items_def\<close>)
    with True show ?thesis by (intro exI [of _ 0] exI [of _ m2] exI [of _ "TNode a l' b xs r"]) simp
  next
    case False
    then have g1: "g = 1" using g(3) by simp
    obtain g' t' where e: "t_left_grown a l' b xs r = (g', t')" by (cases "t_left_grown a l' b xs r") auto
    have bt: "b = -1 \<Longrightarrow> tbal l' \<noteq> 0" using g(5) g1 t(2) by (cases "l = TLeaf") auto
    have "l' \<noteq> TLeaf" using g(4) g1 by auto
    then have P: "same_items (TNode a l' b xs r) t'" "avl t'" "g' \<in> {0, 1}"
      "int (height t') = max (int (height l') - 1) (int (height r)) + 1 + g'" "g' = 1 \<longrightarrow> tbal t' \<noteq> 0"
      using t_left_grown_avl [of l' r b a xs] g(2,4) g1 t(2) bt e by auto
    have "t' \<noteq> TLeaf" using P(1) by (cases t') (auto simp: same_items_def)
    from left_grown_heap [OF A(1,2) e this] obtain m' where
      h: "left_grown a (root l') m2 = Some (g', root t', m')" and ro: "rotated m2 (TNode a l' b xs r) m' t'" by blast
    have "grown inv blocks Key m (TNode a l b xs r) x g' m' t'"
      by (rule fin) (use P ro g(4) g1 A(4) in \<open>auto simp: rotated_def\<close>)
    with h False show ?thesis by auto
  qed
qed

lemma attach_right:
  assumes T: "tree_in inv blocks Key m (TNode a l b xs r)" and G: "grown inv blocks Key m r x g m1 r'"
    and lt: "Key (last xs) < Key x"
  defines "m2 \<equiv> (if root r' \<noteq> root r then set_right a (root r') m1 else m1)"
  shows "tt (tm_node m2) (TNode a l b xs r')" and "distinct (nodes (TNode a l b xs r'))"
    and "strict Key (inorder (TNode a l b xs r'))" and "tm_alloc m2 = tm_alloc m1"
    and "\<And>h. h \<in> fst ` blocks (tm_alloc m) \<Longrightarrow> h \<notin> set (nodes (TNode a l b xs r)) \<Longrightarrow> tm_node m2 h = tm_node m h"
proof -
  have t: "tt (tm_node m) (TNode a l b xs r)" "distinct (nodes (TNode a l b xs r))"
    "set (nodes (TNode a l b xs r)) \<subseteq> fst ` blocks (tm_alloc m)" "strict Key (inorder (TNode a l b xs r))"
    using T by (auto simp: tree_in_def)
  have g: "tt (tm_node m1) r'" "distinct (nodes r')" "strict Key (inorder r')"
    "set (inorder r') = insert x (set (inorder r))" "set (nodes r') \<inter> fst ` blocks (tm_alloc m) \<subseteq> set (nodes r)"
    and fr: "\<And>h. h \<in> fst ` blocks (tm_alloc m) \<Longrightarrow> h \<notin> set (nodes r) \<Longrightarrow> tm_node m1 h = tm_node m h"
    using G by (auto simp: grown_def tree_in_def)
  have al: "a \<notin> set (nodes r')" "set (nodes l) \<inter> set (nodes r') = {}" using g(5) t(2,3) by auto
  have a1: "tm_node m1 a = tm_node m a" by (rule fr) (use t in auto)
  have r1: "tt (tm_node m1) l = tt (tm_node m) l" by (rule tt_cong, rule fr) (use t in auto)
  have m2: "tm_node m2 = (tm_node m1)(a := (tm_node m a)\<lparr>m_hRight := root r'\<rparr>)"
    using a1 t(1) by (auto simp: m2_def fun_eq_iff)
  show "tt (tm_node m2) (TNode a l b xs r')" using t(1,2) g(1) r1 al by (simp add: m2)
  show "distinct (nodes (TNode a l b xs r'))" using t(2) g(2) al by auto
  show "tm_alloc m2 = tm_alloc m1" by (simp add: m2_def)
  have ne: "xs \<noteq> []" using t(1) by (auto simp: node_items_def)
  have "Key y < Key x" if "y \<in> set (inorder l @ xs)" for y
    using t(4) ne that lt strict_last [of Key "inorder l @ xs" y] by (auto simp: strict_append)
  then show "strict Key (inorder (TNode a l b xs r'))" using t(4) g(3,4) by (auto simp: strict_append)
  show "tm_node m2 h = tm_node m h" if "h \<in> fst ` blocks (tm_alloc m)" "h \<notin> set (nodes (TNode a l b xs r))" for h
    using that fr by (simp add: m2)
qed

lemma right_lift:
  assumes T: "tree_in inv blocks Key m (TNode a l b xs r)" and G: "grown inv blocks Key m r x g m1 r'"
    and lt: "Key (last xs) < Key x"
  defines "m2 \<equiv> (if root r' \<noteq> root r then set_right a (root r') m1 else m1)"
  shows "\<exists>g' m' t'. (if g = 0 then Some (0, a, m2) else right_grown a (root r') m2) = Some (g', root t', m')
     \<and> grown inv blocks Key m (TNode a l b xs r) x g' m' t'"
proof -
  note A = attach_right [OF T G lt, folded m2_def]
  have t: "set (nodes (TNode a l b xs r)) \<subseteq> fst ` blocks (tm_alloc m)" "avl (TNode a l b xs r)"
    "distinct (nodes (TNode a l b xs r))" using T by (auto simp: tree_in_def)
  have g: "inv (tm_alloc m1)" "avl r'" "g \<in> {0, 1}" "int (height r') = int (height r) + g"
    "g = 1 \<and> r \<noteq> TLeaf \<Longrightarrow> tbal r' \<noteq> 0" "set (inorder r') = insert x (set (inorder r))"
    "set (nodes r) \<subseteq> set (nodes r')" "blocks (tm_alloc m) \<subseteq> blocks (tm_alloc m1)"
    "fst ` blocks (tm_alloc m1) = fst ` blocks (tm_alloc m) \<union> set (nodes r')"
    "set (nodes r') \<inter> fst ` blocks (tm_alloc m) \<subseteq> set (nodes r)"
    using G by (auto simp: grown_def tree_in_def)
  have fin: "grown inv blocks Key m (TNode a l b xs r) x g' m' t'"
    if "same_items (TNode a l b xs r') t'" "avl t'" "g' \<in> {0, 1}" "int (height t') = int (height (TNode a l b xs r)) + g'"
      "g' = 1 \<longrightarrow> tbal t' \<noteq> 0" "tt (tm_node m') t'" "tm_alloc m' = tm_alloc m1"
      "\<And>h. h \<notin> set (nodes (TNode a l b xs r')) \<Longrightarrow> tm_node m' h = tm_node m2 h" for g' m' t'
  proof -
    have n: "nodes t' = nodes (TNode a l b xs r')" "inorder t' = inorder (TNode a l b xs r')"
      using that(1) by (simp_all add: same_items_def)
    have "h \<notin> set (nodes (TNode a l b xs r'))"
      if "h \<in> fst ` blocks (tm_alloc m)" "h \<notin> set (nodes (TNode a l b xs r))" for h
      using that g(10) by auto
    then have f: "tm_node m' h = tm_node m h"
      if "h \<in> fst ` blocks (tm_alloc m)" "h \<notin> set (nodes (TNode a l b xs r))" for h
      using that A(5) [OF that] \<open>\<And>h. h \<notin> set (nodes (TNode a l b xs r')) \<Longrightarrow> tm_node m' h = tm_node m2 h\<close> by simp
    have ti: "tree_in inv blocks Key m' t'" unfolding tree_in_def n
      using that A(2,3) g(1,9) t(1) by auto
    have "set (inorder (TNode a l b xs r')) = insert x (set (inorder (TNode a l b xs r)))" using g(6) by auto
    moreover have "set (nodes (TNode a l b xs r)) \<subseteq> set (nodes (TNode a l b xs r'))" using g(7) by auto
    moreover have "fst ` blocks (tm_alloc m1) = fst ` blocks (tm_alloc m) \<union> set (nodes (TNode a l b xs r'))"
      using g(9) t(1) by auto
    moreover have "set (nodes (TNode a l b xs r')) \<inter> fst ` blocks (tm_alloc m) \<subseteq> set (nodes (TNode a l b xs r))"
      using g(10) by auto
    ultimately show ?thesis unfolding grown_def n that(7) using ti that(3-5) f g(8) by (intro conjI) blast+
  qed
  show ?thesis
  proof (cases "g = 0")
    case True
    have "grown inv blocks Key m (TNode a l b xs r) x 0 m2 (TNode a l b xs r')"
      by (rule fin) (use True g t A in \<open>auto simp: same_items_def\<close>)
    with True show ?thesis by (intro exI [of _ 0] exI [of _ m2] exI [of _ "TNode a l b xs r'"]) simp
  next
    case False
    then have g1: "g = 1" using g(3) by simp
    obtain g' t' where e: "t_right_grown a l b xs r' = (g', t')" by (cases "t_right_grown a l b xs r'") auto
    have bt: "b = 1 \<Longrightarrow> tbal r' \<noteq> 0" using g(5) g1 t(2) by (cases "r = TLeaf") auto
    have "r' \<noteq> TLeaf" using g(4) g1 by auto
    then have P: "same_items (TNode a l b xs r') t'" "avl t'" "g' \<in> {0, 1}"
      "int (height t') = max (int (height l)) (int (height r') - 1) + 1 + g'" "g' = 1 \<longrightarrow> tbal t' \<noteq> 0"
      using t_right_grown_avl [of l r' b a xs] g(2,4) g1 t(2) bt e by auto
    have "t' \<noteq> TLeaf" using P(1) by (cases t') (auto simp: same_items_def)
    from right_grown_heap [OF A(1,2) e this] obtain m' where
      h: "right_grown a (root r') m2 = Some (g', root t', m')" and ro: "rotated m2 (TNode a l b xs r') m' t'" by blast
    have "grown inv blocks Key m (TNode a l b xs r) x g' m' t'"
      by (rule fin) (use P ro g(4) g1 A(4) in \<open>auto simp: rotated_def\<close>)
    with h False show ?thesis by auto
  qed
qed

lemma tree_in_sub:
  assumes "tree_in inv blocks Key m (TNode a l b xs r)"
  shows "tree_in inv blocks Key m l" and "tree_in inv blocks Key m r" and "strict Key xs" and "xs \<noteq> []"
    and "node_items (tm_node m a) xs" and "a \<noteq> INVALID_HANDLE" and "m_hLeft (tm_node m a) = root l"
    and "m_hRight (tm_node m a) = root r" and "m_chBalance (tm_node m a) = b"
    and "root l = INVALID_HANDLE \<longleftrightarrow> l = TLeaf" and "root r = INVALID_HANDLE \<longleftrightarrow> r = TLeaf"
  using assms tt_root [of "tm_node m" l] tt_root [of "tm_node m" r]
  by (auto simp: tree_in_def strict_append node_items_def)

lemma tree_in_items:
  assumes T: "tree_in inv blocks Key m (TNode a l b xs r)"
    and n: "tm_node m' = (tm_node m)(a := n)" "tm_alloc m' = tm_alloc m"
      "m_hLeft n = root l" "m_hRight n = root r" "m_chBalance n = b" "node_items n ys"
    and s: "strict Key (inorder l @ ys @ inorder r)"
  shows "tree_in inv blocks Key m' (TNode a l b ys r)"
  using T n s by (auto simp: tree_in_def)

lemma grown_items:
  assumes T: "tree_in inv blocks Key m (TNode a l b xs r)"
    and n: "tm_node m' = (tm_node m)(a := n)" "tm_alloc m' = tm_alloc m"
      "m_hLeft n = root l" "m_hRight n = root r" "m_chBalance n = b" "node_items n ys"
    and s: "strict Key (inorder l @ ys @ inorder r)" and x: "set ys = insert x (set xs)"
  shows "grown inv blocks Key m (TNode a l b xs r) x 0 m' (TNode a l b ys r)"
proof -
  have "tree_in inv blocks Key m' (TNode a l b ys r)" by (rule tree_in_items [OF T n s])
  with T n(1,2) x show ?thesis by (auto simp: grown_def tree_in_def)
qed

lemma insert_resultI:
  "Key x \<notin> Key ` set (inorder t) \<Longrightarrow> grown inv blocks Key m t x g m' t' \<Longrightarrow>
     insert_result inv blocks Key m t x (Some (g, root t', m'))"
  by (auto simp: insert_result_def)

lemma insert_left_case:
  assumes ko: "key_order pfComp Key" and T: "tree_in inv blocks Key m (TNode a l b xs r)"
    and lt: "Key x < Key (hd xs)"
    and IH: "l \<noteq> TLeaf \<Longrightarrow> insert_result inv blocks Key m l x (Node_Insert M pfComp Key (root l) (Key x) x m)"
  shows "insert_result inv blocks Key m (TNode a l b xs r) x (Node_Insert M pfComp Key a (Key x) x m)"
proof -
  let ?t = "TNode a l b xs r" and ?n = "tm_node m a"
  note sub = tree_in_sub [OF T] and ends = node_items_ends [OF tree_in_sub(5) [OF T]]
  have st: "strict Key (inorder l @ xs @ inorder r)" using T by (simp add: tree_in_def)
  have above: "Key x < Key y" if "y \<in> set (xs @ inorder r)" for y
    using st sub(4) that lt strict_hd [of Key "xs @ inorder r" y] by (auto simp: strict_append)
  have mem: "Key x \<in> Key ` set (inorder ?t) \<longleftrightarrow> Key x \<in> Key ` set (inorder l)"
    using above by fastforce
  have d: "iDiff pfComp (Key x) (hd xs) < 0" using lt key_orderD(1) [OF ko] by blast
  have e: "Node_Insert M pfComp Key a (Key x) x m =
      (if l = TLeaf \<and> length xs < PAGE_SIZE
       then Some (0, a, set_count a (length xs + 1) (set_items a ((shift_up (m_ahItems ?n) (length xs) 0)[0 := x]) m))
       else if l = TLeaf then
         do { (hLeft, m1) \<leftarrow> Node_Alloc M x m;
              if hLeft = INVALID_HANDLE then Some (-1, a, m1) else left_grown a hLeft (set_left a hLeft m1) }
       else
         do { (iGrow, hChild, m1) \<leftarrow> Node_Insert M pfComp Key (root l) (Key x) x m;
              if iGrow < 0 then Some (iGrow, a, m1)
              else let m2 = (if hChild \<noteq> root l then set_left a hChild m1 else m1) in
                   if iGrow = 0 then Some (0, a, m2) else left_grown a hChild m2 })"
    using sub(6-8,10) ends d by (subst Node_Insert.simps) (simp add: Let_def cong: if_cong)
  consider (room) "l = TLeaf" "length xs < PAGE_SIZE" | (alloc) "l = TLeaf" "\<not> length xs < PAGE_SIZE" | (child) "l \<noteq> TLeaf"
    by blast
  then show ?thesis
  proof cases
    case room
    let ?m = "set_count a (length xs + 1) (set_items a ((shift_up (m_ahItems ?n) (length xs) 0)[0 := x]) m)"
    have "items_are (m_ahItems ?n) xs" using sub(5) by (simp add: node_items_are)
    from items_insert_at [OF this room(2), of 0 x]
    have ni: "node_items (tm_node ?m a) (x # xs)" by (simp add: node_items_are)
    have "grown inv blocks Key m ?t x 0 ?m (TNode a l b (x # xs) r)"
      by (rule grown_items [OF T, where n = "tm_node ?m a"])
        (use ni sub above st room in \<open>auto simp: strict_append strict_Cons\<close>)
    from insert_resultI [OF _ this] show ?thesis using e room mem by simp
  next
    case alloc
    have inv: "inv (tm_alloc m)" using T by (simp add: tree_in_def)
    show ?thesis
    proof (cases rule: Node_Alloc_cases [OF inv, where x = x and Key = Key])
      case (1 m')
      with e alloc mem show ?thesis by (simp add: insert_result_def)
    next
      case (2 h m')
      have "\<exists>g' m2 t'. left_grown a h (set_left a h m') = Some (g', root t', m2) \<and> grown inv blocks Key m ?t x g' m2 t'"
        using left_lift [OF T _ lt, of 1 m' "TNode h TLeaf 0 [x] TLeaf"] 2 alloc by (auto simp: INVALID_HANDLE_def)
      then show ?thesis using insert_resultI [of Key x ?t m] e alloc mem 2(1,2) by auto
    qed
  next
    case child
    from IH [OF child] obtain iRet h m1 where r: "Node_Insert M pfComp Key (root l) (Key x) x m = Some (iRet, h, m1)"
      "iRet = -2 \<and> h = root l \<and> m1 = m \<and> Key x \<in> Key ` set (inorder l)
       \<or> iRet = -1 \<and> h = root l \<and> tm_node m1 = tm_node m \<and> inv (tm_alloc m1)
           \<and> blocks (tm_alloc m1) = blocks (tm_alloc m) \<and> Key x \<notin> Key ` set (inorder l)
       \<or> (\<exists>t'. h = root t' \<and> grown inv blocks Key m l x iRet m1 t' \<and> Key x \<notin> Key ` set (inorder l))"
      unfolding insert_result_def by blast
    show ?thesis
    proof (cases "iRet < 0")
      case True
      then have "\<not> (\<exists>t'. grown inv blocks Key m l x iRet m1 t')" by (auto simp: grown_def)
      with r True e child mem show ?thesis by (auto simp: insert_result_def)
    next
      case False
      with r obtain l' where l': "h = root l'" "grown inv blocks Key m l x iRet m1 l'" "Key x \<notin> Key ` set (inorder l)" by auto
      from left_lift [OF T l'(2) lt] obtain g' m' t' where
        "(let m2 = (if h \<noteq> root l then set_left a h m1 else m1) in
          if iRet = 0 then Some (0, a, m2) else left_grown a h m2) = Some (g', root t', m')"
        "grown inv blocks Key m ?t x g' m' t'" unfolding l'(1) Let_def by blast
      with r(1) False e child mem l'(3) show ?thesis using insert_resultI [of Key x ?t m g' m' t'] by simp
    qed
  qed
qed

lemma insert_right_case:
  assumes ko: "key_order pfComp Key" and T: "tree_in inv blocks Key m (TNode a l b xs r)"
    and lt: "Key (last xs) < Key x"
    and IH: "r \<noteq> TLeaf \<Longrightarrow> insert_result inv blocks Key m r x (Node_Insert M pfComp Key (root r) (Key x) x m)"
  shows "insert_result inv blocks Key m (TNode a l b xs r) x (Node_Insert M pfComp Key a (Key x) x m)"
proof -
  let ?t = "TNode a l b xs r" and ?n = "tm_node m a"
  note sub = tree_in_sub [OF T] and ends = node_items_ends [OF tree_in_sub(5) [OF T]]
  have st: "strict Key (inorder l @ xs @ inorder r)" using T by (simp add: tree_in_def)
  have below: "Key y < Key x" if "y \<in> set (inorder l @ xs)" for y
    using st sub(4) that lt strict_last [of Key "inorder l @ xs" y] by (auto simp: strict_append)
  have mem: "Key x \<in> Key ` set (inorder ?t) \<longleftrightarrow> Key x \<in> Key ` set (inorder r)"
    using below by fastforce
  have d: "iDiff pfComp (Key x) (last xs) > 0" "iDiff pfComp (Key x) (hd xs) > 0"
    using below [of "hd xs"] below [of "last xs"] sub(4) key_orderD(3) [OF ko] by auto
  have e: "Node_Insert M pfComp Key a (Key x) x m =
      (if r = TLeaf \<and> length xs < PAGE_SIZE
       then Some (0, a, set_count a (length xs + 1) (set_items a ((m_ahItems ?n)[length xs := x]) m))
       else if r = TLeaf then
         do { (hRight, m1) \<leftarrow> Node_Alloc M x m;
              if hRight = INVALID_HANDLE then Some (-1, a, m1) else right_grown a hRight (set_right a hRight m1) }
       else
         do { (iGrow, hChild, m1) \<leftarrow> Node_Insert M pfComp Key (root r) (Key x) x m;
              if iGrow < 0 then Some (iGrow, a, m1)
              else let m2 = (if hChild \<noteq> root r then set_right a hChild m1 else m1) in
                   if iGrow = 0 then Some (0, a, m2) else right_grown a hChild m2 })"
    using sub(6-8,11) ends d by (subst Node_Insert.simps) (simp add: Let_def cong: if_cong)
  consider (room) "r = TLeaf" "length xs < PAGE_SIZE" | (alloc) "r = TLeaf" "\<not> length xs < PAGE_SIZE" | (child) "r \<noteq> TLeaf"
    by blast
  then show ?thesis
  proof cases
    case room
    let ?m = "set_count a (length xs + 1) (set_items a ((m_ahItems ?n)[length xs := x]) m)"
    have "items_are (m_ahItems ?n) xs" using sub(5) by (simp add: node_items_are)
    from items_append [OF this room(2), of x]
    have ni: "node_items (tm_node ?m a) (xs @ [x])" by (simp add: node_items_are)
    have "grown inv blocks Key m ?t x 0 ?m (TNode a l b (xs @ [x]) r)"
      by (rule grown_items [OF T, where n = "tm_node ?m a"])
        (use ni sub below st room in \<open>auto simp: strict_append strict_Cons\<close>)
    from insert_resultI [OF _ this] show ?thesis using e room mem by simp
  next
    case alloc
    have inv: "inv (tm_alloc m)" using T by (simp add: tree_in_def)
    show ?thesis
    proof (cases rule: Node_Alloc_cases [OF inv, where x = x and Key = Key])
      case (1 m')
      with e alloc mem show ?thesis by (simp add: insert_result_def)
    next
      case (2 h m')
      have "\<exists>g' m2 t'. right_grown a h (set_right a h m') = Some (g', root t', m2) \<and> grown inv blocks Key m ?t x g' m2 t'"
        using right_lift [OF T _ lt, of 1 m' "TNode h TLeaf 0 [x] TLeaf"] 2 alloc by (auto simp: INVALID_HANDLE_def)
      then show ?thesis using insert_resultI [of Key x ?t m] e alloc mem 2(1,2) by auto
    qed
  next
    case child
    from IH [OF child] obtain iRet h m1 where r: "Node_Insert M pfComp Key (root r) (Key x) x m = Some (iRet, h, m1)"
      "iRet = -2 \<and> h = root r \<and> m1 = m \<and> Key x \<in> Key ` set (inorder r)
       \<or> iRet = -1 \<and> h = root r \<and> tm_node m1 = tm_node m \<and> inv (tm_alloc m1)
           \<and> blocks (tm_alloc m1) = blocks (tm_alloc m) \<and> Key x \<notin> Key ` set (inorder r)
       \<or> (\<exists>t'. h = root t' \<and> grown inv blocks Key m r x iRet m1 t' \<and> Key x \<notin> Key ` set (inorder r))"
      unfolding insert_result_def by blast
    show ?thesis
    proof (cases "iRet < 0")
      case True
      then have "\<not> (\<exists>t'. grown inv blocks Key m r x iRet m1 t')" by (auto simp: grown_def)
      with r True e child mem show ?thesis by (auto simp: insert_result_def)
    next
      case False
      with r obtain l' where l': "h = root l'" "grown inv blocks Key m r x iRet m1 l'" "Key x \<notin> Key ` set (inorder r)" by auto
      from right_lift [OF T l'(2) lt] obtain g' m' t' where
        "(let m2 = (if h \<noteq> root r then set_right a h m1 else m1) in
          if iRet = 0 then Some (0, a, m2) else right_grown a h m2) = Some (g', root t', m')"
        "grown inv blocks Key m ?t x g' m' t'" unfolding l'(1) Let_def by blast
      with r(1) False e child mem l'(3) show ?thesis using insert_resultI [of Key x ?t m g' m' t'] by simp
    qed
  qed
qed

text \<open>The interior of a node: the place of a key between the first and the last item.\<close>

lemma place_items:
  assumes ko: "key_order pfComp Key" and st: "strict Key xs" and n: "node_items n xs"
    and lo: "Key (hd xs) < k" and hi: "k < Key (last xs)"
  obtains "place (iDiff pfComp k) (m_ahItems n) 1 (length xs - 1) = None" "k \<in> Key ` set xs"
  | i where "place (iDiff pfComp k) (m_ahItems n) 1 (length xs - 1) = Some i" "0 < i" "i < length xs"
      "\<forall>y\<in>set (take i xs). Key y < k" "\<forall>y\<in>set (drop i xs). k < Key y"
proof -
  let ?p = "place (iDiff pfComp k) xs 1 (length xs - 1)"
  have ne: "xs \<noteq> []" using n by (simp add: node_items_def)
  have two: "2 \<le> length xs"
  proof (rule ccontr)
    assume "\<not> 2 \<le> length xs"
    then obtain y where "xs = [y]" using ne by (cases xs) (auto simp: Suc_le_eq)
    with lo hi show False by simp
  qed
  have e: "place (iDiff pfComp k) (m_ahItems n) 1 (length xs - 1) = ?p"
    by (rule place_prefix) (use n node_items_nth [OF n] in auto)
  have l: "last xs = xs ! (length xs - 1)" "hd xs = xs ! 0" using ne by (simp_all add: last_conv_nth hd_conv_nth)
  have c: "case ?p of None \<Rightarrow> \<exists>j<length xs. iDiff pfComp k (xs ! j) = 0
    | Some i \<Rightarrow> 1 \<le> i \<and> i \<le> length xs - 1 \<and> (\<forall>j<i. iDiff pfComp k (xs ! j) > 0)
        \<and> (\<forall>j<length xs. i \<le> j \<longrightarrow> iDiff pfComp k (xs ! j) < 0)"
  proof (rule place_falling [OF strict_falling [OF ko st]])
    show "1 \<le> length xs - 1" "length xs - 1 < length xs" using two by auto
    show "\<forall>j<1. iDiff pfComp k (xs ! j) > 0" using lo l(2) by (simp add: key_orderD [OF ko])
    show "\<forall>j<length xs. length xs - 1 \<le> j \<longrightarrow> iDiff pfComp k (xs ! j) < 0"
    proof (intro allI impI)
      fix j assume "j < length xs" "length xs - 1 \<le> j"
      then have "j = length xs - 1" by simp
      then show "iDiff pfComp k (xs ! j) < 0" using hi l(1) by (simp add: key_orderD [OF ko])
    qed
  qed
  show ?thesis
  proof (cases ?p)
    case None
    with c that(1) e show ?thesis by (auto simp: key_orderD [OF ko])
  next
    case (Some i)
    with c have i: "0 < i" "i < length xs" "\<forall>j<i. Key (xs ! j) < k" "\<forall>j<length xs. i \<le> j \<longrightarrow> k < Key (xs ! j)"
      using two by (auto simp: key_orderD [OF ko])
    have "\<forall>y\<in>set (take i xs). Key y < k" using i by (auto simp: in_set_conv_nth)
    moreover have "\<forall>y\<in>set (drop i xs). k < Key y" using i by (auto simp: in_set_conv_nth)
    ultimately show ?thesis using that(2) [of i] Some e i by simp
  qed
qed

text \<open>Making room in a full node: one item leaves it and is inserted again.\<close>

lemma grown_reinsert:
  assumes T: "tree_in inv blocks Key m (TNode a l b xs r)"
    and m0: "tm_alloc m0 = tm_alloc m" "\<And>h. h \<noteq> a \<Longrightarrow> tm_node m0 h = tm_node m h"
    and z: "insert z (set ys) = insert x (set xs)"
    and G: "grown inv blocks Key m0 (TNode a l b ys r) z g m' t'"
  shows "grown inv blocks Key m (TNode a l b xs r) x g m' t'"
proof -
  have "insert z (set (inorder (TNode a l b ys r))) = insert x (set (inorder (TNode a l b xs r)))"
    using z by auto
  then show ?thesis using G m0 unfolding grown_def m0(1) by simp
qed

lemma reinsert_result:
  assumes T: "tree_in inv blocks Key m (TNode a l b xs r)" and m0: "m0 = set_items a arr m"
    and R: "insert_result inv blocks Key m0 (TNode a l b ys r) z res"
    and zn: "Key z \<notin> Key ` set (inorder l @ ys @ inorder r)" and nin: "Key x \<notin> Key ` set (inorder (TNode a l b xs r))"
    and z: "insert z (set ys) = insert x (set xs)"
  shows "insert_result inv blocks Key m (TNode a l b xs r) x
    (do { (iRet, h1, m1) \<leftarrow> res; Some (iRet, h1, if iRet < 0 then set_items a (m_ahItems (tm_node m a)) m1 else m1) })"
proof -
  let ?t = "TNode a l b xs r"
  obtain iRet h m' where r: "res = Some (iRet, h, m')" and
    c: "iRet = -1 \<and> h = a \<and> tm_node m' = tm_node m0 \<and> inv (tm_alloc m') \<and> blocks (tm_alloc m') = blocks (tm_alloc m0)
      \<or> (\<exists>t'. h = root t' \<and> grown inv blocks Key m0 (TNode a l b ys r) z iRet m' t')"
    using R zn by (auto simp: insert_result_def)
  from c show ?thesis
  proof
    assume "iRet = -1 \<and> h = a \<and> tm_node m' = tm_node m0 \<and> inv (tm_alloc m') \<and> blocks (tm_alloc m') = blocks (tm_alloc m0)"
    with r nin m0 show ?thesis by (auto simp: insert_result_def fun_eq_iff)
  next
    assume "\<exists>t'. h = root t' \<and> grown inv blocks Key m0 (TNode a l b ys r) z iRet m' t'"
    then obtain t' where t': "h = root t'" "grown inv blocks Key m0 (TNode a l b ys r) z iRet m' t'" by blast
    have "grown inv blocks Key m ?t x iRet m' t'"
      by (rule grown_reinsert [OF T _ _ z t'(2)]) (simp_all add: m0)
    moreover from this have "\<not> iRet < 0" by (auto simp: grown_def)
    ultimately show ?thesis using r t'(1) insert_resultI [OF nin] by simp
  qed
qed

lemma Node_Insert_result:
  assumes ko: "key_order pfComp Key"
  shows "tree_in inv blocks Key m t \<Longrightarrow> t \<noteq> TLeaf \<Longrightarrow>
    insert_result inv blocks Key m t x (Node_Insert M pfComp Key (root t) (Key x) x m)"
proof (induction t arbitrary: m x)
  case (TNode a l b xs r)
  let ?t = "TNode a l b xs r" and ?n = "tm_node m a"
  note T = TNode.prems(1)
  note sub = tree_in_sub [OF T] and ends = node_items_ends [OF tree_in_sub(5) [OF T]]
  have st: "strict Key (inorder l @ xs @ inorder r)" using T by (simp add: tree_in_def)
  have left: "insert_result inv blocks Key m' (TNode a l b ys r) z (Node_Insert M pfComp Key a (Key z) z m')"
    if "tree_in inv blocks Key m' (TNode a l b ys r)" "Key z < Key (hd ys)" for m' ys z
    by (rule insert_left_case [OF ko that]) (rule TNode.IH(1) [OF tree_in_sub(1) [OF that(1)]])
  have right: "insert_result inv blocks Key m' (TNode a l b ys r) z (Node_Insert M pfComp Key a (Key z) z m')"
    if "tree_in inv blocks Key m' (TNode a l b ys r)" "Key (last ys) < Key z" for m' ys z
    by (rule insert_right_case [OF ko that]) (rule TNode.IH(2) [OF tree_in_sub(2) [OF that(1)]])
  have mid: "y \<in> set xs \<Longrightarrow> Key y \<in> Key ` set (inorder ?t)" for y by auto
  consider (l) "Key x < Key (hd xs)" | (r) "Key (last xs) < Key x" | (eq) "Key x = Key (hd xs) \<or> Key x = Key (last xs)"
    | (mid) "Key (hd xs) < Key x" "Key x < Key (last xs)" by fastforce
  then show ?case
  proof cases
    case l
    then show ?thesis using left [OF T] by simp
  next
    case r
    then show ?thesis using right [OF T] by simp
  next
    case eq
    then have "Node_Insert M pfComp Key a (Key x) x m = Some (-2, a, m)"
      using sub(6) ends strict_last [OF sub(3,4), of "hd xs"] sub(4)
      by (subst Node_Insert.simps) (auto simp: Let_def key_orderD [OF ko])
    moreover have "Key x \<in> Key ` set (inorder ?t)" using eq mid sub(4) by auto
    ultimately show ?thesis by (simp add: insert_result_def)
  next
    case mid
    have e: "Node_Insert M pfComp Key a (Key x) x m =
       (case place (iDiff pfComp (Key x)) (m_ahItems ?n) 1 (length xs - 1) of
          None \<Rightarrow> Some (-2, a, m)
        | Some iRight \<Rightarrow>
            if length xs < PAGE_SIZE
            then Some (0, a, set_count a (length xs + 1) (set_items a ((shift_up (m_ahItems ?n) (length xs) iRight)[iRight := x]) m))
            else do {
              let (hReInsert, ys) = displace ?n iRight x;
              (iRet, h1, m1) \<leftarrow> Node_Insert M pfComp Key a (Key hReInsert) hReInsert (set_items a ys m);
              Some (iRet, h1, if iRet < 0 then set_items a (m_ahItems ?n) m1 else m1) })"
    proof -
      have "iDiff pfComp (Key x) (hd xs) > 0" "iDiff pfComp (Key x) (last xs) < 0"
        using mid by (auto simp: key_orderD [OF ko])
      then show ?thesis using sub(6) ends by (subst Node_Insert.simps) (simp add: Let_def split: option.split)
    qed
    show ?thesis
    proof (cases rule: place_items [OF ko sub(3,5) mid])
      case 1
      then have "Key x \<in> Key ` set (inorder ?t)" by auto
      with 1 e show ?thesis by (simp add: insert_result_def)
    next
      case (2 i)
      have sx: "set xs = set (take i xs) \<union> set (drop i xs)" by (metis append_take_drop_id set_append)
      have low: "Key y < Key x" if "y \<in> set (inorder l @ take i xs)" for y
      proof -
        have "Key y < Key x" if "y \<in> set (inorder l)"
          using st that hd_in_set [OF sub(4)] by (intro less_trans [OF _ mid(1)]) (simp add: strict_append)
        then show ?thesis using that 2(4) by auto
      qed
      have high: "Key x < Key y" if "y \<in> set (drop i xs @ inorder r)" for y
      proof -
        have "Key x < Key y" if "y \<in> set (inorder r)"
          using st that last_in_set [OF sub(4)] by (intro less_trans [OF mid(2)]) (simp add: strict_append)
        then show ?thesis using that 2(5) by auto
      qed
      have nin: "Key x \<notin> Key ` set (inorder ?t)"
      proof
        assume "Key x \<in> Key ` set (inorder ?t)"
        then obtain y where y: "y \<in> set (inorder ?t)" "Key y = Key x" by (metis imageE)
        then have "y \<in> set (inorder l @ take i xs) \<or> y \<in> set (drop i xs @ inorder r)" using sx by auto
        then show False using low [of y] high [of y] y(2) by auto
      qed
      show ?thesis
      proof (cases "length xs < PAGE_SIZE")
        case True
        let ?m = "set_count a (length xs + 1) (set_items a ((shift_up (m_ahItems ?n) (length xs) i)[i := x]) m)"
        let ?ys = "take i xs @ x # drop i xs"
        have "items_are (m_ahItems ?n) xs" using sub(5) by (simp add: node_items_are)
        from items_insert_at [OF this True less_imp_le [OF 2(3)], of x]
        have ni: "node_items (tm_node ?m a) ?ys" using 2(3) by (simp add: node_items_are)
        have "strict Key (inorder l @ ?ys @ inorder r)" by (rule strict_between [OF st 2(3) low high])
        moreover have "set ?ys = insert x (set xs)" by (metis Un_insert_right append_take_drop_id list.simps(15) set_append)
        ultimately have "grown inv blocks Key m ?t x 0 ?m (TNode a l b ?ys r)"
          using ni sub by (intro grown_items [OF T, where n = "tm_node ?m a"]) auto
        from insert_resultI [OF nin this] show ?thesis using e 2(1) True by simp
      next
        case False
        then have full: "length xs = PAGE_SIZE" using node_items_len [OF sub(5)] by simp
        have sb: "strict Key (inorder l @ (take i xs @ x # drop i xs) @ inorder r)" by (rule strict_between [OF st 2(3) low high])
        have ia: "items_are (m_ahItems ?n) xs" using sub(5) by (simp add: node_items_are)
        show ?thesis
        proof (cases "b \<ge> 0")
          case True
          let ?arr = "(shift_down (m_ahItems ?n) 1 i)[i - 1 := x]" and ?ys = "take (i - 1) (tl xs) @ x # drop i xs"
          have sp: "take i xs = hd xs # take (i - 1) (tl xs)" using 2(2) sub(4) by (cases xs; cases i) auto
          have d: "displace ?n i x = (hd xs, ?arr)"
            using True sub(9) ends node_items_nth [OF sub(5), of 0] sub(4) by (simp add: displace_def Let_def hd_conv_nth)
          have sz: "strict Key ((inorder l) @ hd xs # (?ys @ inorder r))" using sb unfolding sp by simp
          have T0: "tree_in inv blocks Key (set_items a ?arr m) (TNode a l b ?ys r)"
            by (rule tree_in_items [OF T, where n = "?n\<lparr>m_ahItems := ?arr\<rparr>"])
              (use sub ends items_push_left [OF ia 2(2) less_imp_le [OF 2(3)], of x] 2(2,3) strict_drop [OF sz]
                in \<open>auto simp: node_items_are\<close>)
          have z: "insert (hd xs) (set ?ys) = insert x (set xs)"
            using sx unfolding sp by auto
          have "Key (hd xs) < Key (hd ?ys)" using sz hd_in_set [of ?ys] by (auto simp: strict_append strict_Cons)
          from reinsert_result [OF T refl left [OF T0 this] strict_fresh [OF sz] nin z]
          show ?thesis using e 2(1) False d by simp
        next
          case b: False
          let ?arr = "(shift_up (m_ahItems ?n) (length xs - 1) i)[i := x]" and ?ys = "take i xs @ x # drop i (butlast xs)"
          have sp: "drop i xs = drop i (butlast xs) @ [last xs]"
            using 2(3) by (metis append_butlast_last_id drop_append diff_is_0_eq drop0 length_butlast less_Suc_eq_le
                Suc_pred' length_greater_0_conv sub(4))
          have d: "displace ?n i x = (last xs, ?arr)"
            using b sub(9) ends node_items_nth [OF sub(5), of "length xs - 1"] sub(4)
            by (simp add: displace_def Let_def last_conv_nth)
          have sz: "strict Key ((inorder l @ ?ys) @ last xs # inorder r)" using sb unfolding sp by simp
          have T0: "tree_in inv blocks Key (set_items a ?arr m) (TNode a l b ?ys r)"
            by (rule tree_in_items [OF T, where n = "?n\<lparr>m_ahItems := ?arr\<rparr>"])
              (use sub ends items_push_right [OF ia 2(3), of x] 2(2,3) strict_drop [OF sz]
                in \<open>auto simp: node_items_are\<close>)
          have z: "insert (last xs) (set ?ys) = insert x (set xs)"
            using sx unfolding sp by auto
          have "Key (last ?ys) < Key (last xs)" using sz last_in_set [of ?ys] by (auto simp: strict_append strict_Cons)
          from reinsert_result [OF T refl right [OF T0 this] _ nin z] strict_fresh [OF sz]
          show ?thesis using e 2(1) False d by simp
        qed
      qed
    qed
  qed
qed simp

end

end
