(* ===== verification/T_Tree_Delete.thy ===== *)
theory T_Tree_Delete
  imports T_Tree_Insert
begin

text \<open>
  Deletion from the T-tree: the item leaves its node, an inner node is filled up from the
  neighbouring node in key order, an empty node is freed, and the branches are rebalanced on the
  way up.
\<close>

section \<open>Results\<close>

definition tree_shape :: "('s \<Rightarrow> bool) \<Rightarrow> ('s \<Rightarrow> (handle \<times> nat) set) \<Rightarrow> 's tree_mem \<Rightarrow> ttree \<Rightarrow> bool" where
  "tree_shape ok blocks m t \<longleftrightarrow> ok (tm_alloc m) \<and> tt (tm_node m) t \<and> distinct (nodes t)
     \<and> set (nodes t) \<subseteq> fst ` blocks (tm_alloc m) \<and> avl t"

text \<open>The tree \<open>t\<close> has become \<open>t'\<close>: lower by \<open>g\<close>, its freed nodes are no longer live blocks.\<close>

definition lowered :: "('s \<Rightarrow> bool) \<Rightarrow> ('s \<Rightarrow> (handle \<times> nat) set) \<Rightarrow> (handle \<Rightarrow> 'k::linorder) \<Rightarrow> 's tree_mem \<Rightarrow> ttree
    \<Rightarrow> int \<Rightarrow> 's tree_mem \<Rightarrow> ttree \<Rightarrow> bool" where
  "lowered ok blocks Key m t g m' t' \<longleftrightarrow> tree_in ok blocks Key m' t'
     \<and> g \<in> {0, 1} \<and> int (height t') = int (height t) - g \<and> set (nodes t') \<subseteq> set (nodes t)
     \<and> blocks (tm_alloc m') \<subseteq> blocks (tm_alloc m)
     \<and> fst ` blocks (tm_alloc m') = fst ` blocks (tm_alloc m) - (set (nodes t) - set (nodes t'))
     \<and> (\<forall>h. h \<notin> set (nodes t) \<longrightarrow> tm_node m' h = tm_node m h)"

definition shrunk :: "('s \<Rightarrow> bool) \<Rightarrow> ('s \<Rightarrow> (handle \<times> nat) set) \<Rightarrow> (handle \<Rightarrow> 'k::linorder) \<Rightarrow> 's tree_mem \<Rightarrow> ttree
    \<Rightarrow> handle \<Rightarrow> int \<Rightarrow> 's tree_mem \<Rightarrow> ttree \<Rightarrow> bool" where
  "shrunk ok blocks Key m t x g m' t' \<longleftrightarrow> lowered ok blocks Key m t g m' t' \<and> set (inorder t') = set (inorder t) - {x}"

definition delete_result :: "('s \<Rightarrow> bool) \<Rightarrow> ('s \<Rightarrow> (handle \<times> nat) set) \<Rightarrow> (handle \<Rightarrow> 'k::linorder) \<Rightarrow> 's tree_mem \<Rightarrow> ttree
    \<Rightarrow> 'k \<Rightarrow> (int \<times> handle \<times> 's tree_mem) option \<Rightarrow> bool" where
  "delete_result ok blocks Key m t k res \<longleftrightarrow>
     (\<exists>iRet h m'. res = Some (iRet, h, m')
        \<and> (iRet = -1 \<and> h = root t \<and> m' = m \<and> k \<notin> Key ` set (inorder t)
           \<or> (\<exists>x t'. x \<in> set (inorder t) \<and> Key x = k \<and> h = root t' \<and> shrunk ok blocks Key m t x iRet m' t')))"

lemma tree_in_shape: "tree_in ok blocks Key m t \<longleftrightarrow> tree_shape ok blocks m t \<and> strict Key (inorder t)"
  by (auto simp: tree_in_def tree_shape_def)

lemma delete_resultI:
  "x \<in> set (inorder t) \<Longrightarrow> Key x = k \<Longrightarrow> shrunk ok blocks Key m t x g m' t' \<Longrightarrow>
     delete_result ok blocks Key m t k (Some (g, root t', m'))"
  by (auto simp: delete_result_def)

lemma strict_sub:
  assumes "strict Key (ls @ xs @ rs)" "strict Key ls'" "set ls' \<subseteq> set ls" "strict Key rs'" "set rs' \<subseteq> set rs"
  shows "strict Key (ls' @ xs @ rs')"
  using assms by (fastforce simp: strict_append)

section \<open>Branches\<close>

lemma lower_left:
  assumes S: "tree_shape ok blocks m (TNode a l b xs r)" and G: "lowered ok blocks Key m l g m1 l'"
    and F: "strict Key (inorder l' @ xs @ inorder r)"
  defines "m2 \<equiv> (if root l' \<noteq> root l then set_left a (root l') m1 else m1)"
  shows "\<exists>g' m' t'. (if g > 0 then BalanceLeftBranch a m2 else Some (g, a, m2)) = Some (g', root t', m')
     \<and> lowered ok blocks Key m (TNode a l b xs r) g' m' t' \<and> inorder t' = inorder l' @ xs @ inorder r"
proof -
  have s: "tt (tm_node m) (TNode a l b xs r)" "distinct (nodes (TNode a l b xs r))"
    "set (nodes (TNode a l b xs r)) \<subseteq> fst ` blocks (tm_alloc m)" "avl (TNode a l b xs r)"
    using S by (auto simp: tree_shape_def)
  have g: "ok (tm_alloc m1)" "tt (tm_node m1) l'" "distinct (nodes l')" "avl l'" "g \<in> {0, 1}"
    "int (height l') = int (height l) - g" "set (nodes l') \<subseteq> set (nodes l)"
    "blocks (tm_alloc m1) \<subseteq> blocks (tm_alloc m)"
    "fst ` blocks (tm_alloc m1) = fst ` blocks (tm_alloc m) - (set (nodes l) - set (nodes l'))"
    "\<And>h. h \<notin> set (nodes l) \<Longrightarrow> tm_node m1 h = tm_node m h"
    using G by (auto simp: lowered_def tree_in_def)
  have a1: "tm_node m1 a = tm_node m a" by (rule g) (use s in auto)
  have r1: "tt (tm_node m1) r = tt (tm_node m) r" by (rule tt_cong, rule g) (use s in auto)
  have m2: "tm_node m2 = (tm_node m1)(a := (tm_node m a)\<lparr>m_hLeft := root l'\<rparr>)" "tm_alloc m2 = tm_alloc m1"
    using a1 s(1) by (auto simp: m2_def fun_eq_iff)
  have al: "a \<notin> set (nodes l')" "set (nodes l') \<inter> set (nodes r) = {}" using g(7) s(2) by auto
  have t2: "tt (tm_node m2) (TNode a l' b xs r)" using s(1,2) g(2) r1 al by (simp add: m2)
  have d2: "distinct (nodes (TNode a l' b xs r))" using s(2) g(3) al by auto
  have fin: "lowered ok blocks Key m (TNode a l b xs r) g' m' t'"
    if "same_items (TNode a l' b xs r) t'" "avl t'" "g' \<in> {0, 1}" "int (height t') = int (height (TNode a l b xs r)) - g'"
      "tt (tm_node m') t'" "tm_alloc m' = tm_alloc m1"
      "\<And>h. h \<notin> set (nodes (TNode a l' b xs r)) \<Longrightarrow> tm_node m' h = tm_node m2 h" for g' m' t'
  proof -
    have n: "nodes t' = nodes (TNode a l' b xs r)" "inorder t' = inorder (TNode a l' b xs r)"
      using that(1) by (simp_all add: same_items_def)
    have "tm_node m' h = tm_node m h" if "h \<notin> set (nodes (TNode a l b xs r))" for h
      using that \<open>\<And>h. h \<notin> set (nodes (TNode a l' b xs r)) \<Longrightarrow> tm_node m' h = tm_node m2 h\<close> [of h] g(7,10) by (auto simp: m2)
    moreover have "tree_in ok blocks Key m' t'" unfolding tree_in_def n
      using that(2,5,6) d2 F g(1,7,9) s(2,3) by auto
    moreover have "fst ` blocks (tm_alloc m1) = fst ` blocks (tm_alloc m) - (set (nodes (TNode a l b xs r)) - set (nodes (TNode a l' b xs r)))"
      using g(9) s(2) by auto
    ultimately show ?thesis unfolding lowered_def n that(6) using that(3,4) g(7,8) by auto
  qed
  show ?thesis
  proof (cases "g = 0")
    case True
    have "lowered ok blocks Key m (TNode a l b xs r) 0 m2 (TNode a l' b xs r)"
      by (rule fin) (use True g s t2 m2 in \<open>auto simp: same_items_def\<close>)
    with True show ?thesis by (intro exI [of _ 0] exI [of _ m2] exI [of _ "TNode a l' b xs r"]) simp
  next
    case False
    then have g1: "g = 1" using g(5) by simp
    obtain g' t' where e: "t_left_shrunk a l' b xs r = (g', t')" by (cases "t_left_shrunk a l' b xs r") auto
    have P: "same_items (TNode a l' b xs r) t'" "avl t'" "g' \<in> {0, 1}"
      "int (height t') = max (int (height l') + 1) (int (height r)) + 1 - g'"
      using t_left_shrunk_avl [of l' r b a xs] g(4,6) g1 s(4) e by auto
    have "t' \<noteq> TLeaf" using P(1) by (cases t') (auto simp: same_items_def)
    from BalanceLeftBranch_heap [OF t2 d2 e this] obtain m' where
      h: "BalanceLeftBranch a m2 = Some (g', root t', m')" and ro: "rotated m2 (TNode a l' b xs r) m' t'" by blast
    have "lowered ok blocks Key m (TNode a l b xs r) g' m' t'"
      by (rule fin) (use P ro g(6) g1 m2(2) in \<open>auto simp: rotated_def\<close>)
    with h g1 P(1) show ?thesis by (auto simp: same_items_def)
  qed
qed

lemma lower_right:
  assumes S: "tree_shape ok blocks m (TNode a l b xs r)" and G: "lowered ok blocks Key m r g m1 r'"
    and F: "strict Key (inorder l @ xs @ inorder r')"
  defines "m2 \<equiv> (if root r' \<noteq> root r then set_right a (root r') m1 else m1)"
  shows "\<exists>g' m' t'. (if g > 0 then BalanceRightBranch a m2 else Some (g, a, m2)) = Some (g', root t', m')
     \<and> lowered ok blocks Key m (TNode a l b xs r) g' m' t' \<and> inorder t' = inorder l @ xs @ inorder r'"
proof -
  have s: "tt (tm_node m) (TNode a l b xs r)" "distinct (nodes (TNode a l b xs r))"
    "set (nodes (TNode a l b xs r)) \<subseteq> fst ` blocks (tm_alloc m)" "avl (TNode a l b xs r)"
    using S by (auto simp: tree_shape_def)
  have g: "ok (tm_alloc m1)" "tt (tm_node m1) r'" "distinct (nodes r')" "avl r'" "g \<in> {0, 1}"
    "int (height r') = int (height r) - g" "set (nodes r') \<subseteq> set (nodes r)"
    "blocks (tm_alloc m1) \<subseteq> blocks (tm_alloc m)"
    "fst ` blocks (tm_alloc m1) = fst ` blocks (tm_alloc m) - (set (nodes r) - set (nodes r'))"
    "\<And>h. h \<notin> set (nodes r) \<Longrightarrow> tm_node m1 h = tm_node m h"
    using G by (auto simp: lowered_def tree_in_def)
  have a1: "tm_node m1 a = tm_node m a" by (rule g) (use s in auto)
  have r1: "tt (tm_node m1) l = tt (tm_node m) l" by (rule tt_cong, rule g) (use s in auto)
  have m2: "tm_node m2 = (tm_node m1)(a := (tm_node m a)\<lparr>m_hRight := root r'\<rparr>)" "tm_alloc m2 = tm_alloc m1"
    using a1 s(1) by (auto simp: m2_def fun_eq_iff)
  have al: "a \<notin> set (nodes r')" "set (nodes l) \<inter> set (nodes r') = {}" using g(7) s(2) by auto
  have t2: "tt (tm_node m2) (TNode a l b xs r')" using s(1,2) g(2) r1 al by (simp add: m2)
  have d2: "distinct (nodes (TNode a l b xs r'))" using s(2) g(3) al by auto
  have fin: "lowered ok blocks Key m (TNode a l b xs r) g' m' t'"
    if "same_items (TNode a l b xs r') t'" "avl t'" "g' \<in> {0, 1}" "int (height t') = int (height (TNode a l b xs r)) - g'"
      "tt (tm_node m') t'" "tm_alloc m' = tm_alloc m1"
      "\<And>h. h \<notin> set (nodes (TNode a l b xs r')) \<Longrightarrow> tm_node m' h = tm_node m2 h" for g' m' t'
  proof -
    have n: "nodes t' = nodes (TNode a l b xs r')" "inorder t' = inorder (TNode a l b xs r')"
      using that(1) by (simp_all add: same_items_def)
    have "tm_node m' h = tm_node m h" if "h \<notin> set (nodes (TNode a l b xs r))" for h
      using that \<open>\<And>h. h \<notin> set (nodes (TNode a l b xs r')) \<Longrightarrow> tm_node m' h = tm_node m2 h\<close> [of h] g(7,10) by (auto simp: m2)
    moreover have "tree_in ok blocks Key m' t'" unfolding tree_in_def n
      using that(2,5,6) d2 F g(1,7,9) s(2,3) by auto
    moreover have "fst ` blocks (tm_alloc m1) = fst ` blocks (tm_alloc m) - (set (nodes (TNode a l b xs r)) - set (nodes (TNode a l b xs r')))"
      using g(9) s(2) by auto
    ultimately show ?thesis unfolding lowered_def n that(6) using that(3,4) g(7,8) by auto
  qed
  show ?thesis
  proof (cases "g = 0")
    case True
    have "lowered ok blocks Key m (TNode a l b xs r) 0 m2 (TNode a l b xs r')"
      by (rule fin) (use True g s t2 m2 in \<open>auto simp: same_items_def\<close>)
    with True show ?thesis by (intro exI [of _ 0] exI [of _ m2] exI [of _ "TNode a l b xs r'"]) simp
  next
    case False
    then have g1: "g = 1" using g(5) by simp
    obtain g' t' where e: "t_right_shrunk a l b xs r' = (g', t')" by (cases "t_right_shrunk a l b xs r'") auto
    have P: "same_items (TNode a l b xs r') t'" "avl t'" "g' \<in> {0, 1}"
      "int (height t') = max (int (height l)) (int (height r') + 1) + 1 - g'"
      using t_right_shrunk_avl [of l r' b a xs] g(4,6) g1 s(4) e by auto
    have "t' \<noteq> TLeaf" using P(1) by (cases t') (auto simp: same_items_def)
    from BalanceRightBranch_heap [OF t2 d2 e this] obtain m' where
      h: "BalanceRightBranch a m2 = Some (g', root t', m')" and ro: "rotated m2 (TNode a l b xs r') m' t'" by blast
    have "lowered ok blocks Key m (TNode a l b xs r) g' m' t'"
      by (rule fin) (use P ro g(6) g1 m2(2) in \<open>auto simp: rotated_def\<close>)
    with h g1 P(1) show ?thesis by (auto simp: same_items_def)
  qed
qed

section \<open>Neighbours in key order\<close>

lemma rightmost_last:
  "tt (tm_node m) t \<Longrightarrow> t \<noteq> TLeaf \<Longrightarrow>
     \<exists>p. rightmost (root t) m = Some p \<and> last_item p = Some (last (inorder t)) \<and> inorder t \<noteq> []"
proof (induction t)
  case (TNode a l b xs r)
  have ni: "node_items (tm_node m a) xs" and a: "a \<noteq> INVALID_HANDLE" "m_hRight (tm_node m a) = root r" and r: "tt (tm_node m) r"
    using TNode.prems by auto
  have ne: "xs \<noteq> []" using ni by (simp add: node_items_def)
  show ?case
  proof (cases "r = TLeaf")
    case True
    with a ne node_items_ends(2) [OF ni] show ?thesis by (subst rightmost.simps) simp
  next
    case False
    with TNode.IH(2) [OF r] obtain p where "rightmost (root r) m = Some p" "last_item p = Some (last (inorder r))" "inorder r \<noteq> []" by blast
    with a tt_root [OF r] False show ?thesis by (subst rightmost.simps) simp
  qed
qed simp

lemma leftmost_hd:
  "tt (tm_node m) t \<Longrightarrow> t \<noteq> TLeaf \<Longrightarrow>
     \<exists>p. leftmost (root t) m = Some p \<and> item p 0 = Some (hd (inorder t)) \<and> inorder t \<noteq> []"
proof (induction t)
  case (TNode a l b xs r)
  have ni: "node_items (tm_node m a) xs" and a: "a \<noteq> INVALID_HANDLE" "m_hLeft (tm_node m a) = root l" and l: "tt (tm_node m) l"
    using TNode.prems by auto
  have ne: "xs \<noteq> []" using ni by (simp add: node_items_def)
  show ?case
  proof (cases "l = TLeaf")
    case True
    with a ne node_items_ends(1) [OF ni] show ?thesis by (subst leftmost.simps) simp
  next
    case False
    with TNode.IH(1) [OF l] obtain p where "leftmost (root l) m = Some p" "item p 0 = Some (hd (inorder l))" "inorder l \<noteq> []" by blast
    with a tt_root [OF l] False show ?thesis by (subst leftmost.simps) simp
  qed
qed simp

section \<open>The operation\<close>

lemma strict_minus: "strict Key (as @ z # bs) \<Longrightarrow> set (as @ bs) = set (as @ z # bs) - {z}"
  using strict_fresh [of Key as z bs] by auto

lemma lowered_items:
  assumes "lowered ok blocks Key m0 (TNode a l b ys r) g m' t'" "tm_alloc m0 = tm_alloc m"
    "\<And>h. h \<noteq> a \<Longrightarrow> tm_node m0 h = tm_node m h"
  shows "lowered ok blocks Key m (TNode a l b xs r) g m' t'"
  using assms unfolding lowered_def by auto

lemma shape_items:
  assumes "tree_shape ok blocks m (TNode a l b xs r)" "tm_node m' = (tm_node m)(a := n)" "tm_alloc m' = tm_alloc m"
    "m_hLeft n = root l" "m_hRight n = root r" "m_chBalance n = b" "node_items n ys"
  shows "tree_shape ok blocks m' (TNode a l b ys r)" and "tree_shape ok blocks m' l" and "tree_shape ok blocks m' r"
  using assms by (auto simp: tree_shape_def)

text \<open>The found item is replaced by the last one of the left branch.\<close>

lemma fill_from_left:
  assumes T: "tree_in ok blocks Key m (TNode a l b xs r)" and i: "i < length xs" and l: "l \<noteq> TLeaf"
    and D: "\<And>m'. tree_in ok blocks Key m' l \<Longrightarrow> delete_result ok blocks Key m' l (Key (last (inorder l))) (del m')"
  defines "y \<equiv> last (inorder l)"
  defines "m0 \<equiv> set_items a ((shift_up (m_ahItems (tm_node m a)) i 0)[0 := y]) m"
  shows "\<exists>g h m1. del m0 = Some (g, h, m1) \<and> \<not> g < -1 \<and>
     (let m2 = (if h \<noteq> root l then set_left a h m1 else m1) in
      \<exists>g' t' m'. (if g > 0 then BalanceLeftBranch a m2 else Some (g, a, m2)) = Some (g', root t', m')
        \<and> shrunk ok blocks Key m (TNode a l b xs r) (xs ! i) g' m' t')"
proof -
  let ?n = "tm_node m a" and ?ys = "take i xs @ drop (i + 1) xs"
  have s: "tt (tm_node m) (TNode a l b xs r)" and S: "tree_shape ok blocks m (TNode a l b xs r)"
    and st: "strict Key (inorder l @ xs @ inorder r)" using T by (auto simp: tree_in_def tree_shape_def)
  have ni: "node_items ?n xs" using s by simp
  have ne: "inorder l \<noteq> []" using rightmost_last [of m l] s l by auto
  have il: "inorder l = butlast (inorder l) @ [y]" using ne by (simp add: y_def)
  have "items_are (m_ahItems ?n) xs" using ni by (simp add: node_items_are)
  from items_replace_front [OF this i, of y] ni i
  have n0: "node_items (?n\<lparr>m_ahItems := (shift_up (m_ahItems ?n) i 0)[0 := y]\<rparr>) (y # ?ys)"
    by (simp add: node_items_are)
  have S0: "tree_shape ok blocks m0 (TNode a l b (y # ?ys) r)" "tree_shape ok blocks m0 l"
    using shape_items [OF S _ _ _ _ _ n0, of m0] s by (simp_all add: m0_def)
  have sl: "strict Key (inorder l)" using st by (simp add: strict_append)
  have "tree_in ok blocks Key m0 l" using S0(2) sl by (simp add: tree_in_shape)
  from D [OF this] obtain g h m1 x l' where d: "del m0 = Some (g, h, m1)" "x \<in> set (inorder l)" "Key x = Key y"
      "h = root l'" "lowered ok blocks Key m0 l g m1 l'" "set (inorder l') = set (inorder l) - {x}"
    using ne by (auto simp: delete_result_def shrunk_def y_def)
  have yl: "y \<in> set (inorder l)" using ne by (simp add: y_def)
  have xy: "x = y" using strict_inj [OF sl] d(2,3) yl by (auto simp: inj_on_def)
  have sx: "strict Key ((inorder l @ take i xs) @ xs ! i # (drop (i + 1) xs @ inorder r))"
    using st i by (metis Suc_eq_plus1 append.assoc append_Cons id_take_nth_drop)
  have l': "inorder l' = butlast (inorder l)"
  proof (rule strict_unique [of Key])
    show "strict Key (inorder l')" using d(5) by (simp add: lowered_def tree_in_def)
    have "strict Key (butlast (inorder l) @ y # [])" using sl il by simp
    from strict_drop [OF this] strict_minus [OF this] d(6) xy il
    show "strict Key (butlast (inorder l))" "set (inorder l') = set (butlast (inorder l))" by auto
  qed
  have e: "inorder l' @ (y # ?ys) @ inorder r = inorder l @ ?ys @ inorder r"
    unfolding l' using arg_cong [OF il, of "\<lambda>z. z @ ?ys @ inorder r"] by simp
  have F: "strict Key (inorder l' @ (y # ?ys) @ inorder r)" unfolding e using strict_drop [OF sx] by simp
  from lower_left [OF S0(1) d(5) F] obtain g' m' t' where
    r: "(let m2 = (if h \<noteq> root l then set_left a h m1 else m1) in
      if g > 0 then BalanceLeftBranch a m2 else Some (g, a, m2)) = Some (g', root t', m')"
    "lowered ok blocks Key m0 (TNode a l b (y # ?ys) r) g' m' t'" "inorder t' = inorder l @ ?ys @ inorder r"
    unfolding Let_def d(4) e by blast
  have "lowered ok blocks Key m (TNode a l b xs r) g' m' t'"
    by (rule lowered_items [OF r(2)]) (simp_all add: m0_def)
  moreover have "set (inorder t') = set (inorder (TNode a l b xs r)) - {xs ! i}"
    using strict_minus [OF sx] r(3) id_take_nth_drop [OF i] by (metis Suc_eq_plus1 append.assoc append_Cons inorder.simps(2))
  ultimately have "shrunk ok blocks Key m (TNode a l b xs r) (xs ! i) g' m' t'" by (simp add: shrunk_def)
  moreover have "\<not> g < -1" using d(5) by (auto simp: lowered_def)
  ultimately show ?thesis using d(1) r(1) by (auto simp: Let_def)
qed

text \<open>The found item is replaced by the first one of the right branch.\<close>

lemma fill_from_right:
  assumes T: "tree_in ok blocks Key m (TNode a l b xs r)" and i: "i < length xs" and l: "r \<noteq> TLeaf"
    and D: "\<And>m'. tree_in ok blocks Key m' r \<Longrightarrow> delete_result ok blocks Key m' r (Key (hd (inorder r))) (del m')"
  defines "y \<equiv> hd (inorder r)"
  defines "m0 \<equiv> set_items a ((shift_down (m_ahItems (tm_node m a)) (i + 1) (length xs))[length xs - 1 := y]) m"
  shows "\<exists>g h m1. del m0 = Some (g, h, m1) \<and> \<not> g < -1 \<and>
     (let m2 = (if h \<noteq> root r then set_right a h m1 else m1) in
      \<exists>g' t' m'. (if g > 0 then BalanceRightBranch a m2 else Some (g, a, m2)) = Some (g', root t', m')
        \<and> shrunk ok blocks Key m (TNode a l b xs r) (xs ! i) g' m' t')"
proof -
  let ?n = "tm_node m a" and ?ys = "take i xs @ drop (i + 1) xs"
  have s: "tt (tm_node m) (TNode a l b xs r)" and S: "tree_shape ok blocks m (TNode a l b xs r)"
    and st: "strict Key (inorder l @ xs @ inorder r)" using T by (auto simp: tree_in_def tree_shape_def)
  have ni: "node_items ?n xs" using s by simp
  have ne: "inorder r \<noteq> []" using leftmost_hd [of m r] s l by auto
  have il: "inorder r = y # tl (inorder r)" using ne by (simp add: y_def)
  have "items_are (m_ahItems ?n) xs" using ni by (simp add: node_items_are)
  from items_replace_back [OF this i, of y] ni i
  have n0: "node_items (?n\<lparr>m_ahItems := (shift_down (m_ahItems ?n) (i + 1) (length xs))[length xs - 1 := y]\<rparr>) (?ys @ [y])"
    by (simp add: node_items_are)
  have S0: "tree_shape ok blocks m0 (TNode a l b (?ys @ [y]) r)" "tree_shape ok blocks m0 r"
    using shape_items [OF S _ _ _ _ _ n0, of m0] s by (simp_all add: m0_def)
  have sl: "strict Key (inorder r)" using st by (simp add: strict_append)
  have "tree_in ok blocks Key m0 r" using S0(2) sl by (simp add: tree_in_shape)
  from D [OF this] obtain g h m1 x r' where d: "del m0 = Some (g, h, m1)" "x \<in> set (inorder r)" "Key x = Key y"
      "h = root r'" "lowered ok blocks Key m0 r g m1 r'" "set (inorder r') = set (inorder r) - {x}"
    using ne by (auto simp: delete_result_def shrunk_def y_def)
  have yl: "y \<in> set (inorder r)" using ne by (simp add: y_def)
  have xy: "x = y" using strict_inj [OF sl] d(2,3) yl by (auto simp: inj_on_def)
  have sx: "strict Key ((inorder l @ take i xs) @ xs ! i # (drop (i + 1) xs @ inorder r))"
    using st i by (metis Suc_eq_plus1 append.assoc append_Cons id_take_nth_drop)
  have r': "inorder r' = tl (inorder r)"
  proof (rule strict_unique [of Key])
    show "strict Key (inorder r')" using d(5) by (simp add: lowered_def tree_in_def)
    have "strict Key ([] @ y # tl (inorder r))" using sl il by simp
    from strict_drop [OF this] strict_minus [OF this] d(6) xy il
    show "strict Key (tl (inorder r))" "set (inorder r') = set (tl (inorder r))" by auto
  qed
  have e: "inorder l @ (?ys @ [y]) @ inorder r' = inorder l @ ?ys @ inorder r"
    unfolding r' using arg_cong [OF il, of "\<lambda>z. inorder l @ ?ys @ z"] by simp
  have F: "strict Key (inorder l @ (?ys @ [y]) @ inorder r')" unfolding e using strict_drop [OF sx] by simp
  from lower_right [OF S0(1) d(5) F] obtain g' m' t' where
    r: "(let m2 = (if h \<noteq> root r then set_right a h m1 else m1) in
      if g > 0 then BalanceRightBranch a m2 else Some (g, a, m2)) = Some (g', root t', m')"
    "lowered ok blocks Key m0 (TNode a l b (?ys @ [y]) r) g' m' t'" "inorder t' = inorder l @ ?ys @ inorder r"
    unfolding Let_def d(4) e by blast
  have "lowered ok blocks Key m (TNode a l b xs r) g' m' t'"
    by (rule lowered_items [OF r(2)]) (simp_all add: m0_def)
  moreover have "set (inorder t') = set (inorder (TNode a l b xs r)) - {xs ! i}"
    using strict_minus [OF sx] r(3) id_take_nth_drop [OF i] by (metis Suc_eq_plus1 append.assoc append_Cons inorder.simps(2))
  ultimately have "shrunk ok blocks Key m (TNode a l b xs r) (xs ! i) g' m' t'" by (simp add: shrunk_def)
  moreover have "\<not> g < -1" using d(5) by (auto simp: lowered_def)
  ultimately show ?thesis using d(1) r(1) by (auto simp: Let_def)
qed

text \<open>The found item is taken out, and other items stay in the node.\<close>

lemma take_out:
  assumes T: "tree_in ok blocks Key m (TNode a l b xs r)" and i: "i < length xs" and two: "1 < length xs"
  shows "shrunk ok blocks Key m (TNode a l b xs r) (xs ! i) 0
    (set_count a (length xs - 1) (set_items a (shift_down (m_ahItems (tm_node m a)) (i + 1) (length xs)) m))
    (TNode a l b (take i xs @ drop (i + 1) xs) r)" (is "shrunk ok blocks Key m ?t ?x 0 ?m ?t'")
proof -
  let ?n = "tm_node m a" and ?ys = "take i xs @ drop (i + 1) xs"
  have s: "tt (tm_node m) ?t" and st: "strict Key (inorder l @ xs @ inorder r)" using T by (auto simp: tree_in_def)
  have ia: "items_are (m_ahItems ?n) xs" using s by (simp add: node_items_are)
  have ne: "?ys \<noteq> []" using two by (cases i) auto
  from items_delete_at [OF ia i] ne two i have n: "node_items (tm_node ?m a) ?ys" by (auto simp: node_items_are)
  have sx: "strict Key ((inorder l @ take i xs) @ xs ! i # (drop (i + 1) xs @ inorder r))"
    using st i by (metis Suc_eq_plus1 append.assoc append_Cons id_take_nth_drop)
  have "tree_in ok blocks Key ?m ?t'"
    using T n strict_drop [OF sx] by (auto simp: tree_in_def)
  then have "lowered ok blocks Key m ?t 0 ?m ?t'" using T by (auto simp: lowered_def tree_in_def)
  moreover have "set (inorder ?t') = set (inorder ?t) - {?x}"
    using strict_minus [OF sx] id_take_nth_drop [OF i] by (metis Suc_eq_plus1 append.assoc append_Cons inorder.simps(2))
  ultimately show ?thesis by (simp add: shrunk_def)
qed

context tree_alloc
begin

text \<open>A node that loses its only item and has a branch at most is freed.\<close>

lemma free_node:
  assumes T: "tree_in inv blocks Key m (TNode a l b [x] r)" and c: "r = TLeaf \<and> t' = l \<or> l = TLeaf \<and> t' = r"
  shows "shrunk inv blocks Key m (TNode a l b [x] r) x 1 (Free_node M a m) t'"
proof -
  have t: "inv (tm_alloc m)" "distinct (nodes (TNode a l b [x] r))" "set (nodes (TNode a l b [x] r)) \<subseteq> fst ` blocks (tm_alloc m)"
    "strict Key (inorder l @ x # inorder r)" using T by (auto simp: tree_in_def)
  obtain k where k: "(a, k) \<in> blocks (tm_alloc m)" using t(3) by auto
  from free_block [OF t(1) k] obtain s' where s': "free a (tm_alloc m) = (0, s')" "inv s'" "blocks s' = blocks (tm_alloc m) - {(a, k)}"
    by blast
  have f: "tm_alloc (Free_node M a m) = s'" "tm_node (Free_node M a m) = tm_node m"
    using s'(1) by (simp_all add: Free_node_def ops)
  have img: "fst ` blocks s' = fst ` blocks (tm_alloc m) - {a}"
  proof (intro set_eqI iffI)
    fix y
    assume "y \<in> fst ` blocks s'"
    then obtain p where "p \<in> blocks (tm_alloc m)" "p \<noteq> (a, k)" "y = fst p" unfolding s'(3) by blast
    then obtain j where j: "(y, j) \<in> blocks (tm_alloc m)" "(y, j) \<noteq> (a, k)" by (metis prod.collapse)
    then have "y \<noteq> a" using unique [OF t(1) k] by blast
    with j(1) show "y \<in> fst ` blocks (tm_alloc m) - {a}" by force
  next
    fix y
    assume "y \<in> fst ` blocks (tm_alloc m) - {a}"
    then obtain j where "(y, j) \<in> blocks (tm_alloc m)" "y \<noteq> a" by auto
    then have "(y, j) \<in> blocks s'" unfolding s'(3) by simp
    then show "y \<in> fst ` blocks s'" by force
  qed
  have n: "set (nodes (TNode a l b [x] r)) = insert a (set (nodes t'))" "a \<notin> set (nodes t')" "int (height t') = int (height (TNode a l b [x] r)) - 1"
    using c t(2) by auto
  have "tree_in inv blocks Key (Free_node M a m) t'"
  proof -
    have "tree_in inv blocks Key m t'" using c tree_in_sub(1,2) [OF T] by blast
    moreover have "set (nodes t') \<subseteq> fst ` blocks (tm_alloc m) - {a}" using n(1,2) t(3) by blast
    ultimately show ?thesis using s'(2) unfolding tree_in_def f img by simp
  qed
  then have "lowered inv blocks Key m (TNode a l b [x] r) 1 (Free_node M a m) t'"
  proof -
    have "set (nodes (TNode a l b [x] r)) - set (nodes t') = {a}" using n(1,2) by blast
    moreover have "blocks s' \<subseteq> blocks (tm_alloc m)" unfolding s'(3) by blast
    moreover have "set (nodes t') \<subseteq> set (nodes (TNode a l b [x] r))" using n(1) by blast
    ultimately show ?thesis
      using \<open>tree_in inv blocks Key (Free_node M a m) t'\<close> n(3) unfolding lowered_def f img by (simp del: nodes.simps height.simps)
  qed
  moreover have "set (inorder t') = set (inorder (TNode a l b [x] r)) - {x}"
  proof -
    have "set (inorder t') = set (inorder l @ inorder r)" using c by (elim disjE conjE) simp_all
    then show ?thesis using strict_minus [OF t(4)] by simp
  qed
  ultimately show ?thesis unfolding shrunk_def by blast
qed

lemma delete_here_result:
  assumes ko: "key_order pfComp Key" and T: "tree_in inv blocks Key m (TNode a l b xs r)"
    and k: "k \<notin> Key ` set (inorder l)"
    and IHl: "\<And>m k. tree_in inv blocks Key m l \<Longrightarrow> l \<noteq> TLeaf \<Longrightarrow> delete_result inv blocks Key m l k (del (root l) k m)"
    and IHr: "\<And>m k. tree_in inv blocks Key m r \<Longrightarrow> r \<noteq> TLeaf \<Longrightarrow> delete_result inv blocks Key m r k (del (root r) k m)"
  shows "delete_result inv blocks Key m (TNode a l b xs r) k (delete_here del M pfComp Key a k m)"
proof -
  let ?t = "TNode a l b xs r" and ?n = "tm_node m a"
  let ?f = "if k \<le> Key (last xs) then find_equal (pfComp k) xs 0 else None"
  note sub = tree_in_sub [OF T] and ends = node_items_ends [OF tree_in_sub(5) [OF T]]
  have st: "strict Key (inorder l @ xs @ inorder r)" using T by (simp add: tree_in_def)
  have e: "delete_here del M pfComp Key a k m =
     (case ?f of
        Some i \<Rightarrow>
          if length xs = 1 \<and> r = TLeaf then Some (1, root l, Free_node M a m)
          else if length xs = 1 \<and> l = TLeaf then Some (1, root r, Free_node M a m)
          else if length xs \<le> MIN_ITEMS \<and> l \<noteq> TLeaf \<and> b \<le> 0 then
            do { p \<leftarrow> rightmost (root l) m;
                 y \<leftarrow> last_item p;
                 (iRet, hChild, m1) \<leftarrow> del (root l) (Key y) (set_items a ((shift_up (m_ahItems ?n) i 0)[0 := y]) m);
                 if iRet < -1 then Some (iRet, a, m1)
                 else do {
                   let m2 = (if hChild \<noteq> root l then set_left a hChild m1 else m1);
                   if iRet > 0 then BalanceLeftBranch a m2 else Some (iRet, a, m2) } }
          else if length xs \<le> MIN_ITEMS \<and> r \<noteq> TLeaf then
            do { p \<leftarrow> leftmost (root r) m;
                 y \<leftarrow> item p 0;
                 (iRet, hChild, m1) \<leftarrow> del (root r) (Key y)
                    (set_items a ((shift_down (m_ahItems ?n) (i + 1) (length xs))[length xs - 1 := y]) m);
                 if iRet < -1 then Some (iRet, a, m1)
                 else do {
                   let m2 = (if hChild \<noteq> root r then set_right a hChild m1 else m1);
                   if iRet > 0 then BalanceRightBranch a m2 else Some (iRet, a, m2) } }
          else Some (0, a, set_count a (length xs - 1) (set_items a (shift_down (m_ahItems ?n) (i + 1) (length xs)) m))
      | None \<Rightarrow>
          if r \<noteq> TLeaf then
            do { (iRet, hChild, m1) \<leftarrow> del (root r) k m;
                 if iRet < -1 then Some (iRet, a, m1)
                 else do {
                   let m2 = (if hChild \<noteq> root r then set_right a hChild m1 else m1);
                   if iRet > 0 then BalanceRightBranch a m2 else Some (iRet, a, m2) } }
          else Some (-1, a, m))"
    unfolding delete_here_def using sub(6-11) ends node_items_items [OF sub(5)]
    by (simp add: Let_def key_orderD [OF ko] cong: if_cong split: option.split)
  show ?thesis
  proof (cases ?f)
    case (Some i)
    then have i: "i < length xs" "Key (xs ! i) = k"
      using find_equal_cases [where df = "pfComp k" and xs = xs and k = 0] by (auto simp: key_orderD [OF ko] split: if_splits)
    then have x: "xs ! i \<in> set (inorder ?t)" by auto
    consider (f1) "length xs = 1" "r = TLeaf" | (f2) "length xs = 1" "r \<noteq> TLeaf" "l = TLeaf"
      | (pred) "\<not> (length xs = 1 \<and> (r = TLeaf \<or> l = TLeaf))" "length xs \<le> MIN_ITEMS" "l \<noteq> TLeaf" "b \<le> 0"
      | (succ) "\<not> (length xs = 1 \<and> (r = TLeaf \<or> l = TLeaf))" "length xs \<le> MIN_ITEMS" "\<not> (l \<noteq> TLeaf \<and> b \<le> 0)" "r \<noteq> TLeaf"
      | (out) "\<not> (length xs = 1 \<and> (r = TLeaf \<or> l = TLeaf))" "\<not> (length xs \<le> MIN_ITEMS \<and> l \<noteq> TLeaf \<and> b \<le> 0)"
          "\<not> (length xs \<le> MIN_ITEMS \<and> r \<noteq> TLeaf)" by blast
    then show ?thesis
    proof cases
      case f1
      then obtain x where xs: "xs = [x]" by (auto simp: length_Suc_conv)
      with i have "i = 0" by simp
      then have "shrunk inv blocks Key m ?t (xs ! i) 1 (Free_node M a m) l"
        using free_node [of Key m a l b x r l] T f1 xs by simp
      from delete_resultI [OF x i(2) this] show ?thesis using e Some f1 by simp
    next
      case f2
      then obtain x where xs: "xs = [x]" by (auto simp: length_Suc_conv)
      with i have "i = 0" by simp
      then have "shrunk inv blocks Key m ?t (xs ! i) 1 (Free_node M a m) r"
        using free_node [of Key m a l b x r r] T f2 xs by simp
      from delete_resultI [OF x i(2) this] show ?thesis using e Some f2 by simp
    next
      case pred
      obtain p where p: "rightmost (root l) m = Some p" "last_item p = Some (last (inorder l))"
        using rightmost_last [of m l] sub(1) pred(3) by (auto simp: tree_in_def)
      from fill_from_left [OF T i(1) pred(3) IHl] pred(3) obtain g h m1 g' t' m' where
        r: "del (root l) (Key (last (inorder l))) (set_items a ((shift_up (m_ahItems ?n) i 0)[0 := last (inorder l)]) m) = Some (g, h, m1)"
        "\<not> g < -1" "(let m2 = (if h \<noteq> root l then set_left a h m1 else m1) in
           if g > 0 then BalanceLeftBranch a m2 else Some (g, a, m2)) = Some (g', root t', m')"
        "shrunk inv blocks Key m ?t (xs ! i) g' m' t'" unfolding Let_def by blast
      have "delete_here del M pfComp Key a k m = Some (g', root t', m')"
        using e Some pred p r(1-3) by (auto simp: Let_def)
      then show ?thesis using delete_resultI [OF x i(2) r(4)] by simp
    next
      case succ
      obtain p where p: "leftmost (root r) m = Some p" "item p 0 = Some (hd (inorder r))"
        using leftmost_hd [of m r] sub(2) succ(4) by (auto simp: tree_in_def)
      from fill_from_right [OF T i(1) succ(4) IHr] succ(4) obtain g h m1 g' t' m' where
        r: "del (root r) (Key (hd (inorder r))) (set_items a ((shift_down (m_ahItems ?n) (i + 1) (length xs))[length xs - 1 := hd (inorder r)]) m)
              = Some (g, h, m1)"
        "\<not> g < -1" "(let m2 = (if h \<noteq> root r then set_right a h m1 else m1) in
           if g > 0 then BalanceRightBranch a m2 else Some (g, a, m2)) = Some (g', root t', m')"
        "shrunk inv blocks Key m ?t (xs ! i) g' m' t'" unfolding Let_def by blast
      have "delete_here del M pfComp Key a k m = Some (g', root t', m')"
        using e Some succ p r(1-3) by (auto simp: Let_def)
      then show ?thesis using delete_resultI [OF x i(2) r(4)] by simp
    next
      case out
      have "1 < length xs"
      proof (rule ccontr)
        assume "\<not> 1 < length xs"
        then have one: "length xs = 1" using i(1) by simp
        then have "length xs \<le> MIN_ITEMS" by (simp add: MIN_ITEMS_def PAGE_SIZE_def)
        with out one show False by simp
      qed
      from delete_resultI [OF x i(2) take_out [OF T i(1) this]] show ?thesis
        using e Some out by auto
    qed
  next
    case None
    have nx: "k \<notin> Key ` set xs"
    proof (cases "k \<le> Key (last xs)")
      case True
      with None find_equal_cases [where df = "pfComp k" and xs = xs and k = 0] show ?thesis by (auto simp: key_orderD [OF ko])
    next
      case False
      then show ?thesis using strict_last [OF sub(3,4)] by (auto simp: image_iff)
    qed
    show ?thesis
    proof (cases "r = TLeaf")
      case True
      with e None nx k show ?thesis by (auto simp: delete_result_def)
    next
      case False
      from IHr [OF sub(2) False, of k] obtain g h m1 where r: "del (root r) k m = Some (g, h, m1)"
        "g = -1 \<and> h = root r \<and> m1 = m \<and> k \<notin> Key ` set (inorder r)
         \<or> (\<exists>x t'. x \<in> set (inorder r) \<and> Key x = k \<and> h = root t' \<and> shrunk inv blocks Key m r x g m1 t')"
        unfolding delete_result_def by blast
      from r(2) show ?thesis
      proof
        assume "g = -1 \<and> h = root r \<and> m1 = m \<and> k \<notin> Key ` set (inorder r)"
        with e None False r(1) nx k show ?thesis by (auto simp: delete_result_def Let_def)
      next
        assume "\<exists>x t'. x \<in> set (inorder r) \<and> Key x = k \<and> h = root t' \<and> shrunk inv blocks Key m r x g m1 t'"
        then obtain x r' where x: "x \<in> set (inorder r)" "Key x = k" "h = root r'" "lowered inv blocks Key m r g m1 r'"
          "set (inorder r') = set (inorder r) - {x}" by (auto simp: shrunk_def)
        have F: "strict Key (inorder l @ xs @ inorder r')"
          by (rule strict_sub [OF st]) (use x(4,5) sub(1) in \<open>auto simp: lowered_def tree_in_def\<close>)
        have "tree_shape inv blocks m ?t" using T by (simp add: tree_in_shape)
        from lower_right [OF this x(4) F] obtain g' m' t' where
          q: "(let m2 = (if h \<noteq> root r then set_right a h m1 else m1) in
             if g > 0 then BalanceRightBranch a m2 else Some (g, a, m2)) = Some (g', root t', m')"
          "lowered inv blocks Key m ?t g' m' t'" "inorder t' = inorder l @ xs @ inorder r'"
          unfolding Let_def x(3) by blast
        have "x \<notin> set (inorder l @ xs)" using st x(1) by (auto simp: strict_append)
        then have "shrunk inv blocks Key m ?t x g' m' t'" using q(2,3) x(5) by (auto simp: shrunk_def)
        moreover have "delete_here del M pfComp Key a k m = Some (g', root t', m')"
          using e None False r(1) q(1) x(4) by (auto simp: Let_def lowered_def)
        ultimately show ?thesis using delete_resultI [of x ?t Key k] x(1,2) by simp
      qed
    qed
  qed
qed

text \<open>\<open>Delete\<close> takes out the item with the key, if there is one, and keeps the tree balanced.\<close>

theorem Node_Delete_result:
  assumes ko: "key_order pfComp Key" and "tree_in inv blocks Key m t" "t \<noteq> TLeaf"
  shows "delete_result inv blocks Key m t k (Node_Delete M pfComp Key (root t) k m)"
  using assms(2,3)
proof (induction t arbitrary: m k)
  case (TNode a l b xs r)
  note T = TNode.prems(1) and IHl = TNode.IH(1) and IHr = TNode.IH(2)
  let ?t = "TNode a l b xs r"
  note sub = tree_in_sub [OF T] and ends = node_items_ends [OF tree_in_sub(5) [OF T]]
  have st: "strict Key (inorder l @ xs @ inorder r)" using T by (simp add: tree_in_def)
  have here: "k \<notin> Key ` set (inorder l) \<Longrightarrow>
      delete_result inv blocks Key m ?t k (delete_here (Node_Delete M pfComp Key) M pfComp Key a k m)"
    using delete_here_result [OF ko T _ IHl IHr, of k] by blast
  have e: "Node_Delete M pfComp Key a k m =
     (if k < Key (hd xs) \<and> l \<noteq> TLeaf then
        do { (iRet, hChild, m1) \<leftarrow> Node_Delete M pfComp Key (root l) k m;
             if iRet < -1 then Some (iRet, a, m1)
             else do {
               let m2 = (if hChild \<noteq> root l then set_left a hChild m1 else m1);
               if iRet > 0 then BalanceLeftBranch a m2
               else if iRet = 0 then Some (0, a, m2)
               else delete_here (Node_Delete M pfComp Key) M pfComp Key a k m2 } }
      else delete_here (Node_Delete M pfComp Key) M pfComp Key a k m)"
    using sub(6-11) ends by (subst Node_Delete.simps) (simp add: Let_def key_orderD [OF ko] cong: if_cong)
  show ?case
  proof (cases "k < Key (hd xs) \<and> l \<noteq> TLeaf")
    case False
    have "k \<notin> Key ` set (inorder l)"
      using False st sub(4) by (cases xs) (auto simp: strict_append strict_Cons)
    then show ?thesis using here e False by auto
  next
    case True
    from IHl [OF sub(1), of k] True obtain g h m1 where r: "Node_Delete M pfComp Key (root l) k m = Some (g, h, m1)"
      "g = -1 \<and> h = root l \<and> m1 = m \<and> k \<notin> Key ` set (inorder l)
       \<or> (\<exists>x t'. x \<in> set (inorder l) \<and> Key x = k \<and> h = root t' \<and> shrunk inv blocks Key m l x g m1 t')"
      unfolding delete_result_def by blast
    from r(2) show ?thesis
    proof
      assume "g = -1 \<and> h = root l \<and> m1 = m \<and> k \<notin> Key ` set (inorder l)"
      with e True r(1) here show ?thesis by (simp add: Let_def)
    next
      assume "\<exists>x t'. x \<in> set (inorder l) \<and> Key x = k \<and> h = root t' \<and> shrunk inv blocks Key m l x g m1 t'"
      then obtain x l' where x: "x \<in> set (inorder l)" "Key x = k" "h = root l'" "lowered inv blocks Key m l g m1 l'"
        "set (inorder l') = set (inorder l) - {x}" by (auto simp: shrunk_def)
      have F: "strict Key (inorder l' @ xs @ inorder r)"
        by (rule strict_sub [OF st]) (use x(4,5) sub(2) in \<open>auto simp: lowered_def tree_in_def\<close>)
      have g: "g = 0 \<or> g = 1" using x(4) by (simp add: lowered_def)
      have "tree_shape inv blocks m ?t" using T by (simp add: tree_in_shape)
      from lower_left [OF this x(4) F] obtain g' m' t' where
        q: "(let m2 = (if h \<noteq> root l then set_left a h m1 else m1) in
           if g > 0 then BalanceLeftBranch a m2 else Some (g, a, m2)) = Some (g', root t', m')"
        "lowered inv blocks Key m ?t g' m' t'" "inorder t' = inorder l' @ xs @ inorder r"
        unfolding Let_def x(3) by blast
      have "x \<notin> set (xs @ inorder r)" using st x(1) by (auto simp: strict_append)
      then have "shrunk inv blocks Key m ?t x g' m' t'" using q(2,3) x(5) by (auto simp: shrunk_def)
      moreover have "Node_Delete M pfComp Key (root ?t) k m = Some (g', root t', m')"
        using e True r(1) q(1) g by (auto simp: Let_def)
      ultimately show ?thesis using delete_resultI [of x ?t Key k] x(1,2) by simp
    qed
  qed
qed simp

text \<open>\<open>Destroy\<close> gives back every node and the blocks of every record.\<close>

lemma destroy_records:
  assumes "\<And>x s. x \<in> set xs \<Longrightarrow> inv s \<Longrightarrow> own x \<subseteq> fst ` blocks s \<Longrightarrow>
      inv (rec x s) \<and> blocks (rec x s) = {p \<in> blocks s. fst p \<notin> own x}"
    and "distinct xs" "\<And>x. x \<in> set xs \<Longrightarrow> own x \<subseteq> fst ` blocks s"
    and "\<And>x y. x \<in> set xs \<Longrightarrow> y \<in> set xs \<Longrightarrow> x \<noteq> y \<Longrightarrow> own x \<inter> own y = {}" "inv s"
  shows "inv (fold rec xs s) \<and> blocks (fold rec xs s) = {p \<in> blocks s. fst p \<notin> \<Union> (own ` set xs)}"
  using assms
proof (induction xs arbitrary: s)
  case (Cons x xs)
  have s: "inv (rec x s)" "blocks (rec x s) = {p \<in> blocks s. fst p \<notin> own x}"
    using Cons.prems(1) [of x s] Cons.prems(3) [of x] Cons.prems(5) by auto
  have "own y \<subseteq> fst ` blocks (rec x s)" if "y \<in> set xs" for y
  proof
    fix h
    assume h: "h \<in> own y"
    have "own x \<inter> own y = {}" by (rule Cons.prems(4)) (use Cons.prems(2) that in auto)
    with h have "h \<notin> own x" by blast
    moreover have "h \<in> fst ` blocks s" using Cons.prems(3) [of y] that h by (meson list.set_intros(2) subsetD)
    then obtain p where "p \<in> blocks s" "h = fst p" by blast
    ultimately show "h \<in> fst ` blocks (rec x s)" unfolding s(2) by blast
  qed
  then have "inv (fold rec xs (rec x s)) \<and> blocks (fold rec xs (rec x s)) = {p \<in> blocks (rec x s). fst p \<notin> \<Union> (own ` set xs)}"
    using Cons.prems s(1) by (intro Cons.IH) auto
  then show ?case unfolding s(2) by auto
qed simp

lemma Node_Destroy_frees:
  assumes "inv (tm_alloc m)" "tt (tm_node m) t" "distinct (nodes t)" "distinct (inorder t)" "set (nodes t) \<subseteq> fst ` blocks (tm_alloc m)"
    and rec: "\<And>x s. x \<in> set (inorder t) \<Longrightarrow> inv s \<Longrightarrow> own x \<subseteq> fst ` blocks s \<Longrightarrow>
      inv (rec x s) \<and> blocks (rec x s) = {p \<in> blocks s. fst p \<notin> own x}"
    and own: "\<And>x. x \<in> set (inorder t) \<Longrightarrow> own x \<subseteq> fst ` blocks (tm_alloc m) - set (nodes t)"
    and dis: "\<And>x y. x \<in> set (inorder t) \<Longrightarrow> y \<in> set (inorder t) \<Longrightarrow> x \<noteq> y \<Longrightarrow> own x \<inter> own y = {}"
  shows "\<exists>m'. Node_Destroy M rec (root t) m = Some m' \<and> inv (tm_alloc m') \<and> tm_node m' = tm_node m
     \<and> blocks (tm_alloc m') = {p \<in> blocks (tm_alloc m). fst p \<notin> set (nodes t) \<union> \<Union> (own ` set (inorder t))}"
  using assms
proof (induction t arbitrary: m)
  case TLeaf
  then show ?case by (subst root.simps, subst Node_Destroy.simps) simp
next
  case (TNode a l b xs r)
  let ?s = "tm_alloc m" and ?s1 = "fold rec xs (tm_alloc m)"
  let ?G = "\<lambda>t. set (nodes t) \<union> \<Union> (own ` set (inorder t))"
  have n: "items (tm_node m a) = xs" "a \<noteq> INVALID_HANDLE" "m_hLeft (tm_node m a) = root l" "m_hRight (tm_node m a) = root r"
    "tt (tm_node m) l" "tt (tm_node m) r" using TNode.prems(2) by (auto simp: node_items_items)
  have 1: "inv ?s1" "blocks ?s1 = {p \<in> blocks ?s. fst p \<notin> \<Union> (own ` set xs)}"
  proof -
    have "inv ?s1 \<and> blocks ?s1 = {p \<in> blocks ?s. fst p \<notin> \<Union> (own ` set xs)}"
    proof (rule destroy_records)
      show "own x \<subseteq> fst ` blocks ?s" if "x \<in> set xs" for x using TNode.prems(7) [of x] that by auto
    qed (use TNode.prems(1,4,6,8) in auto)
    then show "inv ?s1" "blocks ?s1 = {p \<in> blocks ?s. fst p \<notin> \<Union> (own ` set xs)}" by blast+
  qed
  have oa: "h \<notin> own x" if "x \<in> set (inorder (TNode a l b xs r))" "h \<in> set (nodes (TNode a l b xs r))" for h x
    using TNode.prems(7) [OF that(1)] that(2) by blast
  obtain k where k: "(a, k) \<in> blocks ?s1" using TNode.prems(5) oa [of _ a] unfolding 1(2) by force
  obtain s2 where 2: "free a ?s1 = (0, s2)" "inv s2" "blocks s2 = blocks ?s1 - {(a, k)}" using free_block [OF 1(1) k] by blast
  have b2: "blocks s2 = {p \<in> blocks ?s. fst p \<notin> insert a (\<Union> (own ` set xs))}"
    unfolding 2(3) 1(2) using unique [OF TNode.prems(1)] k 1(2) by (auto 4 3)
  let ?m2 = "m\<lparr>tm_alloc := s2\<rparr>"
  have keep: "h \<in> fst ` blocks s2" if "h \<in> fst ` blocks ?s" "h \<noteq> a" "h \<notin> \<Union> (own ` set xs)" for h
    using that unfolding b2 by force
  have dl: "own x \<subseteq> fst ` blocks s2 - set (nodes l)" if "x \<in> set (inorder l)" for x
  proof -
    have "own x \<inter> own y = {}" if "y \<in> set xs" for y
      using TNode.prems(4,8) \<open>x \<in> set (inorder l)\<close> that by (intro TNode.prems(8)) auto
    moreover have "own x \<subseteq> fst ` blocks ?s - set (nodes (TNode a l b xs r))" using TNode.prems(7) that by simp
    ultimately show ?thesis using keep unfolding nodes.simps by (auto simp: subset_iff) (metis disjoint_iff)+
  qed
  have "\<exists>m3. Node_Destroy M rec (root l) ?m2 = Some m3 \<and> inv (tm_alloc m3) \<and> tm_node m3 = tm_node ?m2
     \<and> blocks (tm_alloc m3) = {p \<in> blocks (tm_alloc ?m2). fst p \<notin> ?G l}"
  proof (rule TNode.IH(1))
    show "set (nodes l) \<subseteq> fst ` blocks (tm_alloc ?m2)"
    proof
      fix h
      assume "h \<in> set (nodes l)"
      then have "h \<in> fst ` blocks ?s" "h \<noteq> a" "h \<notin> \<Union> (own ` set xs)" using TNode.prems(3,5) oa [of _ h] by auto
      from keep [OF this] show "h \<in> fst ` blocks (tm_alloc ?m2)" by simp
    qed
  qed (use TNode.prems 2(2) n(5) dl in auto)
  then obtain m3 where 3: "Node_Destroy M rec (root l) ?m2 = Some m3" "inv (tm_alloc m3)" "tm_node m3 = tm_node m"
    "blocks (tm_alloc m3) = {p \<in> blocks s2. fst p \<notin> ?G l}" by auto
  have keep3: "h \<in> fst ` blocks (tm_alloc m3)" if "h \<in> fst ` blocks s2" "h \<notin> ?G l" for h
    using that unfolding 3(4) by force
  have dr: "own x \<subseteq> fst ` blocks (tm_alloc m3) - set (nodes r)" if "x \<in> set (inorder r)" for x
  proof -
    have "own x \<inter> own y = {}" if "y \<in> set xs \<union> set (inorder l)" for y
      using TNode.prems(4) \<open>x \<in> set (inorder r)\<close> that by (intro TNode.prems(8)) auto
    moreover have "own x \<subseteq> fst ` blocks ?s - set (nodes (TNode a l b xs r))" using TNode.prems(7) that by simp
    ultimately show ?thesis using keep keep3 unfolding nodes.simps by (auto simp: subset_iff) (metis UnCI disjoint_iff)+
  qed
  have "\<exists>m4. Node_Destroy M rec (root r) m3 = Some m4 \<and> inv (tm_alloc m4) \<and> tm_node m4 = tm_node m3
     \<and> blocks (tm_alloc m4) = {p \<in> blocks (tm_alloc m3). fst p \<notin> ?G r}"
  proof (rule TNode.IH(2))
    show "set (nodes r) \<subseteq> fst ` blocks (tm_alloc m3)"
    proof
      fix h
      assume "h \<in> set (nodes r)"
      then have "h \<in> fst ` blocks ?s" "h \<noteq> a" "h \<notin> \<Union> (own ` set xs)" "h \<notin> ?G l"
        using TNode.prems(3,5) oa [of _ h] by auto
      then show "h \<in> fst ` blocks (tm_alloc m3)" using keep keep3 by blast
    qed
  qed (use TNode.prems 3(2,3) n(6) dr in auto)
  then obtain m4 where 4: "Node_Destroy M rec (root r) m3 = Some m4" "inv (tm_alloc m4)" "tm_node m4 = tm_node m"
    "blocks (tm_alloc m4) = {p \<in> blocks (tm_alloc m3). fst p \<notin> ?G r}" using 3(3) by auto
  have "Node_Destroy M rec a m = Some m4"
    using n 2(1) 3(1) 4(1) by (subst Node_Destroy.simps) (simp add: Let_def Free_node_def ops)
  moreover have "blocks (tm_alloc m4) = {p \<in> blocks ?s. fst p \<notin> ?G (TNode a l b xs r)}"
    unfolding 4(4) 3(4) b2 by auto
  ultimately show ?case using 4(2,3) by simp
qed

end

end
