(* ===== verification/T_Tree_Visit.thy ===== *)
theory T_Tree_Visit
  imports T_Tree_Insert
begin

text \<open>
  Searches and traversals of a T-tree in memory.  \<open>Find\<close> is a lookup in the sequence of items.
  A traversal is a run of the visitor over a list: the items in the order of the traversal,
  less those its conditions skip.
\<close>

section \<open>Search\<close>

lemma tt_sub:
  assumes "tt (tm_node m) (TNode a l b xs r)"
  shows "tt (tm_node m) l" and "tt (tm_node m) r" and "xs \<noteq> []" and "node_items (tm_node m a) xs" and "a \<noteq> INVALID_HANDLE"
    and "m_hLeft (tm_node m a) = root l" and "m_hRight (tm_node m a) = root r"
    and "root l = INVALID_HANDLE \<longleftrightarrow> l = TLeaf" and "root r = INVALID_HANDLE \<longleftrightarrow> r = TLeaf"
  using assms tt_root [of "tm_node m" l] tt_root [of "tm_node m" r] by (auto simp: node_items_def)

definition found :: "(handle \<Rightarrow> 'k) \<Rightarrow> 'k \<Rightarrow> 's tree_mem \<Rightarrow> handle list \<Rightarrow> int \<times> (handle \<times> nat) option \<Rightarrow> bool" where
  "found Key k m xs res \<longleftrightarrow>
     (if k \<in> Key ` set xs
      then \<exists>h i x. res = (1, Some (h, i)) \<and> item (tm_node m h) i = Some x \<and> x \<in> set xs \<and> Key x = k
      else res = (0, None))"

lemma found_hit: "item (tm_node m h) i = Some x \<Longrightarrow> x \<in> set xs \<Longrightarrow> Key x = k \<Longrightarrow> found Key k m xs (1, Some (h, i))"
  by (auto simp: found_def)

lemma found_miss: "k \<notin> Key ` set xs \<Longrightarrow> found Key k m xs (0, None)"
  by (simp add: found_def)

lemma found_mono: "found Key k m xs res \<Longrightarrow> set xs \<subseteq> set ys \<Longrightarrow> k \<notin> Key ` (set ys - set xs) \<Longrightarrow> found Key k m ys res"
  unfolding found_def by (cases "k \<in> Key ` set xs") (auto 4 4)

text \<open>The search between the ends of a node.\<close>

lemma search_node:
  assumes ko: "key_order pfComp Key" and n: "node_items n xs" and s: "strict Key xs" and e: "Key (hd xs) < k" "k < Key (last xs)"
  shows "(case search_items (iDiff pfComp k) (m_ahItems n) 1 (length xs - 1) of
      Some i \<Rightarrow> i < length xs \<and> Key (xs ! i) = k
    | None \<Rightarrow> k \<notin> Key ` set xs)"
proof -
  let ?d = "iDiff pfComp k"
  have ne: "xs \<noteq> []" using n by (simp add: node_items_def)
  then have hl: "hd xs = xs ! 0" "last xs = xs ! (length xs - 1)" by (simp_all add: hd_conv_nth last_conv_nth)
  have "length xs \<noteq> 1" using e hl by auto
  then have len: "1 \<le> length xs - 1" "length xs - 1 < length xs" using ne by (cases xs; simp; cases "tl xs"; simp)+
  have p: "search_items ?d (m_ahItems n) 1 (length xs - 1) = search_items ?d xs 1 (length xs - 1)"
    by (rule search_prefix) (use node_items_nth [OF n] in auto)
  have "\<forall>j<1. ?d (xs ! j) > 0" using e(1) hl key_orderD [OF ko] by auto
  moreover have "\<forall>j<length xs. length xs - 1 \<le> j \<longrightarrow> ?d (xs ! j) < 0"
  proof (intro allI impI)
    fix j
    assume "j < length xs" "length xs - 1 \<le> j"
    then have "j = length xs - 1" by simp
    then show "?d (xs ! j) < 0" using e(2) hl key_orderD [OF ko] by simp
  qed
  ultimately have q: "(case search_items ?d xs 1 (length xs - 1) of
      Some i \<Rightarrow> i < length xs \<and> ?d (xs ! i) = 0 | None \<Rightarrow> \<forall>j<length xs. ?d (xs ! j) \<noteq> 0)"
    using search_falling [OF strict_falling [OF ko s, of k] len] by blast
  show ?thesis unfolding p
    using q by (cases "search_items ?d xs 1 (length xs - 1)") (auto simp: key_orderD [OF ko] in_set_conv_nth)
qed

lemma Node_FindItem_found:
  assumes ko: "key_order pfComp Key" and "tt (tm_node m) t" "strict Key (inorder t)" "t \<noteq> TLeaf"
  shows "\<exists>res. Node_FindItem pfComp (root t) k m = Some res \<and> found Key k m (inorder t) res"
  using assms(2-)
proof (induction t)
  case (TNode a l b xs r)
  note sub = tt_sub [OF TNode.prems(1)]
  note ends = node_items_ends [OF sub(4)] and len = node_items_len [OF sub(4)]
  have st: "strict Key (inorder l @ xs @ inorder r)" using TNode.prems(2) by simp
  then have s: "strict Key (inorder l)" "strict Key xs" "strict Key (inorder r)" by (auto simp: strict_append)
  let ?F = "\<lambda>h. Node_FindItem pfComp h k m" and ?in = "inorder l @ xs @ inorder r"
  have mem: "hd xs \<in> set ?in" "last xs \<in> set ?in" "\<And>i. i < length xs \<Longrightarrow> xs ! i \<in> set ?in" using sub(3) by auto
  have e: "?F a = (if k = Key (hd xs) then Some (1, Some (a, 0))
     else if Key (hd xs) < k then
       (if k = Key (last xs) then Some (1, Some (a, length xs - 1))
        else if Key (last xs) < k then (if r = TLeaf then Some (0, None) else ?F (root r))
        else (case search_items (iDiff pfComp k) (m_ahItems (tm_node m a)) 1 (length xs - 1) of
            Some i \<Rightarrow> Some (1, Some (a, i)) | None \<Rightarrow> Some (0, None)))
     else if l = TLeaf then Some (0, None) else ?F (root l))"
    using sub(5-9) ends len by (subst Node_FindItem.simps) (simp add: key_orderD [OF ko] cong: if_cong)
  have low: "k \<notin> Key ` set (inorder l)" if "Key (hd xs) \<le> k"
    using st that sub(3) by (cases xs) (auto simp: strict_append strict_Cons)
  have high: "k \<notin> Key ` set (inorder r)" if "k \<le> Key (last xs)"
    using st that sub(3) by (cases xs rule: rev_cases) (auto simp: strict_append strict_Cons)
  consider (h) "k = Key (hd xs)" | (z) "k \<noteq> Key (hd xs)" "k = Key (last xs)" | (r) "Key (last xs) < k" "k \<noteq> Key (hd xs)"
    | (l) "k < Key (hd xs)" | (mid) "Key (hd xs) < k" "k < Key (last xs)" by fastforce
  then show ?case
  proof cases
    case h
    then show ?thesis using e ends(1) found_hit [of m a 0 "hd xs" ?in Key k] mem(1) by auto
  next
    case z
    then have "Key (hd xs) < k" using strict_last [OF s(2) sub(3), of "hd xs"] sub(3) by auto
    moreover have "item (tm_node m a) (length xs - 1) = Some (last xs)"
      using ends(2,3) len by (simp add: last_item_def)
    ultimately show ?thesis using z e found_hit [of m a "length xs - 1" "last xs" ?in Key k] mem(2) by auto
  next
    case r
    have hk: "Key (hd xs) < k" using strict_last [OF s(2) sub(3), of "hd xs"] sub(3) r by auto
    have nx: "k \<notin> Key ` set xs" using strict_last [OF s(2) sub(3)] r by fastforce
    have lo: "k \<notin> Key ` set (inorder l)" by (rule low [OF less_imp_le [OF hk]])
    show ?thesis
    proof (cases "r = TLeaf")
      case True
      with e r hk nx lo show ?thesis by (auto intro!: found_miss)
    next
      case False
      with TNode.IH(2) sub(2) s(3) obtain res where res: "?F (root r) = Some res" "found Key k m (inorder r) res" by blast
      have "found Key k m ?in res" by (rule found_mono [OF res(2)]) (use nx lo in auto)
      then show ?thesis using e r hk False res(1) by (auto simp del: split_paired_Ex)
    qed
  next
    case l
    have nx: "k \<notin> Key ` set xs" using strict_hd [OF s(2) sub(3)] l by fastforce
    have hi: "k \<notin> Key ` set (inorder r)"
      using high strict_last [OF s(2) sub(3), of "hd xs"] sub(3) l by fastforce
    show ?thesis
    proof (cases "l = TLeaf")
      case True
      with e l nx hi show ?thesis by (auto intro!: found_miss)
    next
      case False
      with TNode.IH(1) sub(1) s(1) obtain res where res: "?F (root l) = Some res" "found Key k m (inorder l) res" by blast
      have "found Key k m ?in res" by (rule found_mono [OF res(2)]) (use nx hi in auto)
      then show ?thesis using e l False res(1) by (auto simp del: split_paired_Ex)
    qed
  next
    case mid
    note q = search_node [OF ko sub(4) s(2) mid]
    have o: "k \<notin> Key ` set (inorder l)" "k \<notin> Key ` set (inorder r)" using low high mid by auto
    show ?thesis
    proof (cases "search_items (iDiff pfComp k) (m_ahItems (tm_node m a)) 1 (length xs - 1)")
      case None
      with q o e mid show ?thesis by (auto intro!: found_miss)
    next
      case (Some i)
      with q have i: "i < length xs" "Key (xs ! i) = k" by auto
      then have "found Key k m ?in (1, Some (a, i))"
        using found_hit [OF node_items_item [OF sub(4) i(1)] mem(3) [OF i(1)], of Key k] by simp
      then show ?thesis using e mid Some by auto
    qed
  qed
qed simp

theorem Node_Find_lookup:
  assumes "key_order pfComp Key" "tt (tm_node m) t" "strict Key (inorder t)" "t \<noteq> TLeaf"
  shows "x \<in> set (inorder t) \<Longrightarrow> Node_Find pfComp (root t) (Key x) m = Some (1, x)"
    and "k \<notin> Key ` set (inorder t) \<Longrightarrow> Node_Find pfComp (root t) k m = Some (0, INVALID_HANDLE)"
proof -
  assume x: "x \<in> set (inorder t)"
  with Node_FindItem_found [OF assms, of "Key x"] obtain h i y where
    "Node_FindItem pfComp (root t) (Key x) m = Some (1, Some (h, i))" "item (tm_node m h) i = Some y"
    "y \<in> set (inorder t)" "Key y = Key x" by (auto simp: found_def)
  moreover then have "y = x" using strict_inj [OF assms(3)] x by (auto dest: inj_onD)
  ultimately show "Node_Find pfComp (root t) (Key x) m = Some (1, x)" by (simp add: Node_Find_def)
next
  assume "k \<notin> Key ` set (inorder t)"
  with Node_FindItem_found [OF assms, of k] show "Node_Find pfComp (root t) k m = Some (0, INVALID_HANDLE)"
    by (auto simp: found_def Node_Find_def)
qed

text \<open>\<open>FindHandle\<close> looks through the whole tree, whatever the order.\<close>

lemma Node_FindHandle_member:
  assumes "tt (tm_node m) t" "t \<noteq> TLeaf"
  shows "Node_FindHandle (root t) x m = Some (if x \<in> set (inorder t) then 1 else 0)"
  using assms
proof (induction t)
  case (TNode a l b xs r)
  note sub = tt_sub [OF TNode.prems(1)]
  have l: "(if l \<noteq> TLeaf then Node_FindHandle (root l) x m else Some 0) = Some (if x \<in> set (inorder l) then 1 else 0)"
    using TNode.IH(1) sub(1) by auto
  have r: "(if r \<noteq> TLeaf then Node_FindHandle (root r) x m else Some 0) = Some (if x \<in> set (inorder r) then 1 else 0)"
    using TNode.IH(2) sub(2) by auto
  show ?case
    using sub(3,5-9) node_items_ends(3) [OF sub(4)] node_items_items [OF sub(4)] l r
    by (subst root.simps, subst Node_FindHandle.simps) auto
qed simp

section \<open>Traversal\<close>

text \<open>
  A visitor that leaves the item as it is, and a run of it over a list of items up to the first
  code other than 0.
\<close>

definition keeps_item :: "'c ItemVisit \<Rightarrow> bool" where
  "keeps_item pfVisit \<longleftrightarrow> (\<forall>x c. fst (snd (pfVisit x c)) = x)"

fun visit_list :: "'c ItemVisit \<Rightarrow> handle list \<Rightarrow> 'c \<Rightarrow> int \<times> 'c" where
  "visit_list pfVisit [] c = (0, c)"
| "visit_list pfVisit (x # xs) c =
     (case pfVisit x c of (iRet, _, c') \<Rightarrow> if iRet \<noteq> 0 then (iRet, c') else visit_list pfVisit xs c')"

definition ran :: "'c ItemVisit \<Rightarrow> handle list \<Rightarrow> 'c \<Rightarrow> 's tree_mem \<Rightarrow> ('c, 's) visited" where
  "ran pfVisit xs c m = (case visit_list pfVisit xs c of (iRet, c') \<Rightarrow> Some (iRet, c', m))"

lemma ran_Nil [simp]: "ran pfVisit [] c m = Some (0, c, m)"
  by (simp add: ran_def)

lemma ran_append: "(\<And>c. f c m = ran pfVisit ys c m) \<Longrightarrow> visit_then (ran pfVisit xs c m) f = ran pfVisit (xs @ ys) c m"
  by (induction xs arbitrary: c) (auto simp: ran_def visit_then_def split: prod.splits)

lemma ran_Cons:
  "ran pfVisit (x # xs) c m =
     (case pfVisit x c of (iRet, _, c') \<Rightarrow> visit_then (Some (iRet, c', m)) (\<lambda>c m. ran pfVisit xs c m))"
  by (auto simp: ran_def visit_then_def split: prod.splits)

lemma upd_same: "i < length (m_ahItems (tm_node m h)) \<Longrightarrow>
    upd_node h (\<lambda>n. n\<lparr>m_ahItems := (m_ahItems n)[i := m_ahItems (tm_node m h) ! i]\<rparr>) m = m"
  by (simp add: upd_node_def)

lemma visit_slots_ran:
  assumes "keeps_item pfVisit" "\<forall>i\<in>set is. i < length (m_ahItems (tm_node m a))"
  shows "visit_slots pfVisit P is a c m = ran pfVisit (filter P (map (\<lambda>i. m_ahItems (tm_node m a) ! i) is)) c m"
  using assms(2)
proof (induction "is" arbitrary: c)
  case (Cons i "is")
  let ?x = "m_ahItems (tm_node m a) ! i"
  have i: "item (tm_node m a) i = Some ?x" using Cons.prems by (simp add: item_def)
  show ?case
  proof (cases "P ?x")
    case True
    obtain r y c' where v: "pfVisit ?x c = (r, y, c')" by (cases "pfVisit ?x c")
    then have "y = ?x" using assms(1) unfolding keeps_item_def by (metis fst_conv snd_conv)
    have u: "upd_node a (\<lambda>n. n\<lparr>m_ahItems := (m_ahItems n)[i := y]\<rparr>) m = m"
      unfolding \<open>y = ?x\<close> using Cons.prems by (intro upd_same) simp
    from Cons have "visit_slots pfVisit P is a c' m = ran pfVisit (filter P (map (\<lambda>i. m_ahItems (tm_node m a) ! i) is)) c' m" by simp
    with v i True show ?thesis by (simp add: ran_Cons visit_then_def u)
  qed (use i Cons in simp)
qed simp

text \<open>The list of a traversal: the items it visits, in its order.\<close>

fun seq :: "traversal \<Rightarrow> (handle \<Rightarrow> CTtreeNode) \<Rightarrow> ttree \<Rightarrow> handle list" where
  "seq tv f TLeaf = []"
| "seq tv f (TNode a l b xs r) = concat (map (\<lambda>p. case p of
       PLeft \<Rightarrow> if tv_left tv (f a) then seq tv f l else []
     | PItems \<Rightarrow> if tv_items tv (f a) then filter (tv_item tv) (if tv_up tv then xs else rev xs) else []
     | PRight \<Rightarrow> if tv_right tv (f a) then seq tv f r else []) (tv_parts tv))"

lemma slots_items:
  assumes "node_items n xs"
  shows "map (\<lambda>i. m_ahItems n ! i) ((if up then id else rev) [0..<m_ushNItems n]) = (if up then xs else rev xs)"
proof -
  have "map (\<lambda>i. m_ahItems n ! i) [0..<length xs] = map (\<lambda>i. xs ! i) [0..<length xs]"
    by (rule map_cong) (auto simp: node_items_nth [OF assms])
  then show ?thesis using node_items_ends(3) [OF assms] by (simp add: map_nth flip: rev_map)
qed

lemma traverse_ran:
  assumes v: "keeps_item pfVisit" and "tt (tm_node m) t" "t \<noteq> TLeaf"
  shows "traverse tv pfVisit (tv_parts tv) (root t) c m = ran pfVisit (seq tv (tm_node m) t) c m"
  using assms(2,3)
proof (induction t arbitrary: c)
  case (TNode a l b xs r)
  note sub = tt_sub [OF TNode.prems(1)]
  have i: "visit_slots pfVisit (tv_item tv) ((if tv_up tv then id else rev) [0..<m_ushNItems (tm_node m a)]) a c m
      = ran pfVisit (filter (tv_item tv) (if tv_up tv then xs else rev xs)) c m" for c
  proof -
    have "\<forall>i\<in>set ((if tv_up tv then id else rev) [0..<m_ushNItems (tm_node m a)]). i < length (m_ahItems (tm_node m a))"
      using sub(4) node_items_len [OF sub(4)] by (auto simp: node_items_def)
    from visit_slots_ran [OF v this] show ?thesis unfolding slots_items [OF sub(4)] .
  qed
  have l: "(if l \<noteq> TLeaf \<and> tv_left tv (tm_node m a) then traverse tv pfVisit (tv_parts tv) (root l) c m else Some (0, c, m))
      = ran pfVisit (if tv_left tv (tm_node m a) then seq tv (tm_node m) l else []) c m" for c
    using TNode.IH(1) [OF sub(1)] by auto
  have r: "(if r \<noteq> TLeaf \<and> tv_right tv (tm_node m a) then traverse tv pfVisit (tv_parts tv) (root r) c m else Some (0, c, m))
      = ran pfVisit (if tv_right tv (tm_node m a) then seq tv (tm_node m) r else []) c m" for c
    using TNode.IH(2) [OF sub(2)] by auto
  let ?part = "\<lambda>p. case p of
       PLeft \<Rightarrow> if tv_left tv (tm_node m a) then seq tv (tm_node m) l else []
     | PItems \<Rightarrow> if tv_items tv (tm_node m a) then filter (tv_item tv) (if tv_up tv then xs else rev xs) else []
     | PRight \<Rightarrow> if tv_right tv (tm_node m a) then seq tv (tm_node m) r else []"
  have "traverse tv pfVisit ps a c m = ran pfVisit (concat (map ?part ps)) c m" for ps
  proof (induction ps arbitrary: c)
    case Nil
    then show ?case by (subst traverse.simps) simp
  next
    case (Cons p ps)
    have "traverse tv pfVisit (p # ps) a c m = visit_then (ran pfVisit (?part p) c m) (traverse tv pfVisit ps a)"
      using sub(5-9) i l r by (subst traverse.simps) (cases p; simp cong: if_cong)
    also have "\<dots> = ran pfVisit (?part p @ concat (map ?part ps)) c m" by (rule ran_append) (rule Cons)
    finally show ?case by (simp only: list.map concat.simps)
  qed
  then show ?case by simp
qed simp

text \<open>
  The whole tree in the order of a traversal.  Where the conditions on the ends of a node skip
  a part only if no item of it is in range, the list of the traversal is the whole order cut
  down to the items in range.
\<close>

fun whole :: "part list \<Rightarrow> bool \<Rightarrow> ttree \<Rightarrow> handle list" where
  "whole parts up TLeaf = []"
| "whole parts up (TNode a l b xs r) = concat (map (\<lambda>p. case p of
       PLeft \<Rightarrow> whole parts up l | PItems \<Rightarrow> (if up then xs else rev xs) | PRight \<Rightarrow> whole parts up r) parts)"

lemma whole_forward: "whole [PLeft, PItems, PRight] True t = inorder t"
  by (induction t) auto

lemma whole_backward: "whole [PRight, PItems, PLeft] False t = rev (inorder t)"
  by (induction t) auto

fun exact :: "traversal \<Rightarrow> (handle \<Rightarrow> CTtreeNode) \<Rightarrow> ttree \<Rightarrow> bool" where
  "exact tv f TLeaf = True"
| "exact tv f (TNode a l b xs r) \<longleftrightarrow> exact tv f l \<and> exact tv f r
     \<and> (\<not> tv_left tv (f a) \<longrightarrow> (\<forall>x\<in>set (inorder l). \<not> tv_item tv x))
     \<and> (\<not> tv_items tv (f a) \<longrightarrow> (\<forall>x\<in>set xs. \<not> tv_item tv x))
     \<and> (\<not> tv_right tv (f a) \<longrightarrow> (\<forall>x\<in>set (inorder r). \<not> tv_item tv x))"

lemma set_whole: "set (whole parts up t) \<subseteq> set (inorder t)"
proof (induction t)
  case (TNode a l b xs r)
  then show ?case by (auto split: part.splits)
qed simp

lemma seq_exact: "exact tv f t \<Longrightarrow> seq tv f t = filter (tv_item tv) (whole (tv_parts tv) (tv_up tv) t)"
proof (induction t)
  case (TNode a l b xs r)
  have none: "filter (tv_item tv) ys = []" if "\<forall>x\<in>set xs. \<not> tv_item tv x" "set ys \<subseteq> set xs" for xs ys
    using that by (auto simp: filter_empty_conv)
  have "(case p of
       PLeft \<Rightarrow> if tv_left tv (f a) then seq tv f l else []
     | PItems \<Rightarrow> if tv_items tv (f a) then filter (tv_item tv) (if tv_up tv then xs else rev xs) else []
     | PRight \<Rightarrow> if tv_right tv (f a) then seq tv f r else [])
    = filter (tv_item tv) (case p of PLeft \<Rightarrow> whole (tv_parts tv) (tv_up tv) l
     | PItems \<Rightarrow> (if tv_up tv then xs else rev xs) | PRight \<Rightarrow> whole (tv_parts tv) (tv_up tv) r)" for p
    using TNode none [OF _ set_whole, of l] none [OF _ set_whole, of r] none [of xs xs] none [of xs "rev xs"]
    by (cases p) auto
  then have "map (\<lambda>p. case p of
       PLeft \<Rightarrow> if tv_left tv (f a) then seq tv f l else []
     | PItems \<Rightarrow> if tv_items tv (f a) then filter (tv_item tv) (if tv_up tv then xs else rev xs) else []
     | PRight \<Rightarrow> if tv_right tv (f a) then seq tv f r else []) ps
    = map (\<lambda>p. filter (tv_item tv) (case p of PLeft \<Rightarrow> whole (tv_parts tv) (tv_up tv) l
     | PItems \<Rightarrow> (if tv_up tv then xs else rev xs) | PRight \<Rightarrow> whole (tv_parts tv) (tv_up tv) r)) ps" for ps by (intro map_cong refl)
  then show ?case by (simp only: seq.simps whole.simps filter_concat map_map comp_def)
qed simp

text \<open>The ends of a node as the conditions read them, and the keys around it.\<close>

lemma node_keys:
  assumes n: "node_items n xs" and st: "strict Key (inorder l @ xs @ inorder r)"
  shows "x \<in> set (inorder l) \<Longrightarrow> Key x < Key (first_of n)" "x \<in> set xs \<Longrightarrow> Key (first_of n) \<le> Key x"
    "x \<in> set xs \<Longrightarrow> Key x \<le> Key (last_of n)" "x \<in> set (inorder r) \<Longrightarrow> Key (last_of n) < Key x"
proof -
  note len = node_items_len [OF n] and s = node_items_ends(3) [OF n]
  have f: "first_of n \<in> set xs" and z: "last_of n \<in> set xs" using len s by (auto simp: node_items_nth [OF n])
  have h: "first_of n = hd xs" "last_of n = last xs" "xs \<noteq> []"
    using len s by (auto simp: node_items_nth [OF n] hd_conv_nth last_conv_nth)
  show "x \<in> set (inorder l) \<Longrightarrow> Key x < Key (first_of n)" "x \<in> set (inorder r) \<Longrightarrow> Key (last_of n) < Key x"
    using st f z by (auto simp: strict_append)
  show "x \<in> set xs \<Longrightarrow> Key (first_of n) \<le> Key x" "x \<in> set xs \<Longrightarrow> Key x \<le> Key (last_of n)"
    unfolding h using st h(3) by (auto simp: strict_append strict_hd strict_last)
qed

lemma exact_between:
  assumes ko: "key_order pfComp Key" and "tt f t" "strict Key (inorder t)"
    and g: "gl = (\<lambda>n. iDiff pfComp k (first_of n) < 0) \<or> gl = (\<lambda>n. iDiff pfComp k (first_of n) \<le> 0)"
      "gr = (\<lambda>n. iDiff pfComp k1 (last_of n) \<ge> 0) \<or> gr = (\<lambda>n. iDiff pfComp k1 (last_of n) > 0)"
  shows "exact (tv_between pfComp k k1 parts gl gr up) f t"
  using assms(2,3)
proof (induction t)
  case (TNode a l b xs r)
  have n: "node_items (f a) xs" and st: "strict Key (inorder l @ xs @ inorder r)" using TNode.prems by auto
  note nk = node_keys [OF n st]
  have "\<not> (k \<le> Key x \<and> Key x \<le> k1)" if "x \<in> set (inorder l)" "\<not> gl (f a)" for x
    using g(1) nk(1) [OF that(1)] that(2) by (auto simp: key_orderD [OF ko])
  moreover have "\<not> (k \<le> Key x \<and> Key x \<le> k1)" if "x \<in> set (inorder r)" "\<not> gr (f a)" for x
    using g(2) nk(4) [OF that(1)] that(2) by (auto simp: key_orderD [OF ko])
  moreover have "\<not> (k \<le> Key x \<and> Key x \<le> k1)" if "x \<in> set xs" "k1 < Key (first_of (f a)) \<or> Key (last_of (f a)) < k" for x
    using nk(2,3) [OF that(1)] that(2) by auto
  ultimately show ?case using TNode st by (auto simp: tv_between_def key_orderD [OF ko] strict_append)
qed simp

lemma exact_from:
  assumes ko: "key_order pfComp Key" and "tt f t" "strict Key (inorder t)"
  shows "exact (tv_from pfComp k parts) f t"
  using assms(2,3)
proof (induction t)
  case (TNode a l b xs r)
  have n: "node_items (f a) xs" and st: "strict Key (inorder l @ xs @ inorder r)" using TNode.prems by auto
  note nk = node_keys [OF n st]
  show ?case using TNode st nk(1,3) by (fastforce simp: tv_from_def key_orderD [OF ko] strict_append)
qed simp

lemma exact_upto:
  assumes ko: "key_order pfComp Key" and "tt f t" "strict Key (inorder t)"
  shows "exact (tv_upto pfComp k parts) f t"
  using assms(2,3)
proof (induction t)
  case (TNode a l b xs r)
  have n: "node_items (f a) xs" and st: "strict Key (inorder l @ xs @ inorder r)" using TNode.prems by auto
  note nk = node_keys [OF n st]
  show ?case using TNode st nk(2,4) by (fastforce simp: tv_upto_def key_orderD [OF ko] strict_append)
qed simp

lemma exact_all: "exact (tv_all parts up) f t"
  by (induction t) (auto simp: tv_all_def)

text \<open>The traversals as runs over the items.\<close>

lemma traversed:
  assumes "keeps_item pfVisit" "tt (tm_node m) t" "t \<noteq> TLeaf" "exact tv (tm_node m) t" "tv_parts tv = parts"
  shows "traverse tv pfVisit parts (root t) c m = ran pfVisit (filter (tv_item tv) (whole parts (tv_up tv) t)) c m"
  using traverse_ran [OF assms(1-3), of tv c] seq_exact [OF assms(4)] assms(5) by simp

section \<open>The items near a key\<close>

definition near :: "(handle \<Rightarrow> int) \<Rightarrow> int \<Rightarrow> handle \<Rightarrow> bool" where
  "near df inc x \<longleftrightarrow> df x \<le> 0 \<and> df x \<ge> 0 - inc"

lemma visit_near_ran:
  assumes v: "keeps_item pfVisit" and "\<forall>i\<in>set is. i < length (m_ahItems (tm_node m a))"
    and "sorted_wrt (\<lambda>i j. df (m_ahItems (tm_node m a) ! j) \<le> df (m_ahItems (tm_node m a) ! i)) is"
  shows "\<exists>all. visit_near pfVisit df inc is a c m =
      (case visit_list pfVisit (filter (near df inc) (map (\<lambda>i. m_ahItems (tm_node m a) ! i) is)) c of
         (iRet, c') \<Rightarrow> Some ((iRet, c', m), all iRet))
    \<and> (all 0 \<longleftrightarrow> (\<forall>i\<in>set is. \<not> df (m_ahItems (tm_node m a) ! i) < 0 - inc))"
  using assms(2,3)
proof (induction "is" arbitrary: c)
  case (Cons i "is")
  let ?x = "m_ahItems (tm_node m a) ! i"
  have i: "item (tm_node m a) i = Some ?x" using Cons.prems by (simp add: item_def)
  consider (near) "near df inc ?x" | (far) "df ?x < 0 - inc" | (skip) "\<not> near df inc ?x" "\<not> df ?x < 0 - inc" by blast
  then show ?case
  proof cases
    case near
    obtain r y c' where r: "pfVisit ?x c = (r, y, c')" by (cases "pfVisit ?x c")
    then have y: "y = ?x" using v unfolding keeps_item_def by (metis fst_conv snd_conv)
    have u: "upd_node a (\<lambda>n. n\<lparr>m_ahItems := (m_ahItems n)[i := y]\<rparr>) m = m"
      unfolding y using Cons.prems by (intro upd_same) simp
    have nf: "\<not> df ?x < 0 - inc" using near by (simp add: near_def)
    show ?thesis
    proof (cases "r = 0")
      case False
      then show ?thesis using near r i u nf
        by (intro exI [of _ "\<lambda>r. r = 0 \<and> (\<forall>i\<in>set is. \<not> df (m_ahItems (tm_node m a) ! i) < 0 - inc)"]) (simp add: near_def Let_def)
    next
      case True
      from Cons.IH [of c'] Cons.prems obtain all where all: "visit_near pfVisit df inc is a c' m =
          (case visit_list pfVisit (filter (near df inc) (map (\<lambda>i. m_ahItems (tm_node m a) ! i) is)) c' of
             (iRet, c') \<Rightarrow> Some ((iRet, c', m), all iRet))"
        "all 0 \<longleftrightarrow> (\<forall>i\<in>set is. \<not> df (m_ahItems (tm_node m a) ! i) < 0 - inc)" by auto
      have "visit_near pfVisit df inc (i # is) a c m = visit_near pfVisit df inc is a c' m"
        using near r i u True by (simp add: near_def Let_def)
      then show ?thesis using near all r True nf by (intro exI [of _ all]) simp
    qed
  next
    case far
    have "\<not> near df inc (m_ahItems (tm_node m a) ! j)" if "j \<in> set (i # is)" for j
      using Cons.prems(2) far that by (auto simp: near_def)
    then have "filter (near df inc) (map (\<lambda>i. m_ahItems (tm_node m a) ! i) (i # is)) = []"
      by (auto simp: filter_empty_conv)
    moreover have "\<not> near df inc ?x" using far by (simp add: near_def)
    ultimately show ?thesis using far i by (intro exI [of _ "\<lambda>_. False"]) simp
  next
    case skip
    from Cons.IH [of c] Cons.prems obtain all where all: "visit_near pfVisit df inc is a c m =
        (case visit_list pfVisit (filter (near df inc) (map (\<lambda>i. m_ahItems (tm_node m a) ! i) is)) c of
           (iRet, c') \<Rightarrow> Some ((iRet, c', m), all iRet))"
      "all 0 \<longleftrightarrow> (\<forall>i\<in>set is. \<not> df (m_ahItems (tm_node m a) ! i) < 0 - inc)" by auto
    have "visit_near pfVisit df inc (i # is) a c m = visit_near pfVisit df inc is a c m"
      using skip i by (simp add: near_def)
    then show ?thesis using skip all by (intro exI [of _ all]) simp
  qed
qed (intro exI [of _ "\<lambda>_. True"], simp)

text \<open>The distance falls along the keys.\<close>

definition distance_falls :: "('k::linorder \<Rightarrow> handle \<Rightarrow> int) \<Rightarrow> (handle \<Rightarrow> 'k) \<Rightarrow> bool" where
  "distance_falls pfComp Key \<longleftrightarrow> (\<forall>k x y. Key x \<le> Key y \<longrightarrow> iDiff pfComp k y \<le> iDiff pfComp k x)"

lemma near_right:
  assumes "sorted_wrt (\<lambda>x y. df y \<le> df x) (xs @ ys)" "z \<in> set xs" "df z < 0 - inc"
  shows "filter (near df inc) ys = []"
  using assms by (fastforce simp: filter_empty_conv near_def sorted_wrt_append)

lemma Node_TraverseForwardNear_ran:
  assumes v: "keeps_item pfVisit" and ko: "key_order pfComp Key" and d: "distance_falls pfComp Key"
    and "tt (tm_node m) t" "strict Key (inorder t)" "t \<noteq> TLeaf"
  shows "Node_TraverseForwardNear pfComp k inc pfVisit (root t) c m
      = ran pfVisit (filter (near (iDiff pfComp k) inc) (inorder t)) c m"
  using assms(4-)
proof (induction t arbitrary: c)
  case (TNode a l b xs r)
  let ?df = "iDiff pfComp k" and ?n = "tm_node m a"
  let ?near = "filter (near ?df inc)"
  note sub = tt_sub [OF TNode.prems(1)]
  have st: "strict Key (inorder l @ xs @ inorder r)" using TNode.prems by simp
  then have s: "strict Key (inorder l)" "strict Key (inorder r)" by (auto simp: strict_append)
  note nk = node_keys [OF sub(4) st] and len = node_items_len [OF sub(4)] and cnt = node_items_ends(3) [OF sub(4)]
  have fall: "sorted_wrt (\<lambda>x y. ?df y \<le> ?df x) (inorder l @ xs @ inorder r)"
    using st unfolding strict_def by (rule sorted_wrt_mono_rel [rotated]) (use d in \<open>auto simp: distance_falls_def\<close>)
  have ml: "map (\<lambda>i. m_ahItems ?n ! i) [0..<length xs] = xs" using slots_items [OF sub(4), of True] cnt by simp
  have L: "(if l \<noteq> TLeaf \<and> ?df (first_of ?n) < 0 then Node_TraverseForwardNear pfComp k inc pfVisit (root l) c m else Some (0, c, m))
      = ran pfVisit (?near (inorder l)) c m" for c
  proof (cases "?df (first_of ?n) < 0")
    case True
    then show ?thesis using TNode.IH(1) [OF sub(1) s(1)] by auto
  next
    case False
    then have "?near (inorder l) = []" using nk(1) by (fastforce simp: filter_empty_conv near_def key_orderD [OF ko])
    then show ?thesis using False by simp
  qed
  have R: "(if r \<noteq> TLeaf then Node_TraverseForwardNear pfComp k inc pfVisit (root r) c m else Some (0, c, m))
      = ran pfVisit (?near (inorder r)) c m" for c
    using TNode.IH(2) [OF sub(2) s(2)] by auto
  have I: "\<exists>all. (if ?df (last_of ?n) \<le> 0 then visit_near pfVisit ?df inc [0..<m_ushNItems ?n] a c m else Some ((0, c, m), True))
      = (case visit_list pfVisit (?near xs) c of (iRet, c') \<Rightarrow> Some ((iRet, c', m), all iRet))
      \<and> (\<not> all 0 \<longrightarrow> ?near (inorder r) = [])" for c
  proof (cases "?df (last_of ?n) \<le> 0")
    case True
    have "\<forall>i\<in>set [0..<length xs]. i < length (m_ahItems ?n)" using sub(4) len by (auto simp: node_items_def)
    moreover have "sorted_wrt (\<lambda>i j. ?df (m_ahItems ?n ! j) \<le> ?df (m_ahItems ?n ! i)) [0..<length xs]"
    proof -
      have "sorted_wrt (\<lambda>x y. ?df y \<le> ?df x) (map (\<lambda>i. m_ahItems ?n ! i) [0..<length xs])"
        using fall unfolding ml by (simp add: sorted_wrt_append)
      then show ?thesis by (simp add: sorted_wrt_map)
    qed
    ultimately obtain all where all: "visit_near pfVisit ?df inc [0..<length xs] a c m =
        (case visit_list pfVisit (?near xs) c of (iRet, c') \<Rightarrow> Some ((iRet, c', m), all iRet))"
      "all 0 \<longleftrightarrow> (\<forall>i\<in>set [0..<length xs]. \<not> ?df (m_ahItems ?n ! i) < 0 - inc)"
      using visit_near_ran [OF v, of "[0..<length xs]" m a ?df inc c] unfolding ml by blast
    have "?near (inorder r) = []" if "\<not> all 0"
    proof -
      from that all(2) obtain i where "i < length xs" "?df (xs ! i) < 0 - inc" by (auto simp: node_items_nth [OF sub(4)])
      then show ?thesis using near_right [of ?df xs "inorder r" "xs ! i"] fall by (simp add: sorted_wrt_append)
    qed
    with all(1) True show ?thesis by (intro exI [of _ all]) (simp add: cnt)
  next
    case False
    then have "?near xs = []" using nk(3) by (fastforce simp: filter_empty_conv near_def key_orderD [OF ko])
    then show ?thesis using False by (intro exI [of _ "\<lambda>_. True"]) simp
  qed
  let ?rest = "\<lambda>c m. do {
      n \<leftarrow> node_at a m;
      ((iRet, c, m), all_seen) \<leftarrow>
        (if ?df (last_of n) \<le> 0 then visit_near pfVisit ?df inc [0..<m_ushNItems n] a c m else Some ((0, c, m), True));
      if iRet \<noteq> 0 then Some (iRet, c, m)
      else do {
        n \<leftarrow> node_at a m;
        if all_seen \<and> m_hRight n \<noteq> INVALID_HANDLE
        then Node_TraverseForwardNear pfComp k inc pfVisit (m_hRight n) c m else Some (0, c, m) } }"
  have rest: "?rest c m = ran pfVisit (?near (xs @ inorder r)) c m" for c
  proof -
    obtain all where all: "(if ?df (last_of ?n) \<le> 0 then visit_near pfVisit ?df inc [0..<m_ushNItems ?n] a c m else Some ((0, c, m), True))
        = (case visit_list pfVisit (?near xs) c of (iRet, c') \<Rightarrow> Some ((iRet, c', m), all iRet))"
      "\<not> all 0 \<longrightarrow> ?near (inorder r) = []" using I by blast
    obtain r0 c' where rc: "visit_list pfVisit (?near xs) c = (r0, c')" by (cases "visit_list pfVisit (?near xs) c")
    have "ran pfVisit (?near (xs @ inorder r)) c m = visit_then (ran pfVisit (?near xs) c m) (\<lambda>c m. ran pfVisit (?near (inorder r)) c m)"
      by (simp add: ran_append)
    also have "\<dots> = (if r0 \<noteq> 0 then Some (r0, c', m) else ran pfVisit (?near (inorder r)) c' m)"
      by (simp add: ran_def rc visit_then_def)
    also have "\<dots> = ?rest c m"
      using all rc sub(5,7,9) R [of c'] by (cases "all 0") auto
    finally show ?thesis ..
  qed
  have "Node_TraverseForwardNear pfComp k inc pfVisit a c m = visit_then (ran pfVisit (?near (inorder l)) c m) ?rest"
    using sub(5-8) by (subst Node_TraverseForwardNear.simps) (simp add: L cong: if_cong)
  also have "\<dots> = ran pfVisit (?near (inorder l) @ ?near (xs @ inorder r)) c m"
    by (rule ran_append) (rule rest)
  finally show ?case by simp
qed simp

end
