(* ===== verification/T_Tree_Correct.thy ===== *)
theory T_Tree_Correct
  imports T_Tree_Delete T_Tree_Visit Bin_Malloc_Correct
begin

text \<open>
  The T-tree over the allocator of \<open>Bin_Malloc\<close>: the interface \<open>tree_alloc\<close> is interpreted on the
  allocator's operations, and the correctness of the operations of \<open>CTtree\<close> is stated over
  them.  The witnesses use \<open>ex_tree\<close>, a tree with one record in the segment \<open>ex_seg\<close>.
\<close>

section \<open>The allocator under the tree\<close>

definition BM_ops :: "CBinMalloc CMallocator" where
  "BM_ops = \<lparr>op_Malloc = BM_Malloc, op_Free = BM_Free, op_AskForDestroySize = (\<lambda>h st. AskForDestroySize st h)\<rparr>"

lemma BM_blocks_unique:
  assumes "BM_ok st" "(h, k) \<in> BM_blocks st" "(h, k') \<in> BM_blocks st"
  shows "k = k'"
proof -
  obtain bs where inv: "BM_inv st bs" using assms(1) by (auto simp: BM_ok_def)
  note hi = BM_inv_heap [OF inv]
  have s: "seg st (hBottom st) bs (hTop st)" using hi by (simp add: heap_inv_def seg_inv_def)
  from assms(2,3) BM_blocks_eq [OF hi] obtain p n m where p: "(p, n, True) \<in> set bs" "k = n - 8"
    and q: "(p, m, True) \<in> set bs" "k' = m - 8" by (auto simp: live_def chunk2mem_def)
  have "n = m" using seg_addr_inj [OF s p(1) q(1)] by simp
  with p q show ?thesis by simp
qed

interpretation tr: tree_alloc BM_Malloc BM_Free BM_ok BM_blocks BM_ops
  by unfold_locales (auto simp: BM_ops_def intro: BM_blocks_unique)

definition tree_ok :: "(handle \<Rightarrow> 'k::linorder) \<Rightarrow> CBinMalloc CTtree \<Rightarrow> ttree \<Rightarrow> bool" where
  "tree_ok Key T t \<longleftrightarrow> m_hRoot T = root t \<and> tree_in BM_ok BM_blocks Key (m_stMalloc T) t"

definition live_handles :: "CBinMalloc CTtree \<Rightarrow> handle set" where
  "live_handles T = fst ` BM_blocks (tm_alloc (m_stMalloc T))"

lemma tree_okD:
  assumes "tree_ok Key T t"
  shows "m_hRoot T = root t" "tree_in BM_ok BM_blocks Key (m_stMalloc T) t" "tt (tm_node (m_stMalloc T)) t"
    "strict Key (inorder t)" "m_hRoot T = INVALID_HANDLE \<longleftrightarrow> t = TLeaf" "BM_ok (tm_alloc (m_stMalloc T))"
  using assms tt_root by (auto simp: tree_ok_def tree_in_def)

lemma strict_remove:
  assumes "strict Key xs" "strict Key ys" "x \<in> set xs" "set ys = set xs - {x}"
  shows "ys = filter (\<lambda>y. Key y \<noteq> Key x) xs"
proof (rule strict_unique [of Key])
  show "strict Key (filter (\<lambda>y. Key y \<noteq> Key x) xs)" using assms(1) by (simp add: strict_def sorted_wrt_filter)
  show "set ys = set (filter (\<lambda>y. Key y \<noteq> Key x) xs)"
    using assms(3,4) strict_inj [OF assms(1)] by (auto dest: inj_onD)
qed (rule assms)

section \<open>Insertion and deletion\<close>

lemma Tree_Insert_steps:
  assumes ko: "key_order pfComp Key" and T: "tree_ok Key T t"
  shows "\<exists>rc T'. Tree_Insert BM_ops pfComp Key (Key x) x T = Some (rc, T')
    \<and> (if Key x \<in> Key ` set (inorder t) then rc = EC_KEY_EXIST \<and> T' = T
       else rc = EC_NO_MEM \<and> tree_ok Key T' t \<and> live_handles T' = live_handles T
          \<or> rc = 0 \<and> (\<exists>t'. tree_ok Key T' t' \<and> inorder t' = insort_key Key x (inorder t)
                        \<and> live_handles T' = live_handles T \<union> set (nodes t')))"
proof (cases "t = TLeaf")
  case True
  note d = tree_okD [OF T]
  consider (fail) m' where "Node_Alloc BM_ops x (m_stMalloc T) = Some (INVALID_HANDLE, m')" "tm_node m' = tm_node (m_stMalloc T)"
      "BM_ok (tm_alloc m')" "BM_blocks (tm_alloc m') = BM_blocks (tm_alloc (m_stMalloc T))"
    | (new) h m' where "Node_Alloc BM_ops x (m_stMalloc T) = Some (h, m')" "h \<noteq> INVALID_HANDLE"
      "grown BM_ok BM_blocks Key (m_stMalloc T) TLeaf x 1 m' (TNode h TLeaf 0 [x] TLeaf)"
    by (rule tr.Node_Alloc_cases [OF d(6), where x = x and Key = Key]) blast+
  then show ?thesis
  proof cases
    case fail
    then show ?thesis using True d(1,2)
      by (simp add: Tree_Insert_def tree_ok_def tree_in_def live_handles_def)
  next
    case new
    then have "tree_ok Key (T\<lparr>m_hRoot := h, m_stMalloc := m'\<rparr>) (TNode h TLeaf 0 [x] TLeaf)"
      "live_handles (T\<lparr>m_hRoot := h, m_stMalloc := m'\<rparr>) = live_handles T \<union> {h}"
      by (auto simp: grown_def tree_ok_def live_handles_def)
    then show ?thesis using True d(1) new(1,2) by (auto simp: Tree_Insert_def)
  qed
next
  case False
  note d = tree_okD [OF T]
  from tr.Node_Insert_result [OF ko d(2) False, of x] obtain iRet h m' where
    r: "Node_Insert BM_ops pfComp Key (root t) (Key x) x (m_stMalloc T) = Some (iRet, h, m')" and
    c: "iRet = -2 \<and> h = root t \<and> m' = m_stMalloc T \<and> Key x \<in> Key ` set (inorder t)
       \<or> iRet = -1 \<and> h = root t \<and> tm_node m' = tm_node (m_stMalloc T) \<and> BM_ok (tm_alloc m')
           \<and> BM_blocks (tm_alloc m') = BM_blocks (tm_alloc (m_stMalloc T)) \<and> Key x \<notin> Key ` set (inorder t)
       \<or> (\<exists>t'. h = root t' \<and> grown BM_ok BM_blocks Key (m_stMalloc T) t x iRet m' t' \<and> Key x \<notin> Key ` set (inorder t))"
    unfolding insert_result_def by blast
  have e: "Tree_Insert BM_ops pfComp Key (Key x) x T = (let t1 = T\<lparr>m_stMalloc := m'\<rparr> in
      if iRet = -2 then Some (EC_KEY_EXIST, t1) else if iRet = -1 then Some (EC_NO_MEM, t1)
      else if iRet < 0 then Some (-1, t1) else Some (0, t1\<lparr>m_hRoot := h\<rparr>))"
    using False d(1,5) r by (simp add: Tree_Insert_def Let_def)
  from c show ?thesis
  proof (elim disjE exE)
    fix t'
    assume g: "h = root t' \<and> grown BM_ok BM_blocks Key (m_stMalloc T) t x iRet m' t' \<and> Key x \<notin> Key ` set (inorder t)"
    then have k: "Key x \<notin> Key ` set (inorder t)" and i: "iRet = 0 \<or> iRet = 1"
      and t': "tree_in BM_ok BM_blocks Key m' t'" "set (inorder t') = insert x (set (inorder t))"
        "fst ` BM_blocks (tm_alloc m') = fst ` BM_blocks (tm_alloc (m_stMalloc T)) \<union> set (nodes t')" by (auto simp: grown_def)
    have "inorder t' = insort_key Key x (inorder t)"
      by (rule strict_insort [OF d(4) _ t'(2) k]) (use t'(1) in \<open>simp add: tree_in_def\<close>)
    then show ?thesis using k i e g t'(1,3) by (auto simp: Let_def tree_ok_def live_handles_def)
  qed (use e d(1,2) in \<open>auto simp: Let_def tree_ok_def tree_in_def live_handles_def\<close>)
qed

lemma Tree_Delete_steps:
  assumes ko: "key_order pfComp Key" and T: "tree_ok Key T t"
  shows "\<exists>rc T'. Tree_Delete BM_ops pfComp Key k T = Some (rc, T')
    \<and> (if k \<in> Key ` set (inorder t)
       then rc = 0 \<and> (\<exists>t'. tree_ok Key T' t' \<and> inorder t' = filter (\<lambda>y. Key y \<noteq> k) (inorder t)
              \<and> set (nodes t') \<subseteq> set (nodes t) \<and> live_handles T' = live_handles T - (set (nodes t) - set (nodes t')))
       else rc = (if t = TLeaf then 0 else -1) \<and> T' = T)"
proof (cases "t = TLeaf")
  case True
  then show ?thesis using tree_okD(1) [OF T] by (simp add: Tree_Delete_def)
next
  case False
  note d = tree_okD [OF T]
  from tr.Node_Delete_result [OF ko d(2) False, of k] obtain iRet h m' where
    r: "Node_Delete BM_ops pfComp Key (root t) k (m_stMalloc T) = Some (iRet, h, m')" and
    c: "iRet = -1 \<and> h = root t \<and> m' = m_stMalloc T \<and> k \<notin> Key ` set (inorder t)
       \<or> (\<exists>x t'. x \<in> set (inorder t) \<and> Key x = k \<and> h = root t' \<and> shrunk BM_ok BM_blocks Key (m_stMalloc T) t x iRet m' t')"
    unfolding delete_result_def by blast
  have e: "Tree_Delete BM_ops pfComp Key k T = (let t1 = T\<lparr>m_stMalloc := m'\<rparr> in
      if iRet < -1 then Some (-1, t1) else if iRet = -1 then Some (-1, t1) else Some (0, t1\<lparr>m_hRoot := h\<rparr>))"
    using False d(1,5) r by (simp add: Tree_Delete_def Let_def)
  from c show ?thesis
  proof (elim disjE exE)
    fix x t'
    assume g: "x \<in> set (inorder t) \<and> Key x = k \<and> h = root t' \<and> shrunk BM_ok BM_blocks Key (m_stMalloc T) t x iRet m' t'"
    then have k: "x \<in> set (inorder t)" "Key x = k" and i: "iRet = 0 \<or> iRet = 1"
      and t': "tree_in BM_ok BM_blocks Key m' t'" "set (inorder t') = set (inorder t) - {x}" "set (nodes t') \<subseteq> set (nodes t)"
        "fst ` BM_blocks (tm_alloc m') = fst ` BM_blocks (tm_alloc (m_stMalloc T)) - (set (nodes t) - set (nodes t'))"
      by (auto simp: shrunk_def lowered_def)
    have "inorder t' = filter (\<lambda>y. Key y \<noteq> k) (inorder t)"
      using strict_remove [OF d(4) _ k(1) t'(2)] t'(1) k(2) by (simp add: tree_in_def)
    moreover have "k \<in> Key ` set (inorder t)" using k by blast
    ultimately show ?thesis using i e g t'(1,3,4) by (auto simp: Let_def tree_ok_def live_handles_def)
  qed (use e d(1) False in \<open>auto simp: Let_def\<close>)
qed

section \<open>A tree to evaluate on\<close>

text \<open>The record with handle \<open>h\<close> has the key \<open>h\<close>; the comparison gives a sign.\<close>

definition ex_Comp :: "int \<Rightarrow> handle \<Rightarrow> int" where
  "ex_Comp k h = sgn (k - int h)"

lemma ex_order: "key_order ex_Comp int"
  unfolding key_order_def iDiff_def ex_Comp_def by (auto simp: sgn_if)

definition ex_empty :: "CBinMalloc CTtree" where
  "ex_empty = CTtree_new \<lparr>tm_alloc = ex_seg, tm_node = (\<lambda>_. Node_Init)\<rparr>"

definition ex_tree :: "CBinMalloc CTtree" where
  "ex_tree = snd (the (Tree_Insert BM_ops ex_Comp int 8 8 ex_empty))"

lemma ex_empty_ok: "tree_ok Key ex_empty TLeaf"
  using ex_seg_inv by (auto simp: tree_ok_def ex_empty_def CTtree_new_def tree_in_def BM_ok_def)

lemma ex_node_block: "\<exists>h st. BM_Malloc sizeof_CTtreeNode ex_seg = Some (h, st) \<and> h \<noteq> INVALID_HANDLE"
proof (cases rule: BM_Malloc_inv [OF ex_seg_inv, of sizeof_CTtreeNode])
  case (1 st')
  have "hTop st' = hBottom ex_seg" "hTop ex_seg = hBottom ex_seg"
    using 1 ex_seg_inv by (simp_all add: BM_inv_def heap_inv_def seg_inv_def)
  with 1 ex_seg_top ex_seg_size show ?thesis
    by (simp add: REQUEST_OUT_OF_RANGE_def request2size_def MINSIZE_def MALLOC_ALIGN_MASK_def mask8_def
        sizeof_CTtreeNode_def PAGE_SIZE_def)
next
  case (2 p n st' bs')
  then show ?thesis by (auto simp: chunk2mem_def INVALID_HANDLE_def)
qed

lemma ex_tree_ok: "\<exists>t. tree_ok int ex_tree t \<and> inorder t = [8]"
  and ex_tree_insert: "Tree_Insert BM_ops ex_Comp int 8 8 ex_empty = Some (0, ex_tree)"
proof -
  obtain h m' where h: "Node_Alloc BM_ops 8 (m_stMalloc ex_empty) = Some (h, m')" "h \<noteq> INVALID_HANDLE"
    using ex_node_block by (auto simp: Node_Alloc_def BM_ops_def ex_empty_def CTtree_new_def)
  have r: "m_hRoot ex_empty = INVALID_HANDLE" by (simp add: ex_empty_def CTtree_new_def)
  have e: "Tree_Insert BM_ops ex_Comp int 8 8 ex_empty = Some (0, ex_empty\<lparr>m_hRoot := h, m_stMalloc := m'\<rparr>)"
    using h r by (simp add: Tree_Insert_def)
  then show i: "Tree_Insert BM_ops ex_Comp int 8 8 ex_empty = Some (0, ex_tree)" by (simp add: ex_tree_def)
  show "\<exists>t. tree_ok int ex_tree t \<and> inorder t = [8]"
    using Tree_Insert_steps [OF ex_order ex_empty_ok, of 8] i
    by (auto simp: EC_NO_MEM_def)
qed

lemma ex_tree_root: "\<exists>t a. t = TNode a TLeaf 0 [8] TLeaf \<and> tree_ok int ex_tree t"
proof -
  obtain t where t: "tree_ok int ex_tree t" "inorder t = [8]" using ex_tree_ok by blast
  then obtain a l b xs r where n: "t = TNode a l b xs r" by (cases t) auto
  have leaf: "u = TLeaf" if "inorder u = []" "tt f u" for u f
    using that by (cases u) (auto simp: node_items_def)
  have "xs \<noteq> []" using tt_sub(3) tree_okD(3) [OF t(1)] n by blast
  with t(2) n have "inorder l = []" "xs = [8]" "inorder r = []" by (auto simp: append_eq_Cons_conv)
  moreover have "tt (tm_node (m_stMalloc ex_tree)) l" "tt (tm_node (m_stMalloc ex_tree)) r"
    using tree_okD(3) [OF t(1)] n by auto
  ultimately have "l = TLeaf" "r = TLeaf" "xs = [8]" using leaf by auto
  moreover have "b = 0" using t(1) n calculation by (simp add: tree_ok_def tree_in_def)
  ultimately show ?thesis using t(1) n by blast
qed

section \<open>The map from keys to records\<close>

lemma Tree_Find_lookup:
  assumes "key_order pfComp Key" "tree_ok Key T t"
  shows "x \<in> set (inorder t) \<Longrightarrow> Tree_Find pfComp (Key x) T = Some (1, x)"
    and "k \<notin> Key ` set (inorder t) \<Longrightarrow> Tree_Find pfComp k T = Some (0, INVALID_HANDLE)"
  using Node_Find_lookup [OF assms(1) tree_okD(3,4) [OF assms(2)]] tree_okD(1,5) [OF assms(2)]
  by (cases "t = TLeaf"; simp add: Tree_Find_def)+

text \<open>What \<open>Find\<close> answers, as a map, and the trees that insertions and deletions build.\<close>

definition tree_map :: "('k \<Rightarrow> handle \<Rightarrow> int) \<Rightarrow> CBinMalloc CTtree \<Rightarrow> 'k \<rightharpoonup> handle" where
  "tree_map pfComp T k = (case Tree_Find pfComp k T of Some (iRet, x) \<Rightarrow> if iRet = 1 then Some x else None | None \<Rightarrow> None)"

inductive tree_reach :: "('k \<Rightarrow> handle \<Rightarrow> int) \<Rightarrow> (handle \<Rightarrow> 'k) \<Rightarrow> CBinMalloc CTtree \<Rightarrow> bool"
  for pfComp :: "'k \<Rightarrow> handle \<Rightarrow> int" and Key :: "handle \<Rightarrow> 'k" where
  reach_new: "BM_reach (tm_alloc m) \<Longrightarrow> tree_reach pfComp Key (CTtree_new m)"
| reach_insert: "tree_reach pfComp Key T \<Longrightarrow> Tree_Insert BM_ops pfComp Key (Key x) x T = Some (rc, T') \<Longrightarrow> tree_reach pfComp Key T'"
| reach_delete: "tree_reach pfComp Key T \<Longrightarrow> Tree_Delete BM_ops pfComp Key k T = Some (rc, T') \<Longrightarrow> tree_reach pfComp Key T'"

lemma tree_reach_ok:
  assumes ko: "key_order pfComp Key" and "tree_reach pfComp Key T"
  shows "\<exists>t. tree_ok Key T t"
  using assms(2)
proof induction
  case (reach_new m)
  then have "BM_ok (tm_alloc m)" by (rule BM_reach_ok)
  then show ?case by (intro exI [of _ TLeaf]) (simp add: tree_ok_def CTtree_new_def tree_in_def)
next
  case (reach_insert T x rc T')
  then obtain t where "tree_ok Key T t" by blast
  from Tree_Insert_steps [OF ko this, of x] reach_insert(2) \<open>tree_ok Key T t\<close> show ?case by (auto split: if_splits)
next
  case (reach_delete T k rc T')
  then obtain t where "tree_ok Key T t" by blast
  from Tree_Delete_steps [OF ko this, of k] reach_delete(2) \<open>tree_ok Key T t\<close> show ?case by (auto split: if_splits)
qed

lemma tree_map_eq:
  assumes "key_order pfComp Key" "tree_ok Key T t"
  shows "tree_map pfComp T k = Some x \<longleftrightarrow> x \<in> set (inorder t) \<and> Key x = k"
    and "tree_map pfComp T k = None \<longleftrightarrow> k \<notin> Key ` set (inorder t)"
proof -
  have hit: "tree_map pfComp T (Key y) = Some y" if "y \<in> set (inorder t)" for y
    using Tree_Find_lookup(1) [OF assms that] by (simp add: tree_map_def)
  have miss: "tree_map pfComp T k = None" if "k \<notin> Key ` set (inorder t)"
    using Tree_Find_lookup(2) [OF assms that] by (simp add: tree_map_def)
  show "tree_map pfComp T k = None \<longleftrightarrow> k \<notin> Key ` set (inorder t)"
    using hit miss by (metis imageE option.distinct(1))
  show "tree_map pfComp T k = Some x \<longleftrightarrow> x \<in> set (inorder t) \<and> Key x = k"
    using hit miss by (metis imageE option.distinct(1) option.inject)
qed

lemma tree_map_dom:
  "key_order pfComp Key \<Longrightarrow> tree_ok Key T t \<Longrightarrow> k \<in> dom (tree_map pfComp T) \<longleftrightarrow> k \<in> Key ` set (inorder t)"
  by (simp add: domIff tree_map_eq(2))

lemma tree_map_insert:
  assumes ko: "key_order pfComp Key" and T: "tree_ok Key T t" "tree_ok Key T' t'" and x: "Key x \<notin> Key ` set (inorder t)"
    and i: "inorder t' = insort_key Key x (inorder t)"
  shows "tree_map pfComp T' = (tree_map pfComp T)(Key x \<mapsto> x)"
proof
  fix k
  show "tree_map pfComp T' k = ((tree_map pfComp T)(Key x \<mapsto> x)) k"
  proof (cases "tree_map pfComp T' k")
    case None
    then show ?thesis using tree_map_eq(2) [OF ko T(2), of k] tree_map_eq(2) [OF ko T(1), of k] i by (auto simp: set_insort_key)
  next
    case (Some y)
    then have "y = x \<or> y \<in> set (inorder t)" "Key y = k" using tree_map_eq(1) [OF ko T(2), of k y] i by (auto simp: set_insort_key)
    moreover have "Key y \<noteq> Key x" if "y \<in> set (inorder t)" using x that by (metis imageI)
    ultimately show ?thesis using Some tree_map_eq(1) [OF ko T(1), of k y] by auto
  qed
qed

lemma tree_map_delete:
  assumes ko: "key_order pfComp Key" and T: "tree_ok Key T t" "tree_ok Key T' t'"
    and i: "inorder t' = filter (\<lambda>y. Key y \<noteq> k) (inorder t)"
  shows "tree_map pfComp T' = (tree_map pfComp T)(k := None)"
proof
  fix j
  show "tree_map pfComp T' j = ((tree_map pfComp T)(k := None)) j"
  proof (cases "tree_map pfComp T' j")
    case None
    then show ?thesis using tree_map_eq(2) [OF ko T(2), of j] tree_map_eq(2) [OF ko T(1), of j] i by auto
  next
    case (Some x)
    then show ?thesis using tree_map_eq(1) [OF ko T(2), of j x] tree_map_eq(1) [OF ko T(1), of j x] i by auto
  qed
qed

section \<open>Traversals, height, destruction\<close>

text \<open>A balanced tree is low.\<close>

lemma height_nodes: "avl t \<Longrightarrow> 2 ^ (height t div 2) \<le> length (nodes t) + 1"
proof (induction "height t" arbitrary: t rule: less_induct)
  case less
  show ?case
  proof (cases t)
    case (TNode a l b xs r)
    then have lr: "avl l" "avl r" "height l \<le> height r + 1" "height r \<le> height l + 1" using less.prems by auto
    have "2 ^ (height l div 2) \<le> length (nodes l) + 1" "2 ^ (height r div 2) \<le> length (nodes r) + 1"
      using less.hyps lr TNode by auto
    moreover have "2 ^ (height t div 2) \<le> (2::nat) ^ (height l div 2) + 2 ^ (height r div 2)"
    proof (cases "height t div 2")
      case (Suc k)
      then have "k \<le> height l div 2" "k \<le> height r div 2" using lr(3,4) TNode by (auto simp: max_def split: if_splits)
      then have "(2::nat) ^ k \<le> 2 ^ (height l div 2)" "(2::nat) ^ k \<le> 2 ^ (height r div 2)" by (simp_all add: power_increasing)
      then show ?thesis unfolding Suc power_Suc by linarith
    next
      case 0
      have "0 < (2::nat) ^ (height l div 2)" by simp
      then show ?thesis unfolding 0 power_0 by linarith
    qed
    ultimately show ?thesis using TNode by simp
  qed simp
qed

lemma from_root_ran:
  assumes "tree_ok Key T t" "inorder t = [] \<longrightarrow> xs = []"
    and "t \<noteq> TLeaf \<Longrightarrow> f (root t) c (m_stMalloc T) = ran pfVisit xs c (m_stMalloc T)"
  shows "from_root f c T = ran pfVisit xs c (m_stMalloc T)"
  using assms tree_okD(1,5) [OF assms(1)] by (cases "t = TLeaf") (auto simp: from_root_def)

lemma range_traversals:
  assumes "key_order pfComp Key" "tree_ok Key T t" "keeps_item pfVisit"
  shows "Tree_TraverseForwardRange pfComp k k1 pfVisit c T
      = ran pfVisit (filter (\<lambda>x. k \<le> Key x \<and> Key x \<le> k1) (inorder t)) c (m_stMalloc T)"
    and "Tree_TraverseBackwardRange pfComp k k1 pfVisit c T
      = ran pfVisit (rev (filter (\<lambda>x. k \<le> Key x \<and> Key x \<le> k1) (inorder t))) c (m_stMalloc T)"
    and "Tree_TraverseBackwardLE pfComp k pfVisit c T
      = ran pfVisit (rev (filter (\<lambda>x. Key x \<le> k) (inorder t))) c (m_stMalloc T)"
proof -
  note d = tree_okD(3,4) [OF assms(2)]
  show "Tree_TraverseForwardRange pfComp k k1 pfVisit c T
      = ran pfVisit (filter (\<lambda>x. k \<le> Key x \<and> Key x \<le> k1) (inorder t)) c (m_stMalloc T)"
    unfolding Tree_TraverseForwardRange_def Node_TraverseForwardRange_def
    by (rule from_root_ran [OF assms(2)], simp, subst traversed [OF assms(3) d(1)], simp,
        rule exact_between [OF assms(1) d]; simp add: tv_between_def whole_forward key_orderD [OF assms(1)])
  show "Tree_TraverseBackwardRange pfComp k k1 pfVisit c T
      = ran pfVisit (rev (filter (\<lambda>x. k \<le> Key x \<and> Key x \<le> k1) (inorder t))) c (m_stMalloc T)"
    unfolding Tree_TraverseBackwardRange_def Node_TraverseBackwardRange_def
    by (rule from_root_ran [OF assms(2)], simp, subst traversed [OF assms(3) d(1)], simp,
        rule exact_between [OF assms(1) d]; simp add: tv_between_def whole_backward rev_filter key_orderD [OF assms(1)])
  show "Tree_TraverseBackwardLE pfComp k pfVisit c T
      = ran pfVisit (rev (filter (\<lambda>x. Key x \<le> k) (inorder t))) c (m_stMalloc T)"
    unfolding Tree_TraverseBackwardLE_def Node_TraverseBackwardLE_def
    by (rule from_root_ran [OF assms(2)], simp, subst traversed [OF assms(3) d(1)], simp,
        rule exact_upto [OF assms(1) d]; simp add: tv_upto_def whole_backward rev_filter key_orderD [OF assms(1)])
qed

lemma near_traversal:
  assumes "key_order pfComp Key" "distance_falls pfComp Key" "tree_ok Key T t" "keeps_item pfVisit" "\<bar>inc\<bar> < 2 ^ 31"
  shows "Tree_TraverseForwardNear pfComp k inc pfVisit c T
    = ran pfVisit (filter (\<lambda>x. k \<le> Key x \<and> - iDiff pfComp k x \<le> inc) (inorder t)) c (m_stMalloc T)"
proof -
  note d = tree_okD(3,4) [OF assms(3)]
  have i: "signed_take_bit 31 inc = inc" using assms(5) by (intro signed_take_bit_int_eq_self) auto
  have n: "near (iDiff pfComp k) inc = (\<lambda>x. k \<le> Key x \<and> - iDiff pfComp k x \<le> inc)"
    by (auto simp: fun_eq_iff near_def key_orderD [OF assms(1)])
  show ?thesis unfolding Tree_TraverseForwardNear_def i
    by (rule from_root_ran [OF assms(3)], simp)
      (use Node_TraverseForwardNear_ran [OF assms(4,1,2) d] n in simp)
qed

lemma nodes_items:
  assumes "tt f t"
  shows "length (nodes t) \<le> length (inorder t)" "length (inorder t) \<le> PAGE_SIZE * length (nodes t)"
proof -
  have "length (nodes t) \<le> length (inorder t) \<and> length (inorder t) \<le> PAGE_SIZE * length (nodes t)" using assms
  proof (induction t)
    case (TNode a l b xs r)
    then have "0 < length xs \<and> length xs \<le> PAGE_SIZE" using node_items_len by auto
    moreover have "length (nodes l) \<le> length (inorder l) \<and> length (inorder l) \<le> PAGE_SIZE * length (nodes l)"
      "length (nodes r) \<le> length (inorder r) \<and> length (inorder r) \<le> PAGE_SIZE * length (nodes r)" using TNode by auto
    ultimately show ?case by (simp add: distrib_left del: length_greater_0_conv)
  qed simp
  then show "length (nodes t) \<le> length (inorder t)" "length (inorder t) \<le> PAGE_SIZE * length (nodes t)" by auto
qed

lemma strict_distinct: "strict Key xs \<Longrightarrow> distinct xs"
  by (induction xs) (auto simp: strict_Cons)

section \<open>Properties\<close>

text \<open>
  C16: \<open>CTtree::Insert\<close> on a well-formed tree always returns.  If a record with an equal key is
  there, it returns \<open>EC_KEY_EXIST\<close> and nothing changes; otherwise it either returns
  \<open>EC_NO_MEM\<close>, the tree and the live blocks being as before (an item that a full node had to
  give away is back in its place), or 0, the tree being well-formed again (balanced, each node
  a live block of its own, 1 to 20 items a node, keys strictly increasing), holding the old
  records with the new one at its place in key order.
\<close>

theorem Tree_Insert_correct:
  assumes "key_order pfComp Key" "tree_ok Key T t"
  shows "\<exists>rc T'. Tree_Insert BM_ops pfComp Key (Key x) x T = Some (rc, T')
    \<and> (if Key x \<in> Key ` set (inorder t) then rc = EC_KEY_EXIST \<and> T' = T
       else rc = EC_NO_MEM \<and> tree_ok Key T' t \<and> live_handles T' = live_handles T
          \<or> rc = 0 \<and> (\<exists>t'. tree_ok Key T' t' \<and> inorder t' = insort_key Key x (inorder t)
                        \<and> live_handles T' = live_handles T \<union> set (nodes t')))"
  by (rule Tree_Insert_steps [OF assms])

theorem Tree_Insert_correct_witness:
  "key_order ex_Comp int \<and> (\<exists>t. tree_ok int ex_tree t \<and>
     (\<exists>rc T'. Tree_Insert BM_ops ex_Comp int 5 5 ex_tree = Some (rc, T')
       \<and> (rc = EC_NO_MEM \<and> tree_ok int T' t
          \<or> rc = 0 \<and> (\<exists>t'. tree_ok int T' t' \<and> inorder t' = [5, 8]))))"
proof -
  obtain t where t: "tree_ok int ex_tree t" "inorder t = [8]" using ex_tree_ok by blast
  from Tree_Insert_correct [OF ex_order t(1), of 5] t ex_order show ?thesis by auto
qed

text \<open>
  C17: \<open>CTtree::Delete\<close> on a well-formed tree always returns.  A key that is in the tree is
  removed: the code is 0, the tree is well-formed and holds the other records in order, and
  exactly the nodes that left the tree were given back to the allocator.  A key that is not
  there changes nothing; the code is 0 on an empty tree and -1 otherwise.
\<close>

theorem Tree_Delete_correct:
  assumes "key_order pfComp Key" "tree_ok Key T t"
  shows "\<exists>rc T'. Tree_Delete BM_ops pfComp Key k T = Some (rc, T')
    \<and> (if k \<in> Key ` set (inorder t)
       then rc = 0 \<and> (\<exists>t'. tree_ok Key T' t' \<and> inorder t' = filter (\<lambda>y. Key y \<noteq> k) (inorder t)
              \<and> set (nodes t') \<subseteq> set (nodes t) \<and> live_handles T' = live_handles T - (set (nodes t) - set (nodes t')))
       else rc = (if t = TLeaf then 0 else -1) \<and> T' = T)"
  by (rule Tree_Delete_steps [OF assms])

theorem Tree_Delete_correct_witness:
  "key_order ex_Comp int \<and> (\<exists>t. tree_ok int ex_tree t \<and> inorder t = [8] \<and>
     (\<exists>T'. Tree_Delete BM_ops ex_Comp int 8 ex_tree = Some (0, T')
       \<and> (\<exists>t'. tree_ok int T' t' \<and> inorder t' = [] \<and> live_handles T' = live_handles ex_tree - (set (nodes t) - set (nodes t')))))"
proof -
  obtain t where t: "tree_ok int ex_tree t" "inorder t = [8]" using ex_tree_ok by blast
  from Tree_Delete_correct [OF ex_order t(1), of 8] t ex_order show ?thesis by (auto cong: conj_cong)
qed

text \<open>
  C18: the T-tree refines a finite map.  On every tree that insertions and deletions build from
  an empty one, whatever they returned on the way, \<open>Insert\<close> of a new key that returns 0 is
  the update of the map \<open>Find\<close> answers from, \<open>Insert\<close> of a present key and one without memory
  leave it as it is, and \<open>Delete\<close> removes the key.
\<close>

theorem Tree_refines_map:
  assumes "key_order pfComp Key" "tree_reach pfComp Key T"
  shows "(\<exists>rc T'. Tree_Insert BM_ops pfComp Key (Key x) x T = Some (rc, T') \<and> rc \<in> {0, EC_KEY_EXIST, EC_NO_MEM}
        \<and> (rc = EC_KEY_EXIST \<longleftrightarrow> Key x \<in> dom (tree_map pfComp T))
        \<and> tree_map pfComp T' = (if rc = 0 then (tree_map pfComp T)(Key x \<mapsto> x) else tree_map pfComp T))
    \<and> (\<exists>rc T'. Tree_Delete BM_ops pfComp Key k T = Some (rc, T') \<and> tree_map pfComp T' = (tree_map pfComp T)(k := None))"
proof -
  obtain t where t: "tree_ok Key T t" using tree_reach_ok [OF assms] by blast
  note dom = tree_map_dom [OF assms(1) t]
  have "\<exists>rc T'. Tree_Insert BM_ops pfComp Key (Key x) x T = Some (rc, T') \<and> rc \<in> {0, EC_KEY_EXIST, EC_NO_MEM}
        \<and> (rc = EC_KEY_EXIST \<longleftrightarrow> Key x \<in> dom (tree_map pfComp T))
        \<and> tree_map pfComp T' = (if rc = 0 then (tree_map pfComp T)(Key x \<mapsto> x) else tree_map pfComp T)"
  proof (cases "Key x \<in> Key ` set (inorder t)")
    case True
    then show ?thesis using Tree_Insert_steps [OF assms(1) t, of x] dom by (auto simp: EC_KEY_EXIST_def)
  next
    case False
    from Tree_Insert_steps [OF assms(1) t, of x] False obtain rc T' where
      r: "Tree_Insert BM_ops pfComp Key (Key x) x T = Some (rc, T')"
        "rc = EC_NO_MEM \<and> tree_ok Key T' t \<or> rc = 0 \<and> (\<exists>t'. tree_ok Key T' t' \<and> inorder t' = insort_key Key x (inorder t))" by auto
    from r(2) have "tree_map pfComp T' = (if rc = 0 then (tree_map pfComp T)(Key x \<mapsto> x) else tree_map pfComp T)"
    proof (elim disjE conjE exE)
      assume "rc = EC_NO_MEM" "tree_ok Key T' t"
      moreover then have "tree_map pfComp T' k = tree_map pfComp T k" for k
        using tree_map_eq [OF assms(1) t, of k] tree_map_eq [OF assms(1) \<open>tree_ok Key T' t\<close>, of k]
        by (cases "tree_map pfComp T k") auto
      ultimately show ?thesis by (auto simp: EC_NO_MEM_def)
    qed (use tree_map_insert [OF assms(1) t _ False] in auto)
    moreover have "rc \<noteq> EC_KEY_EXIST" "rc \<in> {0, EC_KEY_EXIST, EC_NO_MEM}" using r(2) by (auto simp: EC_NO_MEM_def EC_KEY_EXIST_def)
    ultimately show ?thesis using r(1) dom False by blast
  qed
  moreover have "\<exists>rc T'. Tree_Delete BM_ops pfComp Key k T = Some (rc, T') \<and> tree_map pfComp T' = (tree_map pfComp T)(k := None)"
  proof (cases "k \<in> Key ` set (inorder t)")
    case True
    then show ?thesis using Tree_Delete_steps [OF assms(1) t, of k] tree_map_delete [OF assms(1) t] by auto
  next
    case False
    then have "tree_map pfComp T = (tree_map pfComp T)(k := None)" using tree_map_eq(2) [OF assms(1) t] by auto
    then show ?thesis using Tree_Delete_steps [OF assms(1) t, of k] False by auto
  qed
  ultimately show ?thesis by blast
qed

theorem Tree_refines_map_witness:
  "key_order ex_Comp int \<and> tree_reach ex_Comp int ex_tree \<and>
    (\<exists>rc T'. Tree_Delete BM_ops ex_Comp int 8 ex_tree = Some (rc, T') \<and> tree_map ex_Comp T' = (tree_map ex_Comp ex_tree)(8 := None))"
proof -
  have "tree_reach ex_Comp int ex_empty"
    using reach_new [of "m_stMalloc ex_empty" ex_Comp int] ex_seg_reach by (simp add: ex_empty_def CTtree_new_def)
  then have "tree_reach ex_Comp int ex_tree" using reach_insert [of ex_Comp int ex_empty 8] ex_tree_insert by simp
  with Tree_refines_map [OF ex_order this, of 5 8] ex_order show ?thesis by blast
qed

text \<open>
  C19: the range traversals of a well-formed tree, for a visitor that keeps the handle it is
  given: \<open>TraverseForward\<close> over a range of keys calls the visitor on exactly the records with
  a key in the closed range, in key order, up to the first code other than 0, which it returns;
  \<open>TraverseBackward\<close> does so in the opposite order, over a range and up to a key; no part of
  the tree that holds a record in range is skipped and the tree is as before.
\<close>

theorem Tree_Traverse_range:
  assumes "key_order pfComp Key" "tree_ok Key T t" "keeps_item pfVisit"
  shows "Tree_TraverseForwardRange pfComp k k1 pfVisit c T
      = ran pfVisit (filter (\<lambda>x. k \<le> Key x \<and> Key x \<le> k1) (inorder t)) c (m_stMalloc T)
    \<and> Tree_TraverseBackwardRange pfComp k k1 pfVisit c T
      = ran pfVisit (rev (filter (\<lambda>x. k \<le> Key x \<and> Key x \<le> k1) (inorder t))) c (m_stMalloc T)
    \<and> Tree_TraverseBackwardLE pfComp k pfVisit c T
      = ran pfVisit (rev (filter (\<lambda>x. Key x \<le> k) (inorder t))) c (m_stMalloc T)"
  using range_traversals [OF assms] by blast

text \<open>A visitor that counts the records and stops at the third one.\<close>

theorem Tree_Traverse_range_witness:
  "key_order ex_Comp int \<and> (\<exists>t. tree_ok int ex_tree t) \<and> keeps_item (\<lambda>x c. (if c = 2 then 1 else 0, x, c + 1 :: nat))
    \<and> Tree_TraverseForwardRange ex_Comp 5 9 (\<lambda>x c. (if c = 2 then 1 else 0, x, c + 1 :: nat)) 0 ex_tree
      = Some (0, 1, m_stMalloc ex_tree)
    \<and> Tree_TraverseBackwardLE ex_Comp 7 (\<lambda>x c. (if c = 2 then 1 else 0, x, c + 1 :: nat)) 0 ex_tree
      = Some (0, 0, m_stMalloc ex_tree)"
proof -
  obtain t where t: "tree_ok int ex_tree t" "inorder t = [8]" using ex_tree_ok by blast
  have v: "keeps_item (\<lambda>x c. (if c = 2 then 1 else 0, x, c + 1 :: nat))" by (simp add: keeps_item_def)
  from Tree_Traverse_range [OF ex_order t(1) v, of 5 9 0] Tree_Traverse_range [OF ex_order t(1) v, of 7 9 0] t v ex_order
  show ?thesis by (auto simp: ran_def)
qed





text \<open>
  C23: the result of the comparison, an \<open>int64_t\<close>, is stored into an \<open>int\<close>.  A comparison that
  gives the difference of two keys makes \<open>Insert\<close> refuse a new key as present when the key
  differs from the first one of the root by a multiple of \<open>2 ^ 32\<close>.
\<close>

theorem Insert_truncated_comparison:
  assumes "tree_ok Key T (TNode a l b xs r)" "pfComp k (hd xs) = 2 ^ 32 * d"
  shows "Tree_Insert BM_ops pfComp Key k x T = Some (EC_KEY_EXIST, T)"
proof -
  note sub = tt_sub [OF tree_okD(3) [OF assms(1)]] and d = tree_okD(1) [OF assms(1)]
  have "signed_take_bit 31 (2 ^ 32 * d) = signed_take_bit 31 (take_bit 32 (2 ^ 32 * d))" by (simp add: signed_take_bit_take_bit)
  then have z: "iDiff pfComp k (hd xs) = 0" using assms(2) by (simp add: iDiff_def take_bit_eq_mod)
  have "Node_Insert BM_ops pfComp Key a k x (m_stMalloc T) = Some (-2, a, m_stMalloc T)"
    using sub(5) node_items_ends(1) [OF sub(4)] z by (subst Node_Insert.simps) simp
  then show ?thesis using d sub(5) by (simp add: Tree_Insert_def)
qed

theorem Insert_truncated_comparison_witness:
  "\<exists>a l b xs r. tree_ok int ex_tree (TNode a l b xs r) \<and> (2 ^ 32 + 8) - int (hd xs) = 2 ^ 32 * 1
     \<and> Tree_Insert BM_ops (\<lambda>k h. k - int h) int (2 ^ 32 + 8) (2 ^ 32 + 8) ex_tree = Some (EC_KEY_EXIST, ex_tree)"
proof -
  obtain a where a: "tree_ok int ex_tree (TNode a TLeaf 0 [8] TLeaf)" using ex_tree_root by blast
  have e: "(2 ^ 32 + 8) - int (hd [8]) = 2 ^ 32 * 1" by simp
  show ?thesis
    using a e Insert_truncated_comparison [OF a, of "\<lambda>k h. k - int h", OF e] by blast
qed



end
