(* ===== verification/List_Head.thy ===== *)
theory List_Head
  imports Cdll
begin

text \<open>
  The intrusive doubly linked lists of \<open>common/list.h\<close> (\<open>struct list_head\<close>, \<open>CListHead\<close>), on
  which the queues, timers and task lists of the server are built.  The memory is the pair of
  link fields at every address; the null pointer is address 0.  The header checks no pointer,
  so neither do the definitions: they write the fields of the addresses they are given.
\<close>

section \<open>Operations\<close>

record list_head =
  lh_next :: "nat \<Rightarrow> nat"
  lh_prev :: "nat \<Rightarrow> nat"

definition set_next :: "nat \<Rightarrow> nat \<Rightarrow> list_head \<Rightarrow> list_head" where
  "set_next a v s = s\<lparr>lh_next := (lh_next s)(a := v)\<rparr>"

definition set_prev :: "nat \<Rightarrow> nat \<Rightarrow> list_head \<Rightarrow> list_head" where
  "set_prev a v s = s\<lparr>lh_prev := (lh_prev s)(a := v)\<rparr>"

definition INIT_LIST_HEAD :: "nat \<Rightarrow> list_head \<Rightarrow> list_head" where
  "INIT_LIST_HEAD ptr s = set_prev ptr ptr (set_next ptr ptr s)"

definition list_add_between :: "nat \<Rightarrow> nat \<Rightarrow> nat \<Rightarrow> list_head \<Rightarrow> list_head" where
  "list_add_between p prv nxt s =
     set_next prv p (set_prev p prv (set_next p nxt (set_prev nxt p s)))"

definition list_add :: "nat \<Rightarrow> nat \<Rightarrow> list_head \<Rightarrow> list_head" where
  "list_add p head s = list_add_between p head (lh_next s head) s"

definition list_add_tail :: "nat \<Rightarrow> nat \<Rightarrow> list_head \<Rightarrow> list_head" where
  "list_add_tail p head s = list_add_between p (lh_prev s head) head s"

definition list_del_between :: "nat \<Rightarrow> nat \<Rightarrow> list_head \<Rightarrow> list_head" where
  "list_del_between prv nxt s = set_next prv nxt (set_prev nxt prv s)"

definition list_del :: "nat \<Rightarrow> list_head \<Rightarrow> list_head" where
  "list_del entry s =
     set_prev entry 0 (set_next entry 0 (list_del_between (lh_prev s entry) (lh_next s entry) s))"

definition list_del_init :: "nat \<Rightarrow> list_head \<Rightarrow> list_head" where
  "list_del_init entry s =
     INIT_LIST_HEAD entry (list_del_between (lh_prev s entry) (lh_next s entry) s)"

definition list_move :: "nat \<Rightarrow> nat \<Rightarrow> list_head \<Rightarrow> list_head" where
  "list_move e head s = list_add e head (list_del_between (lh_prev s e) (lh_next s e) s)"

definition list_move_tail :: "nat \<Rightarrow> nat \<Rightarrow> list_head \<Rightarrow> list_head" where
  "list_move_tail e head s = list_add_tail e head (list_del_between (lh_prev s e) (lh_next s e) s)"

definition list_empty :: "nat \<Rightarrow> list_head \<Rightarrow> bool" where
  "list_empty head s \<longleftrightarrow> lh_next s head = head"

definition list_splice_at :: "nat \<Rightarrow> nat \<Rightarrow> list_head \<Rightarrow> list_head" where
  "list_splice_at lst head s =
     (let first = lh_next s lst; lastp = lh_prev s lst; at = lh_next s head in
      set_prev at lastp (set_next lastp at (set_next head first (set_prev first head s))))"

definition list_splice :: "nat \<Rightarrow> nat \<Rightarrow> list_head \<Rightarrow> list_head" where
  "list_splice lst head s = (if \<not> list_empty lst s then list_splice_at lst head s else s)"

definition list_splice_init :: "nat \<Rightarrow> nat \<Rightarrow> list_head \<Rightarrow> list_head" where
  "list_splice_init lst head s =
     (if \<not> list_empty lst s then INIT_LIST_HEAD lst (list_splice_at lst head s) else s)"

text \<open>
  The iteration macros, with the positions visited as the result.  They need not end on links
  that are no ring, which is the value \<open>None\<close>.
\<close>

partial_function (option) each_from :: "nat \<Rightarrow> nat \<Rightarrow> list_head \<Rightarrow> nat list option" where
  "each_from pos head s = (if pos = head then Some []
     else Option.bind (each_from (lh_next s pos) head s) (\<lambda>r. Some (pos # r)))"

definition list_for_each :: "nat \<Rightarrow> list_head \<Rightarrow> nat list option" where
  "list_for_each head s = each_from (lh_next s head) head s"

partial_function (option) each_prev_from :: "nat \<Rightarrow> nat \<Rightarrow> list_head \<Rightarrow> nat list option" where
  "each_prev_from pos head s = (if pos = head then Some []
     else Option.bind (each_prev_from (lh_prev s pos) head s) (\<lambda>r. Some (pos # r)))"

definition list_for_each_prev :: "nat \<Rightarrow> list_head \<Rightarrow> nat list option" where
  "list_for_each_prev head s = each_prev_from (lh_prev s head) head s"

text \<open>\<open>list_for_each_safe\<close> reads the successor before the body runs; the body is a parameter.\<close>

partial_function (option) each_safe_from ::
  "nat \<Rightarrow> nat \<Rightarrow> nat \<Rightarrow> (nat \<Rightarrow> list_head \<Rightarrow> list_head) \<Rightarrow> list_head \<Rightarrow> list_head option" where
  "each_safe_from pos n head body s = (if pos = head then Some s
     else (let s1 = body pos s in each_safe_from n (lh_next s1 n) head body s1))"

definition list_for_each_safe ::
  "nat \<Rightarrow> (nat \<Rightarrow> list_head \<Rightarrow> list_head) \<Rightarrow> list_head \<Rightarrow> list_head option" where
  "list_for_each_safe head body s =
     (let pos = lh_next s head in each_safe_from pos (lh_next s pos) head body s)"

text \<open>The members of \<open>CListHead\<close>; \<open>objlist\<close> is its first and only field.\<close>

definition ResetList :: "nat \<Rightarrow> list_head \<Rightarrow> list_head" where
  "ResetList this s = list_del_init this s"

definition ListAdd :: "nat \<Rightarrow> nat \<Rightarrow> list_head \<Rightarrow> list_head" where
  "ListAdd this n s = list_add this n s"

definition ListAddTail :: "nat \<Rightarrow> nat \<Rightarrow> list_head \<Rightarrow> list_head" where
  "ListAddTail this n s = list_add_tail this n s"

definition ListMove :: "nat \<Rightarrow> nat \<Rightarrow> list_head \<Rightarrow> list_head" where
  "ListMove this n s = list_move this n s"

definition ListMoveTail :: "nat \<Rightarrow> nat \<Rightarrow> list_head \<Rightarrow> list_head" where
  "ListMoveTail this n s = list_move_tail this n s"

partial_function (option) FreeList :: "nat \<Rightarrow> list_head \<Rightarrow> list_head option" where
  "FreeList this s = (if list_empty this s then Some s
     else FreeList this (ResetList (lh_next s this) s))"

section \<open>Lists of addresses\<close>

lemma list_fields [heap_simps]:
  "lh_next (set_next a v s) = (lh_next s)(a := v)" "lh_prev (set_next a v s) = lh_prev s"
  "lh_prev (set_prev a v s) = (lh_prev s)(a := v)" "lh_next (set_prev a v s) = lh_next s"
  by (simp_all add: set_next_def set_prev_def)

lemma list_del_init_fields:
  "lh_next (list_del_init e s) = (lh_next s)(lh_prev s e := lh_next s e, e := e)"
  "lh_prev (list_del_init e s) = (lh_prev s)(lh_next s e := lh_prev s e, e := e)"
  by (simp_all add: list_del_init_def list_del_between_def INIT_LIST_HEAD_def heap_simps)

interpretation lh: cdll lh_next lh_prev "\<lambda>_ _. True" list_add_between list_del_between
  by unfold_locales (auto simp: list_add_between_def list_del_between_def heap_simps)

abbreviation holds_list :: "list_head \<Rightarrow> nat \<Rightarrow> nat list \<Rightarrow> bool" where
  "holds_list s h xs \<equiv> ring (lh_next s) (lh_prev s) h xs"

lemma holds_cong:
  assumes "holds_list s h xs"
    "\<And>a. a \<in> insert h (set xs) \<Longrightarrow> lh_next s' a = lh_next s a \<and> lh_prev s' a = lh_prev s a"
  shows "holds_list s' h xs"
  by (rule ring_cong [OF assms])

lemma holds_INIT:
  "holds_list (INIT_LIST_HEAD x s) x []"
  "x \<notin> insert h (set xs) \<Longrightarrow> holds_list s h xs \<Longrightarrow> holds_list (INIT_LIST_HEAD x s) h xs"
proof -
  show "holds_list (INIT_LIST_HEAD x s) x []" by (simp add: INIT_LIST_HEAD_def heap_simps ring_Nil)
  assume x: "x \<notin> insert h (set xs)" and l: "holds_list s h xs"
  show "holds_list (INIT_LIST_HEAD x s) h xs"
    by (rule holds_cong [OF l]) (use x in \<open>auto simp: INIT_LIST_HEAD_def heap_simps\<close>)
qed

lemma list_add_holds:
  "holds_list s h xs \<Longrightarrow> x \<notin> insert h (set xs) \<Longrightarrow> holds_list (list_add x h s) h (x # xs)"
  unfolding list_add_def by (rule lh.add_front) auto

lemma list_add_tail_holds:
  "holds_list s h xs \<Longrightarrow> x \<notin> insert h (set xs) \<Longrightarrow> holds_list (list_add_tail x h s) h (xs @ [x])"
  unfolding list_add_tail_def by (rule lh.add_back) auto

lemma list_del_init_holds:
  assumes "holds_list s h (us @ x # vs)"
  shows "holds_list (list_del_init x s) h (us @ vs)" and "holds_list (list_del_init x s) x []"
proof -
  have "x \<notin> insert h (set (us @ vs))" using assms by (auto simp: ring_def)
  then show "holds_list (list_del_init x s) h (us @ vs)"
    unfolding list_del_init_def by (rule holds_INIT) (rule lh.remove [OF assms], simp)
  show "holds_list (list_del_init x s) x []" unfolding list_del_init_def by (rule holds_INIT)
qed

text \<open>What one list does is invisible to a list with other elements.\<close>

lemma list_frames:
  assumes "holds_list s h xs" "holds_list s h' ys" "insert h (set xs) \<inter> insert h' (set ys) = {}"
  shows "x \<notin> insert h (set xs) \<Longrightarrow> x \<notin> insert h' (set ys) \<Longrightarrow> holds_list (list_add x h s) h' ys"
    and "x \<notin> insert h (set xs) \<Longrightarrow> x \<notin> insert h' (set ys) \<Longrightarrow> holds_list (list_add_tail x h s) h' ys"
    and "x \<in> set xs \<Longrightarrow> holds_list (list_del_between (lh_prev s x) (lh_next s x) s) h' ys"
    and "x \<in> set xs \<Longrightarrow> holds_list (list_del_init x s) h' ys"
proof -
  note nb = lh.neighbours [OF assms(1)]
  show "holds_list (list_add x h s) h' ys" if "x \<notin> insert h (set xs)" "x \<notin> insert h' (set ys)"
    unfolding list_add_def by (rule lh.insert_frame [OF assms(2)]) (use that nb(1) [of h] assms(3) in auto)
  show "holds_list (list_add_tail x h s) h' ys" if "x \<notin> insert h (set xs)" "x \<notin> insert h' (set ys)"
    unfolding list_add_tail_def by (rule lh.insert_frame [OF assms(2)]) (use that nb(2) [of h] assms(3) in auto)
  show del: "holds_list (list_del_between (lh_prev s x) (lh_next s x) s) h' ys" if "x \<in> set xs"
  proof (rule lh.bypass_frame [OF assms(2)])
    show "{lh_prev s x, lh_next s x} \<inter> insert h' (set ys) = {}" using nb [of x] that assms(3) by blast
  qed simp_all
  show "holds_list (list_del_init x s) h' ys" if "x \<in> set xs"
    unfolding list_del_init_def by (rule holds_INIT(2)) (use that assms(3) del in auto)
qed

lemma list_move_holds:
  assumes s: "holds_list s h (us @ x # vs)" and t: "holds_list s h' ys"
    and d: "insert h (set (us @ x # vs)) \<inter> insert h' (set ys) = {}"
  shows "holds_list (list_move x h' s) h (us @ vs)" and "holds_list (list_move x h' s) h' (x # ys)"
    and "holds_list (list_move_tail x h' s) h (us @ vs)" and "holds_list (list_move_tail x h' s) h' (ys @ [x])"
proof -
  let ?s = "list_del_between (lh_prev s x) (lh_next s x) s"
  have a: "holds_list ?s h (us @ vs)" by (rule lh.remove [OF s]) simp
  have b: "holds_list ?s h' ys" by (rule list_frames(3) [OF s t d]) simp
  have x: "x \<notin> insert h (set (us @ vs))" "x \<notin> insert h' (set ys)" using s d by (auto simp: ring_def)
  have e: "insert h' (set ys) \<inter> insert h (set (us @ vs)) = {}" using d by auto
  show "holds_list (list_move x h' s) h (us @ vs)" "holds_list (list_move_tail x h' s) h (us @ vs)"
    unfolding list_move_def list_move_tail_def using list_frames(1,2) [OF b a e x(2,1)] by blast+
  show "holds_list (list_move x h' s) h' (x # ys)" "holds_list (list_move_tail x h' s) h' (ys @ [x])"
    unfolding list_move_def list_move_tail_def using list_add_holds [OF b x(2)] list_add_tail_holds [OF b x(2)] by blast+
qed

text \<open>Moving to the front of the list the element is in.\<close>

lemma list_move_same:
  assumes s: "holds_list s h (us @ x # vs)"
  shows "holds_list (list_move x h s) h (x # us @ vs)" and "holds_list (list_move_tail x h s) h (us @ vs @ [x])"
proof -
  let ?s = "list_del_between (lh_prev s x) (lh_next s x) s"
  have a: "holds_list ?s h (us @ vs)" by (rule lh.remove [OF s]) simp
  have x: "x \<notin> insert h (set (us @ vs))" using s by (auto simp: ring_def)
  show "holds_list (list_move x h s) h (x # us @ vs)" "holds_list (list_move_tail x h s) h (us @ vs @ [x])"
    unfolding list_move_def list_move_tail_def using list_add_holds [OF a x] list_add_tail_holds [OF a x] by simp_all
qed

lemma holds_empty: "holds_list s h xs \<Longrightarrow> list_empty h s \<longleftrightarrow> xs = []"
  using ring_next [of "lh_next s" "lh_prev s" h xs] by (cases xs) (auto simp: list_empty_def ring_def)

section \<open>Iteration\<close>

lemma each_from_linked:
  "linked (lh_next s) p (a # xs @ [h]) \<Longrightarrow> h \<notin> set xs \<Longrightarrow> each_from (lh_next s a) h s = Some xs"
proof (induction xs arbitrary: a)
  case Nil
  then show ?case by (simp add: each_from.simps)
next
  case (Cons x xs)
  then have "each_from (lh_next s x) h s = Some xs" "lh_next s a = x" by auto
  then show ?case using Cons.prems by (subst each_from.simps) simp
qed

lemma each_prev_from_linked:
  "linked n (lh_prev s) (h # xs @ [a]) \<Longrightarrow> h \<notin> set xs \<Longrightarrow> each_prev_from (lh_prev s a) h s = Some (rev xs)"
proof (induction xs arbitrary: a rule: rev_induct)
  case Nil
  then show ?case by (simp add: each_prev_from.simps)
next
  case (snoc x xs)
  then have l: "linked n (lh_prev s) ((h # xs) @ x # [a])" by simp
  then have "linked n (lh_prev s) ((h # xs) @ [x])" "linked n (lh_prev s) [x, a]"
    using linked_append by metis+
  then have "each_prev_from (lh_prev s x) h s = Some (rev xs)" "lh_prev s a = x"
    using snoc by auto
  then show ?case using snoc.prems by (subst each_prev_from.simps) simp
qed

lemma for_each_holds:
  assumes "holds_list s h xs"
  shows "list_for_each h s = Some xs" and "list_for_each_prev h s = Some (rev xs)"
  using assms each_from_linked [of s "lh_prev s" h xs h] each_prev_from_linked [of "lh_next s" s h xs h]
  by (auto simp: ring_def list_for_each_def list_for_each_prev_def)

text \<open>
  Removing the current element is what the safe iteration is for: it still visits every
  element of the list as it was, and leaves each of them in a list of its own.
\<close>

lemma each_safe_del:
  "holds_list s h (x # xs) \<Longrightarrow> \<exists>s'. each_safe_from x (hd (xs @ [h])) h list_del_init s = Some s'
     \<and> holds_list s' h [] \<and> (\<forall>y\<in>set (x # xs). holds_list s' y [])
     \<and> (\<forall>a. a \<notin> insert h (set (x # xs)) \<longrightarrow> lh_next s' a = lh_next s a \<and> lh_prev s' a = lh_prev s a)"
proof (induction xs arbitrary: x s)
  case Nil
  then have xh: "x \<noteq> h" and l: "lh_next s x = h" "lh_prev s x = h" by (auto simp: ring_def)
  from list_del_init_holds [of s h "[]" x "[]"] Nil
  have "holds_list (list_del_init x s) h []" "holds_list (list_del_init x s) x []" by auto
  then show ?case using xh l
    by (auto simp: each_safe_from.simps Let_def list_del_init_fields)
next
  case (Cons y ys)
  let ?s = "list_del_init x s"
  have xh: "x \<noteq> h" "x \<notin> set (y # ys)" using Cons.prems by (auto simp: ring_def)
  have nb: "lh_prev s x = h" "lh_next s x = y" using Cons.prems by (auto simp: ring_def)
  from list_del_init_holds [of s h "[]" x "y # ys"] Cons.prems
  have a: "holds_list ?s h (y # ys)" and b: "holds_list ?s x []" by auto
  have n: "lh_next ?s y = hd (ys @ [h])" using a by (cases ys) (auto simp: ring_def)
  from Cons.IH [OF a] obtain s' where s': "each_safe_from y (hd (ys @ [h])) h list_del_init ?s = Some s'"
    "holds_list s' h []" "\<forall>z\<in>set (y # ys). holds_list s' z []"
    "\<forall>a. a \<notin> insert h (set (y # ys)) \<longrightarrow> lh_next s' a = lh_next ?s a \<and> lh_prev s' a = lh_prev ?s a" by blast
  have "each_safe_from x y h list_del_init s = Some s'"
    using xh n s'(1) by (subst each_safe_from.simps) (simp add: Let_def)
  moreover have "holds_list s' x []" by (rule holds_cong [OF b]) (use s'(4) xh in auto)
  moreover have "lh_next s' a = lh_next s a \<and> lh_prev s' a = lh_prev s a" if "a \<notin> insert h (set (x # y # ys))" for a
    using that s'(4) nb by (simp add: list_del_init_fields)
  ultimately show ?case using s'(2,3) by auto
qed

lemma for_each_safe_holds:
  assumes "holds_list s h xs"
  obtains s' where "list_for_each_safe h list_del_init s = Some s'" "holds_list s' h []"
    "\<forall>y\<in>set xs. holds_list s' y []"
proof (cases xs)
  case Nil
  with assms show ?thesis using that [of s]
    by (simp add: list_for_each_safe_def ring_Nil each_safe_from.simps)
next
  case (Cons x ys)
  then have "lh_next s h = x" "lh_next s x = hd (ys @ [h])" using assms by (cases ys; auto simp: ring_def)+
  with each_safe_del [of s h x ys] assms Cons that show ?thesis by (auto simp: list_for_each_safe_def)
qed

lemma FreeList_holds:
  "holds_list s h xs \<Longrightarrow> \<exists>s'. FreeList h s = Some s' \<and> holds_list s' h [] \<and> (\<forall>y\<in>set xs. holds_list s' y [])
     \<and> (\<forall>a. a \<notin> insert h (set xs) \<longrightarrow> lh_next s' a = lh_next s a \<and> lh_prev s' a = lh_prev s a)"
proof (induction xs arbitrary: s)
  case Nil
  then show ?case by (simp add: FreeList.simps holds_empty)
next
  case (Cons x xs)
  let ?s = "list_del_init x s"
  have xh: "x \<noteq> h" "x \<notin> set xs" using Cons.prems by (auto simp: ring_def)
  have nb: "lh_prev s x = h" "lh_next s x = hd (xs @ [h])" "lh_next s h = x"
    using Cons.prems by (cases xs; auto simp: ring_def)+
  from list_del_init_holds [of s h "[]" x xs] Cons.prems
  have a: "holds_list ?s h xs" and b: "holds_list ?s x []" by auto
  from Cons.IH [OF a] obtain s' where s': "FreeList h ?s = Some s'" "holds_list s' h []"
    "\<forall>z\<in>set xs. holds_list s' z []"
    "\<forall>a. a \<notin> insert h (set xs) \<longrightarrow> lh_next s' a = lh_next ?s a \<and> lh_prev s' a = lh_prev ?s a" by blast
  have "FreeList h s = Some s'"
    using s'(1) nb holds_empty [OF Cons.prems] by (subst FreeList.simps) (simp add: ResetList_def)
  moreover have "holds_list s' x []" by (rule holds_cong [OF b]) (use s'(4) xh in auto)
  moreover have "lh_next s' a = lh_next s a \<and> lh_prev s' a = lh_prev s a" if "a \<notin> insert h (set (x # xs))" for a
    using that s'(4) nb by (cases xs) (simp_all add: list_del_init_fields)
  ultimately show ?case using s'(2,3) by auto
qed

section \<open>Splicing\<close>

lemma linked_prefix: "linked n p (xs @ ys) \<Longrightarrow> linked n p xs"
  by (induction n p xs rule: linked.induct) auto

lemma linked_glue:
  assumes "linked n p xs" "linked n p ys" "xs \<noteq> []" "ys \<noteq> []" "n (last xs) = hd ys" "p (hd ys) = last xs"
  shows "linked n p (xs @ ys)"
  using assms
proof (induction n p xs rule: linked.induct)
  case (2 n p a)
  then show ?case by (cases ys) auto
qed auto

lemma splice_linked:
  assumes s: "holds_list s l xs" "xs \<noteq> []" and t: "holds_list s h ys"
    and d: "insert l (set xs) \<inter> insert h (set ys) = {}"
  shows "holds_list (list_splice_at l h s) h (xs @ ys)"
proof -
  let ?s = "list_splice_at l h s" and ?at = "hd (ys @ [h])"
  have f: "lh_next s l = hd xs" "lh_prev s l = last xs" "lh_next s h = ?at"
    using ring_next [OF s(1)] ring_prev [OF s(1)] ring_next [OF t] s(2) by (cases xs; simp)+
  have dx: "distinct xs" "distinct (h # ys)" and lx: "linked (lh_next s) (lh_prev s) (l # xs @ [l])"
    and ly: "linked (lh_next s) (lh_prev s) (h # ys @ [h])" using s t by (auto simp: ring_def)
  have n: "lh_next ?s = (lh_next s)(h := hd xs, last xs := ?at)"
    and p: "lh_prev ?s = (lh_prev s)(hd xs := h, ?at := last xs)"
    using f by (auto simp: list_splice_at_def Let_def heap_simps)
  have mem: "hd xs \<in> set xs" "last xs \<in> set xs" "?at \<in> insert h (set ys)" using s(2) by (auto simp: hd_append)
  have at: "?at \<notin> set xs" "last xs \<noteq> h" using mem d by auto
  have xs: "linked (lh_next s) (lh_prev s) xs"
    using linked_prefix [of "lh_next s" "lh_prev s" xs "[l]"] lx s(2) by (cases xs) auto
  have "linked (lh_next ?s) (lh_prev ?s) xs"
  proof (rule linked_cong [OF xs])
    show "lh_next ?s a = lh_next s a" if "a \<in> set (butlast xs)" for a
    proof -
      have "a \<noteq> last xs" using that dx(1) s(2) by (metis append_butlast_last_id distinct_append not_distinct_conv_prefix append.assoc disjoint_iff list.set_intros(1))
      moreover have "a \<noteq> h" using in_set_butlastD [OF that] d by auto
      ultimately show ?thesis by (simp add: n)
    qed
    show "lh_prev ?s a = lh_prev s a" if "a \<in> set (tl xs)" for a
    proof -
      have "a \<noteq> hd xs" "a \<in> set xs" using that dx(1) by (cases xs; auto)+
      then show ?thesis using at by (auto simp: p)
    qed
  qed
  moreover have "linked (lh_next ?s) (lh_prev ?s) (ys @ [h])"
  proof (rule linked_cong)
    show "linked (lh_next s) (lh_prev s) (ys @ [h])" using ly by (cases ys) auto
    show "lh_next ?s a = lh_next s a" if "a \<in> set (butlast (ys @ [h]))" for a
      using that mem d dx by (auto simp: n)
    show "lh_prev ?s a = lh_prev s a" if "a \<in> set (tl (ys @ [h]))" for a
      using that mem d dx by (cases ys) (auto simp: p)
  qed
  moreover have "lh_next ?s (last xs) = ?at" "lh_prev ?s ?at = last xs"
    "lh_next ?s h = hd xs" "lh_prev ?s (hd xs) = h"
    using at mem by (auto simp: n p)
  ultimately have "linked (lh_next ?s) (lh_prev ?s) (xs @ (ys @ [h]))"
    and h: "lh_next ?s h = hd xs" "lh_prev ?s (hd xs) = h"
    using s(2) linked_glue [of "lh_next ?s" "lh_prev ?s" xs "ys @ [h]"] by auto
  then have "linked (lh_next ?s) (lh_prev ?s) ([h] @ xs @ ys @ [h])"
    using s(2) linked_glue [of "lh_next ?s" "lh_prev ?s" "[h]" "xs @ ys @ [h]"] by auto
  then show ?thesis using dx d by (auto simp: ring_def)
qed

lemma splice_holds:
  assumes s: "holds_list s l xs" and t: "holds_list s h ys"
    and d: "insert l (set xs) \<inter> insert h (set ys) = {}"
  shows "holds_list (list_splice l h s) h (xs @ ys)" and "holds_list (list_splice_init l h s) h (xs @ ys)"
    and "holds_list (list_splice_init l h s) l []"
proof -
  have l: "l \<notin> insert h (set (xs @ ys))" using s d by (auto simp: ring_def)
  show 1: "holds_list (list_splice l h s) h (xs @ ys)"
    using splice_linked [OF s _ t d] t holds_empty [OF s] by (auto simp: list_splice_def)
  show "holds_list (list_splice_init l h s) h (xs @ ys)"
    using splice_linked [OF s _ t d] t holds_empty [OF s] holds_INIT(2) [OF l] by (auto simp: list_splice_init_def)
  show "holds_list (list_splice_init l h s) l []"
    using s holds_empty [OF s] holds_INIT(1) by (auto simp: list_splice_init_def)
qed

section \<open>Properties\<close>

text \<open>Two lists: head 1 with the elements 10, 11 and head 2 with the element 20.\<close>

definition ex_lists :: list_head where
  "ex_lists = list_add 20 2 (list_add_tail 11 1 (list_add_tail 10 1 (INIT_LIST_HEAD 2 (INIT_LIST_HEAD 1
     \<lparr>lh_next = (\<lambda>_. 0), lh_prev = (\<lambda>_. 0)\<rparr>))))"

lemma ex_lists_hold: "holds_list ex_lists 1 [10, 11]" "holds_list ex_lists 2 [20]"
  by (simp_all add: ex_lists_def list_add_def list_add_tail_def list_add_between_def INIT_LIST_HEAD_def
      heap_simps ring_def)



text \<open>
  C14: splicing a list into another puts its elements in front of the others and leaves it
  empty; \<open>CListHead::FreeList\<close> and the removing loop under \<open>list_for_each_safe\<close> terminate, with
  the list empty and every former element unlinked.
\<close>

theorem splice_and_drain:
  assumes s: "holds_list s h xs" and t: "holds_list s l ys"
    and d: "insert l (set ys) \<inter> insert h (set xs) = {}"
  shows "list_for_each h (list_splice_init l h s) = Some (ys @ xs) \<and> list_empty l (list_splice_init l h s)
     \<and> (\<exists>s'. FreeList h s = Some s' \<and> list_empty h s' \<and> (\<forall>x\<in>set xs. list_empty x s') \<and> list_for_each l s' = Some ys)
     \<and> (\<exists>s'. list_for_each_safe h list_del_init s = Some s' \<and> list_empty h s' \<and> (\<forall>x\<in>set xs. list_empty x s'))"
proof -
  have a: "list_for_each h (list_splice_init l h s) = Some (ys @ xs)" "list_empty l (list_splice_init l h s)"
    using splice_holds [OF t s d] for_each_holds holds_empty by auto
  obtain s' where s': "FreeList h s = Some s'" "holds_list s' h []" "\<forall>y\<in>set xs. holds_list s' y []"
    "\<forall>a. a \<notin> insert h (set xs) \<longrightarrow> lh_next s' a = lh_next s a \<and> lh_prev s' a = lh_prev s a"
    using FreeList_holds [OF s] by blast
  have "holds_list s' l ys" by (rule holds_cong [OF t]) (use s'(4) d in auto)
  then have b: "list_empty h s'" "\<forall>x\<in>set xs. list_empty x s'" "list_for_each l s' = Some ys"
    using s'(2,3) for_each_holds holds_empty by auto
  obtain s2 where "list_for_each_safe h list_del_init s = Some s2" "holds_list s2 h []"
    "\<forall>y\<in>set xs. holds_list s2 y []" by (rule for_each_safe_holds [OF s])
  then have "\<exists>s2. list_for_each_safe h list_del_init s = Some s2 \<and> list_empty h s2 \<and> (\<forall>x\<in>set xs. list_empty x s2)"
    using holds_empty by auto
  with a b s'(1) show ?thesis by blast
qed

theorem splice_and_drain_witness:
  "holds_list ex_lists 1 [10, 11] \<and> list_for_each 1 (list_splice_init 2 1 ex_lists) = Some [20, 10, 11]
     \<and> (\<exists>s'. FreeList 1 ex_lists = Some s' \<and> list_empty 1 s' \<and> list_for_each 2 s' = Some [20])"
  using splice_and_drain [of ex_lists 1 "[10, 11]" 2 "[20]"] ex_lists_hold by auto

end
