(* ===== verification/MD5.thy ===== *)
theory MD5
  imports DTC_Prelude
begin

text \<open>
  The message digest of \<open>common/md5.c\<close> and \<open>common/md5.h\<close>, which signs table definitions and
  spreads keys.  Words are 32 bits wide and the byte order is little endian, so \<open>byteReverse\<close>
  is empty.  \<open>md5_reference\<close> is the digest as RFC 1321 describes it, on the whole padded message;
  the incremental interface is shown to compute it for every way of cutting the message.
\<close>

section \<open>The program\<close>

type_synonym md5_words = "32 word \<times> 32 word \<times> 32 word \<times> 32 word"

record MD5Context =
  md_buf :: md5_words
  md_bits0 :: "32 word"
  md_bits1 :: "32 word"
  md_in :: "8 word list"

definition MD5Init :: "MD5Context \<Rightarrow> MD5Context" where
  "MD5Init ctx = ctx\<lparr>md_buf := (0x67452301, 0xefcdab89, 0x98badcfe, 0x10325476), md_bits0 := 0, md_bits1 := 0\<rparr>"

definition F1 :: "32 word \<Rightarrow> 32 word \<Rightarrow> 32 word \<Rightarrow> 32 word" where
  "F1 x y z = z XOR (x AND (y XOR z))"

definition F2 :: "32 word \<Rightarrow> 32 word \<Rightarrow> 32 word \<Rightarrow> 32 word" where
  "F2 x y z = F1 z x y"

definition F3 :: "32 word \<Rightarrow> 32 word \<Rightarrow> 32 word \<Rightarrow> 32 word" where
  "F3 x y z = x XOR y XOR z"

definition F4 :: "32 word \<Rightarrow> 32 word \<Rightarrow> 32 word \<Rightarrow> 32 word" where
  "F4 x y z = y XOR (x OR NOT z)"

text \<open>\<open>w\<close> after \<open>MD5STEP(f, w, x, y, z, data, s)\<close>.\<close>

definition MD5STEP :: "(32 word \<Rightarrow> 32 word \<Rightarrow> 32 word \<Rightarrow> 32 word) \<Rightarrow> 32 word \<Rightarrow> 32 word \<Rightarrow> 32 word \<Rightarrow> 32 word
    \<Rightarrow> 32 word \<Rightarrow> nat \<Rightarrow> 32 word" where
  "MD5STEP f w x y z dt s =
     (let w1 = w + (f x y z + dt); w2 = push_bit s w1 OR drop_bit (32 - s) w1 in w2 + x)"

text \<open>
  The sixteen steps of each round: index into \<open>in\<close>, constant, shift.  The registers take turns
  as \<open>a b c d\<close>, \<open>d a b c\<close>, \<open>c d a b\<close>, \<open>b c d a\<close>.
\<close>

definition md5_round1 :: "(nat \<times> 32 word \<times> nat) list" where
  "md5_round1 =
     [(0, 0xd76aa478, 7), (1, 0xe8c7b756, 12),
      (2, 0x242070db, 17), (3, 0xc1bdceee, 22),
      (4, 0xf57c0faf, 7), (5, 0x4787c62a, 12),
      (6, 0xa8304613, 17), (7, 0xfd469501, 22),
      (8, 0x698098d8, 7), (9, 0x8b44f7af, 12),
      (10, 0xffff5bb1, 17), (11, 0x895cd7be, 22),
      (12, 0x6b901122, 7), (13, 0xfd987193, 12),
      (14, 0xa679438e, 17), (15, 0x49b40821, 22)]"

definition md5_round2 :: "(nat \<times> 32 word \<times> nat) list" where
  "md5_round2 =
     [(1, 0xf61e2562, 5), (6, 0xc040b340, 9),
      (11, 0x265e5a51, 14), (0, 0xe9b6c7aa, 20),
      (5, 0xd62f105d, 5), (10, 0x02441453, 9),
      (15, 0xd8a1e681, 14), (4, 0xe7d3fbc8, 20),
      (9, 0x21e1cde6, 5), (14, 0xc33707d6, 9),
      (3, 0xf4d50d87, 14), (8, 0x455a14ed, 20),
      (13, 0xa9e3e905, 5), (2, 0xfcefa3f8, 9),
      (7, 0x676f02d9, 14), (12, 0x8d2a4c8a, 20)]"

definition md5_round3 :: "(nat \<times> 32 word \<times> nat) list" where
  "md5_round3 =
     [(5, 0xfffa3942, 4), (8, 0x8771f681, 11),
      (11, 0x6d9d6122, 16), (14, 0xfde5380c, 23),
      (1, 0xa4beea44, 4), (4, 0x4bdecfa9, 11),
      (7, 0xf6bb4b60, 16), (10, 0xbebfbc70, 23),
      (13, 0x289b7ec6, 4), (0, 0xeaa127fa, 11),
      (3, 0xd4ef3085, 16), (6, 0x04881d05, 23),
      (9, 0xd9d4d039, 4), (12, 0xe6db99e5, 11),
      (15, 0x1fa27cf8, 16), (2, 0xc4ac5665, 23)]"

definition md5_round4 :: "(nat \<times> 32 word \<times> nat) list" where
  "md5_round4 =
     [(0, 0xf4292244, 6), (7, 0x432aff97, 10),
      (14, 0xab9423a7, 15), (5, 0xfc93a039, 21),
      (12, 0x655b59c3, 6), (3, 0x8f0ccc92, 10),
      (10, 0xffeff47d, 15), (1, 0x85845dd1, 21),
      (8, 0x6fa87e4f, 6), (15, 0xfe2ce6e0, 10),
      (6, 0xa3014314, 15), (13, 0x4e0811a1, 21),
      (4, 0xf7537e82, 6), (11, 0xbd3af235, 10),
      (2, 0x2ad7d2bb, 15), (9, 0xeb86d391, 21)]"

fun md5_steps :: "(32 word \<Rightarrow> 32 word \<Rightarrow> 32 word \<Rightarrow> 32 word) \<Rightarrow> 32 word list
    \<Rightarrow> (nat \<times> 32 word \<times> nat) list \<Rightarrow> md5_words \<Rightarrow> md5_words" where
  "md5_steps f inp [] r = r"
| "md5_steps f inp ((k, t, s) # rows) (w, x, y, z) =
     md5_steps f inp rows (z, MD5STEP f w x y z (inp ! k + t) s, x, y)"

definition MD5Transform :: "md5_words \<Rightarrow> 32 word list \<Rightarrow> md5_words" where
  "MD5Transform b inp =
     (let (a', b', c', d') = md5_steps F4 inp md5_round4 (md5_steps F3 inp md5_round3
            (md5_steps F2 inp md5_round2 (md5_steps F1 inp md5_round1 b)));
          (a, b, c, d) = b in
      (a + a', b + b', c + c', d + d'))"

text \<open>Reading bytes as little endian words, and back.\<close>

fun le_words :: "8 word list \<Rightarrow> 32 word list" where
  "le_words (b0 # b1 # b2 # b3 # r) =
     (ucast b0 OR push_bit 8 (ucast b1) OR push_bit 16 (ucast b2) OR push_bit 24 (ucast b3)) # le_words r"
| "le_words _ = []"

definition le_bytes :: "32 word \<Rightarrow> 8 word list" where
  "le_bytes w = [ucast w, ucast (drop_bit 8 w), ucast (drop_bit 16 w), ucast (drop_bit 24 w)]"

text \<open>\<open>memcpy(dst + off, xs, length xs)\<close>.\<close>

definition memcpy_at :: "nat \<Rightarrow> 'a list \<Rightarrow> 'a list \<Rightarrow> 'a list" where
  "memcpy_at off xs dst = take off dst @ xs @ drop (off + length xs) dst"

definition ctx_transform :: "MD5Context \<Rightarrow> MD5Context" where
  "ctx_transform ctx = ctx\<lparr>md_buf := MD5Transform (md_buf ctx) (le_words (md_in ctx))\<rparr>"

function update_chunks :: "8 word list \<Rightarrow> MD5Context \<Rightarrow> MD5Context" where
  "update_chunks buf ctx =
     (if 64 \<le> length buf
      then update_chunks (drop 64 buf) (ctx_transform (ctx\<lparr>md_in := memcpy_at 0 (take 64 buf) (md_in ctx)\<rparr>))
      else ctx\<lparr>md_in := memcpy_at 0 buf (md_in ctx)\<rparr>)"
  by pat_completeness auto
termination by (relation "measure (\<lambda>(buf, _). length buf)") auto

text \<open>The argument \<open>len\<close> is the length of the buffer, an \<open>unsigned\<close>.\<close>

definition MD5Update :: "8 word list \<Rightarrow> MD5Context \<Rightarrow> MD5Context" where
  "MD5Update buf ctx =
     (let len = of_nat (length buf) :: 32 word;
          t = md_bits0 ctx;
          bits0 = t + push_bit 3 len;
          ctx1 = ctx\<lparr>md_bits0 := bits0,
                     md_bits1 := (if bits0 < t then md_bits1 ctx + 1 else md_bits1 ctx) + drop_bit 29 len\<rparr>;
          n = unat (drop_bit 3 t AND 0x3f) in
      if n \<noteq> 0 then
        if length buf < 64 - n then ctx1\<lparr>md_in := memcpy_at n buf (md_in ctx1)\<rparr>
        else update_chunks (drop (64 - n) buf)
               (ctx_transform (ctx1\<lparr>md_in := memcpy_at n (take (64 - n) buf) (md_in ctx1)\<rparr>))
      else update_chunks buf ctx1)"

text \<open>
  The context after \<open>MD5Final\<close> is dead; the result is the digest.  (\<open>memset(ctx, 0, sizeof(ctx))\<close>
  clears as many bytes as a pointer has, the first two words of \<open>buf\<close>.)
\<close>

definition MD5Final :: "MD5Context \<Rightarrow> 8 word list \<times> MD5Context" where
  "MD5Final ctx =
     (let n = unat (drop_bit 3 (md_bits0 ctx) AND 0x3f);
          ctx1 = ctx\<lparr>md_in := memcpy_at n [0x80] (md_in ctx)\<rparr>;
          count = 64 - 1 - n;
          ctx2 = (if count < 8
                  then (let c = ctx_transform (ctx1\<lparr>md_in := memcpy_at (n + 1) (replicate count 0) (md_in ctx1)\<rparr>)
                        in c\<lparr>md_in := memcpy_at 0 (replicate 56 0) (md_in c)\<rparr>)
                  else ctx1\<lparr>md_in := memcpy_at (n + 1) (replicate (count - 8) 0) (md_in ctx1)\<rparr>);
          ctx3 = ctx2\<lparr>md_in := memcpy_at 60 (le_bytes (md_bits1 ctx2)) (memcpy_at 56 (le_bytes (md_bits0 ctx2)) (md_in ctx2))\<rparr>;
          ctx4 = ctx_transform ctx3;
          (a, b, c, d) = md_buf ctx4 in
      (le_bytes a @ le_bytes b @ le_bytes c @ le_bytes d, ctx4\<lparr>md_buf := (0, 0, c, d)\<rparr>))"

section \<open>The digest of RFC 1321\<close>

text \<open>The four auxiliary functions and the step schedule in the form of the RFC.\<close>

definition rfc_F :: "nat \<Rightarrow> 32 word \<Rightarrow> 32 word \<Rightarrow> 32 word \<Rightarrow> 32 word" where
  "rfc_F i x y z = (if i = 0 then (x AND y) OR (NOT x AND z) else if i = 1 then (x AND z) OR (y AND NOT z)
     else if i = 2 then x XOR y XOR z else y XOR (x OR NOT z))"

definition rfc_index :: "nat \<Rightarrow> nat" where
  "rfc_index i = (if i < 16 then i else if i < 32 then (5 * i + 1) mod 16
     else if i < 48 then (3 * i + 5) mod 16 else (7 * i) mod 16)"

definition rfc_shift :: "nat \<Rightarrow> nat" where
  "rfc_shift i = [[7, 12, 17, 22], [5, 9, 14, 20], [4, 11, 16, 23], [6, 10, 15, 21]] ! (i div 16) ! (i mod 4)"

text \<open>The table \<open>T\<close> of the RFC, in the order of the steps.\<close>

definition rfc_T :: "nat \<Rightarrow> 32 word" where
  "rfc_T i = map (fst \<circ> snd) (md5_round1 @ md5_round2 @ md5_round3 @ md5_round4) ! i"

definition rfc_step :: "32 word list \<Rightarrow> nat \<Rightarrow> md5_words \<Rightarrow> md5_words" where
  "rfc_step inp i = (\<lambda>(a, b, c, d).
     (d, b + word_rotl (rfc_shift i) (a + rfc_F (i div 16) b c d + inp ! rfc_index i + rfc_T i), b, c))"

definition rfc_transform :: "md5_words \<Rightarrow> 32 word list \<Rightarrow> md5_words" where
  "rfc_transform = (\<lambda>(a, b, c, d) inp.
     case fold (rfc_step inp) [0..<64] (a, b, c, d) of (a', b', c', d') \<Rightarrow> (a + a', b + b', c + c', d + d'))"

fun md5_blocks :: "md5_words \<Rightarrow> 8 word list \<Rightarrow> md5_words \<times> 8 word list" where
  "md5_blocks b xs = (if length xs < 64 then (b, xs)
     else md5_blocks (rfc_transform b (le_words (take 64 xs))) (drop 64 xs))"

definition md5_padding :: "nat \<Rightarrow> 8 word list" where
  "md5_padding n = [0x80] @ replicate ((119 - n mod 64) mod 64) 0
     @ map (\<lambda>i. ucast (drop_bit (8 * i) (of_nat (8 * n) :: 64 word))) [0..<8]"

definition md5_init :: md5_words where
  "md5_init = (0x67452301, 0xefcdab89, 0x98badcfe, 0x10325476)"

definition digest_bytes :: "md5_words \<Rightarrow> 8 word list" where
  "digest_bytes = (\<lambda>(a, b, c, d). le_bytes a @ le_bytes b @ le_bytes c @ le_bytes d)"

definition md5_reference :: "8 word list \<Rightarrow> 8 word list" where
  "md5_reference msg = digest_bytes (fst (md5_blocks md5_init (msg @ md5_padding (length msg))))"

section \<open>The unrolled transform\<close>

lemma F_rfc: "F1 = rfc_F 0" "F2 = rfc_F 1" "F3 = rfc_F 2" "F4 = rfc_F 3"
  by (intro ext bit_word_eqI; auto simp: F1_def F2_def F3_def F4_def rfc_F_def bit_simps)+

lemma rotl_shifts: "0 < s \<Longrightarrow> s < 32 \<Longrightarrow> push_bit s w OR drop_bit (32 - s) w = word_rotl s w" for w :: "32 word"
proof (rule bit_word_eqI)
  fix n assume s: "0 < s" "s < 32" and "n < LENGTH(32)"
  then have n: "n < 32" by simp
  have m: "(n + (32 - s)) mod 32 = (if s \<le> n then n - s else n + (32 - s))"
    using s n by (auto simp: mod_if)
  have o: "\<not> bit w (n + (32 - s))" if "s \<le> n"
    using that s bit_imp_le_length [of w "n + (32 - s)"] by auto
  have r: "bit (word_rotl s w) n \<longleftrightarrow> bit w ((n + (32 - s)) mod 32)"
    using s n by (simp add: bit_word_rotl_iff)
  have l: "bit (push_bit s w OR drop_bit (32 - s) w) n \<longleftrightarrow> s \<le> n \<and> bit w (n - s) \<or> bit w (n + (32 - s))"
    using n by (auto simp: bit_or_iff bit_push_bit_iff bit_drop_bit_eq add.commute)
  show "bit (push_bit s w OR drop_bit (32 - s) w) n = bit (word_rotl s w) n"
    unfolding l r m using o by auto
qed

lemma MD5STEP_rotl:
  "0 < s \<Longrightarrow> s < 32 \<Longrightarrow> MD5STEP f a b c d (u + t) s = b + word_rotl s (a + f b c d + u + t)"
  by (simp add: MD5STEP_def Let_def rotl_shifts add_ac)

lemma rfc_shift_bounds: "i < 64 \<Longrightarrow> 0 < rfc_shift i \<and> rfc_shift i < 32"
proof -
  assume "i < 64"
  then have "i div 16 < 4" "i mod 4 < 4" by auto
  then have "i div 16 \<in> {0, 1, 2, 3}" "i mod 4 \<in> {0, 1, 2, 3}" by auto
  then show ?thesis by (auto simp: rfc_shift_def)
qed

lemma md5_steps_rfc:
  assumes "\<forall>i\<in>set is. i < 64 \<and> f = rfc_F (i div 16)"
  shows "md5_steps f inp (map (\<lambda>i. (rfc_index i, rfc_T i, rfc_shift i)) is) r = fold (rfc_step inp) is r"
  using assms
proof (induction "is" arbitrary: r)
  case (Cons i "is")
  obtain w x y z where r: "r = (w, x, y, z)" by (cases r) auto
  have "0 < rfc_shift i" "rfc_shift i < 32" using rfc_shift_bounds Cons.prems by auto
  then have "rfc_step inp i r = (z, MD5STEP f w x y z (inp ! rfc_index i + rfc_T i) (rfc_shift i), x, y)"
    using Cons.prems MD5STEP_rotl [of "rfc_shift i" f w x y z "inp ! rfc_index i" "rfc_T i"]
    by (simp add: r rfc_step_def)
  with Cons show ?case by (simp add: r)
qed simp

lemma rounds_rfc:
  "md5_round1 = map (\<lambda>i. (rfc_index i, rfc_T i, rfc_shift i)) [0..<16]"
  "md5_round2 = map (\<lambda>i. (rfc_index i, rfc_T i, rfc_shift i)) [16..<32]"
  "md5_round3 = map (\<lambda>i. (rfc_index i, rfc_T i, rfc_shift i)) [32..<48]"
  "md5_round4 = map (\<lambda>i. (rfc_index i, rfc_T i, rfc_shift i)) [48..<64]"
  by (code_simp)+

lemma MD5Transform_rfc: "MD5Transform = rfc_transform"
proof (intro ext)
  fix b inp
  have rounds: "md5_steps F1 inp md5_round1 r = fold (rfc_step inp) [0..<16] r"
    "md5_steps F2 inp md5_round2 r = fold (rfc_step inp) [16..<32] r"
    "md5_steps F3 inp md5_round3 r = fold (rfc_step inp) [32..<48] r"
    "md5_steps F4 inp md5_round4 r = fold (rfc_step inp) [48..<64] r" for r
    unfolding rounds_rfc F_rfc by (rule md5_steps_rfc; auto)+
  have "[0..<64] = [0..<16] @ [16..<32] @ [32..<48] @ [48..<(64::nat)]"
    by code_simp
  then show "MD5Transform b inp = rfc_transform b inp"
    by (cases b) (simp add: MD5Transform_def rfc_transform_def rounds Let_def)
qed

section \<open>Blocks\<close>

declare md5_blocks.simps [simp del] update_chunks.simps [simp del]

lemma md5_blocks_short: "length xs < 64 \<Longrightarrow> md5_blocks b xs = (b, xs)"
  by (simp add: md5_blocks.simps)

lemma md5_blocks_block:
  "length xs = 64 \<Longrightarrow> md5_blocks b (xs @ ys) = md5_blocks (rfc_transform b (le_words xs)) ys"
  by (subst md5_blocks.simps) simp

lemma md5_blocks_append:
  "md5_blocks b (xs @ ys) = md5_blocks (fst (md5_blocks b xs)) (snd (md5_blocks b xs) @ ys)"
proof (induction b xs rule: md5_blocks.induct)
  case (1 b xs)
  show ?case
  proof (cases "length xs < 64")
    case True
    then show ?thesis by (simp add: md5_blocks_short)
  next
    case False
    have "md5_blocks b (xs @ ys) = md5_blocks b (take 64 xs @ drop 64 xs @ ys)"
      by (simp flip: append_assoc)
    also have "\<dots> = md5_blocks (rfc_transform b (le_words (take 64 xs))) (drop 64 xs @ ys)"
      using False by (intro md5_blocks_block) simp
    also have "\<dots> = md5_blocks (fst (md5_blocks b xs)) (snd (md5_blocks b xs) @ ys)"
      using 1 [OF False] False by (subst (2 3) md5_blocks.simps) simp
    finally show ?thesis .
  qed
qed

lemma md5_blocks_rest: "length (snd (md5_blocks b xs)) = length xs mod 64"
proof (induction b xs rule: md5_blocks.induct)
  case (1 b xs)
  then show ?case by (subst md5_blocks.simps) (auto simp: le_mod_geq)
qed

lemma memcpy_length: "off + length xs \<le> length dst \<Longrightarrow> length (memcpy_at off xs dst) = length dst"
  by (simp add: memcpy_at_def)

lemma memcpy_take: "off + length xs \<le> length dst \<Longrightarrow>
    take (off + length xs) (memcpy_at off xs dst) = take off dst @ xs"
  by (simp add: memcpy_at_def)

lemma memcpy_full: "off + length xs = length dst \<Longrightarrow> memcpy_at off xs dst = take off dst @ xs"
  by (simp add: memcpy_at_def)

lemma ctx_transform_simps [simp]:
  "md_buf (ctx_transform ctx) = rfc_transform (md_buf ctx) (le_words (md_in ctx))"
  "md_bits0 (ctx_transform ctx) = md_bits0 ctx" "md_bits1 (ctx_transform ctx) = md_bits1 ctx"
  "md_in (ctx_transform ctx) = md_in ctx"
  by (simp_all add: ctx_transform_def MD5Transform_rfc)

section \<open>The incremental interface\<close>

text \<open>
  The context stands for the message given so far: the words are the digest state after its
  full blocks, \<open>in\<close> starts with the bytes of the last, unfinished block, and the two words of
  \<open>bits\<close> are its length in bits modulo \<open>2 ^ 64\<close>.
\<close>

definition md5_for :: "MD5Context \<Rightarrow> 8 word list \<Rightarrow> bool" where
  "md5_for ctx msg \<longleftrightarrow> length (md_in ctx) = 64
     \<and> md5_blocks md5_init msg = (md_buf ctx, take (length msg mod 64) (md_in ctx))
     \<and> md_bits0 ctx = of_nat (8 * length msg) \<and> md_bits1 ctx = of_nat (8 * length msg div 2 ^ 32)"

lemma MD5Init_for: "length (md_in ctx) = 64 \<Longrightarrow> md5_for (MD5Init ctx) []"
  by (simp add: md5_for_def MD5Init_def md5_blocks_short md5_init_def)

lemma unat_bits: "unat (drop_bit 3 w AND 0x3f) = unat w div 8 mod 64" for w :: "32 word"
proof -
  have "drop_bit 3 w AND 0x3f = take_bit 6 (drop_bit 3 w)" by (simp add: take_bit_eq_mask mask_eq_exp_minus_1)
  then show ?thesis by (simp add: drop_bit_eq_div take_bit_eq_mod unat_div unat_mod)
qed

lemma bits_count: "unat (drop_bit 3 (of_nat (8 * n) :: 32 word) AND 0x3f) = n mod 64"
proof -
  have "unat (of_nat (8 * n) :: 32 word) = 8 * n mod 2 ^ 32"
    unfolding unsigned_of_nat by (simp add: take_bit_eq_mod)
  also have "\<dots> = 8 * (n mod 2 ^ 29)" by (simp add: mult_mod_right)
  finally have "unat (of_nat (8 * n) :: 32 word) div 8 mod 64 = n mod 2 ^ 29 mod 64" by simp
  also have "\<dots> = n mod 64" by (simp add: mod_mod_cancel)
  finally show ?thesis unfolding unat_bits .
qed

lemma mod_sum_carry:
  fixes a b k :: nat
  assumes "a < k" "b < k"
  shows "(a + b) mod k < a \<longleftrightarrow> k \<le> a + b" and "(a + b) div k = (if k \<le> a + b then 1 else 0)"
proof -
  have "(a + b) mod k = a + b - k \<and> (a + b) div k = 1" if "k \<le> a + b"
    using that assms by (simp add: le_mod_geq le_div_geq)
  moreover have "(a + b) mod k = a + b" if "\<not> k \<le> a + b" using that by simp
  ultimately show "(a + b) mod k < a \<longleftrightarrow> k \<le> a + b" and "(a + b) div k = (if k \<le> a + b then 1 else 0)"
    using assms by (cases "k \<le> a + b"; auto)+
qed

lemma bits_carry:
  fixes n m :: nat
  defines "t \<equiv> of_nat (8 * n) :: 32 word" and "len \<equiv> of_nat m :: 32 word"
  assumes m: "m < 2 ^ 32"
  shows "t + push_bit 3 len = of_nat (8 * (n + m))"
    and "(if t + push_bit 3 len < t then of_nat (8 * n div 2 ^ 32) + 1 else of_nat (8 * n div 2 ^ 32))
           + drop_bit 29 len = (of_nat (8 * (n + m) div 2 ^ 32) :: 32 word)"
proof -
  have p: "push_bit 3 len = of_nat (8 * m)" by (simp add: len_def push_bit_eq_mult)
  show s: "t + push_bit 3 len = of_nat (8 * (n + m))"
    by (simp add: p t_def algebra_simps flip: of_nat_mult)
  have "unat (drop_bit 29 len) = m div 2 ^ 29"
    using m by (simp add: len_def drop_bit_eq_div unat_div unsigned_of_nat take_bit_nat_eq_self)
  then have d: "drop_bit 29 len = of_nat (m div 2 ^ 29)" by (metis of_nat_unat ucast_id)
  have md: "m div 2 ^ 29 = 8 * m div 2 ^ 32" by simp
  let ?B = "2 ^ 32 :: nat"
  have ut: "unat t = 8 * n mod ?B" unfolding t_def unsigned_of_nat by (simp add: take_bit_eq_mod)
  have us: "unat (t + push_bit 3 len) = (8 * n + 8 * m) mod ?B"
    unfolding s unsigned_of_nat distrib_left by (simp add: take_bit_eq_mod)
  have add: "(8 * n + 8 * m) div ?B = 8 * n div ?B + 8 * m div ?B + (8 * n mod ?B + 8 * m mod ?B) div ?B"
    by (rule div_add1_eq)
  have lt: "8 * n mod ?B < ?B" "8 * m mod ?B < ?B" by simp_all
  have "(8 * n + 8 * m) mod ?B = (8 * n mod ?B + 8 * m mod ?B) mod ?B" by (rule mod_add_eq [symmetric])
  then have c: "t + push_bit 3 len < t \<longleftrightarrow> ?B \<le> 8 * n mod ?B + 8 * m mod ?B"
    unfolding word_less_nat_alt us ut using mod_sum_carry(1) [OF lt] by simp
  have q: "(8 * n mod ?B + 8 * m mod ?B) div ?B = (if t + push_bit 3 len < t then 1 else 0)"
    unfolding c by (rule mod_sum_carry(2) [OF lt])
  show "(if t + push_bit 3 len < t then of_nat (8 * n div 2 ^ 32) + 1 else of_nat (8 * n div 2 ^ 32))
           + drop_bit 29 len = (of_nat (8 * (n + m) div 2 ^ 32) :: 32 word)"
    unfolding d md distrib_left add q by simp
qed

lemma update_chunks_for:
  assumes "length (md_in ctx) = 64"
  shows "length (md_in (update_chunks buf ctx)) = 64
     \<and> md5_blocks (md_buf ctx) buf
         = (md_buf (update_chunks buf ctx), take (length buf mod 64) (md_in (update_chunks buf ctx)))
     \<and> md_bits0 (update_chunks buf ctx) = md_bits0 ctx \<and> md_bits1 (update_chunks buf ctx) = md_bits1 ctx"
  using assms
proof (induction buf ctx rule: update_chunks.induct)
  case (1 buf ctx)
  show ?case
  proof (cases "64 \<le> length buf")
    case True
    let ?c = "ctx_transform (ctx\<lparr>md_in := memcpy_at 0 (take 64 buf) (md_in ctx)\<rparr>)"
    have i: "memcpy_at 0 (take 64 buf) (md_in ctx) = take 64 buf" using True 1(2) by (simp add: memcpy_full)
    have e: "update_chunks buf ctx = update_chunks (drop 64 buf) ?c" using True by (subst update_chunks.simps) simp
    have b: "md5_blocks (md_buf ctx) buf = md5_blocks (md_buf ?c) (drop 64 buf)"
      using True i by (subst md5_blocks.simps) simp
    have l: "length buf mod 64 = length (drop 64 buf) mod 64" using True by (simp add: le_mod_geq)
    have "length (md_in ?c) = 64" using i True by simp
    from 1(1) [OF True this] show ?thesis unfolding e b l by simp
  next
    case False
    then have "memcpy_at 0 buf (md_in ctx) = buf @ drop (length buf) (md_in ctx)" by (simp add: memcpy_at_def)
    then show ?thesis using False 1(2) by (subst (1 2 3 4 5) update_chunks.simps) (simp add: md5_blocks_short)
  qed
qed

lemma MD5Update_for:
  assumes c: "md5_for ctx msg" and l: "length buf < 2 ^ 32"
  shows "md5_for (MD5Update buf ctx) (msg @ buf)"
proof -
  define ctx1 where "ctx1 = ctx\<lparr>md_bits0 := of_nat (8 * length (msg @ buf)),
    md_bits1 := of_nat (8 * length (msg @ buf) div 2 ^ 32)\<rparr>"
  let ?n = "length msg mod 64"
  let ?fill = "ctx1\<lparr>md_in := memcpy_at ?n (take (64 - ?n) buf) (md_in ctx1)\<rparr>"
  have i: "length (md_in ctx1) = 64" and bl: "md5_blocks md5_init msg = (md_buf ctx1, take ?n (md_in ctx1))"
    using c by (simp_all add: md5_for_def ctx1_def)
  have n: "?n < 64" by simp
  have e: "MD5Update buf ctx = (if ?n \<noteq> 0 then
        if length buf < 64 - ?n then ctx1\<lparr>md_in := memcpy_at ?n buf (md_in ctx1)\<rparr>
        else update_chunks (drop (64 - ?n) buf) (ctx_transform ?fill)
      else update_chunks buf ctx1)"
    unfolding MD5Update_def Let_def ctx1_def length_append bits_carry [OF l, of "length msg", symmetric]
    using c bits_count [of "length msg"] by (simp add: md5_for_def)
  have all: "md5_blocks md5_init (msg @ buf) = md5_blocks (md_buf ctx1) (take ?n (md_in ctx1) @ buf)"
    unfolding md5_blocks_append [of md5_init msg buf] bl by simp
  consider (short) "?n \<noteq> 0" "length buf < 64 - ?n" | (fill) "?n \<noteq> 0" "64 - ?n \<le> length buf" | (aligned) "?n = 0"
    by linarith
  then show ?thesis
  proof cases
    case short
    have m: "length (msg @ buf) mod 64 = ?n + length buf"
    proof -
      have "length (msg @ buf) mod 64 = (?n + length buf) mod 64" by (simp add: mod_add_left_eq)
      also have "\<dots> = ?n + length buf" by (rule mod_less) (use short in linarith)
      finally show ?thesis .
    qed
    have t: "take (?n + length buf) (memcpy_at ?n buf (md_in ctx1)) = take ?n (md_in ctx1) @ buf"
      using short i by (intro memcpy_take) simp
    have "md5_blocks md5_init (msg @ buf) = (md_buf ctx1, take ?n (md_in ctx1) @ buf)"
      unfolding all using short i by (intro md5_blocks_short) simp
    with short e t i m show ?thesis by (simp add: md5_for_def memcpy_length) (simp add: ctx1_def)
  next
    case fill
    have m: "length (msg @ buf) mod 64 = length (drop (64 - ?n) buf) mod 64"
    proof -
      have "?n + length buf = 64 + length (drop (64 - ?n) buf)" using fill n by simp
      then have "(?n + length buf) mod 64 = length (drop (64 - ?n) buf) mod 64" by (metis mod_add_self1)
      then show ?thesis by (simp add: mod_add_left_eq)
    qed
    have f: "md_in ?fill = take ?n (md_in ctx1) @ take (64 - ?n) buf" using fill i n by (simp add: memcpy_full)
    have "md5_blocks md5_init (msg @ buf) = md5_blocks (md_buf ctx1) (md_in ?fill @ drop (64 - ?n) buf)"
      unfolding all f by simp
    also have "\<dots> = md5_blocks (md_buf (ctx_transform ?fill)) (drop (64 - ?n) buf)"
      unfolding f using fill i n by (subst md5_blocks_block) (auto simp: memcpy_full)
    finally have b: "md5_blocks md5_init (msg @ buf) = md5_blocks (md_buf (ctx_transform ?fill)) (drop (64 - ?n) buf)" .
    have "length (md_in (ctx_transform ?fill)) = 64" using f i n fill by simp
    note u = update_chunks_for [OF this, of "drop (64 - ?n) buf"]
    have "MD5Update buf ctx = update_chunks (drop (64 - ?n) buf) (ctx_transform ?fill)" using e fill by simp
    then show ?thesis unfolding md5_for_def m b using u by (simp add: ctx1_def)
  next
    case aligned
    have m: "length (msg @ buf) mod 64 = length buf mod 64"
      using aligned by (metis add_0 length_append mod_add_left_eq)
    have "MD5Update buf ctx = update_chunks buf ctx1" using e aligned by simp
    then show ?thesis unfolding md5_for_def m all using update_chunks_for [OF i, of buf] aligned
      by (simp add: ctx1_def)
  qed
qed

text \<open>The length field: the two words of \<open>bits\<close> are the eight bytes of the 64 bit count.\<close>

lemma ucast_drop_count:
  "ucast (drop_bit k (of_nat n :: 32 word)) = (ucast (drop_bit k (of_nat n :: 64 word)) :: 8 word)" if "k + 8 \<le> 32"
  using that by (intro bit_word_eqI) (auto simp: bit_simps)

lemma ucast_drop_high:
  "ucast (drop_bit k (of_nat (n div 2 ^ 32) :: 32 word)) = (ucast (drop_bit (32 + k) (of_nat n :: 64 word)) :: 8 word)"
  if "k + 8 \<le> 32"
proof -
  have "of_nat (n div 2 ^ 32) = (drop_bit 32 (of_nat n) :: nat)" by (simp add: drop_bit_eq_div)
  then show ?thesis using that by (intro bit_word_eqI) (auto simp: bit_simps add_ac)
qed

lemma length_field:
  "le_bytes (of_nat n) @ le_bytes (of_nat (n div 2 ^ 32))
     = map (\<lambda>i. ucast (drop_bit (8 * i) (of_nat n :: 64 word))) [0..<8]"
proof -
  have "[0..<8] = [0, 1, 2, 3, 4, 5, 6, 7::nat]" by code_simp
  then show ?thesis
    using ucast_drop_count [of 0 n] ucast_drop_count [of 8 n] ucast_drop_count [of 16 n] ucast_drop_count [of 24 n]
      ucast_drop_high [of 0 n] ucast_drop_high [of 8 n] ucast_drop_high [of 16 n] ucast_drop_high [of 24 n]
    by (simp add: le_bytes_def)
qed

lemma le_bytes_length [simp]: "length (le_bytes w) = 4"
  by (simp add: le_bytes_def)

lemma memcpy_prefix:
  "length dst = 64 \<Longrightarrow> take n dst = pre \<Longrightarrow> n + length xs \<le> 64 \<Longrightarrow> n \<le> 64
     \<Longrightarrow> take (n + length xs) (memcpy_at n xs dst) = pre @ xs \<and> length (memcpy_at n xs dst) = 64"
  by (auto simp: memcpy_take memcpy_length)

text \<open>The last block: 56 bytes and the length field.\<close>

lemma last_block:
  assumes "length dst = 64" "take 56 dst = pre"
  shows "memcpy_at 60 (le_bytes w) (memcpy_at 56 (le_bytes v) dst) = pre @ le_bytes v @ le_bytes w"
  using assms by (auto simp: memcpy_at_def le_bytes_def)

lemma MD5Final_for:
  assumes "md5_for ctx msg"
  shows "fst (MD5Final ctx) = md5_reference msg"
proof -
  let ?n = "length msg mod 64" and ?m = "length msg"
  let ?L = "map (\<lambda>i. ucast (drop_bit (8 * i) (of_nat (8 * ?m) :: 64 word))) [0..<8] :: 8 word list"
  define pre where "pre = take ?n (md_in ctx)"
  have i: "length (md_in ctx) = 64" and bl: "md5_blocks md5_init msg = (md_buf ctx, pre)"
    and b: "md_bits0 ctx = of_nat (8 * ?m)" "md_bits1 ctx = of_nat (8 * ?m div 2 ^ 32)"
    using assms by (auto simp: md5_for_def pre_def)
  have n: "?n < 64" and pl: "length pre = ?n" using i by (auto simp: pre_def)
  have cnt: "unat (drop_bit 3 (md_bits0 ctx) AND 0x3f) = ?n" unfolding b by (rule bits_count)
  define in1 where "in1 = memcpy_at ?n [0x80] (md_in ctx)"
  have in1: "length in1 = 64" "take (Suc ?n) in1 = pre @ [0x80]"
    using memcpy_prefix [OF i pre_def [symmetric], of "[0x80]"] n by (auto simp: in1_def)
  have ref: "md5_reference msg = digest_bytes (fst (md5_blocks (md_buf ctx) (pre @ md5_padding ?m)))"
    unfolding md5_reference_def md5_blocks_append [of md5_init msg] bl by simp
  have lenL: "length ?L = 8" by simp
  have fin: "fst (md5_blocks c (xs @ ?L)) = rfc_transform c (le_words (xs @ ?L))" if "length xs = 56" for c xs
    using md5_blocks_block [of "xs @ ?L" c "[]"] that by (simp add: md5_blocks_short)
  show ?thesis
  proof (cases "63 - ?n < 8")
    case True
    define in2 where "in2 = memcpy_at (Suc ?n) (replicate (63 - ?n) 0) in1"
    have in2: "in2 = pre @ [0x80] @ replicate (63 - ?n) 0"
      using in1 n by (simp add: in2_def memcpy_full)
    let ?c = "rfc_transform (md_buf ctx) (le_words in2)"
    define in3 where "in3 = memcpy_at 0 (replicate 56 0) in2"
    have l2: "length in2 = 64" unfolding in2 using pl n by simp
    have in3: "length in3 = 64" "take 56 in3 = replicate 56 0"
      unfolding in3_def using l2 by (auto simp: memcpy_at_def)
    have "fst (MD5Final ctx) = digest_bytes (rfc_transform ?c (le_words (replicate 56 0 @ ?L)))"
      using True last_block [OF in3] b cnt length_field [of "8 * ?m"]
      unfolding MD5Final_def Let_def cnt
      by (simp add: in1_def [symmetric] in2_def [symmetric] in3_def [symmetric] digest_bytes_def split: prod.split)
    also have "md5_padding ?m = ([0x80] @ replicate (63 - ?n) 0) @ replicate 56 0 @ ?L"
    proof -
      have "(119 - ?n) mod 64 = 119 - ?n" by (rule mod_less) (use True n in linarith)
      also have "\<dots> = (63 - ?n) + 56" using n by simp
      finally have "(119 - ?n) mod 64 = (63 - ?n) + 56" .
      then have "replicate ((119 - ?n) mod 64) 0 = replicate (63 - ?n) 0 @ replicate 56 (0 :: 8 word)"
        by (simp only: replicate_add)
      then show ?thesis by (simp add: md5_padding_def del: replicate.simps)
    qed
    then have "md5_reference msg = digest_bytes (rfc_transform ?c (le_words (replicate 56 0 @ ?L)))"
      unfolding ref using md5_blocks_block [OF l2, of "md_buf ctx" "replicate 56 0 @ ?L"] fin [of "replicate 56 0" ?c]
      by (simp add: in2)
    finally show ?thesis ..
  next
    case False
    define in2 where "in2 = memcpy_at (Suc ?n) (replicate (55 - ?n) 0) in1"
    have in2: "length in2 = 64" "take 56 in2 = pre @ [0x80] @ replicate (55 - ?n) 0"
      using memcpy_prefix [OF in1, of "replicate (55 - ?n) 0"] n False by (auto simp: in2_def)
    have "fst (MD5Final ctx) = digest_bytes (rfc_transform (md_buf ctx) (le_words ((pre @ [0x80] @ replicate (55 - ?n) 0) @ ?L)))"
      using False last_block [OF in2] b cnt length_field [of "8 * ?m"]
      unfolding MD5Final_def Let_def cnt
      by (simp add: in1_def [symmetric] in2_def [symmetric] digest_bytes_def split: prod.split)
    moreover have "md5_padding ?m = [0x80] @ replicate (55 - ?n) 0 @ ?L"
    proof -
      have "119 - ?n = 64 + (55 - ?n)" using False n by simp
      then have "(119 - ?n) mod 64 = (55 - ?n) mod 64" by (metis mod_add_self1)
      also have "\<dots> = 55 - ?n" by (rule mod_less) linarith
      finally have "(119 - ?n) mod 64 = 55 - ?n" .
      then show ?thesis by (simp add: md5_padding_def)
    qed
    then have "pre @ md5_padding ?m = (pre @ [0x80] @ replicate (55 - ?n) 0) @ ?L" by simp
    ultimately show ?thesis unfolding ref using fin [of "pre @ [0x80] @ replicate (55 - ?n) 0" "md_buf ctx"] pl False n
      by simp
  qed
qed

section \<open>Properties\<close>

definition ex_ctx :: MD5Context where
  "ex_ctx = \<lparr>md_buf = (0, 0, 0, 0), md_bits0 = 0, md_bits1 = 0, md_in = replicate 64 0\<rparr>"



end
