(* ===== verification/Spec2Isabelle.thy ===== *)
theory Spec2Isabelle
  imports Raw_Data_Correct Cache_Process_Correct Empty_Filter Cache_Feature T_Tree_Correct List_Head MD5
begin

text \<open>
  Verification of DTC, the distributed table cache (\<open>src/\<close>).

  \<^bold>\<open>The program.\<close>  A cache process keeps rows of database tables in one shared memory segment.
  The segment is formatted by an allocator (\<open>cache/bin_malloc\<close>); inside it live node groups
  (\<open>cache/node_group\<close>), which give every cached key a node with an id, an index from ids to nodes
  (\<open>cache/node_index\<close>), the manager of the groups (\<open>cache/ng_info\<close>), and the LRU lists threaded
  through the nodes (\<open>cache/node_list.h\<close>).  The rows of a key hang off its node, either packed in
  one chunk (raw format) or as records in a T-tree (\<open>cache/t_tree\<close>), whose nodes are chunks of
  the allocator as well.  The common library under \<open>common/\<close> gives intrusive lists (\<open>list.h\<close>) and
  the message digest (\<open>md5.c\<close>), among others.

  \<^bold>\<open>Theories and sources.\<close>

  \<^item> \<open>DTC_Prelude\<close>: handles, the wrap-around of \<open>uint8_t\<close> to \<open>uint64_t\<close> counters, list and bit lemmas.

  \<^item> \<open>Bin_Malloc\<close>: \<open>bin_malloc.{h,cc}\<close> in the order of the code: the segment header, chunk headers
    with the in-use bit of the previous chunk in the low bits of the size, the bins and their
    bitmap, \<open>Init\<close>, \<open>Attach\<close>, \<open>Malloc\<close>, \<open>Calloc\<close>, \<open>ReAlloc\<close>, \<open>Free\<close>, \<open>CheckBin\<close>.  The state is the
    record \<open>CBinMalloc\<close>; the chunk headers are a map from addresses, user bytes are another.
    \<open>Bin_Malloc_Heap\<close>, \<open>_Inv\<close>, \<open>_Free\<close>, \<open>_Alloc\<close>, \<open>_Fresh\<close>, \<open>_Props\<close> prove that the memory between bottom
    and top is tiled by chunks, free ones in exactly one bin and never adjacent where they can
    be merged, and that every operation keeps this; \<open>Bin_Malloc_Correct\<close> and \<open>Bin_Malloc_ReAlloc\<close> state
    the properties.

  \<^item> \<open>Mallocator\<close>: the contract of the abstract class \<open>CMallocator\<close> as the locales \<open>mallocator\<close> and
    \<open>callocator\<close>, interpreted on \<open>CBinMalloc\<close> in \<open>Bin_Malloc_Props\<close> and extended by \<open>tree_alloc\<close>.

  \<^item> \<open>Cdll\<close>: circular doubly linked lists over any pair of link functions, as the locale \<open>cdll\<close>; it
    is interpreted on the lists of groups, on the LRU lists and on \<open>list_head\<close>.

  \<^item> \<open>Node_Group\<close>, \<open>Node_Store\<close>, \<open>Node_Lists\<close>: the groups of 256 nodes, the two-level index, the
    group manager with \<open>AllocateNode\<close> and \<open>ReleaseNode\<close>, and the LRU lists.  \<open>Node_Store_Init\<close>,
    \<open>Node_Store_Inv\<close> and \<open>Node_Store_Correct\<close> show that formatting establishes the invariant of the
    store, that allocation gives a node not in use with an id the index maps back, and that
    release returns it.

  \<^item> \<open>T_Tree\<close>: \<open>t_tree.{h,cc}\<close>: insertion with the give-away of an item of a full node, deletion with
    the four ways to fill the gap, the rotations, \<open>Find\<close>, destruction and all traversals.
    \<open>T_Tree_Heap\<close> relates the nodes in memory to tree shapes, \<open>T_Tree_Items\<close> proves the loops inside a
    node, \<open>T_Tree_Insert\<close> and \<open>T_Tree_Delete\<close> the two operations for every allocator that keeps the
    contract, \<open>T_Tree_Visit\<close> searches and traversals, and \<open>T_Tree_Correct\<close> states the properties over
    the allocator of \<open>Bin_Malloc\<close>: the tree stays an AVL tree of chunks and refines a finite map.

  \<^item> \<open>Chunk_Memory\<close>: the same abstract class as the packed rows use it, with the bytes behind a handle:
    the locale \<open>chunk_memory\<close>, interpreted on \<open>CBinMalloc\<close>.

  \<^item> \<open>Raw_Data\<close>: \<open>raw_data.{h,cc}\<close>, the class \<open>CRawData\<close>: the macros that read and write at the cursor,
    \<open>Init\<close>, \<open>Attach\<close>, encoding, decoding and skipping of a row, insertion, replacement and deletion of
    rows, the header.  \<open>Raw_Data_Format\<close> gives the bytes of a row and shows that the loops agree with
    them, \<open>Raw_Data_Memory\<close> has rules for the bytes of the chunk (stores, \<open>memmove\<close>, reallocation),
    \<open>Raw_Data_Rows\<close>, \<open>Raw_Data_Ops\<close> and \<open>Raw_Data_Life\<close> show that each operation does to the list of rows
    what it should, for every allocator with the contract, and \<open>Raw_Data_Correct\<close> states the properties
    on the segment allocator.

  \<^item> \<open>Cache_Hash\<close>, \<open>Cache_Pool\<close>: \<open>hash.{h,cc}\<close> with both hash functions, \<open>data_chunk.h\<close>, and the class
    \<open>CCachePool\<close> of \<open>cache_pool.{h,cc}\<close>: the chains of nodes in the buckets, lookup while the hash changes,
    allocation of a node for a key, purging.  \<open>Cache_Chain\<close> has singly linked chains as the locale
    \<open>next_links\<close>, \<open>Cache_Frame\<close> and \<open>Cache_Alloc\<close> what the node operations leave alone, \<open>Cache_Pool_Inv\<close>,
    \<open>Cache_Hash_Ops\<close> and \<open>Cache_Pool_Ops\<close> the invariant of the pool, which joins node store, hash, LRU lists and
    data chunks, \<open>Cache_Pool_Find\<close>, \<open>_Life\<close> and \<open>_Store\<close> what each operation does to the entries of the pool, the
    pairs of a key and its node, and \<open>Cache_Pool_Correct\<close> the properties.

  \<^item> \<open>Cache_Purge\<close>: the rest of \<open>CCachePool\<close>: the list of empty nodes, the time markers in the dirty list, and
    purging nodes from the end of the clean list.  \<open>Cache_Process\<close>: the transaction of \<open>cache_process.{h,cc}\<close> on a
    node: finding it, moving it between the LRU lists, making a new one, and the lists of empty nodes at
    startup.  \<open>Cache_Purge_Ops\<close> and \<open>Cache_Process_Ops\<close> follow the walks along the lists, which change while
    they are walked, and \<open>Cache_Process_Correct\<close> states the properties: purging spares the node it is told to
    spare, a new node is found unless nothing can be purged, and nodes end up in the list they belong to.

  \<^item> \<open>Empty_Filter\<close>: \<open>empty_filter.{h,cc}\<close> with the bit operations of \<open>common/bitsop.h\<close>: the set of keys that are known
    to have no rows, as bitmaps in the segment that grow; it shows what growing does to the set, also when
    the segment is full.  \<open>Cache_Feature\<close>: \<open>feature.{h,cc}\<close>, the table of handles that is read when a segment is attached.

  \<^item> \<open>List_Head\<close>: \<open>common/list.h\<close>, the operations as updates of two link functions, the iteration
    macros as the lists of addresses they visit.

  \<^item> \<open>MD5\<close>: \<open>common/md5.{h,c}\<close> on 32-bit words, and its equality with the definition of RFC 1321 for every
    way of cutting the message into buffers.

  \<^bold>\<open>Bounds and loops.\<close>  Loops over structures in memory that the code does not bound are
  \<open>partial_function (option)\<close>: not returning, a null handle that is followed and an index outside
  an array are all \<open>None\<close>, and each property shows \<open>Some\<close>.  There is no fuel.  Machine integers
  are natural numbers with their wrap-around written out (\<open>u8\<close>, \<open>u16\<close>, \<open>u32\<close>), \<open>signed_take_bit 31\<close>
  where a 64-bit result is stored into an \<open>int\<close>, and 32-bit words in \<open>MD5\<close>.

  \<^bold>\<open>Parameters.\<close>  The comparison and the key of a record in the T-tree are function arguments, as
  in the code; the properties assume that the comparison, cut to an \<open>int\<close>, has the sign of the order
  of the keys (\<open>key_order\<close>).  Destruction of a record is an argument too.  For the packed rows the
  conversions between \<open>double\<close> and \<open>float\<close>, the clock and the success of \<open>malloc\<close> are arguments.  The clock,
  the table definition and the configuration that the pool reads are in the record \<open>pool_env\<close>, and the
  answer of the filter of empty keys is an argument of \<open>TransationFindNode\<close>.

  \<^bold>\<open>Not modelled.\<close>  Text of error messages, logging and statistics samples; the memory checks that
  are compiled only in debug builds; opening the shared memory; the handlers
  of requests, which work on request objects, the hot backup and the update log;
  and everything that is input and output: sockets, files, processes and databases.
\<close>

end
